(* ===== verification/Prelude.thy ===== *)
theory Prelude
  imports Main "HOL-Library.Word" "HOL-Library.Monad_Syntax" "HOL-Library.Signed_Division"
begin

text \<open>
  Shared vocabulary of the development: the machine types of the C sources, byte buffers
  with bounds-checked access, conversion between words and their byte representation, the
  \<^verbatim>\<open>errno\<close> values the sources return, and the generic lemmas on bytes, words and lists
  that the component theories rest on.

  Conventions used everywhere:
  \<^item> \<^verbatim>\<open>uint8_t\<close>, \<^verbatim>\<open>uint16_t\<close>, \<^verbatim>\<open>uint32_t\<close> and \<^verbatim>\<open>uint64_t\<close> are words of their width, so
    that arithmetic wraps around as in C;
  \<^item> a byte buffer is a list, and its allocated size is the length of the list. Reading or
    writing outside of it is undefined in C and is \<^const>\<open>None\<close> here, so that a theorem
    which shows a result \<open>Some r\<close> also shows that no access is out of bounds;
  \<^item> multi-byte accesses through a cast pointer are little endian, as on the x86-64 and
    AArch64 targets of the library.
\<close>

unbundle bit_operations_syntax

section \<open>Machine types and error numbers\<close>

type_synonym u8 = "8 word"
type_synonym u16 = "16 word"
type_synonym u32 = "32 word"
type_synonym u64 = "64 word"

abbreviation (input) EIO :: int where "EIO \<equiv> 5"
abbreviation (input) ENOMEM :: int where "ENOMEM \<equiv> 12"
abbreviation (input) EACCES :: int where "EACCES \<equiv> 13"
abbreviation (input) EBUSY :: int where "EBUSY \<equiv> 16"
abbreviation (input) EINVAL :: int where "EINVAL \<equiv> 22"
abbreviation (input) ENOSYS :: int where "ENOSYS \<equiv> 38"

named_theorems cmem \<open>access to byte buffers\<close>
named_theorems byte_conv \<open>words and their bytes\<close>

text \<open>C division truncates towards zero; on non-negative operands it is the usual one.\<close>

lemma sdiv_nonneg: "0 \<le> a \<Longrightarrow> 0 < b \<Longrightarrow> a sdiv b = a div (b :: int)"
  by (cases "a = 0") (simp_all add: signed_divide_int_def)

section \<open>Buffers\<close>

definition rd :: "'a list \<Rightarrow> nat \<Rightarrow> 'a option" where
  "rd buf i = (if i < length buf then Some (buf ! i) else None)"

definition wr :: "'a list \<Rightarrow> nat \<Rightarrow> 'a \<Rightarrow> 'a list option" where
  "wr buf i v = (if i < length buf then Some (buf[i := v]) else None)"

text \<open>Reading and writing \<open>n\<close> consecutive cells, as \<^verbatim>\<open>memcpy\<close> does.\<close>

definition rdn :: "'a list \<Rightarrow> nat \<Rightarrow> nat \<Rightarrow> 'a list option" where
  "rdn buf off n = (if off + n \<le> length buf then Some (take n (drop off buf)) else None)"

definition wrn :: "'a list \<Rightarrow> nat \<Rightarrow> 'a list \<Rightarrow> 'a list option" where
  "wrn buf off vs =
     (if off + length vs \<le> length buf
      then Some (take off buf @ vs @ drop (off + length vs) buf) else None)"

lemma rd_append [cmem]: "rd (xs @ y # ys) (length xs) = Some y"
  by (simp add: rd_def)

lemma wr_append [cmem]: "wr (xs @ y # ys) (length xs) v = Some (xs @ v # ys)"
  by (simp add: wr_def)

lemma rdn_append [cmem]: "n = length ys \<Longrightarrow> rdn (xs @ ys @ zs) (length xs) n = Some ys"
  by (simp add: rdn_def)

lemma wrn_append [cmem]:
  "length vs = length ys \<Longrightarrow> wrn (xs @ ys @ zs) (length xs) vs = Some (xs @ vs @ zs)"
  by (simp add: wrn_def)

lemma rdn_length: "rdn buf off n = Some vs \<Longrightarrow> length vs = n"
  by (auto simp: rdn_def split: if_splits)

lemma wr_length: "wr buf i v = Some buf' \<Longrightarrow> length buf' = length buf"
  by (auto simp: wr_def split: if_splits)

lemma wrn_length: "wrn buf off vs = Some buf' \<Longrightarrow> length buf' = length buf"
  by (auto simp: wrn_def split: if_splits)

lemma split_at: "off + n \<le> length buf \<Longrightarrow>
    \<exists>xs ys zs. buf = xs @ ys @ zs \<and> length xs = off \<and> length ys = n"
  by (rule exI [of _ "take off buf"], rule exI [of _ "take n (drop off buf)"],
      rule exI [of _ "drop (off + n) buf"])
    (auto simp: min_def add.commute simp flip: drop_drop)

text \<open>\<^verbatim>\<open>memcpy\<close> and \<^verbatim>\<open>memset\<close> into a buffer that is known to have room.\<close>

definition blit :: "'a list \<Rightarrow> nat \<Rightarrow> 'a list \<Rightarrow> 'a list" where
  "blit buf off vs = take off buf @ vs @ drop (off + length vs) buf"

lemma length_blit [simp]: "off + length vs \<le> length buf \<Longrightarrow> length (blit buf off vs) = length buf"
  by (simp add: blit_def)

lemma take_blit [simp]: "off \<le> length buf \<Longrightarrow> take (off + length vs) (blit buf off vs) = take off buf @ vs"
  by (simp add: blit_def)

lemma drop_blit: "off \<le> length buf \<Longrightarrow> off + length vs \<le> k \<Longrightarrow> drop k (blit buf off vs) = drop k buf"
  by (simp add: blit_def)

lemma wrn_blit: "off + length vs \<le> length buf \<Longrightarrow> wrn buf off vs = Some (blit buf off vs)"
  by (simp add: wrn_def blit_def)

lemma wr_blit_snoc:
  assumes "off + length vs < length buf"
  shows "wr (blit buf off vs) (off + length vs) v = Some (blit buf off (vs @ [v]))"
proof -
  obtain c where "drop (off + length vs) buf = c # drop (Suc (off + length vs)) buf"
    using Cons_nth_drop_Suc [OF assms] by metis
  then have "blit buf off vs = (take off buf @ vs) @ c # drop (Suc (off + length vs)) buf"
    by (simp add: blit_def)
  then show ?thesis
    using wr_append [of "take off buf @ vs" c "drop (Suc (off + length vs)) buf" v] assms
    by (simp add: blit_def)
qed

lemma length4_conv: "length xs = 4 \<longleftrightarrow> (\<exists>a b c d. xs = [a, b, c, d])"
  by (auto simp: numeral_eq_Suc length_Suc_conv)

lemma length8_conv: "length xs = 8 \<longleftrightarrow> (\<exists>a b c d e f g h. xs = [a, b, c, d, e, f, g, h])"
  by (auto simp: numeral_eq_Suc length_Suc_conv)

text \<open>Intervals of numerals as explicit lists, for the evaluation of table checks.\<close>

lemma upt_eval_0: "[0..<numeral n] = 0 # [Suc 0..<numeral n]"
  by (simp add: upt_conv_Cons)

lemma upt_eval_1: "[Suc 0..<numeral n] = (if Suc 0 < numeral n then Suc 0 # [2..<numeral n] else [])"
  by (auto simp: upt_conv_Cons numeral_2_eq_2)

lemmas upt_eval = upt_eval_0 upt_eval_1 upt_rec_numeral

section \<open>Bytes of words\<close>

definition le_bytes32 :: "u32 \<Rightarrow> u8 list" where
  "le_bytes32 w = [ucast w, ucast (drop_bit 8 w), ucast (drop_bit 16 w), ucast (drop_bit 24 w)]"

definition word32_of_le :: "u8 list \<Rightarrow> u32" where
  "word32_of_le bs = ucast (bs ! 0) OR push_bit 8 (ucast (bs ! 1))
     OR push_bit 16 (ucast (bs ! 2)) OR push_bit 24 (ucast (bs ! 3))"

definition le_bytes64 :: "u64 \<Rightarrow> u8 list" where
  "le_bytes64 w = map (\<lambda>i. ucast (drop_bit (8 * i) w)) [0, 1, 2, 3, 4, 5, 6, 7]"

definition be_bytes32 :: "u32 \<Rightarrow> u8 list" where
  "be_bytes32 w = [ucast (drop_bit 24 w), ucast (drop_bit 16 w), ucast (drop_bit 8 w), ucast w]"

definition word32_of_be :: "u8 list \<Rightarrow> u32" where
  "word32_of_be bs = push_bit 24 (ucast (bs ! 0)) OR push_bit 16 (ucast (bs ! 1))
     OR push_bit 8 (ucast (bs ! 2)) OR ucast (bs ! 3)"

definition be_bytes64 :: "u64 \<Rightarrow> u8 list" where
  "be_bytes64 w = map (\<lambda>i. ucast (drop_bit (8 * i) w)) [7, 6, 5, 4, 3, 2, 1, 0]"

lemma bit_u8_beyond [simp]: "8 \<le> n \<Longrightarrow> \<not> bit (b :: u8) n"
  by (auto dest: bit_imp_le_length)

lemma bit_u8_shifted [simp]:
  "\<not> bit (b :: u8) (8 + n)" "\<not> bit (b :: u8) (16 + n)" "\<not> bit (b :: u8) (24 + n)"
  by simp_all

lemma length_bytes [simp]:
  "length (le_bytes32 w) = 4" "length (be_bytes32 w) = 4"
  "length (le_bytes64 v) = 8" "length (be_bytes64 v) = 8"
  by (simp_all add: le_bytes32_def be_bytes32_def le_bytes64_def be_bytes64_def)

lemma word32_of_le_bytes [byte_conv, simp]: "word32_of_le (le_bytes32 w) = w"
proof (rule bit_eqI)
  fix n assume "possible_bit TYPE(32 word) n"
  then have "n < 32" by simp
  then consider "n < 8" | "8 \<le> n" "n - 8 < 8" | "16 \<le> n" "n - 16 < 8" | "24 \<le> n" "n - 24 < 8"
    by linarith
  then show "bit (word32_of_le (le_bytes32 w)) n = bit w n"
    by cases (auto simp: word32_of_le_def le_bytes32_def bit_simps)
qed

lemma le_bytes32_of_word [byte_conv]: "length bs = 4 \<Longrightarrow> le_bytes32 (word32_of_le bs) = bs"
  by (auto simp: length4_conv le_bytes32_def word32_of_le_def bit_simps intro!: bit_eqI)

lemma word32_of_be_bytes [byte_conv, simp]: "word32_of_be (be_bytes32 w) = w"
proof (rule bit_eqI)
  fix n assume "possible_bit TYPE(32 word) n"
  then have "n < 32" by simp
  then consider "n < 8" | "8 \<le> n" "n - 8 < 8" | "16 \<le> n" "n - 16 < 8" | "24 \<le> n" "n - 24 < 8"
    by linarith
  then show "bit (word32_of_be (be_bytes32 w)) n = bit w n"
    by cases (auto simp: word32_of_be_def be_bytes32_def bit_simps)
qed

lemma be_bytes32_of_word [byte_conv]: "length bs = 4 \<Longrightarrow> be_bytes32 (word32_of_be bs) = bs"
  by (auto simp: length4_conv be_bytes32_def word32_of_be_def bit_simps intro!: bit_eqI)

lemma le_bytes64_inject: "le_bytes64 v = le_bytes64 w \<Longrightarrow> v = w"
proof (rule bit_eqI)
  fix n assume eq: "le_bytes64 v = le_bytes64 w" and "possible_bit TYPE(64 word) n"
  then have n: "n < 64" by simp
  have "(ucast (drop_bit (8 * (n div 8)) v) :: u8) = ucast (drop_bit (8 * (n div 8)) w)"
  proof -
    have "n div 8 \<in> {0, 1, 2, 3, 4, 5, 6, 7}" using n by auto
    then show ?thesis using eq by (auto simp: le_bytes64_def)
  qed
  then have "bit (ucast (drop_bit (8 * (n div 8)) v) :: u8) (n mod 8) =
      bit (ucast (drop_bit (8 * (n div 8)) w) :: u8) (n mod 8)"
    by simp
  then show "bit v n = bit w n" by (simp add: bit_simps)
qed

lemma take_bit_eq_self_less: "take_bit n w = (w :: 'a::len word) \<Longrightarrow> unat w < 2 ^ n"
  by (metis take_bit_nat_less_exp unsigned_take_bit_eq)

section \<open>Every byte\<close>

text \<open>A property of all bytes follows from its 256 instances.\<close>

lemma all_bytesI: "list_all P (map of_nat [0..<256]) \<Longrightarrow> P (x :: u8)"
proof -
  assume "list_all P (map of_nat [0..<256])"
  moreover have "unat x < 256" using unsigned_less [of x] by simp
  then have "x \<in> set (map of_nat [0..<256])"
    by (auto simp: image_iff intro!: bexI [of _ "unat x"])
  ultimately show ?thesis by (auto simp: list_all_iff)
qed

lemma unat_u8_less [simp]: "unat (x :: u8) < 256"
  using unsigned_less [of x] by simp

section \<open>C strings and the \<^verbatim>\<open>int\<close> type\<close>

abbreviation NUL :: char where
  "NUL \<equiv> CHR 0x00"

text \<open>The buffer after a text and its terminator have been written to its beginning.\<close>

definition cstring :: "char list \<Rightarrow> char list \<Rightarrow> char list" where
  "cstring text out = text @ NUL # drop (Suc (length text)) out"

text \<open>A \<^verbatim>\<open>size_t\<close> narrowed to \<^verbatim>\<open>int\<close>.\<close>

definition int_of_size :: "nat \<Rightarrow> int" where
  "int_of_size n = sint (of_nat n :: 32 word)"

lemma int_of_size_small: "n < 2 ^ 31 \<Longrightarrow> int_of_size n = int n"
  by (simp add: int_of_size_def signed_of_nat signed_take_bit_int_eq_self)

lemma sint32_range: "- (2 ^ 31) \<le> sint (w :: 32 word)" "sint (w :: 32 word) < 2 ^ 31"
  using sint_ge [of w] sint_lt [of w] by simp_all

text \<open>The value of an \<^verbatim>\<open>int\<close> expression; a result that does not fit is undefined.\<close>

definition c_int :: "int \<Rightarrow> int option" where
  "c_int i = (if - (2 ^ 31) \<le> i \<and> i < 2 ^ 31 then Some i else None)"

lemma c_int_small: "- (2 ^ 31) \<le> i \<Longrightarrow> i < 2 ^ 31 \<Longrightarrow> c_int i = Some i"
  by (simp add: c_int_def)

section \<open>Hexadecimal digits\<close>

definition tohex :: "char list" where
  "tohex = ''0123456789abcdef''"

text \<open>Two digits for every byte, the high one first, as the digests are printed.\<close>

definition hex_byte :: "u8 \<Rightarrow> char list" where
  "hex_byte b = [tohex ! unat (drop_bit 4 b AND 0xf), tohex ! unat (b AND 0xf)]"

definition hex_digits :: "u8 list \<Rightarrow> char list" where
  "hex_digits bs = concat (map hex_byte bs)"

text \<open>Reading the digits back.\<close>

definition hex_val :: "char \<Rightarrow> u8" where
  "hex_val c = (let v = of_char c in if 97 \<le> v then v - 87 else v - 48)"

fun unhex :: "char list \<Rightarrow> u8 list" where
  "unhex (c # d # cs) = (push_bit 4 (hex_val c) OR hex_val d) # unhex cs"
| "unhex _ = []"

lemma hex_val_tohex:
  assumes "n < 16"
  shows "hex_val (tohex ! n) = of_nat n"
proof -
  have "list_all (\<lambda>n. hex_val (tohex ! n) = of_nat n) [0..<16]"
    by (simp add: tohex_def hex_val_def Let_def upt_eval)
  with assms show ?thesis by (simp add: list_all_iff)
qed

lemma nibble_less: "unat ((b :: u8) AND 0xf) < 16"
proof -
  have "b AND 0xf = take_bit 4 b" by (simp add: take_bit_eq_mask mask_numeral)
  then show ?thesis by (simp add: take_bit_eq_self_less [of 4, simplified])
qed

lemma hex_byte_correct: "set (hex_byte b) \<subseteq> set tohex \<and> unhex (hex_byte b) = [b]"
proof -
  have "push_bit 4 (drop_bit 4 b AND 0xf) OR (b AND 0xf) = (b :: u8)"
  proof (rule bit_eqI)
    fix n assume "possible_bit TYPE(8 word) n"
    then have "n < 8" by simp
    have m: "(0xf :: u8) = mask 4" by (simp add: mask_numeral)
    show "bit (push_bit 4 (drop_bit 4 b AND 0xf) OR (b AND 0xf)) n = bit b n"
      unfolding m using \<open>n < 8\<close> by (cases "n < 4") (auto simp: bit_simps not_less)
  qed
  moreover have "length tohex = 16" by (simp add: tohex_def)
  ultimately show ?thesis
    using nibble_less [of b] nibble_less [of "drop_bit 4 b"] by (simp add: hex_byte_def hex_val_tohex)
qed

lemma unhex_hex_digits [simp]: "unhex (hex_digits bs) = bs"
proof (induction bs)
  case (Cons b bs)
  then show ?case
    using hex_byte_correct [of b] by (simp add: hex_digits_def hex_byte_def)
qed (simp add: hex_digits_def)

lemma length_hex_digits [simp]: "length (hex_digits bs) = 2 * length bs"
  by (induction bs) (simp_all add: hex_digits_def hex_byte_def)

lemma set_hex_digits [simp]: "set (hex_digits bs) \<subseteq> set tohex"
  using hex_byte_correct by (auto simp: hex_digits_def)

end
