(* ===== verification/Tea.thy ===== *)
theory Tea
  imports Prelude
begin

text \<open>
  The Tiny Encryption Algorithm of \<^verbatim>\<open>tea.c\<close>. A block is two 32-bit words; a message
  buffer is encrypted in place, block by block, and its last partial block is zero padded to
  a full one, so the buffer must have room for \<^verbatim>\<open>tea_bag_size(len)\<close> bytes.
\<close>

definition TEA_CONSTANT :: u32 where
  "TEA_CONSTANT = 0x9e3779b9"

abbreviation (input) TEA_BAG_SIZE :: int where
  "TEA_BAG_SIZE \<equiv> 8"

section \<open>One block\<close>

text \<open>The two halves of the body of the encryption loop, shared with the decryption loop.\<close>

definition tea_f0 :: "u32 list \<Rightarrow> u32 \<Rightarrow> u32 \<Rightarrow> u32" where
  "tea_f0 k sm v1 = (push_bit 4 v1 + k ! 0) XOR (v1 + sm) XOR (drop_bit 5 v1 + k ! 1)"

definition tea_f1 :: "u32 list \<Rightarrow> u32 \<Rightarrow> u32 \<Rightarrow> u32" where
  "tea_f1 k sm v0 = (push_bit 4 v0 + k ! 2) XOR (v0 + sm) XOR (drop_bit 5 v0 + k ! 3)"

fun encrypt_loop :: "nat \<Rightarrow> u32 list \<Rightarrow> u32 \<Rightarrow> u32 \<Rightarrow> u32 \<Rightarrow> u32 \<times> u32" where
  "encrypt_loop 0 k sm v0 v1 = (v0, v1)"
| "encrypt_loop (Suc n) k sm v0 v1 =
     (let sm = sm + TEA_CONSTANT;
          v0 = v0 + tea_f0 k sm v1;
          v1 = v1 + tea_f1 k sm v0
      in encrypt_loop n k sm v0 v1)"

definition encrypt_block :: "u32 list \<Rightarrow> u32 \<times> u32 \<Rightarrow> u32 \<times> u32" where
  "encrypt_block k v = encrypt_loop 32 k 0 (fst v) (snd v)"

fun decrypt_loop :: "nat \<Rightarrow> u32 list \<Rightarrow> u32 \<Rightarrow> u32 \<Rightarrow> u32 \<Rightarrow> u32 \<times> u32" where
  "decrypt_loop 0 k sm v0 v1 = (v0, v1)"
| "decrypt_loop (Suc n) k sm v0 v1 =
     (let v1 = v1 - tea_f1 k sm v0;
          v0 = v0 - tea_f0 k sm v1;
          sm = sm - TEA_CONSTANT
      in decrypt_loop n k sm v0 v1)"

definition decrypt_block :: "u32 list \<Rightarrow> u32 \<times> u32 \<Rightarrow> u32 \<times> u32" where
  "decrypt_block k v = decrypt_loop 32 k 0xC6EF3720 (fst v) (snd v)"

section \<open>Whole buffers\<close>

text \<open>A block seen as the eight bytes at which the \<^verbatim>\<open>uint32_t *\<close> points.\<close>

definition load_block :: "u8 list \<Rightarrow> u32 \<times> u32" where
  "load_block bs = (word32_of_le (take 4 bs), word32_of_le (drop 4 bs))"

definition store_block :: "u32 \<times> u32 \<Rightarrow> u8 list" where
  "store_block v = le_bytes32 (fst v) @ le_bytes32 (snd v)"

definition tea_key :: "u8 list \<Rightarrow> u32 list" where
  "tea_key key = [word32_of_le (take 4 key), word32_of_le (take 4 (drop 4 key)),
     word32_of_le (take 4 (drop 8 key)), word32_of_le (take 4 (drop 12 key))]"

text \<open>
  The \<^verbatim>\<open>data\<close> pointer is an offset into the caller's buffer. The tail of a message that
  is not a multiple of the block size is copied to a zeroed block, and the whole encrypted
  block is written back.
\<close>

function tea_encrypt_at :: "u32 list \<Rightarrow> u8 list \<Rightarrow> nat \<Rightarrow> int \<Rightarrow> u8 list option" where
  "tea_encrypt_at k data off len =
     (if len \<ge> TEA_BAG_SIZE then
        do { bs \<leftarrow> rdn data off 8;
             data' \<leftarrow> wrn data off (store_block (encrypt_block k (load_block bs)));
             tea_encrypt_at k data' (off + 8) (len - TEA_BAG_SIZE) }
      else if len > 0 then
        do { bs \<leftarrow> rdn data off (nat len);
             wrn data off (store_block (encrypt_block k (load_block (bs @ replicate (8 - nat len) 0)))) }
      else Some data)"
  by pat_completeness auto
termination
  by (relation "measure (\<lambda>(k, data, off, len). nat len)") auto

declare tea_encrypt_at.simps [simp del]

definition tea_encrypt :: "u8 list \<Rightarrow> u8 list \<Rightarrow> int \<Rightarrow> u8 list option" where
  "tea_encrypt key data len = tea_encrypt_at (tea_key key) data 0 len"

definition tea_bag_size :: "int \<Rightarrow> int option" where
  "tea_bag_size len =
     (let m = len AND (TEA_BAG_SIZE - 1)
      in if m \<noteq> 0 then c_int (len + (TEA_BAG_SIZE - m)) else Some len)"

function tea_decrypt_at :: "u32 list \<Rightarrow> u8 list \<Rightarrow> nat \<Rightarrow> int \<Rightarrow> u8 list option" where
  "tea_decrypt_at k data off len =
     (if len \<ge> TEA_BAG_SIZE then
        do { bs \<leftarrow> rdn data off 8;
             data' \<leftarrow> wrn data off (store_block (decrypt_block k (load_block bs)));
             tea_decrypt_at k data' (off + 8) (len - TEA_BAG_SIZE) }
      else Some data)"
  by pat_completeness auto
termination
  by (relation "measure (\<lambda>(k, data, off, len). nat len)") auto

declare tea_decrypt_at.simps [simp del]

definition tea_decrypt :: "u8 list \<Rightarrow> u8 list \<Rightarrow> int \<Rightarrow> u8 list option" where
  "tea_decrypt key data len = tea_decrypt_at (tea_key key) data 0 len"

section \<open>Decryption inverts encryption\<close>

text \<open>
  The decryption loop runs the same rounds backwards: started with the sum the encryption
  loop ended with, \<open>n\<close> rounds undo \<open>n\<close> rounds.
\<close>

lemma decrypt_loop_add:
  "decrypt_loop (m + n) k sm v0 v1 =
     (case decrypt_loop m k sm v0 v1 of (a, b) \<Rightarrow>
        decrypt_loop n k (sm - of_nat m * TEA_CONSTANT) a b)"
  by (induction m arbitrary: sm v0 v1) (simp_all add: Let_def algebra_simps)

lemma decrypt_encrypt_loop:
  "encrypt_loop n k sm v0 v1 = (a, b) \<Longrightarrow>
     decrypt_loop n k (sm + of_nat n * TEA_CONSTANT) a b = (v0, v1)"
proof (induction n arbitrary: sm v0 v1)
  case (Suc n)
  let ?s = "sm + TEA_CONSTANT"
  let ?v0 = "v0 + tea_f0 k ?s v1"
  let ?v1 = "v1 + tea_f1 k ?s ?v0"
  from Suc.prems have "encrypt_loop n k ?s ?v0 ?v1 = (a, b)"
    by (simp add: Let_def)
  from Suc.IH [OF this] have "decrypt_loop n k (sm + of_nat (Suc n) * TEA_CONSTANT) a b = (?v0, ?v1)"
    by (simp add: algebra_simps)
  then show ?case
    using decrypt_loop_add [of n 1 k "sm + of_nat (Suc n) * TEA_CONSTANT" a b]
    by (simp add: Let_def algebra_simps)
qed simp

lemma decrypt_encrypt_block: "decrypt_block k (encrypt_block k v) = v"
proof -
  have "(0xC6EF3720 :: u32) = 0 + of_nat 32 * TEA_CONSTANT"
    by (simp add: TEA_CONSTANT_def)
  then show ?thesis
    using decrypt_encrypt_loop [of 32 k 0 "fst v" "snd v" "fst (encrypt_block k v)" "snd (encrypt_block k v)"]
    by (simp add: encrypt_block_def decrypt_block_def)
qed

lemma load_store_block [simp]: "load_block (store_block v) = v"
  by (simp add: load_block_def store_block_def)

lemma store_load_block: "length bs = 8 \<Longrightarrow> store_block (load_block bs) = bs"
  by (simp add: load_block_def store_block_def le_bytes32_of_word)

lemma length_store_block [simp]: "length (store_block v) = 8"
  by (simp add: store_block_def)

lemma tea_bag_size_eq:
  assumes "0 \<le> len" "len \<le> 2 ^ 31 - 8"
  shows "tea_bag_size len = Some ((len + 7) div 8 * 8)"
proof -
  have "len AND 7 = len mod 8"
    using take_bit_eq_mask [of 3 len] by (simp add: take_bit_eq_mod mask_eq_exp_minus_1)
  moreover obtain q m where "len = m + 8 * q" "0 \<le> m" "m < 8"
    by (metis mod_mult_div_eq pos_mod_sign pos_mod_bound zero_less_numeral)
  moreover have "(m + 7) div 8 = (if m = 0 then 0 else 1)"
    using calculation by (auto simp: div_pos_pos_trivial div_pos_geq)
  moreover have "(m + 8 * q + 7) div 8 = (m + 7) div 8 + q"
    using div_mult_self2 [of 8 "m + 7" q] by (simp add: algebra_simps)
  ultimately show ?thesis
    using assms by (auto simp: tea_bag_size_def Let_def c_int_small)
qed

text \<open>The sum is undefined for the last lengths of an \<^verbatim>\<open>int\<close>.\<close>

lemma tea_bag_size_overflow: "tea_bag_size (2 ^ 31 - 7) = None"
  by (simp add: tea_bag_size_def c_int_def)

text \<open>The padded message: what the buffer holds after encryption and decryption.\<close>

definition zero_pad :: "u8 list \<Rightarrow> u8 list" where
  "zero_pad msg = msg @ replicate (nat ((int (length msg) + 7) div 8 * 8) - length msg) 0"

lemma zero_pad_short: "0 < length msg \<Longrightarrow> length msg < 8 \<Longrightarrow> zero_pad msg = msg @ replicate (8 - length msg) 0"
proof -
  assume "0 < length msg" "length msg < 8"
  then have "(int (length msg) + 7) div 8 = 1" by presburger
  then show ?thesis by (simp add: zero_pad_def)
qed

lemma zero_pad_block: "length b = 8 \<Longrightarrow> zero_pad (b @ msg) = b @ zero_pad msg"
proof -
  assume "length b = 8"
  moreover have "(int (length msg) + 15) div 8 = (int (length msg) + 7) div 8 + 1"
    using div_add_self2 [of 8 "int (length msg) + 7"] by simp
  ultimately show ?thesis
    by (simp add: zero_pad_def nat_add_distrib algebra_simps)
qed

lemma length_zero_pad: "int (length (zero_pad msg)) = (int (length msg) + 7) div 8 * 8"
proof -
  have "int (length msg) \<le> (int (length msg) + 7) div 8 * 8" by presburger
  then show ?thesis by (simp add: zero_pad_def)
qed

lemma dvd_length_zero_pad: "8 dvd length (zero_pad msg)"
proof -
  have "int 8 dvd int (length (zero_pad msg))"
    unfolding length_zero_pad by simp
  then show ?thesis by (simp only: int_dvd_int_iff)
qed

text \<open>
  Encryption of a buffer maps the block cipher over the blocks of the padded message and
  touches nothing else; the same shape holds for decryption.
\<close>

fun tea_blocks :: "(u32 \<times> u32 \<Rightarrow> u32 \<times> u32) \<Rightarrow> nat \<Rightarrow> u8 list \<Rightarrow> u8 list" where
  "tea_blocks f 0 bs = []"
| "tea_blocks f (Suc n) bs = store_block (f (load_block (take 8 bs))) @ tea_blocks f n (drop 8 bs)"

lemma length_tea_blocks [simp]: "length (tea_blocks f n bs) = 8 * n"
  by (induction n arbitrary: bs) auto

lemma tea_blocks_inverse:
  assumes "\<And>v. g (f v) = v"
  shows "length bs = 8 * n \<Longrightarrow> tea_blocks g n (tea_blocks f n bs) = bs"
proof (induction n arbitrary: bs)
  case (Suc n)
  then show ?case by (simp add: assms store_load_block)
qed simp

lemma tea_encrypt_at_blocks:
  "length room = length (zero_pad msg) - length msg \<Longrightarrow>
     tea_encrypt_at k (pre @ msg @ room @ post) (length pre) (int (length msg)) =
       Some (pre @ tea_blocks (encrypt_block k) (length (zero_pad msg) div 8) (zero_pad msg) @ post)"
proof (induction "length msg" arbitrary: pre msg rule: less_induct)
  case less
  consider (whole) "8 \<le> length msg" | (part) "0 < length msg" "length msg < 8" | (none) "msg = []"
    by (cases msg) (simp_all, linarith)
  then show ?case
  proof cases
    case whole
    then obtain b m where msg: "msg = b @ m" "length b = 8"
      by (metis append_take_drop_id length_take min.absorb2)
    let ?c = "store_block (encrypt_block k (load_block b))"
    have "tea_encrypt_at k ((pre @ ?c) @ m @ room @ post) (length (pre @ ?c)) (int (length m)) =
        Some ((pre @ ?c) @ tea_blocks (encrypt_block k) (length (zero_pad m) div 8) (zero_pad m) @ post)"
      using less.prems msg by (intro less.hyps) (simp_all add: zero_pad_block)
    moreover have "(8 + length (zero_pad m)) div 8 = Suc (length (zero_pad m) div 8)" by simp
    ultimately show ?thesis using msg
      by (subst tea_encrypt_at.simps) (simp add: rdn_append wrn_append zero_pad_block)
  next
    case part
    with less.prems show ?thesis
      by (subst tea_encrypt_at.simps)
        (simp add: rdn_append wrn_append [where ys = "msg @ room", simplified] zero_pad_short)
  next
    case none
    with less.prems show ?thesis
      by (subst tea_encrypt_at.simps) (simp add: zero_pad_def)
  qed
qed

lemma tea_decrypt_at_blocks:
  "length msg = 8 * n \<Longrightarrow>
     tea_decrypt_at k (pre @ msg @ post) (length pre) (int (length msg)) =
       Some (pre @ tea_blocks (decrypt_block k) n msg @ post)"
proof (induction n arbitrary: pre msg)
  case 0
  then show ?case by (subst tea_decrypt_at.simps) simp
next
  case (Suc n)
  then obtain b m where msg: "msg = b @ m" "length b = 8" "length m = 8 * n"
    by (metis append_take_drop_id length_drop length_take min.absorb2 add_diff_cancel_left'
        le_add1 mult_Suc_right)
  let ?c = "store_block (decrypt_block k (load_block b))"
  have "tea_decrypt_at k ((pre @ ?c) @ m @ post) (length (pre @ ?c)) (int (length m)) =
      Some ((pre @ ?c) @ tea_blocks (decrypt_block k) n m @ post)"
    using msg by (intro Suc.IH)
  with msg show ?case
    by (subst tea_decrypt_at.simps) (simp add: rdn_append wrn_append)
qed

text \<open>
  C6. Encrypting a message in place with room for its padding succeeds without leaving the
  buffer, and decrypting the result gives the zero padded message back; the bytes behind the
  message are unchanged. The length is one for which \<^verbatim>\<open>tea_bag_size\<close> is an \<^verbatim>\<open>int\<close>, below
  2 GiB.
\<close>

theorem tea_roundtrip:
  assumes "length room = length (zero_pad msg) - length msg" "length msg \<le> 2 ^ 31 - 8"
  shows "\<exists>buf size. tea_encrypt key (msg @ room @ post) (int (length msg)) = Some buf \<and>
    tea_bag_size (int (length msg)) = Some size \<and> size = int (length (zero_pad msg)) \<and>
    tea_decrypt key buf size = Some (zero_pad msg @ post)"
proof -
  let ?n = "length (zero_pad msg) div 8"
  let ?c = "tea_blocks (encrypt_block (tea_key key)) ?n (zero_pad msg)"
  have n: "length (zero_pad msg) = 8 * ?n"
    using dvd_length_zero_pad [of msg] by simp
  have "tea_encrypt key (msg @ room @ post) (int (length msg)) = Some (?c @ post)"
    using tea_encrypt_at_blocks [OF assms(1), of _ "[]"] by (simp add: tea_encrypt_def)
  moreover have "tea_decrypt key (?c @ post) (int (length ?c)) = Some (zero_pad msg @ post)"
    using tea_decrypt_at_blocks [of ?c ?n "tea_key key" "[]" post] n
    by (simp add: tea_decrypt_def tea_blocks_inverse decrypt_encrypt_block)
  moreover have "int (length ?c) = int (length (zero_pad msg))" using n by simp
  moreover have "tea_bag_size (int (length msg)) = Some (int (length (zero_pad msg)))"
    using assms(2) unfolding length_zero_pad by (intro tea_bag_size_eq) simp_all
  ultimately show ?thesis by auto
qed

theorem tea_roundtrip_witness:
  "length ([0, 0, 0] :: u8 list) = length (zero_pad [1, 2, 3, 4, 5]) - length ([1, 2, 3, 4, 5] :: u8 list) \<and>
   (\<exists>buf size. tea_encrypt (replicate 16 7) ([1, 2, 3, 4, 5] @ [0, 0, 0] @ [9]) (int (length ([1, 2, 3, 4, 5] :: u8 list))) = Some buf \<and>
     tea_bag_size (int (length ([1, 2, 3, 4, 5] :: u8 list))) = Some size \<and> size = int (length (zero_pad [1, 2, 3, 4, 5])) \<and>
     tea_decrypt (replicate 16 7) buf size =
       Some (zero_pad [1, 2, 3, 4, 5] @ [9]))"
proof -
  have room: "length ([0, 0, 0] :: u8 list) = length (zero_pad [1, 2, 3, 4, 5]) - length ([1, 2, 3, 4, 5] :: u8 list)"
    by (simp add: zero_pad_def)
  show ?thesis
    using room tea_roundtrip [OF room, of "replicate 16 7" "[9]"] by simp
qed

end
