(* ===== verification/Base64.thy ===== *)
theory Base64
  imports Prelude
begin

text \<open>
  The base64 codec of \<^verbatim>\<open>base64.c\<close>: the two tables, the block functions, the public
  functions with their destination checks, and the two loops. Pointers into the caller's
  buffers are offsets; the file-level table \<^verbatim>\<open>alphabet\<close>, whose last two entries every call of
  \<^verbatim>\<open>base64_encode\<close> overwrites, is passed in and handed back.
\<close>

section \<open>Tables\<close>

definition base64_letters :: string where
  "base64_letters = ''ABCDEFGHIJKLMNOPQRSTUVWXYZ'' @ ''abcdefghijklmnopqrstuvwxyz'' @ ''0123456789''"

text \<open>The initial value of the table: the URL safe variant.\<close>

definition base64_alphabet0 :: string where
  "base64_alphabet0 = base64_letters @ ''-_''"

definition base64_reverse :: "u8 list" where
  "base64_reverse =
  [0xff, 0xff, 0xff, 0xff, 0xff, 0xff, 0xff, 0xff, 0xff, 0xff, 0xff, 0xff, 0xff, 0xff, 0xff, 0xff,
   0xff, 0xff, 0xff, 0xff, 0xff, 0xff, 0xff, 0xff, 0xff, 0xff, 0xff, 0xff, 0xff, 0xff, 0xff, 0xff,
   0xff, 0xff, 0xff, 0xff, 0xff, 0xff, 0xff, 0xff, 0xff, 0xff, 0xff, 0x3e, 0xff, 0x3e, 0xff, 0x3f,
   0x34, 0x35, 0x36, 0x37, 0x38, 0x39, 0x3a, 0x3b, 0x3c, 0x3d, 0xff, 0xff, 0xff, 0xff, 0xff, 0xff,
   0xff, 0x00, 0x01, 0x02, 0x03, 0x04, 0x05, 0x06, 0x07, 0x08, 0x09, 0x0a, 0x0b, 0x0c, 0x0d, 0x0e,
   0x0f, 0x10, 0x11, 0x12, 0x13, 0x14, 0x15, 0x16, 0x17, 0x18, 0x19, 0xff, 0xff, 0xff, 0xff, 0x3f,
   0xff, 0x1a, 0x1b, 0x1c, 0x1d, 0x1e, 0x1f, 0x20, 0x21, 0x22, 0x23, 0x24, 0x25, 0x26, 0x27, 0x28,
   0x29, 0x2a, 0x2b, 0x2c, 0x2d, 0x2e, 0x2f, 0x30, 0x31, 0x32, 0x33, 0xff, 0xff, 0xff, 0xff, 0xff]"

abbreviation base64_pad :: char where
  "base64_pad \<equiv> CHR ''=''"

section \<open>Encoding\<close>

text \<open>Bytes are promoted to \<^verbatim>\<open>int\<close> before they are shifted.\<close>

definition encode_block :: "string \<Rightarrow> u8 list \<Rightarrow> string" where
  "encode_block alphabet src =
     [alphabet ! unat (drop_bit 2 (ucast (src ! 0) :: u32)),
      alphabet ! unat ((push_bit 4 (ucast (src ! 0) :: u32) AND 0x30) OR drop_bit 4 (ucast (src ! 1))),
      alphabet ! unat ((push_bit 2 (ucast (src ! 1) :: u32) AND 0x3c) OR drop_bit 6 (ucast (src ! 2))),
      alphabet ! unat (ucast (src ! 2) AND (0x3f :: u32))]"

text \<open>
  The lengths are unbounded integers here. The expression of the source stays within an
  \<^verbatim>\<open>int\<close> for lengths up to 1610612733; the properties below have a destination that holds
  the encoded text and whose size the caller passes as an \<^verbatim>\<open>int\<close>.
\<close>

definition base64_encoded_len :: "int \<Rightarrow> int" where
  "base64_encoded_len len = (len + 2) sdiv 3 * 4"

function encode_loop :: "string \<Rightarrow> string \<Rightarrow> nat \<Rightarrow> u8 list \<Rightarrow> nat \<Rightarrow> int \<Rightarrow> int \<Rightarrow> (int \<times> string) option" where
  "encode_loop alphabet dst d src s len cnt =
     (if len \<ge> 3 then
        do { block \<leftarrow> rdn src s 3;
             dst \<leftarrow> wrn dst d (encode_block alphabet block);
             encode_loop alphabet dst (d + 4) src (s + 3) (len - 3) (cnt + 4) }
      else if len > 0 then
        do { part \<leftarrow> rdn src s (nat len);
             dst \<leftarrow> wrn dst d (encode_block alphabet (part @ replicate (3 - nat len) 0));
             dst \<leftarrow> wr dst (d + 3) base64_pad;
             dst \<leftarrow> (if len = 1 then wr dst (d + 2) base64_pad else Some dst);
             dst \<leftarrow> wr dst (d + 4) NUL;
             Some (cnt + 4, dst) }
      else
        do { dst \<leftarrow> wr dst d NUL;
             Some (cnt, dst) })"
  by pat_completeness auto
termination
  by (relation "measure (\<lambda>(alphabet, dst, d, src, s, len, cnt). nat len)") auto

declare encode_loop.simps [simp del]

text \<open>
  The result is the value returned, the destination buffer and the table. The flag is
  \<^verbatim>\<open>base64url_safe\<close>.
\<close>

definition base64_encode ::
  "bool \<Rightarrow> string \<Rightarrow> string \<Rightarrow> int \<Rightarrow> u8 list \<Rightarrow> int \<Rightarrow> (int \<times> string \<times> string) option" where
  "base64_encode base64url_safe alphabet dst dlen src len =
     (if base64_encoded_len len \<ge> dlen then Some (-1, dst, alphabet)
      else
        let alphabet = (if base64url_safe then alphabet[62 := CHR ''-'', 63 := CHR ''_'']
                        else alphabet[62 := CHR ''+'', 63 := CHR ''/''])
        in do { (cnt, dst) \<leftarrow> encode_loop alphabet dst 0 src 0 len 0;
                Some (cnt, dst, alphabet) })"

section \<open>Decoding\<close>

text \<open>
  The loop that fills \<^verbatim>\<open>block\<close>. It starts from the indeterminate contents of the
  automatic array and leaves the number of characters in front of a pad, or fails on a
  character outside of both alphabets (\<open>Some None\<close>, the \<^verbatim>\<open>return -1\<close>).
\<close>

fun decode_chars :: "nat \<Rightarrow> nat \<Rightarrow> u8 list \<Rightarrow> string \<Rightarrow> nat \<Rightarrow> (nat \<times> u8 list) option option" where
  "decode_chars 0 i block src s = Some (Some (i, block))"
| "decode_chars (Suc n) i block src s =
     do { ch \<leftarrow> rd src s;
          if ch = base64_pad then Some (Some (i, block))
          else let block = block[i := base64_reverse ! unat (of_char ch AND (0x7f :: u8))]
               in if block ! i = 0xff then Some None
                  else decode_chars n (Suc i) block src (Suc s) }"

definition decode_block :: "u8 list \<Rightarrow> u8 list \<Rightarrow> nat \<Rightarrow> string \<Rightarrow> nat \<Rightarrow> (int \<times> u8 list) option" where
  "decode_block stack dst d src s =
     do { r \<leftarrow> decode_chars 4 0 stack src s;
          case r of
            None \<Rightarrow> Some (-1, dst)
          | Some (i, block) \<Rightarrow>
              do { dst \<leftarrow> wr dst d ((push_bit 2 (block ! 0) AND 0xfc) OR (drop_bit 4 (block ! 1) AND 3));
                   dst \<leftarrow> (if i > 2 then wr dst (d + 1) ((push_bit 4 (block ! 1) AND 0xf0) OR (drop_bit 2 (block ! 2) AND 0xf))
                           else Some dst);
                   dst \<leftarrow> (if i > 3 then wr dst (d + 2) ((push_bit 6 (block ! 2) AND 0xc0) OR (block ! 3 AND 0x3f))
                           else Some dst);
                   Some (int i - 1, dst) } }"

definition base64_decoded_len :: "int \<Rightarrow> int" where
  "base64_decoded_len len = len sdiv 4 * 3"

function decode_loop :: "u8 list \<Rightarrow> u8 list \<Rightarrow> nat \<Rightarrow> string \<Rightarrow> nat \<Rightarrow> int \<Rightarrow> int \<Rightarrow> (int \<times> u8 list) option" where
  "decode_loop stack dst d src s len cnt =
     (if len \<ge> 4 then
        do { (n, dst) \<leftarrow> decode_block stack dst d src s;
             if n = -1 then Some (0, dst)
             else decode_loop stack dst (nat (int d + n)) src (s + 4) (len - 4) (cnt + n) }
      else Some (cnt, dst))"
  by pat_completeness auto
termination
  by (relation "measure (\<lambda>(stack, dst, d, src, s, len, cnt). nat len)") auto

declare decode_loop.simps [simp del]

definition base64_decode :: "u8 list \<Rightarrow> u8 list \<Rightarrow> int \<Rightarrow> string \<Rightarrow> int \<Rightarrow> (int \<times> u8 list) option" where
  "base64_decode stack dst dlen src len =
     (if base64_decoded_len len > dlen then Some (-1, dst)
      else decode_loop stack dst 0 src 0 len 0)"

section \<open>The tables invert each other\<close>

definition reverse_of :: "char \<Rightarrow> u8" where
  "reverse_of ch = base64_reverse ! unat (of_char ch AND (0x7f :: u8))"

definition base64_alphabet :: "bool \<Rightarrow> string" where
  "base64_alphabet url = base64_letters @ (if url then ''-_'' else ''+/'')"

lemma length_base64_letters [simp]: "length base64_letters = 62"
  by (simp add: base64_letters_def)

lemma alphabet_check:
  "list_all (\<lambda>i. reverse_of (base64_alphabet url ! i) = of_nat i \<and> base64_alphabet url ! i \<noteq> base64_pad) [0..<64]"
  by (cases url) (simp_all add: reverse_of_def base64_alphabet_def base64_letters_def base64_reverse_def upt_eval)

lemma alphabet_reverse:
  assumes "take_bit 6 w = (w :: u32)"
  shows "reverse_of (base64_alphabet url ! unat w) = ucast w"
    and "base64_alphabet url ! unat w \<noteq> base64_pad"
    and "(ucast w :: u8) \<noteq> 0xff"
proof -
  have less: "unat w < 64"
    using take_bit_eq_self_less [OF assms] by simp
  then have "unat w \<in> set [0..<64]" by simp
  with alphabet_check [of url]
  have *: "reverse_of (base64_alphabet url ! unat w) = of_nat (unat w) \<and> base64_alphabet url ! unat w \<noteq> base64_pad"
    unfolding list_all_iff by blast
  then show "reverse_of (base64_alphabet url ! unat w) = ucast w"
    and "base64_alphabet url ! unat w \<noteq> base64_pad" by simp_all
  show "(ucast w :: u8) \<noteq> 0xff"
  proof
    assume "(ucast w :: u8) = 0xff"
    then have "unat (ucast w :: u8) = 255" by simp
    with less show False by (simp add: unsigned_ucast_eq take_bit_eq_mod)
  qed
qed

lemma masks:
  "(0x30 :: u32) = push_bit 4 (mask 2)" "(0x3c :: u32) = push_bit 2 (mask 4)" "(0x3f :: u32) = mask 6"
  "(0xfc :: u8) = push_bit 2 (mask 6)" "(3 :: u8) = mask 2" "(0xf0 :: u8) = push_bit 4 (mask 4)"
  "(0xf :: u8) = mask 4" "(0xc0 :: u8) = push_bit 6 (mask 2)" "(0x3f :: u8) = mask 6"
  by (simp_all add: mask_eq_exp_minus_1)

lemma Suc_Suc_diff2: "2 \<le> n \<Longrightarrow> Suc (Suc (n - 2)) = n"
  by simp

lemma group_bytes:
  fixes a b c :: u8
  defines "i0 \<equiv> drop_bit 2 (ucast a :: u32)"
    and "i1 \<equiv> (push_bit 4 (ucast a :: u32) AND 0x30) OR drop_bit 4 (ucast b)"
    and "i2 \<equiv> (push_bit 2 (ucast b :: u32) AND 0x3c) OR drop_bit 6 (ucast c)"
    and "i3 \<equiv> ucast c AND (0x3f :: u32)"
  shows "take_bit 6 i0 = i0" "take_bit 6 i1 = i1" "take_bit 6 i2 = i2" "take_bit 6 i3 = i3"
    and "(push_bit 2 (ucast i0) AND 0xfc) OR (drop_bit 4 (ucast i1) AND 3) = a"
    and "(push_bit 4 (ucast i1) AND 0xf0) OR (drop_bit 2 (ucast i2) AND 0xf) = b"
    and "(push_bit 6 (ucast i2) AND 0xc0) OR (ucast i3 AND 0x3f) = c"
  unfolding assms masks
  by (rule bit_eqI, auto simp: Suc_Suc_diff2 simp: bit_simps dest: bit_imp_le_length)+


section \<open>RFC 4648\<close>

text \<open>
  The specification of RFC 4648, section 4: three bytes are a 24-bit number, written with
  four digits in base 64; a last group of one or two bytes is padded. The bit operations of
  \<^const>\<open>encode_block\<close> compute these digits.
\<close>

definition sextets :: "u8 \<Rightarrow> u8 \<Rightarrow> u8 \<Rightarrow> nat list" where
  "sextets a b c =
     (let n = unat a * 65536 + unat b * 256 + unat c
      in [n div 262144, n div 4096 mod 64, n div 64 mod 64, n mod 64])"

lemma unat_or_disjoint:
  "(x :: 'a::len word) AND y = 0 \<Longrightarrow> unat (x OR y) = unat x + unat y"
  by (metis disjunctive_add_eq_or unsigned_and_eq unsigned_or_eq unsigned_0)

lemma unat_ucast_u8_u32 [simp]: "unat (ucast (a :: u8) :: u32) = unat a"
  using less_trans [OF unat_u8_less [of a], of "2 ^ 32"]
  by (simp add: unsigned_ucast_eq take_bit_eq_mod)

lemma unat_push_take:
  assumes "n + k \<le> 32"
  shows "unat (push_bit n (take_bit k (x :: u32))) = 2 ^ n * (unat x mod 2 ^ k)"
proof -
  have "unat x mod 2 ^ k < 2 ^ k" by simp
  then have "2 ^ n * (unat x mod 2 ^ k) < 2 ^ n * 2 ^ k" by (simp del: mod_less_divisor)
  also have "\<dots> \<le> 2 ^ 32" using assms power_increasing [of "n + k" 32 "2::nat"] by (simp add: power_add)
  finally show ?thesis
    unfolding unsigned_push_bit_eq unsigned_take_bit_eq
    by (simp add: push_bit_eq_mult take_bit_eq_mod mult.commute)
qed

lemma sextet_arith:
  assumes "x < 256" "y < 256" "z < (256 :: nat)"
  shows "(x * 65536 + y * 256 + z) div 262144 = x div 4"
    and "(x * 65536 + y * 256 + z) div 4096 mod 64 = 16 * (x mod 4) + y div 16"
    and "(x * 65536 + y * 256 + z) div 64 mod 64 = 4 * (y mod 16) + z div 64"
    and "(x * 65536 + y * 256 + z) mod 64 = z mod 64"
proof -
  show "(x * 65536 + y * 256 + z) div 262144 = x div 4" using assms by linarith
  have "(x * 65536 + y * 256 + z) div 4096 = 16 * x + y div 16"
    using assms by linarith
  also have "\<dots> = 16 * (x mod 4) + y div 16 + 64 * (x div 4)"
    using div_mult_mod_eq [of x 4] by linarith
  finally have "(x * 65536 + y * 256 + z) div 4096 = \<dots>" .
  then show "(x * 65536 + y * 256 + z) div 4096 mod 64 = 16 * (x mod 4) + y div 16"
    using assms by (simp only: mod_mult_self2) (rule mod_less, linarith)
  have "(x * 65536 + y * 256 + z) div 64 = 1024 * x + 4 * y + z div 64"
    using assms by linarith
  also have "\<dots> = 4 * (y mod 16) + z div 64 + 64 * (16 * x + y div 16)"
    using div_mult_mod_eq [of y 16] unfolding distrib_left by linarith
  finally have "(x * 65536 + y * 256 + z) div 64 = \<dots>" .
  then show "(x * 65536 + y * 256 + z) div 64 mod 64 = 4 * (y mod 16) + z div 64"
    using assms by (simp only: mod_mult_self2) (rule mod_less, linarith)
  have "x * 65536 + y * 256 + z = z + 64 * (1024 * x + 4 * y)" by simp
  then show "(x * 65536 + y * 256 + z) mod 64 = z mod 64" by (simp only: mod_mult_self2)
qed

lemma encode_block_sextets:
  "encode_block alphabet [a, b, c] = map (nth alphabet) (sextets a b c)"
proof -
  have bounds: "unat a < 256" "unat b < 256" "unat c < 256" by simp_all
  have i0: "unat (drop_bit 2 (ucast a :: u32)) = unat a div 4"
    unfolding unat_drop_bit_eq by (simp add: drop_bit_eq_div)
  have "unat (push_bit 4 (ucast a :: u32) AND 0x30) = 16 * (unat a mod 4)"
    "unat (push_bit 2 (ucast b :: u32) AND 0x3c) = 4 * (unat b mod 16)"
  proof -
    have "push_bit 4 (ucast a :: u32) AND 0x30 = push_bit 4 (take_bit 2 (ucast a))"
      "push_bit 2 (ucast b :: u32) AND 0x3c = push_bit 2 (take_bit 4 (ucast b))"
      unfolding masks by (rule bit_eqI, auto simp: bit_simps)+
    then show "unat (push_bit 4 (ucast a :: u32) AND 0x30) = 16 * (unat a mod 4)"
      "unat (push_bit 2 (ucast b :: u32) AND 0x3c) = 4 * (unat b mod 16)"
      by (simp_all only: unat_push_take) simp_all
  qed
  moreover have "(push_bit 4 (ucast a :: u32) AND 0x30) AND drop_bit 4 (ucast b) = 0"
     "(push_bit 2 (ucast b :: u32) AND 0x3c) AND drop_bit 6 (ucast c) = 0"
    unfolding masks by (rule bit_eqI, auto simp: bit_simps dest: bit_imp_le_length)+
  moreover have "unat (drop_bit 4 (ucast b :: u32)) = unat b div 16" "unat (drop_bit 6 (ucast c :: u32)) = unat c div 64"
    unfolding unat_drop_bit_eq by (simp_all add: drop_bit_eq_div)
  ultimately have i12: "unat ((push_bit 4 (ucast a :: u32) AND 0x30) OR drop_bit 4 (ucast b)) = 16 * (unat a mod 4) + unat b div 16"
    "unat ((push_bit 2 (ucast b :: u32) AND 0x3c) OR drop_bit 6 (ucast c)) = 4 * (unat b mod 16) + unat c div 64"
    by (simp_all add: unat_or_disjoint)
  have i3: "unat (ucast c AND (0x3f :: u32)) = unat c mod 64"
    unfolding masks take_bit_eq_mask [symmetric] unsigned_take_bit_eq by (simp add: take_bit_eq_mod)
  note sextet_arith [OF bounds]
  then show ?thesis
    by (simp add: encode_block_def sextets_def Let_def i0 i12 i3)
qed

fun base64_spec :: "string \<Rightarrow> u8 list \<Rightarrow> string" where
  "base64_spec alphabet [] = []"
| "base64_spec alphabet [a] = map (nth alphabet) (take 2 (sextets a 0 0)) @ [base64_pad, base64_pad]"
| "base64_spec alphabet [a, b] = map (nth alphabet) (take 3 (sextets a b 0)) @ [base64_pad]"
| "base64_spec alphabet (a # b # c # rest) = map (nth alphabet) (sextets a b c) @ base64_spec alphabet rest"

lemma length_sextets [simp]: "length (sextets a b c) = 4"
  by (simp add: sextets_def Let_def)

lemma length_base64_spec: "length (base64_spec alphabet bs) = (length bs + 2) div 3 * 4"
proof (induction alphabet bs rule: base64_spec.induct)
  case (4 alphabet a b c rest)
  have "(length rest + 5) div 3 = (length rest + 2) div 3 + 1"
    using div_add_self2 [of 3 "length rest + 2"] by simp
  with 4 show ?case by (simp add: add.commute)
qed simp_all

lemma sextets_conv: "\<exists>i j k l. sextets a b c = [i, j, k, l]"
  by (simp add: sextets_def Let_def)

lemma encode_loop_spec:
  "length room > length (base64_spec alphabet bs) \<Longrightarrow>
     encode_loop alphabet (out @ room) (length out) (pre @ bs @ post) (length pre) (int (length bs)) cnt =
       Some (cnt + int (length (base64_spec alphabet bs)),
             out @ base64_spec alphabet bs @ NUL # drop (length (base64_spec alphabet bs) + 1) room)"
proof (induction alphabet bs arbitrary: out room pre cnt rule: base64_spec.induct)
  case (1 alphabet)
  then obtain x room' where "room = x # room'" by (cases room) auto
  then show ?case
    by (subst encode_loop.simps) (simp add: wr_append)
next
  case (2 alphabet a)
  then obtain r0 r1 r2 r3 r4 room' where [simp]: "room = r0 # r1 # r2 # r3 # r4 # room'"
    by (auto simp: neq_Nil_conv Suc_le_length_iff numeral_eq_Suc dest!: Suc_leI)
  obtain i j k l where "sextets a 0 0 = [i, j, k, l]" using sextets_conv by blast
  then show ?case
    by (subst encode_loop.simps)
      (simp add: rdn_def wrn_def wr_def encode_block_sextets list_update_append numeral_eq_Suc)
next
  case (3 alphabet a b)
  then obtain r0 r1 r2 r3 r4 room' where [simp]: "room = r0 # r1 # r2 # r3 # r4 # room'"
    by (auto simp: neq_Nil_conv Suc_le_length_iff numeral_eq_Suc dest!: Suc_leI)
  obtain i j k l where "sextets a b 0 = [i, j, k, l]" using sextets_conv by blast
  then show ?case
    by (subst encode_loop.simps)
      (simp add: rdn_def wrn_def wr_def encode_block_sextets list_update_append numeral_eq_Suc)
next
  case (4 alphabet a b c rest)
  then obtain r0 r1 r2 r3 room' where [simp]: "room = r0 # r1 # r2 # r3 # room'"
    by (auto simp: neq_Nil_conv Suc_le_length_iff numeral_eq_Suc dest!: Suc_leI)
  obtain i j k l where [simp]: "sextets a b c = [i, j, k, l]" using sextets_conv by blast
  let ?e = "map (nth alphabet) [i, j, k, l]"
  have "encode_loop alphabet ((out @ ?e) @ room') (length (out @ ?e)) ((pre @ [a, b, c]) @ rest @ post)
      (length (pre @ [a, b, c])) (int (length rest)) (cnt + 4) =
    Some (cnt + 4 + int (length (base64_spec alphabet rest)),
      (out @ ?e) @ base64_spec alphabet rest @ NUL # drop (length (base64_spec alphabet rest) + 1) room')"
    using "4.prems" by (intro "4.IH") simp
  then show ?case
    by (subst encode_loop.simps)
      (simp add: rdn_def wrn_def encode_block_sextets numeral_eq_Suc)
qed

section \<open>Decoding inverts encoding\<close>

lemma base64_encoded_len_nat: "base64_encoded_len (int n) = int ((n + 2) div 3 * 4)"
  by (simp add: base64_encoded_len_def sdiv_nonneg zdiv_int)

lemma base64_decoded_len_nat: "base64_decoded_len (int n) = int (n div 4 * 3)"
  by (simp add: base64_decoded_len_def sdiv_nonneg zdiv_int)

text \<open>What a whole group of four alphabet characters decodes to.\<close>

lemma decode_chars_group:
  assumes "length stack = 4" and "\<And>ch. ch \<in> {c0, c1, c2, c3} \<Longrightarrow> ch \<noteq> base64_pad \<and> reverse_of ch \<noteq> 0xff"
  shows "decode_chars 4 0 stack (pre @ [c0, c1, c2, c3] @ post) (length pre) =
      Some (Some (4, map reverse_of [c0, c1, c2, c3]))"
    and "decode_chars 4 0 stack (pre @ [c0, c1, c2, base64_pad] @ post) (length pre) =
      Some (Some (3, map reverse_of [c0, c1, c2] @ drop 3 stack))"
    and "decode_chars 4 0 stack (pre @ [c0, c1, base64_pad, base64_pad] @ post) (length pre) =
      Some (Some (2, map reverse_of [c0, c1] @ drop 2 stack))"
proof -
  obtain x0 x1 x2 x3 where [simp]: "stack = [x0, x1, x2, x3]"
    using assms(1) by (auto simp: length4_conv)
  have [simp]: "c0 \<noteq> base64_pad" "c1 \<noteq> base64_pad" "c2 \<noteq> base64_pad" "c3 \<noteq> base64_pad"
    "reverse_of c0 \<noteq> 0xff" "reverse_of c1 \<noteq> 0xff" "reverse_of c2 \<noteq> 0xff" "reverse_of c3 \<noteq> 0xff"
    using assms(2) by auto
  have four: "(4 :: nat) = Suc (Suc (Suc (Suc 0)))" by simp
  show "decode_chars 4 0 stack (pre @ [c0, c1, c2, c3] @ post) (length pre) =
      Some (Some (4, map reverse_of [c0, c1, c2, c3]))"
    unfolding four by (simp add: rd_def nth_append flip: reverse_of_def)
  show "decode_chars 4 0 stack (pre @ [c0, c1, c2, base64_pad] @ post) (length pre) =
      Some (Some (3, map reverse_of [c0, c1, c2] @ drop 3 stack))"
    unfolding four by (simp add: rd_def nth_append flip: reverse_of_def)
  show "decode_chars 4 0 stack (pre @ [c0, c1, base64_pad, base64_pad] @ post) (length pre) =
      Some (Some (2, map reverse_of [c0, c1] @ drop 2 stack))"
    unfolding four by (simp add: rd_def nth_append flip: reverse_of_def)
qed

lemma decode_block_group:
  assumes stack: "length stack = 4" and cs: "cs = map (nth (base64_alphabet url)) (sextets a b c)"
  shows "decode_block stack (out @ r0 # r1 # r2 # room) (length out) (pre @ cs @ post) (length pre) =
      Some (3, out @ a # b # c # room)"
    and "decode_block stack (out @ r0 # r1 # room) (length out)
        (pre @ (take 3 cs @ [base64_pad]) @ post) (length pre) = Some (2, out @ a # b # room)"
    and "decode_block stack (out @ r0 # room) (length out)
        (pre @ (take 2 cs @ [base64_pad, base64_pad]) @ post) (length pre) = Some (1, out @ a # room)"
proof -
  note g = group_bytes(1) [of a] group_bytes(2) [of a b] group_bytes(3) [of b c] group_bytes(4) [of c]
    group_bytes(5) [of a b] group_bytes(6) [of a b c] group_bytes(7) [of b c]
  note rev = g(1-4) [THEN alphabet_reverse(1), where url = url]
  from cs obtain c0 c1 c2 c3 where [simp]: "cs = [c0, c1, c2, c3]"
    and c: "c0 = base64_alphabet url ! unat (drop_bit 2 (ucast a :: u32))"
     "c1 = base64_alphabet url ! unat ((push_bit 4 (ucast a :: u32) AND 0x30) OR drop_bit 4 (ucast b))"
     "c2 = base64_alphabet url ! unat ((push_bit 2 (ucast b :: u32) AND 0x3c) OR drop_bit 6 (ucast c))"
     "c3 = base64_alphabet url ! unat (ucast c AND (0x3f :: u32))"
    by (simp add: encode_block_def flip: encode_block_sextets)
  have legal: "ch \<noteq> base64_pad \<and> reverse_of ch \<noteq> 0xff" if "ch \<in> {c0, c1, c2, c3}" for ch
    using that g(1-4) by (auto simp: c alphabet_reverse)
  show "decode_block stack (out @ r0 # r1 # r2 # room) (length out) (pre @ cs @ post) (length pre) =
      Some (3, out @ a # b # c # room)"
    unfolding decode_block_def
    using decode_chars_group(1) [OF stack, of c0 c1 c2 c3 pre post, OF legal]
    by (simp add: rev [folded c] g(5-7) wr_def list_update_append)
  show "decode_block stack (out @ r0 # r1 # room) (length out)
        (pre @ (take 3 cs @ [base64_pad]) @ post) (length pre) = Some (2, out @ a # b # room)"
    unfolding decode_block_def
    using decode_chars_group(2) [OF stack, of c0 c1 c2 c3 pre post, OF legal]
    by (simp add: rev [folded c] g(5-7) wr_def list_update_append)
  show "decode_block stack (out @ r0 # room) (length out)
        (pre @ (take 2 cs @ [base64_pad, base64_pad]) @ post) (length pre) = Some (1, out @ a # room)"
    unfolding decode_block_def
    using decode_chars_group(3) [OF stack, of c0 c1 c2 c3 pre post, OF legal]
    by (simp add: rev [folded c] g(5-7) wr_def list_update_append)
qed


lemma decode_loop_spec:
  assumes stack: "length stack = 4"
  shows "length bs \<le> length room \<Longrightarrow>
    decode_loop stack (out @ room) (length out) (pre @ base64_spec (base64_alphabet url) bs @ post) (length pre)
      (int (length (base64_spec (base64_alphabet url) bs))) cnt =
    Some (cnt + int (length bs), out @ bs @ drop (length bs) room)"
proof (induction "base64_alphabet url" bs arbitrary: out room pre cnt rule: base64_spec.induct)
  case 1
  then show ?case by (subst decode_loop.simps) simp
next
  case (2 a)
  then obtain r0 room' where "room = r0 # room'" by (cases room) auto
  then show ?case
    using decode_block_group(3) [OF stack refl, of out r0 room' pre url a 0 0 post]
    by (subst decode_loop.simps) (simp add: take_map decode_loop.simps [of _ _ _ _ _ 0])
next
  case (3 a b)
  then obtain r0 r1 room' where "room = r0 # r1 # room'"
    by (auto simp: Suc_le_length_iff numeral_eq_Suc)
  then show ?case
    using decode_block_group(2) [OF stack refl, of out r0 r1 room' pre url a b 0 post]
    by (subst decode_loop.simps) (simp add: take_map decode_loop.simps [of _ _ _ _ _ 0])
next
  case (4 a b c rest)
  then obtain r0 r1 r2 room' where room: "room = r0 # r1 # r2 # room'"
    by (auto simp: Suc_le_length_iff numeral_eq_Suc)
  let ?cs = "map (nth (base64_alphabet url)) (sextets a b c)"
  let ?r = "base64_spec (base64_alphabet url) rest"
  have "decode_loop stack ((out @ [a, b, c]) @ room') (length (out @ [a, b, c]))
      ((pre @ ?cs) @ ?r @ post) (length (pre @ ?cs)) (int (length ?r)) (cnt + 3) =
    Some (cnt + 3 + int (length rest), (out @ [a, b, c]) @ rest @ drop (length rest) room')"
    using "4.prems" room by (intro "4.hyps") simp
  moreover have "nat (int (length out) + 3) = Suc (Suc (Suc (length out)))" by simp
  ultimately show ?case
    using decode_block_group(1) [OF stack refl, of out r0 r1 r2 room' pre url a b c "?r @ post"] room
    by (subst decode_loop.simps) simp
qed

lemma encode_alphabet:
  assumes "length alphabet = 64" "take 62 alphabet = base64_letters"
  shows "alphabet[62 := x, 63 := y] = base64_letters @ [x, y]"
proof -
  obtain u v where "alphabet = base64_letters @ [u, v]"
    using assms append_take_drop_id [of 62 alphabet] length_drop [of 62 alphabet]
    by (auto simp: numeral_eq_Suc length_Suc_conv)
  then show ?thesis by (simp add: list_update_append)
qed

text \<open>
  C27. \<^verbatim>\<open>base64_encode\<close> writes exactly the RFC 4648 text of its input in the chosen alphabet,
  followed by the terminator, and returns its length, whenever the destination has room for
  both; it touches no byte behind the terminator.
\<close>

theorem base64_encode_rfc4648:
  assumes "length alphabet = 64" "take 62 alphabet = base64_letters"
    and "(length bs + 2) div 3 * 4 < length dst"
  shows "base64_encode url alphabet dst (int (length dst)) (bs @ more) (int (length bs)) =
    Some (int ((length bs + 2) div 3 * 4),
      base64_spec (base64_alphabet url) bs @ NUL # drop ((length bs + 2) div 3 * 4 + 1) dst,
      base64_alphabet url)"
  using assms encode_loop_spec [of "base64_alphabet url" bs dst "[]" "[]" more 0]
  by (auto simp: base64_encode_def base64_encoded_len_nat length_base64_spec encode_alphabet
      base64_alphabet_def Let_def)

theorem base64_encode_rfc4648_witness:
  "length base64_alphabet0 = 64 \<and> take 62 base64_alphabet0 = base64_letters \<and>
   (length ([1, 2, 251, 255] :: u8 list) + 2) div 3 * 4 < length ''0123456789'' \<and>
   base64_encode False base64_alphabet0 ''0123456789'' (int (length ''0123456789'')) ([1, 2, 251, 255] @ [])
      (int (length ([1, 2, 251, 255] :: u8 list))) = Some (8, ''AQL7/w=='' @ [NUL, CHR ''9''], base64_alphabet False)"
proof -
  have a: "length base64_alphabet0 = 64" "take 62 base64_alphabet0 = base64_letters"
    by (simp_all add: base64_alphabet0_def)
  have len: "(length ([1, 2, 251, 255] :: u8 list) + 2) div 3 * 4 < length ''0123456789''" by simp
  have spec: "base64_spec (base64_alphabet False) [1, 2, 251, 255] = ''AQL7/w==''"
    by (simp add: sextets_def Let_def base64_alphabet_def base64_letters_def)
  show ?thesis
    using a len base64_encode_rfc4648 [OF a len, of False "[]"] spec by simp
qed

text \<open>
  C5. Decoding what was encoded, with either alphabet, gives the original bytes and their
  number, and leaves the rest of the destination alone.
\<close>

theorem base64_roundtrip:
  assumes "length alphabet = 64" "take 62 alphabet = base64_letters"
    and "(length bs + 2) div 3 * 4 < length dst"
    and "(length bs + 2) div 3 * 3 \<le> length out" and "length stack = 4"
  shows "\<exists>n enc alphabet'.
    base64_encode url alphabet dst (int (length dst)) bs (int (length bs)) = Some (n, enc, alphabet') \<and>
    base64_decode stack out (int (length out)) enc n = Some (int (length bs), bs @ drop (length bs) out)"
proof -
  let ?spec = "base64_spec (base64_alphabet url) bs"
  let ?tail = "NUL # drop ((length bs + 2) div 3 * 4 + 1) dst"
  have "length bs \<le> (length bs + 2) div 3 * 3" by linarith
  with assms(4) have "length bs \<le> length out" by linarith
  then have "decode_loop stack out 0 (?spec @ ?tail) 0 (int (length ?spec)) 0 =
      Some (int (length bs), bs @ drop (length bs) out)"
    using decode_loop_spec [OF assms(5), of bs out "[]" "[]"] by simp
  then have "base64_decode stack out (int (length out)) (?spec @ ?tail) (int (length ?spec)) =
      Some (int (length bs), bs @ drop (length bs) out)"
    using assms(4) by (simp only: base64_decode_def base64_decoded_len_nat) (simp add: length_base64_spec)
  moreover have "base64_encode url alphabet dst (int (length dst)) bs (int (length bs)) =
      Some (int (length ?spec), ?spec @ ?tail, base64_alphabet url)"
    using encode_loop_spec [of "base64_alphabet url" bs dst "[]" "[]" "[]" 0] assms(1-3)
    by (auto simp: base64_encode_def base64_encoded_len_nat length_base64_spec encode_alphabet
        base64_alphabet_def Let_def)
  ultimately show ?thesis by blast
qed

theorem base64_roundtrip_witness:
  "\<exists>n enc alphabet'.
    base64_encode True base64_alphabet0 ''0123456789'' (int (length ''0123456789'')) [1, 2, 251, 255]
      (int (length ([1, 2, 251, 255] :: u8 list))) = Some (n, enc, alphabet') \<and>
    base64_decode [0, 0, 0, 0] [0, 0, 0, 0, 0, 0] (int (length ([0, 0, 0, 0, 0, 0] :: u8 list))) enc n =
      Some (int (length ([1, 2, 251, 255] :: u8 list)), [1, 2, 251, 255] @ drop (length ([1, 2, 251, 255] :: u8 list)) [0, 0, 0, 0, 0, 0])"
  by (rule base64_roundtrip) (simp_all add: base64_alphabet0_def)

section \<open>Decoding untrusted input\<close>

lemma decode_chars_total:
  "s + n \<le> length src \<Longrightarrow> i + n \<le> 4 \<Longrightarrow> length block = 4 \<Longrightarrow>
     (case decode_chars n i block src s of
        None \<Rightarrow> False
      | Some None \<Rightarrow> True
      | Some (Some (j, block')) \<Rightarrow> j \<le> 4 \<and> length block' = 4)"
  by (induction n arbitrary: i block s) (auto simp: rd_def Let_def)

lemma decode_block_total:
  assumes "length stack = 4" "s + 4 \<le> length src" "d + 3 \<le> length dst"
  shows "\<exists>n dst'. decode_block stack dst d src s = Some (n, dst') \<and> -1 \<le> n \<and> n \<le> 3 \<and> length dst' = length dst"
  using decode_chars_total [of s 4 src 0 stack] assms
  by (auto simp: decode_block_def wr_def split: option.splits)

lemma decode_loop_total:
  "length stack = 4 \<Longrightarrow> int s + len \<le> int (length src) \<Longrightarrow> int d + len div 4 * 3 \<le> int (length dst) \<Longrightarrow> 0 \<le> len \<Longrightarrow> 0 \<le> cnt \<Longrightarrow>
     \<exists>r dst'. decode_loop stack dst d src s len cnt = Some (r, dst') \<and> length dst' = length dst \<and>
       0 \<le> r \<and> r \<le> cnt + len div 4 * 3"
proof (induction stack dst d src s len cnt rule: decode_loop.induct)
  case (1 stack dst d src s len cnt)
  show ?case
  proof (cases "len \<ge> 4")
    case False
    with 1 show ?thesis by (subst decode_loop.simps) (auto simp: div_pos_pos_trivial)
  next
    case True
    then have div: "len div 4 = (len - 4) div 4 + 1" by (simp add: div_pos_geq)
    moreover have "0 \<le> (len - 4) div 4" using True by (simp add: pos_imp_zdiv_nonneg_iff)
    ultimately have "d + 3 \<le> length dst" "s + 4 \<le> length src"
      using "1.prems" True by linarith+
    then obtain n dst' where b: "decode_block stack dst d src s = Some (n, dst')" "-1 \<le> n" "n \<le> 3" "length dst' = length dst"
      using decode_block_total "1.prems"(1) by blast
    show ?thesis
    proof (cases "n = -1")
      case True
      with b "1.prems" \<open>len \<ge> 4\<close> show ?thesis by (subst decode_loop.simps) (auto simp: pos_imp_zdiv_nonneg_iff)
    next
      case False
      with b have n: "0 \<le> n" by simp
      have "\<exists>r dst''. decode_loop stack dst' (nat (int d + n)) src (s + 4) (len - 4) (cnt + n) = Some (r, dst'') \<and>
          length dst'' = length dst' \<and> 0 \<le> r \<and> r \<le> cnt + n + (len - 4) div 4 * 3"
        using "1.prems" True b n False div
        by (intro "1.IH" [OF True b(1) refl]) auto
      then show ?thesis using True b n False div by (subst decode_loop.simps) force
    qed
  qed
qed

text \<open>
  C28. For any input text whatever, \<^verbatim>\<open>base64_decode\<close> returns, reads no character beyond
  \<^verbatim>\<open>len\<close>, writes no byte beyond \<^verbatim>\<open>dlen\<close>, returns at most \<^verbatim>\<open>dlen\<close> bytes, and leaves the
  destination untouched when it reports that it is too small.
\<close>

theorem base64_decode_safe:
  assumes "length stack = 4" "0 \<le> len" "len \<le> int (length src)" "dlen \<le> int (length dst)"
  shows "\<exists>r dst'. base64_decode stack dst dlen src len = Some (r, dst') \<and> length dst' = length dst \<and>
    -1 \<le> r \<and> (0 \<le> r \<longrightarrow> r \<le> dlen) \<and> (r = -1 \<longrightarrow> dst' = dst)"
proof (cases "base64_decoded_len len > dlen")
  case True
  then show ?thesis by (auto simp: base64_decode_def)
next
  case False
  then have "len div 4 * 3 \<le> dlen" using assms(2) by (simp add: base64_decoded_len_def sdiv_nonneg)
  then show ?thesis
    using decode_loop_total [of stack 0 len src 0 dst 0] assms False by (fastforce simp: base64_decode_def)
qed

theorem base64_decode_safe_witness:
  "\<exists>r dst'. base64_decode [7, 7, 7, 7] [0, 0, 0] 3 ''=?*1'' 4 = Some (r, dst') \<and> length dst' = length ([0, 0, 0] :: u8 list) \<and>
    -1 \<le> r \<and> (0 \<le> r \<longrightarrow> r \<le> 3) \<and> (r = -1 \<longrightarrow> dst' = [0, 0, 0])"
  by (rule base64_decode_safe) simp_all

text \<open>
  Only the low seven bits of a character are looked up, so a byte outside of ASCII is taken
  for the letter it shares them with.
\<close>

lemma base64_decode_high_bit:
  "CHR 0xC1 \<notin> set (base64_alphabet url) \<and> reverse_of (CHR 0xC1) = reverse_of (CHR ''A'') \<and>
   reverse_of (CHR 0xC1) \<noteq> 0xff"
  by (cases url) (simp_all add: reverse_of_def base64_reverse_def base64_alphabet_def base64_letters_def)

end
