(* ===== verification/Block_Hash.thy ===== *)
theory Block_Hash
  imports Prelude
begin

text \<open>
  What \<^verbatim>\<open>md5.c\<close> and \<^verbatim>\<open>sha256.c\<close> have in common: a message is cut into blocks of 64
  bytes that a compression function absorbs one after the other, the bytes of an incomplete
  block wait in the context, and the message ends with the padding byte 0x80, zeros and an
  eight byte length. The locale states what a client relies on; its lemmas show that the
  digest does not depend on how the message was cut into calls of the update function, and
  that it is the digest of the padded message.
\<close>

section \<open>Absorbing blocks\<close>

function absorb :: "('h \<Rightarrow> u8 list \<Rightarrow> 'h) \<Rightarrow> 'h \<Rightarrow> u8 list \<Rightarrow> 'h \<times> u8 list" where
  "absorb compress h bs =
     (if length bs < 64 then (h, bs)
      else absorb compress (compress h (take 64 bs)) (drop 64 bs))"
  by pat_completeness auto
termination
  by (relation "measure (\<lambda>(compress, h, bs). length bs)") auto

declare absorb.simps [simp del]

lemma absorb_short: "length bs < 64 \<Longrightarrow> absorb compress h bs = (h, bs)"
  by (simp add: absorb.simps)

lemma absorb_block: "length b = 64 \<Longrightarrow> absorb compress h (b @ bs) = absorb compress (compress h b) bs"
  by (subst absorb.simps) simp

lemma absorb_append:
  "absorb compress h (xs @ ys) =
     (case absorb compress h xs of (h', r) \<Rightarrow> absorb compress h' (r @ ys))"
proof (induction compress h xs rule: absorb.induct)
  case (1 compress h bs)
  show ?case
  proof (cases "length bs < 64")
    case True
    then show ?thesis by (simp add: absorb_short)
  next
    case False
    then have "length (take 64 bs) = 64" by simp
    then have "absorb compress h (take 64 bs @ zs) = absorb compress (compress h (take 64 bs)) zs" for zs
      by (rule absorb_block)
    from this [of "drop 64 bs @ ys"] this [of "drop 64 bs"] show ?thesis
      using "1.IH" [OF False] by (simp flip: append_assoc)
  qed
qed

lemma absorb_rest: "absorb compress h bs = (h', r) \<Longrightarrow> length r = length bs mod 64"
proof (induction compress h bs rule: absorb.induct)
  case (1 compress h bs)
  then show ?case
    by (cases "length bs < 64") (auto simp: absorb.simps [of _ _ bs] le_mod_geq)
qed

lemma absorb_cong:
  assumes eq: "\<And>h b. P h \<Longrightarrow> length b = 64 \<Longrightarrow> f h b = g h b \<and> P (f h b)"
  shows "P h \<Longrightarrow> absorb f h bs = absorb g h bs"
proof (induction "length bs" arbitrary: h bs rule: less_induct)
  case less
  then show ?case
    using eq [of h "take 64 bs"] by (auto simp: absorb.simps [of _ _ bs])
qed

section \<open>Padding\<close>

definition md_pad :: "nat \<Rightarrow> u8 list \<Rightarrow> u8 list" where
  "md_pad n len8 = 0x80 # replicate ((119 - n mod 64) mod 64) 0 @ len8"

text \<open>The last one or two blocks, from the bytes that are left over.\<close>

definition finish :: "('h \<Rightarrow> u8 list \<Rightarrow> 'h) \<Rightarrow> 'h \<Rightarrow> u8 list \<Rightarrow> u8 list \<Rightarrow> 'h" where
  "finish compress h r len8 =
     (if length r < 56 then compress h (r @ 0x80 # replicate (55 - length r) 0 @ len8)
      else compress (compress h (r @ 0x80 # replicate (63 - length r) 0)) (replicate 56 0 @ len8))"

lemma finish_absorb:
  assumes "length r < 64" "length len8 = 8" "n mod 64 = length r"
  shows "absorb compress h (r @ md_pad n len8) = (finish compress h r len8, [])"
proof (cases "length r < 56")
  case True
  then have "(119 - length r) mod 64 = 55 - length r"
    using le_mod_geq [of 64 "119 - length r"] by simp
  with True assms show ?thesis
    using absorb_block [of "r @ md_pad n len8" compress h "[]"]
    by (simp add: finish_def md_pad_def absorb_short)
next
  case False
  with assms have "(119 - length r) mod 64 = 63 - length r + 56" by simp
  then have "r @ md_pad n len8 = (r @ 0x80 # replicate (63 - length r) 0) @ (replicate 56 0 @ len8) @ []"
    unfolding md_pad_def assms(3) by (simp only: replicate_add append_Cons append_assoc append_Nil2)
  moreover have "length (r @ 0x80 # replicate (63 - length r) 0) = 64" using False assms by simp
  ultimately show ?thesis
    using False assms by (simp only: absorb_block) (simp add: absorb_block [of _ _ _ "[]", simplified] absorb_short finish_def)
qed

section \<open>The interface\<close>

locale block_hash =
  fixes compress :: "'h \<Rightarrow> u8 list \<Rightarrow> 'h"
    and fresh :: "'c \<Rightarrow> bool"
    and iv :: 'h
    and update :: "'c \<Rightarrow> u8 list \<Rightarrow> 'c"
    and final :: "'c \<Rightarrow> u8 list"
    and invar :: "'c \<Rightarrow> bool"
    and hstate :: "'c \<Rightarrow> 'h"
    and pending :: "'c \<Rightarrow> u8 list"
    and count :: "'c \<Rightarrow> 'n::len word"
    and outp :: "'h \<Rightarrow> u8 list"
    and len8 :: "'n word \<Rightarrow> u8 list"
  assumes fresh: "fresh c \<Longrightarrow> invar c \<and> hstate c = iv \<and> pending c = [] \<and> count c = 0"
    and invar_update: "invar c \<Longrightarrow> invar (update c d)"
    and update_absorb: "invar c \<Longrightarrow>
      absorb compress (hstate c) (pending c @ d) = (hstate (update c d), pending (update c d))"
    and count_update: "invar c \<Longrightarrow> count (update c d) = count c + of_nat (length d)"
    and final_finish: "invar c \<Longrightarrow>
      final c = outp (finish compress (hstate c) (pending c) (len8 (count c)))"
    and length_len8: "length (len8 n) = 8"
begin

lemma updates_absorb:
  assumes "fresh c"
  shows "invar (foldl update c ds) \<and>
    absorb compress iv (concat ds) = (hstate (foldl update c ds), pending (foldl update c ds)) \<and>
    count (foldl update c ds) = of_nat (length (concat ds))"
proof (induction ds rule: rev_induct)
  case Nil
  then show ?case
    using fresh [OF assms] by (simp add: absorb_short)
next
  case (snoc d ds)
  then show ?case
    by (auto simp: absorb_append [of _ _ "concat ds" d] update_absorb invar_update count_update)
qed

text \<open>The digest of the padded message, whatever the pieces.\<close>

lemma digest_padded:
  assumes "fresh c"
  shows "final (foldl update c ds) =
    outp (fst (absorb compress iv
      (concat ds @ md_pad (length (concat ds)) (len8 (of_nat (length (concat ds)))))))"
proof -
  let ?c = "foldl update c ds"
  have abs: "absorb compress iv (concat ds) = (hstate ?c, pending ?c)"
    and cnt: "count ?c = of_nat (length (concat ds))" and inv: "invar ?c"
    using updates_absorb [OF assms] by auto
  from absorb_rest [OF abs] have len: "length (pending ?c) = length (concat ds) mod 64" .
  then have "absorb compress (hstate ?c) (pending ?c @ md_pad (length (concat ds)) (len8 (count ?c))) =
      (finish compress (hstate ?c) (pending ?c) (len8 (count ?c)), [])"
    by (intro finish_absorb) (simp_all add: length_len8)
  with abs cnt show ?thesis
    by (simp add: absorb_append [of _ _ "concat ds"] final_finish [OF inv])
qed

lemma digest_pieces:
  "fresh c \<Longrightarrow> fresh c' \<Longrightarrow> final (foldl update c ds) = final (update c' (concat ds))"
  using digest_padded [of c ds] digest_padded [of c' "[concat ds]"] by simp

end

end
