(* ===== verification/Md5.thy ===== *)
theory Md5
  imports Block_Hash
begin

text \<open>
  The MD5 implementation of \<^verbatim>\<open>md5.c\<close>: the context with its block buffer, the unrolled
  compression of one block, the streaming functions, the one-shot function and the file
  digest. The reference is RFC 1321, written with the index and shift formulas of the
  standard and rotating registers.
\<close>

section \<open>The context\<close>

record md5ctx =
  md5_abcd :: "u32 list"
  md5_buf :: "u8 list"
  md5_cur :: nat
  md5_size :: u32

section \<open>Compression of one block\<close>

definition md5_F :: "u32 \<Rightarrow> u32 \<Rightarrow> u32 \<Rightarrow> u32" where
  "md5_F x y z = (x AND y) OR (NOT x AND z)"

definition md5_G :: "u32 \<Rightarrow> u32 \<Rightarrow> u32 \<Rightarrow> u32" where
  "md5_G x y z = (x AND z) OR (y AND NOT z)"

definition md5_H :: "u32 \<Rightarrow> u32 \<Rightarrow> u32 \<Rightarrow> u32" where
  "md5_H x y z = x XOR y XOR z"

definition md5_I :: "u32 \<Rightarrow> u32 \<Rightarrow> u32 \<Rightarrow> u32" where
  "md5_I x y z = y XOR (x OR NOT z)"

definition ROTATE :: "u32 \<Rightarrow> nat \<Rightarrow> u32" where
  "ROTATE x n = push_bit n x OR drop_bit (32 - n) x"

text \<open>
  The macros \<^verbatim>\<open>R1\<close> to \<^verbatim>\<open>R4\<close> differ in the auxiliary function only. The registers
  \<^verbatim>\<open>A\<close> to \<^verbatim>\<open>D\<close> are the entries 0 to 3 of \<^verbatim>\<open>ctx->abcd\<close>.
\<close>

fun md5_R :: "(u32 \<Rightarrow> u32 \<Rightarrow> u32 \<Rightarrow> u32) \<Rightarrow> u32 list \<Rightarrow> u32 list \<Rightarrow> nat \<times> nat \<times> nat \<times> nat \<times> nat \<times> nat \<times> u32 \<Rightarrow> u32 list" where
  "md5_R f x r (a, b, c, d, k, s, t) =
     r[a := r ! b + ROTATE (r ! a + f (r ! b) (r ! c) (r ! d) + x ! k + t) s]"

definition md5_round1 :: "(nat \<times> nat \<times> nat \<times> nat \<times> nat \<times> nat \<times> u32) list" where
  "md5_round1 =
  [(0, 1, 2, 3, 0, 7, 0xd76aa478), (3, 0, 1, 2, 1, 12, 0xe8c7b756), (2, 3, 0, 1, 2, 17, 0x242070db), (1, 2, 3, 0, 3, 22, 0xc1bdceee),
   (0, 1, 2, 3, 4, 7, 0xf57c0faf), (3, 0, 1, 2, 5, 12, 0x4787c62a), (2, 3, 0, 1, 6, 17, 0xa8304613), (1, 2, 3, 0, 7, 22, 0xfd469501),
   (0, 1, 2, 3, 8, 7, 0x698098d8), (3, 0, 1, 2, 9, 12, 0x8b44f7af), (2, 3, 0, 1, 10, 17, 0xffff5bb1), (1, 2, 3, 0, 11, 22, 0x895cd7be),
   (0, 1, 2, 3, 12, 7, 0x6b901122), (3, 0, 1, 2, 13, 12, 0xfd987193), (2, 3, 0, 1, 14, 17, 0xa679438e), (1, 2, 3, 0, 15, 22, 0x49b40821)]"

definition md5_round2 :: "(nat \<times> nat \<times> nat \<times> nat \<times> nat \<times> nat \<times> u32) list" where
  "md5_round2 =
  [(0, 1, 2, 3, 1, 5, 0xf61e2562), (3, 0, 1, 2, 6, 9, 0xc040b340), (2, 3, 0, 1, 11, 14, 0x265e5a51), (1, 2, 3, 0, 0, 20, 0xe9b6c7aa),
   (0, 1, 2, 3, 5, 5, 0xd62f105d), (3, 0, 1, 2, 10, 9, 0x02441453), (2, 3, 0, 1, 15, 14, 0xd8a1e681), (1, 2, 3, 0, 4, 20, 0xe7d3fbc8),
   (0, 1, 2, 3, 9, 5, 0x21e1cde6), (3, 0, 1, 2, 14, 9, 0xc33707d6), (2, 3, 0, 1, 3, 14, 0xf4d50d87), (1, 2, 3, 0, 8, 20, 0x455a14ed),
   (0, 1, 2, 3, 13, 5, 0xa9e3e905), (3, 0, 1, 2, 2, 9, 0xfcefa3f8), (2, 3, 0, 1, 7, 14, 0x676f02d9), (1, 2, 3, 0, 12, 20, 0x8d2a4c8a)]"

definition md5_round3 :: "(nat \<times> nat \<times> nat \<times> nat \<times> nat \<times> nat \<times> u32) list" where
  "md5_round3 =
  [(0, 1, 2, 3, 5, 4, 0xfffa3942), (3, 0, 1, 2, 8, 11, 0x8771f681), (2, 3, 0, 1, 11, 16, 0x6d9d6122), (1, 2, 3, 0, 14, 23, 0xfde5380c),
   (0, 1, 2, 3, 1, 4, 0xa4beea44), (3, 0, 1, 2, 4, 11, 0x4bdecfa9), (2, 3, 0, 1, 7, 16, 0xf6bb4b60), (1, 2, 3, 0, 10, 23, 0xbebfbc70),
   (0, 1, 2, 3, 13, 4, 0x289b7ec6), (3, 0, 1, 2, 0, 11, 0xeaa127fa), (2, 3, 0, 1, 3, 16, 0xd4ef3085), (1, 2, 3, 0, 6, 23, 0x04881d05),
   (0, 1, 2, 3, 9, 4, 0xd9d4d039), (3, 0, 1, 2, 12, 11, 0xe6db99e5), (2, 3, 0, 1, 15, 16, 0x1fa27cf8), (1, 2, 3, 0, 2, 23, 0xc4ac5665)]"

definition md5_round4 :: "(nat \<times> nat \<times> nat \<times> nat \<times> nat \<times> nat \<times> u32) list" where
  "md5_round4 =
  [(0, 1, 2, 3, 0, 6, 0xf4292244), (3, 0, 1, 2, 7, 10, 0x432aff97), (2, 3, 0, 1, 14, 15, 0xab9423a7), (1, 2, 3, 0, 5, 21, 0xfc93a039),
   (0, 1, 2, 3, 12, 6, 0x655b59c3), (3, 0, 1, 2, 3, 10, 0x8f0ccc92), (2, 3, 0, 1, 10, 15, 0xffeff47d), (1, 2, 3, 0, 1, 21, 0x85845dd1),
   (0, 1, 2, 3, 8, 6, 0x6fa87e4f), (3, 0, 1, 2, 15, 10, 0xfe2ce6e0), (2, 3, 0, 1, 6, 15, 0xa3014314), (1, 2, 3, 0, 13, 21, 0x4e0811a1),
   (0, 1, 2, 3, 4, 6, 0xf7537e82), (3, 0, 1, 2, 11, 10, 0xbd3af235), (2, 3, 0, 1, 2, 15, 0x2ad7d2bb), (1, 2, 3, 0, 9, 21, 0xeb86d391)]"

text \<open>The block as sixteen little-endian words.\<close>

definition md5_words :: "u8 list \<Rightarrow> u32 list" where
  "md5_words buf = map (\<lambda>i. word32_of_le (take 4 (drop (4 * i) buf))) [0..<16]"

definition md5_block :: "u32 list \<Rightarrow> u8 list \<Rightarrow> u32 list" where
  "md5_block abcd buf =
     (let x = md5_words buf;
          r = foldl (md5_R md5_F x) abcd md5_round1;
          r = foldl (md5_R md5_G x) r md5_round2;
          r = foldl (md5_R md5_H x) r md5_round3;
          r = foldl (md5_R md5_I x) r md5_round4
      in [r ! 0 + abcd ! 0, r ! 1 + abcd ! 1, r ! 2 + abcd ! 2, r ! 3 + abcd ! 3])"

definition md5_calc :: "md5ctx \<Rightarrow> md5ctx" where
  "md5_calc ctx = ctx\<lparr>md5_abcd := md5_block (md5_abcd ctx) (md5_buf ctx)\<rparr>"

section \<open>Streaming\<close>

text \<open>The block buffer of a fresh context is whatever the memory held.\<close>

definition md5_init :: "u8 list \<Rightarrow> md5ctx" where
  "md5_init stack =
     \<lparr>md5_abcd = [0x67452301, 0xefcdab89, 0x98badcfe, 0x10325476],
      md5_buf = stack, md5_cur = 0, md5_size = 0\<rparr>"

text \<open>
  \<open>data\<close> is the list of the \<^verbatim>\<open>len\<close> bytes at the caller's pointer. A context whose
  buffer is full on entry cannot arise (\<open>md5_ctx_ok\<close> below); the loop of the source would
  make no progress on it, and the model stops.
\<close>

function md5_update :: "md5ctx \<Rightarrow> u8 list \<Rightarrow> md5ctx" where
  "md5_update ctx data =
     (if data = [] \<or> 64 \<le> md5_cur ctx then ctx
      else
        let left = 64 - md5_cur ctx;
            n = (if length data < left then length data else left);
            ctx = ctx\<lparr>md5_buf := blit (md5_buf ctx) (md5_cur ctx) (take n data),
                      md5_cur := md5_cur ctx + n,
                      md5_size := md5_size ctx + of_nat n\<rparr>;
            ctx = (if md5_cur ctx = 64 then (md5_calc ctx)\<lparr>md5_cur := 0\<rparr> else ctx)
        in md5_update ctx (drop n data))"
  by pat_completeness auto
termination
  by (relation "measure (\<lambda>(ctx, data). length data)") (auto simp: Let_def)

declare md5_update.simps [simp del]

text \<open>
  The length in bits is computed in 32 bits, \<^verbatim>\<open>ctx->size * 8\<close> with \<^verbatim>\<open>uint32_t size\<close>, and only
  then widened to \<^verbatim>\<open>uint64_t\<close>.
\<close>

definition md5_len8 :: "u32 \<Rightarrow> u8 list" where
  "md5_len8 sz = le_bytes64 (ucast (sz * 8))"

definition md5_pad :: "md5ctx \<Rightarrow> md5ctx" where
  "md5_pad ctx =
     (let ctx = ctx\<lparr>md5_buf := (md5_buf ctx)[md5_cur ctx := 0x80], md5_cur := md5_cur ctx + 1\<rparr>;
          ctx = ctx\<lparr>md5_buf := blit (md5_buf ctx) (md5_cur ctx) (replicate (64 - md5_cur ctx) 0)\<rparr>;
          ctx = (if md5_cur ctx > 56
                 then (md5_calc ctx)\<lparr>md5_buf := replicate 64 0, md5_cur := 0\<rparr> else ctx)
      in ctx\<lparr>md5_buf := blit (md5_buf ctx) 56 (md5_len8 (md5_size ctx))\<rparr>)"

definition md5_output :: "u32 list \<Rightarrow> u8 list" where
  "md5_output abcd = concat (map le_bytes32 abcd)"

text \<open>The digest, and the context cleared behind it.\<close>

definition md5_final :: "md5ctx \<Rightarrow> u8 list \<times> md5ctx" where
  "md5_final ctx =
     (let ctx = md5_calc (md5_pad ctx)
      in (md5_output (md5_abcd ctx),
          \<lparr>md5_abcd = replicate 4 0, md5_buf = replicate 64 0, md5_cur = 0, md5_size = 0\<rparr>))"

definition md5 :: "u8 list \<Rightarrow> u8 list \<Rightarrow> u8 list" where
  "md5 stack data = fst (md5_final (md5_update (md5_init stack) data))"

text \<open>The digest as text, into a buffer of 33 characters.\<close>

definition md5str :: "u8 list \<Rightarrow> char list \<Rightarrow> char list option" where
  "md5str hash str = do {
     h \<leftarrow> rdn hash 0 16;
     wrn str 0 (hex_digits h @ [CHR 0x00])
   }"

text \<open>
  The digest of a file, from the results of the successive calls of \<^verbatim>\<open>read\<close>: a count and the
  bytes read. The loop ends at the first count that is not positive; a list that runs out
  stands for a read that never came back.
\<close>

fun md5_read_loop :: "md5ctx \<Rightarrow> (int \<times> u8 list) list \<Rightarrow> (md5ctx \<times> int) option" where
  "md5_read_loop ctx [] = None"
| "md5_read_loop ctx ((n, bs) # reads) =
     (if n > 0 then md5_read_loop (md5_update ctx (take (nat n) bs)) reads else Some (ctx, n))"

definition md5sum_fd :: "u8 list \<Rightarrow> (int \<times> u8 list) list \<Rightarrow> (int \<times> int \<times> u8 list) option" where
  "md5sum_fd stack reads =
     (case md5_read_loop (md5_init stack) reads of
        None \<Rightarrow> None
      | Some (ctx, n) \<Rightarrow>
          let hash = fst (md5_final ctx)
          in if n \<noteq> 0 then Some (-1, EIO, hash) else Some (0, 0, hash))"

text \<open>
  The file name layer: \<^verbatim>\<open>open\<close> fails (\<^const>\<open>None\<close>) or gives a descriptor whose reads are
  the given ones.
\<close>

definition md5sum :: "u8 list \<Rightarrow> (int \<times> u8 list) list option \<Rightarrow> (int \<times> u8 list option) option" where
  "md5sum stack fd =
     (case fd of
        None \<Rightarrow> Some (-1, None)
      | Some reads \<Rightarrow>
          (case md5sum_fd stack reads of
             None \<Rightarrow> None
           | Some (rc, errno, hash) \<Rightarrow> Some (rc, Some hash)))"

section \<open>RFC 1321\<close>

definition rfc1321_T :: "u32 list" where
  "rfc1321_T =
  [0xd76aa478, 0xe8c7b756, 0x242070db, 0xc1bdceee,
   0xf57c0faf, 0x4787c62a, 0xa8304613, 0xfd469501,
   0x698098d8, 0x8b44f7af, 0xffff5bb1, 0x895cd7be,
   0x6b901122, 0xfd987193, 0xa679438e, 0x49b40821,
   0xf61e2562, 0xc040b340, 0x265e5a51, 0xe9b6c7aa,
   0xd62f105d, 0x02441453, 0xd8a1e681, 0xe7d3fbc8,
   0x21e1cde6, 0xc33707d6, 0xf4d50d87, 0x455a14ed,
   0xa9e3e905, 0xfcefa3f8, 0x676f02d9, 0x8d2a4c8a,
   0xfffa3942, 0x8771f681, 0x6d9d6122, 0xfde5380c,
   0xa4beea44, 0x4bdecfa9, 0xf6bb4b60, 0xbebfbc70,
   0x289b7ec6, 0xeaa127fa, 0xd4ef3085, 0x04881d05,
   0xd9d4d039, 0xe6db99e5, 0x1fa27cf8, 0xc4ac5665,
   0xf4292244, 0x432aff97, 0xab9423a7, 0xfc93a039,
   0x655b59c3, 0x8f0ccc92, 0xffeff47d, 0x85845dd1,
   0x6fa87e4f, 0xfe2ce6e0, 0xa3014314, 0x4e0811a1,
   0xf7537e82, 0xbd3af235, 0x2ad7d2bb, 0xeb86d391]"

text \<open>
  The auxiliary functions, in the words of the RFC and bit by bit: in each bit position F acts
  as a conditional, if X then Y else Z; G is the same conditional on Z; H is the parity of its
  inputs; I compares Y with (X or not Z).
\<close>

definition bitwise3 :: "(bool \<Rightarrow> bool \<Rightarrow> bool \<Rightarrow> bool) \<Rightarrow> u32 \<Rightarrow> u32 \<Rightarrow> u32 \<Rightarrow> u32" where
  "bitwise3 P x y z = horner_sum of_bool 2 (map (\<lambda>i. P (bit x i) (bit y i) (bit z i)) [0..<32])"

definition rfc1321_F :: "bool \<Rightarrow> bool \<Rightarrow> bool \<Rightarrow> bool" where
  "rfc1321_F x y z = (if x then y else z)"

definition rfc1321_G :: "bool \<Rightarrow> bool \<Rightarrow> bool \<Rightarrow> bool" where
  "rfc1321_G x y z = (if z then x else y)"

definition rfc1321_H :: "bool \<Rightarrow> bool \<Rightarrow> bool \<Rightarrow> bool" where
  "rfc1321_H x y z = odd (length (filter id [x, y, z]))"

definition rfc1321_I :: "bool \<Rightarrow> bool \<Rightarrow> bool \<Rightarrow> bool" where
  "rfc1321_I x y z = (y \<noteq> (x \<or> \<not> z))"

definition rfc1321_f :: "nat \<Rightarrow> u32 \<Rightarrow> u32 \<Rightarrow> u32 \<Rightarrow> u32" where
  "rfc1321_f j = bitwise3 (if j < 4 then rfc1321_F else if j < 8 then rfc1321_G
     else if j < 12 then rfc1321_H else rfc1321_I)"

definition rfc1321_k :: "nat \<Rightarrow> nat" where
  "rfc1321_k i = (if i < 16 then i else if i < 32 then (5 * i + 1) mod 16
     else if i < 48 then (3 * i + 5) mod 16 else (7 * i) mod 16)"

definition rfc1321_s :: "nat \<Rightarrow> nat" where
  "rfc1321_s i = [7, 12, 17, 22, 5, 9, 14, 20, 4, 11, 16, 23, 6, 10, 15, 21] ! (4 * (i div 16) + i mod 4)"

text \<open>One operation; the four registers move on by one place.\<close>

fun rfc1321_op :: "u32 list \<Rightarrow> u32 \<times> u32 \<times> u32 \<times> u32 \<Rightarrow> nat \<Rightarrow> u32 \<times> u32 \<times> u32 \<times> u32" where
  "rfc1321_op x (a, b, c, d) i =
     (d, b + word_rotl (rfc1321_s i) (a + rfc1321_f (i div 4) b c d + x ! rfc1321_k i + rfc1321_T ! i), b, c)"

definition rfc1321_block :: "u32 list \<Rightarrow> u8 list \<Rightarrow> u32 list" where
  "rfc1321_block h buf =
     (case foldl (rfc1321_op (map (\<lambda>j. word32_of_le (take 4 (drop (4 * j) buf))) [0..<16])) (h ! 0, h ! 1, h ! 2, h ! 3) [0..<64] of
        (a, b, c, d) \<Rightarrow> [h ! 0 + a, h ! 1 + b, h ! 2 + c, h ! 3 + d])"

definition rfc1321_md5 :: "u8 list \<Rightarrow> u8 list" where
  "rfc1321_md5 msg =
     concat (map le_bytes32 (fst (absorb rfc1321_block [0x67452301, 0xefcdab89, 0x98badcfe, 0x10325476]
       (msg @ md_pad (length msg) (le_bytes64 (of_nat (8 * length msg)))))))"

section \<open>The unrolled compression is the one of the standard\<close>

lemma ROTATE_eq:
  assumes "0 < n" "n < 32"
  shows "ROTATE x n = word_rotl n x"
proof (rule bit_eqI)
  fix i assume "possible_bit TYPE(32 word) i"
  then have i: "i < 32" by simp
  show "bit (ROTATE x n) i = bit (word_rotl n x) i"
  proof (cases "n \<le> i")
    case True
    then have "(i + 32 - n) mod 32 = i - n" using i by (simp add: le_mod_geq)
    with True i assms show ?thesis
      by (auto simp: ROTATE_def bit_simps bit_word_rotl_iff dest: bit_imp_le_length)
  next
    case False
    then have "(i + 32 - n) mod 32 = i + 32 - n" using assms by simp
    with False i assms show ?thesis
      by (auto simp: ROTATE_def bit_simps bit_word_rotl_iff add.commute [of 32 i])
  qed
qed

definition quad :: "nat \<Rightarrow> (nat \<times> nat \<times> nat \<times> nat \<times> nat \<times> nat \<times> u32) list" where
  "quad j = map (\<lambda>(m, (a, b, c, d)). (a, b, c, d, rfc1321_k (4 * j + m), rfc1321_s (4 * j + m), rfc1321_T ! (4 * j + m)))
     [(0, 0, 1, 2, 3), (1, 3, 0, 1, 2), (2, 2, 3, 0, 1), (3, 1, 2, 3, 0)]"

lemma rounds_quads:
  "md5_round1 = concat (map quad [0, 1, 2, 3])" "md5_round2 = concat (map quad [4, 5, 6, 7])"
  "md5_round3 = concat (map quad [8, 9, 10, 11])" "md5_round4 = concat (map quad [12, 13, 14, 15])"
  by (simp_all add: quad_def md5_round1_def md5_round2_def md5_round3_def md5_round4_def
      rfc1321_k_def rfc1321_s_def rfc1321_T_def)

definition regs :: "u32 \<times> u32 \<times> u32 \<times> u32 \<Rightarrow> u32 list" where
  "regs = (\<lambda>(a, b, c, d). [a, b, c, d])"

definition four :: "nat \<Rightarrow> nat list" where
  "four j = [4 * j, 4 * j + 1, 4 * j + 2, 4 * j + 3]"

lemma rfc1321_s_range:
  assumes "i < 64"
  shows "0 < rfc1321_s i \<and> rfc1321_s i < 32"
proof -
  have "list_all (\<lambda>i. 0 < rfc1321_s i \<and> rfc1321_s i < 32) [0..<64]"
    by (simp add: rfc1321_s_def upt_eval)
  with assms show ?thesis by (simp add: list_all_iff)
qed

lemma quad_sim:
  assumes "j < 16"
  shows "foldl (md5_R (rfc1321_f j) x) (regs v) (quad j) =
    regs (foldl (rfc1321_op x) v (four j))"
proof -
  obtain a b c d where v: "v = (a, b, c, d)" by (metis prod_cases4)
  have s: "0 < rfc1321_s (4 * j + m)" "rfc1321_s (4 * j + m) < 32" if "m < 4" for m
    using rfc1321_s_range [of "4 * j + m"] assms that by auto
  have div: "Suc (4 * j) div 4 = j" "Suc (Suc (4 * j)) div 4 = j" "(4 * j + 3) div 4 = j"
    by linarith+
  show ?thesis
    using s [of 0] s [of 1] s [of 2] s [of 3] div
    by (simp add: v quad_def regs_def ROTATE_eq four_def)
qed

lemma quads_sim:
  assumes "\<And>j. j \<in> set js \<Longrightarrow> j < 16 \<and> rfc1321_f j = f"
  shows "foldl (md5_R f x) (regs v) (concat (map quad js)) =
    regs (foldl (rfc1321_op x) v (concat (map four js)))"
  using assms
proof (induction js arbitrary: v)
  case (Cons j js)
  then have "j < 16" "f = rfc1321_f j" by auto
  then have "foldl (md5_R f x) (regs v) (quad j) =
      regs (foldl (rfc1321_op x) v (four j))"
    using quad_sim by blast
  with Cons show ?case
    by simp
qed simp

lemma bit_bitwise3: "i < 32 \<Longrightarrow> bit (bitwise3 P x y z) i = P (bit x i) (bit y i) (bit z i)"
  by (simp add: bitwise3_def bit_horner_sum_bit_iff)

lemma md5_macros:
  "md5_F = bitwise3 rfc1321_F" "md5_G = bitwise3 rfc1321_G"
  "md5_H = bitwise3 rfc1321_H" "md5_I = bitwise3 rfc1321_I"
  by (intro ext, rule bit_word_eqI,
      auto simp: bit_bitwise3 bit_simps md5_F_def md5_G_def md5_H_def md5_I_def
        rfc1321_F_def rfc1321_G_def rfc1321_H_def rfc1321_I_def)+

lemma md5_block_rfc1321:
  assumes "length h = 4"
  shows "md5_block h buf = rfc1321_block h buf"
proof -
  let ?x = "md5_words buf"
  let ?v = "(h ! 0, h ! 1, h ! 2, h ! 3)"
  have h: "h = regs ?v" using assms by (auto simp: length4_conv regs_def)
  have ix: "[0..<64] = (concat (map four [0, 1, 2, 3]) @
      concat (map four [4, 5, 6, 7]) @
      concat (map four [8, 9, 10, 11]) @
      concat (map four [12, 13, 14, 15]))"
    by (simp add: upt_eval four_def)
  have sim: "foldl (md5_R md5_I ?x) (foldl (md5_R md5_H ?x) (foldl (md5_R md5_G ?x)
      (foldl (md5_R md5_F ?x) (regs ?v) md5_round1) md5_round2) md5_round3) md5_round4 =
    regs (foldl (rfc1321_op ?x) ?v [0..<64])"
    unfolding ix foldl_append rounds_quads
    by (subst quads_sim, force simp: rfc1321_f_def md5_macros)+ (rule refl)
  obtain a b c d where r: "foldl (rfc1321_op ?x) ?v [0..<64] = (a, b, c, d)" by (metis prod_cases4)
  show ?thesis
    using sim unfolding r md5_block_def rfc1321_block_def md5_words_def [symmetric] r Let_def h [symmetric]
    by (simp add: regs_def add.commute)
qed
section \<open>The streaming functions\<close>

text \<open>The invariant of a context between two calls.\<close>

definition md5_ctx_ok :: "md5ctx \<Rightarrow> bool" where
  "md5_ctx_ok ctx \<longleftrightarrow> length (md5_abcd ctx) = 4 \<and> length (md5_buf ctx) = 64 \<and> md5_cur ctx < 64"

definition md5_pending :: "md5ctx \<Rightarrow> u8 list" where
  "md5_pending ctx = take (md5_cur ctx) (md5_buf ctx)"

lemma length_md5_block [simp]: "length (md5_block h b) = 4"
  by (simp add: md5_block_def Let_def)

lemma md5_update_Nil [simp]: "md5_update ctx [] = ctx"
  by (subst md5_update.simps) simp

lemma md5_update_correct:
  "md5_ctx_ok ctx \<Longrightarrow>
     md5_ctx_ok (md5_update ctx data) \<and>
     absorb md5_block (md5_abcd ctx) (md5_pending ctx @ data) =
       (md5_abcd (md5_update ctx data), md5_pending (md5_update ctx data)) \<and>
     md5_size (md5_update ctx data) = md5_size ctx + of_nat (length data)"
proof (induction "length data" arbitrary: ctx data rule: less_induct)
  case less
  from less.prems have ok: "length (md5_abcd ctx) = 4" "length (md5_buf ctx) = 64" "md5_cur ctx < 64"
    by (auto simp: md5_ctx_ok_def)
  consider (none) "data = []" | (part) "data \<noteq> []" "md5_cur ctx + length data < 64"
    | (full) "64 \<le> md5_cur ctx + length data"
    by linarith
  then show ?case
  proof cases
    case none
    then show ?thesis
      using less.prems ok by (simp add: absorb_short md5_pending_def)
  next
    case part
    let ?c = "ctx\<lparr>md5_buf := blit (md5_buf ctx) (md5_cur ctx) data, md5_cur := md5_cur ctx + length data,
      md5_size := md5_size ctx + of_nat (length data)\<rparr>"
    have "md5_update ctx data = ?c"
      using part ok by (subst md5_update.simps) (simp add: Let_def)
    then show ?thesis
      using part ok by (simp add: md5_ctx_ok_def md5_pending_def absorb_short)
  next
    case full
    let ?n = "64 - md5_cur ctx"
    let ?c = "ctx\<lparr>md5_buf := blit (md5_buf ctx) (md5_cur ctx) (take ?n data), md5_cur := 64,
      md5_size := md5_size ctx + of_nat ?n\<rparr>"
    let ?d = "(md5_calc ?c)\<lparr>md5_cur := 0\<rparr>"
    have upd: "md5_update ctx data = md5_update ?d (drop ?n data)"
      using full ok by (subst md5_update.simps) (auto simp: Let_def not_less)
    have blk: "md5_buf ?c = md5_pending ctx @ take ?n data"
      using full ok by (simp add: blit_def md5_pending_def)
    have "length (drop ?n data) < length data" "md5_ctx_ok ?d"
      using full ok by (simp_all add: md5_ctx_ok_def md5_calc_def)
    then have "md5_ctx_ok (md5_update ?d (drop ?n data)) \<and>
       absorb md5_block (md5_abcd ?d) (md5_pending ?d @ drop ?n data) =
         (md5_abcd (md5_update ?d (drop ?n data)), md5_pending (md5_update ?d (drop ?n data))) \<and>
       md5_size (md5_update ?d (drop ?n data)) = md5_size ?d + of_nat (length (drop ?n data))"
      by (rule less.hyps)
    moreover have "absorb md5_block (md5_abcd ctx) ((md5_pending ctx @ take ?n data) @ drop ?n data) =
        absorb md5_block (md5_abcd ?d) (drop ?n data)"
      using full ok blk by (subst absorb_block) (simp_all add: md5_pending_def md5_calc_def)
    moreover have "(of_nat ?n :: u32) + of_nat (length (drop ?n data)) = of_nat (length data)"
    proof -
      have "?n + length (drop ?n data) = length data" using full ok by simp
      then show ?thesis by (metis of_nat_add)
    qed
    ultimately show ?thesis
      using blk unfolding upd by (simp only: append_assoc append_take_drop_id) (simp add: md5_pending_def md5_calc_def add.assoc)
  qed
qed

lemma md5_pad_calc:
  assumes "md5_ctx_ok ctx"
  shows "md5_abcd (md5_calc (md5_pad ctx)) =
    finish md5_block (md5_abcd ctx) (md5_pending ctx) (md5_len8 (md5_size ctx))"
proof -
  from assms have ok: "length (md5_buf ctx) = 64" "md5_cur ctx < 64" by (auto simp: md5_ctx_ok_def)
  let ?b = "blit ((md5_buf ctx)[md5_cur ctx := 0x80]) (Suc (md5_cur ctx)) (replicate (63 - md5_cur ctx) 0)"
  have b: "?b = md5_pending ctx @ 0x80 # replicate (63 - md5_cur ctx) 0"
    using ok by (simp add: blit_def md5_pending_def take_Suc_conv_app_nth)
  have len8: "length (md5_len8 n) = 8" for n by (simp add: md5_len8_def)
  show ?thesis
  proof (cases "md5_cur ctx < 56")
    case True
    then have "blit ?b 56 (md5_len8 (md5_size ctx)) =
        md5_pending ctx @ 0x80 # replicate (55 - md5_cur ctx) 0 @ md5_len8 (md5_size ctx)"
      unfolding b using ok by (simp add: blit_def md5_pending_def len8 take_Cons')
    with True ok show ?thesis
      by (simp add: md5_pad_def md5_calc_def finish_def Let_def md5_pending_def)
  next
    case False
    have "blit (replicate 64 0) 56 (md5_len8 (md5_size ctx)) = replicate 56 0 @ md5_len8 (md5_size ctx)"
      by (simp add: blit_def len8)
    with False ok b show ?thesis
      by (simp add: md5_pad_def md5_calc_def finish_def Let_def md5_pending_def)
  qed
qed

interpretation md5h: block_hash md5_block
  "\<lambda>c. \<exists>stack. length stack = 64 \<and> c = md5_init stack"
  "[0x67452301, 0xefcdab89, 0x98badcfe, 0x10325476]"
  md5_update "\<lambda>c. fst (md5_final c)" md5_ctx_ok md5_abcd md5_pending md5_size md5_output md5_len8
proof (unfold_locales, goal_cases)
  case (1 c)
  then show ?case by (auto simp: md5_init_def md5_ctx_ok_def md5_pending_def)
next
  case (5 c)
  then show ?case using md5_pad_calc by (simp add: md5_final_def Let_def)
qed (simp_all add: md5_update_correct md5_len8_def)


section \<open>Results\<close>

lemma md5_fresh: "length stack = 64 \<Longrightarrow> \<exists>s. length s = 64 \<and> md5_init stack = md5_init s"
  by blast

lemma md5_absorb_rfc1321: "length h = 4 \<Longrightarrow> absorb md5_block h bs = absorb rfc1321_block h bs"
  by (rule absorb_cong [where P = "\<lambda>h. length h = 4"])
    (simp_all add: md5_block_rfc1321 [symmetric])

lemma md5_padded:
  assumes "length stack = 64"
  shows "md5 stack msg =
    concat (map le_bytes32 (fst (absorb rfc1321_block [0x67452301, 0xefcdab89, 0x98badcfe, 0x10325476]
      (msg @ md_pad (length msg) (md5_len8 (of_nat (length msg)))))))"
  using md5h.digest_padded [OF md5_fresh [OF assms], of "[msg]"]
  by (simp add: md5_def md5_output_def md5_absorb_rfc1321)

text \<open>The 32-bit computation of the length in bits is exact below 512 MiB.\<close>

lemma md5_len8_eq: "md5_len8 (of_nat n) = le_bytes64 (of_nat (8 * n mod 2 ^ 32))"
proof -
  have "(of_nat n * 8 :: u32) = of_nat (8 * n)" by (simp add: mult.commute)
  moreover have "(ucast (of_nat k :: u32) :: u64) = of_nat (k mod 2 ^ 32)" for k
    by (simp add: unsigned_of_nat take_bit_eq_mod)
  ultimately show ?thesis by (simp only: md5_len8_def)
qed

lemma md5_len8_small: "n < 2 ^ 29 \<Longrightarrow> md5_len8 (of_nat n) = le_bytes64 (of_nat (8 * n))"
  by (simp add: md5_len8_eq del: of_nat_mult)

text \<open>
  C4. For every message shorter than 512 MiB, \<^verbatim>\<open>md5\<close> computes the RFC 1321 digest: the
  streaming buffer, the padding and the unrolled compression are the ones of the standard,
  whatever the uninitialised buffer of the context held.
\<close>

theorem md5_correct:
  assumes "length stack = 64" and "length msg < 2 ^ 29"
  shows "md5 stack msg = rfc1321_md5 msg"
  using md5_padded [OF assms(1), of msg] md5_len8_small [OF assms(2)] by (simp add: rfc1321_md5_def)

theorem md5_correct_witness:
  "length (replicate 64 0 :: u8 list) = 64 \<and> length ([97, 98, 99] :: u8 list) < 2 ^ 29 \<and>
   md5 (replicate 64 0) [97, 98, 99] = rfc1321_md5 [97, 98, 99]"
  using md5_correct [of "replicate 64 0" "[97, 98, 99]"] by simp

text \<open>A test vector of the RFC.\<close>

theorem md5_abc:
  "md5 (replicate 64 0) [97, 98, 99] =
     [0x90, 0x01, 0x50, 0x98, 0x3c, 0xd2, 0x4f, 0xb0, 0xd6, 0x96, 0x3f, 0x7d, 0x28, 0xe1, 0x7f, 0x72]"
  by code_simp

lemma md5_len8_wrapped:
  assumes "2 ^ 29 \<le> n" "n < 2 ^ 31"
  shows "le_bytes64 (of_nat (8 * n mod 2 ^ 32)) \<noteq> le_bytes64 (of_nat (8 * n))"
proof
  assume "le_bytes64 (of_nat (8 * n mod 2 ^ 32)) = le_bytes64 (of_nat (8 * n))"
  then have "(of_nat (8 * n mod 2 ^ 32) :: u64) = of_nat (8 * n)" by (rule le_bytes64_inject)
  then have "8 * n mod 2 ^ 32 = 8 * n"
    using assms by (simp add: word_of_nat_eq_iff take_bit_eq_mod del: of_nat_mult)
  with assms show False using mod_less_divisor [of "2 ^ 32" "8 * n"] by simp
qed

text \<open>
  From 512 MiB on the digest is not the one of RFC 1321's padding: the length field is
  computed modulo \<open>2 ^ 32\<close> bits, so the padded text that is digested differs from the one
  the standard prescribes.
\<close>

theorem md5_length_wraps:
  assumes "length stack = 64" and "2 ^ 29 \<le> length msg" and "length msg < 2 ^ 31"
  shows "md5 stack msg =
      concat (map le_bytes32 (fst (absorb rfc1321_block [0x67452301, 0xefcdab89, 0x98badcfe, 0x10325476]
        (msg @ md_pad (length msg) (md5_len8 (of_nat (length msg))))))) \<and>
    md5_len8 (of_nat (length msg)) = le_bytes64 (of_nat (8 * length msg mod 2 ^ 32)) \<and>
    md_pad (length msg) (md5_len8 (of_nat (length msg))) \<noteq>
      md_pad (length msg) (le_bytes64 (of_nat (8 * length msg)))"
  using md5_padded [OF assms(1), of msg] md5_len8_eq [of "length msg"]
    md5_len8_wrapped [OF assms(2, 3)] by (simp add: md_pad_def del: of_nat_mult)

theorem md5_length_wraps_witness:
  "2 ^ 29 \<le> length (replicate (2 ^ 29) 0 :: u8 list) \<and>
   md_pad (2 ^ 29) (md5_len8 (of_nat (2 ^ 29))) \<noteq> md_pad (2 ^ 29) (le_bytes64 (of_nat (8 * 2 ^ 29)))"
proof -
  have len: "length (replicate (2 ^ 29) 0 :: u8 list) = 2 ^ 29" by (rule length_replicate)
  have "2 ^ 29 \<le> length (replicate (2 ^ 29) 0 :: u8 list)" "length (replicate (2 ^ 29) 0 :: u8 list) < 2 ^ 31"
    unfolding len by simp_all
  from md5_length_wraps [OF length_replicate [of 64 0] this] show ?thesis
    unfolding len by blast
qed

text \<open>
  The digest does not depend on how the message is cut into calls of
  \<^verbatim>\<open>md5_update\<close>, and the context that is left behind holds no trace of the message.
\<close>

theorem md5_pieces:
  assumes "length stack = 64" and "length stack' = 64"
  shows "fst (md5_final (foldl md5_update (md5_init stack) ds)) = md5 stack' (concat ds) \<and>
    snd (md5_final (foldl md5_update (md5_init stack) ds)) = snd (md5_final (md5_init stack'))"
  using md5h.digest_pieces [OF md5_fresh [OF assms(1)] md5_fresh [OF assms(2)], of ds]
  by (simp add: md5_def md5_final_def Let_def)

theorem md5_pieces_witness:
  "length (replicate 64 0 :: u8 list) = 64 \<and> length (replicate 64 7 :: u8 list) = 64 \<and>
   fst (md5_final (foldl md5_update (md5_init (replicate 64 0)) [[1, 2], replicate 70 9])) =
   md5 (replicate 64 7) (concat [[1, 2], replicate 70 9])"
  using md5_pieces [of "replicate 64 0" "replicate 64 7" "[[1, 2], replicate 70 9]"] by simp

lemma md5_read_loop_foldl:
  "[] \<notin> set ds \<Longrightarrow> n \<le> 0 \<Longrightarrow>
     md5_read_loop ctx (map (\<lambda>d. (int (length d), d)) ds @ (n, bs) # rest) =
       Some (foldl md5_update ctx ds, n)"
  by (induction ds arbitrary: ctx) auto

text \<open>
  When the reads of a file return the non-empty chunks \<open>ds\<close> and then a count \<open>n\<close>
  that is not positive, \<^verbatim>\<open>_md5sum\<close> digests exactly the chunks read so far: it returns 0 at
  the end of the file, and -1 with \<^verbatim>\<open>errno\<close> set to \<^verbatim>\<open>EIO\<close> after a read error, with the
  digest of the part that was read.
\<close>

theorem md5sum_fd_correct:
  assumes "length stack = 64" and "[] \<notin> set ds" and "n \<le> 0"
  shows "md5sum_fd stack (map (\<lambda>d. (int (length d), d)) ds @ (n, bs) # rest) =
    Some (if n = 0 then 0 else -1, if n = 0 then 0 else EIO, md5 stack (concat ds))"
  using md5h.digest_pieces [OF md5_fresh md5_fresh, OF assms(1) assms(1), of ds] assms(2, 3)
  by (simp add: md5sum_fd_def md5_read_loop_foldl md5_def Let_def)

theorem md5sum_fd_correct_witness:
  "md5sum_fd (replicate 64 0) [(2, [1, 2]), (3, [5, 6, 7]), (-1, [])] =
     Some (-1, EIO, md5 (replicate 64 0) [1, 2, 5, 6, 7])"
  using md5sum_fd_correct [of "replicate 64 0" "[[1, 2], [5, 6, 7]]" "-1" "[]" "[]"] by simp

text \<open>
  \<^verbatim>\<open>md5str\<close> fills exactly 33 characters of a buffer that has them, with a
  null-terminated string of 32 lower-case hexadecimal digits from which the digest can be
  read back.
\<close>

theorem md5str_correct:
  assumes "length hash = 16" and "33 \<le> length str"
  shows "\<exists>digits. md5str hash str = Some (digits @ CHR 0x00 # drop 33 str) \<and>
    length digits = 32 \<and> set digits \<subseteq> set tohex \<and> unhex digits = hash"
  using assms by (intro exI [of _ "hex_digits hash"]) (simp add: md5str_def rdn_def wrn_def)

theorem md5str_correct_witness:
  "length (replicate 16 0xa5 :: u8 list) = 16 \<and>
   (\<exists>digits. md5str (replicate 16 0xa5) (replicate 40 CHR ''z'') = Some (digits @ CHR 0x00 # replicate 7 CHR ''z'') \<and>
     length digits = 32 \<and> unhex digits = replicate 16 0xa5)"
  using md5str_correct [of "replicate 16 0xa5" "replicate 40 CHR ''z''"] by auto

end
