(* ===== verification/Sha256.thy ===== *)
theory Sha256
  imports Block_Hash
begin

text \<open>
  The SHA-256 implementation of \<^verbatim>\<open>sha256.c\<close>: the context, the compression of one block in
  its rolled and in its unrolled form, the streaming functions with the block-wise fast path
  and the byte loop, the padding and the digest. The reference is FIPS 180-2, with the
  message schedule as a recurrence, the published forms of the auxiliary functions and
  rotations of words.
\<close>

section \<open>The context\<close>

record sha256ctx =
  sha_block :: "u8 list"
  sha_h :: "u32 list"
  sha_len :: u64
  sha_index :: nat

section \<open>Macros\<close>

definition SHA_Ch :: "u32 \<Rightarrow> u32 \<Rightarrow> u32 \<Rightarrow> u32" where
  "SHA_Ch x y z = (x AND (y XOR z)) XOR z"

definition SHA_Maj :: "u32 \<Rightarrow> u32 \<Rightarrow> u32 \<Rightarrow> u32" where
  "SHA_Maj x y z = (x AND (y OR z)) OR (y AND z)"

definition SHA256_SHR :: "nat \<Rightarrow> u32 \<Rightarrow> u32" where
  "SHA256_SHR bits w = drop_bit bits w"

definition SHA256_ROTR :: "nat \<Rightarrow> u32 \<Rightarrow> u32" where
  "SHA256_ROTR bits w = drop_bit bits w OR push_bit (32 - bits) w"

definition SHA256_SIGMA0 :: "u32 \<Rightarrow> u32" where
  "SHA256_SIGMA0 w = SHA256_ROTR 2 w XOR SHA256_ROTR 13 w XOR SHA256_ROTR 22 w"

definition SHA256_SIGMA1 :: "u32 \<Rightarrow> u32" where
  "SHA256_SIGMA1 w = SHA256_ROTR 6 w XOR SHA256_ROTR 11 w XOR SHA256_ROTR 25 w"

definition SHA256_sigma0 :: "u32 \<Rightarrow> u32" where
  "SHA256_sigma0 w = SHA256_ROTR 7 w XOR SHA256_ROTR 18 w XOR SHA256_SHR 3 w"

definition SHA256_sigma1 :: "u32 \<Rightarrow> u32" where
  "SHA256_sigma1 w = SHA256_ROTR 17 w XOR SHA256_ROTR 19 w XOR SHA256_SHR 10 w"

section \<open>Compression of one block\<close>

text \<open>The table, in the rows of the source.\<close>

definition SHA256_K :: "u32 list" where
  "SHA256_K = concat
    [[0x428a2f98, 0x71374491, 0xb5c0fbcf, 0xe9b5dba5, 0x3956c25b],
     [0x59f111f1, 0x923f82a4, 0xab1c5ed5, 0xd807aa98, 0x12835b01],
     [0x243185be, 0x550c7dc3, 0x72be5d74, 0x80deb1fe, 0x9bdc06a7],
     [0xc19bf174, 0xe49b69c1, 0xefbe4786, 0x0fc19dc6, 0x240ca1cc],
     [0x2de92c6f, 0x4a7484aa, 0x5cb0a9dc, 0x76f988da, 0x983e5152],
     [0xa831c66d, 0xb00327c8, 0xbf597fc7, 0xc6e00bf3, 0xd5a79147],
     [0x06ca6351, 0x14292967, 0x27b70a85, 0x2e1b2138, 0x4d2c6dfc],
     [0x53380d13, 0x650a7354, 0x766a0abb, 0x81c2c92e, 0x92722c85],
     [0xa2bfe8a1, 0xa81a664b, 0xc24b8b70, 0xc76c51a3, 0xd192e819],
     [0xd6990624, 0xf40e3585, 0x106aa070, 0x19a4c116, 0x1e376c08],
     [0x2748774c, 0x34b0bcb5, 0x391c0cb3, 0x4ed8aa4a, 0x5b9cca4f],
     [0x682e6ff3, 0x748f82ee, 0x78a5636f, 0x84c87814, 0x8cc70208],
     [0x90befffa, 0xa4506ceb, 0xbef9a3f7, 0xc67178f2]]"

definition CB_INIT :: "u8 list \<Rightarrow> nat \<Rightarrow> u32" where
  "CB_INIT block t4 =
     push_bit 24 (ucast (block ! t4)) OR push_bit 16 (ucast (block ! (t4 + 1)))
     OR push_bit 8 (ucast (block ! (t4 + 2))) OR ucast (block ! (t4 + 3))"

text \<open>The word sequence \<^verbatim>\<open>W\<close>; the list holds the entries assigned so far.\<close>

definition sha256_W16 :: "u8 list \<Rightarrow> u32 list" where
  "sha256_W16 block =
     [CB_INIT block 0, CB_INIT block 4, CB_INIT block 8, CB_INIT block 12,
      CB_INIT block 16, CB_INIT block 20, CB_INIT block 24, CB_INIT block 28,
      CB_INIT block 32, CB_INIT block 36, CB_INIT block 40, CB_INIT block 44,
      CB_INIT block 48, CB_INIT block 52, CB_INIT block 56, CB_INIT block 60]"

definition sha256_extend :: "u32 list \<Rightarrow> nat \<Rightarrow> u32 list" where
  "sha256_extend W t =
     W @ [SHA256_sigma1 (W ! (t - 2)) + W ! (t - 7) + SHA256_sigma0 (W ! (t - 15)) + W ! (t - 16)]"

definition sha256_W :: "u8 list \<Rightarrow> u32 list" where
  "sha256_W block = foldl sha256_extend (sha256_W16 block) [16..<64]"

type_synonym sha_regs = "u32 \<times> u32 \<times> u32 \<times> u32 \<times> u32 \<times> u32 \<times> u32 \<times> u32"

fun sha256_step :: "u32 list \<Rightarrow> sha_regs \<Rightarrow> nat \<Rightarrow> sha_regs" where
  "sha256_step W (A, B, C, D, E, F, G, H) t =
     (let temp1 = H + SHA256_SIGMA1 E + SHA_Ch E F G + SHA256_K ! t + W ! t;
          temp2 = SHA256_SIGMA0 A + SHA_Maj A B C
      in (temp1 + temp2, A, B, C, D + temp1, E, F, G))"

definition load_regs :: "u32 list \<Rightarrow> sha_regs" where
  "load_regs h = (h ! 0, h ! 1, h ! 2, h ! 3, h ! 4, h ! 5, h ! 6, h ! 7)"

fun add_regs :: "u32 list \<Rightarrow> sha_regs \<Rightarrow> u32 list" where
  "add_regs h (A, B, C, D, E, F, G, H) =
     [h ! 0 + A, h ! 1 + B, h ! 2 + C, h ! 3 + D, h ! 4 + E, h ! 5 + F, h ! 6 + G, h ! 7 + H]"

definition sha256_block :: "u32 list \<Rightarrow> u8 list \<Rightarrow> u32 list" where
  "sha256_block h block =
     add_regs h (foldl (sha256_step (sha256_W block)) (load_regs h) [0..<64])"

text \<open>
  The unrolled form of the loop, the \<^verbatim>\<open>#else\<close> branch of the source. The variables
  \<^verbatim>\<open>A\<close> to \<^verbatim>\<open>H\<close> are the entries 0 to 7 of a list; the macro names the ones it uses.
\<close>

fun UNROLL :: "u32 list \<Rightarrow> u32 list \<Rightarrow>
    nat \<times> nat \<times> nat \<times> nat \<times> nat \<times> nat \<times> nat \<times> nat \<times> nat \<times> u32 \<Rightarrow> u32 list" where
  "UNROLL W r (a, b, c, d, e, f, g, h, Wi, Ki) =
     (let temp1 = r ! h + SHA256_SIGMA1 (r ! e) + SHA_Ch (r ! e) (r ! f) (r ! g) + Ki + W ! Wi;
          temp2 = SHA256_SIGMA0 (r ! a) + SHA_Maj (r ! a) (r ! b) (r ! c);
          r = r[d := r ! d + temp1]
      in r[h := temp1 + temp2])"

definition sha256_unrolled :: "(nat \<times> nat \<times> nat \<times> nat \<times> nat \<times> nat \<times> nat \<times> nat \<times> nat \<times> u32) list" where
  "sha256_unrolled =
  [(0, 1, 2, 3, 4, 5, 6, 7, 0, 0x428a2f98), (7, 0, 1, 2, 3, 4, 5, 6, 1, 0x71374491),
   (6, 7, 0, 1, 2, 3, 4, 5, 2, 0xb5c0fbcf), (5, 6, 7, 0, 1, 2, 3, 4, 3, 0xe9b5dba5),
   (4, 5, 6, 7, 0, 1, 2, 3, 4, 0x3956c25b), (3, 4, 5, 6, 7, 0, 1, 2, 5, 0x59f111f1),
   (2, 3, 4, 5, 6, 7, 0, 1, 6, 0x923f82a4), (1, 2, 3, 4, 5, 6, 7, 0, 7, 0xab1c5ed5),
   (0, 1, 2, 3, 4, 5, 6, 7, 8, 0xd807aa98), (7, 0, 1, 2, 3, 4, 5, 6, 9, 0x12835b01),
   (6, 7, 0, 1, 2, 3, 4, 5, 10, 0x243185be), (5, 6, 7, 0, 1, 2, 3, 4, 11, 0x550c7dc3),
   (4, 5, 6, 7, 0, 1, 2, 3, 12, 0x72be5d74), (3, 4, 5, 6, 7, 0, 1, 2, 13, 0x80deb1fe),
   (2, 3, 4, 5, 6, 7, 0, 1, 14, 0x9bdc06a7), (1, 2, 3, 4, 5, 6, 7, 0, 15, 0xc19bf174),
   (0, 1, 2, 3, 4, 5, 6, 7, 16, 0xe49b69c1), (7, 0, 1, 2, 3, 4, 5, 6, 17, 0xefbe4786),
   (6, 7, 0, 1, 2, 3, 4, 5, 18, 0x0fc19dc6), (5, 6, 7, 0, 1, 2, 3, 4, 19, 0x240ca1cc),
   (4, 5, 6, 7, 0, 1, 2, 3, 20, 0x2de92c6f), (3, 4, 5, 6, 7, 0, 1, 2, 21, 0x4a7484aa),
   (2, 3, 4, 5, 6, 7, 0, 1, 22, 0x5cb0a9dc), (1, 2, 3, 4, 5, 6, 7, 0, 23, 0x76f988da),
   (0, 1, 2, 3, 4, 5, 6, 7, 24, 0x983e5152), (7, 0, 1, 2, 3, 4, 5, 6, 25, 0xa831c66d),
   (6, 7, 0, 1, 2, 3, 4, 5, 26, 0xb00327c8), (5, 6, 7, 0, 1, 2, 3, 4, 27, 0xbf597fc7),
   (4, 5, 6, 7, 0, 1, 2, 3, 28, 0xc6e00bf3), (3, 4, 5, 6, 7, 0, 1, 2, 29, 0xd5a79147),
   (2, 3, 4, 5, 6, 7, 0, 1, 30, 0x06ca6351), (1, 2, 3, 4, 5, 6, 7, 0, 31, 0x14292967),
   (0, 1, 2, 3, 4, 5, 6, 7, 32, 0x27b70a85), (7, 0, 1, 2, 3, 4, 5, 6, 33, 0x2e1b2138),
   (6, 7, 0, 1, 2, 3, 4, 5, 34, 0x4d2c6dfc), (5, 6, 7, 0, 1, 2, 3, 4, 35, 0x53380d13),
   (4, 5, 6, 7, 0, 1, 2, 3, 36, 0x650a7354), (3, 4, 5, 6, 7, 0, 1, 2, 37, 0x766a0abb),
   (2, 3, 4, 5, 6, 7, 0, 1, 38, 0x81c2c92e), (1, 2, 3, 4, 5, 6, 7, 0, 39, 0x92722c85),
   (0, 1, 2, 3, 4, 5, 6, 7, 40, 0xa2bfe8a1), (7, 0, 1, 2, 3, 4, 5, 6, 41, 0xa81a664b),
   (6, 7, 0, 1, 2, 3, 4, 5, 42, 0xc24b8b70), (5, 6, 7, 0, 1, 2, 3, 4, 43, 0xc76c51a3),
   (4, 5, 6, 7, 0, 1, 2, 3, 44, 0xd192e819), (3, 4, 5, 6, 7, 0, 1, 2, 45, 0xd6990624),
   (2, 3, 4, 5, 6, 7, 0, 1, 46, 0xf40e3585), (1, 2, 3, 4, 5, 6, 7, 0, 47, 0x106aa070),
   (0, 1, 2, 3, 4, 5, 6, 7, 48, 0x19a4c116), (7, 0, 1, 2, 3, 4, 5, 6, 49, 0x1e376c08),
   (6, 7, 0, 1, 2, 3, 4, 5, 50, 0x2748774c), (5, 6, 7, 0, 1, 2, 3, 4, 51, 0x34b0bcb5),
   (4, 5, 6, 7, 0, 1, 2, 3, 52, 0x391c0cb3), (3, 4, 5, 6, 7, 0, 1, 2, 53, 0x4ed8aa4a),
   (2, 3, 4, 5, 6, 7, 0, 1, 54, 0x5b9cca4f), (1, 2, 3, 4, 5, 6, 7, 0, 55, 0x682e6ff3),
   (0, 1, 2, 3, 4, 5, 6, 7, 56, 0x748f82ee), (7, 0, 1, 2, 3, 4, 5, 6, 57, 0x78a5636f),
   (6, 7, 0, 1, 2, 3, 4, 5, 58, 0x84c87814), (5, 6, 7, 0, 1, 2, 3, 4, 59, 0x8cc70208),
   (4, 5, 6, 7, 0, 1, 2, 3, 60, 0x90befffa), (3, 4, 5, 6, 7, 0, 1, 2, 61, 0xa4506ceb),
   (2, 3, 4, 5, 6, 7, 0, 1, 62, 0xbef9a3f7), (1, 2, 3, 4, 5, 6, 7, 0, 63, 0xc67178f2)]"

definition sha256_block_unrolled :: "u32 list \<Rightarrow> u8 list \<Rightarrow> u32 list" where
  "sha256_block_unrolled h block =
     (let r = foldl (UNROLL (sha256_W block))
                [h ! 0, h ! 1, h ! 2, h ! 3, h ! 4, h ! 5, h ! 6, h ! 7] sha256_unrolled
      in [h ! 0 + r ! 0, h ! 1 + r ! 1, h ! 2 + r ! 2, h ! 3 + r ! 3,
          h ! 4 + r ! 4, h ! 5 + r ! 5, h ! 6 + r ! 6, h ! 7 + r ! 7])"

definition SHA256ProcessMessageBlock :: "sha256ctx \<Rightarrow> sha256ctx" where
  "SHA256ProcessMessageBlock ctx =
     ctx\<lparr>sha_h := sha256_block (sha_h ctx) (sha_block ctx), sha_index := 0\<rparr>"

section \<open>Streaming\<close>

abbreviation SHA256_H0 :: "u32 list" where
  "SHA256_H0 \<equiv>
     [0x6A09E667, 0xBB67AE85, 0x3C6EF372, 0xA54FF53A,
      0x510E527F, 0x9B05688C, 0x1F83D9AB, 0x5BE0CD19]"

definition sha256_init :: sha256ctx where
  "sha256_init = \<lparr>sha_block = replicate 64 0, sha_h = SHA256_H0, sha_len = 0, sha_index = 0\<rparr>"

text \<open>The fast path, entered when no byte is pending, and what it leaves of the data.\<close>

function sha256_blocks :: "sha256ctx \<Rightarrow> u8 list \<Rightarrow> sha256ctx \<times> u8 list" where
  "sha256_blocks ctx data =
     (if 64 \<le> length data
      then sha256_blocks (SHA256ProcessMessageBlock (ctx\<lparr>sha_block := take 64 data\<rparr>)) (drop 64 data)
      else (ctx, data))"
  by pat_completeness auto
termination
  by (relation "measure (\<lambda>(ctx, data). length data)") auto

declare sha256_blocks.simps [simp del]

definition sha256_byte :: "sha256ctx \<Rightarrow> u8 \<Rightarrow> sha256ctx" where
  "sha256_byte ctx b =
     (let ctx = ctx\<lparr>sha_block := (sha_block ctx)[sha_index ctx := b AND 0xFF],
                    sha_index := sha_index ctx + 1\<rparr>
      in if sha_index ctx = 64 then SHA256ProcessMessageBlock ctx else ctx)"

text \<open>\<open>data\<close> is the list of the \<^verbatim>\<open>length\<close> bytes at the caller's pointer.\<close>

definition sha256_update :: "sha256ctx \<Rightarrow> u8 list \<Rightarrow> sha256ctx" where
  "sha256_update ctx data =
     (if data = [] then ctx
      else
        let ctx = ctx\<lparr>sha_len := sha_len ctx + of_nat (length data)\<rparr>;
            (ctx, data) = (if sha_index ctx = 0 then sha256_blocks ctx data else (ctx, data))
        in foldl sha256_byte ctx data)"

text \<open>The loops that write zeros up to an index.\<close>

function sha256_zero_to :: "nat \<Rightarrow> sha256ctx \<Rightarrow> sha256ctx" where
  "sha256_zero_to n ctx =
     (if sha_index ctx < n
      then sha256_zero_to n
        (ctx\<lparr>sha_block := (sha_block ctx)[sha_index ctx := 0], sha_index := sha_index ctx + 1\<rparr>)
      else ctx)"
  by pat_completeness auto
termination
  by (relation "measure (\<lambda>(n, ctx). n - sha_index ctx)") auto

declare sha256_zero_to.simps [simp del]

definition sha256_put :: "sha256ctx \<Rightarrow> u8 \<Rightarrow> sha256ctx" where
  "sha256_put ctx b = ctx\<lparr>sha_block := (sha_block ctx)[sha_index ctx := b], sha_index := sha_index ctx + 1\<rparr>"

definition sha256_store_len :: "sha256ctx \<Rightarrow> sha256ctx" where
  "sha256_store_len ctx =
     (let len = sha_len ctx * 8
      in ctx\<lparr>sha_len := len,
             sha_block := (sha_block ctx)
               [56 := ucast (drop_bit 56 len), 57 := ucast (drop_bit 48 len),
                58 := ucast (drop_bit 40 len), 59 := ucast (drop_bit 32 len),
                60 := ucast (drop_bit 24 len), 61 := ucast (drop_bit 16 len),
                62 := ucast (drop_bit 8 len), 63 := ucast len]\<rparr>)"

definition SHA256PadMessage :: "sha256ctx \<Rightarrow> sha256ctx" where
  "SHA256PadMessage ctx =
     (let ctx = (if sha_index ctx \<ge> 56
                 then SHA256ProcessMessageBlock (sha256_zero_to 64 (sha256_put ctx 0x80))
                 else sha256_put ctx 0x80)
      in SHA256ProcessMessageBlock (sha256_store_len (sha256_zero_to 56 ctx)))"

definition sha256_digest :: "u32 list \<Rightarrow> u8 list" where
  "sha256_digest h = map (\<lambda>i. ucast (drop_bit (8 * (3 - i mod 4)) (h ! (i div 4)))) [0..<32]"

text \<open>The digest, and the context cleared behind it.\<close>

definition sha256_final :: "sha256ctx \<Rightarrow> u8 list \<times> sha256ctx" where
  "sha256_final ctx =
     (sha256_digest (sha_h (SHA256PadMessage ctx)),
      \<lparr>sha_block = replicate 64 0, sha_h = replicate 8 0, sha_len = 0, sha_index = 0\<rparr>)"

definition sha256str :: "u8 list \<Rightarrow> char list \<Rightarrow> char list option" where
  "sha256str digest str = do {
     d \<leftarrow> rdn digest 0 32;
     wrn str 0 (hex_digits d @ [CHR 0x00])
   }"

definition sha256 :: "u8 list \<Rightarrow> u8 list" where
  "sha256 data = fst (sha256_final (sha256_update sha256_init data))"

section \<open>FIPS 180-2\<close>

text \<open>
  The constants of the standard, from its definition of them and not from the source: the
  first 32 bits of the fractional parts of the square roots of the first 8 primes and of the
  cube roots of the first 64. \<open>iroot k n\<close> is the integer part of the \<open>k\<close>-th root of \<open>n\<close>,
  digit by digit.
\<close>

function iroot :: "nat \<Rightarrow> int \<Rightarrow> int" where
  "iroot k n =
     (if n \<le> 0 \<or> k = 0 then 0
      else let r = 2 * iroot k (n div 2 ^ k) in if (r + 1) ^ k \<le> n then r + 1 else r)"
  by pat_completeness auto
termination
proof (relation "measure (\<lambda>(k, n). nat n)")
  fix k :: nat and n :: int
  assume "\<not> (n \<le> 0 \<or> k = 0)"
  then have "n div 2 ^ k < n" by (intro int_div_less_self) (auto intro: one_less_power)
  then show "((k, n div 2 ^ k), k, n) \<in> measure (\<lambda>(k, n). nat n)"
    using \<open>\<not> (n \<le> 0 \<or> k = 0)\<close> by simp
qed simp

declare iroot.simps [simp del]

lemma iroot_correct:
  "0 < k \<Longrightarrow> 0 \<le> n \<Longrightarrow> 0 \<le> iroot k n \<and> iroot k n ^ k \<le> n \<and> n < (iroot k n + 1) ^ k"
proof (induction k n rule: iroot.induct)
  case (1 k n)
  show ?case
  proof (cases "n = 0")
    case True
    then show ?thesis using 1 by (simp add: iroot.simps [of k 0] zero_power)
  next
    case False
    let ?m = "iroot k (n div 2 ^ k)"
    have IH: "0 \<le> ?m" "?m ^ k \<le> n div 2 ^ k" "n div 2 ^ k < (?m + 1) ^ k"
      using 1 False by (auto simp: pos_imp_zdiv_nonneg_iff)
    have "n = 2 ^ k * (n div 2 ^ k) + n mod 2 ^ k" by simp
    moreover have "0 \<le> n mod 2 ^ k" "n mod 2 ^ k < 2 ^ k" by simp_all
    ultimately have d: "2 ^ k * (n div 2 ^ k) \<le> n" "n < 2 ^ k * (n div 2 ^ k) + 2 ^ k" by linarith+
    have "(2 * ?m) ^ k \<le> 2 ^ k * (n div 2 ^ k)"
      unfolding power_mult_distrib using IH by (intro mult_left_mono) auto
    then have lo: "(2 * ?m) ^ k \<le> n" using d(1) by (rule order_trans)
    have "2 ^ k * (n div 2 ^ k + 1) \<le> 2 ^ k * (?m + 1) ^ k"
      using IH by (intro mult_left_mono) auto
    moreover have "2 ^ k * (n div 2 ^ k + 1) = 2 ^ k * (n div 2 ^ k) + 2 ^ k" by (simp add: distrib_left)
    ultimately have "n < 2 ^ k * (?m + 1) ^ k" using d(2) by linarith
    then have "n < (2 * (?m + 1)) ^ k" by (simp only: power_mult_distrib)
    then have hi: "n < (2 * ?m + 2) ^ k" by (simp add: algebra_simps)
    show ?thesis using 1 False lo hi IH by (auto simp: iroot.simps [of k n] Let_def not_le add.commute)
  qed
qed

lemma iroot_unique:
  assumes "0 < k" "0 \<le> r" "r ^ k \<le> n" "n < (r + 1) ^ k"
  shows "iroot k n = r"
proof -
  have n: "0 \<le> n" using assms by (meson order_trans zero_le_power)
  note i = iroot_correct [OF assms(1) n]
  have "r ^ k < (iroot k n + 1) ^ k" "iroot k n ^ k < (r + 1) ^ k" using assms i by linarith+
  then have "r < iroot k n + 1" "iroot k n < r + 1"
    using power_less_imp_less_base [of r k "iroot k n + 1"] power_less_imp_less_base [of "iroot k n" k "r + 1"] assms(2) i
    by linarith+
  then show ?thesis by simp
qed

text \<open>The primes below 312, by trial division with the smaller ones.\<close>

definition first_primes :: "int list" where
  "first_primes =
     foldl (\<lambda>ps n. if list_all (\<lambda>p. n mod p \<noteq> 0) ps then ps @ [n] else ps) [] [2..311]"

definition root_bits :: "nat \<Rightarrow> int \<Rightarrow> u32" where
  "root_bits k p = of_int (iroot k (p * 2 ^ (32 * k)) mod 2 ^ 32)"

definition fips_H0 :: "u32 list" where
  "fips_H0 = map (root_bits 2) (take 8 first_primes)"

definition fips_K :: "u32 list" where
  "fips_K = map (root_bits 3) first_primes"


definition fips_Ch :: "u32 \<Rightarrow> u32 \<Rightarrow> u32 \<Rightarrow> u32" where
  "fips_Ch x y z = (x AND y) XOR (NOT x AND z)"

definition fips_Maj :: "u32 \<Rightarrow> u32 \<Rightarrow> u32 \<Rightarrow> u32" where
  "fips_Maj x y z = (x AND y) XOR (x AND z) XOR (y AND z)"

definition fips_Sigma0 :: "u32 \<Rightarrow> u32" where
  "fips_Sigma0 w = word_rotr 2 w XOR word_rotr 13 w XOR word_rotr 22 w"

definition fips_Sigma1 :: "u32 \<Rightarrow> u32" where
  "fips_Sigma1 w = word_rotr 6 w XOR word_rotr 11 w XOR word_rotr 25 w"

definition fips_sigma0 :: "u32 \<Rightarrow> u32" where
  "fips_sigma0 w = word_rotr 7 w XOR word_rotr 18 w XOR drop_bit 3 w"

definition fips_sigma1 :: "u32 \<Rightarrow> u32" where
  "fips_sigma1 w = word_rotr 17 w XOR word_rotr 19 w XOR drop_bit 10 w"

function fips_W :: "u8 list \<Rightarrow> nat \<Rightarrow> u32" where
  "fips_W M t =
     (if t < 16 then word32_of_be (take 4 (drop (4 * t) M))
      else fips_sigma1 (fips_W M (t - 2)) + fips_W M (t - 7)
        + fips_sigma0 (fips_W M (t - 15)) + fips_W M (t - 16))"
  by pat_completeness auto
termination
  by (relation "measure snd") auto

declare fips_W.simps [simp del]

fun fips_step :: "u8 list \<Rightarrow> sha_regs \<Rightarrow> nat \<Rightarrow> sha_regs" where
  "fips_step M (a, b, c, d, e, f, g, h) t =
     (let T1 = h + fips_Sigma1 e + fips_Ch e f g + fips_K ! t + fips_W M t;
          T2 = fips_Sigma0 a + fips_Maj a b c
      in (T1 + T2, a, b, c, d + T1, e, f, g))"

definition fips_block :: "u32 list \<Rightarrow> u8 list \<Rightarrow> u32 list" where
  "fips_block h M =
     (case foldl (fips_step M) (h ! 0, h ! 1, h ! 2, h ! 3, h ! 4, h ! 5, h ! 6, h ! 7) [0..<64] of
       (a, b, c, d, e, f, g, k) \<Rightarrow> map2 (+) (map ((!) h) [0..<8]) [a, b, c, d, e, f, g, k])"

text \<open>The length field has 64 bits; the standard admits messages below \<open>2 ^ 61\<close> bytes.\<close>

definition fips_sha256 :: "u8 list \<Rightarrow> u8 list" where
  "fips_sha256 msg =
     concat (map be_bytes32 (fst (absorb fips_block fips_H0
       (msg @ md_pad (length msg) (be_bytes64 (of_nat (8 * length msg)))))))"

section \<open>The compression is the one of the standard\<close>

lemma first_primes_eq: "first_primes =
    [2, 3, 5, 7, 11, 13, 17, 19, 23, 29, 31, 37, 41, 43, 47, 53, 59, 61,
     67, 71, 73, 79, 83, 89, 97, 101, 103, 107, 109, 113, 127, 131, 137, 139, 149, 151,
     157, 163, 167, 173, 179, 181, 191, 193, 197, 199, 211, 223, 227, 229, 233, 239, 241, 251,
     257, 263, 269, 271, 277, 281, 283, 293, 307, 311]"
  by code_simp

lemma root_bits_unique:
  assumes "0 < k" "0 \<le> r" "r ^ k \<le> p * 2 ^ (32 * k)" "p * 2 ^ (32 * k) < (r + 1) ^ k"
  shows "root_bits k p = of_int (r mod 2 ^ 32)"
  using iroot_unique [OF assms] by (simp add: root_bits_def)

lemma roots_unique:
  "list_all2 (\<lambda>p r. 0 \<le> r \<and> r ^ k \<le> p * 2 ^ (32 * k) \<and> p * 2 ^ (32 * k) < (r + 1) ^ k) ps rs \<Longrightarrow>
     0 < k \<Longrightarrow> map (root_bits k) ps = map (\<lambda>r. of_int (r mod 2 ^ 32)) rs"
  by (induction ps rs rule: list_all2_induct) (auto intro!: root_bits_unique [simplified])

lemma fips_H0_eq: "SHA256_H0 = fips_H0"
proof -
  have "map (root_bits 2) (take 8 first_primes) = map (\<lambda>r. of_int (r mod 2 ^ 32))
    [6074000999, 7439101573, 9603838834, 11363415354, 14244795007, 15485724812,
     17708603819, 18721328409]"
    unfolding first_primes_eq by (rule roots_unique) (simp_all only: take_Suc_Cons, simp_all)
  then show ?thesis by (simp add: fips_H0_def)
qed

lemma fips_K_eq: "SHA256_K = fips_K"
proof -
  have "map (root_bits 3) first_primes = map (\<lambda>r. of_int (r mod 2 ^ 32))
    [5411319704, 6194414737, 7344290767, 8215976869, 9551921755, 10098905585, 11043570340,
     11460697813, 12214315672, 13195500289, 13492127166, 14311783875, 14809980276, 15046980094,
     15499789991, 16133124468, 16720292289, 16907126662, 17444216262, 17784676812, 17950125167,
     18429019306, 18734950876, 19175934170, 19734090066, 20001703533, 20132865992, 20390182855,
     20516441075, 20764397895, 21588763473, 21813078375, 22141143685, 22248366392, 22769593852,
     22871018771, 23170020180, 23461497531, 23651862830, 23931792517, 24205322401, 24295138891,
     24734567280, 24820601251, 24990902297, 25075189284, 25569408389, 26045227120, 26200031510,
     26276752392, 26428864332, 26653801653, 26727943347, 27092625994, 27306805839, 27517677555,
     27725365998, 27793908591, 27997534228, 28131656200, 28198240250, 28526537963, 28973835255,
     29099129074]"
    unfolding first_primes_eq by (rule roots_unique) simp_all
  then show ?thesis by (simp add: fips_K_def SHA256_K_def)
qed

lemma SHA256_ROTR_eq:
  assumes "0 < n" "n < 32"
  shows "SHA256_ROTR n x = word_rotr n x"
proof (rule bit_eqI)
  fix i assume "possible_bit TYPE(32 word) i"
  then have i: "i < 32" by simp
  show "bit (SHA256_ROTR n x) i = bit (word_rotr n x) i"
  proof (cases "i + n < 32")
    case True
    with assms i show ?thesis
      by (auto simp: SHA256_ROTR_def bit_simps bit_word_rotr_iff add.commute)
  next
    case False
    then have "(i + n) mod 32 = i + n - 32" using assms i by (simp add: le_mod_geq)
    with False i assms show ?thesis
      by (auto simp: SHA256_ROTR_def bit_simps bit_word_rotr_iff add.commute dest: bit_imp_le_length)
  qed
qed

lemma SHA_Ch_eq: "SHA_Ch x y z = fips_Ch x y z"
  by (rule bit_eqI) (auto simp: SHA_Ch_def fips_Ch_def bit_simps)

lemma SHA_Maj_eq: "SHA_Maj x y z = fips_Maj x y z"
  by (rule bit_eqI) (auto simp: SHA_Maj_def fips_Maj_def bit_simps)

lemmas sha_macros = SHA_Ch_eq SHA_Maj_eq
  SHA256_SIGMA0_def SHA256_SIGMA1_def SHA256_sigma0_def SHA256_sigma1_def SHA256_SHR_def
  fips_Sigma0_def fips_Sigma1_def fips_sigma0_def fips_sigma1_def

lemma sha_macros_eq:
  "SHA256_SIGMA0 = fips_Sigma0" "SHA256_SIGMA1 = fips_Sigma1"
  "SHA256_sigma0 = fips_sigma0" "SHA256_sigma1 = fips_sigma1"
  by (simp_all add: fun_eq_iff sha_macros SHA256_ROTR_eq)

lemma CB_INIT_eq: "4 * t + 4 \<le> length block \<Longrightarrow> CB_INIT block (4 * t) = word32_of_be (take 4 (drop (4 * t) block))"
  by (simp add: CB_INIT_def word32_of_be_def)

lemma sha256_W16_eq: "length block = 64 \<Longrightarrow> sha256_W16 block = map (fips_W block) [0..<16]"
proof -
  assume len: "length block = 64"
  have "fips_W block t = CB_INIT block (4 * t)" if "t < 16" for t
    using that len by (simp add: fips_W.simps CB_INIT_eq)
  then have "map (fips_W block) [0..<16] = map (\<lambda>t. CB_INIT block (4 * t)) [0..<16]" by simp
  then show ?thesis by (simp add: sha256_W16_def upt_eval)
qed

lemma sha256_W_eq:
  assumes "length block = 64" and "16 \<le> n"
  shows "foldl sha256_extend (sha256_W16 block) [16..<n] = map (fips_W block) [0..<n]"
  using assms(2)
proof (induction n rule: dec_induct)
  case base
  then show ?case by (simp add: sha256_W16_eq assms(1))
next
  case (step n)
  then show ?case
    by (simp add: sha256_extend_def fips_W.simps [of block n] sha_macros_eq)
qed

lemma prod_cases8: "(\<And>A B C D E F G H. r = (A, B, C, D, E, F, G, H) \<Longrightarrow> P) \<Longrightarrow> P"
  by (metis surj_pair)

lemma sha256_step_eq:
  "length block = 64 \<Longrightarrow> t < 64 \<Longrightarrow> sha256_step (sha256_W block) r t = fips_step block r t"
  unfolding sha256_W_def
  by (cases r rule: prod_cases8) (simp add: sha256_W_eq sha_macros_eq SHA_Ch_eq SHA_Maj_eq fips_K_eq del: upt_rec_numeral)

lemma sha256_block_fips: "length block = 64 \<Longrightarrow> sha256_block h block = fips_block h block"
proof -
  assume "length block = 64"
  then have "foldl (sha256_step (sha256_W block)) (load_regs h) [0..<64] =
      foldl (fips_step block) (load_regs h) [0..<64]"
    by (intro foldl_cong) (simp_all add: sha256_step_eq)
  moreover obtain a b c d e f g k
    where "foldl (fips_step block) (load_regs h) [0..<64] = (a, b, c, d, e, f, g, k)"
    by (cases "foldl (fips_step block) (load_regs h) [0..<64]" rule: prod_cases8)
  ultimately show ?thesis
    unfolding sha256_block_def fips_block_def load_regs_def [symmetric] by (simp add: upt_eval)
qed

section \<open>The unrolled loop\<close>

definition sregs :: "sha_regs \<Rightarrow> u32 list" where
  "sregs = (\<lambda>(A, B, C, D, E, F, G, H). [A, B, C, D, E, F, G, H])"

definition octet :: "nat \<Rightarrow> (nat \<times> nat \<times> nat \<times> nat \<times> nat \<times> nat \<times> nat \<times> nat \<times> nat \<times> u32) list" where
  "octet j = map (\<lambda>(m, (a, b, c, d, e, f, g, h)). (a, b, c, d, e, f, g, h, 8 * j + m, SHA256_K ! (8 * j + m)))
     [(0, 0, 1, 2, 3, 4, 5, 6, 7), (1, 7, 0, 1, 2, 3, 4, 5, 6), (2, 6, 7, 0, 1, 2, 3, 4, 5),
      (3, 5, 6, 7, 0, 1, 2, 3, 4), (4, 4, 5, 6, 7, 0, 1, 2, 3), (5, 3, 4, 5, 6, 7, 0, 1, 2),
      (6, 2, 3, 4, 5, 6, 7, 0, 1), (7, 1, 2, 3, 4, 5, 6, 7, 0)]"

lemma unrolled_octets: "sha256_unrolled = concat (map octet [0, 1, 2, 3, 4, 5, 6, 7])"
  by (simp add: sha256_unrolled_def octet_def SHA256_K_def)

definition eight :: "nat \<Rightarrow> nat list" where
  "eight j = map (\<lambda>m. 8 * j + m) [0, 1, 2, 3, 4, 5, 6, 7]"

definition turn :: "nat \<Rightarrow> sha_regs \<Rightarrow> u32 list" where
  "turn m r = drop m (sregs r) @ take m (sregs r)"

lemma UNROLL_turn:
  "UNROLL W (turn 0 r) (0, 1, 2, 3, 4, 5, 6, 7, t, SHA256_K ! t) = turn 1 (sha256_step W r t)"
  "UNROLL W (turn 1 r) (7, 0, 1, 2, 3, 4, 5, 6, t, SHA256_K ! t) = turn 2 (sha256_step W r t)"
  "UNROLL W (turn 2 r) (6, 7, 0, 1, 2, 3, 4, 5, t, SHA256_K ! t) = turn 3 (sha256_step W r t)"
  "UNROLL W (turn 3 r) (5, 6, 7, 0, 1, 2, 3, 4, t, SHA256_K ! t) = turn 4 (sha256_step W r t)"
  "UNROLL W (turn 4 r) (4, 5, 6, 7, 0, 1, 2, 3, t, SHA256_K ! t) = turn 5 (sha256_step W r t)"
  "UNROLL W (turn 5 r) (3, 4, 5, 6, 7, 0, 1, 2, t, SHA256_K ! t) = turn 6 (sha256_step W r t)"
  "UNROLL W (turn 6 r) (2, 3, 4, 5, 6, 7, 0, 1, t, SHA256_K ! t) = turn 7 (sha256_step W r t)"
  "UNROLL W (turn 7 r) (1, 2, 3, 4, 5, 6, 7, 0, t, SHA256_K ! t) = turn 8 (sha256_step W r t)"
  by (cases r rule: prod_cases8, simp add: turn_def sregs_def Let_def)+

lemma turn_8: "turn 8 r = sregs r" "turn 0 r = sregs r"
  by (cases r rule: prod_cases8, simp add: turn_def sregs_def)+

lemma octet_sim:
  "foldl (UNROLL W) (sregs r) (octet j) = sregs (foldl (sha256_step W) r (eight j))"
  unfolding octet_def eight_def list.map prod.case foldl.simps turn_8(2) [of r, symmetric]
  by (simp only: UNROLL_turn turn_8(1))

lemma octets_sim:
  "foldl (UNROLL W) (sregs r) (concat (map octet js)) =
     sregs (foldl (sha256_step W) r (concat (map eight js)))"
  by (induction js arbitrary: r) (simp_all add: octet_sim)

lemma eight_upt: "concat (map eight [0, 1, 2, 3, 4, 5, 6, 7]) = [0..<64]"
  by (simp add: eight_def upt_eval)

lemma add_regs_sregs: "add_regs h r = (let r = sregs r in
    [h ! 0 + r ! 0, h ! 1 + r ! 1, h ! 2 + r ! 2, h ! 3 + r ! 3,
     h ! 4 + r ! 4, h ! 5 + r ! 5, h ! 6 + r ! 6, h ! 7 + r ! 7])"
  by (cases r rule: prod_cases8) (simp add: sregs_def)

text \<open>
  The unrolled form of the compression, the disabled branch of
  \<^verbatim>\<open>SHA256ProcessMessageBlock\<close> that renames the eight variables instead of moving them,
  computes the same block function as the loop that is compiled.
\<close>

theorem sha256_unrolled_equiv: "sha256_block_unrolled h block = sha256_block h block"
proof -
  have "[h ! 0, h ! 1, h ! 2, h ! 3, h ! 4, h ! 5, h ! 6, h ! 7] = sregs (load_regs h)"
    by (simp add: sregs_def load_regs_def)
  then show ?thesis
    unfolding sha256_block_unrolled_def sha256_block_def add_regs_sregs unrolled_octets
    by (simp only: octets_sim eight_upt)
qed

section \<open>The streaming functions\<close>

text \<open>The invariant of a context between two calls.\<close>

definition sha256_ctx_ok :: "sha256ctx \<Rightarrow> bool" where
  "sha256_ctx_ok ctx \<longleftrightarrow> length (sha_h ctx) = 8 \<and> length (sha_block ctx) = 64 \<and> sha_index ctx < 64"

definition sha256_pending :: "sha256ctx \<Rightarrow> u8 list" where
  "sha256_pending ctx = take (sha_index ctx) (sha_block ctx)"

lemma length_sha256_block [simp]: "length (sha256_block h b) = 8"
  unfolding sha256_block_def
  by (cases "foldl (sha256_step (sha256_W b)) (load_regs h) [0..<64]" rule: prod_cases8) simp

lemma sha256_blocks_correct:
  "sha256_ctx_ok ctx \<Longrightarrow> sha_index ctx = 0 \<Longrightarrow> sha256_blocks ctx data = (ctx', rest) \<Longrightarrow>
     sha256_ctx_ok ctx' \<and> sha_index ctx' = 0 \<and> sha_len ctx' = sha_len ctx \<and>
     absorb sha256_block (sha_h ctx) data = absorb sha256_block (sha_h ctx') rest"
proof (induction "length data" arbitrary: ctx data rule: less_induct)
  case less
  show ?case
  proof (cases "64 \<le> length data")
    case True
    let ?c = "SHA256ProcessMessageBlock (ctx\<lparr>sha_block := take 64 data\<rparr>)"
    have "sha256_blocks ?c (drop 64 data) = (ctx', rest)"
      using less.prems(3) True by (simp add: sha256_blocks.simps [of ctx data])
    moreover have "sha256_ctx_ok ?c" "sha_index ?c = 0" "length (drop 64 data) < length data"
      using True by (simp_all add: sha256_ctx_ok_def SHA256ProcessMessageBlock_def)
    ultimately show ?thesis
      using less.hyps [of "drop 64 data" ?c] True
      by (simp add: absorb.simps [of _ "sha_h ctx" data] SHA256ProcessMessageBlock_def)
  next
    case False
    then show ?thesis
      using less.prems by (simp add: sha256_blocks.simps [of ctx data])
  qed
qed

lemma sha256_byte_correct:
  assumes "sha256_ctx_ok ctx"
  shows "sha256_ctx_ok (sha256_byte ctx b) \<and> sha_len (sha256_byte ctx b) = sha_len ctx \<and>
    absorb sha256_block (sha_h ctx) (sha256_pending ctx @ [b]) =
      (sha_h (sha256_byte ctx b), sha256_pending (sha256_byte ctx b))"
proof -
  from assms have ok: "length (sha_h ctx) = 8" "length (sha_block ctx) = 64" "sha_index ctx < 64"
    by (auto simp: sha256_ctx_ok_def)
  have "(0xFF :: u8) = - 1" by simp
  then have ff: "b AND 0xFF = b" by (simp only: bit.conj_one_right)
  have p: "take (Suc (sha_index ctx)) ((sha_block ctx)[sha_index ctx := b]) = sha256_pending ctx @ [b]"
    using ok by (simp add: take_Suc_conv_app_nth sha256_pending_def)
  have len: "length (sha256_pending ctx @ [b]) = Suc (sha_index ctx)"
    using ok by (simp add: sha256_pending_def)
  show ?thesis
  proof (cases "Suc (sha_index ctx) = 64")
    case True
    then have "sha256_pending ctx @ [b] = (sha_block ctx)[sha_index ctx := b]"
      using p ok by simp
    then show ?thesis
      using True ok len absorb_block [of "sha256_pending ctx @ [b]" sha256_block "sha_h ctx" "[]"]
      by (simp add: sha256_byte_def Let_def ff sha256_ctx_ok_def SHA256ProcessMessageBlock_def
          absorb_short sha256_pending_def)
  next
    case False
    then show ?thesis
      using ok p len by (simp add: sha256_byte_def Let_def ff sha256_ctx_ok_def absorb_short)
        (simp add: sha256_pending_def)
  qed
qed

lemma sha256_bytes_correct:
  "sha256_ctx_ok ctx \<Longrightarrow>
     sha256_ctx_ok (foldl sha256_byte ctx data) \<and> sha_len (foldl sha256_byte ctx data) = sha_len ctx \<and>
     absorb sha256_block (sha_h ctx) (sha256_pending ctx @ data) =
       (sha_h (foldl sha256_byte ctx data), sha256_pending (foldl sha256_byte ctx data))"
proof (induction data arbitrary: ctx)
  case Nil
  then show ?case by (simp add: absorb_short sha256_pending_def sha256_ctx_ok_def)
next
  case (Cons b data)
  then show ?case
    using sha256_byte_correct [OF Cons.prems, of b]
      absorb_append [of sha256_block "sha_h ctx" "sha256_pending ctx @ [b]" data]
    by simp
qed

lemma sha256_update_correct:
  assumes "sha256_ctx_ok ctx"
  shows "sha256_ctx_ok (sha256_update ctx data) \<and>
    absorb sha256_block (sha_h ctx) (sha256_pending ctx @ data) =
      (sha_h (sha256_update ctx data), sha256_pending (sha256_update ctx data)) \<and>
    sha_len (sha256_update ctx data) = sha_len ctx + of_nat (length data)"
proof (cases "data = []")
  case True
  with assms show ?thesis
    by (simp add: sha256_update_def absorb_short sha256_pending_def sha256_ctx_ok_def)
next
  case False
  let ?c = "ctx\<lparr>sha_len := sha_len ctx + of_nat (length data)\<rparr>"
  have ok: "sha256_ctx_ok ?c" using assms by (simp add: sha256_ctx_ok_def)
  show ?thesis
  proof (cases "sha_index ctx = 0")
    case True
    obtain c' rest where b: "sha256_blocks ?c data = (c', rest)" by (cases "sha256_blocks ?c data")
    have c': "sha256_ctx_ok c'" "sha_index c' = 0" "sha_len c' = sha_len ?c"
      "absorb sha256_block (sha_h ctx) data = absorb sha256_block (sha_h c') rest"
      using sha256_blocks_correct [OF ok _ b] True by auto
    have "sha256_update ctx data = foldl sha256_byte c' rest"
      using False True b by (simp add: sha256_update_def)
    moreover have "sha256_pending c' = []" "sha256_pending ctx = []"
      using True c'(2) by (simp_all add: sha256_pending_def)
    ultimately show ?thesis
      using sha256_bytes_correct [OF c'(1), of rest] c'(3, 4) by simp
  next
    case index: False
    then have "sha256_update ctx data = foldl sha256_byte ?c data"
      using False by (simp add: sha256_update_def)
    then show ?thesis
      using sha256_bytes_correct [OF ok, of data] by (simp add: sha256_pending_def)
  qed
qed

lemma sha256_zero_to_eq:
  "sha_index ctx \<le> n \<Longrightarrow> n \<le> length (sha_block ctx) \<Longrightarrow>
     sha256_zero_to n ctx =
       ctx\<lparr>sha_block := blit (sha_block ctx) (sha_index ctx) (replicate (n - sha_index ctx) 0), sha_index := n\<rparr>"
proof (induction n ctx rule: sha256_zero_to.induct)
  case (1 n ctx)
  show ?case
  proof (cases "sha_index ctx < n")
    case True
    then have "n - sha_index ctx = Suc (n - Suc (sha_index ctx))" by simp
    moreover have "take (Suc (sha_index ctx)) ((sha_block ctx)[sha_index ctx := 0]) =
        take (sha_index ctx) (sha_block ctx) @ [0]"
      using True "1.prems" by (simp add: take_Suc_conv_app_nth)
    ultimately show ?thesis
      using 1 True by (simp add: sha256_zero_to.simps [of n ctx] blit_def)
  next
    case False
    then show ?thesis
      using "1.prems" by (simp add: sha256_zero_to.simps [of n ctx] blit_def)
  qed
qed

definition sha256_len8 :: "u64 \<Rightarrow> u8 list" where
  "sha256_len8 n = be_bytes64 (n * 8)"

lemma sha256_store_len_eq:
  assumes "length pre = 56" and "length suf = 8"
  shows "sha_block (sha256_store_len (ctx\<lparr>sha_block := pre @ suf\<rparr>)) = pre @ sha256_len8 (sha_len ctx)"
proof -
  obtain a b c d e f g h where "suf = [a, b, c, d, e, f, g, h]" using assms(2) by (auto simp: length8_conv)
  then show ?thesis
    using assms(1) by (simp add: sha256_store_len_def Let_def sha256_len8_def be_bytes64_def list_update_append)
qed

lemma sha256_put_pending:
  assumes "sha256_ctx_ok ctx"
  shows "sha256_pending (sha256_put ctx b) = sha256_pending ctx @ [b] \<and>
    sha_index (sha256_put ctx b) = Suc (sha_index ctx) \<and> length (sha_block (sha256_put ctx b)) = 64 \<and>
    sha_len (sha256_put ctx b) = sha_len ctx \<and> sha_h (sha256_put ctx b) = sha_h ctx"
  using assms by (simp add: sha256_put_def sha256_pending_def sha256_ctx_ok_def take_Suc_conv_app_nth)

text \<open>The last block, from a context that has room for the length.\<close>

lemma sha256_last_block:
  assumes "length (sha_block ctx) = 64" "sha_index ctx \<le> 56"
  shows "sha_h (SHA256ProcessMessageBlock (sha256_store_len (sha256_zero_to 56 ctx))) =
    sha256_block (sha_h ctx)
      (sha256_pending ctx @ replicate (56 - sha_index ctx) 0 @ sha256_len8 (sha_len ctx))"
proof -
  let ?pre = "sha256_pending ctx @ replicate (56 - sha_index ctx) 0"
  have z: "sha256_zero_to 56 ctx = (ctx\<lparr>sha_index := 56\<rparr>)\<lparr>sha_block := ?pre @ drop 56 (sha_block ctx)\<rparr>"
    using assms by (simp add: sha256_zero_to_eq blit_def sha256_pending_def)
  have "length ?pre = 56" "length (drop 56 (sha_block ctx)) = 8"
    using assms by (simp_all add: sha256_pending_def)
  then have "sha_block (sha256_store_len (sha256_zero_to 56 ctx)) = ?pre @ sha256_len8 (sha_len ctx)"
    unfolding z by (simp only: sha256_store_len_eq) simp
  moreover have "sha_h (sha256_store_len (sha256_zero_to 56 ctx)) = sha_h ctx"
    by (simp add: z sha256_store_len_def Let_def)
  ultimately show ?thesis by (simp add: SHA256ProcessMessageBlock_def)
qed

lemma sha256_pad_correct:
  assumes "sha256_ctx_ok ctx"
  shows "sha_h (SHA256PadMessage ctx) =
    finish sha256_block (sha_h ctx) (sha256_pending ctx) (sha256_len8 (sha_len ctx))"
proof -
  let ?p = "sha256_put ctx 0x80"
  note put = sha256_put_pending [OF assms, of "0x80"]
  have ok: "length (sha256_pending ctx) = sha_index ctx" "sha_index ctx < 64"
    using assms by (auto simp: sha256_ctx_ok_def sha256_pending_def)
  show ?thesis
  proof (cases "56 \<le> sha_index ctx")
    case True
    let ?c = "SHA256ProcessMessageBlock (sha256_zero_to 64 ?p)"
    have "sha_block (sha256_zero_to 64 ?p) = sha256_pending ctx @ 0x80 # replicate (63 - sha_index ctx) 0"
      and "sha_h (sha256_zero_to 64 ?p) = sha_h ctx" and "sha_len (sha256_zero_to 64 ?p) = sha_len ctx"
      using put ok by (auto simp: sha256_zero_to_eq blit_def sha256_pending_def)
    then have c: "sha_h ?c = sha256_block (sha_h ctx) (sha256_pending ctx @ 0x80 # replicate (63 - sha_index ctx) 0)"
      "length (sha_block ?c) = 64" "sha_index ?c = 0" "sha_len ?c = sha_len ctx"
      using ok by (simp_all add: SHA256ProcessMessageBlock_def)
    moreover have "sha256_pending ?c = []" using c(3) by (simp add: sha256_pending_def)
    ultimately show ?thesis
      using True sha256_last_block [of ?c] ok by (simp add: SHA256PadMessage_def finish_def)
  next
    case False
    then show ?thesis
      using put sha256_last_block [of ?p] ok by (simp add: SHA256PadMessage_def finish_def)
  qed
qed

lemma sha256_digest_eq: "length h = 8 \<Longrightarrow> sha256_digest h = concat (map be_bytes32 h)"
  by (auto simp: length8_conv sha256_digest_def be_bytes32_def upt_eval)

interpretation sha256h: block_hash sha256_block "\<lambda>c. c = sha256_init" SHA256_H0 sha256_update
  "\<lambda>c. fst (sha256_final c)" sha256_ctx_ok sha_h sha256_pending sha_len sha256_digest sha256_len8
proof (unfold_locales, goal_cases)
  case (1 c)
  then show ?case by (simp add: sha256_init_def sha256_ctx_ok_def sha256_pending_def)
next
  case (5 c)
  then show ?case by (simp add: sha256_final_def sha256_pad_correct)
qed (simp_all add: sha256_update_correct sha256_len8_def)

section \<open>Results\<close>

lemma sha256_absorb_fips: "absorb sha256_block h bs = absorb fips_block h bs"
  by (rule absorb_cong [where P = "\<lambda>_. True"]) (simp_all add: sha256_block_fips)

lemma length_absorb_sha256: "length h = 8 \<Longrightarrow> length (fst (absorb sha256_block h bs)) = 8"
proof (induction "length bs" arbitrary: h bs rule: less_induct)
  case less
  then show ?case by (simp add: absorb.simps [of _ h bs])
qed

text \<open>
  C2. \<^verbatim>\<open>sha256\<close> computes the FIPS 180-2 digest of every message: the word schedule, the
  modified \<^verbatim>\<open>Ch\<close> and \<^verbatim>\<open>Maj\<close> macros, the shift-based rotations, the block-wise fast path,
  the byte loop, the padding and the big-endian length are the ones of the standard.
\<close>

theorem sha256_correct: "sha256 msg = fips_sha256 msg"
proof -
  have "sha256 msg = sha256_digest (fst (absorb sha256_block SHA256_H0
      (msg @ md_pad (length msg) (sha256_len8 (of_nat (length msg))))))"
    using sha256h.digest_padded [OF refl, of "[msg]"] by (simp add: sha256_def)
  also have "sha256_len8 (of_nat (length msg)) = be_bytes64 (of_nat (8 * length msg))"
    by (simp add: sha256_len8_def mult.commute)
  finally show ?thesis
    by (simp add: sha256_digest_eq length_absorb_sha256 fips_sha256_def
        flip: sha256_absorb_fips fips_H0_eq)
qed

text \<open>
  C33. The SHA-256 digest does not depend on how the message is cut into calls of
  \<^verbatim>\<open>sha256_update\<close>, so the fast path for whole blocks and the byte loop agree, and the
  context is zeroed behind the digest.
\<close>

theorem sha256_pieces:
  "sha256_final (foldl sha256_update sha256_init ds) =
     (sha256 (concat ds), \<lparr>sha_block = replicate 64 0, sha_h = replicate 8 0, sha_len = 0, sha_index = 0\<rparr>)"
  using sha256h.digest_pieces [OF refl refl, of ds] by (simp add: sha256_def sha256_final_def)

text \<open>
  \<^verbatim>\<open>sha256str\<close> fills exactly 65 characters of a buffer that has them, with a
  null-terminated string of 64 lower-case hexadecimal digits from which the digest can be
  read back.
\<close>

theorem sha256str_correct:
  assumes "length digest = 32" and "65 \<le> length str"
  shows "\<exists>digits. sha256str digest str = Some (digits @ CHR 0x00 # drop 65 str) \<and>
    length digits = 64 \<and> set digits \<subseteq> set tohex \<and> unhex digits = digest"
  using assms by (intro exI [of _ "hex_digits digest"]) (simp add: sha256str_def rdn_def wrn_def)

theorem sha256str_correct_witness:
  "length (replicate 32 0x5a :: u8 list) = 32 \<and>
   (\<exists>digits. sha256str (replicate 32 0x5a) (replicate 65 CHR ''z'') = Some (digits @ [CHR 0x00]) \<and>
     length digits = 64 \<and> unhex digits = replicate 32 0x5a)"
  using sha256str_correct [of "replicate 32 0x5a" "replicate 65 CHR ''z''"] by auto

end
