(* ===== verification/Aes_Spec.thy ===== *)
theory Aes_Spec
  imports Prelude
begin

text \<open>
  FIPS 197, the reference for the three AES implementations of the library
  (\<^verbatim>\<open>aes128.c\<close>, \<^verbatim>\<open>aes-cbc.c\<close> and \<^verbatim>\<open>aes-x86.c\<close>): arithmetic in the field of 256
  elements, the S-box, the transformations of the state, the cipher, the inverse cipher and
  the key expansion. A state is the list of its 16 bytes in the order of the input, so that
  the byte in row \<open>r\<close> and column \<open>c\<close> has index \<open>r + 4 * c\<close>. The theory shows
  that the inverse cipher inverts the cipher, for every key schedule.
\<close>

section \<open>The field\<close>

definition xtime :: "u8 \<Rightarrow> u8" where
  "xtime a = push_bit 1 a XOR (if bit a 7 then 0x1b else 0)"

fun gmul_bits :: "nat \<Rightarrow> u8 \<Rightarrow> u8 \<Rightarrow> u8" where
  "gmul_bits 0 a b = 0"
| "gmul_bits (Suc n) a b = (if bit b 0 then a else 0) XOR gmul_bits n (xtime a) (drop_bit 1 b)"

definition gmul :: "u8 \<Rightarrow> u8 \<Rightarrow> u8" where
  "gmul a b = gmul_bits 8 a b"

lemma xtime_eval: "xtime a = (if bit a 7 then push_bit 1 a XOR 0x11b else push_bit 1 a)"
proof -
  have "(0x1b :: u8) = 0x11b" by simp
  then show ?thesis by (simp only: xtime_def) simp
qed

lemma gmul_eval:
  "gmul a b = (if bit b 0 then a else 0) XOR (let a = xtime a in (if bit b 1 then a else 0) XOR
     (let a = xtime a in (if bit b 2 then a else 0) XOR (let a = xtime a in (if bit b 3 then a else 0) XOR
     (let a = xtime a in (if bit b 4 then a else 0) XOR (let a = xtime a in (if bit b 5 then a else 0) XOR
     (let a = xtime a in (if bit b 6 then a else 0) XOR (let a = xtime a in (if bit b 7 then a else 0))))))))"
  by (simp add: gmul_def numeral_eq_Suc bit_simps Let_def)

lemma xtime_xor [simp]: "xtime (a XOR b) = xtime a XOR xtime b"
  by (simp add: xtime_def push_bit_xor bit_xor_iff ac_simps)

lemma xtime_0 [simp]: "xtime 0 = 0"
  by (simp add: xtime_def)

lemma gmul_bits_comb:
  "gmul_bits n (xtime a) b = xtime (gmul_bits n a b)"
  by (induction n arbitrary: a b) simp_all

lemma gmul_coeffs:
  "gmul a 2 = xtime a" "gmul a 3 = a XOR xtime a"
  "gmul a 9 = a XOR xtime (xtime (xtime a))"
  "gmul a 0xb = a XOR xtime a XOR xtime (xtime (xtime a))"
  "gmul a 0xd = a XOR xtime (xtime a) XOR xtime (xtime (xtime a))"
  "gmul a 0xe = xtime a XOR xtime (xtime a) XOR xtime (xtime (xtime a))"
  by (simp_all add: gmul_eval Let_def)

section \<open>The S-box\<close>

definition sbox :: "u8 list" where
  "sbox =
  [0x63, 0x7c, 0x77, 0x7b, 0xf2, 0x6b, 0x6f, 0xc5, 0x30, 0x01, 0x67, 0x2b, 0xfe, 0xd7, 0xab, 0x76,
   0xca, 0x82, 0xc9, 0x7d, 0xfa, 0x59, 0x47, 0xf0, 0xad, 0xd4, 0xa2, 0xaf, 0x9c, 0xa4, 0x72, 0xc0,
   0xb7, 0xfd, 0x93, 0x26, 0x36, 0x3f, 0xf7, 0xcc, 0x34, 0xa5, 0xe5, 0xf1, 0x71, 0xd8, 0x31, 0x15,
   0x04, 0xc7, 0x23, 0xc3, 0x18, 0x96, 0x05, 0x9a, 0x07, 0x12, 0x80, 0xe2, 0xeb, 0x27, 0xb2, 0x75,
   0x09, 0x83, 0x2c, 0x1a, 0x1b, 0x6e, 0x5a, 0xa0, 0x52, 0x3b, 0xd6, 0xb3, 0x29, 0xe3, 0x2f, 0x84,
   0x53, 0xd1, 0x00, 0xed, 0x20, 0xfc, 0xb1, 0x5b, 0x6a, 0xcb, 0xbe, 0x39, 0x4a, 0x4c, 0x58, 0xcf,
   0xd0, 0xef, 0xaa, 0xfb, 0x43, 0x4d, 0x33, 0x85, 0x45, 0xf9, 0x02, 0x7f, 0x50, 0x3c, 0x9f, 0xa8,
   0x51, 0xa3, 0x40, 0x8f, 0x92, 0x9d, 0x38, 0xf5, 0xbc, 0xb6, 0xda, 0x21, 0x10, 0xff, 0xf3, 0xd2,
   0xcd, 0x0c, 0x13, 0xec, 0x5f, 0x97, 0x44, 0x17, 0xc4, 0xa7, 0x7e, 0x3d, 0x64, 0x5d, 0x19, 0x73,
   0x60, 0x81, 0x4f, 0xdc, 0x22, 0x2a, 0x90, 0x88, 0x46, 0xee, 0xb8, 0x14, 0xde, 0x5e, 0x0b, 0xdb,
   0xe0, 0x32, 0x3a, 0x0a, 0x49, 0x06, 0x24, 0x5c, 0xc2, 0xd3, 0xac, 0x62, 0x91, 0x95, 0xe4, 0x79,
   0xe7, 0xc8, 0x37, 0x6d, 0x8d, 0xd5, 0x4e, 0xa9, 0x6c, 0x56, 0xf4, 0xea, 0x65, 0x7a, 0xae, 0x08,
   0xba, 0x78, 0x25, 0x2e, 0x1c, 0xa6, 0xb4, 0xc6, 0xe8, 0xdd, 0x74, 0x1f, 0x4b, 0xbd, 0x8b, 0x8a,
   0x70, 0x3e, 0xb5, 0x66, 0x48, 0x03, 0xf6, 0x0e, 0x61, 0x35, 0x57, 0xb9, 0x86, 0xc1, 0x1d, 0x9e,
   0xe1, 0xf8, 0x98, 0x11, 0x69, 0xd9, 0x8e, 0x94, 0x9b, 0x1e, 0x87, 0xe9, 0xce, 0x55, 0x28, 0xdf,
   0x8c, 0xa1, 0x89, 0x0d, 0xbf, 0xe6, 0x42, 0x68, 0x41, 0x99, 0x2d, 0x0f, 0xb0, 0x54, 0xbb, 0x16]"

definition rsbox :: "u8 list" where
  "rsbox =
  [0x52, 0x09, 0x6a, 0xd5, 0x30, 0x36, 0xa5, 0x38, 0xbf, 0x40, 0xa3, 0x9e, 0x81, 0xf3, 0xd7, 0xfb,
   0x7c, 0xe3, 0x39, 0x82, 0x9b, 0x2f, 0xff, 0x87, 0x34, 0x8e, 0x43, 0x44, 0xc4, 0xde, 0xe9, 0xcb,
   0x54, 0x7b, 0x94, 0x32, 0xa6, 0xc2, 0x23, 0x3d, 0xee, 0x4c, 0x95, 0x0b, 0x42, 0xfa, 0xc3, 0x4e,
   0x08, 0x2e, 0xa1, 0x66, 0x28, 0xd9, 0x24, 0xb2, 0x76, 0x5b, 0xa2, 0x49, 0x6d, 0x8b, 0xd1, 0x25,
   0x72, 0xf8, 0xf6, 0x64, 0x86, 0x68, 0x98, 0x16, 0xd4, 0xa4, 0x5c, 0xcc, 0x5d, 0x65, 0xb6, 0x92,
   0x6c, 0x70, 0x48, 0x50, 0xfd, 0xed, 0xb9, 0xda, 0x5e, 0x15, 0x46, 0x57, 0xa7, 0x8d, 0x9d, 0x84,
   0x90, 0xd8, 0xab, 0x00, 0x8c, 0xbc, 0xd3, 0x0a, 0xf7, 0xe4, 0x58, 0x05, 0xb8, 0xb3, 0x45, 0x06,
   0xd0, 0x2c, 0x1e, 0x8f, 0xca, 0x3f, 0x0f, 0x02, 0xc1, 0xaf, 0xbd, 0x03, 0x01, 0x13, 0x8a, 0x6b,
   0x3a, 0x91, 0x11, 0x41, 0x4f, 0x67, 0xdc, 0xea, 0x97, 0xf2, 0xcf, 0xce, 0xf0, 0xb4, 0xe6, 0x73,
   0x96, 0xac, 0x74, 0x22, 0xe7, 0xad, 0x35, 0x85, 0xe2, 0xf9, 0x37, 0xe8, 0x1c, 0x75, 0xdf, 0x6e,
   0x47, 0xf1, 0x1a, 0x71, 0x1d, 0x29, 0xc5, 0x89, 0x6f, 0xb7, 0x62, 0x0e, 0xaa, 0x18, 0xbe, 0x1b,
   0xfc, 0x56, 0x3e, 0x4b, 0xc6, 0xd2, 0x79, 0x20, 0x9a, 0xdb, 0xc0, 0xfe, 0x78, 0xcd, 0x5a, 0xf4,
   0x1f, 0xdd, 0xa8, 0x33, 0x88, 0x07, 0xc7, 0x31, 0xb1, 0x12, 0x10, 0x59, 0x27, 0x80, 0xec, 0x5f,
   0x60, 0x51, 0x7f, 0xa9, 0x19, 0xb5, 0x4a, 0x0d, 0x2d, 0xe5, 0x7a, 0x9f, 0x93, 0xc9, 0x9c, 0xef,
   0xa0, 0xe0, 0x3b, 0x4d, 0xae, 0x2a, 0xf5, 0xb0, 0xc8, 0xeb, 0xbb, 0x3c, 0x83, 0x53, 0x99, 0x61,
   0x17, 0x2b, 0x04, 0x7e, 0xba, 0x77, 0xd6, 0x26, 0xe1, 0x69, 0x14, 0x63, 0x55, 0x21, 0x0c, 0x7d]"

definition sub :: "u8 \<Rightarrow> u8" where
  "sub b = sbox ! unat b"

definition rsub :: "u8 \<Rightarrow> u8" where
  "rsub b = rsbox ! unat b"

text \<open>The affine map of the standard, and the table of multiplicative inverses it leaves.\<close>

definition sbox_affine :: "u8 \<Rightarrow> u8" where
  "sbox_affine b =
     b XOR (push_bit 1 b OR drop_bit 7 b) XOR (push_bit 2 b OR drop_bit 6 b)
     XOR (push_bit 3 b OR drop_bit 5 b) XOR (push_bit 4 b OR drop_bit 4 b) XOR 0x63"

definition gf_inverses :: "u8 list" where
  "gf_inverses =
  [0x00, 0x01, 0x8d, 0xf6, 0xcb, 0x52, 0x7b, 0xd1, 0xe8, 0x4f, 0x29, 0xc0, 0xb0, 0xe1, 0xe5, 0xc7,
   0x74, 0xb4, 0xaa, 0x4b, 0x99, 0x2b, 0x60, 0x5f, 0x58, 0x3f, 0xfd, 0xcc, 0xff, 0x40, 0xee, 0xb2,
   0x3a, 0x6e, 0x5a, 0xf1, 0x55, 0x4d, 0xa8, 0xc9, 0xc1, 0x0a, 0x98, 0x15, 0x30, 0x44, 0xa2, 0xc2,
   0x2c, 0x45, 0x92, 0x6c, 0xf3, 0x39, 0x66, 0x42, 0xf2, 0x35, 0x20, 0x6f, 0x77, 0xbb, 0x59, 0x19,
   0x1d, 0xfe, 0x37, 0x67, 0x2d, 0x31, 0xf5, 0x69, 0xa7, 0x64, 0xab, 0x13, 0x54, 0x25, 0xe9, 0x09,
   0xed, 0x5c, 0x05, 0xca, 0x4c, 0x24, 0x87, 0xbf, 0x18, 0x3e, 0x22, 0xf0, 0x51, 0xec, 0x61, 0x17,
   0x16, 0x5e, 0xaf, 0xd3, 0x49, 0xa6, 0x36, 0x43, 0xf4, 0x47, 0x91, 0xdf, 0x33, 0x93, 0x21, 0x3b,
   0x79, 0xb7, 0x97, 0x85, 0x10, 0xb5, 0xba, 0x3c, 0xb6, 0x70, 0xd0, 0x06, 0xa1, 0xfa, 0x81, 0x82,
   0x83, 0x7e, 0x7f, 0x80, 0x96, 0x73, 0xbe, 0x56, 0x9b, 0x9e, 0x95, 0xd9, 0xf7, 0x02, 0xb9, 0xa4,
   0xde, 0x6a, 0x32, 0x6d, 0xd8, 0x8a, 0x84, 0x72, 0x2a, 0x14, 0x9f, 0x88, 0xf9, 0xdc, 0x89, 0x9a,
   0xfb, 0x7c, 0x2e, 0xc3, 0x8f, 0xb8, 0x65, 0x48, 0x26, 0xc8, 0x12, 0x4a, 0xce, 0xe7, 0xd2, 0x62,
   0x0c, 0xe0, 0x1f, 0xef, 0x11, 0x75, 0x78, 0x71, 0xa5, 0x8e, 0x76, 0x3d, 0xbd, 0xbc, 0x86, 0x57,
   0x0b, 0x28, 0x2f, 0xa3, 0xda, 0xd4, 0xe4, 0x0f, 0xa9, 0x27, 0x53, 0x04, 0x1b, 0xfc, 0xac, 0xe6,
   0x7a, 0x07, 0xae, 0x63, 0xc5, 0xdb, 0xe2, 0xea, 0x94, 0x8b, 0xc4, 0xd5, 0x9d, 0xf8, 0x90, 0x6b,
   0xb1, 0x0d, 0xd6, 0xeb, 0xc6, 0x0e, 0xcf, 0xad, 0x08, 0x4e, 0xd7, 0xe3, 0x5d, 0x50, 0x1e, 0xb3,
   0x5b, 0x23, 0x38, 0x34, 0x68, 0x46, 0x03, 0x8c, 0xdd, 0x9c, 0x7d, 0xa0, 0xcd, 0x1a, 0x41, 0x1c]"

lemma length_sbox: "length sbox = 256" "length rsbox = 256"
  by (simp_all add: sbox_def rsbox_def)

lemma map_table_all:
  assumes "length t = 256" and "map f t = map of_nat [0..<256]"
  shows "f (t ! unat (b :: u8)) = b"
proof -
  have "f (t ! unat b) = map f t ! unat b" using assms(1) by simp
  also have "\<dots> = b" unfolding assms(2) by simp
  finally show ?thesis .
qed

lemma rsub_sub [simp]: "rsub (sub b) = b"
  unfolding sub_def
proof (rule map_table_all [OF length_sbox(1)])
  show "map rsub sbox = map of_nat [0..<256]"
    by (simp add: rsub_def sbox_def rsbox_def upt_eval)
qed

lemma sub_rsub [simp]: "sub (rsub b) = b"
  unfolding rsub_def
proof (rule map_table_all [OF length_sbox(2)])
  show "map sub rsbox = map of_nat [0..<256]"
    by (simp add: sub_def sbox_def rsbox_def upt_eval)
qed

lemma sbox_affine_inverses: "map sbox_affine gf_inverses = sbox"
  by (simp add: sbox_affine_def gf_inverses_def sbox_def)

lemma gf_inverses_inverse:
  "map2 gmul (map of_nat [0..<256]) gf_inverses = map (\<lambda>n. if n = 0 then 0 else 1) [0..<256]"
  unfolding upt_eval gf_inverses_def
  by (simp add: gmul_eval xtime_eval upt_eval cong: let_weak_cong)

text \<open>
  The S-box table of \<^verbatim>\<open>aes128.c\<close> is the one FIPS 197 defines: its entry for a byte
  \<open>b\<close> is the affine image of the multiplicative inverse of \<open>b\<close> in the field of 256
  elements, where 0 stands for its own inverse; and the table \<^verbatim>\<open>rsbox\<close> is its inverse in
  both directions.
\<close>

theorem sbox_fips197:
  "\<exists>y. sub b = sbox_affine y \<and> gmul b y = (if b = 0 then 0 else 1) \<and> rsub (sub b) = b \<and> sub (rsub b) = b"
  (is "\<exists>y. ?P y")
proof -
  let ?y = "gf_inverses ! unat b"
  have len: "length gf_inverses = 256" by (simp add: gf_inverses_def)
  have "sub b = sbox_affine ?y"
    by (simp add: sub_def len flip: sbox_affine_inverses)
  moreover have "gmul b ?y = map2 gmul (map of_nat [0..<256]) gf_inverses ! unat b"
    by (simp add: len del: upt_rec_numeral)
  then have "gmul b ?y = map (\<lambda>n. if n = 0 then 0 else 1) [0..<256] ! unat b"
    by (simp only: gf_inverses_inverse)
  then have "gmul b ?y = (if b = 0 then 0 else 1)"
    by (simp add: unat_eq_0 del: upt_rec_numeral)
  ultimately have "?P ?y" using rsub_sub sub_rsub by blast
  then show ?thesis ..
qed

section \<open>Transformations of the state\<close>

definition fips_AddRoundKey :: "u8 list \<Rightarrow> u8 list \<Rightarrow> u8 list" where
  "fips_AddRoundKey s k = map2 (XOR) s k"

definition fips_SubBytes :: "u8 list \<Rightarrow> u8 list" where
  "fips_SubBytes s = map sub s"

definition fips_InvSubBytes :: "u8 list \<Rightarrow> u8 list" where
  "fips_InvSubBytes s = map rsub s"

definition fips_ShiftRows :: "u8 list \<Rightarrow> u8 list" where
  "fips_ShiftRows s = map (\<lambda>i. s ! (i mod 4 + 4 * ((i div 4 + i mod 4) mod 4))) [0..<16]"

definition fips_InvShiftRows :: "u8 list \<Rightarrow> u8 list" where
  "fips_InvShiftRows s = map (\<lambda>i. s ! (i mod 4 + 4 * ((i div 4 + 4 - i mod 4) mod 4))) [0..<16]"

definition fips_mix :: "u8 \<Rightarrow> u8 \<Rightarrow> u8 \<Rightarrow> u8 \<Rightarrow> u8 list" where
  "fips_mix a b c d =
     [gmul a 2 XOR gmul b 3 XOR c XOR d, a XOR gmul b 2 XOR gmul c 3 XOR d,
      a XOR b XOR gmul c 2 XOR gmul d 3, gmul a 3 XOR b XOR c XOR gmul d 2]"

definition fips_inv_mix :: "u8 \<Rightarrow> u8 \<Rightarrow> u8 \<Rightarrow> u8 \<Rightarrow> u8 list" where
  "fips_inv_mix a b c d =
     [gmul a 0xe XOR gmul b 0xb XOR gmul c 0xd XOR gmul d 9,
      gmul a 9 XOR gmul b 0xe XOR gmul c 0xb XOR gmul d 0xd,
      gmul a 0xd XOR gmul b 9 XOR gmul c 0xe XOR gmul d 0xb,
      gmul a 0xb XOR gmul b 0xd XOR gmul c 9 XOR gmul d 0xe]"

definition fips_columns :: "(u8 \<Rightarrow> u8 \<Rightarrow> u8 \<Rightarrow> u8 \<Rightarrow> u8 list) \<Rightarrow> u8 list \<Rightarrow> u8 list" where
  "fips_columns f s = concat (map (\<lambda>c. f (s ! (4 * c)) (s ! (4 * c + 1)) (s ! (4 * c + 2)) (s ! (4 * c + 3))) [0..<4])"

definition fips_MixColumns :: "u8 list \<Rightarrow> u8 list" where
  "fips_MixColumns = fips_columns fips_mix"

definition fips_InvMixColumns :: "u8 list \<Rightarrow> u8 list" where
  "fips_InvMixColumns = fips_columns fips_inv_mix"

lemmas fips_defs = fips_AddRoundKey_def fips_SubBytes_def fips_InvSubBytes_def fips_ShiftRows_def
  fips_InvShiftRows_def fips_MixColumns_def fips_InvMixColumns_def fips_columns_def

lemma length16_conv: "length xs = 16 \<longleftrightarrow>
    (\<exists>a b c d e f g h i j k l m n o' p. xs = [a, b, c, d, e, f, g, h, i, j, k, l, m, n, o', p])"
  by (auto simp: numeral_eq_Suc length_Suc_conv)

lemma length_fips [simp]:
  "length s = 16 \<Longrightarrow> length k = 16 \<Longrightarrow> length (fips_AddRoundKey s k) = 16"
  "length (fips_SubBytes s) = length s" "length (fips_InvSubBytes s) = length s"
  "length (fips_ShiftRows s) = 16" "length (fips_InvShiftRows s) = 16"
  "length (fips_MixColumns s) = 16" "length (fips_InvMixColumns s) = 16"
  by (simp_all add: fips_defs fips_mix_def fips_inv_mix_def upt_eval)

section \<open>Every transformation has an inverse\<close>

lemma AddRoundKey_inverse [simp]:
  assumes "length k = length s"
  shows "fips_AddRoundKey (fips_AddRoundKey s k) k = s"
  using assms by (intro nth_equalityI) (simp_all add: fips_AddRoundKey_def xor.assoc)

lemma InvSubBytes_SubBytes [simp]: "fips_InvSubBytes (fips_SubBytes s) = s"
  "fips_SubBytes (fips_InvSubBytes s) = s"
  by (simp_all add: fips_defs comp_def)

lemma InvShiftRows_ShiftRows [simp]:
  "length s = 16 \<Longrightarrow> fips_InvShiftRows (fips_ShiftRows s) = s"
  "length s = 16 \<Longrightarrow> fips_ShiftRows (fips_InvShiftRows s) = s"
  by (auto simp: length16_conv fips_defs upt_eval)

lemma fips_inv_mix_mix: "(case fips_mix a b c d of [a', b', c', d'] \<Rightarrow> fips_inv_mix a' b' c' d') = [a, b, c, d]"
  by (simp add: fips_mix_def fips_inv_mix_def gmul_coeffs ac_simps)

lemma fips_mix_inv_mix: "(case fips_inv_mix a b c d of [a', b', c', d'] \<Rightarrow> fips_mix a' b' c' d') = [a, b, c, d]"
  by (simp add: fips_mix_def fips_inv_mix_def gmul_coeffs ac_simps)

lemma fips_columns16:
  "fips_columns f [a, b, c, d, e, g, h, i, j, k, l, m, n, o', p, q] =
     f a b c d @ f e g h i @ f j k l m @ f n o' p q"
  by (simp add: fips_columns_def upt_eval)

lemma four_values: "\<exists>x. x 0 = a \<and> x 1 = b \<and> x 2 = c \<and> x (3 :: nat) = d"
  by (rule exI [of _ "\<lambda>i. [a, b, c, d] ! i"]) simp

lemma fips_columns_inverse:
  assumes "\<And>a b c d. \<exists>a' b' c' d'. f a b c d = [a', b', c', d'] \<and> g a' b' c' d' = [a, b, c, d]"
    and "length s = 16"
  shows "fips_columns g (fips_columns f s) = s"
proof -
  obtain a b c d e h i j k l m n o' p q r where s: "s = [a, b, c, d] @ [e, h, i, j] @ [k, l, m, n] @ [o', p, q, r]"
    using assms(2) by (auto simp: length16_conv)
  obtain x where "f a b c d = [x 0, x 1, x 2, x (3 :: nat)]" "g (x 0) (x 1) (x 2) (x 3) = [a, b, c, d]"
    using assms(1) [of a b c d] by (metis four_values)
  moreover obtain y where "f e h i j = [y 0, y 1, y 2, y (3 :: nat)]" "g (y 0) (y 1) (y 2) (y 3) = [e, h, i, j]"
    using assms(1) [of e h i j] by (metis four_values)
  moreover obtain z where "f k l m n = [z 0, z 1, z 2, z (3 :: nat)]" "g (z 0) (z 1) (z 2) (z 3) = [k, l, m, n]"
    using assms(1) [of k l m n] by (metis four_values)
  moreover obtain w where "f o' p q r = [w 0, w 1, w 2, w (3 :: nat)]" "g (w 0) (w 1) (w 2) (w 3) = [o', p, q, r]"
    using assms(1) [of o' p q r] by (metis four_values)
  ultimately show ?thesis by (simp add: s fips_columns16)
qed

lemma InvMixColumns_MixColumns [simp]:
  assumes "length s = 16"
  shows "fips_InvMixColumns (fips_MixColumns s) = s" "fips_MixColumns (fips_InvMixColumns s) = s"
  using fips_inv_mix_mix fips_mix_inv_mix
  by (simp_all add: fips_MixColumns_def fips_InvMixColumns_def fips_columns_inverse [OF _ assms]
      fips_mix_def fips_inv_mix_def)

section \<open>Cipher and inverse cipher\<close>

text \<open>\<open>rk r\<close> is the 16 byte key of round \<open>r\<close>; \<open>Nr\<close> is the number of rounds.\<close>

definition fips_round :: "(nat \<Rightarrow> u8 list) \<Rightarrow> u8 list \<Rightarrow> nat \<Rightarrow> u8 list" where
  "fips_round rk s r = fips_AddRoundKey (fips_MixColumns (fips_ShiftRows (fips_SubBytes s))) (rk r)"

definition fips_inv_round :: "(nat \<Rightarrow> u8 list) \<Rightarrow> u8 list \<Rightarrow> nat \<Rightarrow> u8 list" where
  "fips_inv_round rk s r =
     fips_InvMixColumns (fips_AddRoundKey (fips_InvSubBytes (fips_InvShiftRows s)) (rk r))"

definition fips_Cipher :: "nat \<Rightarrow> (nat \<Rightarrow> u8 list) \<Rightarrow> u8 list \<Rightarrow> u8 list" where
  "fips_Cipher Nr rk s =
     (let s = foldl (fips_round rk) (fips_AddRoundKey s (rk 0)) [1..<Nr]
      in fips_AddRoundKey (fips_ShiftRows (fips_SubBytes s)) (rk Nr))"

definition fips_InvCipher :: "nat \<Rightarrow> (nat \<Rightarrow> u8 list) \<Rightarrow> u8 list \<Rightarrow> u8 list" where
  "fips_InvCipher Nr rk s =
     (let s = foldl (fips_inv_round rk) (fips_AddRoundKey s (rk Nr)) (rev [1..<Nr])
      in fips_AddRoundKey (fips_InvSubBytes (fips_InvShiftRows s)) (rk 0))"

text \<open>
  Undoing the rounds: what the inverse cipher does between two rounds inverts what the
  cipher does between them, with the key addition regrouped.
\<close>

lemma fips_rounds_undone:
  assumes "\<And>r. length (rk r) = 16" and "length s = 16"
  shows "length (foldl (fips_round rk) s rs) = 16 \<and>
    foldl (fips_inv_round rk) (fips_ShiftRows (fips_SubBytes (foldl (fips_round rk) s rs))) (rev rs) =
      fips_ShiftRows (fips_SubBytes s)"
  using assms(2)
proof (induction rs rule: rev_induct)
  case (snoc r rs)
  then show ?case
    by (simp add: fips_inv_round_def fips_round_def [of _ _ r] assms(1))
qed simp

lemma fips_rounds_redone:
  assumes "\<And>r. length (rk r) = 16" and "length s = 16"
  shows "length (foldl (fips_inv_round rk) s rs) = 16 \<and>
    foldl (fips_round rk) (fips_InvSubBytes (fips_InvShiftRows (foldl (fips_inv_round rk) s rs))) (rev rs) =
      fips_InvSubBytes (fips_InvShiftRows s)"
  using assms(2)
proof (induction rs rule: rev_induct)
  case (snoc r rs)
  then show ?case
    by (simp add: fips_round_def fips_inv_round_def [of _ _ r] assms(1))
qed simp

lemma length_fips_Cipher [simp]:
  assumes "\<And>r. length (rk r) = 16" and "length s = 16"
  shows "length (fips_Cipher Nr rk s) = 16" "length (fips_InvCipher Nr rk s) = 16"
  using assms by (simp_all add: fips_Cipher_def fips_InvCipher_def Let_def fips_rounds_undone fips_rounds_redone)

lemma fips_InvCipher_Cipher:
  assumes "\<And>r. length (rk r) = 16" and "length s = 16"
  shows "fips_InvCipher Nr rk (fips_Cipher Nr rk s) = s"
  using fips_rounds_undone [where rk = rk and s = "fips_AddRoundKey s (rk 0)" and rs = "[1..<Nr]"] assms
  by (simp add: fips_Cipher_def fips_InvCipher_def Let_def)

lemma fips_Cipher_InvCipher:
  assumes "\<And>r. length (rk r) = 16" and "length s = 16"
  shows "fips_Cipher Nr rk (fips_InvCipher Nr rk s) = s"
  using fips_rounds_redone [where rk = rk and s = "fips_AddRoundKey s (rk Nr)" and rs = "rev [1..<Nr]"] assms
  by (simp add: fips_Cipher_def fips_InvCipher_def Let_def)

lemma fips_Cipher_cong:
  assumes "\<And>i. i \<le> Nr \<Longrightarrow> rk i = rk' i" and "0 < Nr"
  shows "fips_Cipher Nr rk s = fips_Cipher Nr rk' s" "fips_InvCipher Nr rk s = fips_InvCipher Nr rk' s"
proof -
  have "foldl (fips_round rk) s [1..<Nr] = foldl (fips_round rk') s [1..<Nr]" for s
    using assms(1) by (intro foldl_cong) (auto simp: fips_round_def)
  then show "fips_Cipher Nr rk s = fips_Cipher Nr rk' s"
    using assms by (simp add: fips_Cipher_def)
  have "foldl (fips_inv_round rk) s (rev [1..<Nr]) = foldl (fips_inv_round rk') s (rev [1..<Nr])" for s
    using assms(1) by (intro foldl_cong) (auto simp: fips_inv_round_def)
  then show "fips_InvCipher Nr rk s = fips_InvCipher Nr rk' s"
    using assms by (simp add: fips_InvCipher_def)
qed

section \<open>Key expansion\<close>

definition fips_SubWord :: "u8 list \<Rightarrow> u8 list" where
  "fips_SubWord w = map sub w"

definition fips_RotWord :: "u8 list \<Rightarrow> u8 list" where
  "fips_RotWord w = rotate1 w"

fun fips_Rcon :: "nat \<Rightarrow> u8" where
  "fips_Rcon 0 = 0x8d"
| "fips_Rcon (Suc 0) = 1"
| "fips_Rcon (Suc n) = xtime (fips_Rcon n)"

lemma fips_Rcon_values:
  "fips_Rcon 1 = 1" "fips_Rcon 2 = 2" "fips_Rcon 3 = 4" "fips_Rcon 4 = 8" "fips_Rcon 5 = 0x10" "fips_Rcon 6 = 0x20"
  "fips_Rcon 7 = 0x40" "fips_Rcon 8 = 0x80" "fips_Rcon 9 = 0x1b" "fips_Rcon 10 = 0x36"
  by (simp_all add: numeral_eq_Suc xtime_eval)

definition fips_xor :: "u8 list \<Rightarrow> u8 list \<Rightarrow> u8 list" where
  "fips_xor = map2 (XOR)"

text \<open>Word \<open>i\<close> of the schedule of a key of \<open>Nk\<close> words.\<close>

function fips_word :: "nat \<Rightarrow> u8 list \<Rightarrow> nat \<Rightarrow> u8 list" where
  "fips_word Nk key i =
     (if i < Nk \<or> Nk = 0 then take 4 (drop (4 * i) key)
      else
        let temp = fips_word Nk key (i - 1)
        in fips_xor (fips_word Nk key (i - Nk))
             (if i mod Nk = 0 then fips_xor (fips_SubWord (fips_RotWord temp)) [fips_Rcon (i div Nk), 0, 0, 0]
              else if Nk > 6 \<and> i mod Nk = 4 then fips_SubWord temp
              else temp))"
  by pat_completeness auto
termination
  by (relation "measure (\<lambda>(Nk, key, i). i)") auto

declare fips_word.simps [simp del]

definition fips_round_key :: "nat \<Rightarrow> u8 list \<Rightarrow> nat \<Rightarrow> u8 list" where
  "fips_round_key Nk key r = concat (map (\<lambda>j. fips_word Nk key (4 * r + j)) [0, 1, 2, 3])"

lemma length_fips_word:
  assumes "length key = 4 * Nk" and "0 < Nk"
  shows "length (fips_word Nk key i) = 4"
proof (induction i rule: less_induct)
  case (less i)
  show ?case
  proof (cases "i < Nk")
    case True
    then show ?thesis using assms by (simp add: fips_word.simps [of Nk key i])
  next
    case False
    then show ?thesis
      using assms less [of "i - 1"] less [of "i - Nk"]
      by (simp add: fips_word.simps [of Nk key i] Let_def fips_xor_def fips_SubWord_def fips_RotWord_def)
  qed
qed

lemma length_fips_round_key:
  "length key = 4 * Nk \<Longrightarrow> 0 < Nk \<Longrightarrow> length (fips_round_key Nk key r) = 16"
  by (simp add: fips_round_key_def length_fips_word)

text \<open>
  The schedule one round key at a time: four words, each of them the sum of the word before
  it and of the corresponding word of an older round key.
\<close>

definition key_chain :: "u8 list \<Rightarrow> u8 list \<Rightarrow> u8 list" where
  "key_chain p t =
     (let w0 = fips_xor (take 4 p) t;
          w1 = fips_xor (take 4 (drop 4 p)) w0;
          w2 = fips_xor (take 4 (drop 8 p)) w1;
          w3 = fips_xor (take 4 (drop 12 p)) w2
      in w0 @ w1 @ w2 @ w3)"

definition key_core :: "u8 list \<Rightarrow> u8 \<Rightarrow> u8 list" where
  "key_core p rcon = fips_xor (fips_SubWord (fips_RotWord (drop 12 p))) [rcon, 0, 0, 0]"

lemma fips_round_key_0:
  "length key = 4 * Nk \<Longrightarrow> 4 \<le> Nk \<Longrightarrow> fips_round_key Nk key 0 = take 16 key"
proof -
  assume "length key = 4 * Nk" "4 \<le> Nk"
  then have "fips_round_key Nk key 0 = take 4 key @ take 4 (drop 4 key) @ take 4 (drop 8 key) @ take 4 (drop 12 key)"
    by (simp add: fips_round_key_def fips_word.simps)
  also have "\<dots> = take 16 key"
    using take_add [of 4 4 key] take_add [of 8 4 key] take_add [of 12 4 key] by simp
  finally show ?thesis .
qed

lemma fips_round_key_1:
  "length key = 32 \<Longrightarrow> fips_round_key 8 key 1 = drop 16 key"
proof -
  assume len: "length key = 32"
  then have "fips_round_key 8 key 1 = take 4 (drop 16 key) @ take 4 (drop 20 key) @ take 4 (drop 24 key) @ take 4 (drop 28 key)"
    by (simp add: fips_round_key_def fips_word.simps)
  also have "\<dots> = take 16 (drop 16 key)"
    using take_add [of 4 4 "drop 16 key"] take_add [of 8 4 "drop 16 key"] take_add [of 12 4 "drop 16 key"] by simp
  finally show ?thesis using len by simp
qed

lemma words_of_round_key:
  assumes "length key = 4 * Nk" "0 < Nk"
  shows "take 4 (fips_round_key Nk key r) = fips_word Nk key (4 * r)"
    "take 4 (drop 4 (fips_round_key Nk key r)) = fips_word Nk key (4 * r + 1)"
    "take 4 (drop 8 (fips_round_key Nk key r)) = fips_word Nk key (4 * r + 2)"
    "drop 12 (fips_round_key Nk key r) = fips_word Nk key (4 * r + 3)"
  using length_fips_word [OF assms] by (simp_all add: fips_round_key_def)

text \<open>One more round key from a word in the middle and the round key \<open>Nk\<close> words back.\<close>

lemma round_key_chain:
  assumes len: "length key = 4 * Nk" "0 < Nk"
    and w0: "fips_word Nk key (4 * r) = fips_xor (fips_word Nk key (4 * q)) t"
    and w: "\<And>j. j < 3 \<Longrightarrow> fips_word Nk key (4 * r + Suc j) =
      fips_xor (fips_word Nk key (4 * q + Suc j)) (fips_word Nk key (4 * r + j))"
  shows "fips_round_key Nk key r = key_chain (fips_round_key Nk key q) t"
proof -
  have t3: "take 4 (drop 12 (fips_round_key Nk key q)) = fips_word Nk key (4 * q + 3)"
    unfolding words_of_round_key [OF len] using length_fips_word [OF len] by simp
  show ?thesis
    unfolding key_chain_def words_of_round_key [OF len] t3 w0 [symmetric] Let_def
    using w [of 0] w [of 1] w [of 2] length_fips_word [OF len, of "4 * q + 3"]
    by (simp add: fips_round_key_def)
qed

lemma round_key_128:
  assumes "length key = 16"
  shows "fips_round_key 4 key (Suc r) =
    key_chain (fips_round_key 4 key r) (key_core (fips_round_key 4 key r) (fips_Rcon (Suc r)))"
proof (rule round_key_chain)
  have last: "drop 12 (fips_round_key 4 key r) = fips_word 4 key (4 * r + 3)"
    using words_of_round_key [of key 4 r] assms by simp
  show "fips_word 4 key (4 * Suc r) =
      fips_xor (fips_word 4 key (4 * r)) (key_core (fips_round_key 4 key r) (fips_Rcon (Suc r)))"
    unfolding key_core_def last
    by (subst fips_word.simps) (simp add: Let_def add.commute numeral_3_eq_3)
  fix j :: nat assume "j < 3"
  have "4 * Suc r + Suc j = Suc j + 4 * Suc r" by simp
  then have "(4 * Suc r + Suc j) mod 4 = Suc j" using \<open>j < 3\<close> by (simp only: mod_mult_self2) simp
  then show "fips_word 4 key (4 * Suc r + Suc j) =
      fips_xor (fips_word 4 key (4 * r + Suc j)) (fips_word 4 key (4 * Suc r + j))"
    by (subst fips_word.simps) (simp add: Let_def add.assoc)
qed (simp_all add: assms)

lemma round_key_256_even:
  assumes "length key = 32"
  shows "fips_round_key 8 key (2 * m + 2) =
    key_chain (fips_round_key 8 key (2 * m)) (key_core (fips_round_key 8 key (2 * m + 1)) (fips_Rcon (Suc m)))"
proof (rule round_key_chain)
  have last: "drop 12 (fips_round_key 8 key (2 * m + 1)) = fips_word 8 key (8 * m + 7)"
    using words_of_round_key(4) [of key 8 "2 * m + 1"] assms by (simp add: add.commute)
  have idx: "4 * (2 * m + 2) = 8 * Suc m" by simp
  show "fips_word 8 key (4 * (2 * m + 2)) =
      fips_xor (fips_word 8 key (4 * (2 * m))) (key_core (fips_round_key 8 key (2 * m + 1)) (fips_Rcon (Suc m)))"
    unfolding key_core_def last idx
    by (subst fips_word.simps) (simp add: Let_def add.commute)
  fix j :: nat assume j: "j < 3"
  have "4 * (2 * m + 2) + Suc j = Suc j + Suc m * 8" by simp
  then have "(4 * (2 * m + 2) + Suc j) mod 8 = Suc j" using j by (simp only: mod_mult_self1) simp
  then show "fips_word 8 key (4 * (2 * m + 2) + Suc j) =
      fips_xor (fips_word 8 key (4 * (2 * m) + Suc j)) (fips_word 8 key (4 * (2 * m + 2) + j))"
    using j by (subst fips_word.simps) (simp add: Let_def add.assoc)
qed (simp_all add: assms)

lemma round_key_256_odd:
  assumes "length key = 32"
  shows "fips_round_key 8 key (2 * m + 3) =
    key_chain (fips_round_key 8 key (2 * m + 1)) (fips_SubWord (drop 12 (fips_round_key 8 key (2 * m + 2))))"
proof (rule round_key_chain)
  have last: "drop 12 (fips_round_key 8 key (2 * m + 2)) = fips_word 8 key (8 * m + 11)"
    using words_of_round_key(4) [of key 8 "2 * m + 2"] assms by (simp add: add.commute)
  have mod: "(k + 8 * Suc m) mod 8 = k" if "k < 8" for k using that by (simp only: mod_mult_self2) simp
  have idx: "4 * (2 * m + 3) = 4 + 8 * Suc m" by simp
  show "fips_word 8 key (4 * (2 * m + 3)) =
      fips_xor (fips_word 8 key (4 * (2 * m + 1))) (fips_SubWord (drop 12 (fips_round_key 8 key (2 * m + 2))))"
    unfolding last idx using mod [of 4]
    by (subst fips_word.simps) (simp add: Let_def add.commute)
  fix j :: nat assume j: "j < 3"
  have "4 * (2 * m + 3) + Suc j = (5 + j) + 8 * Suc m" by simp
  then have "(4 * (2 * m + 3) + Suc j) mod 8 = 5 + j" using mod [of "5 + j"] j by (simp only:)
  then show "fips_word 8 key (4 * (2 * m + 3) + Suc j) =
      fips_xor (fips_word 8 key (4 * (2 * m + 1) + Suc j)) (fips_word 8 key (4 * (2 * m + 3) + j))"
    using j by (subst fips_word.simps) (simp add: Let_def add.left_commute add.commute)
qed (simp_all add: assms)

end
