(* ===== verification/Aes_X86.thy ===== *)
theory Aes_X86
  imports Aes_Spec
begin

text \<open>
  The hardware implementation of AES, \<^verbatim>\<open>aes-x86.c\<close>, which both \<^verbatim>\<open>aes128.c\<close> and
  \<^verbatim>\<open>aes-cbc.c\<close> include. The compiler intrinsics it calls are not part of the sources:
  they are the fields of the record \<open>x86\<close>, and \<open>x86_documented\<close> states what the
  processor manual says of them. The theory shows that the key expansion with
  \<^verbatim>\<open>aeskeygenassist\<close> and the block functions with \<^verbatim>\<open>aesenc\<close> and \<^verbatim>\<open>aesdec\<close> implement
  FIPS 197, the decryption through the equivalent inverse cipher.
\<close>

section \<open>Intrinsics\<close>

record x86 =
  mm_xor_si128 :: "u8 list \<Rightarrow> u8 list \<Rightarrow> u8 list"
  mm_slli_si128 :: "u8 list \<Rightarrow> nat \<Rightarrow> u8 list"
  mm_shuffle_epi32 :: "u8 list \<Rightarrow> u8 \<Rightarrow> u8 list"
  mm_aesenc_si128 :: "u8 list \<Rightarrow> u8 list \<Rightarrow> u8 list"
  mm_aesenclast_si128 :: "u8 list \<Rightarrow> u8 list \<Rightarrow> u8 list"
  mm_aesdec_si128 :: "u8 list \<Rightarrow> u8 list \<Rightarrow> u8 list"
  mm_aesdeclast_si128 :: "u8 list \<Rightarrow> u8 list \<Rightarrow> u8 list"
  mm_aesimc_si128 :: "u8 list \<Rightarrow> u8 list"
  mm_aeskeygenassist_si128 :: "u8 list \<Rightarrow> u8 \<Rightarrow> u8 list"

definition dword :: "u8 list \<Rightarrow> nat \<Rightarrow> u8 list" where
  "dword v i = take 4 (drop (4 * i) v)"

text \<open>A register as the list of its 16 bytes, the least significant one first.\<close>

definition x86_manual :: x86 where
  "x86_manual =
     \<lparr>mm_xor_si128 = fips_AddRoundKey,
      mm_slli_si128 = (\<lambda>a n. replicate n 0 @ take (16 - n) a),
      mm_shuffle_epi32 = (\<lambda>a imm. concat (map (\<lambda>j. dword a (unat (drop_bit (2 * j) imm AND 3))) [0, 1, 2, 3])),
      mm_aesenc_si128 = (\<lambda>a k. fips_AddRoundKey (fips_MixColumns (fips_ShiftRows (fips_SubBytes a))) k),
      mm_aesenclast_si128 = (\<lambda>a k. fips_AddRoundKey (fips_ShiftRows (fips_SubBytes a)) k),
      mm_aesdec_si128 = (\<lambda>a k. fips_AddRoundKey (fips_InvMixColumns (fips_InvSubBytes (fips_InvShiftRows a))) k),
      mm_aesdeclast_si128 = (\<lambda>a k. fips_AddRoundKey (fips_InvSubBytes (fips_InvShiftRows a)) k),
      mm_aesimc_si128 = fips_InvMixColumns,
      mm_aeskeygenassist_si128 = (\<lambda>a rcon.
        fips_SubWord (dword a 1) @ fips_xor (fips_RotWord (fips_SubWord (dword a 1))) [rcon, 0, 0, 0] @
        fips_SubWord (dword a 3) @ fips_xor (fips_RotWord (fips_SubWord (dword a 3))) [rcon, 0, 0, 0])\<rparr>"

text \<open>
  What the manual documents: on registers of 16 bytes the intrinsics have these values, with
  byte shifts of 4, as they are used.
\<close>

definition x86_documented :: "x86 \<Rightarrow> bool" where
  "x86_documented isa \<longleftrightarrow>
     (\<forall>a b imm. length a = 16 \<and> length b = 16 \<longrightarrow>
        mm_xor_si128 isa a b = mm_xor_si128 x86_manual a b \<and>
        mm_slli_si128 isa a 4 = mm_slli_si128 x86_manual a 4 \<and>
        mm_shuffle_epi32 isa a imm = mm_shuffle_epi32 x86_manual a imm \<and>
        mm_aesenc_si128 isa a b = mm_aesenc_si128 x86_manual a b \<and>
        mm_aesenclast_si128 isa a b = mm_aesenclast_si128 x86_manual a b \<and>
        mm_aesdec_si128 isa a b = mm_aesdec_si128 x86_manual a b \<and>
        mm_aesdeclast_si128 isa a b = mm_aesdeclast_si128 x86_manual a b \<and>
        mm_aesimc_si128 isa a = mm_aesimc_si128 x86_manual a \<and>
        mm_aeskeygenassist_si128 isa a imm = mm_aeskeygenassist_si128 x86_manual a imm)"

text \<open>Registers in memory.\<close>

definition ld128 :: "u8 list \<Rightarrow> nat \<Rightarrow> u8 list option" where
  "ld128 key i = rdn key (16 * i) 16"

definition st128 :: "u8 list \<Rightarrow> nat \<Rightarrow> u8 list \<Rightarrow> u8 list option" where
  "st128 key i v = wrn key (16 * i) v"

section \<open>Support of the processor\<close>

text \<open>
  The static variable \<^verbatim>\<open>hw_aes_support\<close> is -1 until the first question; \<open>ecx\<close> is the
  third register that \<^verbatim>\<open>cpuid(1)\<close> returns.
\<close>

definition cpu_supports_aes :: "u32 \<Rightarrow> int \<Rightarrow> int" where
  "cpu_supports_aes ecx hw = (if hw = -1 then (if ecx AND push_bit 25 1 \<noteq> 0 then 1 else 0) else hw)"

text \<open>The return value and the new value of the static variable.\<close>

definition aes_set_hw :: "u32 \<Rightarrow> int \<Rightarrow> int \<Rightarrow> int \<times> int" where
  "aes_set_hw ecx support hw =
     (if hw = 0 \<or> hw = -1 then (0, hw)
      else if hw = 1 then
        let support = cpu_supports_aes ecx (-1)
        in (if support = 1 then 0 else ENOSYS, support)
      else (EINVAL, support))"

section \<open>Key expansion\<close>

definition AES_128_ASSIST :: "x86 \<Rightarrow> u8 list \<Rightarrow> u8 list \<Rightarrow> u8 list" where
  "AES_128_ASSIST isa temp1 temp2 =
     (let temp2 = mm_shuffle_epi32 isa temp2 0xff;
          temp3 = mm_slli_si128 isa temp1 4;
          temp1 = mm_xor_si128 isa temp1 temp3;
          temp3 = mm_slli_si128 isa temp3 4;
          temp1 = mm_xor_si128 isa temp1 temp3;
          temp3 = mm_slli_si128 isa temp3 4;
          temp1 = mm_xor_si128 isa temp1 temp3
      in mm_xor_si128 isa temp1 temp2)"

fun key128_steps :: "x86 \<Rightarrow> u8 list \<Rightarrow> u8 list \<Rightarrow> (nat \<times> u8) list \<Rightarrow> u8 list option" where
  "key128_steps isa temp1 key [] = Some key"
| "key128_steps isa temp1 key ((i, rcon) # steps) =
     (let temp2 = mm_aeskeygenassist_si128 isa temp1 rcon;
          temp1 = AES_128_ASSIST isa temp1 temp2
      in do { key \<leftarrow> st128 key i temp1; key128_steps isa temp1 key steps })"

definition AES_128_Key_Expansion :: "x86 \<Rightarrow> u8 list \<Rightarrow> u8 list \<Rightarrow> u8 list option" where
  "AES_128_Key_Expansion isa userkey key = do {
     temp1 \<leftarrow> rdn userkey 0 16;
     key \<leftarrow> st128 key 0 temp1;
     key128_steps isa temp1 key
       [(1, 0x1), (2, 0x2), (3, 0x4), (4, 0x8), (5, 0x10), (6, 0x20), (7, 0x40), (8, 0x80), (9, 0x1b), (10, 0x36)]
   }"

definition KEY_256_ASSIST_1 :: "x86 \<Rightarrow> u8 list \<Rightarrow> u8 list \<Rightarrow> u8 list" where
  "KEY_256_ASSIST_1 isa temp1 temp2 =
     (let temp2 = mm_shuffle_epi32 isa temp2 0xff;
          temp4 = mm_slli_si128 isa temp1 4;
          temp1 = mm_xor_si128 isa temp1 temp4;
          temp4 = mm_slli_si128 isa temp4 4;
          temp1 = mm_xor_si128 isa temp1 temp4;
          temp4 = mm_slli_si128 isa temp4 4;
          temp1 = mm_xor_si128 isa temp1 temp4
      in mm_xor_si128 isa temp1 temp2)"

definition KEY_256_ASSIST_2 :: "x86 \<Rightarrow> u8 list \<Rightarrow> u8 list \<Rightarrow> u8 list" where
  "KEY_256_ASSIST_2 isa temp1 temp3 =
     (let temp4 = mm_aeskeygenassist_si128 isa temp1 0;
          temp2 = mm_shuffle_epi32 isa temp4 0xaa;
          temp4 = mm_slli_si128 isa temp3 4;
          temp3 = mm_xor_si128 isa temp3 temp4;
          temp4 = mm_slli_si128 isa temp4 4;
          temp3 = mm_xor_si128 isa temp3 temp4;
          temp4 = mm_slli_si128 isa temp4 4;
          temp3 = mm_xor_si128 isa temp3 temp4
      in mm_xor_si128 isa temp3 temp2)"

text \<open>Two registers per step; the last step stores only the first of them.\<close>

fun key256_steps :: "x86 \<Rightarrow> u8 list \<Rightarrow> u8 list \<Rightarrow> u8 list \<Rightarrow> (nat \<times> u8) list \<Rightarrow> u8 list option" where
  "key256_steps isa temp1 temp3 key [] = Some key"
| "key256_steps isa temp1 temp3 key ((i, rcon) # steps) =
     (let temp2 = mm_aeskeygenassist_si128 isa temp3 rcon;
          temp1 = KEY_256_ASSIST_1 isa temp1 temp2
      in do {
        key \<leftarrow> st128 key i temp1;
        if steps = [] then Some key
        else
          let temp3 = KEY_256_ASSIST_2 isa temp1 temp3
          in do { key \<leftarrow> st128 key (i + 1) temp3; key256_steps isa temp1 temp3 key steps }
      })"

definition AES_256_Key_Expansion :: "x86 \<Rightarrow> u8 list \<Rightarrow> u8 list \<Rightarrow> u8 list option" where
  "AES_256_Key_Expansion isa userkey key = do {
     temp1 \<leftarrow> rdn userkey 0 16;
     temp3 \<leftarrow> rdn userkey 16 16;
     key \<leftarrow> st128 key 0 temp1;
     key \<leftarrow> st128 key 1 temp3;
     key256_steps isa temp1 temp3 key
       [(2, 0x01), (4, 0x02), (6, 0x04), (8, 0x08), (10, 0x10), (12, 0x20), (14, 0x40)]
   }"

text \<open>The decryption schedule, from a copy of the encryption schedule: 240 bytes are copied whatever \<open>nr\<close>.\<close>

fun imc_steps :: "x86 \<Rightarrow> u8 list \<Rightarrow> nat \<Rightarrow> u8 list \<Rightarrow> nat list \<Rightarrow> u8 list option" where
  "imc_steps isa temp_key nr key [] = Some key"
| "imc_steps isa temp_key nr key (i # is) = do {
     t \<leftarrow> ld128 temp_key i;
     key \<leftarrow> st128 key (nr - i) (mm_aesimc_si128 isa t);
     imc_steps isa temp_key nr key is
   }"

definition AES128_expand_key :: "x86 \<Rightarrow> u8 list \<Rightarrow> nat \<Rightarrow> u8 list option" where
  "AES128_expand_key isa key nr = do {
     temp_key \<leftarrow> rdn key 0 240;
     t \<leftarrow> ld128 temp_key 0;
     key \<leftarrow> st128 key nr t;
     key \<leftarrow> imc_steps isa temp_key nr key
       ([1, 2, 3, 4, 5, 6, 7, 8, 9] @ (if nr > 10 then [10, 11, 12, 13] else []));
     t \<leftarrow> ld128 temp_key nr;
     st128 key 0 t
   }"

definition AES_expand_key :: "x86 \<Rightarrow> u8 list \<Rightarrow> u8 list \<Rightarrow> int \<Rightarrow> int \<Rightarrow> (int \<times> u8 list) option" where
  "AES_expand_key isa userkey key bits encrypt =
     (if bits = 256 then do {
        key \<leftarrow> AES_256_Key_Expansion isa userkey key;
        key \<leftarrow> (if encrypt = 0 then AES128_expand_key isa key 14 else Some key);
        Some (0, key)
      }
      else if bits = 128 then do {
        key \<leftarrow> AES_128_Key_Expansion isa userkey key;
        key \<leftarrow> (if encrypt = 0 then AES128_expand_key isa key 10 else Some key);
        Some (0, key)
      }
      else Some (EINVAL, key))"

section \<open>Blocks\<close>

text \<open>\<open>k i\<close> is \<^verbatim>\<open>key128[i]\<close>.\<close>

definition key128 :: "u8 list \<Rightarrow> nat \<Rightarrow> u8 list" where
  "key128 key i = take 16 (drop (16 * i) key)"

definition AES128_ECB_encrypt_block :: "x86 \<Rightarrow> u8 list \<Rightarrow> u8 list \<Rightarrow> u8 list" where
  "AES128_ECB_encrypt_block isa inp key =
     (let tmp = mm_xor_si128 isa inp (key128 key 0);
          tmp = foldl (\<lambda>tmp i. mm_aesenc_si128 isa tmp (key128 key i)) tmp [1, 2, 3, 4, 5, 6, 7, 8, 9]
      in mm_aesenclast_si128 isa tmp (key128 key 10))"

definition AES128_ECB_decrypt_block :: "x86 \<Rightarrow> u8 list \<Rightarrow> u8 list \<Rightarrow> u8 list" where
  "AES128_ECB_decrypt_block isa inp key =
     (let tmp = mm_xor_si128 isa inp (key128 key 0);
          tmp = foldl (\<lambda>tmp i. mm_aesdec_si128 isa tmp (key128 key i)) tmp [1, 2, 3, 4, 5, 6, 7, 8, 9]
      in mm_aesdeclast_si128 isa tmp (key128 key 10))"

text \<open>The body of the loops over the blocks of a buffer in CBC mode.\<close>

definition hw_cbc_encrypt_block :: "x86 \<Rightarrow> u8 list \<Rightarrow> nat \<Rightarrow> u8 list \<Rightarrow> u8 list \<Rightarrow> u8 list" where
  "hw_cbc_encrypt_block isa roundkey Nr feedback data =
     (let feedback = mm_xor_si128 isa data feedback;
          feedback = mm_xor_si128 isa feedback (key128 roundkey 0);
          feedback = foldl (\<lambda>f j. mm_aesenc_si128 isa f (key128 roundkey j)) feedback [1..<Nr]
      in mm_aesenclast_si128 isa feedback (key128 roundkey Nr))"

definition hw_cbc_decrypt_block :: "x86 \<Rightarrow> u8 list \<Rightarrow> nat \<Rightarrow> u8 list \<Rightarrow> u8 list \<Rightarrow> u8 list" where
  "hw_cbc_decrypt_block isa roundkey Nr feedback last_in =
     (let data = mm_xor_si128 isa last_in (key128 roundkey 0);
          data = foldl (\<lambda>d j. mm_aesdec_si128 isa d (key128 roundkey j)) data [1..<Nr];
          data = mm_aesdeclast_si128 isa data (key128 roundkey Nr)
      in mm_xor_si128 isa data feedback)"

lemma cpu_supports_aes_bit: "cpu_supports_aes ecx (-1) = (if bit ecx 25 then 1 else 0)"
  by (simp only: cpu_supports_aes_def push_bit_of_1 and_exp_eq_0_iff_not_bit) simp

section \<open>The schedules are the ones of FIPS 197\<close>

lemma replicate_4: "replicate 4 x = [x, x, x, x]"
  by (simp add: numeral_eq_Suc)

lemma x86_laws:
  assumes "x86_documented isa" and "length a = 16" and "length b = 16"
  shows "mm_xor_si128 isa a b = fips_AddRoundKey a b"
    "mm_aesenc_si128 isa a b = fips_AddRoundKey (fips_MixColumns (fips_ShiftRows (fips_SubBytes a))) b"
    "mm_aesenclast_si128 isa a b = fips_AddRoundKey (fips_ShiftRows (fips_SubBytes a)) b"
    "mm_aesdec_si128 isa a b = fips_AddRoundKey (fips_InvMixColumns (fips_InvSubBytes (fips_InvShiftRows a))) b"
    "mm_aesdeclast_si128 isa a b = fips_AddRoundKey (fips_InvSubBytes (fips_InvShiftRows a)) b"
  using assms by (auto simp: x86_documented_def x86_manual_def)

lemma x86_unary:
  assumes "x86_documented isa" and "length a = 16"
  shows "mm_slli_si128 isa a 4 = [0, 0, 0, 0] @ take 12 a"
    "mm_shuffle_epi32 isa a 0xff = dword a 3 @ dword a 3 @ dword a 3 @ dword a 3"
    "mm_shuffle_epi32 isa a 0xaa = dword a 2 @ dword a 2 @ dword a 2 @ dword a 2"
    "mm_aesimc_si128 isa a = fips_InvMixColumns a"
    "dword (mm_aeskeygenassist_si128 isa a rcon) 3 = key_core a rcon"
    "dword (mm_aeskeygenassist_si128 isa a rcon) 2 = fips_SubWord (drop 12 a)"
    "length (mm_aeskeygenassist_si128 isa a rcon) = 16"
  using assms
  by (auto simp: x86_documented_def x86_manual_def length16_conv dword_def key_core_def fips_SubWord_def
      fips_RotWord_def fips_xor_def replicate_4)

lemma assist_chain:
  assumes "x86_documented isa" and "length p = 16" and "length q = 16"
  shows "AES_128_ASSIST isa p q = key_chain p (dword q 3)"
    "KEY_256_ASSIST_1 isa p q = key_chain p (dword q 3)"
proof -
  obtain a b c d e f g h i j k l m n o' r where p: "p = [a, b, c, d, e, f, g, h, i, j, k, l, m, n, o', r]"
    using assms(2) by (auto simp: length16_conv)
  obtain t0 t1 t2 t3 where "drop 12 q = [t0, t1, t2, t3]"
    using assms(3) length4_conv [of "drop 12 q"] by auto
  then have t: "dword q 3 = [t0, t1, t2, t3]" by (simp add: dword_def)
  show "AES_128_ASSIST isa p q = key_chain p (dword q 3)"
    using assms t unfolding AES_128_ASSIST_def p
    by (simp add: x86_laws x86_unary key_chain_def fips_xor_def fips_AddRoundKey_def Let_def ac_simps)
  then show "KEY_256_ASSIST_1 isa p q = key_chain p (dword q 3)"
    by (simp add: AES_128_ASSIST_def KEY_256_ASSIST_1_def)
qed

lemma assist2_chain:
  assumes "x86_documented isa" and "length p = 16" and "length q = 16"
  shows "KEY_256_ASSIST_2 isa p q = key_chain q (fips_SubWord (drop 12 p))"
proof -
  let ?g = "mm_aeskeygenassist_si128 isa p 0"
  have g: "length ?g = 16" "dword ?g 2 = fips_SubWord (drop 12 p)" using assms by (auto simp: x86_laws x86_unary)
  have "KEY_256_ASSIST_2 isa p q = AES_128_ASSIST isa q (dword ?g 2 @ dword ?g 2 @ dword ?g 2 @ dword ?g 2)"
  proof -
    have "length (dword ?g 2) = 4" using g(1) by (simp add: dword_def)
    then have "mm_shuffle_epi32 isa (dword ?g 2 @ dword ?g 2 @ dword ?g 2 @ dword ?g 2) 0xff =
        mm_shuffle_epi32 isa ?g 0xaa"
      using assms(1) g(1) by (simp add: x86_laws x86_unary) (simp add: dword_def)
    then show ?thesis by (simp add: KEY_256_ASSIST_2_def AES_128_ASSIST_def)
  qed
  also have "\<dots> = key_chain q (dword ?g 2)"
  proof -
    have "length (dword ?g 2) = 4" using g(1) by (simp add: dword_def)
    then have "dword (dword ?g 2 @ dword ?g 2 @ dword ?g 2 @ dword ?g 2) 3 = dword ?g 2"
      "length (dword ?g 2 @ dword ?g 2 @ dword ?g 2 @ dword ?g 2) = 16"
      by (simp_all add: dword_def [of "_ @ _"])
    then show ?thesis using assms(1, 3) by (simp only: assist_chain)
  qed
  finally show ?thesis unfolding g(2) .
qed

lemma length_concat16: "(\<And>i. i \<in> set is \<Longrightarrow> length (rk i) = 16) \<Longrightarrow> length (concat (map rk is)) = 16 * length is"
  by (induction "is") auto

lemma st128_next:
  assumes "\<And>i. length (rk i) = 16" and "16 \<le> length rest"
  shows "st128 (concat (map rk [0..<i]) @ rest) i (rk i) = Some (concat (map rk [0..<Suc i]) @ drop 16 rest)"
  using assms by (simp add: st128_def wrn_def length_concat16)

lemma key128_nth:
  assumes "\<And>i. length (rk i) = 16" and "i < n"
  shows "key128 (concat (map rk [0..<n]) @ rest) i = rk i"
proof -
  have "[0..<n] = [0..<i] @ i # [Suc i..<n]" using upt_add_eq_append [of 0 i "n - i"] assms(2) by (simp add: upt_conv_Cons)
  then show ?thesis using assms(1) by (simp add: key128_def length_concat16)
qed

lemma key128_take: "16 * i + 16 \<le> n \<Longrightarrow> key128 (take n key) i = key128 key i"
  by (simp add: key128_def drop_take min_def)

lemma ld128_key128: "16 * i + 16 \<le> length key \<Longrightarrow> ld128 key i = Some (key128 key i)"
  by (simp add: ld128_def rdn_def key128_def)

lemma key128_steps_fips:
  assumes "x86_documented isa" and "length userkey = 16"
  shows "16 * d \<le> length rest \<Longrightarrow>
    key128_steps isa (fips_round_key 4 userkey i) (concat (map (fips_round_key 4 userkey) [0..<Suc i]) @ rest)
      (map (\<lambda>i. (i, fips_Rcon i)) [Suc i..<Suc i + d]) =
    Some (concat (map (fips_round_key 4 userkey) [0..<Suc i + d]) @ drop (16 * d) rest)"
proof (induction d arbitrary: i rest)
  case (Suc d)
  have len: "length (fips_round_key 4 userkey j) = 16" for j
    using length_fips_round_key [of userkey 4] assms(2) by simp
  have "AES_128_ASSIST isa (fips_round_key 4 userkey i)
      (mm_aeskeygenassist_si128 isa (fips_round_key 4 userkey i) (fips_Rcon (Suc i))) =
    fips_round_key 4 userkey (Suc i)"
    using assms by (simp add: assist_chain x86_laws x86_unary round_key_128 len)
  moreover have "[Suc i..<Suc i + Suc d] = Suc i # [Suc (Suc i)..<Suc (Suc i) + d]"
    by (simp add: upt_conv_Cons del: upt_Suc)
  ultimately have "key128_steps isa (fips_round_key 4 userkey i)
      (concat (map (fips_round_key 4 userkey) [0..<Suc i]) @ rest)
      (map (\<lambda>i. (i, fips_Rcon i)) [Suc i..<Suc i + Suc d]) =
    key128_steps isa (fips_round_key 4 userkey (Suc i))
      (concat (map (fips_round_key 4 userkey) [0..<Suc (Suc i)]) @ drop 16 rest)
      (map (\<lambda>i. (i, fips_Rcon i)) [Suc (Suc i)..<Suc (Suc i) + d])"
    using Suc.prems st128_next [of "fips_round_key 4 userkey" rest "Suc i", OF len]
    by (simp del: upt_Suc fips_Rcon.simps)
  also have "\<dots> = Some (concat (map (fips_round_key 4 userkey) [0..<Suc (Suc i) + d]) @ drop (16 * d) (drop 16 rest))"
    using Suc.prems by (intro Suc.IH) simp
  finally show ?case by (simp add: add.commute del: upt_Suc)
qed simp

lemma rcon_128:
  "[(1, 0x1), (2, 0x2), (3, 0x4), (4, 0x8), (5, 0x10), (6, 0x20), (7, 0x40), (8, 0x80), (9, 0x1b), (10, 0x36)] =
     map (\<lambda>i. (i, fips_Rcon i)) [Suc 0..<Suc 0 + 10]"
  by (simp add: upt_rec numeral_eq_Suc xtime_eval)

lemma AES_128_Key_Expansion_fips:
  assumes "x86_documented isa" and "length userkey = 16" and "176 \<le> length key"
  shows "AES_128_Key_Expansion isa userkey key =
    Some (concat (map (fips_round_key 4 userkey) [0..<11]) @ drop 176 key)"
proof -
  have len: "length (fips_round_key 4 userkey j) = 16" for j
    using length_fips_round_key [of userkey 4] assms(2) by simp
  have 0: "fips_round_key 4 userkey 0 = userkey" using assms(2) by (simp add: fips_round_key_0)
  have "st128 key 0 userkey = Some (concat (map (fips_round_key 4 userkey) [0..<Suc 0]) @ drop 16 key)"
    using st128_next [where rk = "fips_round_key 4 userkey" and rest = key and i = 0] assms(3) len 0 by simp
  moreover have "rdn userkey 0 16 = Some userkey" using assms(2) by (simp add: rdn_def)
  moreover have "key128_steps isa userkey (concat (map (fips_round_key 4 userkey) [0..<Suc 0]) @ drop 16 key)
      (map (\<lambda>i. (i, fips_Rcon i)) [Suc 0..<Suc 0 + 10]) =
    Some (concat (map (fips_round_key 4 userkey) [0..<Suc 0 + 10]) @ drop (16 * 10) (drop 16 key))"
    using key128_steps_fips [OF assms(1, 2), of 10 "drop 16 key" 0] assms(3) unfolding 0 by simp
  ultimately show ?thesis
    unfolding AES_128_Key_Expansion_def rcon_128 by simp
qed

lemma key256_steps_fips:
  assumes "x86_documented isa" and "length userkey = 32"
  shows "16 * (2 * d + 1) \<le> length rest \<Longrightarrow>
    key256_steps isa (fips_round_key 8 userkey (2 * m)) (fips_round_key 8 userkey (2 * m + 1))
      (concat (map (fips_round_key 8 userkey) [0..<2 * m + 2]) @ rest)
      (map (\<lambda>m. (2 * m, fips_Rcon m)) [Suc m..<Suc m + Suc d]) =
    Some (concat (map (fips_round_key 8 userkey) [0..<2 * m + 2 + 2 * d + 1]) @ drop (16 * (2 * d + 1)) rest)"
proof (induction d arbitrary: m rest)
  case (0 m)
  have len: "length (fips_round_key 8 userkey j) = 16" for j
    using length_fips_round_key [of userkey 8] assms(2) by simp
  have "KEY_256_ASSIST_1 isa (fips_round_key 8 userkey (2 * m))
      (mm_aeskeygenassist_si128 isa (fips_round_key 8 userkey (Suc (2 * m))) (fips_Rcon (Suc m))) =
    fips_round_key 8 userkey (Suc (Suc (2 * m)))"
    using assms round_key_256_even [of userkey m] by (simp add: assist_chain x86_laws x86_unary len)
  then show ?case
    using 0 st128_next [of "fips_round_key 8 userkey" rest "2 * m + 2", OF len] by simp
next
  case (Suc d m)
  have len: "length (fips_round_key 8 userkey j) = 16" for j
    using length_fips_round_key [of userkey 8] assms(2) by simp
  let ?rk = "fips_round_key 8 userkey"
  have 1: "KEY_256_ASSIST_1 isa (?rk (2 * m)) (mm_aeskeygenassist_si128 isa (?rk (2 * m + 1)) (fips_Rcon (Suc m))) =
      ?rk (2 * m + 2)"
    using assms round_key_256_even [of userkey m] by (simp add: assist_chain x86_laws x86_unary len)
  have 2: "KEY_256_ASSIST_2 isa (?rk (2 * m + 2)) (?rk (2 * m + 1)) = ?rk (2 * m + 3)"
    using assms round_key_256_odd [of userkey m] by (simp add: assist2_chain len)
  have upt: "[Suc m..<Suc m + Suc (Suc d)] = Suc m # [Suc (Suc m)..<Suc (Suc m) + Suc d]"
    by (simp add: upt_conv_Cons del: upt_Suc)
  have s1: "st128 (concat (map ?rk [0..<2 * m + 2]) @ rest) (2 * Suc m) (?rk (2 * m + 2)) =
      Some (concat (map ?rk [0..<2 * m + 3]) @ drop 16 rest)"
    using Suc.prems st128_next [of ?rk rest "2 * m + 2", OF len] by (simp add: numeral_3_eq_3 del: upt_Suc)
  have s2: "st128 (concat (map ?rk [0..<2 * m + 3]) @ drop 16 rest) (2 * Suc m + 1) (?rk (2 * m + 3)) =
      Some (concat (map ?rk [0..<2 * Suc m + 2]) @ drop 32 rest)"
    using Suc.prems st128_next [of ?rk "drop 16 rest" "2 * m + 3", OF len] by (simp add: numeral_3_eq_3 del: upt_Suc)
  have idx: "2 * Suc m = 2 * m + 2" "2 * m + 2 + 1 = 2 * m + 3" by simp_all
  have ne: "map (\<lambda>m. (2 * m, fips_Rcon m)) [Suc (Suc m)..<Suc (Suc m) + Suc d] \<noteq> []" by simp
  have "key256_steps isa (?rk (2 * m)) (?rk (2 * m + 1)) (concat (map ?rk [0..<2 * m + 2]) @ rest)
      (map (\<lambda>m. (2 * m, fips_Rcon m)) [Suc m..<Suc m + Suc (Suc d)]) =
    key256_steps isa (?rk (2 * Suc m)) (?rk (2 * Suc m + 1)) (concat (map ?rk [0..<2 * Suc m + 2]) @ drop 32 rest)
      (map (\<lambda>m. (2 * m, fips_Rcon m)) [Suc (Suc m)..<Suc (Suc m) + Suc d])"
    unfolding upt list.map key256_steps.simps Let_def idx 1 2 s1 [unfolded idx] bind.bind_lunit s2 [unfolded idx] if_not_P [OF ne]
    by (rule refl)
  also have "\<dots> = Some (concat (map ?rk [0..<2 * Suc m + 2 + 2 * d + 1]) @ drop (16 * (2 * d + 1)) (drop 32 rest))"
    using Suc.prems by (intro Suc.IH) simp
  finally show ?case by (simp add: add.commute del: upt_Suc)
qed

lemma rcon_256:
  "[(2, 0x01), (4, 0x02), (6, 0x04), (8, 0x08), (10, 0x10), (12, 0x20), (14, 0x40)] =
     map (\<lambda>m. (2 * m, fips_Rcon m)) [Suc 0..<Suc 0 + Suc 6]"
  by (simp add: upt_rec numeral_eq_Suc xtime_eval)

lemma AES_256_Key_Expansion_fips:
  assumes "x86_documented isa" and "length userkey = 32" and "240 \<le> length key"
  shows "AES_256_Key_Expansion isa userkey key =
    Some (concat (map (fips_round_key 8 userkey) [0..<15]) @ drop 240 key)"
proof -
  let ?rk = "fips_round_key 8 userkey"
  have len: "length (?rk j) = 16" for j
    using length_fips_round_key [of userkey 8] assms(2) by simp
  have 0: "?rk 0 = take 16 userkey" using assms(2) by (simp add: fips_round_key_0)
  have 1: "?rk 1 = drop 16 userkey" using assms(2) by (rule fips_round_key_1)
  have "rdn userkey 0 16 = Some (?rk 0)" "rdn userkey 16 16 = Some (?rk 1)"
    unfolding 0 1 using assms(2) by (simp_all add: rdn_def)
  moreover have "st128 key 0 (?rk 0) = Some (concat (map ?rk [0..<1]) @ drop 16 key)"
    using st128_next [where rk = ?rk and rest = key and i = 0] assms(3) len by simp
  moreover have "st128 (concat (map ?rk [0..<1]) @ drop 16 key) 1 (?rk 1) =
      Some (concat (map ?rk [0..<2]) @ drop 32 key)"
    using st128_next [where rk = ?rk and rest = "drop 16 key" and i = 1] assms(3) len
    by (simp add: numeral_2_eq_2)
  moreover have "key256_steps isa (?rk 0) (?rk 1) (concat (map ?rk [0..<2]) @ drop 32 key)
      (map (\<lambda>m. (2 * m, fips_Rcon m)) [Suc 0..<Suc 0 + Suc 6]) =
    Some (concat (map ?rk [0..<15]) @ drop 208 (drop 32 key))"
    using key256_steps_fips [OF assms(1, 2), of 6 "drop 32 key" 0] assms(3)
    by (simp add: numeral_2_eq_2 del: upt_Suc upt_rec_numeral)
  ultimately show ?thesis
    unfolding AES_256_Key_Expansion_def rcon_256 by simp
qed

section \<open>The decryption schedule\<close>

definition inv_schedule :: "nat \<Rightarrow> (nat \<Rightarrow> u8 list) \<Rightarrow> nat \<Rightarrow> u8 list" where
  "inv_schedule nr rk j =
     (if j = 0 then rk nr else if j = nr then rk 0 else fips_InvMixColumns (rk (nr - j)))"

lemma concat_update:
  assumes "\<And>i. length (rk i) = 16" and "length v = 16" and "i < n"
  shows "st128 (concat (map rk [0..<n]) @ rest) i v = Some (concat (map (rk(i := v)) [0..<n]) @ rest)"
proof -
  have u: "[0..<n] = [0..<i] @ i # [Suc i..<n]"
    using upt_add_eq_append [of 0 i "n - i"] assms(3) by (simp add: upt_conv_Cons)
  have "map (rk(i := v)) [0..<n] = map rk [0..<i] @ v # map rk [Suc i..<n]"
    unfolding u by simp
  then show ?thesis
    using assms(1, 2) by (simp add: u st128_def wrn_def length_concat16)
qed

lemma imc_steps_fips:
  assumes "x86_documented isa" and "\<And>i. length (rk i) = 16" and "16 * n \<le> length temp"
    and "\<And>i. length (f i) = 16" and "\<forall>i \<in> set is. i < n \<and> nr - i < n"
    and "\<And>i. i < n \<Longrightarrow> key128 temp i = rk i"
  shows "imc_steps isa temp nr (concat (map f [0..<n]) @ rest) is =
    Some (concat (map (fold (\<lambda>i f. f(nr - i := fips_InvMixColumns (rk i))) is f) [0..<n]) @ rest)"
  using assms(4, 5)
proof (induction "is" arbitrary: f)
  case (Cons i "is")
  then have "i < n" by simp
  then have "ld128 temp i = Some (rk i)"
    using assms(3) assms(6) [of i] by (simp add: ld128_def rdn_def key128_def)
  moreover have "length (fips_InvMixColumns (rk i)) = 16" "nr - i < n" using Cons.prems by simp_all
  ultimately have "imc_steps isa temp nr (concat (map f [0..<n]) @ rest) (i # is) =
      imc_steps isa temp nr (concat (map (f(nr - i := fips_InvMixColumns (rk i))) [0..<n]) @ rest) is"
    using concat_update [OF Cons.prems(1)] assms(1, 2) by (simp add: x86_unary del: fun_upd_apply)
  also have "\<dots> = Some (concat (map (fold (\<lambda>i f. f(nr - i := fips_InvMixColumns (rk i))) is
      (f(nr - i := fips_InvMixColumns (rk i)))) [0..<n]) @ rest)"
    using Cons.prems by (intro Cons.IH) auto
  finally show ?case by (simp del: fun_upd_apply)
qed simp

lemma inv_schedule_128:
  "map ((fold (\<lambda>i f. f(10 - i := fips_InvMixColumns (rk i))) [1, 2, 3, 4, 5, 6, 7, 8, 9] (rk(10 := rk 0)))(0 := rk 10)) [0..<11] =
     map (inv_schedule 10 rk) [0..<11]"
  by (simp add: inv_schedule_def upt_eval)

lemma inv_schedule_256:
  "map ((fold (\<lambda>i f. f(14 - i := fips_InvMixColumns (rk i))) [1, 2, 3, 4, 5, 6, 7, 8, 9, 10, 11, 12, 13]
      (rk(14 := rk 0)))(0 := rk 14)) [0..<15] =
     map (inv_schedule 14 rk) [0..<15]"
  by (simp add: inv_schedule_def upt_eval)

lemma fold_upd_length:
  "(\<And>i. length (rk i) = 16) \<Longrightarrow> (\<And>i. length (f i) = 16) \<Longrightarrow>
     length (fold (\<lambda>i f. f(nr - i := fips_InvMixColumns (rk i))) is f j) = 16"
  by (induction "is" arbitrary: f) auto

lemma AES128_expand_key_fips:
  assumes "x86_documented isa" and "\<And>i. length (rk i) = 16" and "nr = 10 \<or> nr = 14"
    and "240 \<le> length (concat (map rk [0..<Suc nr]) @ rest)"
  shows "AES128_expand_key isa (concat (map rk [0..<Suc nr]) @ rest) nr =
    Some (concat (map (inv_schedule nr rk) [0..<Suc nr]) @ rest)"
proof -
  let ?key = "concat (map rk [0..<Suc nr]) @ rest"
  let ?temp = "take 240 ?key"
  let ?is = "[1, 2, 3, 4, 5, 6, 7, 8, 9] @ (if nr > 10 then [10, 11, 12, 13] else [])"
  let ?f = "fold (\<lambda>i f. f(nr - i := fips_InvMixColumns (rk i))) ?is (rk(nr := rk 0))"
  have temp: "rdn ?key 0 240 = Some ?temp" "length ?temp = 240"
    using assms(4) by (simp_all add: rdn_def)
  have k: "key128 ?temp i = rk i" if "i < Suc nr" for i
  proof -
    have "16 * i + 16 \<le> 240" using that assms(3) by auto
    then have "key128 ?temp i = key128 ?key i" by (rule key128_take)
    then show ?thesis using key128_nth [of rk i "Suc nr" rest] assms(2) that by simp
  qed
  have ld: "ld128 ?temp i = Some (rk i)" if "i < Suc nr" for i
  proof -
    have "16 * i + 16 \<le> length ?temp" unfolding temp(2) using that assms(3) by auto
    from ld128_key128 [OF this] show ?thesis unfolding k [OF that] .
  qed
  have "imc_steps isa ?temp nr (concat (map (rk(nr := rk 0)) [0..<Suc nr]) @ rest) ?is =
      Some (concat (map ?f [0..<Suc nr]) @ rest)"
  proof (rule imc_steps_fips [where rk = rk, OF assms(1)])
    show "16 * Suc nr \<le> length ?temp" unfolding temp(2) using assms(3) by auto
    show "\<forall>i\<in>set ?is. i < Suc nr \<and> nr - i < Suc nr" using assms(3) by auto
    show "key128 ?temp i = rk i" if "i < Suc nr" for i using that by (rule k)
  qed (simp_all add: assms(2))
  moreover have "map (?f(0 := rk nr)) [0..<Suc nr] = map (inv_schedule nr rk) [0..<Suc nr]"
    using assms(3) inv_schedule_128 [of rk] inv_schedule_256 [of rk] by (elim disjE) simp_all
  moreover have "st128 ?key nr (rk 0) = Some (concat (map (rk(nr := rk 0)) [0..<Suc nr]) @ rest)"
    using assms(2) by (intro concat_update) auto
  moreover have "st128 (concat (map ?f [0..<Suc nr]) @ rest) 0 (rk nr) =
      Some (concat (map (?f(0 := rk nr)) [0..<Suc nr]) @ rest)"
    using assms(2) by (intro concat_update fold_upd_length) auto
  moreover have "ld128 ?temp 0 = Some (rk 0)" "ld128 ?temp nr = Some (rk nr)"
    by (rule ld, simp)+
  ultimately show ?thesis
    unfolding AES128_expand_key_def temp(1) by (simp only: bind.bind_lunit)
qed

section \<open>Blocks\<close>

lemma fips_inv_mix_xor:
  "fips_inv_mix (a XOR a') (b XOR b') (c XOR c') (d XOR d') =
     map2 (XOR) (fips_inv_mix a b c d) (fips_inv_mix a' b' c' d')"
  by (simp add: fips_inv_mix_def gmul_coeffs ac_simps)

lemma InvMixColumns_xor:
  assumes "length s = 16" and "length k = 16"
  shows "fips_InvMixColumns (fips_AddRoundKey s k) = fips_AddRoundKey (fips_InvMixColumns s) (fips_InvMixColumns k)"
proof -
  obtain a b c d e f g h i j l m n o' p q where s: "s = [a, b, c, d, e, f, g, h, i, j, l, m, n, o', p, q]"
    using assms(1) by (auto simp: length16_conv)
  obtain a' b' c' d' e' f' g' h' i' j' l' m' n' o'' p' q'
    where k: "k = [a', b', c', d', e', f', g', h', i', j', l', m', n', o'', p', q']"
    using assms(2) by (auto simp: length16_conv)
  have len: "length (fips_inv_mix w x y z) = 4" for w x y z by (simp add: fips_inv_mix_def)
  show ?thesis
    unfolding s k fips_AddRoundKey_def fips_InvMixColumns_def fips_columns16
    by (simp add: fips_columns16 fips_inv_mix_xor len)
qed

lemma hw_encrypt_rounds:
  assumes "x86_documented isa" and "length s = 16" and "\<And>i. length (rk i) = 16"
    and "\<And>i. i \<in> set is \<Longrightarrow> key128 key i = rk i"
  shows "foldl (\<lambda>s i. mm_aesenc_si128 isa s (key128 key i)) s is = foldl (fips_round rk) s is \<and>
    length (foldl (fips_round rk) s is) = 16"
  using assms(4)
proof (induction "is" rule: rev_induct)
  case (snoc i "is")
  then show ?case
    using assms(1, 3) by (simp add: x86_laws fips_round_def)
qed (simp add: assms(2))

lemma hw_decrypt_rounds:
  assumes "x86_documented isa" and "length s = 16" and "\<And>i. length (rk i) = 16"
    and "\<And>i. i \<in> set is \<Longrightarrow> key128 key i = fips_InvMixColumns (rk (nr - i))"
  shows "foldl (\<lambda>s i. mm_aesdec_si128 isa s (key128 key i)) s is =
      foldl (fips_inv_round rk) s (map (\<lambda>i. nr - i) is) \<and>
    length (foldl (fips_inv_round rk) s (map (\<lambda>i. nr - i) is)) = 16"
  using assms(4)
proof (induction "is" rule: rev_induct)
  case (snoc i "is")
  then show ?case
    using assms(1, 3) by (simp add: x86_laws fips_inv_round_def InvMixColumns_xor)
qed (simp add: assms(2))

lemma rev_upt_minus: "map (\<lambda>i. nr - i) [1..<nr] = rev [1..<nr]"
proof -
  have "rev [Suc 0..<nr] = map (\<lambda>i. nr - i) [Suc 0..<nr]"
    by (rule nth_equalityI) (auto simp: rev_nth)
  then show ?thesis by simp
qed

text \<open>A schedule in memory, as the loads of the block functions see it.\<close>

definition holds_keys :: "u8 list \<Rightarrow> nat \<Rightarrow> (nat \<Rightarrow> u8 list) \<Rightarrow> bool" where
  "holds_keys key nr rk \<longleftrightarrow> (\<forall>i \<le> nr. key128 key i = rk i)"

lemma hw_encrypt_fips:
  assumes "x86_documented isa" and "length s = 16" and "\<And>i. length (rk i) = 16"
    and "holds_keys key nr rk"
  shows "mm_aesenclast_si128 isa (foldl (\<lambda>s i. mm_aesenc_si128 isa s (key128 key i))
      (mm_xor_si128 isa s (key128 key 0)) [1..<nr]) (key128 key nr) = fips_Cipher nr rk s"
proof -
  let ?s = "fips_AddRoundKey s (rk 0)"
  have k: "key128 key i = rk i" if "i \<le> nr" for i using assms(4) that by (simp add: holds_keys_def)
  have "length ?s = 16" using assms(2, 3) by simp
  note r = hw_encrypt_rounds [OF assms(1) this assms(3), of "[1..<nr]" key]
  have "mm_xor_si128 isa s (key128 key 0) = ?s" using assms k by (simp add: x86_laws)
  with r show ?thesis
    using assms k by (simp add: fips_Cipher_def Let_def x86_laws)
qed

lemma hw_decrypt_fips:
  assumes "x86_documented isa" and "length s = 16" and "\<And>i. length (rk i) = 16" and "0 < nr"
    and "holds_keys key nr (inv_schedule nr rk)"
  shows "mm_aesdeclast_si128 isa (foldl (\<lambda>s i. mm_aesdec_si128 isa s (key128 key i))
      (mm_xor_si128 isa s (key128 key 0)) [1..<nr]) (key128 key nr) = fips_InvCipher nr rk s"
proof -
  let ?s = "fips_AddRoundKey s (rk nr)"
  have k: "key128 key 0 = rk nr" "key128 key nr = rk 0"
    "\<And>i. i \<in> set [1..<nr] \<Longrightarrow> key128 key i = fips_InvMixColumns (rk (nr - i))"
    using assms(4, 5) by (auto simp: holds_keys_def inv_schedule_def)
  have "length ?s = 16" using assms(2, 3) by simp
  note r = hw_decrypt_rounds [of isa ?s rk "[1..<nr]" key nr, OF assms(1) this assms(3) k(3), unfolded rev_upt_minus]
  have "mm_xor_si128 isa s (key128 key 0) = ?s" using assms k by (simp add: x86_laws)
  with r show ?thesis
    using assms(1, 3) by (simp add: fips_InvCipher_def Let_def x86_laws k)
qed

lemma holds_keys_schedule:
  "(\<And>i. length (rk i) = 16) \<Longrightarrow> holds_keys (concat (map rk [0..<Suc nr]) @ rest) nr rk"
  by (simp add: holds_keys_def key128_nth del: upt_Suc)

lemma length_inv_schedule: "(\<And>i. length (rk i) = 16) \<Longrightarrow> length (inv_schedule nr rk i) = 16"
  by (simp add: inv_schedule_def)

text \<open>
  C26. With intrinsics that behave as documented and room for 240 bytes, the hardware key
  expansion for 128 and 256 bit keys fills the schedule of FIPS 197 for encryption, and the
  schedule of the equivalent inverse cipher for decryption, and leaves the bytes behind it
  alone.
\<close>

theorem AES_expand_key_correct:
  assumes "x86_documented isa" and "(bits, Nk, nr) \<in> {(128, 4, 10), (256, 8, 14)}"
    and "length userkey = 4 * Nk" and "240 \<le> length key"
  shows "AES_expand_key isa userkey key bits encrypt =
    Some (0, concat (map (if encrypt = 0 then inv_schedule nr (fips_round_key Nk userkey)
                          else fips_round_key Nk userkey) [0..<Suc nr]) @ drop (16 * Suc nr) key)"
proof -
  have len: "length (fips_round_key Nk userkey i) = 16" for i
    using assms(2, 3) by (auto simp: length_fips_round_key)
  have total: "240 \<le> length (concat (map (fips_round_key Nk userkey) [0..<Suc nr]) @ drop (16 * Suc nr) key)"
    using assms(2, 4) len by (auto simp: length_concat16)
  have nr: "nr = 10 \<or> nr = 14" using assms(2) by auto
  note inv = AES128_expand_key_fips [OF assms(1) len nr total]
  from assms(2) consider "bits = 128" "Nk = 4" "nr = 10" | "bits = 256" "Nk = 8" "nr = 14" by auto
  then show ?thesis
    using AES_128_Key_Expansion_fips [OF assms(1), of userkey key]
      AES_256_Key_Expansion_fips [OF assms(1), of userkey key] assms(3, 4) inv
    by cases (auto simp: AES_expand_key_def)
qed

theorem AES_expand_key_correct_witness:
  "x86_documented x86_manual \<and>
   AES_expand_key x86_manual (replicate 16 7) (replicate 240 0) 128 1 =
     Some (0, concat (map (fips_round_key 4 (replicate 16 7)) [0..<Suc 10]) @ replicate 64 0)"
proof -
  have doc: "x86_documented x86_manual" by (simp add: x86_documented_def)
  show ?thesis
    using AES_expand_key_correct [OF doc, of 128 4 10 "replicate 16 7" "replicate 240 0" 1] doc by simp
qed

text \<open>
  For a 128 bit decryption key the expansion copies 240 bytes of a schedule that has only
  176: on the \<^verbatim>\<open>roundkey\<close> array of an \<^verbatim>\<open>aes128_ctx\<close> it reads out of bounds, whatever
  the key.
\<close>

theorem AES_expand_key_overread:
  assumes "x86_documented isa" and "length userkey = 16" and "length key = 176"
  shows "AES_expand_key isa userkey key 128 0 = None"
proof -
  have "length (concat (map (fips_round_key 4 userkey) [0..<11])) = 176"
    using length_fips_round_key [of userkey 4] assms(2) by (simp add: length_concat16)
  then show ?thesis
    using AES_128_Key_Expansion_fips [OF assms(1, 2), of key] assms(3)
    by (simp add: AES_expand_key_def AES128_expand_key_def rdn_def)
qed

theorem AES_expand_key_overread_witness:
  "AES_expand_key x86_manual (replicate 16 1) (replicate 176 0) 128 0 = None"
  using AES_expand_key_overread [of x86_manual "replicate 16 1" "replicate 176 0"]
  by (simp add: x86_documented_def)

lemma AES128_ECB_encrypt_block_fips:
  assumes "x86_documented isa" and "length inp = 16" and "length userkey = 16"
    and "holds_keys key 10 (fips_round_key 4 userkey)"
  shows "AES128_ECB_encrypt_block isa inp key = fips_Cipher 10 (fips_round_key 4 userkey) inp"
proof -
  have "[1, 2, 3, 4, 5, 6, 7, 8, 9] = [1..<10 :: nat]" by (simp add: upt_rec)
  then show ?thesis
    using hw_encrypt_fips [OF assms(1, 2) length_fips_round_key assms(4)] assms(3)
    by (simp only: AES128_ECB_encrypt_block_def Let_def)
qed

lemma AES128_ECB_decrypt_block_fips:
  assumes "x86_documented isa" and "length inp = 16" and "length userkey = 16"
    and "holds_keys key 10 (inv_schedule 10 (fips_round_key 4 userkey))"
  shows "AES128_ECB_decrypt_block isa inp key = fips_InvCipher 10 (fips_round_key 4 userkey) inp"
proof -
  have "[1, 2, 3, 4, 5, 6, 7, 8, 9] = [1..<10 :: nat]" by (simp add: upt_rec)
  then show ?thesis
    using hw_decrypt_fips [OF assms(1, 2) length_fips_round_key _ assms(4)] assms(3)
    by (simp only: AES128_ECB_decrypt_block_def Let_def)
qed

end
