(* ===== verification/Aes_Conte.thy ===== *)
theory Aes_Conte
  imports Aes_Spec
begin

text \<open>
  The block cipher of \<^verbatim>\<open>aes-cbc.c\<close>: tables indexed by nibbles, a table of products in the
  field, the transformations of a four by four matrix, the cipher and its inverse for keys
  of 128 and 256 bits, and the key setup with 32 bit words. The statements of the source
  are written out one by one. The theory shows that the tables and every transformation are
  those of FIPS 197.
\<close>

section \<open>Tables\<close>

definition aes_sbox :: "u8 list list" where
  "aes_sbox =
  [[0x63, 0x7C, 0x77, 0x7B, 0xF2, 0x6B, 0x6F, 0xC5, 0x30, 0x01, 0x67, 0x2B, 0xFE, 0xD7, 0xAB, 0x76],
   [0xCA, 0x82, 0xC9, 0x7D, 0xFA, 0x59, 0x47, 0xF0, 0xAD, 0xD4, 0xA2, 0xAF, 0x9C, 0xA4, 0x72, 0xC0],
   [0xB7, 0xFD, 0x93, 0x26, 0x36, 0x3F, 0xF7, 0xCC, 0x34, 0xA5, 0xE5, 0xF1, 0x71, 0xD8, 0x31, 0x15],
   [0x04, 0xC7, 0x23, 0xC3, 0x18, 0x96, 0x05, 0x9A, 0x07, 0x12, 0x80, 0xE2, 0xEB, 0x27, 0xB2, 0x75],
   [0x09, 0x83, 0x2C, 0x1A, 0x1B, 0x6E, 0x5A, 0xA0, 0x52, 0x3B, 0xD6, 0xB3, 0x29, 0xE3, 0x2F, 0x84],
   [0x53, 0xD1, 0x00, 0xED, 0x20, 0xFC, 0xB1, 0x5B, 0x6A, 0xCB, 0xBE, 0x39, 0x4A, 0x4C, 0x58, 0xCF],
   [0xD0, 0xEF, 0xAA, 0xFB, 0x43, 0x4D, 0x33, 0x85, 0x45, 0xF9, 0x02, 0x7F, 0x50, 0x3C, 0x9F, 0xA8],
   [0x51, 0xA3, 0x40, 0x8F, 0x92, 0x9D, 0x38, 0xF5, 0xBC, 0xB6, 0xDA, 0x21, 0x10, 0xFF, 0xF3, 0xD2],
   [0xCD, 0x0C, 0x13, 0xEC, 0x5F, 0x97, 0x44, 0x17, 0xC4, 0xA7, 0x7E, 0x3D, 0x64, 0x5D, 0x19, 0x73],
   [0x60, 0x81, 0x4F, 0xDC, 0x22, 0x2A, 0x90, 0x88, 0x46, 0xEE, 0xB8, 0x14, 0xDE, 0x5E, 0x0B, 0xDB],
   [0xE0, 0x32, 0x3A, 0x0A, 0x49, 0x06, 0x24, 0x5C, 0xC2, 0xD3, 0xAC, 0x62, 0x91, 0x95, 0xE4, 0x79],
   [0xE7, 0xC8, 0x37, 0x6D, 0x8D, 0xD5, 0x4E, 0xA9, 0x6C, 0x56, 0xF4, 0xEA, 0x65, 0x7A, 0xAE, 0x08],
   [0xBA, 0x78, 0x25, 0x2E, 0x1C, 0xA6, 0xB4, 0xC6, 0xE8, 0xDD, 0x74, 0x1F, 0x4B, 0xBD, 0x8B, 0x8A],
   [0x70, 0x3E, 0xB5, 0x66, 0x48, 0x03, 0xF6, 0x0E, 0x61, 0x35, 0x57, 0xB9, 0x86, 0xC1, 0x1D, 0x9E],
   [0xE1, 0xF8, 0x98, 0x11, 0x69, 0xD9, 0x8E, 0x94, 0x9B, 0x1E, 0x87, 0xE9, 0xCE, 0x55, 0x28, 0xDF],
   [0x8C, 0xA1, 0x89, 0x0D, 0xBF, 0xE6, 0x42, 0x68, 0x41, 0x99, 0x2D, 0x0F, 0xB0, 0x54, 0xBB, 0x16]]"

definition aes_invsbox :: "u8 list list" where
  "aes_invsbox =
  [[0x52, 0x09, 0x6A, 0xD5, 0x30, 0x36, 0xA5, 0x38, 0xBF, 0x40, 0xA3, 0x9E, 0x81, 0xF3, 0xD7, 0xFB],
   [0x7C, 0xE3, 0x39, 0x82, 0x9B, 0x2F, 0xFF, 0x87, 0x34, 0x8E, 0x43, 0x44, 0xC4, 0xDE, 0xE9, 0xCB],
   [0x54, 0x7B, 0x94, 0x32, 0xA6, 0xC2, 0x23, 0x3D, 0xEE, 0x4C, 0x95, 0x0B, 0x42, 0xFA, 0xC3, 0x4E],
   [0x08, 0x2E, 0xA1, 0x66, 0x28, 0xD9, 0x24, 0xB2, 0x76, 0x5B, 0xA2, 0x49, 0x6D, 0x8B, 0xD1, 0x25],
   [0x72, 0xF8, 0xF6, 0x64, 0x86, 0x68, 0x98, 0x16, 0xD4, 0xA4, 0x5C, 0xCC, 0x5D, 0x65, 0xB6, 0x92],
   [0x6C, 0x70, 0x48, 0x50, 0xFD, 0xED, 0xB9, 0xDA, 0x5E, 0x15, 0x46, 0x57, 0xA7, 0x8D, 0x9D, 0x84],
   [0x90, 0xD8, 0xAB, 0x00, 0x8C, 0xBC, 0xD3, 0x0A, 0xF7, 0xE4, 0x58, 0x05, 0xB8, 0xB3, 0x45, 0x06],
   [0xD0, 0x2C, 0x1E, 0x8F, 0xCA, 0x3F, 0x0F, 0x02, 0xC1, 0xAF, 0xBD, 0x03, 0x01, 0x13, 0x8A, 0x6B],
   [0x3A, 0x91, 0x11, 0x41, 0x4F, 0x67, 0xDC, 0xEA, 0x97, 0xF2, 0xCF, 0xCE, 0xF0, 0xB4, 0xE6, 0x73],
   [0x96, 0xAC, 0x74, 0x22, 0xE7, 0xAD, 0x35, 0x85, 0xE2, 0xF9, 0x37, 0xE8, 0x1C, 0x75, 0xDF, 0x6E],
   [0x47, 0xF1, 0x1A, 0x71, 0x1D, 0x29, 0xC5, 0x89, 0x6F, 0xB7, 0x62, 0x0E, 0xAA, 0x18, 0xBE, 0x1B],
   [0xFC, 0x56, 0x3E, 0x4B, 0xC6, 0xD2, 0x79, 0x20, 0x9A, 0xDB, 0xC0, 0xFE, 0x78, 0xCD, 0x5A, 0xF4],
   [0x1F, 0xDD, 0xA8, 0x33, 0x88, 0x07, 0xC7, 0x31, 0xB1, 0x12, 0x10, 0x59, 0x27, 0x80, 0xEC, 0x5F],
   [0x60, 0x51, 0x7F, 0xA9, 0x19, 0xB5, 0x4A, 0x0D, 0x2D, 0xE5, 0x7A, 0x9F, 0x93, 0xC9, 0x9C, 0xEF],
   [0xA0, 0xE0, 0x3B, 0x4D, 0xAE, 0x2A, 0xF5, 0xB0, 0xC8, 0xEB, 0xBB, 0x3C, 0x83, 0x53, 0x99, 0x61],
   [0x17, 0x2B, 0x04, 0x7E, 0xBA, 0x77, 0xD6, 0x26, 0xE1, 0x69, 0x14, 0x63, 0x55, 0x21, 0x0C, 0x7D]]"

text \<open>The lookups \<^verbatim>\<open>aes_sbox[x >> 4][x & 0x0F]\<close>, \<^verbatim>\<open>aes_invsbox[x >> 4][x & 0x0F]\<close> and \<^verbatim>\<open>gf_mul[x][k]\<close>.\<close>

definition aes_sub :: "u8 \<Rightarrow> u8" where
  "aes_sub x = aes_sbox ! unat (drop_bit 4 x) ! unat (x AND 0x0F)"

definition aes_rsub :: "u8 \<Rightarrow> u8" where
  "aes_rsub x = aes_invsbox ! unat (drop_bit 4 x) ! unat (x AND 0x0F)"

definition gf_mul :: "u8 list list" where
  "gf_mul =
  [[0x00, 0x00, 0x00, 0x00, 0x00, 0x00], [0x02, 0x03, 0x09, 0x0b, 0x0d, 0x0e],
   [0x04, 0x06, 0x12, 0x16, 0x1a, 0x1c], [0x06, 0x05, 0x1b, 0x1d, 0x17, 0x12],
   [0x08, 0x0c, 0x24, 0x2c, 0x34, 0x38], [0x0a, 0x0f, 0x2d, 0x27, 0x39, 0x36],
   [0x0c, 0x0a, 0x36, 0x3a, 0x2e, 0x24], [0x0e, 0x09, 0x3f, 0x31, 0x23, 0x2a],
   [0x10, 0x18, 0x48, 0x58, 0x68, 0x70], [0x12, 0x1b, 0x41, 0x53, 0x65, 0x7e],
   [0x14, 0x1e, 0x5a, 0x4e, 0x72, 0x6c], [0x16, 0x1d, 0x53, 0x45, 0x7f, 0x62],
   [0x18, 0x14, 0x6c, 0x74, 0x5c, 0x48], [0x1a, 0x17, 0x65, 0x7f, 0x51, 0x46],
   [0x1c, 0x12, 0x7e, 0x62, 0x46, 0x54], [0x1e, 0x11, 0x77, 0x69, 0x4b, 0x5a],
   [0x20, 0x30, 0x90, 0xb0, 0xd0, 0xe0], [0x22, 0x33, 0x99, 0xbb, 0xdd, 0xee],
   [0x24, 0x36, 0x82, 0xa6, 0xca, 0xfc], [0x26, 0x35, 0x8b, 0xad, 0xc7, 0xf2],
   [0x28, 0x3c, 0xb4, 0x9c, 0xe4, 0xd8], [0x2a, 0x3f, 0xbd, 0x97, 0xe9, 0xd6],
   [0x2c, 0x3a, 0xa6, 0x8a, 0xfe, 0xc4], [0x2e, 0x39, 0xaf, 0x81, 0xf3, 0xca],
   [0x30, 0x28, 0xd8, 0xe8, 0xb8, 0x90], [0x32, 0x2b, 0xd1, 0xe3, 0xb5, 0x9e],
   [0x34, 0x2e, 0xca, 0xfe, 0xa2, 0x8c], [0x36, 0x2d, 0xc3, 0xf5, 0xaf, 0x82],
   [0x38, 0x24, 0xfc, 0xc4, 0x8c, 0xa8], [0x3a, 0x27, 0xf5, 0xcf, 0x81, 0xa6],
   [0x3c, 0x22, 0xee, 0xd2, 0x96, 0xb4], [0x3e, 0x21, 0xe7, 0xd9, 0x9b, 0xba],
   [0x40, 0x60, 0x3b, 0x7b, 0xbb, 0xdb], [0x42, 0x63, 0x32, 0x70, 0xb6, 0xd5],
   [0x44, 0x66, 0x29, 0x6d, 0xa1, 0xc7], [0x46, 0x65, 0x20, 0x66, 0xac, 0xc9],
   [0x48, 0x6c, 0x1f, 0x57, 0x8f, 0xe3], [0x4a, 0x6f, 0x16, 0x5c, 0x82, 0xed],
   [0x4c, 0x6a, 0x0d, 0x41, 0x95, 0xff], [0x4e, 0x69, 0x04, 0x4a, 0x98, 0xf1],
   [0x50, 0x78, 0x73, 0x23, 0xd3, 0xab], [0x52, 0x7b, 0x7a, 0x28, 0xde, 0xa5],
   [0x54, 0x7e, 0x61, 0x35, 0xc9, 0xb7], [0x56, 0x7d, 0x68, 0x3e, 0xc4, 0xb9],
   [0x58, 0x74, 0x57, 0x0f, 0xe7, 0x93], [0x5a, 0x77, 0x5e, 0x04, 0xea, 0x9d],
   [0x5c, 0x72, 0x45, 0x19, 0xfd, 0x8f], [0x5e, 0x71, 0x4c, 0x12, 0xf0, 0x81],
   [0x60, 0x50, 0xab, 0xcb, 0x6b, 0x3b], [0x62, 0x53, 0xa2, 0xc0, 0x66, 0x35],
   [0x64, 0x56, 0xb9, 0xdd, 0x71, 0x27], [0x66, 0x55, 0xb0, 0xd6, 0x7c, 0x29],
   [0x68, 0x5c, 0x8f, 0xe7, 0x5f, 0x03], [0x6a, 0x5f, 0x86, 0xec, 0x52, 0x0d],
   [0x6c, 0x5a, 0x9d, 0xf1, 0x45, 0x1f], [0x6e, 0x59, 0x94, 0xfa, 0x48, 0x11],
   [0x70, 0x48, 0xe3, 0x93, 0x03, 0x4b], [0x72, 0x4b, 0xea, 0x98, 0x0e, 0x45],
   [0x74, 0x4e, 0xf1, 0x85, 0x19, 0x57], [0x76, 0x4d, 0xf8, 0x8e, 0x14, 0x59],
   [0x78, 0x44, 0xc7, 0xbf, 0x37, 0x73], [0x7a, 0x47, 0xce, 0xb4, 0x3a, 0x7d],
   [0x7c, 0x42, 0xd5, 0xa9, 0x2d, 0x6f], [0x7e, 0x41, 0xdc, 0xa2, 0x20, 0x61],
   [0x80, 0xc0, 0x76, 0xf6, 0x6d, 0xad], [0x82, 0xc3, 0x7f, 0xfd, 0x60, 0xa3],
   [0x84, 0xc6, 0x64, 0xe0, 0x77, 0xb1], [0x86, 0xc5, 0x6d, 0xeb, 0x7a, 0xbf],
   [0x88, 0xcc, 0x52, 0xda, 0x59, 0x95], [0x8a, 0xcf, 0x5b, 0xd1, 0x54, 0x9b],
   [0x8c, 0xca, 0x40, 0xcc, 0x43, 0x89], [0x8e, 0xc9, 0x49, 0xc7, 0x4e, 0x87],
   [0x90, 0xd8, 0x3e, 0xae, 0x05, 0xdd], [0x92, 0xdb, 0x37, 0xa5, 0x08, 0xd3],
   [0x94, 0xde, 0x2c, 0xb8, 0x1f, 0xc1], [0x96, 0xdd, 0x25, 0xb3, 0x12, 0xcf],
   [0x98, 0xd4, 0x1a, 0x82, 0x31, 0xe5], [0x9a, 0xd7, 0x13, 0x89, 0x3c, 0xeb],
   [0x9c, 0xd2, 0x08, 0x94, 0x2b, 0xf9], [0x9e, 0xd1, 0x01, 0x9f, 0x26, 0xf7],
   [0xa0, 0xf0, 0xe6, 0x46, 0xbd, 0x4d], [0xa2, 0xf3, 0xef, 0x4d, 0xb0, 0x43],
   [0xa4, 0xf6, 0xf4, 0x50, 0xa7, 0x51], [0xa6, 0xf5, 0xfd, 0x5b, 0xaa, 0x5f],
   [0xa8, 0xfc, 0xc2, 0x6a, 0x89, 0x75], [0xaa, 0xff, 0xcb, 0x61, 0x84, 0x7b],
   [0xac, 0xfa, 0xd0, 0x7c, 0x93, 0x69], [0xae, 0xf9, 0xd9, 0x77, 0x9e, 0x67],
   [0xb0, 0xe8, 0xae, 0x1e, 0xd5, 0x3d], [0xb2, 0xeb, 0xa7, 0x15, 0xd8, 0x33],
   [0xb4, 0xee, 0xbc, 0x08, 0xcf, 0x21], [0xb6, 0xed, 0xb5, 0x03, 0xc2, 0x2f],
   [0xb8, 0xe4, 0x8a, 0x32, 0xe1, 0x05], [0xba, 0xe7, 0x83, 0x39, 0xec, 0x0b],
   [0xbc, 0xe2, 0x98, 0x24, 0xfb, 0x19], [0xbe, 0xe1, 0x91, 0x2f, 0xf6, 0x17],
   [0xc0, 0xa0, 0x4d, 0x8d, 0xd6, 0x76], [0xc2, 0xa3, 0x44, 0x86, 0xdb, 0x78],
   [0xc4, 0xa6, 0x5f, 0x9b, 0xcc, 0x6a], [0xc6, 0xa5, 0x56, 0x90, 0xc1, 0x64],
   [0xc8, 0xac, 0x69, 0xa1, 0xe2, 0x4e], [0xca, 0xaf, 0x60, 0xaa, 0xef, 0x40],
   [0xcc, 0xaa, 0x7b, 0xb7, 0xf8, 0x52], [0xce, 0xa9, 0x72, 0xbc, 0xf5, 0x5c],
   [0xd0, 0xb8, 0x05, 0xd5, 0xbe, 0x06], [0xd2, 0xbb, 0x0c, 0xde, 0xb3, 0x08],
   [0xd4, 0xbe, 0x17, 0xc3, 0xa4, 0x1a], [0xd6, 0xbd, 0x1e, 0xc8, 0xa9, 0x14],
   [0xd8, 0xb4, 0x21, 0xf9, 0x8a, 0x3e], [0xda, 0xb7, 0x28, 0xf2, 0x87, 0x30],
   [0xdc, 0xb2, 0x33, 0xef, 0x90, 0x22], [0xde, 0xb1, 0x3a, 0xe4, 0x9d, 0x2c],
   [0xe0, 0x90, 0xdd, 0x3d, 0x06, 0x96], [0xe2, 0x93, 0xd4, 0x36, 0x0b, 0x98],
   [0xe4, 0x96, 0xcf, 0x2b, 0x1c, 0x8a], [0xe6, 0x95, 0xc6, 0x20, 0x11, 0x84],
   [0xe8, 0x9c, 0xf9, 0x11, 0x32, 0xae], [0xea, 0x9f, 0xf0, 0x1a, 0x3f, 0xa0],
   [0xec, 0x9a, 0xeb, 0x07, 0x28, 0xb2], [0xee, 0x99, 0xe2, 0x0c, 0x25, 0xbc],
   [0xf0, 0x88, 0x95, 0x65, 0x6e, 0xe6], [0xf2, 0x8b, 0x9c, 0x6e, 0x63, 0xe8],
   [0xf4, 0x8e, 0x87, 0x73, 0x74, 0xfa], [0xf6, 0x8d, 0x8e, 0x78, 0x79, 0xf4],
   [0xf8, 0x84, 0xb1, 0x49, 0x5a, 0xde], [0xfa, 0x87, 0xb8, 0x42, 0x57, 0xd0],
   [0xfc, 0x82, 0xa3, 0x5f, 0x40, 0xc2], [0xfe, 0x81, 0xaa, 0x54, 0x4d, 0xcc],
   [0x1b, 0x9b, 0xec, 0xf7, 0xda, 0x41], [0x19, 0x98, 0xe5, 0xfc, 0xd7, 0x4f],
   [0x1f, 0x9d, 0xfe, 0xe1, 0xc0, 0x5d], [0x1d, 0x9e, 0xf7, 0xea, 0xcd, 0x53],
   [0x13, 0x97, 0xc8, 0xdb, 0xee, 0x79], [0x11, 0x94, 0xc1, 0xd0, 0xe3, 0x77],
   [0x17, 0x91, 0xda, 0xcd, 0xf4, 0x65], [0x15, 0x92, 0xd3, 0xc6, 0xf9, 0x6b],
   [0x0b, 0x83, 0xa4, 0xaf, 0xb2, 0x31], [0x09, 0x80, 0xad, 0xa4, 0xbf, 0x3f],
   [0x0f, 0x85, 0xb6, 0xb9, 0xa8, 0x2d], [0x0d, 0x86, 0xbf, 0xb2, 0xa5, 0x23],
   [0x03, 0x8f, 0x80, 0x83, 0x86, 0x09], [0x01, 0x8c, 0x89, 0x88, 0x8b, 0x07],
   [0x07, 0x89, 0x92, 0x95, 0x9c, 0x15], [0x05, 0x8a, 0x9b, 0x9e, 0x91, 0x1b],
   [0x3b, 0xab, 0x7c, 0x47, 0x0a, 0xa1], [0x39, 0xa8, 0x75, 0x4c, 0x07, 0xaf],
   [0x3f, 0xad, 0x6e, 0x51, 0x10, 0xbd], [0x3d, 0xae, 0x67, 0x5a, 0x1d, 0xb3],
   [0x33, 0xa7, 0x58, 0x6b, 0x3e, 0x99], [0x31, 0xa4, 0x51, 0x60, 0x33, 0x97],
   [0x37, 0xa1, 0x4a, 0x7d, 0x24, 0x85], [0x35, 0xa2, 0x43, 0x76, 0x29, 0x8b],
   [0x2b, 0xb3, 0x34, 0x1f, 0x62, 0xd1], [0x29, 0xb0, 0x3d, 0x14, 0x6f, 0xdf],
   [0x2f, 0xb5, 0x26, 0x09, 0x78, 0xcd], [0x2d, 0xb6, 0x2f, 0x02, 0x75, 0xc3],
   [0x23, 0xbf, 0x10, 0x33, 0x56, 0xe9], [0x21, 0xbc, 0x19, 0x38, 0x5b, 0xe7],
   [0x27, 0xb9, 0x02, 0x25, 0x4c, 0xf5], [0x25, 0xba, 0x0b, 0x2e, 0x41, 0xfb],
   [0x5b, 0xfb, 0xd7, 0x8c, 0x61, 0x9a], [0x59, 0xf8, 0xde, 0x87, 0x6c, 0x94],
   [0x5f, 0xfd, 0xc5, 0x9a, 0x7b, 0x86], [0x5d, 0xfe, 0xcc, 0x91, 0x76, 0x88],
   [0x53, 0xf7, 0xf3, 0xa0, 0x55, 0xa2], [0x51, 0xf4, 0xfa, 0xab, 0x58, 0xac],
   [0x57, 0xf1, 0xe1, 0xb6, 0x4f, 0xbe], [0x55, 0xf2, 0xe8, 0xbd, 0x42, 0xb0],
   [0x4b, 0xe3, 0x9f, 0xd4, 0x09, 0xea], [0x49, 0xe0, 0x96, 0xdf, 0x04, 0xe4],
   [0x4f, 0xe5, 0x8d, 0xc2, 0x13, 0xf6], [0x4d, 0xe6, 0x84, 0xc9, 0x1e, 0xf8],
   [0x43, 0xef, 0xbb, 0xf8, 0x3d, 0xd2], [0x41, 0xec, 0xb2, 0xf3, 0x30, 0xdc],
   [0x47, 0xe9, 0xa9, 0xee, 0x27, 0xce], [0x45, 0xea, 0xa0, 0xe5, 0x2a, 0xc0],
   [0x7b, 0xcb, 0x47, 0x3c, 0xb1, 0x7a], [0x79, 0xc8, 0x4e, 0x37, 0xbc, 0x74],
   [0x7f, 0xcd, 0x55, 0x2a, 0xab, 0x66], [0x7d, 0xce, 0x5c, 0x21, 0xa6, 0x68],
   [0x73, 0xc7, 0x63, 0x10, 0x85, 0x42], [0x71, 0xc4, 0x6a, 0x1b, 0x88, 0x4c],
   [0x77, 0xc1, 0x71, 0x06, 0x9f, 0x5e], [0x75, 0xc2, 0x78, 0x0d, 0x92, 0x50],
   [0x6b, 0xd3, 0x0f, 0x64, 0xd9, 0x0a], [0x69, 0xd0, 0x06, 0x6f, 0xd4, 0x04],
   [0x6f, 0xd5, 0x1d, 0x72, 0xc3, 0x16], [0x6d, 0xd6, 0x14, 0x79, 0xce, 0x18],
   [0x63, 0xdf, 0x2b, 0x48, 0xed, 0x32], [0x61, 0xdc, 0x22, 0x43, 0xe0, 0x3c],
   [0x67, 0xd9, 0x39, 0x5e, 0xf7, 0x2e], [0x65, 0xda, 0x30, 0x55, 0xfa, 0x20],
   [0x9b, 0x5b, 0x9a, 0x01, 0xb7, 0xec], [0x99, 0x58, 0x93, 0x0a, 0xba, 0xe2],
   [0x9f, 0x5d, 0x88, 0x17, 0xad, 0xf0], [0x9d, 0x5e, 0x81, 0x1c, 0xa0, 0xfe],
   [0x93, 0x57, 0xbe, 0x2d, 0x83, 0xd4], [0x91, 0x54, 0xb7, 0x26, 0x8e, 0xda],
   [0x97, 0x51, 0xac, 0x3b, 0x99, 0xc8], [0x95, 0x52, 0xa5, 0x30, 0x94, 0xc6],
   [0x8b, 0x43, 0xd2, 0x59, 0xdf, 0x9c], [0x89, 0x40, 0xdb, 0x52, 0xd2, 0x92],
   [0x8f, 0x45, 0xc0, 0x4f, 0xc5, 0x80], [0x8d, 0x46, 0xc9, 0x44, 0xc8, 0x8e],
   [0x83, 0x4f, 0xf6, 0x75, 0xeb, 0xa4], [0x81, 0x4c, 0xff, 0x7e, 0xe6, 0xaa],
   [0x87, 0x49, 0xe4, 0x63, 0xf1, 0xb8], [0x85, 0x4a, 0xed, 0x68, 0xfc, 0xb6],
   [0xbb, 0x6b, 0x0a, 0xb1, 0x67, 0x0c], [0xb9, 0x68, 0x03, 0xba, 0x6a, 0x02],
   [0xbf, 0x6d, 0x18, 0xa7, 0x7d, 0x10], [0xbd, 0x6e, 0x11, 0xac, 0x70, 0x1e],
   [0xb3, 0x67, 0x2e, 0x9d, 0x53, 0x34], [0xb1, 0x64, 0x27, 0x96, 0x5e, 0x3a],
   [0xb7, 0x61, 0x3c, 0x8b, 0x49, 0x28], [0xb5, 0x62, 0x35, 0x80, 0x44, 0x26],
   [0xab, 0x73, 0x42, 0xe9, 0x0f, 0x7c], [0xa9, 0x70, 0x4b, 0xe2, 0x02, 0x72],
   [0xaf, 0x75, 0x50, 0xff, 0x15, 0x60], [0xad, 0x76, 0x59, 0xf4, 0x18, 0x6e],
   [0xa3, 0x7f, 0x66, 0xc5, 0x3b, 0x44], [0xa1, 0x7c, 0x6f, 0xce, 0x36, 0x4a],
   [0xa7, 0x79, 0x74, 0xd3, 0x21, 0x58], [0xa5, 0x7a, 0x7d, 0xd8, 0x2c, 0x56],
   [0xdb, 0x3b, 0xa1, 0x7a, 0x0c, 0x37], [0xd9, 0x38, 0xa8, 0x71, 0x01, 0x39],
   [0xdf, 0x3d, 0xb3, 0x6c, 0x16, 0x2b], [0xdd, 0x3e, 0xba, 0x67, 0x1b, 0x25],
   [0xd3, 0x37, 0x85, 0x56, 0x38, 0x0f], [0xd1, 0x34, 0x8c, 0x5d, 0x35, 0x01],
   [0xd7, 0x31, 0x97, 0x40, 0x22, 0x13], [0xd5, 0x32, 0x9e, 0x4b, 0x2f, 0x1d],
   [0xcb, 0x23, 0xe9, 0x22, 0x64, 0x47], [0xc9, 0x20, 0xe0, 0x29, 0x69, 0x49],
   [0xcf, 0x25, 0xfb, 0x34, 0x7e, 0x5b], [0xcd, 0x26, 0xf2, 0x3f, 0x73, 0x55],
   [0xc3, 0x2f, 0xcd, 0x0e, 0x50, 0x7f], [0xc1, 0x2c, 0xc4, 0x05, 0x5d, 0x71],
   [0xc7, 0x29, 0xdf, 0x18, 0x4a, 0x63], [0xc5, 0x2a, 0xd6, 0x13, 0x47, 0x6d],
   [0xfb, 0x0b, 0x31, 0xca, 0xdc, 0xd7], [0xf9, 0x08, 0x38, 0xc1, 0xd1, 0xd9],
   [0xff, 0x0d, 0x23, 0xdc, 0xc6, 0xcb], [0xfd, 0x0e, 0x2a, 0xd7, 0xcb, 0xc5],
   [0xf3, 0x07, 0x15, 0xe6, 0xe8, 0xef], [0xf1, 0x04, 0x1c, 0xed, 0xe5, 0xe1],
   [0xf7, 0x01, 0x07, 0xf0, 0xf2, 0xf3], [0xf5, 0x02, 0x0e, 0xfb, 0xff, 0xfd],
   [0xeb, 0x13, 0x79, 0x92, 0xb4, 0xa7], [0xe9, 0x10, 0x70, 0x99, 0xb9, 0xa9],
   [0xef, 0x15, 0x6b, 0x84, 0xae, 0xbb], [0xed, 0x16, 0x62, 0x8f, 0xa3, 0xb5],
   [0xe3, 0x1f, 0x5d, 0xbe, 0x80, 0x9f], [0xe1, 0x1c, 0x54, 0xb5, 0x8d, 0x91],
   [0xe7, 0x19, 0x4f, 0xa8, 0x9a, 0x83], [0xe5, 0x1a, 0x46, 0xa3, 0x97, 0x8d]]"

definition gf :: "u8 \<Rightarrow> nat \<Rightarrow> u8" where
  "gf x k = gf_mul ! unat x ! k"

section \<open>Transformations of the matrix\<close>

definition AddRoundKey :: "u8 list list \<Rightarrow> u32 list \<Rightarrow> u8 list list" where
  "AddRoundKey state w =
     (let subkey = [ucast (drop_bit 24 (w ! 0)), ucast (drop_bit 16 (w ! 0)), ucast (drop_bit 8 (w ! 0)), ucast (w ! 0)];
          state = state[0 := (state ! 0)[0 := state ! 0 ! 0 XOR subkey ! 0]];
          state = state[1 := (state ! 1)[0 := state ! 1 ! 0 XOR subkey ! 1]];
          state = state[2 := (state ! 2)[0 := state ! 2 ! 0 XOR subkey ! 2]];
          state = state[3 := (state ! 3)[0 := state ! 3 ! 0 XOR subkey ! 3]];
          subkey = [ucast (drop_bit 24 (w ! 1)), ucast (drop_bit 16 (w ! 1)), ucast (drop_bit 8 (w ! 1)), ucast (w ! 1)];
          state = state[0 := (state ! 0)[1 := state ! 0 ! 1 XOR subkey ! 0]];
          state = state[1 := (state ! 1)[1 := state ! 1 ! 1 XOR subkey ! 1]];
          state = state[2 := (state ! 2)[1 := state ! 2 ! 1 XOR subkey ! 2]];
          state = state[3 := (state ! 3)[1 := state ! 3 ! 1 XOR subkey ! 3]];
          subkey = [ucast (drop_bit 24 (w ! 2)), ucast (drop_bit 16 (w ! 2)), ucast (drop_bit 8 (w ! 2)), ucast (w ! 2)];
          state = state[0 := (state ! 0)[2 := state ! 0 ! 2 XOR subkey ! 0]];
          state = state[1 := (state ! 1)[2 := state ! 1 ! 2 XOR subkey ! 1]];
          state = state[2 := (state ! 2)[2 := state ! 2 ! 2 XOR subkey ! 2]];
          state = state[3 := (state ! 3)[2 := state ! 3 ! 2 XOR subkey ! 3]];
          subkey = [ucast (drop_bit 24 (w ! 3)), ucast (drop_bit 16 (w ! 3)), ucast (drop_bit 8 (w ! 3)), ucast (w ! 3)];
          state = state[0 := (state ! 0)[3 := state ! 0 ! 3 XOR subkey ! 0]];
          state = state[1 := (state ! 1)[3 := state ! 1 ! 3 XOR subkey ! 1]];
          state = state[2 := (state ! 2)[3 := state ! 2 ! 3 XOR subkey ! 2]];
          state = state[3 := (state ! 3)[3 := state ! 3 ! 3 XOR subkey ! 3]]
      in state)"

definition SubBytes :: "u8 list list \<Rightarrow> u8 list list" where
  "SubBytes state =
     (let state = state[0 := (state ! 0)[0 := aes_sub (state ! 0 ! 0)]];
          state = state[0 := (state ! 0)[1 := aes_sub (state ! 0 ! 1)]];
          state = state[0 := (state ! 0)[2 := aes_sub (state ! 0 ! 2)]];
          state = state[0 := (state ! 0)[3 := aes_sub (state ! 0 ! 3)]];
          state = state[1 := (state ! 1)[0 := aes_sub (state ! 1 ! 0)]];
          state = state[1 := (state ! 1)[1 := aes_sub (state ! 1 ! 1)]];
          state = state[1 := (state ! 1)[2 := aes_sub (state ! 1 ! 2)]];
          state = state[1 := (state ! 1)[3 := aes_sub (state ! 1 ! 3)]];
          state = state[2 := (state ! 2)[0 := aes_sub (state ! 2 ! 0)]];
          state = state[2 := (state ! 2)[1 := aes_sub (state ! 2 ! 1)]];
          state = state[2 := (state ! 2)[2 := aes_sub (state ! 2 ! 2)]];
          state = state[2 := (state ! 2)[3 := aes_sub (state ! 2 ! 3)]];
          state = state[3 := (state ! 3)[0 := aes_sub (state ! 3 ! 0)]];
          state = state[3 := (state ! 3)[1 := aes_sub (state ! 3 ! 1)]];
          state = state[3 := (state ! 3)[2 := aes_sub (state ! 3 ! 2)]];
          state = state[3 := (state ! 3)[3 := aes_sub (state ! 3 ! 3)]]
      in state)"

definition InvSubBytes :: "u8 list list \<Rightarrow> u8 list list" where
  "InvSubBytes state =
     (let state = state[0 := (state ! 0)[0 := aes_rsub (state ! 0 ! 0)]];
          state = state[0 := (state ! 0)[1 := aes_rsub (state ! 0 ! 1)]];
          state = state[0 := (state ! 0)[2 := aes_rsub (state ! 0 ! 2)]];
          state = state[0 := (state ! 0)[3 := aes_rsub (state ! 0 ! 3)]];
          state = state[1 := (state ! 1)[0 := aes_rsub (state ! 1 ! 0)]];
          state = state[1 := (state ! 1)[1 := aes_rsub (state ! 1 ! 1)]];
          state = state[1 := (state ! 1)[2 := aes_rsub (state ! 1 ! 2)]];
          state = state[1 := (state ! 1)[3 := aes_rsub (state ! 1 ! 3)]];
          state = state[2 := (state ! 2)[0 := aes_rsub (state ! 2 ! 0)]];
          state = state[2 := (state ! 2)[1 := aes_rsub (state ! 2 ! 1)]];
          state = state[2 := (state ! 2)[2 := aes_rsub (state ! 2 ! 2)]];
          state = state[2 := (state ! 2)[3 := aes_rsub (state ! 2 ! 3)]];
          state = state[3 := (state ! 3)[0 := aes_rsub (state ! 3 ! 0)]];
          state = state[3 := (state ! 3)[1 := aes_rsub (state ! 3 ! 1)]];
          state = state[3 := (state ! 3)[2 := aes_rsub (state ! 3 ! 2)]];
          state = state[3 := (state ! 3)[3 := aes_rsub (state ! 3 ! 3)]]
      in state)"

definition ShiftRows :: "u8 list list \<Rightarrow> u8 list list" where
  "ShiftRows state =
     (let t = state ! 1 ! 0;
          state = state[1 := (state ! 1)[0 := state ! 1 ! 1]];
          state = state[1 := (state ! 1)[1 := state ! 1 ! 2]];
          state = state[1 := (state ! 1)[2 := state ! 1 ! 3]];
          state = state[1 := (state ! 1)[3 := t]];
          t = state ! 2 ! 0;
          state = state[2 := (state ! 2)[0 := state ! 2 ! 2]];
          state = state[2 := (state ! 2)[2 := t]];
          t = state ! 2 ! 1;
          state = state[2 := (state ! 2)[1 := state ! 2 ! 3]];
          state = state[2 := (state ! 2)[3 := t]];
          t = state ! 3 ! 0;
          state = state[3 := (state ! 3)[0 := state ! 3 ! 3]];
          state = state[3 := (state ! 3)[3 := state ! 3 ! 2]];
          state = state[3 := (state ! 3)[2 := state ! 3 ! 1]];
          state = state[3 := (state ! 3)[1 := t]]
      in state)"

definition InvShiftRows :: "u8 list list \<Rightarrow> u8 list list" where
  "InvShiftRows state =
     (let t = state ! 1 ! 3;
          state = state[1 := (state ! 1)[3 := state ! 1 ! 2]];
          state = state[1 := (state ! 1)[2 := state ! 1 ! 1]];
          state = state[1 := (state ! 1)[1 := state ! 1 ! 0]];
          state = state[1 := (state ! 1)[0 := t]];
          t = state ! 2 ! 3;
          state = state[2 := (state ! 2)[3 := state ! 2 ! 1]];
          state = state[2 := (state ! 2)[1 := t]];
          t = state ! 2 ! 2;
          state = state[2 := (state ! 2)[2 := state ! 2 ! 0]];
          state = state[2 := (state ! 2)[0 := t]];
          t = state ! 3 ! 3;
          state = state[3 := (state ! 3)[3 := state ! 3 ! 0]];
          state = state[3 := (state ! 3)[0 := state ! 3 ! 1]];
          state = state[3 := (state ! 3)[1 := state ! 3 ! 2]];
          state = state[3 := (state ! 3)[2 := t]]
      in state)"

definition MixColumns :: "u8 list list \<Rightarrow> u8 list list" where
  "MixColumns state =
     (let col = [state ! 0 ! 0, state ! 1 ! 0, state ! 2 ! 0, state ! 3 ! 0];
          state = state[0 := (state ! 0)[0 := gf (col ! 0) 0]];
          state = state[0 := (state ! 0)[0 := state ! 0 ! 0 XOR gf (col ! 1) 1]];
          state = state[0 := (state ! 0)[0 := state ! 0 ! 0 XOR col ! 2]];
          state = state[0 := (state ! 0)[0 := state ! 0 ! 0 XOR col ! 3]];
          state = state[1 := (state ! 1)[0 := col ! 0]];
          state = state[1 := (state ! 1)[0 := state ! 1 ! 0 XOR gf (col ! 1) 0]];
          state = state[1 := (state ! 1)[0 := state ! 1 ! 0 XOR gf (col ! 2) 1]];
          state = state[1 := (state ! 1)[0 := state ! 1 ! 0 XOR col ! 3]];
          state = state[2 := (state ! 2)[0 := col ! 0]];
          state = state[2 := (state ! 2)[0 := state ! 2 ! 0 XOR col ! 1]];
          state = state[2 := (state ! 2)[0 := state ! 2 ! 0 XOR gf (col ! 2) 0]];
          state = state[2 := (state ! 2)[0 := state ! 2 ! 0 XOR gf (col ! 3) 1]];
          state = state[3 := (state ! 3)[0 := gf (col ! 0) 1]];
          state = state[3 := (state ! 3)[0 := state ! 3 ! 0 XOR col ! 1]];
          state = state[3 := (state ! 3)[0 := state ! 3 ! 0 XOR col ! 2]];
          state = state[3 := (state ! 3)[0 := state ! 3 ! 0 XOR gf (col ! 3) 0]];
          col = [state ! 0 ! 1, state ! 1 ! 1, state ! 2 ! 1, state ! 3 ! 1];
          state = state[0 := (state ! 0)[1 := gf (col ! 0) 0]];
          state = state[0 := (state ! 0)[1 := state ! 0 ! 1 XOR gf (col ! 1) 1]];
          state = state[0 := (state ! 0)[1 := state ! 0 ! 1 XOR col ! 2]];
          state = state[0 := (state ! 0)[1 := state ! 0 ! 1 XOR col ! 3]];
          state = state[1 := (state ! 1)[1 := col ! 0]];
          state = state[1 := (state ! 1)[1 := state ! 1 ! 1 XOR gf (col ! 1) 0]];
          state = state[1 := (state ! 1)[1 := state ! 1 ! 1 XOR gf (col ! 2) 1]];
          state = state[1 := (state ! 1)[1 := state ! 1 ! 1 XOR col ! 3]];
          state = state[2 := (state ! 2)[1 := col ! 0]];
          state = state[2 := (state ! 2)[1 := state ! 2 ! 1 XOR col ! 1]];
          state = state[2 := (state ! 2)[1 := state ! 2 ! 1 XOR gf (col ! 2) 0]];
          state = state[2 := (state ! 2)[1 := state ! 2 ! 1 XOR gf (col ! 3) 1]];
          state = state[3 := (state ! 3)[1 := gf (col ! 0) 1]];
          state = state[3 := (state ! 3)[1 := state ! 3 ! 1 XOR col ! 1]];
          state = state[3 := (state ! 3)[1 := state ! 3 ! 1 XOR col ! 2]];
          state = state[3 := (state ! 3)[1 := state ! 3 ! 1 XOR gf (col ! 3) 0]];
          col = [state ! 0 ! 2, state ! 1 ! 2, state ! 2 ! 2, state ! 3 ! 2];
          state = state[0 := (state ! 0)[2 := gf (col ! 0) 0]];
          state = state[0 := (state ! 0)[2 := state ! 0 ! 2 XOR gf (col ! 1) 1]];
          state = state[0 := (state ! 0)[2 := state ! 0 ! 2 XOR col ! 2]];
          state = state[0 := (state ! 0)[2 := state ! 0 ! 2 XOR col ! 3]];
          state = state[1 := (state ! 1)[2 := col ! 0]];
          state = state[1 := (state ! 1)[2 := state ! 1 ! 2 XOR gf (col ! 1) 0]];
          state = state[1 := (state ! 1)[2 := state ! 1 ! 2 XOR gf (col ! 2) 1]];
          state = state[1 := (state ! 1)[2 := state ! 1 ! 2 XOR col ! 3]];
          state = state[2 := (state ! 2)[2 := col ! 0]];
          state = state[2 := (state ! 2)[2 := state ! 2 ! 2 XOR col ! 1]];
          state = state[2 := (state ! 2)[2 := state ! 2 ! 2 XOR gf (col ! 2) 0]];
          state = state[2 := (state ! 2)[2 := state ! 2 ! 2 XOR gf (col ! 3) 1]];
          state = state[3 := (state ! 3)[2 := gf (col ! 0) 1]];
          state = state[3 := (state ! 3)[2 := state ! 3 ! 2 XOR col ! 1]];
          state = state[3 := (state ! 3)[2 := state ! 3 ! 2 XOR col ! 2]];
          state = state[3 := (state ! 3)[2 := state ! 3 ! 2 XOR gf (col ! 3) 0]];
          col = [state ! 0 ! 3, state ! 1 ! 3, state ! 2 ! 3, state ! 3 ! 3];
          state = state[0 := (state ! 0)[3 := gf (col ! 0) 0]];
          state = state[0 := (state ! 0)[3 := state ! 0 ! 3 XOR gf (col ! 1) 1]];
          state = state[0 := (state ! 0)[3 := state ! 0 ! 3 XOR col ! 2]];
          state = state[0 := (state ! 0)[3 := state ! 0 ! 3 XOR col ! 3]];
          state = state[1 := (state ! 1)[3 := col ! 0]];
          state = state[1 := (state ! 1)[3 := state ! 1 ! 3 XOR gf (col ! 1) 0]];
          state = state[1 := (state ! 1)[3 := state ! 1 ! 3 XOR gf (col ! 2) 1]];
          state = state[1 := (state ! 1)[3 := state ! 1 ! 3 XOR col ! 3]];
          state = state[2 := (state ! 2)[3 := col ! 0]];
          state = state[2 := (state ! 2)[3 := state ! 2 ! 3 XOR col ! 1]];
          state = state[2 := (state ! 2)[3 := state ! 2 ! 3 XOR gf (col ! 2) 0]];
          state = state[2 := (state ! 2)[3 := state ! 2 ! 3 XOR gf (col ! 3) 1]];
          state = state[3 := (state ! 3)[3 := gf (col ! 0) 1]];
          state = state[3 := (state ! 3)[3 := state ! 3 ! 3 XOR col ! 1]];
          state = state[3 := (state ! 3)[3 := state ! 3 ! 3 XOR col ! 2]];
          state = state[3 := (state ! 3)[3 := state ! 3 ! 3 XOR gf (col ! 3) 0]]
      in state)"

definition InvMixColumns :: "u8 list list \<Rightarrow> u8 list list" where
  "InvMixColumns state =
     (let col = [state ! 0 ! 0, state ! 1 ! 0, state ! 2 ! 0, state ! 3 ! 0];
          state = state[0 := (state ! 0)[0 := gf (col ! 0) 5]];
          state = state[0 := (state ! 0)[0 := state ! 0 ! 0 XOR gf (col ! 1) 3]];
          state = state[0 := (state ! 0)[0 := state ! 0 ! 0 XOR gf (col ! 2) 4]];
          state = state[0 := (state ! 0)[0 := state ! 0 ! 0 XOR gf (col ! 3) 2]];
          state = state[1 := (state ! 1)[0 := gf (col ! 0) 2]];
          state = state[1 := (state ! 1)[0 := state ! 1 ! 0 XOR gf (col ! 1) 5]];
          state = state[1 := (state ! 1)[0 := state ! 1 ! 0 XOR gf (col ! 2) 3]];
          state = state[1 := (state ! 1)[0 := state ! 1 ! 0 XOR gf (col ! 3) 4]];
          state = state[2 := (state ! 2)[0 := gf (col ! 0) 4]];
          state = state[2 := (state ! 2)[0 := state ! 2 ! 0 XOR gf (col ! 1) 2]];
          state = state[2 := (state ! 2)[0 := state ! 2 ! 0 XOR gf (col ! 2) 5]];
          state = state[2 := (state ! 2)[0 := state ! 2 ! 0 XOR gf (col ! 3) 3]];
          state = state[3 := (state ! 3)[0 := gf (col ! 0) 3]];
          state = state[3 := (state ! 3)[0 := state ! 3 ! 0 XOR gf (col ! 1) 4]];
          state = state[3 := (state ! 3)[0 := state ! 3 ! 0 XOR gf (col ! 2) 2]];
          state = state[3 := (state ! 3)[0 := state ! 3 ! 0 XOR gf (col ! 3) 5]];
          col = [state ! 0 ! 1, state ! 1 ! 1, state ! 2 ! 1, state ! 3 ! 1];
          state = state[0 := (state ! 0)[1 := gf (col ! 0) 5]];
          state = state[0 := (state ! 0)[1 := state ! 0 ! 1 XOR gf (col ! 1) 3]];
          state = state[0 := (state ! 0)[1 := state ! 0 ! 1 XOR gf (col ! 2) 4]];
          state = state[0 := (state ! 0)[1 := state ! 0 ! 1 XOR gf (col ! 3) 2]];
          state = state[1 := (state ! 1)[1 := gf (col ! 0) 2]];
          state = state[1 := (state ! 1)[1 := state ! 1 ! 1 XOR gf (col ! 1) 5]];
          state = state[1 := (state ! 1)[1 := state ! 1 ! 1 XOR gf (col ! 2) 3]];
          state = state[1 := (state ! 1)[1 := state ! 1 ! 1 XOR gf (col ! 3) 4]];
          state = state[2 := (state ! 2)[1 := gf (col ! 0) 4]];
          state = state[2 := (state ! 2)[1 := state ! 2 ! 1 XOR gf (col ! 1) 2]];
          state = state[2 := (state ! 2)[1 := state ! 2 ! 1 XOR gf (col ! 2) 5]];
          state = state[2 := (state ! 2)[1 := state ! 2 ! 1 XOR gf (col ! 3) 3]];
          state = state[3 := (state ! 3)[1 := gf (col ! 0) 3]];
          state = state[3 := (state ! 3)[1 := state ! 3 ! 1 XOR gf (col ! 1) 4]];
          state = state[3 := (state ! 3)[1 := state ! 3 ! 1 XOR gf (col ! 2) 2]];
          state = state[3 := (state ! 3)[1 := state ! 3 ! 1 XOR gf (col ! 3) 5]];
          col = [state ! 0 ! 2, state ! 1 ! 2, state ! 2 ! 2, state ! 3 ! 2];
          state = state[0 := (state ! 0)[2 := gf (col ! 0) 5]];
          state = state[0 := (state ! 0)[2 := state ! 0 ! 2 XOR gf (col ! 1) 3]];
          state = state[0 := (state ! 0)[2 := state ! 0 ! 2 XOR gf (col ! 2) 4]];
          state = state[0 := (state ! 0)[2 := state ! 0 ! 2 XOR gf (col ! 3) 2]];
          state = state[1 := (state ! 1)[2 := gf (col ! 0) 2]];
          state = state[1 := (state ! 1)[2 := state ! 1 ! 2 XOR gf (col ! 1) 5]];
          state = state[1 := (state ! 1)[2 := state ! 1 ! 2 XOR gf (col ! 2) 3]];
          state = state[1 := (state ! 1)[2 := state ! 1 ! 2 XOR gf (col ! 3) 4]];
          state = state[2 := (state ! 2)[2 := gf (col ! 0) 4]];
          state = state[2 := (state ! 2)[2 := state ! 2 ! 2 XOR gf (col ! 1) 2]];
          state = state[2 := (state ! 2)[2 := state ! 2 ! 2 XOR gf (col ! 2) 5]];
          state = state[2 := (state ! 2)[2 := state ! 2 ! 2 XOR gf (col ! 3) 3]];
          state = state[3 := (state ! 3)[2 := gf (col ! 0) 3]];
          state = state[3 := (state ! 3)[2 := state ! 3 ! 2 XOR gf (col ! 1) 4]];
          state = state[3 := (state ! 3)[2 := state ! 3 ! 2 XOR gf (col ! 2) 2]];
          state = state[3 := (state ! 3)[2 := state ! 3 ! 2 XOR gf (col ! 3) 5]];
          col = [state ! 0 ! 3, state ! 1 ! 3, state ! 2 ! 3, state ! 3 ! 3];
          state = state[0 := (state ! 0)[3 := gf (col ! 0) 5]];
          state = state[0 := (state ! 0)[3 := state ! 0 ! 3 XOR gf (col ! 1) 3]];
          state = state[0 := (state ! 0)[3 := state ! 0 ! 3 XOR gf (col ! 2) 4]];
          state = state[0 := (state ! 0)[3 := state ! 0 ! 3 XOR gf (col ! 3) 2]];
          state = state[1 := (state ! 1)[3 := gf (col ! 0) 2]];
          state = state[1 := (state ! 1)[3 := state ! 1 ! 3 XOR gf (col ! 1) 5]];
          state = state[1 := (state ! 1)[3 := state ! 1 ! 3 XOR gf (col ! 2) 3]];
          state = state[1 := (state ! 1)[3 := state ! 1 ! 3 XOR gf (col ! 3) 4]];
          state = state[2 := (state ! 2)[3 := gf (col ! 0) 4]];
          state = state[2 := (state ! 2)[3 := state ! 2 ! 3 XOR gf (col ! 1) 2]];
          state = state[2 := (state ! 2)[3 := state ! 2 ! 3 XOR gf (col ! 2) 5]];
          state = state[2 := (state ! 2)[3 := state ! 2 ! 3 XOR gf (col ! 3) 3]];
          state = state[3 := (state ! 3)[3 := gf (col ! 0) 3]];
          state = state[3 := (state ! 3)[3 := state ! 3 ! 3 XOR gf (col ! 1) 4]];
          state = state[3 := (state ! 3)[3 := state ! 3 ! 3 XOR gf (col ! 2) 2]];
          state = state[3 := (state ! 3)[3 := state ! 3 ! 3 XOR gf (col ! 3) 5]]
      in state)"

section \<open>The block cipher\<close>

definition to_state :: "u8 list \<Rightarrow> u8 list list" where
  "to_state inp =
     [[inp ! 0, inp ! 4, inp ! 8, inp ! 12], [inp ! 1, inp ! 5, inp ! 9, inp ! 13],
      [inp ! 2, inp ! 6, inp ! 10, inp ! 14], [inp ! 3, inp ! 7, inp ! 11, inp ! 15]]"

definition from_state :: "u8 list list \<Rightarrow> u8 list" where
  "from_state state =
     [state ! 0 ! 0, state ! 1 ! 0, state ! 2 ! 0, state ! 3 ! 0,
      state ! 0 ! 1, state ! 1 ! 1, state ! 2 ! 1, state ! 3 ! 1,
      state ! 0 ! 2, state ! 1 ! 2, state ! 2 ! 2, state ! 3 ! 2,
      state ! 0 ! 3, state ! 1 ! 3, state ! 2 ! 3, state ! 3 ! 3]"

text \<open>A line of four calls; \<open>drop i key\<close> is \<^verbatim>\<open>&key[i]\<close>.\<close>

definition enc_line :: "u32 list \<Rightarrow> u8 list list \<Rightarrow> nat \<Rightarrow> u8 list list" where
  "enc_line key state i = AddRoundKey (MixColumns (ShiftRows (SubBytes state))) (drop i key)"

definition dec_line :: "u32 list \<Rightarrow> u8 list list \<Rightarrow> nat \<Rightarrow> u8 list list" where
  "dec_line key state i = InvMixColumns (AddRoundKey (InvSubBytes (InvShiftRows state)) (drop i key))"

definition aes_encrypt :: "u8 list \<Rightarrow> u32 list \<Rightarrow> int \<Rightarrow> u8 list" where
  "aes_encrypt inp key keysize =
     (let state = to_state inp;
          state = AddRoundKey state (drop 0 key);
          state = foldl (enc_line key) state [4, 8, 12, 16, 20, 24, 28, 32, 36];
          state = (if keysize \<noteq> 128
                   then AddRoundKey (ShiftRows (SubBytes
                          (foldl (enc_line key) state [40, 44, 48, 52]))) (drop 56 key)
                   else AddRoundKey (ShiftRows (SubBytes state)) (drop 40 key))
      in from_state state)"

definition aes_decrypt :: "u8 list \<Rightarrow> u32 list \<Rightarrow> int \<Rightarrow> u8 list" where
  "aes_decrypt inp key keysize =
     (let state = to_state inp;
          state = (if keysize \<noteq> 128
                   then foldl (dec_line key) (AddRoundKey state (drop 56 key)) [52, 48, 44, 40]
                   else AddRoundKey state (drop 40 key));
          state = foldl (dec_line key) state [36, 32, 28, 24, 20, 16, 12, 8, 4];
          state = AddRoundKey (InvSubBytes (InvShiftRows state)) (drop 0 key)
      in from_state state)"

section \<open>Key setup\<close>

definition KE_ROTWORD :: "u32 \<Rightarrow> u32" where
  "KE_ROTWORD x = push_bit 8 x OR drop_bit 24 x"

definition SubWord :: "u32 \<Rightarrow> u32" where
  "SubWord w =
     (let look = (\<lambda>hi lo. ucast (aes_sbox ! unat (drop_bit hi w AND 0xF) ! unat (drop_bit lo w AND 0xF)) :: u32);
          result = look 4 0;
          result = result + push_bit 8 (look 12 8);
          result = result + push_bit 16 (look 20 16);
          result = result + push_bit 24 (look 28 24)
      in result)"

definition key_Rcon :: "u32 list" where
  "key_Rcon = [0x01000000, 0x02000000, 0x04000000, 0x08000000, 0x10000000, 0x20000000,
     0x40000000, 0x80000000, 0x1b000000, 0x36000000, 0x6c000000, 0xd8000000,
     0xab000000, 0x4d000000, 0x9a000000]"

definition key_load :: "u8 list \<Rightarrow> u32 list \<Rightarrow> nat \<Rightarrow> u32 list" where
  "key_load key w idx =
     w[idx := push_bit 24 (ucast (key ! (4 * idx))) OR push_bit 16 (ucast (key ! (4 * idx + 1)))
              OR push_bit 8 (ucast (key ! (4 * idx + 2))) OR ucast (key ! (4 * idx + 3))]"

definition key_step :: "nat \<Rightarrow> u32 list \<Rightarrow> nat \<Rightarrow> u32 list" where
  "key_step Nk w idx =
     (let temp = w ! (idx - 1);
          temp = (if idx mod Nk = 0 then SubWord (KE_ROTWORD temp) XOR key_Rcon ! ((idx - 1) div Nk)
                  else if Nk > 6 \<and> idx mod Nk = 4 then SubWord temp
                  else temp)
      in w[idx := w ! (idx - Nk) XOR temp])"

text \<open>A key size that is neither 128 nor 256 leaves the schedule as it was.\<close>

definition aes_key_setup :: "u8 list \<Rightarrow> u32 list \<Rightarrow> int \<Rightarrow> u32 list" where
  "aes_key_setup key w keysize =
     (let setup = (\<lambda>Nr Nk. foldl (key_step Nk) (foldl (key_load key) w [0..<Nk]) [Nk..<4 * (Nr + 1)])
      in if keysize = 128 then setup 10 4 else if keysize = 256 then setup 14 8 else w)"

section \<open>The tables are those of the standard\<close>

lemma concat_index:
  "i < length xss \<Longrightarrow> (\<And>xs. xs \<in> set xss \<Longrightarrow> length xs = 16) \<Longrightarrow> j < 16 \<Longrightarrow>
     xss ! i ! j = concat xss ! (16 * i + j)"
proof (induction xss arbitrary: i)
  case (Cons xs xss)
  then show ?case
    by (cases i) (auto simp: nth_append)
qed simp

lemma nibbles:
  "unat (drop_bit 4 (x :: u8)) < 16" "unat (x AND 0xF) < 16" "16 * unat (drop_bit 4 x) + unat (x AND 0xF) = unat x"
proof -
  have m: "x AND 0xF = take_bit 4 x" by (simp add: take_bit_eq_mask mask_numeral)
  have d: "unat (drop_bit 4 x) = unat x div 16" by (subst unsigned_drop_bit_eq) (simp add: drop_bit_eq_div take_bit_eq_mod)
  have t: "unat (x AND 0xF) = unat x mod 16" unfolding m by (subst unsigned_take_bit_eq) (simp add: take_bit_eq_mod)
  show "unat (drop_bit 4 x) < 16" using d unat_u8_less [of x] by linarith
  show "unat (x AND 0xF) < 16" using t by simp
  show "16 * unat (drop_bit 4 x) + unat (x AND 0xF) = unat x" using d t by simp
qed

lemma aes_sub_eq: "aes_sub = sub" "aes_rsub = rsub"
proof -
  have "concat aes_sbox = sbox" "concat aes_invsbox = rsbox" "length aes_sbox = 16" "length aes_invsbox = 16"
    "\<And>xs. xs \<in> set aes_sbox \<Longrightarrow> length xs = 16" "\<And>xs. xs \<in> set aes_invsbox \<Longrightarrow> length xs = 16"
    by (auto simp: aes_sbox_def sbox_def aes_invsbox_def rsbox_def)
  then show "aes_sub = sub" "aes_rsub = rsub"
    using nibbles by (auto simp: fun_eq_iff aes_sub_def sub_def aes_rsub_def rsub_def concat_index)
qed

lemma gf_mul_table:
  "map (\<lambda>n. map (\<lambda>c. gmul (of_nat n) c) [2, 3, 9, 0xb, 0xd, 0xe]) [0..<256] = gf_mul"
  unfolding gf_mul_def list.map gmul_coeffs
  by (simp add: upt_eval xtime_eval)

section \<open>The transformations are those of the standard\<close>

lemma gf_gmul:
  assumes "k < 6"
  shows "gf b k = gmul b ([2, 3, 9, 0xb, 0xd, 0xe] ! k)"
proof -
  have "gf_mul ! unat b = map (\<lambda>c. gmul b c) [2, 3, 9, 0xb, 0xd, 0xe]"
    unfolding gf_mul_table [symmetric] by (simp del: upt_rec_numeral list.map(2))
  then show ?thesis using assms by (simp add: gf_def del: list.map(2))
qed

lemma gf_columns:
  "gf b 0 = gmul b 2" "gf b (Suc 0) = gmul b 3" "gf b 2 = gmul b 9"
  "gf b 3 = gmul b 0xb" "gf b 4 = gmul b 0xd" "gf b 5 = gmul b 0xe"
  by (simp_all add: gf_gmul)

lemma from_to_state [simp]: "length s = 16 \<Longrightarrow> from_state (to_state s) = s"
  by (auto simp: length16_conv from_state_def to_state_def)

lemma SubBytes_fips: "length s = 16 \<Longrightarrow> SubBytes (to_state s) = to_state (fips_SubBytes s)"
  unfolding length16_conv
  by (elim exE, hypsubst) (simp add: SubBytes_def to_state_def fips_SubBytes_def aes_sub_eq Let_def cong: let_weak_cong)

lemma InvSubBytes_fips: "length s = 16 \<Longrightarrow> InvSubBytes (to_state s) = to_state (fips_InvSubBytes s)"
  unfolding length16_conv
  by (elim exE, hypsubst) (simp add: InvSubBytes_def to_state_def fips_InvSubBytes_def aes_sub_eq Let_def cong: let_weak_cong)

lemma ShiftRows_fips: "length s = 16 \<Longrightarrow> ShiftRows (to_state s) = to_state (fips_ShiftRows s)"
  unfolding length16_conv
  by (elim exE, hypsubst) (simp add: ShiftRows_def to_state_def fips_ShiftRows_def upt_eval Let_def cong: let_weak_cong)

lemma InvShiftRows_fips: "length s = 16 \<Longrightarrow> InvShiftRows (to_state s) = to_state (fips_InvShiftRows s)"
  unfolding length16_conv
  by (elim exE, hypsubst) (simp add: InvShiftRows_def to_state_def fips_InvShiftRows_def upt_eval Let_def cong: let_weak_cong)

lemma MixColumns_fips: "length s = 16 \<Longrightarrow> MixColumns (to_state s) = to_state (fips_MixColumns s)"
  unfolding length16_conv fips_MixColumns_def
  by (elim exE, hypsubst) (simp add: MixColumns_def to_state_def fips_columns16 fips_mix_def gf_columns Let_def
      ac_simps cong: let_weak_cong)

lemma InvMixColumns_fips: "length s = 16 \<Longrightarrow> InvMixColumns (to_state s) = to_state (fips_InvMixColumns s)"
  unfolding length16_conv fips_InvMixColumns_def
  by (elim exE, hypsubst) (simp add: InvMixColumns_def to_state_def fips_columns16 fips_inv_mix_def gf_columns Let_def
      ac_simps cong: let_weak_cong)

text \<open>The round key that starts at word \<open>i\<close>.\<close>

definition word_key :: "u32 list \<Rightarrow> nat \<Rightarrow> u8 list" where
  "word_key w r = concat (map (\<lambda>j. be_bytes32 (w ! (4 * r + j))) [0, 1, 2, 3])"

lemma length_word_key [simp]: "length (word_key w r) = 16"
  by (simp add: word_key_def)

lemma AddRoundKey_fips:
  assumes "length s = 16" and "4 * r + 4 \<le> length w"
  shows "AddRoundKey (to_state s) (drop (4 * r) w) = to_state (fips_AddRoundKey s (word_key w r))"
proof -
  have d: "drop (4 * r) w ! j = w ! (4 * r + j)" for j using assms(2) by simp
  obtain a b c d e f g h i j k l m n o' p where s: "s = [a, b, c, d, e, f, g, h, i, j, k, l, m, n, o', p]"
    using assms(1) by (auto simp: length16_conv)
  show ?thesis
    unfolding s AddRoundKey_def d
    by (simp add: to_state_def fips_AddRoundKey_def word_key_def be_bytes32_def Let_def cong: let_weak_cong)
qed

section \<open>The block cipher is the one of the standard\<close>

lemma enc_lines_fips:
  assumes "length s = 16" and "\<forall>r \<in> set rs. 4 * r + 4 \<le> length w"
  shows "foldl (enc_line w) (to_state s) (map (\<lambda>r. 4 * r) rs) = to_state (foldl (fips_round (word_key w)) s rs) \<and>
    length (foldl (fips_round (word_key w)) s rs) = 16"
  using assms(2)
proof (induction rs rule: rev_induct)
  case (snoc r rs)
  then show ?case
    by (simp add: enc_line_def fips_round_def SubBytes_fips ShiftRows_fips MixColumns_fips AddRoundKey_fips)
qed (simp add: assms(1))

lemma dec_lines_fips:
  assumes "length s = 16" and "\<forall>r \<in> set rs. 4 * r + 4 \<le> length w"
  shows "foldl (dec_line w) (to_state s) (map (\<lambda>r. 4 * r) rs) = to_state (foldl (fips_inv_round (word_key w)) s rs) \<and>
    length (foldl (fips_inv_round (word_key w)) s rs) = 16"
  using assms(2)
proof (induction rs rule: rev_induct)
  case (snoc r rs)
  then show ?case
    by (simp add: dec_line_def fips_inv_round_def InvSubBytes_fips InvShiftRows_fips InvMixColumns_fips AddRoundKey_fips)
qed (simp add: assms(1))

definition rounds :: "int \<Rightarrow> nat" where
  "rounds keysize = (if keysize = 128 then 10 else 14)"

lemma line_offsets:
  "map (\<lambda>r. 4 * r) [1..<10 :: nat] = [4, 8, 12, 16, 20, 24, 28, 32, 36]"
  "map (\<lambda>r. 4 * r) [1..<14 :: nat] = [4, 8, 12, 16, 20, 24, 28, 32, 36] @ [40, 44, 48, 52]"
  "map (\<lambda>r. 4 * r) (rev [1..<10 :: nat]) = [36, 32, 28, 24, 20, 16, 12, 8, 4]"
  "map (\<lambda>r. 4 * r) (rev [1..<14 :: nat]) = [52, 48, 44, 40] @ [36, 32, 28, 24, 20, 16, 12, 8, 4]"
  by (simp_all add: upt_rec)

lemma aes_encrypt_fips:
  assumes "length s = 16" and "4 * Suc (rounds keysize) \<le> length w"
  shows "aes_encrypt s w keysize = fips_Cipher (rounds keysize) (word_key w) s"
proof -
  let ?n = "rounds keysize"
  let ?s = "fips_AddRoundKey s (word_key w 0)"
  have len: "length ?s = 16" using assms(1) by simp
  have add: "AddRoundKey (to_state t) (drop (4 * r) w) = to_state (fips_AddRoundKey t (word_key w r))"
    if "length t = 16" "r \<le> ?n" for t r using AddRoundKey_fips [of t r w] that assms(2) by simp
  have rounds: "foldl (enc_line w) (to_state ?s) (map (\<lambda>r. 4 * r) [1..<?n]) =
      to_state (foldl (fips_round (word_key w)) ?s [1..<?n])" "length (foldl (fips_round (word_key w)) ?s [1..<?n]) = 16"
    using enc_lines_fips [OF len, of "[1..<?n]" w] assms(2) by auto
  have start: "AddRoundKey (to_state s) (drop 0 w) = to_state ?s" using add [of s 0] assms(1) by simp
  have "aes_encrypt s w keysize = from_state (AddRoundKey (ShiftRows (SubBytes
      (foldl (enc_line w) (to_state ?s) (map (\<lambda>r. 4 * r) [1..<?n])))) (drop (4 * ?n) w))"
  proof (cases "keysize = 128")
    case True
    then have n: "?n = 10" by (simp add: rounds_def)
    show ?thesis unfolding n line_offsets aes_encrypt_def Let_def start using True by (simp del: foldl.simps)
  next
    case False
    then have n: "?n = 14" by (simp add: rounds_def)
    show ?thesis unfolding n line_offsets aes_encrypt_def Let_def start foldl_append using False by (simp del: foldl.simps)
  qed
  also have "\<dots> = fips_Cipher ?n (word_key w) s"
    using rounds by (simp add: SubBytes_fips ShiftRows_fips add fips_Cipher_def Let_def)
  finally show ?thesis .
qed

lemma aes_decrypt_fips:
  assumes "length s = 16" and "4 * Suc (rounds keysize) \<le> length w"
  shows "aes_decrypt s w keysize = fips_InvCipher (rounds keysize) (word_key w) s"
proof -
  let ?n = "rounds keysize"
  let ?s = "fips_AddRoundKey s (word_key w ?n)"
  have len: "length ?s = 16" using assms(1) by simp
  have add: "AddRoundKey (to_state t) (drop (4 * r) w) = to_state (fips_AddRoundKey t (word_key w r))"
    if "length t = 16" "r \<le> ?n" for t r using AddRoundKey_fips [of t r w] that assms(2) by simp
  have rounds: "foldl (dec_line w) (to_state ?s) (map (\<lambda>r. 4 * r) (rev [1..<?n])) =
      to_state (foldl (fips_inv_round (word_key w)) ?s (rev [1..<?n]))"
      "length (foldl (fips_inv_round (word_key w)) ?s (rev [1..<?n])) = 16"
    using dec_lines_fips [OF len, of "rev [1..<?n]" w] assms(2) by auto
  have start: "AddRoundKey (to_state s) (drop (4 * ?n) w) = to_state ?s" using add [of s ?n] assms(1) by simp
  have "aes_decrypt s w keysize = from_state (AddRoundKey (InvSubBytes (InvShiftRows
      (foldl (dec_line w) (to_state ?s) (map (\<lambda>r. 4 * r) (rev [1..<?n]))))) (drop (4 * 0) w))"
  proof (cases "keysize = 128")
    case True
    then have n: "?n = 10" by (simp add: rounds_def)
    show ?thesis
      unfolding n line_offsets aes_decrypt_def Let_def using True start [unfolded n] by (simp del: foldl.simps)
  next
    case False
    then have n: "?n = 14" by (simp add: rounds_def)
    show ?thesis
      unfolding n line_offsets aes_decrypt_def Let_def foldl_append using False start [unfolded n] by (simp del: foldl.simps)
  qed
  also have "\<dots> = fips_InvCipher ?n (word_key w) s"
    using rounds add [of _ 0] by (simp add: InvSubBytes_fips InvShiftRows_fips fips_InvCipher_def Let_def)
  finally show ?thesis .
qed

section \<open>The key setup is the one of the standard\<close>

lemma be_bytes32_xor: "be_bytes32 (v XOR w) = fips_xor (be_bytes32 v) (be_bytes32 w)"
  by (auto simp: be_bytes32_def fips_xor_def bit_simps intro!: bit_eqI)

lemma be_bytes32_ROTWORD: "be_bytes32 (KE_ROTWORD w) = fips_RotWord (be_bytes32 w)"
  by (auto simp: be_bytes32_def fips_RotWord_def KE_ROTWORD_def bit_simps intro!: bit_eqI dest: bit_imp_le_length)

lemma unat_ucast_u8: "unat (ucast (x :: u8) :: u32) = unat x"
  using unat_u8_less [of x] by (simp add: unsigned_ucast_eq take_bit_eq_mod del: unat_u8_less)

lemma SubWord_look: "aes_sbox ! unat (drop_bit (lo + 4) w AND 0xF) ! unat (drop_bit lo w AND 0xF) = sub (ucast (drop_bit lo (w :: u32)))"
proof -
  let ?x = "ucast (drop_bit lo w) :: u8"
  have m: "(0xF :: u32) = mask 4" "(0xF :: u8) = mask 4" by (simp_all add: mask_numeral)
  have "unat (drop_bit 4 ?x) = unat (drop_bit (lo + 4) w AND 0xF)"
    "unat (?x AND 0xF) = unat (drop_bit lo w AND 0xF)"
  proof -
    have "ucast (drop_bit 4 ?x) = drop_bit (lo + 4) w AND 0xF" "ucast (?x AND 0xF) = drop_bit lo w AND 0xF"
      unfolding m by (auto simp: bit_simps ac_simps intro!: bit_eqI dest: bit_imp_le_length)
    then show "unat (drop_bit 4 ?x) = unat (drop_bit (lo + 4) w AND 0xF)"
      "unat (?x AND 0xF) = unat (drop_bit lo w AND 0xF)"
      by (metis unat_ucast_u8)+
  qed
  then have "aes_sub ?x = aes_sbox ! unat (drop_bit (lo + 4) w AND 0xF) ! unat (drop_bit lo w AND 0xF)"
    by (simp add: aes_sub_def)
  then show ?thesis by (simp add: aes_sub_eq)
qed


lemma add_bytes_or:
  "(ucast a :: u32) + push_bit 8 (ucast b) + push_bit 16 (ucast c) + push_bit 24 (ucast d) =
     word32_of_be [d, c, b, a]" for a b c d :: u8
proof -
  have 1: "(ucast a :: u32) + push_bit 8 (ucast b) = ucast a OR push_bit 8 (ucast b)"
    by (rule disjunctive_add_eq_or) (auto simp: bit_simps intro!: bit_eqI dest: bit_imp_le_length)
  have 2: "(ucast a OR push_bit 8 (ucast b) :: u32) + push_bit 16 (ucast c) =
      ucast a OR push_bit 8 (ucast b) OR push_bit 16 (ucast c)"
    by (subst disjunctive_add_eq_or) (auto simp: bit_simps intro!: bit_eqI dest: bit_imp_le_length)
  have 3: "(ucast a OR push_bit 8 (ucast b) OR push_bit 16 (ucast c) :: u32) + push_bit 24 (ucast d) =
      ucast a OR push_bit 8 (ucast b) OR push_bit 16 (ucast c) OR push_bit 24 (ucast d)"
    by (subst disjunctive_add_eq_or) (auto simp: bit_simps intro!: bit_eqI dest: bit_imp_le_length)
  show ?thesis unfolding 1 2 3 by (simp add: word32_of_be_def ac_simps)
qed

lemma be_bytes32_SubWord: "be_bytes32 (SubWord w) = fips_SubWord (be_bytes32 w)"
proof -
  have "SubWord w = word32_of_be (map sub (be_bytes32 w))"
    using SubWord_look [of 0 w] SubWord_look [of 8 w] SubWord_look [of 16 w] SubWord_look [of 24 w]
    by (simp add: SubWord_def Let_def add_bytes_or be_bytes32_def)
  then show ?thesis by (simp add: fips_SubWord_def be_bytes32_of_word)
qed

lemma be_bytes32_Rcon:
  assumes "j < 10"
  shows "be_bytes32 (key_Rcon ! j) = [fips_Rcon (Suc j), 0, 0, 0]"
proof -
  have "list_all (\<lambda>j. be_bytes32 (key_Rcon ! j) = [fips_Rcon (Suc j), 0, 0, 0]) [0..<10]"
    by (simp add: key_Rcon_def be_bytes32_def upt_eval fips_Rcon_values xtime_eval)
  with assms show ?thesis by (simp add: list_all_iff)
qed


text \<open>The words below \<open>n\<close> are those of the standard.\<close>

definition words_ok :: "nat \<Rightarrow> u8 list \<Rightarrow> nat \<Rightarrow> u32 list \<Rightarrow> bool" where
  "words_ok Nk key n w \<longleftrightarrow> length w = 60 \<and> (\<forall>i < n. be_bytes32 (w ! i) = fips_word Nk key i)"

lemma key_load_ok:
  assumes "length key = 4 * Nk" and "words_ok Nk key n w" and "n < Nk" and "Nk \<le> 60"
  shows "words_ok Nk key (Suc n) (key_load key w n)"
proof -
  have "take 4 (drop (4 * n) key) = [key ! (4 * n), key ! (4 * n + 1), key ! (4 * n + 2), key ! (4 * n + 3)]"
    using assms(1, 3) by (intro nth_equalityI) (auto simp: less_Suc_eq numeral_eq_Suc)
  moreover have "key_load key w n = w[n := word32_of_be [key ! (4 * n), key ! (4 * n + 1), key ! (4 * n + 2), key ! (4 * n + 3)]]"
    by (simp add: key_load_def word32_of_be_def)
  ultimately show ?thesis
    using assms(2-4) be_bytes32_of_word [of "take 4 (drop (4 * n) key)"]
    by (auto simp: words_ok_def nth_list_update fips_word.simps [of Nk key n] less_Suc_eq)
qed

lemma key_step_ok:
  assumes "words_ok Nk key n w" and "0 < Nk" and "Nk \<le> n" and "n < 60" and "n div Nk \<le> 10"
  shows "words_ok Nk key (Suc n) (key_step Nk w n)"
proof -
  have old: "be_bytes32 (w ! (n - 1)) = fips_word Nk key (n - 1)" "be_bytes32 (w ! (n - Nk)) = fips_word Nk key (n - Nk)"
    using assms by (auto simp: words_ok_def)
  have rc: "Suc ((n - 1) div Nk) = n div Nk" if "n mod Nk = 0"
  proof -
    define k where "k = n div Nk"
    have k: "n = Nk * k" unfolding k_def using mult_div_mod_eq [of Nk n] that by simp
    with assms have "0 < k" by (cases k) auto
    then obtain k' where k': "k = Suc k'" by (cases k) auto
    then have "n - 1 = (Nk - 1) + Nk * k'" using k assms by (simp add: algebra_simps)
    then have "(n - 1) div Nk = k' + (Nk - 1) div Nk" using assms(2) by (simp only: div_mult_self2 add.commute)
    then show ?thesis using assms(2) k k' by simp
  qed
  have "be_bytes32 (w ! (n - Nk) XOR
      (if n mod Nk = 0 then SubWord (KE_ROTWORD (w ! (n - 1))) XOR key_Rcon ! ((n - 1) div Nk)
       else if Nk > 6 \<and> n mod Nk = 4 then SubWord (w ! (n - 1)) else w ! (n - 1))) = fips_word Nk key n"
    using assms(2, 3, 5) be_bytes32_Rcon [of "(n - 1) div Nk"] rc
    by (auto simp: fips_word.simps [of Nk key n] Let_def be_bytes32_xor be_bytes32_SubWord be_bytes32_ROTWORD old [unfolded One_nat_def])
  then show ?thesis
    using assms by (auto simp: words_ok_def key_step_def Let_def nth_list_update less_Suc_eq)
qed

lemma foldl_words_ok:
  assumes "\<And>i w. a \<le> i \<Longrightarrow> i < b \<Longrightarrow> words_ok Nk key i w \<Longrightarrow> words_ok Nk key (Suc i) (f w i)"
    and "words_ok Nk key a w" and "a \<le> b"
  shows "words_ok Nk key b (foldl f w [a..<b])"
  using assms(3) assms(1)
proof (induction b rule: dec_induct)
  case (step b)
  then show ?case by simp
qed (simp add: assms(2))

definition key_words :: "int \<Rightarrow> nat" where
  "key_words keysize = (if keysize = 128 then 4 else 8)"

lemma aes_key_setup_ok:
  assumes "keysize = 128 \<or> keysize = 256" and "length key = 4 * key_words keysize" and "length w = 60"
  shows "words_ok (key_words keysize) key (4 * Suc (rounds keysize)) (aes_key_setup key w keysize)"
proof -
  let ?Nk = "key_words keysize" and ?Nr = "rounds keysize"
  have n: "?Nk = 4 \<and> ?Nr = 10 \<or> ?Nk = 8 \<and> ?Nr = 14" by (simp add: key_words_def rounds_def)
  have "words_ok ?Nk key 0 w" using assms(3) by (simp add: words_ok_def)
  then have "words_ok ?Nk key ?Nk (foldl (key_load key) w [0..<?Nk])"
    using n by (intro foldl_words_ok key_load_ok assms(2)) auto
  then have "words_ok ?Nk key (4 * (?Nr + 1)) (foldl (key_step ?Nk) (foldl (key_load key) w [0..<?Nk]) [?Nk..<4 * (?Nr + 1)])"
  proof (rule foldl_words_ok [rotated])
    fix i w assume i: "?Nk \<le> i" "i < 4 * (?Nr + 1)" and w: "words_ok ?Nk key i w"
    have "i div ?Nk \<le> 10" using n i(2) by auto
    with i n w show "words_ok ?Nk key (Suc i) (key_step ?Nk w i)" by (intro key_step_ok) auto
  qed (use n in auto)
  moreover have "aes_key_setup key w keysize =
      foldl (key_step ?Nk) (foldl (key_load key) w [0..<?Nk]) [?Nk..<4 * (?Nr + 1)]"
    using assms(1) by (auto simp: aes_key_setup_def Let_def key_words_def rounds_def simp del: upt_rec_numeral)
  ultimately show ?thesis by simp
qed

lemma word_key_fips:
  assumes "words_ok Nk key (4 * Suc n) w" and "r \<le> n"
  shows "word_key w r = fips_round_key Nk key r"
  using assms by (simp add: words_ok_def word_key_def fips_round_key_def)

section \<open>Results\<close>

lemma conte_fips:
  assumes "keysize = 128 \<or> keysize = 256" and "length key = 4 * key_words keysize"
    and "length w = 60" and "length s = 16"
  shows "aes_encrypt s (aes_key_setup key w keysize) keysize =
      fips_Cipher (rounds keysize) (fips_round_key (key_words keysize) key) s"
    and "aes_decrypt s (aes_key_setup key w keysize) keysize =
      fips_InvCipher (rounds keysize) (fips_round_key (key_words keysize) key) s"
proof -
  let ?w = "aes_key_setup key w keysize" and ?n = "rounds keysize"
  note ok = aes_key_setup_ok [OF assms(1-3)]
  have len: "4 * Suc ?n \<le> length ?w" using ok by (simp add: words_ok_def rounds_def)
  have "word_key ?w r = fips_round_key (key_words keysize) key r" if "r \<le> ?n" for r
    using word_key_fips [OF ok that] .
  moreover have "0 < ?n" by (simp add: rounds_def)
  ultimately show "aes_encrypt s ?w keysize = fips_Cipher ?n (fips_round_key (key_words keysize) key) s"
    "aes_decrypt s ?w keysize = fips_InvCipher ?n (fips_round_key (key_words keysize) key) s"
    unfolding aes_encrypt_fips [OF assms(4) len] aes_decrypt_fips [OF assms(4) len]
    by (auto intro: fips_Cipher_cong)
qed

lemma length_key_words:
  "length key = 4 * key_words keysize \<Longrightarrow> length (fips_round_key (key_words keysize) key r) = 16"
  by (rule length_fips_round_key) (simp_all add: key_words_def)

text \<open>
  The table of products of \<^verbatim>\<open>aes-cbc.c\<close> holds, for every byte, its multiples by 2, 3,
  9, 11, 13 and 14 in the field of 256 elements; and its substitution tables, indexed by the
  two nibbles of a byte, agree with those of \<^verbatim>\<open>aes128.c\<close>.
\<close>

theorem aes_cbc_tables:
  "map (gf b) [0, 1, 2, 3, 4, 5] = map (gmul b) [2, 3, 9, 0xb, 0xd, 0xe] \<and>
   aes_sub b = sub b \<and> aes_rsub b = rsub b"
  by (simp add: gf_columns aes_sub_eq)

text \<open>
  C25. For keys of 128 and 256 bits, the key setup, \<^verbatim>\<open>aes_encrypt\<close> and \<^verbatim>\<open>aes_decrypt\<close>
  of \<^verbatim>\<open>aes-cbc.c\<close> are the key expansion, the cipher and the inverse cipher of FIPS 197, and
  \<^verbatim>\<open>aes_decrypt\<close> inverts \<^verbatim>\<open>aes_encrypt\<close>.
\<close>

theorem aes_cbc_cipher_fips197:
  assumes "keysize = 128 \<or> keysize = 256" and "length key = 4 * key_words keysize"
    and "length w = 60" and "length s = 16"
  shows "aes_encrypt s (aes_key_setup key w keysize) keysize =
      fips_Cipher (rounds keysize) (fips_round_key (key_words keysize) key) s \<and>
    aes_decrypt s (aes_key_setup key w keysize) keysize =
      fips_InvCipher (rounds keysize) (fips_round_key (key_words keysize) key) s \<and>
    aes_decrypt (aes_encrypt s (aes_key_setup key w keysize) keysize) (aes_key_setup key w keysize) keysize = s"
proof -
  let ?rk = "fips_round_key (key_words keysize) key"
  have rk: "length (?rk r) = 16" for r by (rule length_key_words [OF assms(2)])
  have "length (fips_Cipher (rounds keysize) ?rk s) = 16" using rk assms(4) by simp
  then show ?thesis
    using conte_fips [OF assms] conte_fips(2) [OF assms(1-3)] fips_InvCipher_Cipher [of ?rk s] rk assms(4) by simp
qed

theorem aes_cbc_cipher_fips197_witness:
  "length (replicate 32 5 :: u8 list) = 4 * key_words 256 \<and>
   aes_decrypt (aes_encrypt (replicate 16 1) (aes_key_setup (replicate 32 5) (replicate 60 0) 256) 256)
     (aes_key_setup (replicate 32 5) (replicate 60 0) 256) 256 = replicate 16 1"
proof -
  have len: "length (replicate 32 5 :: u8 list) = 4 * key_words 256" by (simp add: key_words_def)
  show ?thesis
    using aes_cbc_cipher_fips197 [OF disjI2 [OF refl] len length_replicate length_replicate] len by blast
qed

end
