(* ===== verification/Cbc_Mode.thy ===== *)
theory Cbc_Mode
  imports Prelude
begin

text \<open>
  Cipher block chaining over a memory. The input and the output of the CBC functions are
  pointers, which may point into the same buffer; so the loops work on one memory with two
  offsets, and the lemmas say for which offsets the result is the one of the mode. The
  locale states what the mode needs of a block cipher and shows that decryption inverts
  encryption, call by call.
\<close>

section \<open>The mode on lists of blocks\<close>

definition xor16 :: "u8 list \<Rightarrow> u8 list \<Rightarrow> u8 list" where
  "xor16 = map2 (XOR)"

lemma length_xor16 [simp]: "length (xor16 a b) = min (length a) (length b)"
  by (simp add: xor16_def)

lemma xor16_cancel: "length a = length b \<Longrightarrow> xor16 (xor16 a b) b = a"
  by (intro nth_equalityI) (simp_all add: xor16_def xor.assoc)

text \<open>A step maps the chaining value and a block to the output block and the next chaining value.\<close>

definition cbc_enc_step :: "(u8 list \<Rightarrow> u8 list) \<Rightarrow> u8 list \<Rightarrow> u8 list \<Rightarrow> u8 list \<times> u8 list" where
  "cbc_enc_step E iv b = (let c = E (xor16 b iv) in (c, c))"

definition cbc_dec_step :: "(u8 list \<Rightarrow> u8 list) \<Rightarrow> u8 list \<Rightarrow> u8 list \<Rightarrow> u8 list \<times> u8 list" where
  "cbc_dec_step D iv c = (xor16 (D c) iv, c)"

fun run :: "('s \<Rightarrow> 'b \<Rightarrow> 'b \<times> 's) \<Rightarrow> 's \<Rightarrow> 'b list \<Rightarrow> 'b list \<times> 's" where
  "run f s [] = ([], s)"
| "run f s (b # bs) = (case f s b of (c, s') \<Rightarrow> case run f s' bs of (cs, s'') \<Rightarrow> (c # cs, s''))"

lemma run_append:
  "run f s (xs @ ys) = (case run f s xs of (cs, s') \<Rightarrow> case run f s' ys of (ds, s'') \<Rightarrow> (cs @ ds, s''))"
  by (induction xs arbitrary: s) (auto split: prod.splits)

lemma run_length: "length (fst (run f s bs)) = length bs"
  by (induction bs arbitrary: s) (simp_all add: case_prod_beta)

lemma run_cong:
  assumes "\<And>s b. P s \<Longrightarrow> b \<in> set bs \<Longrightarrow> f s b = g s b \<and> P (snd (f s b))"
  shows "P s \<Longrightarrow> run f s bs = run g s bs"
  using assms
proof (induction bs arbitrary: s)
  case (Cons b bs)
  have b: "f s b = g s b" "P (snd (f s b))" using Cons.prems(2) [of s b] Cons.prems(1) by auto
  have "run f (snd (f s b)) bs = run g (snd (f s b)) bs"
    by (rule Cons.IH [OF b(2)], rule Cons.prems(2)) auto
  with b show ?case by (simp add: case_prod_beta)
qed simp

lemma run_inv:
  assumes "\<And>s b. P s \<Longrightarrow> Q b \<Longrightarrow> Q (fst (f s b)) \<and> P (snd (f s b))"
  shows "P s \<Longrightarrow> list_all Q bs \<Longrightarrow> list_all Q (fst (run f s bs)) \<and> P (snd (run f s bs))"
proof (induction bs arbitrary: s)
  case (Cons b bs)
  then show ?case
    using assms [of s b] Cons.IH [of "snd (f s b)"] by (simp add: case_prod_beta)
qed simp

abbreviation block :: "u8 list \<Rightarrow> bool" where
  "block b \<equiv> length b = 16"

locale block_cipher =
  fixes ok :: "'k \<Rightarrow> bool"
    and E :: "'k \<Rightarrow> u8 list \<Rightarrow> u8 list"
    and D :: "'k \<Rightarrow> u8 list \<Rightarrow> u8 list"
  assumes E_block: "ok k \<Longrightarrow> block b \<Longrightarrow> block (E k b)"
    and D_block: "ok k \<Longrightarrow> block b \<Longrightarrow> block (D k b)"
    and D_E: "ok k \<Longrightarrow> block b \<Longrightarrow> D k (E k b) = b"
begin

lemma enc_blocks:
  assumes "ok k" "block iv" "list_all block bs"
  shows "list_all block (fst (run (cbc_enc_step (E k)) iv bs)) \<and> block (snd (run (cbc_enc_step (E k)) iv bs))"
  using assms by (intro run_inv) (auto simp: cbc_enc_step_def Let_def E_block)

lemma dec_blocks:
  assumes "ok k" "block iv" "list_all block bs"
  shows "list_all block (fst (run (cbc_dec_step (D k)) iv bs)) \<and> block (snd (run (cbc_dec_step (D k)) iv bs))"
  using assms by (intro run_inv) (auto simp: cbc_dec_step_def D_block)

text \<open>Decryption gives the blocks back and ends in the same chaining value.\<close>

lemma dec_enc:
  "ok k \<Longrightarrow> block iv \<Longrightarrow> list_all block bs \<Longrightarrow>
     run (cbc_dec_step (D k)) iv (fst (run (cbc_enc_step (E k)) iv bs)) =
       (bs, snd (run (cbc_enc_step (E k)) iv bs))"
proof (induction bs arbitrary: iv)
  case (Cons b bs)
  then have "block (E k (xor16 b iv))" by (simp add: E_block)
  from Cons.IH [OF Cons.prems(1) this] Cons.prems show ?case
    by (auto simp: cbc_enc_step_def cbc_dec_step_def Let_def D_E xor16_cancel split: prod.splits)
qed simp

end

section \<open>The mode on a memory\<close>

fun blocks :: "nat \<Rightarrow> u8 list \<Rightarrow> u8 list list" where
  "blocks 0 bs = []"
| "blocks (Suc n) bs = take 16 bs # blocks n (drop 16 bs)"

lemma length_blocks [simp]: "length (blocks n bs) = n"
  by (induction n arbitrary: bs) simp_all

lemma blocks_block: "16 * n \<le> length bs \<Longrightarrow> list_all block (blocks n bs)"
  by (induction n arbitrary: bs) simp_all

lemma concat_blocks: "16 * n \<le> length bs \<Longrightarrow> concat (blocks n bs) = take (16 * n) bs"
proof (induction n arbitrary: bs)
  case (Suc n)
  then show ?case using take_add [of 16 "16 * n" bs] by simp
qed simp

lemma blocks_concat: "list_all block bs \<Longrightarrow> blocks (length bs) (concat bs @ rest) = bs"
  by (induction bs) simp_all

lemma length_concat_blocks: "list_all block bs \<Longrightarrow> length (concat bs) = 16 * length bs"
  by (induction bs) simp_all

text \<open>The loop over the blocks: read a block, transform it, write it.\<close>

fun mem_loop :: "('s \<Rightarrow> u8 list \<Rightarrow> u8 list \<times> 's) \<Rightarrow> nat \<Rightarrow> 's \<Rightarrow> u8 list \<Rightarrow> nat \<Rightarrow> nat \<Rightarrow> ('s \<times> u8 list) option" where
  "mem_loop f 0 s mem inp outp = Some (s, mem)"
| "mem_loop f (Suc n) s mem inp outp = do {
     b \<leftarrow> rdn mem inp 16;
     let (c, s') = f s b;
     mem \<leftarrow> wrn mem outp c;
     mem_loop f n s' mem (inp + 16) (outp + 16)
   }"

lemma blit_blit: "off + length a \<le> length m \<Longrightarrow> blit (blit m off a) (off + length a) b = blit m off (a @ b)"
  by (simp add: blit_def add.assoc drop_drop [symmetric] del: drop_drop)
    (simp add: ac_simps)

lemma drop_blit_after: "off + length a \<le> length m \<Longrightarrow> off + length a \<le> k \<Longrightarrow> drop k (blit m off a) = drop k m"
  by (simp add: blit_def add.commute)

lemma take_drop_blit_before:
  "off \<le> length m \<Longrightarrow> k + l \<le> off \<Longrightarrow> take l (drop k (blit m off a)) = take l (drop k m)"
  by (simp add: blit_def drop_take)

lemma blocks_take_drop: "blocks n (take (16 * n + j) bs) = blocks n bs"
proof (induction n arbitrary: bs)
  case (Suc n)
  then show ?case by (simp add: drop_take min_def)
qed simp

lemma blocks_blit:
  assumes "off + 16 \<le> length m" and "length a = 16" and "off + 16 \<le> k \<or> k + 16 * n \<le> off"
  shows "blocks n (drop k (blit m off a)) = blocks n (drop k m)"
  using assms(3)
proof
  assume "off + 16 \<le> k"
  then show ?thesis using assms(1, 2) by (simp add: drop_blit_after)
next
  assume "k + 16 * n \<le> off"
  then have "take (16 * n) (drop k (blit m off a)) = take (16 * n) (drop k m)"
    using assms(1) by (intro take_drop_blit_before) auto
  then show ?thesis using blocks_take_drop [of n 0] by (metis add_0_right)
qed

lemma mem_loop_run:
  assumes f: "\<And>s b. P s \<Longrightarrow> block b \<Longrightarrow> block (fst (f s b)) \<and> P (snd (f s b))"
  shows "P s \<Longrightarrow> inp + 16 * n \<le> length mem \<Longrightarrow> outp + 16 * n \<le> length mem \<Longrightarrow>
    outp \<le> inp \<or> inp + 16 * n \<le> outp \<Longrightarrow>
    mem_loop f n s mem inp outp =
      (case run f s (blocks n (drop inp mem)) of (cs, s') \<Rightarrow> Some (s', blit mem outp (concat cs)))"
proof (induction n arbitrary: s mem inp outp)
  case 0
  then show ?case by (simp add: blit_def)
next
  case (Suc n)
  let ?b = "take 16 (drop inp mem)"
  obtain c s' where fb: "f s ?b = (c, s')" by (cases "f s ?b")
  have "block ?b" using Suc.prems(2) by simp
  with f [OF Suc.prems(1) this] fb have c: "length c = 16" "P s'" by auto
  let ?m = "blit mem outp c"
  have "rdn mem inp 16 = Some ?b" "wrn mem outp c = Some ?m"
    using Suc.prems(2, 3) c(1) by (simp_all add: rdn_def wrn_def blit_def)
  then have "mem_loop f (Suc n) s mem inp outp = mem_loop f n s' ?m (inp + 16) (outp + 16)"
    using fb by simp
  also have "\<dots> = (case run f s' (blocks n (drop (inp + 16) ?m)) of (cs, s') \<Rightarrow> Some (s', blit ?m (outp + 16) (concat cs)))"
    using Suc.prems c by (intro Suc.IH) auto
  also have "blocks n (drop (inp + 16) ?m) = blocks n (drop 16 (drop inp mem))"
    using Suc.prems c(1) by (subst blocks_blit) (auto simp: add.commute)
  also have "(case run f s' (blocks n (drop 16 (drop inp mem))) of (cs, s') \<Rightarrow> Some (s', blit ?m (outp + 16) (concat cs))) =
      (case run f s (blocks (Suc n) (drop inp mem)) of (cs, s') \<Rightarrow> Some (s', blit mem outp (concat cs)))"
    using fb Suc.prems(3) c(1) blit_blit [of outp c mem] by (simp split: prod.splits)
  finally show ?case .
qed

end
