(* ===== verification/Aes_Cbc.thy ===== *)
theory Aes_Cbc
  imports Aes_X86 Aes_Conte Cbc_Mode
begin

text \<open>
  The CBC interface of \<^verbatim>\<open>aes-cbc.c\<close>, on top of the software cipher of the same file and of
  the hardware functions of \<^verbatim>\<open>aes-x86.c\<close>. Input and output are offsets into one memory,
  because callers may encrypt or decrypt in place.
\<close>

section \<open>The context\<close>

record aes_cbc_ctx =
  c_ivec :: "u8 list"
  c_roundkey :: "u8 list"
  c_Nr :: nat
  c_keysize :: int
  c_have_hw :: int

text \<open>The array \<^verbatim>\<open>roundkey\<close> as 32 bit words, as the software cipher sees it.\<close>

definition words_of :: "u8 list \<Rightarrow> u32 list" where
  "words_of bs = map (\<lambda>i. word32_of_le (take 4 (drop (4 * i) bs))) [0..<length bs div 4]"

definition bytes_of :: "u32 list \<Rightarrow> u8 list" where
  "bytes_of ws = concat (map le_bytes32 ws)"

text \<open>
  Return value, context and the static variable \<^verbatim>\<open>hw_aes_support\<close>. Null pointers are
  \<^const>\<open>None\<close>. \<open>ecx\<close> is what \<^verbatim>\<open>cpuid(1)\<close> returns in its third register.
\<close>

definition AES_CBC_init_ctx ::
  "x86 \<Rightarrow> u32 \<Rightarrow> int \<Rightarrow> aes_cbc_ctx \<Rightarrow> u8 list option \<Rightarrow> u8 list option \<Rightarrow> int \<Rightarrow> int \<Rightarrow>
     (int \<times> aes_cbc_ctx \<times> int) option" where
  "AES_CBC_init_ctx isa ecx support ctx key iv keysize encrypt =
     (case (key, iv) of
        (Some key, Some iv) \<Rightarrow>
          let ctx = \<lparr>c_ivec = replicate 16 0, c_roundkey = replicate 240 0, c_Nr = 0,
                     c_keysize = keysize, c_have_hw = 0\<rparr>
          in if keysize \<noteq> 128 \<and> keysize \<noteq> 256 then Some (EINVAL, ctx, support)
             else
               let ctx = ctx\<lparr>c_Nr := (if keysize = 128 then 10 else 14)\<rparr>;
                   support = cpu_supports_aes ecx support
               in do {
                 ctx \<leftarrow> (if support \<noteq> 0 then do {
                           let ctx = ctx\<lparr>c_have_hw := (if encrypt \<noteq> 0 then 3 else 2)\<rparr>;
                           (rc, roundkey) \<leftarrow> AES_expand_key isa key (c_roundkey ctx) keysize encrypt;
                           Some (ctx\<lparr>c_roundkey := roundkey\<rparr>)
                         }
                         else Some (ctx\<lparr>c_roundkey :=
                           bytes_of (aes_key_setup key (words_of (c_roundkey ctx)) keysize)\<rparr>));
                 iv16 \<leftarrow> rdn iv 0 16;
                 Some (0, ctx\<lparr>c_ivec := iv16\<rparr>, support)
               }
      | _ \<Rightarrow> Some (EINVAL, ctx, support))"

section \<open>Encryption\<close>

text \<open>\<^verbatim>\<open>xor_buf\<close> works on two 64 bit words, that is on the 16 bytes one by one.\<close>

definition xor_buf :: "u8 list \<Rightarrow> u8 list \<Rightarrow> u8 list" where
  "xor_buf inp out = xor16 out inp"

definition sw_encrypt_step :: "aes_cbc_ctx \<Rightarrow> u8 list \<Rightarrow> u8 list \<Rightarrow> u8 list \<times> u8 list" where
  "sw_encrypt_step ctx ivec buf_in =
     (let buf_in = xor_buf ivec buf_in;
          out = aes_encrypt buf_in (words_of (c_roundkey ctx)) (c_keysize ctx)
      in (out, out))"

text \<open>
  The number of blocks is an \<^verbatim>\<open>int\<close>, to which a length of 32 GB and more is narrowed. The functions with
  AES instructions take it as an \<^verbatim>\<open>unsigned long\<close>, and count with an \<^verbatim>\<open>int\<close>, which overflows at \<open>2 ^ 31\<close> blocks:
  the value \<^const>\<open>None\<close>.
\<close>

definition ulong_of_int :: "int \<Rightarrow> nat" where
  "ulong_of_int n = unat (of_int n :: 64 word)"

definition AES_CBC_encrypt_blocks ::
  "x86 \<Rightarrow> aes_cbc_ctx \<Rightarrow> u8 list \<Rightarrow> nat \<Rightarrow> nat \<Rightarrow> nat \<Rightarrow> (aes_cbc_ctx \<times> u8 list) option" where
  "AES_CBC_encrypt_blocks isa ctx mem inp outp n = (if 2 ^ 31 \<le> n then None else do {
     (feedback, mem) \<leftarrow> mem_loop
       (\<lambda>feedback data. let feedback = hw_cbc_encrypt_block isa (c_roundkey ctx) (c_Nr ctx) feedback data
                        in (feedback, feedback))
       n (c_ivec ctx) mem inp outp;
     Some (ctx\<lparr>c_ivec := feedback\<rparr>, mem)
   })"

definition AES_CBC_encrypt ::
  "x86 \<Rightarrow> aes_cbc_ctx \<Rightarrow> u8 list \<Rightarrow> nat \<Rightarrow> nat \<Rightarrow> nat \<Rightarrow> (int \<times> aes_cbc_ctx \<times> u8 list) option" where
  "AES_CBC_encrypt isa ctx mem inp in_len outp =
     (if in_len mod 16 \<noteq> 0 then Some (EINVAL, ctx, mem)
      else
        let n = int_of_size (in_len div 16)
        in if c_have_hw ctx \<noteq> 0 then
             (if c_have_hw ctx mod 2 = 0 then Some (EACCES, ctx, mem)
              else do {
                (ctx, mem) \<leftarrow> AES_CBC_encrypt_blocks isa ctx mem inp outp (ulong_of_int n);
                Some (0, ctx, mem)
              })
           else do {
             (ivec, mem) \<leftarrow> mem_loop (sw_encrypt_step ctx) (nat n) (c_ivec ctx) mem inp outp;
             Some (0, ctx\<lparr>c_ivec := ivec\<rparr>, mem)
           })"

section \<open>Decryption\<close>

definition AES_CBC_decrypt_blocks ::
  "x86 \<Rightarrow> aes_cbc_ctx \<Rightarrow> u8 list \<Rightarrow> nat \<Rightarrow> nat \<Rightarrow> nat \<Rightarrow> (aes_cbc_ctx \<times> u8 list) option" where
  "AES_CBC_decrypt_blocks isa ctx mem inp outp n = (if 2 ^ 31 \<le> n then None else do {
     (feedback, mem) \<leftarrow> mem_loop
       (\<lambda>feedback last_in. (hw_cbc_decrypt_block isa (c_roundkey ctx) (c_Nr ctx) feedback last_in, last_in))
       n (c_ivec ctx) mem inp outp;
     Some (ctx\<lparr>c_ivec := feedback\<rparr>, mem)
   })"

text \<open>
  The software loop writes the block to \<^verbatim>\<open>out\<close>, combines it there with the chaining value
  and reads the next chaining value from \<^verbatim>\<open>in\<close> only then.
\<close>

fun sw_decrypt_loop ::
  "u32 list \<Rightarrow> int \<Rightarrow> nat \<Rightarrow> u8 list \<Rightarrow> u8 list \<Rightarrow> nat \<Rightarrow> nat \<Rightarrow> (u8 list \<times> u8 list) option" where
  "sw_decrypt_loop w keysize 0 ivec mem inp outp = Some (ivec, mem)"
| "sw_decrypt_loop w keysize (Suc n) ivec mem inp outp = do {
     b \<leftarrow> rdn mem inp 16;
     mem \<leftarrow> wrn mem outp (aes_decrypt b w keysize);
     p \<leftarrow> rdn mem outp 16;
     mem \<leftarrow> wrn mem outp (xor_buf ivec p);
     ivec \<leftarrow> rdn mem inp 16;
     sw_decrypt_loop w keysize n ivec mem (inp + 16) (outp + 16)
   }"

definition AES_CBC_decrypt ::
  "x86 \<Rightarrow> aes_cbc_ctx \<Rightarrow> u8 list \<Rightarrow> nat \<Rightarrow> nat \<Rightarrow> nat \<Rightarrow> (int \<times> aes_cbc_ctx \<times> u8 list) option" where
  "AES_CBC_decrypt isa ctx mem inp in_len outp =
     (let n = int_of_size (in_len div 16)
      in if c_have_hw ctx \<noteq> 0 then
           (if c_have_hw ctx mod 2 = 1 then Some (EACCES, ctx, mem)
            else do {
              (ctx, mem) \<leftarrow> AES_CBC_decrypt_blocks isa ctx mem inp outp (ulong_of_int n);
              Some (0, ctx, mem)
            })
         else do {
           (ivec, mem) \<leftarrow> sw_decrypt_loop (words_of (c_roundkey ctx)) (c_keysize ctx) (nat n) (c_ivec ctx) mem inp outp;
           Some (0, ctx\<lparr>c_ivec := ivec\<rparr>, mem)
         })"

definition AES_CBC_set_hw :: "u32 \<Rightarrow> int \<Rightarrow> int \<Rightarrow> int \<times> int" where
  "AES_CBC_set_hw ecx support hw = aes_set_hw ecx support hw"

section \<open>The cipher behind the interface\<close>

text \<open>A key is its size in bits and its bytes.\<close>

definition valid_key :: "int \<times> u8 list \<Rightarrow> bool" where
  "valid_key k \<longleftrightarrow> (fst k = 128 \<or> fst k = 256) \<and> length (snd k) = 4 * key_words (fst k)"

definition swE :: "int \<times> u8 list \<Rightarrow> u8 list \<Rightarrow> u8 list" where
  "swE k b = aes_encrypt b (aes_key_setup (snd k) (replicate 60 0) (fst k)) (fst k)"

definition swD :: "int \<times> u8 list \<Rightarrow> u8 list \<Rightarrow> u8 list" where
  "swD k b = aes_decrypt b (aes_key_setup (snd k) (replicate 60 0) (fst k)) (fst k)"

lemma sw_fips:
  assumes "valid_key k" and "block b"
  shows "swE k b = fips_Cipher (rounds (fst k)) (fips_round_key (key_words (fst k)) (snd k)) b"
    and "swD k b = fips_InvCipher (rounds (fst k)) (fips_round_key (key_words (fst k)) (snd k)) b"
  using assms conte_fips [of "fst k" "snd k" "replicate 60 0" b]
  by (auto simp: valid_key_def swE_def swD_def)

lemma valid_key_length: "valid_key k \<Longrightarrow> length (fips_round_key (key_words (fst k)) (snd k) r) = 16"
  by (simp add: valid_key_def length_key_words)

interpretation sw: block_cipher valid_key swE swD
proof (unfold_locales, goal_cases)
  case (1 k b)
  then show ?case by (simp add: sw_fips valid_key_length)
next
  case (2 k b)
  then show ?case by (simp add: sw_fips valid_key_length)
next
  case (3 k b)
  then show ?case by (simp add: sw_fips valid_key_length fips_InvCipher_Cipher)
qed

lemma words_of_Cons: "length b = 4 \<Longrightarrow> words_of (b @ bs) = word32_of_le b # words_of bs"
proof -
  assume "length b = 4"
  then have "words_of (b @ bs) = map (\<lambda>i. word32_of_le (take 4 (drop (4 * i) (b @ bs)))) [0..<Suc (length bs div 4)]"
    using div_add_self1 [of 4 "length bs"] unfolding words_of_def by (simp only: length_append) simp
  also have "\<dots> = word32_of_le b # map (\<lambda>i. word32_of_le (take 4 (drop (4 * Suc i) (b @ bs)))) [0..<length bs div 4]"
    using \<open>length b = 4\<close> by (simp add: upt_conv_Cons map_Suc_upt [symmetric] comp_def del: upt_Suc)
  finally show ?thesis using \<open>length b = 4\<close> by (simp add: words_of_def)
qed

lemma words_of_bytes_of [simp]: "words_of (bytes_of ws) = ws"
  by (induction ws) (simp_all add: bytes_of_def words_of_Cons, simp add: words_of_def)

lemma words_of_zero: "words_of (replicate 240 0) = replicate 60 0"
proof -
  have "bytes_of (replicate n 0) = replicate (4 * n) 0" for n
    by (induction n) (simp_all add: bytes_of_def le_bytes32_def numeral_eq_Suc)
  from this [of 60] have "replicate 240 0 = bytes_of (replicate 60 0)" by simp
  then show ?thesis by simp
qed

section \<open>Contexts in use\<close>

text \<open>A context that is set up for encryption or for decryption under a key, in software or in hardware.\<close>

definition ready :: "x86 \<Rightarrow> bool \<Rightarrow> int \<times> u8 list \<Rightarrow> aes_cbc_ctx \<Rightarrow> bool" where
  "ready isa enc k ctx \<longleftrightarrow>
     valid_key k \<and> block (c_ivec ctx) \<and> c_keysize ctx = fst k \<and> c_Nr ctx = rounds (fst k) \<and>
     (if c_have_hw ctx = 0
      then words_of (c_roundkey ctx) = aes_key_setup (snd k) (replicate 60 0) (fst k)
      else c_have_hw ctx = (if enc then 3 else 2) \<and> x86_documented isa \<and>
        holds_keys (c_roundkey ctx) (c_Nr ctx)
          (if enc then fips_round_key (key_words (fst k)) (snd k)
           else inv_schedule (c_Nr ctx) (fips_round_key (key_words (fst k)) (snd k))))"

lemma init_ready:
  assumes "x86_documented isa" and "valid_key (keysize, key)" and "16 \<le> length iv"
  shows "\<exists>c. AES_CBC_init_ctx isa ecx (-1) ctx (Some key) (Some iv) keysize encrypt =
      Some (0, c, if bit ecx 25 then 1 else 0) \<and>
    ready isa (encrypt \<noteq> 0) (keysize, key) c \<and> c_ivec c = take 16 iv \<and>
    (c_have_hw c \<noteq> 0 \<longleftrightarrow> bit ecx 25)"
proof -
  have ks: "keysize = 128 \<or> keysize = 256" "length key = 4 * key_words keysize"
    using assms(2) by (auto simp: valid_key_def)
  let ?nr = "rounds keysize" and ?rk = "fips_round_key (key_words keysize) key"
  have Nr: "(if keysize = 128 then 10 else 14) = ?nr" by (simp add: rounds_def)
  have iv: "rdn iv 0 16 = Some (take 16 iv)" "block (take 16 iv)" using assms(3) by (simp_all add: rdn_def)
  show ?thesis
  proof (cases "bit ecx 25")
    case True
    let ?s = "if encrypt = 0 then inv_schedule ?nr ?rk else ?rk"
    let ?k = "concat (map ?s [0..<Suc ?nr]) @ drop (16 * Suc ?nr) (replicate 240 0)"
    define rkb where "rkb = ?k"
    let ?c = "\<lparr>c_ivec = take 16 iv, c_roundkey = rkb, c_Nr = ?nr, c_keysize = keysize,
      c_have_hw = (if encrypt \<noteq> 0 then 3 else 2)\<rparr>"
    have len: "length (?rk i) = 16" for i using ks(2) by (rule length_key_words)
    have "AES_expand_key isa key (replicate 240 0) keysize encrypt = Some (0, rkb)"
      unfolding rkb_def using ks by (intro AES_expand_key_correct [OF assms(1)]) (auto simp: key_words_def rounds_def)
    then have "AES_CBC_init_ctx isa ecx (-1) ctx (Some key) (Some iv) keysize encrypt = Some (0, ?c, 1)"
      using ks(1) True iv(1) by (simp add: AES_CBC_init_ctx_def Let_def cpu_supports_aes_bit Nr del: upt_Suc)
    moreover have "holds_keys rkb ?nr ?s"
      unfolding rkb_def using len by (intro holds_keys_schedule) (simp add: length_inv_schedule)
    then have "ready isa (encrypt \<noteq> 0) (keysize, key) ?c"
      using assms iv(2) by (cases "encrypt = 0") (simp_all add: ready_def)
    ultimately show ?thesis
      using True by (intro exI [of _ ?c]) simp
  next
    case False
    let ?c = "\<lparr>c_ivec = take 16 iv, c_roundkey = bytes_of (aes_key_setup key (replicate 60 0) keysize),
      c_Nr = ?nr, c_keysize = keysize, c_have_hw = 0\<rparr>"
    have "AES_CBC_init_ctx isa ecx (-1) ctx (Some key) (Some iv) keysize encrypt = Some (0, ?c, 0)"
      using ks(1) False iv(1) by (simp add: AES_CBC_init_ctx_def Let_def cpu_supports_aes_bit Nr words_of_zero)
    then show ?thesis
      using False assms(2) iv(2) by (intro exI [of _ ?c]) (simp add: ready_def)
  qed
qed

lemma hw_step_enc:
  assumes "ready isa True k ctx" and "c_have_hw ctx \<noteq> 0" and "block iv" and "block b"
  shows "hw_cbc_encrypt_block isa (c_roundkey ctx) (c_Nr ctx) iv b = swE k (xor16 b iv)"
proof -
  have doc: "x86_documented isa" and k: "valid_key k"
    and keys: "holds_keys (c_roundkey ctx) (c_Nr ctx) (fips_round_key (key_words (fst k)) (snd k))"
    and nr: "c_Nr ctx = rounds (fst k)"
    using assms(1, 2) by (auto simp: ready_def)
  have "mm_xor_si128 isa b iv = xor16 b iv"
    using x86_laws(1) [OF doc assms(4, 3)] by (simp add: fips_AddRoundKey_def xor16_def)
  moreover have "block (xor16 b iv)" using assms(3, 4) by simp
  ultimately show ?thesis
    using hw_encrypt_fips [OF doc _ valid_key_length [OF k] keys] k
    by (simp add: hw_cbc_encrypt_block_def Let_def sw_fips nr)
qed

lemma hw_step_dec:
  assumes "ready isa False k ctx" and "c_have_hw ctx \<noteq> 0" and "block iv" and "block b"
  shows "hw_cbc_decrypt_block isa (c_roundkey ctx) (c_Nr ctx) iv b = xor16 (swD k b) iv"
proof -
  have doc: "x86_documented isa" and k: "valid_key k"
    and keys: "holds_keys (c_roundkey ctx) (c_Nr ctx) (inv_schedule (c_Nr ctx) (fips_round_key (key_words (fst k)) (snd k)))"
    and nr: "c_Nr ctx = rounds (fst k)"
    using assms(1, 2) by (auto simp: ready_def)
  have "0 < c_Nr ctx" by (simp add: nr rounds_def)
  note d = hw_decrypt_fips [OF doc assms(4) valid_key_length [OF k] this keys]
  have "block (swD k b)" using sw.D_block [OF k assms(4)] .
  then show ?thesis
    using d x86_laws(1) [OF doc _ assms(3), of "swD k b"] k assms(4)
    by (simp add: hw_cbc_decrypt_block_def Let_def sw_fips nr fips_AddRoundKey_def xor16_def)
qed

lemma sw_step_enc:
  "ready isa True k ctx \<Longrightarrow> c_have_hw ctx = 0 \<Longrightarrow> sw_encrypt_step ctx iv b = cbc_enc_step (swE k) iv b"
  by (simp add: sw_encrypt_step_def cbc_enc_step_def xor_buf_def swE_def ready_def)

lemma run_block_cong:
  assumes "\<And>s b. block s \<Longrightarrow> block b \<Longrightarrow> f s b = g s b \<and> block (snd (g s b))"
    and "block s" and "list_all block bs"
  shows "run f s bs = run g s bs"
  by (rule run_cong [where P = block]) (use assms in \<open>auto simp: list_all_iff\<close>)

lemma few_blocks:
  assumes "n < 2 ^ 31"
  shows "int_of_size n = int n" "ulong_of_int (int n) = n"
  using assms by (simp_all add: int_of_size_small ulong_of_int_def unsigned_of_nat take_bit_nat_eq_self)

lemma encrypt_ready:
  assumes "ready isa True k ctx" and "inp + 16 * n \<le> length mem" and "outp + 16 * n \<le> length mem"
    and "outp \<le> inp \<or> inp + 16 * n \<le> outp"
    and few: "n < 2 ^ 31"
  shows "AES_CBC_encrypt isa ctx mem inp (16 * n) outp =
    (case run (cbc_enc_step (swE k)) (c_ivec ctx) (blocks n (drop inp mem)) of
       (cs, iv) \<Rightarrow> Some (0, ctx\<lparr>c_ivec := iv\<rparr>, blit mem outp (concat cs)))"
proof -
  have k: "valid_key k" and iv: "block (c_ivec ctx)" using assms(1) by (auto simp: ready_def)
  have E: "block (swE k b)" if "block b" for b using sw.E_block [OF k that] .
  have bs: "list_all block (blocks n (drop inp mem))" using assms(2) by (intro blocks_block) simp
  show ?thesis
  proof (cases "c_have_hw ctx = 0")
    case True
    have step: "sw_encrypt_step ctx = cbc_enc_step (swE k)"
      using sw_step_enc [OF assms(1) True] by (intro ext)
    have "mem_loop (sw_encrypt_step ctx) n (c_ivec ctx) mem inp outp =
        (case run (cbc_enc_step (swE k)) (c_ivec ctx) (blocks n (drop inp mem)) of
           (cs, iv) \<Rightarrow> Some (iv, blit mem outp (concat cs)))"
      unfolding step by (rule mem_loop_run [where P = block])
        (use assms iv E in \<open>auto simp: cbc_enc_step_def Let_def\<close>)
    then show ?thesis
      using True by (simp add: AES_CBC_encrypt_def Let_def case_prod_beta few_blocks [OF few])
  next
    case False
    then have hw: "c_have_hw ctx = 3" using assms(1) by (auto simp: ready_def)
    let ?f = "\<lambda>feedback data. let feedback = hw_cbc_encrypt_block isa (c_roundkey ctx) (c_Nr ctx) feedback data
      in (feedback, feedback)"
    have step: "?f s b = cbc_enc_step (swE k) s b \<and> block (snd (cbc_enc_step (swE k) s b))" if "block s" "block b" for s b
      using hw_step_enc [OF assms(1) False that] E [of "xor16 b s"] that by (simp add: cbc_enc_step_def Let_def)
    have "mem_loop ?f n (c_ivec ctx) mem inp outp =
        (case run ?f (c_ivec ctx) (blocks n (drop inp mem)) of (cs, iv) \<Rightarrow> Some (iv, blit mem outp (concat cs)))"
      by (rule mem_loop_run [where P = block])
        (use assms iv step in \<open>auto simp: cbc_enc_step_def Let_def\<close>)
    also have "run ?f (c_ivec ctx) (blocks n (drop inp mem)) = run (cbc_enc_step (swE k)) (c_ivec ctx) (blocks n (drop inp mem))"
      by (rule run_block_cong) (use step iv bs in auto)
    finally show ?thesis
      using hw few by (simp add: AES_CBC_encrypt_def AES_CBC_encrypt_blocks_def Let_def case_prod_beta few_blocks [OF few])
  qed
qed


text \<open>
  The software loop reads the chaining value dst from the input: it is the chaining of the
  mode when the output block does not overlap the input block.
\<close>

lemma sw_decrypt_loop_mode:
  assumes "valid_key k" and "w = aes_key_setup (snd k) (replicate 60 0) (fst k)"
  shows "block iv \<Longrightarrow> inp + 16 * n \<le> length mem \<Longrightarrow> outp + 16 * n \<le> length mem \<Longrightarrow>
    outp + 16 \<le> inp \<or> inp + 16 * n \<le> outp \<Longrightarrow>
    sw_decrypt_loop w (fst k) n iv mem inp outp = mem_loop (cbc_dec_step (swD k)) n iv mem inp outp"
proof (induction n arbitrary: iv mem inp outp)
  case (Suc n)
  let ?b = "take 16 (drop inp mem)"
  have b: "block ?b" using Suc.prems(2) by simp
  have D: "aes_decrypt ?b w (fst k) = swD k ?b" by (simp add: swD_def assms(2))
  have p: "block (swD k ?b)" using sw.D_block [OF assms(1) b] .
  let ?p = "xor16 (swD k ?b) iv"
  have rw: "rdn mem inp 16 = Some ?b" "wrn mem outp (swD k ?b) = Some (blit mem outp (swD k ?b))"
    "rdn (blit mem outp (swD k ?b)) outp 16 = Some (swD k ?b)"
    "wrn (blit mem outp (swD k ?b)) outp ?p = Some (blit mem outp ?p)" "wrn mem outp ?p = Some (blit mem outp ?p)"
    using Suc.prems p by (simp_all add: rdn_def wrn_def blit_def)
  have "take 16 (drop inp (blit mem outp ?p)) = ?b"
    using Suc.prems p drop_blit_after [of outp ?p mem inp] take_drop_blit_before [of outp mem inp 16 ?p] by auto
  then have rd: "rdn (blit mem outp ?p) inp 16 = Some ?b"
    using Suc.prems p by (simp add: rdn_def)
  have "sw_decrypt_loop w (fst k) (Suc n) iv mem inp outp =
      sw_decrypt_loop w (fst k) n ?b (blit mem outp ?p) (inp + 16) (outp + 16)"
    by (simp add: rw rd D xor_buf_def)
  also have "\<dots> = mem_loop (cbc_dec_step (swD k)) n ?b (blit mem outp ?p) (inp + 16) (outp + 16)"
    using Suc.prems p b by (intro Suc.IH) auto
  also have "\<dots> = mem_loop (cbc_dec_step (swD k)) (Suc n) iv mem inp outp"
    using rw by (simp add: cbc_dec_step_def)
  finally show ?case .
qed simp

lemma decrypt_ready:
  assumes "ready isa False k ctx" and "inp + 16 * n \<le> length mem" and "outp + 16 * n \<le> length mem"
    and "outp + 16 \<le> inp \<or> inp + 16 * n \<le> outp \<or> (outp \<le> inp \<and> c_have_hw ctx \<noteq> 0)"
    and few: "n < 2 ^ 31"
  shows "AES_CBC_decrypt isa ctx mem inp (16 * n) outp =
    (case run (cbc_dec_step (swD k)) (c_ivec ctx) (blocks n (drop inp mem)) of
       (cs, iv) \<Rightarrow> Some (0, ctx\<lparr>c_ivec := iv\<rparr>, blit mem outp (concat cs)))"
proof -
  have k: "valid_key k" and iv: "block (c_ivec ctx)" using assms(1) by (auto simp: ready_def)
  have D: "block (swD k b)" if "block b" for b using sw.D_block [OF k that] .
  have bs: "list_all block (blocks n (drop inp mem))" using assms(2) by (intro blocks_block) simp
  have off: "outp \<le> inp \<or> inp + 16 * n \<le> outp" using assms(4) by auto
  show ?thesis
  proof (cases "c_have_hw ctx = 0")
    case True
    have "sw_decrypt_loop (words_of (c_roundkey ctx)) (c_keysize ctx) n (c_ivec ctx) mem inp outp =
        mem_loop (cbc_dec_step (swD k)) n (c_ivec ctx) mem inp outp"
      using assms True k iv sw_decrypt_loop_mode [of k "words_of (c_roundkey ctx)" "c_ivec ctx" inp n mem outp]
      by (auto simp: ready_def)
    also have "\<dots> = (case run (cbc_dec_step (swD k)) (c_ivec ctx) (blocks n (drop inp mem)) of
           (cs, iv) \<Rightarrow> Some (iv, blit mem outp (concat cs)))"
      by (rule mem_loop_run [where P = block])
        (use assms off iv D in \<open>auto simp: cbc_dec_step_def\<close>)
    finally show ?thesis
      using True by (simp add: AES_CBC_decrypt_def Let_def case_prod_beta few_blocks [OF few])
  next
    case False
    then have hw: "c_have_hw ctx = 2" using assms(1) by (auto simp: ready_def)
    let ?f = "\<lambda>feedback last_in. (hw_cbc_decrypt_block isa (c_roundkey ctx) (c_Nr ctx) feedback last_in, last_in)"
    have step: "?f s b = cbc_dec_step (swD k) s b \<and> block (snd (cbc_dec_step (swD k) s b))" if "block s" "block b" for s b
      using hw_step_dec [OF assms(1) False that] that by (simp add: cbc_dec_step_def)
    have "mem_loop ?f n (c_ivec ctx) mem inp outp =
        (case run ?f (c_ivec ctx) (blocks n (drop inp mem)) of (cs, iv) \<Rightarrow> Some (iv, blit mem outp (concat cs)))"
      by (rule mem_loop_run [where P = block])
        (use assms off iv step D in \<open>auto simp: cbc_dec_step_def\<close>)
    also have "run ?f (c_ivec ctx) (blocks n (drop inp mem)) = run (cbc_dec_step (swD k)) (c_ivec ctx) (blocks n (drop inp mem))"
      by (rule run_block_cong) (use step iv bs in auto)
    finally show ?thesis
      using hw few by (simp add: AES_CBC_decrypt_def AES_CBC_decrypt_blocks_def Let_def case_prod_beta few_blocks [OF few])
  qed
qed

section \<open>Results\<close>

text \<open>
  C1. CBC encryption, with or without AES instructions: after \<^verbatim>\<open>AES_CBC_init_ctx\<close> for
  encryption, \<^verbatim>\<open>AES_CBC_encrypt\<close> succeeds, writes exactly the CBC ciphertext under the FIPS
  197 cipher to the output and saves the last ciphertext block as the next chaining value,
  in place as well as to any output that does not overlap input still to be read, for messages
  of less than 32 GB (\<open>2 ^ 31\<close> blocks, which is where the count of blocks leaves the \<^verbatim>\<open>int\<close>).
\<close>

theorem AES_CBC_encrypt_correct:
  assumes "x86_documented isa" and "valid_key (keysize, key)" and "16 \<le> length iv" and "encrypt \<noteq> 0"
    and "inp + 16 * n \<le> length mem" and "outp + 16 * n \<le> length mem" and "outp \<le> inp \<or> inp + 16 * n \<le> outp"
    and few: "n < 2 ^ 31"
  shows "\<exists>c. AES_CBC_init_ctx isa ecx (-1) ctx (Some key) (Some iv) keysize encrypt =
      Some (0, c, if bit ecx 25 then 1 else 0) \<and>
    AES_CBC_encrypt isa c mem inp (16 * n) outp =
      (case run (cbc_enc_step (fips_Cipher (rounds keysize) (fips_round_key (key_words keysize) key)))
          (take 16 iv) (blocks n (drop inp mem)) of
         (cs, iv') \<Rightarrow> Some (0, c\<lparr>c_ivec := iv'\<rparr>, blit mem outp (concat cs)))"
proof -
  obtain c where c: "AES_CBC_init_ctx isa ecx (-1) ctx (Some key) (Some iv) keysize encrypt =
      Some (0, c, if bit ecx 25 then 1 else 0)" "ready isa True (keysize, key) c" "c_ivec c = take 16 iv"
    using init_ready [OF assms(1-3), of ecx ctx encrypt] assms(4) by auto
  let ?E = "fips_Cipher (rounds keysize) (fips_round_key (key_words keysize) key)"
  have "run (cbc_enc_step (swE (keysize, key))) (take 16 iv) (blocks n (drop inp mem)) =
      run (cbc_enc_step ?E) (take 16 iv) (blocks n (drop inp mem))"
  proof (rule run_block_cong)
    fix s b :: "u8 list" assume sb: "block s" "block b"
    have "swE (keysize, key) (xor16 b s) = ?E (xor16 b s)" "block (swE (keysize, key) (xor16 b s))"
      using sw_fips(1) [OF assms(2), of "xor16 b s"] sw.E_block [OF assms(2), of "xor16 b s"] sb by simp_all
    then show "cbc_enc_step (swE (keysize, key)) s b = cbc_enc_step ?E s b \<and> block (snd (cbc_enc_step ?E s b))"
      by (simp add: cbc_enc_step_def Let_def)
  qed (use assms in \<open>simp_all add: blocks_block\<close>)
  then show ?thesis
    using c encrypt_ready [OF c(2) assms(5-7) few] by (intro exI [of _ c]) simp
qed

theorem AES_CBC_encrypt_correct_witness:
  "valid_key (128, replicate 16 7) \<and>
   (\<exists>c. AES_CBC_init_ctx x86_manual 0 (-1) \<lparr>c_ivec = [], c_roundkey = [], c_Nr = 0, c_keysize = 0, c_have_hw = 0\<rparr>
       (Some (replicate 16 7)) (Some (replicate 16 1)) 128 1 = Some (0, c, 0) \<and>
     AES_CBC_encrypt x86_manual c (replicate 32 9) 0 (16 * 2) 0 =
      (case run (cbc_enc_step (fips_Cipher (rounds 128) (fips_round_key (key_words 128) (replicate 16 7))))
          (take 16 (replicate 16 1)) (blocks 2 (drop 0 (replicate 32 9))) of
         (cs, iv') \<Rightarrow> Some (0, c\<lparr>c_ivec := iv'\<rparr>, blit (replicate 32 9) 0 (concat cs))))"
proof -
  have k: "valid_key (128, replicate 16 7)" by (simp add: valid_key_def key_words_def)
  have doc: "x86_documented x86_manual" by (simp add: x86_documented_def)
  show ?thesis
    using AES_CBC_encrypt_correct [OF doc k, where ecx = 0 and iv = "replicate 16 1" and encrypt = 1 and inp = 0
        and n = 2 and mem = "replicate 32 9" and outp = 0
        and ctx = "\<lparr>c_ivec = [], c_roundkey = [], c_Nr = 0, c_keysize = 0, c_have_hw = 0\<rparr>"] k
    by (simp del: run.simps blocks.simps)
qed

text \<open>
  C7. The round trip of the interface: a message of whole blocks, less than 32 GB, that is encrypted to some
  place and from there decrypted to another one, with contexts for the same key and
  initialisation vector, is recovered, on processors with and without AES instructions in
  any combination; and the decrypting context ends in the chaining value of the encrypting one.
\<close>

theorem AES_CBC_roundtrip:
  assumes "x86_documented isa" and "valid_key (keysize, key)" and "16 \<le> length iv" and "encrypt \<noteq> 0"
    and "inp + 16 * n \<le> length mem" and "outp + 16 * n \<le> length mem" and "outp \<le> inp \<or> inp + 16 * n \<le> outp"
    and "dst + 16 * n \<le> length mem" and "dst + 16 \<le> outp \<or> outp + 16 * n \<le> dst"
    and few: "n < 2 ^ 31"
  shows "\<exists>c d c' d' mem' mem''.
    AES_CBC_init_ctx isa ecx (-1) ctx (Some key) (Some iv) keysize encrypt = Some (0, c, if bit ecx 25 then 1 else 0) \<and>
    AES_CBC_init_ctx isa ecx' (-1) ctx (Some key) (Some iv) keysize 0 = Some (0, d, if bit ecx' 25 then 1 else 0) \<and>
    AES_CBC_encrypt isa c mem inp (16 * n) outp = Some (0, c', mem') \<and>
    AES_CBC_decrypt isa d mem' outp (16 * n) dst = Some (0, d', mem'') \<and>
    take (16 * n) (drop dst mem'') = take (16 * n) (drop inp mem) \<and> c_ivec d' = c_ivec c'"
proof -
  let ?k = "(keysize, key)" and ?bs = "blocks n (drop inp mem)"
  obtain c where c: "AES_CBC_init_ctx isa ecx (-1) ctx (Some key) (Some iv) keysize encrypt =
      Some (0, c, if bit ecx 25 then 1 else 0)" "ready isa True ?k c" "c_ivec c = take 16 iv"
    using init_ready [OF assms(1-3), of ecx ctx encrypt] assms(4) by auto
  obtain d where d: "AES_CBC_init_ctx isa ecx' (-1) ctx (Some key) (Some iv) keysize 0 =
      Some (0, d, if bit ecx' 25 then 1 else 0)" "ready isa False ?k d" "c_ivec d = take 16 iv"
    using init_ready [OF assms(1-3), of ecx' ctx 0] by auto
  obtain cs iv' where run: "run (cbc_enc_step (swE ?k)) (take 16 iv) ?bs = (cs, iv')" by fastforce
  have bs: "list_all block ?bs" using assms(5) by (intro blocks_block) simp
  have ivb: "block (take 16 iv)" using assms(3) by simp
  have cs: "list_all block cs" "length cs = n"
    using sw.enc_blocks [OF assms(2) ivb bs] run_length [of "cbc_enc_step (swE ?k)" "take 16 iv" ?bs] run by auto
  have len: "length (concat cs) = 16 * n" using length_concat_blocks [OF cs(1)] cs(2) by simp
  let ?m = "blit mem outp (concat cs)"
  have enc: "AES_CBC_encrypt isa c mem inp (16 * n) outp = Some (0, c\<lparr>c_ivec := iv'\<rparr>, ?m)"
    using encrypt_ready [OF c(2) assms(5-7) few] run c(3) by simp
  have "drop outp ?m = concat cs @ drop (outp + 16 * n) mem"
    using assms(6) len by (simp add: blit_def)
  then have "blocks n (drop outp ?m) = cs" using blocks_concat [OF cs(1)] cs(2) by simp
  moreover have "run (cbc_dec_step (swD ?k)) (take 16 iv) cs = (?bs, iv')"
    using sw.dec_enc [OF assms(2) ivb bs] run by simp
  ultimately have dec: "AES_CBC_decrypt isa d ?m outp (16 * n) dst =
      Some (0, d\<lparr>c_ivec := iv'\<rparr>, blit ?m dst (concat ?bs))"
    using decrypt_ready [OF d(2), of outp n ?m dst] assms(6, 8, 9) few d(3) len by auto
  have "concat ?bs = take (16 * n) (drop inp mem)" using assms(5) by (intro concat_blocks) simp
  then have "take (16 * n) (drop dst (blit ?m dst (concat ?bs))) = take (16 * n) (drop inp mem)"
    using assms(5, 6, 8) len by (simp add: blit_def)
  with c d enc dec show ?thesis
    by (intro exI [of _ c] exI [of _ d] exI [of _ "c\<lparr>c_ivec := iv'\<rparr>"] exI [of _ "d\<lparr>c_ivec := iv'\<rparr>"]
        exI [of _ ?m] exI [of _ "blit ?m dst (concat ?bs)"]) simp
qed

theorem AES_CBC_roundtrip_witness:
  "\<exists>c d c' d' mem' mem''.
    AES_CBC_init_ctx x86_manual 0x2000000 (-1) \<lparr>c_ivec = [], c_roundkey = [], c_Nr = 0, c_keysize = 0, c_have_hw = 0\<rparr>
      (Some (replicate 32 7)) (Some (replicate 16 1)) 256 1 = Some (0, c, 1) \<and>
    AES_CBC_init_ctx x86_manual 0 (-1) \<lparr>c_ivec = [], c_roundkey = [], c_Nr = 0, c_keysize = 0, c_have_hw = 0\<rparr>
      (Some (replicate 32 7)) (Some (replicate 16 1)) 256 0 = Some (0, d, 0) \<and>
    AES_CBC_encrypt x86_manual c (replicate 64 9) 32 (16 * 2) 32 = Some (0, c', mem') \<and>
    AES_CBC_decrypt x86_manual d mem' 32 (16 * 2) 0 = Some (0, d', mem'') \<and>
    take (16 * 2) (drop 0 mem'') = take (16 * 2) (drop 32 (replicate 64 9)) \<and> c_ivec d' = c_ivec c'"
proof -
  have k: "valid_key (256, replicate 32 7)" by (simp add: valid_key_def key_words_def)
  have doc: "x86_documented x86_manual" by (simp add: x86_documented_def)
  have bits: "bit (0x2000000 :: u32) 25" "\<not> bit (0 :: u32) 25" by simp_all
  show ?thesis
    using AES_CBC_roundtrip [OF doc k, where ecx = "0x2000000" and ecx' = 0 and iv = "replicate 16 1" and encrypt = 1
        and inp = 32 and n = 2 and mem = "replicate 64 9" and outp = 32 and dst = 0
        and ctx = "\<lparr>c_ivec = [], c_roundkey = [], c_Nr = 0, c_keysize = 0, c_have_hw = 0\<rparr>"]
    unfolding if_P [OF bits(1)] if_not_P [OF bits(2)] by (simp only: length_replicate) simp
qed

text \<open>
  C40. A context is bound to the direction it was set up for when AES instructions are used:
  decrypting with an encryption context and encrypting with a decryption context return
  \<^verbatim>\<open>EACCES\<close> and change neither the context nor the memory.
\<close>

theorem AES_CBC_wrong_direction:
  assumes "x86_documented isa" and "valid_key (keysize, key)" and "16 \<le> length iv" and "encrypt \<noteq> 0"
    and "bit ecx 25"
  shows "\<exists>c d. AES_CBC_init_ctx isa ecx (-1) ctx (Some key) (Some iv) keysize encrypt = Some (0, c, 1) \<and>
    AES_CBC_init_ctx isa ecx (-1) ctx (Some key) (Some iv) keysize 0 = Some (0, d, 1) \<and>
    AES_CBC_decrypt isa c mem inp in_len outp = Some (EACCES, c, mem) \<and>
    AES_CBC_encrypt isa d mem inp (16 * n) outp = Some (EACCES, d, mem)"
proof -
  obtain c where "AES_CBC_init_ctx isa ecx (-1) ctx (Some key) (Some iv) keysize encrypt = Some (0, c, 1)"
    "ready isa True (keysize, key) c" "c_have_hw c \<noteq> 0"
    using init_ready [OF assms(1-3), of ecx ctx encrypt] assms(4, 5) by auto
  moreover obtain d where "AES_CBC_init_ctx isa ecx (-1) ctx (Some key) (Some iv) keysize 0 = Some (0, d, 1)"
    "ready isa False (keysize, key) d" "c_have_hw d \<noteq> 0"
    using init_ready [OF assms(1-3), of ecx ctx 0] assms(5) by auto
  ultimately show ?thesis
    by (intro exI [of _ c] exI [of _ d]) (simp add: ready_def AES_CBC_decrypt_def AES_CBC_encrypt_def Let_def)
qed

theorem AES_CBC_wrong_direction_witness:
  "\<exists>c d. AES_CBC_init_ctx x86_manual 0x2000000 (-1) \<lparr>c_ivec = [], c_roundkey = [], c_Nr = 0, c_keysize = 0, c_have_hw = 0\<rparr>
      (Some (replicate 32 7)) (Some (replicate 16 1)) 256 1 = Some (0, c, 1) \<and>
    AES_CBC_decrypt x86_manual c (replicate 64 9) 0 32 0 = Some (EACCES, c, replicate 64 9) \<and>
    AES_CBC_encrypt x86_manual d (replicate 64 9) 0 (16 * 2) 0 = Some (EACCES, d, replicate 64 9)"
proof -
  have k: "valid_key (256, replicate 32 7)" by (simp add: valid_key_def key_words_def)
  have doc: "x86_documented x86_manual" by (simp add: x86_documented_def)
  show ?thesis
    using AES_CBC_wrong_direction [OF doc k, of "replicate 16 1" 1 "0x2000000"
        "\<lparr>c_ivec = [], c_roundkey = [], c_Nr = 0, c_keysize = 0, c_have_hw = 0\<rparr>" "replicate 64 9" 0 32 0 2]
    by (simp only: length_replicate) auto
qed

text \<open>
  Decrypting in place in software breaks the chaining: the chaining value for the second
  block is read from the input after the first plaintext has overwritten it. Two blocks
  \<open>p1\<close>, \<open>p2\<close>, encrypted to \<open>c1\<close>, \<open>c2\<close>, come back as \<open>p1\<close> and the
  sum of \<open>p2\<close>, \<open>c1\<close> and \<open>p1\<close>.
\<close>

theorem AES_CBC_decrypt_in_place:
  assumes "x86_documented isa" and "valid_key (keysize, key)" and "length iv = 16" and "\<not> bit ecx 25"
    and "length p1 = 16" and "length p2 = 16"
    and "c1 = fips_Cipher (rounds keysize) (fips_round_key (key_words keysize) key) (xor16 p1 iv)"
    and "c2 = fips_Cipher (rounds keysize) (fips_round_key (key_words keysize) key) (xor16 p2 c1)"
  shows "\<exists>d d'. AES_CBC_init_ctx isa ecx (-1) ctx (Some key) (Some iv) keysize 0 = Some (0, d, 0) \<and>
    AES_CBC_decrypt isa d (c1 @ c2) 0 32 0 = Some (0, d', p1 @ xor16 (xor16 p2 c1) p1)"
proof -
  let ?k = "(keysize, key)"
  obtain d where d: "AES_CBC_init_ctx isa ecx (-1) ctx (Some key) (Some iv) keysize 0 = Some (0, d, 0)"
    "ready isa False ?k d" "c_ivec d = iv" "c_have_hw d = 0"
    using init_ready [OF assms(1, 2), of iv ecx ctx 0] assms(3, 4) by auto
  have b: "block (xor16 p1 iv)" using assms(3, 5) by simp
  then have c1: "c1 = swE ?k (xor16 p1 iv)" "block c1"
    using sw_fips(1) [OF assms(2) b] sw.E_block [OF assms(2) b] assms(7) by simp_all
  then have b2: "block (xor16 p2 c1)" using assms(6) by simp
  then have c2: "c2 = swE ?k (xor16 p2 c1)" "block c2"
    using sw_fips(1) [OF assms(2) b2] sw.E_block [OF assms(2) b2] assms(8) by simp_all
  let ?w = "aes_key_setup key (replicate 60 0) keysize"
  have dec: "aes_decrypt c1 ?w keysize = xor16 p1 iv" "aes_decrypt c2 ?w keysize = xor16 p2 c1"
    using sw.D_E [OF assms(2) b] sw.D_E [OF assms(2) b2] c1(1) c2(1) by (simp_all add: swD_def)
  have loop: "sw_decrypt_loop ?w keysize (Suc (Suc 0)) iv (c1 @ c2) 0 0 = Some (xor16 (xor16 p2 c1) p1, p1 @ xor16 (xor16 p2 c1) p1)"
    using c1(2) c2(2) assms(3, 5, 6) xor16_cancel [of p1 iv]
    by (simp add: rdn_def wrn_def dec xor_buf_def)
  have "AES_CBC_decrypt isa d (c1 @ c2) 0 32 0 =
      Some (0, d\<lparr>c_ivec := xor16 (xor16 p2 c1) p1\<rparr>, p1 @ xor16 (xor16 p2 c1) p1)"
    using d(2-4) loop [folded numeral_2_eq_2] by (simp add: AES_CBC_decrypt_def Let_def ready_def int_of_size_small)
  with d(1) show ?thesis by blast
qed

theorem AES_CBC_decrypt_in_place_witness:
  "\<exists>c1 c2 d d'. c1 = fips_Cipher (rounds 128) (fips_round_key (key_words 128) (replicate 16 7)) (xor16 (replicate 16 2) (replicate 16 1)) \<and>
    AES_CBC_init_ctx x86_manual 0 (-1) \<lparr>c_ivec = [], c_roundkey = [], c_Nr = 0, c_keysize = 0, c_have_hw = 0\<rparr>
      (Some (replicate 16 7)) (Some (replicate 16 1)) 128 0 = Some (0, d, 0) \<and>
    AES_CBC_decrypt x86_manual d (c1 @ c2) 0 32 0 =
      Some (0, d', replicate 16 2 @ xor16 (xor16 (replicate 16 3) c1) (replicate 16 2))"
proof -
  have k: "valid_key (128, replicate 16 7)" by (simp add: valid_key_def key_words_def)
  have doc: "x86_documented x86_manual" by (simp add: x86_documented_def)
  let ?c1 = "fips_Cipher (rounds 128) (fips_round_key (key_words 128) (replicate 16 7)) (xor16 (replicate 16 2) (replicate 16 1))"
  let ?c2 = "fips_Cipher (rounds 128) (fips_round_key (key_words 128) (replicate 16 7)) (xor16 (replicate 16 3) ?c1)"
  let ?ctx = "\<lparr>c_ivec = [], c_roundkey = [], c_Nr = 0, c_keysize = 0, c_have_hw = 0\<rparr>"
  obtain d d' where "AES_CBC_init_ctx x86_manual 0 (-1) ?ctx (Some (replicate 16 7)) (Some (replicate 16 1)) 128 0 = Some (0, d, 0)"
    "AES_CBC_decrypt x86_manual d (?c1 @ ?c2) 0 32 0 =
      Some (0, d', replicate 16 2 @ xor16 (xor16 (replicate 16 3) ?c1) (replicate 16 2))"
    using AES_CBC_decrypt_in_place [OF doc k, of "replicate 16 1" 0 "replicate 16 2" "replicate 16 3" ?c1 ?c2 ?ctx]
    by (simp only: length_replicate bit_0_eq bot_apply) auto
  then show ?thesis by (intro exI conjI) (rule refl)
qed

text \<open>
  The error paths: a null key or vector and a key size other than 128 and 256 make
  \<^verbatim>\<open>AES_CBC_init_ctx\<close> return \<^verbatim>\<open>EINVAL\<close>, and a length that is not a multiple of 16 makes
  \<^verbatim>\<open>AES_CBC_encrypt\<close> return \<^verbatim>\<open>EINVAL\<close> with context and memory unchanged, whereas
  \<^verbatim>\<open>AES_CBC_decrypt\<close> does not look at the remainder and drops it.
\<close>

theorem AES_CBC_errors:
  assumes "keysize \<notin> {128, 256}" and "in_len mod 16 \<noteq> 0"
  shows "AES_CBC_init_ctx isa ecx support ctx None iv ks encrypt = Some (EINVAL, ctx, support) \<and>
    AES_CBC_init_ctx isa ecx support ctx key None ks encrypt = Some (EINVAL, ctx, support) \<and>
    (\<exists>c. AES_CBC_init_ctx isa ecx support ctx (Some k) (Some v) keysize encrypt = Some (EINVAL, c, support)) \<and>
    AES_CBC_encrypt isa ctx mem inp in_len outp = Some (EINVAL, ctx, mem) \<and>
    AES_CBC_decrypt isa ctx mem inp in_len outp = AES_CBC_decrypt isa ctx mem inp (16 * (in_len div 16)) outp"
  using assms by (simp add: AES_CBC_init_ctx_def AES_CBC_encrypt_def AES_CBC_decrypt_def Let_def split: option.split)

theorem AES_CBC_errors_witness:
  "AES_CBC_encrypt x86_manual \<lparr>c_ivec = [], c_roundkey = [], c_Nr = 0, c_keysize = 0, c_have_hw = 0\<rparr> [1, 2] 0 2 0 =
     Some (EINVAL, \<lparr>c_ivec = [], c_roundkey = [], c_Nr = 0, c_keysize = 0, c_have_hw = 0\<rparr>, [1, 2])"
  using AES_CBC_errors [of 192 2 x86_manual 0 0 "\<lparr>c_ivec = [], c_roundkey = [], c_Nr = 0, c_keysize = 0, c_have_hw = 0\<rparr>"
      None 128 1 None "[]" "[]" "[1, 2]" 0 0] by simp

end
