(* ===== verification/Aes128.thy ===== *)
theory Aes128
  imports Aes_X86
begin

text \<open>
  AES-128 in ECB mode, \<^verbatim>\<open>aes128.c\<close>: the software cipher with its in-place state, written
  out statement by statement, and the public functions that choose between it and the
  hardware. The theory shows that the software cipher and its key schedule are those of FIPS
  197 and that both paths compute the same function.
\<close>

section \<open>The software cipher\<close>

definition Rcon :: "u8 list" where
  "Rcon = [0x8d, 0x01, 0x02, 0x04, 0x08, 0x10, 0x20, 0x40, 0x80, 0x1b, 0x36]"

text \<open>One pass of the loop of \<^verbatim>\<open>expandKey\<close>.\<close>

definition expandKey_round :: "u8 list \<Rightarrow> nat \<Rightarrow> u8 list" where
  "expandKey_round expandedKey ii =
     (let buf1 = expandedKey ! (ii * 16 - 4);
          expandedKey = expandedKey[ii * 16 + 0 := sub (expandedKey ! (ii * 16 - 3)) XOR expandedKey ! ((ii - 1) * 16 + 0) XOR Rcon ! ii];
          expandedKey = expandedKey[ii * 16 + 1 := sub (expandedKey ! (ii * 16 - 2)) XOR expandedKey ! ((ii - 1) * 16 + 1)];
          expandedKey = expandedKey[ii * 16 + 2 := sub (expandedKey ! (ii * 16 - 1)) XOR expandedKey ! ((ii - 1) * 16 + 2)];
          expandedKey = expandedKey[ii * 16 + 3 := sub buf1 XOR expandedKey ! ((ii - 1) * 16 + 3)];
          expandedKey = expandedKey[ii * 16 + 4 := expandedKey ! ((ii - 1) * 16 + 4) XOR expandedKey ! (ii * 16 + 0)];
          expandedKey = expandedKey[ii * 16 + 5 := expandedKey ! ((ii - 1) * 16 + 5) XOR expandedKey ! (ii * 16 + 1)];
          expandedKey = expandedKey[ii * 16 + 6 := expandedKey ! ((ii - 1) * 16 + 6) XOR expandedKey ! (ii * 16 + 2)];
          expandedKey = expandedKey[ii * 16 + 7 := expandedKey ! ((ii - 1) * 16 + 7) XOR expandedKey ! (ii * 16 + 3)];
          expandedKey = expandedKey[ii * 16 + 8 := expandedKey ! ((ii - 1) * 16 + 8) XOR expandedKey ! (ii * 16 + 4)];
          expandedKey = expandedKey[ii * 16 + 9 := expandedKey ! ((ii - 1) * 16 + 9) XOR expandedKey ! (ii * 16 + 5)];
          expandedKey = expandedKey[ii * 16 + 10 := expandedKey ! ((ii - 1) * 16 + 10) XOR expandedKey ! (ii * 16 + 6)];
          expandedKey = expandedKey[ii * 16 + 11 := expandedKey ! ((ii - 1) * 16 + 11) XOR expandedKey ! (ii * 16 + 7)];
          expandedKey = expandedKey[ii * 16 + 12 := expandedKey ! ((ii - 1) * 16 + 12) XOR expandedKey ! (ii * 16 + 8)];
          expandedKey = expandedKey[ii * 16 + 13 := expandedKey ! ((ii - 1) * 16 + 13) XOR expandedKey ! (ii * 16 + 9)];
          expandedKey = expandedKey[ii * 16 + 14 := expandedKey ! ((ii - 1) * 16 + 14) XOR expandedKey ! (ii * 16 + 10)];
          expandedKey = expandedKey[ii * 16 + 15 := expandedKey ! ((ii - 1) * 16 + 15) XOR expandedKey ! (ii * 16 + 11)]
      in expandedKey)"

definition expandKey :: "u8 list \<Rightarrow> u8 list \<Rightarrow> u8 list" where
  "expandKey expandedKey key = foldl expandKey_round (blit expandedKey 0 (take 16 key)) [1..<11]"

definition galois_mul2 :: "u8 \<Rightarrow> u8" where
  "galois_mul2 value =
     (if drop_bit 7 value \<noteq> 0 then push_bit 1 value XOR 0x1b else push_bit 1 value)"

text \<open>
  The parts of \<^verbatim>\<open>aes_encr\<close> and \<^verbatim>\<open>aes_decr\<close>, which the source writes out in place: the
  key addition, substitution and row shift of a round, the column mixing, and the last (or
  first) key addition. They occur twice each, with the same text.
\<close>

definition encr_sub_shift :: "u8 list \<Rightarrow> u8 list \<Rightarrow> nat \<Rightarrow> u8 list" where
  "encr_sub_shift state expandedKey round =
     (let state = state[0 := sub (state ! 0 XOR expandedKey ! (round * 16))];
          state = state[4 := sub (state ! 4 XOR expandedKey ! (round * 16 + 4))];
          state = state[8 := sub (state ! 8 XOR expandedKey ! (round * 16 + 8))];
          state = state[12 := sub (state ! 12 XOR expandedKey ! (round * 16 + 12))];
          buf1 = state ! 1 XOR expandedKey ! (round * 16 + 1);
          state = state[1 := sub (state ! 5 XOR expandedKey ! (round * 16 + 5))];
          state = state[5 := sub (state ! 9 XOR expandedKey ! (round * 16 + 9))];
          state = state[9 := sub (state ! 13 XOR expandedKey ! (round * 16 + 13))];
          state = state[13 := sub buf1];
          buf1 = state ! 2 XOR expandedKey ! (round * 16 + 2);
          buf2 = state ! 6 XOR expandedKey ! (round * 16 + 6);
          state = state[2 := sub (state ! 10 XOR expandedKey ! (round * 16 + 10))];
          state = state[6 := sub (state ! 14 XOR expandedKey ! (round * 16 + 14))];
          state = state[10 := sub buf1];
          state = state[14 := sub buf2];
          buf1 = state ! 15 XOR expandedKey ! (round * 16 + 15);
          state = state[15 := sub (state ! 11 XOR expandedKey ! (round * 16 + 11))];
          state = state[11 := sub (state ! 7 XOR expandedKey ! (round * 16 + 7))];
          state = state[7 := sub (state ! 3 XOR expandedKey ! (round * 16 + 3))];
          state = state[3 := sub buf1]
      in state)"

definition mixcolums :: "u8 list \<Rightarrow> u8 list" where
  "mixcolums state =
     (let buf1 = state ! 0 XOR state ! 1 XOR state ! 2 XOR state ! 3;
          buf2 = state ! 0;
          buf3 = state ! 0 XOR state ! 1;
          buf3 = galois_mul2 buf3;
          state = state[0 := state ! 0 XOR buf3 XOR buf1];
          buf3 = state ! 1 XOR state ! 2;
          buf3 = galois_mul2 buf3;
          state = state[1 := state ! 1 XOR buf3 XOR buf1];
          buf3 = state ! 2 XOR state ! 3;
          buf3 = galois_mul2 buf3;
          state = state[2 := state ! 2 XOR buf3 XOR buf1];
          buf3 = state ! 3 XOR buf2;
          buf3 = galois_mul2 buf3;
          state = state[3 := state ! 3 XOR buf3 XOR buf1];
          buf1 = state ! 4 XOR state ! 5 XOR state ! 6 XOR state ! 7;
          buf2 = state ! 4;
          buf3 = state ! 4 XOR state ! 5;
          buf3 = galois_mul2 buf3;
          state = state[4 := state ! 4 XOR buf3 XOR buf1];
          buf3 = state ! 5 XOR state ! 6;
          buf3 = galois_mul2 buf3;
          state = state[5 := state ! 5 XOR buf3 XOR buf1];
          buf3 = state ! 6 XOR state ! 7;
          buf3 = galois_mul2 buf3;
          state = state[6 := state ! 6 XOR buf3 XOR buf1];
          buf3 = state ! 7 XOR buf2;
          buf3 = galois_mul2 buf3;
          state = state[7 := state ! 7 XOR buf3 XOR buf1];
          buf1 = state ! 8 XOR state ! 9 XOR state ! 10 XOR state ! 11;
          buf2 = state ! 8;
          buf3 = state ! 8 XOR state ! 9;
          buf3 = galois_mul2 buf3;
          state = state[8 := state ! 8 XOR buf3 XOR buf1];
          buf3 = state ! 9 XOR state ! 10;
          buf3 = galois_mul2 buf3;
          state = state[9 := state ! 9 XOR buf3 XOR buf1];
          buf3 = state ! 10 XOR state ! 11;
          buf3 = galois_mul2 buf3;
          state = state[10 := state ! 10 XOR buf3 XOR buf1];
          buf3 = state ! 11 XOR buf2;
          buf3 = galois_mul2 buf3;
          state = state[11 := state ! 11 XOR buf3 XOR buf1];
          buf1 = state ! 12 XOR state ! 13 XOR state ! 14 XOR state ! 15;
          buf2 = state ! 12;
          buf3 = state ! 12 XOR state ! 13;
          buf3 = galois_mul2 buf3;
          state = state[12 := state ! 12 XOR buf3 XOR buf1];
          buf3 = state ! 13 XOR state ! 14;
          buf3 = galois_mul2 buf3;
          state = state[13 := state ! 13 XOR buf3 XOR buf1];
          buf3 = state ! 14 XOR state ! 15;
          buf3 = galois_mul2 buf3;
          state = state[14 := state ! 14 XOR buf3 XOR buf1];
          buf3 = state ! 15 XOR buf2;
          buf3 = galois_mul2 buf3;
          state = state[15 := state ! 15 XOR buf3 XOR buf1]
      in state)"

definition add_last_key :: "u8 list \<Rightarrow> u8 list \<Rightarrow> u8 list" where
  "add_last_key state expandedKey =
     (let state = state[0 := state ! 0 XOR expandedKey ! 160];
          state = state[1 := state ! 1 XOR expandedKey ! 161];
          state = state[2 := state ! 2 XOR expandedKey ! 162];
          state = state[3 := state ! 3 XOR expandedKey ! 163];
          state = state[4 := state ! 4 XOR expandedKey ! 164];
          state = state[5 := state ! 5 XOR expandedKey ! 165];
          state = state[6 := state ! 6 XOR expandedKey ! 166];
          state = state[7 := state ! 7 XOR expandedKey ! 167];
          state = state[8 := state ! 8 XOR expandedKey ! 168];
          state = state[9 := state ! 9 XOR expandedKey ! 169];
          state = state[10 := state ! 10 XOR expandedKey ! 170];
          state = state[11 := state ! 11 XOR expandedKey ! 171];
          state = state[12 := state ! 12 XOR expandedKey ! 172];
          state = state[13 := state ! 13 XOR expandedKey ! 173];
          state = state[14 := state ! 14 XOR expandedKey ! 174];
          state = state[15 := state ! 15 XOR expandedKey ! 175]
      in state)"

definition aes_encr :: "u8 list \<Rightarrow> u8 list \<Rightarrow> u8 list" where
  "aes_encr state expandedKey =
     (let state = foldl (\<lambda>state round. mixcolums (encr_sub_shift state expandedKey round)) state [0..<9];
          state = encr_sub_shift state expandedKey 9
      in add_last_key state expandedKey)"

definition decr_sub_shift :: "u8 list \<Rightarrow> u8 list \<Rightarrow> nat \<Rightarrow> u8 list" where
  "decr_sub_shift state expandedKey round =
     (let state = state[0 := rsub (state ! 0) XOR expandedKey ! (round * 16)];
          state = state[4 := rsub (state ! 4) XOR expandedKey ! (round * 16 + 4)];
          state = state[8 := rsub (state ! 8) XOR expandedKey ! (round * 16 + 8)];
          state = state[12 := rsub (state ! 12) XOR expandedKey ! (round * 16 + 12)];
          buf1 = rsub (state ! 13) XOR expandedKey ! (round * 16 + 1);
          state = state[13 := rsub (state ! 9) XOR expandedKey ! (round * 16 + 13)];
          state = state[9 := rsub (state ! 5) XOR expandedKey ! (round * 16 + 9)];
          state = state[5 := rsub (state ! 1) XOR expandedKey ! (round * 16 + 5)];
          state = state[1 := buf1];
          buf1 = rsub (state ! 2) XOR expandedKey ! (round * 16 + 10);
          buf2 = rsub (state ! 6) XOR expandedKey ! (round * 16 + 14);
          state = state[2 := rsub (state ! 10) XOR expandedKey ! (round * 16 + 2)];
          state = state[6 := rsub (state ! 14) XOR expandedKey ! (round * 16 + 6)];
          state = state[10 := buf1];
          state = state[14 := buf2];
          buf1 = rsub (state ! 3) XOR expandedKey ! (round * 16 + 15);
          state = state[3 := rsub (state ! 7) XOR expandedKey ! (round * 16 + 3)];
          state = state[7 := rsub (state ! 11) XOR expandedKey ! (round * 16 + 7)];
          state = state[11 := rsub (state ! 15) XOR expandedKey ! (round * 16 + 11)];
          state = state[15 := buf1]
      in state)"

definition barreto :: "u8 list \<Rightarrow> u8 list" where
  "barreto state =
     (let buf1 = galois_mul2 (galois_mul2 (state ! 0 XOR state ! 2));
          buf2 = galois_mul2 (galois_mul2 (state ! 1 XOR state ! 3));
          state = state[0 := state ! 0 XOR buf1];
          state = state[1 := state ! 1 XOR buf2];
          state = state[2 := state ! 2 XOR buf1];
          state = state[3 := state ! 3 XOR buf2];
          buf1 = galois_mul2 (galois_mul2 (state ! 4 XOR state ! 6));
          buf2 = galois_mul2 (galois_mul2 (state ! 5 XOR state ! 7));
          state = state[4 := state ! 4 XOR buf1];
          state = state[5 := state ! 5 XOR buf2];
          state = state[6 := state ! 6 XOR buf1];
          state = state[7 := state ! 7 XOR buf2];
          buf1 = galois_mul2 (galois_mul2 (state ! 8 XOR state ! 10));
          buf2 = galois_mul2 (galois_mul2 (state ! 9 XOR state ! 11));
          state = state[8 := state ! 8 XOR buf1];
          state = state[9 := state ! 9 XOR buf2];
          state = state[10 := state ! 10 XOR buf1];
          state = state[11 := state ! 11 XOR buf2];
          buf1 = galois_mul2 (galois_mul2 (state ! 12 XOR state ! 14));
          buf2 = galois_mul2 (galois_mul2 (state ! 13 XOR state ! 15));
          state = state[12 := state ! 12 XOR buf1];
          state = state[13 := state ! 13 XOR buf2];
          state = state[14 := state ! 14 XOR buf1];
          state = state[15 := state ! 15 XOR buf2]
      in state)"

definition aes_decr :: "u8 list \<Rightarrow> u8 list \<Rightarrow> u8 list" where
  "aes_decr state expandedKey =
     (let state = add_last_key state expandedKey;
          state = decr_sub_shift state expandedKey 9
      in foldl (\<lambda>state round. decr_sub_shift (mixcolums (barreto state)) expandedKey round)
           state (rev [0..<9]))"

section \<open>The public functions\<close>

record aes128_ctx =
  a_roundkey :: "u8 list"
  a_have_hw :: int

text \<open>
  Return value, context and the static variable \<^verbatim>\<open>hw_aes_support\<close>. A null key is
  \<^const>\<open>None\<close>; an access out of bounds makes the whole result \<^const>\<open>None\<close>.
\<close>

definition AES128_init_ctx ::
  "x86 \<Rightarrow> u32 \<Rightarrow> int \<Rightarrow> aes128_ctx \<Rightarrow> u8 list option \<Rightarrow> int \<Rightarrow> (int \<times> aes128_ctx \<times> int) option" where
  "AES128_init_ctx isa ecx support ctx key encrypt =
     (case key of
        None \<Rightarrow> Some (EINVAL, ctx, support)
      | Some key \<Rightarrow>
          let ctx = \<lparr>a_roundkey = replicate 176 0, a_have_hw = 0\<rparr>;
              support = cpu_supports_aes ecx support
          in if support \<noteq> 0 then
               let ctx = ctx\<lparr>a_have_hw := (if encrypt \<noteq> 0 then 3 else 2)\<rparr>
               in do {
                 (rc, roundkey) \<leftarrow> AES_expand_key isa key (a_roundkey ctx) 128 encrypt;
                 Some (0, ctx\<lparr>a_roundkey := roundkey\<rparr>, support)
               }
             else Some (0, ctx\<lparr>a_roundkey := expandKey (a_roundkey ctx) key\<rparr>, support))"

text \<open>The 16 bytes that are written to \<^verbatim>\<open>output\<close>.\<close>

definition AES128_ECB_encrypt :: "x86 \<Rightarrow> aes128_ctx \<Rightarrow> u8 list \<Rightarrow> u8 list" where
  "AES128_ECB_encrypt isa ctx input =
     (if a_have_hw ctx \<noteq> 0 then AES128_ECB_encrypt_block isa (take 16 input) (a_roundkey ctx)
      else aes_encr (take 16 input) (a_roundkey ctx))"

definition AES128_ECB_decrypt :: "x86 \<Rightarrow> aes128_ctx \<Rightarrow> u8 list \<Rightarrow> u8 list" where
  "AES128_ECB_decrypt isa ctx input =
     (if a_have_hw ctx \<noteq> 0 then AES128_ECB_decrypt_block isa (take 16 input) (a_roundkey ctx)
      else aes_decr (take 16 input) (a_roundkey ctx))"

definition AES128_set_hw :: "u32 \<Rightarrow> int \<Rightarrow> int \<Rightarrow> int \<times> int" where
  "AES128_set_hw ecx support hw = aes_set_hw ecx support hw"

section \<open>The parts are the transformations of FIPS 197\<close>

lemma galois_mul2_xtime: "galois_mul2 v = xtime v"
proof -
  have "drop_bit 7 v \<noteq> 0 \<longleftrightarrow> bit v 7"
  proof
    assume "drop_bit 7 v \<noteq> 0"
    then obtain n where n: "bit v (7 + n)" by (auto simp: bit_eq_iff bit_simps)
    then have "7 + n < 8" using bit_imp_le_length [of v "7 + n"] by simp
    with n show "bit v 7" by simp
  next
    assume "bit v 7"
    then have "bit (drop_bit 7 v) 0" by (simp add: bit_simps)
    then show "drop_bit 7 v \<noteq> 0" by (metis bit_0_eq bot_apply bot_bool_def)
  qed
  then show ?thesis by (simp add: galois_mul2_def xtime_def)
qed

lemma key128_explicit:
  assumes "16 * r + 16 \<le> length ek"
  shows "key128 ek r = [ek ! (r * 16), ek ! (r * 16 + 1), ek ! (r * 16 + 2), ek ! (r * 16 + 3),
    ek ! (r * 16 + 4), ek ! (r * 16 + 5), ek ! (r * 16 + 6), ek ! (r * 16 + 7), ek ! (r * 16 + 8),
    ek ! (r * 16 + 9), ek ! (r * 16 + 10), ek ! (r * 16 + 11), ek ! (r * 16 + 12), ek ! (r * 16 + 13),
    ek ! (r * 16 + 14), ek ! (r * 16 + 15)]" (is "_ = ?l")
proof -
  have "key128 ek r = map (\<lambda>j. ek ! (r * 16 + j)) [0..<16]"
    using assms by (intro nth_equalityI) (auto simp: key128_def mult.commute)
  then show ?thesis by (simp add: upt_eval)
qed

lemma encr_sub_shift_fips:
  assumes "length s = 16" and "16 * r + 16 \<le> length ek"
  shows "encr_sub_shift s ek r = fips_ShiftRows (fips_SubBytes (fips_AddRoundKey s (key128 ek r)))"
proof -
  obtain a b c d e f g h i j k l m n o' p where s: "s = [a, b, c, d, e, f, g, h, i, j, k, l, m, n, o', p]"
    using assms(1) by (auto simp: length16_conv)
  show ?thesis
    unfolding key128_explicit [OF assms(2)] s encr_sub_shift_def
    by (simp add: fips_defs upt_eval Let_def cong: let_weak_cong)
qed

lemma decr_sub_shift_fips:
  assumes "length s = 16" and "16 * r + 16 \<le> length ek"
  shows "decr_sub_shift s ek r = fips_AddRoundKey (fips_InvSubBytes (fips_InvShiftRows s)) (key128 ek r)"
proof -
  obtain a b c d e f g h i j k l m n o' p where s: "s = [a, b, c, d, e, f, g, h, i, j, k, l, m, n, o', p]"
    using assms(1) by (auto simp: length16_conv)
  show ?thesis
    unfolding key128_explicit [OF assms(2)] s decr_sub_shift_def
    by (simp add: fips_defs upt_eval Let_def cong: let_weak_cong)
qed

lemma add_last_key_fips:
  assumes "length s = 16" and "176 \<le> length ek"
  shows "add_last_key s ek = fips_AddRoundKey s (key128 ek 10)"
proof -
  obtain a b c d e f g h i j k l m n o' p where s: "s = [a, b, c, d, e, f, g, h, i, j, k, l, m, n, o', p]"
    using assms(1) by (auto simp: length16_conv)
  have "16 * 10 + 16 \<le> length ek" using assms(2) by simp
  then show ?thesis
    unfolding key128_explicit [OF \<open>16 * 10 + 16 \<le> length ek\<close>] s add_last_key_def
    by (simp add: fips_defs Let_def cong: let_weak_cong)
qed

lemma mixcolums_fips:
  assumes "length s = 16"
  shows "mixcolums s = fips_MixColumns s"
proof -
  obtain a b c d e f g h i j k l m n o' p where s: "s = [a, b, c, d, e, f, g, h, i, j, k, l, m, n, o', p]"
    using assms by (auto simp: length16_conv)
  show ?thesis
    unfolding s mixcolums_def fips_MixColumns_def fips_columns16 fips_mix_def gmul_coeffs
    by (simp add: galois_mul2_xtime Let_def ac_simps cong: let_weak_cong)
qed

lemma barreto_fips:
  assumes "length s = 16"
  shows "mixcolums (barreto s) = fips_InvMixColumns s"
proof -
  obtain a b c d e f g h i j k l m n o' p where s: "s = [a, b, c, d, e, f, g, h, i, j, k, l, m, n, o', p]"
    using assms by (auto simp: length16_conv)
  have bar: "barreto s =
      (let col = (\<lambda>a b c d. [a XOR xtime (xtime (a XOR c)), b XOR xtime (xtime (b XOR d)),
           c XOR xtime (xtime (a XOR c)), d XOR xtime (xtime (b XOR d))])
       in col a b c d @ col e f g h @ col i j k l @ col m n o' p)"
    unfolding s barreto_def galois_mul2_xtime by (simp add: Let_def cong: let_weak_cong del: xtime_xor)
  then have "mixcolums (barreto s) = fips_MixColumns (barreto s)"
    by (intro mixcolums_fips) (simp add: Let_def)
  also have "\<dots> = fips_InvMixColumns s"
    unfolding s bar [unfolded s] fips_MixColumns_def fips_InvMixColumns_def Let_def append.simps fips_columns16
      fips_mix_def fips_inv_mix_def gmul_coeffs
    by (simp add: ac_simps)
  finally show ?thesis .
qed

section \<open>The cipher\<close>

lemma foldl_encr_rounds:
  assumes "length s = 16" and "176 \<le> length ek" and "n \<le> 9"
  shows "length (foldl (\<lambda>s r. mixcolums (encr_sub_shift s ek r)) s [0..<n]) = 16 \<and>
    fips_AddRoundKey (foldl (\<lambda>s r. mixcolums (encr_sub_shift s ek r)) s [0..<n]) (key128 ek n) =
      foldl (fips_round (key128 ek)) (fips_AddRoundKey s (key128 ek 0)) [1..<Suc n]"
  using assms(3)
proof (induction n)
  case 0
  then show ?case using assms(1) by simp
next
  case (Suc n)
  then show ?case
    using assms(2) by (simp add: encr_sub_shift_fips mixcolums_fips fips_round_def)
qed

lemma length_key128: "16 * r + 16 \<le> length ek \<Longrightarrow> length (key128 ek r) = 16"
  by (simp add: key128_def)

lemma aes_encr_fips:
  assumes "length s = 16" and "176 \<le> length ek"
  shows "aes_encr s ek = fips_Cipher 10 (key128 ek) s"
proof -
  let ?s = "foldl (\<lambda>s r. mixcolums (encr_sub_shift s ek r)) s [0..<9]"
  have "length ?s = 16"
    "fips_AddRoundKey ?s (key128 ek 9) = foldl (fips_round (key128 ek)) (fips_AddRoundKey s (key128 ek 0)) [1..<10]"
    using foldl_encr_rounds [OF assms, of 9] by simp_all
  then show ?thesis
    using assms(2) by (simp add: aes_encr_def fips_Cipher_def Let_def encr_sub_shift_fips add_last_key_fips
        del: upt_rec_numeral)
qed

lemma foldl_decr_rounds:
  assumes "length s = 16" and "176 \<le> length ek" and "\<forall>r \<in> set rs. r < 11"
  shows "length (foldl (\<lambda>s r. decr_sub_shift (mixcolums (barreto s)) ek r) s rs) = 16 \<and>
    foldl (\<lambda>s r. decr_sub_shift (mixcolums (barreto s)) ek r) s rs =
      foldl (\<lambda>s r. fips_AddRoundKey (fips_InvSubBytes (fips_InvShiftRows (fips_InvMixColumns s))) (key128 ek r)) s rs"
  using assms(3)
proof (induction rs rule: rev_induct)
  case Nil
  then show ?case using assms(1) by simp
next
  case (snoc r rs)
  let ?t = "foldl (\<lambda>s r. decr_sub_shift (mixcolums (barreto s)) ek r) s rs"
  have t: "length ?t = 16" "?t =
      foldl (\<lambda>s r. fips_AddRoundKey (fips_InvSubBytes (fips_InvShiftRows (fips_InvMixColumns s))) (key128 ek r)) s rs"
    and r: "r < 11" using snoc by auto
  have "decr_sub_shift (mixcolums (barreto ?t)) ek r =
      fips_AddRoundKey (fips_InvSubBytes (fips_InvShiftRows (fips_InvMixColumns ?t))) (key128 ek r)"
    using barreto_fips [OF t(1)] r assms(2) by (simp only:) (simp add: decr_sub_shift_fips)
  then show ?case
    using r assms(2) by (simp add: t(2) [symmetric] length_key128)
qed

text \<open>The same rounds with the column mixing at the end instead of at the beginning.\<close>

lemma foldl_regroup: "h (foldl (\<lambda>s r. f (h s) r) t rs) = foldl (\<lambda>s r. h (f s r)) (h t) rs"
  by (induction rs arbitrary: t) simp_all

lemma aes_decr_fips:
  assumes "length s = 16" and "176 \<le> length ek"
  shows "aes_decr s ek = fips_InvCipher 10 (key128 ek) s"
proof -
  let ?f = "\<lambda>s r. fips_AddRoundKey (fips_InvSubBytes (fips_InvShiftRows s)) (key128 ek r)"
  let ?s = "fips_AddRoundKey s (key128 ek 10)"
  have s: "length ?s = 16" using assms by (simp add: length_key128)
  have u: "rev [0..<9 :: nat] = [8, 7, 6, 5, 4, 3, 2, 1, 0]" "rev [1..<10 :: nat] = [9, 8, 7, 6, 5, 4, 3, 2, 1]"
    by (simp_all add: upt_eval upt_rec)
  have "aes_decr s ek = foldl (\<lambda>s r. ?f (fips_InvMixColumns s) r) (?f ?s 9) (rev [0..<9])"
    using foldl_decr_rounds [of "?f ?s 9" ek "rev [0..<9]"] s assms
    by (simp add: aes_decr_def Let_def add_last_key_fips decr_sub_shift_fips length_key128 del: upt_rec_numeral)
  also have "\<dots> = ?f (foldl (\<lambda>s r. fips_InvMixColumns (?f s r)) ?s (rev [1..<10])) 0"
    using foldl_regroup [of fips_InvMixColumns ?f "?f ?s 9" "[8, 7, 6, 5, 4, 3, 2, 1]"]
    unfolding u by simp
  finally show ?thesis
    by (simp add: fips_InvCipher_def fips_inv_round_def [abs_def] Let_def del: upt_rec_numeral)
qed

section \<open>The key schedule\<close>

lemma nth_at: "length xs = n \<Longrightarrow> (xs @ ys) ! (n + k) = ys ! k"
  by (auto simp: nth_append)

lemma update_at: "length xs = n \<Longrightarrow> (xs @ ys)[n + k := v] = xs @ ys[k := v]"
  by (auto simp: list_update_append)

lemma expandKey_round_step:
  assumes "length pre = 16 * r" and "length p = 16" and "length c = 16" and "r < 10"
  shows "expandKey_round (pre @ p @ c @ post) (Suc r) =
    pre @ p @ key_chain p (key_core p (Rcon ! Suc r)) @ post"
proof -
  obtain a0 a1 a2 a3 a4 a5 a6 a7 a8 a9 a10 a11 a12 a13 a14 a15
    where p: "p = [a0, a1, a2, a3, a4, a5, a6, a7, a8, a9, a10, a11, a12, a13, a14, a15]"
    using assms(2) by (auto simp: length16_conv)
  obtain c0 c1 c2 c3 c4 c5 c6 c7 c8 c9 c10 c11 c12 c13 c14 c15
    where c: "c = [c0, c1, c2, c3, c4, c5, c6, c7, c8, c9, c10, c11, c12, c13, c14, c15]"
    using assms(3) by (auto simp: length16_conv)
  obtain n where n: "n = 16 * r" "length pre = n" using assms(1) by simp
  have ix: "Suc r * 16 - 4 = n + 12" "Suc r * 16 - 3 = n + 13" "Suc r * 16 - 2 = n + 14"
    "Suc r * 16 - 1 = n + 15" "\<And>k. (Suc r - 1) * 16 + k = n + k" "\<And>k. Suc r * 16 + k = n + (16 + k)"
    unfolding n(1) by simp_all
  show ?thesis
    unfolding expandKey_round_def ix
    by (simp add: p c nth_at [OF n(2)] nth_at [OF n(2), where k = 0, simplified]
        nth_at [OF n(2), where k = "Suc 0", simplified]
        nth_at [OF n(2), where k = "Suc (Suc 0)", simplified] update_at [OF n(2)] key_chain_def key_core_def fips_xor_def
        fips_SubWord_def fips_RotWord_def Let_def ac_simps cong: let_weak_cong)
qed

lemma Rcon_fips: "r < 11 \<Longrightarrow> Rcon ! r = fips_Rcon r"
proof -
  assume "r < 11"
  moreover have "list_all (\<lambda>r. Rcon ! r = fips_Rcon r) [0..<11]"
    by (simp add: Rcon_def upt_rec numeral_eq_Suc xtime_eval)
  ultimately show ?thesis by (simp add: list_all_iff)
qed

lemma expandKey_rounds:
  assumes "length key = 16" and "length buf = 176" and "n \<le> 10"
  shows "foldl expandKey_round (blit buf 0 key) [1..<Suc n] =
    concat (map (fips_round_key 4 key) [0..<Suc n]) @ drop (16 * Suc n) buf"
  using assms(3)
proof (induction n)
  case 0
  then show ?case
    using assms(1) fips_round_key_0 [of key 4] by (simp add: blit_def)
next
  case (Suc n)
  let ?rk = "fips_round_key 4 key"
  have len: "length (?rk j) = 16" for j using length_fips_round_key [of key 4] assms(1) by simp
  have "drop (16 * Suc n) buf = take 16 (drop (16 * Suc n) buf) @ drop (16 * Suc (Suc n)) buf"
    using append_take_drop_id [of 16 "drop (16 * Suc n) buf"] by (simp add: add.commute)
  then have "concat (map ?rk [0..<Suc n]) @ drop (16 * Suc n) buf =
      concat (map ?rk [0..<n]) @ ?rk n @ take 16 (drop (16 * Suc n) buf) @ drop (16 * Suc (Suc n)) buf"
    by simp
  moreover have "expandKey_round
      (concat (map ?rk [0..<n]) @ ?rk n @ take 16 (drop (16 * Suc n) buf) @ drop (16 * Suc (Suc n)) buf) (Suc n) =
    concat (map ?rk [0..<n]) @ ?rk n @ ?rk (Suc n) @ drop (16 * Suc (Suc n)) buf"
    using Suc.prems assms len
    by (subst expandKey_round_step) (simp_all add: length_concat16 Rcon_fips round_key_128 del: fips_Rcon.simps)
  ultimately show ?case
    using Suc by simp
qed

lemma expandKey_fips:
  assumes "length key = 16" and "length buf = 176"
  shows "expandKey buf key = concat (map (fips_round_key 4 key) [0..<11])"
  using expandKey_rounds [OF assms, of 10] assms by (simp add: expandKey_def del: upt_Suc upt_rec_numeral)

section \<open>Results\<close>

lemma aes128_sw_fips:
  assumes "length s = 16" and "length key = 16" and "length buf = 176"
  shows "aes_encr s (expandKey buf key) = fips_Cipher 10 (fips_round_key 4 key) s"
    and "aes_decr s (expandKey buf key) = fips_InvCipher 10 (fips_round_key 4 key) s"
proof -
  let ?ek = "expandKey buf key"
  have len: "length (fips_round_key 4 key j) = 16" for j using length_fips_round_key [of key 4] assms(2) by simp
  have ek: "?ek = concat (map (fips_round_key 4 key) [0..<11])" using assms by (simp add: expandKey_fips)
  have "key128 ?ek i = fips_round_key 4 key i" if "i \<le> 10" for i
    unfolding ek using key128_nth [of "fips_round_key 4 key" i 11 "[]"] len that by simp
  moreover have "length ?ek = 176" unfolding ek using len by (simp add: length_concat16)
  ultimately show "aes_encr s ?ek = fips_Cipher 10 (fips_round_key 4 key) s"
    "aes_decr s ?ek = fips_InvCipher 10 (fips_round_key 4 key) s"
    using assms(1) fips_Cipher_cong [of 10 "key128 ?ek" "fips_round_key 4 key" s]
    by (simp_all add: aes_encr_fips aes_decr_fips)
qed

text \<open>
  C8. On a processor without AES instructions, \<^verbatim>\<open>AES128_init_ctx\<close> succeeds for every key
  and \<^verbatim>\<open>AES128_ECB_encrypt\<close> and \<^verbatim>\<open>AES128_ECB_decrypt\<close> compute the cipher and the inverse
  cipher of FIPS 197 under that key; so decrypting inverts encrypting.
\<close>

theorem AES128_software:
  assumes "length key = 16" and "16 \<le> length input" and "\<not> bit ecx 25"
  shows "\<exists>c. AES128_init_ctx isa ecx (-1) ctx (Some key) encrypt = Some (0, c, 0) \<and>
    AES128_ECB_encrypt isa c input = fips_Cipher 10 (fips_round_key 4 key) (take 16 input) \<and>
    AES128_ECB_decrypt isa c input = fips_InvCipher 10 (fips_round_key 4 key) (take 16 input) \<and>
    AES128_ECB_decrypt isa c (AES128_ECB_encrypt isa c input) = take 16 input"
proof -
  have len: "length (fips_round_key 4 key j) = 16" for j using length_fips_round_key [of key 4] assms(1) by simp
  let ?c = "\<lparr>a_roundkey = expandKey (replicate 176 0) key, a_have_hw = 0\<rparr>"
  have hw: "cpu_supports_aes ecx (-1) = 0"
    using assms(3) by (simp add: cpu_supports_aes_bit)
  then have "AES128_init_ctx isa ecx (-1) ctx (Some key) encrypt = Some (0, ?c, 0)"
    by (simp add: AES128_init_ctx_def Let_def)
  moreover have "AES128_ECB_encrypt isa ?c b = fips_Cipher 10 (fips_round_key 4 key) (take 16 b)"
    "AES128_ECB_decrypt isa ?c b = fips_InvCipher 10 (fips_round_key 4 key) (take 16 b)" if "16 \<le> length b" for b
    using that assms(1) by (simp_all add: AES128_ECB_encrypt_def AES128_ECB_decrypt_def aes128_sw_fips)
  ultimately show ?thesis
    using assms(2) len by (intro exI [of _ ?c]) (simp add: fips_InvCipher_Cipher)
qed

theorem AES128_software_witness:
  "\<exists>c. AES128_init_ctx x86_manual 0 (-1) \<lparr>a_roundkey = [], a_have_hw = 0\<rparr> (Some (replicate 16 3)) 1 = Some (0, c, 0) \<and>
     AES128_ECB_decrypt x86_manual c (AES128_ECB_encrypt x86_manual c (replicate 20 9)) = replicate 16 9"
  using AES128_software [of "replicate 16 3" "replicate 20 9" 0 x86_manual "\<lparr>a_roundkey = [], a_have_hw = 0\<rparr>" 1] by auto

text \<open>
  C24. The hardware path and the software path of \<^verbatim>\<open>AES128_ECB_encrypt\<close> give the same
  ciphertext for every key and block, given intrinsics that behave as documented.
\<close>

theorem AES128_hw_sw_agree:
  assumes "x86_documented isa" and "length key = 16" and "16 \<le> length input"
    and "bit ecx 25" and "\<not> bit ecx' 25" and "encrypt \<noteq> 0"
  shows "\<exists>c c'. AES128_init_ctx isa ecx (-1) ctx (Some key) encrypt = Some (0, c, 1) \<and>
    AES128_init_ctx isa ecx' (-1) ctx (Some key) encrypt = Some (0, c', 0) \<and>
    AES128_ECB_encrypt isa c input = AES128_ECB_encrypt isa c' input"
proof -
  have len: "length (fips_round_key 4 key j) = 16" for j using length_fips_round_key [of key 4] assms(2) by simp
  let ?rk = "concat (map (fips_round_key 4 key) [0..<11])"
  let ?c = "\<lparr>a_roundkey = ?rk, a_have_hw = 3\<rparr>"
  let ?c' = "\<lparr>a_roundkey = expandKey (replicate 176 0) key, a_have_hw = 0\<rparr>"
  have hw: "cpu_supports_aes ecx (-1) = 1" "cpu_supports_aes ecx' (-1) = 0"
    using assms(4, 5) by (simp_all add: cpu_supports_aes_bit)
  have "AES_expand_key isa key (replicate 176 0) 128 encrypt = Some (0, ?rk)"
    using assms(6) AES_128_Key_Expansion_fips [OF assms(1, 2), of "replicate 176 0"]
    by (simp add: AES_expand_key_def del: upt_rec_numeral)
  then have "AES128_init_ctx isa ecx (-1) ctx (Some key) encrypt = Some (0, ?c, 1)"
    using hw assms(6) by (simp add: AES128_init_ctx_def Let_def del: upt_rec_numeral)
  moreover have "AES128_init_ctx isa ecx' (-1) ctx (Some key) encrypt = Some (0, ?c', 0)"
    using hw by (simp add: AES128_init_ctx_def Let_def)
  moreover have "holds_keys ?rk 10 (fips_round_key 4 key)"
    using holds_keys_schedule [of "fips_round_key 4 key" 10 "[]"] len by (simp del: upt_rec_numeral)
  ultimately show ?thesis
    using assms(1, 2, 3)
    by (intro exI [of _ ?c] exI [of _ ?c'])
      (simp add: AES128_ECB_encrypt_def AES128_ECB_encrypt_block_fips aes128_sw_fips del: upt_rec_numeral)
qed

theorem AES128_hw_sw_agree_witness:
  "\<exists>c c'. AES128_init_ctx x86_manual 0x2000000 (-1) \<lparr>a_roundkey = [], a_have_hw = 0\<rparr> (Some (replicate 16 3)) 1 = Some (0, c, 1) \<and>
     AES128_init_ctx x86_manual 0 (-1) \<lparr>a_roundkey = [], a_have_hw = 0\<rparr> (Some (replicate 16 3)) 1 = Some (0, c', 0) \<and>
     AES128_ECB_encrypt x86_manual c (replicate 16 9) = AES128_ECB_encrypt x86_manual c' (replicate 16 9)"
  using AES128_hw_sw_agree [of x86_manual "replicate 16 3" "replicate 16 9" "0x2000000" 0 1 "\<lparr>a_roundkey = [], a_have_hw = 0\<rparr>"]
  by (simp add: x86_documented_def)

end
