(* ===== verification/Mutex.thy ===== *)
theory Mutex
  imports Main
begin

text \<open>
  The locks of the library under Linux: the spinlock of \<^verbatim>\<open>samthread.h\<close> and the futex based
  mutex of \<^verbatim>\<open>mutex.c\<close>, as step relations in which any number of threads interleave. A
  step is one access to shared memory or one system call; the program counter of a thread
  says which statement it executes next. Every thread runs lock and unlock in a loop.
\<close>

section \<open>Lists of program counters\<close>

definition number :: "('a \<Rightarrow> bool) \<Rightarrow> 'a list \<Rightarrow> nat" where
  "number P xs = length (filter P xs)"

lemma number_update:
  "t < length xs \<Longrightarrow> number P (xs[t := v]) + of_bool (P (xs ! t)) = number P xs + of_bool (P v)"
proof (induction xs arbitrary: t)
  case (Cons x xs)
  then show ?case using Cons.IH [of "t - 1"] by (cases t) (auto simp: number_def)
qed simp

lemma number_update_int:
  "t < length xs \<Longrightarrow> int (number P (xs[t := v])) = int (number P xs) + of_bool (P v) - of_bool (P (xs ! t))"
  using number_update [of t xs P v] by (auto simp: of_bool_def split: if_splits)

lemma number_pos: "t < length xs \<Longrightarrow> P (xs ! t) \<Longrightarrow> 0 < number P xs"
  by (auto simp: number_def filter_empty_conv)

lemma number_le_1:
  assumes "number P xs \<le> 1" and "t < length xs" "u < length xs" and "P (xs ! t)" "P (xs ! u)"
  shows "t = u"
  using assms
proof (induction xs arbitrary: t u)
  case (Cons x xs)
  show ?case
  proof (cases "P x")
    case True
    then have "number P xs = 0" using Cons.prems(1) by (simp add: number_def)
    then have "\<not> P (xs ! i)" if "i < length xs" for i using number_pos [OF that, of P] by auto
    then show ?thesis using Cons.prems by (auto simp: nth_Cons' split: if_splits)
  next
    case False
    then have "t \<noteq> 0" "u \<noteq> 0" using Cons.prems by (auto simp: nth_Cons' split: if_splits)
    moreover have "number P xs \<le> 1" using False Cons.prems(1) by (simp add: number_def)
    ultimately show ?thesis
      using Cons.IH [of "t - 1" "u - 1"] Cons.prems False by (cases t; cases u) auto
  qed
qed simp

section \<open>What a lock promises\<close>

text \<open>
  Mutual exclusion of a lock, from an invariant that bounds the number of owners: the
  interface between the step relation of a lock and its users.
\<close>

locale exclusive_lock =
  fixes init :: "nat \<Rightarrow> 's"
    and step :: "'s \<Rightarrow> 's \<Rightarrow> bool"
    and pcs :: "'s \<Rightarrow> 'p list"
    and owner :: "'p \<Rightarrow> bool"
    and inv :: "'s \<Rightarrow> bool"
  assumes inv_init: "inv (init n)"
    and inv_step: "step s s' \<Longrightarrow> inv s \<Longrightarrow> inv s'"
    and one_owner: "inv s \<Longrightarrow> number owner (pcs s) \<le> 1"
begin

lemma inv_reachable: "step\<^sup>*\<^sup>* (init n) s \<Longrightarrow> inv s"
  by (induction rule: rtranclp_induct) (auto intro: inv_init inv_step)

lemma exclusion:
  assumes "step\<^sup>*\<^sup>* (init n) s" and "t < length (pcs s)" "u < length (pcs s)"
    and "owner (pcs s ! t)" "owner (pcs s ! u)"
  shows "t = u"
  using number_le_1 [OF one_owner [OF inv_reachable [OF assms(1)]] assms(2-5)] .

end

section \<open>The spinlock\<close>

datatype spin_pc = SIdle | SLock | SYield | SHeld

record spin_state =
  sl_lock :: nat
  sl_pcs :: "spin_pc list"

text \<open>
  \<open>SLock\<close> stands before the compare and swap, \<open>SYield\<close> before \<^verbatim>\<open>sched_yield\<close>,
  \<open>SHeld\<close> is the critical section, which ends with the store of \<^verbatim>\<open>spin_unlock\<close>.
\<close>

inductive spin_step :: "spin_state \<Rightarrow> spin_state \<Rightarrow> bool" where
  spin_call: "t < length (sl_pcs s) \<Longrightarrow> sl_pcs s ! t = SIdle \<Longrightarrow>
    spin_step s (s\<lparr>sl_pcs := (sl_pcs s)[t := SLock]\<rparr>)"
| spin_cas_ok: "t < length (sl_pcs s) \<Longrightarrow> sl_pcs s ! t = SLock \<Longrightarrow> sl_lock s = 0 \<Longrightarrow>
    spin_step s (s\<lparr>sl_lock := 1, sl_pcs := (sl_pcs s)[t := SHeld]\<rparr>)"
| spin_cas_fail: "t < length (sl_pcs s) \<Longrightarrow> sl_pcs s ! t = SLock \<Longrightarrow> sl_lock s \<noteq> 0 \<Longrightarrow>
    spin_step s (s\<lparr>sl_pcs := (sl_pcs s)[t := SYield]\<rparr>)"
| spin_yield: "t < length (sl_pcs s) \<Longrightarrow> sl_pcs s ! t = SYield \<Longrightarrow>
    spin_step s (s\<lparr>sl_pcs := (sl_pcs s)[t := SLock]\<rparr>)"
| spin_unlock: "t < length (sl_pcs s) \<Longrightarrow> sl_pcs s ! t = SHeld \<Longrightarrow>
    spin_step s (s\<lparr>sl_lock := 0, sl_pcs := (sl_pcs s)[t := SIdle]\<rparr>)"

definition spin_init :: "nat \<Rightarrow> spin_state" where
  "spin_init n = \<lparr>sl_lock = 0, sl_pcs = replicate n SIdle\<rparr>"

inductive_cases spin_stepE: "spin_step s s'"

definition spin_inv :: "spin_state \<Rightarrow> bool" where
  "spin_inv s \<longleftrightarrow> sl_lock s = number (\<lambda>p. p = SHeld) (sl_pcs s) \<and> sl_lock s \<le> 1"

lemma number_replicate: "\<not> P x \<Longrightarrow> number P (replicate n x) = 0"
  by (simp add: number_def)

lemma spin_inv_step: "spin_step s s' \<Longrightarrow> spin_inv s \<Longrightarrow> spin_inv s'"
proof (induction rule: spin_step.induct)
  case (spin_unlock t s)
  then show ?case
    using number_update [of t "sl_pcs s" "\<lambda>p. p = SHeld" SIdle]
      number_pos [of t "sl_pcs s" "\<lambda>p. p = SHeld"] by (simp add: spin_inv_def)
qed (use number_update [of _ "sl_pcs _" "\<lambda>p. p = SHeld"] in \<open>fastforce simp: spin_inv_def\<close>)+

interpretation spin: exclusive_lock spin_init spin_step sl_pcs "\<lambda>p. p = SHeld" spin_inv
  by unfold_locales (auto simp: spin_inv_step, auto simp: spin_inv_def spin_init_def number_replicate)

text \<open>
  C34. The spinlock is a lock: in no state that any interleaving of any number of threads
  reaches are two threads between \<^verbatim>\<open>spin_lock\<close> and \<^verbatim>\<open>spin_unlock\<close>, and the lock word is 1
  exactly when one thread is.
\<close>

theorem spinlock_exclusion:
  assumes "spin_step\<^sup>*\<^sup>* (spin_init n) s" and "t < length (sl_pcs s)" and "sl_pcs s ! t = SHeld"
  shows "sl_lock s = 1 \<and> (\<forall>u < length (sl_pcs s). sl_pcs s ! u = SHeld \<longrightarrow> u = t)"
proof -
  have "spin_inv s" by (rule spin.inv_reachable [OF assms(1)])
  then have "sl_lock s = 1"
    using number_pos [of t "sl_pcs s" "\<lambda>p. p = SHeld"] assms(2, 3) by (simp add: spin_inv_def)
  then show ?thesis using spin.exclusion [OF assms(1) _ assms(2) _ assms(3)] by blast
qed

theorem spinlock_exclusion_witness:
  "sl_lock \<lparr>sl_lock = 1, sl_pcs = [SIdle, SHeld]\<rparr> = 1 \<and>
   spin_step\<^sup>*\<^sup>* (spin_init 2) \<lparr>sl_lock = 1, sl_pcs = [SIdle, SHeld]\<rparr>"
proof -
  have "spin_step (spin_init 2) \<lparr>sl_lock = 0, sl_pcs = [SIdle, SLock]\<rparr>"
    using spin_call [of 1 "spin_init 2"] by (simp add: spin_init_def numeral_2_eq_2)
  moreover have "spin_step \<lparr>sl_lock = 0, sl_pcs = [SIdle, SLock]\<rparr> \<lparr>sl_lock = 1, sl_pcs = [SIdle, SHeld]\<rparr>"
    using spin_cas_ok [of 1 "\<lparr>sl_lock = 0, sl_pcs = [SIdle, SLock]\<rparr>"] by simp
  ultimately have reach: "spin_step\<^sup>*\<^sup>* (spin_init 2) \<lparr>sl_lock = 1, sl_pcs = [SIdle, SHeld]\<rparr>"
    by (meson converse_rtranclp_into_rtranclp rtranclp.rtrancl_refl)
  show ?thesis using spinlock_exclusion [OF reach, of 1] reach by simp
qed

section \<open>The mutex\<close>

text \<open>
  The statements of \<^verbatim>\<open>mutex_lock\<close> and \<^verbatim>\<open>mutex_unlock\<close>: the first compare and exchange, the
  increment of \<^verbatim>\<open>count\<close>, the compare and exchange in the loop, the decrement, the call of
  \<^verbatim>\<open>futex\<close> and the sleep in it; the critical section; the exchange of the unlock, the
  test with the value \<open>r\<close> it returned, the store \<^verbatim>\<open>mutex->state = 0\<close> and the wake-up.
\<close>

datatype mutex_pc = Idle | LockFast | LockInc | LockLoop | LockDec | LockWait | LockSleep
  | Critical | UnlockXchg | UnlockTest int | UnlockStore | UnlockWake

record mutex_state =
  mx_state :: int
  mx_count :: int
  mx_pcs :: "mutex_pc list"

text \<open>The value \<^verbatim>\<open>lock cmpxchg\<close> leaves in memory; it returns the old one.\<close>

definition atomic_exchange :: "int \<Rightarrow> int \<Rightarrow> int \<Rightarrow> int" where
  "atomic_exchange v old new = (if v = old then new else v)"

definition goto :: "nat \<Rightarrow> mutex_pc \<Rightarrow> mutex_state \<Rightarrow> mutex_state" where
  "goto t pc s = s\<lparr>mx_pcs := (mx_pcs s)[t := pc]\<rparr>"

text \<open>
  One statement of thread \<open>t\<close>. A sleeping thread leaves \<^verbatim>\<open>futex\<close> when it is woken, and also
  for no reason or on a signal, as the system call allows; the wake-up step wakes at most
  one sleeper, which the free choice of the sleepers' steps covers.
\<close>

fun mutex_exec :: "nat \<Rightarrow> mutex_pc \<Rightarrow> mutex_state \<Rightarrow> mutex_state" where
  "mutex_exec t Idle s = goto t LockFast s"
| "mutex_exec t LockFast s =
     goto t (if mx_state s = 0 then Critical else LockInc) (s\<lparr>mx_state := atomic_exchange (mx_state s) 0 1\<rparr>)"
| "mutex_exec t LockInc s = goto t LockLoop (s\<lparr>mx_count := mx_count s + 1\<rparr>)"
| "mutex_exec t LockLoop s =
     goto t (if mx_state s = 0 then LockDec else LockWait) (s\<lparr>mx_state := atomic_exchange (mx_state s) 0 1\<rparr>)"
| "mutex_exec t LockDec s = goto t Critical (s\<lparr>mx_count := mx_count s - 1\<rparr>)"
| "mutex_exec t LockWait s = goto t (if mx_state s = 1 then LockSleep else LockLoop) s"
| "mutex_exec t LockSleep s = goto t LockLoop s"
| "mutex_exec t Critical s = goto t UnlockXchg s"
| "mutex_exec t UnlockXchg s =
     goto t (UnlockTest (mx_state s)) (s\<lparr>mx_state := atomic_exchange (mx_state s) 1 0\<rparr>)"
| "mutex_exec t (UnlockTest r) s = goto t (if r \<noteq> 1 \<or> mx_count s \<noteq> 0 then UnlockStore else Idle) s"
| "mutex_exec t UnlockStore s = goto t UnlockWake (s\<lparr>mx_state := 0\<rparr>)"
| "mutex_exec t UnlockWake s = goto t Idle s"

inductive mutex_step :: "mutex_state \<Rightarrow> mutex_state \<Rightarrow> bool" where
  mutex_thread: "t < length (mx_pcs s) \<Longrightarrow> mutex_step s (mutex_exec t (mx_pcs s ! t) s)"

text \<open>The steps other than the store \<^verbatim>\<open>mutex->state = 0\<close> in \<^verbatim>\<open>mutex_unlock\<close>.\<close>

inductive quiet_step :: "mutex_state \<Rightarrow> mutex_state \<Rightarrow> bool" where
  quiet_thread: "t < length (mx_pcs s) \<Longrightarrow> mx_pcs s ! t \<noteq> UnlockStore \<Longrightarrow>
    quiet_step s (mutex_exec t (mx_pcs s ! t) s)"

definition mutex_init :: "nat \<Rightarrow> mutex_state" where
  "mutex_init n = \<lparr>mx_state = 0, mx_count = 0, mx_pcs = replicate n Idle\<rparr>"

text \<open>The state that a schedule, a sequence of thread numbers, leads to.\<close>

definition schedule :: "mutex_state \<Rightarrow> nat list \<Rightarrow> mutex_state" where
  "schedule s ts = foldl (\<lambda>s t. mutex_exec t (mx_pcs s ! t) s) s ts"

definition waiting :: "mutex_pc \<Rightarrow> bool" where
  "waiting pc \<longleftrightarrow> pc \<in> {LockLoop, LockDec, LockWait, LockSleep}"

definition owns :: "mutex_pc \<Rightarrow> bool" where
  "owns pc \<longleftrightarrow> pc \<in> {Critical, LockDec, UnlockXchg}"

lemma goto_sel [simp]:
  "mx_state (goto t pc s) = mx_state s" "mx_count (goto t pc s) = mx_count s"
  "mx_pcs (goto t pc s) = (mx_pcs s)[t := pc]"
  by (simp_all add: goto_def)

lemma length_exec [simp]: "length (mx_pcs (mutex_exec t pc s)) = length (mx_pcs s)"
  by (cases pc) simp_all

lemma schedule_reachable:
  "list_all (\<lambda>t. t < length (mx_pcs s)) ts \<Longrightarrow> mutex_step\<^sup>*\<^sup>* s (schedule s ts)"
proof (induction ts arbitrary: s)
  case (Cons t ts)
  then show ?case
    using mutex_thread [of t s] by (simp add: schedule_def converse_rtranclp_into_rtranclp)
qed (simp add: schedule_def)

definition count_exact :: "mutex_state \<Rightarrow> bool" where
  "count_exact s \<longleftrightarrow> mx_count s = int (number waiting (mx_pcs s))"

lemma count_exact_step: "mutex_step s s' \<Longrightarrow> count_exact s \<Longrightarrow> count_exact s'"
proof (induction rule: mutex_step.induct)
  case (mutex_thread t s)
  then show ?case
    using number_update_int [of t "mx_pcs s" waiting]
    by (cases "mx_pcs s ! t") (auto simp: waiting_def count_exact_def)
qed

text \<open>
  C35. The counter of the mutex is exact: in every state that any schedule of any number of
  threads reaches, \<^verbatim>\<open>count\<close> is the number of threads that are in the slow path of
  \<^verbatim>\<open>mutex_lock\<close>, between the increment and the decrement; in particular it is never
  negative.
\<close>

theorem mutex_count_exact:
  assumes "mutex_step\<^sup>*\<^sup>* (mutex_init n) s"
  shows "mx_count s = int (number waiting (mx_pcs s))"
proof -
  have "count_exact s"
    using assms
  proof (induction rule: rtranclp_induct)
    case base
    then show ?case by (simp add: count_exact_def mutex_init_def number_replicate waiting_def)
  qed (rule count_exact_step)
  then show ?thesis by (simp add: count_exact_def)
qed

theorem mutex_count_exact_witness:
  "mx_count (schedule (mutex_init 2) [0, 0, 1, 1, 1]) = int (number waiting [Critical, LockLoop])"
proof -
  have s: "schedule (mutex_init 2) [0, 0, 1, 1, 1] = \<lparr>mx_state = 1, mx_count = 1, mx_pcs = [Critical, LockLoop]\<rparr>"
    by (simp add: schedule_def mutex_init_def goto_def atomic_exchange_def numeral_2_eq_2)
  have "list_all (\<lambda>t. t < length (mx_pcs (mutex_init 2))) [0, 0, 1, 1, 1]" by (simp add: mutex_init_def)
  from mutex_count_exact [OF schedule_reachable [OF this]] show ?thesis unfolding s by simp
qed

text \<open>
  C36. The mutex does not exclude: two threads are enough to reach a state in which both are
  in the critical section. Between the exchange of \<^verbatim>\<open>mutex_unlock\<close>, which already frees the
  mutex, and its store \<^verbatim>\<open>mutex->state = 0\<close>, a waiting thread takes the mutex; the store
  frees it again while that thread owns it.
\<close>

theorem mutex_not_exclusive:
  "\<exists>s. mutex_step\<^sup>*\<^sup>* (mutex_init 2) s \<and> mx_pcs s = [Critical, Critical]"
proof -
  let ?ts = "[0, 0, 1, 1, 1, 0, 0, 1, 0, 0, 0, 0, 0, 1]"
  have "mx_pcs (schedule (mutex_init 2) ?ts) = [Critical, Critical]"
    by (simp add: schedule_def mutex_init_def goto_def atomic_exchange_def numeral_2_eq_2)
  moreover have "list_all (\<lambda>t. t < length (mx_pcs (mutex_init 2))) ?ts" by (simp add: mutex_init_def)
  ultimately show ?thesis using schedule_reachable by blast
qed

definition quiet_inv :: "mutex_state \<Rightarrow> bool" where
  "quiet_inv s \<longleftrightarrow> mx_state s = int (number owns (mx_pcs s)) \<and> mx_state s \<le> 1"

lemma quiet_inv_step: "quiet_step s s' \<Longrightarrow> quiet_inv s \<Longrightarrow> quiet_inv s'"
proof (induction rule: quiet_step.induct)
  case (quiet_thread t s)
  then show ?case
    using number_update_int [of t "mx_pcs s" owns] number_pos [of t "mx_pcs s" owns]
    by (cases "mx_pcs s ! t") (auto simp: owns_def quiet_inv_def atomic_exchange_def)
qed

interpretation quiet: exclusive_lock mutex_init quiet_step mx_pcs owns quiet_inv
  by unfold_locales (auto simp: quiet_inv_step, auto simp: quiet_inv_def mutex_init_def number_replicate owns_def)

text \<open>
  The store is the only culprit: as long as no thread executes \<^verbatim>\<open>mutex->state = 0\<close> in
  \<^verbatim>\<open>mutex_unlock\<close>, the mutex excludes, and \<^verbatim>\<open>state\<close> is 1 exactly when some thread owns it,
  whatever the interleaving, the number of threads and the spurious returns of \<^verbatim>\<open>futex\<close>.
\<close>

theorem mutex_exclusive_without_store:
  assumes "quiet_step\<^sup>*\<^sup>* (mutex_init n) s" and "t < length (mx_pcs s)" and "owns (mx_pcs s ! t)"
  shows "mx_state s = 1 \<and> (\<forall>u < length (mx_pcs s). owns (mx_pcs s ! u) \<longrightarrow> u = t)"
proof -
  have "quiet_inv s" by (rule quiet.inv_reachable [OF assms(1)])
  then have "mx_state s = 1"
    using number_pos [of t "mx_pcs s" owns] assms(2, 3) by (simp add: quiet_inv_def)
  then show ?thesis using quiet.exclusion [OF assms(1) _ assms(2) _ assms(3)] by blast
qed

theorem mutex_exclusive_without_store_witness:
  "quiet_step\<^sup>*\<^sup>* (mutex_init 1) \<lparr>mx_state = 1, mx_count = 0, mx_pcs = [Critical]\<rparr> \<and>
   mx_state \<lparr>mx_state = 1, mx_count = 0, mx_pcs = [Critical]\<rparr> = 1"
proof -
  have "quiet_step (mutex_init 1) \<lparr>mx_state = 0, mx_count = 0, mx_pcs = [LockFast]\<rparr>"
    using quiet_thread [of 0 "mutex_init 1"] by (simp add: mutex_init_def goto_def)
  moreover have "quiet_step \<lparr>mx_state = 0, mx_count = 0, mx_pcs = [LockFast]\<rparr>
      \<lparr>mx_state = 1, mx_count = 0, mx_pcs = [Critical]\<rparr>"
    using quiet_thread [of 0 "\<lparr>mx_state = 0, mx_count = 0, mx_pcs = [LockFast]\<rparr>"]
    by (simp add: goto_def atomic_exchange_def)
  ultimately have reach: "quiet_step\<^sup>*\<^sup>* (mutex_init 1) \<lparr>mx_state = 1, mx_count = 0, mx_pcs = [Critical]\<rparr>"
    by (meson converse_rtranclp_into_rtranclp rtranclp.rtrancl_refl)
  show ?thesis
    using mutex_exclusive_without_store [OF reach, of 0] reach by (simp add: owns_def)
qed

end
