(* ===== verification/Samthread.thy ===== *)
theory Samthread
  imports Prelude
begin

text \<open>
  Thread creation and join of \<^verbatim>\<open>samthread.c\<close> under Linux, as a step relation between the
  new thread, which runs \<^verbatim>\<open>samthread_func\<close> on its own stack, and the thread that calls
  \<^verbatim>\<open>samthread_join\<close>. The descriptor lies at the low end of the stack that is mapped by
  \<^verbatim>\<open>samthread_create\<close> and unmapped by \<^verbatim>\<open>samthread_join\<close>.
\<close>

section \<open>Creation\<close>

record athread =
  th_tid :: int
  th_stack_size :: int
  th_rc :: int

text \<open>
  The results of the system calls: \<^verbatim>\<open>getrlimit\<close> fails or gives the stack size,
  \<^verbatim>\<open>mmap\<close> gives an address or \<^verbatim>\<open>MAP_FAILED\<close>, which is -1, \<^verbatim>\<open>clone\<close> returns a process id or -1 with an
  error number.
\<close>

record create_env =
  env_rlimit :: "nat option"
  env_mmap :: int
  env_clone :: int
  env_errno :: int

text \<open>
  Return value, error number and what is left mapped: the address and its descriptor. The
  argument says whether a function was given.
\<close>

definition samthread_create :: "bool \<Rightarrow> create_env \<Rightarrow> int \<times> int \<times> (int \<times> athread) option" where
  "samthread_create fn env =
     (if \<not> fn then (-1, EINVAL, None)
      else
        case env_rlimit env of
          None \<Rightarrow> (-1, env_errno env, None)
        | Some sz \<Rightarrow>
            let stack = env_mmap env
            in if stack = -1 then (-1, env_errno env, None)
               else
                 let f = \<lparr>th_tid = 1, th_stack_size = int_of_size sz, th_rc = -1\<rparr>
                 in if env_clone env = -1 then (-1, env_errno env, None)
                    else (stack, env_errno env, Some (stack, f)))"

section \<open>Running and joining\<close>

text \<open>
  The child is running its function, has stored the return code, has cleared \<^verbatim>\<open>tid\<close>, or has
  left the stack by \<^verbatim>\<open>exit\<close>; the kernel then clears \<^verbatim>\<open>tid\<close> again
  (\<^verbatim>\<open>CLONE_CHILD_CLEARTID\<close>). The parent has not called join, sleeps in \<^verbatim>\<open>futex\<close>, is behind
  it, or has returned from join with a value.
\<close>

datatype child_pc = CRun | CStored | CCleared | CExited

datatype parent_pc = PBefore | PSleep | PAwake | PReturned int

record join_state =
  j_thread :: athread
  j_mapped :: bool
  j_child :: child_pc
  j_parent :: parent_pc

text \<open>\<open>v\<close> is the value the function of the thread returns.\<close>

inductive join_step :: "int \<Rightarrow> join_state \<Rightarrow> join_state \<Rightarrow> bool" for v where
  child_rc: "j_child s = CRun \<Longrightarrow>
    join_step v s (s\<lparr>j_thread := (j_thread s)\<lparr>th_rc := v\<rparr>, j_child := CStored\<rparr>)"
| child_tid: "j_child s = CStored \<Longrightarrow>
    join_step v s (s\<lparr>j_thread := (j_thread s)\<lparr>th_tid := 0\<rparr>, j_child := CCleared\<rparr>)"
| child_exit: "j_child s = CCleared \<Longrightarrow> join_step v s (s\<lparr>j_child := CExited\<rparr>)"
| join_wait: "j_parent s = PBefore \<Longrightarrow> th_tid (j_thread s) = 1 \<Longrightarrow> join_step v s (s\<lparr>j_parent := PSleep\<rparr>)"
| join_nowait: "j_parent s = PBefore \<Longrightarrow> th_tid (j_thread s) \<noteq> 1 \<Longrightarrow> join_step v s (s\<lparr>j_parent := PAwake\<rparr>)"
| join_woken: "j_parent s = PSleep \<Longrightarrow> th_tid (j_thread s) \<noteq> 1 \<Longrightarrow> join_step v s (s\<lparr>j_parent := PAwake\<rparr>)"
| join_return: "j_parent s = PAwake \<Longrightarrow>
    join_step v s (s\<lparr>j_mapped := False, j_parent := PReturned (th_rc (j_thread s))\<rparr>)"

text \<open>The system call may also return on a signal, with \<^verbatim>\<open>EINTR\<close>; the source does not look.\<close>

inductive signal_step :: "int \<Rightarrow> join_state \<Rightarrow> join_state \<Rightarrow> bool" for v where
  signal_join: "join_step v s s' \<Longrightarrow> signal_step v s s'"
| signal_intr: "j_parent s = PSleep \<Longrightarrow> signal_step v s (s\<lparr>j_parent := PAwake\<rparr>)"

definition join_init :: "athread \<Rightarrow> join_state" where
  "join_init f = \<lparr>j_thread = f, j_mapped = True, j_child = CRun, j_parent = PBefore\<rparr>"

text \<open>
  The call of \<^verbatim>\<open>samthread_join\<close>: the result of a failed create is refused with
  \<^verbatim>\<open>EINVAL\<close>, any other goes on to the wait.
\<close>

definition samthread_join :: "int \<Rightarrow> athread \<Rightarrow> (int \<times> int) + join_state" where
  "samthread_join tid f = (if tid = -1 then Inl (-1, EINVAL) else Inr (join_init f))"

lemma samthread_join_failed_create:
  assumes "samthread_create fn env = (tid, e, None)"
  shows "samthread_join tid f = Inl (-1, EINVAL)"
  using assms by (auto simp: samthread_create_def samthread_join_def Let_def split: if_splits option.splits)

definition join_inv :: "int \<Rightarrow> join_state \<Rightarrow> bool" where
  "join_inv v s \<longleftrightarrow>
     (th_tid (j_thread s) = 1 \<longleftrightarrow> j_child s \<in> {CRun, CStored}) \<and>
     (j_child s \<noteq> CRun \<longrightarrow> th_rc (j_thread s) = v) \<and>
     (j_parent s = PAwake \<longrightarrow> j_child s \<in> {CCleared, CExited}) \<and>
     (\<forall>r. j_parent s = PReturned r \<longrightarrow> r = v \<and> j_child s \<in> {CCleared, CExited})"

lemma join_inv_step: "join_step v s s' \<Longrightarrow> join_inv v s \<Longrightarrow> join_inv v s'"
  by (induction rule: join_step.induct) (auto simp: join_inv_def, (metis child_pc.exhaust)+)

lemma join_inv_reachable:
  assumes "th_tid f = 1"
  shows "(join_step v)\<^sup>*\<^sup>* (join_init f) s \<Longrightarrow> join_inv v s"
  by (induction rule: rtranclp_induct)
    (use assms in \<open>auto simp: join_inv_step\<close>, simp add: join_inv_def join_init_def)

text \<open>
  C37. Creating and joining a thread: whenever \<^verbatim>\<open>samthread_create\<close> succeeds,
  \<^verbatim>\<open>samthread_join\<close> accepts its result, and when the wait in \<^verbatim>\<open>futex\<close> ends only by
  the word leaving 1 (no signal, no spurious return), a join that returns gives the value
  the thread's function returned, after the thread has stored it.
\<close>

theorem samthread_join_value:
  assumes "samthread_create fn env = (tid, e, Some (addr, f))"
    and "(join_step v)\<^sup>*\<^sup>* (join_init f) s" and "j_parent s = PReturned r"
  shows "tid = addr \<and> samthread_join tid f = Inr (join_init f) \<and> r = v \<and> j_child s \<in> {CCleared, CExited}"
proof -
  have "th_tid f = 1" "tid = addr" "tid \<noteq> -1"
    using assms(1) by (auto simp: samthread_create_def Let_def split: if_splits option.splits)
  then show ?thesis
    using join_inv_reachable [OF _ assms(2)] assms(3) by (auto simp: join_inv_def samthread_join_def)
qed

lemma join_trace:
  assumes "f = \<lparr>th_tid = 1, th_stack_size = sz, th_rc = -1\<rparr>"
  shows "(join_step v)\<^sup>*\<^sup>* (join_init f)
    \<lparr>j_thread = \<lparr>th_tid = 0, th_stack_size = sz, th_rc = v\<rparr>, j_mapped = False, j_child = CCleared, j_parent = PReturned v\<rparr>"
proof -
  let ?s1 = "\<lparr>j_thread = \<lparr>th_tid = 1, th_stack_size = sz, th_rc = v\<rparr>, j_mapped = True, j_child = CStored, j_parent = PBefore\<rparr>"
  let ?s2 = "\<lparr>j_thread = \<lparr>th_tid = 0, th_stack_size = sz, th_rc = v\<rparr>, j_mapped = True, j_child = CCleared, j_parent = PBefore\<rparr>"
  let ?s3 = "\<lparr>j_thread = \<lparr>th_tid = 0, th_stack_size = sz, th_rc = v\<rparr>, j_mapped = True, j_child = CCleared, j_parent = PAwake\<rparr>"
  let ?s4 = "\<lparr>j_thread = \<lparr>th_tid = 0, th_stack_size = sz, th_rc = v\<rparr>, j_mapped = False, j_child = CCleared, j_parent = PReturned v\<rparr>"
  have "join_step v (join_init f) ?s1" using child_rc [of "join_init f" v] assms by (simp add: join_init_def)
  moreover have "join_step v ?s1 ?s2" using child_tid [of ?s1 v] by simp
  moreover have "join_step v ?s2 ?s3" using join_nowait [of ?s2 v] by simp
  moreover have "join_step v ?s3 ?s4" using join_return [of ?s3 v] by simp
  ultimately show ?thesis by (meson converse_rtranclp_into_rtranclp rtranclp.rtrancl_refl)
qed

theorem samthread_join_value_witness:
  "samthread_create True \<lparr>env_rlimit = Some 8192, env_mmap = 4096, env_clone = 7, env_errno = 0\<rparr> =
     (4096, 0, Some (4096, \<lparr>th_tid = 1, th_stack_size = 8192, th_rc = -1\<rparr>)) \<and>
   samthread_join 4096 \<lparr>th_tid = 1, th_stack_size = 8192, th_rc = -1\<rparr> =
     Inr (join_init \<lparr>th_tid = 1, th_stack_size = 8192, th_rc = -1\<rparr>) \<and>
   (\<exists>s. (join_step 42)\<^sup>*\<^sup>* (join_init \<lparr>th_tid = 1, th_stack_size = 8192, th_rc = -1\<rparr>) s \<and>
     j_parent s = PReturned 42 \<and> j_child s \<in> {CCleared, CExited})"
proof -
  have c: "samthread_create True \<lparr>env_rlimit = Some 8192, env_mmap = 4096, env_clone = 7, env_errno = 0\<rparr> =
     (4096, 0, Some (4096, \<lparr>th_tid = 1, th_stack_size = 8192, th_rc = -1\<rparr>))"
    by (simp add: samthread_create_def int_of_size_small)
  note t = join_trace [OF refl, of 42 8192]
  show ?thesis using samthread_join_value [OF c t] c t by force
qed

text \<open>
  C38. A join that comes just after the thread has cleared \<^verbatim>\<open>tid\<close> does not wait for it to
  leave: \<^verbatim>\<open>samthread_join\<close> then unmaps the stack on which the thread is still executing.
\<close>

theorem samthread_join_unmaps_live_stack:
  "\<exists>s. (join_step v)\<^sup>*\<^sup>* (join_init \<lparr>th_tid = 1, th_stack_size = sz, th_rc = -1\<rparr>) s \<and>
     \<not> j_mapped s \<and> j_child s \<noteq> CExited"
  using join_trace [OF refl, of v sz] by force

text \<open>
  A signal in the wait is taken for the end of the thread: join may return the initial
  code -1, and unmap the stack, while the function of the thread is still running.
\<close>

theorem samthread_join_interrupted:
  "\<exists>s. (signal_step v)\<^sup>*\<^sup>* (join_init \<lparr>th_tid = 1, th_stack_size = sz, th_rc = -1\<rparr>) s \<and>
     j_parent s = PReturned (-1) \<and> j_child s = CRun \<and> \<not> j_mapped s"
proof -
  let ?f = "\<lparr>th_tid = 1, th_stack_size = sz, th_rc = -1\<rparr>"
  let ?s1 = "\<lparr>j_thread = ?f, j_mapped = True, j_child = CRun, j_parent = PSleep\<rparr>"
  let ?s2 = "\<lparr>j_thread = ?f, j_mapped = True, j_child = CRun, j_parent = PAwake\<rparr>"
  let ?s3 = "\<lparr>j_thread = ?f, j_mapped = False, j_child = CRun, j_parent = PReturned (-1)\<rparr>"
  have "signal_step v (join_init ?f) ?s1"
    using signal_join [OF join_wait [of "join_init ?f" v]] by (simp add: join_init_def)
  moreover have "signal_step v ?s1 ?s2" using signal_intr [of ?s1 v] by simp
  moreover have "signal_step v ?s2 ?s3" using signal_join [OF join_return [of ?s2 v]] by simp
  ultimately have "(signal_step v)\<^sup>*\<^sup>* (join_init ?f) ?s3"
    by (meson converse_rtranclp_into_rtranclp rtranclp.rtrancl_refl)
  then show ?thesis by force
qed

end
