(* ===== verification/Numstr.thy ===== *)
theory Numstr
  imports Prelude
begin

text \<open>
  Numbers to text, the first half of \<^verbatim>\<open>strfmt.c\<close>: the digits of a number are written to
  the buffer from the least significant one on, the string is terminated and then reversed
  in place. The theory shows that no more of the buffer is touched than the text needs,
  and that the text is the numeral of the value.
\<close>

section \<open>The conversions\<close>

text \<open>The loop of \<^verbatim>\<open>reverse_string\<close>: \<open>len\<close> swaps of the ends of an interval.\<close>

fun reverse_loop :: "nat \<Rightarrow> char list \<Rightarrow> nat \<Rightarrow> nat \<Rightarrow> char list option" where
  "reverse_loop 0 buf start lst = Some buf"
| "reverse_loop (Suc n) buf start lst = do {
     temp \<leftarrow> rd buf lst;
     c \<leftarrow> rd buf start;
     buf \<leftarrow> wr buf lst c;
     buf \<leftarrow> wr buf start temp;
     reverse_loop n buf (start + 1) (lst - 1)
   }"

definition reverse_string :: "char list \<Rightarrow> nat \<Rightarrow> nat \<Rightarrow> char list option" where
  "reverse_string buf start fin = reverse_loop ((fin - start) div 2) buf start (fin - 1)"

text \<open>
  The loops \<^verbatim>\<open>while (val > 0)\<close>: a digit for the remainder, then the quotient. The bases 8
  and 16 are written with masks and shifts in the source. The result is the position
  behind the last digit.
\<close>

function digit_loop :: "nat \<Rightarrow> (nat \<Rightarrow> char) \<Rightarrow> nat \<Rightarrow> char list \<Rightarrow> nat \<Rightarrow> (char list \<times> nat) option" where
  "digit_loop b dig val out p =
     (if val = 0 \<or> b < 2 then Some (out, p)
      else do {
        out \<leftarrow> wr out p (dig (val mod b));
        digit_loop b dig (val div b) out (p + 1)
      })"
  by pat_completeness auto
termination
  by (relation "measure (\<lambda>(b, dig, val, out, p). val)") auto

declare digit_loop.simps [simp del]

definition decimal :: "nat \<Rightarrow> char" where
  "decimal d = char_of (d + 48)"

definition hexadecimal :: "nat \<Rightarrow> char" where
  "hexadecimal d = tohex ! d"

definition write_zero :: "char list \<Rightarrow> (char list \<times> nat) option" where
  "write_zero out = do {
     out \<leftarrow> wr out 0 (CHR ''0'');
     out \<leftarrow> wr out 1 NUL;
     Some (out, 1)
   }"

definition terminate_reverse :: "char list \<Rightarrow> nat \<Rightarrow> (char list \<times> nat) option" where
  "terminate_reverse out p = do {
     out \<leftarrow> wr out p NUL;
     out \<leftarrow> reverse_string out 0 p;
     Some (out, p)
   }"

text \<open>
  Buffer and position of the terminator. The argument is a \<^verbatim>\<open>long\<close>; a negative one gets no
  digits.
\<close>

definition octal2str :: "int \<Rightarrow> char list \<Rightarrow> (char list \<times> nat) option" where
  "octal2str val out =
     (if val = 0 then write_zero out
      else do {
        (out, p) \<leftarrow> digit_loop 8 decimal (nat val) out 0;
        terminate_reverse out p
      })"

text \<open>
  The negation of the least \<^verbatim>\<open>long\<close> overflows, which is undefined: \<^const>\<open>None\<close>.
\<close>

definition int2str :: "int \<Rightarrow> char list \<Rightarrow> (char list \<times> nat) option" where
  "int2str val out =
     (if val = 0 then write_zero out
      else if val = - (2 ^ 63) then None
      else do {
        (out, p) \<leftarrow> digit_loop 10 decimal (nat (abs val)) out 0;
        (out, p) \<leftarrow> (if val < 0 then do { out \<leftarrow> wr out p (CHR ''-''); Some (out, p + 1) } else Some (out, p));
        terminate_reverse out p
      })"

definition uint2str :: "nat \<Rightarrow> char list \<Rightarrow> (char list \<times> nat) option" where
  "uint2str val out =
     (if val = 0 then write_zero out
      else do {
        (out, p) \<leftarrow> digit_loop 10 decimal val out 0;
        terminate_reverse out p
      })"

definition hex2str :: "nat \<Rightarrow> char list \<Rightarrow> (char list \<times> nat) option" where
  "hex2str val out =
     (if val = 0 then write_zero out
      else do {
        (out, p) \<leftarrow> digit_loop 16 hexadecimal val out 0;
        terminate_reverse out p
      })"

section \<open>Numerals\<close>

text \<open>The numeral of a number in a base, most significant digit first, and its value.\<close>

function digits :: "nat \<Rightarrow> nat \<Rightarrow> nat list" where
  "digits b n = (if n = 0 \<or> b < 2 then [] else n mod b # digits b (n div b))"
  by pat_completeness auto
termination
  by (relation "measure snd") auto

declare digits.simps [simp del]

definition numeral_text :: "nat \<Rightarrow> (nat \<Rightarrow> char) \<Rightarrow> nat \<Rightarrow> char list" where
  "numeral_text b dig n = (if n = 0 then ''0'' else rev (map dig (digits b n)))"

definition digit_value :: "char \<Rightarrow> nat" where
  "digit_value c = (if 97 \<le> (of_char c :: nat) then of_char c - 87 else of_char c - 48)"

definition text_value :: "nat \<Rightarrow> char list \<Rightarrow> nat" where
  "text_value b cs = foldl (\<lambda>v c. v * b + digit_value c) 0 cs"

lemma digits_0 [simp]: "digits b 0 = []"
  by (simp add: digits.simps)

lemma digits_value: "2 \<le> b \<Longrightarrow> foldr (\<lambda>d v. v * b + d) (digits b n) 0 = n"
proof (induction b n rule: digits.induct)
  case (1 b n)
  then show ?case by (cases "n = 0") (simp_all add: digits.simps [of b n])
qed

lemma digits_less: "d \<in> set (digits b n) \<Longrightarrow> d < b"
proof (induction b n rule: digits.induct)
  case (1 b n)
  then show ?case by (auto simp: digits.simps [of b n] split: if_splits)
qed

lemma digits_length: "2 \<le> b \<Longrightarrow> n < b ^ k \<Longrightarrow> length (digits b n) \<le> k"
proof (induction k arbitrary: n)
  case 0
  then show ?case by (simp add: digits.simps)
next
  case (Suc k)
  then have "n div b < b ^ k" by (simp add: less_mult_imp_div_less mult.commute)
  with Suc show ?case by (simp add: digits.simps [of b n])
qed

lemma digits_nonempty: "2 \<le> b \<Longrightarrow> 0 < n \<Longrightarrow> digits b n \<noteq> []"
  by (simp add: digits.simps)

lemma digit_values:
  "d < 10 \<Longrightarrow> digit_value (decimal d) = d" "d < 16 \<Longrightarrow> digit_value (hexadecimal d) = d"
proof -
  assume "d < 10"
  moreover have "list_all (\<lambda>d. digit_value (decimal d) = d) [0..<10]"
    by (simp add: upt_eval digit_value_def decimal_def)
  ultimately show "digit_value (decimal d) = d" by (simp add: list_all_iff)
next
  assume "d < 16"
  moreover have "list_all (\<lambda>d. digit_value (hexadecimal d) = d) [0..<16]"
    by (simp add: upt_eval digit_value_def hexadecimal_def tohex_def)
  ultimately show "digit_value (hexadecimal d) = d" by (simp add: list_all_iff)
qed

lemma numeral_text_value:
  assumes "2 \<le> b" and "\<And>d. d < b \<Longrightarrow> digit_value (dig d) = d"
  shows "text_value b (numeral_text b dig n) = n"
proof (cases "n = 0")
  case True
  then show ?thesis by (simp add: numeral_text_def text_value_def digit_value_def)
next
  case False
  have "foldr (\<lambda>c v. v * b + digit_value c) (map dig ds) 0 = foldr (\<lambda>d v. v * b + d) ds 0"
    if "set ds \<subseteq> {..<b}" for ds
    using that assms(2) by (induction ds) auto
  then have "foldr (\<lambda>c v. v * b + digit_value c) (map dig (digits b n)) 0 = n"
    using digits_less digits_value [OF assms(1)] by (metis lessThan_iff subsetI)
  with False show ?thesis by (simp add: numeral_text_def text_value_def foldl_conv_foldr)
qed

section \<open>The conversions are correct\<close>

lemma digit_loop_eq:
  "2 \<le> b \<Longrightarrow> length (digits b val) \<le> length rest \<Longrightarrow>
     digit_loop b dig val (done' @ rest) (length done') =
       Some (done' @ map dig (digits b val) @ drop (length (digits b val)) rest, length done' + length (digits b val))"
proof (induction b dig val "done' @ rest" "length done'" arbitrary: done' rest rule: digit_loop.induct)
  case (1 b dig val)
  show ?case
  proof (cases "val = 0")
    case True
    then show ?thesis by (simp add: digit_loop.simps)
  next
    case False
    then have ds: "digits b val = val mod b # digits b (val div b)" using "1.prems" by (simp add: digits.simps [of b val])
    then obtain c rest' where rest: "rest = c # rest'" using "1.prems" by (cases rest) auto
    let ?d = "done' @ [dig (val mod b)]"
    have "wr (done' @ rest) (length done') (dig (val mod b)) = Some (?d @ rest')"
      by (simp add: rest wr_append)
    then have "digit_loop b dig val (done' @ rest) (length done') = digit_loop b dig (val div b) (?d @ rest') (length ?d)"
      using False "1.prems" by (subst digit_loop.simps) simp
    also have "\<dots> = Some (?d @ map dig (digits b (val div b)) @ drop (length (digits b (val div b))) rest',
        length ?d + length (digits b (val div b)))"
      using False "1.prems" ds rest \<open>wr _ _ _ = _\<close> by (intro "1.hyps") auto
    finally show ?thesis by (simp add: ds rest)
  qed
qed

lemma reverse_loop_eq:
  "n = length xs div 2 \<Longrightarrow> reverse_loop n (pre @ xs @ post) (length pre) (length pre + length xs - 1) = Some (pre @ rev xs @ post)"
proof (induction n arbitrary: pre xs post)
  case 0
  then have "length xs \<le> 1" by auto
  then show ?case by (cases xs) auto
next
  case (Suc n)
  then have "2 \<le> length xs" by auto
  then obtain a ys b where xs: "xs = a # ys @ [b]"
    by (cases xs; cases "tl xs" rule: rev_cases) auto
  have i: "length pre + length xs - 1 = length (pre @ a # ys)" by (simp add: xs)
  have m: "pre @ xs @ post = (pre @ a # ys) @ b # post" by (simp add: xs)
  have "rd (pre @ xs @ post) (length pre + length xs - 1) = Some b" unfolding i m by (rule rd_append)
  moreover have "rd (pre @ xs @ post) (length pre) = Some a" unfolding xs by (simp add: rd_append)
  moreover have "wr (pre @ xs @ post) (length pre + length xs - 1) a = Some ((pre @ a # ys) @ a # post)"
    unfolding i m by (rule wr_append)
  moreover have "wr ((pre @ a # ys) @ a # post) (length pre) b = Some (pre @ b # ys @ a # post)"
    using wr_append [of pre a "ys @ a # post" b] by simp
  ultimately have "reverse_loop (Suc n) (pre @ xs @ post) (length pre) (length pre + length xs - 1) =
      reverse_loop n ((pre @ [b]) @ ys @ (a # post)) (length (pre @ [b])) (length (pre @ [b]) + length ys - 1)"
    by (simp add: xs)
  also have "\<dots> = Some ((pre @ [b]) @ rev ys @ (a # post))"
    using Suc.prems by (intro Suc.IH) (simp add: xs)
  finally show ?case by (simp add: xs)
qed

lemma terminate_reverse_eq:
  "terminate_reverse (xs @ c # rest) (length xs) = Some (rev xs @ NUL # rest, length xs)"
  using reverse_loop_eq [of _ xs "[]" "NUL # rest"]
  by (simp add: terminate_reverse_def wr_append reverse_string_def)

lemma write_zero_eq: "2 \<le> length out \<Longrightarrow> write_zero out = Some (cstring ''0'' out, 1)"
  by (cases out; cases "tl out") (auto simp: write_zero_def cstring_def wr_def)

lemma split_buffer:
  assumes "length ds < length (out :: char list)"
  shows "\<exists>c. drop (length ds) out = c # drop (Suc (length ds)) out"
  using assms Cons_nth_drop_Suc [of "length ds" out] by metis

lemma numeral_loop_eq:
  assumes "2 \<le> b" and "0 < val" and "length (numeral_text b dig val) < length out"
  shows "do { (out, p) \<leftarrow> digit_loop b dig val out 0; terminate_reverse out p } =
    Some (cstring (numeral_text b dig val) out, length (numeral_text b dig val))"
proof -
  have len: "length (digits b val) < length out" using assms by (simp add: numeral_text_def)
  obtain c where c: "drop (length (digits b val)) out = c # drop (Suc (length (digits b val))) out"
    using split_buffer [OF len] by auto
  have "digit_loop b dig val out 0 = Some (map dig (digits b val) @ c # drop (Suc (length (digits b val))) out, length (digits b val))"
    using digit_loop_eq [OF assms(1), of val out dig "[]"] len c by simp
  then show ?thesis
    using terminate_reverse_eq [of "map dig (digits b val)" c] assms(2)
    by (simp add: cstring_def numeral_text_def)
qed

lemma uint2str_eq:
  "length (numeral_text 10 decimal val) < length out \<Longrightarrow> 2 \<le> length out \<Longrightarrow>
     uint2str val out = Some (cstring (numeral_text 10 decimal val) out, length (numeral_text 10 decimal val))"
  using numeral_loop_eq [of 10 val decimal out] write_zero_eq [of out]
  by (auto simp: uint2str_def numeral_text_def)

lemma hex2str_eq:
  "length (numeral_text 16 hexadecimal val) < length out \<Longrightarrow> 2 \<le> length out \<Longrightarrow>
     hex2str val out = Some (cstring (numeral_text 16 hexadecimal val) out, length (numeral_text 16 hexadecimal val))"
  using numeral_loop_eq [of 16 val hexadecimal out] write_zero_eq [of out]
  by (auto simp: hex2str_def numeral_text_def)

lemma numeral_text_length: "2 \<le> b \<Longrightarrow> 1 \<le> k \<Longrightarrow> val < b ^ k \<Longrightarrow> length (numeral_text b dig val) \<le> k"
  using digits_length [of b val k] by (simp add: numeral_text_def)

text \<open>
  The unsigned conversions print the numeral: for every value whose text and terminator
  fit the buffer, \<^verbatim>\<open>uint2str\<close> and \<^verbatim>\<open>hex2str\<close> write exactly the null-terminated decimal or
  hexadecimal numeral to the beginning of the buffer, which reads back as the value, and
  touch nothing behind it; for 64 bit values 21 and 17 bytes are enough.
\<close>

theorem uint2str_hex2str_correct:
  assumes "val < 2 ^ 64" and "21 \<le> length out"
  shows "\<exists>text text'. uint2str val out = Some (cstring text out, length text) \<and> text_value 10 text = val \<and>
    length text \<le> 20 \<and> set text \<subseteq> set (map decimal [0..<10]) \<and>
    hex2str val out = Some (cstring text' out, length text') \<and> text_value 16 text' = val \<and>
    length text' \<le> 16 \<and> set text' \<subseteq> set tohex"
proof -
  let ?t = "numeral_text 10 decimal val" and ?t' = "numeral_text 16 hexadecimal val"
  have "val < 10 ^ 20" "val < 16 ^ 16" using assms(1) by simp_all
  then have len: "length ?t \<le> 20" "length ?t' \<le> 16"
    by (simp_all add: numeral_text_length)
  have "uint2str val out = Some (cstring ?t out, length ?t)" "hex2str val out = Some (cstring ?t' out, length ?t')"
    using len assms(2) by (simp_all add: uint2str_eq hex2str_eq)
  moreover have "text_value 10 ?t = val" "text_value 16 ?t' = val"
    by (intro numeral_text_value, simp, simp add: digit_values)+
  moreover have "set ?t \<subseteq> set (map decimal [0..<10])"
  proof -
    have "CHR ''0'' = decimal 0" by code_simp
    then show ?thesis using digits_less [of _ 10 val] by (auto simp: numeral_text_def)
  qed
  moreover have "set ?t' \<subseteq> set tohex"
  proof -
    have "CHR ''0'' \<in> set tohex" "length tohex = 16" by (simp_all add: tohex_def)
    then show ?thesis using digits_less [of _ 16 val] by (auto simp: numeral_text_def hexadecimal_def)
  qed
  ultimately show ?thesis using len by blast
qed

theorem uint2str_hex2str_correct_witness:
  "(255 :: nat) < 2 ^ 64 \<and> (\<exists>text'. hex2str 255 (replicate 22 CHR ''z'') = Some (cstring text' (replicate 22 CHR ''z''), length text') \<and>
     text_value 16 text' = 255)"
  using uint2str_hex2str_correct [of 255 "replicate 22 CHR ''z''"] by auto

definition signed_text :: "int \<Rightarrow> char list" where
  "signed_text val = (if val < 0 then CHR ''-'' # numeral_text 10 decimal (nat (- val)) else numeral_text 10 decimal (nat val))"

lemma signed_text_length:
  assumes "nat \<bar>val\<bar> < 10 ^ 19"
  shows "length (signed_text val) \<le> 20"
  using numeral_text_length [of 10 19 "nat \<bar>val\<bar>" decimal] assms
  by (auto simp: signed_text_def abs_if split: if_splits)

lemma int2str_eq:
  assumes "- (2 ^ 63) < val" and "length (signed_text val) < length out"
  shows "int2str val out = Some (cstring (signed_text val) out, length (signed_text val))"
proof -
  consider "val = 0" | "0 < val" | "val < 0" by linarith
  then show ?thesis
  proof cases
    case 1
    then show ?thesis
      using assms(2) write_zero_eq [of out] by (simp add: int2str_def signed_text_def numeral_text_def)
  next
    case 2
    then show ?thesis
      using numeral_loop_eq [of 10 "nat val" decimal out] assms
      by (simp add: int2str_def signed_text_def bind_assoc case_prod_beta)
  next
    case 3
    let ?ds = "digits 10 (nat (- val))"
    have len: "Suc (length ?ds) < length out" using assms(2) 3 by (simp add: signed_text_def numeral_text_def)
    then have len1: "length ?ds < length out" and len2: "length (?ds @ [0]) < length out" by simp_all
    obtain c where c: "drop (length ?ds) out = c # drop (Suc (length ?ds)) out" using split_buffer [OF len1] by auto
    obtain d where d: "drop (Suc (length ?ds)) out = d # drop (Suc (Suc (length ?ds))) out"
      using split_buffer [OF len2] by auto
    have "digit_loop 10 decimal (nat (- val)) out 0 = Some (map decimal ?ds @ c # d # drop (Suc (Suc (length ?ds))) out, length ?ds)"
      using digit_loop_eq [of 10 "nat (- val)" out decimal "[]"] len1 c d by simp
    moreover have "wr (map decimal ?ds @ c # d # drop (Suc (Suc (length ?ds))) out) (length ?ds) CHR ''-'' =
        Some ((map decimal ?ds @ [CHR ''-'']) @ d # drop (Suc (Suc (length ?ds))) out)"
      using wr_append [of "map decimal ?ds"] by simp
    moreover have "terminate_reverse ((map decimal ?ds @ [CHR ''-'']) @ d # drop (Suc (Suc (length ?ds))) out) (Suc (length ?ds)) =
        Some (rev (map decimal ?ds @ [CHR ''-'']) @ NUL # drop (Suc (Suc (length ?ds))) out, Suc (length ?ds))"
      using terminate_reverse_eq [of "map decimal ?ds @ [CHR ''-'']" d "drop (Suc (Suc (length ?ds))) out"] by simp
    ultimately show ?thesis
      using 3 assms(1) by (simp add: int2str_def signed_text_def numeral_text_def cstring_def)
  qed
qed

text \<open>
  C39. \<^verbatim>\<open>int2str\<close> prints every \<^verbatim>\<open>long\<close> but the least one: a buffer of 21 bytes receives the
  null-terminated decimal numeral, with a minus sign for negative values, that reads back
  as the value; for the least value the negation overflows and the behaviour is undefined.
\<close>

theorem int2str_correct:
  assumes "- (2 ^ 63) < val" and "val < 2 ^ 63" and "21 \<le> length out"
  shows "int2str val out = Some (cstring (signed_text val) out, length (signed_text val)) \<and>
    length (signed_text val) \<le> 20 \<and>
    (if val < 0 then hd (signed_text val) = CHR ''-'' \<and> int (text_value 10 (tl (signed_text val))) = - val
     else int (text_value 10 (signed_text val)) = val) \<and>
    int2str (- (2 ^ 63)) out = None"
proof -
  have "nat \<bar>val\<bar> < 10 ^ 19" using assms(1, 2) by simp
  then have len: "length (signed_text val) \<le> 20" by (rule signed_text_length)
  moreover have "text_value 10 (numeral_text 10 decimal n) = n" for n
    by (rule numeral_text_value) (simp_all add: digit_values)
  ultimately show ?thesis
    using int2str_eq [OF assms(1), of out] assms(3) by (auto simp: signed_text_def int2str_def)
qed

theorem int2str_correct_witness:
  "int2str (- 42) (replicate 22 CHR ''z'') = Some (cstring (signed_text (- 42)) (replicate 22 CHR ''z''), length (signed_text (- 42)))"
  using int2str_correct [of "- 42" "replicate 22 CHR ''z''"] by simp

lemma octal2str_eq:
  assumes "0 \<le> val" and "length (numeral_text 8 decimal (nat val)) < length out"
  shows "octal2str val out = Some (cstring (numeral_text 8 decimal (nat val)) out, length (numeral_text 8 decimal (nat val)))"
  using numeral_loop_eq [of 8 "nat val" decimal out] assms write_zero_eq [of out]
  by (auto simp: octal2str_def numeral_text_def)

lemma octal2str_neg: "val < 0 \<Longrightarrow> 1 \<le> length out \<Longrightarrow> octal2str val out = Some (cstring [] out, 0)"
  by (cases out) (simp_all add: octal2str_def digit_loop.simps terminate_reverse_def wr_def reverse_string_def cstring_def)

end
