(* ===== verification/Strfmt.thy ===== *)
theory Strfmt
  imports Numstr
begin

text \<open>
  The formatter of \<^verbatim>\<open>strfmt.c\<close>: the bounded output buffer, the parser of conversion
  specifications, the conversions, and \<^verbatim>\<open>strfmt_ap\<close> and \<^verbatim>\<open>strfmt\<close>. The specification is
  the unbounded text of a format and its arguments; the implementation writes a prefix of
  it and returns its length.
\<close>

section \<open>The output buffer\<close>

text \<open>The output position is an offset into the caller's buffer; \<^verbatim>\<open>tmp\<close> is the local array of \<^verbatim>\<open>__strfmt\<close>.\<close>

record outbuff =
  ob_buf :: "char list"
  ob_pos :: nat
  ob_len :: int
  ob_n :: int
  ob_tmp :: "char list"

definition outmem :: "outbuff \<Rightarrow> char list \<Rightarrow> outbuff option" where
  "outmem out cs = do {
     buf \<leftarrow> wrn (ob_buf out) (ob_pos out) cs;
     Some (out\<lparr>ob_buf := buf, ob_pos := ob_pos out + length cs, ob_len := ob_len out - int (length cs)\<rparr>)
   }"

text \<open>The count of the characters is an \<^verbatim>\<open>int\<close>, whose overflow is undefined.\<close>

definition out_count :: "outbuff \<Rightarrow> int \<Rightarrow> outbuff option" where
  "out_count out sz = (if ob_n out + sz < 2 ^ 31 then Some (out\<lparr>ob_n := ob_n out + sz\<rparr>) else None)"

definition outmemset :: "outbuff \<Rightarrow> char \<Rightarrow> int \<Rightarrow> outbuff option" where
  "outmemset out c sz =
     (if sz > 0 then do {
        out \<leftarrow> out_count out sz;
        let sz = (if sz > ob_len out then ob_len out else sz);
        if sz > 0 then outmem out (replicate (nat sz) c) else Some out
      }
      else Some out)"

definition outmemcpy :: "outbuff \<Rightarrow> char list \<Rightarrow> int \<Rightarrow> outbuff option" where
  "outmemcpy out str sz =
     (if sz > 0 then do {
        out \<leftarrow> out_count out sz;
        let sz = (if sz > ob_len out then ob_len out else sz);
        if sz > 0 then outmem out (take (nat sz) str) else Some out
      }
      else Some out)"

definition outchar :: "outbuff \<Rightarrow> char \<Rightarrow> outbuff option" where
  "outchar out ch = do {
     out \<leftarrow> out_count out 1;
     if ob_len out > 0 then outmem out [ch] else Some out
   }"

text \<open>
  The flags, which the source packs into one word: \<^verbatim>\<open>SAW_NEG\<close>, \<^verbatim>\<open>SAW_ZERO\<close>,
  \<^verbatim>\<open>SAW_LONG\<close>, and the width in the 20 low bits.
\<close>

record fmt_flags =
  saw_neg :: bool
  saw_zero :: bool
  saw_long :: bool
  fl_width :: nat

definition outstr :: "outbuff \<Rightarrow> char list \<Rightarrow> fmt_flags \<Rightarrow> outbuff option" where
  "outstr out s flags =
     (let slen = int_of_size (length s);
          len = int (fl_width flags);
          pad = len - slen
      in if \<not> saw_neg flags then do {
           out \<leftarrow> outmemset out (CHR '' '') pad;
           out \<leftarrow> outmemcpy out s slen;
           outmemset out (CHR '' '') 0
         }
         else do {
           out \<leftarrow> outmemcpy out s slen;
           outmemset out (CHR '' '') pad
         })"

definition outnum :: "outbuff \<Rightarrow> char list \<Rightarrow> fmt_flags \<Rightarrow> outbuff option" where
  "outnum out s flags =
     (let slen = int_of_size (length s);
          len = int (fl_width flags)
      in do {
        out \<leftarrow> (if len \<noteq> 0 then outmemset out (if saw_zero flags then CHR ''0'' else CHR '' '') (len - slen)
                else Some out);
        outmemcpy out s slen
      })"

section \<open>Fixed point\<close>

text \<open>
  \<open>neg\<close> is the test \<^verbatim>\<open>val < 0\<close> and \<open>l\<close> the value of the floating point expression
  \<^verbatim>\<open>(long)((val * (1 << FIXED_SIZE)) + 0.5)\<close> for the absolute value. The result is the
  integer part, narrowed to \<^verbatim>\<open>int\<close>, and the six digit fraction.
\<close>

fun fixed_loop :: "nat \<Rightarrow> nat \<Rightarrow> nat \<Rightarrow> nat \<Rightarrow> nat" where
  "fixed_loop 0 frac bit_val result = result"
| "fixed_loop (Suc i) frac bit_val result =
     fixed_loop i frac (bit_val div 2) (if bit frac i then result + bit_val else result)"

definition double2fixed :: "bool \<Rightarrow> int \<Rightarrow> int \<times> int" where
  "double2fixed neg l =
     (let frac = nat (l mod 2 ^ 20);
          result = fixed_loop 20 frac 5000000 0;
          f = (result + 5) div 10;
          l = l div 2 ^ 20
      in (sint (word_of_int (if neg then - l else l) :: 32 word), int f))"

section \<open>Formats\<close>

text \<open>
  The arguments behind the \<^verbatim>\<open>va_list\<close>, with the type the caller passed; reading an argument
  as another type, or one that is not there, is undefined.
\<close>

datatype arg = AStr "char list" | AInt int | ALong int | AUInt nat | AULong nat | ADouble bool int

definition isdigit :: "char \<Rightarrow> bool" where
  "isdigit c \<longleftrightarrow> c \<in> set ''0123456789''"

fun parse_width :: "u32 \<Rightarrow> char list \<Rightarrow> u32 \<times> char list" where
  "parse_width width [] = (width, [])"
| "parse_width width (c # fmt) =
     (if isdigit c then parse_width (width * 10 + of_char c - 48) fmt else (width, c # fmt))"

text \<open>From the character behind the percent sign to the conversion character.\<close>

definition parse_flags :: "char list \<Rightarrow> fmt_flags \<times> char list" where
  "parse_flags fmt =
     (let (neg, fmt) = (if fmt \<noteq> [] \<and> hd fmt = CHR ''-'' then (True, tl fmt) else (False, fmt));
          zero = (fmt \<noteq> [] \<and> hd fmt = CHR ''0'');
          (width, fmt) = parse_width 0 fmt;
          (long, fmt) = (if fmt \<noteq> [] \<and> hd fmt = CHR ''l'' then (True, tl fmt) else (False, fmt))
      in (\<lparr>saw_neg = neg, saw_zero = zero, saw_long = long, fl_width = unat (width AND 0x0fffff)\<rparr>, fmt))"

definition conversion :: "char \<Rightarrow> bool" where
  "conversion c \<longleftrightarrow> c \<in> set ''scdouxf''"

text \<open>\<^verbatim>\<open>strlen\<close> of the array \<^verbatim>\<open>tmp\<close>, and the string in it.\<close>

definition tmp_string :: "outbuff \<Rightarrow> char list" where
  "tmp_string out = takeWhile (\<lambda>c. c \<noteq> NUL) (ob_tmp out)"

definition via_tmp :: "(char list \<Rightarrow> (char list \<times> nat) option) \<Rightarrow> outbuff \<Rightarrow> fmt_flags \<Rightarrow> outbuff option" where
  "via_tmp conv out flags = do {
     (tmp, p) \<leftarrow> conv (ob_tmp out);
     let out = out\<lparr>ob_tmp := tmp\<rparr>;
     outnum out (tmp_string out) flags
   }"

text \<open>The \<^verbatim>\<open>switch\<close> of \<^verbatim>\<open>__strfmt\<close>, on a conversion character.\<close>

fun convert :: "outbuff \<Rightarrow> fmt_flags \<Rightarrow> char \<Rightarrow> arg list \<Rightarrow> outbuff option" where
  "convert out flags c (AStr s # ap) = (if c = CHR ''s'' then outstr out s flags else None)"
| "convert out flags c (AInt v # ap) =
     (if c = CHR ''c'' then outchar out (char_of (nat (v mod 256)))
      else if c = CHR ''d'' \<and> \<not> saw_long flags then via_tmp (int2str v) out flags
      else if c = CHR ''o'' \<and> \<not> saw_long flags then via_tmp (octal2str v) out flags
      else None)"
| "convert out flags c (ALong v # ap) =
     (if c = CHR ''d'' \<and> saw_long flags then via_tmp (int2str v) out flags
      else if c = CHR ''o'' \<and> saw_long flags then via_tmp (octal2str v) out flags
      else None)"
| "convert out flags c (AUInt v # ap) =
     (if c = CHR ''u'' \<and> \<not> saw_long flags then via_tmp (uint2str v) out flags
      else if c = CHR ''x'' \<and> \<not> saw_long flags then via_tmp (hex2str v) out flags
      else None)"
| "convert out flags c (AULong v # ap) =
     (if c = CHR ''u'' \<and> saw_long flags then via_tmp (uint2str v) out flags
      else if c = CHR ''x'' \<and> saw_long flags then via_tmp (hex2str v) out flags
      else None)"
| "convert out flags c (ADouble neg l # ap) =
     (if c = CHR ''f'' then
        let (integer, frac) = double2fixed neg l
        in do {
          out \<leftarrow> via_tmp (int2str integer) out flags;
          out \<leftarrow> outchar out (CHR ''.'');
          via_tmp (int2str frac) out flags
        }
      else None)"
| "convert out flags c [] = None"

lemma parse_width_length: "length (snd (parse_width w fmt)) \<le> length fmt"
  by (induction w fmt rule: parse_width.induct) auto

lemma parse_flags_length: "parse_flags fmt = (flags, rest) \<Longrightarrow> length rest \<le> length fmt"
  using parse_width_length [of 0 fmt] parse_width_length [of 0 "tl fmt"]
  by (auto simp: parse_flags_def Let_def split: prod.splits if_splits dest!: arg_cong [where f = length])

lemma parse_flags_rest: "length (snd (parse_flags fmt)) \<le> length fmt"
  using parse_flags_length [of fmt] by (cases "parse_flags fmt") simp

function strfmt_loop :: "outbuff \<Rightarrow> char list \<Rightarrow> arg list \<Rightarrow> outbuff option" where
  "strfmt_loop out fmt ap =
     (case fmt of
        [] \<Rightarrow> Some out
      | c # fmt' \<Rightarrow>
          if c = CHR ''%'' then
            let (flags, rest) = parse_flags fmt'
            in if rest \<noteq> [] \<and> conversion (hd rest) then do {
                 out \<leftarrow> convert out flags (hd rest) ap;
                 strfmt_loop out (tl rest) (tl ap)
               }
               else do { out \<leftarrow> outchar out (CHR ''%''); strfmt_loop out fmt' ap }
          else do { out \<leftarrow> outchar out c; strfmt_loop out fmt' ap })"
  by pat_completeness auto
termination
  by (relation "measure (\<lambda>(out, fmt, ap). length fmt)")
    (auto dest!: sym [of _ "parse_flags _"] parse_flags_length simp: less_Suc_eq_le)

declare strfmt_loop.simps [simp del]

text \<open>
  Return value and buffer. \<open>tmp\<close> is what the stack held. The output string is a buffer and
  not the null pointer, which the end of \<^verbatim>\<open>__strfmt\<close> would skip.
\<close>

definition strfmt_ap :: "char list \<Rightarrow> char list \<Rightarrow> int \<Rightarrow> char list \<Rightarrow> arg list \<Rightarrow> (int \<times> char list) option" where
  "strfmt_ap tmp str len fmt ap =
     (let out = \<lparr>ob_buf = str, ob_pos = 0, ob_len = len - 1, ob_n = 0, ob_tmp = tmp\<rparr>
      in if len < 1 then Some (0, str)
         else do {
           out \<leftarrow> strfmt_loop out fmt ap;
           buf \<leftarrow> wr (ob_buf out) (ob_pos out) NUL;
           Some (ob_n out, buf)
         })"

definition strfmt :: "char list \<Rightarrow> char list \<Rightarrow> int \<Rightarrow> char list \<Rightarrow> arg list \<Rightarrow> (int \<times> char list) option" where
  "strfmt tmp str len fmt ap = strfmt_ap tmp str len fmt ap"

section \<open>The text of a format\<close>

definition str_text :: "fmt_flags \<Rightarrow> char list \<Rightarrow> char list" where
  "str_text flags s =
     (let pad = replicate (fl_width flags - length s) (CHR '' '')
      in if saw_neg flags then s @ pad else pad @ s)"

definition num_text :: "fmt_flags \<Rightarrow> char list \<Rightarrow> char list" where
  "num_text flags s = replicate (fl_width flags - length s) (if saw_zero flags then CHR ''0'' else CHR '' '') @ s"

definition octal_text :: "int \<Rightarrow> char list" where
  "octal_text v = (if v < 0 then [] else numeral_text 8 decimal (nat v))"

text \<open>
  The value of a floating point argument is its fixed point form with 20 binary places. Its
  text is that of the integer part, as a 32 bit integer, and of the fraction in units of a
  millionth: each bit of the fraction counts its power of two in ten-millionths, cut to an
  integer, and the sum is rounded.
\<close>

definition fixed_whole :: "bool \<Rightarrow> int \<Rightarrow> int" where
  "fixed_whole neg l = (let w = l div 2 ^ 20 in sint (of_int (if neg then - w else w) :: 32 word))"

definition fixed_millionths :: "int \<Rightarrow> nat" where
  "fixed_millionths l =
     ((\<Sum>i\<leftarrow>[0..<20]. if odd (l div 2 ^ i) then 5000000 div 2 ^ (19 - i) else 0) + 5) div 10"

text \<open>The text of one conversion; nothing when the argument has another type or does not fit it.\<close>

fun conv_text :: "fmt_flags \<Rightarrow> char \<Rightarrow> arg \<Rightarrow> char list option" where
  "conv_text flags c (AStr s) = (if c = CHR ''s'' then Some (str_text flags s) else None)"
| "conv_text flags c (AInt v) =
     (if v < - (2 ^ 31) \<or> 2 ^ 31 \<le> v then None
      else if c = CHR ''c'' then Some [char_of (nat (v mod 256))]
      else if c = CHR ''d'' \<and> \<not> saw_long flags then Some (num_text flags (signed_text v))
      else if c = CHR ''o'' \<and> \<not> saw_long flags then Some (num_text flags (octal_text v))
      else None)"
| "conv_text flags c (ALong v) =
     (if v \<le> - (2 ^ 63) \<or> 2 ^ 63 \<le> v then None
      else if c = CHR ''d'' \<and> saw_long flags then Some (num_text flags (signed_text v))
      else if c = CHR ''o'' \<and> saw_long flags then Some (num_text flags (octal_text v))
      else None)"
| "conv_text flags c (AUInt v) =
     (if 2 ^ 32 \<le> v then None
      else if c = CHR ''u'' \<and> \<not> saw_long flags then Some (num_text flags (numeral_text 10 decimal v))
      else if c = CHR ''x'' \<and> \<not> saw_long flags then Some (num_text flags (numeral_text 16 hexadecimal v))
      else None)"
| "conv_text flags c (AULong v) =
     (if 2 ^ 64 \<le> v then None
      else if c = CHR ''u'' \<and> saw_long flags then Some (num_text flags (numeral_text 10 decimal v))
      else if c = CHR ''x'' \<and> saw_long flags then Some (num_text flags (numeral_text 16 hexadecimal v))
      else None)"
| "conv_text flags c (ADouble neg l) =
     (if c = CHR ''f''
      then Some (num_text flags (signed_text (fixed_whole neg l)) @ CHR ''.'' # num_text flags (signed_text (int (fixed_millionths l))))
      else None)"

text \<open>
  A directive behind the percent sign: an optional minus for left justification, the digits
  of the width, of which the first says whether to pad with zeros and the value counts modulo
  \<open>2 ^ 20\<close>, an optional l, and the conversion character with the rest of the format.
\<close>

definition digits_value :: "char list \<Rightarrow> nat" where
  "digits_value cs = foldl (\<lambda>w c. w * 10 + (of_char c - 48)) 0 cs"

definition field :: "char list \<Rightarrow> fmt_flags \<times> char list" where
  "field fmt =
     (let left = (take 1 fmt = ''-''); body = (if left then drop 1 fmt else fmt);
          ds = takeWhile (\<lambda>c. c \<in> set ''0123456789'') body;
          rest = drop (length ds) body;
          long = (take 1 rest = ''l'')
      in (\<lparr>saw_neg = left, saw_zero = (take 1 ds = ''0''), saw_long = long,
           fl_width = digits_value ds mod 2 ^ 20\<rparr>,
          if long then drop 1 rest else rest))"

definition directive :: "char list \<Rightarrow> (fmt_flags \<times> char \<times> char list) option" where
  "directive fmt =
     (case field fmt of
        (flags, []) \<Rightarrow> None
      | (flags, c # rest) \<Rightarrow> if c \<in> set ''cdfosux'' then Some (flags, c, rest) else None)"

lemma field_length: "length (snd (field fmt)) \<le> length fmt"
  by (simp add: field_def Let_def)

lemma directive_length:
  assumes "directive fmt = Some (flags, c, rest)"
  shows "length rest < length fmt"
proof -
  have "snd (field fmt) = c # rest"
    using assms unfolding directive_def by (cases "field fmt") (simp split: list.splits if_splits)
  then show ?thesis using field_length [of fmt] by simp
qed

function fmt_text :: "char list \<Rightarrow> arg list \<Rightarrow> char list option" where
  "fmt_text fmt ap =
     (case fmt of
        [] \<Rightarrow> Some []
      | c # fmt' \<Rightarrow>
          (case if c = CHR ''%'' then directive fmt' else None of
             None \<Rightarrow> map_option (Cons c) (fmt_text fmt' ap)
           | Some (flags, conv, rest) \<Rightarrow>
               (case ap of
                  [] \<Rightarrow> None
                | a # ap' \<Rightarrow> do {
                    t \<leftarrow> conv_text flags conv a;
                    u \<leftarrow> fmt_text rest ap';
                    Some (t @ u)
                  })))"
  by pat_completeness auto
termination
proof (relation "measure (\<lambda>(fmt, ap). length fmt)")
  fix fmt fmt' rest conv flags a and c :: char and ap ap' :: "arg list" and d and u and t :: "char list"
  assume d: "(if c = CHR ''%'' then directive fmt' else None) = Some d" and "(flags, u) = d" "(conv, rest) = u"
    and fmt: "fmt = c # fmt'"
  then have "length rest < length fmt'" by (intro directive_length [of fmt' flags conv]) (auto split: if_splits)
  then show "((rest, ap'), fmt, ap) \<in> measure (\<lambda>(fmt, ap). length fmt)" using fmt by simp
qed simp_all

declare fmt_text.simps [simp del]

section \<open>The output is the text, cut to the buffer\<close>

lemma outmemset_memcpy: "outmemset out c sz = outmemcpy out (replicate (nat sz) c) sz"
  by (auto simp: outmemset_def outmemcpy_def Let_def min_def nat_mono intro!: bind_option_cong)

lemma outchar_memcpy: "outchar out c = outmemcpy out [c] 1"
  by (auto simp: outchar_def outmemcpy_def Let_def intro!: bind_option_cong)

text \<open>
  The state of the output after \<open>text\<close> has been sent to a buffer with room for \<open>cap\<close>
  characters.
\<close>

definition written :: "char list \<Rightarrow> nat \<Rightarrow> char list \<Rightarrow> outbuff \<Rightarrow> bool" where
  "written buf0 cap tx out \<longleftrightarrow>
     ob_buf out = take cap tx @ drop (min cap (length tx)) buf0 \<and>
     ob_pos out = min cap (length tx) \<and> ob_len out = int (cap - length tx) \<and>
     ob_n out = int (length tx) \<and> length (ob_tmp out) = 22 \<and> cap < length buf0"

text \<open>An action on the output sends a text.\<close>

definition sends :: "(outbuff \<Rightarrow> outbuff option) \<Rightarrow> char list \<Rightarrow> bool" where
  "sends f cs \<longleftrightarrow>
     (\<forall>buf0 cap tx out. written buf0 cap tx out \<and> length tx + length cs < 2 ^ 31 \<longrightarrow>
        (\<exists>out'. f out = Some out' \<and> written buf0 cap (tx @ cs) out'))"

lemma sends_Nil [simp]: "sends Some []"
  by (simp add: sends_def)

lemma sends_bind:
  assumes "sends f xs" and "sends g ys"
  shows "sends (\<lambda>out. do { out \<leftarrow> f out; g out }) (xs @ ys)"
  unfolding sends_def
proof (intro allI impI)
  fix buf0 cap tx out
  assume a: "written buf0 cap tx out \<and> length tx + length (xs @ ys) < 2 ^ 31"
  then obtain out1 where out1: "f out = Some out1" "written buf0 cap (tx @ xs) out1"
    using assms(1) unfolding sends_def by fastforce
  then obtain out2 where "g out1 = Some out2" "written buf0 cap ((tx @ xs) @ ys) out2"
    using assms(2) a unfolding sends_def by (metis add.assoc length_append)
  with out1 show "\<exists>out'. (do { out \<leftarrow> f out; g out }) = Some out' \<and> written buf0 cap (tx @ xs @ ys) out'"
    by simp
qed

lemma sends_outmemcpy:
  assumes "sz = int (length cs)"
  shows "sends (\<lambda>out. outmemcpy out cs sz) cs"
  unfolding sends_def
proof (intro allI impI)
  fix buf0 cap tx out
  assume a: "written buf0 cap tx out \<and> length tx + length cs < 2 ^ 31"
  let ?m = "min (length cs) (cap - length tx)"
  have buf: "ob_buf out = take cap tx @ drop (min cap (length tx)) buf0" and cap: "cap < length buf0"
    using a by (simp_all add: written_def)
  show "\<exists>out'. outmemcpy out cs sz = Some out' \<and> written buf0 cap (tx @ cs) out'"
  proof (cases "?m = 0")
    case True
    then show ?thesis using a assms
      by (auto simp: outmemcpy_def written_def out_count_def min_def split: if_splits)
  next
    case False
    then have lt: "length tx < cap" by (cases "length tx < cap") auto
    then have "wrn (ob_buf out) (length tx) (take ?m cs) = Some (tx @ take ?m cs @ drop (length tx + ?m) buf0)"
      using cap by (simp add: buf wrn_def add.commute)
    moreover have "nat (if sz > int (cap - length tx) then int (cap - length tx) else sz) = ?m"
      using assms by (simp add: min_def)
    moreover have "drop (length tx + length cs) buf0 = drop cap buf0"
      if "cap \<le> length tx + length cs" "length cs \<le> cap - length tx"
    proof -
      from that lt have "length tx + length cs = cap" by linarith
      then show ?thesis by simp
    qed
    ultimately show ?thesis using False a assms lt
      by (auto simp: outmemcpy_def written_def out_count_def outmem_def Let_def min_def split: if_splits)
  qed
qed

lemma sends_outmemset: "0 \<le> sz \<Longrightarrow> sends (\<lambda>out. outmemset out c sz) (replicate (nat sz) c)"
  unfolding outmemset_memcpy by (rule sends_outmemcpy) simp

lemma outmemset_none: "sz \<le> 0 \<Longrightarrow> outmemset out c sz = Some out"
  by (simp add: outmemset_def)

lemma sends_outchar: "sends (\<lambda>out. outchar out c) [c]"
  unfolding outchar_memcpy by (rule sends_outmemcpy) simp

lemma sends_too_long: "2 ^ 31 \<le> length cs \<Longrightarrow> sends f cs"
  by (simp add: sends_def)

lemma sends_padding:
  "sends (\<lambda>out. outmemset out c (int w - int n)) (replicate (w - n) c)"
proof (cases "n \<le> w")
  case True
  then show ?thesis using sends_outmemset [of "int w - int n" c] by (simp add: nat_diff_distrib)
qed (simp add: outmemset_none)

lemma sends_outstr: "sends (\<lambda>out. outstr out s flags) (str_text flags s)"
proof (cases "length s < 2 ^ 31")
  case True
  note sz = int_of_size_small [OF True]
  have s: "sends (\<lambda>out. outmemcpy out s (int (length s))) s" by (rule sends_outmemcpy) simp
  show ?thesis
    using sends_bind [OF s sends_padding [of "CHR '' ''" "fl_width flags" "length s"]]
      sends_bind [OF sends_padding [of "CHR '' ''" "fl_width flags" "length s"] s]
    by (simp add: outstr_def str_text_def sz outmemset_none Let_def cong: if_cong)
next
  case False
  then show ?thesis by (intro sends_too_long) (auto simp: str_text_def Let_def)
qed

lemma sends_outnum: "sends (\<lambda>out. outnum out s flags) (num_text flags s)"
proof (cases "length s < 2 ^ 31")
  case True
  note sz = int_of_size_small [OF True]
  have s: "sends (\<lambda>out. outmemcpy out s (int (length s))) s" by (rule sends_outmemcpy) simp
  show ?thesis
    using s sends_bind [OF sends_padding [of "if saw_zero flags then CHR ''0'' else CHR '' ''" "fl_width flags" "length s"] s]
    by (cases "fl_width flags = 0") (simp_all add: outnum_def num_text_def sz Let_def)
next
  case False
  then show ?thesis by (intro sends_too_long) (simp add: num_text_def)
qed

lemma written_tmp: "written buf0 cap tx out \<Longrightarrow> length tmp = 22 \<Longrightarrow> written buf0 cap tx (out\<lparr>ob_tmp := tmp\<rparr>)"
  by (simp add: written_def)

lemma sends_via_tmp:
  assumes conv: "\<And>tmp. length tmp = 22 \<Longrightarrow> \<exists>p. conv tmp = Some (cstring t tmp, p)"
    and t: "length t < 22" "NUL \<notin> set t"
  shows "sends (\<lambda>out. via_tmp conv out flags) (num_text flags t)"
  unfolding sends_def
proof (intro allI impI)
  fix buf0 cap tx out
  assume a: "written buf0 cap tx out \<and> length tx + length (num_text flags t) < 2 ^ 31"
  then have len: "length (ob_tmp out) = 22" by (simp add: written_def)
  then obtain p where p: "conv (ob_tmp out) = Some (cstring t (ob_tmp out), p)" using conv by blast
  let ?out = "out\<lparr>ob_tmp := cstring t (ob_tmp out)\<rparr>"
  have "tmp_string ?out = t"
    unfolding tmp_string_def cstring_def using t(2) by (simp, subst takeWhile_append2) auto
  moreover have "written buf0 cap tx ?out" using a len t(1) by (intro written_tmp) (simp_all add: cstring_def)
  ultimately show "\<exists>out'. via_tmp conv out flags = Some out' \<and> written buf0 cap (tx @ num_text flags t) out'"
    using sends_outnum [of t flags] a p by (simp add: via_tmp_def sends_def Let_def)
qed

subsection \<open>The conversions\<close>

lemma digit_not_NUL: "d < 10 \<Longrightarrow> decimal d \<noteq> NUL" "d < 16 \<Longrightarrow> hexadecimal d \<noteq> NUL"
proof -
  have "list_all (\<lambda>d. decimal d \<noteq> NUL) [0..<10]" by code_simp
  then show "d < 10 \<Longrightarrow> decimal d \<noteq> NUL" by (simp add: list_all_iff)
  have "list_all (\<lambda>d. hexadecimal d \<noteq> NUL) [0..<16]" by code_simp
  then show "d < 16 \<Longrightarrow> hexadecimal d \<noteq> NUL" by (simp add: list_all_iff)
qed

lemma numeral_text_not_NUL: "(\<And>d. d < b \<Longrightarrow> dig d \<noteq> NUL) \<Longrightarrow> NUL \<notin> set (numeral_text b dig n)"
  by (auto simp: numeral_text_def, metis digits_less)

lemma signed_text_not_NUL: "NUL \<notin> set (signed_text v)"
  using numeral_text_not_NUL [OF digit_not_NUL(1), of 10] by (simp add: signed_text_def)

lemma sends_int2str:
  assumes "- (2 ^ 63) < v" and "v < 2 ^ 63"
  shows "sends (\<lambda>out. via_tmp (int2str v) out flags) (num_text flags (signed_text v))"
proof (rule sends_via_tmp)
  have len: "length (signed_text v) \<le> 20" using assms by (intro signed_text_length) simp
  then show "length (signed_text v) < 22" by simp
  show "\<exists>p. int2str v tmp = Some (cstring (signed_text v) tmp, p)" if "length tmp = 22" for tmp
    using int2str_eq [OF assms(1), of tmp] len that by simp
qed (rule signed_text_not_NUL)

lemma sends_octal2str:
  assumes "v < 2 ^ 63"
  shows "sends (\<lambda>out. via_tmp (octal2str v) out flags) (num_text flags (octal_text v))"
proof (rule sends_via_tmp)
  have len: "length (octal_text v) \<le> 21"
    using assms numeral_text_length [of 8 21 "nat v" decimal] by (simp add: octal_text_def)
  then show "length (octal_text v) < 22" by simp
  show "\<exists>p. octal2str v tmp = Some (cstring (octal_text v) tmp, p)" if "length tmp = 22" for tmp
    using octal2str_eq [of v tmp] octal2str_neg [of v tmp] len that by (auto simp: octal_text_def)
  show "NUL \<notin> set (octal_text v)"
    using numeral_text_not_NUL [of 8 decimal "nat v"] by (simp add: octal_text_def digit_not_NUL)
qed

lemma sends_uint2str:
  assumes "v < 2 ^ 64"
  shows "sends (\<lambda>out. via_tmp (uint2str v) out flags) (num_text flags (numeral_text 10 decimal v))"
proof (rule sends_via_tmp)
  have len: "length (numeral_text 10 decimal v) \<le> 20" using assms by (intro numeral_text_length) simp_all
  then show "length (numeral_text 10 decimal v) < 22" by simp
  show "\<exists>p. uint2str v tmp = Some (cstring (numeral_text 10 decimal v) tmp, p)" if "length tmp = 22" for tmp
    using len that by (simp add: uint2str_eq)
qed (simp add: numeral_text_not_NUL digit_not_NUL)

lemma sends_hex2str:
  assumes "v < 2 ^ 64"
  shows "sends (\<lambda>out. via_tmp (hex2str v) out flags) (num_text flags (numeral_text 16 hexadecimal v))"
proof (rule sends_via_tmp)
  have len: "length (numeral_text 16 hexadecimal v) \<le> 16" using assms by (intro numeral_text_length) simp_all
  then show "length (numeral_text 16 hexadecimal v) < 22" by simp
  show "\<exists>p. hex2str v tmp = Some (cstring (numeral_text 16 hexadecimal v) tmp, p)" if "length tmp = 22" for tmp
    using len that by (simp add: hex2str_eq)
qed (simp add: numeral_text_not_NUL digit_not_NUL)

lemma fixed_loop_bound: "fixed_loop n frac bv r \<le> r + 2 * bv"
proof (induction n arbitrary: bv r)
  case (Suc n)
  have "fixed_loop n frac (bv div 2) (if bit frac n then r + bv else r) \<le> (r + bv) + 2 * (bv div 2)"
    using Suc [of "bv div 2" "r + bv"] Suc [of "bv div 2" r] by auto
  also have "\<dots> \<le> r + 2 * bv" by simp
  finally show ?case by simp
qed simp

lemma double2fixed_range:
  "- (2 ^ 31) \<le> fst (double2fixed neg l)" "fst (double2fixed neg l) < 2 ^ 31"
  "0 \<le> snd (double2fixed neg l)" "snd (double2fixed neg l) \<le> 1000000"
proof -
  show "- (2 ^ 31) \<le> fst (double2fixed neg l)" "fst (double2fixed neg l) < 2 ^ 31"
    unfolding double2fixed_def Let_def fst_conv by (rule sint32_range)+
  show "0 \<le> snd (double2fixed neg l)" "snd (double2fixed neg l) \<le> 1000000"
    using fixed_loop_bound [of 20 "nat (l mod 2 ^ 20)" 5000000 0] by (simp_all add: double2fixed_def Let_def)
qed

lemma fixed_loop_sum:
  "fixed_loop n frac bv r = r + (\<Sum>i\<leftarrow>[0..<n]. if odd (frac div 2 ^ i) then bv div 2 ^ (n - 1 - i) else 0)"
proof (induction n arbitrary: bv r)
  case (Suc n)
  have "(\<Sum>i\<leftarrow>[0..<n]. if odd (frac div 2 ^ i) then bv div 2 div 2 ^ (n - 1 - i) else 0) =
      (\<Sum>i\<leftarrow>[0..<n]. if odd (frac div 2 ^ i) then bv div 2 ^ (n - i) else 0)"
  proof (intro arg_cong [where f = sum_list] map_cong refl)
    fix i assume "i \<in> set [0..<n]"
    then have "n - i = Suc (n - 1 - i)" by auto
    then show "(if odd (frac div 2 ^ i) then bv div 2 div 2 ^ (n - 1 - i) else 0) =
        (if odd (frac div 2 ^ i) then bv div 2 ^ (n - i) else 0)"
      by (simp add: div_mult2_eq)
  qed
  moreover have "fixed_loop (Suc n) frac bv r =
      (if odd (frac div 2 ^ n) then r + bv else r) +
        (\<Sum>i\<leftarrow>[0..<n]. if odd (frac div 2 ^ i) then bv div 2 div 2 ^ (n - 1 - i) else 0)"
    by (simp only: fixed_loop.simps Suc bit_iff_odd)
  moreover have "Suc n - 1 - i = n - i" for i by simp
  ultimately show ?case by (simp only: upt_Suc_append map_append sum_list_append) simp
qed simp

lemma double2fixed_eq: "double2fixed neg l = (fixed_whole neg l, int (fixed_millionths l))"
proof -
  have b: "odd (nat (l mod 2 ^ 20) div 2 ^ i) \<longleftrightarrow> odd (l div 2 ^ i)" if "i < 20" for i
  proof -
    have "odd (nat (l mod 2 ^ 20) div 2 ^ i) \<longleftrightarrow> bit (int (nat (take_bit 20 l))) i"
      unfolding bit_of_nat_iff_bit by (simp add: bit_iff_odd take_bit_eq_mod)
    also have "\<dots> \<longleftrightarrow> bit l i" using that by (simp add: bit_take_bit_iff)
    finally show ?thesis by (simp add: bit_iff_odd)
  qed
  have "(\<Sum>i\<leftarrow>[0..<20]. if odd (nat (l mod 2 ^ 20) div 2 ^ i) then 5000000 div 2 ^ (19 - i) else 0) =
      (\<Sum>i\<leftarrow>[0..<20]. if odd (l div 2 ^ i) then 5000000 div 2 ^ (19 - i) else (0 :: nat))"
    by (intro arg_cong [where f = sum_list] map_cong refl) (use b in auto)
  moreover have "(20 :: nat) - 1 = 19" by simp
  ultimately show ?thesis
    unfolding double2fixed_def fixed_whole_def fixed_millionths_def Let_def
      fixed_loop_sum [of 20 _ 5000000 0] by (simp only: add_0_left)
qed

lemma sends_convert:
  assumes "conv_text flags c a = Some t"
  shows "sends (\<lambda>out. convert out flags c (a # ap)) t"
proof (cases a)
  case (ADouble neg l)
  then have t: "t = num_text flags (signed_text (fst (double2fixed neg l))) @ [CHR ''.''] @
      num_text flags (signed_text (snd (double2fixed neg l)))" and c: "c = CHR ''f''"
    using assms by (auto simp: double2fixed_eq split: if_splits)
  show ?thesis
    unfolding t using double2fixed_range [of neg l] ADouble c
      sends_bind [OF sends_int2str [of "fst (double2fixed neg l)" flags]
        sends_bind [OF sends_outchar [of "CHR ''.''"] sends_int2str [of "snd (double2fixed neg l)" flags]]]
    by (simp add: case_prod_beta)
qed (use assms in \<open>auto split: if_splits simp: sends_outstr sends_outchar sends_int2str sends_octal2str sends_uint2str sends_hex2str\<close>)

subsection \<open>Whole formats\<close>

lemma isdigit_eq: "isdigit = (\<lambda>c. c \<in> set ''0123456789'')"
  by (simp add: fun_eq_iff isdigit_def)

lemma isdigit_range: "isdigit c \<Longrightarrow> 48 \<le> (of_char c :: nat)"
  by (auto simp: isdigit_def)

lemma parse_width_digits:
  "parse_width (of_nat w) fmt =
     (of_nat (foldl (\<lambda>w c. w * 10 + (of_char c - 48)) w (takeWhile isdigit fmt)), dropWhile isdigit fmt)"
proof (induction fmt arbitrary: w)
  case (Cons c fmt)
  have "(of_nat w * 10 + of_char c - 48 :: u32) = of_nat (w * 10 + (of_char c - 48))" if "isdigit c"
    using isdigit_range [OF that] by (simp add: of_nat_diff of_nat_of_char add_diff_eq)
  then show ?case
    using Cons [of "w * 10 + (of_char c - 48)"]
    by (cases "isdigit c") (simp_all only: parse_width.simps takeWhile.simps dropWhile.simps foldl.simps if_True if_False)
qed simp

lemma width_mask: "unat ((of_nat n :: u32) AND 0x0fffff) = n mod 2 ^ 20"
proof -
  have "(0x0fffff :: u32) = mask 20" by (simp add: mask_eq_exp_minus_1)
  then have "(of_nat n :: u32) AND 0x0fffff = take_bit 20 (of_nat n)" by (simp only: take_bit_eq_mask)
  also have "unat \<dots> = take_bit 20 (unat (of_nat n :: u32))" by (simp only: unsigned_take_bit_eq)
  also have "\<dots> = take_bit 20 n" by (simp only: unsigned_of_nat take_bit_take_bit) simp
  finally show ?thesis by (simp only: take_bit_eq_mod)
qed

lemma parse_width_field:
  "parse_width 0 r = (of_nat (digits_value (takeWhile isdigit r)), drop (length (takeWhile isdigit r)) r)"
  using parse_width_digits [of 0 r] by (simp add: digits_value_def dropWhile_eq_drop)

lemma take1_eq: "take 1 r = [c] \<longleftrightarrow> r \<noteq> [] \<and> hd r = c" for r :: "'a list"
  by (cases r) auto

lemma takeWhile_zero:
  "take 1 (takeWhile isdigit r) = ''0'' \<longleftrightarrow> r \<noteq> [] \<and> hd r = CHR ''0''"
  by (cases r) (auto simp: isdigit_def)

lemma parse_field: "parse_flags fmt = field fmt"
proof (cases "fmt \<noteq> [] \<and> hd fmt = CHR ''-''")
  case True
  then show ?thesis
    unfolding field_def parse_flags_def Let_def isdigit_eq [symmetric] takeWhile_zero
    unfolding take1_eq parse_width_field by (simp add: width_mask drop_Suc tl_drop)
next
  case False
  then have "(fmt \<noteq> [] \<and> hd fmt = CHR ''-'') = False" by simp
  then show ?thesis
    unfolding field_def parse_flags_def Let_def isdigit_eq [symmetric] takeWhile_zero
    unfolding take1_eq parse_width_field by (simp only: if_False prod.case) (simp add: width_mask drop_Suc tl_drop)
qed

lemma parse_directive:
  "directive fmt =
     (case parse_flags fmt of
        (flags, []) \<Rightarrow> None
      | (flags, c # rest) \<Rightarrow> if conversion c then Some (flags, c, rest) else None)"
proof -
  have "conversion c \<longleftrightarrow> c \<in> set ''cdfosux''" for c by (auto simp: conversion_def)
  then show ?thesis unfolding directive_def parse_field by (simp only:)
qed

lemma sends_loop: "fmt_text fmt ap = Some t \<Longrightarrow> sends (\<lambda>out. strfmt_loop out fmt ap) t"
proof (induction fmt ap arbitrary: t rule: fmt_text.induct)
  case (1 fmt ap)
  show ?case
  proof (cases fmt)
    case Nil
    with "1.prems" show ?thesis by (simp add: fmt_text.simps strfmt_loop.simps)
  next
    case (Cons c fmt')
    obtain flags rest where pf: "parse_flags fmt' = (flags, rest)" by fastforce
    show ?thesis
    proof (cases "if c = CHR ''%'' then directive fmt' else None")
      case (Some d)
      then have d: "c = CHR ''%''" "rest \<noteq> [] \<and> conversion (hd rest)" "d = (flags, hd rest, tl rest)"
        unfolding parse_directive pf by (auto split: if_splits list.splits)
      with "1.prems" Cons Some obtain a ap' t1 t2 where ap: "ap = a # ap'"
        and t1: "conv_text flags (hd rest) a = Some t1" and t2: "fmt_text (tl rest) ap' = Some t2" and t: "t = t1 @ t2"
        by (subst (asm) fmt_text.simps) (auto split: list.splits bind_splits)
      have "sends (\<lambda>out. strfmt_loop out (tl rest) ap') t2"
        by (rule "1.IH"(2) [OF Cons Some d(3) [symmetric] refl ap t1 t2])
      from sends_bind [OF sends_convert [OF t1, of ap'] this] show ?thesis
        using d by (subst strfmt_loop.simps) (simp add: Cons pf ap t)
    next
      case None
      then have none: "\<not> (c = CHR ''%'' \<and> rest \<noteq> [] \<and> conversion (hd rest))"
        unfolding parse_directive pf by (auto split: if_splits list.splits)
      from None "1.prems" Cons obtain t2 where t2: "fmt_text fmt' ap = Some t2" and t: "t = [c] @ t2"
        by (subst (asm) fmt_text.simps) auto
      have "sends (\<lambda>out. strfmt_loop out fmt' ap) t2" by (rule "1.IH"(1) [OF Cons None t2])
      from sends_bind [OF sends_outchar [of c] this] show ?thesis
        using none unfolding t by (subst strfmt_loop.simps) (cases "c = CHR ''%''"; auto simp add: Cons pf Let_def)
    qed
  qed
qed

lemma strfmt_eq:
  assumes "fmt_text fmt ap = Some t" and "length t < 2 ^ 31" and "length tmp = 22"
    and "1 \<le> len" and "len \<le> int (length str)"
  shows "strfmt tmp str len fmt ap = Some (int (length t), cstring (take (nat len - 1) t) str)"
proof -
  let ?out = "\<lparr>ob_buf = str, ob_pos = 0, ob_len = len - 1, ob_n = 0, ob_tmp = tmp\<rparr>"
  let ?cap = "nat len - 1" and ?k = "min (nat len - 1) (length t)"
  have "written str ?cap [] ?out" using assms(3-5) by (simp add: written_def)
  then obtain out where loop: "strfmt_loop ?out fmt ap = Some out" and w: "written str ?cap t out"
    using sends_loop [OF assms(1)] assms(2) unfolding sends_def by fastforce
  have k: "?k < length str" using assms(4, 5) by linarith
  then obtain c where "drop ?k str = c # drop (Suc ?k) str" using Cons_nth_drop_Suc by metis
  then have "ob_buf out = take ?cap t @ c # drop (Suc ?k) str" and "ob_pos out = length (take ?cap t)"
    using w by (simp_all add: written_def min.commute)
  then have "wr (ob_buf out) (ob_pos out) NUL = Some (cstring (take ?cap t) str)"
    using wr_append [of "take ?cap t" c "drop (Suc ?k) str" NUL] by (simp only: cstring_def length_take min.commute)
  then show ?thesis
    using loop w assms(4) by (simp add: strfmt_def strfmt_ap_def written_def)
qed

lemma strfmt_none: "len < 1 \<Longrightarrow> strfmt tmp str len fmt ap = Some (0, str)"
  by (simp add: strfmt_def strfmt_ap_def)



text \<open>
  With no room at all the call returns 0 and not the length of the text, which the comments
  of \<^verbatim>\<open>strfmt\<close> and \<^verbatim>\<open>strfmt_ap\<close> promise, like \<^verbatim>\<open>snprintf\<close>.
\<close>

theorem strfmt_no_room:
  "strfmt tmp str 0 fmt ap = Some (0, str) \<and> fmt_text ''abc'' [] = Some ''abc''"
  by (simp add: strfmt_none fmt_text.simps)

text \<open>
  The fraction is printed as a number, without its leading zeros, and the sign only with the
  integer part: the texts of 1.05 and of -0.5 are those of 1.5 and of 0.5.
\<close>

lemma fixed_loop_numeral:
  "fixed_loop (numeral k) frac bv r =
     fixed_loop (pred_numeral k) frac (bv div 2) (if odd (frac div 2 ^ pred_numeral k) then r + bv else r)"
  by (simp add: numeral_eq_Suc [of k] bit_iff_odd)

lemma double2fixed_text:
  "double2fixed False 1101005 = (1, 50000) \<and> double2fixed True 524288 = (0, 500000)"
proof -
  have "fixed_loop 20 52429 5000000 0 = 499999" "fixed_loop 20 524288 5000000 0 = 5000000"
    by (simp_all add: fixed_loop_numeral del: fixed_loop.simps(2)) simp_all
  moreover have "nat (1101005 mod 2 ^ 20) = 52429" "nat (524288 mod 2 ^ 20) = 524288" by simp_all
  ultimately show ?thesis by (simp add: double2fixed_def Let_def del: fixed_loop.simps)
qed

end
