(* ===== verification/Strcopy.thy ===== *)
theory Strcopy
  imports Prelude
begin

text \<open>
  The bounded string functions of \<^verbatim>\<open>strlcpy.c\<close> and \<^verbatim>\<open>safecpy.c\<close>. A destination is an offset
  into a buffer; a source is the list of the characters of a C string, without its
  terminator. Both families implement one contract, stated as a locale.
\<close>

section \<open>The library functions used\<close>

text \<open>The C string at an offset: the characters up to the first terminator.\<close>

definition cstr_at :: "char list \<Rightarrow> nat \<Rightarrow> char list" where
  "cstr_at buf off = takeWhile (\<lambda>c. c \<noteq> NUL) (drop off buf)"

definition strlen :: "char list \<Rightarrow> nat \<Rightarrow> nat option" where
  "strlen buf off = (if NUL \<in> set (drop off buf) then Some (length (cstr_at buf off)) else None)"

definition strcpy :: "char list \<Rightarrow> nat \<Rightarrow> char list \<Rightarrow> char list option" where
  "strcpy buf off src = wrn buf off (src @ [NUL])"

definition strncpy :: "char list \<Rightarrow> nat \<Rightarrow> char list \<Rightarrow> nat \<Rightarrow> char list option" where
  "strncpy buf off src n = wrn buf off (take n src @ replicate (n - length src) NUL)"

section \<open>\<^verbatim>\<open>strlcpy.c\<close>\<close>

text \<open>
  Return value and buffer. \<^verbatim>\<open>int srclen\<close> is converted back to \<^verbatim>\<open>size_t\<close> in the comparison
  and on return.
\<close>

definition size_of_int :: "int \<Rightarrow> nat" where
  "size_of_int i = nat (i mod 2 ^ 64)"

definition strlcpy :: "char list \<Rightarrow> nat \<Rightarrow> char list \<Rightarrow> nat \<Rightarrow> (nat \<times> char list) option" where
  "strlcpy buf dst src dstlen =
     (let srclen = int_of_size (length src)
      in do {
        buf \<leftarrow> (if dstlen > 0 then
                  if dstlen > size_of_int srclen then strcpy buf dst src
                  else do {
                    buf \<leftarrow> strncpy buf dst src (dstlen - 1);
                    wr buf (dst + dstlen - 1) NUL
                  }
                else Some buf);
        Some (size_of_int srclen, buf)
      })"

definition strlcat :: "char list \<Rightarrow> nat \<Rightarrow> char list \<Rightarrow> nat \<Rightarrow> (nat \<times> char list) option" where
  "strlcat buf dst src dstsize = do {
     dlen \<leftarrow> strlen buf dst;
     let dstlen = int_of_size dlen;
     let srclen = int_of_size (length src);
     let left = int_of_size (size_of_int (int dstsize - dstlen));
     buf \<leftarrow> (if left > 0 then
               if left > srclen then strcpy buf (dst + nat dstlen) src
               else do {
                 buf \<leftarrow> strncpy buf (dst + nat dstlen) src (nat (left - 1));
                 wr buf (dst + dstsize - 1) NUL
               }
             else Some buf);
     len \<leftarrow> c_int (dstlen + srclen);
     Some (size_of_int len, buf)
   }"

text \<open>The loop of \<^verbatim>\<open>strconcat\<close> over the arguments before the null pointer.\<close>

fun concat_loop :: "char list \<Rightarrow> nat \<Rightarrow> int \<Rightarrow> int \<Rightarrow> char list list \<Rightarrow> (char list \<times> int \<times> int) option" where
  "concat_loop buf str len tot [] = Some (buf, len, tot)"
| "concat_loop buf str len tot (arg # ap) =
     (if len > 0 then do {
        (r, buf) \<leftarrow> strlcpy buf str arg (nat len);
        let n = int_of_size r;
        concat_loop buf (str + nat n) (len - n) (tot + n) ap
      }
      else Some (buf, len, tot))"

definition strconcat :: "char list \<Rightarrow> int \<Rightarrow> char list list \<Rightarrow> (int \<times> char list) option" where
  "strconcat buf len ap =
     (if len = 0 then Some (0, buf)
      else do {
        (buf, len, tot) \<leftarrow> concat_loop buf 0 len 0 ap;
        Some (if len \<le> 0 then tot + (len - 1) else tot, buf)
      })"

section \<open>\<^verbatim>\<open>safecpy.c\<close>\<close>

text \<open>The loop of \<^verbatim>\<open>__copy\<close>: position and count after it.\<close>

fun copy_loop :: "char list \<Rightarrow> nat \<Rightarrow> char list \<Rightarrow> int \<Rightarrow> int \<Rightarrow> (char list \<times> nat \<times> int) option" where
  "copy_loop buf dst [] i dstsize = Some (buf, dst, i)"
| "copy_loop buf dst (c # src) i dstsize =
     (if i < dstsize then do {
        buf \<leftarrow> wr buf dst c;
        copy_loop buf (dst + 1) src (i + 1) dstsize
      }
      else Some (buf, dst, i))"

definition copy :: "char list \<Rightarrow> nat \<Rightarrow> char list \<Rightarrow> int \<Rightarrow> (int \<times> char list) option" where
  "copy buf dst src dstsize =
     (if dstsize > 0 then do {
        (buf, dst, i) \<leftarrow> copy_loop buf dst src 0 (dstsize - 1);
        buf \<leftarrow> wr buf dst NUL;
        Some (i, buf)
      }
      else Some (0, buf))"

definition safecpy :: "char list \<Rightarrow> nat \<Rightarrow> char list \<Rightarrow> int \<Rightarrow> (int \<times> char list) option" where
  "safecpy buf dst src dstsize = copy buf dst src dstsize"

definition safecat :: "char list \<Rightarrow> nat \<Rightarrow> char list \<Rightarrow> int \<Rightarrow> (int \<times> char list) option" where
  "safecat buf dst src dstsize =
     (if dstsize \<le> 0 then Some (0, buf)
      else do {
        dlen \<leftarrow> strlen buf dst;
        let len = int_of_size dlen;
        copy buf (dst + nat len) src (dstsize - len)
      })"

section \<open>The contract\<close>

text \<open>
  A bounded copy to \<open>n\<close> bytes at an offset writes the longest prefix of the source that
  leaves room for the terminator, and the terminator; with no room it writes nothing. A
  bounded concatenation is the bounded copy behind the string that is there.
\<close>

locale bounded_copy =
  fixes cpy :: "char list \<Rightarrow> nat \<Rightarrow> char list \<Rightarrow> nat \<Rightarrow> char list option"
    and cat :: "char list \<Rightarrow> nat \<Rightarrow> char list \<Rightarrow> nat \<Rightarrow> char list option"
  assumes cpy: "0 < n \<Longrightarrow> n < 2 ^ 31 \<Longrightarrow> off + n \<le> length buf \<Longrightarrow> length src < 2 ^ 31 \<Longrightarrow>
      cpy buf off src n = Some (blit buf off (take (n - 1) src @ [NUL]))"
    and cpy_none: "cpy buf off src 0 = Some buf"
    and cat: "NUL \<in> set (drop off buf) \<Longrightarrow> length (cstr_at buf off) < n \<Longrightarrow> n < 2 ^ 31 \<Longrightarrow>
      off + n \<le> length buf \<Longrightarrow> length src < 2 ^ 31 \<Longrightarrow>
      length (cstr_at buf off) + length src < 2 ^ 31 \<Longrightarrow>
      cat buf off src n = cpy buf (off + length (cstr_at buf off)) src (n - length (cstr_at buf off))"
begin

lemma cpy_string:
  assumes "0 < n" "n < 2 ^ 31" "off + n \<le> length buf" "length src < 2 ^ 31" "NUL \<notin> set src"
  shows "\<exists>buf'. cpy buf off src n = Some buf' \<and> cstr_at buf' off = take (n - 1) src \<and>
    length buf' = length buf \<and> take off buf' = take off buf \<and> drop (off + n) buf' = drop (off + n) buf"
proof -
  let ?w = "take (n - 1) src @ [NUL]" and ?buf = "blit buf off (take (n - 1) src @ [NUL])"
  have len: "length ?w \<le> n" using assms(1) by auto
  have "cstr_at ?buf off = take (n - 1) src"
    using assms(3, 5) len unfolding cstr_at_def
    by (simp add: blit_def, subst takeWhile_append2) (auto dest: in_set_takeD)
  moreover have "drop (off + n) ?buf = drop (off + n) buf"
    using assms(3) len by (intro drop_blit) simp_all
  ultimately show ?thesis using cpy [OF assms(1-4)] assms(3) len by (auto simp: blit_def)
qed

end

section \<open>Both families keep the contract\<close>

abbreviation strlcpy_buf :: "char list \<Rightarrow> nat \<Rightarrow> char list \<Rightarrow> nat \<Rightarrow> char list option" where
  "strlcpy_buf buf off src n \<equiv> map_option snd (strlcpy buf off src n)"

abbreviation strlcat_buf :: "char list \<Rightarrow> nat \<Rightarrow> char list \<Rightarrow> nat \<Rightarrow> char list option" where
  "strlcat_buf buf off src n \<equiv> map_option snd (strlcat buf off src n)"

abbreviation safecpy_buf :: "char list \<Rightarrow> nat \<Rightarrow> char list \<Rightarrow> nat \<Rightarrow> char list option" where
  "safecpy_buf buf off src n \<equiv> map_option snd (safecpy buf off src (int n))"

abbreviation safecat_buf :: "char list \<Rightarrow> nat \<Rightarrow> char list \<Rightarrow> nat \<Rightarrow> char list option" where
  "safecat_buf buf off src n \<equiv> map_option snd (safecat buf off src (int n))"

lemma size_of_int_small: "n < 2 ^ 64 \<Longrightarrow> size_of_int (int n) = n"
  by (simp add: size_of_int_def)

text \<open>What \<^verbatim>\<open>strlcpy\<close> and \<^verbatim>\<open>strlcat\<close> do in either case of the length test.\<close>

lemma strncpy_eq:
  assumes "n \<le> length src" "0 < n" "off + n \<le> length buf"
  shows "do { buf \<leftarrow> strncpy buf off src (n - 1); wr buf (off + n - 1) NUL } =
    Some (blit buf off (take (n - 1) src @ [NUL]))"
proof -
  have "strncpy buf off src (n - 1) = Some (blit buf off (take (n - 1) src))"
    using assms by (simp add: strncpy_def wrn_blit)
  moreover have "off + n - 1 = off + length (take (n - 1) src)" using assms by simp
  ultimately show ?thesis
    using wr_blit_snoc [of off "take (n - 1) src" buf NUL] assms by simp
qed

lemma strcpy_eq:
  "length src < n \<Longrightarrow> off + n \<le> length buf \<Longrightarrow> strcpy buf off src = Some (blit buf off (take (n - 1) src @ [NUL]))"
  by (simp add: strcpy_def wrn_blit)

lemma strlcpy_eq:
  assumes "0 < n" "off + n \<le> length buf" "length src < 2 ^ 31"
  shows "strlcpy buf off src n = Some (length src, blit buf off (take (n - 1) src @ [NUL]))"
proof -
  have sz: "size_of_int (int_of_size (length src)) = length src"
    using assms(3) by (simp add: int_of_size_small size_of_int_small)
  show ?thesis
    using strcpy_eq [of src n off buf] strncpy_eq [of n src off buf] assms
    by (cases "length src < n") (simp_all add: strlcpy_def sz)
qed

lemma strlcat_eq:
  assumes "NUL \<in> set (drop off buf)" and d: "d = length (cstr_at buf off)" "d < n" and n: "n < 2 ^ 31"
    and "off + n \<le> length buf" and src: "length src < 2 ^ 31" and sum: "d + length src < 2 ^ 31"
  shows "strlcat buf off src n =
    Some (d + length src, blit buf (off + d) (take (n - d - 1) src @ [NUL]))"
proof -
  have left: "int_of_size (size_of_int (int n - int d)) = int (n - d)"
    using d n int_of_size_small [of "n - d"] size_of_int_small [of "n - d"] by (simp add: of_nat_diff)
  have sz: "int_of_size d = int d" "int_of_size (length src) = int (length src)"
    using d n src by (simp_all add: int_of_size_small)
  have r: "size_of_int (int d + int (length src)) = d + length src"
    "c_int (int d + int (length src)) = Some (int d + int (length src))"
    using size_of_int_small [of "d + length src"] d n src sum by (simp_all add: c_int_small)
  have k: "nat (int n - int d - 1) = n - d - 1" "int (length src) < int n - int d \<longleftrightarrow> length src < n - d"
    using d(2) by linarith+
  show ?thesis
    using strcpy_eq [of src "n - d" "off + d" buf] strncpy_eq [of "n - d" src "off + d" buf] assms(1, 5) d(2)
    by (cases "length src < n - d") (simp_all add: strlcat_def strlen_def d(1) [symmetric] sz left r k Let_def)
qed

lemma copy_loop_eq:
  "off + length done' + min (length src) m < length buf \<Longrightarrow>
     copy_loop (blit buf off done') (off + length done') src i (i + int m) =
       Some (blit buf off (done' @ take m src), off + length done' + min (length src) m, i + int (min (length src) m))"
proof (induction src arbitrary: done' i m)
  case (Cons c src)
  show ?case
  proof (cases m)
    case (Suc m')
    have "copy_loop (blit buf off done') (off + length done') (c # src) i (i + int m) =
        copy_loop (blit buf off (done' @ [c])) (off + length (done' @ [c])) src (i + 1) (i + 1 + int m')"
      using wr_blit_snoc [of off done' buf c] Cons.prems Suc by (simp add: add.assoc)
    also have "\<dots> = Some (blit buf off ((done' @ [c]) @ take m' src), off + length (done' @ [c]) + min (length src) m',
        i + 1 + int (min (length src) m'))"
      using Cons.prems Suc by (intro Cons.IH) simp
    finally show ?thesis by (simp add: Suc)
  qed simp
qed simp

lemma blit_Nil [simp]: "blit buf off [] = buf"
  by (simp add: blit_def)

lemma copy_eq:
  assumes "0 < n" "off + n \<le> length buf"
  shows "copy buf off src (int n) = Some (int (min (length src) (n - 1)), blit buf off (take (n - 1) src @ [NUL]))"
proof -
  have "off + min (length src) (n - 1) < length buf" using assms by linarith
  then show ?thesis
    using copy_loop_eq [of off "[]" src "n - 1" buf 0] wr_blit_snoc [of off "take (n - 1) src" buf NUL] assms
    by (simp add: copy_def of_nat_diff min.commute)
qed

interpretation lcpy: bounded_copy strlcpy_buf strlcat_buf
proof
  fix buf src :: "char list" and off n :: nat
  show "strlcpy_buf buf off src 0 = Some buf" by (simp add: strlcpy_def)
  assume "NUL \<in> set (drop off buf)" "length (cstr_at buf off) < n" "n < 2 ^ 31" "off + n \<le> length buf" "length src < 2 ^ 31"
    "length (cstr_at buf off) + length src < 2 ^ 31"
  then show "strlcat_buf buf off src n = strlcpy_buf buf (off + length (cstr_at buf off)) src (n - length (cstr_at buf off))"
    by (simp add: strlcat_eq strlcpy_eq)
qed (simp add: strlcpy_eq)

interpretation scpy: bounded_copy safecpy_buf safecat_buf
proof
  fix buf src :: "char list" and off n :: nat
  show "safecpy_buf buf off src 0 = Some buf" by (simp add: safecpy_def copy_def)
  assume "NUL \<in> set (drop off buf)" "length (cstr_at buf off) < n" "n < 2 ^ 31" "off + n \<le> length buf" "length src < 2 ^ 31"
    "length (cstr_at buf off) + length src < 2 ^ 31"
  then show "safecat_buf buf off src n = safecpy_buf buf (off + length (cstr_at buf off)) src (n - length (cstr_at buf off))"
    by (simp add: safecat_def strlen_def int_of_size_small safecpy_def of_nat_diff)
qed (simp add: safecpy_def copy_eq)

section \<open>Properties\<close>

text \<open>
  The bounded copies agree: for every string and every positive size that fits the
  buffer, \<^verbatim>\<open>strlcpy\<close> and \<^verbatim>\<open>safecpy\<close> leave the same bytes, the longest prefix that fits
  with its terminator, and nothing outside the \<open>n\<close> bytes changes; they differ in the
  result, the length of the source for one and the number of characters copied for the other.
\<close>

theorem bounded_copies_agree:
  assumes "0 < n" "n < 2 ^ 31" "off + n \<le> length buf" "length src < 2 ^ 31" "NUL \<notin> set src"
  shows "\<exists>buf'. strlcpy buf off src n = Some (length src, buf') \<and>
    safecpy buf off src (int n) = Some (int (min (length src) (n - 1)), buf') \<and>
    cstr_at buf' off = take (n - 1) src \<and> length buf' = length buf \<and>
    take off buf' = take off buf \<and> drop (off + n) buf' = drop (off + n) buf"
  using lcpy.cpy_string [OF assms] strlcpy_eq [OF assms(1, 3, 4)] copy_eq [OF assms(1, 3), of src]
  by (auto simp: safecpy_def)

theorem bounded_copies_agree_witness:
  "\<exists>buf'. strlcpy (replicate 9 CHR ''z'') 2 ''abcdef'' 4 = Some (6, buf') \<and> cstr_at buf' 2 = ''abc'' \<and>
    safecpy (replicate 9 CHR ''z'') 2 ''abcdef'' 4 = Some (3, buf')"
  using bounded_copies_agree [of 4 2 "replicate 9 CHR ''z''" "''abcdef''"] by auto

text \<open>
  C30. The bounded concatenations: behind a string of fewer than \<open>n\<close> characters,
  \<^verbatim>\<open>strlcat\<close> and \<^verbatim>\<open>safecat\<close> leave the same buffer, whose string is the prefix of \<open>n - 1\<close>
  characters of the two strings together, and \<^verbatim>\<open>strlcat\<close> returns the length of both. The
  lengths together are below 2 GiB: \<^verbatim>\<open>strlcat\<close> adds them as \<^verbatim>\<open>int\<close>.
\<close>

theorem bounded_cats_agree:
  assumes "NUL \<in> set (drop off buf)" "length (cstr_at buf off) < n" "n < 2 ^ 31" "off + n \<le> length buf"
    "length src < 2 ^ 31" "NUL \<notin> set src" "length (cstr_at buf off) + length src < 2 ^ 31"
  shows "\<exists>buf'. strlcat buf off src n = Some (length (cstr_at buf off) + length src, buf') \<and>
    (\<exists>i. safecat buf off src (int n) = Some (i, buf')) \<and>
    cstr_at buf' off = take (n - 1) (cstr_at buf off @ src) \<and> drop (off + n) buf' = drop (off + n) buf"
proof -
  let ?d = "cstr_at buf off" and ?n = "n - length (cstr_at buf off)"
  let ?w = "take (?n - 1) src @ [NUL]"
  have r: "0 < ?n" "off + length ?d + ?n \<le> length buf" using assms(2, 4) by simp_all
  let ?buf = "blit buf (off + length ?d) ?w"
  have "take (length ?d) (drop off buf) = ?d" unfolding cstr_at_def by (metis takeWhile_eq_take)
  then have "drop off ?buf = ?d @ ?w @ drop (off + length ?d + length ?w) buf"
    using assms(2, 4) by (simp add: blit_def take_drop add.commute)
  moreover have "NUL \<notin> set ?d" unfolding cstr_at_def using set_takeWhileD by fastforce
  ultimately have "cstr_at ?buf off = ?d @ take (?n - 1) src"
    using assms(6) unfolding cstr_at_def [of ?buf]
    by (simp, subst takeWhile_append2, force, subst takeWhile_append2) (auto dest: in_set_takeD)
  moreover have "drop (off + n) ?buf = drop (off + n) buf" using r assms(2) by (intro drop_blit) auto
  moreover have "\<exists>i. safecat buf off src (int n) = Some (i, ?buf)"
    using scpy.cat [OF assms(1-5, 7)] scpy.cpy [OF r(1) _ r(2) assms(5)] assms(3)
    by (auto simp: less_imp_diff_less)
  moreover have "take (n - 1) (?d @ src) = ?d @ take (?n - 1) src" using assms(2) by (simp add: diff_right_commute)
  ultimately show ?thesis using strlcat_eq [OF assms(1) refl assms(2-5, 7)] by auto
qed

theorem bounded_cats_agree_witness:
  "\<exists>buf'. strlcat (''ab'' @ replicate 7 NUL) 0 ''cdef'' 5 = Some (6, buf') \<and> cstr_at buf' 0 = ''abcd''"
proof -
  have "cstr_at (''ab'' @ replicate 7 NUL) 0 = ''ab''" by (simp add: cstr_at_def takeWhile_replicate)
  then show ?thesis using bounded_cats_agree [of 0 "''ab'' @ replicate 7 NUL" 5 "''cdef''"] by auto
qed

subsection \<open>Concatenation of many strings\<close>

text \<open>Writing behind \<open>t\<close> in \<open>b\<close> gives the string \<open>t\<close> and what is written, in \<open>buf\<close>.\<close>

definition behind :: "char list \<Rightarrow> char list \<Rightarrow> char list \<Rightarrow> bool" where
  "behind b t buf \<longleftrightarrow> length b = length buf \<and>
     (\<forall>w. length t + length w < length buf \<longrightarrow> blit b (length t) (w @ [NUL]) = cstring (t @ w) buf)"

lemma behind_start: "behind buf [] buf"
  by (simp add: behind_def blit_def cstring_def)

lemma behind_cstring: "length t < length buf \<Longrightarrow> behind (cstring t buf) t buf"
  by (auto simp: behind_def blit_def cstring_def add.commute)

lemma concat_loop_step:
  assumes "behind b t buf" "length t < L" "L \<le> length buf" "length a < 2 ^ 31"
  shows "concat_loop b (length t) (int L - int (length t)) (int (length t)) (a # ap) =
    concat_loop (cstring (t @ take (L - length t - 1) a) buf) (length (t @ a)) (int L - int (length (t @ a)))
      (int (length (t @ a))) ap"
proof -
  have "strlcpy b (length t) a (L - length t) = Some (length a, cstring (t @ take (L - length t - 1) a) buf)"
    using assms strlcpy_eq [of "L - length t" "length t" b a] by (simp add: behind_def)
  moreover have "nat (int L - int (length t)) = L - length t" "0 < int L - int (length t)" using assms(2) by linarith+
  moreover have "int L - int (length t) - int (length a) = int L - int (length (t @ a))" by simp
  ultimately show ?thesis
    using int_of_size_small [OF assms(4)] by (simp only: concat_loop.simps) (simp add: Let_def diff_diff_eq)
qed

lemma concat_loop_eq:
  assumes "behind b t buf" "length t < L" "L \<le> length buf" "length (t @ concat (a # ap)) < 2 ^ 31"
  shows "\<exists>len' tot'. concat_loop b (length t) (int L - int (length t)) (int (length t)) (a # ap) =
      Some (cstring (take (L - 1) (t @ concat (a # ap))) buf, len', tot') \<and>
    tot' + len' = int L \<and> (if L \<le> length (t @ concat (a # ap)) then len' \<le> 0
      else 0 < len' \<and> tot' = int (length (t @ concat (a # ap))))"
  using assms
proof (induction ap arbitrary: a b t)
  case Nil
  then have a: "length a < 2 ^ 31" by simp
  have "take (L - 1) (t @ a) = t @ take (L - length t - 1) a" using Nil.prems(2) by (simp add: diff_right_commute)
  then show ?case using concat_loop_step [OF Nil.prems(1-3) a, of "[]"] by auto
next
  case (Cons a' ap)
  let ?w = "take (L - length t - 1) a" and ?t = "t @ a"
  have a: "length a < 2 ^ 31" using Cons.prems(4) by simp
  note step = concat_loop_step [OF Cons.prems(1-3) a, of "a' # ap"]
  show ?case
  proof (cases "length ?t < L")
    case True
    then have w: "?w = a" by simp
    have "behind (cstring ?t buf) ?t buf" using True Cons.prems(3) by (intro behind_cstring) simp
    from Cons.IH [OF this True Cons.prems(3), of a'] show ?thesis
      unfolding step w using Cons.prems(4) by (simp del: concat_loop.simps cong: if_cong add: add.assoc)
  next
    case False
    then have "take (L - 1) (t @ concat (a # a' # ap)) = t @ ?w"
      using Cons.prems(2) by (simp add: diff_right_commute)
    then show ?thesis unfolding step using False by simp
  qed
qed

declare concat_loop.simps(2) [simp del]

text \<open>
  C31. \<^verbatim>\<open>strconcat\<close> with at least one string writes the concatenation of all of them, cut to
  the buffer and terminated, touches nothing behind the terminator, and returns the number
  of characters it left in the buffer.
\<close>

theorem strconcat_correct:
  assumes "ap \<noteq> []" "1 \<le> len" "len \<le> int (length buf)" "length (concat ap) < 2 ^ 31"
  shows "strconcat buf len ap =
    Some (int (min (length (concat ap)) (nat len - 1)), cstring (take (nat len - 1) (concat ap)) buf)"
proof -
  obtain a ap' where ap: "ap = a # ap'" using assms(1) by (cases ap) auto
  have "\<exists>len' tot'. concat_loop buf 0 len 0 ap = Some (cstring (take (nat len - 1) (concat ap)) buf, len', tot') \<and>
      tot' + len' = len \<and> (if nat len \<le> length (concat ap) then len' \<le> 0
        else 0 < len' \<and> tot' = int (length (concat ap)))"
    using concat_loop_eq [OF behind_start, of "nat len" buf a ap'] assms by (simp add: ap nat_le_iff cong: if_cong)
  then obtain len' tot' where
    loop: "concat_loop buf 0 len 0 ap = Some (cstring (take (nat len - 1) (concat ap)) buf, len', tot')"
    and r: "tot' + len' = len" "if nat len \<le> length (concat ap) then len' \<le> 0
        else 0 < len' \<and> tot' = int (length (concat ap))" by blast
  then have "(if len' \<le> 0 then tot' + (len' - 1) else tot') = int (min (length (concat ap)) (nat len - 1))"
    using assms(2) by (auto split: if_splits)
  then show ?thesis using loop assms(2) by (simp add: strconcat_def)
qed

lemma replicate_numeral2: "replicate 2 x = [x, x]"
  by (simp add: numeral_2_eq_2)

theorem strconcat_correct_witness:
  "strconcat (replicate 8 CHR ''z'') 6 [''ab'', ''cd'', ''efg''] = Some (5, ''abcde'' @ [NUL] @ ''zz'')"
  using strconcat_correct [of "[''ab'', ''cd'', ''efg'']" 6 "replicate 8 CHR ''z''"]
  by (simp add: cstring_def replicate_numeral2)

end
