(* ===== verification/Chksum.thy ===== *)
theory Chksum
  imports Prelude
begin

text \<open>
  The Internet checksum of \<^verbatim>\<open>crc16.c\<close>. The words are read in host (little endian) order,
  the sum is kept in an \<^verbatim>\<open>int32_t\<close>, whose overflow is undefined, and is folded once.
\<close>

section \<open>The function\<close>

definition word16_at :: "u8 list \<Rightarrow> nat \<Rightarrow> nat option" where
  "word16_at buf p = do {
     bs \<leftarrow> rdn buf p 2;
     Some (unat (bs ! 0) + 256 * unat (bs ! 1))
   }"

definition add32 :: "int \<Rightarrow> int \<Rightarrow> int option" where
  "add32 a b = (if a + b < 2 ^ 31 then Some (a + b) else None)"

text \<open>The loop; the result is the sum, the pointer and the count left, 0 or 1.\<close>

fun chksum_loop :: "u8 list \<Rightarrow> nat \<Rightarrow> nat \<Rightarrow> int \<Rightarrow> (int \<times> nat \<times> nat) option" where
  "chksum_loop buf (Suc (Suc count)) p sm = do {
     w \<leftarrow> word16_at buf p;
     sm \<leftarrow> add32 sm (int w);
     chksum_loop buf count (p + 2) sm
   }"
| "chksum_loop buf count p sm = Some (sm, p, count)"

definition chksum_fold :: "int \<Rightarrow> u16" where
  "chksum_fold sm =
     (let shift = drop_bit 16 sm;
          sm = (if shift \<noteq> 0 then (sm AND 0xffff) + shift else sm)
      in word_of_int (NOT sm))"

definition chksum16 :: "u8 list \<Rightarrow> nat \<Rightarrow> u16 option" where
  "chksum16 buf count = do {
     (sm, p, count) \<leftarrow> chksum_loop buf count 0 0;
     sm \<leftarrow> (if count > 0 then do { w \<leftarrow> word16_at buf p; add32 sm (int w) } else Some sm);
     Some (chksum_fold sm)
   }"

section \<open>The sum of the words\<close>

fun words16 :: "u8 list \<Rightarrow> nat list" where
  "words16 (a # b # bs) = (unat a + 256 * unat b) # words16 bs"
| "words16 _ = []"

lemma words16_append: "even (length xs) \<Longrightarrow> words16 (xs @ ys) = words16 xs @ words16 ys"
  by (induction xs rule: words16.induct) auto

lemma chksum_loop_eq:
  "length bs = count \<Longrightarrow> even count \<Longrightarrow> 0 \<le> sm \<Longrightarrow> sm + int (sum_list (words16 bs)) < 2 ^ 31 \<Longrightarrow>
     chksum_loop (pre @ bs @ post) count (length pre) sm = Some (sm + int (sum_list (words16 bs)), length pre + count, 0)"
proof (induction bs arbitrary: pre count sm rule: words16.induct)
  case (1 a b bs)
  have "word16_at (pre @ (a # b # bs) @ post) (length pre) = Some (unat a + 256 * unat b)"
    using rdn_append [of 2 "[a, b]" pre "bs @ post"] by (simp add: word16_at_def)
  then show ?case
    using "1.IH" [of "length bs" "sm + (int (unat a) + 256 * int (unat b))" "pre @ [a, b]"] "1.prems"
    by (auto simp: add32_def algebra_simps)
qed auto

lemma chksum_fold_eq:
  assumes "0 \<le> sm" "sm < 2 ^ 31"
  shows "uint (chksum_fold sm) = (- (sm mod 65536 + sm div 65536) - 1) mod 65536"
proof -
  have "sm AND 0xffff = sm mod 65536" using take_bit_eq_mask [of 16 sm] by (simp add: take_bit_eq_mod mask_numeral)
  moreover have "drop_bit 16 sm = sm div 65536" by (simp add: drop_bit_eq_div)
  ultimately have "chksum_fold sm = word_of_int (- (sm mod 65536 + sm div 65536) - 1)"
    using assms by (auto simp: chksum_fold_def Let_def not_int_def)
  then show ?thesis by (simp only: uint_word_of_int) simp
qed

text \<open>
  The checksum verifies, RFC 1071: for an even number of bytes whose sum needs no second
  carry, \<^verbatim>\<open>chksum16\<close> stays inside the buffer and returns the value that makes the ones'
  complement sum of all words and the checksum the negative zero \<^verbatim>\<open>0xffff\<close>: modulo 65535 the total vanishes.
\<close>

theorem chksum16_verifies:
  assumes "count = length bs" "even count" "sum_list (words16 bs) < 2 ^ 31"
    and "sum_list (words16 bs) mod 65536 + sum_list (words16 bs) div 65536 < 65536"
  shows "\<exists>c. chksum16 (bs @ post) count = Some c \<and> (sum_list (words16 bs) + unat c) mod 65535 = 0"
proof -
  let ?s = "int (sum_list (words16 bs))" and ?c = "chksum_fold (int (sum_list (words16 bs)))"
  have run: "chksum16 (bs @ post) count = Some ?c"
    using chksum_loop_eq [of bs count 0 "[]" post] assms(1-3) by (simp add: chksum16_def)
  have "int (sum_list (words16 bs) mod 65536 + sum_list (words16 bs) div 65536) < int 65536"
    using assms(4) by (simp only: of_nat_less_iff)
  then have fold: "?s mod 65536 + ?s div 65536 < 65536" by (simp add: zmod_int zdiv_int)
  have "uint ?c = (- (?s mod 65536 + ?s div 65536) - 1) mod 65536"
    using assms(3) by (intro chksum_fold_eq) simp_all
  also have "\<dots> = 65535 - (?s mod 65536 + ?s div 65536)"
  proof -
    have "- (?s mod 65536 + ?s div 65536) - 1 = (65535 - (?s mod 65536 + ?s div 65536)) - 65536" by simp
    then have "(- (?s mod 65536 + ?s div 65536) - 1) mod 65536 = (65535 - (?s mod 65536 + ?s div 65536)) mod 65536"
      by (metis minus_mod_self2)
    moreover have "0 \<le> ?s mod 65536 + ?s div 65536" by simp
    ultimately show ?thesis using fold by (simp add: mod_pos_pos_trivial)
  qed
  finally have c: "uint ?c = 65535 - (?s mod 65536 + ?s div 65536)" .
  have "?s = 65536 * (?s div 65536) + ?s mod 65536" by simp
  moreover have "s + d = 65535 * (1 + q)" if "s = 65536 * q + r" "d = 65535 - (r + q)" for s d q r :: int
    using that by simp
  ultimately have "?s + uint ?c = 65535 * (1 + ?s div 65536)" using c by blast
  then have "int (sum_list (words16 bs) + unat ?c) = 65535 * (1 + ?s div 65536)" by (simp only: of_nat_add uint_nat)
  then have "int ((sum_list (words16 bs) + unat ?c) mod 65535) = 0" by (simp only: zmod_int of_nat_numeral mod_mult_self1_is_0)
  then have "(sum_list (words16 bs) + unat ?c) mod 65535 = 0" by (simp only: of_nat_eq_0_iff)
  with run show ?thesis by (intro exI conjI)
qed

theorem chksum16_verifies_witness:
  "\<exists>c. chksum16 [0x45, 0x00, 0xff, 0xff] 4 = Some c \<and> (sum_list (words16 [0x45, 0x00, 0xff, 0xff]) + unat c) mod 65535 = 0"
  using chksum16_verifies [of 4 "[0x45, 0x00, 0xff, 0xff]" "[]"] by simp

text \<open>
  The second carry is lost: three words are enough, \<^verbatim>\<open>ffff ffff 0001\<close>, to get a checksum
  with which the message does not verify. The comment in the source puts the limit at 64k
  bytes.
\<close>

theorem chksum16_lost_carry:
  "\<exists>c. chksum16 [0xff, 0xff, 0xff, 0xff, 0x01, 0x00] 6 = Some c \<and>
     (sum_list (words16 [0xff, 0xff, 0xff, 0xff, 0x01, 0x00]) + unat c) mod 65535 \<noteq> 0"
proof -
  have "chksum16 [0xff, 0xff, 0xff, 0xff, 0x01, 0x00] 6 = Some (chksum_fold 131071)"
    using chksum_loop_eq [of "[0xff, 0xff, 0xff, 0xff, 0x01, 0x00]" 6 0 "[]" "[]"] by (simp add: chksum16_def)
  moreover have "uint (chksum_fold 131071) = 65535" by (subst chksum_fold_eq) simp_all
  then have "unat (chksum_fold 131071) = 65535" by (simp add: unat_eq_nat_uint)
  ultimately show ?thesis by simp
qed

text \<open>
  An odd count reads a byte behind the buffer: the last byte is fetched as a whole word.
\<close>

theorem chksum16_odd_overread:
  assumes "odd (length bs)" "sum_list (words16 bs) < 2 ^ 31"
  shows "chksum16 bs (length bs) = None"
proof -
  have "bs \<noteq> []" using assms(1) by auto
  then obtain cs b where bs: "bs = cs @ [b]" by (cases bs rule: rev_cases) auto
  have words: "words16 bs = words16 cs" using assms(1) by (simp add: bs words16_append)
  have suc: "chksum_loop buf (Suc n) p sm = map_option (\<lambda>(s, p, c). (s, p, Suc 0)) (chksum_loop buf n p sm)"
    if "even n" for buf n p sm using that
    by (induction buf n p sm rule: chksum_loop.induct) (auto split: bind_splits)
  have "chksum_loop bs (length bs) 0 0 = Some (int (sum_list (words16 cs)), length cs, 1)"
    using chksum_loop_eq [of cs "length cs" 0 "[]" "[b]"] suc [of "length cs" bs 0 0] assms words by (simp add: bs)
  then show ?thesis by (simp add: chksum16_def word16_at_def rdn_def bs)
qed

theorem chksum16_odd_overread_witness: "chksum16 [0x45] 1 = None"
  using chksum16_odd_overread [of "[0x45]"] by simp

end
