(* ===== verification/Times.thy ===== *)
theory Times
  imports Prelude
begin

text \<open>
  Differences of times, \<^verbatim>\<open>time.c\<close>. A pointer to a \<^verbatim>\<open>struct timeval\<close> is \<^const>\<open>None\<close> for
  null or an index into a store, so that the result may alias an argument, which the source
  allows.
\<close>

section \<open>The functions\<close>

record timeval =
  tv_sec :: int
  tv_usec :: int

abbreviation (input) ONE_SECOND :: int where
  "ONE_SECOND \<equiv> 1000000"

type_synonym tv_store = "nat \<Rightarrow> timeval"

text \<open>
  Arithmetic on \<^verbatim>\<open>time_t\<close> and \<^verbatim>\<open>suseconds_t\<close>, 64 bit signed; an overflow is undefined. The
  result is an \<^verbatim>\<open>unsigned long\<close>; \<^verbatim>\<open>~0\<close> becomes its greatest value.
\<close>

definition long_ok :: "int \<Rightarrow> int option" where
  "long_ok v = (if - (2 ^ 63) \<le> v \<and> v < 2 ^ 63 then Some v else None)"

definition delta_timeval :: "timeval \<Rightarrow> timeval \<Rightarrow> u64 option" where
  "delta_timeval start fin =
     (if tv_usec start > tv_usec fin then do {
        e \<leftarrow> long_ok (tv_sec fin - 1);
        if tv_sec start = e then Some (word_of_int (tv_usec fin + ONE_SECOND - tv_usec start))
        else if tv_sec start > e then Some (word_of_int (NOT 0))
        else do {
          s \<leftarrow> long_ok (e - tv_sec start);
          us \<leftarrow> long_ok (s * ONE_SECOND);
          d \<leftarrow> long_ok (us + (tv_usec fin + ONE_SECOND - tv_usec start));
          Some (word_of_int d)
        }
      }
      else if tv_sec start = tv_sec fin then Some (word_of_int (tv_usec fin - tv_usec start))
      else if tv_sec start > tv_sec fin then Some (word_of_int (NOT 0))
      else do {
        s \<leftarrow> long_ok (tv_sec fin - tv_sec start);
        us \<leftarrow> long_ok (s * ONE_SECOND);
        d \<leftarrow> long_ok (us + (tv_usec fin - tv_usec start));
        Some (word_of_int d)
      })"

definition timeval_delta_valid :: "timeval \<Rightarrow> timeval \<Rightarrow> bool" where
  "timeval_delta_valid start fin =
     (if tv_sec fin > tv_sec start then True
      else if tv_sec fin = tv_sec start then
        if tv_usec fin \<ge> tv_usec start then True else False
      else False)"

text \<open>
  The macro \<^verbatim>\<open>timersub\<close> of the C library, an assignment at a time, and the branch of the source
  for systems that do not have it.
\<close>

definition timersub :: "tv_store \<Rightarrow> nat \<Rightarrow> nat \<Rightarrow> nat \<Rightarrow> tv_store" where
  "timersub m a b r =
     (let m = m(r := (m r)\<lparr>tv_sec := tv_sec (m a) - tv_sec (m b)\<rparr>);
          m = m(r := (m r)\<lparr>tv_usec := tv_usec (m a) - tv_usec (m b)\<rparr>)
      in if tv_usec (m r) < 0
         then m(r := (m r)\<lparr>tv_sec := tv_sec (m r) - 1, tv_usec := tv_usec (m r) + 1000000\<rparr>)
         else m)"

definition portable_sub :: "tv_store \<Rightarrow> nat \<Rightarrow> nat \<Rightarrow> nat \<Rightarrow> tv_store" where
  "portable_sub m start fin r =
     (if tv_usec (m start) > tv_usec (m fin) then
        let m = m(r := (m r)\<lparr>tv_sec := tv_sec (m fin) - 1 - tv_sec (m start)\<rparr>)
        in m(r := (m r)\<lparr>tv_usec := tv_usec (m fin) + ONE_SECOND - tv_usec (m start)\<rparr>)
      else
        let m = m(r := (m r)\<lparr>tv_sec := tv_sec (m fin) - tv_sec (m start)\<rparr>)
        in m(r := (m r)\<lparr>tv_usec := tv_usec (m fin) - tv_usec (m start)\<rparr>))"

definition timeval_delta ::
  "bool \<Rightarrow> tv_store \<Rightarrow> nat option \<Rightarrow> nat option \<Rightarrow> nat option \<Rightarrow> int \<times> tv_store" where
  "timeval_delta have_timersub m start fin delta =
     (case (start, fin, delta) of
        (Some s, Some e, Some d) \<Rightarrow>
          if \<not> timeval_delta_valid (m s) (m e) then (EINVAL, m)
          else if have_timersub then (0, timersub m e s d)
          else (0, portable_sub m s e d)
      | _ \<Rightarrow> (EINVAL, m))"

definition timeval_delta2 ::
  "bool \<Rightarrow> tv_store \<Rightarrow> nat option \<Rightarrow> nat option \<Rightarrow> nat option \<Rightarrow> int \<times> tv_store" where
  "timeval_delta2 have_timersub m t1 t2 delta =
     (let (rc, m) = timeval_delta have_timersub m t1 t2 delta
      in if rc \<noteq> 0 then timeval_delta have_timersub m t2 t1 delta else (rc, m))"

definition short_month :: "string list" where
  "short_month = [''Jan'', ''Feb'', ''Mar'', ''Apr'', ''May'', ''Jun'', ''Jul'', ''Aug'', ''Sep'', ''Oct'', ''Nov'', ''Dec'']"

definition long_month :: "string list" where
  "long_month = [''January'', ''February'', ''March'', ''April'', ''May'', ''June'', ''July'', ''August'',
     ''September'', ''October'', ''November'', ''December'']"

definition get_month :: "bool \<Rightarrow> u32 \<Rightarrow> bool \<Rightarrow> string" where
  "get_month months_one_based month long_months =
     (let month = (if months_one_based then month - 1 else month)
      in if month > 11 then ''???''
         else (if long_months then long_month else short_month) ! unat month)"

section \<open>Differences\<close>

text \<open>A time in microseconds, and the normalised times.\<close>

definition usecs :: "timeval \<Rightarrow> int" where
  "usecs t = tv_sec t * ONE_SECOND + tv_usec t"

definition tv_ok :: "timeval \<Rightarrow> bool" where
  "tv_ok t \<longleftrightarrow> 0 \<le> tv_usec t \<and> tv_usec t < ONE_SECOND"

lemma usecs_le:
  assumes "tv_ok s" "tv_ok e"
  shows "usecs s \<le> usecs e \<longleftrightarrow> tv_sec s < tv_sec e \<or> tv_sec s = tv_sec e \<and> tv_usec s \<le> tv_usec e"
proof -
  consider "tv_sec s + 1 \<le> tv_sec e" | "tv_sec s = tv_sec e" | "tv_sec e + 1 \<le> tv_sec s" by linarith
  then show ?thesis
    using assms by cases (auto simp: usecs_def tv_ok_def)
qed

lemma usecs_inject: "tv_ok s \<Longrightarrow> tv_ok e \<Longrightarrow> usecs s = usecs e \<Longrightarrow> tv_sec s = tv_sec e \<and> tv_usec s = tv_usec e"
  using usecs_le [of s e] usecs_le [of e s] by auto

lemma valid_usecs: "tv_ok s \<Longrightarrow> tv_ok e \<Longrightarrow> timeval_delta_valid s e \<longleftrightarrow> usecs s \<le> usecs e"
  by (auto simp: usecs_le timeval_delta_valid_def)

lemma long_ok_small: "0 \<le> v \<Longrightarrow> v < 2 ^ 63 \<Longrightarrow> long_ok v = Some v"
  by (simp add: long_ok_def)

text \<open>
  \<^verbatim>\<open>delta_timeval\<close> on normalised times is the difference in microseconds, or the greatest
  value when the end is before the start; no step overflows for times up to \<open>2 ^ 43\<close> seconds
  (some 278000 years) after 1970.
\<close>

theorem delta_timeval_correct:
  assumes ok: "tv_ok s" "tv_ok e" and s: "0 \<le> tv_sec s" "tv_sec s < 2 ^ 43" and e: "0 \<le> tv_sec e" "tv_sec e < 2 ^ 43"
  shows "delta_timeval s e = Some (if usecs s \<le> usecs e then word_of_int (usecs e - usecs s) else - 1)"
proof (cases "tv_usec s > tv_usec e")
  case True
  have l: "long_ok (tv_sec e - 1) = Some (tv_sec e - 1)" using e by (simp add: long_ok_def)
  consider "tv_sec s = tv_sec e - 1" | "tv_sec e \<le> tv_sec s" | "tv_sec s < tv_sec e - 1" by linarith
  then show ?thesis
  proof cases
    case 3
    then have "long_ok (tv_sec e - 1 - tv_sec s) = Some (tv_sec e - 1 - tv_sec s)"
      "long_ok ((tv_sec e - 1 - tv_sec s) * ONE_SECOND) = Some ((tv_sec e - 1 - tv_sec s) * ONE_SECOND)"
      "long_ok ((tv_sec e - 1 - tv_sec s) * ONE_SECOND + (tv_usec e + ONE_SECOND - tv_usec s)) =
        Some ((tv_sec e - 1 - tv_sec s) * ONE_SECOND + (tv_usec e + ONE_SECOND - tv_usec s))"
      using ok s e by (auto intro!: long_ok_small simp: tv_ok_def)
    moreover have "usecs s \<le> usecs e" using 3 ok by (simp add: usecs_le)
    moreover have "(tv_sec e - 1 - tv_sec s) * ONE_SECOND + (tv_usec e + ONE_SECOND - tv_usec s) = usecs e - usecs s"
      by (simp add: usecs_def algebra_simps)
    ultimately show ?thesis using True 3 l by (simp add: delta_timeval_def)
  qed (use True l ok in \<open>auto simp: delta_timeval_def usecs_le usecs_def tv_ok_def\<close>)
next
  case False
  consider "tv_sec s = tv_sec e" | "tv_sec e < tv_sec s" | "tv_sec s < tv_sec e" by linarith
  then show ?thesis
  proof cases
    case 3
    then have "long_ok (tv_sec e - tv_sec s) = Some (tv_sec e - tv_sec s)"
      "long_ok ((tv_sec e - tv_sec s) * ONE_SECOND) = Some ((tv_sec e - tv_sec s) * ONE_SECOND)"
      "long_ok ((tv_sec e - tv_sec s) * ONE_SECOND + (tv_usec e - tv_usec s)) =
        Some ((tv_sec e - tv_sec s) * ONE_SECOND + (tv_usec e - tv_usec s))"
      using False ok s e by (auto intro!: long_ok_small simp: tv_ok_def)
    moreover have "usecs s \<le> usecs e" using 3 ok by (simp add: usecs_le)
    moreover have "(tv_sec e - tv_sec s) * ONE_SECOND + (tv_usec e - tv_usec s) = usecs e - usecs s"
      by (simp add: usecs_def algebra_simps)
    ultimately show ?thesis using False 3 by (simp add: delta_timeval_def)
  qed (use False ok in \<open>auto simp: delta_timeval_def usecs_le usecs_def tv_ok_def\<close>)
qed

theorem delta_timeval_correct_witness:
  "delta_timeval \<lparr>tv_sec = 10, tv_usec = 999999\<rparr> \<lparr>tv_sec = 12, tv_usec = 1\<rparr> = Some 1000002"
  using delta_timeval_correct [of "\<lparr>tv_sec = 10, tv_usec = 999999\<rparr>" "\<lparr>tv_sec = 12, tv_usec = 1\<rparr>"]
  by (simp add: tv_ok_def usecs_def)

section \<open>Structured differences, with aliasing\<close>

lemma sub_correct:
  assumes "tv_ok (m s)" "tv_ok (m e)"
  shows "tv_ok (timersub m e s d d) \<and> usecs (timersub m e s d d) = usecs (m e) - usecs (m s) \<and>
      (\<forall>i. i \<noteq> d \<longrightarrow> timersub m e s d i = m i)"
    and "tv_ok (portable_sub m s e d d) \<and> usecs (portable_sub m s e d d) = usecs (m e) - usecs (m s) \<and>
      (\<forall>i. i \<noteq> d \<longrightarrow> portable_sub m s e d i = m i)"
  using assms by (auto simp: timersub_def portable_sub_def tv_ok_def usecs_def Let_def algebra_simps)

text \<open>
  \<^verbatim>\<open>timeval_delta\<close>, with the library's \<^verbatim>\<open>timersub\<close> or with the portable branch, and also
  when the result is stored over the start or the end time: for an end that is not before the
  start it returns 0 and stores the normalised difference of the two times and nothing else;
  otherwise, and for null pointers, it returns \<^verbatim>\<open>EINVAL\<close> and stores nothing.
\<close>

theorem timeval_delta_correct:
  assumes "tv_ok (m s)" "tv_ok (m e)"
  shows "\<exists>m'. timeval_delta h m (Some s) (Some e) (Some d) = (if usecs (m s) \<le> usecs (m e) then 0 else EINVAL, m') \<and>
    (if usecs (m s) \<le> usecs (m e)
     then tv_ok (m' d) \<and> usecs (m' d) = usecs (m e) - usecs (m s) \<and> (\<forall>i. i \<noteq> d \<longrightarrow> m' i = m i)
     else m' = m) \<and>
    timeval_delta h m None (Some e) (Some d) = (EINVAL, m) \<and>
    timeval_delta h m (Some s) None (Some d) = (EINVAL, m) \<and> timeval_delta h m (Some s) (Some e) None = (EINVAL, m)"
  using sub_correct [OF assms, of d] valid_usecs [OF assms] by (simp add: timeval_delta_def)

theorem timeval_delta_correct_witness:
  "\<exists>m'. timeval_delta True (\<lambda>i. if i = 0 then \<lparr>tv_sec = 5, tv_usec = 900000\<rparr> else \<lparr>tv_sec = 7, tv_usec = 100000\<rparr>)
      (Some 0) (Some 1) (Some 0) = (0, m') \<and> usecs (m' 0) = 1200000"
  using timeval_delta_correct [of "\<lambda>i. if i = 0 then \<lparr>tv_sec = 5, tv_usec = 900000\<rparr> else \<lparr>tv_sec = 7, tv_usec = 100000\<rparr>"
      0 1 True 0] by (auto simp: tv_ok_def usecs_def)

text \<open>The two branches of the source store the same time.\<close>

lemma timersub_portable:
  assumes "tv_ok (m s)" "tv_ok (m e)"
  shows "timersub m e s d = portable_sub m s e d"
proof
  fix i
  show "timersub m e s d i = portable_sub m s e d i"
    using sub_correct [OF assms, of d] usecs_inject [of "timersub m e s d d" "portable_sub m s e d d"]
    by (cases "i = d") (auto intro: timeval.equality)
qed

text \<open>
  \<^verbatim>\<open>timeval_delta2\<close> takes the times in either order: it returns 0 and stores the normalised
  distance of the two, also over one of them.
\<close>

theorem timeval_delta2_correct:
  assumes "tv_ok (m a)" "tv_ok (m b)"
  shows "\<exists>m'. timeval_delta2 h m (Some a) (Some b) (Some d) = (0, m') \<and> tv_ok (m' d) \<and>
    usecs (m' d) = \<bar>usecs (m b) - usecs (m a)\<bar> \<and> (\<forall>i. i \<noteq> d \<longrightarrow> m' i = m i)"
  using sub_correct [OF assms, of d] sub_correct [OF assms(2, 1), of d] valid_usecs [OF assms] valid_usecs [OF assms(2, 1)]
  by (cases "usecs (m a) \<le> usecs (m b)") (auto simp: timeval_delta2_def timeval_delta_def)

theorem timeval_delta2_correct_witness:
  "\<exists>m'. timeval_delta2 False (\<lambda>i. if i = 0 then \<lparr>tv_sec = 7, tv_usec = 100000\<rparr> else \<lparr>tv_sec = 5, tv_usec = 900000\<rparr>)
      (Some 0) (Some 1) (Some 1) = (0, m') \<and> usecs (m' 1) = 1200000"
  using timeval_delta2_correct [of "\<lambda>i. if i = 0 then \<lparr>tv_sec = 7, tv_usec = 100000\<rparr> else \<lparr>tv_sec = 5, tv_usec = 900000\<rparr>"
      0 1 False 1] by (auto simp: tv_ok_def usecs_def)

text \<open>A month out of range, and 0 when months count from 1, where the decrement wraps.\<close>

lemma get_month_range:
  "get_month one_based month long_months = ''???'' \<longleftrightarrow> (if one_based then month = 0 \<or> 12 < month else 11 < month)"
proof -
  have names: "n < 12 \<Longrightarrow> (if long_months then long_month else short_month) ! n \<noteq> ''???''" for n
  proof -
    have "list_all (\<lambda>n. long_month ! n \<noteq> ''???'' \<and> short_month ! n \<noteq> ''???'') [0..<12]" by code_simp
    then show "n < 12 \<Longrightarrow> (if long_months then long_month else short_month) ! n \<noteq> ''???''"
      by (simp add: list_all_iff)
  qed
  have lt: "unat m < 12" if "\<not> 11 < m" for m :: u32 using that by (simp add: word_less_nat_alt)
  have "11 < month - 1 \<longleftrightarrow> month = 0 \<or> 12 < month"
  proof (cases "month = 0")
    case False
    then have "unat (month - 1) = unat month - 1" by (simp add: unat_minus_one)
    moreover have "0 < unat month" using False by (simp add: unat_gt_0)
    ultimately show ?thesis using False by (auto simp: word_less_nat_alt)
  qed simp
  then show ?thesis
    using names [OF lt, of "month - 1"] names [OF lt, of month] by (auto simp: get_month_def Let_def)
qed

end
