(* ===== verification/Arg_Helpers.thy ===== *)
theory Arg_Helpers
  imports Strfmt Strcopy
begin

text \<open>
  The argument helpers of \<^verbatim>\<open>arg-helpers.c\<close>: memory sizes with a unit, durations and numbers
  with commas. The functions on floating point numbers, \<^verbatim>\<open>get_duration\<close> and
  \<^verbatim>\<open>nicer_mem_len\<close>, are left out.
\<close>

section \<open>Memory sizes\<close>

text \<open>
  \<^verbatim>\<open>strtoul\<close> with base 0: white space, a sign, a prefix that chooses the base, and the longest
  run of digits. The result is the value, the greatest one on overflow, and the rest.
\<close>

definition digit_val :: "char \<Rightarrow> nat option" where
  "digit_val c =
     (let v = of_char c :: nat
      in if 48 \<le> v \<and> v \<le> 57 then Some (v - 48)
         else if 97 \<le> v \<and> v \<le> 122 then Some (v - 87)
         else if 65 \<le> v \<and> v \<le> 90 then Some (v - 55)
         else None)"

definition is_digit :: "nat \<Rightarrow> char \<Rightarrow> bool" where
  "is_digit b c = (case digit_val c of None \<Rightarrow> False | Some d \<Rightarrow> d < b)"

definition isspace :: "char \<Rightarrow> bool" where
  "isspace c \<longleftrightarrow> c = CHR '' '' \<or> of_char c \<in> {9 :: nat .. 13}"

definition number_base :: "char list \<Rightarrow> nat \<times> char list" where
  "number_base cs =
     (if 3 \<le> length cs \<and> cs ! 0 = CHR ''0'' \<and> cs ! 1 \<in> {CHR ''x'', CHR ''X''} \<and> is_digit 16 (cs ! 2)
      then (16, drop 2 cs)
      else if cs \<noteq> [] \<and> cs ! 0 = CHR ''0'' then (8, cs) else (10, cs))"

definition strtoul :: "char list \<Rightarrow> u64 \<times> char list" where
  "strtoul str =
     (let cs = dropWhile isspace str;
          neg = (cs \<noteq> [] \<and> cs ! 0 = CHR ''-'');
          cs = (if cs \<noteq> [] \<and> cs ! 0 \<in> {CHR ''-'', CHR ''+''} then drop 1 cs else cs);
          (b, cs) = number_base cs;
          ds = takeWhile (is_digit b) cs;
          v = foldl (\<lambda>v c. v * b + the (digit_val c)) 0 ds
      in if ds = [] then (0, str)
         else (if 2 ^ 64 \<le> v then - 1 else if neg then - of_nat v else of_nat v, drop (length ds) cs))"

text \<open>The size, or the call of \<^verbatim>\<open>exit\<close>.\<close>

definition get_mem_len :: "char list \<Rightarrow> u64 option" where
  "get_mem_len str =
     (let (len, e) = strtoul str;
          c = (if e = [] then NUL else hd e)
      in if c \<in> {CHR ''t'', CHR ''T''} then Some (len * 1024 * 1024 * 1024 * 1024)
         else if c \<in> {CHR ''g'', CHR ''G''} then Some (len * 1024 * 1024 * 1024)
         else if c \<in> {CHR ''m'', CHR ''M''} then Some (len * 1024 * 1024)
         else if c \<in> {CHR ''k'', CHR ''K''} then Some (len * 1024)
         else if c \<in> {CHR ''b'', CHR ''B'', NUL} then Some len
         else None)"

definition nice_mem_len :: "u64 \<Rightarrow> u32 \<times> char" where
  "nice_mem_len sz =
     (if sz \<noteq> 0 \<and> sz AND (push_bit 40 1 - 1) = 0 then (ucast (drop_bit 40 sz), CHR ''T'')
      else if sz \<noteq> 0 \<and> sz AND (push_bit 30 1 - 1) = 0 then (ucast (drop_bit 30 sz), CHR ''G'')
      else if sz \<noteq> 0 \<and> sz AND (push_bit 20 1 - 1) = 0 then (ucast (drop_bit 20 sz), CHR ''M'')
      else if sz \<noteq> 0 \<and> sz AND (push_bit 10 1 - 1) = 0 then (ucast (drop_bit 10 sz), CHR ''K'')
      else (ucast sz, CHR '' ''))"

section \<open>Durations\<close>

text \<open>\<^verbatim>\<open>strfmt(str + n, len - n, ...)\<close>\<close>

definition strfmt_at :: "char list \<Rightarrow> char list \<Rightarrow> int \<Rightarrow> int \<Rightarrow> char list \<Rightarrow> arg list \<Rightarrow> (int \<times> char list) option" where
  "strfmt_at tmp str n len fmt ap = do {
     (r, b) \<leftarrow> strfmt tmp (drop (nat n) str) (len - n) fmt ap;
     Some (n + r, take (nat n) str @ b)
   }"

text \<open>
  One pass of the loop: the quotient is narrowed to the \<^verbatim>\<open>int\<close> \<open>d\<close>, and widened again for
  the subtraction. The state is the duration, the offset and the buffer.
\<close>

definition duration_unit ::
  "char list \<Rightarrow> int \<Rightarrow> u64 \<times> int \<times> char list \<Rightarrow> u64 \<times> char \<Rightarrow> (u64 \<times> int \<times> char list) option" where
  "duration_unit tmp len st u =
     (let (duration, n, str) = st; (check, fmt) = u
      in if duration \<ge> check then
           let d = ucast (duration div check) :: u32;
               duration = duration - scast d * check
           in do {
             (n, str) \<leftarrow> strfmt_at tmp str n len ''%d%c'' [AInt (sint d), AInt (of_char fmt)];
             Some (duration, n, str)
           }
         else Some st)"

definition nice_duration_buf :: "char list \<Rightarrow> u64 \<Rightarrow> char list \<Rightarrow> int \<Rightarrow> char list option" where
  "nice_duration_buf tmp duration str len = do {
     st \<leftarrow> duration_unit tmp len (duration, 0, str) (86400, CHR ''d'');
     st \<leftarrow> duration_unit tmp len st (3600, CHR ''h'');
     (duration, n, str) \<leftarrow> duration_unit tmp len st (60, CHR ''m'');
     if duration \<noteq> 0 \<or> n = 0 then do {
       (n, str) \<leftarrow> strfmt_at tmp str n len ''%lus'' [AULong (unat duration)];
       Some str
     }
     else Some str
   }"

text \<open>
  A null \<open>str\<close> is replaced by a new block of \<open>len\<close> bytes, 32 when \<open>len\<close> is 0; \<open>malloc\<close>
  gives a block of the size asked for, or nothing. The outer option is undefined behaviour,
  the inner one the null pointer.
\<close>

definition nice_duration ::
  "char list \<Rightarrow> (nat \<Rightarrow> char list option) \<Rightarrow> u64 \<Rightarrow> char list option \<Rightarrow> int \<Rightarrow> char list option option" where
  "nice_duration tmp malloc duration str len =
     (case str of
        Some str \<Rightarrow> map_option Some (nice_duration_buf tmp duration str len)
      | None \<Rightarrow>
          let len = (if len = 0 then 32 else len)
          in case malloc (nat (len mod 2 ^ 64)) of
               None \<Rightarrow> Some None
             | Some str \<Rightarrow> map_option Some (nice_duration_buf tmp duration str len))"

section \<open>Numbers with commas\<close>

definition wr_down :: "char list \<Rightarrow> nat \<Rightarrow> char \<Rightarrow> (char list \<times> nat) option" where
  "wr_down buf p c = (case p of 0 \<Rightarrow> None | Suc q \<Rightarrow> map_option (\<lambda>b. (b, q)) (wr buf q c))"

function number_loop :: "nat \<Rightarrow> nat \<Rightarrow> char list \<Rightarrow> nat \<Rightarrow> (char list \<times> nat) option" where
  "number_loop number i str p =
     (if number = 0 then Some (str, p)
      else do {
        (str, p, i) \<leftarrow> (if i AND 3 = 3 then do { (str, p) \<leftarrow> wr_down str p (CHR '',''); Some (str, p, i + 1) }
                        else Some (str, p, i));
        (str, p) \<leftarrow> wr_down str p (decimal (number mod 10));
        number_loop (number div 10) (i + 1) str p
      })"
  by pat_completeness auto
termination
  by (relation "measure (\<lambda>(number, i, str, p). number)") auto

declare number_loop.simps [simp del]

text \<open>The static buffer and the position of the result in it.\<close>

definition nice_number :: "char list \<Rightarrow> int \<Rightarrow> (char list \<times> nat) option" where
  "nice_number str number =
     (if number = 0 then do { str \<leftarrow> strcpy str 0 ''0''; Some (str, 0) }
      else if number = - (2 ^ 63) then None
      else do {
        str \<leftarrow> wr str 31 NUL;
        (str, p) \<leftarrow> number_loop (nat \<bar>number\<bar>) 0 str 31;
        if number < 0 then wr_down str p (CHR ''-'') else Some (str, p)
      })"

section \<open>Durations are printed in full\<close>

text \<open>
  The state of the output: the text so far fits, or the buffer is full and the offset has
  passed its end.
\<close>

definition printed :: "int \<Rightarrow> char list \<Rightarrow> char list \<Rightarrow> int \<Rightarrow> char list \<Rightarrow> bool" where
  "printed len buf t n b \<longleftrightarrow>
     n = int (length t) \<and> n < len \<and> (b = cstring t buf \<or> t = [] \<and> b = buf) \<or>
     len \<le> n \<and> nat len \<le> length t \<and> b = cstring (take (nat len - 1) t) buf"

lemma printed_start: "1 \<le> len \<Longrightarrow> printed len buf [] 0 buf"
  by (simp add: printed_def)

lemma printed_zero: "1 \<le> len \<Longrightarrow> printed len buf t n b \<Longrightarrow> n = 0 \<longleftrightarrow> t = []"
  by (auto simp: printed_def)

lemma printed_text: "printed len buf t n b \<Longrightarrow> t \<noteq> [] \<Longrightarrow> b = cstring (take (nat len - 1) t) buf"
  by (auto simp: printed_def)

lemma printed_behind: "n < len \<Longrightarrow> len \<le> int (length buf) \<Longrightarrow> printed len buf t n b \<Longrightarrow> behind b t buf"
  by (auto simp: printed_def behind_start behind_cstring)

lemma strfmt_at_eq:
  assumes "printed len buf t n b" "1 \<le> len" "len \<le> int (length buf)" "length tmp = 22"
    and w: "fmt_text fmt ap = Some w" "length w < 2 ^ 31"
  shows "\<exists>n' b'. strfmt_at tmp b n len fmt ap = Some (n', b') \<and> printed len buf (t @ w) n' b' \<and>
    b' = cstring (take (nat len - 1) (t @ w)) buf"
proof (cases "n < len")
  case True
  then have n: "n = int (length t)" and "behind b t buf"
    using assms(1) printed_behind [OF True assms(3, 1)] by (auto simp: printed_def)
  then have len: "length b = length buf" and
    put: "\<And>w. length t + length w < length buf \<Longrightarrow> blit b (length t) (w @ [NUL]) = cstring (t @ w) buf"
    by (auto simp: behind_def)
  let ?w = "take (nat (len - n) - 1) w"
  have "strfmt tmp (drop (nat n) b) (len - n) fmt ap = Some (int (length w), cstring ?w (drop (nat n) b))"
    using True assms(3, 4) w n len by (intro strfmt_eq) auto
  moreover have "take (nat n) b @ cstring ?w (drop (nat n) b) = blit b (length t) (?w @ [NUL])"
    by (simp add: n cstring_def blit_def add.commute)
  moreover have "blit b (length t) (?w @ [NUL]) = cstring (t @ ?w) buf"
    using True assms(3) n by (intro put) auto
  moreover have "t @ ?w = take (nat len - 1) (t @ w)"
    using True n by (simp add: nat_diff_distrib diff_right_commute)
  ultimately show ?thesis
    using n True by (auto simp: strfmt_at_def printed_def)
next
  case False
  then show ?thesis using assms(1, 2) by (auto simp: strfmt_at_def printed_def strfmt_none)
qed

lemma quotient_word:
  fixes duration check :: u64
  assumes "0 < unat check" "unat duration div unat check < 2 ^ 31"
  defines "d \<equiv> ucast (duration div check) :: u32"
  shows "sint d = int (unat duration div unat check)" and "unat (duration - scast d * check) = unat duration mod unat check"
proof -
  let ?D = "unat duration" and ?c = "unat check"
  have "unat d = ?D div ?c"
    unfolding d_def unsigned_ucast_eq using assms(2) by (simp add: unat_div_distrib take_bit_nat_eq_self)
  then have "uint d = int (?D div ?c)" by (metis uint_nat)
  then show sd: "sint d = int (?D div ?c)"
    using assms(2) by (simp only: sint_uint) (simp add: signed_take_bit_int_eq_self)
  have "duration = of_nat ?D" "check = of_nat ?c" by simp_all
  moreover have "(scast d :: u64) = of_nat (?D div ?c)" by (simp only: scast_eq sd of_int_of_nat_eq)
  ultimately have "duration - scast d * check = of_nat ?D - of_nat (?D div ?c) * of_nat ?c" by (simp only:)
  also have "\<dots> = of_nat (?D mod ?c)"
    by (metis add_diff_cancel_left' div_mult_mod_eq of_nat_add of_nat_mult)
  finally show "unat (duration - scast d * check) = ?D mod ?c"
    using le_less_trans [OF mod_less_eq_dividend [of ?D ?c] unsigned_less [of duration]] by (simp add: unat_of_nat)
qed

text \<open>What is printed: the units that are not zero, and the seconds when there is nothing else.\<close>

definition unit_text :: "nat \<Rightarrow> char \<Rightarrow> char list" where
  "unit_text q c = (if q = 0 then [] else numeral_text 10 decimal q @ [c])"

definition duration_text :: "nat \<Rightarrow> char list" where
  "duration_text s =
     (let t = unit_text (s div 86400) (CHR ''d'') @ unit_text (s mod 86400 div 3600) (CHR ''h'') @
              unit_text (s mod 3600 div 60) (CHR ''m'')
      in t @ (if s mod 60 \<noteq> 0 \<or> t = [] then numeral_text 10 decimal (s mod 60) @ ''s'' else []))"

lemma fmt_text_dc:
  "- (2 ^ 31) \<le> v \<Longrightarrow> v < 2 ^ 31 \<Longrightarrow> fmt_text ''%d%c'' [AInt v, AInt (of_char c)] = Some (signed_text v @ [c])"
proof -
  have i: "(of_char c :: int) = int (of_char c)" by (simp add: of_nat_of_char)
  have "(of_char c :: nat) < 2147483648" using nat_of_char_less_256 [of c] by linarith
  then show "- (2 ^ 31) \<le> v \<Longrightarrow> v < 2 ^ 31 \<Longrightarrow> ?thesis"
    by (simp add: i fmt_text.simps directive_def field_def Let_def digits_value_def num_text_def)
qed

lemma fmt_text_lus:
  "v < 2 ^ 64 \<Longrightarrow> fmt_text ''%lus'' [AULong v] = Some (numeral_text 10 decimal v @ ''s'')"
  by (simp add: fmt_text.simps directive_def field_def Let_def digits_value_def num_text_def)

lemma duration_unit_eq:
  assumes st: "printed len buf t n b" "1 \<le> len" "len \<le> int (length buf)" "length tmp = 22"
    and q: "0 < unat check" "unat duration div unat check < 2 ^ 31"
  shows "\<exists>duration' n' b'. duration_unit tmp len (duration, n, b) (check, c) = Some (duration', n', b') \<and>
    unat duration' = unat duration mod unat check \<and> printed len buf (t @ unit_text (unat duration div unat check) c) n' b'"
proof (cases "check \<le> duration")
  case True
  let ?q = "unat duration div unat check" and ?d = "ucast (duration div check) :: u32"
  have "1 \<le> ?q" using True q(1) by (simp add: word_le_nat_alt Suc_le_eq div_greater_zero_iff)
  then have u: "unit_text ?q c = signed_text (int ?q) @ [c]" by (simp add: unit_text_def signed_text_def)
  have "length (signed_text (int ?q)) \<le> 20" using q(2) by (intro signed_text_length) simp
  moreover have "fmt_text ''%d%c'' [AInt (sint ?d), AInt (of_char c)] = Some (unit_text ?q c)"
    unfolding u quotient_word(1) [OF q] by (rule fmt_text_dc) (use q(2) in simp_all)
  ultimately obtain n' b' where "strfmt_at tmp b n len ''%d%c'' [AInt (sint ?d), AInt (of_char c)] = Some (n', b')"
    "printed len buf (t @ unit_text ?q c) n' b'"
    using strfmt_at_eq [OF st] u by fastforce
  then show ?thesis using True quotient_word(2) [OF q] by (simp add: duration_unit_def Let_def)
next
  case False
  then have "unat duration < unat check" by (simp add: word_le_nat_alt)
  then show ?thesis using False st(1) by (simp add: duration_unit_def unit_text_def)
qed

lemma nice_duration_buf_eq:
  assumes "unat duration < 86400 * 2 ^ 31" and st: "1 \<le> len" "len \<le> int (length str)" "length tmp = 22"
  shows "nice_duration_buf tmp duration str len = Some (cstring (take (nat len - 1) (duration_text (unat duration))) str)"
proof -
  let ?s = "unat duration"
  have q: "?s mod 86400 div 3600 < 2 ^ 31" "?s mod 3600 div 60 < 2 ^ 31"
    by (rule le_less_trans [OF div_le_dividend], rule less_trans [OF mod_less_divisor], simp_all)+
  obtain d1 n1 b1 where 1: "duration_unit tmp len (duration, 0, str) (86400, CHR ''d'') = Some (d1, n1, b1)"
    "unat d1 = ?s mod 86400" "printed len str (unit_text (?s div 86400) (CHR ''d'')) n1 b1"
    using duration_unit_eq [OF printed_start [OF st(1)] st, of 86400 duration "CHR ''d''"] assms(1)
    by (auto simp: less_mult_imp_div_less)
  obtain d2 n2 b2 where 2: "duration_unit tmp len (d1, n1, b1) (3600, CHR ''h'') = Some (d2, n2, b2)"
    "unat d2 = ?s mod 3600"
    "printed len str (unit_text (?s div 86400) (CHR ''d'') @ unit_text (?s mod 86400 div 3600) (CHR ''h'')) n2 b2"
    using duration_unit_eq [OF 1(3) st, of 3600 d1 "CHR ''h''"] 1(2) q(1) by (auto simp: mod_mod_cancel)
  define t where "t = unit_text (?s div 86400) (CHR ''d'') @ unit_text (?s mod 86400 div 3600) (CHR ''h'') @
    unit_text (?s mod 3600 div 60) (CHR ''m'')"
  obtain d3 n3 b3 where 3: "duration_unit tmp len (d2, n2, b2) (60, CHR ''m'') = Some (d3, n3, b3)"
    "unat d3 = ?s mod 60" "printed len str t n3 b3"
    using duration_unit_eq [OF 2(3) st, of 60 d2 "CHR ''m''"] 2(2) q(2) by (auto simp: t_def mod_mod_cancel)
  have d3: "d3 \<noteq> 0 \<or> n3 = 0 \<longleftrightarrow> ?s mod 60 \<noteq> 0 \<or> t = []"
    using 3(2) printed_zero [OF st(1) 3(3)] by (metis unat_eq_zero)
  have dt: "duration_text ?s = t @ (if ?s mod 60 \<noteq> 0 \<or> t = [] then numeral_text 10 decimal (?s mod 60) @ ''s'' else [])"
    by (simp only: duration_text_def t_def Let_def)
  have run: "nice_duration_buf tmp duration str len =
      (if d3 \<noteq> 0 \<or> n3 = 0
       then map_option snd (strfmt_at tmp b3 n3 len ''%lus'' [AULong (?s mod 60)]) else Some b3)"
    using 1(1) 2(1) 3(1, 2) by (auto simp: nice_duration_buf_def split: bind_splits)
  show ?thesis
  proof (cases "?s mod 60 \<noteq> 0 \<or> t = []")
    case True
    have "length (numeral_text 10 decimal (?s mod 60)) \<le> 2"
      by (rule numeral_text_length) (simp_all add: less_trans [OF mod_less_divisor])
    moreover have "fmt_text ''%lus'' [AULong (?s mod 60)] = Some (numeral_text 10 decimal (?s mod 60) @ ''s'')"
      by (rule fmt_text_lus) (simp add: less_trans [OF mod_less_divisor])
    ultimately show ?thesis
      using strfmt_at_eq [OF 3(3) st] run d3 dt True by fastforce
  next
    case False
    then show ?thesis using run d3 dt printed_text [OF 3(3)] by simp
  qed
qed

text \<open>
  C32. \<^verbatim>\<open>nice_duration\<close> prints every duration of less than \<open>2 ^ 31\<close> days: into a buffer of the
  length given, the longest prefix that fits, terminated, of the days, hours, minutes and
  seconds that are not zero; and into a block of 32 bytes that it allocates itself for a null
  buffer and length 0, the same text, or it returns null when there is no memory.
\<close>

theorem nice_duration_correct:
  assumes "unat duration < 86400 * 2 ^ 31" "1 \<le> len" "len \<le> int (length str)" "length tmp = 22"
    and malloc: "\<forall>k b. malloc k = Some b \<longrightarrow> length b = k"
  shows "nice_duration tmp malloc duration (Some str) len =
      Some (Some (cstring (take (nat len - 1) (duration_text (unat duration))) str)) \<and>
    nice_duration tmp malloc duration None 0 =
      Some (map_option (cstring (take 31 (duration_text (unat duration)))) (malloc 32))"
proof -
  have "nice_duration_buf tmp duration b 32 = Some (cstring (take 31 (duration_text (unat duration))) b)"
    if "malloc 32 = Some b" for b
    using nice_duration_buf_eq [OF assms(1) _ _ assms(4), of 32 b] malloc that by fastforce
  then show ?thesis
    using nice_duration_buf_eq [OF assms(1-4)] by (cases "malloc 32") (auto simp: nice_duration_def)
qed

theorem nice_duration_correct_witness:
  "nice_duration (replicate 22 NUL) (\<lambda>k. Some (replicate k NUL)) 3661 (Some (replicate 6 CHR ''z'')) 6 =
     Some (Some (''1h1m1'' @ [NUL]))"
proof -
  have "decimal (Suc 0) = CHR ''1''" by code_simp
  then show ?thesis
    using nice_duration_correct [of 3661 6 "replicate 6 CHR ''z''" "replicate 22 NUL" "\<lambda>k. Some (replicate k NUL)"]
    by (simp add: cstring_def duration_text_def unit_text_def numeral_text_def digits.simps)
qed

section \<open>Memory sizes are read back\<close>

definition unit_bits :: "char \<Rightarrow> nat" where
  "unit_bits ch = (if ch = CHR ''T'' then 40 else if ch = CHR ''G'' then 30 else if ch = CHR ''M'' then 20
     else if ch = CHR ''K'' then 10 else 0)"

lemma unit_test: "(sz :: u64) AND (push_bit k 1 - 1) = 0 \<longleftrightarrow> 2 ^ k dvd unat sz"
proof -
  have "sz AND (push_bit k 1 - 1) = take_bit k sz" by (simp add: take_bit_eq_mask mask_eq_decr_exp push_bit_eq_mult)
  moreover have "unat (take_bit k sz) = unat sz mod 2 ^ k" by (subst unsigned_take_bit_eq) (simp add: take_bit_eq_mod)
  ultimately show ?thesis by (metis dvd_eq_mod_eq_0 unat_eq_zero)
qed

lemma unit_count: "unat (ucast (drop_bit k (sz :: u64)) :: u32) = unat sz div 2 ^ k mod 2 ^ 32"
  using unsigned_less [of sz, where ?'a = nat]
  by (subst unsigned_ucast_eq, subst unsigned_drop_bit_eq) (simp add: drop_bit_eq_div take_bit_eq_mod)

lemma unit_choice:
  fixes p :: "nat \<Rightarrow> bool" and f :: "nat \<Rightarrow> 'a"
  assumes "r = (if p 40 then (f 40, CHR ''T'') else if p 30 then (f 30, CHR ''G'')
      else if p 20 then (f 20, CHR ''M'') else if p 10 then (f 10, CHR ''K'') else (f 0, CHR '' ''))"
  shows "snd r \<in> set ''TGMK '' \<and> fst r = f (unit_bits (snd r)) \<and> (unit_bits (snd r) \<noteq> 0 \<longrightarrow> p (unit_bits (snd r)))"
  unfolding assms
  by (cases "p 40"; cases "p 30"; cases "p 20"; cases "p 10") (simp_all add: unit_bits_def)

lemma nice_mem_len_eq:
  assumes "nice_mem_len sz = (n, ch)"
  shows "ch \<in> set ''TGMK ''" "unat n = unat sz div 2 ^ unit_bits ch mod 2 ^ 32" "2 ^ unit_bits ch dvd unat sz"
proof -
  have "(n, ch) = (if sz \<noteq> 0 \<and> 2 ^ 40 dvd unat sz then (ucast (drop_bit 40 sz), CHR ''T'')
      else if sz \<noteq> 0 \<and> 2 ^ 30 dvd unat sz then (ucast (drop_bit 30 sz), CHR ''G'')
      else if sz \<noteq> 0 \<and> 2 ^ 20 dvd unat sz then (ucast (drop_bit 20 sz), CHR ''M'')
      else if sz \<noteq> 0 \<and> 2 ^ 10 dvd unat sz then (ucast (drop_bit 10 sz), CHR ''K'')
      else (ucast (drop_bit 0 sz), CHR '' ''))"
    using assms unfolding nice_mem_len_def unit_test by (simp only: drop_bit_0 id_apply)
  note c = unit_choice [of _ "\<lambda>k. sz \<noteq> 0 \<and> 2 ^ k dvd unat sz" "\<lambda>k. ucast (drop_bit k sz)", OF this, unfolded fst_conv snd_conv]
  then show "ch \<in> set ''TGMK ''" by blast
  from c show "unat n = unat sz div 2 ^ unit_bits ch mod 2 ^ 32" using unit_count [of "unit_bits ch" sz] by blast
  from c show "2 ^ unit_bits ch dvd unat sz" by (cases "unit_bits ch = 0") simp_all
qed

lemma decimal_chars:
  assumes "d < 10"
  shows "digit_val (decimal d) = Some d" "is_digit 10 (decimal d)" "digit_value (decimal d) = d" "\<not> isspace (decimal d)"
    "decimal d \<notin> {CHR ''-'', CHR ''+''}" "decimal d = CHR ''0'' \<longleftrightarrow> d = 0"
proof -
  have c: "(of_char (decimal d) :: nat) = d + 48" using assms by (simp add: decimal_def)
  show "digit_val (decimal d) = Some d" "is_digit 10 (decimal d)" "digit_value (decimal d) = d" "\<not> isspace (decimal d)"
    using assms c by (auto simp: digit_val_def is_digit_def digit_value_def isspace_def)
  have "decimal d \<noteq> x" if "(of_char x :: nat) \<noteq> d + 48" for x using that c by auto
  then show "decimal d \<notin> {CHR ''-'', CHR ''+''}" by simp
  have "decimal 0 = CHR ''0''" by code_simp
  then show "decimal d = CHR ''0'' \<longleftrightarrow> d = 0" using c by auto
qed

lemma digits_last: "2 \<le> b \<Longrightarrow> 0 < n \<Longrightarrow> last (digits b n) \<noteq> 0"
proof (induction b n rule: digits.induct)
  case (1 b n)
  show ?case
  proof (cases "n div b = 0")
    case True
    then have "n < b" using 1 by (simp add: div_eq_0_iff)
    then show ?thesis using 1 True by (simp add: digits.simps [of b n])
  next
    case False
    then show ?thesis using 1 digits_nonempty [of b "n div b"] by (simp add: digits.simps [of b n])
  qed
qed

lemma strtoul_numeral:
  assumes "n < 2 ^ 64" and u: "u = [] \<or> \<not> is_digit 10 (hd u) \<and> hd u \<notin> {CHR ''x'', CHR ''X''}"
  shows "strtoul (numeral_text 10 decimal n @ u) = (of_nat n, u)"
proof (cases "n = 0")
  case True
  have z: "\<not> isspace (CHR ''0'')" "is_digit 8 (CHR ''0'')" "digit_val (CHR ''0'') = Some 0" by code_simp+
  have "\<not> is_digit 8 c" if "\<not> is_digit 10 c" for c
    using that by (auto simp: is_digit_def split: option.splits)
  then have "takeWhile (is_digit 8) u = []" using u by (cases u) auto
  then show ?thesis using u z by (cases u) (auto simp: True numeral_text_def strtoul_def number_base_def Let_def)
next
  case False
  define ds where "ds = rev (digits 10 n)"
  have ds: "ds \<noteq> []" "hd ds \<noteq> 0" "\<And>d. d \<in> set ds \<Longrightarrow> d < 10"
    using digits_nonempty [of 10 n] digits_last [of 10 n] digits_less [of _ 10 n] False by (auto simp: ds_def hd_rev)
  then obtain d ds' where d: "ds = d # ds'" "d \<noteq> 0" "d < 10" by (cases ds) auto
  have tx: "numeral_text 10 decimal n = map decimal ds" using False by (simp add: numeral_text_def ds_def rev_map)
  have "foldl (\<lambda>v c. v * 10 + the (digit_val c)) 0 (map decimal ds) = text_value 10 (map decimal ds)"
    unfolding text_value_def by (rule foldl_cong) (auto simp: decimal_chars ds(3))
  also have "\<dots> = n" unfolding tx [symmetric] by (rule numeral_text_value) (simp_all add: decimal_chars)
  finally have v: "foldl (\<lambda>v c. v * 10 + the (digit_val c)) 0 (map decimal ds) = n" .
  have tw: "takeWhile (is_digit 10) (map decimal ds @ u) = map decimal ds"
    using u ds(3) by (subst takeWhile_append2) (auto simp: decimal_chars, cases u, auto)
  have base: "number_base (map decimal ds @ u) = (10, map decimal ds @ u)"
    using decimal_chars(6) [OF d(3)] d(1, 2) by (simp add: number_base_def)
  have sp: "dropWhile isspace (map decimal ds @ u) = map decimal ds @ u"
    using decimal_chars(4) [OF d(3)] d(1) by simp
  have sign: "(map decimal ds @ u) ! 0 \<notin> {CHR ''-'', CHR ''+''}" using decimal_chars(5) [OF d(3)] d(1) by simp
  then have neg: "(map decimal ds @ u) ! 0 \<noteq> CHR ''-''" by simp
  show ?thesis
    unfolding tx strtoul_def sp Let_def using sign neg ds(1) assms(1)
    by (simp only: if_False base prod.case tw v simp_thms) simp
qed

lemma get_mem_len_eq:
  assumes "strtoul str = (len, if ch = CHR '' '' then [] else [ch])" and "ch \<in> set ''TGMK ''"
  shows "get_mem_len str = Some (len * 2 ^ unit_bits ch)"
proof -
  have "ch = CHR ''T'' \<or> ch = CHR ''G'' \<or> ch = CHR ''M'' \<or> ch = CHR ''K'' \<or> ch = CHR '' ''"
    using assms(2) by simp
  then show ?thesis unfolding get_mem_len_def assms(1) by (elim disjE) (simp_all add: unit_bits_def mult.assoc)
qed

text \<open>
  What \<^verbatim>\<open>nice_mem_len\<close> splits into a count and a unit, \<^verbatim>\<open>get_mem_len\<close> reads back: the
  unit divides the size, and when the count fits the 32 bits of the result, the decimal
  numeral of the count with the unit letter behind it (none for bytes) is read as the size.
  The size 4294967297 is one whose count does not fit: it is split as 1 byte.
\<close>

theorem mem_len_roundtrip:
  assumes "nice_mem_len sz = (n, ch)" and "unat sz div 2 ^ unit_bits ch < 2 ^ 32"
  shows "get_mem_len (numeral_text 10 decimal (unat n) @ (if ch = CHR '' '' then [] else [ch])) = Some sz \<and>
    unat n * 2 ^ unit_bits ch = unat sz \<and> nice_mem_len 4294967297 = (1, CHR '' '')"
proof -
  note eq = nice_mem_len_eq [OF assms(1)]
  have n: "unat n * 2 ^ unit_bits ch = unat sz" using eq(2, 3) assms(2) by simp
  have letters: "list_all (\<lambda>c. \<not> is_digit 10 c \<and> c \<notin> {CHR ''x'', CHR ''X''}) ''TGMK''" by code_simp
  have "unat n < 2 ^ 32" using unsigned_less [of n, where ?'a = nat] by simp
  then have "unat n < 2 ^ 64" by simp
  moreover have "ch = CHR '' '' \<or> \<not> is_digit 10 ch \<and> ch \<notin> {CHR ''x'', CHR ''X''}"
    using letters eq(1) by (auto simp: list_all_iff)
  ultimately have "strtoul (numeral_text 10 decimal (unat n) @ (if ch = CHR '' '' then [] else [ch])) =
      (of_nat (unat n), if ch = CHR '' '' then [] else [ch])"
    by (intro strtoul_numeral) (simp, auto)
  moreover have "(of_nat (unat n) :: u64) * 2 ^ unit_bits ch = sz"
    using arg_cong [OF n, of "of_nat :: nat \<Rightarrow> u64"] by simp
  ultimately have "get_mem_len (numeral_text 10 decimal (unat n) @ (if ch = CHR '' '' then [] else [ch])) = Some sz"
    using get_mem_len_eq [OF _ eq(1)] by simp
  moreover have "nice_mem_len 4294967297 = (1, CHR '' '')" by code_simp
  ultimately show ?thesis using n by blast
qed

theorem mem_len_roundtrip_witness: "get_mem_len (numeral_text 10 decimal 3 @ ''M'') = Some 3145728"
proof -
  have "nice_mem_len 3145728 = (3, CHR ''M'')" by code_simp
  from mem_len_roundtrip [OF this] show ?thesis by (simp add: unit_bits_def)
qed

section \<open>Numbers with commas\<close>

text \<open>The characters from the least significant on, \<open>k\<close> digits into a group of three.\<close>

fun commas :: "nat \<Rightarrow> char list \<Rightarrow> char list" where
  "commas k [] = []"
| "commas k (c # cs) = (if k = 3 then CHR '','' # c # commas 1 cs else c # commas (k + 1) cs)"

definition comma_text :: "int \<Rightarrow> char list" where
  "comma_text number =
     (if number = 0 then ''0''
      else (if number < 0 then ''-'' else []) @ rev (commas 0 (map decimal (digits 10 (nat \<bar>number\<bar>)))))"

lemma commas_length: "k \<le> 3 \<Longrightarrow> length (commas k ds) \<le> length ds + (length ds + k) div 3"
proof (induction k ds rule: commas.induct)
  case (2 k c cs)
  then show ?case by (cases "k = 3") auto
qed simp

lemma commas_filter: "CHR '','' \<notin> set ds \<Longrightarrow> filter (\<lambda>c. c \<noteq> CHR '','') (commas k ds) = ds"
  by (induction k ds rule: commas.induct) auto

lemma commas_nth:
  "k \<le> 3 \<Longrightarrow> CHR '','' \<notin> set ds \<Longrightarrow> j < length (commas k ds) \<Longrightarrow> commas k ds ! j = CHR '','' \<longleftrightarrow> (j + k) mod 4 = 3"
proof (induction k ds arbitrary: j rule: commas.induct)
  case (2 k c cs)
  show ?case
  proof (cases "k = 3")
    case True
    then consider "j = 0" | "j = 1" | j' where "j = Suc (Suc j')" by (cases j; cases "j - 1") auto
    then show ?thesis
    proof cases
      case 3
      have "(Suc (Suc j') + 3) mod 4 = (j' + 1) mod 4" by presburger
      then show ?thesis using 2 True 3 by simp
    qed (use 2 True in auto)
  next
    case False
    then show ?thesis using 2 by (cases j) auto
  qed
qed simp

text \<open>The buffer, filled down to \<open>p\<close> with \<open>t\<close>.\<close>

lemma wr_down_eq: "wr_down (pre @ c # rest) (Suc (length pre)) v = Some (pre @ v # rest, length pre)"
  by (simp add: wr_down_def wr_append)

lemma number_loop_eq:
  assumes "length (commas (i mod 4) (map decimal (digits 10 number))) \<le> length pre"
  shows "\<exists>pre'. number_loop number i (pre @ rest) (length pre) =
      Some (pre' @ rev (commas (i mod 4) (map decimal (digits 10 number))) @ rest, length pre') \<and>
    length pre' + length (commas (i mod 4) (map decimal (digits 10 number))) = length pre"
  using assms
proof (induction number arbitrary: i pre rest rule: less_induct)
  case (less number)
  show ?case
  proof (cases "number = 0")
    case True
    then show ?thesis by (simp add: number_loop.simps)
  next
    case False
    let ?d = "decimal (number mod 10)" and ?ds = "map decimal (digits 10 (number div 10))"
    have ds: "digits 10 number = number mod 10 # digits 10 (number div 10)" using False by (simp add: digits.simps)
    have i3: "i AND 3 = i mod 4" using take_bit_eq_mask [of 2 i] by (simp add: take_bit_eq_mod mask_eq_exp_minus_1)
    have lt: "number div 10 < number" using False by simp
    show ?thesis
    proof (cases "i mod 4 = 3")
      case True
      then have m: "(i + 2) mod 4 = 1" "(i + 1 + 1) mod 4 = 1" by presburger+
      obtain pre1 a b where pre: "pre = pre1 @ [a, b]" and len: "length (commas 1 ?ds) \<le> length pre1"
        using less.prems True by (cases pre rule: rev_cases; cases "butlast pre" rule: rev_cases) (auto simp: ds)
      have "number_loop number i (pre @ rest) (length pre) =
          number_loop (number div 10) (i + 2) (pre1 @ (?d # CHR '','' # rest)) (length pre1)"
        using False True i3 wr_down_eq [of "pre1 @ [a]" b rest "CHR '',''"] wr_down_eq [of pre1 a "CHR '','' # rest" ?d]
        by (subst number_loop.simps) (simp add: pre)
      with less.IH [OF lt, of "i + 2" pre1 "?d # CHR '','' # rest"] show ?thesis
        using len m True by (auto simp: ds pre)
    next
      case False
      then have m: "(i + 1) mod 4 = i mod 4 + 1" by presburger
      obtain pre1 a where pre: "pre = pre1 @ [a]" and len: "length (commas (i mod 4 + 1) ?ds) \<le> length pre1"
        using less.prems False by (cases pre rule: rev_cases) (auto simp: ds)
      have "number_loop number i (pre @ rest) (length pre) =
          number_loop (number div 10) (i + 1) (pre1 @ (?d # rest)) (length pre1)"
        using \<open>number \<noteq> 0\<close> False i3 wr_down_eq [of pre1 a rest ?d] by (subst number_loop.simps) (simp add: pre)
      with less.IH [OF lt, of "i + 1" pre1 "?d # rest"] show ?thesis
        using len m False by (auto simp: ds pre)
    qed
  qed
qed

lemma not_comma: "d < 10 \<Longrightarrow> decimal d \<noteq> CHR '',''"
proof -
  assume "d < 10"
  then have "(of_char (decimal d) :: nat) = d + 48" by (simp add: decimal_def)
  then show ?thesis by auto
qed

lemma commas_not_NUL: "set (commas k ds) \<subseteq> insert (CHR '','') (set ds)"
  by (induction k ds rule: commas.induct) auto

text \<open>
  \<^verbatim>\<open>nice_number\<close> prints every \<^verbatim>\<open>long\<close> but the least one into its 32 byte buffer: the result is
  a terminated string inside the buffer of at most 26 characters, which without its commas is
  the decimal numeral and sign of the value, and whose digits have a comma exactly at every
  fourth place from the right. For the least value the negation overflows.
\<close>

theorem nice_number_correct:
  assumes "- (2 ^ 63) < number" "number < 2 ^ 63" "length str = 32"
  shows "\<exists>str' p. nice_number str number = Some (str', p) \<and> cstr_at str' p = comma_text number \<and>
    length (comma_text number) \<le> 26 \<and> filter (\<lambda>c. c \<noteq> CHR '','') (comma_text number) = signed_text number \<and>
    (\<forall>j < length (comma_text \<bar>number\<bar>). rev (comma_text number) ! j = CHR '','' \<longleftrightarrow> j mod 4 = 3) \<and>
    nice_number str (- (2 ^ 63)) = None"
proof (cases "number = 0")
  case True
  have "NUL \<notin> set ''0''" by simp
  then show ?thesis using assms(3)
    by (auto simp: True nice_number_def strcpy_def wrn_blit cstr_at_def blit_def comma_text_def signed_text_def numeral_text_def)
next
  case False
  define ds where "ds = map decimal (digits 10 (nat \<bar>number\<bar>))"
  define t where "t = rev (commas 0 ds)"
  have d10: "\<And>d. d \<in> set (digits 10 (nat \<bar>number\<bar>)) \<Longrightarrow> d < 10" by (rule digits_less)
  have nc: "CHR '','' \<notin> set ds" and nn: "NUL \<notin> set ds" using d10 not_comma digit_not_NUL(1) by (force simp: ds_def)+
  have "nat \<bar>number\<bar> < 10 ^ 19" using assms(1, 2) by simp
  then have "length ds \<le> 19" using digits_length [of 10 "nat \<bar>number\<bar>" 19] by (simp add: ds_def)
  then have len: "length t \<le> 25" using commas_length [of 0 ds] unfolding t_def by simp
  have tx: "comma_text number = (if number < 0 then ''-'' else []) @ t" using False by (simp add: comma_text_def t_def ds_def)
  have "str = take 31 str @ str ! 31 # drop (Suc 31) str" using assms(3) by (intro id_take_nth_drop) simp
  moreover have "length (take 31 str) = 31" using assms(3) by simp
  ultimately obtain pre c rest where str: "str = pre @ c # rest" "length pre = 31" by blast
  obtain pre' where loop: "number_loop (nat \<bar>number\<bar>) 0 (pre @ NUL # rest) 31 = Some (pre' @ t @ NUL # rest, length pre')"
    and pre': "length pre' + length t = 31"
    using number_loop_eq [of 0 "nat \<bar>number\<bar>" pre "NUL # rest"] len str(2) by (auto simp: t_def ds_def)
  have wr: "wr str 31 NUL = Some (pre @ NUL # rest)" using wr_append [of pre c rest NUL] str by simp
  have tn: "NUL \<notin> set t" using commas_not_NUL [of 0 ds] nn by (auto simp: t_def)
  have ct: "cstr_at (q @ x @ NUL # rest) (length q) = x" if "NUL \<notin> set x" for q x
    using that unfolding cstr_at_def by (simp, subst takeWhile_append2) auto
  have "pre' \<noteq> []" using pre' len by auto
  then obtain pre2 e where pre2: "pre' = pre2 @ [e]" by (cases pre' rule: rev_cases) auto
  have run: "\<exists>str' p. nice_number str number = Some (str', p) \<and> cstr_at str' p = comma_text number"
    using False assms(1) wr loop wr_down_eq [of pre2 e "t @ NUL # rest" "CHR ''-''"] ct [of t pre'] ct [of "CHR ''-'' # t" pre2] tn
    by (auto simp: nice_number_def pre2 tx)
  have "filter (\<lambda>c. c \<noteq> CHR '','') t = rev ds" using commas_filter [OF nc, of 0] by (simp add: t_def flip: rev_filter)
  then have "filter (\<lambda>c. c \<noteq> CHR '','') (comma_text number) = signed_text number"
    using False by (auto simp: tx signed_text_def numeral_text_def ds_def rev_map)
  moreover have "comma_text \<bar>number\<bar> = t" using False by (simp add: comma_text_def t_def ds_def)
  then have "\<forall>j < length (comma_text \<bar>number\<bar>). rev (comma_text number) ! j = CHR '','' \<longleftrightarrow> j mod 4 = 3"
    using commas_nth [OF _ nc, of 0] by (auto simp: tx t_def nth_append)
  ultimately show ?thesis using run len by (auto simp: tx nice_number_def)
qed

theorem nice_number_correct_witness:
  "\<exists>str' p. nice_number (replicate 32 NUL) (- 1234) = Some (str', p) \<and> cstr_at str' p = comma_text (- 1234)"
  using nice_number_correct [of "- 1234" "replicate 32 NUL"] by auto

end
