(* ===== verification/Rng.thy ===== *)
theory Rng
  imports Prelude
begin

text \<open>
  The random number generators: xorshift128+ of \<^verbatim>\<open>xorshift.c\<close> with its global seed, and
  xoroshiro128+ of \<^verbatim>\<open>random.c\<close>. The theory shows that one step of either permutes the states
  and keeps the zero state apart, and how the global generator is seeded.
\<close>

type_synonym rng_seed = "u64 \<times> u64"

section \<open>\<^verbatim>\<open>xorshift.c\<close>\<close>

text \<open>The output and the new seed.\<close>

definition xorshift128plus_r :: "rng_seed \<Rightarrow> u64 \<times> rng_seed" where
  "xorshift128plus_r sd =
     (let x = fst sd;
          y = snd sd;
          s0 = y;
          x = x XOR push_bit 23 x;
          s1 = x XOR y XOR drop_bit 17 x XOR drop_bit 26 y
      in (s1 + y, (s0, s1)))"

text \<open>
  The system as the seeding sees it: whether \<^verbatim>\<open>/dev/urandom\<close> opens, the results of the
  successive reads of 16 bytes, each a count and a seed, and the bytes of \<^verbatim>\<open>rand\<close> after
  \<^verbatim>\<open>srand\<close>. The reads that are not used are handed on; when there are none left the loop
  does not end.
\<close>

record entropy =
  urandom :: bool
  reads :: "(int \<times> rng_seed) list"
  rands :: rng_seed

fun read_seed :: "(int \<times> rng_seed) list \<Rightarrow> (rng_seed \<times> (int \<times> rng_seed) list) option" where
  "read_seed [] = None"
| "read_seed ((n, sd) # rs) = (if n \<noteq> 16 then read_seed rs else Some (sd, rs))"

record xorshift_state =
  global_seed :: rng_seed
  seeded :: bool

text \<open>
  \<^verbatim>\<open>xorshift_seed\<close>: a null pointer stands for the global seed, and only then is \<^verbatim>\<open>seeded\<close> set.
\<close>

datatype seed_ptr = Null | Global | Own

definition xorshift_seed :: "entropy \<Rightarrow> xorshift_state \<Rightarrow> seed_ptr \<Rightarrow> (rng_seed \<times> xorshift_state \<times> entropy) option" where
  "xorshift_seed env st ptr =
     (let st = (if ptr = Null then st\<lparr>seeded := True\<rparr> else st);
          ptr = (if ptr = Null then Global else ptr)
      in do {
        (sd, env) \<leftarrow> (if urandom env then do { (sd, rs) \<leftarrow> read_seed (reads env); Some (sd, env\<lparr>reads := rs\<rparr>) }
                      else Some (rands env, env));
        Some (sd, if ptr = Global then st\<lparr>global_seed := sd\<rparr> else st, env)
      })"

definition xorshift128plus :: "entropy \<Rightarrow> xorshift_state \<Rightarrow> (u64 \<times> xorshift_state \<times> entropy) option" where
  "xorshift128plus env st = do {
     (st, env) \<leftarrow> (if \<not> seeded st then do { (sd, st, env) \<leftarrow> xorshift_seed env st Global; Some (st, env) }
                   else Some (st, env));
     let (r, sd) = xorshift128plus_r (global_seed st);
     Some (r, st\<lparr>global_seed := sd\<rparr>, env)
   }"

section \<open>\<^verbatim>\<open>random.c\<close>\<close>

text \<open>
  The results of \<^verbatim>\<open>rdtsc\<close>, \<^verbatim>\<open>cpuid\<close> and \<^verbatim>\<open>rdseed\<close>: the time stamps in the order they are
  taken, the registers \<^verbatim>\<open>eax\<close> of leaf 0 and \<^verbatim>\<open>ebx\<close> of leaf 7, and for each \<^verbatim>\<open>rdseed\<close> its value and
  the carry.
\<close>

record cpu =
  tsc :: "nat \<Rightarrow> u64"
  cpuid0_eax :: u32
  cpuid7_ebx :: u32
  rdseed :: "nat \<Rightarrow> u64 \<times> bool"

definition have_rdseed :: "cpu \<Rightarrow> u32" where
  "have_rdseed c = (if cpuid0_eax c \<ge> 7 then cpuid7_ebx c AND push_bit 18 1 else 0)"

definition init_seed :: "cpu \<Rightarrow> int \<times> rng_seed" where
  "init_seed c =
     (let sd = (tsc c 0, tsc c 1)
      in if have_rdseed c = 0 then (0, sd)
         else
           let (rand, ok) = rdseed c 0;
               (flags, sd) = (if ok then (1, (rand, snd sd)) else (0, sd));
               (rand, ok) = rdseed c 1;
               (flags, sd) = (if ok then (flags OR 2, (fst sd, rand)) else (flags, sd))
           in (flags, sd))"

definition finish_seed :: "cpu \<Rightarrow> rng_seed \<Rightarrow> rng_seed" where
  "finish_seed c sd = (if have_rdseed c = 0 then (fst sd, tsc c 2) else sd)"

definition rotl :: "u64 \<Rightarrow> nat \<Rightarrow> u64" where
  "rotl x k = push_bit k x OR drop_bit (64 - k) x"

definition rand128 :: "rng_seed \<Rightarrow> u64 \<times> rng_seed" where
  "rand128 sd =
     (let s0 = fst sd;
          s1 = snd sd;
          result = s0 + s1;
          s1 = s1 XOR s0
      in (result, (rotl s0 55 XOR s1 XOR push_bit 14 s1, rotl s1 36)))"

section \<open>Every step is a permutation of the states\<close>

lemma bit_beyond [simp]: "64 \<le> n \<Longrightarrow> \<not> bit (x :: u64) n"
  by (auto dest: bit_imp_le_length)

lemma xor_push_inj:
  assumes "0 < k" and eq: "(x :: u64) XOR push_bit k x = y XOR push_bit k y"
  shows "x = y"
proof (rule bit_eqI)
  fix n
  show "bit x n \<longleftrightarrow> bit y n"
  proof (induction n rule: less_induct)
    case (less n)
    have "bit (x XOR push_bit k x) n \<longleftrightarrow> bit (y XOR push_bit k y) n" by (simp add: eq)
    then show ?case using less [of "n - k"] assms(1) by (cases "n < 64"; cases "k \<le> n") (auto simp: bit_simps)
  qed
qed

lemma xor_drop_inj:
  assumes "0 < k" and eq: "(x :: u64) XOR drop_bit k x = y XOR drop_bit k y"
  shows "x = y"
proof (rule bit_eqI)
  fix n
  show "bit x n \<longleftrightarrow> bit y n"
  proof (induction "64 - n" arbitrary: n rule: less_induct)
    case less
    have "bit (x XOR drop_bit k x) n \<longleftrightarrow> bit (y XOR drop_bit k y) n" by (simp add: eq)
    then show ?case using less [of "k + n"] assms(1) by (cases "n < 64") (auto simp: bit_simps)
  qed
qed

lemma xor_cancel: "(a :: u64) XOR c = b XOR c \<longleftrightarrow> a = b"
  by (auto simp: bit_eq_iff bit_simps)

lemma bit_rotl: "n < 64 \<Longrightarrow> 0 < k \<Longrightarrow> k < 64 \<Longrightarrow> bit (rotl x k) n \<longleftrightarrow> bit x (if k \<le> n then n - k else n + 64 - k)"
  by (auto simp: rotl_def bit_simps add.commute)

lemma rotl_inj: "0 < k \<Longrightarrow> k < 64 \<Longrightarrow> rotl x k = rotl y k \<Longrightarrow> x = y"
proof (rule bit_eqI)
  fix n
  assume k: "0 < k" "k < 64" and eq: "rotl x k = rotl y k" and "possible_bit TYPE(64 word) n"
  then have n: "n < 64" by simp
  let ?m = "if n + k < 64 then n + k else n + k - 64"
  have "(if k \<le> ?m then ?m - k else ?m + 64 - k) = n" "?m < 64" using k n by auto
  then show "bit x n \<longleftrightarrow> bit y n" using bit_rotl [of ?m k x] bit_rotl [of ?m k y] k eq by simp
qed

lemma bij_step: "inj (f :: rng_seed \<Rightarrow> rng_seed) \<Longrightarrow> bij f"
  by (simp add: bij_def finite_UNIV_inj_surj)

lemma xorshift_inj: "inj (\<lambda>sd. snd (xorshift128plus_r sd))"
proof (rule injI)
  fix a b
  assume eq: "snd (xorshift128plus_r a) = snd (xorshift128plus_r b)"
  let ?f = "\<lambda>x :: u64. x XOR push_bit 23 x"
  have both: "snd a = snd b \<and>
    ?f (fst a) XOR snd a XOR drop_bit 17 (?f (fst a)) XOR drop_bit 26 (snd a) =
      ?f (fst b) XOR snd b XOR drop_bit 17 (?f (fst b)) XOR drop_bit 26 (snd b)"
    using eq unfolding xorshift128plus_r_def Let_def prod.sel prod.inject .
  note y = conjunct1 [OF both]
  from conjunct2 [OF both, unfolded y] have "(?f (fst a) XOR drop_bit 17 (?f (fst a))) XOR (snd b XOR drop_bit 26 (snd b)) =
      (?f (fst b) XOR drop_bit 17 (?f (fst b))) XOR (snd b XOR drop_bit 26 (snd b))"
    by (simp only: ac_simps)
  then have "?f (fst a) = ?f (fst b)" unfolding xor_cancel by (rule xor_drop_inj [rotated]) simp
  then have "fst a = fst b" by (rule xor_push_inj [rotated]) simp
  with y show "a = b" by (simp add: prod_eq_iff)
qed

lemma rand128_inj: "inj (\<lambda>sd. snd (rand128 sd))"
proof (rule injI)
  fix a b
  assume eq: "snd (rand128 a) = snd (rand128 b)"
  let ?t = "\<lambda>sd :: rng_seed. snd sd XOR fst sd"
  have 1: "rotl (fst a) 55 XOR ?t a XOR push_bit 14 (?t a) = rotl (fst b) 55 XOR ?t b XOR push_bit 14 (?t b)"
    and 2: "rotl (?t a) 36 = rotl (?t b) 36"
    using eq by (simp_all only: rand128_def Let_def prod.sel prod.inject)
  from rotl_inj [OF _ _ 2] have t: "?t a = ?t b" by simp
  from 1 [unfolded t] have "rotl (fst a) 55 XOR (?t b XOR push_bit 14 (?t b)) = rotl (fst b) 55 XOR (?t b XOR push_bit 14 (?t b))"
    by (simp only: ac_simps)
  then have "fst a = fst b" unfolding xor_cancel by (rule rotl_inj [rotated 2]) simp_all
  with t show "a = b" by (simp add: prod_eq_iff xor_cancel)
qed

text \<open>
  Both generators walk in cycles: one step permutes the \<open>2 ^ 128\<close> states, so no two
  seeds ever meet, and the all-zero state, on which the generator would stick at 0, is
  reached from no other state.
\<close>

theorem rng_steps_bijective:
  "bij (\<lambda>sd. snd (xorshift128plus_r sd)) \<and> bij (\<lambda>sd. snd (rand128 sd)) \<and>
   (snd (xorshift128plus_r sd) = (0, 0) \<longleftrightarrow> sd = (0, 0)) \<and> (snd (rand128 sd) = (0, 0) \<longleftrightarrow> sd = (0, 0))"
proof -
  have "snd (xorshift128plus_r (0, 0)) = (0, 0)" "snd (rand128 (0, 0)) = (0, 0)"
    by (simp_all add: xorshift128plus_r_def rand128_def rotl_def)
  then show ?thesis
    using xorshift_inj rand128_inj bij_step by (metis (no_types, lifting) injD)
qed

text \<open>
  The global generator never becomes seeded by itself: \<^verbatim>\<open>xorshift128plus\<close> passes the
  address of the global seed, not null, so \<^verbatim>\<open>seeded\<close> stays 0, every call reads a new seed from the
  system, and what it returns does not depend on the state that the previous call left.
\<close>

theorem xorshift128plus_reseeds:
  assumes "\<not> seeded st" and "urandom env" and "reads env = (16, sd) # rs"
  shows "xorshift128plus env st =
    Some (fst (xorshift128plus_r sd), st\<lparr>global_seed := snd (xorshift128plus_r sd)\<rparr>, env\<lparr>reads := rs\<rparr>) \<and>
    \<not> seeded (st\<lparr>global_seed := snd (xorshift128plus_r sd)\<rparr>)"
  using assms by (simp add: xorshift128plus_def xorshift_seed_def case_prod_beta)

theorem xorshift128plus_reseeds_witness:
  "\<exists>r st env. xorshift128plus \<lparr>urandom = True, reads = [(16, (1, 2)), (16, (1, 2))], rands = (0, 0)\<rparr>
     \<lparr>global_seed = (0, 0), seeded = False\<rparr> = Some (r, st, env) \<and> \<not> seeded st"
  using xorshift128plus_reseeds [of "\<lparr>global_seed = (0, 0), seeded = False\<rparr>"
      "\<lparr>urandom = True, reads = [(16, (1, 2)), (16, (1, 2))], rands = (0, 0)\<rparr>"] by simp

text \<open>Seeding with a null pointer, as \<^verbatim>\<open>sam_srand\<close> does, is what makes the generator keep its state.\<close>

lemma xorshift_seed_null:
  "xorshift_seed env st Null = Some (sd, st', env') \<Longrightarrow>
     seeded st' \<and> global_seed st' = sd \<and>
     xorshift128plus env' st' = Some (fst (xorshift128plus_r sd), st'\<lparr>global_seed := snd (xorshift128plus_r sd)\<rparr>, env')"
  by (auto simp: xorshift_seed_def xorshift128plus_def case_prod_beta split: if_splits bind_splits)

text \<open>The flags of \<^verbatim>\<open>init_seed\<close> say which halves of the seed come from \<^verbatim>\<open>rdseed\<close>.\<close>

lemma init_seed_flags:
  "init_seed c = (flags, sd) \<Longrightarrow> flags \<in> {0, 1, 2, 3} \<and>
     (flags \<in> {1, 3} \<longrightarrow> fst sd = fst (rdseed c 0)) \<and> (flags \<in> {2, 3} \<longrightarrow> snd sd = fst (rdseed c 1)) \<and>
     (flags = 0 \<longrightarrow> sd = (tsc c 0, tsc c 1))"
  by (auto simp: init_seed_def Let_def case_prod_beta split: if_splits)

end
