(* ===== verification/Ring.thy ===== *)
theory Ring
  imports Prelude
begin

text \<open>
  Circular doubly linked lists, for the queues of \<^verbatim>\<open>db.1.85/include/queue.h\<close> and the lists of
  \<^verbatim>\<open>linux-list.h\<close>: which elements the successor and the predecessor links of a memory hold
  together, and what writing one pair of links does. The interface \<open>deque\<close> is what both
  implementations offer to their clients.
\<close>

section \<open>Chains of links\<close>

type_synonym addr = nat
type_synonym links = "addr \<rightharpoonup> addr"

fun chain :: "links \<Rightarrow> links \<Rightarrow> addr list \<Rightarrow> bool" where
  "chain nx pv (x # y # xs) \<longleftrightarrow> nx x = Some y \<and> pv y = Some x \<and> chain nx pv (y # xs)"
| "chain nx pv _ \<longleftrightarrow> True"

lemma chain_append:
  "us \<noteq> [] \<Longrightarrow> vs \<noteq> [] \<Longrightarrow> chain nx pv (us @ vs) \<longleftrightarrow>
     chain nx pv us \<and> chain nx pv vs \<and> nx (last us) = Some (hd vs) \<and> pv (hd vs) = Some (last us)"
proof (induction us rule: induct_list012)
  case (2 x)
  then show ?case by (cases vs) auto
qed auto

lemma chain_cong:
  assumes "\<forall>x \<in> set (butlast us). nx' x = nx x" "\<forall>x \<in> set (tl us). pv' x = pv x"
  shows "chain nx' pv' us = chain nx pv us"
  using assms by (induction us rule: induct_list012) auto

text \<open>Writing the links between the last element of one chain and the first of another joins them.\<close>

lemma chain_join:
  assumes "chain nx pv us" "chain nx pv vs" "us \<noteq> []" "vs \<noteq> []"
    and "last us \<notin> set (butlast us) \<union> set (butlast vs)" "hd vs \<notin> set (tl us) \<union> set (tl vs)"
  shows "chain (nx(last us \<mapsto> hd vs)) (pv(hd vs \<mapsto> last us)) (us @ vs)"
proof -
  have "chain (nx(last us \<mapsto> hd vs)) (pv(hd vs \<mapsto> last us)) us = chain nx pv us"
    using assms(5, 6) by (intro chain_cong) auto
  moreover have "chain (nx(last us \<mapsto> hd vs)) (pv(hd vs \<mapsto> last us)) vs = chain nx pv vs"
    using assms(5, 6) by (intro chain_cong) auto
  ultimately show ?thesis using assms(1-4) by (simp add: chain_append)
qed

section \<open>Rings\<close>

definition ring :: "links \<Rightarrow> links \<Rightarrow> addr \<Rightarrow> addr list \<Rightarrow> bool" where
  "ring nx pv h xs \<longleftrightarrow> distinct (h # xs) \<and> chain nx pv (h # xs @ [h])"

lemma ring_split:
  "ring nx pv h (xs @ ys) \<longleftrightarrow> distinct (h # xs @ ys) \<and> chain nx pv (h # xs) \<and> chain nx pv (ys @ [h]) \<and>
     nx (last (h # xs)) = Some (hd (ys @ [h])) \<and> pv (hd (ys @ [h])) = Some (last (h # xs))"
  using chain_append [of "h # xs" "ys @ [h]" nx pv] by (simp add: ring_def)

lemma ring_cong:
  assumes "\<forall>x \<in> set (h # xs). nx' x = nx x \<and> pv' x = pv x"
  shows "ring nx' pv' h xs = ring nx pv h xs"
proof -
  have "chain nx' pv' (h # xs @ [h]) = chain nx pv (h # xs @ [h])"
    using assms by (intro chain_cong) (auto simp: butlast_append)
  then show ?thesis by (simp add: ring_def)
qed

lemma ring_nodes:
  assumes "ring nx pv h xs" "x \<in> set (h # xs)"
  shows "nx x \<noteq> None" "pv x \<noteq> None"
proof -
  have "chain nx pv us \<Longrightarrow> x \<in> set (butlast us) \<Longrightarrow> nx x \<noteq> None" for us
    by (induction us rule: induct_list012) auto
  moreover have "chain nx pv us \<Longrightarrow> x \<in> set (tl us) \<Longrightarrow> pv x \<noteq> None" for us
    by (induction us rule: induct_list012) auto
  ultimately show "nx x \<noteq> None" "pv x \<noteq> None"
    using assms unfolding ring_def by (metis butlast.simps(2) butlast_snoc append_Cons append_is_Nil_conv list.discI,
      metis list.sel(3) set_append Un_iff list.set_intros(1) set_ConsD)
qed

lemma ring_first: "ring nx pv h xs \<Longrightarrow> nx h = Some (hd (xs @ [h]))"
  using ring_split [of nx pv h "[]" xs] by simp

lemma ring_last: "ring nx pv h xs \<Longrightarrow> pv h = Some (last (h # xs))"
  using ring_split [of nx pv h xs "[]"] by simp

lemma ring_elem:
  assumes "ring nx pv h (xs @ e # ys)"
  shows "nx e = Some (hd (ys @ [h]))" "pv e = Some (last (h # xs))"
  using ring_split [of nx pv h "xs @ [e]" ys] ring_split [of nx pv h xs "e # ys"] assms by auto

lemma distinct_ends:
  assumes "distinct us" "us \<noteq> []"
  shows "last us \<notin> set (butlast us)" "hd us \<notin> set (tl us)"
  using assms by (cases us rule: rev_cases, auto) (cases us, auto)

lemma ends_subset: "set (tl us) \<subseteq> set us" "set (butlast us) \<subseteq> set us"
  by (cases us) (auto dest: in_set_butlastD)

lemma ends_in: "last (h # xs) \<in> set (h # xs)" "hd (ys @ [h]) \<in> set (ys @ [h])"
  by (auto simp: hd_append)

text \<open>
  Closing two chains to a ring, which is also what the removal of the elements between them
  does; then the links that an insertion and the insertion of a whole chain write.
\<close>

lemma ring_join:
  assumes d: "distinct (h # xs @ ys)" and c: "chain nx pv (h # xs)" "chain nx pv (ys @ [h])"
  shows "ring (nx(last (h # xs) \<mapsto> hd (ys @ [h]))) (pv(hd (ys @ [h]) \<mapsto> last (h # xs))) h (xs @ ys)"
proof -
  have "last (h # xs) \<notin> set (butlast (h # xs)) \<union> set (butlast (ys @ [h]))"
    using distinct_ends(1) [of "h # xs"] ends_in(1) [of h xs] d by auto
  moreover have "hd (ys @ [h]) \<notin> set (tl (h # xs)) \<union> set (tl (ys @ [h]))"
    using distinct_ends(2) [of "ys @ [h]"] ends_in(2) [of ys h] d by auto
  ultimately show ?thesis using chain_join [OF c] d by (simp add: ring_def)
qed

lemma chain_snoc_link:
  assumes "chain nx pv (h # xs)" "distinct (h # xs)" "e \<notin> set (h # xs)"
  shows "chain (nx(last (h # xs) \<mapsto> e)) (pv(e \<mapsto> last (h # xs))) (h # xs @ [e])"
  using chain_join [OF assms(1), of "[e]"] distinct_ends(1) [OF assms(2)] assms(3) by simp

lemma ring_insert:
  assumes r: "ring nx pv h (xs @ ys)" and e: "e \<notin> set (h # xs @ ys)"
  shows "ring (nx(last (h # xs) \<mapsto> e, e \<mapsto> hd (ys @ [h]))) (pv(e \<mapsto> last (h # xs), hd (ys @ [h]) \<mapsto> e)) h (xs @ e # ys)"
proof -
  let ?nx = "nx(last (h # xs) \<mapsto> e)" and ?pv = "pv(e \<mapsto> last (h # xs))"
  have d: "distinct (h # xs @ ys)" and c: "chain nx pv (h # xs)" "chain nx pv (ys @ [h])"
    using r by (simp_all add: ring_split)
  have 1: "chain ?nx ?pv (h # xs @ [e])" using chain_snoc_link [OF c(1)] d e by simp
  have "last (h # xs) \<notin> set ys" using ends_in(1) [of h xs] d by auto
  then have 2: "chain ?nx ?pv (ys @ [h])"
    using c(2) e by (subst chain_cong [where nx = nx and pv = pv]) (auto dest: in_set_butlastD list.set_sel(2) [rotated])
  show ?thesis using ring_join [of h "xs @ [e]" ys, OF _ 1 2] d e by simp
qed

lemma ring_remove:
  assumes "ring nx pv h (xs @ e # ys)"
  shows "ring (nx(last (h # xs) \<mapsto> hd (ys @ [h]))) (pv(hd (ys @ [h]) \<mapsto> last (h # xs))) h (xs @ ys)"
  using assms ring_split [of nx pv h "xs @ [e]" ys] chain_append [of "h # xs" "[e]" nx pv]
  by (intro ring_join) (auto simp: ring_split)


text \<open>A whole chain goes between two elements, or becomes a ring with a new head.\<close>

lemma ring_chain: "ring nx pv h ys \<Longrightarrow> chain nx pv ys"
  using chain_append [of "[h]" "ys @ [h]" nx pv] chain_append [of ys "[h]" nx pv] by (cases "ys = []") (auto simp: ring_def)

lemma ring_splice:
  assumes r: "ring nx pv h (xs @ zs)" and ys: "chain nx pv ys" "ys \<noteq> []" "distinct ys" "set ys \<inter> set (h # xs @ zs) = {}"
  shows "ring (nx(last (h # xs) \<mapsto> hd ys, last ys \<mapsto> hd (zs @ [h]))) (pv(hd ys \<mapsto> last (h # xs), hd (zs @ [h]) \<mapsto> last ys))
    h (xs @ ys @ zs)"
proof -
  let ?nx = "nx(last (h # xs) \<mapsto> hd ys)" and ?pv = "pv(hd ys \<mapsto> last (h # xs))"
  have d: "distinct (h # xs @ zs)" and c: "chain nx pv (h # xs)" "chain nx pv (zs @ [h])"
    using r by (simp_all add: ring_split)
  have l: "last (h # xs) \<notin> set zs" "last (h # xs) \<notin> set ys" "hd ys \<notin> set (h # xs)" "hd ys \<notin> set (zs @ [h])"
    using ends_in(1) [of h xs] d ys by (auto dest: hd_in_set)
  then have lb: "last (h # xs) \<notin> set (butlast ys)" using ends_subset(2) [of ys] by blast
  have 1: "chain ?nx ?pv (h # xs @ ys)"
    using chain_join [OF c(1) ys(1) _ ys(2)] distinct_ends(1) [of "h # xs"] distinct_ends(2) [OF ys(3, 2)] lb l(3) d
    by simp
  have 2: "chain ?nx ?pv (zs @ [h])"
    using c(2) l by (subst chain_cong [where nx = nx and pv = pv]) (auto dest: list.set_sel(2) [rotated])
  have "distinct (h # (xs @ ys) @ zs)" using d ys(3, 4) by auto
  then show ?thesis using ring_join [of h "xs @ ys" zs, OF _ _ 2] 1 ys(2) by simp
qed

lemma ring_close:
  assumes "chain nx pv xs" "xs \<noteq> []" "distinct (h # xs)"
  shows "ring (nx(h \<mapsto> hd xs, last xs \<mapsto> h)) (pv(hd xs \<mapsto> h, h \<mapsto> last xs)) h xs"
proof -
  have "chain (nx(h \<mapsto> hd xs)) (pv(hd xs \<mapsto> h)) (h # xs)"
    using chain_join [of nx pv "[h]" xs] assms distinct_ends(2) [of xs] by (auto dest: in_set_butlastD)
  then show ?thesis using ring_join [of h xs "[]"] assms by simp
qed

lemma ring_cut:
  assumes r: "ring nx pv h (xs @ ys)" and xs: "xs \<noteq> []" and l: "l \<notin> set (h # xs @ ys)"
  defines "nx' \<equiv> nx(l \<mapsto> hd xs, last xs \<mapsto> l, h \<mapsto> hd (ys @ [h]))" and "pv' \<equiv> pv(hd xs \<mapsto> l, l \<mapsto> last xs, hd (ys @ [h]) \<mapsto> h)"
  shows "ring nx' pv' l xs" "ring nx' pv' h ys"
proof -
  let ?nx = "nx(l \<mapsto> hd xs, last xs \<mapsto> l)" and ?pv = "pv(hd xs \<mapsto> l, l \<mapsto> last xs)"
  have d: "distinct (h # xs @ ys)" and c: "chain nx pv (h # xs)" "chain nx pv (ys @ [h])"
    using r by (simp_all add: ring_split)
  have cx: "chain nx pv xs" using c(1) xs chain_append [of "[h]" xs nx pv] by simp
  have in': "hd xs \<in> set xs" "last xs \<in> set xs" "hd (ys @ [h]) \<in> set (ys @ [h])" using xs ends_in(2) [of ys h] by auto
  have "ring ?nx ?pv l xs" using ring_close [OF cx xs] d l by simp
  moreover have "ring nx' pv' l xs = ring ?nx ?pv l xs" unfolding nx'_def pv'_def
    using d l in' by (intro ring_cong) auto
  ultimately show "ring nx' pv' l xs" by simp
  have "chain ?nx ?pv (ys @ [h])"
    using c(2) d l in' ends_subset(1) [of "ys @ [h]"] by (subst chain_cong [where nx = nx and pv = pv]) auto
  then show "ring nx' pv' h ys" using ring_join [of h "[]" ys ?nx ?pv] d by (simp add: nx'_def pv'_def)
qed

lemma ring_Nil [simp]: "ring nx pv h [] \<longleftrightarrow> nx h = Some h \<and> pv h = Some h"
  by (simp add: ring_def)

section \<open>The interface\<close>

text \<open>Adding several elements at the tail, moving one to the tail, and removing all from the front.\<close>

fun add_all :: "('e \<Rightarrow> 's \<Rightarrow> 's option) \<Rightarrow> 'e list \<Rightarrow> 's \<Rightarrow> 's option" where
  "add_all add [] m = Some m"
| "add_all add (e # es) m = do { m \<leftarrow> add e m; add_all add es m }"

definition separate :: "('s \<Rightarrow> addr \<Rightarrow> addr list \<Rightarrow> bool) \<Rightarrow> 's \<Rightarrow> 's \<Rightarrow> addr set \<Rightarrow> bool" where
  "separate dq m m' A \<longleftrightarrow> (\<forall>h xs. set (h # xs) \<inter> A = {} \<longrightarrow> dq m h xs \<longrightarrow> dq m' h xs)"

lemma separate_trans:
  "separate dq m m' A \<Longrightarrow> separate dq m' m'' B \<Longrightarrow> A \<union> B \<subseteq> C \<Longrightarrow> separate dq m m'' C"
  unfolding separate_def by (metis Int_mono Un_subset_iff subset_empty order_refl)

text \<open>
  What a queue promises: \<open>dq m h xs\<close>, in the memory \<open>m\<close> the head \<open>h\<close> has the elements \<open>xs\<close> from
  front to back; \<open>elem m e\<close>, there is an element at \<open>e\<close>. The operations change no other queue.
\<close>

locale deque =
  fixes dq :: "'s \<Rightarrow> addr \<Rightarrow> addr list \<Rightarrow> bool"
    and elem :: "'s \<Rightarrow> addr \<Rightarrow> bool"
    and add add_tail del :: "addr \<Rightarrow> addr \<Rightarrow> 's \<Rightarrow> 's option"
  assumes dq_distinct: "dq m h xs \<Longrightarrow> distinct (h # xs)"
    and add_law: "dq m h xs \<Longrightarrow> elem m e \<Longrightarrow> e \<notin> set (h # xs) \<Longrightarrow>
      \<exists>m'. add e h m = Some m' \<and> dq m' h (e # xs) \<and> separate dq m m' (set (e # h # xs)) \<and> elem m' = elem m"
    and add_tail_law: "dq m h xs \<Longrightarrow> elem m e \<Longrightarrow> e \<notin> set (h # xs) \<Longrightarrow>
      \<exists>m'. add_tail e h m = Some m' \<and> dq m' h (xs @ [e]) \<and> separate dq m m' (set (e # h # xs)) \<and> elem m' = elem m"
    and del_law: "dq m h (xs @ e # ys) \<Longrightarrow>
      \<exists>m'. del e h m = Some m' \<and> dq m' h (xs @ ys) \<and> separate dq m m' (set (h # xs @ e # ys)) \<and> elem m' = elem m"
    and dq_elem: "dq m h xs \<Longrightarrow> e \<in> set xs \<Longrightarrow> elem m e"
begin

lemma fifo:
  "dq m h xs \<Longrightarrow> \<forall>e \<in> set es. elem m e \<Longrightarrow> distinct es \<Longrightarrow> set es \<inter> set (h # xs) = {} \<Longrightarrow>
     \<exists>m'. add_all (\<lambda>e. add_tail e h) es m = Some m' \<and> dq m' h (xs @ es) \<and>
       separate dq m m' (set (h # xs @ es)) \<and> elem m' = elem m"
proof (induction es arbitrary: m xs)
  case Nil
  then show ?case by (auto simp: separate_def)
next
  case (Cons e es)
  obtain m1 where m1: "add_tail e h m = Some m1" "dq m1 h (xs @ [e])" "separate dq m m1 (set (e # h # xs))" "elem m1 = elem m"
    using add_tail_law [of m h xs e] Cons.prems by auto
  obtain m2 where m2: "add_all (\<lambda>e. add_tail e h) es m1 = Some m2" "dq m2 h ((xs @ [e]) @ es)"
      "separate dq m1 m2 (set (h # (xs @ [e]) @ es))" "elem m2 = elem m1"
    using Cons.IH [OF m1(2)] Cons.prems m1(4) by auto
  have "separate dq m m2 (set (h # xs @ e # es))" by (rule separate_trans [OF m1(3) m2(3)]) auto
  then show ?case using m1 m2 by auto
qed

text \<open>Using an element: it moves to the back, the others keep their order.\<close>

lemma touch:
  assumes "dq m h xs" "e \<in> set xs"
  shows "\<exists>m1 m2. del e h m = Some m1 \<and> add_tail e h m1 = Some m2 \<and> dq m2 h (remove1 e xs @ [e]) \<and>
    separate dq m m2 (set (h # xs))"
proof -
  obtain us vs where xs: "xs = us @ e # vs" "e \<notin> set us" using split_list_first [OF assms(2)] by blast
  obtain m1 where m1: "del e h m = Some m1" "dq m1 h (us @ vs)" "separate dq m m1 (set (h # xs))" "elem m1 = elem m"
    using del_law [of m h us e vs] assms(1) xs(1) by auto
  have "e \<notin> set (h # us @ vs)" using dq_distinct [OF assms(1)] xs by auto
  then obtain m2 where m2: "add_tail e h m1 = Some m2" "dq m2 h ((us @ vs) @ [e])" "separate dq m1 m2 (set (e # h # us @ vs))"
    using add_tail_law [OF m1(2), of e] dq_elem [OF assms] m1(4) by auto
  have "separate dq m m2 (set (h # xs))" using xs by (intro separate_trans [OF m1(3) m2(3)]) auto
  moreover have "remove1 e xs = us @ vs" using xs by (simp add: remove1_append)
  ultimately show ?thesis using m1 m2 by auto
qed

end

end
