(* ===== verification/Circleq.thy ===== *)
theory Circleq
  imports Ring
begin

text \<open>
  The circular queues of \<^verbatim>\<open>db.1.85/include/queue.h\<close>, the macros on pointers: a head with the
  fields \<^verbatim>\<open>cqh_first\<close> and \<^verbatim>\<open>cqh_last\<close>, elements with \<^verbatim>\<open>cqe_next\<close> and \<^verbatim>\<open>cqe_prev\<close>, and the address of the head,
  cast to an element, at both ends. An access through an address at which there is no head or
  no element, as the field demands, is the value \<open>None\<close>.
\<close>

section \<open>The memory\<close>

record cqhead =
  cqh_first :: addr
  cqh_last :: addr

record cqelem =
  cqe_next :: addr
  cqe_prev :: addr

record cqmem =
  cq_heads :: "addr \<rightharpoonup> cqhead"
  cq_elems :: "addr \<rightharpoonup> cqelem"

definition get_first :: "cqmem \<Rightarrow> addr \<Rightarrow> addr option" where
  "get_first m h = map_option cqh_first (cq_heads m h)"

definition get_last :: "cqmem \<Rightarrow> addr \<Rightarrow> addr option" where
  "get_last m h = map_option cqh_last (cq_heads m h)"

definition get_next :: "cqmem \<Rightarrow> addr \<Rightarrow> addr option" where
  "get_next m e = map_option cqe_next (cq_elems m e)"

definition get_prev :: "cqmem \<Rightarrow> addr \<Rightarrow> addr option" where
  "get_prev m e = map_option cqe_prev (cq_elems m e)"

definition set_head :: "(cqhead \<Rightarrow> cqhead) \<Rightarrow> addr \<Rightarrow> cqmem \<Rightarrow> cqmem option" where
  "set_head f h m = map_option (\<lambda>r. m\<lparr>cq_heads := (cq_heads m)(h \<mapsto> f r)\<rparr>) (cq_heads m h)"

definition set_elem :: "(cqelem \<Rightarrow> cqelem) \<Rightarrow> addr \<Rightarrow> cqmem \<Rightarrow> cqmem option" where
  "set_elem f e m = map_option (\<lambda>r. m\<lparr>cq_elems := (cq_elems m)(e \<mapsto> f r)\<rparr>) (cq_elems m e)"

abbreviation set_first :: "addr \<Rightarrow> addr \<Rightarrow> cqmem \<Rightarrow> cqmem option" where
  "set_first h v \<equiv> set_head (\<lambda>r. r\<lparr>cqh_first := v\<rparr>) h"

abbreviation set_last :: "addr \<Rightarrow> addr \<Rightarrow> cqmem \<Rightarrow> cqmem option" where
  "set_last h v \<equiv> set_head (\<lambda>r. r\<lparr>cqh_last := v\<rparr>) h"

abbreviation set_next :: "addr \<Rightarrow> addr \<Rightarrow> cqmem \<Rightarrow> cqmem option" where
  "set_next e v \<equiv> set_elem (\<lambda>r. r\<lparr>cqe_next := v\<rparr>) e"

abbreviation set_prev :: "addr \<Rightarrow> addr \<Rightarrow> cqmem \<Rightarrow> cqmem option" where
  "set_prev e v \<equiv> set_elem (\<lambda>r. r\<lparr>cqe_prev := v\<rparr>) e"

section \<open>The macros\<close>

definition CIRCLEQ_INIT :: "addr \<Rightarrow> cqmem \<Rightarrow> cqmem option" where
  "CIRCLEQ_INIT head m = do { m \<leftarrow> set_first head head m; set_last head head m }"

definition CIRCLEQ_INSERT_HEAD :: "addr \<Rightarrow> addr \<Rightarrow> cqmem \<Rightarrow> cqmem option" where
  "CIRCLEQ_INSERT_HEAD elm head m = do {
     f \<leftarrow> get_first m head;
     m \<leftarrow> set_next elm f m;
     m \<leftarrow> set_prev elm head m;
     l \<leftarrow> get_last m head;
     m \<leftarrow> (if l = head then set_last head elm m
           else do { f \<leftarrow> get_first m head; set_prev f elm m });
     set_first head elm m
   }"

definition CIRCLEQ_INSERT_TAIL :: "addr \<Rightarrow> addr \<Rightarrow> cqmem \<Rightarrow> cqmem option" where
  "CIRCLEQ_INSERT_TAIL elm head m = do {
     m \<leftarrow> set_next elm head m;
     l \<leftarrow> get_last m head;
     m \<leftarrow> set_prev elm l m;
     f \<leftarrow> get_first m head;
     m \<leftarrow> (if f = head then set_first head elm m
           else do { l \<leftarrow> get_last m head; set_next l elm m });
     set_last head elm m
   }"

definition CIRCLEQ_REMOVE :: "addr \<Rightarrow> addr \<Rightarrow> cqmem \<Rightarrow> cqmem option" where
  "CIRCLEQ_REMOVE elm head m = do {
     n \<leftarrow> get_next m elm;
     p \<leftarrow> get_prev m elm;
     m \<leftarrow> (if n = head then set_last head p m else set_prev n p m);
     p \<leftarrow> get_prev m elm;
     n \<leftarrow> get_next m elm;
     if p = head then set_first head n m else set_next p n m
   }"

text \<open>The loop over a queue, which visits the elements from the first to the last; fuel bounds the visits.\<close>

fun walk_from :: "nat \<Rightarrow> cqmem \<Rightarrow> addr \<Rightarrow> addr \<Rightarrow> addr list option" where
  "walk_from 0 m head bp = None"
| "walk_from (Suc fuel) m head bp =
     (if bp = head then Some []
      else do { n \<leftarrow> get_next m bp; bs \<leftarrow> walk_from fuel m head n; Some (bp # bs) })"

definition walk :: "nat \<Rightarrow> cqmem \<Rightarrow> addr \<Rightarrow> addr list option" where
  "walk fuel m head = do { bp \<leftarrow> get_first m head; walk_from fuel m head bp }"

section \<open>The queues as lists\<close>

definition insert_head :: "addr list \<Rightarrow> addr \<Rightarrow> addr list" where
  "insert_head q b = b # q"

definition insert_tail :: "addr list \<Rightarrow> addr \<Rightarrow> addr list" where
  "insert_tail q b = q @ [b]"

definition remove_elem :: "addr list \<Rightarrow> addr \<Rightarrow> addr list" where
  "remove_elem q b = remove1 b q"

lemmas queue_defs = insert_head_def insert_tail_def remove_elem_def

definition cq_nx :: "cqmem \<Rightarrow> links" where
  "cq_nx m a = (case cq_heads m a of Some r \<Rightarrow> Some (cqh_first r) | None \<Rightarrow> get_next m a)"

definition cq_pv :: "cqmem \<Rightarrow> links" where
  "cq_pv m a = (case cq_heads m a of Some r \<Rightarrow> Some (cqh_last r) | None \<Rightarrow> get_prev m a)"

definition is_head :: "cqmem \<Rightarrow> addr \<Rightarrow> bool" where
  "is_head m h \<longleftrightarrow> cq_heads m h \<noteq> None"

definition is_elem :: "cqmem \<Rightarrow> addr \<Rightarrow> bool" where
  "is_elem m e \<longleftrightarrow> cq_elems m e \<noteq> None \<and> cq_heads m e = None"

definition circleq :: "cqmem \<Rightarrow> addr \<Rightarrow> addr list \<Rightarrow> bool" where
  "circleq m h xs \<longleftrightarrow> ring (cq_nx m) (cq_pv m) h xs \<and> is_head m h \<and> (\<forall>x \<in> set xs. is_elem m x)"

text \<open>What the accesses do to the links.\<close>

lemma gets:
  "is_head m h \<Longrightarrow> get_first m h = cq_nx m h" "is_head m h \<Longrightarrow> get_last m h = cq_pv m h"
  "is_elem m e \<Longrightarrow> get_next m e = cq_nx m e" "is_elem m e \<Longrightarrow> get_prev m e = cq_pv m e"
  by (auto simp: get_first_def get_last_def cq_nx_def cq_pv_def is_head_def is_elem_def split: option.splits)

definition kinds :: "cqmem \<Rightarrow> cqmem \<Rightarrow> bool" where
  "kinds m m' \<longleftrightarrow> is_head m' = is_head m \<and> is_elem m' = is_elem m"

lemma sets:
  "is_head m h \<Longrightarrow> \<exists>m'. set_first h v m = Some m' \<and> cq_nx m' = (cq_nx m)(h \<mapsto> v) \<and> cq_pv m' = cq_pv m \<and> kinds m m'"
  "is_head m h \<Longrightarrow> \<exists>m'. set_last h v m = Some m' \<and> cq_nx m' = cq_nx m \<and> cq_pv m' = (cq_pv m)(h \<mapsto> v) \<and> kinds m m'"
  "is_elem m e \<Longrightarrow> \<exists>m'. set_next e v m = Some m' \<and> cq_nx m' = (cq_nx m)(e \<mapsto> v) \<and> cq_pv m' = cq_pv m \<and> kinds m m'"
  "is_elem m e \<Longrightarrow> \<exists>m'. set_prev e v m = Some m' \<and> cq_nx m' = cq_nx m \<and> cq_pv m' = (cq_pv m)(e \<mapsto> v) \<and> kinds m m'"
  by (auto simp: set_head_def set_elem_def cq_nx_def cq_pv_def kinds_def is_head_def is_elem_def get_next_def get_prev_def
      fun_eq_iff split: option.splits)


lemma set_to_prev:
  assumes "t = h \<and> is_head m h \<or> t \<noteq> h \<and> is_elem m t"
  shows "\<exists>m'. (if t = h then set_last h v m else set_prev t v m) = Some m' \<and> cq_nx m' = cq_nx m \<and>
    cq_pv m' = (cq_pv m)(t \<mapsto> v) \<and> kinds m m'"
  using assms sets(2) [of m h v] sets(4) [of m t v] by auto

lemma set_to_next:
  assumes "t = h \<and> is_head m h \<or> t \<noteq> h \<and> is_elem m t"
  shows "\<exists>m'. (if t = h then set_first h v m else set_next t v m) = Some m' \<and> cq_nx m' = (cq_nx m)(t \<mapsto> v) \<and>
    cq_pv m' = cq_pv m \<and> kinds m m'"
  using assms sets(1) [of m h v] sets(3) [of m t v] by auto

lemma circleq_separate:
  assumes "\<And>x. x \<notin> A \<Longrightarrow> cq_nx m' x = cq_nx m x \<and> cq_pv m' x = cq_pv m x" "kinds m m'"
  shows "separate circleq m m' A"
  unfolding separate_def circleq_def
proof (intro allI impI)
  fix h xs
  assume d: "set (h # xs) \<inter> A = {}"
    and r: "ring (cq_nx m) (cq_pv m) h xs \<and> is_head m h \<and> (\<forall>x \<in> set xs. is_elem m x)"
  have "ring (cq_nx m') (cq_pv m') h xs = ring (cq_nx m) (cq_pv m) h xs"
    using assms(1) d by (intro ring_cong) auto
  then show "ring (cq_nx m') (cq_pv m') h xs \<and> is_head m' h \<and> (\<forall>x \<in> set xs. is_elem m' x)"
    using r assms(2) by (simp add: kinds_def)
qed

lemma ends_kind:
  assumes "circleq m h (xs @ ys)"
  defines "p \<equiv> last (h # xs)" and "n \<equiv> hd (ys @ [h])"
  shows "p = h \<and> is_head m h \<or> p \<noteq> h \<and> is_elem m p" "n = h \<and> is_head m h \<or> n \<noteq> h \<and> is_elem m n"
    "p \<in> set (h # xs)" "n \<in> set (ys @ [h])" "p = h \<longleftrightarrow> xs = []" "n = h \<longleftrightarrow> ys = []"
proof -
  have k: "is_head m h" "\<forall>x \<in> set (xs @ ys). is_elem m x" "h \<notin> set (xs @ ys)"
    using assms(1) by (simp_all add: circleq_def ring_def)
  then show "p = h \<and> is_head m h \<or> p \<noteq> h \<and> is_elem m p" "n = h \<and> is_head m h \<or> n \<noteq> h \<and> is_elem m n"
    by (auto simp: p_def n_def hd_append dest: last_in_set hd_in_set)
  show "p \<in> set (h # xs)" "n \<in> set (ys @ [h])" unfolding p_def n_def by (rule ends_in)+
  show "p = h \<longleftrightarrow> xs = []" "n = h \<longleftrightarrow> ys = []" using k(3) by (auto simp: p_def n_def hd_append dest: last_in_set hd_in_set)
qed

lemma CIRCLEQ_INSERT_HEAD_ok:
  assumes q: "circleq m h xs" and e: "is_elem m e" "e \<notin> set (h # xs)"
  shows "\<exists>m'. CIRCLEQ_INSERT_HEAD e h m = Some m' \<and> circleq m' h (e # xs) \<and> separate circleq m m' (set (e # h # xs)) \<and>
    is_elem m' = is_elem m"
proof -
  let ?f = "hd (xs @ [h])"
  have r: "ring (cq_nx m) (cq_pv m) h xs" and h: "is_head m h" using q by (simp_all add: circleq_def)
  note k = ends_kind(2, 4, 6) [of m h "[]" xs, unfolded append_Nil, OF q]
  obtain m1 where m1: "set_next e ?f m = Some m1" "cq_nx m1 = (cq_nx m)(e \<mapsto> ?f)" "cq_pv m1 = cq_pv m" "kinds m m1"
    using sets(3) [OF e(1)] by blast
  obtain m2 where m2: "set_prev e h m1 = Some m2" "cq_nx m2 = cq_nx m1" "cq_pv m2 = (cq_pv m)(e \<mapsto> h)" "kinds m m2"
    using sets(4) [of m1 e h] e(1) m1(3, 4) by (auto simp: kinds_def)
  have l: "get_last m2 h = Some (last (h # xs))" and f: "get_first m2 h = Some ?f" "get_first m h = Some ?f"
    using gets(1, 2) [of m2 h] gets(1) [of m h] h e(2) ring_first [OF r] ring_last [OF r] m1 m2
    by (auto simp: kinds_def)
  have "last (h # xs) = h \<longleftrightarrow> ?f = h" using ends_kind(5) [of m h xs "[]"] q k(3) by simp
  moreover obtain m3 where m3: "(if ?f = h then set_last h e m2 else set_prev ?f e m2) = Some m3" "cq_nx m3 = cq_nx m2"
      "cq_pv m3 = (cq_pv m2)(?f \<mapsto> e)" "kinds m m3"
    using set_to_prev [of ?f h m2 e] k(1) m2(4) by (auto simp: kinds_def)
  moreover obtain m4 where m4: "set_first h e m3 = Some m4" "cq_nx m4 = (cq_nx m3)(h \<mapsto> e)" "cq_pv m4 = cq_pv m3" "kinds m m4"
    using sets(1) [of m3 h e] h m3(4) by (auto simp: kinds_def)
  ultimately have run: "CIRCLEQ_INSERT_HEAD e h m = Some m4"
    using m1(1) m2(1) l f by (auto simp: CIRCLEQ_INSERT_HEAD_def)
  have links: "cq_nx m4 = (cq_nx m)(h \<mapsto> e, e \<mapsto> ?f)" "cq_pv m4 = (cq_pv m)(e \<mapsto> h, ?f \<mapsto> e)"
    using m1 m2 m3 m4 e(2) by (auto simp: fun_upd_twist)
  have "ring (cq_nx m4) (cq_pv m4) h (e # xs)" using ring_insert [of _ _ h "[]" xs e] r e(2) by (simp add: links)
  then have "circleq m4 h (e # xs)" using q e(1) m4(4) by (simp add: circleq_def kinds_def)
  moreover have "separate circleq m m4 (set (e # h # xs))"
    using k(2) m4(4) by (intro circleq_separate) (auto simp: links)
  ultimately show ?thesis using run m4(4) by (auto simp: kinds_def)
qed

lemma CIRCLEQ_INSERT_TAIL_ok:
  assumes q: "circleq m h xs" and e: "is_elem m e" "e \<notin> set (h # xs)"
  shows "\<exists>m'. CIRCLEQ_INSERT_TAIL e h m = Some m' \<and> circleq m' h (xs @ [e]) \<and> separate circleq m m' (set (e # h # xs)) \<and>
    is_elem m' = is_elem m"
proof -
  let ?l = "last (h # xs)"
  have r: "ring (cq_nx m) (cq_pv m) h xs" and h: "is_head m h" using q by (simp_all add: circleq_def)
  note k = ends_kind [of m h xs "[]", simplified append_Nil2, OF q]
  obtain m1 where m1: "set_next e h m = Some m1" "cq_nx m1 = (cq_nx m)(e \<mapsto> h)" "cq_pv m1 = cq_pv m" "kinds m m1"
    using sets(3) [OF e(1)] by blast
  obtain m2 where m2: "set_prev e ?l m1 = Some m2" "cq_nx m2 = cq_nx m1" "cq_pv m2 = (cq_pv m)(e \<mapsto> ?l)" "kinds m m2"
    using sets(4) [of m1 e ?l] e(1) m1(3, 4) by (auto simp: kinds_def)
  have l: "get_last m1 h = Some ?l" "get_last m2 h = Some ?l" and f: "get_first m2 h = Some (hd (xs @ [h]))"
    using gets(1, 2) [of m2 h] gets(2) [of m1 h] h e(2) ring_first [OF r] ring_last [OF r] m1 m2
    by (auto simp: kinds_def)
  have "hd (xs @ [h]) = h \<longleftrightarrow> ?l = h" using ends_kind(6) [of m h "[]" xs] q k(5) by simp
  moreover obtain m3 where m3: "(if ?l = h then set_first h e m2 else set_next ?l e m2) = Some m3" "cq_pv m3 = cq_pv m2"
      "cq_nx m3 = (cq_nx m2)(?l \<mapsto> e)" "kinds m m3"
    using set_to_next [of ?l h m2 e] k(1) m2(4) by (auto simp: kinds_def)
  moreover obtain m4 where m4: "set_last h e m3 = Some m4" "cq_pv m4 = (cq_pv m3)(h \<mapsto> e)" "cq_nx m4 = cq_nx m3" "kinds m m4"
    using sets(2) [of m3 h e] h m3(4) by (auto simp: kinds_def)
  ultimately have run: "CIRCLEQ_INSERT_TAIL e h m = Some m4"
    using m1(1) m2(1) l f by (auto simp: CIRCLEQ_INSERT_TAIL_def)
  have links: "cq_nx m4 = (cq_nx m)(?l \<mapsto> e, e \<mapsto> h)" "cq_pv m4 = (cq_pv m)(e \<mapsto> ?l, h \<mapsto> e)"
    using m1 m2 m3 m4 e(2) k(3) by (auto simp: fun_upd_twist simp del: last.simps)
  have "ring (cq_nx m4) (cq_pv m4) h (xs @ [e])" using ring_insert [of _ _ h xs "[]" e] r e(2) by (simp add: links)
  then have "circleq m4 h (xs @ [e])" using q e(1) m4(4) by (auto simp: circleq_def kinds_def)
  moreover have "separate circleq m m4 (set (e # h # xs))"
    using k(3) m4(4) by (intro circleq_separate) (auto simp: links simp del: last.simps)
  ultimately show ?thesis using run m4(4) by (auto simp: kinds_def)
qed

lemma CIRCLEQ_REMOVE_ok:
  assumes q: "circleq m h (xs @ e # ys)"
  shows "\<exists>m'. CIRCLEQ_REMOVE e h m = Some m' \<and> circleq m' h (xs @ ys) \<and> separate circleq m m' (set (h # xs @ e # ys)) \<and>
    is_elem m' = is_elem m"
proof -
  let ?p = "last (h # xs)" and ?n = "hd (ys @ [h])"
  have r: "ring (cq_nx m) (cq_pv m) h (xs @ e # ys)" and e: "is_elem m e" "e \<notin> set (h # xs @ ys)"
    using q by (auto simp: circleq_def ring_def)
  note kp = ends_kind(1, 3) [of m h xs "e # ys", OF q] and kn = ends_kind(2, 4) [of m h "xs @ [e]" ys, simplified append.assoc, simplified, OF q]
  obtain m1 where m1: "(if ?n = h then set_last h ?p m else set_prev ?n ?p m) = Some m1" "cq_nx m1 = cq_nx m"
      "cq_pv m1 = (cq_pv m)(?n \<mapsto> ?p)" "kinds m m1"
    using set_to_prev [of ?n h m ?p] kn(1) by auto
  have g: "get_next m e = Some ?n" "get_prev m e = Some ?p" "get_next m1 e = Some ?n" "get_prev m1 e = Some ?p"
    using gets(3, 4) [of m e] gets(3, 4) [of m1 e] e kn(2) ring_elem [OF r] m1 by (auto simp: kinds_def)
  obtain m2 where m2: "(if ?p = h then set_first h ?n m1 else set_next ?p ?n m1) = Some m2" "cq_nx m2 = (cq_nx m)(?p \<mapsto> ?n)"
      "cq_pv m2 = cq_pv m1" "kinds m m2"
    using set_to_next [of ?p h m1 ?n] kp(1) m1 by (auto simp: kinds_def)
  have run: "CIRCLEQ_REMOVE e h m = Some m2" using g m1(1) m2(1) by (simp add: CIRCLEQ_REMOVE_def del: last.simps)
  have "ring (cq_nx m2) (cq_pv m2) h (xs @ ys)" using ring_remove [OF r] by (simp add: m1 m2)
  then have "circleq m2 h (xs @ ys)" using q m2(4) by (simp add: circleq_def kinds_def)
  moreover have "separate circleq m m2 (set (h # xs @ e # ys))"
    using kp(2) kn(2) m1 m2 by (intro circleq_separate) (auto simp del: last.simps)
  ultimately show ?thesis using run m2(4) by (auto simp: kinds_def)
qed

interpretation cq: deque circleq is_elem CIRCLEQ_INSERT_HEAD CIRCLEQ_INSERT_TAIL CIRCLEQ_REMOVE
  using CIRCLEQ_INSERT_HEAD_ok CIRCLEQ_INSERT_TAIL_ok CIRCLEQ_REMOVE_ok
  by unfold_locales (auto simp: circleq_def ring_def)


lemma walk_from_eq:
  assumes "circleq m h (xs @ ys)" "length ys < fuel"
  shows "walk_from fuel m h (hd (ys @ [h])) = Some ys"
  using assms
proof (induction ys arbitrary: xs fuel)
  case Nil
  then show ?case by (cases fuel) auto
next
  case (Cons y ys)
  then obtain f where f: "fuel = Suc f" "length ys < f" by (cases fuel) auto
  have r: "ring (cq_nx m) (cq_pv m) h (xs @ y # ys)" and y: "y \<noteq> h" "is_elem m y"
    using Cons.prems(1) by (auto simp: circleq_def ring_def)
  have "get_next m y = Some (hd (ys @ [h]))" using gets(3) [OF y(2)] ring_elem(1) [OF r] by simp
  moreover have "walk_from f m h (hd (ys @ [h])) = Some ys" using Cons.IH [of "xs @ [y]" f] Cons.prems(1) f(2) by simp
  ultimately show ?case using y(1) f(1) by simp
qed

lemma CIRCLEQ_INIT_ok:
  assumes "is_head m h"
  shows "\<exists>m'. CIRCLEQ_INIT h m = Some m' \<and> circleq m' h [] \<and> is_elem m' = is_elem m"
proof -
  obtain m1 where m1: "set_first h h m = Some m1" "cq_nx m1 = (cq_nx m)(h \<mapsto> h)" "cq_pv m1 = cq_pv m" "kinds m m1"
    using sets(1) [OF assms] by blast
  obtain m2 where m2: "set_last h h m1 = Some m2" "cq_nx m2 = cq_nx m1" "cq_pv m2 = (cq_pv m1)(h \<mapsto> h)" "kinds m1 m2"
    using sets(2) [of m1 h h] assms m1(4) by (auto simp: kinds_def)
  then show ?thesis using m1 assms by (auto simp: CIRCLEQ_INIT_def circleq_def kinds_def)
qed

section \<open>Properties\<close>

text \<open>
  C14. The macros are the list operations the page cache is modelled with: on a queue with the
  elements \<open>xs\<close> the insertions put a new element in front of or behind them, the removal of an
  element followed by its insertion at the tail, as \<^verbatim>\<open>mpool_get\<close> does it, leaves the others in
  order with this one behind them, the loop over the queue visits the elements in order, no
  access goes through the address of a head as that of an element, and the queues
  that share no element with this one stay as they are.
\<close>

theorem circleq_refines:
  assumes q: "circleq m h xs"
  shows "(is_elem m e \<and> e \<notin> set (h # xs) \<longrightarrow>
      (\<exists>m'. CIRCLEQ_INSERT_HEAD e h m = Some m' \<and> circleq m' h (insert_head xs e) \<and> separate circleq m m' (set (e # h # xs))) \<and>
      (\<exists>m'. CIRCLEQ_INSERT_TAIL e h m = Some m' \<and> circleq m' h (insert_tail xs e) \<and> separate circleq m m' (set (e # h # xs)))) \<and>
    (e \<in> set xs \<longrightarrow>
      (\<exists>m1 m2. CIRCLEQ_REMOVE e h m = Some m1 \<and> circleq m1 h (remove_elem xs e) \<and> CIRCLEQ_INSERT_TAIL e h m1 = Some m2 \<and>
         circleq m2 h (insert_tail (remove_elem xs e) e) \<and> separate circleq m m2 (set (h # xs)))) \<and>
    (\<forall>fuel > length xs. walk fuel m h = Some xs)"
proof -
  have "get_first m h = Some (hd (xs @ [h]))"
    using q gets(1) [of m h] ring_first [of "cq_nx m" "cq_pv m" h xs] by (simp add: circleq_def)
  then have w: "\<forall>fuel > length xs. walk fuel m h = Some xs"
    using walk_from_eq [of m h "[]" xs] q by (simp add: walk_def)
  have "\<exists>m1. CIRCLEQ_REMOVE e h m = Some m1 \<and> circleq m1 h (remove_elem xs e)" if e: "e \<in> set xs"
  proof -
    obtain us vs where xs: "xs = us @ e # vs" "e \<notin> set us" using split_list_first [OF e] by blast
    then show ?thesis using cq.del_law [of m h us e vs] q by (auto simp: remove_elem_def remove1_append)
  qed
  moreover have "\<exists>m1 m2. CIRCLEQ_REMOVE e h m = Some m1 \<and> CIRCLEQ_INSERT_TAIL e h m1 = Some m2 \<and>
      circleq m2 h (insert_tail (remove_elem xs e) e) \<and> separate circleq m m2 (set (h # xs))" if "e \<in> set xs"
    using cq.touch [OF q that] by (simp add: queue_defs)
  ultimately show ?thesis
    using w cq.add_law [OF q, of e] cq.add_tail_law [OF q, of e] by (auto simp: insert_head_def insert_tail_def)
qed

definition sample_queue :: cqmem where
  "sample_queue = \<lparr>cq_heads = [100 \<mapsto> \<lparr>cqh_first = 1, cqh_last = 2\<rparr>],
     cq_elems = [1 \<mapsto> \<lparr>cqe_next = 2, cqe_prev = 100\<rparr>, 2 \<mapsto> \<lparr>cqe_next = 100, cqe_prev = 1\<rparr>, 3 \<mapsto> \<lparr>cqe_next = 0, cqe_prev = 0\<rparr>]\<rparr>"

theorem circleq_refines_witness:
  "\<exists>m'. CIRCLEQ_INSERT_HEAD 3 100 sample_queue = Some m' \<and> circleq m' 100 [3, 1, 2]"
proof -
  have "circleq sample_queue 100 [1, 2]" "is_elem sample_queue 3"
    by (simp_all add: circleq_def ring_def cq_nx_def cq_pv_def is_head_def is_elem_def get_next_def get_prev_def sample_queue_def)
  then show ?thesis using circleq_refines [of sample_queue 100 "[1, 2]" 3] by (auto simp: insert_head_def)
qed

end
