(* ===== verification/Mpool.thy ===== *)
theory Mpool
  imports Circleq
begin

text \<open>
  The page cache of the database, \<^verbatim>\<open>db.1.85/mpool.c\<close>: pages of a file in buckets that are
  threaded on an LRU queue and on hash chains. A bucket is known by its address, and the
  page pointer the callers hold by the bucket's. The queues of \<^verbatim>\<open>queue.h\<close> are lists from
  the first to the last element.
\<close>

section \<open>The pool\<close>

record bkt =
  b_page :: "u8 list"
  b_pgno :: nat
  b_dirty :: bool
  b_pinned :: bool

record mpool =
  lqh :: "nat list"
  hqh :: "nat list list"
  bkts :: "nat \<Rightarrow> bkt"
  fresh :: nat
  curcache :: nat
  maxcache :: nat
  npages :: nat
  pagesize :: nat
  pgin :: "(nat \<Rightarrow> u8 list \<Rightarrow> u8 list) option"
  pgout :: "(nat \<Rightarrow> u8 list \<Rightarrow> u8 list) option"
  disk :: "u8 list"

abbreviation (input) HASHSIZE :: nat where "HASHSIZE \<equiv> 128"
abbreviation (input) MAX_PAGE_NUMBER :: nat where "MAX_PAGE_NUMBER \<equiv> 2 ^ 32 - 1"
abbreviation (input) ESPIPE :: int where "ESPIPE \<equiv> 29"
abbreviation (input) EFTYPE :: int where "EFTYPE \<equiv> 22"

text \<open>Page numbers are 32 bit, so that page 0 hashes like page \<open>2 ^ 32\<close>.\<close>

definition HASHKEY :: "nat \<Rightarrow> nat" where
  "HASHKEY pgno = (pgno + (2 ^ 32 - 1)) mod 2 ^ 32 mod HASHSIZE"

text \<open>
  What the system calls do: whether \<^verbatim>\<open>calloc\<close> finds memory, whether \<^verbatim>\<open>lseek\<close> arrives, the
  result of \<^verbatim>\<open>write\<close> for a page (an error or a count), whether \<^verbatim>\<open>read\<close> fails, the result of
  \<^verbatim>\<open>fsync\<close>, and the error number they leave.
\<close>

record io =
  calloc_ok :: bool
  lseek_ok :: bool
  write_count :: "nat \<Rightarrow> nat option"
  read_ok :: bool
  fsync_ok :: bool
  io_errno :: int

definition file_write :: "u8 list \<Rightarrow> nat \<Rightarrow> u8 list \<Rightarrow> u8 list" where
  "file_write f off bs = take off (f @ replicate (off - length f) 0) @ bs @ drop (off + length bs) f"

definition set_bkt :: "nat \<Rightarrow> (bkt \<Rightarrow> bkt) \<Rightarrow> mpool \<Rightarrow> mpool" where
  "set_bkt b f mp = mp\<lparr>bkts := (bkts mp)(b := f (bkts mp b))\<rparr>"

lemma set_bkt_sel [simp]:
  "lqh (set_bkt b f mp) = lqh mp" "hqh (set_bkt b f mp) = hqh mp" "fresh (set_bkt b f mp) = fresh mp"
  "curcache (set_bkt b f mp) = curcache mp" "maxcache (set_bkt b f mp) = maxcache mp"
  "npages (set_bkt b f mp) = npages mp" "pagesize (set_bkt b f mp) = pagesize mp" "pgin (set_bkt b f mp) = pgin mp"
  "pgout (set_bkt b f mp) = pgout mp" "disk (set_bkt b f mp) = disk mp"
  "bkts (set_bkt b f mp) c = (if c = b then f (bkts mp b) else bkts mp c)"
  by (simp_all add: set_bkt_def)

section \<open>The queues\<close>

text \<open>
  On the lists of their elements: \<^verbatim>\<open>CIRCLEQ_INSERT_HEAD\<close> is \<open>insert_head\<close>, \<^verbatim>\<open>CIRCLEQ_INSERT_TAIL\<close> is
  \<open>insert_tail\<close> and \<^verbatim>\<open>CIRCLEQ_REMOVE\<close> is \<open>remove_elem\<close>.
\<close>

definition hash_insert :: "nat \<Rightarrow> mpool \<Rightarrow> mpool" where
  "hash_insert b mp =
     (let h = HASHKEY (b_pgno (bkts mp b)) in mp\<lparr>hqh := (hqh mp)[h := insert_head (hqh mp ! h) b]\<rparr>)"

definition hash_remove :: "nat \<Rightarrow> mpool \<Rightarrow> mpool" where
  "hash_remove b mp =
     (let h = HASHKEY (b_pgno (bkts mp b)) in mp\<lparr>hqh := (hqh mp)[h := remove_elem (hqh mp ! h) b]\<rparr>)"

definition lru_insert :: "nat \<Rightarrow> mpool \<Rightarrow> mpool" where
  "lru_insert b mp = mp\<lparr>lqh := insert_tail (lqh mp) b\<rparr>"

definition lru_remove :: "nat \<Rightarrow> mpool \<Rightarrow> mpool" where
  "lru_remove b mp = mp\<lparr>lqh := remove_elem (lqh mp) b\<rparr>"

section \<open>The operations\<close>

text \<open>
  The argument \<open>st\<close> is the result of \<^verbatim>\<open>fstat\<close>: an error, or whether the file is regular; its
  size is that of the contents.
\<close>

definition mpool_open :: "io \<Rightarrow> bool option \<Rightarrow> u8 list \<Rightarrow> nat \<Rightarrow> nat \<Rightarrow> int + mpool" where
  "mpool_open io st contents psize mcache =
     (case st of
        None \<Rightarrow> Inl (io_errno io)
      | Some regular \<Rightarrow>
          if \<not> regular then Inl ESPIPE
          else if \<not> calloc_ok io then Inl (io_errno io)
          else Inr \<lparr>lqh = [], hqh = replicate HASHSIZE [],
                    bkts = (\<lambda>b. \<lparr>b_page = [], b_pgno = 0, b_dirty = False, b_pinned = False\<rparr>), fresh = 0,
                    curcache = 0, maxcache = mcache, npages = length contents div psize mod 2 ^ 32, pagesize = psize,
                    pgin = None, pgout = None, disk = contents\<rparr>)"

definition mpool_filter ::
  "mpool \<Rightarrow> (nat \<Rightarrow> u8 list \<Rightarrow> u8 list) option \<Rightarrow> (nat \<Rightarrow> u8 list \<Rightarrow> u8 list) option \<Rightarrow> mpool" where
  "mpool_filter mp inn out = mp\<lparr>pgin := inn, pgout := out\<rparr>"

text \<open>Success, and the pool; a short or failed write leaves what it wrote in the file.\<close>

definition mpool_write :: "io \<Rightarrow> mpool \<Rightarrow> nat \<Rightarrow> bool \<times> mpool" where
  "mpool_write io mp b =
     (let pgno = b_pgno (bkts mp b);
          mp = (case pgout mp of
                  None \<Rightarrow> mp
                | Some f \<Rightarrow> set_bkt b (\<lambda>bp. bp\<lparr>b_page := f pgno (b_page bp)\<rparr>) mp);
          off = pagesize mp * pgno
      in if \<not> lseek_ok io then (False, mp)
         else case write_count io pgno of
                None \<Rightarrow> (False, mp)
              | Some k \<Rightarrow>
                  let mp = mp\<lparr>disk := file_write (disk mp) off (take k (b_page (bkts mp b)))\<rparr>
                  in if k \<noteq> pagesize mp then (False, mp)
                     else (True, set_bkt b (\<lambda>bp. bp\<lparr>b_dirty := False\<rparr>) mp))"

definition mpool_look :: "mpool \<Rightarrow> nat \<Rightarrow> nat option" where
  "mpool_look mp pgno = find (\<lambda>b. b_pgno (bkts mp b) = pgno) (hqh mp ! HASHKEY pgno)"

definition new_bkt :: "io \<Rightarrow> mpool \<Rightarrow> nat option \<times> mpool" where
  "new_bkt io mp =
     (if \<not> calloc_ok io then (None, mp)
      else (Some (fresh mp),
            mp\<lparr>bkts := (bkts mp)(fresh mp :=
                 \<lparr>b_page = replicate (pagesize mp) 0, b_pgno = 0, b_dirty = False, b_pinned = False\<rparr>),
               fresh := fresh mp + 1, curcache := curcache mp + 1\<rparr>))"

definition mpool_bkt :: "io \<Rightarrow> mpool \<Rightarrow> nat option \<times> mpool" where
  "mpool_bkt io mp =
     (if curcache mp < maxcache mp then new_bkt io mp
      else case find (\<lambda>b. \<not> b_pinned (bkts mp b)) (lqh mp) of
             None \<Rightarrow> new_bkt io mp
           | Some b \<Rightarrow>
               let (ok, mp) = (if b_dirty (bkts mp b) then mpool_write io mp b else (True, mp))
               in if \<not> ok then (None, mp)
                  else (Some b, lru_remove b (hash_remove b mp)))"

text \<open>The page and its number, or an error number.\<close>

definition mpool_new :: "io \<Rightarrow> mpool \<Rightarrow> (int + nat \<times> nat) \<times> mpool" where
  "mpool_new io mp =
     (if npages mp = MAX_PAGE_NUMBER then (Inl (io_errno io), mp)
      else case mpool_bkt io mp of
             (None, mp) \<Rightarrow> (Inl (io_errno io), mp)
           | (Some b, mp) \<Rightarrow>
               let pgno = npages mp;
                   mp = mp\<lparr>npages := npages mp + 1\<rparr>;
                   mp = set_bkt b (\<lambda>bp. bp\<lparr>b_pgno := pgno, b_dirty := False, b_pinned := True\<rparr>) mp
               in (Inr (b, pgno), lru_insert b (hash_insert b mp)))"

definition file_page :: "mpool \<Rightarrow> nat \<Rightarrow> u8 list option" where
  "file_page mp pgno =
     (let bs = take (pagesize mp) (drop (pagesize mp * pgno) (disk mp))
      in if length bs = pagesize mp then Some bs else None)"

definition mpool_get :: "io \<Rightarrow> mpool \<Rightarrow> nat \<Rightarrow> (int + nat) \<times> mpool" where
  "mpool_get io mp pgno =
     (if pgno \<ge> npages mp then (Inl EINVAL, mp)
      else case mpool_look mp pgno of
             Some b \<Rightarrow>
               let mp = hash_insert b (hash_remove b mp);
                   mp = lru_insert b (lru_remove b mp)
               in (Inr b, set_bkt b (\<lambda>bp. bp\<lparr>b_pinned := True\<rparr>) mp)
           | None \<Rightarrow>
               (case mpool_bkt io mp of
                  (None, mp) \<Rightarrow> (Inl (io_errno io), mp)
                | (Some b, mp) \<Rightarrow>
                    if \<not> lseek_ok io then (Inl (io_errno io), mp)
                    else if \<not> read_ok io then (Inl (io_errno io), mp)
                    else case file_page mp pgno of
                           None \<Rightarrow>
                             (let bs = take (pagesize mp) (drop (pagesize mp * pgno) (disk mp))
                              in (Inl EFTYPE, set_bkt b (\<lambda>bp. bp\<lparr>b_page := bs @ drop (length bs) (b_page bp)\<rparr>) mp))
                         | Some bs \<Rightarrow>
                             let mp = set_bkt b (\<lambda>bp. \<lparr>b_page = bs, b_pgno = pgno, b_dirty = False, b_pinned = True\<rparr>) mp;
                                 mp = lru_insert b (hash_insert b mp)
                             in (Inr b, case pgin mp of
                                          None \<Rightarrow> mp
                                        | Some f \<Rightarrow> set_bkt b (\<lambda>bp. bp\<lparr>b_page := f pgno (b_page bp)\<rparr>) mp)))"

definition mpool_put :: "mpool \<Rightarrow> nat \<Rightarrow> bool \<Rightarrow> mpool" where
  "mpool_put mp b dirty = set_bkt b (\<lambda>bp. bp\<lparr>b_pinned := False, b_dirty := b_dirty bp \<or> dirty\<rparr>) mp"

text \<open>The loop of \<^verbatim>\<open>mpool_sync\<close>; the writes do not change the queue it walks.\<close>

fun sync_loop :: "io \<Rightarrow> mpool \<Rightarrow> nat list \<Rightarrow> bool \<times> mpool" where
  "sync_loop io mp [] = (fsync_ok io, mp)"
| "sync_loop io mp (b # bs) =
     (let (ok, mp) = (if b_dirty (bkts mp b) then mpool_write io mp b else (True, mp))
      in if \<not> ok then (False, mp) else sync_loop io mp bs)"

definition mpool_sync :: "io \<Rightarrow> mpool \<Rightarrow> bool \<times> mpool" where
  "mpool_sync io mp = sync_loop io mp (lqh mp)"

text \<open>\<^verbatim>\<open>mpool_close\<close> frees the buckets of the LRU queue, in this order.\<close>

function close_loop :: "nat list \<Rightarrow> nat list \<Rightarrow> nat list" where
  "close_loop freed [] = freed"
| "close_loop freed (b # q) = close_loop (freed @ [b]) (remove_elem (b # q) b)"
  by pat_completeness auto
termination
  by (relation "measure (\<lambda>(freed, q). length q)") (auto simp: remove_elem_def)

definition mpool_close :: "mpool \<Rightarrow> nat list" where
  "mpool_close mp = close_loop [] (lqh mp)"

text \<open>A client that holds a page stores into it.\<close>

definition page_store :: "mpool \<Rightarrow> nat \<Rightarrow> u8 list \<Rightarrow> mpool" where
  "page_store mp b bs = set_bkt b (\<lambda>bp. bp\<lparr>b_page := bs\<rparr>) mp"

section \<open>The invariant\<close>

lemma HASHKEY_less [simp]: "HASHKEY p < 128"
  by (simp add: HASHKEY_def)

text \<open>
  The buckets of the LRU queue are distinct, hold whole pages with different numbers, and
  each is on the hash chain of its page and on no other; a page that is neither pinned nor
  dirty is a copy of the page in the file.
\<close>

definition threaded :: "mpool \<Rightarrow> bool" where
  "threaded mp \<longleftrightarrow> distinct (lqh mp) \<and> inj_on (\<lambda>b. b_pgno (bkts mp b)) (set (lqh mp)) \<and>
     (\<forall>b \<in> set (lqh mp). b < fresh mp \<and> b_pgno (bkts mp b) < npages mp \<and> length (b_page (bkts mp b)) = pagesize mp) \<and>
     length (hqh mp) = 128 \<and>
     (\<forall>h < 128. distinct (hqh mp ! h) \<and> set (hqh mp ! h) = {b \<in> set (lqh mp). HASHKEY (b_pgno (bkts mp b)) = h})"

definition clean :: "mpool \<Rightarrow> bool" where
  "clean mp \<longleftrightarrow> (\<forall>b \<in> set (lqh mp). \<not> b_pinned (bkts mp b) \<and> \<not> b_dirty (bkts mp b) \<longrightarrow>
     file_page mp (b_pgno (bkts mp b)) = Some (b_page (bkts mp b)))"

definition unfiltered :: "mpool \<Rightarrow> bool" where
  "unfiltered mp \<longleftrightarrow> pgin mp = None \<and> pgout mp = None"

definition pool_ok :: "mpool \<Rightarrow> bool" where
  "pool_ok mp \<longleftrightarrow> threaded mp \<and> clean mp \<and> unfiltered mp \<and> 0 < pagesize mp"

text \<open>The contents the pool stands for: the cached page, or else the one in the file.\<close>

definition page_of :: "mpool \<Rightarrow> nat \<Rightarrow> u8 list option" where
  "page_of mp p =
     (case find (\<lambda>b. b_pgno (bkts mp b) = p) (lqh mp) of
        Some b \<Rightarrow> Some (b_page (bkts mp b))
      | None \<Rightarrow> file_page mp p)"

lemma page_of_cached:
  assumes "threaded mp" "b \<in> set (lqh mp)"
  shows "page_of mp (b_pgno (bkts mp b)) = Some (b_page (bkts mp b))"
proof -
  have "find (\<lambda>c. b_pgno (bkts mp c) = b_pgno (bkts mp b)) (lqh mp) = Some c \<Longrightarrow> c = b" for c
    using assms by (auto simp: find_Some_iff threaded_def inj_on_def)
  moreover have "find (\<lambda>c. b_pgno (bkts mp c) = b_pgno (bkts mp b)) (lqh mp) \<noteq> None"
    using assms(2) by (auto simp: find_None_iff)
  ultimately show ?thesis unfolding page_of_def by (auto split: option.split)
qed

lemma page_of_uncached:
  "(\<And>b. b \<in> set (lqh mp) \<Longrightarrow> b_pgno (bkts mp b) \<noteq> p) \<Longrightarrow> page_of mp p = file_page mp p"
  by (auto simp: page_of_def find_None_iff [THEN iffD2])

lemma page_of_eqI:
  assumes "threaded mp" and "\<And>b. b \<in> set (lqh mp) \<Longrightarrow> b_pgno (bkts mp b) = p \<Longrightarrow> P (Some (b_page (bkts mp b)))"
    and "(\<And>b. b \<in> set (lqh mp) \<Longrightarrow> b_pgno (bkts mp b) \<noteq> p) \<Longrightarrow> P (file_page mp p)"
  shows "P (page_of mp p)"
  using assms page_of_cached [OF assms(1)] page_of_uncached [of mp p] by metis

lemma mpool_look_eq:
  assumes "threaded mp"
  shows "mpool_look mp p = Some b \<longleftrightarrow> b \<in> set (lqh mp) \<and> b_pgno (bkts mp b) = p"
    and "mpool_look mp p = None \<longleftrightarrow> (\<forall>b \<in> set (lqh mp). b_pgno (bkts mp b) \<noteq> p)"
proof -
  have h: "set (hqh mp ! HASHKEY p) = {b \<in> set (lqh mp). HASHKEY (b_pgno (bkts mp b)) = HASHKEY p}"
    using assms by (simp add: threaded_def)
  show none: "mpool_look mp p = None \<longleftrightarrow> (\<forall>b \<in> set (lqh mp). b_pgno (bkts mp b) \<noteq> p)"
    using h by (auto simp: mpool_look_def find_None_iff)
  have "mpool_look mp p = Some c \<Longrightarrow> c \<in> set (hqh mp ! HASHKEY p) \<and> b_pgno (bkts mp c) = p" for c
    by (auto simp: mpool_look_def find_Some_iff)
  then have some: "mpool_look mp p = Some c \<Longrightarrow> c \<in> set (lqh mp) \<and> b_pgno (bkts mp c) = p" for c using h by auto
  moreover have "mpool_look mp p = Some b" if "b \<in> set (lqh mp)" "b_pgno (bkts mp b) = p"
  proof (cases "mpool_look mp p")
    case None
    with none that show ?thesis by auto
  next
    case (Some c)
    then have "c = b" using some [OF Some] that assms by (auto simp: threaded_def inj_on_def)
    with Some show ?thesis by simp
  qed
  ultimately show "mpool_look mp p = Some b \<longleftrightarrow> b \<in> set (lqh mp) \<and> b_pgno (bkts mp b) = p" by blast
qed

section \<open>Writing pages\<close>

lemma segment_write_same:
  "length bs = ps \<Longrightarrow> take ps (drop (ps * q) (file_write f (ps * q) bs)) = bs"
  by (simp add: file_write_def)

lemma segment_write_other:
  assumes "p \<noteq> q" "length bs \<le> ps" "length (take ps (drop (ps * p) f)) = ps"
  shows "take ps (drop (ps * p) (file_write f (ps * q) bs)) = take ps (drop (ps * p) f)"
proof (cases "p < q")
  case True
  let ?A = "take (ps * q) (f @ replicate (ps * q - length f) 0)"
  have le: "ps * p + ps \<le> ps * q" using True mult_le_mono2 [of "Suc p" q ps] by simp
  have len: "length ?A = ps * q" by simp
  have "take ps (drop (ps * p) (file_write f (ps * q) bs)) = take ps (drop (ps * p) ?A)"
    using le len by (simp add: file_write_def)
  also have "\<dots> = take ps (drop (ps * p) (f @ replicate (ps * q - length f) 0))"
    using le by (simp add: drop_take take_take)
  also have "\<dots> = take ps (drop (ps * p) f)" using assms(3) by simp
  finally show ?thesis .
next
  case False
  then have "ps * q + ps \<le> ps * p" using assms(1) mult_le_mono2 [of "Suc q" p ps] by simp
  moreover have "min (length f) (ps * q) + (ps * q - length f) = ps * q" by simp
  ultimately show ?thesis using assms(2) by (simp add: file_write_def)
qed

lemma file_page_Some:
  "file_page mp p = Some x \<longleftrightarrow> x = take (pagesize mp) (drop (pagesize mp * p) (disk mp)) \<and> length x = pagesize mp"
  by (auto simp: file_page_def Let_def)

lemma file_page_write:
  assumes "length bs \<le> pagesize mp" "p \<noteq> q" "file_page mp p = Some x"
  shows "file_page (mp\<lparr>disk := file_write (disk mp) (pagesize mp * q) bs\<rparr>) p = Some x"
proof -
  from assms(3) have x: "x = take (pagesize mp) (drop (pagesize mp * p) (disk mp))" "length x = pagesize mp"
    unfolding file_page_Some by blast+
  then have "length (take (pagesize mp) (drop (pagesize mp * p) (disk mp))) = pagesize mp" by blast
  from segment_write_other [OF assms(2, 1) this] show ?thesis using x by (simp add: file_page_Some del: length_take)
qed

text \<open>What stays when one bucket changes in the flags only, or a page of the file is rewritten.\<close>

definition same_threads :: "mpool \<Rightarrow> mpool \<Rightarrow> bool" where
  "same_threads mp mp' \<longleftrightarrow> lqh mp' = lqh mp \<and> hqh mp' = hqh mp \<and> fresh mp' = fresh mp \<and> npages mp' = npages mp \<and>
     pagesize mp' = pagesize mp \<and> maxcache mp' = maxcache mp \<and> curcache mp' = curcache mp \<and>
     pgin mp' = pgin mp \<and> pgout mp' = pgout mp \<and>
     (\<forall>b. b_pgno (bkts mp' b) = b_pgno (bkts mp b) \<and> b_page (bkts mp' b) = b_page (bkts mp b) \<and>
          b_pinned (bkts mp' b) = b_pinned (bkts mp b))"

lemma same_threads_threaded: "same_threads mp mp' \<Longrightarrow> threaded mp \<Longrightarrow> threaded mp'"
  by (simp add: same_threads_def threaded_def)

lemma write_effect:
  assumes ok: "threaded mp" "unfiltered mp" and b: "b \<in> set (lqh mp)" and w: "mpool_write io mp b = (r, mp')"
  shows "same_threads mp mp'"
    and "\<And>p x. p \<noteq> b_pgno (bkts mp b) \<Longrightarrow> file_page mp p = Some x \<Longrightarrow> file_page mp' p = Some x"
    and "\<And>c. c \<noteq> b \<Longrightarrow> b_dirty (bkts mp' c) = b_dirty (bkts mp c)"
    and "r \<Longrightarrow> \<not> b_dirty (bkts mp' b) \<and> file_page mp' (b_pgno (bkts mp b)) = Some (b_page (bkts mp b))"
    and "\<not> r \<Longrightarrow> b_dirty (bkts mp' b) = b_dirty (bkts mp b)"
proof -
  have len: "length (b_page (bkts mp b)) = pagesize mp" using ok b by (simp add: threaded_def)
  have out: "pgout mp = None" using ok by (simp add: unfiltered_def)
  note defs = mpool_write_def Let_def out set_bkt_def
  show "same_threads mp mp'" using w out
    by (auto simp: mpool_write_def Let_def set_bkt_def same_threads_def split: if_splits option.splits)
  show "file_page mp' p = Some x" if "p \<noteq> b_pgno (bkts mp b)" "file_page mp p = Some x" for p x
    using w that file_page_write [of "take _ (b_page (bkts mp b))" mp p "b_pgno (bkts mp b)" x]
      file_page_write [of "b_page (bkts mp b)" mp p "b_pgno (bkts mp b)" x] len
    by (auto simp: defs file_page_Some split: if_splits option.splits)
  show "b_dirty (bkts mp' c) = b_dirty (bkts mp c)" if "c \<noteq> b" for c
    using w that by (auto simp: defs split: if_splits option.splits)
  show "\<not> b_dirty (bkts mp' b) \<and> file_page mp' (b_pgno (bkts mp b)) = Some (b_page (bkts mp b))" if r
    using w that len segment_write_same [OF len, of "b_pgno (bkts mp b)" "disk mp"]
    by (auto simp: defs file_page_Some split: if_splits option.splits)
  show "b_dirty (bkts mp' b) = b_dirty (bkts mp b)" if "\<not> r"
    using w that by (auto simp: defs split: if_splits option.splits)
qed

lemma page_of_write:
  assumes "threaded mp" "unfiltered mp" "b \<in> set (lqh mp)" "mpool_write io mp b = (r, mp')" "page_of mp p = Some x"
  shows "page_of mp' p = Some x"
proof -
  note w = write_effect [OF assms(1-4)]
  have "threaded mp'" using same_threads_threaded [OF w(1) assms(1)] .
  then show ?thesis
  proof (rule page_of_eqI)
    fix c
    assume "c \<in> set (lqh mp')" "b_pgno (bkts mp' c) = p"
    then show "Some (b_page (bkts mp' c)) = Some x"
      using w(1) page_of_cached [OF assms(1), of c] assms(5) by (simp add: same_threads_def)
  next
    assume "\<And>c. c \<in> set (lqh mp') \<Longrightarrow> b_pgno (bkts mp' c) \<noteq> p"
    then have n: "\<And>c. c \<in> set (lqh mp) \<Longrightarrow> b_pgno (bkts mp c) \<noteq> p" using w(1) by (simp add: same_threads_def)
    then show "file_page mp' p = Some x"
      using page_of_uncached [of mp p] assms(5) w(2) [of p x] assms(3) by metis
  qed
qed

lemma clean_write:
  assumes "threaded mp" "unfiltered mp" "clean mp" "b \<in> set (lqh mp)" "b_dirty (bkts mp b)" "mpool_write io mp b = (r, mp')"
  shows "clean mp'"
  unfolding clean_def
proof (intro ballI impI)
  note w = write_effect [OF assms(1, 2, 4, 6)]
  fix c
  assume c: "c \<in> set (lqh mp')" "\<not> b_pinned (bkts mp' c) \<and> \<not> b_dirty (bkts mp' c)"
  have cm: "c \<in> set (lqh mp)" "\<not> b_pinned (bkts mp c)" "b_pgno (bkts mp' c) = b_pgno (bkts mp c)"
    "b_page (bkts mp' c) = b_page (bkts mp c)"
    using c w(1) by (simp_all add: same_threads_def)
  show "file_page mp' (b_pgno (bkts mp' c)) = Some (b_page (bkts mp' c))"
  proof (cases "c = b")
    case True
    then show ?thesis using c w(4, 5) assms(5) cm by (cases r) auto
  next
    case False
    then have "b_pgno (bkts mp c) \<noteq> b_pgno (bkts mp b)" using assms(1, 4) cm(1) by (auto simp: threaded_def inj_on_def)
    moreover have "file_page mp (b_pgno (bkts mp c)) = Some (b_page (bkts mp c))"
      using assms(3) cm c(2) w(3) [OF False] by (simp add: clean_def)
    ultimately show ?thesis using w(2) cm by simp
  qed
qed

section \<open>Threading and unthreading\<close>

lemma detach:
  assumes "threaded mp" "b \<in> set (lqh mp)"
  defines "mp' \<equiv> lru_remove b (hash_remove b mp)"
  shows "threaded mp'" "set (lqh mp') = set (lqh mp) - {b}" "bkts mp' = bkts mp" "disk mp' = disk mp" "fresh mp' = fresh mp"
    "npages mp' = npages mp" "pagesize mp' = pagesize mp" "maxcache mp' = maxcache mp" "curcache mp' = curcache mp"
    "pgin mp' = pgin mp" "pgout mp' = pgout mp"
proof -
  note defs = mp'_def lru_remove_def hash_remove_def Let_def queue_defs
  show fields: "set (lqh mp') = set (lqh mp) - {b}" "bkts mp' = bkts mp" "disk mp' = disk mp" "fresh mp' = fresh mp"
    "npages mp' = npages mp" "pagesize mp' = pagesize mp" "maxcache mp' = maxcache mp" "curcache mp' = curcache mp"
    "pgin mp' = pgin mp" "pgout mp' = pgout mp"
    using assms(1) by (auto simp: defs threaded_def)
  have "distinct (hqh mp' ! h) \<and> set (hqh mp' ! h) = {c \<in> set (lqh mp'). HASHKEY (b_pgno (bkts mp' c)) = h}" if "h < 128" for h
    using assms(1) that unfolding fields by (auto simp: defs threaded_def nth_list_update)
  then show "threaded mp'"
    using assms(1) by (auto simp: threaded_def fields inj_on_def) (simp_all add: defs)
qed

lemma attach:
  assumes "threaded mp" "b \<notin> set (lqh mp)" "b < fresh mp" "b_pgno (bkts mp b) < npages mp"
    "length (b_page (bkts mp b)) = pagesize mp" "\<And>c. c \<in> set (lqh mp) \<Longrightarrow> b_pgno (bkts mp c) \<noteq> b_pgno (bkts mp b)"
  defines "mp' \<equiv> lru_insert b (hash_insert b mp)"
  shows "threaded mp'" "set (lqh mp') = insert b (set (lqh mp))" "bkts mp' = bkts mp" "disk mp' = disk mp" "fresh mp' = fresh mp"
    "npages mp' = npages mp" "pagesize mp' = pagesize mp" "maxcache mp' = maxcache mp" "curcache mp' = curcache mp"
    "pgin mp' = pgin mp" "pgout mp' = pgout mp"
proof -
  note defs = mp'_def lru_insert_def hash_insert_def Let_def queue_defs
  show fields: "set (lqh mp') = insert b (set (lqh mp))" "bkts mp' = bkts mp" "disk mp' = disk mp" "fresh mp' = fresh mp"
    "npages mp' = npages mp" "pagesize mp' = pagesize mp" "maxcache mp' = maxcache mp" "curcache mp' = curcache mp"
    "pgin mp' = pgin mp" "pgout mp' = pgout mp"
    by (auto simp: defs)
  have "distinct (hqh mp' ! h) \<and> set (hqh mp' ! h) = {c \<in> set (lqh mp'). HASHKEY (b_pgno (bkts mp' c)) = h}" if "h < 128" for h
    using assms(1, 2) that unfolding fields by (auto simp: defs threaded_def nth_list_update)
  moreover have "distinct (lqh mp')" "length (hqh mp') = 128" using assms(1, 2) by (auto simp: defs threaded_def)
  moreover have "inj_on (\<lambda>c. b_pgno (bkts mp' c)) (set (lqh mp'))"
    unfolding fields using assms(1, 6) by (auto simp: threaded_def inj_on_def) (metis assms(6))+
  ultimately show "threaded mp'"
    using assms(1, 3-5) by (auto simp: threaded_def fields)
qed

section \<open>Getting a bucket\<close>

definition keeps :: "mpool \<Rightarrow> mpool \<Rightarrow> bool" where
  "keeps mp mp' \<longleftrightarrow> (\<forall>p x. page_of mp p = Some x \<longrightarrow> page_of mp' p = Some x)"

lemma keeps_refl [simp]: "keeps mp mp"
  by (simp add: keeps_def)

lemma keeps_trans: "keeps a b \<Longrightarrow> keeps b c \<Longrightarrow> keeps a c"
  by (simp add: keeps_def)

text \<open>Two pools with the same queue and the same pages in it, and the same file.\<close>

lemma same_pages:
  assumes "lqh mp' = lqh mp" "disk mp' = disk mp" "pagesize mp' = pagesize mp"
    "\<And>b. b \<in> set (lqh mp) \<Longrightarrow> b_pgno (bkts mp' b) = b_pgno (bkts mp b) \<and> b_page (bkts mp' b) = b_page (bkts mp b)"
  shows "page_of mp' = page_of mp"
proof
  fix p
  have "find (\<lambda>b. b_pgno (bkts mp' b) = p) (lqh mp) = find (\<lambda>b. b_pgno (bkts mp b) = p) (lqh mp)"
    using assms(4) by (intro find_cong) auto
  moreover have "b \<in> set (lqh mp)" if "find (\<lambda>b. b_pgno (bkts mp b) = p) (lqh mp) = Some b" for b
    using that by (auto simp: find_Some_iff)
  ultimately show "page_of mp' p = page_of mp p"
    using assms by (cases "find (\<lambda>b. b_pgno (bkts mp b) = p) (lqh mp)") (simp_all add: page_of_def file_page_def)
qed

lemma loose_bkt:
  assumes "pool_ok mp" "b \<notin> set (lqh mp)"
  shows "pool_ok (set_bkt b f mp)" "page_of (set_bkt b f mp) = page_of mp"
proof -
  have bk: "c \<in> set (lqh mp) \<Longrightarrow> bkts (set_bkt b f mp) c = bkts mp c" for c using assms(2) by (auto simp: set_bkt_def)
  have "threaded (set_bkt b f mp)"
    using assms unfolding pool_ok_def threaded_def by (auto simp: inj_on_def)
  moreover have "clean (set_bkt b f mp)"
    using assms(1) bk unfolding pool_ok_def clean_def by (auto simp: file_page_def)
  ultimately show "pool_ok (set_bkt b f mp)" using assms(1) by (simp add: pool_ok_def unfiltered_def set_bkt_def)
  show "page_of (set_bkt b f mp) = page_of mp" using bk by (intro same_pages) (auto simp: set_bkt_def)
qed

definition loose :: "mpool \<Rightarrow> nat \<Rightarrow> bool" where
  "loose mp b \<longleftrightarrow> b \<notin> set (lqh mp) \<and> b < fresh mp \<and> length (b_page (bkts mp b)) = pagesize mp"

definition bkt_post :: "mpool \<Rightarrow> nat option \<Rightarrow> mpool \<Rightarrow> bool" where
  "bkt_post mp r mp' \<longleftrightarrow> pool_ok mp' \<and> keeps mp mp' \<and> npages mp' = npages mp \<and> pagesize mp' = pagesize mp \<and>
     maxcache mp' = maxcache mp \<and> set (lqh mp') \<subseteq> set (lqh mp) \<and>
     (\<forall>c \<in> set (lqh mp'). b_pgno (bkts mp' c) = b_pgno (bkts mp c)) \<and>
     (\<forall>c \<in> set (lqh mp). b_pinned (bkts mp c) \<longrightarrow> c \<in> set (lqh mp') \<and> bkts mp' c = bkts mp c) \<and>
     (\<forall>b. r = Some b \<longrightarrow> loose mp' b)"

lemma new_bkt_post:
  assumes "pool_ok mp" "new_bkt io mp = (r, mp')"
  shows "bkt_post mp r mp'"
proof (cases "calloc_ok io")
  case True
  let ?n = "\<lparr>b_page = replicate (pagesize mp) 0, b_pgno = 0, b_dirty = False, b_pinned = False\<rparr>"
  let ?mp = "set_bkt (fresh mp) (\<lambda>_. ?n) mp"
  have new: "fresh mp \<notin> set (lqh mp)" using assms(1) by (auto simp: pool_ok_def threaded_def)
  have mp': "mp' = ?mp\<lparr>fresh := fresh mp + 1, curcache := curcache mp + 1\<rparr>" and r: "r = Some (fresh mp)"
    using True assms(2) by (auto simp: new_bkt_def set_bkt_def)
  have "pool_ok ?mp" "page_of ?mp = page_of mp" by (rule loose_bkt [OF assms(1) new])+
  moreover have "page_of mp' = page_of ?mp" unfolding mp' by (rule same_pages) auto
  moreover have "pool_ok ?mp \<Longrightarrow> pool_ok mp'"
    unfolding mp' pool_ok_def threaded_def clean_def unfiltered_def file_page_def by auto
  ultimately have "pool_ok mp'" "keeps mp mp'" by (simp_all add: keeps_def)
  moreover have "c \<in> set (lqh mp) \<Longrightarrow> bkts mp' c = bkts mp c" for c using new by (auto simp: mp' set_bkt_def)
  moreover have "loose mp' (fresh mp)" using new by (simp add: loose_def mp' set_bkt_def)
  ultimately show ?thesis by (auto simp: bkt_post_def r mp' set_bkt_def)
next
  case False
  then show ?thesis using assms by (auto simp: new_bkt_def bkt_post_def)
qed

lemma detach_post:
  assumes ok: "pool_ok mp" and b: "b \<in> set (lqh mp)" "\<not> b_pinned (bkts mp b)" "\<not> b_dirty (bkts mp b)"
  shows "bkt_post mp (Some b) (lru_remove b (hash_remove b mp))"
proof -
  let ?mp = "lru_remove b (hash_remove b mp)"
  have th: "threaded mp" using ok by (simp add: pool_ok_def)
  note d = detach [OF th b(1)]
  have fp: "file_page ?mp = file_page mp" by (simp add: file_page_def fun_eq_iff d)
  have "keeps mp ?mp"
    unfolding keeps_def
  proof (intro allI impI)
    fix p x
    assume x: "page_of mp p = Some x"
    show "page_of ?mp p = Some x"
    proof (rule page_of_eqI [OF d(1)])
      fix c
      assume "c \<in> set (lqh ?mp)" "b_pgno (bkts ?mp c) = p"
      then show "Some (b_page (bkts ?mp c)) = Some x" using page_of_cached [OF th, of c] x by (simp add: d)
    next
      assume none: "\<And>c. c \<in> set (lqh ?mp) \<Longrightarrow> b_pgno (bkts ?mp c) \<noteq> p"
      show "file_page ?mp p = Some x"
      proof (cases "b_pgno (bkts mp b) = p")
        case True
        then show ?thesis
          using ok b page_of_cached [OF th b(1)] x by (auto simp: fp pool_ok_def clean_def)
      next
        case False
        then have "page_of mp p = file_page mp p" using none by (intro page_of_uncached) (auto simp: d)
        then show ?thesis using x by (simp add: fp)
      qed
    qed
  qed
  moreover have "clean ?mp" using ok by (auto simp: clean_def pool_ok_def d fp)
  ultimately show ?thesis
    using ok th b d by (auto simp: bkt_post_def pool_ok_def unfiltered_def loose_def threaded_def)
qed

lemma mpool_bkt_post:
  assumes ok: "pool_ok mp" and r: "mpool_bkt io mp = (r, mp')"
  shows "bkt_post mp r mp'"
proof (cases "curcache mp < maxcache mp \<or> find (\<lambda>b. \<not> b_pinned (bkts mp b)) (lqh mp) = None")
  case True
  then show ?thesis using new_bkt_post [OF ok] r by (auto simp: mpool_bkt_def split: if_splits)
next
  case False
  then obtain b where f: "find (\<lambda>b. \<not> b_pinned (bkts mp b)) (lqh mp) = Some b" and cur: "\<not> curcache mp < maxcache mp" by auto
  then have b: "b \<in> set (lqh mp)" "\<not> b_pinned (bkts mp b)" by (auto simp: find_Some_iff)
  show ?thesis
  proof (cases "b_dirty (bkts mp b)")
    case dirty: True
    obtain w mp1 where w: "mpool_write io mp b = (w, mp1)" by fastforce
    have th: "threaded mp" "unfiltered mp" "clean mp" using ok by (simp_all add: pool_ok_def)
    note we = write_effect [OF th(1, 2) b(1) w]
    have st: "same_threads mp mp1" by (rule we(1))
    have ok1: "pool_ok mp1"
      using same_threads_threaded [OF st th(1)] clean_write [OF th b(1) dirty w] ok st
      by (auto simp: pool_ok_def unfiltered_def same_threads_def)
    have k1: "keeps mp mp1" using page_of_write [OF th(1, 2) b(1) w] by (simp add: keeps_def)
    have pin: "bkts mp1 c = bkts mp c" if "b_pinned (bkts mp c)" for c
      using st we(3) [of c] that b(2) by (cases "c = b") (auto simp: same_threads_def intro: bkt.equality)
    show ?thesis
    proof (cases w)
      case True
      then have "mp' = lru_remove b (hash_remove b mp1)" "r = Some b" using f cur dirty w r by (auto simp: mpool_bkt_def)
      moreover have "bkt_post mp1 (Some b) (lru_remove b (hash_remove b mp1))"
        using ok1 b st we(4) [OF True] by (intro detach_post) (auto simp: same_threads_def)
      ultimately show ?thesis
        using st k1 pin unfolding bkt_post_def same_threads_def by (auto intro: keeps_trans)
    next
      case False
      then have "mp' = mp1" "r = None" using f cur dirty w r by (auto simp: mpool_bkt_def)
      then show ?thesis using ok1 k1 st pin by (auto simp: bkt_post_def same_threads_def)
    qed
  next
    case False
    then have "mp' = lru_remove b (hash_remove b mp)" "r = Some b" using f cur r by (auto simp: mpool_bkt_def)
    then show ?thesis using detach_post [OF ok b False] by simp
  qed
qed

section \<open>The operations keep the invariant and the contents\<close>

lemma attach_post:
  assumes ok: "pool_ok mp" and b: "loose mp b" "b_pinned (bkts mp b)" "b_pgno (bkts mp b) < npages mp"
    and new: "\<And>c. c \<in> set (lqh mp) \<Longrightarrow> b_pgno (bkts mp c) \<noteq> b_pgno (bkts mp b)"
  defines "mp' \<equiv> lru_insert b (hash_insert b mp)"
  shows "pool_ok mp'" "\<And>p. page_of mp' p = (if p = b_pgno (bkts mp b) then Some (b_page (bkts mp b)) else page_of mp p)"
proof -
  have th: "threaded mp" using ok by (simp add: pool_ok_def)
  have l: "b \<notin> set (lqh mp)" "b < fresh mp" "length (b_page (bkts mp b)) = pagesize mp" using b(1) by (simp_all add: loose_def)
  note a = attach [OF th l(1, 2) b(3) l(3) new, folded mp'_def]
  have fp: "file_page mp' = file_page mp" by (simp add: file_page_def fun_eq_iff a)
  show "pool_ok mp'" using ok a b(2) by (auto simp: pool_ok_def clean_def unfiltered_def fp)
  show "page_of mp' p = (if p = b_pgno (bkts mp b) then Some (b_page (bkts mp b)) else page_of mp p)" for p
    by (rule page_of_eqI [OF a(1)])
      (use page_of_cached [OF th] page_of_uncached [of mp p] new in \<open>auto simp: a fp\<close>)
qed

definition get_post :: "mpool \<Rightarrow> nat \<Rightarrow> int + nat \<Rightarrow> mpool \<Rightarrow> bool" where
  "get_post mp p r mp' \<longleftrightarrow> pool_ok mp' \<and> keeps mp mp' \<and> npages mp' = npages mp \<and>
     (\<forall>c \<in> set (lqh mp). b_pinned (bkts mp c) \<longrightarrow> c \<in> set (lqh mp') \<and> bkts mp' c = bkts mp c) \<and>
     (\<forall>b. r = Inr b \<longrightarrow> p < npages mp \<and> b \<in> set (lqh mp') \<and> b_pgno (bkts mp' b) = p \<and> b_pinned (bkts mp' b) \<and>
        page_of mp' p = Some (b_page (bkts mp' b)))"

text \<open>Moving a bucket to the ends of its queues.\<close>

lemma requeue:
  assumes th: "threaded mp" and b: "b \<in> set (lqh mp)"
  defines "mp' \<equiv> lru_insert b (lru_remove b (hash_insert b (hash_remove b mp)))"
  shows "threaded mp'" "set (lqh mp') = set (lqh mp)" "bkts mp' = bkts mp" "disk mp' = disk mp" "fresh mp' = fresh mp"
    "npages mp' = npages mp" "pagesize mp' = pagesize mp" "maxcache mp' = maxcache mp" "curcache mp' = curcache mp"
    "pgin mp' = pgin mp" "pgout mp' = pgout mp"
proof -
  let ?d = "lru_remove b (hash_remove b mp)"
  have eq: "mp' = lru_insert b (hash_insert b ?d)"
    by (simp add: mp'_def lru_insert_def hash_insert_def lru_remove_def hash_remove_def Let_def)
  note d = detach [OF th b]
  have p: "b \<notin> set (lqh ?d)" "b < fresh ?d" "b_pgno (bkts ?d b) < npages ?d" "length (b_page (bkts ?d b)) = pagesize ?d"
    using th b by (simp_all add: d threaded_def)
  have new: "\<And>c. c \<in> set (lqh ?d) \<Longrightarrow> b_pgno (bkts ?d c) \<noteq> b_pgno (bkts ?d b)"
    using th b by (auto simp: d threaded_def inj_on_def)
  note a = attach [OF d(1) p new, folded eq]
  show "threaded mp'" by (rule a)
  show "set (lqh mp') = set (lqh mp)" using b a(2) d(2) by auto
  show "bkts mp' = bkts mp" "disk mp' = disk mp" "fresh mp' = fresh mp"
    "npages mp' = npages mp" "pagesize mp' = pagesize mp" "maxcache mp' = maxcache mp" "curcache mp' = curcache mp"
    "pgin mp' = pgin mp" "pgout mp' = pgout mp"
    by (simp_all add: mp'_def lru_insert_def hash_insert_def lru_remove_def hash_remove_def Let_def)
qed

lemma threaded_cong:
  assumes "threaded mp" "lqh mp' = lqh mp" "hqh mp' = hqh mp" "fresh mp' = fresh mp" "npages mp' = npages mp"
    "pagesize mp' = pagesize mp" "\<And>b. b_pgno (bkts mp' b) = b_pgno (bkts mp b)"
    "\<And>b. length (b_page (bkts mp' b)) = length (b_page (bkts mp b))"
  shows "threaded mp'"
  using assms by (simp add: threaded_def)

lemma pin_post:
  assumes ok: "pool_ok mp" and b: "b \<in> set (lqh mp)"
  defines "mp' \<equiv> set_bkt b (\<lambda>bp. bp\<lparr>b_pinned := True\<rparr>) mp"
  shows "pool_ok mp'" "page_of mp' = page_of mp"
proof -
  show "page_of mp' = page_of mp" unfolding mp'_def by (rule same_pages) auto
  have "threaded mp'" using ok by (intro threaded_cong [of mp mp']) (simp_all add: mp'_def pool_ok_def)
  moreover have "file_page mp' = file_page mp" by (simp add: mp'_def file_page_def fun_eq_iff)
  then have "clean mp'" using ok by (auto simp: mp'_def pool_ok_def clean_def)
  ultimately show "pool_ok mp'" using ok by (simp add: mp'_def pool_ok_def unfiltered_def)
qed

lemma mpool_get_hit:
  assumes ok: "pool_ok mp" and p: "p < npages mp" and look: "mpool_look mp p = Some b" and g: "mpool_get io mp p = (r, mp')"
  shows "get_post mp p r mp' \<and> r = Inr b"
proof -
  have th: "threaded mp" using ok by (simp add: pool_ok_def)
  have b: "b \<in> set (lqh mp)" "b_pgno (bkts mp b) = p" using look mpool_look_eq [OF th] by auto
  let ?mp = "lru_insert b (lru_remove b (hash_insert b (hash_remove b mp)))"
  have mp': "mp' = set_bkt b (\<lambda>bp. bp\<lparr>b_pinned := True\<rparr>) ?mp" and r: "r = Inr b"
    using p look g by (auto simp: mpool_get_def Let_def)
  note q = requeue [OF th b(1)]
  have fp: "file_page ?mp = file_page mp" by (simp add: file_page_def fun_eq_iff q)
  have ok': "pool_ok ?mp" using ok by (auto simp: pool_ok_def clean_def unfiltered_def q fp)
  have "page_of ?mp x = page_of mp x" for x
    by (rule page_of_eqI [OF q(1)]) (use page_of_cached [OF th] page_of_uncached [of mp x] in \<open>auto simp: q fp\<close>)
  then have pages: "page_of ?mp = page_of mp" by auto
  have "b \<in> set (lqh ?mp)" using b q by simp
  note pp = pin_post [OF ok' this, folded mp']
  have "bkts mp' c = bkts mp c" if "b_pinned (bkts mp c)" for c
    using that by (auto simp: mp' q intro: bkt.equality)
  then show ?thesis
    using pp p b pages page_of_cached [OF th b(1)] r by (simp add: get_post_def keeps_def mp' q)
qed

lemma mpool_get_miss:
  assumes ok: "pool_ok mp" and p: "p < npages mp" and look: "mpool_look mp p = None" and g: "mpool_get io mp p = (r, mp')"
  shows "get_post mp p r mp'"
proof -
  have th: "threaded mp" using ok by (simp add: pool_ok_def)
  have un: "\<And>c. c \<in> set (lqh mp) \<Longrightarrow> b_pgno (bkts mp c) \<noteq> p" using mpool_look_eq(2) [OF th] look by auto
  obtain q mp1 where q: "mpool_bkt io mp = (q, mp1)" by fastforce
  have post: "bkt_post mp q mp1" by (rule mpool_bkt_post [OF ok q])
  then have p1: "pool_ok mp1" "keeps mp mp1" "npages mp1 = npages mp" by (simp_all add: bkt_post_def)
  have pin: "c \<in> set (lqh mp1) \<and> bkts mp1 c = bkts mp c" if "c \<in> set (lqh mp)" "b_pinned (bkts mp c)" for c
    using post that by (simp add: bkt_post_def)
  show ?thesis
  proof (cases q)
    case None
    then show ?thesis using g p look q p1 pin by (auto simp: mpool_get_def get_post_def)
  next
    case (Some b)
    then have lb: "loose mp1 b" using post by (simp add: bkt_post_def)
    have un1: "\<And>c. c \<in> set (lqh mp1) \<Longrightarrow> b_pgno (bkts mp1 c) \<noteq> p" using post un by (auto simp: bkt_post_def)
    have loose1: "pool_ok (set_bkt b f mp1)" "page_of (set_bkt b f mp1) = page_of mp1" for f
      using loose_bkt [OF p1(1)] lb by (auto simp: loose_def)
    show ?thesis
    proof (cases "lseek_ok io \<and> read_ok io \<and> file_page mp1 p \<noteq> None")
      case False
      then have "mp' = mp1 \<or> (\<exists>f. mp' = set_bkt b f mp1)" "\<And>x. r \<noteq> Inr x"
        using g p look q Some by (auto simp: mpool_get_def Let_def split: if_splits)
      moreover have "c \<noteq> b" if "c \<in> set (lqh mp1)" for c using that lb by (auto simp: loose_def)
      ultimately show ?thesis using p1 loose1 pin by (auto simp: get_post_def keeps_def)
    next
      case True
      then obtain bs where bs: "file_page mp1 p = Some bs" by auto
      let ?m = "set_bkt b (\<lambda>bp. \<lparr>b_page = bs, b_pgno = p, b_dirty = False, b_pinned = True\<rparr>) mp1"
      have "pgin mp1 = None" using p1(1) by (simp add: pool_ok_def unfiltered_def)
      then have mp': "mp' = lru_insert b (hash_insert b ?m)" and r: "r = Inr b"
        using g p look q Some True bs by (auto simp: mpool_get_def Let_def lru_insert_def hash_insert_def)
      have "length bs = pagesize mp1" using bs [unfolded file_page_Some] by blast
      then have lm: "loose ?m b" using lb by (simp add: loose_def)
      have bm: "b_pinned (bkts ?m b)" "b_pgno (bkts ?m b) < npages ?m" using p p1(3) by simp_all
      have nm: "c \<in> set (lqh ?m) \<Longrightarrow> b_pgno (bkts ?m c) \<noteq> b_pgno (bkts ?m b)" for c
        using un1 lb by (auto simp: loose_def)
      note a = attach_post [OF loose1(1) lm bm nm, folded mp']
      have "page_of mp1 p = Some bs" using page_of_uncached [of mp1 p] un1 bs by simp
      then have "page_of mp' = page_of mp1" using a(2) loose1(2) by (auto simp: fun_eq_iff)
      moreover have mp'_sel: "set (lqh mp') = insert b (set (lqh mp1))" "bkts mp' = bkts ?m" "npages mp' = npages mp1"
        by (auto simp: mp' lru_insert_def hash_insert_def Let_def queue_defs)
      moreover have "c \<in> set (lqh mp') \<and> bkts mp' c = bkts mp c" if "c \<in> set (lqh mp)" "b_pinned (bkts mp c)" for c
        using pin [OF that] lb mp'_sel by (auto simp: loose_def)
      ultimately show ?thesis
        using a(1) p1 p r \<open>page_of mp1 p = Some bs\<close> by (auto simp: get_post_def keeps_def)
    qed
  qed
qed

lemma mpool_get_post:
  assumes "pool_ok mp" "mpool_get io mp p = (r, mp')"
  shows "get_post mp p r mp'"
proof (cases "p < npages mp")
  case True
  then show ?thesis
    using mpool_get_hit [OF assms(1) True _ assms(2)] mpool_get_miss [OF assms(1) True _ assms(2)]
    by (cases "mpool_look mp p") auto
next
  case False
  then show ?thesis using assms by (auto simp: mpool_get_def get_post_def)
qed


lemma mpool_new_post:
  assumes ok: "pool_ok mp" and n: "mpool_new io mp = (r, mp')"
  shows "pool_ok mp'" "npages mp \<le> npages mp'" "\<And>p x. p < npages mp \<Longrightarrow> page_of mp p = Some x \<Longrightarrow> page_of mp' p = Some x"
    "\<And>b q. r = Inr (b, q) \<Longrightarrow> q = npages mp \<and> npages mp' = npages mp + 1 \<and> b \<in> set (lqh mp') \<and> b_pgno (bkts mp' b) = q \<and>
       b_pinned (bkts mp' b) \<and> page_of mp' q = Some (b_page (bkts mp' b))"
proof -
  obtain v mp1 where v: "mpool_bkt io mp = (v, mp1)" by fastforce
  have post: "bkt_post mp v mp1" by (rule mpool_bkt_post [OF ok v])
  then have p1: "pool_ok mp1" "keeps mp mp1" "npages mp1 = npages mp" by (simp_all add: bkt_post_def)
  have "pool_ok mp' \<and> npages mp \<le> npages mp' \<and> (\<forall>p x. p < npages mp \<longrightarrow> page_of mp p = Some x \<longrightarrow> page_of mp' p = Some x) \<and>
    (\<forall>b q. r = Inr (b, q) \<longrightarrow> q = npages mp \<and> npages mp' = npages mp + 1 \<and> b \<in> set (lqh mp') \<and> b_pgno (bkts mp' b) = q \<and>
       b_pinned (bkts mp' b) \<and> page_of mp' q = Some (b_page (bkts mp' b)))"
  proof (cases "npages mp = MAX_PAGE_NUMBER \<or> v = None")
    case True
    then show ?thesis using n ok v p1 by (auto simp: mpool_new_def keeps_def split: if_splits)
  next
    case False
    then obtain b where b: "v = Some b" by auto
    let ?g = "\<lambda>bp. bp\<lparr>b_pgno := npages mp, b_dirty := False, b_pinned := True\<rparr>"
    let ?m = "(set_bkt b ?g mp1)\<lparr>npages := npages mp + 1\<rparr>"
    have lb: "loose mp1 b" using post b by (simp add: bkt_post_def)
    have mp': "mp' = lru_insert b (hash_insert b ?m)" and r: "r = Inr (b, npages mp)"
      using n False v b p1(3) by (auto simp: mpool_new_def Let_def lru_insert_def hash_insert_def set_bkt_def)
    have l: "pool_ok (set_bkt b ?g mp1)" "page_of (set_bkt b ?g mp1) = page_of mp1"
      using loose_bkt [OF p1(1)] lb by (auto simp: loose_def)
    have m: "pool_ok ?m" using l(1) p1(3) unfolding pool_ok_def threaded_def clean_def unfiltered_def file_page_def by auto
    have pm: "page_of ?m = page_of mp1" using l(2) same_pages [of ?m "set_bkt b ?g mp1"] by simp
    have lm: "loose ?m b" using lb by (simp add: loose_def)
    have bm: "b_pinned (bkts ?m b)" "b_pgno (bkts ?m b) < npages ?m" by simp_all
    have nm: "b_pgno (bkts ?m c) \<noteq> b_pgno (bkts ?m b)" if "c \<in> set (lqh ?m)" for c
      using p1(1, 3) that lb by (auto simp: pool_ok_def threaded_def loose_def)
    note a = attach_post [OF m lm bm nm, folded mp']
    have "b \<in> set (lqh mp')" "bkts mp' = bkts ?m" "npages mp' = npages mp + 1"
      by (simp_all add: mp' lru_insert_def hash_insert_def Let_def queue_defs)
    then show ?thesis using a pm p1(2) r by (auto simp: keeps_def)
  qed
  then show "pool_ok mp'" "npages mp \<le> npages mp'" "\<And>p x. p < npages mp \<Longrightarrow> page_of mp p = Some x \<Longrightarrow> page_of mp' p = Some x"
    "\<And>b q. r = Inr (b, q) \<Longrightarrow> q = npages mp \<and> npages mp' = npages mp + 1 \<and> b \<in> set (lqh mp') \<and> b_pgno (bkts mp' b) = q \<and>
       b_pinned (bkts mp' b) \<and> page_of mp' q = Some (b_page (bkts mp' b))"
    by blast+
qed

text \<open>A client may put a page back as clean only when it is the page of the file.\<close>

lemma mpool_put_post:
  assumes ok: "pool_ok mp" and b: "b \<in> set (lqh mp)"
    and d: "dirty \<or> b_dirty (bkts mp b) \<or> file_page mp (b_pgno (bkts mp b)) = Some (b_page (bkts mp b))"
  shows "pool_ok (mpool_put mp b dirty)" "page_of (mpool_put mp b dirty) = page_of mp"
proof -
  let ?mp = "mpool_put mp b dirty"
  show "page_of ?mp = page_of mp" unfolding mpool_put_def by (rule same_pages) auto
  have "threaded ?mp" using ok by (intro threaded_cong [of mp ?mp]) (simp_all add: mpool_put_def pool_ok_def)
  moreover have "file_page ?mp = file_page mp" by (simp add: mpool_put_def file_page_def fun_eq_iff)
  then have "clean ?mp" using ok d by (auto simp: mpool_put_def pool_ok_def clean_def)
  ultimately show "pool_ok ?mp" using ok by (simp add: mpool_put_def pool_ok_def unfiltered_def)
qed

lemma page_store_post:
  assumes ok: "pool_ok mp" and b: "b \<in> set (lqh mp)" "b_pinned (bkts mp b)" and bs: "length bs = pagesize mp"
  shows "pool_ok (page_store mp b bs)" "page_of (page_store mp b bs) = (page_of mp)(b_pgno (bkts mp b) := Some bs)"
proof -
  let ?mp = "page_store mp b bs"
  have th: "threaded mp" "\<forall>c \<in> set (lqh mp). length (b_page (bkts mp c)) = pagesize mp" using ok by (auto simp: pool_ok_def threaded_def)
  have th': "threaded ?mp"
    using bs th b by (intro threaded_cong [of mp ?mp]) (simp_all add: page_store_def)
  have fp: "file_page ?mp = file_page mp" by (simp add: page_store_def file_page_def fun_eq_iff)
  then have "clean ?mp" using ok b by (auto simp: page_store_def pool_ok_def clean_def)
  with th' show "pool_ok ?mp" using ok by (simp add: page_store_def pool_ok_def unfiltered_def)
  show "page_of ?mp = (page_of mp)(b_pgno (bkts mp b) := Some bs)"
  proof
    fix p
    show "page_of ?mp p = ((page_of mp)(b_pgno (bkts mp b) := Some bs)) p"
    proof (rule page_of_eqI [OF th'])
      fix c
      assume c: "c \<in> set (lqh ?mp)" "b_pgno (bkts ?mp c) = p"
      show "Some (b_page (bkts ?mp c)) = ((page_of mp)(b_pgno (bkts mp b) := Some bs)) p"
      proof (cases "c = b")
        case True
        then show ?thesis using c by (simp add: page_store_def)
      next
        case False
        then have "b_pgno (bkts mp c) \<noteq> b_pgno (bkts mp b)"
          using th(1) b(1) c by (auto simp: threaded_def inj_on_def page_store_def)
        then show ?thesis using False c page_of_cached [OF th(1), of c] by (simp add: page_store_def)
      qed
    next
      assume none: "\<And>c. c \<in> set (lqh ?mp) \<Longrightarrow> b_pgno (bkts ?mp c) \<noteq> p"
      have none': "b_pgno (bkts mp c) \<noteq> p" if "c \<in> set (lqh mp)" for c
        using none [of c] that by (cases "c = b") (auto simp: page_store_def)
      have "p \<noteq> b_pgno (bkts mp b)" using none' [OF b(1)] by simp
      moreover have "page_of mp p = file_page mp p" using none' by (rule page_of_uncached)
      ultimately show "file_page ?mp p = ((page_of mp)(b_pgno (bkts mp b) := Some bs)) p" by (simp add: fp)
    qed
  qed
qed


text \<open>The loop of \<^verbatim>\<open>mpool_sync\<close> keeps the contents; when it succeeds, the buckets it walked are clean.\<close>

lemma write_post:
  assumes ok: "pool_ok mp" and b: "b \<in> set (lqh mp)" "b_dirty (bkts mp b)" and w: "mpool_write io mp b = (r, mp')"
  shows "pool_ok mp'" "keeps mp mp'" "same_threads mp mp'"
proof -
  have th: "threaded mp" "unfiltered mp" "clean mp" using ok by (simp_all add: pool_ok_def)
  show st: "same_threads mp mp'" by (rule write_effect(1) [OF th(1, 2) b(1) w])
  show "keeps mp mp'" using page_of_write [OF th(1, 2) b(1) w] by (simp add: keeps_def)
  show "pool_ok mp'"
    using same_threads_threaded [OF st th(1)] clean_write [OF th b w] ok st
    by (auto simp: pool_ok_def unfiltered_def same_threads_def)
qed

lemma same_threads_trans: "same_threads a b \<Longrightarrow> same_threads b c \<Longrightarrow> same_threads a c"
  by (simp add: same_threads_def)

lemma sync_loop_post:
  "pool_ok mp \<Longrightarrow> set q \<subseteq> set (lqh mp) \<Longrightarrow> sync_loop io mp q = (r, mp') \<Longrightarrow>
     pool_ok mp' \<and> keeps mp mp' \<and> same_threads mp mp' \<and> (\<forall>c. b_dirty (bkts mp' c) \<longrightarrow> b_dirty (bkts mp c)) \<and>
     (r \<longrightarrow> (\<forall>b \<in> set q. \<not> b_dirty (bkts mp' b)))"
proof (induction q arbitrary: mp)
  case Nil
  then show ?case by (auto simp: same_threads_def)
next
  case (Cons b q)
  obtain w mp1 where w: "(if b_dirty (bkts mp b) then mpool_write io mp b else (True, mp)) = (w, mp1)" by fastforce
  have th: "threaded mp" "unfiltered mp" and b: "b \<in> set (lqh mp)" using Cons.prems by (simp_all add: pool_ok_def)
  have p1: "pool_ok mp1 \<and> keeps mp mp1 \<and> same_threads mp mp1"
    using Cons.prems(1) b w write_post [of mp b io w mp1] by (cases "b_dirty (bkts mp b)") (auto simp: same_threads_def)
  have d1: "\<forall>c. b_dirty (bkts mp1 c) \<longrightarrow> b_dirty (bkts mp c)"
    using w write_effect(3, 4, 5) [OF th b, of io w mp1] by (cases "b_dirty (bkts mp b)") (auto, metis)
  have d2: "w \<longrightarrow> \<not> b_dirty (bkts mp1 b)"
    using w write_effect(4) [OF th b, of io w mp1] by (cases "b_dirty (bkts mp b)") auto
  show ?case
  proof (cases w)
    case True
    then have s: "sync_loop io mp1 q = (r, mp')" using Cons.prems(3) w by simp
    have "set q \<subseteq> set (lqh mp1)" using Cons.prems(2) p1 by (auto simp: same_threads_def)
    from Cons.IH [OF _ this s] p1 d1 d2 True show ?thesis
      by (auto intro: keeps_trans same_threads_trans)
  next
    case False
    then have "mp' = mp1" "\<not> r" using Cons.prems(3) w by auto
    then show ?thesis using p1 d1 by auto
  qed
qed

lemma close_loop_eq: "close_loop freed q = freed @ q"
  by (induction q arbitrary: freed) (simp_all add: remove_elem_def)

lemma mpool_open_post:
  assumes "mpool_open io st contents psize mcache = Inr mp" "0 < psize"
  shows "pool_ok mp" "page_of mp = file_page mp"
proof -
  have "lqh mp = []" "hqh mp = replicate 128 []" "pagesize mp = psize" "pgin mp = None" "pgout mp = None"
    using assms by (auto simp: mpool_open_def split: option.splits if_splits)
  then show "pool_ok mp" "page_of mp = file_page mp" using assms(2)
    by (auto simp: pool_ok_def threaded_def clean_def unfiltered_def page_of_def)
qed


section \<open>The pool as a store of pages\<close>

text \<open>
  The contents a client may rely on, through every history of calls: those of the file when
  the pool was opened, overwritten by what the client stored in the pages it held. A page
  may be put back without the dirty flag only when it is the page of the file or has the
  flag already, and \<open>io\<close> may make any system call fail at any time.
\<close>

inductive pool_run :: "mpool \<Rightarrow> (nat \<Rightarrow> u8 list option) \<Rightarrow> bool" where
  run_open: "mpool_open io st contents psize mcache = Inr mp \<Longrightarrow> 0 < psize \<Longrightarrow>
     pool_run mp (\<lambda>p. if p < npages mp then file_page mp p else None)"
| run_get: "pool_run mp M \<Longrightarrow> mpool_get io mp p = (r, mp') \<Longrightarrow> pool_run mp' M"
| run_new: "pool_run mp M \<Longrightarrow> mpool_new io mp = (Inr (b, q), mp') \<Longrightarrow> pool_run mp' (M(q \<mapsto> b_page (bkts mp' b)))"
| run_new_fails: "pool_run mp M \<Longrightarrow> mpool_new io mp = (Inl e, mp') \<Longrightarrow> pool_run mp' M"
| run_store: "pool_run mp M \<Longrightarrow> b \<in> set (lqh mp) \<Longrightarrow> b_pinned (bkts mp b) \<Longrightarrow> length bs = pagesize mp \<Longrightarrow>
     pool_run (page_store mp b bs) (M(b_pgno (bkts mp b) \<mapsto> bs))"
| run_put: "pool_run mp M \<Longrightarrow> b \<in> set (lqh mp) \<Longrightarrow>
     dirty \<or> b_dirty (bkts mp b) \<or> file_page mp (b_pgno (bkts mp b)) = Some (b_page (bkts mp b)) \<Longrightarrow>
     pool_run (mpool_put mp b dirty) M"
| run_sync: "pool_run mp M \<Longrightarrow> mpool_sync io mp = (r, mp') \<Longrightarrow> pool_run mp' M"

lemma pool_run_inv:
  "pool_run mp M \<Longrightarrow> pool_ok mp \<and> (\<forall>p x. M p = Some x \<longrightarrow> p < npages mp \<and> page_of mp p = Some x)"
proof (induction rule: pool_run.induct)
  case (run_open io st contents psize mcache mp)
  then show ?case using mpool_open_post [OF run_open] by (auto split: if_splits)
next
  case (run_get mp M io p r mp')
  then show ?case using mpool_get_post [of mp io p r mp'] by (auto simp: get_post_def keeps_def)
next
  case (run_new mp M io b q mp')
  then have ok: "pool_ok mp" by blast
  note n = mpool_new_post [OF ok run_new(2)]
  have "x < npages mp' \<and> page_of mp' x = Some y" if "(M(q \<mapsto> b_page (bkts mp' b))) x = Some y" for x y
    using that n(4) [OF refl] n(3) [of x y] run_new.IH by (cases "x = q") (auto intro: less_SucI)
  then show ?case using n(1) by blast
next
  case (run_new_fails mp M io e mp')
  then have ok: "pool_ok mp" by blast
  note n = mpool_new_post [OF ok run_new_fails(2)]
  then show ?case using run_new_fails.IH by (meson order_less_le_trans)
next
  case (run_store mp M b bs)
  then have ok: "pool_ok mp" by blast
  then have "b_pgno (bkts mp b) < npages mp" using run_store(2) by (simp add: pool_ok_def threaded_def)
  then show ?case
    using page_store_post [OF ok run_store(2-4)] run_store.IH by (auto simp: page_store_def)
next
  case (run_put mp M b dirty)
  then have ok: "pool_ok mp" by blast
  show ?case using mpool_put_post [OF ok run_put(2, 3)] run_put.IH by (simp add: mpool_put_def)
next
  case (run_sync mp M io r mp')
  then show ?case using sync_loop_post [of mp "lqh mp" io r mp']
    by (auto simp: mpool_sync_def keeps_def same_threads_def)
qed

lemma mpool_bkt_succeeds:
  assumes "calloc_ok io" "lseek_ok io" "\<And>p. write_count io p = Some (pagesize mp)" "unfiltered mp"
  shows "\<exists>b mp'. mpool_bkt io mp = (Some b, mp')"
  using assms by (auto simp: mpool_bkt_def new_bkt_def mpool_write_def unfiltered_def Let_def split: option.split)


lemma mpool_get_succeeds:
  assumes run: "pool_run mp M" "M p = Some x"
    and io: "calloc_ok io" "lseek_ok io" "read_ok io" "\<And>q. write_count io q = Some (pagesize mp)"
  shows "\<exists>b mp'. mpool_get io mp p = (Inr b, mp')"
proof -
  have ok: "pool_ok mp" and p: "p < npages mp" and x: "page_of mp p = Some x" using pool_run_inv [OF run(1)] run(2) by auto
  then have th: "threaded mp" "unfiltered mp" by (simp_all add: pool_ok_def)
  show ?thesis
  proof (cases "mpool_look mp p")
    case None
    obtain b mp1 where b: "mpool_bkt io mp = (Some b, mp1)" using mpool_bkt_succeeds [OF io(1, 2, 4) th(2)] by blast
    have post: "bkt_post mp (Some b) mp1" by (rule mpool_bkt_post [OF ok b])
    then have un: "b_pgno (bkts mp1 c) \<noteq> p" if "c \<in> set (lqh mp1)" for c
      using None mpool_look_eq(2) [OF th(1)] that by (auto simp: bkt_post_def)
    have "page_of mp1 p = Some x" using post x by (simp add: bkt_post_def keeps_def)
    then have "file_page mp1 p = Some x" using page_of_uncached [of mp1 p] un by simp
    then show ?thesis using None b io(2, 3) p by (simp add: mpool_get_def Let_def)
  next
    case (Some b)
    then show ?thesis using p by (simp add: mpool_get_def Let_def)
  qed
qed

text \<open>A bucket that has been taken for a page that cannot be read is never freed.\<close>

lemma mpool_get_leaks:
  assumes "pool_ok mp" "p < npages mp" "mpool_look mp p = None" "mpool_bkt io mp = (Some b, mp1)" "\<not> read_ok io"
  shows "\<exists>mp'. mpool_get io mp p = (Inl (io_errno io), mp') \<and> b < fresh mp' \<and> b \<notin> set (mpool_close mp')"
  using assms mpool_bkt_post [OF assms(1, 4)]
  by (auto simp: mpool_get_def mpool_close_def close_loop_eq bkt_post_def loose_def)

section \<open>Properties\<close>

definition sample_io :: "bool \<Rightarrow> io" where
  "sample_io rok = \<lparr>calloc_ok = True, lseek_ok = True, write_count = (\<lambda>p. Some 2), read_ok = rok, fsync_ok = True, io_errno = 5\<rparr>"

definition sample_pool :: mpool where
  "sample_pool = projr (mpool_open (sample_io True) (Some True) [1, 2, 3, 4] 2 1)"

lemma sample_run: "pool_run sample_pool (\<lambda>p. if p < npages sample_pool then file_page sample_pool p else None)"
proof (rule run_open)
  show "mpool_open (sample_io True) (Some True) [1, 2, 3, 4] 2 1 = Inr sample_pool"
    by (simp add: sample_pool_def mpool_open_def sample_io_def)
qed simp

text \<open>
  C11. On a pool without filters, after any history of calls in which any system call may have
  failed, a get of a page
  the client has contents for either fails or returns these contents, pinned, and it
  succeeds when the system calls do; the pages other callers hold stay where they are and
  as they are.
\<close>

theorem mpool_get_correct:
  assumes "pool_run mp M" "M p = Some x"
  shows "(\<forall>b mp'. mpool_get io mp p = (Inr b, mp') \<longrightarrow>
            b_page (bkts mp' b) = x \<and> b_pgno (bkts mp' b) = p \<and> b_pinned (bkts mp' b)) \<and>
         (calloc_ok io \<and> lseek_ok io \<and> read_ok io \<and> (\<forall>q. write_count io q = Some (pagesize mp)) \<longrightarrow>
            (\<exists>b mp'. mpool_get io mp p = (Inr b, mp'))) \<and>
         (\<forall>r mp' c. mpool_get io mp p = (r, mp') \<and> c \<in> set (lqh mp) \<and> b_pinned (bkts mp c) \<longrightarrow>
            c \<in> set (lqh mp') \<and> bkts mp' c = bkts mp c)"
proof -
  have ok: "pool_ok mp" and x: "page_of mp p = Some x" using pool_run_inv [OF assms(1)] assms(2) by auto
  have "b_page (bkts mp' b) = x \<and> b_pgno (bkts mp' b) = p \<and> b_pinned (bkts mp' b)"
    if "mpool_get io mp p = (Inr b, mp')" for b mp'
    using mpool_get_post [OF ok that] x by (auto simp: get_post_def keeps_def)
  moreover have "c \<in> set (lqh mp') \<and> bkts mp' c = bkts mp c"
    if "mpool_get io mp p = (r, mp')" "c \<in> set (lqh mp)" "b_pinned (bkts mp c)" for r mp' c
    using mpool_get_post [OF ok that(1)] that by (auto simp: get_post_def)
  ultimately show ?thesis using mpool_get_succeeds [OF assms, of io] by blast
qed

theorem mpool_get_correct_witness:
  "\<exists>b mp'. mpool_get (sample_io True) sample_pool 1 = (Inr b, mp') \<and> b_page (bkts mp' b) = [3, 4]"
proof -
  have "(if 1 < npages sample_pool then file_page sample_pool 1 else None) = Some [3, 4]"
    by (simp add: sample_pool_def mpool_open_def sample_io_def file_page_def)
  from mpool_get_correct [OF sample_run this, of "sample_io True"] show ?thesis
    by (auto simp: sample_io_def sample_pool_def mpool_open_def)
qed

text \<open>
  C12. Durability: when \<^verbatim>\<open>mpool_sync\<close> succeeds and no page is in use, every page the client
  has contents for is in the file with these contents.
\<close>

theorem mpool_sync_durable:
  assumes "pool_run mp M" "\<forall>b \<in> set (lqh mp). \<not> b_pinned (bkts mp b)" "mpool_sync io mp = (True, mp')" "M p = Some x"
  shows "file_page mp' p = Some x"
proof -
  have ok: "pool_ok mp" and x: "page_of mp p = Some x" using pool_run_inv [OF assms(1)] assms(4) by auto
  have s: "pool_ok mp'" "keeps mp mp'" "same_threads mp mp'" "\<forall>b \<in> set (lqh mp). \<not> b_dirty (bkts mp' b)"
    using sync_loop_post [OF ok order_refl assms(3) [unfolded mpool_sync_def]] by auto
  have x': "page_of mp' p = Some x" using s(2) x by (simp add: keeps_def)
  have th: "threaded mp'" and cl: "clean mp'" using s(1) by (simp_all add: pool_ok_def)
  have "page_of mp' p = Some x \<longrightarrow> file_page mp' p = Some x"
  proof (rule page_of_eqI [OF th])
    fix b
    assume b: "b \<in> set (lqh mp')" "b_pgno (bkts mp' b) = p"
    then have "\<not> b_pinned (bkts mp' b) \<and> \<not> b_dirty (bkts mp' b)"
      using s(3, 4) assms(2) by (simp add: same_threads_def)
    then show "Some (b_page (bkts mp' b)) = Some x \<longrightarrow> file_page mp' p = Some x" using b cl by (auto simp: clean_def)
  qed simp
  with x' show ?thesis by simp
qed

definition sample_dirty :: mpool where
  "sample_dirty = mpool_put (page_store (snd (mpool_get (sample_io True) sample_pool 0)) 0 [9, 8]) 0 True"

lemmas sample_simps = sample_dirty_def sample_pool_def sample_io_def mpool_open_def mpool_get_def mpool_look_def
  mpool_bkt_def new_bkt_def file_page_def mpool_put_def page_store_def lru_insert_def hash_insert_def queue_defs
  HASHKEY_def Let_def

lemma sample_dirty_sel:
  "lqh sample_dirty = [0]" "bkts sample_dirty 0 = \<lparr>b_page = [9, 8], b_pgno = 0, b_dirty = True, b_pinned = False\<rparr>"
  "disk sample_dirty = [1, 2, 3, 4]" "pagesize sample_dirty = 2" "pgout sample_dirty = None"
  by (simp_all add: sample_simps)

theorem mpool_sync_durable_witness:
  "file_page (snd (mpool_sync (sample_io True) sample_dirty)) 0 = Some [9, 8]"
proof -
  let ?M = "\<lambda>p. if p < npages sample_pool then file_page sample_pool p else None"
  let ?held = "snd (mpool_get (sample_io True) sample_pool 0)"
  have held: "pool_run ?held ?M" by (rule run_get [OF sample_run surjective_pairing])
  have "0 \<in> set (lqh ?held)" "b_pinned (bkts ?held 0)" "length [9, 8] = pagesize ?held" "b_pgno (bkts ?held 0) = 0"
    by (simp_all add: sample_simps)
  note r = run_store [OF held this(1-3), unfolded this(4)]
  have "pool_run sample_dirty (?M(0 \<mapsto> [9, 8]))"
    unfolding sample_dirty_def using \<open>0 \<in> set (lqh ?held)\<close> by (intro run_put [OF r]) (simp_all add: page_store_def)
  moreover have "mpool_sync (sample_io True) sample_dirty = (True, snd (mpool_sync (sample_io True) sample_dirty))"
    by (simp add: mpool_sync_def mpool_write_def Let_def sample_dirty_sel) (simp add: sample_io_def Let_def sample_dirty_sel)
  ultimately show ?thesis
    by (intro mpool_sync_durable [of sample_dirty "?M(0 \<mapsto> [9, 8])"]) (simp_all add: sample_dirty_sel)
qed

text \<open>
  With an output filter the write-back converts the page in place and does not convert it
  back: the next get of the page, which is still cached, returns it in the external format.
\<close>

theorem mpool_write_filter:
  assumes "threaded mp" "b \<in> set (lqh mp)" "b_pgno (bkts mp b) = p" "pgout mp = Some f" "lseek_ok io"
    "write_count io p = Some (pagesize mp)"
  shows "\<exists>mp' mp''. mpool_write io mp b = (True, mp') \<and> mpool_get io' mp' p = (Inr b, mp'') \<and>
           b_page (bkts mp'' b) = f p (b_page (bkts mp b))"
proof -
  obtain ok mp' where w: "mpool_write io mp b = (ok, mp')" by fastforce
  have e: "ok" "lqh mp' = lqh mp" "hqh mp' = hqh mp" "npages mp' = npages mp" "\<And>c. b_pgno (bkts mp' c) = b_pgno (bkts mp c)"
    "b_page (bkts mp' b) = f p (b_page (bkts mp b))"
    using w assms(3-6) by (auto simp: mpool_write_def Let_def)
  have "mpool_look mp p = Some b" using mpool_look_eq(1) [OF assms(1)] assms(2, 3) by blast
  then have "mpool_look mp' p = Some b" by (simp add: mpool_look_def e)
  moreover have "p < npages mp'" using assms(1-3) e(4) by (auto simp: threaded_def)
  ultimately have "\<exists>mp''. mpool_get io' mp' p = (Inr b, mp'') \<and> b_page (bkts mp'' b) = b_page (bkts mp' b)"
    by (simp add: mpool_get_def Let_def lru_insert_def lru_remove_def hash_insert_def hash_remove_def)
  then show ?thesis using w e(1, 6) by auto
qed


theorem mpool_write_filter_witness:
  "\<exists>mp' mp''. mpool_write (sample_io True) (mpool_filter sample_dirty None (Some (\<lambda>p. rev))) 0 = (True, mp') \<and>
     mpool_get (sample_io True) mp' 0 = (Inr 0, mp'') \<and> b_page (bkts mp'' 0) = [8, 9]"
proof -
  let ?mp = "mpool_filter sample_dirty None (Some (\<lambda>p. rev))"
  have "HASHKEY 0 = 127" "h < 128 \<Longrightarrow> hqh sample_dirty ! h = (if h = 127 then [0] else [])" for h
    by (simp_all add: sample_simps nth_list_update)
  then have "threaded ?mp" by (auto simp: threaded_def mpool_filter_def sample_dirty_sel) (simp_all add: sample_simps)
  then show ?thesis
    using mpool_write_filter [of ?mp 0 0 "\<lambda>p. rev" "sample_io True" "sample_io True"]
    by (simp add: mpool_filter_def sample_dirty_sel) (simp add: sample_io_def)
qed

end
