(* ===== verification/Linux_List.thy ===== *)
theory Linux_List
  imports Ring
begin

text \<open>
  The lists of \<^verbatim>\<open>linux-list.h\<close>: nodes with a successor and a predecessor link, one of them the
  head of the list. The memory maps the addresses of nodes to their links; an access through
  any other address, such as the poison of a deleted entry, is a fault, the value \<open>None\<close>.
\<close>

section \<open>The memory\<close>

record list_head =
  lh_next :: addr
  lh_prev :: addr

type_synonym heap = "addr \<rightharpoonup> list_head"

abbreviation (input) LIST_POISON1 :: addr where "LIST_POISON1 \<equiv> 0xdead000000000100"
abbreviation (input) LIST_POISON2 :: addr where "LIST_POISON2 \<equiv> 0xdead000000000200"

definition nx :: "heap \<Rightarrow> links" where
  "nx m a = map_option lh_next (m a)"

definition pv :: "heap \<Rightarrow> links" where
  "pv m a = map_option lh_prev (m a)"

definition upd_next :: "addr \<Rightarrow> addr \<Rightarrow> heap \<Rightarrow> heap" where
  "upd_next a v m = m(a := map_option (\<lambda>r. r\<lparr>lh_next := v\<rparr>) (m a))"

definition upd_prev :: "addr \<Rightarrow> addr \<Rightarrow> heap \<Rightarrow> heap" where
  "upd_prev a v m = m(a := map_option (\<lambda>r. r\<lparr>lh_prev := v\<rparr>) (m a))"

definition set_next :: "addr \<Rightarrow> addr \<Rightarrow> heap \<Rightarrow> heap option" where
  "set_next a v m = (if m a = None then None else Some (upd_next a v m))"

definition set_prev :: "addr \<Rightarrow> addr \<Rightarrow> heap \<Rightarrow> heap option" where
  "set_prev a v m = (if m a = None then None else Some (upd_prev a v m))"

section \<open>The functions\<close>

definition INIT_LIST_HEAD :: "addr \<Rightarrow> heap \<Rightarrow> heap option" where
  "INIT_LIST_HEAD l m = do { m \<leftarrow> set_next l l m; set_prev l l m }"

text \<open>\<^verbatim>\<open>__list_add\<close>, \<^verbatim>\<open>__list_del\<close> and \<^verbatim>\<open>__list_del_entry\<close>.\<close>

definition list_add_between :: "addr \<Rightarrow> addr \<Rightarrow> addr \<Rightarrow> heap \<Rightarrow> heap option" where
  "list_add_between new prev nxt m = do {
     m \<leftarrow> set_prev nxt new m;
     m \<leftarrow> set_next new nxt m;
     m \<leftarrow> set_prev new prev m;
     set_next prev new m
   }"

definition list_add :: "addr \<Rightarrow> addr \<Rightarrow> heap \<Rightarrow> heap option" where
  "list_add new head m = do { n \<leftarrow> nx m head; list_add_between new head n m }"

definition list_add_tail :: "addr \<Rightarrow> addr \<Rightarrow> heap \<Rightarrow> heap option" where
  "list_add_tail new head m = do { p \<leftarrow> pv m head; list_add_between new p head m }"

definition list_del_between :: "addr \<Rightarrow> addr \<Rightarrow> heap \<Rightarrow> heap option" where
  "list_del_between prev nxt m = do { m \<leftarrow> set_prev nxt prev m; set_next prev nxt m }"

definition list_del_entry :: "addr \<Rightarrow> heap \<Rightarrow> heap option" where
  "list_del_entry entry m = do { p \<leftarrow> pv m entry; n \<leftarrow> nx m entry; list_del_between p n m }"

definition list_del :: "addr \<Rightarrow> heap \<Rightarrow> heap option" where
  "list_del entry m = do {
     p \<leftarrow> pv m entry;
     n \<leftarrow> nx m entry;
     m \<leftarrow> list_del_between p n m;
     m \<leftarrow> set_next entry LIST_POISON1 m;
     set_prev entry LIST_POISON2 m
   }"

definition list_replace :: "addr \<Rightarrow> addr \<Rightarrow> heap \<Rightarrow> heap option" where
  "list_replace old new m = do {
     n \<leftarrow> nx m old;
     m \<leftarrow> set_next new n m;
     n \<leftarrow> nx m new;
     m \<leftarrow> set_prev n new m;
     p \<leftarrow> pv m old;
     m \<leftarrow> set_prev new p m;
     p \<leftarrow> pv m new;
     set_next p new m
   }"

definition list_replace_init :: "addr \<Rightarrow> addr \<Rightarrow> heap \<Rightarrow> heap option" where
  "list_replace_init old new m = do { m \<leftarrow> list_replace old new m; INIT_LIST_HEAD old m }"

definition list_del_init :: "addr \<Rightarrow> heap \<Rightarrow> heap option" where
  "list_del_init entry m = do { m \<leftarrow> list_del_entry entry m; INIT_LIST_HEAD entry m }"

definition list_move :: "addr \<Rightarrow> addr \<Rightarrow> heap \<Rightarrow> heap option" where
  "list_move l head m = do { m \<leftarrow> list_del_entry l m; list_add l head m }"

definition list_move_tail :: "addr \<Rightarrow> addr \<Rightarrow> heap \<Rightarrow> heap option" where
  "list_move_tail l head m = do { m \<leftarrow> list_del_entry l m; list_add_tail l head m }"

definition list_is_last :: "addr \<Rightarrow> addr \<Rightarrow> heap \<Rightarrow> bool option" where
  "list_is_last l head m = do { n \<leftarrow> nx m l; Some (n = head) }"

definition list_empty :: "addr \<Rightarrow> heap \<Rightarrow> bool option" where
  "list_empty head m = do { n \<leftarrow> nx m head; Some (n = head) }"

definition list_empty_careful :: "addr \<Rightarrow> heap \<Rightarrow> bool option" where
  "list_empty_careful head m = do {
     n \<leftarrow> nx m head;
     if n = head then do { p \<leftarrow> pv m head; Some (n = p) } else Some False
   }"

definition list_rotate_left :: "addr \<Rightarrow> heap \<Rightarrow> heap option" where
  "list_rotate_left head m = do {
     e \<leftarrow> list_empty head m;
     if \<not> e then do { first \<leftarrow> nx m head; list_move_tail first head m } else Some m
   }"

definition list_is_singular :: "addr \<Rightarrow> heap \<Rightarrow> bool option" where
  "list_is_singular head m = do {
     e \<leftarrow> list_empty head m;
     if \<not> e then do { n \<leftarrow> nx m head; p \<leftarrow> pv m head; Some (n = p) } else Some False
   }"

text \<open>\<^verbatim>\<open>__list_cut_position\<close> and \<^verbatim>\<open>__list_splice\<close>.\<close>

definition cut_position :: "addr \<Rightarrow> addr \<Rightarrow> addr \<Rightarrow> heap \<Rightarrow> heap option" where
  "cut_position l head entry m = do {
     new_first \<leftarrow> nx m entry;
     f \<leftarrow> nx m head;
     m \<leftarrow> set_next l f m;
     f \<leftarrow> nx m l;
     m \<leftarrow> set_prev f l m;
     m \<leftarrow> set_prev l entry m;
     m \<leftarrow> set_next entry l m;
     m \<leftarrow> set_next head new_first m;
     set_prev new_first head m
   }"

definition list_cut_position :: "addr \<Rightarrow> addr \<Rightarrow> addr \<Rightarrow> heap \<Rightarrow> heap option" where
  "list_cut_position l head entry m = do {
     e \<leftarrow> list_empty head m;
     if e then Some m
     else do {
       s \<leftarrow> list_is_singular head m;
       f \<leftarrow> nx m head;
       if s \<and> f \<noteq> entry \<and> head \<noteq> entry then Some m
       else if entry = head then INIT_LIST_HEAD l m
       else cut_position l head entry m
     }
   }"

definition splice_between :: "addr \<Rightarrow> addr \<Rightarrow> addr \<Rightarrow> heap \<Rightarrow> heap option" where
  "splice_between l prev nxt m = do {
     first \<leftarrow> nx m l;
     last \<leftarrow> pv m l;
     m \<leftarrow> set_prev first prev m;
     m \<leftarrow> set_next prev first m;
     m \<leftarrow> set_next last nxt m;
     set_prev nxt last m
   }"

definition list_splice :: "addr \<Rightarrow> addr \<Rightarrow> heap \<Rightarrow> heap option" where
  "list_splice l head m = do {
     e \<leftarrow> list_empty l m;
     if \<not> e then do { n \<leftarrow> nx m head; splice_between l head n m } else Some m
   }"

definition list_splice_tail :: "addr \<Rightarrow> addr \<Rightarrow> heap \<Rightarrow> heap option" where
  "list_splice_tail l head m = do {
     e \<leftarrow> list_empty l m;
     if \<not> e then do { p \<leftarrow> pv m head; splice_between l p head m } else Some m
   }"

definition list_splice_init :: "addr \<Rightarrow> addr \<Rightarrow> heap \<Rightarrow> heap option" where
  "list_splice_init l head m = do {
     e \<leftarrow> list_empty l m;
     if \<not> e then do { n \<leftarrow> nx m head; m \<leftarrow> splice_between l head n m; INIT_LIST_HEAD l m } else Some m
   }"

definition list_splice_tail_init :: "addr \<Rightarrow> addr \<Rightarrow> heap \<Rightarrow> heap option" where
  "list_splice_tail_init l head m = do {
     e \<leftarrow> list_empty l m;
     if \<not> e then do { p \<leftarrow> pv m head; m \<leftarrow> splice_between l p head m; INIT_LIST_HEAD l m } else Some m
   }"

text \<open>The addresses that \<^verbatim>\<open>list_for_each\<close> and \<^verbatim>\<open>list_for_each_prev\<close> visit, with fuel for their number.\<close>

fun visit :: "nat \<Rightarrow> links \<Rightarrow> addr \<Rightarrow> addr \<Rightarrow> addr list option" where
  "visit 0 lk head pos = None"
| "visit (Suc fuel) lk head pos =
     (if pos = head then Some [] else do { p \<leftarrow> lk pos; ps \<leftarrow> visit fuel lk head p; Some (pos # ps) })"

definition list_for_each :: "nat \<Rightarrow> addr \<Rightarrow> heap \<Rightarrow> addr list option" where
  "list_for_each fuel head m = do { pos \<leftarrow> nx m head; visit fuel (nx m) head pos }"

definition list_for_each_prev :: "nat \<Rightarrow> addr \<Rightarrow> heap \<Rightarrow> addr list option" where
  "list_for_each_prev fuel head m = do { pos \<leftarrow> pv m head; visit fuel (pv m) head pos }"

section \<open>The links they write\<close>

lemma upd_links [simp]:
  "m a \<noteq> None \<Longrightarrow> nx (upd_next a v m) = (nx m)(a \<mapsto> v)" "pv (upd_next a v m) = pv m"
  "m a \<noteq> None \<Longrightarrow> pv (upd_prev a v m) = (pv m)(a \<mapsto> v)" "nx (upd_prev a v m) = nx m"
  "(upd_next a v m x = None) = (m x = None)" "(upd_prev a v m x = None) = (m x = None)"
  by (auto simp: nx_def pv_def upd_next_def upd_prev_def fun_eq_iff option.map_comp comp_def)

text \<open>The lists that a memory holds, by their heads, and its free nodes.\<close>

type_synonym lists = "addr \<rightharpoonup> addr list"

definition owned :: "lists \<Rightarrow> addr \<Rightarrow> bool" where
  "owned S x \<longleftrightarrow> (\<exists>a xs. S a = Some xs \<and> x \<in> set (a # xs))"

definition holds :: "heap \<Rightarrow> lists \<Rightarrow> bool" where
  "holds m S \<longleftrightarrow> (\<forall>a xs. S a = Some xs \<longrightarrow> ring (nx m) (pv m) a xs) \<and>
     (\<forall>a b xs ys. S a = Some xs \<longrightarrow> S b = Some ys \<longrightarrow> a \<noteq> b \<longrightarrow> set (a # xs) \<inter> set (b # ys) = {})"

lemma holds_change:
  assumes m: "holds m S" and out: "\<And>x. x \<notin> A \<Longrightarrow> nx m' x = nx m x \<and> pv m' x = pv m x"
    and new: "\<And>a xs. S' a = Some xs \<Longrightarrow>
      (S a = Some xs \<and> set (a # xs) \<inter> A = {}) \<or> (set (a # xs) \<subseteq> A \<and> ring (nx m') (pv m') a xs)"
    and disj: "\<And>a b xs ys. S' a = Some xs \<Longrightarrow> S' b = Some ys \<Longrightarrow> a \<noteq> b \<Longrightarrow> set (a # xs) \<subseteq> A \<Longrightarrow> set (b # ys) \<subseteq> A \<Longrightarrow>
      set (a # xs) \<inter> set (b # ys) = {}"
  shows "holds m' S'"
proof -
  have "ring (nx m') (pv m') a xs" if "S' a = Some xs" for a xs
  proof -
    have "ring (nx m') (pv m') a xs" if s: "S a = Some xs" "set (a # xs) \<inter> A = {}"
    proof -
      have "ring (nx m') (pv m') a xs = ring (nx m) (pv m) a xs" using out s(2) by (intro ring_cong) blast
      then show ?thesis using m s(1) by (simp add: holds_def)
    qed
    then show ?thesis using new [OF that] by blast
  qed
  moreover have "set (a # xs) \<inter> set (b # ys) = {}" if s: "S' a = Some xs" "S' b = Some ys" "a \<noteq> b" for a b xs ys
  proof -
    have "set (a # xs) \<inter> set (b # ys) = {}" if "S a = Some xs" "S b = Some ys"
      using m that s(3) unfolding holds_def by blast
    moreover have "set (a # xs) \<inter> set (b # ys) = {}" if "set (a # xs) \<inter> A = {}" "set (b # ys) \<subseteq> A" using that by blast
    moreover have "set (a # xs) \<inter> set (b # ys) = {}" if "set (b # ys) \<inter> A = {}" "set (a # xs) \<subseteq> A" using that by blast
    ultimately show ?thesis using new [OF s(1)] new [OF s(2)] disj [OF s] by argo
  qed
  ultimately show ?thesis unfolding holds_def by blast
qed


lemma node_iff: "nx m x \<noteq> None \<longleftrightarrow> m x \<noteq> None" "pv m x \<noteq> None \<longleftrightarrow> m x \<noteq> None"
  by (simp_all add: nx_def pv_def)

lemma holds_nodes: "holds m S \<Longrightarrow> S a = Some xs \<Longrightarrow> x \<in> set (a # xs) \<Longrightarrow> m x \<noteq> None"
  using ring_nodes(1) [of "nx m" "pv m" a xs x] node_iff(1) by (auto simp: holds_def)

lemma holds_other:
  assumes "holds m S" "S a = Some xs" "S b = Some ys" "b \<noteq> a"
  shows "set (b # ys) \<inter> set (a # xs) = {}"
  using assms unfolding holds_def by blast

text \<open>One list changes, and takes free nodes or leaves some.\<close>

lemma holds_rehead:
  assumes m: "holds m S" and a: "S a = Some xs" and E: "\<And>x. x \<in> E \<Longrightarrow> \<not> owned S x"
    and out: "\<And>x. x \<notin> E \<union> set (a # xs) \<Longrightarrow> nx m' x = nx m x \<and> pv m' x = pv m x"
    and r: "ring (nx m') (pv m') a' xs'" "set (a' # xs') \<subseteq> E \<union> set (a # xs)"
  shows "holds m' (S(a := None, a' \<mapsto> xs'))"
proof -
  let ?S = "S(a := None, a' \<mapsto> xs')" and ?A = "E \<union> set (a # xs)"
  have old: "S b = Some ys \<and> set (b # ys) \<inter> ?A = {}" if "?S b = Some ys" "b \<noteq> a'" for b ys
  proof -
    have s: "S b = Some ys" "b \<noteq> a" using that by (auto split: if_splits)
    have "set (b # ys) \<inter> E = {}" using E s(1) unfolding owned_def by blast
    then show ?thesis using s holds_other [OF m a s] by blast
  qed
  show ?thesis
  proof (rule holds_change [OF m out])
    fix b ys
    assume b: "?S b = Some ys"
    show "(S b = Some ys \<and> set (b # ys) \<inter> ?A = {}) \<or> (set (b # ys) \<subseteq> ?A \<and> ring (nx m') (pv m') b ys)"
      using old [OF b] r b by (cases "b = a'") auto
  next
    fix b c ys zs
    assume s: "?S b = Some ys" "?S c = Some zs" "b \<noteq> c" "set (b # ys) \<subseteq> ?A" "set (c # zs) \<subseteq> ?A"
    have "b = a'" "c = a'" using old [OF s(1)] old [OF s(2)] s(4, 5) by auto
    then show "set (b # ys) \<inter> set (c # zs) = {}" using s(3) by simp
  qed simp
qed

lemma holds_one:
  assumes "holds m S" "S a = Some xs" "\<And>x. x \<in> E \<Longrightarrow> \<not> owned S x"
    "\<And>x. x \<notin> E \<union> set (a # xs) \<Longrightarrow> nx m' x = nx m x \<and> pv m' x = pv m x"
    "ring (nx m') (pv m') a xs'" "set xs' \<subseteq> E \<union> set xs"
  shows "holds m' (S(a \<mapsto> xs'))"
  using holds_rehead [OF assms(1-5)] assms(6) by auto

lemma holds_forget: "holds m S \<Longrightarrow> holds m (S(a := None))"
  unfolding holds_def by (simp split: if_splits)

lemma owned_ends:
  assumes "S a = Some (xs @ ys)"
  shows "owned S (last (a # xs))" "owned S (hd (ys @ [a]))"
  using assms ends_in(1) [of a xs] ends_in(2) [of ys a] by (auto simp: owned_def simp del: last.simps intro!: exI [of _ a])

lemma add_between_ok:
  assumes m: "holds m S" and a: "S a = Some (xs @ ys)" and e: "m e \<noteq> None" "\<not> owned S e"
  shows "\<exists>m'. list_add_between e (last (a # xs)) (hd (ys @ [a])) m = Some m' \<and> holds m' (S(a \<mapsto> xs @ e # ys)) \<and> dom m' = dom m"
proof -
  let ?p = "last (a # xs)" and ?n = "hd (ys @ [a])"
  let ?m = "upd_next ?p e (upd_prev e ?p (upd_next e ?n (upd_prev ?n e m)))"
  have in': "?p \<in> set (a # xs)" "?n \<in> set (ys @ [a])" by (rule ends_in)+
  have pn: "m ?p \<noteq> None" "m ?n \<noteq> None"
    using holds_nodes [OF m a, of ?p] holds_nodes [OF m a, of ?n] in' by (auto simp del: last.simps)
  have new: "e \<notin> set (a # xs @ ys)" using e(2) a unfolding owned_def by blast
  then have ne: "e \<noteq> ?p" "e \<noteq> ?n" using in' by auto
  have links: "nx ?m = (nx m)(?p \<mapsto> e, e \<mapsto> ?n)" "pv ?m = (pv m)(e \<mapsto> ?p, ?n \<mapsto> e)"
    using pn e(1) ne by (auto simp: fun_upd_twist simp del: last.simps)
  have "ring (nx ?m) (pv ?m) a (xs @ e # ys)"
    using ring_insert [of "nx m" "pv m" a xs ys e] m a new unfolding links holds_def by blast
  moreover have "nx ?m x = nx m x \<and> pv ?m x = pv m x" if "x \<notin> {e} \<union> set (a # xs @ ys)" for x
    using that in' unfolding links by (auto simp del: last.simps)
  ultimately have "holds ?m (S(a \<mapsto> xs @ e # ys))"
    using e(2) by (intro holds_one [OF m a, of "{e}"]) auto
  moreover have "list_add_between e ?p ?n m = Some ?m"
    using pn e(1) by (simp add: list_add_between_def set_next_def set_prev_def del: last.simps)
  moreover have "dom ?m = dom m" by (auto simp: dom_def simp del: not_None_eq last.simps)
  ultimately show ?thesis by blast
qed

lemma list_add_ok:
  assumes "holds m S" "S a = Some xs" "m e \<noteq> None" "\<not> owned S e"
  shows "\<exists>m'. list_add e a m = Some m' \<and> holds m' (S(a \<mapsto> e # xs)) \<and> dom m' = dom m"
  using add_between_ok [of m S a "[]" xs e] ring_first [of "nx m" "pv m" a xs] assms by (auto simp: list_add_def holds_def)

lemma list_add_tail_ok:
  assumes "holds m S" "S a = Some xs" "m e \<noteq> None" "\<not> owned S e"
  shows "\<exists>m'. list_add_tail e a m = Some m' \<and> holds m' (S(a \<mapsto> xs @ [e])) \<and> dom m' = dom m"
  using add_between_ok [of m S a xs "[]" e] ring_last [of "nx m" "pv m" a xs] assms
  by (auto simp: list_add_tail_def holds_def simp del: last.simps)

text \<open>After the removal the entry is free.\<close>

lemma list_del_entry_ok:
  assumes m: "holds m S" and a: "S a = Some (xs @ e # ys)"
  shows "\<exists>m'. list_del_entry e m = Some m' \<and> holds m' (S(a \<mapsto> xs @ ys)) \<and> dom m' = dom m \<and>
    m' e \<noteq> None \<and> \<not> owned (S(a \<mapsto> xs @ ys)) e"
proof -
  let ?p = "last (a # xs)" and ?n = "hd (ys @ [a])"
  let ?m = "upd_next ?p ?n (upd_prev ?n ?p m)"
  have r: "ring (nx m) (pv m) a (xs @ e # ys)" using m a by (simp add: holds_def)
  have in': "?p \<in> set (a # xs)" "?n \<in> set (ys @ [a])" by (rule ends_in)+
  have pn: "m ?p \<noteq> None" "m ?n \<noteq> None" "m e \<noteq> None"
    using holds_nodes [OF m a, of ?p] holds_nodes [OF m a, of ?n] holds_nodes [OF m a, of e] in' by (auto simp del: last.simps)
  have links: "nx ?m = (nx m)(?p \<mapsto> ?n)" "pv ?m = (pv m)(?n \<mapsto> ?p)" using pn by (simp_all del: last.simps)
  have "nx ?m x = nx m x \<and> pv ?m x = pv m x" if "x \<notin> {} \<union> set (a # xs @ e # ys)" for x
    using that in' unfolding links by (auto simp del: last.simps)
  moreover have "ring (nx ?m) (pv ?m) a (xs @ ys)" using ring_remove [OF r] unfolding links .
  ultimately have "holds ?m (S(a \<mapsto> xs @ ys))" by (intro holds_one [OF m a, of "{}"]) auto
  moreover have "list_del_entry e m = Some ?m"
    using ring_elem [OF r] pn by (simp add: list_del_entry_def list_del_between_def set_next_def set_prev_def del: last.simps)
  moreover have "dom ?m = dom m" "?m e \<noteq> None" using pn(3) by (auto simp: dom_def simp del: not_None_eq last.simps)
  moreover have "\<not> owned (S(a \<mapsto> xs @ ys)) e"
  proof
    assume "owned (S(a \<mapsto> xs @ ys)) e"
    then obtain b zs where b: "(S(a \<mapsto> xs @ ys)) b = Some zs" "e \<in> set (b # zs)" unfolding owned_def by blast
    have "e \<notin> set (a # xs @ ys)" using r by (auto simp: ring_def)
    then have "b \<noteq> a" using b by auto
    then show False using holds_other [OF m a, of b zs] b by auto
  qed
  ultimately show ?thesis by blast
qed

lemma INIT_ok:
  assumes m: "holds m S" and e: "m e \<noteq> None" "\<not> owned S e"
  shows "\<exists>m'. INIT_LIST_HEAD e m = Some m' \<and> holds m' (S(e \<mapsto> [])) \<and> dom m' = dom m"
proof -
  let ?m = "upd_prev e e (upd_next e e m)"
  have "holds ?m (S(e \<mapsto> []))"
    by (rule holds_change [OF m, of "{e}"]) (use e in \<open>auto simp: owned_def split: if_splits\<close>)
  then show ?thesis using e(1) by (auto simp: INIT_LIST_HEAD_def set_next_def set_prev_def dom_def simp del: not_None_eq)
qed


lemma free_write:
  assumes "holds m S" "\<not> owned S e" "m e \<noteq> None"
  shows "holds (upd_next e v m) S" "holds (upd_prev e v m) S"
  by (rule holds_change [OF assms(1), of "{e}"]; use assms in \<open>auto simp: owned_def\<close>)+

lemma list_del_ok:
  assumes "holds m S" "S a = Some (xs @ e # ys)"
  shows "\<exists>m'. list_del e m = Some m' \<and> holds m' (S(a \<mapsto> xs @ ys)) \<and> dom m' = dom m"
proof -
  obtain m1 where m1: "list_del_entry e m = Some m1" "holds m1 (S(a \<mapsto> xs @ ys))" "dom m1 = dom m" "m1 e \<noteq> None"
      "\<not> owned (S(a \<mapsto> xs @ ys)) e"
    using list_del_entry_ok [OF assms] by blast
  let ?m = "upd_prev e LIST_POISON2 (upd_next e LIST_POISON1 m1)"
  have "holds ?m (S(a \<mapsto> xs @ ys))" using m1(4, 5) by (intro free_write m1(2)) auto
  moreover have "list_del e m = Some ?m"
    using m1(1, 4) by (auto simp: list_del_def list_del_entry_def set_next_def set_prev_def split: Option.bind_splits)
  moreover have "dom ?m = dom m" using m1(3) by (auto simp: dom_def simp del: not_None_eq)
  ultimately show ?thesis by blast
qed

lemma unowned_forget:
  assumes "holds m S" "S l = Some ys" "x \<in> set (l # ys)"
  shows "\<not> owned (S(l := None)) x"
proof
  assume "owned (S(l := None)) x"
  then obtain b zs where b: "S b = Some zs" "b \<noteq> l" "x \<in> set (b # zs)" unfolding owned_def by (auto split: if_splits)
  then show False using holds_other [OF assms(1, 2) b(1, 2)] assms(3) by blast
qed

text \<open>The replacement of an entry, and of a head.\<close>

lemma list_replace_ok:
  assumes m: "holds m S" and a: "S a = Some (xs @ e # ys)" and n: "m n \<noteq> None" "\<not> owned S n"
  shows "\<exists>m'. list_replace e n m = Some m' \<and> holds m' (S(a \<mapsto> xs @ n # ys)) \<and> dom m' = dom m \<and> m' e \<noteq> None \<and>
    \<not> owned (S(a \<mapsto> xs @ n # ys)) e"
proof -
  let ?p = "last (a # xs)" and ?x = "hd (ys @ [a])"
  let ?m = "upd_next ?p n (upd_prev n ?p (upd_prev ?x n (upd_next n ?x m)))"
  have r: "ring (nx m) (pv m) a (xs @ e # ys)" using m a by (simp add: holds_def)
  have in': "?p \<in> set (a # xs)" "?x \<in> set (ys @ [a])" by (rule ends_in)+
  have px: "m ?p \<noteq> None" "m ?x \<noteq> None" "m e \<noteq> None"
    using holds_nodes [OF m a, of ?p] holds_nodes [OF m a, of ?x] holds_nodes [OF m a, of e] in' by (auto simp del: last.simps)
  have new: "n \<notin> set (a # xs @ e # ys)" using n(2) a unfolding owned_def by blast
  have e: "e \<notin> set (a # xs @ ys)" using r by (auto simp: ring_def)
  then have ne: "n \<noteq> ?p" "n \<noteq> ?x" "e \<noteq> ?p" "e \<noteq> ?x" "e \<noteq> n" using in' new by (auto simp del: last.simps)
  have links: "nx ?m = (nx m)(?p \<mapsto> ?x, ?p \<mapsto> n, n \<mapsto> ?x)" "pv ?m = (pv m)(?x \<mapsto> ?p, n \<mapsto> ?p, ?x \<mapsto> n)"
    using px n(1) ne by (auto simp: fun_upd_twist simp del: last.simps)
  have "ring (nx ?m) (pv ?m) a (xs @ n # ys)"
    unfolding links using new by (intro ring_insert ring_remove [OF r]) auto
  moreover have "nx ?m x = nx m x \<and> pv ?m x = pv m x" if "x \<notin> {n} \<union> set (a # xs @ e # ys)" for x
    using that in' unfolding links by (auto simp del: last.simps)
  ultimately have "holds ?m (S(a \<mapsto> xs @ n # ys))" using n(2) by (intro holds_one [OF m a, of "{n}"]) auto
  moreover have "list_replace e n m = Some ?m"
    using ring_elem [OF r] px n(1) ne by (simp add: list_replace_def set_next_def set_prev_def del: last.simps)
  moreover have "dom ?m = dom m" "?m e \<noteq> None" using px(3) by (auto simp: dom_def simp del: not_None_eq last.simps)
  moreover have "\<not> owned (S(a \<mapsto> xs @ n # ys)) e"
    using unowned_forget [OF m a, of e] e ne(5) by (auto simp: owned_def split: if_splits)
  ultimately show ?thesis by blast
qed

lemma list_replace_head_ok:
  assumes m: "holds m S" and a: "S a = Some xs" and n: "m n \<noteq> None" "\<not> owned S n"
  shows "\<exists>m'. list_replace a n m = Some m' \<and> holds m' (S(a := None, n \<mapsto> xs)) \<and> dom m' = dom m \<and> m' a \<noteq> None \<and>
    \<not> owned (S(a := None, n \<mapsto> xs)) a"
proof -
  let ?p = "last (n # xs)" and ?x = "hd (xs @ [a])"
  let ?m = "upd_next ?p n (upd_prev n ?p (upd_prev ?x n (upd_next n ?x m)))"
  have r: "ring (nx m) (pv m) a xs" using m a by (simp add: holds_def)
  have new: "n \<notin> set (a # xs)" using n(2) a unfolding owned_def by blast
  have ma: "m a \<noteq> None" using holds_nodes [OF m a] by simp
  have "nx ?m x = nx m x \<and> pv ?m x = pv m x \<and> ring (nx ?m) (pv ?m) n xs \<and> list_replace a n m = Some ?m"
    if "x \<notin> {n} \<union> set (a # xs)" for x
  proof (cases "xs = []")
    case True
    then show ?thesis
      using that r n(1) new ma by (auto simp: list_replace_def set_next_def set_prev_def)
  next
    case False
    have px: "m (last xs) \<noteq> None" "m (hd xs) \<noteq> None" "last xs \<in> set xs" "hd xs \<in> set xs"
      using holds_nodes [OF m a, of "last xs"] holds_nodes [OF m a, of "hd xs"] False by auto
    then have ne: "n \<noteq> last xs" "n \<noteq> hd xs" "a \<noteq> hd xs" "a \<noteq> n" using new r by (auto simp: ring_def)
    have links: "nx ?m = (nx m)(n \<mapsto> hd xs, last xs \<mapsto> n)" "pv ?m = (pv m)(hd xs \<mapsto> n, n \<mapsto> last xs)"
      using px n(1) False by auto
    have "ring (nx ?m) (pv ?m) n xs" unfolding links
      using ring_close [OF ring_chain [OF r] False, of n] r new by (auto simp: ring_def)
    moreover have "list_replace a n m = Some ?m"
      using ring_first [OF r] ring_last [OF r] px n(1) ne False by (simp add: list_replace_def set_next_def set_prev_def)
    ultimately show ?thesis using that px unfolding links by auto
  qed
  moreover obtain z where "z \<notin> {n} \<union> set (a # xs)" using ex_new_if_finite [of "{n} \<union> set (a # xs)"] by auto
  ultimately have A: "ring (nx ?m) (pv ?m) n xs" "list_replace a n m = Some ?m"
      "\<And>x. x \<notin> {n} \<union> set (a # xs) \<Longrightarrow> nx ?m x = nx m x \<and> pv ?m x = pv m x" by blast+
  have H: "holds ?m (S(a := None, n \<mapsto> xs))"
    using n(2) by (intro holds_rehead [OF m a, of "{n}" ?m n xs] A(1) A(3)) auto
  have D: "dom ?m = dom m" "?m a \<noteq> None" using ma by (auto simp: dom_def simp del: not_None_eq last.simps)
  have "\<not> owned (S(a := None, n \<mapsto> xs)) a"
    using unowned_forget [OF m a, of a] new r by (auto simp: owned_def ring_def split: if_splits)
  then show ?thesis using A(2) H D by (intro exI conjI)
qed

text \<open>Splicing and cutting.\<close>

lemma splice_between_ok:
  assumes m: "holds m S" and l: "S l = Some ys" "ys \<noteq> []" and a: "S a = Some (xs @ zs)" "a \<noteq> l"
  shows "\<exists>m'. splice_between l (last (a # xs)) (hd (zs @ [a])) m = Some m' \<and> holds m' (S(l := None, a \<mapsto> xs @ ys @ zs)) \<and>
    dom m' = dom m \<and> m' l \<noteq> None \<and> \<not> owned (S(l := None, a \<mapsto> xs @ ys @ zs)) l"
proof -
  let ?p = "last (a # xs)" and ?x = "hd (zs @ [a])" and ?S = "S(l := None)"
  let ?m = "upd_prev ?x (last ys) (upd_next (last ys) ?x (upd_next ?p (hd ys) (upd_prev (hd ys) ?p m)))"
  have ra: "ring (nx m) (pv m) a (xs @ zs)" and rl: "ring (nx m) (pv m) l ys" using m a(1) l(1) by (simp_all add: holds_def)
  have forget: "holds m ?S" by (rule holds_forget [OF m])
  have d: "set (l # ys) \<inter> set (a # xs @ zs) = {}" using holds_other [OF m a(1) l(1)] a(2) by auto
  have in': "?p \<in> set (a # xs)" "?x \<in> set (zs @ [a])" "hd ys \<in> set ys" "last ys \<in> set ys" using l(2) ends_in(1) [of a xs] ends_in(2) [of zs a] by auto
  have nn: "m ?p \<noteq> None" "m ?x \<noteq> None" "m (hd ys) \<noteq> None" "m (last ys) \<noteq> None" "m l \<noteq> None"
    using holds_nodes [OF m a(1), of ?p] holds_nodes [OF m a(1), of ?x] holds_nodes [OF m l(1)] in' by (auto simp del: last.simps)
  have links: "nx ?m = (nx m)(?p \<mapsto> hd ys, last ys \<mapsto> ?x)" "pv ?m = (pv m)(hd ys \<mapsto> ?p, ?x \<mapsto> last ys)"
    using nn by (auto simp del: last.simps)
  have "ring (nx ?m) (pv ?m) a (xs @ ys @ zs)" unfolding links
    using d rl by (intro ring_splice [OF ra ring_chain [OF rl] l(2)]) (auto simp: ring_def)
  moreover have "nx ?m x = nx m x \<and> pv ?m x = pv m x" if "x \<notin> set (l # ys) \<union> set (a # xs @ zs)" for x
    using that in' unfolding links by (auto simp del: last.simps)
  ultimately have "holds ?m (?S(a \<mapsto> xs @ ys @ zs))"
    using unowned_forget [OF m l(1)] a by (intro holds_one [OF forget, of a "xs @ zs" "set (l # ys)"]) auto
  moreover have "splice_between l ?p ?x m = Some ?m"
    using ring_first [OF rl] ring_last [OF rl] l(2) nn by (simp add: splice_between_def set_next_def set_prev_def del: last.simps)
      (simp add: nn)
  moreover have "dom ?m = dom m" "?m l \<noteq> None" using nn(5) by (auto simp: dom_def simp del: not_None_eq last.simps)
  moreover have "\<not> owned (?S(a \<mapsto> xs @ ys @ zs)) l"
    using unowned_forget [OF m l(1), of l] d rl by (auto simp: owned_def ring_def split: if_splits)
  ultimately show ?thesis by blast
qed

lemma cut_position_ok:
  assumes m: "holds m S" and a: "S a = Some (xs @ e # ys)" and l: "m l \<noteq> None" "\<not> owned S l"
  shows "\<exists>m'. cut_position l a e m = Some m' \<and> holds m' (S(a \<mapsto> ys, l \<mapsto> xs @ [e])) \<and> dom m' = dom m"
proof -
  let ?f = "hd (xs @ [e])" and ?x = "hd (ys @ [a])" and ?S = "S(a \<mapsto> ys, l \<mapsto> xs @ [e])" and ?A = "set (l # a # xs @ e # ys)"
  let ?m = "upd_prev ?x a (upd_next a ?x (upd_next e l (upd_prev l e (upd_prev ?f l (upd_next l ?f m)))))"
  have r: "ring (nx m) (pv m) a (xs @ e # ys)" using m a by (simp add: holds_def)
  have new: "l \<notin> set (a # xs @ e # ys)" using l(2) a unfolding owned_def by blast
  have in': "?f \<in> set (xs @ [e])" "?x \<in> set (ys @ [a])" by (rule ends_in)+
  have nn: "m ?f \<noteq> None" "m ?x \<noteq> None" "m a \<noteq> None" "m e \<noteq> None"
    using holds_nodes [OF m a, of ?f] holds_nodes [OF m a, of ?x] holds_nodes [OF m a, of a] holds_nodes [OF m a, of e] in' by auto
  have links: "nx ?m = (nx m)(l \<mapsto> ?f, e \<mapsto> l, a \<mapsto> ?x)" "pv ?m = (pv m)(?f \<mapsto> l, l \<mapsto> e, ?x \<mapsto> a)"
    using nn l(1) by auto
  have rings: "ring (nx ?m) (pv ?m) l (xs @ [e])" "ring (nx ?m) (pv ?m) a ys"
    unfolding links using ring_cut [of "nx m" "pv m" a "xs @ [e]" ys l] r new by simp_all
  have f: "hd (xs @ e # ys @ [a]) = ?f" by (cases xs) auto
  have run: "cut_position l a e m = Some ?m"
    using ring_elem(1) [OF r] ring_first [OF r] nn l(1) new f by (simp add: cut_position_def set_next_def set_prev_def)
  have old: "S b = Some zs \<and> set (b # zs) \<inter> ?A = {}" if "?S b = Some zs" "b \<noteq> a" "b \<noteq> l" for b zs
    using that holds_other [OF m a, of b zs] l(2) by (auto simp: owned_def)
  have "holds ?m ?S"
  proof (rule holds_change [OF m])
    show "nx ?m x = nx m x \<and> pv ?m x = pv m x" if "x \<notin> ?A" for x using that in' unfolding links by auto
  next
    fix b zs
    assume b: "?S b = Some zs"
    show "(S b = Some zs \<and> set (b # zs) \<inter> ?A = {}) \<or> (set (b # zs) \<subseteq> ?A \<and> ring (nx ?m) (pv ?m) b zs)"
    proof (cases "b = a \<or> b = l")
      case True
      then show ?thesis using b rings new by (auto split: if_splits)
    next
      case False
      then show ?thesis using old [OF b] by blast
    qed
  next
    fix b c us vs
    assume s: "?S b = Some us" "?S c = Some vs" "b \<noteq> c" "set (b # us) \<subseteq> ?A" "set (c # vs) \<subseteq> ?A"
    have "b = a \<or> b = l" "c = a \<or> c = l" using old [OF s(1)] old [OF s(2)] s(4, 5) by auto
    moreover have "set (a # ys) \<inter> set (l # xs @ [e]) = {}" using r new by (auto simp: ring_def)
    ultimately show "set (b # us) \<inter> set (c # vs) = {}" using s(1-3) new by (auto split: if_splits)
  qed
  moreover have "dom ?m = dom m" by (auto simp: dom_def simp del: not_None_eq)
  ultimately show ?thesis using run by blast
qed


section \<open>Queries and loops\<close>

lemma list_empty_eq: "holds m S \<Longrightarrow> S a = Some xs \<Longrightarrow> list_empty a m = Some (xs = [])"
proof -
  assume "holds m S" "S a = Some xs"
  then have r: "ring (nx m) (pv m) a xs" by (simp add: holds_def)
  then have "a \<notin> set xs" by (simp add: ring_def)
  then show ?thesis using ring_first [OF r] by (cases xs) (auto simp: list_empty_def)
qed

lemma visit_next:
  "ring (nx m) (pv m) a (xs @ ys) \<Longrightarrow> length ys < fuel \<Longrightarrow> visit fuel (nx m) a (hd (ys @ [a])) = Some ys"
proof (induction ys arbitrary: xs fuel)
  case Nil
  then show ?case by (cases fuel) auto
next
  case (Cons y ys)
  then obtain f where f: "fuel = Suc f" "length ys < f" by (cases fuel) auto
  have "visit f (nx m) a (hd (ys @ [a])) = Some ys" using Cons.IH [of "xs @ [y]" f] Cons.prems(1) f(2) by simp
  moreover have "y \<noteq> a" using Cons.prems(1) by (auto simp: ring_def)
  ultimately show ?case using ring_elem(1) [OF Cons.prems(1)] f(1) by simp
qed

lemma visit_prev:
  "ring (nx m) (pv m) a (xs @ ys) \<Longrightarrow> length xs < fuel \<Longrightarrow> visit fuel (pv m) a (last (a # xs)) = Some (rev xs)"
proof (induction xs arbitrary: ys fuel rule: rev_induct)
  case Nil
  then show ?case by (cases fuel) auto
next
  case (snoc x xs)
  then obtain f where f: "fuel = Suc f" "length xs < f" by (cases fuel) auto
  have r: "ring (nx m) (pv m) a (xs @ x # ys)" using snoc.prems(1) by simp
  have "visit f (pv m) a (last (a # xs)) = Some (rev xs)" by (rule snoc.IH [OF r f(2)])
  moreover have "x \<noteq> a" using r by (auto simp: ring_def)
  ultimately show ?case using ring_elem(2) [OF r] f(1) by simp
qed

lemma list_for_each_ok:
  assumes "holds m S" "S a = Some xs" "length xs < fuel"
  shows "list_for_each fuel a m = Some xs" "list_for_each_prev fuel a m = Some (rev xs)"
proof -
  have r: "ring (nx m) (pv m) a xs" using assms by (simp add: holds_def)
  then show "list_for_each fuel a m = Some xs" "list_for_each_prev fuel a m = Some (rev xs)"
    using visit_next [of m a "[]" xs fuel] visit_prev [of m a xs "[]" fuel] ring_first [OF r] ring_last [OF r] assms(3)
    by (simp_all add: list_for_each_def list_for_each_prev_def del: last.simps)
qed

lemma list_queries:
  assumes "holds m S" "S a = Some xs"
  shows "list_empty_careful a m = Some (xs = [])" "list_is_singular a m = Some (length xs = 1)"
    "xs = us @ e # vs \<Longrightarrow> list_is_last e a m = Some (vs = [])"
proof -
  have r: "ring (nx m) (pv m) a xs" using assms by (simp add: holds_def)
  note ends = ring_first [OF r] ring_last [OF r]
  have d: "distinct (a # xs)" using r by (simp add: ring_def)
  show "list_empty_careful a m = Some (xs = [])" using ends d by (cases xs) (auto simp: list_empty_careful_def)
  have "hd xs = last xs \<longleftrightarrow> length xs = 1" if "xs \<noteq> []" using d that by (cases xs) (auto simp: last_in_set)
  then show "list_is_singular a m = Some (length xs = 1)"
    using ends list_empty_eq [OF assms] d by (cases "xs = []") (auto simp: list_is_singular_def)
  show "list_is_last e a m = Some (vs = [])" if "xs = us @ e # vs"
    using ring_elem(1) [of "nx m" "pv m" a us e vs] r d that by (cases vs) (auto simp: list_is_last_def)
qed

section \<open>The interface of queues\<close>

lemma holds_single: "ring (nx m) (pv m) a xs \<Longrightarrow> holds m [a \<mapsto> xs]"
  by (auto simp: holds_def split: if_splits)

lemma holds_pair:
  "ring (nx m) (pv m) a xs \<Longrightarrow> ring (nx m) (pv m) b ys \<Longrightarrow> set (b # ys) \<inter> set (a # xs) = {} \<Longrightarrow> holds m [a \<mapsto> xs, b \<mapsto> ys]"
  unfolding holds_def by (auto split: if_splits)

text \<open>An operation that takes one list to another, next to every other list, changes no other.\<close>

lemma separate_op:
  assumes r: "ring (nx m) (pv m) a xs" and A: "set (a # xs) \<subseteq> A"
    and op: "\<And>S. holds m S \<Longrightarrow> S a = Some xs \<Longrightarrow> (\<forall>b ys. S b = Some ys \<longrightarrow> b \<noteq> a \<longrightarrow> set (b # ys) \<inter> A = {}) \<Longrightarrow>
      \<exists>m'. f = Some m' \<and> holds m' (S(a \<mapsto> xs')) \<and> dom m' = dom m"
  shows "\<exists>m'. f = Some m' \<and> ring (nx m') (pv m') a xs' \<and> separate (\<lambda>m. ring (nx m) (pv m)) m m' A \<and>
    (\<lambda>e. m' e \<noteq> None) = (\<lambda>e. m e \<noteq> None)"
proof -
  have "\<exists>m'. f = Some m' \<and> holds m' ([a \<mapsto> xs](a \<mapsto> xs')) \<and> dom m' = dom m"
    by (rule op [OF holds_single [OF r]]) (auto split: if_splits)
  then obtain m' where m': "f = Some m'" "holds m' ([a \<mapsto> xs](a \<mapsto> xs'))" "dom m' = dom m" by blast
  have "ring (nx m') (pv m') b ys" if "set (b # ys) \<inter> A = {}" "ring (nx m) (pv m) b ys" for b ys
  proof -
    have ab: "b \<noteq> a" "set (b # ys) \<inter> set (a # xs) = {}" using that(1) A by auto
    have "\<exists>m'. f = Some m' \<and> holds m' ([a \<mapsto> xs, b \<mapsto> ys](a \<mapsto> xs')) \<and> dom m' = dom m"
      by (rule op [OF holds_pair [OF r that(2) ab(2)]]) (use that(1) ab(1) in \<open>auto split: if_splits\<close>)
    then have "holds m' ([a \<mapsto> xs, b \<mapsto> ys](a \<mapsto> xs'))" using m'(1) by auto
    then show ?thesis using ab(1) by (auto simp: holds_def)
  qed
  moreover have "ring (nx m') (pv m') a xs'" using m'(2) by (simp add: holds_def)
  moreover have "(\<lambda>e. m' e \<noteq> None) = (\<lambda>e. m e \<noteq> None)" using m'(3) by (auto simp: dom_def set_eq_iff fun_eq_iff)
  ultimately show ?thesis using m'(1) by (auto simp: separate_def)
qed

interpretation ll: deque "\<lambda>m. ring (nx m) (pv m)" "\<lambda>m e. m e \<noteq> None" list_add list_add_tail "\<lambda>e h. list_del e"
proof unfold_locales
  fix m h xs e
  assume r: "ring (nx m) (pv m) h xs" and e: "m e \<noteq> None" "e \<notin> set (h # xs)"
  have free: "\<not> owned S e" if "S h = Some xs" "\<forall>b ys. S b = Some ys \<longrightarrow> b \<noteq> h \<longrightarrow> set (b # ys) \<inter> set (e # h # xs) = {}" for S
  proof
    assume "owned S e"
    then obtain b ys where b: "S b = Some ys" "e \<in> set (b # ys)" unfolding owned_def by blast
    have "b \<noteq> h" using b that(1) e(2) by auto
    then show False using b that(2) by auto
  qed
  show "\<exists>m'. list_add e h m = Some m' \<and> ring (nx m') (pv m') h (e # xs) \<and>
      separate (\<lambda>m. ring (nx m) (pv m)) m m' (set (e # h # xs)) \<and> (\<lambda>e. m' e \<noteq> None) = (\<lambda>e. m e \<noteq> None)"
    by (rule separate_op [OF r]) (use list_add_ok e(1) free in auto)
  show "\<exists>m'. list_add_tail e h m = Some m' \<and> ring (nx m') (pv m') h (xs @ [e]) \<and>
      separate (\<lambda>m. ring (nx m) (pv m)) m m' (set (e # h # xs)) \<and> (\<lambda>e. m' e \<noteq> None) = (\<lambda>e. m e \<noteq> None)"
    by (rule separate_op [OF r]) (use list_add_tail_ok e(1) free in auto)
next
  fix m h xs e ys
  assume r: "ring (nx m) (pv m) h (xs @ e # ys)"
  show "\<exists>m'. list_del e m = Some m' \<and> ring (nx m') (pv m') h (xs @ ys) \<and>
      separate (\<lambda>m. ring (nx m) (pv m)) m m' (set (h # xs @ e # ys)) \<and> (\<lambda>e. m' e \<noteq> None) = (\<lambda>e. m e \<noteq> None)"
    by (rule separate_op [OF r]) (use list_del_ok in auto)
next
  fix m h xs
  assume r: "ring (nx m) (pv m) h xs"
  then show "distinct (h # xs)" by (simp add: ring_def)
  show "m e \<noteq> None" if "e \<in> set xs" for e
    using ring_nodes(1) [OF r, of e] node_iff(1) [of m e] that by simp
qed


section \<open>Programs over lists\<close>

datatype list_op =
    OInit addr | OAdd addr addr | OAddTail addr addr | ODel addr | ODelInit addr
  | OReplace addr addr | OReplaceInit addr addr | OMove addr addr | OMoveTail addr addr | ORotate addr
  | OCut addr addr addr | OSplice addr addr | OSpliceTail addr addr | OSpliceInit addr addr | OSpliceTailInit addr addr

fun exec_op :: "list_op \<Rightarrow> heap \<Rightarrow> heap option" where
  "exec_op (OInit l) = INIT_LIST_HEAD l"
| "exec_op (OAdd e a) = list_add e a"
| "exec_op (OAddTail e a) = list_add_tail e a"
| "exec_op (ODel e) = list_del e"
| "exec_op (ODelInit e) = list_del_init e"
| "exec_op (OReplace e n) = list_replace e n"
| "exec_op (OReplaceInit e n) = list_replace_init e n"
| "exec_op (OMove e a) = list_move e a"
| "exec_op (OMoveTail e a) = list_move_tail e a"
| "exec_op (ORotate a) = list_rotate_left a"
| "exec_op (OCut l a e) = list_cut_position l a e"
| "exec_op (OSplice l a) = list_splice l a"
| "exec_op (OSpliceTail l a) = list_splice_tail l a"
| "exec_op (OSpliceInit l a) = list_splice_init l a"
| "exec_op (OSpliceTailInit l a) = list_splice_tail_init l a"

fun exec_ops :: "list_op list \<Rightarrow> heap \<Rightarrow> heap option" where
  "exec_ops [] m = Some m"
| "exec_ops (c # cs) m = do { m \<leftarrow> exec_op c m; exec_ops cs m }"

text \<open>
  What the functions document, on lists of entries, \<open>D\<close> the nodes there are: a new entry is
  free, an old one on some list. The target of a cut is free, or the head of another list
  whose entries are lost.
\<close>

inductive op_spec :: "addr set \<Rightarrow> list_op \<Rightarrow> lists \<Rightarrow> lists \<Rightarrow> bool" for D :: "addr set" where
  sp_init: "e \<in> D \<Longrightarrow> \<not> owned S e \<Longrightarrow> op_spec D (OInit e) S (S(e \<mapsto> []))"
| sp_add: "S a = Some xs \<Longrightarrow> e \<in> D \<Longrightarrow> \<not> owned S e \<Longrightarrow> op_spec D (OAdd e a) S (S(a \<mapsto> e # xs))"
| sp_add_tail: "S a = Some xs \<Longrightarrow> e \<in> D \<Longrightarrow> \<not> owned S e \<Longrightarrow> op_spec D (OAddTail e a) S (S(a \<mapsto> xs @ [e]))"
| sp_del: "S a = Some (xs @ e # ys) \<Longrightarrow> op_spec D (ODel e) S (S(a \<mapsto> xs @ ys))"
| sp_del_init: "S a = Some (xs @ e # ys) \<Longrightarrow> op_spec D (ODelInit e) S (S(a \<mapsto> xs @ ys, e \<mapsto> []))"
| sp_replace: "S a = Some (xs @ e # ys) \<Longrightarrow> n \<in> D \<Longrightarrow> \<not> owned S n \<Longrightarrow> op_spec D (OReplace e n) S (S(a \<mapsto> xs @ n # ys))"
| sp_replace_init: "S a = Some (xs @ e # ys) \<Longrightarrow> n \<in> D \<Longrightarrow> \<not> owned S n \<Longrightarrow>
     op_spec D (OReplaceInit e n) S (S(a \<mapsto> xs @ n # ys, e \<mapsto> []))"
| sp_replace_head: "S a = Some xs \<Longrightarrow> n \<in> D \<Longrightarrow> \<not> owned S n \<Longrightarrow> op_spec D (OReplace a n) S (S(a := None, n \<mapsto> xs))"
| sp_replace_head_init: "S a = Some xs \<Longrightarrow> n \<in> D \<Longrightarrow> \<not> owned S n \<Longrightarrow>
     op_spec D (OReplaceInit a n) S (S(a := None, n \<mapsto> xs, a \<mapsto> []))"
| sp_move: "S b = Some (xs @ e # ys) \<Longrightarrow> (S(b \<mapsto> xs @ ys)) a = Some zs \<Longrightarrow>
     op_spec D (OMove e a) S (S(b \<mapsto> xs @ ys, a \<mapsto> e # zs))"
| sp_move_tail: "S b = Some (xs @ e # ys) \<Longrightarrow> (S(b \<mapsto> xs @ ys)) a = Some zs \<Longrightarrow>
     op_spec D (OMoveTail e a) S (S(b \<mapsto> xs @ ys, a \<mapsto> zs @ [e]))"
| sp_rotate: "S a = Some xs \<Longrightarrow> op_spec D (ORotate a) S (S(a \<mapsto> rotate1 xs))"
| sp_cut: "S a = Some (xs @ e # ys) \<Longrightarrow> l \<in> D \<Longrightarrow> \<not> owned S l \<or> S l \<noteq> None \<and> l \<noteq> a \<Longrightarrow>
     op_spec D (OCut l a e) S (S(l := None, a \<mapsto> ys, l \<mapsto> xs @ [e]))"
| sp_cut_head: "S a = Some xs \<Longrightarrow> xs \<noteq> [] \<Longrightarrow> l \<in> D \<Longrightarrow> \<not> owned S l \<or> S l \<noteq> None \<and> l \<noteq> a \<Longrightarrow>
     op_spec D (OCut l a a) S (S(l := None, l \<mapsto> []))"
| sp_cut_empty: "S a = Some [] \<Longrightarrow> op_spec D (OCut l a e) S S"
| sp_splice: "S l = Some ys \<Longrightarrow> S a = Some xs \<Longrightarrow> a \<noteq> l \<Longrightarrow>
     op_spec D (OSplice l a) S (if ys = [] then S else S(l := None, a \<mapsto> ys @ xs))"
| sp_splice_tail: "S l = Some ys \<Longrightarrow> S a = Some xs \<Longrightarrow> a \<noteq> l \<Longrightarrow>
     op_spec D (OSpliceTail l a) S (if ys = [] then S else S(l := None, a \<mapsto> xs @ ys))"
| sp_splice_init: "S l = Some ys \<Longrightarrow> S a = Some xs \<Longrightarrow> a \<noteq> l \<Longrightarrow> op_spec D (OSpliceInit l a) S (S(a \<mapsto> ys @ xs, l \<mapsto> []))"
| sp_splice_tail_init: "S l = Some ys \<Longrightarrow> S a = Some xs \<Longrightarrow> a \<noteq> l \<Longrightarrow>
     op_spec D (OSpliceTailInit l a) S (S(a \<mapsto> xs @ ys, l \<mapsto> []))"

inductive ops_spec :: "addr set \<Rightarrow> list_op list \<Rightarrow> lists \<Rightarrow> lists \<Rightarrow> bool" for D :: "addr set" where
  sps_Nil: "ops_spec D [] S S"
| sps_Cons: "op_spec D c S S' \<Longrightarrow> ops_spec D cs S' S'' \<Longrightarrow> ops_spec D (c # cs) S S''"

definition simulates :: "heap \<Rightarrow> heap option \<Rightarrow> lists \<Rightarrow> bool" where
  "simulates m f S \<longleftrightarrow> (\<exists>m'. f = Some m' \<and> holds m' S \<and> dom m' = dom m)"

text \<open>Removing or replacing an entry frees it for what follows.\<close>

lemma then_free:
  assumes "\<exists>m'. f = Some m' \<and> holds m' S \<and> dom m' = dom m \<and> m' e \<noteq> None \<and> \<not> owned S e"
    and "\<And>m'. holds m' S \<Longrightarrow> m' e \<noteq> None \<Longrightarrow> \<not> owned S e \<Longrightarrow> \<exists>m''. g m' = Some m'' \<and> holds m'' S' \<and> dom m'' = dom m'"
  shows "simulates m (do { m \<leftarrow> f; g m }) S'"
  using assms unfolding simulates_def by fastforce

lemma then_INIT:
  assumes "\<exists>m'. f = Some m' \<and> holds m' S \<and> dom m' = dom m \<and> m' e \<noteq> None \<and> \<not> owned S e"
  shows "simulates m (do { m \<leftarrow> f; INIT_LIST_HEAD e m }) (S(e \<mapsto> []))"
  by (rule then_free [OF assms]) (rule INIT_ok)

lemma cut_target:
  assumes "holds m S" "\<not> owned S l \<or> S l \<noteq> None \<and> l \<noteq> a"
  shows "holds m (S(l := None))" "\<not> owned (S(l := None)) l"
proof -
  show "holds m (S(l := None))" by (rule holds_forget [OF assms(1)])
  show "\<not> owned (S(l := None)) l"
  proof (cases "S l")
    case None
    then have "S(l := None) = S" by auto
    then show ?thesis using assms(2) None by auto
  next
    case (Some zs)
    then show ?thesis using unowned_forget [OF assms(1), of l zs l] by simp
  qed
qed

lemma splice_ok:
  assumes m: "holds m S" "S l = Some ys" "S a = Some xs" "a \<noteq> l"
  shows "simulates m (list_splice l a m) (if ys = [] then S else S(l := None, a \<mapsto> ys @ xs))"
    and "simulates m (list_splice_tail l a m) (if ys = [] then S else S(l := None, a \<mapsto> xs @ ys))"
    and "simulates m (list_splice_init l a m) (S(a \<mapsto> ys @ xs, l \<mapsto> []))"
    and "simulates m (list_splice_tail_init l a m) (S(a \<mapsto> xs @ ys, l \<mapsto> []))"
proof -
  have r: "ring (nx m) (pv m) a xs" using m by (simp add: holds_def)
  note ends = ring_first [OF r] ring_last [OF r] and e = list_empty_eq [OF m(1, 2)]
  note head = splice_between_ok [OF m(1, 2), of a "[]" xs] and tail = splice_between_ok [OF m(1, 2), of a xs "[]"]
  have upd: "S(l := None, a \<mapsto> zs, l \<mapsto> []) = S(a \<mapsto> zs, l \<mapsto> [])" for zs by auto
  have nil: "S(a \<mapsto> xs, l \<mapsto> []) = S" if "ys = []" using m(2, 3) that by auto
  show "simulates m (list_splice l a m) (if ys = [] then S else S(l := None, a \<mapsto> ys @ xs))"
    using m head ends e by (auto simp: simulates_def list_splice_def)
  show "simulates m (list_splice_tail l a m) (if ys = [] then S else S(l := None, a \<mapsto> xs @ ys))"
    using m tail ends e by (auto simp: simulates_def list_splice_tail_def simp del: last.simps)
  show "simulates m (list_splice_init l a m) (S(a \<mapsto> ys @ xs, l \<mapsto> []))"
  proof (cases "ys = []")
    case True
    then show ?thesis using m(1) e nil by (simp add: simulates_def list_splice_init_def)
  next
    case False
    then have "simulates m (do { m \<leftarrow> splice_between l a (hd (xs @ [a])) m; INIT_LIST_HEAD l m }) (S(l := None, a \<mapsto> ys @ xs, l \<mapsto> []))"
      using head m(3, 4) by (intro then_INIT [of _ "S(l := None, a \<mapsto> ys @ xs)" m l]) auto
    then show ?thesis using False e ends unfolding upd by (simp add: list_splice_init_def)
  qed
  show "simulates m (list_splice_tail_init l a m) (S(a \<mapsto> xs @ ys, l \<mapsto> []))"
  proof (cases "ys = []")
    case True
    then show ?thesis using m(1) e nil by (simp add: simulates_def list_splice_tail_init_def)
  next
    case False
    then have "simulates m (do { m \<leftarrow> splice_between l (last (a # xs)) a m; INIT_LIST_HEAD l m }) (S(l := None, a \<mapsto> xs @ ys, l \<mapsto> []))"
      using tail m(3, 4) by (intro then_INIT [of _ "S(l := None, a \<mapsto> xs @ ys)" m l]) auto
    then show ?thesis using False e ends unfolding upd by (simp add: list_splice_tail_init_def)
  qed
qed


lemma move_ok:
  assumes "holds m S" "S b = Some (xs @ e # ys)" "(S(b \<mapsto> xs @ ys)) a = Some zs"
  shows "simulates m (list_move e a m) (S(b \<mapsto> xs @ ys, a \<mapsto> e # zs))"
    and "simulates m (list_move_tail e a m) (S(b \<mapsto> xs @ ys, a \<mapsto> zs @ [e]))"
proof -
  note del = list_del_entry_ok [OF assms(1, 2)]
  show "simulates m (list_move e a m) (S(b \<mapsto> xs @ ys, a \<mapsto> e # zs))"
    unfolding list_move_def by (rule then_free [OF del]) (rule list_add_ok [of _ "S(b \<mapsto> xs @ ys)" a zs, OF _ assms(3)])
  show "simulates m (list_move_tail e a m) (S(b \<mapsto> xs @ ys, a \<mapsto> zs @ [e]))"
    unfolding list_move_tail_def by (rule then_free [OF del]) (rule list_add_tail_ok [of _ "S(b \<mapsto> xs @ ys)" a zs, OF _ assms(3)])
qed

lemma rotate_ok:
  assumes "holds m S" "S a = Some xs"
  shows "simulates m (list_rotate_left a m) (S(a \<mapsto> rotate1 xs))"
proof (cases xs)
  case Nil
  then have "S(a \<mapsto> rotate1 xs) = S" using assms(2) by auto
  then show ?thesis using list_empty_eq [OF assms] assms(1) Nil by (simp add: list_rotate_left_def simulates_def)
next
  case (Cons x r)
  have "nx m a = Some x" using ring_first [of "nx m" "pv m" a xs] assms Cons by (auto simp: holds_def)
  then show ?thesis
    using list_empty_eq [OF assms] move_ok(2) [OF assms(1), of a "[]" x r a r] assms(2) Cons
    by (simp add: list_rotate_left_def)
qed

lemma cut_ok:
  assumes m: "holds m S" and l: "m l \<noteq> None" "\<not> owned S l \<or> S l \<noteq> None \<and> l \<noteq> a"
  shows "S a = Some (xs @ e # ys) \<Longrightarrow> simulates m (list_cut_position l a e m) (S(l := None, a \<mapsto> ys, l \<mapsto> xs @ [e]))"
    and "S a = Some xs \<Longrightarrow> xs \<noteq> [] \<Longrightarrow> simulates m (list_cut_position l a a m) (S(l := None, l \<mapsto> []))"
proof -
  note t = cut_target [OF m l(2)]
  have ne: "l \<noteq> a" if "S a \<noteq> None" using l(2) that by (auto simp: owned_def)
  show "simulates m (list_cut_position l a e m) (S(l := None, a \<mapsto> ys, l \<mapsto> xs @ [e]))" if a: "S a = Some (xs @ e # ys)"
  proof -
    have r: "ring (nx m) (pv m) a (xs @ e # ys)" using m a by (simp add: holds_def)
    have "(S(l := None)) a = Some (xs @ e # ys)" using a ne by simp
    from cut_position_ok [OF t(1) this l(1) t(2)]
    have "simulates m (cut_position l a e m) (S(l := None, a \<mapsto> ys, l \<mapsto> xs @ [e]))" by (simp add: simulates_def)
    moreover have "e \<noteq> a" using r by (auto simp: ring_def)
    moreover have "hd (xs @ e # ys @ [a]) = e" if "length (xs @ e # ys) = 1" using that by simp
    ultimately show ?thesis
      using list_empty_eq [OF m a] list_queries(2) [OF m a] ring_first [OF r] by (auto simp: list_cut_position_def)
  qed
  show "simulates m (list_cut_position l a a m) (S(l := None, l \<mapsto> []))" if a: "S a = Some xs" "xs \<noteq> []"
  proof -
    have r: "ring (nx m) (pv m) a xs" using m a by (simp add: holds_def)
    show ?thesis
      using INIT_ok [OF t(1) l(1) t(2)] list_empty_eq [OF m a(1)] list_queries(2) [OF m a(1)] ring_first [OF r] a(2)
      by (simp add: list_cut_position_def simulates_def)
  qed
qed

lemma op_simulation:
  assumes m: "holds m S" and c: "op_spec (dom m) c S S'"
  shows "simulates m (exec_op c m) S'"
  using c
proof cases
  case (sp_init e)
  then show ?thesis using INIT_ok [OF m] by (simp add: simulates_def domIff)
next
  case (sp_add a xs e)
  then show ?thesis using list_add_ok [OF m] by (simp add: simulates_def domIff)
next
  case (sp_add_tail a xs e)
  then show ?thesis using list_add_tail_ok [OF m] by (simp add: simulates_def domIff)
next
  case (sp_del a xs e ys)
  then show ?thesis using list_del_ok [OF m] by (simp add: simulates_def)
next
  case (sp_del_init a xs e ys)
  then show ?thesis using then_INIT [OF list_del_entry_ok [OF m]] by (simp add: list_del_init_def)
next
  case (sp_replace a xs e ys n)
  then show ?thesis using list_replace_ok [OF m sp_replace(3), of n] by (auto simp: simulates_def domIff)
next
  case (sp_replace_init a xs e ys n)
  then show ?thesis
    using then_INIT [OF list_replace_ok [OF m sp_replace_init(3), of n]] by (simp add: list_replace_init_def domIff)
next
  case (sp_replace_head a xs n)
  then show ?thesis using list_replace_head_ok [OF m sp_replace_head(3), of n] by (auto simp: simulates_def domIff)
next
  case (sp_replace_head_init a xs n)
  then show ?thesis
    using then_INIT [OF list_replace_head_ok [OF m sp_replace_head_init(3), of n]] by (simp add: list_replace_init_def domIff)
next
  case (sp_move b xs e ys a zs)
  then show ?thesis using move_ok(1) [OF m] by simp
next
  case (sp_move_tail b xs e ys a zs)
  then show ?thesis using move_ok(2) [OF m] by simp
next
  case (sp_rotate a xs)
  then show ?thesis using rotate_ok [OF m] by simp
next
  case (sp_cut a xs e ys l)
  then show ?thesis using cut_ok(1) [OF m _ sp_cut(5) sp_cut(3)] by (simp add: domIff)
next
  case (sp_cut_head a xs l)
  then show ?thesis using cut_ok(2) [OF m _ sp_cut_head(6) sp_cut_head(3, 4)] by (simp add: domIff)
next
  case (sp_cut_empty a l e)
  then show ?thesis using m list_empty_eq [OF m sp_cut_empty(3)] by (simp add: list_cut_position_def simulates_def)
next
  case (sp_splice l ys a xs)
  then show ?thesis using splice_ok(1) [OF m sp_splice(3-5)] by simp
next
  case (sp_splice_tail l ys a xs)
  then show ?thesis using splice_ok(2) [OF m sp_splice_tail(3-5)] by simp
next
  case (sp_splice_init l ys a xs)
  then show ?thesis using splice_ok(3) [OF m sp_splice_init(3-5)] by simp
next
  case (sp_splice_tail_init l ys a xs)
  then show ?thesis using splice_ok(4) [OF m sp_splice_tail_init(3-5)] by simp
qed

lemma ops_simulation:
  "ops_spec D cs S S' \<Longrightarrow> holds m S \<Longrightarrow> dom m = D \<Longrightarrow> simulates m (exec_ops cs m) S'"
proof (induction arbitrary: m rule: ops_spec.induct)
  case (sps_Nil S)
  then show ?case by (simp add: simulates_def)
next
  case (sps_Cons c S S' cs S'')
  obtain m1 where m1: "exec_op c m = Some m1" "holds m1 S'" "dom m1 = dom m"
    using op_simulation [of m S c S'] sps_Cons by (auto simp: simulates_def)
  then show ?case using sps_Cons.IH [OF m1(2)] sps_Cons.prems(2) by (simp add: simulates_def)
qed

section \<open>Properties\<close>

text \<open>
  C13. The list functions implement what they document: a program of calls that
  takes the lists \<open>S\<close> of a memory to the lists \<open>S'\<close>, by the operations on sequences of entries,
  runs without a fault and leaves a memory with exactly the lists \<open>S'\<close>, all of them well formed
  and apart from each other; the loops then visit their entries in order and in reverse.
\<close>

theorem list_refines:
  assumes "holds m S" "ops_spec (dom m) cs S S'"
  shows "\<exists>m'. exec_ops cs m = Some m' \<and> holds m' S' \<and> dom m' = dom m \<and>
    (\<forall>a xs fuel. S' a = Some xs \<and> length xs < fuel \<longrightarrow>
       list_for_each fuel a m' = Some xs \<and> list_for_each_prev fuel a m' = Some (rev xs) \<and>
       list_empty a m' = Some (xs = []) \<and> list_is_singular a m' = Some (length xs = 1))"
proof -
  obtain m' where m': "exec_ops cs m = Some m'" "holds m' S'" "dom m' = dom m"
    using ops_simulation [OF assms(2, 1)] by (auto simp: simulates_def)
  then show ?thesis using list_for_each_ok [OF m'(2)] list_empty_eq [OF m'(2)] list_queries(2) [OF m'(2)] by blast
qed

definition sample_nodes :: heap where
  "sample_nodes a = (if a < 5 then Some \<lparr>lh_next = a, lh_prev = a\<rparr> else None)"

theorem list_refines_witness:
  "\<exists>m'. exec_ops [OAddTail 1 0, OAddTail 2 0, OAdd 3 4, OMove 2 4, OSpliceTailInit 4 0] sample_nodes = Some m' \<and>
     list_for_each 9 0 m' = Some [1, 2, 3] \<and> list_for_each_prev 9 0 m' = Some [3, 2, 1] \<and> list_empty 4 m' = Some True"
proof -
  let ?S0 = "[0 \<mapsto> [], 4 \<mapsto> []]" and ?D = "dom sample_nodes"
  have D: "x \<in> ?D \<longleftrightarrow> x < 5" for x by (simp add: sample_nodes_def domIff)
  have init: "holds sample_nodes ?S0" by (auto simp: holds_def nx_def pv_def sample_nodes_def split: if_splits)
  let ?S1 = "?S0(0 \<mapsto> [] @ [1])" and ?S2 = "?S0(0 \<mapsto> [] @ [1], 0 \<mapsto> [1] @ [2])"
  let ?S3 = "?S2(4 \<mapsto> 3 # [])"
  let ?S4 = "?S3(0 \<mapsto> [1] @ [], 4 \<mapsto> 2 # [3])"
  let ?S5 = "?S4(0 \<mapsto> [1] @ [2, 3], 4 \<mapsto> [])"
  let ?cs = "[OAddTail 1 0, OAddTail 2 0, OAdd 3 4, OMove 2 4, OSpliceTailInit 4 0]"
  have 1: "op_spec ?D (OAddTail 1 0) ?S0 ?S1" "op_spec ?D (OAddTail 2 0) ?S1 ?S2"
    by (rule sp_add_tail; auto simp: D owned_def split: if_splits)+
  have 2: "op_spec ?D (OAdd 3 4) ?S2 ?S3" by (rule sp_add) (auto simp: D owned_def split: if_splits)
  have 3: "op_spec ?D (OMove 2 4) ?S3 ?S4" by (rule sp_move) auto
  have 4: "op_spec ?D (OSpliceTailInit 4 0) ?S4 ?S5" by (rule sp_splice_tail_init) auto
  have "ops_spec ?D ?cs ?S0 ?S5"
    by (rule sps_Cons [OF 1(1) sps_Cons [OF 1(2) sps_Cons [OF 2 sps_Cons [OF 3 sps_Cons [OF 4 sps_Nil]]]]])
  from list_refines [OF init this] obtain m' where m': "exec_ops ?cs sample_nodes = Some m'"
    "\<And>a xs fuel. ?S5 a = Some xs \<Longrightarrow> length xs < fuel \<Longrightarrow> list_for_each fuel a m' = Some xs \<and>
       list_for_each_prev fuel a m' = Some (rev xs) \<and> list_empty a m' = Some (xs = [])" by blast
  show ?thesis using m'(1) m'(2) [of 0 "[1, 2, 3]" 9] m'(2) [of 4 "[]" 9] by simp
qed

end
