(* ===== verification/Bt_Key.thy ===== *)
theory Bt_Key
  imports Prelude "HOL-Library.List_Lexorder"
begin

text \<open>
  Keys of the database, \<^verbatim>\<open>db.1.85/bt_utils.c\<close>: the default comparison of two keys and the default
  prefix routine, which finds how many bytes of a key are needed to tell it from its predecessor.
  A \<^verbatim>\<open>DBT\<close> is the list of its bytes and its \<^verbatim>\<open>size\<close> the length of the list. The order that the
  search relies on is the interface \<open>key_order\<close>, which the default comparison provides for keys
  below 2 GB.
\<close>

section \<open>The routines\<close>

text \<open>The first difference of the first \<open>len\<close> bytes.\<close>

fun defcmp_loop :: "nat \<Rightarrow> u8 list \<Rightarrow> u8 list \<Rightarrow> int option" where
  "defcmp_loop 0 p1 p2 = None"
| "defcmp_loop (Suc len) p1 p2 =
     (if hd p1 \<noteq> hd p2 then Some (uint (hd p1) - uint (hd p2)) else defcmp_loop len (tl p1) (tl p2))"

definition bt_defcmp :: "u8 list \<Rightarrow> u8 list \<Rightarrow> int" where
  "bt_defcmp a b =
     (case defcmp_loop (min (length a) (length b)) a b of
        Some d \<Rightarrow> d
      | None \<Rightarrow> int_of_size (length a) - int_of_size (length b))"

fun defpfx_loop :: "nat \<Rightarrow> u8 list \<Rightarrow> u8 list \<Rightarrow> nat \<Rightarrow> nat option" where
  "defpfx_loop 0 p1 p2 cnt = None"
| "defpfx_loop (Suc len) p1 p2 cnt =
     (if hd p1 \<noteq> hd p2 then Some cnt else defpfx_loop len (tl p1) (tl p2) (cnt + 1))"

definition bt_defpfx :: "u8 list \<Rightarrow> u8 list \<Rightarrow> nat" where
  "bt_defpfx a b =
     (case defpfx_loop (min (length a) (length b)) a b 1 of
        Some cnt \<Rightarrow> cnt
      | None \<Rightarrow> if length a < length b then length a + 1 else length a)"

section \<open>The interface of a comparison\<close>

text \<open>
  What the tree needs of the comparison of keys: it is a three-way comparison for a total preorder
  on the keys that satisfy \<open>okk\<close>.
\<close>

locale key_order =
  fixes okk :: "u8 list \<Rightarrow> bool"
    and cmp :: "u8 list \<Rightarrow> u8 list \<Rightarrow> int"
  assumes cmp_refl: "okk a \<Longrightarrow> cmp a a = 0"
    and cmp_sym: "okk a \<Longrightarrow> okk b \<Longrightarrow> cmp a b < 0 \<longleftrightarrow> 0 < cmp b a"
    and cmp_trans: "okk a \<Longrightarrow> okk b \<Longrightarrow> okk c \<Longrightarrow> cmp a b \<le> 0 \<Longrightarrow> cmp b c \<le> 0 \<Longrightarrow> cmp a c \<le> 0"
begin

definition sorted_keys :: "u8 list list \<Rightarrow> bool" where
  "sorted_keys ks \<longleftrightarrow> (\<forall>k\<in>set ks. okk k) \<and> sorted_wrt (\<lambda>a b. cmp a b \<le> 0) ks"

lemma sorted_keys_ok: "sorted_keys ks \<Longrightarrow> i < length ks \<Longrightarrow> okk (ks ! i)"
  by (simp add: sorted_keys_def)

lemma sorted_keys_nth:
  assumes "sorted_keys ks" "i \<le> j" "j < length ks"
  shows "cmp (ks ! i) (ks ! j) \<le> 0"
proof (cases "i = j")
  case True
  then show ?thesis using assms by (simp add: cmp_refl sorted_keys_ok)
next
  case False
  then show ?thesis
    using assms sorted_wrt_nth_less [of "\<lambda>a b. cmp a b \<le> 0" ks i j] by (auto simp: sorted_keys_def)
qed

text \<open>A key above one entry is above those before it, and one below an entry is below those after it.\<close>

lemma above_all:
  assumes "sorted_keys ks" "okk k" "0 < cmp k (ks ! j)" "i \<le> j" "j < length ks"
  shows "0 < cmp k (ks ! i)"
  using assms cmp_trans [of k "ks ! i" "ks ! j"] sorted_keys_nth [of ks i j]
  by (fastforce simp: sorted_keys_ok)

lemma below_all:
  assumes "sorted_keys ks" "okk k" "cmp k (ks ! j) < 0" "j \<le> i" "i < length ks"
  shows "cmp k (ks ! i) < 0"
proof (rule ccontr)
  assume "\<not> cmp k (ks ! i) < 0"
  then have "cmp (ks ! i) k \<le> 0"
    using assms cmp_sym [of k "ks ! i"] by (simp add: cmp_sym [of k "ks ! i"] sorted_keys_ok)
  then have "cmp (ks ! j) k \<le> 0"
    using assms cmp_trans [of "ks ! j" "ks ! i" k] sorted_keys_nth [of ks j i] by (simp add: sorted_keys_ok)
  then show False using assms cmp_sym [of k "ks ! j"] by (simp add: sorted_keys_ok)
qed

end

section \<open>The default comparison is lexicographic\<close>

lemma defcmp_loop_less:
  "len \<le> length a \<Longrightarrow> len \<le> length b \<Longrightarrow>
   (case defcmp_loop len a b of
      Some d \<Rightarrow> d \<noteq> 0 \<and> (d < 0 \<longleftrightarrow> a < b) \<and> a \<noteq> b
    | None \<Rightarrow> take len a = take len b)"
proof (induction len arbitrary: a b)
  case (Suc len)
  then obtain x xs y ys where ab: "a = x # xs" "b = y # ys"
    by (auto simp: Suc_le_length_iff)
  then show ?case
    using Suc.IH [of xs ys] Suc.prems
    by (auto simp: word_less_def word_uint_eq_iff split: option.splits)
qed simp

lemma take_eq_less:
  "take (min (length a) (length b)) a = take (min (length a) (length b)) (b :: u8 list) \<Longrightarrow>
   (a < b \<longleftrightarrow> length a < length b) \<and> (a = b \<longleftrightarrow> length a = length b)"
proof (induction a arbitrary: b)
  case (Cons x xs)
  then show ?case by (cases b) auto
next
  case Nil
  then show ?case by (cases b) auto
qed

lemma bt_defcmp_less:
  assumes "length a < 2 ^ 31" "length b < 2 ^ 31"
  shows "bt_defcmp a b < 0 \<longleftrightarrow> a < b" and "bt_defcmp a b = 0 \<longleftrightarrow> a = b"
proof -
  let ?n = "min (length a) (length b)"
  have L: "case defcmp_loop ?n a b of
      Some d \<Rightarrow> d \<noteq> 0 \<and> (d < 0 \<longleftrightarrow> a < b) \<and> a \<noteq> b
    | None \<Rightarrow> take ?n a = take ?n b"
    by (rule defcmp_loop_less) simp_all
  show "bt_defcmp a b < 0 \<longleftrightarrow> a < b" "bt_defcmp a b = 0 \<longleftrightarrow> a = b"
    using L take_eq_less [of a b] assms
    by (auto simp: bt_defcmp_def int_of_size_small split: option.splits)
qed

abbreviation small_key :: "u8 list \<Rightarrow> bool" where
  "small_key k \<equiv> length k < 2 ^ 31"

lemma bt_defcmp_pos:
  "small_key a \<Longrightarrow> small_key b \<Longrightarrow> 0 < bt_defcmp a b \<longleftrightarrow> b < a"
  using bt_defcmp_less [of a b] by (metis not_less_iff_gr_or_eq)

lemma bt_defcmp_le:
  "small_key a \<Longrightarrow> small_key b \<Longrightarrow> bt_defcmp a b \<le> 0 \<longleftrightarrow> a \<le> b"
  using bt_defcmp_pos [of a b] by auto

interpretation defkey: key_order small_key bt_defcmp
  by unfold_locales (simp_all add: bt_defcmp_less bt_defcmp_pos bt_defcmp_le)

section \<open>The prefix separates\<close>

lemma defpfx_loop_Some:
  "len \<le> length a \<Longrightarrow> len \<le> length b \<Longrightarrow> defpfx_loop len a b (Suc c) = Some n \<Longrightarrow>
   \<exists>m < len. n = Suc (c + m) \<and> take m a = take m b \<and> a ! m \<noteq> b ! m"
proof (induction len arbitrary: a b c)
  case (Suc len)
  then obtain x xs y ys where ab: "a = x # xs" "b = y # ys"
    by (auto simp: Suc_le_length_iff)
  show ?case
  proof (cases "x = y")
    case True
    then obtain m where "m < len" "n = Suc (Suc c + m)" "take m xs = take m ys" "xs ! m \<noteq> ys ! m"
      using Suc.IH [of xs ys "Suc c"] Suc.prems ab by auto
    then show ?thesis using ab True by (intro exI [of _ "Suc m"]) simp
  qed (use Suc.prems ab in auto)
qed simp

lemma defpfx_loop_None:
  "len \<le> length a \<Longrightarrow> len \<le> length b \<Longrightarrow> defpfx_loop len a b c = None \<Longrightarrow> take len a = take len b"
proof (induction len arbitrary: a b c)
  case (Suc len)
  then obtain x xs y ys where "a = x # xs" "b = y # ys"
    by (auto simp: Suc_le_length_iff)
  then show ?case using Suc.IH [of xs ys] Suc.prems by (auto split: if_splits)
qed simp

lemma less_at:
  "take m a = take m (b :: u8 list) \<Longrightarrow> m < length a \<Longrightarrow> m < length b \<Longrightarrow> a ! m \<noteq> b ! m \<Longrightarrow>
   a < b \<longleftrightarrow> a ! m < b ! m"
proof (induction m arbitrary: a b)
  case 0
  then show ?case by (cases a; cases b) auto
next
  case (Suc m)
  then show ?case by (cases a; cases b) auto
qed

lemma take_less_eq: "take n b \<le> (b :: u8 list)"
proof (induction n arbitrary: b)
  case (Suc n)
  then show ?case by (cases b) auto
qed simp

lemma take_same_less: "take m a = take m (b :: u8 list) \<Longrightarrow> length a = m \<Longrightarrow> m < length b \<Longrightarrow> a < b"
  using take_eq_less [of a b] by (simp add: min_def)

lemma bt_defpfx_separates:
  assumes ab: "(a :: u8 list) < b"
  shows "a < take (bt_defpfx a b) b" "bt_defpfx a b \<le> length b"
    and "\<And>n. n < bt_defpfx a b \<Longrightarrow> take n b \<le> a"
proof -
  let ?n = "min (length a) (length b)"
  have "a < take (bt_defpfx a b) b \<and> bt_defpfx a b \<le> length b \<and>
      (\<forall>n < bt_defpfx a b. take n b \<le> a)"
  proof (cases "defpfx_loop ?n a b 1")
    case None
    then have T: "take ?n a = take ?n b" by (intro defpfx_loop_None) simp_all
    then have L: "length a < length b" using take_eq_less ab by blast
    then have A: "a = take (length a) b" using T by simp
    have "a < take (Suc (length a)) b"
      using L A by (intro take_same_less [of "length a"]) (simp_all add: min_def)
    moreover have "take n b \<le> a" if "n < Suc (length a)" for n
      using that A take_less_eq [of n a] by (metis less_Suc_eq_le min.absorb1 take_take)
    ultimately show ?thesis using None L by (simp add: bt_defpfx_def)
  next
    case (Some n)
    then obtain m where m: "m < ?n" "n = Suc m" "take m a = take m b" "a ! m \<noteq> b ! m"
      using defpfx_loop_Some [of ?n a b 0 n] by auto
    then have "a ! m < b ! m" using less_at [of m a b] ab by simp
    then have "a < take (Suc m) b"
      using m less_at [of m a "take (Suc m) b"] by simp
    moreover have "take k b \<le> a" if "k < Suc m" for k
      using that m take_less_eq [of k a] by (metis less_Suc_eq_le min.absorb1 take_take)
    ultimately show ?thesis using Some m by (simp add: bt_defpfx_def)
  qed
  then show "a < take (bt_defpfx a b) b" "bt_defpfx a b \<le> length b"
    "\<And>n. n < bt_defpfx a b \<Longrightarrow> take n b \<le> a"
    by auto
qed

section \<open>The interface of a prefix\<close>

text \<open>
  What the split of a page needs of the function for prefixes: the prefix of a key separates it from
  every smaller key, and the empty key is the least one.
\<close>

locale key_sep = key_order +
  fixes pfx :: "u8 list \<Rightarrow> u8 list \<Rightarrow> nat"
  assumes least: "okk []" "okk a \<Longrightarrow> cmp [] a \<le> 0"
    and separates: "okk a \<Longrightarrow> okk b \<Longrightarrow> cmp a b < 0 \<Longrightarrow>
      okk (take (pfx a b) b) \<and> cmp a (take (pfx a b) b) < 0 \<and> cmp (take (pfx a b) b) b \<le> 0"
begin

text \<open>A separator is not empty.\<close>

lemma separator_pos:
  assumes "okk a" "okk b" "cmp a b < 0"
  shows "0 < pfx a b"
proof (rule ccontr)
  assume "\<not> 0 < pfx a b"
  then have "cmp a [] < 0" using separates [OF assms] by simp
  then show False using least(2) [OF assms(1)] cmp_sym [OF assms(1) least(1)] by simp
qed

end

lemma take_small_key: "small_key a \<Longrightarrow> small_key (take n a)"
  by (simp add: min_def)

interpretation defpfx: key_sep small_key bt_defcmp bt_defpfx
proof
  fix a b :: "u8 list"
  assume ab: "small_key a" "small_key b" "bt_defcmp a b < 0"
  then have "a < b" using bt_defcmp_less by blast
  then show "small_key (take (bt_defpfx a b) b) \<and> bt_defcmp a (take (bt_defpfx a b) b) < 0 \<and>
      bt_defcmp (take (bt_defpfx a b) b) b \<le> 0"
    using bt_defpfx_separates(1) [of a b] take_less_eq [of "bt_defpfx a b" b] ab(1,2) take_small_key [OF ab(2)]
      bt_defcmp_less [OF ab(1)] bt_defcmp_le [OF _ ab(2)] by blast
qed (simp_all add: bt_defcmp_le)

section \<open>Properties of the keys\<close>

text \<open>
  C23. \<^verbatim>\<open>__bt_defcmp\<close> is the three-way comparison of the lexicographic order of the bytes for all keys
  below 2 GB: negative, zero or positive exactly when the first key is less than, equal to or greater
  than the second.
\<close>

theorem bt_defcmp_lexicographic:
  assumes "length a < 2 ^ 31" "length b < 2 ^ 31"
  shows "sgn (bt_defcmp a b) = (if a < b then -1 else if a = b then 0 else 1)"
  using bt_defcmp_less [OF assms] by (auto simp: sgn_if)

theorem bt_defcmp_lexicographic_witness: "sgn (bt_defcmp [1, 2] [1, 2, 0]) = -1"
  using bt_defcmp_lexicographic [of "[1, 2]" "[1, 2, 0]"] by simp

text \<open>
  C22. \<^verbatim>\<open>__bt_defpfx\<close> gives the shortest prefix of a key that still separates it from its predecessor: for
  keys in ascending order the prefix is above the first key and not above the second, and every
  shorter prefix is not above the first.
\<close>

theorem bt_defpfx_shortest_separator:
  assumes "(a :: u8 list) < b"
  shows "a < take (bt_defpfx a b) b \<and> take (bt_defpfx a b) b \<le> b \<and> bt_defpfx a b \<le> length b \<and>
    (\<forall>n < bt_defpfx a b. take n b \<le> a)"
  using bt_defpfx_separates [OF assms] take_less_eq by blast

theorem bt_defpfx_shortest_separator_witness:
  "bt_defpfx [1, 2] [1, 3, 4] = 2 \<and> [1, 2] < take 2 [1, 3, 4 :: u8]"
proof -
  have "bt_defpfx [1, 2] [1, 3, 4] = 2" by (simp add: bt_defpfx_def)
  then show ?thesis using bt_defpfx_shortest_separator [of "[1, 2]" "[1, 3, 4]"] by simp
qed

end
