(* ===== verification/Bt_Page.thy ===== *)
theory Bt_Page
  imports Bt_Key
begin

text \<open>
  The pages of the B-tree, \<^verbatim>\<open>db.1.85/btree.h\<close>, with the code of \<^verbatim>\<open>bt_put.c\<close> and \<^verbatim>\<open>bt_delete.c\<close> that
  inserts an item into a page and removes one. A page is a header, an array of 16 bit offsets
  that grows upwards, and the items the offsets point to, packed at the end of the page. The
  offsets are from the beginning of the page as in the sources; an access to an offset inside the
  header or beyond the page is \<^const>\<open>None\<close>.

  A page holds a list of items when the offset array lists them in order, they do not overlap, and
  the free space is exactly what the items leave. Inserting and removing an item are shown to be
  the insertion into the list and the removal from it.
\<close>

section \<open>The page\<close>

record PAGE =
  pgno :: u32
  prevpg :: u32
  nextpg :: u32
  flags :: u32
  lower :: u16
  upper :: u16
  body :: "u8 list"

abbreviation (input) P_INVALID :: u32 where "P_INVALID \<equiv> 0"
abbreviation (input) P_ROOT :: u32 where "P_ROOT \<equiv> 1"
abbreviation (input) P_BINTERNAL :: u32 where "P_BINTERNAL \<equiv> 0x01"
abbreviation (input) P_BLEAF :: u32 where "P_BLEAF \<equiv> 0x02"
abbreviation (input) P_OVERFLOW :: u32 where "P_OVERFLOW \<equiv> 0x04"
abbreviation (input) P_RINTERNAL :: u32 where "P_RINTERNAL \<equiv> 0x08"
abbreviation (input) P_RLEAF :: u32 where "P_RLEAF \<equiv> 0x10"
abbreviation (input) P_TYPE :: u32 where "P_TYPE \<equiv> 0x1f"
abbreviation (input) P_PRESERVE :: u32 where "P_PRESERVE \<equiv> 0x20"
abbreviation (input) P_BIGDATA :: u8 where "P_BIGDATA \<equiv> 0x01"
abbreviation (input) P_BIGKEY :: u8 where "P_BIGKEY \<equiv> 0x02"
abbreviation (input) BTDATAOFF :: nat where "BTDATAOFF \<equiv> 20"
abbreviation (input) NOVFLSIZE :: nat where "NOVFLSIZE \<equiv> 8"

definition le_bytes16 :: "u16 \<Rightarrow> u8 list" where
  "le_bytes16 w = [ucast w, ucast (drop_bit 8 w)]"

definition word16_of_le :: "u8 list \<Rightarrow> u16" where
  "word16_of_le bs = ucast (bs ! 0) OR push_bit 8 (ucast (bs ! 1))"

text \<open>Bytes of the page, by their offset from its beginning.\<close>

definition pg_rdn :: "PAGE \<Rightarrow> nat \<Rightarrow> nat \<Rightarrow> u8 list option" where
  "pg_rdn h off n = (if off < BTDATAOFF then None else rdn (body h) (off - BTDATAOFF) n)"

definition pg_wrn :: "PAGE \<Rightarrow> nat \<Rightarrow> u8 list \<Rightarrow> PAGE option" where
  "pg_wrn h off vs =
     (if off < BTDATAOFF then None
      else map_option (\<lambda>b. h\<lparr>body := b\<rparr>) (wrn (body h) (off - BTDATAOFF) vs))"

definition pg_memmove :: "PAGE \<Rightarrow> nat \<Rightarrow> nat \<Rightarrow> nat \<Rightarrow> PAGE option" where
  "pg_memmove h to from n = do { bs \<leftarrow> pg_rdn h from n; pg_wrn h to bs }"

definition pg_rd32 :: "PAGE \<Rightarrow> nat \<Rightarrow> u32 option" where
  "pg_rd32 h off = map_option word32_of_le (pg_rdn h off 4)"

definition linp :: "PAGE \<Rightarrow> nat \<Rightarrow> u16 option" where
  "linp h i = map_option word16_of_le (pg_rdn h (BTDATAOFF + 2 * i) 2)"

definition set_linp :: "PAGE \<Rightarrow> nat \<Rightarrow> u16 \<Rightarrow> PAGE option" where
  "set_linp h i v = pg_wrn h (BTDATAOFF + 2 * i) (le_bytes16 v)"

definition NEXTINDEX :: "PAGE \<Rightarrow> nat" where
  "NEXTINDEX h = unat (ucast (lower h) - of_nat BTDATAOFF :: u64) div 2"

definition LALIGN :: "nat \<Rightarrow> nat" where
  "LALIGN n = (n + 4 - 1) div 4 * 4"

definition NBINTERNAL :: "nat \<Rightarrow> nat" where
  "NBINTERNAL len = LALIGN (4 + 4 + 1 + len)"

definition NBLEAFDBT :: "nat \<Rightarrow> nat \<Rightarrow> nat" where
  "NBLEAFDBT ksize dsize = LALIGN (4 + 4 + 1 + ksize + dsize)"

definition NRINTERNAL :: nat where
  "NRINTERNAL = LALIGN (4 + 4)"

definition NRLEAFDBT :: "nat \<Rightarrow> nat" where
  "NRLEAFDBT dsize = LALIGN (4 + 1 + dsize)"

section \<open>The items\<close>

record BLEAF =
  bl_ksize :: nat
  bl_dsize :: nat
  bl_flags :: u8
  bl_key :: "u8 list"
  bl_data :: "u8 list"

record BINTERNAL =
  bi_ksize :: nat
  bi_pgno :: u32
  bi_flags :: u8
  bi_key :: "u8 list"

text \<open>The item at an index, with the bytes its sizes span.\<close>

definition GETBLEAF :: "PAGE \<Rightarrow> nat \<Rightarrow> BLEAF option" where
  "GETBLEAF h index = do {
     p \<leftarrow> linp h index;
     ks \<leftarrow> pg_rd32 h (unat p);
     ds \<leftarrow> pg_rd32 h (unat p + 4);
     fl \<leftarrow> pg_rdn h (unat p + 8) 1;
     k \<leftarrow> pg_rdn h (unat p + 9) (unat ks);
     d \<leftarrow> pg_rdn h (unat p + 9 + unat ks) (unat ds);
     Some \<lparr>bl_ksize = unat ks, bl_dsize = unat ds, bl_flags = hd fl, bl_key = k, bl_data = d\<rparr> }"

definition GETBINTERNAL :: "PAGE \<Rightarrow> nat \<Rightarrow> BINTERNAL option" where
  "GETBINTERNAL h index = do {
     p \<leftarrow> linp h index;
     ks \<leftarrow> pg_rd32 h (unat p);
     pg \<leftarrow> pg_rd32 h (unat p + 4);
     fl \<leftarrow> pg_rdn h (unat p + 8) 1;
     k \<leftarrow> pg_rdn h (unat p + 9) (unat ks);
     Some \<lparr>bi_ksize = unat ks, bi_pgno = pg, bi_flags = hd fl, bi_key = k\<rparr> }"

text \<open>The writers of a new item, one store after the other as the macros have them.\<close>

definition WR_BLEAF :: "PAGE \<Rightarrow> nat \<Rightarrow> u8 list \<Rightarrow> u8 list \<Rightarrow> u8 \<Rightarrow> PAGE option" where
  "WR_BLEAF h p key data fl = do {
     h \<leftarrow> pg_wrn h p (le_bytes32 (of_nat (length key)));
     h \<leftarrow> pg_wrn h (p + 4) (le_bytes32 (of_nat (length data)));
     h \<leftarrow> pg_wrn h (p + 8) [fl];
     h \<leftarrow> pg_wrn h (p + 9) key;
     pg_wrn h (p + 9 + length key) data }"

definition WR_BINTERNAL :: "PAGE \<Rightarrow> nat \<Rightarrow> u32 \<Rightarrow> u32 \<Rightarrow> u8 \<Rightarrow> PAGE option" where
  "WR_BINTERNAL h p ksz pg fl = do {
     h \<leftarrow> pg_wrn h p (le_bytes32 ksz);
     h \<leftarrow> pg_wrn h (p + 4) (le_bytes32 pg);
     pg_wrn h (p + 8) [fl] }"

definition WR_RLEAF :: "PAGE \<Rightarrow> nat \<Rightarrow> u8 list \<Rightarrow> u8 \<Rightarrow> PAGE option" where
  "WR_RLEAF h p data fl = do {
     h \<leftarrow> pg_wrn h p (le_bytes32 (of_nat (length data)));
     h \<leftarrow> pg_wrn h (p + 4) [fl];
     pg_wrn h (p + 5) data }"

definition WR_RINTERNAL :: "PAGE \<Rightarrow> nat \<Rightarrow> u32 \<Rightarrow> u32 \<Rightarrow> PAGE option" where
  "WR_RINTERNAL h p nrecs pg = do {
     h \<leftarrow> pg_wrn h p (le_bytes32 nrecs);
     pg_wrn h (p + 4) (le_bytes32 pg) }"

section \<open>Insertion and removal\<close>

text \<open>
  The free space is compared as a \<^verbatim>\<open>size_t\<close>.
\<close>

definition pg_full :: "PAGE \<Rightarrow> nat \<Rightarrow> bool" where
  "pg_full h nbytes \<longleftrightarrow> unat (ucast (upper h) - ucast (lower h) :: u64) < nbytes + 2"

text \<open>Opening a slot for an item of \<open>nbytes\<close> bytes at an index.\<close>

definition pg_slot :: "PAGE \<Rightarrow> nat \<Rightarrow> nat \<Rightarrow> PAGE option" where
  "pg_slot h index nbytes = do {
     h \<leftarrow> (if index < NEXTINDEX h
          then pg_memmove h (BTDATAOFF + 2 * (index + 1)) (BTDATAOFF + 2 * index) ((NEXTINDEX h - index) * 2)
          else Some h);
     let h = h\<lparr>lower := lower h + 2, upper := upper h - of_nat nbytes\<rparr>;
     set_linp h index (upper h) }"

definition leaf_insert :: "PAGE \<Rightarrow> nat \<Rightarrow> u8 list \<Rightarrow> u8 list \<Rightarrow> u8 \<Rightarrow> PAGE option" where
  "leaf_insert h index key data fl = do {
     h \<leftarrow> pg_slot h index (NBLEAFDBT (length key) (length data));
     WR_BLEAF h (unat (upper h)) key data fl }"

text \<open>The two loops over the offsets.\<close>

fun shift_low :: "PAGE \<Rightarrow> nat \<Rightarrow> nat \<Rightarrow> u16 \<Rightarrow> nat \<Rightarrow> PAGE option" where
  "shift_low h i 0 offset nbytes = Some h"
| "shift_low h i (Suc cnt) offset nbytes = do {
     v \<leftarrow> linp h i;
     h \<leftarrow> (if v < offset then set_linp h i (v + of_nat nbytes) else Some h);
     shift_low h (Suc i) cnt offset nbytes }"

fun shift_down :: "PAGE \<Rightarrow> nat \<Rightarrow> nat \<Rightarrow> u16 \<Rightarrow> nat \<Rightarrow> PAGE option" where
  "shift_down h i 0 offset nbytes = Some h"
| "shift_down h i (Suc cnt) offset nbytes = do {
     v \<leftarrow> linp h (Suc i);
     h \<leftarrow> set_linp h i (if v < offset then v + of_nat nbytes else v);
     shift_down h (Suc i) cnt offset nbytes }"

text \<open>
  The counter of the second loop is a 16 bit number that is decremented before it is tested.
\<close>

definition pg_pack :: "PAGE \<Rightarrow> nat \<Rightarrow> nat \<Rightarrow> PAGE option" where
  "pg_pack h index nbytes = do {
     to \<leftarrow> linp h index;
     let from = unat (upper h);
     h \<leftarrow> (if unat to < from then None else pg_memmove h (from + nbytes) from (unat to - from));
     let h = h\<lparr>upper := upper h + of_nat nbytes\<rparr>;
     offset \<leftarrow> linp h index;
     h \<leftarrow> shift_low h 0 index offset nbytes;
     h \<leftarrow> shift_down h index (unat (of_nat (NEXTINDEX h - index) - 1 :: u16)) offset nbytes;
     Some (h\<lparr>lower := lower h - 2\<rparr>) }"

section \<open>Reading what was written\<close>

lemma length_le_bytes16 [simp]: "length (le_bytes16 w) = 2"
  by (simp add: le_bytes16_def)

lemma word16_of_le_bytes [byte_conv, simp]: "word16_of_le (le_bytes16 w) = w"
proof (rule bit_eqI)
  fix n assume "possible_bit TYPE(16 word) n"
  then have "n < 16" by simp
  then consider "n < 8" | "8 \<le> n" "n - 8 < 8" by linarith
  then show "bit (word16_of_le (le_bytes16 w)) n = bit w n"
    by cases (auto simp: word16_of_le_def le_bytes16_def bit_simps)
qed

lemma sum_take_drop: "(\<Sum>x\<leftarrow>take n xs. f x) + (\<Sum>x\<leftarrow>drop n xs. f x) = (\<Sum>x\<leftarrow>xs. f x :: nat)"
proof -
  have "(\<Sum>x\<leftarrow>take n xs @ drop n xs. f x) = (\<Sum>x\<leftarrow>take n xs. f x) + (\<Sum>x\<leftarrow>drop n xs. f x)"
    by (simp del: append_take_drop_id)
  then show ?thesis by simp
qed

lemma rdn_wrn_disjoint:
  assumes "wrn b off vs = Some b'" "i + n \<le> off \<or> off + length vs \<le> i"
  shows "rdn b' i n = rdn b i n"
  using assms
  by (auto simp: wrn_def rdn_def min_def le_diff_conv drop_take split: if_splits intro!: nth_equalityI)

lemma rdn_wrn_inside:
  assumes "wrn b off vs = Some b'" "off \<le> i" "i + n \<le> off + length vs"
  shows "rdn b' i n = Some (take n (drop (i - off) vs))"
  using assms by (auto simp: wrn_def rdn_def split: if_splits)

lemma pg_wrn_Some:
  "pg_wrn h off vs = Some h' \<longleftrightarrow>
   BTDATAOFF \<le> off \<and> off + length vs \<le> BTDATAOFF + length (body h) \<and>
   h' = h\<lparr>body := blit (body h) (off - BTDATAOFF) vs\<rparr>"
  by (auto simp: pg_wrn_def wrn_def blit_def)

lemma pg_rdn_Some:
  "pg_rdn h off n = Some bs \<longleftrightarrow>
   BTDATAOFF \<le> off \<and> off + n \<le> BTDATAOFF + length (body h) \<and>
   bs = take n (drop (off - BTDATAOFF) (body h))"
  by (auto simp: pg_rdn_def rdn_def)

definition same_header :: "PAGE \<Rightarrow> PAGE \<Rightarrow> bool" where
  "same_header h h' \<longleftrightarrow> h' = h\<lparr>body := body h'\<rparr> \<and> length (body h') = length (body h)"

lemma same_headerD:
  assumes "same_header h h'"
  shows "pgno h' = pgno h" "prevpg h' = prevpg h" "nextpg h' = nextpg h" "flags h' = flags h"
    "lower h' = lower h" "upper h' = upper h" "length (body h') = length (body h)"
  using assms unfolding same_header_def by (metis PAGE.select_convs PAGE.surjective PAGE.update_convs(7))+

lemma same_header_refl [simp]: "same_header h h"
  by (simp add: same_header_def)

lemma same_header_trans: "same_header a b \<Longrightarrow> same_header b c \<Longrightarrow> same_header a c"
  unfolding same_header_def by (cases a; cases b; cases c) simp

lemma pg_wrn_header: "pg_wrn h off vs = Some h' \<Longrightarrow> same_header h h'"
  by (auto simp: pg_wrn_Some same_header_def)

lemma pg_rdn_wrn_disjoint:
  assumes "pg_wrn h off vs = Some h'" "i + n \<le> off \<or> off + length vs \<le> i"
  shows "pg_rdn h' i n = pg_rdn h i n"
proof (cases "i < BTDATAOFF")
  case False
  from assms obtain b where b: "wrn (body h) (off - BTDATAOFF) vs = Some b" "h' = h\<lparr>body := b\<rparr>" "BTDATAOFF \<le> off"
    by (auto simp: pg_wrn_def split: if_splits)
  have "i - BTDATAOFF + n \<le> off - BTDATAOFF \<or> off - BTDATAOFF + length vs \<le> i - BTDATAOFF"
    using assms(2) False b(3) by auto
  from rdn_wrn_disjoint [OF b(1) this] show ?thesis using False b(2) by (simp add: pg_rdn_def)
qed (simp add: pg_rdn_def)

lemma pg_rdn_wrn_inside:
  assumes "pg_wrn h off vs = Some h'" "off \<le> i" "i + n \<le> off + length vs"
  shows "pg_rdn h' i n = Some (take n (drop (i - off) vs))"
proof -
  from assms obtain b where b: "wrn (body h) (off - BTDATAOFF) vs = Some b" "h' = h\<lparr>body := b\<rparr>" "BTDATAOFF \<le> off"
    by (auto simp: pg_wrn_def split: if_splits)
  have "rdn b (i - BTDATAOFF) n = Some (take n (drop (i - BTDATAOFF - (off - BTDATAOFF)) vs))"
    using assms b(3) by (intro rdn_wrn_inside [OF b(1)]) auto
  then show ?thesis using assms b(2,3) by (simp add: pg_rdn_def)
qed

lemma pg_rdn_part:
  assumes "pg_rdn h off n = Some bs" "off \<le> i" "i + m \<le> off + n"
  shows "pg_rdn h i m = Some (take m (drop (i - off) bs))"
  using assms by (auto simp: pg_rdn_Some drop_take min_def)

lemma pg_rdn_append:
  assumes "pg_rdn h i n = Some as" "pg_rdn h (i + n) m = Some bs"
  shows "pg_rdn h i (n + m) = Some (as @ bs)"
  using assms by (auto simp: pg_rdn_Some take_add) (simp add: add.commute)

lemma pg_wrn_ok:
  "BTDATAOFF \<le> off \<Longrightarrow> off + length vs \<le> BTDATAOFF + length (body h) \<Longrightarrow> \<exists>h'. pg_wrn h off vs = Some h'"
  by (simp add: pg_wrn_Some)

lemma pg_rdn_ok:
  "BTDATAOFF \<le> off \<Longrightarrow> off + n \<le> BTDATAOFF + length (body h) \<Longrightarrow> \<exists>bs. pg_rdn h off n = Some bs \<and> length bs = n"
  by (simp add: pg_rdn_Some)

lemma linp_set_linp:
  assumes "set_linp h i v = Some h'"
  shows "linp h' j = (if j = i then Some v else linp h j)"
proof (cases "j = i")
  case True
  then show ?thesis
    using pg_rdn_wrn_inside [OF assms [unfolded set_linp_def], of "BTDATAOFF + 2 * i" 2]
    by (simp add: linp_def)
next
  case False
  then show ?thesis
    using pg_rdn_wrn_disjoint [OF assms [unfolded set_linp_def], of "BTDATAOFF + 2 * j" 2]
    by (cases "j < i") (simp_all add: linp_def)
qed

lemma set_linp_other:
  assumes "set_linp h i v = Some h'" "BTDATAOFF + 2 * i + 2 \<le> off"
  shows "pg_rdn h' off n = pg_rdn h off n"
  using pg_rdn_wrn_disjoint [OF assms(1) [unfolded set_linp_def], of off n] assms(2) by simp

lemma set_linp_header: "set_linp h i v = Some h' \<Longrightarrow> same_header h h'"
  by (simp add: set_linp_def pg_wrn_header)

lemma set_linp_ok: "2 * i + 2 \<le> length (body h) \<Longrightarrow> \<exists>h'. set_linp h i v = Some h'"
  by (auto simp: set_linp_def intro!: pg_wrn_ok)

lemma linp_cong: "pg_rdn h' (BTDATAOFF + 2 * i) 2 = pg_rdn h (BTDATAOFF + 2 * i) 2 \<Longrightarrow> linp h' i = linp h i"
  by (simp add: linp_def)

section \<open>A page and its items\<close>

text \<open>
  An item is its bytes; on the page it takes a multiple of four of them. An entry is an offset with
  the item found there.
\<close>

definition isize :: "u8 list \<Rightarrow> nat" where
  "isize it = LALIGN (length it)"

definition apart :: "nat \<times> u8 list \<Rightarrow> nat \<times> u8 list \<Rightarrow> bool" where
  "apart e f \<longleftrightarrow> fst e + isize (snd e) \<le> fst f \<or> fst f + isize (snd f) \<le> fst e"

definition entry_ok :: "PAGE \<Rightarrow> nat \<times> u8 list \<Rightarrow> bool" where
  "entry_ok h e \<longleftrightarrow> unat (upper h) \<le> fst e \<and> fst e + isize (snd e) \<le> BTDATAOFF + length (body h) \<and>
     pg_rdn h (fst e) (length (snd e)) = Some (snd e) \<and> snd e \<noteq> []"

definition page_holds :: "PAGE \<Rightarrow> (nat \<times> u8 list) list \<Rightarrow> bool" where
  "page_holds h es \<longleftrightarrow>
     BTDATAOFF + length (body h) < 65536 \<and>
     unat (lower h) = BTDATAOFF + 2 * length es \<and> unat (lower h) \<le> unat (upper h) \<and>
     unat (upper h) + (\<Sum>e\<leftarrow>es. isize (snd e)) = BTDATAOFF + length (body h) \<and>
     (\<forall>i < length es. linp h i = Some (of_nat (fst (es ! i)))) \<and>
     (\<forall>e \<in> set es. entry_ok h e) \<and> sorted_wrt apart es"

definition page_items :: "PAGE \<Rightarrow> u8 list list \<Rightarrow> bool" where
  "page_items h its \<longleftrightarrow> (\<exists>es. page_holds h es \<and> its = map snd es)"

lemma isize_ge: "length it \<le> isize it"
  unfolding isize_def LALIGN_def by presburger

lemma isize_pos: "it \<noteq> [] \<Longrightarrow> 0 < isize it"
  using isize_ge [of it] by (cases it) auto

lemma apart_sym: "apart e f \<longleftrightarrow> apart f e"
  by (auto simp: apart_def)

lemma unat_of_nat16: "n < 65536 \<Longrightarrow> unat (of_nat n :: u16) = n"
  by (simp add: unat_of_nat take_bit_nat_eq_self)

lemma unat_diff64:
  assumes "unat (b :: u16) \<le> unat (a :: u16)"
  shows "unat (ucast a - ucast b :: u64) = unat a - unat b"
proof -
  have U: "unat (ucast w :: u64) = unat (w :: u16)" for w
    by (simp add: unsigned_ucast_eq take_bit_nat_eq_self less_trans [OF unsigned_less])
  show ?thesis using assms by (simp add: unat_sub word_le_nat_alt U)
qed

lemma NEXTINDEX_eq:
  assumes "unat (lower h) = BTDATAOFF + 2 * n"
  shows "NEXTINDEX h = n"
  using assms unat_diff64 [of 20 "lower h"] by (simp add: NEXTINDEX_def)

lemma pg_full_eq:
  "unat (lower h) \<le> unat (upper h) \<Longrightarrow> pg_full h n \<longleftrightarrow> unat (upper h) < unat (lower h) + n + 2"
  by (simp add: pg_full_def unat_diff64) linarith

text \<open>The effect of storing some bytes at an offset.\<close>

definition stores :: "PAGE \<Rightarrow> nat \<Rightarrow> u8 list \<Rightarrow> PAGE \<Rightarrow> bool" where
  "stores h p bs h' \<longleftrightarrow> same_header h h' \<and> pg_rdn h' p (length bs) = Some bs \<and>
     (\<forall>i n. i + n \<le> p \<or> p + length bs \<le> i \<longrightarrow> pg_rdn h' i n = pg_rdn h i n)"

lemma stores_wrn: "pg_wrn h p bs = Some h' \<Longrightarrow> stores h p bs h'"
  using pg_rdn_wrn_inside [of h p bs h' p "length bs"]
  by (auto simp: stores_def pg_wrn_header pg_rdn_wrn_disjoint)

lemma stores_append:
  assumes "stores h p as h1" "stores h1 (p + length as) bs h2"
  shows "stores h p (as @ bs) h2"
proof -
  have "pg_rdn h2 p (length as) = Some as" using assms by (simp add: stores_def)
  then have "pg_rdn h2 p (length as + length bs) = Some (as @ bs)"
    using assms by (intro pg_rdn_append) (simp_all add: stores_def)
  then show ?thesis
    using assms by (auto simp: stores_def intro: same_header_trans)
qed

lemma stores_headerD: "stores h p bs h' \<Longrightarrow> same_header h h'"
  by (simp add: stores_def)

lemma stores_nil: "BTDATAOFF \<le> p \<Longrightarrow> p \<le> BTDATAOFF + length (body h) \<Longrightarrow> stores h p [] h"
  by (simp add: stores_def pg_rdn_Some)

lemma stores_next:
  assumes "stores h p as h1" "p + length as + length bs \<le> BTDATAOFF + length (body h)" "BTDATAOFF \<le> p"
  obtains h2 where "pg_wrn h1 (p + length as) bs = Some h2" "stores h p (as @ bs) h2"
proof -
  have "length (body h1) = length (body h)" using assms(1) stores_headerD same_headerD(7) by blast
  then obtain h2 where h2: "pg_wrn h1 (p + length as) bs = Some h2"
    using pg_wrn_ok [of "p + length as" bs h1] assms by auto
  show ?thesis using that [OF h2] stores_append [OF assms(1) stores_wrn [OF h2]] by blast
qed

text \<open>The bytes of an item.\<close>

definition leaf_bytes :: "u8 list \<Rightarrow> u8 list \<Rightarrow> u8 \<Rightarrow> u8 list" where
  "leaf_bytes key data fl =
     le_bytes32 (of_nat (length key)) @ le_bytes32 (of_nat (length data)) @ [fl] @ key @ data"

definition internal_bytes :: "u8 list \<Rightarrow> u32 \<Rightarrow> u8 \<Rightarrow> u8 list" where
  "internal_bytes key pg fl = le_bytes32 (of_nat (length key)) @ le_bytes32 pg @ [fl] @ key"

lemma length_leaf_bytes [simp]: "length (leaf_bytes key data fl) = 9 + length key + length data"
  by (simp add: leaf_bytes_def)

lemma length_internal_bytes [simp]: "length (internal_bytes key pg fl) = 9 + length key"
  by (simp add: internal_bytes_def)

lemma isize_leaf: "isize (leaf_bytes key data fl) = NBLEAFDBT (length key) (length data)"
  by (simp add: isize_def NBLEAFDBT_def)

lemma isize_internal: "isize (internal_bytes key pg fl) = NBINTERNAL (length key)"
  by (simp add: isize_def NBINTERNAL_def)

lemma WR_BLEAF_stores:
  assumes "BTDATAOFF \<le> p" "p + length (leaf_bytes key data fl) \<le> BTDATAOFF + length (body h)"
  shows "\<exists>h'. WR_BLEAF h p key data fl = Some h' \<and> stores h p (leaf_bytes key data fl) h'"
proof -
  let ?k = "le_bytes32 (of_nat (length key))" and ?d = "le_bytes32 (of_nat (length data))"
  have 0: "stores h p [] h" using assms by (simp add: stores_nil)
  from assms obtain h1 where 1: "pg_wrn h p ?k = Some h1" "stores h p ?k h1"
    by (auto intro: stores_next [OF 0, of ?k])
  from assms obtain h2 where 2: "pg_wrn h1 (p + 4) ?d = Some h2" "stores h p (?k @ ?d) h2"
    by (auto intro: stores_next [OF 1(2), of ?d])
  from assms obtain h3 where 3: "pg_wrn h2 (p + 8) [fl] = Some h3" "stores h p (?k @ ?d @ [fl]) h3"
    by (auto intro: stores_next [OF 2(2), of "[fl]"])
  from assms obtain h4 where 4: "pg_wrn h3 (p + 9) key = Some h4" "stores h p (?k @ ?d @ [fl] @ key) h4"
    by (auto intro: stores_next [OF 3(2), of key])
  from assms obtain h5 where "pg_wrn h4 (p + 9 + length key) data = Some h5"
    "stores h p (?k @ ?d @ [fl] @ key @ data) h5"
    by (auto simp: add.assoc intro: stores_next [OF 4(2), of data])
  with 1 2 3 4 show ?thesis by (simp add: WR_BLEAF_def leaf_bytes_def)
qed

section \<open>Inserting an item\<close>

text \<open>The offsets and the bytes that \<^const>\<open>pg_slot\<close> leaves.\<close>

lemma memmove_up:
  assumes "index < n" "2 * n + 2 \<le> length (body h)"
  shows "\<exists>h'. pg_memmove h (BTDATAOFF + 2 * (index + 1)) (BTDATAOFF + 2 * index) ((n - index) * 2) = Some h' \<and>
    same_header h h' \<and> (\<forall>j < index. linp h' j = linp h j) \<and>
    (\<forall>j. index < j \<and> j \<le> n \<longrightarrow> linp h' j = linp h (j - 1)) \<and>
    (\<forall>off k. BTDATAOFF + 2 * n + 2 \<le> off \<longrightarrow> pg_rdn h' off k = pg_rdn h off k)"
proof -
  let ?from = "BTDATAOFF + 2 * index" and ?to = "BTDATAOFF + 2 * (index + 1)" and ?len = "(n - index) * 2"
  obtain bs where bs: "pg_rdn h ?from ?len = Some bs" "length bs = ?len"
    using pg_rdn_ok [of ?from ?len h] assms by (auto simp: diff_mult_distrib)
  obtain h' where h': "pg_wrn h ?to bs = Some h'"
    using pg_wrn_ok [of ?to bs h] bs(2) assms by (auto simp: diff_mult_distrib)
  show ?thesis
  proof (intro exI conjI allI impI)
    show "pg_memmove h ?to ?from ?len = Some h'" using bs h' by (simp add: pg_memmove_def)
    show "same_header h h'" using pg_wrn_header h' .
    show "linp h' j = linp h j" if "j < index" for j
      using pg_rdn_wrn_disjoint [OF h', of "BTDATAOFF + 2 * j" 2] that by (intro linp_cong) simp
    show "linp h' j = linp h (j - 1)" if "index < j \<and> j \<le> n" for j
    proof -
      have "pg_rdn h' (BTDATAOFF + 2 * j) 2 = Some (take 2 (drop (2 * j - 2 * (index + 1)) bs))"
        using pg_rdn_wrn_inside [OF h', of "BTDATAOFF + 2 * j" 2] bs(2) that by (auto simp: diff_mult_distrib)
      moreover have "pg_rdn h (BTDATAOFF + 2 * (j - 1)) 2 = Some (take 2 (drop (2 * (j - 1) - 2 * index) bs))"
        using pg_rdn_part [OF bs(1), of "BTDATAOFF + 2 * (j - 1)" 2] that by (auto simp: diff_mult_distrib)
      moreover have "2 * j - 2 * (index + 1) = 2 * (j - 1) - 2 * index" by simp
      ultimately show ?thesis by (simp add: linp_def)
    qed
    show "pg_rdn h' off k = pg_rdn h off k" if "BTDATAOFF + 2 * n + 2 \<le> off" for off k
      using pg_rdn_wrn_disjoint [OF h', of off k] bs(2) that assms(1) by simp
  qed
qed

lemma unat_u16_less [simp]: "unat (w :: u16) < 65536"
  using unsigned_less [of w] by simp

lemma unat_sub16:
  assumes "n \<le> unat (w :: u16)"
  shows "unat (w - of_nat n) = unat w - n"
proof -
  have "n < 65536" using assms unat_u16_less [of w] by linarith
  then show ?thesis using assms by (simp add: unat_sub word_le_nat_alt unat_of_nat16)
qed

lemma unat_add16:
  "unat (w :: u16) + n < 65536 \<Longrightarrow> unat (w + of_nat n) = unat w + n"
  by (simp add: unat_word_ariths unat_of_nat16)

lemma pg_slot_effect:
  assumes n: "unat (lower h) = BTDATAOFF + 2 * n" and ix: "index \<le> n"
    and room: "unat (lower h) + 2 + nbytes \<le> unat (upper h)" and up: "unat (upper h) \<le> BTDATAOFF + length (body h)"
  shows "\<exists>h'. pg_slot h index nbytes = Some h' \<and>
    unat (lower h') = unat (lower h) + 2 \<and> unat (upper h') = unat (upper h) - nbytes \<and>
    length (body h') = length (body h) \<and>
    pgno h' = pgno h \<and> prevpg h' = prevpg h \<and> nextpg h' = nextpg h \<and> flags h' = flags h \<and>
    (\<forall>j < index. linp h' j = linp h j) \<and> linp h' index = Some (upper h') \<and>
    (\<forall>j. index < j \<and> j \<le> n \<longrightarrow> linp h' j = linp h (j - 1)) \<and>
    (\<forall>off k. unat (lower h) + 2 \<le> off \<longrightarrow> pg_rdn h' off k = pg_rdn h off k)"
proof -
  have room': "2 * n + 2 \<le> length (body h)" using n room up by linarith
  have lt: "unat (lower h) + 2 < 65536" using room unat_u16_less [of "upper h"] by linarith
  obtain h1 where 1: "(if index < NEXTINDEX h
      then pg_memmove h (BTDATAOFF + 2 * (index + 1)) (BTDATAOFF + 2 * index) ((NEXTINDEX h - index) * 2)
      else Some h) = Some h1" "same_header h h1"
    "\<forall>j < index. linp h1 j = linp h j"
    "\<forall>j. index < j \<and> j \<le> n \<longrightarrow> linp h1 j = linp h (j - 1)"
    "\<forall>off k. BTDATAOFF + 2 * n + 2 \<le> off \<longrightarrow> pg_rdn h1 off k = pg_rdn h off k"
  proof (cases "index < n")
    case True
    show ?thesis using memmove_up [OF True room'] True NEXTINDEX_eq [OF n] that by auto
  next
    case False
    then show ?thesis by (intro that [of h]) (use ix NEXTINDEX_eq [OF n] in auto)
  qed
  let ?h2 = "h1\<lparr>lower := lower h1 + 2, upper := upper h1 - of_nat nbytes\<rparr>"
  have body1: "length (body h1) = length (body h)" using same_headerD(7) [OF 1(2)] .
  obtain h3 where 3: "set_linp ?h2 index (upper ?h2) = Some h3"
    using set_linp_ok [of index ?h2] ix room' body1 by auto
  note hd3 = same_headerD [OF set_linp_header [OF 3]] same_headerD [OF 1(2)]
  have L: "linp ?h2 j = linp h1 j" and R: "pg_rdn ?h2 off k = pg_rdn h1 off k" for j off k
    by (simp_all add: linp_def pg_rdn_def)
  show ?thesis
  proof (intro exI conjI allI impI)
    show "pg_slot h index nbytes = Some h3" using 1(1) 3 by (simp add: pg_slot_def Let_def)
    show "unat (lower h3) = unat (lower h) + 2"
      using hd3 unat_add16 [OF lt] by simp
    show "unat (upper h3) = unat (upper h) - nbytes" using hd3 room by (simp add: unat_sub16)
    show "linp h3 index = Some (upper h3)" using linp_set_linp [OF 3, of index] hd3 by simp
    show "linp h3 j = linp h j" if "j < index" for j
      using linp_set_linp [OF 3, of j] that 1(3) L by simp
    show "linp h3 j = linp h (j - 1)" if "index < j \<and> j \<le> n" for j
      using linp_set_linp [OF 3, of j] that 1(4) L by simp
    show "pg_rdn h3 off k = pg_rdn h off k" if "unat (lower h) + 2 \<le> off" for off k
      using set_linp_other [OF 3, of off k] that n ix 1(5) R by simp
  qed (use hd3 in simp_all)
qed

lemma nth_insert:
  assumes "ix \<le> length es" "j \<le> length es"
  shows "(take ix es @ e # drop ix es) ! j = (if j < ix then es ! j else if j = ix then e else es ! (j - 1))"
  using assms by (auto simp: nth_append min_def nth_Cons')

lemma insert_holds:
  assumes ph: "page_holds h es" and ix: "index \<le> length es" and it: "it \<noteq> []"
    and room: "unat (lower h) + 2 + isize it \<le> unat (upper h)"
  obtains h1 where "pg_slot h index (isize it) = Some h1"
    "BTDATAOFF \<le> unat (upper h1)" "unat (upper h1) + isize it \<le> BTDATAOFF + length (body h1)"
    "flags h1 = flags h" "pgno h1 = pgno h" "prevpg h1 = prevpg h" "nextpg h1 = nextpg h"
    "\<And>h2. stores h1 (unat (upper h1)) it h2 \<Longrightarrow>
       page_holds h2 (take index es @ (unat (upper h1), it) # drop index es)"
proof -
  let ?n = "length es"
  have P: "BTDATAOFF + length (body h) < 65536" "unat (lower h) = BTDATAOFF + 2 * ?n"
    "unat (lower h) \<le> unat (upper h)"
    "unat (upper h) + (\<Sum>e\<leftarrow>es. isize (snd e)) = BTDATAOFF + length (body h)"
    "\<And>i. i < ?n \<Longrightarrow> linp h i = Some (of_nat (fst (es ! i)))" "\<And>e. e \<in> set es \<Longrightarrow> entry_ok h e"
    "sorted_wrt apart es"
    using ph by (auto simp: page_holds_def)
  have "unat (upper h) \<le> BTDATAOFF + length (body h)" using P(4) by linarith
  then obtain h1 where 1: "pg_slot h index (isize it) = Some h1"
    "unat (lower h1) = unat (lower h) + 2" "unat (upper h1) = unat (upper h) - isize it"
    "length (body h1) = length (body h)"
    "pgno h1 = pgno h" "prevpg h1 = prevpg h" "nextpg h1 = nextpg h" "flags h1 = flags h"
    "\<forall>j < index. linp h1 j = linp h j" "linp h1 index = Some (upper h1)"
    "\<forall>j. index < j \<and> j \<le> ?n \<longrightarrow> linp h1 j = linp h (j - 1)"
    "\<forall>off k. unat (lower h) + 2 \<le> off \<longrightarrow> pg_rdn h1 off k = pg_rdn h off k"
    using pg_slot_effect [OF P(2) ix room] by auto
  let ?u = "unat (upper h1)"
  have u: "?u + isize it = unat (upper h)" "unat (lower h) + 2 \<le> ?u" using 1(3) room by auto
  have "page_holds h2 (take index es @ (?u, it) # drop index es)" if st: "stores h1 ?u it h2" for h2
  proof -
    note hd2 = same_headerD [OF stores_headerD [OF st]]
    have far: "pg_rdn h2 off k = pg_rdn h off k" if "unat (upper h) \<le> off" for off k
    proof -
      have "pg_rdn h2 off k = pg_rdn h1 off k"
        using st that u isize_ge [of it] unfolding stores_def by (metis le_trans add_le_cancel_left)
      then show ?thesis using 1(12) that u by simp
    qed
    have near: "linp h2 j = linp h1 j" if "j \<le> ?n" for j
      using st that u P(2) by (intro linp_cong) (simp add: stores_def)
    have sum: "(\<Sum>e\<leftarrow>take index es. isize (snd e)) + (\<Sum>e\<leftarrow>drop index es. isize (snd e)) =
        (\<Sum>e\<leftarrow>es. isize (snd e))"
      by (rule sum_take_drop)
    have ents: "entry_ok h2 e" if "e \<in> set es" for e
      using P(6) [OF that] u hd2 1(4) far [of "fst e" "length (snd e)"] by (auto simp: entry_ok_def)
    have new: "entry_ok h2 (?u, it)"
      using st hd2 1(4) u P(4) it by (auto simp: entry_ok_def stores_def)
    have "apart e (?u, it)" if "e \<in> set es" for e
      using P(6) [OF that] u by (auto simp: entry_ok_def apart_def)
    then have sep: "sorted_wrt apart (take index es @ (?u, it) # drop index es)"
      using P(7) apart_sym
      by (auto simp: sorted_wrt_append dest: in_set_takeD in_set_dropD
          intro: sorted_wrt_take sorted_wrt_drop)
        (metis append_take_drop_id sorted_wrt_append)
    show ?thesis
      unfolding page_holds_def
    proof (intro conjI allI impI ballI)
      fix j assume "j < length (take index es @ (?u, it) # drop index es)"
      then have "j \<le> ?n" using ix by simp
      then show "linp h2 j = Some (of_nat (fst ((take index es @ (?u, it) # drop index es) ! j)))"
        unfolding nth_insert [OF ix \<open>j \<le> ?n\<close>] near [OF \<open>j \<le> ?n\<close>]
        using 1(9,10,11) P(5) ix by (cases "j < index"; cases "j = index") simp_all
    next
      fix e assume "e \<in> set (take index es @ (?u, it) # drop index es)"
      then have "e \<in> set es \<or> e = (?u, it)"
        by (auto dest: in_set_takeD in_set_dropD simp del: split_paired_All)
      then show "entry_ok h2 e" using ents new by blast
    qed (use hd2 1 P u sum sep ix in simp_all)
  qed
  then show ?thesis
    using that [of h1] 1 u P by simp
qed

section \<open>Removing an item\<close>

definition moved :: "u16 \<Rightarrow> nat \<Rightarrow> u16 \<Rightarrow> u16" where
  "moved offset nbytes v = (if v < offset then v + of_nat nbytes else v)"

lemma linp_ok: "2 * i + 2 \<le> length (body h) \<Longrightarrow> \<exists>v. linp h i = Some v"
  using pg_rdn_ok [of "BTDATAOFF + 2 * i" 2 h] by (auto simp: linp_def)

lemma shift_low_effect:
  "2 * (i + cnt) \<le> length (body h) \<Longrightarrow>
   \<exists>h'. shift_low h i cnt offset nbytes = Some h' \<and> same_header h h' \<and>
     (\<forall>j. linp h' j = (if i \<le> j \<and> j < i + cnt then map_option (moved offset nbytes) (linp h j) else linp h j)) \<and>
     (\<forall>off k. BTDATAOFF + 2 * (i + cnt) \<le> off \<longrightarrow> pg_rdn h' off k = pg_rdn h off k)"
proof (induction cnt arbitrary: h i)
  case (Suc cnt)
  obtain v where v: "linp h i = Some v" using linp_ok [of i h] Suc.prems by auto
  obtain h1 where h1: "(if v < offset then set_linp h i (v + of_nat nbytes) else Some h) = Some h1"
    using set_linp_ok [of i h "v + of_nat nbytes"] Suc.prems by (cases "v < offset") auto
  have H: "same_header h h1" using h1 set_linp_header by (auto split: if_splits)
  have L: "linp h1 j = (if j = i then Some (moved offset nbytes v) else linp h j)" for j
    using h1 v linp_set_linp [of h i _ h1] by (auto simp: moved_def split: if_splits)
  have R: "pg_rdn h1 off k = pg_rdn h off k" if "BTDATAOFF + 2 * i + 2 \<le> off" for off k
    using h1 that set_linp_other [of h i _ h1] by (auto split: if_splits)
  obtain h2 where 2: "shift_low h1 (Suc i) cnt offset nbytes = Some h2" "same_header h1 h2"
    "\<forall>j. linp h2 j = (if Suc i \<le> j \<and> j < Suc i + cnt then map_option (moved offset nbytes) (linp h1 j) else linp h1 j)"
    "\<forall>off k. BTDATAOFF + 2 * (Suc i + cnt) \<le> off \<longrightarrow> pg_rdn h2 off k = pg_rdn h1 off k"
    using Suc.IH [of "Suc i" h1] Suc.prems same_headerD(7) [OF H] by auto
  show ?case
  proof (intro exI conjI allI impI)
    show "shift_low h i (Suc cnt) offset nbytes = Some h2" using v h1 2(1) by simp
    show "same_header h h2" using same_header_trans H 2(2) .
    show "linp h2 j = (if i \<le> j \<and> j < i + Suc cnt then map_option (moved offset nbytes) (linp h j) else linp h j)" for j
      using 2(3) L v by auto
    show "pg_rdn h2 off k = pg_rdn h off k" if "BTDATAOFF + 2 * (i + Suc cnt) \<le> off" for off k
      using 2(4) R that by simp
  qed
qed auto

lemma shift_down_effect:
  "2 * (i + cnt) + 2 \<le> length (body h) \<Longrightarrow>
   \<exists>h'. shift_down h i cnt offset nbytes = Some h' \<and> same_header h h' \<and>
     (\<forall>j. linp h' j = (if i \<le> j \<and> j < i + cnt then map_option (moved offset nbytes) (linp h (Suc j)) else linp h j)) \<and>
     (\<forall>off k. BTDATAOFF + 2 * (i + cnt) \<le> off \<longrightarrow> pg_rdn h' off k = pg_rdn h off k)"
proof (induction cnt arbitrary: h i)
  case (Suc cnt)
  obtain v where v: "linp h (Suc i) = Some v" using linp_ok [of "Suc i" h] Suc.prems by auto
  obtain h1 where h1: "set_linp h i (moved offset nbytes v) = Some h1"
    using set_linp_ok [of i h] Suc.prems by auto
  have H: "same_header h h1" using h1 set_linp_header by blast
  have L: "linp h1 j = (if j = i then Some (moved offset nbytes v) else linp h j)" for j
    using linp_set_linp [OF h1] by simp
  have R: "pg_rdn h1 off k = pg_rdn h off k" if "BTDATAOFF + 2 * i + 2 \<le> off" for off k
    using set_linp_other [OF h1 that] .
  obtain h2 where 2: "shift_down h1 (Suc i) cnt offset nbytes = Some h2" "same_header h1 h2"
    "\<forall>j. linp h2 j = (if Suc i \<le> j \<and> j < Suc i + cnt
       then map_option (moved offset nbytes) (linp h1 (Suc j)) else linp h1 j)"
    "\<forall>off k. BTDATAOFF + 2 * (Suc i + cnt) \<le> off \<longrightarrow> pg_rdn h2 off k = pg_rdn h1 off k"
    using Suc.IH [of "Suc i" h1] Suc.prems same_headerD(7) [OF H] by auto
  show ?case
  proof (intro exI conjI allI impI)
    show "shift_down h i (Suc cnt) offset nbytes = Some h2"
      using v h1 2(1) by (simp add: moved_def [symmetric])
    show "same_header h h2" using same_header_trans H 2(2) .
    show "linp h2 j =
        (if i \<le> j \<and> j < i + Suc cnt then map_option (moved offset nbytes) (linp h (Suc j)) else linp h j)" for j
      using 2(3) L v by auto
    show "pg_rdn h2 off k = pg_rdn h off k" if "BTDATAOFF + 2 * (i + Suc cnt) \<le> off" for off k
      using 2(4) R that by simp
  qed
qed auto

text \<open>The items below the removed one move up by its size.\<close>

lemma memmove_pack:
  assumes "BTDATAOFF \<le> from" "from \<le> to" "to + nbytes \<le> BTDATAOFF + length (body h)"
  shows "\<exists>h'. pg_memmove h (from + nbytes) from (to - from) = Some h' \<and> same_header h h' \<and>
    (\<forall>off k. off + k \<le> from + nbytes \<or> to + nbytes \<le> off \<longrightarrow> pg_rdn h' off k = pg_rdn h off k) \<and>
    (\<forall>off k. from \<le> off \<and> off + k \<le> to \<longrightarrow> pg_rdn h' (off + nbytes) k = pg_rdn h off k)"
proof -
  obtain bs where bs: "pg_rdn h from (to - from) = Some bs" "length bs = to - from"
    using pg_rdn_ok [of "from" "to - from" h] assms by auto
  obtain h' where h': "pg_wrn h (from + nbytes) bs = Some h'"
    using pg_wrn_ok [of "from + nbytes" bs h] assms bs(2) by auto
  show ?thesis
  proof (intro exI conjI allI impI)
    show "pg_memmove h (from + nbytes) from (to - from) = Some h'"
      using bs h' by (simp add: pg_memmove_def)
    show "same_header h h'" using pg_wrn_header h' .
    show "pg_rdn h' off k = pg_rdn h off k" if "off + k \<le> from + nbytes \<or> to + nbytes \<le> off" for off k
      using pg_rdn_wrn_disjoint [OF h', of off k] that bs(2) assms by auto
    show "pg_rdn h' (off + nbytes) k = pg_rdn h off k" if "from \<le> off \<and> off + k \<le> to" for off k
      using pg_rdn_wrn_inside [OF h', of "off + nbytes" k] pg_rdn_part [OF bs(1), of off k] that bs(2) by simp
  qed
qed

definition drop_entry :: "(nat \<times> u8 list) list \<Rightarrow> nat \<Rightarrow> (nat \<times> u8 list) list" where
  "drop_entry es index =
     map (\<lambda>e. (if fst e < fst (es ! index) then fst e + isize (snd (es ! index)) else fst e, snd e))
       (take index es @ drop (Suc index) es)"

lemma pack_effect:
  assumes n: "unat (lower h) = BTDATAOFF + 2 * n" and ix: "index < n"
    and to: "linp h index = Some (of_nat to)" "unat (lower h) \<le> unat (upper h)" "unat (upper h) \<le> to"
    and room: "to + nbytes \<le> BTDATAOFF + length (body h)" "BTDATAOFF + length (body h) < 65536"
  shows "\<exists>h'. pg_pack h index nbytes = Some h' \<and>
    unat (lower h') = unat (lower h) - 2 \<and> unat (upper h') = unat (upper h) + nbytes \<and>
    length (body h') = length (body h) \<and>
    pgno h' = pgno h \<and> prevpg h' = prevpg h \<and> nextpg h' = nextpg h \<and> flags h' = flags h \<and>
    (\<forall>j < index. linp h' j = map_option (moved (of_nat to) nbytes) (linp h j)) \<and>
    (\<forall>j. index \<le> j \<and> j < n - 1 \<longrightarrow> linp h' j = map_option (moved (of_nat to) nbytes) (linp h (Suc j))) \<and>
    (\<forall>off k. to + nbytes \<le> off \<longrightarrow> pg_rdn h' off k = pg_rdn h off k) \<and>
    (\<forall>off k. unat (upper h) \<le> off \<and> off + k \<le> to \<longrightarrow> pg_rdn h' (off + nbytes) k = pg_rdn h off k)"
proof -
  let ?from = "unat (upper h)"
  have uto: "unat (of_nat to :: u16) = to" using room by (intro unat_of_nat16) simp
  obtain h1 where 1: "pg_memmove h (?from + nbytes) ?from (to - ?from) = Some h1" "same_header h h1"
    "\<forall>off k. off + k \<le> ?from + nbytes \<or> to + nbytes \<le> off \<longrightarrow> pg_rdn h1 off k = pg_rdn h off k"
    "\<forall>off k. ?from \<le> off \<and> off + k \<le> to \<longrightarrow> pg_rdn h1 (off + nbytes) k = pg_rdn h off k"
    using memmove_pack [of ?from to nbytes h] to n room by auto
  let ?h2 = "h1\<lparr>upper := upper h1 + of_nat nbytes\<rparr>"
  note hd1 = same_headerD [OF 1(2)]
  have R: "pg_rdn ?h2 off k = pg_rdn h1 off k" for off k by (simp add: pg_rdn_def)
  have L: "linp ?h2 j = linp h j" if "j < n" for j
    using 1(3) that n to by (intro linp_cong) (simp add: R)
  have len: "2 * n \<le> length (body h)" using n to room by linarith
  obtain h3 where 3: "shift_low ?h2 0 index (of_nat to) nbytes = Some h3" "same_header ?h2 h3"
    "\<forall>j. linp h3 j = (if 0 \<le> j \<and> j < 0 + index then map_option (moved (of_nat to) nbytes) (linp ?h2 j) else linp ?h2 j)"
    "\<forall>off k. BTDATAOFF + 2 * (0 + index) \<le> off \<longrightarrow> pg_rdn h3 off k = pg_rdn ?h2 off k"
    using shift_low_effect [of 0 index ?h2 "of_nat to" nbytes] ix len hd1 by auto
  note hd3 = same_headerD [OF 3(2)]
  have nx: "NEXTINDEX h3 = n" using NEXTINDEX_eq [of h3 n] hd1 hd3 n by simp
  have "n < 65536" using len room by linarith
  then have cnt: "unat (of_nat (n - index) - 1 :: u16) = n - index - 1"
    using unat_sub16 [of 1 "of_nat (n - index)"] unat_of_nat16 [of "n - index"] ix by simp
  have len3: "2 * (index + (n - index - 1)) + 2 \<le> length (body h3)"
    using ix len hd1 hd3 by (cases n) simp_all
  obtain h4 where 4: "shift_down h3 index (n - index - 1) (of_nat to) nbytes = Some h4" "same_header h3 h4"
    "\<forall>j. linp h4 j = (if index \<le> j \<and> j < index + (n - index - 1)
       then map_option (moved (of_nat to) nbytes) (linp h3 (Suc j)) else linp h3 j)"
    "\<forall>off k. BTDATAOFF + 2 * (index + (n - index - 1)) \<le> off \<longrightarrow> pg_rdn h4 off k = pg_rdn h3 off k"
    using shift_down_effect [OF len3, of "of_nat to" nbytes] by blast
  note hd4 = same_headerD [OF 4(2)]
  let ?h5 = "h4\<lparr>lower := lower h4 - 2\<rparr>"
  have R5: "pg_rdn ?h5 off k = pg_rdn h4 off k" "linp ?h5 j = linp h4 j" for off k j
    by (simp_all add: pg_rdn_def linp_def)
  have far: "pg_rdn h4 off k = pg_rdn h1 off k" if "unat (lower h) \<le> off" for off k
    using 4(4) 3(4) R that n ix by auto
  show ?thesis
  proof (intro exI conjI allI impI)
    show "pg_pack h index nbytes = Some ?h5"
      using to uto 1(1) 3(1) 4(1) nx cnt L [OF ix] by (simp add: pg_pack_def Let_def)
    show "unat (lower ?h5) = unat (lower h) - 2"
      using hd1 hd3 hd4 n ix unat_sub16 [of 2 "lower h"] by simp
    show "unat (upper ?h5) = ?from + nbytes"
      using hd1 hd3 hd4 to room unat_add16 [of "upper h" nbytes] by simp
    show "linp ?h5 j = map_option (moved (of_nat to) nbytes) (linp h j)" if "j < index" for j
      using 4(3) 3(3) L that ix by (simp add: R5)
    show "linp ?h5 j = map_option (moved (of_nat to) nbytes) (linp h (Suc j))" if "index \<le> j \<and> j < n - 1" for j
    proof -
      have "Suc j < n" using that by linarith
      then show ?thesis using 4(3) 3(3) L [of "Suc j"] that by (simp add: R5)
    qed
    show "pg_rdn ?h5 off k = pg_rdn h off k" if "to + nbytes \<le> off" for off k
      using far 1(3) that to by (simp add: R5)
    show "pg_rdn ?h5 (off + nbytes) k = pg_rdn h off k" if "?from \<le> off \<and> off + k \<le> to" for off k
      using far 1(4) that to by (simp add: R5)
  qed (use hd1 hd3 hd4 in simp_all)
qed

lemma pack_holds:
  assumes ph: "page_holds h es" and ix: "index < length es"
  shows "\<exists>h'. pg_pack h index (isize (snd (es ! index))) = Some h' \<and> page_holds h' (drop_entry es index) \<and>
    unat (upper h') = unat (upper h) + isize (snd (es ! index)) \<and> unat (lower h') = unat (lower h) - 2 \<and>
    pgno h' = pgno h \<and> prevpg h' = prevpg h \<and> nextpg h' = nextpg h \<and> flags h' = flags h"
proof -
  let ?n = "length es" and ?to = "fst (es ! index)" and ?nb = "isize (snd (es ! index))"
  have P: "BTDATAOFF + length (body h) < 65536" "unat (lower h) = BTDATAOFF + 2 * ?n"
    "unat (lower h) \<le> unat (upper h)"
    "unat (upper h) + (\<Sum>e\<leftarrow>es. isize (snd e)) = BTDATAOFF + length (body h)"
    "\<And>i. i < ?n \<Longrightarrow> linp h i = Some (of_nat (fst (es ! i)))" "\<And>e. e \<in> set es \<Longrightarrow> entry_ok h e"
    "sorted_wrt apart es"
    using ph by (auto simp: page_holds_def)
  have this_ok: "unat (upper h) \<le> ?to" "?to + ?nb \<le> BTDATAOFF + length (body h)" "snd (es ! index) \<noteq> []"
    using P(6) [OF nth_mem [OF ix]] by (simp_all add: entry_ok_def)
  obtain h' where h': "pg_pack h index ?nb = Some h'"
    "unat (lower h') = unat (lower h) - 2" "unat (upper h') = unat (upper h) + ?nb"
    "length (body h') = length (body h)"
    "pgno h' = pgno h" "prevpg h' = prevpg h" "nextpg h' = nextpg h" "flags h' = flags h"
    "\<forall>j < index. linp h' j = map_option (moved (of_nat ?to) ?nb) (linp h j)"
    "\<forall>j. index \<le> j \<and> j < ?n - 1 \<longrightarrow> linp h' j = map_option (moved (of_nat ?to) ?nb) (linp h (Suc j))"
    "\<forall>off k. ?to + ?nb \<le> off \<longrightarrow> pg_rdn h' off k = pg_rdn h off k"
    "\<forall>off k. unat (upper h) \<le> off \<and> off + k \<le> ?to \<longrightarrow> pg_rdn h' (off + ?nb) k = pg_rdn h off k"
    using pack_effect [OF P(2) ix P(5) [OF ix] P(3) this_ok(1,2) P(1)] by blast
  define mv where "mv e = (if fst e < ?to then fst e + ?nb else fst e, snd e)" for e :: "nat \<times> u8 list"
  let ?rest = "take index es @ drop (Suc index) es"
  have de: "drop_entry es index = map mv ?rest" by (simp add: drop_entry_def mv_def)
  have split: "es = take index es @ es ! index # drop (Suc index) es" using id_take_nth_drop [OF ix] .
  have sub: "e \<in> set es \<and> apart e (es ! index)" if "e \<in> set ?rest" for e
  proof -
    have S: "sorted_wrt apart (take index es @ es ! index # drop (Suc index) es)" using P(7) split by simp
    have "apart e (es ! index)"
      using that S apart_sym by (fastforce simp: sorted_wrt_append)
    then show ?thesis using that by (auto dest: in_set_takeD in_set_dropD simp del: split_paired_All)
  qed
  have of16: "of_nat (fst (mv e)) = moved (of_nat ?to) ?nb (of_nat (fst e))" if "e \<in> set es" for e
  proof -
    have "fst e < 65536" "?to < 65536"
      using P(6) [OF that] this_ok P(1) by (auto simp: entry_ok_def)
    then show ?thesis by (auto simp: mv_def moved_def word_less_nat_alt unat_of_nat16)
  qed
  have ent: "entry_ok h' (mv e)" if "e \<in> set ?rest" for e
  proof -
    have e: "entry_ok h e" "apart e (es ! index)" using sub [OF that] P(6) by blast+
    have sz: "length (snd e) \<le> isize (snd e)" "0 < ?nb" "0 < isize (snd e)"
      using isize_ge this_ok(3) e(1) by (auto simp: isize_pos entry_ok_def)
    show ?thesis
    proof (cases "fst e < ?to")
      case True
      then have below: "fst e + isize (snd e) \<le> ?to" using e(2) sz by (auto simp: apart_def)
      then have "pg_rdn h' (fst e + ?nb) (length (snd e)) = pg_rdn h (fst e) (length (snd e))"
        using h'(12) e(1) sz by (auto simp: entry_ok_def)
      then show ?thesis
        using True below e(1) h'(3,4) this_ok by (auto simp: entry_ok_def mv_def)
    next
      case False
      then have above: "?to + ?nb \<le> fst e" using e(2) sz by (auto simp: apart_def)
      then show ?thesis
        using False e(1) h'(3,4,11) this_ok by (auto simp: entry_ok_def mv_def)
    qed
  qed
  have mono: "apart (mv e) (mv f)" if "e \<in> set ?rest" "f \<in> set ?rest" "apart e f" for e f
  proof -
    have "0 < isize (snd e)" "0 < isize (snd f)"
      using P(6) sub [OF that(1)] sub [OF that(2)] by (auto simp: entry_ok_def isize_pos)
    then show ?thesis
      using sub [OF that(1)] sub [OF that(2)] that(3) by (auto simp: apart_def mv_def)
  qed
  have "sorted_wrt apart ?rest"
    using P(7) by (subst (asm) split) (simp add: sorted_wrt_append)
  then have sep: "sorted_wrt apart (map mv ?rest)"
    unfolding sorted_wrt_map by (rule sorted_wrt_mono_rel [rotated]) (rule mono)
  have sum: "(\<Sum>e\<leftarrow>map mv ?rest. isize (snd e)) + ?nb = (\<Sum>e\<leftarrow>es. isize (snd e))"
    by (subst (4) split) (simp add: comp_def mv_def)
  have "page_holds h' (map mv ?rest)"
    unfolding page_holds_def
  proof (intro conjI allI impI ballI)
    fix j assume j: "j < length (map mv ?rest)"
    show "linp h' j = Some (of_nat (fst (map mv ?rest ! j)))"
    proof (cases "j < index")
      case True
      then show ?thesis using h'(9) P(5) of16 ix j by (simp add: nth_append)
    next
      case False
      then show ?thesis using h'(10) P(5) of16 ix j by (simp add: nth_append)
    qed
  qed (use h' P this_ok ent sep sum ix in \<open>auto simp del: split_paired_All\<close>)
  then show ?thesis using h' de by auto
qed

section \<open>Leaf and internal pages\<close>

type_synonym leaf_rec = "u8 list \<times> u8 list \<times> u8"
type_synonym internal_rec = "u8 list \<times> u32 \<times> u8"

definition leaf_item :: "leaf_rec \<Rightarrow> u8 list" where
  "leaf_item r = leaf_bytes (fst r) (fst (snd r)) (snd (snd r))"

definition internal_item :: "internal_rec \<Rightarrow> u8 list" where
  "internal_item r = internal_bytes (fst r) (fst (snd r)) (snd (snd r))"

definition leaf_page :: "PAGE \<Rightarrow> leaf_rec list \<Rightarrow> bool" where
  "leaf_page h rs \<longleftrightarrow> flags h AND P_BLEAF \<noteq> 0 \<and> page_items h (map leaf_item rs)"

definition internal_page :: "PAGE \<Rightarrow> internal_rec list \<Rightarrow> bool" where
  "internal_page h rs \<longleftrightarrow> flags h AND P_BLEAF = 0 \<and> page_items h (map internal_item rs)"

definition links :: "PAGE \<Rightarrow> u32 \<times> u32 \<times> u32 \<times> u32" where
  "links h = (pgno h, prevpg h, nextpg h, flags h)"

lemma page_items_nth:
  assumes "page_items h its" "i < length its"
  obtains p where "linp h i = Some p" "pg_rdn h (unat p) (length (its ! i)) = Some (its ! i)"
    "length (its ! i) < 65536"
proof -
  obtain es where es: "page_holds h es" "its = map snd es" using assms by (auto simp: page_items_def)
  then have e: "entry_ok h (es ! i)" "linp h i = Some (of_nat (fst (es ! i)))" "BTDATAOFF + length (body h) < 65536"
    using assms(2) by (auto simp: page_holds_def)
  have sz: "length (snd (es ! i)) \<le> isize (snd (es ! i))" by (rule isize_ge)
  then have "unat (of_nat (fst (es ! i)) :: u16) = fst (es ! i)"
    using e(1,3) by (intro unat_of_nat16) (simp add: entry_ok_def)
  then show ?thesis
    using that [OF e(2)] e(1,3) sz es(2) assms(2) by (simp add: entry_ok_def)
qed

lemma page_items_count: "page_items h its \<Longrightarrow> NEXTINDEX h = length its"
  by (auto simp: page_items_def page_holds_def intro!: NEXTINDEX_eq)

lemma unat_of_nat32: "n < 65536 \<Longrightarrow> unat (of_nat n :: u32) = n"
  by (simp add: unat_of_nat take_bit_nat_eq_self)

lemma GETBLEAF_item:
  assumes "page_items h its" "i < length its" "its ! i = leaf_bytes k d fl"
  shows "GETBLEAF h i = Some \<lparr>bl_ksize = length k, bl_dsize = length d, bl_flags = fl, bl_key = k, bl_data = d\<rparr>"
proof -
  obtain p where p: "linp h i = Some p" "pg_rdn h (unat p) (9 + length k + length d) = Some (leaf_bytes k d fl)"
    "9 + length k + length d < 65536"
    using page_items_nth [OF assms(1,2)] assms(3) by auto
  have part: "pg_rdn h (unat p + q) m = Some (take m (drop q (leaf_bytes k d fl)))"
    if "q + m \<le> 9 + length k + length d" for q m
    using pg_rdn_part [OF p(2), of "unat p + q" m] that by simp
  have ks: "pg_rd32 h (unat p) = Some (of_nat (length k))" and ds: "pg_rd32 h (unat p + 4) = Some (of_nat (length d))"
    using part [of 0 4] part [of 4 4] by (simp_all add: pg_rd32_def leaf_bytes_def)
  have "unat (of_nat (length k) :: u32) = length k" "unat (of_nat (length d) :: u32) = length d"
    using p(3) by (simp_all add: unat_of_nat32)
  then show ?thesis
    using p(1) ks ds part [of 8 1] part [of 9 "length k"] part [of "9 + length k" "length d"]
    by (simp add: GETBLEAF_def leaf_bytes_def add.assoc)
qed

lemma GETBINTERNAL_item:
  assumes "page_items h its" "i < length its" "its ! i = internal_bytes k pg fl"
  shows "GETBINTERNAL h i = Some \<lparr>bi_ksize = length k, bi_pgno = pg, bi_flags = fl, bi_key = k\<rparr>"
proof -
  obtain p where p: "linp h i = Some p" "pg_rdn h (unat p) (9 + length k) = Some (internal_bytes k pg fl)"
    "9 + length k < 65536"
    using page_items_nth [OF assms(1,2)] assms(3) by auto
  have part: "pg_rdn h (unat p + q) m = Some (take m (drop q (internal_bytes k pg fl)))"
    if "q + m \<le> 9 + length k" for q m
    using pg_rdn_part [OF p(2), of "unat p + q" m] that by simp
  have ks: "pg_rd32 h (unat p) = Some (of_nat (length k))" and ds: "pg_rd32 h (unat p + 4) = Some pg"
    using part [of 0 4] part [of 4 4] by (simp_all add: pg_rd32_def internal_bytes_def)
  have "unat (of_nat (length k) :: u32) = length k" using p(3) by (simp add: unat_of_nat32)
  then show ?thesis
    using p(1) ks ds part [of 8 1] part [of 9 "length k"]
    by (simp add: GETBINTERNAL_def internal_bytes_def)
qed

lemma insert_items:
  assumes "page_items h its" "index \<le> length its" "it \<noteq> []" "\<not> pg_full h (isize it)"
  shows "\<exists>h1. pg_slot h index (isize it) = Some h1 \<and> BTDATAOFF \<le> unat (upper h1) \<and>
    unat (upper h1) + isize it \<le> BTDATAOFF + length (body h1) \<and> links h1 = links h \<and>
    (\<forall>h2. stores h1 (unat (upper h1)) it h2 \<longrightarrow>
       page_items h2 (take index its @ it # drop index its) \<and> links h2 = links h)"
proof -
  obtain es where es: "page_holds h es" "its = map snd es" using assms by (auto simp: page_items_def)
  have "unat (lower h) + 2 + isize it \<le> unat (upper h)"
    using assms(4) es(1) by (simp add: pg_full_eq page_holds_def)
  moreover have "index \<le> length es" using assms(2) es(2) by simp
  ultimately obtain h1 where 1: "pg_slot h index (isize it) = Some h1"
    "BTDATAOFF \<le> unat (upper h1)" "unat (upper h1) + isize it \<le> BTDATAOFF + length (body h1)"
    "flags h1 = flags h" "pgno h1 = pgno h" "prevpg h1 = prevpg h" "nextpg h1 = nextpg h"
    "\<forall>h2. stores h1 (unat (upper h1)) it h2 \<longrightarrow>
       page_holds h2 (take index es @ (unat (upper h1), it) # drop index es)"
    using insert_holds [OF es(1) _ assms(3)] by metis
  have "page_items h2 (take index its @ it # drop index its) \<and> links h2 = links h"
    if st: "stores h1 (unat (upper h1)) it h2" for h2
  proof -
    have "page_holds h2 (take index es @ (unat (upper h1), it) # drop index es)" using 1(8) st by blast
    then have "page_items h2 (take index its @ it # drop index its)"
      unfolding page_items_def es(2)
      by (intro exI [of _ "take index es @ (unat (upper h1), it) # drop index es"]) (simp add: take_map drop_map)
    then show ?thesis
      using same_headerD [OF stores_headerD [OF st]] 1 by (simp add: links_def)
  qed
  then show ?thesis using 1 by (auto simp: links_def)
qed

lemma leaf_insert_items:
  assumes "page_items h its" "index \<le> length its"
    and "\<not> pg_full h (NBLEAFDBT (length key) (length data))"
  shows "\<exists>h'. leaf_insert h index key data fl = Some h' \<and>
    page_items h' (take index its @ leaf_bytes key data fl # drop index its) \<and> links h' = links h"
proof -
  let ?it = "leaf_bytes key data fl"
  have "?it \<noteq> []" using length_leaf_bytes [of key data fl] by (metis add_is_0 list.size(3) zero_neq_numeral)
  then obtain h1 where 1: "pg_slot h index (isize ?it) = Some h1" "BTDATAOFF \<le> unat (upper h1)"
    "unat (upper h1) + isize ?it \<le> BTDATAOFF + length (body h1)"
    "\<forall>h2. stores h1 (unat (upper h1)) ?it h2 \<longrightarrow>
       page_items h2 (take index its @ ?it # drop index its) \<and> links h2 = links h"
    using insert_items [OF assms(1,2), of ?it] assms(3) by (auto simp: isize_leaf)
  have "unat (upper h1) + length ?it \<le> BTDATAOFF + length (body h1)"
    using 1(3) isize_ge [of ?it] by linarith
  then obtain h2 where "WR_BLEAF h1 (unat (upper h1)) key data fl = Some h2" "stores h1 (unat (upper h1)) ?it h2"
    using WR_BLEAF_stores [OF 1(2)] by blast
  then show ?thesis using 1 by (auto simp: leaf_insert_def isize_leaf)
qed

lemma pack_items:
  assumes "page_items h its" "index < length its"
  shows "\<exists>h'. pg_pack h index (isize (its ! index)) = Some h' \<and>
    page_items h' (take index its @ drop (Suc index) its) \<and> links h' = links h"
proof -
  obtain es where es: "page_holds h es" "its = map snd es" using assms by (auto simp: page_items_def)
  obtain h' where "pg_pack h index (isize (snd (es ! index))) = Some h'" "page_holds h' (drop_entry es index)"
    "links h' = links h"
    using pack_holds [OF es(1), of index] assms(2) es(2) by (auto simp: links_def)
  moreover have "take index its @ drop (Suc index) its = map snd (drop_entry es index)"
    by (simp add: es(2) drop_entry_def take_map drop_map comp_def)
  ultimately show ?thesis using assms(2) es(2) by (auto simp: page_items_def)
qed

lemma leaf_insert_rec:
  assumes "leaf_page h rs" "index \<le> length rs"
    and "\<not> pg_full h (NBLEAFDBT (length key) (length data))"
  shows "\<exists>h'. leaf_insert h index key data fl = Some h' \<and>
    leaf_page h' (take index rs @ (key, data, fl) # drop index rs) \<and> links h' = links h"
proof -
  have its: "page_items h (map leaf_item rs)" "flags h AND P_BLEAF \<noteq> 0" using assms(1) by (simp_all add: leaf_page_def)
  then show ?thesis
    using leaf_insert_items [OF its(1), of index key data fl] assms(2,3)
    by (auto simp: leaf_page_def links_def take_map drop_map leaf_item_def [of "(key, data, fl)"])
qed

lemma pg_wrn_length: "pg_wrn h off vs = Some h' \<Longrightarrow> length (body h') = length (body h)"
  by (auto dest: pg_wrn_header same_headerD(7))

lemma pg_slot_length: "pg_slot h index n = Some h' \<Longrightarrow> length (body h') = length (body h)"
  by (auto simp: pg_slot_def set_linp_def pg_memmove_def Let_def bind_eq_Some_conv split: if_splits dest!: pg_wrn_length)

lemma leaf_insert_length: "leaf_insert h index key data fl = Some h' \<Longrightarrow> length (body h') = length (body h)"
  by (auto simp: leaf_insert_def WR_BLEAF_def bind_eq_Some_conv dest!: pg_wrn_length pg_slot_length)

lemma leaf_get:
  assumes "leaf_page h rs" "i < length rs" "rs ! i = (k, d, fl)"
  shows "GETBLEAF h i = Some \<lparr>bl_ksize = length k, bl_dsize = length d, bl_flags = fl, bl_key = k, bl_data = d\<rparr>"
  using assms GETBLEAF_item [of h "map leaf_item rs" i k d fl] by (simp add: leaf_page_def leaf_item_def)

lemma internal_get:
  assumes "internal_page h rs" "i < length rs" "rs ! i = (k, pg, fl)"
  shows "GETBINTERNAL h i = Some \<lparr>bi_ksize = length k, bi_pgno = pg, bi_flags = fl, bi_key = k\<rparr>"
  using assms GETBINTERNAL_item [of h "map internal_item rs" i k pg fl] by (simp add: internal_page_def internal_item_def)

lemma leaf_count: "leaf_page h rs \<Longrightarrow> NEXTINDEX h = length rs"
  by (auto simp: leaf_page_def dest: page_items_count)

lemma internal_count: "internal_page h rs \<Longrightarrow> NEXTINDEX h = length rs"
  by (auto simp: internal_page_def dest: page_items_count)

lemma leaf_pack_rec:
  assumes "leaf_page h rs" "index < length rs" "rs ! index = (k, d, fl)"
  shows "\<exists>h'. pg_pack h index (NBLEAFDBT (length k) (length d)) = Some h' \<and>
    leaf_page h' (take index rs @ drop (Suc index) rs) \<and> links h' = links h"
proof -
  have its: "page_items h (map leaf_item rs)" "flags h AND P_BLEAF \<noteq> 0" using assms(1) by (simp_all add: leaf_page_def)
  then show ?thesis
    using pack_items [OF its(1), of index] assms(2,3)
    by (auto simp: take_map drop_map leaf_page_def links_def leaf_item_def isize_leaf)
qed

lemma internal_pack_rec:
  assumes "internal_page h rs" "index < length rs" "rs ! index = (k, pg, fl)"
  shows "\<exists>h'. pg_pack h index (NBINTERNAL (length k)) = Some h' \<and>
    internal_page h' (take index rs @ drop (Suc index) rs) \<and> links h' = links h"
proof -
  have its: "page_items h (map internal_item rs)" "flags h AND P_BLEAF = 0"
    using assms(1) by (simp_all add: internal_page_def)
  then show ?thesis
    using pack_items [OF its(1), of index] assms(2,3)
    by (auto simp: take_map drop_map internal_page_def links_def internal_item_def isize_internal)
qed

section \<open>Properties of the pages\<close>

definition empty_leaf :: "nat \<Rightarrow> PAGE" where
  "empty_leaf psize = \<lparr>pgno = P_ROOT, prevpg = P_INVALID, nextpg = P_INVALID, flags = P_BLEAF,
     lower = of_nat BTDATAOFF, upper = of_nat psize, body = replicate (psize - BTDATAOFF) 0\<rparr>"

lemma empty_leaf_page:
  assumes "BTDATAOFF \<le> psize" "psize < 65536"
  shows "leaf_page (empty_leaf psize) []"
  using assms
  by (auto simp: leaf_page_def page_items_def page_holds_def empty_leaf_def unat_of_nat16)

lemma empty_leaf_room: "\<not> pg_full (empty_leaf 512) (NBLEAFDBT 2 1)"
  by (simp add: pg_full_def empty_leaf_def NBLEAFDBT_def LALIGN_def)

text \<open>
  C16. When a leaf page has room for a key and its data (the test of \<^verbatim>\<open>__bt_put\<close>), inserting them at an
  index succeeds without an access outside of the page, the page then holds the old records with
  the new one in between, in order and without loss, its number, siblings and type are those it had,
  and the record at the index reads back as it was written.
\<close>

theorem leaf_insert_correct:
  assumes "leaf_page h rs" "index \<le> length rs"
    and "\<not> pg_full h (NBLEAFDBT (length key) (length data))"
  shows "\<exists>h'. leaf_insert h index key data fl = Some h' \<and>
    leaf_page h' (take index rs @ (key, data, fl) # drop index rs) \<and> links h' = links h \<and>
    GETBLEAF h' index =
      Some \<lparr>bl_ksize = length key, bl_dsize = length data, bl_flags = fl, bl_key = key, bl_data = data\<rparr>"
proof -
  obtain h' where h': "leaf_insert h index key data fl = Some h'" "links h' = links h"
    "leaf_page h' (take index rs @ (key, data, fl) # drop index rs)"
    using leaf_insert_rec [OF assms] by blast
  moreover have "(take index rs @ (key, data, fl) # drop index rs) ! index = (key, data, fl)"
    using assms(2) by (simp add: nth_append)
  ultimately show ?thesis using leaf_get [OF h'(3), of index key data fl] assms(2) by auto
qed

theorem leaf_insert_correct_witness:
  "\<exists>h'. leaf_insert (empty_leaf 512) 0 [1, 2] [3] 0 = Some h' \<and> leaf_page h' [([1, 2], [3], 0)] \<and>
    GETBLEAF h' 0 = Some \<lparr>bl_ksize = 2, bl_dsize = 1, bl_flags = 0, bl_key = [1, 2], bl_data = [3]\<rparr>"
  using leaf_insert_correct [OF empty_leaf_page [of 512], of 0 "[1, 2]" "[3]" 0] empty_leaf_room
  by (auto simp: numeral_2_eq_2)

text \<open>
  C17. Removing the record at an index packs the page: it succeeds without an access outside of the
  page, the page then holds the other records in order with their bytes intact, although the items
  and the offsets were moved, and its number, siblings and type are those it had.
\<close>

theorem pg_pack_correct:
  assumes "leaf_page h rs" "index < length rs" "GETBLEAF h index = Some bl"
  shows "\<exists>h'. pg_pack h index (NBLEAFDBT (bl_ksize bl) (bl_dsize bl)) = Some h' \<and>
    leaf_page h' (take index rs @ drop (Suc index) rs) \<and> links h' = links h"
proof -
  obtain k d fl where r: "rs ! index = (k, d, fl)" by (cases "rs ! index")
  show ?thesis
    using leaf_pack_rec [OF assms(1,2) r] leaf_get [OF assms(1,2) r] assms(3) by auto
qed

theorem pg_pack_correct_witness:
  "\<exists>h h'. leaf_insert (empty_leaf 512) 0 [1, 2] [3] 0 = Some h \<and>
    pg_pack h 0 (NBLEAFDBT 2 1) = Some h' \<and> leaf_page h' []"
proof -
  obtain h where h: "leaf_insert (empty_leaf 512) 0 [1, 2] [3] 0 = Some h" "leaf_page h [([1, 2], [3], 0)]"
    using leaf_insert_rec [OF empty_leaf_page [of 512], of 0 "[1, 2]" "[3]" 0] empty_leaf_room
    by (auto simp: numeral_2_eq_2)
  then show ?thesis
    using pg_pack_correct [OF h(2), of 0] leaf_get [OF h(2), of 0 "[1, 2]" "[3]" 0]
    by (auto simp: numeral_2_eq_2)
qed

end
