(* ===== verification/Bt_Overflow.thy ===== *)
theory Bt_Overflow
  imports Bt_Page
begin

text \<open>
  The state of a B-tree, \<^verbatim>\<open>struct _btree\<close> of \<^verbatim>\<open>db.1.85/btree.h\<close>, the allocation of its pages,
  \<^verbatim>\<open>bt_page.c\<close>, and the chains of overflow pages that hold items too big for a page,
  \<^verbatim>\<open>bt_overflow.c\<close>.

  The page cache is seen through what it promises (theory \<open>Mpool\<close>): a page is known by its number,
  \<^verbatim>\<open>mpool_get\<close> gives the page as it was last left or fails, and the callers change it in place. A
  \<^verbatim>\<open>PAGE *\<close> is therefore the number of the page. A function that can fail in C returns its status;
  the outer \<open>option\<close> is \<^const>\<open>None\<close> when the C code would access memory outside of a page, or loop
  forever.
\<close>

section \<open>The state of a tree\<close>

record EPGNO =
  ep_pgno :: u32
  ep_index :: nat

record CURSOR =
  c_pg :: EPGNO
  c_key :: "u8 list option"
  c_room :: nat
  c_flags :: u8

datatype bt_order = NOT_ORDERED | BACK | FORWARD

text \<open>
  \<open>bt_mp\<close> is the pages that can be read, \<open>bt_npages\<close> their number and \<open>bt_spare\<close> what the buffer of
  a newly allocated page holds, if there is memory for it; \<open>bt_malloc\<close> is the same for the page
  that a split takes from \<^verbatim>\<open>malloc\<close>. \<open>bt_grow\<close> tells whether a buffer for returned bytes has, or can be
  grown to, a size.
\<close>

record BTREE =
  bt_mp :: "u32 \<Rightarrow> PAGE option"
  bt_npages :: u32
  bt_spare :: "u32 \<Rightarrow> PAGE option"
  bt_malloc :: "u8 list option"
  bt_grow :: "nat \<Rightarrow> bool"
  bt_cur :: EPGNO
  bt_cursor :: CURSOR
  bt_stack :: "EPGNO list"
  bt_free :: u32
  bt_psize :: nat
  bt_ovflsize :: nat
  bt_order :: bt_order
  bt_last :: EPGNO
  bt_cmp_fn :: "u8 list \<Rightarrow> u8 list \<Rightarrow> int"
  bt_pfx_fn :: "(u8 list \<Rightarrow> u8 list \<Rightarrow> nat) option"
  bt_flags :: u32
  bt_panic :: bool

abbreviation (input) RET_ERROR :: int where "RET_ERROR \<equiv> -1"
abbreviation (input) RET_SUCCESS :: int where "RET_SUCCESS \<equiv> 0"
abbreviation (input) RET_SPECIAL :: int where "RET_SPECIAL \<equiv> 1"

text \<open>Changing a page in place through the pointer to it.\<close>

definition set_page :: "u32 \<Rightarrow> PAGE \<Rightarrow> BTREE \<Rightarrow> BTREE" where
  "set_page p h t = t\<lparr>bt_mp := (bt_mp t)(p \<mapsto> h)\<rparr>"

definition pool_new :: "BTREE \<Rightarrow> u32 option \<times> BTREE" where
  "pool_new t =
     (if bt_npages t = - 1 then (None, t)
      else case bt_spare t (bt_npages t) of
             None \<Rightarrow> (None, t)
           | Some h \<Rightarrow>
               (Some (bt_npages t), (set_page (bt_npages t) h t)\<lparr>bt_npages := bt_npages t + 1\<rparr>))"

section \<open>Allocation of pages\<close>

definition bt_free_page :: "BTREE \<Rightarrow> u32 \<Rightarrow> BTREE option" where
  "bt_free_page t p = do {
     h \<leftarrow> bt_mp t p;
     let h = h\<lparr>prevpg := P_INVALID, nextpg := bt_free t\<rparr>;
     Some ((set_page p h t)\<lparr>bt_free := pgno h\<rparr>) }"

definition bt_new :: "BTREE \<Rightarrow> u32 option \<times> BTREE" where
  "bt_new t =
     (if bt_free t \<noteq> P_INVALID then
        case bt_mp t (bt_free t) of
          Some h \<Rightarrow> (Some (bt_free t), t\<lparr>bt_free := nextpg h\<rparr>)
        | None \<Rightarrow> pool_new t
      else pool_new t)"

section \<open>Overflow items\<close>

text \<open>The reference to an overflow item: the number of its first page and its size.\<close>

definition ovfl_ref :: "u32 \<Rightarrow> u32 \<Rightarrow> u8 list" where
  "ovfl_ref pg sz = le_bytes32 pg @ le_bytes32 sz"

definition ref_pgno :: "u8 list \<Rightarrow> u32" where
  "ref_pgno p = word32_of_le (take 4 p)"

definition ref_size :: "u8 list \<Rightarrow> nat" where
  "ref_size p = unat (word32_of_le (take 4 (drop 4 p)))"

partial_function (option) ovfl_get_loop ::
  "(u32 \<Rightarrow> PAGE option) \<Rightarrow> nat \<Rightarrow> u32 \<Rightarrow> nat \<Rightarrow> u8 list \<Rightarrow> u8 list option option" where
  "ovfl_get_loop mp plen pg sz buf =
     (case mp pg of
        None \<Rightarrow> Some None
      | Some h \<Rightarrow>
          (let nb = min sz plen
           in Option.bind (pg_rdn h BTDATAOFF nb) (\<lambda>bs.
                if sz - nb = 0 then Some (Some (buf @ bs))
                else ovfl_get_loop mp plen (nextpg h) (sz - nb) (buf @ bs))))"

text \<open>The bytes of the item, or \<open>RET_ERROR\<close>.\<close>

definition ovfl_get :: "BTREE \<Rightarrow> u8 list \<Rightarrow> u8 list option option" where
  "ovfl_get t p =
     (if \<not> bt_grow t (ref_size p) then Some None
      else ovfl_get_loop (bt_mp t) (bt_psize t - BTDATAOFF) (ref_pgno p) (ref_size p) [])"

text \<open>
  The next page of the chain with its bytes; \<open>prev\<close> is the page before, if there is one, which is
  linked to it, and \<open>pg\<close> the first page.
\<close>

definition ovfl_put_page ::
  "BTREE \<Rightarrow> u32 option \<Rightarrow> u8 list \<Rightarrow> u32 \<Rightarrow> ((u32 \<times> u32) option \<times> BTREE) option" where
  "ovfl_put_page t prev bs pg =
     (case bt_new t of
        (None, t) \<Rightarrow> Some (None, t)
      | (Some npg, t) \<Rightarrow> do {
          h \<leftarrow> bt_mp t npg;
          h \<leftarrow> pg_wrn (h\<lparr>pgno := npg, nextpg := P_INVALID, prevpg := P_INVALID,
                 flags := P_OVERFLOW, lower := 0, upper := 0\<rparr>) BTDATAOFF bs;
          let t = set_page npg h t;
          case prev of
            None \<Rightarrow> Some (Some (npg, npg), t)
          | Some l \<Rightarrow> do { hl \<leftarrow> bt_mp t l; Some (Some (npg, pg), set_page l (hl\<lparr>nextpg := npg\<rparr>) t) } })"

partial_function (option) ovfl_put_loop ::
  "BTREE \<Rightarrow> u32 option \<Rightarrow> u8 list \<Rightarrow> nat \<Rightarrow> u32 \<Rightarrow> (u32 option \<times> BTREE) option" where
  "ovfl_put_loop t prev p sz pg =
     (let plen = bt_psize t - BTDATAOFF; nb = min sz plen
      in Option.bind (ovfl_put_page t prev (take nb p) pg) (\<lambda>(r, t).
           case r of
             None \<Rightarrow> Some (None, t)
           | Some (npg, pg) \<Rightarrow>
               if sz - nb = 0 then Some (Some pg, t)
               else ovfl_put_loop t (Some npg) (drop plen p) (sz - nb) pg))"

definition ovfl_put :: "BTREE \<Rightarrow> u8 list \<Rightarrow> (u32 option \<times> BTREE) option" where
  "ovfl_put t dbt = ovfl_put_loop t None dbt (length dbt mod 2 ^ 32) P_INVALID"

partial_function (option) ovfl_delete_loop :: "BTREE \<Rightarrow> u32 \<Rightarrow> nat \<Rightarrow> (int \<times> BTREE) option" where
  "ovfl_delete_loop t p sz =
     Option.bind (bt_mp t p) (\<lambda>h.
     Option.bind (bt_free_page t p) (\<lambda>t'.
       if sz \<le> bt_psize t - BTDATAOFF then Some (RET_SUCCESS, t')
       else case bt_mp t' (nextpg h) of
              None \<Rightarrow> Some (RET_ERROR, t')
            | Some _ \<Rightarrow> ovfl_delete_loop t' (nextpg h) (sz - (bt_psize t - BTDATAOFF))))"

definition ovfl_delete :: "BTREE \<Rightarrow> u8 list \<Rightarrow> (int \<times> BTREE) option" where
  "ovfl_delete t p =
     (case bt_mp t (ref_pgno p) of
        None \<Rightarrow> Some (RET_ERROR, t)
      | Some h \<Rightarrow>
          if flags h AND P_PRESERVE \<noteq> 0 then Some (RET_SUCCESS, t)
          else ovfl_delete_loop t (ref_pgno p) (ref_size p))"

section \<open>Free pages and chains\<close>

text \<open>The pages linked through \<^verbatim>\<open>nextpg\<close>.\<close>

fun linked :: "(u32 \<Rightarrow> PAGE option) \<Rightarrow> u32 \<Rightarrow> u32 list \<Rightarrow> bool" where
  "linked m p [] \<longleftrightarrow> p = P_INVALID"
| "linked m p (q # qs) \<longleftrightarrow> p = q \<and> q \<noteq> P_INVALID \<and>
     (case m q of None \<Rightarrow> False | Some h \<Rightarrow> pgno h = q \<and> linked m (nextpg h) qs)"

text \<open>The chain of the pieces of an item.\<close>

fun ovfl_chain :: "(u32 \<Rightarrow> PAGE option) \<Rightarrow> nat \<Rightarrow> u32 \<Rightarrow> u32 list \<Rightarrow> u8 list \<Rightarrow> bool" where
  "ovfl_chain m plen p [] d \<longleftrightarrow> False"
| "ovfl_chain m plen p (q # qs) d \<longleftrightarrow> p = q \<and> q \<noteq> P_INVALID \<and>
     (case m q of None \<Rightarrow> False | Some h \<Rightarrow>
        pgno h = q \<and> length (body h) = plen \<and> take (length d) (body h) = take plen d \<and>
        (if qs = [] then length d \<le> plen
         else plen < length d \<and> ovfl_chain m plen (nextpg h) qs (drop plen d)))"

text \<open>
  A well-formed state with the free pages \<open>fs\<close>: they are linked without repetition, every page has
  the page size, and no page is beyond the end of the file.
\<close>

definition tree_ok :: "BTREE \<Rightarrow> u32 list \<Rightarrow> bool" where
  "tree_ok t fs \<longleftrightarrow> linked (bt_mp t) (bt_free t) fs \<and> distinct fs \<and> BTDATAOFF < bt_psize t \<and> 0 < bt_npages t \<and>
     (\<forall>p h. bt_mp t p = Some h \<longrightarrow> p < bt_npages t \<and> length (body h) = bt_psize t - BTDATAOFF) \<and>
     (\<forall>p h. bt_spare t p = Some h \<longrightarrow> length (body h) = bt_psize t - BTDATAOFF)"

lemma linked_cong: "(\<And>q. q \<in> set ps \<Longrightarrow> m' q = m q) \<Longrightarrow> linked m' p ps = linked m p ps"
  by (induction ps arbitrary: p) (auto split: option.splits)

lemma linked_in: "linked m p ps \<Longrightarrow> q \<in> set ps \<Longrightarrow> m q \<noteq> None \<and> q \<noteq> P_INVALID"
  by (induction ps arbitrary: p) (auto split: option.splits)

lemma ovfl_chain_cong: "(\<And>q. q \<in> set ps \<Longrightarrow> m' q = m q) \<Longrightarrow> ovfl_chain m' n p ps d = ovfl_chain m n p ps d"
  by (induction ps arbitrary: p d) (auto split: option.splits)

lemma ovfl_chain_head: "ovfl_chain m n p ps d \<Longrightarrow> ps \<noteq> [] \<and> p = hd ps"
  by (cases ps) auto

lemma set_page_sel [simp]:
  "bt_mp (set_page p h t) = (bt_mp t)(p \<mapsto> h)" "bt_free (set_page p h t) = bt_free t"
  "bt_npages (set_page p h t) = bt_npages t" "bt_psize (set_page p h t) = bt_psize t"
  "bt_spare (set_page p h t) = bt_spare t" "bt_flags (set_page p h t) = bt_flags t"
  "bt_cur (set_page p h t) = bt_cur t" "bt_cursor (set_page p h t) = bt_cursor t"
  "bt_stack (set_page p h t) = bt_stack t" "bt_cmp_fn (set_page p h t) = bt_cmp_fn t"
  "bt_ovflsize (set_page p h t) = bt_ovflsize t" "bt_pfx_fn (set_page p h t) = bt_pfx_fn t"
  "bt_order (set_page p h t) = bt_order t" "bt_last (set_page p h t) = bt_last t"
  "bt_grow (set_page p h t) = bt_grow t" "bt_malloc (set_page p h t) = bt_malloc t"
  by (simp_all add: set_page_def)

lemma tree_ok_set_page:
  assumes "tree_ok t fs" "p \<notin> set fs" "p < bt_npages t" "length (body h) = bt_psize t - BTDATAOFF"
  shows "tree_ok (set_page p h t) fs"
proof -
  have "linked ((bt_mp t)(p \<mapsto> h)) (bt_free t) fs"
    using assms by (subst linked_cong [of fs _ "bt_mp t"]) (auto simp: tree_ok_def)
  then show ?thesis using assms by (auto simp: tree_ok_def)
qed

text \<open>What an allocation leaves as it was: every page that was in use and the parameters of the tree.\<close>

definition keeps_used :: "BTREE \<Rightarrow> u32 list \<Rightarrow> BTREE \<Rightarrow> bool" where
  "keeps_used t fs t' \<longleftrightarrow>
     (\<forall>q. bt_mp t q \<noteq> None \<and> q \<notin> set fs \<longrightarrow> bt_mp t' q = bt_mp t q) \<and>
     bt_psize t' = bt_psize t \<and> bt_spare t' = bt_spare t \<and> bt_flags t' = bt_flags t \<and>
     bt_cmp_fn t' = bt_cmp_fn t \<and> bt_cursor t' = bt_cursor t \<and> bt_stack t' = bt_stack t"

definition memory :: "BTREE \<Rightarrow> nat \<Rightarrow> bool" where
  "memory t n \<longleftrightarrow> (\<forall>p. bt_spare t p \<noteq> None) \<and> unat (bt_npages t) + n < 2 ^ 32"

lemma bt_new_ok:
  assumes ok: "tree_ok t fs" and mem: "memory t (Suc n)"
  shows "\<exists>p t' fs' h. bt_new t = (Some p, t') \<and> tree_ok t' fs' \<and> memory t' n \<and> bt_mp t' p = Some h \<and>
    p \<noteq> P_INVALID \<and> p \<notin> set fs' \<and> set fs' \<subseteq> set fs \<and> set fs \<subseteq> insert p (set fs') \<and>
    (p \<in> set fs \<or> bt_mp t p = None) \<and> keeps_used t fs t' \<and> (\<forall>q. q \<noteq> p \<longrightarrow> bt_mp t' q = bt_mp t q)"
proof (cases fs)
  case Nil
  then have free: "bt_free t = P_INVALID" using ok by (simp add: tree_ok_def)
  obtain h where h: "bt_spare t (bt_npages t) = Some h" using mem by (auto simp: memory_def)
  have n: "unat (bt_npages t) + Suc n < 2 ^ 32" using mem by (simp add: memory_def)
  then have n1: "bt_npages t \<noteq> - 1"
    by (auto simp: unsigned_minus_1_eq_mask mask_eq_exp_minus_1)
  have n2: "unat (bt_npages t + 1) = unat (bt_npages t) + 1"
    using n by (simp add: unat_word_ariths)
  let ?t = "(set_page (bt_npages t) h t)\<lparr>bt_npages := bt_npages t + 1\<rparr>"
  have none: "bt_mp t (bt_npages t) = None"
    using ok by (cases "bt_mp t (bt_npages t)") (auto simp: tree_ok_def)
  have "q < bt_npages t + 1" if "q < bt_npages t \<or> q = bt_npages t" for q
    using that n2 by (auto simp: word_less_nat_alt)
  then have "tree_ok ?t []" using ok h free Nil n2 by (auto simp: tree_ok_def word_less_nat_alt)
  moreover have "memory ?t n" using mem n2 by (simp add: memory_def)
  moreover have "bt_new t = (Some (bt_npages t), ?t)" by (simp add: bt_new_def pool_new_def free n1 h)
  moreover have "keeps_used t [] ?t" using none by (auto simp: keeps_used_def)
  moreover have "bt_npages t \<noteq> P_INVALID" using ok by (auto simp: tree_ok_def)
  ultimately show ?thesis
    using none Nil
    by (intro exI [of _ "bt_npages t"] exI [of _ ?t] exI [of _ "[]"] exI [of _ h]) simp
next
  case (Cons p fs')
  then obtain h where h: "bt_mp t p = Some h" "bt_free t = p" "p \<noteq> P_INVALID" "linked (bt_mp t) (nextpg h) fs'"
    using ok by (auto simp: tree_ok_def split: option.splits)
  then show ?thesis
    using ok mem Cons
    by (intro exI [of _ p] exI [of _ "t\<lparr>bt_free := nextpg h\<rparr>"] exI [of _ fs'] exI [of _ h])
      (auto simp: bt_new_def keeps_used_def tree_ok_def memory_def)
qed

section \<open>Reading, writing and deleting a chain\<close>

lemma ovfl_get_chain:
  "ovfl_chain mp plen p ps d \<Longrightarrow>
   ovfl_get_loop mp plen p (length d) buf = Some (Some (buf @ d))"
proof (induction ps arbitrary: p d buf)
  case (Cons q qs)
  obtain h where h: "p = q" "mp q = Some h" "length (body h) = plen" "take (length d) (body h) = take plen d"
    "if qs = [] then length d \<le> plen
     else plen < length d \<and> ovfl_chain mp plen (nextpg h) qs (drop plen d)"
    using Cons.prems by (auto split: option.splits)
  have piece: "pg_rdn h BTDATAOFF (min (length d) plen) = Some (take plen d)"
    using h(3,4) by (auto simp: pg_rdn_Some min_def)
  show ?case
  proof (cases "qs = []")
    case True
    then show ?thesis using h piece by (simp add: ovfl_get_loop.simps [of mp plen q] Let_def)
  next
    case False
    then have "ovfl_get_loop mp plen (nextpg h) (length d - plen) (buf @ take plen d) = Some (Some (buf @ d))"
      using Cons.IH [of "nextpg h" "drop plen d" "buf @ take plen d"] h(5) by simp
    then show ?thesis using h piece False by (simp add: ovfl_get_loop.simps [of mp plen q] Let_def)
  qed
qed simp

text \<open>The number of pages an item needs.\<close>

definition pieces :: "nat \<Rightarrow> nat \<Rightarrow> nat" where
  "pieces plen n = (if n = 0 then 1 else (n + plen - 1) div plen)"

lemma pieces_step:
  assumes "0 < plen"
  shows "pieces plen n = (if n \<le> plen then 1 else Suc (pieces plen (n - plen)))"
proof (cases "n \<le> plen")
  case True
  then have "n \<noteq> 0 \<Longrightarrow> (n + plen - 1) div plen = 1"
    using assms by (intro div_nat_eqI) auto
  then show ?thesis using True by (simp add: pieces_def)
next
  case False
  then obtain m where m: "n = m + plen" "0 < m" by (metis add.commute less_imp_add_positive not_le)
  then have "m + plen + plen - 1 = (m + plen - 1) + plen" by simp
  then have "(n + plen - 1) div plen = Suc ((m + plen - 1) div plen)"
    using assms unfolding m(1) by (simp only: div_add_self2)
  then show ?thesis using m assms by (simp add: pieces_def)
qed

text \<open>Allocation changes the pages, their number and the free list, and nothing else of the tree.\<close>

definition pages_only :: "BTREE \<Rightarrow> BTREE \<Rightarrow> bool" where
  "pages_only t t' \<longleftrightarrow> t' = t\<lparr>bt_mp := bt_mp t', bt_npages := bt_npages t', bt_free := bt_free t'\<rparr>"

lemma pages_onlyD:
  assumes "pages_only t t'"
  shows "bt_spare t' = bt_spare t" "bt_malloc t' = bt_malloc t" "bt_grow t' = bt_grow t" "bt_cur t' = bt_cur t"
    "bt_cursor t' = bt_cursor t" "bt_stack t' = bt_stack t" "bt_psize t' = bt_psize t"
    "bt_ovflsize t' = bt_ovflsize t" "bt_order t' = bt_order t" "bt_last t' = bt_last t"
    "bt_cmp_fn t' = bt_cmp_fn t" "bt_pfx_fn t' = bt_pfx_fn t" "bt_flags t' = bt_flags t"
    "bt_panic t' = bt_panic t"
  by (subst assms [unfolded pages_only_def], simp)+

lemma pages_only_refl [simp]: "pages_only t t"
  by (simp add: pages_only_def)

lemma pages_only_trans: "pages_only a b \<Longrightarrow> pages_only b c \<Longrightarrow> pages_only a c"
  unfolding pages_only_def by (cases a; cases b; cases c) simp

lemma pages_only_set [simp]: "pages_only t (set_page p h t)"
  by (simp add: pages_only_def set_page_def)

lemma pages_only_new: "bt_new t = (r, t') \<Longrightarrow> pages_only t t'"
  by (auto simp: bt_new_def pool_new_def pages_only_def set_page_def split: if_splits option.splits)

lemma pages_only_free: "bt_free_page t p = Some t' \<Longrightarrow> pages_only t t'"
  by (auto simp: bt_free_page_def pages_only_def set_page_def bind_eq_Some_conv)

lemma pages_only_put_page:
  assumes "ovfl_put_page t prev bs pg = Some (r, t')"
  shows "pages_only t t'"
proof -
  obtain q t1 where 1: "bt_new t = (q, t1)" by (cases "bt_new t")
  then have t1: "pages_only t t1" by (rule pages_only_new)
  show ?thesis
    using assms 1 t1 pages_only_trans [OF t1 pages_only_set] pages_only_trans [OF pages_only_trans [OF t1 pages_only_set] pages_only_set]
    by (auto simp: ovfl_put_page_def bind_eq_Some_conv Let_def split: option.splits)
qed

lemma pages_only_put_loop:
  assumes "ovfl_put_loop t prev p sz pg = Some x"
  shows "pages_only t (snd x)"
proof (rule ovfl_put_loop.raw_induct [OF _ assms])
  fix f t prev p sz pg x
  assume IH: "\<And>t prev p sz pg x. f t prev p sz pg = Some x \<Longrightarrow> pages_only t (snd x)"
    and step: "(let plen = bt_psize t - BTDATAOFF; nb = min sz plen
      in Option.bind (ovfl_put_page t prev (take nb p) pg) (\<lambda>(r, t).
           case r of
             None \<Rightarrow> Some (None, t)
           | Some (npg, pg) \<Rightarrow>
               if sz - nb = 0 then Some (Some pg, t)
               else f t (Some npg) (drop plen p) (sz - nb) pg)) = Some x"
  from step obtain q t1 where 2: "ovfl_put_page t prev (take (min sz (bt_psize t - BTDATAOFF)) p) pg = Some (q, t1)"
    by (auto simp: Let_def bind_eq_Some_conv)
  note t1 = pages_only_put_page [OF 2]
  show "pages_only t (snd x)"
  proof (cases q)
    case None
    then show ?thesis using step 2 t1 by (auto simp: Let_def)
  next
    case (Some y)
    then show ?thesis using step 2 t1 pages_only_trans [OF t1 IH] by (cases y) (auto simp: Let_def split: if_splits)
  qed
qed

lemma pages_only_put: "ovfl_put t d = Some (r, t') \<Longrightarrow> pages_only t t'"
  using pages_only_put_loop by (fastforce simp: ovfl_put_def)

lemma pages_only_delete_loop:
  assumes "ovfl_delete_loop t p sz = Some x"
  shows "pages_only t (snd x)"
proof (rule ovfl_delete_loop.raw_induct [OF _ assms])
  fix f t p sz x
  assume IH: "\<And>t p sz x. f t p sz = Some x \<Longrightarrow> pages_only t (snd x)"
    and step: "Option.bind (bt_mp t p) (\<lambda>h.
     Option.bind (bt_free_page t p) (\<lambda>t'.
       if sz \<le> bt_psize t - BTDATAOFF then Some (RET_SUCCESS, t')
       else case bt_mp t' (nextpg h) of
              None \<Rightarrow> Some (RET_ERROR, t')
            | Some _ \<Rightarrow> f t' (nextpg h) (sz - (bt_psize t - BTDATAOFF)))) = Some x"
  from step obtain h t1 where 2: "bt_mp t p = Some h" "bt_free_page t p = Some t1" by (auto simp: bind_eq_Some_conv)
  note t1 = pages_only_free [OF 2(2)]
  show "pages_only t (snd x)"
    using step 2 t1 pages_only_trans [OF t1 IH] by (auto split: if_splits option.splits)
qed

lemma pages_only_delete: "ovfl_delete t p = Some (r, t') \<Longrightarrow> pages_only t t'"
  using pages_only_delete_loop by (fastforce simp: ovfl_delete_def split: option.splits if_splits)

text \<open>The state after a page has been written and linked to the one before it.\<close>

lemma ovfl_put_page_ok:
  assumes ok: "tree_ok t fs" and mem: "memory t (Suc n)" and bs: "length bs \<le> bt_psize t - BTDATAOFF"
    and prev: "\<forall>l. prev = Some l \<longrightarrow> l \<notin> set fs \<and> bt_mp t l = Some (hl l)"
  shows "\<exists>p t' fs' h. ovfl_put_page t prev bs pg = Some (Some (p, if prev = None then p else pg), t') \<and>
    tree_ok t' fs' \<and> memory t' n \<and> bt_mp t' p = Some h \<and> take (length bs) (body h) = bs \<and>
    length (body h) = bt_psize t - BTDATAOFF \<and> pgno h = p \<and> flags h = P_OVERFLOW \<and>
    p \<noteq> P_INVALID \<and> p \<notin> set fs' \<and> set fs' \<subseteq> set fs \<and> set fs \<subseteq> insert p (set fs') \<and>
    (p \<in> set fs \<or> bt_mp t p = None) \<and> bt_psize t' = bt_psize t \<and> prev \<noteq> Some p \<and>
    (\<forall>l. prev = Some l \<longrightarrow> bt_mp t' l = Some ((hl l)\<lparr>nextpg := p\<rparr>)) \<and>
    (\<forall>q. q \<noteq> p \<and> prev \<noteq> Some q \<longrightarrow> bt_mp t' q = bt_mp t q)"
proof -
  let ?plen = "bt_psize t - BTDATAOFF"
  obtain p t1 fs1 h where 1: "bt_new t = (Some p, t1)" "tree_ok t1 fs1" "memory t1 n" "bt_mp t1 p = Some h"
    "p \<noteq> P_INVALID" "p \<notin> set fs1" "set fs1 \<subseteq> set fs" "p \<in> set fs \<or> bt_mp t p = None"
    "set fs \<subseteq> insert p (set fs1)" "keeps_used t fs t1" "\<forall>q. q \<noteq> p \<longrightarrow> bt_mp t1 q = bt_mp t q"
    using bt_new_ok [OF ok mem] by metis
  have psize: "bt_psize t1 = bt_psize t" using 1(10) by (simp add: keeps_used_def)
  have body: "length (body h) = ?plen" "p < bt_npages t1"
    using 1(2,4) psize by (auto simp: tree_ok_def)
  let ?h0 = "h\<lparr>pgno := p, nextpg := P_INVALID, prevpg := P_INVALID, flags := P_OVERFLOW, lower := 0, upper := 0\<rparr>"
  define h1 where "h1 = ?h0\<lparr>body := blit (body h) 0 bs\<rparr>"
  have wr: "pg_wrn ?h0 BTDATAOFF bs = Some h1" using body bs by (simp add: pg_wrn_Some h1_def)
  have h1: "length (body h1) = ?plen" "take (length bs) (body h1) = bs" "pgno h1 = p" "flags h1 = P_OVERFLOW"
    using body bs by (simp_all add: h1_def blit_def)
  define t2 where "t2 = set_page p h1 t1"
  have ok2: "tree_ok t2 fs1" using tree_ok_set_page [OF 1(2,6) body(2)] h1(1) psize by (simp add: t2_def)
  have mem2: "memory t2 n" using 1(3) by (simp add: t2_def memory_def)
  show ?thesis
  proof (cases prev)
    case None
    then show ?thesis
      using 1 wr h1 ok2 mem2 psize
      by (intro exI [of _ p] exI [of _ t2] exI [of _ fs1] exI [of _ h1])
        (simp add: ovfl_put_page_def t2_def Let_def)
  next
    case (Some l)
    then have l: "l \<notin> set fs" "bt_mp t l = Some (hl l)" using prev by auto
    then have "l \<noteq> p" using 1(8) by auto
    then have l1: "l \<noteq> p" "l \<notin> set fs1" "bt_mp t1 l = Some (hl l)" using 1(7,11) l by auto
    have "length (body (hl l)) = ?plen" "l < bt_npages t1"
      using 1(2) l1(3) psize by (auto simp: tree_ok_def)
    then have "tree_ok (set_page l ((hl l)\<lparr>nextpg := p\<rparr>) t2) fs1"
      using tree_ok_set_page [OF ok2 l1(2)] psize by (simp add: t2_def)
    moreover have "memory (set_page l ((hl l)\<lparr>nextpg := p\<rparr>) t2) n" using mem2 by (simp add: memory_def)
    ultimately show ?thesis
      using 1 wr h1 psize l1 Some
      by (intro exI [of _ p] exI [of _ "set_page l ((hl l)\<lparr>nextpg := p\<rparr>) t2"] exI [of _ fs1] exI [of _ h1])
        (simp add: ovfl_put_page_def t2_def Let_def)
  qed
qed

lemma ovfl_put_chain:
  assumes "tree_ok t fs" "memory t (pieces (bt_psize t - BTDATAOFF) (length d))"
    and "\<forall>l. prev = Some l \<longrightarrow> l \<notin> set fs \<and> bt_mp t l = Some (hl l)"
  shows "\<exists>ps t' fs'. ovfl_put_loop t prev d (length d) pg = Some (Some (if prev = None then hd ps else pg), t') \<and>
    tree_ok t' fs' \<and> set fs' \<subseteq> set fs \<and> set fs \<subseteq> set fs' \<union> set ps \<and> distinct ps \<and> set ps \<inter> set fs' = {} \<and>
    (\<forall>q\<in>set ps. (q \<in> set fs \<or> bt_mp t q = None) \<and> (\<exists>h. bt_mp t' q = Some h \<and> flags h = P_OVERFLOW)) \<and>
    ovfl_chain (bt_mp t') (bt_psize t - BTDATAOFF) (hd ps) ps d \<and>
    (\<forall>l. prev = Some l \<longrightarrow> bt_mp t' l = Some ((hl l)\<lparr>nextpg := hd ps\<rparr>)) \<and>
    (\<forall>q. q \<notin> set ps \<and> prev \<noteq> Some q \<longrightarrow> bt_mp t' q = bt_mp t q) \<and> bt_psize t' = bt_psize t"
  using assms
proof (induction "length d" arbitrary: t fs prev d pg hl rule: less_induct)
  case less
  let ?plen = "bt_psize t - BTDATAOFF"
  have plen: "0 < ?plen" using less.prems(1) by (simp add: tree_ok_def)
  obtain m where m: "pieces ?plen (length d) = Suc m" "?plen < length d \<longrightarrow> m = pieces ?plen (length d - ?plen)"
    using pieces_step [OF plen, of "length d"] by (cases "length d \<le> ?plen") auto
  let ?bs = "take (min (length d) ?plen) d" and ?pg = "\<lambda>p. if prev = None then p else pg"
  obtain p t1 fs1 h where 1: "ovfl_put_page t prev ?bs pg = Some (Some (p, ?pg p), t1)"
    "tree_ok t1 fs1" "memory t1 m" "bt_mp t1 p = Some h" "take (length ?bs) (body h) = ?bs"
    "length (body h) = ?plen" "pgno h = p" "flags h = P_OVERFLOW"
    "p \<noteq> P_INVALID" "p \<notin> set fs1" "set fs1 \<subseteq> set fs" "set fs \<subseteq> insert p (set fs1)"
    "p \<in> set fs \<or> bt_mp t p = None" "bt_psize t1 = bt_psize t" "prev \<noteq> Some p"
    "\<forall>l. prev = Some l \<longrightarrow> bt_mp t1 l = Some ((hl l)\<lparr>nextpg := p\<rparr>)"
    "\<forall>q. q \<noteq> p \<and> prev \<noteq> Some q \<longrightarrow> bt_mp t1 q = bt_mp t q"
    using ovfl_put_page_ok [OF less.prems(1), of m ?bs prev hl pg] less.prems(2,3) m(1) by auto
  have cont: "take (length d) (body h) = take ?plen d"
    using 1(5,6) by (cases "length d \<le> ?plen") (simp_all add: min_def)
  have nb: "length d - min (length d) ?plen = 0 \<longleftrightarrow> length d \<le> ?plen"
    "length d - min (length d) ?plen = length (drop ?plen d)" by auto
  have step: "ovfl_put_loop t prev d (length d) pg =
      (if length d \<le> ?plen then Some (Some (?pg p), t1)
       else ovfl_put_loop t1 (Some p) (drop ?plen d) (length (drop ?plen d)) (?pg p))"
    unfolding ovfl_put_loop.simps [of t prev d] Let_def 1(1) nb(1) by (simp add: nb(2))
  show ?case
  proof (cases "length d \<le> ?plen")
    case True
    then show ?thesis
      using step 1 cont by (intro exI [of _ "[p]"] exI [of _ t1] exI [of _ fs1]) auto
  next
    case False
    have mem1: "memory t1 (pieces (bt_psize t1 - BTDATAOFF) (length (drop ?plen d)))"
      using 1(3,14) m(2) False by simp
    have shorter: "length (drop ?plen d) < length d" using False plen by (simp only: length_drop)
    have pre: "\<forall>l. Some p = Some l \<longrightarrow> l \<notin> set fs1 \<and> bt_mp t1 l = Some h" using 1(4,10) by simp
    obtain ps t' fs' where IH:
      "ovfl_put_loop t1 (Some p) (drop ?plen d) (length (drop ?plen d)) (?pg p) = Some (Some (?pg p), t')"
      "tree_ok t' fs'" "set fs' \<subseteq> set fs1" "set fs1 \<subseteq> set fs' \<union> set ps" "distinct ps" "set ps \<inter> set fs' = {}"
      "\<forall>q\<in>set ps. (q \<in> set fs1 \<or> bt_mp t1 q = None) \<and> (\<exists>h. bt_mp t' q = Some h \<and> flags h = P_OVERFLOW)"
      "ovfl_chain (bt_mp t') ?plen (hd ps) ps (drop ?plen d)"
      "bt_mp t' p = Some (h\<lparr>nextpg := hd ps\<rparr>)"
      "\<forall>q. q \<notin> set ps \<and> Some p \<noteq> Some q \<longrightarrow> bt_mp t' q = bt_mp t1 q"
      "bt_psize t' = bt_psize t"
      using less.hyps [OF shorter 1(2) mem1 pre, of "?pg p"]
      by (simp only: 1(14) option.distinct option.inject if_False) blast
    have new: "(q \<in> set fs \<or> bt_mp t q = None) \<and> q \<noteq> p \<and> prev \<noteq> Some q" if "q \<in> set ps" for q
    proof -
      have q: "q \<in> set fs1 \<or> bt_mp t1 q = None" using bspec [OF IH(7) that] by simp
      then have p: "q \<noteq> p" using 1(4,10) by auto
      have "q \<notin> set fs \<and> bt_mp t1 q \<noteq> None" if "prev = Some q" using less.prems(3) 1(16) that by simp
      then have "prev \<noteq> Some q" using q subsetD [OF 1(11), of q] by (cases "prev = Some q") auto
      then show ?thesis using p q 1(11,17) by auto
    qed
    have chain: "ovfl_chain (bt_mp t') ?plen p (p # ps) d"
      using IH(8,9) 1(6,7,9) cont False ovfl_chain_head [OF IH(8)] by auto
    have linkd: "bt_mp t' l = Some ((hl l)\<lparr>nextpg := p\<rparr>)" if "prev = Some l" for l
    proof -
      have "l \<notin> set ps" using new [of l] that by auto
      moreover have "p \<noteq> l" using 1(15) that by auto
      ultimately show ?thesis using IH(10) 1(16) that by simp
    qed
    have fresh: "(q \<in> set fs \<or> bt_mp t q = None) \<and> (\<exists>h. bt_mp t' q = Some h \<and> flags h = P_OVERFLOW)"
      if "q \<in> set (p # ps)" for q
    proof (cases "q = p")
      case False
      then show ?thesis using that new [of q] bspec [OF IH(7), of q] by simp
    qed (use 1(8,13) IH(9) in simp)
    have "p \<notin> set ps" using new by blast
    then have sets: "distinct (p # ps)" "set (p # ps) \<inter> set fs' = {}" "set fs' \<subseteq> set fs"
      "set fs \<subseteq> set fs' \<union> set (p # ps)"
      using IH(3-6) 1(10-12) by auto
    have frame: "bt_mp t' q = bt_mp t q" if "q \<notin> set (p # ps) \<and> prev \<noteq> Some q" for q
      using IH(10) 1(17) that by auto
    have put: "ovfl_put_loop t prev d (length d) pg = Some (Some (?pg p), t')" using step False IH(1) by simp
    have all: "\<forall>q\<in>set (p # ps). (q \<in> set fs \<or> bt_mp t q = None) \<and>
        (\<exists>h. bt_mp t' q = Some h \<and> flags h = P_OVERFLOW)" by (rule ballI) (rule fresh)
    have all_l: "\<forall>l. prev = Some l \<longrightarrow> bt_mp t' l = Some ((hl l)\<lparr>nextpg := p\<rparr>)"
      by (intro allI impI) (rule linkd)
    have all_q: "\<forall>q. q \<notin> set (p # ps) \<and> prev \<noteq> Some q \<longrightarrow> bt_mp t' q = bt_mp t q"
      by (intro allI impI) (rule frame)
    show ?thesis
      by (rule exI [of _ "p # ps"], rule exI [of _ t'], rule exI [of _ fs'], unfold list.sel)
        (intro conjI put IH(2,11) sets chain all all_l all_q)
  qed
qed

lemma bt_free_page_ok:
  assumes "tree_ok t fs" "bt_mp t p = Some h" "pgno h = p" "p \<noteq> P_INVALID" "p \<notin> set fs"
  shows "\<exists>t'. bt_free_page t p = Some t' \<and> tree_ok t' (p # fs) \<and> bt_psize t' = bt_psize t \<and>
    (\<forall>q. q \<noteq> p \<longrightarrow> bt_mp t' q = bt_mp t q)"
proof -
  let ?h = "h\<lparr>prevpg := P_INVALID, nextpg := bt_free t\<rparr>"
  let ?t = "(set_page p ?h t)\<lparr>bt_free := p\<rparr>"
  have "linked ((bt_mp t)(p \<mapsto> ?h)) (bt_free t) fs"
    using assms by (subst linked_cong [of fs _ "bt_mp t"]) (auto simp: tree_ok_def)
  then have "tree_ok ?t (p # fs)" using assms by (auto simp: tree_ok_def)
  then show ?thesis
    using assms by (intro exI [of _ ?t]) (simp add: bt_free_page_def Let_def)
qed

lemma ovfl_delete_chain:
  "tree_ok t fs \<Longrightarrow> ovfl_chain (bt_mp t) (bt_psize t - BTDATAOFF) p ps d \<Longrightarrow> distinct ps \<Longrightarrow> set ps \<inter> set fs = {} \<Longrightarrow>
   \<exists>t'. ovfl_delete_loop t p (length d) = Some (RET_SUCCESS, t') \<and> tree_ok t' (rev ps @ fs) \<and>
     (\<forall>q. q \<notin> set ps \<longrightarrow> bt_mp t' q = bt_mp t q)"
proof (induction ps arbitrary: t fs p d)
  case (Cons q qs)
  let ?plen = "bt_psize t - BTDATAOFF"
  obtain h where h: "p = q" "q \<noteq> P_INVALID" "bt_mp t q = Some h" "pgno h = q"
    "if qs = [] then length d \<le> ?plen
     else ?plen < length d \<and> ovfl_chain (bt_mp t) ?plen (nextpg h) qs (drop ?plen d)"
    using Cons.prems(2) by (auto split: option.splits)
  obtain t1 where 1: "bt_free_page t q = Some t1" "tree_ok t1 (q # fs)" "bt_psize t1 = bt_psize t"
    "\<forall>r. r \<noteq> q \<longrightarrow> bt_mp t1 r = bt_mp t r"
    using bt_free_page_ok [OF Cons.prems(1) h(3,4,2)] Cons.prems(4) by auto
  show ?case
  proof (cases "qs = []")
    case True
    then show ?thesis using h 1 by (subst ovfl_delete_loop.simps) auto
  next
    case False
    then have chain: "ovfl_chain (bt_mp t1) (bt_psize t1 - BTDATAOFF) (nextpg h) qs (drop ?plen d)"
      using h(5) 1(3,4) Cons.prems(3) by (subst ovfl_chain_cong [of qs _ "bt_mp t"]) auto
    obtain t' where t': "ovfl_delete_loop t1 (nextpg h) (length d - ?plen) = Some (RET_SUCCESS, t')"
      "tree_ok t' (rev qs @ q # fs)" "\<forall>r. r \<notin> set qs \<longrightarrow> bt_mp t' r = bt_mp t1 r"
      using Cons.IH [OF 1(2) chain] Cons.prems(3,4) by auto
    have "bt_mp t1 (nextpg h) \<noteq> None" using chain by (cases qs) (auto split: option.splits)
    then show ?thesis
      using h 1 t' False by (subst ovfl_delete_loop.simps) auto
  qed
qed simp

lemma ref_sel [simp]:
  "ref_pgno (ovfl_ref pg sz) = pg" "ref_size (ovfl_ref pg sz) = unat sz" "length (ovfl_ref pg sz) = NOVFLSIZE"
  by (simp_all add: ref_pgno_def ref_size_def ovfl_ref_def)

section \<open>Properties of overflow items\<close>

definition put_post :: "BTREE \<Rightarrow> u32 list \<Rightarrow> u8 list \<Rightarrow> u32 \<Rightarrow> u32 list \<Rightarrow> BTREE \<Rightarrow> u32 list \<Rightarrow> bool" where
  "put_post t fs d pg ps t' fs' \<longleftrightarrow>
     tree_ok t' fs' \<and> set fs' \<subseteq> set fs \<and> set fs \<subseteq> set fs' \<union> set ps \<and> distinct ps \<and> set ps \<inter> set fs' = {} \<and> pg = hd ps \<and>
     (\<forall>q\<in>set ps. (q \<in> set fs \<or> bt_mp t q = None) \<and> (\<exists>h. bt_mp t' q = Some h \<and> flags h = P_OVERFLOW)) \<and>
     ovfl_chain (bt_mp t') (bt_psize t - BTDATAOFF) pg ps d \<and>
     (\<forall>q. q \<notin> set ps \<longrightarrow> bt_mp t' q = bt_mp t q) \<and> bt_psize t' = bt_psize t"

lemma ovfl_put_post:
  assumes "tree_ok t fs" "length d < 2 ^ 32" "memory t (pieces (bt_psize t - BTDATAOFF) (length d))"
  shows "\<exists>pg ps t' fs'. ovfl_put t d = Some (Some pg, t') \<and> put_post t fs d pg ps t' fs'"
proof -
  obtain ps t' fs' where "ovfl_put_loop t None d (length d) P_INVALID = Some (Some (hd ps), t')"
    "put_post t fs d (hd ps) ps t' fs'"
    using ovfl_put_chain [OF assms(1,3), of None "\<lambda>_. undefined" P_INVALID] unfolding put_post_def by force
  then show ?thesis using assms(2) by (auto simp: ovfl_put_def)
qed

lemma put_post_used:
  assumes "put_post t fs d pg ps t' fs'" "bt_mp t q \<noteq> None" "q \<notin> set fs"
  shows "q \<notin> set ps \<and> bt_mp t' q = bt_mp t q"
proof -
  have "q \<notin> set ps" using assms by (auto simp: put_post_def)
  then show ?thesis using assms(1) by (simp add: put_post_def)
qed

lemma unat_size32: "length d < 2 ^ 32 \<Longrightarrow> unat (of_nat (length d) :: u32) = length d"
  by (simp add: unat_of_nat take_bit_nat_eq_self)

definition sample_tree :: BTREE where
  "sample_tree = \<lparr>bt_mp = [1 \<mapsto> empty_leaf 512], bt_npages = 2, bt_spare = (\<lambda>p. Some (empty_leaf 512)),
     bt_malloc = Some (replicate 492 0), bt_grow = (\<lambda>_. True),
     bt_cur = \<lparr>ep_pgno = 0, ep_index = 0\<rparr>,
     bt_cursor = \<lparr>c_pg = \<lparr>ep_pgno = 0, ep_index = 0\<rparr>, c_key = None, c_room = 0, c_flags = 0\<rparr>, bt_stack = [],
     bt_free = P_INVALID, bt_psize = 512, bt_ovflsize = 225, bt_order = NOT_ORDERED,
     bt_last = \<lparr>ep_pgno = 0, ep_index = 0\<rparr>, bt_cmp_fn = bt_defcmp, bt_pfx_fn = Some bt_defpfx, bt_flags = 0x20, bt_panic = False\<rparr>"

lemma sample_tree_ok: "tree_ok sample_tree []"
  by (auto simp: sample_tree_def tree_ok_def empty_leaf_def)

lemma sample_memory: "memory sample_tree (pieces 492 1000)"
  by (simp add: sample_tree_def memory_def pieces_def)

text \<open>
  C18. An item of any length below 4 GB that is stored on overflow pages reads back unchanged: in a
  tree whose free list is well formed and that has memory for the pages and the result, storing it returns and
  leaves a well-formed tree, every page that was in use is as it was, and reading the item through
  the reference kept in the tree returns exactly its bytes.
\<close>

theorem ovfl_put_get:
  assumes "tree_ok t fs" "length d < 2 ^ 32" "memory t (pieces (bt_psize t - BTDATAOFF) (length d))"
    and "bt_grow t (length d)"
  shows "\<exists>pg t' fs'. ovfl_put t d = Some (Some pg, t') \<and> tree_ok t' fs' \<and>
    (\<forall>q. bt_mp t q \<noteq> None \<and> q \<notin> set fs \<longrightarrow> bt_mp t' q = bt_mp t q) \<and>
    ovfl_get t' (ovfl_ref pg (of_nat (length d))) = Some (Some d)"
proof -
  obtain pg ps t' fs' where p: "ovfl_put t d = Some (Some pg, t')" "put_post t fs d pg ps t' fs'"
    using ovfl_put_post [OF assms(1-3)] by blast
  then have "ovfl_chain (bt_mp t') (bt_psize t - BTDATAOFF) pg ps d" "bt_psize t' = bt_psize t"
    unfolding put_post_def by blast+
  then have "ovfl_get t' (ovfl_ref pg (of_nat (length d))) = Some (Some d)"
    using ovfl_get_chain [of "bt_mp t'" "bt_psize t' - BTDATAOFF" pg ps d "[]"] assms(2,4)
      pages_onlyD(3) [OF pages_only_put [OF p(1)]]
    by (simp add: ovfl_get_def unat_size32)
  moreover have "bt_mp t' q = bt_mp t q" if "bt_mp t q \<noteq> None \<and> q \<notin> set fs" for q
    using put_post_used [OF p(2)] that by blast
  ultimately show ?thesis using p by (auto simp: put_post_def)
qed

theorem ovfl_put_get_witness:
  "\<exists>pg t'. ovfl_put sample_tree (replicate 1000 7) = Some (Some pg, t') \<and>
    ovfl_get t' (ovfl_ref pg 1000) = Some (Some (replicate 1000 7))"
proof -
  have "bt_psize sample_tree - BTDATAOFF = 492" by (simp add: sample_tree_def)
  then show ?thesis
    using ovfl_put_get [OF sample_tree_ok, of "replicate 1000 7"] sample_memory
    by (fastforce simp: sample_tree_def)
qed

text \<open>
  C19. Deleting an overflow item gives all of its pages back: after an item has been stored and
  deleted the free list holds the pages of its chain and the free pages that were left, no page is
  lost and none is free twice, and the pages in use are as they were.
\<close>

theorem ovfl_put_delete:
  assumes "tree_ok t fs" "length d < 2 ^ 32" "memory t (pieces (bt_psize t - BTDATAOFF) (length d))"
  shows "\<exists>pg t' fs' t'' fs''. ovfl_put t d = Some (Some pg, t') \<and> tree_ok t' fs' \<and>
    ovfl_delete t' (ovfl_ref pg (of_nat (length d))) = Some (RET_SUCCESS, t'') \<and> tree_ok t'' fs'' \<and>
    set fs \<subseteq> set fs'' \<and>
    (\<forall>q. bt_mp t'' q \<noteq> None \<and> q \<notin> set fs'' \<longleftrightarrow> bt_mp t q \<noteq> None \<and> q \<notin> set fs) \<and>
    (\<forall>q. bt_mp t q \<noteq> None \<and> q \<notin> set fs \<longrightarrow> bt_mp t'' q = bt_mp t q)"
proof -
  obtain pg ps t' fs' where p: "ovfl_put t d = Some (Some pg, t')" and post: "put_post t fs d pg ps t' fs'"
    using ovfl_put_post [OF assms] by blast
  obtain t'' where d: "ovfl_delete_loop t' pg (length d) = Some (RET_SUCCESS, t'')" "tree_ok t'' (rev ps @ fs')"
    "\<forall>q. q \<notin> set ps \<longrightarrow> bt_mp t'' q = bt_mp t' q"
    using ovfl_delete_chain [of t' fs' pg ps d] post by (auto simp: put_post_def)
  have "pg \<in> set ps" using post by (cases ps) (auto simp: put_post_def)
  then obtain h where "bt_mp t' pg = Some h" "flags h = P_OVERFLOW" using post by (auto simp: put_post_def)
  then have del: "ovfl_delete t' (ovfl_ref pg (of_nat (length d))) = Some (RET_SUCCESS, t'')"
    using d(1) assms(2) by (simp add: ovfl_delete_def unat_size32)
  have mp: "bt_mp t'' q = bt_mp t q" if "q \<notin> set ps" for q
    using d(3) that post by (simp add: put_post_def)
  have ps: "q \<in> set fs \<or> bt_mp t q = None" if "q \<in> set ps" for q using that post by (simp add: put_post_def)
  have sub: "set fs' \<subseteq> set fs" "set fs \<subseteq> set fs' \<union> set ps" using post by (simp_all add: put_post_def)
  have "bt_mp t'' q \<noteq> None \<and> q \<notin> set (rev ps @ fs') \<longleftrightarrow> bt_mp t q \<noteq> None \<and> q \<notin> set fs" for q
    using mp [of q] ps [of q] sub by (cases "q \<in> set ps"; cases "bt_mp t q") auto
  moreover have "bt_mp t'' q = bt_mp t q" if "bt_mp t q \<noteq> None \<and> q \<notin> set fs" for q
    using mp put_post_used [OF post] that by blast
  moreover have "tree_ok t' fs'" "set fs \<subseteq> set (rev ps @ fs')" using post sub by (auto simp: put_post_def)
  ultimately show ?thesis
    using p del d(2)
    by (intro exI [of _ pg] exI [of _ t'] exI [of _ fs'] exI [of _ t''] exI [of _ "rev ps @ fs'"] conjI allI impI)
qed

theorem ovfl_put_delete_witness:
  "\<exists>pg t' t''. ovfl_put sample_tree (replicate 1000 7) = Some (Some pg, t') \<and>
    ovfl_delete t' (ovfl_ref pg 1000) = Some (RET_SUCCESS, t'')"
proof -
  have "bt_psize sample_tree - BTDATAOFF = 492" by (simp add: sample_tree_def)
  then show ?thesis
    using ovfl_put_delete [OF sample_tree_ok, of "replicate 1000 7"] sample_memory by fastforce
qed

end
