(* ===== verification/Bt_Search.thy ===== *)
theory Bt_Search
  imports Bt_Overflow
begin

text \<open>
  Searching the B-tree, \<^verbatim>\<open>db.1.85/bt_search.c\<close> with the comparison \<^verbatim>\<open>__bt_cmp\<close> of \<^verbatim>\<open>bt_utils.c\<close>: the
  binary search on a page, the descent from the root, which records the path on the stack of the
  tree, and the look at the neighbouring leaf when duplicate keys are allowed.

  A tree is described by its height and by the keys below every page: \<open>subtree\<close>. The search is shown
  to return on every such tree, to find the key exactly when it is there, and otherwise to give the
  position at which it belongs.
\<close>

section \<open>Comparing a key with a record\<close>

text \<open>
  The key of an item on a page and its flags.
\<close>

definition item_key :: "PAGE \<Rightarrow> nat \<Rightarrow> (u8 \<times> u8 list) option" where
  "item_key h index =
     (if flags h AND P_BLEAF \<noteq> 0 then map_option (\<lambda>bl. (bl_flags bl, bl_key bl)) (GETBLEAF h index)
      else map_option (\<lambda>bi. (bi_flags bi, bi_key bi)) (GETBINTERNAL h index))"

text \<open>
  When the key of a record cannot be read from its overflow pages the result is \<open>RET_ERROR\<close>, which
  the callers cannot tell from a key that compares less.
\<close>

definition bt_cmp :: "BTREE \<Rightarrow> u8 list \<Rightarrow> u32 \<Rightarrow> nat \<Rightarrow> int option" where
  "bt_cmp t k1 p index = do {
     h \<leftarrow> bt_mp t p;
     if index = 0 \<and> prevpg h = P_INVALID \<and> flags h AND P_BLEAF = 0 then Some 1
     else do {
       (fl, k2) \<leftarrow> item_key h index;
       if fl AND P_BIGKEY \<noteq> 0 then do {
         r \<leftarrow> ovfl_get t k2;
         case r of
           None \<Rightarrow> Some RET_ERROR
         | Some k2 \<Rightarrow> Some (bt_cmp_fn t k1 k2) }
       else Some (bt_cmp_fn t k1 k2) } }"

section \<open>The search\<close>

text \<open>
  The binary search on a page: whether an item compares equal, and its index or the index of the
  first item above the key.
\<close>

function bt_bsearch :: "BTREE \<Rightarrow> u8 list \<Rightarrow> u32 \<Rightarrow> nat \<Rightarrow> nat \<Rightarrow> (bool \<times> nat) option" where
  "bt_bsearch t key p base lim =
     (if lim = 0 then Some (False, base)
      else let index = base + lim div 2
           in case bt_cmp t key p index of
                None \<Rightarrow> None
              | Some c \<Rightarrow>
                  if c = 0 then Some (True, index)
                  else if 0 < c then bt_bsearch t key p (index + 1) ((lim - 1) div 2)
                  else bt_bsearch t key p base (lim div 2))"
  by pat_completeness auto

termination
  by (relation "measure (\<lambda>(t, key, p, base, lim). lim)") auto

declare bt_bsearch.simps [simp del]

text \<open>An exact match on the page after or before.\<close>

definition bt_snext :: "BTREE \<Rightarrow> PAGE \<Rightarrow> u8 list \<Rightarrow> EPGNO option option" where
  "bt_snext t h key =
     (case bt_mp t (nextpg h) of
        None \<Rightarrow> Some None
      | Some _ \<Rightarrow> do {
          c \<leftarrow> bt_cmp t key (nextpg h) 0;
          Some (if c = 0 then Some \<lparr>ep_pgno = nextpg h, ep_index = 0\<rparr> else None) })"

definition bt_sprev :: "BTREE \<Rightarrow> PAGE \<Rightarrow> u8 list \<Rightarrow> EPGNO option option" where
  "bt_sprev t h key =
     (case bt_mp t (prevpg h) of
        None \<Rightarrow> Some None
      | Some e \<Rightarrow> do {
          let index = unat (of_nat (NEXTINDEX e) - 1 :: u16);
          c \<leftarrow> bt_cmp t key (prevpg h) index;
          Some (if c = 0 then Some \<lparr>ep_pgno = prevpg h, ep_index = index\<rparr> else None) })"

abbreviation (input) B_NODUPS :: u32 where "B_NODUPS \<equiv> 0x20"

text \<open>The end of the search on the leaf \<open>p\<close>, without an exact match on it.\<close>

definition bt_search_leaf :: "BTREE \<Rightarrow> u8 list \<Rightarrow> u32 \<Rightarrow> PAGE \<Rightarrow> nat \<Rightarrow> (EPGNO \<times> bool) option" where
  "bt_search_leaf t key p h base = do {
     let dups = (bt_flags t AND B_NODUPS = 0);
     before \<leftarrow> (if dups \<and> base = 0 \<and> prevpg h \<noteq> P_INVALID then bt_sprev t h key else Some None);
     case before of
       Some e \<Rightarrow> Some (e, True)
     | None \<Rightarrow> do {
         after \<leftarrow> (if dups \<and> base = NEXTINDEX h \<and> nextpg h \<noteq> P_INVALID then bt_snext t h key else Some None);
         case after of
           Some e \<Rightarrow> Some (e, True)
         | None \<Rightarrow> Some (\<lparr>ep_pgno = p, ep_index = base\<rparr>, False) } }"

text \<open>\<^verbatim>\<open>BT_PUSH\<close>: the stack has 50 entries and is not checked for room.\<close>

definition BT_PUSH :: "BTREE \<Rightarrow> u32 \<Rightarrow> nat \<Rightarrow> BTREE option" where
  "BT_PUSH t p i =
     (if length (bt_stack t) < 50 then Some (t\<lparr>bt_stack := \<lparr>ep_pgno = p, ep_index = i\<rparr> # bt_stack t\<rparr>) else None)"

definition BT_POP :: "BTREE \<Rightarrow> EPGNO option \<times> BTREE" where
  "BT_POP t = (case bt_stack t of [] \<Rightarrow> (None, t) | e # es \<Rightarrow> (Some e, t\<lparr>bt_stack := es\<rparr>))"

definition BT_CLR :: "BTREE \<Rightarrow> BTREE" where
  "BT_CLR t = t\<lparr>bt_stack := []\<rparr>"

text \<open>
  The descent. The result is the position, which is also left in \<open>bt_cur\<close>, with the flag for an
  exact match, or none when a page cannot be read.
\<close>

partial_function (option) bt_descend :: "BTREE \<Rightarrow> u8 list \<Rightarrow> u32 \<Rightarrow> ((EPGNO \<times> bool) option \<times> BTREE) option" where
  "bt_descend t key p =
     (case bt_mp t p of
        None \<Rightarrow> Some (None, t)
      | Some h \<Rightarrow>
          Option.bind (bt_bsearch t key p 0 (NEXTINDEX h mod 65536)) (\<lambda>(found, ix).
            if flags h AND P_BLEAF \<noteq> 0 then
              Option.bind (if found then Some (\<lparr>ep_pgno = p, ep_index = ix\<rparr>, True)
                           else bt_search_leaf t key p h ix)
                (\<lambda>(e, exact). Some (Some (e, exact), t\<lparr>bt_cur := e\<rparr>))
            else
              let index = (if found then ix else if ix = 0 then 0 else ix - 1)
              in Option.bind (BT_PUSH t (pgno h) index) (\<lambda>t.
                 Option.bind (GETBINTERNAL h index) (\<lambda>bi. bt_descend t key (bi_pgno bi)))))"

definition bt_search :: "BTREE \<Rightarrow> u8 list \<Rightarrow> ((EPGNO \<times> bool) option \<times> BTREE) option" where
  "bt_search t key = bt_descend (BT_CLR t) key P_ROOT"

section \<open>Reading a record\<close>

abbreviation (input) B_DB_LOCK :: u32 where "B_DB_LOCK \<equiv> 0x4000"

text \<open>
  The key and the data of a record, those that are asked for. When they are copied and not left
  on the page there must be room for them, \<open>room\<close> bytes.
\<close>

definition ret_field :: "BTREE \<Rightarrow> bool \<Rightarrow> bool \<Rightarrow> nat \<Rightarrow> u8 list \<Rightarrow> u8 list option option" where
  "ret_field t copy big room bytes =
     (if big then ovfl_get t bytes
      else if (copy \<or> bt_flags t AND B_DB_LOCK \<noteq> 0) \<and> \<not> bt_grow t room then Some None
      else Some (Some bytes))"

definition bt_ret ::
  "BTREE \<Rightarrow> EPGNO \<Rightarrow> bool \<Rightarrow> bool \<Rightarrow> bool \<Rightarrow> (u8 list option \<times> u8 list option) option option" where
  "bt_ret t e key data copy = do {
     h \<leftarrow> bt_mp t (ep_pgno e);
     bl \<leftarrow> GETBLEAF h (ep_index e);
     k \<leftarrow> (if key then ret_field t copy (bl_flags bl AND P_BIGKEY \<noteq> 0) (bl_ksize bl) (bl_key bl) else Some (Some []));
     case k of
       None \<Rightarrow> Some None
     | Some k \<Rightarrow> do {
         d \<leftarrow> (if data then ret_field t copy (bl_flags bl AND P_BIGDATA \<noteq> 0) (bl_dsize bl + 1) (bl_data bl) else Some (Some []));
         case d of
           None \<Rightarrow> Some None
         | Some d \<Rightarrow> Some (Some (if key then Some k else None, if data then Some d else None)) } }"

definition bt_get :: "BTREE \<Rightarrow> u8 list \<Rightarrow> u32 \<Rightarrow> (int \<times> u8 list option \<times> BTREE) option" where
  "bt_get t key fl =
     (if fl \<noteq> 0 then Some (RET_ERROR, None, t)
      else do {
        (r, t) \<leftarrow> bt_search t key;
        case r of
          None \<Rightarrow> Some (RET_ERROR, None, t)
        | Some (e, exact) \<Rightarrow>
            if \<not> exact then Some (RET_SPECIAL, None, t)
            else do {
              d \<leftarrow> bt_ret t e False True False;
              Some (case d of None \<Rightarrow> (RET_ERROR, None, t) | Some (_, d) \<Rightarrow> (RET_SUCCESS, d, t)) } })"

section \<open>The binary search finds the position\<close>

text \<open>
  The signs of the comparisons with the \<open>n\<close> items of a page fall: first the items below the key,
  then those equal to it, then those above.
\<close>

definition falling :: "nat \<Rightarrow> (nat \<Rightarrow> int) \<Rightarrow> bool" where
  "falling n f \<longleftrightarrow> (\<forall>i j. i \<le> j \<and> j < n \<longrightarrow> (0 < f j \<longrightarrow> 0 < f i) \<and> (f i < 0 \<longrightarrow> f j < 0))"

lemma bt_bsearch_spec:
  assumes "falling n f" "\<forall>i<n. bt_cmp t key p i = Some (f i)" "base + lim \<le> n"
    and "\<forall>i<base. 0 < f i" "\<forall>i. base + lim \<le> i \<and> i < n \<longrightarrow> f i < 0"
  shows "\<exists>found ix. bt_bsearch t key p base lim = Some (found, ix) \<and>
    (if found then ix < n \<and> f ix = 0
     else ix \<le> n \<and> (\<forall>i<ix. 0 < f i) \<and> (\<forall>i. ix \<le> i \<and> i < n \<longrightarrow> f i < 0))"
  using assms
proof (induction lim arbitrary: base rule: less_induct)
  case (less lim)
  show ?case
  proof (cases "lim = 0")
    case True
    then show ?thesis using less.prems by (subst bt_bsearch.simps) auto
  next
    case False
    let ?ix = "base + lim div 2"
    have ix: "?ix < n" using False less.prems(3) by linarith
    then have c: "bt_cmp t key p ?ix = Some (f ?ix)" using less.prems(2) by blast
    consider "f ?ix = 0" | "0 < f ?ix" | "f ?ix < 0" by linarith
    then show ?thesis
    proof cases
      case 1
      then show ?thesis using c False ix by (subst bt_bsearch.simps) (auto simp: Let_def)
    next
      case 2
      have "\<forall>i<?ix + 1. 0 < f i" using less.prems(1) 2 ix by (auto simp: falling_def less_Suc_eq_le)
      moreover have "?ix + 1 + (lim - 1) div 2 = base + lim" using False by presburger
      ultimately show ?thesis
        using less.IH [of "(lim - 1) div 2" "?ix + 1"] less.prems c False 2
        by (subst bt_bsearch.simps) (auto simp: Let_def)
    next
      case 3
      have "\<forall>i. ?ix \<le> i \<and> i < n \<longrightarrow> f i < 0" using less.prems(1) 3 by (auto simp: falling_def)
      then show ?thesis
        using less.IH [of "lim div 2" base] less.prems c False 3 ix
        by (subst bt_bsearch.simps) (auto simp: Let_def)
    qed
  qed
qed

section \<open>The shape of a tree\<close>

text \<open>The key an item stands for: its bytes, or those of the overflow item it refers to.\<close>

definition rec_key :: "BTREE \<Rightarrow> u8 \<times> u8 list \<Rightarrow> u8 list option" where
  "rec_key t r =
     (if fst r AND P_BIGKEY \<noteq> 0 then case ovfl_get t (snd r) of Some (Some k) \<Rightarrow> Some k | _ \<Rightarrow> None
      else Some (snd r))"

text \<open>The keys of the items of a page, in strictly ascending order.\<close>

definition page_keys :: "BTREE \<Rightarrow> PAGE \<Rightarrow> u8 list list \<Rightarrow> bool" where
  "page_keys t h ks \<longleftrightarrow> NEXTINDEX h = length ks \<and> length ks < 65536 \<and>
     (\<forall>i < length ks. \<exists>r. item_key h i = Some r \<and> rec_key t r = Some (ks ! i)) \<and>
     sorted_wrt (\<lambda>a b. bt_cmp_fn t a b < 0) ks"

text \<open>The keys from \<open>lo\<close> up to and without \<open>hi\<close>; no bound is \<^const>\<open>None\<close>.\<close>

definition between :: "BTREE \<Rightarrow> u8 list option \<Rightarrow> u8 list option \<Rightarrow> u8 list \<Rightarrow> bool" where
  "between t lo hi k \<longleftrightarrow>
     (case lo of None \<Rightarrow> True | Some l \<Rightarrow> bt_cmp_fn t l k \<le> 0) \<and>
     (case hi of None \<Rightarrow> True | Some u \<Rightarrow> bt_cmp_fn t k u < 0)"

text \<open>
  A tree of height \<open>n\<close> below the page \<open>p\<close> with the keys of the range and the positions of their
  records, in order. The records below the item \<open>i\<close> of an internal page are those from its key up
  to the next one; the first item of a page takes everything below the second.
\<close>

definition low_bound :: "u8 list list \<Rightarrow> u8 list option \<Rightarrow> nat \<Rightarrow> u8 list option" where
  "low_bound ks lo i = (if i = 0 then lo else Some (ks ! i))"

definition high_bound :: "u8 list list \<Rightarrow> u8 list option \<Rightarrow> nat \<Rightarrow> u8 list option" where
  "high_bound ks hi i = (if Suc i < length ks then Some (ks ! Suc i) else hi)"

definition leaf_keys :: "BTREE \<Rightarrow> u32 \<Rightarrow> u8 list list \<Rightarrow> bool" where
  "leaf_keys t p ks \<longleftrightarrow> (\<exists>h. bt_mp t p = Some h \<and> flags h AND P_BLEAF \<noteq> 0 \<and> page_keys t h ks)"

definition internal_keys :: "BTREE \<Rightarrow> u32 \<Rightarrow> u8 list list \<Rightarrow> u32 list \<Rightarrow> bool" where
  "internal_keys t p ks cs \<longleftrightarrow> (\<exists>h. bt_mp t p = Some h \<and> flags h AND P_BLEAF = 0 \<and> pgno h = p \<and>
     page_keys t h ks \<and> ks \<noteq> [] \<and> length cs = length ks \<and>
     (\<forall>i < length ks. map_option bi_pgno (GETBINTERNAL h i) = Some (cs ! i)))"

primrec subtree ::
  "nat \<Rightarrow> (u8 list \<Rightarrow> bool) \<Rightarrow> BTREE \<Rightarrow> u32 \<Rightarrow> u8 list option \<Rightarrow> u8 list option \<Rightarrow>
   (u8 list \<times> EPGNO) list \<Rightarrow> bool" where
  "subtree 0 okk t p lo hi es \<longleftrightarrow> (\<exists>ks. leaf_keys t p ks \<and> (\<forall>k\<in>set ks. okk k \<and> between t lo hi k) \<and>
     es = map (\<lambda>i. (ks ! i, \<lparr>ep_pgno = p, ep_index = i\<rparr>)) [0..<length ks])"
| "subtree (Suc n) okk t p lo hi es \<longleftrightarrow> (\<exists>ks cs ess. internal_keys t p ks cs \<and> length ess = length ks \<and>
     (\<forall>k\<in>set ks. okk k) \<and> (\<forall>k\<in>set (tl ks). between t lo hi k) \<and>
     (\<forall>i < length ks. subtree n okk t (cs ! i) (low_bound ks lo i) (high_bound ks hi i) (ess ! i)) \<and>
     es = concat ess)"

lemma fn_stack:
  "bt_cmp_fn (t\<lparr>bt_stack := s\<rparr>) = bt_cmp_fn t" "bt_mp (t\<lparr>bt_stack := s\<rparr>) = bt_mp t"
  by simp_all

lemma ovfl_get_stack [simp]: "ovfl_get (t\<lparr>bt_stack := s\<rparr>) = ovfl_get t"
  by (simp add: fun_eq_iff ovfl_get_def)

lemma bt_cmp_stack [simp]: "bt_cmp (t\<lparr>bt_stack := s\<rparr>) = bt_cmp t"
  unfolding fun_eq_iff bt_cmp_def ovfl_get_stack fn_stack by simp

lemma rec_key_stack [simp]: "rec_key (t\<lparr>bt_stack := s\<rparr>) = rec_key t"
  by (simp add: fun_eq_iff rec_key_def)

lemma stack_indep [simp]:
  "page_keys (t\<lparr>bt_stack := s\<rparr>) = page_keys t" "between (t\<lparr>bt_stack := s\<rparr>) = between t"
  unfolding fun_eq_iff page_keys_def between_def fn_stack rec_key_stack by simp_all

lemma keys_stack [simp]:
  "leaf_keys (t\<lparr>bt_stack := s\<rparr>) = leaf_keys t" "internal_keys (t\<lparr>bt_stack := s\<rparr>) = internal_keys t"
  by (simp_all add: fun_eq_iff leaf_keys_def internal_keys_def)

lemma subtree_stack [simp]: "subtree n okk (t\<lparr>bt_stack := s\<rparr>) p lo hi es = subtree n okk t p lo hi es"
  by (induction n arbitrary: p lo hi es) simp_all

text \<open>What a comparison with an item gives.\<close>

lemma bt_cmp_item:
  assumes "bt_mp t p = Some h" "page_keys t h ks" "i < length ks"
  shows "bt_cmp t key p i =
    Some (if i = 0 \<and> prevpg h = P_INVALID \<and> flags h AND P_BLEAF = 0 then 1 else bt_cmp_fn t key (ks ! i))"
proof -
  obtain fl k where "item_key h i = Some (fl, k)" "rec_key t (fl, k) = Some (ks ! i)"
    using assms(2,3) by (auto simp: page_keys_def)
  then show ?thesis
    using assms(1) by (auto simp: bt_cmp_def rec_key_def split: option.splits if_splits)
qed

text \<open>
  The comparisons with the items of a page as the search sees them: the first item of the leftmost
  internal page is below every key.
\<close>

definition page_cmp :: "BTREE \<Rightarrow> u8 list \<Rightarrow> PAGE \<Rightarrow> u8 list list \<Rightarrow> nat \<Rightarrow> int" where
  "page_cmp t key h ks i =
     (if i = 0 \<and> prevpg h = P_INVALID \<and> flags h AND P_BLEAF = 0 then 1 else bt_cmp_fn t key (ks ! i))"

text \<open>
  The position the search returns: that of the record with the key, or the one in front of the first
  record above it on the leaf that covers the key.
\<close>

definition located :: "BTREE \<Rightarrow> u8 list \<Rightarrow> (u8 list \<times> EPGNO) list \<Rightarrow> EPGNO \<Rightarrow> bool \<Rightarrow> bool" where
  "located t key es e exact \<longleftrightarrow>
     (if exact then \<exists>k. (k, e) \<in> set es \<and> bt_cmp_fn t key k = 0
      else (\<forall>(k, _)\<in>set es. bt_cmp_fn t key k \<noteq> 0) \<and>
        (\<exists>ks. leaf_keys t (ep_pgno e) ks \<and> ep_index e \<le> length ks \<and>
          (\<forall>i<ep_index e. 0 < bt_cmp_fn t key (ks ! i)) \<and>
          (\<forall>i. ep_index e \<le> i \<and> i < length ks \<longrightarrow> bt_cmp_fn t key (ks ! i) < 0)))"

lemma located_stack [simp]: "located (t\<lparr>bt_stack := s\<rparr>) = located t"
  unfolding fun_eq_iff located_def keys_stack fn_stack by simp

lemma concat_nth_mem: "x \<in> set (concat xss) \<longleftrightarrow> (\<exists>i < length xss. x \<in> set (xss ! i))"
  by (metis (no_types, lifting) UN_iff in_set_conv_nth set_concat)

context key_order
begin

lemma page_cmp_falling:
  assumes cmp: "bt_cmp_fn t = cmp" and ks: "page_keys t h ks" "\<forall>k\<in>set ks. okk k" and key: "okk key"
  shows "falling (length ks) (page_cmp t key h ks)"
proof -
  have sorted: "sorted_keys ks"
    using ks cmp by (auto simp: sorted_keys_def page_keys_def intro: sorted_wrt_mono_rel [rotated])
  show ?thesis
    unfolding falling_def
  proof (intro allI impI)
    fix i j assume ij: "i \<le> j \<and> j < length ks"
    show "(0 < page_cmp t key h ks j \<longrightarrow> 0 < page_cmp t key h ks i) \<and>
        (page_cmp t key h ks i < 0 \<longrightarrow> page_cmp t key h ks j < 0)"
      using ij above_all [OF sorted key, of j i] below_all [OF sorted key, of i j]
      by (auto simp: page_cmp_def cmp)
  qed
qed

lemma page_search:
  assumes cmp: "bt_cmp_fn t = cmp" and p: "bt_mp t p = Some h"
    and ks: "page_keys t h ks" "\<forall>k\<in>set ks. okk k" and key: "okk key"
  shows "\<exists>found ix. bt_bsearch t key p 0 (NEXTINDEX h mod 65536) = Some (found, ix) \<and>
    (if found then ix < length ks \<and> page_cmp t key h ks ix = 0
     else ix \<le> length ks \<and> (\<forall>i<ix. 0 < page_cmp t key h ks i) \<and>
       (\<forall>i. ix \<le> i \<and> i < length ks \<longrightarrow> page_cmp t key h ks i < 0))"
proof -
  have "\<forall>i<length ks. bt_cmp t key p i = Some (page_cmp t key h ks i)"
    using bt_cmp_item [OF p ks(1)] by (simp add: page_cmp_def)
  moreover have "NEXTINDEX h mod 65536 = length ks" using ks(1) by (simp add: page_keys_def)
  ultimately show ?thesis
    using bt_bsearch_spec [OF page_cmp_falling [OF cmp ks key], of t key p 0 "length ks"] by simp
qed

lemma le_sym: "okk a \<Longrightarrow> okk b \<Longrightarrow> cmp a b \<le> 0 \<longleftrightarrow> 0 \<le> cmp b a"
  using cmp_sym [of b a] by (auto simp: not_less [symmetric])

lemma less_le_trans: "okk a \<Longrightarrow> okk b \<Longrightarrow> okk c \<Longrightarrow> cmp a b < 0 \<Longrightarrow> cmp b c \<le> 0 \<Longrightarrow> cmp a c < 0"
  using cmp_trans [of b c a] cmp_sym [of a b] cmp_sym [of a c] by fastforce

lemma le_less_trans: "okk a \<Longrightarrow> okk b \<Longrightarrow> okk c \<Longrightarrow> cmp a b \<le> 0 \<Longrightarrow> cmp b c < 0 \<Longrightarrow> cmp a c < 0"
  using cmp_trans [of c a b] cmp_sym [of b c] cmp_sym [of a c] by fastforce

lemma nth_less:
  assumes "bt_cmp_fn t = cmp" "page_keys t h ks" "i < j" "j < length ks"
  shows "cmp (ks ! i) (ks ! j) < 0"
  using assms sorted_wrt_nth_less [of "\<lambda>a b. cmp a b < 0" ks i j] by (auto simp: page_keys_def)

text \<open>The ranges of different items of a page are disjoint.\<close>

lemma ranges_apart:
  assumes cmp: "bt_cmp_fn t = cmp" and ks: "page_keys t h ks" "\<forall>k\<in>set ks. okk k" "i < j" "j < length ks"
    and a: "between t (low_bound ks lo i) (high_bound ks hi i) a" "okk a"
    and b: "between t (low_bound ks lo j) (high_bound ks hi j) b" "okk b"
  shows "cmp a b < 0"
proof -
  have ok: "okk (ks ! Suc i)" "okk (ks ! j)" using ks by auto
  have "cmp a (ks ! Suc i) < 0" using a ks by (simp add: between_def high_bound_def cmp)
  moreover have "cmp (ks ! Suc i) (ks ! j) \<le> 0"
    using nth_less [OF cmp ks(1), of "Suc i" j] ks(3,4) ok cmp_refl [of "ks ! j"] by (cases "Suc i = j") auto
  moreover have "cmp (ks ! j) b \<le> 0" using b ks by (simp add: between_def low_bound_def cmp)
  ultimately show ?thesis using less_le_trans [of a "ks ! Suc i" "ks ! j"] less_le_trans [of a "ks ! j" b] a b ok by simp
qed

text \<open>The item that the search descends to is the one whose range has the key.\<close>

lemma child_range:
  assumes cmp: "bt_cmp_fn t = cmp" and ks: "page_keys t h ks" "\<forall>k\<in>set ks. okk k" "ks \<noteq> []"
    and key: "okk key" "between t lo hi key"
    and found: "if found then ix < length ks \<and> page_cmp t key h ks ix = 0
     else ix \<le> length ks \<and> (\<forall>i<ix. 0 < page_cmp t key h ks i) \<and>
       (\<forall>i. ix \<le> i \<and> i < length ks \<longrightarrow> page_cmp t key h ks i < 0)"
    and index: "index = (if found then ix else if ix = 0 then 0 else ix - 1)"
  shows "index < length ks \<and> between t (low_bound ks lo index) (high_bound ks hi index) key"
proof -
  have nth: "okk (ks ! i)" if "i < length ks" for i using ks(2) that by simp
  have pc: "page_cmp t key h ks i = cmp key (ks ! i)" if "0 < i" for i using that by (simp add: page_cmp_def cmp)
  have len: "0 < length ks" using ks(3) by simp
  have ix: "index < length ks" using found index len by (auto split: if_splits)
  have low: "cmp (ks ! index) key \<le> 0" if pos: "0 < index"
  proof -
    have "0 \<le> page_cmp t key h ks index"
    proof (cases found)
      case False
      then have "index < ix" using index pos by (auto split: if_splits)
      then show ?thesis using found False by (simp add: order_less_imp_le)
    qed (use found index in simp)
    then show ?thesis using pc [OF pos] nth [OF ix] key(1) le_sym [of "ks ! index" key] by simp
  qed
  have high: "cmp key (ks ! Suc index) < 0" if s: "Suc index < length ks"
  proof (cases found)
    case True
    then have "cmp key (ks ! index) \<le> 0" using found index by (auto simp: page_cmp_def cmp split: if_splits)
    then show ?thesis
      using nth_less [OF cmp ks(1) lessI s] le_less_trans [of key "ks ! index" "ks ! Suc index"] nth ix s key(1) by simp
  next
    case False
    then have "page_cmp t key h ks (Suc index) < 0" using found index s by (auto split: if_splits)
    then show ?thesis by (simp add: pc)
  qed
  show ?thesis
    using ix low high key(2) by (auto simp: between_def low_bound_def high_bound_def cmp)
qed

text \<open>The keys of a subtree are in its range.\<close>

lemma subtree_range:
  assumes cmp: "bt_cmp_fn t = cmp"
  shows "subtree n okk t p lo hi es \<Longrightarrow> (\<forall>l. lo = Some l \<longrightarrow> okk l) \<Longrightarrow> (\<forall>u. hi = Some u \<longrightarrow> okk u) \<Longrightarrow>
    (k, e) \<in> set es \<Longrightarrow> okk k \<and> between t lo hi k"
proof (induction n arbitrary: p lo hi es)
  case 0
  then show ?case by auto
next
  case (Suc n)
  then obtain ks cs ess where K: "internal_keys t p ks cs" "length ess = length ks" "\<forall>k\<in>set ks. okk k"
    "\<forall>k\<in>set (tl ks). between t lo hi k" "es = concat ess"
    "\<forall>i < length ks. subtree n okk t (cs ! i) (low_bound ks lo i) (high_bound ks hi i) (ess ! i)"
    by auto
  then obtain i where i: "i < length ks" "(k, e) \<in> set (ess ! i)"
    using Suc.prems(4) concat_nth_mem [of "(k, e)" ess] by auto
  have inner: "between t lo hi (ks ! j)" if "0 < j" "j < length ks" for j
    using K(4) that by (cases ks) auto
  have "okk k \<and> between t (low_bound ks lo i) (high_bound ks hi i) k"
    using Suc.IH [of "cs ! i" "low_bound ks lo i" "high_bound ks hi i" "ess ! i"] K(3,6) i Suc.prems(2,3)
    by (auto simp: low_bound_def high_bound_def)
  moreover have "cmp l k \<le> 0" if "lo = Some l" "0 < i" "cmp (ks ! i) k \<le> 0" "okk k" for l
    using inner [of i] that i K(3) cmp_trans [of l "ks ! i" k] Suc.prems(2) by (simp add: between_def cmp)
  moreover have "cmp k u < 0" if "hi = Some u" "Suc i < length ks" "cmp k (ks ! Suc i) < 0" "okk k" for u
    using inner [of "Suc i"] that K(3) less_le_trans [of k "ks ! Suc i" u] Suc.prems(3) by (simp add: between_def cmp)
  ultimately show ?case
    by (auto simp: between_def low_bound_def high_bound_def cmp split: option.splits if_splits)
qed

lemma descend_correct:
  assumes "bt_cmp_fn t = cmp" "bt_flags t AND B_NODUPS \<noteq> 0" "okk key"
    and "subtree n okk t p lo hi es" "between t lo hi key" "length (bt_stack t) + n \<le> 50"
    and "\<forall>l. lo = Some l \<longrightarrow> okk l" "\<forall>u. hi = Some u \<longrightarrow> okk u"
  shows "\<exists>e exact path. bt_descend t key p = Some (Some (e, exact), t\<lparr>bt_stack := path @ bt_stack t, bt_cur := e\<rparr>) \<and>
    length path = n \<and> located t key es e exact"
  using assms
proof (induction n arbitrary: t p lo hi es)
  case 0
  then obtain ks h where K: "bt_mp t p = Some h" "flags h AND P_BLEAF \<noteq> 0" "page_keys t h ks"
    "\<forall>k\<in>set ks. okk k" "es = map (\<lambda>i. (ks ! i, \<lparr>ep_pgno = p, ep_index = i\<rparr>)) [0..<length ks]"
    by (auto simp: leaf_keys_def)
  obtain found ix where S: "bt_bsearch t key p 0 (NEXTINDEX h mod 65536) = Some (found, ix)"
    "if found then ix < length ks \<and> page_cmp t key h ks ix = 0
     else ix \<le> length ks \<and> (\<forall>i<ix. 0 < page_cmp t key h ks i) \<and>
       (\<forall>i. ix \<le> i \<and> i < length ks \<longrightarrow> page_cmp t key h ks i < 0)"
    using page_search [OF 0(1) K(1,3,4) 0(3)] by blast
  have pc: "page_cmp t key h ks i = cmp key (ks ! i)" for i using K(2) 0(1) by (simp add: page_cmp_def)
  let ?e = "\<lparr>ep_pgno = p, ep_index = ix\<rparr>"
  have "bt_descend t key p = Some (Some (?e, found), t\<lparr>bt_cur := ?e\<rparr>)"
    using K(1,2) S(1) 0(2) by (subst bt_descend.simps) (simp add: bt_search_leaf_def Let_def)
  moreover have "located t key es ?e found"
  proof (cases found)
    case False
    then have "cmp key (ks ! i) \<noteq> 0" if "i < length ks" for i
      using S(2) that pc by (cases "i < ix") (auto simp: not_less)
    then show ?thesis
      using False S(2) K pc 0(1) unfolding located_def leaf_keys_def
      by (auto intro!: exI [of _ ks])
  next
    case True
    then show ?thesis using S(2) K(5) pc 0(1) by (auto simp: located_def intro!: exI [of _ "ks ! ix"])
  qed
  ultimately show ?case by (intro exI [of _ ?e] exI [of _ found] exI [of _ "[]"]) simp
next
  case (Suc n)
  then obtain ks cs ess h where K: "bt_mp t p = Some h" "flags h AND P_BLEAF = 0" "pgno h = p" "page_keys t h ks"
    "ks \<noteq> []" "length cs = length ks" "\<forall>i < length ks. map_option bi_pgno (GETBINTERNAL h i) = Some (cs ! i)"
    "length ess = length ks" "\<forall>k\<in>set ks. okk k" "es = concat ess"
    "\<forall>i < length ks. subtree n okk t (cs ! i) (low_bound ks lo i) (high_bound ks hi i) (ess ! i)"
    by (auto simp: internal_keys_def)
  obtain found ix where S: "bt_bsearch t key p 0 (NEXTINDEX h mod 65536) = Some (found, ix)"
    "if found then ix < length ks \<and> page_cmp t key h ks ix = 0
     else ix \<le> length ks \<and> (\<forall>i<ix. 0 < page_cmp t key h ks i) \<and>
       (\<forall>i. ix \<le> i \<and> i < length ks \<longrightarrow> page_cmp t key h ks i < 0)"
    using page_search [OF Suc.prems(1) K(1,4,9) Suc.prems(3)] by blast
  define index where "index = (if found then ix else if ix = 0 then 0 else ix - 1)"
  have C: "index < length ks" "between t (low_bound ks lo index) (high_bound ks hi index) key"
    using child_range [OF Suc.prems(1) K(4,9,5) Suc.prems(3,5) S(2) index_def] by auto
  obtain bi where bi: "GETBINTERNAL h index = Some bi" "bi_pgno bi = cs ! index" using K(7) C(1) by auto
  let ?t = "t\<lparr>bt_stack := \<lparr>ep_pgno = p, ep_index = index\<rparr> # bt_stack t\<rparr>"
  have bounds: "\<forall>l. low_bound ks lo i = Some l \<longrightarrow> okk l" "\<forall>u. high_bound ks hi i = Some u \<longrightarrow> okk u"
    if "i < length ks" for i
    using K(9) Suc.prems(7,8) that by (auto simp: low_bound_def high_bound_def)
  obtain e exact path where IH: "bt_descend ?t key (cs ! index) =
      Some (Some (e, exact), ?t\<lparr>bt_stack := path @ bt_stack ?t, bt_cur := e\<rparr>)"
    "length path = n" "located ?t key (ess ! index) e exact"
    using Suc.IH [of ?t "cs ! index" "low_bound ks lo index" "high_bound ks hi index" "ess ! index"]
      Suc.prems(1,2,3,6) K(11) C bounds [OF C(1)] by auto
  have push: "BT_PUSH t (pgno h) index = Some ?t" using Suc.prems(6) K(3) by (simp add: BT_PUSH_def)
  have step: "bt_descend t key p = bt_descend ?t key (cs ! index)"
    using K(1,2) S(1) push bi by (subst bt_descend.simps) (simp add: Let_def index_def [symmetric])
  have other: "cmp key k \<noteq> 0" if "j < length ks" "j \<noteq> index" "(k, e') \<in> set (ess ! j)" for j k e'
  proof -
    have k: "okk k" "between t (low_bound ks lo j) (high_bound ks hi j) k"
      using subtree_range [OF Suc.prems(1), of n "cs ! j" _ _ "ess ! j" k e'] K(11) bounds [OF that(1)] that by blast+
    show ?thesis
      using ranges_apart [OF Suc.prems(1) K(4,9), of index j lo hi key k]
        ranges_apart [OF Suc.prems(1) K(4,9), of j index lo hi k key] that(1,2) C k Suc.prems(3)
        cmp_sym [of k key]
      by (cases "index < j") auto
  qed
  have "located t key es e exact"
  proof (cases exact)
    case True
    then obtain k where "(k, e) \<in> set (ess ! index)" "bt_cmp_fn t key k = 0"
      using IH(3) by (auto simp: located_def)
    then have "(k, e) \<in> set es \<and> bt_cmp_fn t key k = 0"
      using C(1) K(8,10) concat_nth_mem [of "(k, e)" ess] by auto
    then show ?thesis using True by (auto simp: located_def)
  next
    case False
    have "cmp key k \<noteq> 0" if "(k, e') \<in> set es" for k e'
    proof -
      obtain j where "j < length ks" "(k, e') \<in> set (ess ! j)"
        using \<open>(k, e') \<in> set es\<close> K(8,10) concat_nth_mem [of "(k, e')" ess] by auto
      then show ?thesis using other IH(3) False Suc.prems(1) by (cases "j = index") (auto simp: located_def)
    qed
    then show ?thesis using IH(3) False Suc.prems(1) by (auto simp: located_def)
  qed
  then show ?case
    using IH step by (intro exI [of _ e] exI [of _ exact] exI [of _ "path @ [\<lparr>ep_pgno = p, ep_index = index\<rparr>]"]) simp
qed

end

section \<open>Properties of the search\<close>

text \<open>A whole tree of height \<open>n\<close> without duplicates, and the comparison of its keys.\<close>

definition search_tree :: "BTREE \<Rightarrow> nat \<Rightarrow> (u8 list \<Rightarrow> bool) \<Rightarrow> (u8 list \<times> EPGNO) list \<Rightarrow> bool" where
  "search_tree t n okk es \<longleftrightarrow> key_order okk (bt_cmp_fn t) \<and> bt_flags t AND B_NODUPS \<noteq> 0 \<and> n \<le> 50 \<and>
     subtree n okk t P_ROOT None None es"

lemma search_tree_correct:
  assumes "search_tree t n okk es" "okk key"
  shows "\<exists>e exact path. bt_search t key = Some (Some (e, exact), t\<lparr>bt_stack := path, bt_cur := e\<rparr>) \<and>
    length path = n \<and> located t key es e exact"
  using key_order.descend_correct [of okk "bt_cmp_fn t" "BT_CLR t" key n P_ROOT None None es] assms
  by (auto simp: search_tree_def bt_search_def BT_CLR_def between_def)

lemma cur_sel: "bt_mp (t\<lparr>bt_stack := s, bt_cur := e\<rparr>) = bt_mp t"
  "bt_psize (t\<lparr>bt_stack := s, bt_cur := e\<rparr>) = bt_psize t"
  "bt_grow (t\<lparr>bt_stack := s, bt_cur := e\<rparr>) = bt_grow t"
  "bt_flags (t\<lparr>bt_stack := s, bt_cur := e\<rparr>) = bt_flags t"
  by simp_all

lemma ret_cur [simp]: "bt_ret (t\<lparr>bt_stack := s, bt_cur := e\<rparr>) = bt_ret t"
  unfolding fun_eq_iff bt_ret_def ret_field_def ovfl_get_def cur_sel by simp

lemma located_exact: "located t key es e exact \<Longrightarrow> exact \<longleftrightarrow> (\<exists>(k, _)\<in>set es. bt_cmp_fn t key k = 0)"
  by (cases exact) (auto simp: located_def)

text \<open>A leaf page gives its keys.\<close>

lemma leaf_page_keys:
  assumes "leaf_page h rs" "\<forall>r\<in>set rs. snd (snd r) AND P_BIGKEY = 0"
    and "sorted_wrt (\<lambda>a b. bt_cmp_fn t a b < 0) (map fst rs)"
  shows "page_keys t h (map fst rs)"
proof -
  have "\<exists>r. item_key h i = Some r \<and> rec_key t r = Some (map fst rs ! i)" if "i < length rs" for i
  proof -
    obtain k d fl where r: "rs ! i = (k, d, fl)" by (cases "rs ! i")
    have "fl AND P_BIGKEY = 0" using assms(2) nth_mem [OF that] r by force
    then show ?thesis
      using leaf_get [OF assms(1) that r] assms(1) that r by (simp add: item_key_def leaf_page_def rec_key_def)
  qed
  moreover have "length rs < 65536"
  proof -
    obtain es where "page_holds h es" "map snd es = map leaf_item rs"
      using assms(1) by (auto simp: leaf_page_def page_items_def)
    then have "2 * length es < 65536" "length es = length rs"
      using unat_u16_less [of "lower h"] by (auto simp: page_holds_def dest: map_eq_imp_length_eq)
    then show ?thesis by simp
  qed
  ultimately show ?thesis using assms leaf_count [OF assms(1)] by (simp add: page_keys_def)
qed

lemma sample_search_tree:
  "\<exists>h. leaf_insert (empty_leaf 512) 0 [1, 2] [3] 0 = Some h \<and>
    search_tree (set_page P_ROOT h sample_tree) 0 small_key [([1, 2], \<lparr>ep_pgno = 1, ep_index = 0\<rparr>)] \<and>
    bt_ret (set_page P_ROOT h sample_tree) \<lparr>ep_pgno = 1, ep_index = 0\<rparr> False True False = Some (Some (None, Some [3]))"
proof -
  obtain h where h: "leaf_insert (empty_leaf 512) 0 [1, 2] [3] 0 = Some h" "leaf_page h [([1, 2], [3], 0)]"
    using leaf_insert_rec [OF empty_leaf_page [of 512], of 0 "[1, 2]" "[3]" 0] empty_leaf_room
    by (auto simp: numeral_2_eq_2)
  let ?t = "set_page P_ROOT h sample_tree"
  have cmp: "bt_cmp_fn ?t = bt_defcmp" by (simp add: sample_tree_def)
  have "page_keys ?t h [[1, 2]]" using leaf_page_keys [OF h(2), of ?t] by simp
  then have "leaf_keys ?t P_ROOT [[1, 2]]" using h(2) by (auto simp: leaf_keys_def leaf_page_def)
  then have "search_tree ?t 0 small_key [([1, 2], \<lparr>ep_pgno = 1, ep_index = 0\<rparr>)]"
    using defkey.key_order_axioms cmp
    by (auto simp: search_tree_def between_def sample_tree_def intro!: exI [of _ "[[1, 2]]"])
  moreover have "bt_ret ?t \<lparr>ep_pgno = 1, ep_index = 0\<rparr> False True False = Some (Some (None, Some [3]))"
    using leaf_get [OF h(2), of 0 "[1, 2]" "[3]" 0]
    by (simp add: bt_ret_def ret_field_def sample_tree_def)
  ultimately show ?thesis using h(1) by blast
qed

text \<open>
  C15. On a tree without duplicate keys whose pages are in order, \<^verbatim>\<open>__bt_search\<close> returns for every key, with
  whatever comparison of keys that is a linear preorder. It reports an exact match precisely when the
  tree has the key, and then gives a record with it; otherwise the position it gives is the one
  where the key belongs on its leaf, every record before being smaller and every one from there
  on greater. The stack it leaves has one entry for every level above the leaves, and a
  tree of up to 51 levels does not overrun it.
\<close>

theorem bt_search_correct:
  assumes "search_tree t n okk es" "okk key"
  shows "\<exists>e exact path. bt_search t key = Some (Some (e, exact), t\<lparr>bt_stack := path, bt_cur := e\<rparr>) \<and>
    length path = n \<and> located t key es e exact \<and> (exact \<longleftrightarrow> (\<exists>(k, _)\<in>set es. bt_cmp_fn t key k = 0))"
proof -
  obtain e exact path where S: "bt_search t key = Some (Some (e, exact), t\<lparr>bt_stack := path, bt_cur := e\<rparr>)"
    "length path = n" "located t key es e exact"
    using search_tree_correct [OF assms] by blast
  show ?thesis
    by (rule exI [of _ e], rule exI [of _ exact], rule exI [of _ path]) (intro conjI S located_exact [OF S(3)])
qed

theorem bt_search_correct_witness:
  "\<exists>h e exact path. leaf_insert (empty_leaf 512) 0 [1, 2] [3] 0 = Some h \<and>
    bt_search (set_page P_ROOT h sample_tree) [1, 2] =
      Some (Some (e, exact), (set_page P_ROOT h sample_tree)\<lparr>bt_stack := path, bt_cur := e\<rparr>) \<and> exact"
proof -
  obtain h where h: "leaf_insert (empty_leaf 512) 0 [1, 2] [3] 0 = Some h"
    "search_tree (set_page P_ROOT h sample_tree) 0 small_key [([1, 2], \<lparr>ep_pgno = 1, ep_index = 0\<rparr>)]"
    using sample_search_tree by blast
  have "bt_cmp_fn (set_page P_ROOT h sample_tree) [1, 2] [1, 2] = 0" by (simp add: sample_tree_def bt_defcmp_less)
  then show ?thesis
    using bt_search_correct [OF h(2), of "[1, 2]"] h(1) by auto
qed

text \<open>
  \<^verbatim>\<open>__bt_get\<close> on such a tree answers \<open>RET_SPECIAL\<close> when the tree does not have the key, and otherwise
  the data of the record with the key, taken from the page or from its overflow pages.
\<close>

theorem bt_get_correct:
  assumes "search_tree t n okk es" "okk key"
    and "\<forall>(k, e)\<in>set es. bt_ret t e False True False = Some (Some (None, Some (data e)))"
  shows "\<exists>t'. bt_mp t' = bt_mp t \<and>
    (if \<exists>(k, _)\<in>set es. bt_cmp_fn t key k = 0
     then \<exists>(k, e)\<in>set es. bt_cmp_fn t key k = 0 \<and> bt_get t key 0 = Some (RET_SUCCESS, Some (data e), t')
     else bt_get t key 0 = Some (RET_SPECIAL, None, t'))"
proof -
  obtain e exact path where S: "bt_search t key = Some (Some (e, exact), t\<lparr>bt_stack := path, bt_cur := e\<rparr>)"
    "located t key es e exact"
    using search_tree_correct [OF assms(1,2)] by blast
  let ?t = "t\<lparr>bt_stack := path, bt_cur := e\<rparr>"
  show ?thesis
  proof (cases exact)
    case True
    then obtain k where k: "(k, e) \<in> set es" "bt_cmp_fn t key k = 0" using S(2) by (auto simp: located_def)
    then have "bt_get t key 0 = Some (RET_SUCCESS, Some (data e), ?t)"
      using S(1) True assms(3) by (auto simp: bt_get_def)
    then show ?thesis using k by (intro exI [of _ ?t]) auto
  next
    case False
    then have "bt_get t key 0 = Some (RET_SPECIAL, None, ?t)" using S(1) by (simp add: bt_get_def)
    then show ?thesis using located_exact [OF S(2)] False by (intro exI [of _ ?t]) auto
  qed
qed

theorem bt_get_correct_witness:
  "\<exists>h t'. leaf_insert (empty_leaf 512) 0 [1, 2] [3] 0 = Some h \<and>
    bt_get (set_page P_ROOT h sample_tree) [1, 2] 0 = Some (RET_SUCCESS, Some [3], t')"
proof -
  obtain h where h: "leaf_insert (empty_leaf 512) 0 [1, 2] [3] 0 = Some h"
    "search_tree (set_page P_ROOT h sample_tree) 0 small_key [([1, 2], \<lparr>ep_pgno = 1, ep_index = 0\<rparr>)]"
    "bt_ret (set_page P_ROOT h sample_tree) \<lparr>ep_pgno = 1, ep_index = 0\<rparr> False True False = Some (Some (None, Some [3]))"
    using sample_search_tree by blast
  have "bt_cmp_fn (set_page P_ROOT h sample_tree) [1, 2] [1, 2] = 0" by (simp add: sample_tree_def bt_defcmp_less)
  then show ?thesis
    using bt_get_correct [OF h(2), of "[1, 2]" "\<lambda>_. [3]"] h(1,3) by auto
qed

end
