(* ===== verification/Bt_Split.thy ===== *)
theory Bt_Split
  imports Bt_Search
begin

text \<open>
  The distribution of the items of a full page over two pages, \<^verbatim>\<open>bt_psplit\<close> of
  \<^verbatim>\<open>db.1.85/bt_split.c\<close>. A page of an unknown type is the call of \<^verbatim>\<open>abort\<close>, the value \<^const>\<open>None\<close>.
\<close>

section \<open>Distributing the items of a page\<close>

text \<open>The size of an item on a page, whether its key is on overflow pages, and its bytes.\<close>

definition item_src :: "PAGE \<Rightarrow> nat \<Rightarrow> (nat \<times> bool \<times> u8 list) option" where
  "item_src h nxt = do {
     p \<leftarrow> linp h nxt;
     (nbytes, big) \<leftarrow>
       (if flags h AND P_TYPE = P_BINTERNAL then do {
          bi \<leftarrow> GETBINTERNAL h nxt;
          Some (NBINTERNAL (bi_ksize bi), bi_flags bi AND P_BIGKEY \<noteq> 0) }
        else if flags h AND P_TYPE = P_BLEAF then do {
          bl \<leftarrow> GETBLEAF h nxt;
          Some (NBLEAFDBT (bl_ksize bl) (bl_dsize bl), bl_flags bl AND P_BIGKEY \<noteq> 0) }
        else if flags h AND P_TYPE = P_RINTERNAL then Some (NRINTERNAL, False)
        else if flags h AND P_TYPE = P_RLEAF then do {
          dsize \<leftarrow> pg_rd32 h (unat p);
          Some (NRLEAFDBT (unat dsize), False) }
        else None);
     src \<leftarrow> pg_rdn h (unat p) nbytes;
     Some (nbytes, big, src) }"

text \<open>An item copied to the end of the free space, with its offset at an index.\<close>

definition put_copy :: "PAGE \<Rightarrow> nat \<Rightarrow> nat \<Rightarrow> u8 list \<Rightarrow> PAGE option" where
  "put_copy h off nbytes src = do {
     let h = h\<lparr>upper := upper h - of_nat nbytes\<rparr>;
     h \<leftarrow> set_linp h off (upper h);
     pg_wrn h (unat (upper h)) src }"

text \<open>
  The items of the left page: \<open>nxt\<close> is the next item of the page that is split and \<open>off\<close> the
  index it gets; the index \<open>skip\<close> is left open. The result is the page, the first item of the right
  page and the last index of the left one.
\<close>

function psplit_left ::
  "PAGE \<Rightarrow> nat \<Rightarrow> nat \<Rightarrow> nat \<Rightarrow> nat \<Rightarrow> PAGE \<Rightarrow> nat \<Rightarrow> nat \<Rightarrow> nat \<Rightarrow> nat \<Rightarrow> (PAGE \<times> nat \<times> nat) option" where
  "psplit_left h topi skip ilen full l nxt off used bigkeycnt =
     (if \<not> nxt < topi then Some (l, nxt, off)
      else case (if skip = off then Some (ilen, False, []) else item_src h nxt) of
             None \<Rightarrow> None
           | Some (nbytes, isbigkey, src) \<Rightarrow>
               if skip \<le> off \<and> full \<le> used + nbytes then Some (l, nxt, unat (of_nat off - 1 :: u16))
               else case (if skip \<noteq> off then put_copy l off nbytes src else Some l) of
                      None \<Rightarrow> None
                    | Some l \<Rightarrow>
                        let nxt = (if skip \<noteq> off then nxt + 1 else nxt);
                            used = (used + nbytes) mod 65536
                        in if full div 2 \<le> used \<and> (\<not> isbigkey \<or> bigkeycnt = 3) then Some (l, nxt, off)
                           else psplit_left h topi skip ilen full l nxt (off + 1) used
                                  (if full div 2 \<le> used then bigkeycnt + 1 else bigkeycnt))"
  by pat_completeness auto

termination
  by (relation "measure (\<lambda>(h, topi, skip, ilen, full, l, nxt, off, used, big).
        2 * (topi - nxt) + (if off \<le> skip then 1 else 0))")
    (auto split: if_splits option.splits)

declare psplit_left.simps [simp del]

text \<open>The rest goes to the right page; its result has the number of indices and the open index.\<close>

function psplit_right :: "PAGE \<Rightarrow> nat \<Rightarrow> PAGE \<Rightarrow> nat \<Rightarrow> nat \<Rightarrow> nat \<Rightarrow> (PAGE \<times> nat \<times> nat) option" where
  "psplit_right h topi r nxt off skip =
     (if \<not> nxt < topi then Some (r, off, skip)
      else let (off, skip) = (if skip = nxt then (off + 1, 0) else (off, skip))
           in case item_src h nxt of
                None \<Rightarrow> None
              | Some (nbytes, _, src) \<Rightarrow>
                  (case put_copy r off nbytes src of
                     None \<Rightarrow> None
                   | Some r \<Rightarrow> psplit_right h topi r (nxt + 1) (off + 1) skip))"
  by pat_completeness auto

termination
  by (relation "measure (\<lambda>(h, topi, r, nxt, off, skip). topi - nxt)") auto

declare psplit_right.simps [simp del]

abbreviation (input) CURS_ACQUIRE :: u8 where "CURS_ACQUIRE \<equiv> 0x01"
abbreviation (input) CURS_AFTER :: u8 where "CURS_AFTER \<equiv> 0x02"
abbreviation (input) CURS_BEFORE :: u8 where "CURS_BEFORE \<equiv> 0x04"
abbreviation (input) CURS_INIT :: u8 where "CURS_INIT \<equiv> 0x08"

text \<open>The cursor after the split of the page it is on.\<close>

definition psplit_cursor :: "CURSOR \<Rightarrow> PAGE \<Rightarrow> PAGE \<Rightarrow> PAGE \<Rightarrow> nat \<Rightarrow> nat \<Rightarrow> CURSOR" where
  "psplit_cursor c h l r skip nxt =
     (if c_flags c AND CURS_INIT \<noteq> 0 \<and> ep_pgno (c_pg c) = pgno h then
        let i = (if skip \<le> ep_index (c_pg c) then ep_index (c_pg c) + 1 else ep_index (c_pg c))
        in if i < nxt then c\<lparr>c_pg := \<lparr>ep_pgno = pgno l, ep_index = i\<rparr>\<rparr>
           else c\<lparr>c_pg := \<lparr>ep_pgno = pgno r, ep_index = i - nxt\<rparr>\<rparr>
      else c)"

text \<open>
  The two pages, whether the open index is on the left one, the open index and the cursor.
\<close>

definition bt_psplit ::
  "BTREE \<Rightarrow> PAGE \<Rightarrow> PAGE \<Rightarrow> PAGE \<Rightarrow> nat \<Rightarrow> nat \<Rightarrow> (PAGE \<times> PAGE \<times> bool \<times> nat \<times> CURSOR) option" where
  "bt_psplit t h l r pskip ilen = do {
     let topi = NEXTINDEX h;
     (l, nxt, off) \<leftarrow> psplit_left h topi pskip ilen (bt_psize t - BTDATAOFF) l 0 0 0 0;
     let l = l\<lparr>lower := lower l + of_nat ((off + 1) * 2)\<rparr>;
     let c = psplit_cursor (bt_cursor t) h l r pskip nxt;
     let left = (pskip \<le> off);
     (r, off, skip) \<leftarrow> psplit_right h topi r nxt 0 (if left then 0 else pskip);
     let r = r\<lparr>lower := lower r + of_nat (off * 2)\<rparr>;
     let r = (if skip = topi then r\<lparr>lower := lower r + 2\<rparr> else r);
     Some (l, r, left, if left then pskip else pskip - nxt, c) }"

section \<open>Pages with open indices\<close>

declare split_paired_All [simp del] split_paired_Ex [simp del]

text \<open>
  A page whose offset array has been laid out for some entries, of which those that are \<^const>\<open>None\<close>
  are not there yet.
\<close>

definition slots :: "PAGE \<Rightarrow> (nat \<times> u8 list) option list \<Rightarrow> bool" where
  "slots h xs \<longleftrightarrow>
     BTDATAOFF + length (body h) < 65536 \<and> BTDATAOFF + 2 * length xs \<le> unat (upper h) \<and>
     unat (upper h) + (\<Sum>x\<leftarrow>xs. case x of None \<Rightarrow> 0 | Some e \<Rightarrow> isize (snd e)) = BTDATAOFF + length (body h) \<and>
     (\<forall>i e. i < length xs \<and> xs ! i = Some e \<longrightarrow> linp h i = Some (of_nat (fst e))) \<and>
     (\<forall>e. Some e \<in> set xs \<longrightarrow> entry_ok h e) \<and>
     sorted_wrt (\<lambda>a b. \<forall>e f. a = Some e \<and> b = Some f \<longrightarrow> apart e f) xs"

lemma slots_open:
  assumes "slots h xs" "BTDATAOFF + 2 * length xs + 2 \<le> unat (upper h)"
  shows "slots h (xs @ [None])"
  using assms by (auto simp: slots_def nth_append sorted_wrt_append)

lemma slots_holds:
  assumes "slots h (map Some es)" "unat (lower h) = BTDATAOFF + 2 * length es"
  shows "page_holds h es"
  using assms
  by (auto simp: slots_def page_holds_def comp_def sorted_wrt_map)

lemma sum_list_update_None:
  fixes f :: "'a \<Rightarrow> nat"
  shows "i < length xs \<Longrightarrow> xs ! i = None \<Longrightarrow>
   (\<Sum>x\<leftarrow>xs[i := Some y]. case x of None \<Rightarrow> 0 | Some e \<Rightarrow> f e) = f y + (\<Sum>x\<leftarrow>xs. case x of None \<Rightarrow> 0 | Some e \<Rightarrow> f e)"
proof (induction xs arbitrary: i)
  case (Cons x xs)
  then show ?case by (cases i) auto
qed simp

abbreviation (input) slots_apart :: "(nat \<times> u8 list) option list \<Rightarrow> bool" where
  "slots_apart \<equiv> sorted_wrt (\<lambda>a b. \<forall>e f. a = Some e \<and> b = Some f \<longrightarrow> apart e f)"

lemma slots_apart_update:
  assumes "slots_apart xs" "\<And>j e. j < length xs \<Longrightarrow> xs ! j = Some e \<Longrightarrow> apart e x"
  shows "slots_apart (xs[i := Some x])"
proof -
  have s: "apart e f" if "j < k" "k < length xs" "xs ! j = Some e" "xs ! k = Some f" for j k e f
    using assms(1) that by (auto simp: sorted_wrt_iff_nth_less)
  show ?thesis
    unfolding sorted_wrt_iff_nth_less
  proof (intro allI impI)
    fix j k e f
    assume jk: "j < k" "k < length (xs[i := Some x])"
      and ef: "xs[i := Some x] ! j = Some e \<and> xs[i := Some x] ! k = Some f"
    consider "j = i" | "k = i" | "j \<noteq> i" "k \<noteq> i" by blast
    then show "apart e f"
    proof cases
      case 1
      then show ?thesis using jk ef assms(2) [of k f] apart_sym [of f] by simp
    next
      case 2
      then show ?thesis using jk ef assms(2) [of j e] by simp
    next
      case 3
      then show ?thesis using jk ef s [of j k e f] by simp
    qed
  qed
qed

text \<open>Filling an open index with an item, which may have some bytes of padding.\<close>

lemma fill_slots:
  assumes sl: "slots h xs" and i: "i < length xs" "xs ! i = None" and it: "it \<noteq> []"
    and room: "BTDATAOFF + 2 * length xs + isize it \<le> unat (upper h)"
    and set: "set_linp (h\<lparr>upper := upper h - of_nat (isize it)\<rparr>) i (upper h - of_nat (isize it)) = Some h2"
    and st: "stores h2 (unat (upper h2)) src h3" and src: "length src \<le> isize it" "take (length it) src = it"
  shows "slots h3 (xs[i := Some (unat (upper h3), it)]) \<and> unat (upper h3) = unat (upper h) - isize it \<and>
    lower h3 = lower h \<and> links h3 = links h \<and> length (body h3) = length (body h)"
proof -
  let ?h1 = "h\<lparr>upper := upper h - of_nat (isize it)\<rparr>" and ?u = "unat (upper h3)"
  have total: "unat (upper h) \<le> BTDATAOFF + length (body h)" "BTDATAOFF + length (body h) < 65536"
    using sl by (auto simp: slots_def)
  have up: "unat (upper ?h1) = unat (upper h) - isize it" using room by (simp add: unat_sub16)
  note hd2 = same_headerD [OF set_linp_header [OF set]] and hd3 = same_headerD [OF stores_headerD [OF st]]
  have u: "?u = unat (upper h) - isize it" "upper h3 = upper h - of_nat (isize it)" using hd2 hd3 up by simp_all
  have st: "stores h2 ?u src h3" using st hd3 by simp
  have R1: "pg_rdn ?h1 off k = pg_rdn h off k" "linp ?h1 j = linp h j" for off k j
    by (simp_all add: pg_rdn_def linp_def)
  have far: "pg_rdn h3 off k = pg_rdn h off k" if "unat (upper h) \<le> off" for off k
  proof -
    have "pg_rdn h3 off k = pg_rdn h2 off k" using st that u src(1) room by (simp add: stores_def)
    moreover have "pg_rdn h2 off k = pg_rdn h off k"
      using set_linp_other [OF set, of off k] that i room R1 by simp
    ultimately show ?thesis by simp
  qed
  have near: "linp h3 j = (if j = i then Some (upper h3) else linp h j)" if "j < length xs" for j
  proof -
    have "linp h3 j = linp h2 j" using st that u room by (intro linp_cong) (simp add: stores_def)
    then show ?thesis using linp_set_linp [OF set, of j] u(2) R1 by simp
  qed
  have len: "length it \<le> length src" using arg_cong [OF src(2), of length] by simp
  have new: "entry_ok h3 (?u, it)"
  proof -
    have "pg_rdn h3 ?u (length it) = Some (take (length it) (drop (?u - ?u) src))"
      using st len by (intro pg_rdn_part [of h3 ?u "length src"]) (simp_all add: stores_def)
    then show ?thesis using src(2) it u(1) hd2 hd3 total room by (simp add: entry_ok_def)
  qed
  have old: "entry_ok h3 e \<and> apart e (?u, it)" if "Some e \<in> set xs" for e
  proof -
    have e: "entry_ok h e" using sl that by (simp add: slots_def)
    then show ?thesis
      using far [of "fst e" "length (snd e)"] u(1) hd2 hd3 room by (auto simp: entry_ok_def apart_def)
  qed
  have sep: "slots_apart (xs[i := Some (?u, it)])"
    using sl old nth_mem by (intro slots_apart_update) (force simp: slots_def)+
  have "slots h3 (xs[i := Some (?u, it)])"
    unfolding slots_def
  proof (intro conjI allI impI)
    fix j e assume "j < length (xs[i := Some (?u, it)]) \<and> xs[i := Some (?u, it)] ! j = Some e"
    then show "linp h3 j = Some (of_nat (fst e))"
      using near [of j] sl i by (auto simp: slots_def nth_list_update split: if_splits)
  next
    fix e assume "Some e \<in> set (xs[i := Some (?u, it)])"
    then show "entry_ok h3 e" using set_update_subset_insert [of xs i "Some (?u, it)"] old new by blast
  next
    show "slots_apart (xs[i := Some (?u, it)])" by (rule sep)
  qed (use sl i u(1) hd2 hd3 room sum_list_update_None [OF i, of "\<lambda>e. isize (snd e)" "(?u, it)"]
      in \<open>simp_all add: slots_def\<close>)
  then show ?thesis using hd2 hd3 u(1) by (simp add: links_def)
qed

lemma put_copy_slots:
  assumes sl: "slots h xs" and i: "i < length xs" "xs ! i = None" and it: "it \<noteq> []"
    and src: "length src = isize it" "take (length it) src = it"
    and room: "BTDATAOFF + 2 * length xs + isize it \<le> unat (upper h)"
  shows "\<exists>h'. put_copy h i (isize it) src = Some h' \<and> lower h' = lower h \<and> links h' = links h \<and>
    length (body h') = length (body h) \<and> unat (upper h') = unat (upper h) - isize it \<and>
    slots h' (xs[i := Some (unat (upper h'), it)])"
proof -
  let ?h1 = "h\<lparr>upper := upper h - of_nat (isize it)\<rparr>"
  have up: "unat (upper ?h1) = unat (upper h) - isize it" using room by (simp add: unat_sub16)
  have lo: "BTDATAOFF \<le> unat (upper h) - isize it" using room by linarith
  have total: "unat (upper h) \<le> BTDATAOFF + length (body h)" using sl by (auto simp: slots_def)
  obtain h2 where 2: "set_linp ?h1 i (upper ?h1) = Some h2"
    using set_linp_ok [of i ?h1] i room total by auto
  note hd2 = same_headerD [OF set_linp_header [OF 2]]
  obtain h3 where 3: "pg_wrn h2 (unat (upper h2)) src = Some h3"
    using pg_wrn_ok [of "unat (upper h2)" src h2] hd2 up lo room src total by auto
  have "put_copy h i (isize it) src = Some h3" using 2 3 by (simp add: put_copy_def Let_def)
  moreover have "set_linp ?h1 i (upper h - of_nat (isize it)) = Some h2" using 2 by simp
  ultimately show ?thesis
    using fill_slots [OF sl i it room _ stores_wrn [OF 3]] src by auto
qed

section \<open>The split keeps every item\<close>

text \<open>
  The items with the open index among them, and the space that a stretch of them takes.
\<close>

definition with_open :: "nat \<Rightarrow> u8 list list \<Rightarrow> u8 list option list" where
  "with_open skip its = take skip (map Some its) @ None # drop skip (map Some its)"

definition space :: "nat \<Rightarrow> u8 list option list \<Rightarrow> nat" where
  "space ilen ys = (\<Sum>y\<leftarrow>ys. case y of None \<Rightarrow> ilen | Some it \<Rightarrow> isize it)"

text \<open>The copies the loops take from the page.\<close>

definition sources :: "PAGE \<Rightarrow> u8 list list \<Rightarrow> bool" where
  "sources h its \<longleftrightarrow> NEXTINDEX h = length its \<and>
     (\<forall>i < length its. 9 \<le> length (its ! i) \<and>
        (\<exists>src. item_src h i = Some (isize (its ! i), False, src) \<and> length src = isize (its ! i) \<and>
           take (length (its ! i)) src = its ! i))"

lemma length_with_open [simp]: "skip \<le> length its \<Longrightarrow> length (with_open skip its) = Suc (length its)"
  by (simp add: with_open_def)

lemma nth_with_open:
  assumes "skip \<le> length its" "i \<le> length its"
  shows "with_open skip its ! i = (if i < skip then Some (its ! i) else if i = skip then None else Some (its ! (i - 1)))"
  using nth_insert [of skip "map Some its" i None] assms by (auto simp: with_open_def)

lemma space_append [simp]: "space ilen (xs @ ys) = space ilen xs + space ilen ys"
  by (simp add: space_def)

lemma space_Cons [simp]: "space ilen (y # ys) = (case y of None \<Rightarrow> ilen | Some it \<Rightarrow> isize it) + space ilen ys"
  by (simp add: space_def)

lemma space_Nil [simp]: "space ilen [] = 0"
  by (simp add: space_def)

lemma space_with_open:
  "skip \<le> length its \<Longrightarrow> space ilen (with_open skip its) = ilen + (\<Sum>it\<leftarrow>its. isize it)"
proof -
  have "space ilen (map Some xs) = (\<Sum>it\<leftarrow>xs. isize it)" for xs :: "u8 list list"
    by (induction xs) simp_all
  then have "space ilen (take skip (map Some its)) + space ilen (drop skip (map Some its)) = (\<Sum>it\<leftarrow>its. isize it)"
    by (metis append_take_drop_id space_append)
  then show ?thesis by (simp add: with_open_def)
qed

lemma isize_mono12: "9 \<le> length it \<Longrightarrow> 12 \<le> isize it"
  unfolding isize_def LALIGN_def by presburger

text \<open>Few indices fit in little space.\<close>

lemma space_count:
  assumes "\<forall>it \<in> set its. 9 \<le> length it" "skip \<le> length its"
  shows "off \<le> Suc (length its) \<Longrightarrow>
    12 * off \<le> space ilen (take off (with_open skip its)) + (if skip < off then 12 else 0)"
proof (induction off)
  case (Suc off)
  then have off: "off \<le> length its" by simp
  have "12 \<le> isize (its ! i)" if "i < length its" for i using assms(1) that by (simp add: isize_mono12)
  then have "off \<noteq> skip \<Longrightarrow> 12 \<le> (case with_open skip its ! off of None \<Rightarrow> ilen | Some it \<Rightarrow> isize it)"
    using nth_with_open [OF assms(2) off] assms(2) off by auto
  then show ?case
    using Suc off assms(2) by (auto simp: take_Suc_conv_app_nth split: if_splits)
qed simp

lemma space_step:
  assumes "skip \<le> length its" "off \<le> length its"
  shows "space ilen (take (Suc off) (with_open skip its)) = space ilen (take off (with_open skip its)) +
    (case with_open skip its ! off of None \<Rightarrow> ilen | Some it \<Rightarrow> isize it)"
  using assms by (simp add: take_Suc_conv_app_nth)

lemma space_zero: "space 0 ys \<le> space ilen ys"
  by (induction ys) (auto split: option.splits)

lemma slots_space:
  assumes "slots h xs" "map (map_option snd) xs = ys"
  shows "unat (upper h) + space 0 ys = BTDATAOFF + length (body h)"
proof -
  have "(\<Sum>x\<leftarrow>xs. case x of None \<Rightarrow> 0 | Some e \<Rightarrow> isize (snd e)) = space 0 (map (map_option snd) xs)"
    by (induction xs) (auto split: option.splits)
  then show ?thesis using assms by (simp add: slots_def)
qed

text \<open>The bounds under which the split is safe: no item takes more than a quarter of the page.\<close>

definition small_items :: "nat \<Rightarrow> nat \<Rightarrow> u8 list list \<Rightarrow> bool" where
  "small_items full ilen its \<longleftrightarrow> 48 \<le> full \<and> full < 65516 \<and> 4 * ilen \<le> full \<and> (\<forall>it \<in> set its. 4 * isize it \<le> full)"

lemma quarter_room:
  fixes off s n f :: nat
  assumes "12 * off \<le> s + 12" "2 * s < f" "4 * n \<le> f" "48 \<le> f" 
  shows "2 * Suc off + (s + n) \<le> f"
proof -
  have "12 * (2 * Suc off + (s + n)) \<le> 2 * s + 24 + 24 + 12 * s + 12 * n" using assms(1) by simp
  also have "\<dots> \<le> 7 * f + 48 + 3 * f" using assms by simp
  also have "\<dots> \<le> 12 * f" using assms by simp
  finally show ?thesis by simp
qed

lemma small_room:
  assumes "small_items full ilen its" "sources h its" "skip \<le> length its" "off \<le> length its"
    and "space ilen (take off (with_open skip its)) < full div 2"
  shows "2 * Suc off + space ilen (take (Suc off) (with_open skip its)) \<le> full"
proof -
  have "\<forall>it \<in> set its. 9 \<le> length it" using assms(2) by (auto simp: sources_def in_set_conv_nth)
  then have count: "12 * off \<le> space ilen (take off (with_open skip its)) + 12"
    using space_count [of its skip off ilen] assms(3,4) by (auto split: if_splits)
  have "4 * (case with_open skip its ! off of None \<Rightarrow> ilen | Some it \<Rightarrow> isize it) \<le> full"
    using nth_with_open [OF assms(3,4)] assms(1,3,4) by (auto simp: small_items_def)
  moreover have "2 * space ilen (take off (with_open skip its)) < full" "48 \<le> full"
    using assms(1,5) by (auto simp: small_items_def)
  ultimately show ?thesis
    using count unfolding space_step [OF assms(3,4), of ilen] by (intro quarter_room)
qed

text \<open>One item copied, or the index left open.\<close>

lemma copy_step:
  assumes src: "sources h its" and skip: "skip \<le> length its" and off: "off \<le> length its"
    and nxt: "nxt = (if off \<le> skip then off else off - 1)" "nxt < length its \<or> off = skip"
    and sl: "slots l xs" "length xs = n"
    and room: "BTDATAOFF + 2 * n + 2 + (case with_open skip its ! off of None \<Rightarrow> 0 | Some it \<Rightarrow> isize it) \<le> unat (upper l)"
  shows "\<exists>l' src e. (if skip = off then Some (ilen, False, []) else item_src h nxt) =
      Some (case with_open skip its ! off of None \<Rightarrow> ilen | Some it \<Rightarrow> isize it, False, src) \<and>
    (if skip \<noteq> off then put_copy l n (case with_open skip its ! off of None \<Rightarrow> ilen | Some it \<Rightarrow> isize it) src
     else Some l) = Some l' \<and>
    slots l' (xs @ [e]) \<and> map_option snd e = with_open skip its ! off \<and>
    lower l' = lower l \<and> links l' = links l \<and> length (body l') = length (body l)"
proof (cases "skip = off")
  case True
  have "slots l (xs @ [None])" using slots_open [OF sl(1)] sl(2) room by simp
  then show ?thesis using True nth_with_open [OF skip off] by (intro exI [of _ l] exI [of _ "[]"] exI [of _ None]) simp
next
  case False
  let ?it = "its ! nxt"
  have ys: "with_open skip its ! off = Some ?it" using nth_with_open [OF skip off] False nxt by auto
  have n: "nxt < length its" using nxt False by auto
  obtain src where S: "item_src h nxt = Some (isize ?it, False, src)" "length src = isize ?it" "take (length ?it) src = ?it"
    "?it \<noteq> []"
  proof -
    have "9 \<le> length ?it" using src n by (simp add: sources_def)
    then have "?it \<noteq> []" by auto
    then show ?thesis using that src n by (auto simp: sources_def)
  qed
  have op: "slots l (xs @ [None])" using slots_open [OF sl(1)] sl(2) room by simp
  obtain l' where "put_copy l n (isize ?it) src = Some l'" "lower l' = lower l" "links l' = links l"
    "length (body l') = length (body l)" "slots l' ((xs @ [None])[n := Some (unat (upper l'), ?it)])"
    using put_copy_slots [OF op, of n ?it src] sl(2) S room ys by auto
  then show ?thesis
    using False ys S by (intro exI [of _ l'] exI [of _ src] exI [of _ "Some (unat (upper l'), ?it)"])
      (simp add: sl(2) [symmetric])
qed

lemma psplit_left_ok:
  assumes src: "sources h its" and skip: "skip \<le> length its" and small: "small_items full ilen its"
    and half: "full div 2 \<le> (\<Sum>it\<leftarrow>its. isize it)"
  shows "slots l xs \<Longrightarrow> map (map_option snd) xs = take off (with_open skip its) \<Longrightarrow> length (body l) = full \<Longrightarrow>
    off \<le> Suc (length its) \<Longrightarrow> nxt = (if off \<le> skip then off else off - 1) \<Longrightarrow>
    used = space ilen (take off (with_open skip its)) \<Longrightarrow> used < full div 2 \<Longrightarrow>
    \<exists>l' off' xs'. psplit_left h (length its) skip ilen full l nxt off used 0 =
        Some (l', if off' < skip then Suc off' else off', off') \<and>
      slots l' xs' \<and> map (map_option snd) xs' = take (Suc off') (with_open skip its) \<and> off' \<le> length its \<and>
      lower l' = lower l \<and> links l' = links l \<and> length (body l') = full \<and>
      full div 2 \<le> space ilen (take (Suc off') (with_open skip its)) \<and>
      space ilen (take off' (with_open skip its)) < full div 2 \<and>
      2 * Suc off' + space ilen (take (Suc off') (with_open skip its)) \<le> full"
proof (induction "Suc (length its) - off" arbitrary: l xs off nxt used rule: less_induct)
  case less
  let ?ys = "with_open skip its"
  have len: "length xs = off" using arg_cong [OF less.prems(2), of length] less.prems(4) skip by simp
  have off: "off \<le> length its"
  proof (rule ccontr)
    assume "\<not> off \<le> length its"
    then have "used = ilen + (\<Sum>it\<leftarrow>its. isize it)" using less.prems(4,6) space_with_open [OF skip] skip by simp
    then show False using less.prems(7) half by simp
  qed
  have "\<not> (off = skip \<and> skip = length its)"
  proof
    assume "off = skip \<and> skip = length its"
    then have "used + ilen = ilen + (\<Sum>it\<leftarrow>its. isize it)"
      using less.prems(6) space_with_open [OF skip, of ilen] by (simp add: with_open_def)
    then show False using less.prems(7) half by simp
  qed
  then have nxt: "nxt < length its" using less.prems(5) off skip by (auto split: if_splits)
  have room: "2 * Suc off + space ilen (take (Suc off) ?ys) \<le> full"
    using small_room [OF small src skip off] less.prems(6,7) by simp
  let ?nb = "case ?ys ! off of None \<Rightarrow> ilen | Some it \<Rightarrow> isize it"
  have step: "space ilen (take (Suc off) ?ys) = used + ?nb" using space_step [OF skip off] less.prems(6) by simp
  have up: "unat (upper l) + space 0 (take off ?ys) = BTDATAOFF + full"
    using slots_space [OF less.prems(1,2)] less.prems(3) by simp
  have "space 0 (take off ?ys) \<le> used" using space_zero less.prems(6) by simp
  then have R: "BTDATAOFF + 2 * off + 2 + (case ?ys ! off of None \<Rightarrow> 0 | Some it \<Rightarrow> isize it) \<le> unat (upper l)"
    using up room step by (cases "?ys ! off") auto
  obtain l' src e where 1:
    "(if skip = off then Some (ilen, False, []) else item_src h nxt) = Some (?nb, False, src)"
    "(if skip \<noteq> off then put_copy l off ?nb src else Some l) = Some l'"
    "slots l' (xs @ [e])" "map_option snd e = ?ys ! off"
    "lower l' = lower l" "links l' = links l" "length (body l') = full"
    using copy_step [OF src skip off less.prems(5) disjI1 [OF nxt] less.prems(1) len R, of ilen]
    unfolding less.prems(3) by blast
  have xs': "map (map_option snd) (xs @ [e]) = take (Suc off) ?ys"
    using less.prems(2) 1(4) off skip by (simp add: take_Suc_conv_app_nth)
  let ?nxt = "if skip \<noteq> off then nxt + 1 else nxt"
  have nxt': "?nxt = (if off < skip then Suc off else off)" "?nxt = (if Suc off \<le> skip then Suc off else Suc off - 1)"
    using less.prems(5) by auto
  have lt: "used + ?nb < 65536" "\<not> full \<le> used + ?nb" using room step small by (auto simp: small_items_def)
  show ?case
  proof (cases "full div 2 \<le> used + ?nb")
    case True
    then have "psplit_left h (length its) skip ilen full l nxt off used 0 = Some (l', ?nxt, off)"
      using 1(1,2) nxt lt by (subst psplit_left.simps) (simp add: Let_def)
    then show ?thesis
      using 1(3,5,6,7) xs' off True room step nxt' less.prems(6,7)
      by (intro exI [of _ l'] exI [of _ off] exI [of _ "xs @ [e]"]) simp
  next
    case False
    then have rec: "psplit_left h (length its) skip ilen full l nxt off used 0 =
        psplit_left h (length its) skip ilen full l' ?nxt (Suc off) (used + ?nb) 0"
      using 1(1,2) nxt lt by (subst psplit_left.simps) (simp add: Let_def)
    show ?thesis
      unfolding rec
      using less.hyps [of "Suc off" l' "xs @ [e]" ?nxt "used + ?nb"] off 1(3,5,6,7) xs' nxt'(2) step False by simp
  qed
qed

lemma space_take_le: "space ilen (take k zs) \<le> space ilen zs"
  using space_append [of ilen "take k zs" "drop k zs"] by (metis append_take_drop_id le_add1)

text \<open>The items of the right page, \<open>zs\<close>, with the open index if it is there.\<close>

lemma right_step:
  assumes src: "sources h its" and skip: "skip \<le> length its" and pos: "base + off \<le> length its"
    and zs: "zs = drop base (with_open skip its)"
    and nxt: "nxt = (if base + off \<le> skip then base + off else base + off - 1)" "nxt < length its"
      "base + off \<noteq> skip"
    and sl: "slots r xs" "map (map_option snd) xs = take off zs"
    and room: "2 * length zs + space ilen zs \<le> length (body r)"
  shows "\<exists>r' xs' src. item_src h nxt = Some (isize (its ! nxt), False, src) \<and>
    put_copy r off (isize (its ! nxt)) src = Some r' \<and> slots r' xs' \<and>
    map (map_option snd) xs' = take (Suc off) zs \<and>
    lower r' = lower r \<and> links r' = links r \<and> length (body r') = length (body r)"
proof -
  have lz: "off < length zs" using pos zs skip by simp
  have zo: "zs ! off = with_open skip its ! (base + off)" using zs pos skip by simp
  have y: "with_open skip its ! (base + off) = Some (its ! nxt)"
    using nth_with_open [OF skip pos] nxt by auto
  have len: "length xs = off" using arg_cong [OF sl(2), of length] lz by simp
  have take: "take (Suc off) zs = take off zs @ [zs ! off]" using lz by (simp add: take_Suc_conv_app_nth)
  have "space 0 (take (Suc off) zs) \<le> space ilen zs"
    using space_take_le [of 0 "Suc off" zs] space_zero [of zs ilen] by linarith
  then have "space 0 (take off zs) + isize (its ! nxt) \<le> space ilen zs" using take zo y by simp
  then have R: "BTDATAOFF + 2 * off + 2 + isize (its ! nxt) \<le> unat (upper r)"
    using slots_space [OF sl] room lz by linarith
  obtain r' src e where
    "(if skip = base + off then Some (ilen, False, []) else item_src h nxt) = Some (isize (its ! nxt), False, src)"
    "(if skip \<noteq> base + off then put_copy r off (isize (its ! nxt)) src else Some r) = Some r'"
    "slots r' (xs @ [e])" "map_option snd e = Some (its ! nxt)"
    "lower r' = lower r" "links r' = links r" "length (body r') = length (body r)"
    using copy_step [OF src skip pos nxt(1) disjI1 [OF nxt(2)] sl(1) len, of ilen, unfolded y option.case, OF R]
    by blast
  then show ?thesis
    using nxt(3) sl(2) take zo y by (intro exI [of _ r'] exI [of _ "xs @ [e]"] exI [of _ src]) auto
qed

lemma psplit_right_ok:
  assumes src: "sources h its" and skip: "skip \<le> length its" and zs: "zs = drop base (with_open skip its)"
    and room: "2 * length zs + space ilen zs \<le> full"
  shows "slots r xs \<Longrightarrow> map (map_option snd) xs = take off zs \<Longrightarrow> length (body r) = full \<Longrightarrow> nxt \<le> length its \<Longrightarrow>
    base \<le> length its + 1 \<Longrightarrow>
    sk = 0 \<and> 0 < nxt \<and> skip < base + off \<and> nxt + 1 = base + off \<or> sk = skip \<and> base + off \<le> skip \<and> nxt = base + off \<Longrightarrow>
    \<exists>r' off' sk' xs'. psplit_right h (length its) r nxt off sk = Some (r', off', sk') \<and>
      slots r' xs' \<and> map (map_option snd) xs' = take off' zs \<and> lower r' = lower r \<and> links r' = links r \<and>
      length (body r') = full \<and>
      (if sk' = length its then base + off' = length its \<and> skip = length its else base + off' = Suc (length its))"
proof (induction "length its - nxt" arbitrary: r xs off nxt sk rule: less_induct)
  case less
  show ?case
  proof (cases "nxt < length its")
    case False
    then have "psplit_right h (length its) r nxt off sk = Some (r, off, sk)" by (subst psplit_right.simps) simp
    moreover have "nxt = length its" using False less.prems(4) by simp
    ultimately show ?thesis using less.prems skip by (intro exI [of _ r] exI [of _ off] exI [of _ sk] exI [of _ xs]) auto
  next
    case True
    define off1 where "off1 = (if sk = nxt then off + 1 else off)"
    define sk1 where "sk1 = (if sk = nxt then 0 else sk)"
    define xs1 where "xs1 = (if sk = nxt then xs @ [None] else xs)"
    have pos: "base + off1 \<le> length its" "base + off1 \<noteq> skip"
      "nxt = (if base + off1 \<le> skip then base + off1 else base + off1 - 1)"
      using less.prems(6) True by (auto simp: off1_def)
    have lz: "off1 < length zs" using pos(1) zs skip by simp
    have "off \<le> off1" by (simp add: off1_def)
    then have lx: "length xs = off" using arg_cong [OF less.prems(2), of length] lz by simp
    have "slots r xs1 \<and> map (map_option snd) xs1 = take off1 zs"
    proof (cases "sk = nxt")
      case T: True
      then have s: "skip = base + off" using less.prems(6) by auto
      have "zs ! off = None" using nth_with_open [OF skip skip] zs s skip by simp
      moreover have "off < length zs" using lz T by (simp add: off1_def)
      moreover have "BTDATAOFF + 2 * length xs + 2 \<le> unat (upper r)"
        using slots_space [OF less.prems(1,2)] room less.prems(3) lx space_take_le [of 0 off zs] space_zero [of zs ilen]
          \<open>off < length zs\<close> by linarith
      ultimately show ?thesis
        using slots_open [OF less.prems(1)] less.prems(2) T by (simp add: xs1_def off1_def take_Suc_conv_app_nth)
    qed (use less.prems in \<open>simp add: xs1_def off1_def\<close>)
    then obtain r' xs' src where 1: "item_src h nxt = Some (isize (its ! nxt), False, src)"
      "put_copy r off1 (isize (its ! nxt)) src = Some r'" "slots r' xs'"
      "map (map_option snd) xs' = take (Suc off1) zs"
      "lower r' = lower r" "links r' = links r" "length (body r') = full"
      using right_step [OF src skip pos(1) zs pos(3) True pos(2), of r xs1 ilen] room less.prems(3) by auto
    have rec: "psplit_right h (length its) r nxt off sk = psplit_right h (length its) r' (nxt + 1) (off1 + 1) sk1"
      using True 1(1,2) by (subst psplit_right.simps) (cases "sk = nxt"; simp add: off1_def sk1_def Let_def)
    have st: "sk1 = 0 \<and> 0 < nxt + 1 \<and> skip < base + (off1 + 1) \<and> nxt + 1 + 1 = base + (off1 + 1) \<or>
        sk1 = skip \<and> base + (off1 + 1) \<le> skip \<and> nxt + 1 = base + (off1 + 1)"
      using less.prems(6) by (auto simp: off1_def sk1_def)
    show ?thesis
      unfolding rec
      using less.hyps [OF _ 1(3) _ 1(7) _ less.prems(5) st] True 1(4,5,6) by simp
  qed
qed

section \<open>The split of a page\<close>

definition open_page :: "PAGE \<Rightarrow> u8 list option list \<Rightarrow> bool" where
  "open_page h ys \<longleftrightarrow> (\<exists>xs. slots h xs \<and> map (map_option snd) xs = ys \<and> unat (lower h) = BTDATAOFF + 2 * length ys)"

definition fresh_page :: "nat \<Rightarrow> PAGE \<Rightarrow> bool" where
  "fresh_page psize h \<longleftrightarrow> BTDATAOFF \<le> psize \<and> psize < 65536 \<and>
     unat (lower h) = BTDATAOFF \<and> unat (upper h) = psize \<and> BTDATAOFF + length (body h) = psize"

lemma fresh_slots: "fresh_page psize h \<Longrightarrow> slots h []"
  by (simp add: fresh_page_def slots_def)

lemma lower_slots: "slots (h\<lparr>lower := x\<rparr>) xs = slots h xs"
  by (simp add: slots_def entry_ok_def linp_def pg_rdn_def)

lemma page_items_src:
  assumes "page_items h its" "i < length its"
  shows "\<exists>p src. linp h i = Some p \<and> pg_rdn h (unat p) (isize (its ! i)) = Some src \<and>
    length src = isize (its ! i) \<and> take (length (its ! i)) src = its ! i"
proof -
  obtain es where es: "page_holds h es" "its = map snd es" using assms by (auto simp: page_items_def)
  have e: "entry_ok h (es ! i)" "linp h i = Some (of_nat (fst (es ! i)))" "BTDATAOFF + length (body h) < 65536"
    using es assms(2) by (auto simp: page_holds_def)
  have u: "unat (of_nat (fst (es ! i)) :: u16) = fst (es ! i)"
    using e(1,3) isize_ge [of "snd (es ! i)"] by (intro unat_of_nat16) (simp add: entry_ok_def)
  have B: "BTDATAOFF \<le> fst (es ! i)" using e(1) by (simp add: entry_ok_def pg_rdn_Some)
  obtain src where src: "pg_rdn h (fst (es ! i)) (isize (snd (es ! i))) = Some src" "length src = isize (snd (es ! i))"
    using pg_rdn_ok [OF B, of "isize (snd (es ! i))" h] e(1) by (auto simp: entry_ok_def)
  have "Some (snd (es ! i)) = Some (take (length (snd (es ! i))) src)"
    using pg_rdn_part [OF src(1), of "fst (es ! i)" "length (snd (es ! i))"] isize_ge [of "snd (es ! i)"] e(1)
    by (simp add: entry_ok_def)
  then show ?thesis using e(2) u src es(2) assms(2) by auto
qed

lemma leaf_sources:
  assumes "leaf_page h rs" "flags h AND P_TYPE = P_BLEAF" "\<forall>r\<in>set rs. snd (snd r) AND P_BIGKEY = 0"
  shows "sources h (map leaf_item rs)"
  unfolding sources_def
proof (intro conjI allI impI)
  show "NEXTINDEX h = length (map leaf_item rs)" using leaf_count [OF assms(1)] by simp
  fix i assume i: "i < length (map leaf_item rs)"
  obtain k d fl where r: "rs ! i = (k, d, fl)" by (cases "rs ! i")
  have "rs ! i \<in> set rs" using i by simp
  then have fl: "fl AND P_BIGKEY = 0" using assms(3) r by fastforce
  show "9 \<le> length (map leaf_item rs ! i)" using i r by (simp add: leaf_item_def)
  obtain p src where S: "linp h i = Some p" "pg_rdn h (unat p) (isize (map leaf_item rs ! i)) = Some src"
    "length src = isize (map leaf_item rs ! i)" "take (length (map leaf_item rs ! i)) src = map leaf_item rs ! i"
    using page_items_src [of h "map leaf_item rs" i] assms(1) i by (auto simp: leaf_page_def)
  have "item_src h i = Some (isize (map leaf_item rs ! i), False, src)"
    using leaf_get [OF assms(1), of i k d fl] i r fl assms(2) S(1,2)
    by (simp add: item_src_def leaf_item_def isize_leaf)
  then show "\<exists>src. item_src h i = Some (isize (map leaf_item rs ! i), False, src) \<and>
      length src = isize (map leaf_item rs ! i) \<and> take (length (map leaf_item rs ! i)) src = map leaf_item rs ! i"
    using S(3,4) by blast
qed

text \<open>A full page whose items are small has half of its bytes in items.\<close>

lemma full_half:
  fixes n s f il :: nat
  assumes "12 * n \<le> s" "f < s + 2 * n + il + 2" "4 * il \<le> f" "48 \<le> f"
  shows "f div 2 \<le> s"
proof -
  have "24 * f < 28 * s + 24 * il + 48" using assms(1,2) by simp
  then have "18 * f < 28 * s + 48" using assms(3) by simp
  then have "\<not> 2 * s + 2 \<le> f" using assms(4) by linarith
  then show ?thesis by linarith
qed

lemma few_items:
  fixes n s f il u nb :: nat
  assumes "12 * n \<le> s" "f < s + 2 * n + il + 2" "s + il = u + nb" "2 * u < f" "4 * nb \<le> f" "48 \<le> f" "2 * n + s \<le> f"
  shows False
proof -
  have "14 * n \<le> f" using assms(1,7) by simp
  then have "14 * f < 14 * (u + nb) + 2 * f + 28" using assms(2,3) by simp
  then have "14 * f < 7 * f + 14 * nb + 2 * f + 28" using assms(4) by simp
  then show False using assms(5,6) by linarith
qed

text \<open>The split as a whole.\<close>

lemma bt_psplit_ok:
  assumes src: "sources h its" and skip: "skip \<le> length its" and small: "small_items (bt_psize t - BTDATAOFF) ilen its"
    and over: "bt_psize t - BTDATAOFF < (\<Sum>it\<leftarrow>its. isize it) + 2 * length its + ilen + 2"
    and fits: "2 * length its + (\<Sum>it\<leftarrow>its. isize it) \<le> bt_psize t - BTDATAOFF"
    and l: "fresh_page (bt_psize t) l" and r: "fresh_page (bt_psize t) r"
  shows "\<exists>l' r' left pskip c ls rs. bt_psplit t h l r skip ilen = Some (l', r', left, pskip, c) \<and>
    open_page l' ls \<and> open_page r' rs \<and> ls @ rs = with_open skip its \<and> ls \<noteq> [] \<and> rs \<noteq> [] \<and>
    (if left then skip < length ls \<and> pskip = skip else length ls \<le> skip \<and> pskip = skip - length ls) \<and>
    2 * length ls + space ilen ls \<le> bt_psize t - BTDATAOFF \<and> 2 * length rs + space ilen rs \<le> bt_psize t - BTDATAOFF \<and>
    links l' = links l \<and> links r' = links r \<and> length (body l') = length (body l) \<and> length (body r') = length (body r)"
proof -
  let ?full = "bt_psize t - BTDATAOFF" and ?ys = "with_open skip its"
  have psz: "BTDATAOFF \<le> bt_psize t" "length (body l) = ?full" "length (body r) = ?full" "bt_psize t < 65536"
    "unat (lower l) = BTDATAOFF" "unat (lower r) = BTDATAOFF"
    using l r by (auto simp: fresh_page_def)
  have ilen: "4 * ilen \<le> ?full" "48 \<le> ?full" using small by (simp_all add: small_items_def)
  have items: "12 * length its \<le> (\<Sum>it\<leftarrow>its. isize it)"
  proof -
    have "\<forall>it\<in>set its. 12 \<le> isize it" using src by (auto simp: sources_def in_set_conv_nth isize_mono12)
    then show ?thesis by (induction its) auto
  qed
  have half: "?full div 2 \<le> (\<Sum>it\<leftarrow>its. isize it)" using full_half [OF items over ilen] .
  have "0 < ?full div 2" using ilen by linarith
  then obtain l1 off xs where 1: "psplit_left h (length its) skip ilen ?full l 0 0 0 0 =
      Some (l1, if off < skip then Suc off else off, off)"
    "slots l1 xs" "map (map_option snd) xs = take (Suc off) ?ys" "off \<le> length its"
    "lower l1 = lower l" "links l1 = links l" "length (body l1) = ?full"
    "?full div 2 \<le> space ilen (take (Suc off) ?ys)" "space ilen (take off ?ys) < ?full div 2"
    "2 * Suc off + space ilen (take (Suc off) ?ys) \<le> ?full"
    using psplit_left_ok [OF src skip small half fresh_slots [OF l], of 0 0 0] psz by auto
  let ?nxt = "if off < skip then Suc off else off"
  define zs where "zs = drop (Suc off) ?ys"
  have total: "space ilen (take (Suc off) ?ys) + space ilen zs = ilen + (\<Sum>it\<leftarrow>its. isize it)"
    unfolding zs_def using space_with_open [OF skip, of ilen]
    by (metis append_take_drop_id space_append)
  have nb: "4 * (case ?ys ! off of None \<Rightarrow> ilen | Some it \<Rightarrow> isize it) \<le> ?full"
    using nth_with_open [OF skip 1(4)] small 1(4) skip by (auto simp: small_items_def)
  have lz: "length zs = length its - off" using skip by (simp add: zs_def)
  have zroom: "2 * length zs + space ilen zs \<le> ?full"
  proof -
    have "ilen \<le> ?full div 2" using ilen by linarith
    then have "space ilen zs \<le> (\<Sum>it\<leftarrow>its. isize it)" using total 1(8) by linarith
    then show ?thesis using fits lz by linarith
  qed
  have off: "off < length its"
  proof (rule ccontr)
    assume "\<not> off < length its"
    then have "zs = []" using lz by simp
    then have "(\<Sum>it\<leftarrow>its. isize it) + ilen = space ilen (take off ?ys) +
        (case ?ys ! off of None \<Rightarrow> ilen | Some it \<Rightarrow> isize it)"
      using total space_step [OF skip 1(4), of ilen] by simp
    moreover have "2 * space ilen (take off ?ys) < ?full" using 1(9) by linarith
    ultimately show False using few_items [OF items over] nb ilen(2) fits by blast
  qed
  have nxt0: "0 < ?nxt"
  proof (rule ccontr)
    assume "\<not> 0 < ?nxt"
    then have "off = 0" "skip = 0" by (auto split: if_splits)
    then have "space ilen (take (Suc off) ?ys) = ilen" by (simp add: with_open_def)
    then show False using 1(8) ilen by linarith
  qed
  let ?sk = "if skip \<le> off then 0 else skip"
  have state: "?sk = 0 \<and> 0 < ?nxt \<and> skip < Suc off + 0 \<and> ?nxt + 1 = Suc off + 0 \<or>
      ?sk = skip \<and> Suc off + 0 \<le> skip \<and> ?nxt = Suc off + 0"
    using nxt0 by auto
  have empty: "map (map_option snd) [] = take 0 zs" by simp
  have bounds: "?nxt \<le> length its" "Suc off \<le> length its + 1" using off by auto
  obtain r1 off' sk' xr where 2: "psplit_right h (length its) r ?nxt 0 ?sk = Some (r1, off', sk')"
    "slots r1 xr" "map (map_option snd) xr = take off' zs" "lower r1 = lower r" "links r1 = links r"
    "length (body r1) = ?full"
    "if sk' = length its then Suc off + off' = length its \<and> skip = length its else Suc off + off' = Suc (length its)"
    using psplit_right_ok [OF src skip zs_def zroom fresh_slots [OF r] empty psz(3) bounds state] by blast
  define l2 where "l2 = l1\<lparr>lower := lower l1 + of_nat ((off + 1) * 2)\<rparr>"
  have low_l: "unat (lower l2) = BTDATAOFF + 2 * Suc off"
    using 1(5,10) psz unat_add16 [of "lower l" "(off + 1) * 2"] by (simp add: l2_def)
  have open_l: "open_page l2 (take (Suc off) ?ys)"
    unfolding open_page_def
    using 1(2,3) low_l 1(4) skip by (intro exI [of _ xs]) (simp add: l2_def lower_slots)
  define r2 where "r2 = r1\<lparr>lower := lower r1 + of_nat (off' * 2)\<rparr>"
  define r3 where "r3 = (if sk' = length its then r2\<lparr>lower := lower r2 + 2\<rparr> else r2)"
  have off': "off' \<le> length zs" using 2(7) lz by (auto split: if_splits)
  have low_r: "unat (lower r2) = BTDATAOFF + 2 * off'"
    using 2(4) off' zroom psz unat_add16 [of "lower r" "off' * 2"] by (simp add: r2_def)
  have open_r: "open_page r3 zs"
  proof (cases "sk' = length its")
    case True
    then have e: "Suc off + off' = length its" "skip = length its" using 2(7) by auto
    have z: "zs ! off' = None" "length zs = Suc off'"
      using e nth_with_open [OF skip skip] skip by (simp_all add: zs_def)
    have "BTDATAOFF + 2 * length xr + 2 \<le> unat (upper r1)"
      using slots_space [OF 2(2,3)] 2(6) zroom z(2) arg_cong [OF 2(3), of length]
        space_take_le [of 0 off' zs] space_zero [of zs ilen] by simp
    then have "slots r3 (xr @ [None])" using slots_open [OF 2(2)] True by (simp add: r3_def r2_def lower_slots)
    moreover have "take off' zs @ [None] = zs" using z take_Suc_conv_app_nth [of off' zs] by simp
    moreover have "unat (lower r3) = BTDATAOFF + 2 * length zs"
      using True low_r z(2) zroom psz unat_add16 [of "lower r2" 2] by (simp add: r3_def)
    ultimately show ?thesis unfolding open_page_def using 2(3) by (intro exI [of _ "xr @ [None]"]) simp
  next
    case False
    then have "off' = length zs" using 2(7) lz off by simp
    then show ?thesis
      unfolding open_page_def using False 2(2,3) low_r by (intro exI [of _ xr]) (simp add: r3_def r2_def lower_slots)
  qed
  have nx: "NEXTINDEX h = length its" using src by (simp add: sources_def)
  define c where "c = psplit_cursor (bt_cursor t) h l2 r skip ?nxt"
  have run: "bt_psplit t h l r skip ilen =
      Some (l2, r3, skip \<le> off, if skip \<le> off then skip else skip - ?nxt, c)"
    using 1(1) 2(1) nx by (simp add: bt_psplit_def Let_def l2_def r2_def r3_def c_def)
  have lk: "links l2 = links l" "links r3 = links r"
    using 1(6) 2(5) by (simp_all add: l2_def r2_def r3_def links_def)
  have "length (body l2) = length (body l)" "length (body r3) = length (body r)"
    using 1(7) 2(6) psz by (simp_all add: l2_def r2_def r3_def)
  moreover have "take (Suc off) ?ys @ zs = ?ys" "zs \<noteq> []" "take (Suc off) ?ys \<noteq> []"
    using off lz skip by (auto simp: zs_def simp flip: length_0_conv)
  ultimately show ?thesis
    using run open_l open_r lk 1(10) zroom off skip
    by (intro exI [of _ l2] exI [of _ r3] exI [of _ "skip \<le> off"] exI [of _ "if skip \<le> off then skip else skip - ?nxt"]
          exI [of _ c] exI [of _ "take (Suc off) ?ys"] exI [of _ zs]) simp
qed

section \<open>Properties of the split\<close>

lemma page_items_full:
  assumes "page_items h its"
  shows "pg_full h n \<longleftrightarrow> length (body h) < (\<Sum>it\<leftarrow>its. isize it) + 2 * length its + n + 2"
    and "2 * length its + (\<Sum>it\<leftarrow>its. isize it) \<le> length (body h)"
proof -
  obtain es where es: "page_holds h es" "its = map snd es" using assms by (auto simp: page_items_def)
  then have "unat (lower h) = BTDATAOFF + 2 * length its" "unat (lower h) \<le> unat (upper h)"
    "unat (upper h) + (\<Sum>it\<leftarrow>its. isize it) = BTDATAOFF + length (body h)"
    by (auto simp: page_holds_def comp_def)
  then show "pg_full h n \<longleftrightarrow> length (body h) < (\<Sum>it\<leftarrow>its. isize it) + 2 * length its + n + 2"
    "2 * length its + (\<Sum>it\<leftarrow>its. isize it) \<le> length (body h)"
    using pg_full_eq [of h n] by auto
qed

text \<open>A leaf page that is about to be split, and the two pages that take its records.\<close>

definition split_setting :: "BTREE \<Rightarrow> PAGE \<Rightarrow> leaf_rec list \<Rightarrow> PAGE \<Rightarrow> PAGE \<Rightarrow> nat \<Rightarrow> bool" where
  "split_setting t h rs l r ilen \<longleftrightarrow> leaf_page h rs \<and> flags h AND P_TYPE = P_BLEAF \<and>
     (\<forall>r\<in>set rs. snd (snd r) AND P_BIGKEY = 0) \<and> BTDATAOFF + length (body h) = bt_psize t \<and> pg_full h ilen \<and>
     fresh_page (bt_psize t) l \<and> fresh_page (bt_psize t) r"

lemma split_settingD:
  assumes "split_setting t h rs l r ilen"
  shows "sources h (map leaf_item rs)"
    "bt_psize t - BTDATAOFF < (\<Sum>it\<leftarrow>map leaf_item rs. isize it) + 2 * length (map leaf_item rs) + ilen + 2"
    "2 * length (map leaf_item rs) + (\<Sum>it\<leftarrow>map leaf_item rs. isize it) \<le> bt_psize t - BTDATAOFF"
    "fresh_page (bt_psize t) l" "fresh_page (bt_psize t) r"
  using assms leaf_sources [of h rs] page_items_full [of h "map leaf_item rs"]
  by (auto simp: split_setting_def leaf_page_def)

text \<open>Pages of 68 bytes that hold records of one byte each.\<close>

definition small_recs :: "nat \<Rightarrow> leaf_rec list" where
  "small_recs n = map (\<lambda>k. ([of_nat k], [of_nat k], 0)) [0..<n]"

lemma small_recs_isize: "(\<Sum>it\<leftarrow>map leaf_item (small_recs n). isize it) = 12 * n"
  by (simp add: small_recs_def comp_def leaf_item_def isize_leaf NBLEAFDBT_def LALIGN_def sum_list_triv)

lemma small_leaf:
  "n \<le> 3 \<Longrightarrow> \<exists>h. leaf_page h (small_recs n) \<and> links h = links (empty_leaf 68) \<and> length (body h) = 48"
proof (induction n)
  case 0
  then show ?case using empty_leaf_page [of 68]
    by (intro exI [of _ "empty_leaf 68"]) (simp add: small_recs_def empty_leaf_def)
next
  case (Suc n)
  then obtain h where h: "leaf_page h (small_recs n)" "links h = links (empty_leaf 68)" "length (body h) = 48" by auto
  have n: "NBLEAFDBT 1 1 = 12" by (simp add: NBLEAFDBT_def LALIGN_def)
  have "\<not> pg_full h 12"
    using page_items_full(1) [of h "map leaf_item (small_recs n)" 12] h(1,3) Suc.prems small_recs_isize [of n]
    by (simp add: leaf_page_def small_recs_def)
  then obtain h' where "leaf_insert h n [of_nat n] [of_nat n] 0 = Some h'" "leaf_page h' (small_recs (Suc n))"
    "links h' = links h"
    using leaf_insert_rec [OF h(1), of n "[of_nat n]" "[of_nat n]" 0] n by (auto simp: small_recs_def)
  then show ?case using h(2,3) leaf_insert_length by metis
qed

definition split_tree :: BTREE where
  "split_tree = sample_tree\<lparr>bt_psize := 68\<rparr>"

lemma small_setting:
  assumes "n \<le> 3" "46 < 14 * n + ilen"
  shows "\<exists>h. split_setting split_tree h (small_recs n) (empty_leaf 68) (empty_leaf 68) ilen"
proof -
  obtain h where h: "leaf_page h (small_recs n)" "links h = links (empty_leaf 68)" "length (body h) = 48"
    using small_leaf [OF assms(1)] by blast
  have "pg_full h ilen"
    using page_items_full(1) [of h "map leaf_item (small_recs n)" ilen] h(1,3) assms(2) small_recs_isize [of n]
    by (simp add: leaf_page_def small_recs_def)
  moreover have "flags h AND P_TYPE = P_BLEAF" using h(2) by (simp add: links_def empty_leaf_def)
  moreover have "fresh_page 68 (empty_leaf 68)" by (simp add: fresh_page_def empty_leaf_def)
  ultimately show ?thesis
    using h by (intro exI [of _ h]) (auto simp: split_setting_def split_tree_def small_recs_def)
qed

text \<open>
  C20. When no record takes more than a quarter of the page, splitting a full leaf distributes the records
  over the two pages in their order without losing or duplicating one, with an index left open
  exactly where the new record belongs, and each page has the room for what it is to hold: the new record
  can be put in without overwriting anything. Neither page is empty.
\<close>

theorem bt_psplit_correct:
  assumes "split_setting t h rs l r ilen" "skip \<le> length rs"
    and "small_items (bt_psize t - BTDATAOFF) ilen (map leaf_item rs)"
  shows "\<exists>l' r' left pskip c ls zs. bt_psplit t h l r skip ilen = Some (l', r', left, pskip, c) \<and>
    open_page l' ls \<and> open_page r' zs \<and> ls @ zs = with_open skip (map leaf_item rs) \<and> ls \<noteq> [] \<and> zs \<noteq> [] \<and>
    (if left then skip < length ls \<and> pskip = skip else length ls \<le> skip \<and> pskip = skip - length ls) \<and>
    2 * length ls + space ilen ls \<le> bt_psize t - BTDATAOFF \<and>
    2 * length zs + space ilen zs \<le> bt_psize t - BTDATAOFF \<and> links l' = links l \<and> links r' = links r \<and>
    length (body l') = length (body l) \<and> length (body r') = length (body r)"
  using bt_psplit_ok [OF split_settingD(1) [OF assms(1)] _ assms(3) split_settingD(2-5) [OF assms(1)], of skip] assms(2)
  by simp

theorem bt_psplit_correct_witness:
  "\<exists>h l' r' left pskip c ls zs. bt_psplit split_tree h (empty_leaf 68) (empty_leaf 68) 1 12 = Some (l', r', left, pskip, c) \<and>
    open_page l' ls \<and> open_page r' zs \<and> ls @ zs = with_open 1 (map leaf_item (small_recs 3)) \<and> zs \<noteq> []"
proof -
  obtain h where h: "split_setting split_tree h (small_recs 3) (empty_leaf 68) (empty_leaf 68) 12"
    using small_setting [of 3 12] by auto
  have "small_items (bt_psize split_tree - BTDATAOFF) 12 (map leaf_item (small_recs 3))"
    by (auto simp: small_items_def split_tree_def small_recs_def leaf_item_def isize_leaf NBLEAFDBT_def LALIGN_def)
  from bt_psplit_correct [OF h _ this, of 1] show ?thesis by (fastforce simp: small_recs_def)
qed

text \<open>Without the bound the last record can be put where there is no room for it.\<close>

lemma psplit_left_append:
  assumes src: "sources h its" and fits: "2 * length its + (\<Sum>it\<leftarrow>its. isize it) \<le> full" and full: "full < 65516"
    and half: "(\<Sum>it\<leftarrow>its. isize it) < full div 2"
  shows "slots l xs \<Longrightarrow> map (map_option snd) xs = map Some (take off its) \<Longrightarrow> length (body l) = full \<Longrightarrow>
    off \<le> length its \<Longrightarrow> used = (\<Sum>it\<leftarrow>take off its. isize it) \<Longrightarrow>
    \<exists>l' xs'. psplit_left h (length its) (length its) ilen full l off off used 0 = Some (l', length its, length its) \<and>
      slots l' xs' \<and> map (map_option snd) xs' = map Some its \<and> lower l' = lower l \<and> length (body l') = full"
proof (induction "length its - off" arbitrary: l xs off used)
  case 0
  then have "off = length its" by simp
  moreover from this have "psplit_left h (length its) (length its) ilen full l off off used 0 =
      Some (l, length its, length its)"
    by (subst psplit_left.simps) simp
  ultimately show ?case using 0 by (intro exI [of _ l] exI [of _ xs]) simp
next
  case (Suc m)
  let ?n = "length its"
  have off: "off < ?n" using Suc.hyps(2) by simp
  have y: "with_open ?n its ! off = Some (its ! off)" using nth_with_open [of ?n its off] off by simp
  have sp: "space 0 (map Some xs) = (\<Sum>it\<leftarrow>xs. isize it)" for xs by (induction xs) simp_all
  have take: "take (Suc off) its = take off its @ [its ! off]" using off by (simp add: take_Suc_conv_app_nth)
  have "(\<Sum>it\<leftarrow>take (Suc off) its. isize it) \<le> (\<Sum>it\<leftarrow>its. isize it)"
    by (metis append_take_drop_id le_add1 map_append sum_list_append)
  then have used: "used + isize (its ! off) \<le> (\<Sum>it\<leftarrow>its. isize it)" using take Suc.prems(5) by simp
  have len: "length xs = off" using arg_cong [OF Suc.prems(2), of length] off by simp
  have R: "BTDATAOFF + 2 * off + 2 + isize (its ! off) \<le> unat (upper l)"
    using slots_space [OF Suc.prems(1,2)] Suc.prems(3,5) sp used fits off by simp
  have c: "off = (if off \<le> ?n then off else off - 1)" using off by simp
  obtain l' src e where 1: "item_src h off = Some (isize (its ! off), False, src)"
    "put_copy l off (isize (its ! off)) src = Some l'" "slots l' (xs @ [e])" "map_option snd e = Some (its ! off)"
    "lower l' = lower l" "length (body l') = full"
    using copy_step [OF src order_refl less_imp_le [OF off] c disjI1 [OF off] Suc.prems(1) len, of 0,
        unfolded y option.case, OF R] off Suc.prems(3) by auto
  have lt: "(used + isize (its ! off)) mod 65536 = used + isize (its ! off)" "\<not> full div 2 \<le> used + isize (its ! off)"
    using used half full by simp_all
  have rec: "psplit_left h ?n ?n ilen full l off off used 0 =
      psplit_left h ?n ?n ilen full l' (Suc off) (Suc off) (used + isize (its ! off)) 0"
    using 1(1,2) off lt by (subst psplit_left.simps) (simp add: Let_def)
  have xs': "map (map_option snd) (xs @ [e]) = map Some (take (Suc off) its)" using Suc.prems(2) 1(4) take by simp
  show ?case
    unfolding rec
    using Suc.hyps(1) [OF _ 1(3) xs' 1(6), of "used + isize (its ! off)"] Suc.hyps(2) off take Suc.prems(5) 1(5) by simp
qed

text \<open>
  C21. When the records of a full leaf take less than half of it and the new one, which comes last,
  takes the rest, \<^verbatim>\<open>bt_psplit\<close> moves every record to the left page and leaves the open index there
  too: the space that it leaves on that page is smaller than the new record, which
  \<^verbatim>\<open>__bt_split\<close> stores there nevertheless.
\<close>

theorem bt_psplit_no_room:
  assumes "split_setting t h rs l r ilen" "(\<Sum>it\<leftarrow>map leaf_item rs. isize it) < (bt_psize t - BTDATAOFF) div 2"
    "rs \<noteq> []"
  shows "\<exists>l' r' c. bt_psplit t h l r (length rs) ilen = Some (l', r', True, length rs, c) \<and>
    NEXTINDEX l' = Suc (length rs) \<and> NEXTINDEX r' = 0 \<and> unat (upper l') < unat (lower l') + ilen"
proof -
  let ?its = "map leaf_item rs" and ?full = "bt_psize t - BTDATAOFF"
  note S = split_settingD [OF assms(1)]
  have psz: "BTDATAOFF \<le> bt_psize t" "length (body l) = ?full" "bt_psize t < 65536"
    "unat (lower l) = BTDATAOFF" "unat (lower r) = BTDATAOFF"
    using S(4,5) by (auto simp: fresh_page_def)
  have full: "?full < 65516" using psz(1,3) by linarith
  obtain l1 xs where 1: "psplit_left h (length ?its) (length ?its) ilen ?full l 0 0 0 0 = Some (l1, length ?its, length ?its)"
    "slots l1 xs" "map (map_option snd) xs = map Some ?its" "lower l1 = lower l" "length (body l1) = ?full"
    using psplit_left_append [OF S(1,3) full assms(2) fresh_slots [OF S(4)] _ psz(2), of 0 0 ilen] by auto
  define l2 where "l2 = l1\<lparr>lower := lower l1 + of_nat ((length rs + 1) * 2)\<rparr>"
  have some: "12 \<le> (\<Sum>it\<leftarrow>?its. isize it)"
    using assms(3) isize_mono12 [of "leaf_item (hd rs)"] by (cases rs) (simp_all add: leaf_item_def)
  have low: "unat (lower l2) = BTDATAOFF + 2 * Suc (length rs)"
  proof -
    have "unat (lower l + of_nat (2 * Suc (length rs))) = unat (lower l) + 2 * Suc (length rs)"
      using psz(1,3,4) S(3) some by (intro unat_add16) simp
    then show ?thesis using 1(4) psz(4) by (simp add: l2_def mult.commute [of _ 2])
  qed
  have sp: "space 0 (map Some xs) = (\<Sum>it\<leftarrow>xs. isize it)" for xs by (induction xs) simp_all
  have "unat (upper l2) + (\<Sum>it\<leftarrow>?its. isize it) = bt_psize t"
    using slots_space [OF 1(2,3)] sp [of ?its] 1(5) psz(1) by (simp add: l2_def)
  then have up: "unat (upper l2) < unat (lower l2) + ilen" using S(2) low psz(1) by simp
  have right: "psplit_right h (length ?its) r (length ?its) 0 0 = Some (r, 0, 0)" by (subst psplit_right.simps) simp
  have nx: "NEXTINDEX h = length ?its" using S(1) by (simp add: sources_def)
  have "bt_psplit t h l r (length rs) ilen =
      Some (l2, r, True, length rs, psplit_cursor (bt_cursor t) h l2 r (length rs) (length rs))"
    using 1(1) right nx assms(3) by (simp add: bt_psplit_def Let_def l2_def)
  moreover have "NEXTINDEX l2 = Suc (length rs)" "NEXTINDEX r = 0"
    using low psz(5) by (auto intro!: NEXTINDEX_eq)
  ultimately show ?thesis using up by auto
qed

theorem bt_psplit_no_room_witness:
  "\<exists>h l' r' c. bt_psplit split_tree h (empty_leaf 68) (empty_leaf 68) 1 36 = Some (l', r', True, 1, c) \<and>
    NEXTINDEX l' = 2 \<and> NEXTINDEX r' = 0 \<and> unat (upper l') < unat (lower l') + 36"
proof -
  obtain h where h: "split_setting split_tree h (small_recs 1) (empty_leaf 68) (empty_leaf 68) 36"
    using small_setting [of 1 36] by auto
  have "(\<Sum>it\<leftarrow>map leaf_item (small_recs 1). isize it) < (bt_psize split_tree - BTDATAOFF) div 2"
    unfolding small_recs_isize by (simp add: split_tree_def)
  from bt_psplit_no_room [OF h this] show ?thesis by (auto simp: small_recs_def numeral_2_eq_2)
qed

end
