(* ===== verification/Bt_Grow.thy ===== *)
theory Bt_Grow
  imports Bt_Split
begin

text \<open>
  The rest of \<^verbatim>\<open>db.1.85/bt_split.c\<close>: new pages for a page or the root that is full, the new root,
  and \<^verbatim>\<open>__bt_split\<close>, which enters the new page into the pages above, splitting them as needed. Pages
  are known by their numbers; the function that splits returns the left and the right page, the one
  that takes the new item and the index left open there.

  The stack of the parents is an argument of the walk, which ends because it pops an entry in every
  round.
\<close>

section \<open>New pages\<close>

abbreviation (input) R_RECNO :: u32 where "R_RECNO \<equiv> 0x80"

definition fresh :: "BTREE \<Rightarrow> PAGE \<Rightarrow> u32 \<Rightarrow> u32 \<Rightarrow> u32 \<Rightarrow> u32 \<Rightarrow> PAGE" where
  "fresh t h no prev nxt ty =
     h\<lparr>pgno := no, prevpg := prev, nextpg := nxt, lower := of_nat BTDATAOFF, upper := of_nat (bt_psize t),
       flags := ty AND P_TYPE\<rparr>"

text \<open>A split that has been prepared: the pages with the cursor.\<close>

definition split_pages ::
  "BTREE \<Rightarrow> u32 \<Rightarrow> u32 \<Rightarrow> PAGE \<times> PAGE \<times> bool \<times> nat \<times> CURSOR \<Rightarrow> (u32 \<times> u32 \<times> u32 \<times> nat) option \<times> BTREE" where
  "split_pages t lno rno s =
     (case s of (l, r, left, skip, c) \<Rightarrow>
        (Some (lno, rno, if left then lno else rno, skip),
         (set_page rno r (set_page lno l t))\<lparr>bt_cursor := c\<rparr>))"

definition bt_page ::
  "BTREE \<Rightarrow> u32 \<Rightarrow> nat \<Rightarrow> nat \<Rightarrow> ((u32 \<times> u32 \<times> u32 \<times> nat) option \<times> BTREE) option" where
  "bt_page t p skip ilen =
     (case bt_new t of
        (None, t) \<Rightarrow> Some (None, t)
      | (Some npg, t) \<Rightarrow> do {
          r0 \<leftarrow> bt_mp t npg;
          h \<leftarrow> bt_mp t p;
          let r = fresh t r0 npg (pgno h) (nextpg h) (flags h);
          let t = set_page npg r t;
          if nextpg h = P_INVALID \<and> skip = NEXTINDEX h then
            Some (Some (p, npg, npg, 0),
              set_page npg (r\<lparr>lower := of_nat (BTDATAOFF + 2)\<rparr>) (set_page p (h\<lparr>nextpg := pgno r\<rparr>) t))
          else case bt_malloc t of
            None \<Rightarrow> Some (None, t)
          | Some bytes \<Rightarrow>
              let l = fresh t (h\<lparr>body := bytes\<rparr>) (pgno h) (prevpg h) (pgno r) (flags h)
              in if nextpg h \<noteq> P_INVALID then
                   case bt_mp t (nextpg h) of
                     None \<Rightarrow> Some (None, t)
                   | Some tp \<Rightarrow> do {
                       let t = set_page (nextpg h) (tp\<lparr>prevpg := pgno r\<rparr>) t;
                       s \<leftarrow> bt_psplit t h l r skip ilen;
                       Some (split_pages t p npg s) }
                 else do {
                   s \<leftarrow> bt_psplit t h l r skip ilen;
                   Some (split_pages t p npg s) } })"

definition bt_root ::
  "BTREE \<Rightarrow> u32 \<Rightarrow> nat \<Rightarrow> nat \<Rightarrow> ((u32 \<times> u32 \<times> u32 \<times> nat) option \<times> BTREE) option" where
  "bt_root t p skip ilen =
     (case bt_new t of
        (None, t) \<Rightarrow> Some (None, t)
      | (Some lnpg, t) \<Rightarrow>
          (case bt_new t of
             (None, t) \<Rightarrow> Some (None, t)
           | (Some rnpg, t) \<Rightarrow> do {
               h \<leftarrow> bt_mp t p;
               l0 \<leftarrow> bt_mp t lnpg;
               r0 \<leftarrow> bt_mp t rnpg;
               s \<leftarrow> bt_psplit t h (fresh t l0 lnpg P_INVALID rnpg (flags h))
                     (fresh t r0 rnpg lnpg P_INVALID (flags h)) skip ilen;
               Some (split_pages t lnpg rnpg s) }))"

section \<open>The new root\<close>

definition bt_preserve :: "BTREE \<Rightarrow> u32 \<Rightarrow> int \<times> BTREE" where
  "bt_preserve t pg =
     (case bt_mp t pg of
        None \<Rightarrow> (RET_ERROR, t)
      | Some h \<Rightarrow> (RET_SUCCESS, set_page pg (h\<lparr>flags := flags h OR P_PRESERVE\<rparr>) t))"

fun rec_sum :: "PAGE \<Rightarrow> nat \<Rightarrow> nat \<Rightarrow> u32 \<Rightarrow> u32 option" where
  "rec_sum h nxt 0 recs = Some recs"
| "rec_sum h nxt (Suc n) recs = do {
     p \<leftarrow> linp h nxt;
     v \<leftarrow> pg_rd32 h (unat p);
     rec_sum h (Suc nxt) n (recs + v) }"

definition rec_total :: "PAGE \<Rightarrow> u32 option" where
  "rec_total h = rec_sum h 0 (NEXTINDEX h) 0"

text \<open>Room for an item at the end of the free space, with its offset at an index.\<close>

definition take_room :: "PAGE \<Rightarrow> nat \<Rightarrow> nat \<Rightarrow> PAGE option" where
  "take_room h index nbytes =
     (let h = h\<lparr>upper := upper h - of_nat nbytes\<rparr> in set_linp h index (upper h))"

definition rec_count :: "PAGE \<Rightarrow> u32 option" where
  "rec_count h = (if flags h AND P_RLEAF \<noteq> 0 then Some (of_nat (NEXTINDEX h)) else rec_total h)"

definition bt_rroot :: "BTREE \<Rightarrow> u32 \<Rightarrow> u32 \<Rightarrow> u32 \<Rightarrow> (int \<times> BTREE) option" where
  "bt_rroot t p lno rno = do {
     h \<leftarrow> bt_mp t p; l \<leftarrow> bt_mp t lno; r \<leftarrow> bt_mp t rno;
     h \<leftarrow> take_room (h\<lparr>upper := of_nat (bt_psize t)\<rparr>) 0 NRINTERNAL;
     n \<leftarrow> rec_count l;
     h \<leftarrow> WR_RINTERNAL h (unat (upper h)) n (pgno l);
     h \<leftarrow> take_room h 1 NRINTERNAL;
     n \<leftarrow> rec_count r;
     h \<leftarrow> WR_RINTERNAL h (unat (upper h)) n (pgno r);
     Some (RET_SUCCESS, set_page p (h\<lparr>lower := of_nat (BTDATAOFF + 4),
       flags := (flags h AND NOT P_TYPE) OR P_RINTERNAL\<rparr>) t) }"

text \<open>The key of a leaf page with the number of the page, as an item of an internal page.\<close>

definition put_leaf_key :: "PAGE \<Rightarrow> nat \<Rightarrow> BLEAF \<Rightarrow> nat \<Rightarrow> nat \<Rightarrow> u32 \<Rightarrow> u8 \<Rightarrow> PAGE option" where
  "put_leaf_key h index bl nbytes ksize no fl = do {
     h \<leftarrow> take_room h index nbytes;
     h \<leftarrow> WR_BINTERNAL h (unat (upper h)) (of_nat ksize) no fl;
     pg_wrn h (unat (upper h) + 9) (take ksize (bl_key bl)) }"

text \<open>The first item of an internal page, with the number of the page instead of its own.\<close>

definition put_first_item :: "PAGE \<Rightarrow> nat \<Rightarrow> PAGE \<Rightarrow> nat \<Rightarrow> PAGE option" where
  "put_first_item h index r nbytes = do {
     p \<leftarrow> linp r 0;
     src \<leftarrow> pg_rdn r (unat p) nbytes;
     h \<leftarrow> put_copy h index nbytes src;
     pg_wrn h (unat (upper h) + 4) (le_bytes32 (pgno r)) }"

definition root_done :: "PAGE \<Rightarrow> PAGE" where
  "root_done h = h\<lparr>lower := of_nat (BTDATAOFF + 4), flags := (flags h AND NOT P_TYPE) OR P_BINTERNAL\<rparr>"

definition bt_broot :: "BTREE \<Rightarrow> u32 \<Rightarrow> u32 \<Rightarrow> u32 \<Rightarrow> (int \<times> BTREE) option" where
  "bt_broot t p lno rno = do {
     h \<leftarrow> bt_mp t p; l \<leftarrow> bt_mp t lno; r \<leftarrow> bt_mp t rno;
     h \<leftarrow> take_room (h\<lparr>upper := of_nat (bt_psize t)\<rparr>) 0 (NBINTERNAL 0);
     h \<leftarrow> WR_BINTERNAL h (unat (upper h)) 0 (pgno l) 0;
     if flags h AND P_TYPE = P_BLEAF then do {
       bl \<leftarrow> GETBLEAF r 0;
       h \<leftarrow> put_leaf_key h 1 bl (NBINTERNAL (bl_ksize bl)) (bl_ksize bl) (pgno r) 0;
       let (st, t) = (if bl_flags bl AND P_BIGKEY \<noteq> 0 then bt_preserve (set_page p h t) (ref_pgno (bl_key bl))
                      else (RET_SUCCESS, set_page p h t));
       Some (if st = RET_ERROR then (RET_ERROR, t) else (RET_SUCCESS, set_page p (root_done h) t)) }
     else if flags h AND P_TYPE = P_BINTERNAL then do {
       bi \<leftarrow> GETBINTERNAL r 0;
       h \<leftarrow> put_first_item h 1 r (NBINTERNAL (bi_ksize bi));
       Some (RET_SUCCESS, set_page p (root_done h) t) }
     else None }"

definition fix_root :: "BTREE \<Rightarrow> u32 \<Rightarrow> u32 \<Rightarrow> u32 \<Rightarrow> (int \<times> BTREE) option" where
  "fix_root t p lno rno = do {
     h \<leftarrow> bt_mp t p;
     if pgno h \<noteq> P_ROOT then Some (RET_SUCCESS, t)
     else if bt_flags t AND R_RECNO \<noteq> 0 then bt_rroot t p lno rno
     else bt_broot t p lno rno }"

section \<open>The pages above\<close>

text \<open>
  The size of the new item of the parent page \<open>h\<close>, and how much of the key it keeps if that is
  less than the whole key.
\<close>

definition parent_size :: "BTREE \<Rightarrow> PAGE \<Rightarrow> PAGE \<Rightarrow> PAGE \<Rightarrow> nat \<Rightarrow> (nat \<times> nat) option" where
  "parent_size t h lc rc skip =
     (if flags rc AND P_TYPE = P_BINTERNAL then do { bi \<leftarrow> GETBINTERNAL rc 0; Some (NBINTERNAL (bi_ksize bi), 0) }
      else if flags rc AND P_TYPE = P_BLEAF then do {
        bl \<leftarrow> GETBLEAF rc 0;
        let nbytes = NBINTERNAL (bl_ksize bl);
        case bt_pfx_fn t of
          None \<Rightarrow> Some (nbytes, 0)
        | Some pfx \<Rightarrow>
            if bl_flags bl AND P_BIGKEY = 0 \<and> (prevpg h \<noteq> P_INVALID \<or> 1 < skip) then do {
              tbl \<leftarrow> (if NEXTINDEX lc = 0 then None else GETBLEAF lc (NEXTINDEX lc - 1));
              let nksize = pfx (bl_key tbl) (bl_key bl);
              Some (if NBINTERNAL nksize < nbytes then (NBINTERNAL nksize, nksize) else (nbytes, 0)) }
            else Some (nbytes, 0) }
      else if flags rc AND P_TYPE = P_RINTERNAL \<or> flags rc AND P_TYPE = P_RLEAF then Some (NRINTERNAL, 0)
      else None)"

text \<open>The number of records of a child in its entry, which is the one before the new entry.\<close>

definition put_count :: "BTREE \<Rightarrow> u32 \<Rightarrow> nat \<Rightarrow> u32 \<Rightarrow> u32 \<Rightarrow> BTREE option" where
  "put_count t no index n child = do {
     h \<leftarrow> bt_mp t no;
     p \<leftarrow> linp h index;
     h \<leftarrow> WR_RINTERNAL h (unat p) n child;
     Some (set_page no h t) }"

definition put_counts :: "BTREE \<Rightarrow> u32 \<Rightarrow> u32 \<Rightarrow> PAGE \<Rightarrow> PAGE \<Rightarrow> nat \<Rightarrow> nat \<Rightarrow> u32 \<Rightarrow> u32 \<Rightarrow> BTREE option" where
  "put_counts t no lno lc rc skip nbytes nl nr = do {
     l \<leftarrow> bt_mp t lno;
     t \<leftarrow> (if 0 < skip then put_count t no (skip - 1) nl (pgno lc)
          else if NEXTINDEX l = 0 then None else put_count t lno (NEXTINDEX l - 1) nl (pgno lc));
     h \<leftarrow> bt_mp t no;
     h \<leftarrow> take_room h skip nbytes;
     h \<leftarrow> WR_RINTERNAL h (unat (upper h)) nr (pgno rc);
     Some (set_page no h t) }"

text \<open>The new item in the page \<open>no\<close>; \<open>lno\<close> is the left page when the parent was split too.\<close>

definition insert_parent ::
  "BTREE \<Rightarrow> u32 \<Rightarrow> u32 \<Rightarrow> u32 \<Rightarrow> u32 \<Rightarrow> nat \<Rightarrow> nat \<Rightarrow> nat \<Rightarrow> (int \<times> BTREE) option" where
  "insert_parent t no lno lchild rchild skip nbytes nksize = do {
     h \<leftarrow> bt_mp t no; lc \<leftarrow> bt_mp t lchild; rc \<leftarrow> bt_mp t rchild;
     if flags rc AND P_TYPE = P_BINTERNAL then do {
       h \<leftarrow> put_first_item h skip rc nbytes;
       Some (RET_SUCCESS, set_page no h t) }
     else if flags rc AND P_TYPE = P_BLEAF then do {
       bl \<leftarrow> GETBLEAF rc 0;
       h \<leftarrow> put_leaf_key h skip bl nbytes (if nksize \<noteq> 0 then nksize else bl_ksize bl) (pgno rc)
             (bl_flags bl AND P_BIGKEY);
       Some (if bl_flags bl AND P_BIGKEY \<noteq> 0 then bt_preserve (set_page no h t) (ref_pgno (bl_key bl))
             else (RET_SUCCESS, set_page no h t)) }
     else if flags rc AND P_TYPE = P_RINTERNAL then do {
       nl \<leftarrow> rec_total lc; nr \<leftarrow> rec_total rc;
       t \<leftarrow> put_counts t no lno lc rc skip nbytes nl nr;
       Some (RET_SUCCESS, t) }
     else if flags rc AND P_TYPE = P_RLEAF then do {
       t \<leftarrow> put_counts t no lno lc rc skip nbytes (of_nat (NEXTINDEX lc)) (of_nat (NEXTINDEX rc));
       Some (RET_SUCCESS, t) }
     else None }"

text \<open>The indices of a page shifted up for a new one, without the room for its item.\<close>

definition shift_indices :: "PAGE \<Rightarrow> nat \<Rightarrow> PAGE option" where
  "shift_indices h skip = do {
     h \<leftarrow> (if skip < NEXTINDEX h
          then pg_memmove h (BTDATAOFF + 2 * (skip + 1)) (BTDATAOFF + 2 * skip) ((NEXTINDEX h - skip) * 2)
          else Some h);
     Some (h\<lparr>lower := lower h + 2\<rparr>) }"

definition dbpanic :: "BTREE \<Rightarrow> BTREE" where
  "dbpanic t = t\<lparr>bt_panic := True\<rparr>"

fun split_up :: "EPGNO list \<Rightarrow> BTREE \<Rightarrow> u32 \<Rightarrow> u32 \<Rightarrow> (int \<times> BTREE) option" where
  "split_up [] t lchild rchild = Some (RET_SUCCESS, t)"
| "split_up (parent # es) t lchild rchild =
     (let t = t\<lparr>bt_stack := es\<rparr>; p = ep_pgno parent in
      case bt_mp t p of
        None \<Rightarrow> Some (RET_ERROR, dbpanic t)
      | Some h \<Rightarrow> do {
          lc \<leftarrow> bt_mp t lchild; rc \<leftarrow> bt_mp t rchild;
          let skip = (ep_index parent + 1) mod 65536;
          (nbytes, nksize) \<leftarrow> parent_size t h lc rc skip;
          if pg_full h nbytes then do {
            (s, t) \<leftarrow> (if pgno h = P_ROOT then bt_root t p skip nbytes else bt_page t p skip nbytes);
            case s of
              None \<Rightarrow> Some (RET_ERROR, dbpanic t)
            | Some (l, r, no, skip) \<Rightarrow> do {
                (st, t) \<leftarrow> insert_parent t no l lchild rchild skip nbytes nksize;
                if st = RET_ERROR then Some (RET_ERROR, dbpanic t)
                else do {
                  (st, t) \<leftarrow> fix_root t p l r;
                  if st = RET_ERROR then Some (RET_ERROR, dbpanic t) else split_up es t l r } } }
          else do {
            h \<leftarrow> shift_indices h skip;
            (st, t) \<leftarrow> insert_parent (set_page p h t) p lchild lchild rchild skip nbytes nksize;
            Some (if st = RET_ERROR then (RET_ERROR, dbpanic t) else (RET_SUCCESS, t)) } })"

definition bt_split ::
  "BTREE \<Rightarrow> u32 \<Rightarrow> u8 list \<Rightarrow> u8 list \<Rightarrow> u8 \<Rightarrow> nat \<Rightarrow> nat \<Rightarrow> (int \<times> BTREE) option" where
  "bt_split t sp key data fl ilen argskip = do {
     h \<leftarrow> bt_mp t sp;
     (s, t) \<leftarrow> (if pgno h = P_ROOT then bt_root t sp (argskip mod 65536) ilen
                else bt_page t sp (argskip mod 65536) ilen);
     case s of
       None \<Rightarrow> Some (RET_ERROR, t)
     | Some (l, r, no, skip) \<Rightarrow> do {
         h \<leftarrow> bt_mp t no;
         h \<leftarrow> take_room h skip ilen;
         h \<leftarrow> (if bt_flags t AND R_RECNO \<noteq> 0 then WR_RLEAF h (unat (upper h)) data fl
              else WR_BLEAF h (unat (upper h)) key data fl);
         (st, t) \<leftarrow> fix_root (set_page no h t) sp l r;
         if st = RET_ERROR then Some (RET_ERROR, dbpanic t) else split_up (bt_stack t) t l r } }"

end
