(* ===== verification/Bt_Put.thy ===== *)
theory Bt_Put
  imports Bt_Grow
begin

text \<open>
  Storing a record, \<^verbatim>\<open>db.1.85/bt_put.c\<close>, with the deletion of a record from a leaf page, \<^verbatim>\<open>__bt_dleaf\<close>
  and \<^verbatim>\<open>__bt_curdel\<close> of \<^verbatim>\<open>bt_delete.c\<close>, on which a replacement relies.
\<close>

section \<open>Deleting a record from a leaf page\<close>

definition cursor_size :: "CURSOR \<Rightarrow> nat" where
  "cursor_size c = (case c_key c of None \<Rightarrow> 0 | Some k \<Rightarrow> length k)"

text \<open>
  The copy of a key into the cursor, \<^verbatim>\<open>__bt_ret\<close> with the same \<^verbatim>\<open>DBT\<close> for the result and for the
  buffer. \<^verbatim>\<open>__ovfl_get\<close> sets its size before it compares it with the size that is needed, so the
  buffer does not grow, and a longer key is written beyond it.
\<close>

definition copy_key :: "BTREE \<Rightarrow> u32 \<Rightarrow> nat \<Rightarrow> (int \<times> BTREE) option" where
  "copy_key t p index = do {
     h \<leftarrow> bt_mp t p;
     bl \<leftarrow> GETBLEAF h index;
     let c = bt_cursor t;
     if bl_flags bl AND P_BIGKEY \<noteq> 0 then
       if c_room c < ref_size (bl_key bl) then None
       else do {
         r \<leftarrow> ovfl_get_loop (bt_mp t) (bt_psize t - BTDATAOFF) (ref_pgno (bl_key bl)) (ref_size (bl_key bl)) [];
         Some (case r of None \<Rightarrow> (RET_ERROR, t) | Some k \<Rightarrow> (RET_SUCCESS, t\<lparr>bt_cursor := c\<lparr>c_key := Some k\<rparr>\<rparr>)) }
     else if cursor_size c < bl_ksize bl then
       Some (if bt_grow t (bl_ksize bl)
             then (RET_SUCCESS, t\<lparr>bt_cursor := c\<lparr>c_key := Some (bl_key bl), c_room := bl_ksize bl\<rparr>\<rparr>)
             else (RET_ERROR, t))
     else Some (RET_SUCCESS, t\<lparr>bt_cursor := c\<lparr>c_key := Some (bl_key bl)\<rparr>\<rparr>) }"

text \<open>
  A duplicate next to the record, with the flag that the cursor gets: before or after it on the
  page, or on the neighbouring page. A page that cannot be read is \<open>Inl ()\<close>.
\<close>

definition dup_prev :: "BTREE \<Rightarrow> u8 list \<Rightarrow> PAGE \<Rightarrow> nat \<Rightarrow> (unit + (EPGNO \<times> u8) option) option" where
  "dup_prev t key h index =
     (if index = 0 \<and> prevpg h \<noteq> P_INVALID then
        case bt_mp t (prevpg h) of
          None \<Rightarrow> Some (Inl ())
        | Some pg \<Rightarrow> do {
            let i = unat (of_nat (NEXTINDEX pg) - 1 :: u16);
            c \<leftarrow> bt_cmp t key (prevpg h) i;
            Some (Inr (if c = 0 then Some (\<lparr>ep_pgno = pgno pg, ep_index = i\<rparr>, CURS_BEFORE) else None)) }
      else Some (Inr None))"

definition dup_next :: "BTREE \<Rightarrow> u8 list \<Rightarrow> PAGE \<Rightarrow> nat \<Rightarrow> (unit + (EPGNO \<times> u8) option) option" where
  "dup_next t key h index =
     (if Suc index = NEXTINDEX h \<and> nextpg h \<noteq> P_INVALID then
        case bt_mp t (nextpg h) of
          None \<Rightarrow> Some (Inl ())
        | Some pg \<Rightarrow> do {
            c \<leftarrow> bt_cmp t key (nextpg h) 0;
            Some (Inr (if c = 0 then Some (\<lparr>ep_pgno = pgno pg, ep_index = 0\<rparr>, CURS_AFTER) else None)) }
      else Some (Inr None))"

definition find_dup :: "BTREE \<Rightarrow> u8 list \<Rightarrow> u32 \<Rightarrow> nat \<Rightarrow> (unit + (EPGNO \<times> u8) option) option" where
  "find_dup t key p index = do {
     h \<leftarrow> bt_mp t p;
     before \<leftarrow> (if 0 < index then map_option (\<lambda>c. c = 0) (bt_cmp t key p (index - 1)) else Some False);
     if before then Some (Inr (Some (\<lparr>ep_pgno = pgno h, ep_index = index - 1\<rparr>, CURS_BEFORE)))
     else do {
       after \<leftarrow> (if Suc index < NEXTINDEX h then map_option (\<lambda>c. c = 0) (bt_cmp t key p (index + 1)) else Some False);
       if after then Some (Inr (Some (\<lparr>ep_pgno = pgno h, ep_index = index + 1\<rparr>, CURS_AFTER)))
       else do {
         r \<leftarrow> dup_prev t key h index;
         case r of
           Inr None \<Rightarrow> dup_next t key h index
         | _ \<Rightarrow> Some r } } }"

definition bt_curdel :: "BTREE \<Rightarrow> u8 list option \<Rightarrow> u32 \<Rightarrow> nat \<Rightarrow> (int \<times> BTREE) option" where
  "bt_curdel t key p index = do {
     let t = t\<lparr>bt_cursor := (bt_cursor t)
       \<lparr>c_flags := c_flags (bt_cursor t) AND NOT (CURS_AFTER OR CURS_BEFORE OR CURS_ACQUIRE)\<rparr>\<rparr>;
     let dups = (bt_flags t AND B_NODUPS = 0);
     let curcopy = (dups \<and> key = None);
     (st, t) \<leftarrow> (if curcopy then copy_key t p index else Some (RET_SUCCESS, t));
     if st \<noteq> RET_SUCCESS then Some (st, t)
     else do {
       d \<leftarrow> (if dups then find_dup t (if curcopy then the (c_key (bt_cursor t)) else the key) p index
            else Some (Inr None));
       case d of
         Inl _ \<Rightarrow> Some (RET_ERROR, t)
       | Inr (Some (e, fl)) \<Rightarrow>
           Some (RET_SUCCESS, t\<lparr>bt_cursor := (bt_cursor t)\<lparr>c_pg := e, c_flags := c_flags (bt_cursor t) OR fl\<rparr>\<rparr>)
       | Inr None \<Rightarrow> do {
           (st, t) \<leftarrow> (if curcopy then Some (RET_SUCCESS, t) else copy_key t p index);
           Some (if st = RET_SUCCESS
                 then (RET_SUCCESS, t\<lparr>bt_cursor := (bt_cursor t)\<lparr>c_flags := c_flags (bt_cursor t) OR CURS_ACQUIRE\<rparr>\<rparr>)
                 else (st, t)) } } }"

definition on_page :: "CURSOR \<Rightarrow> PAGE \<Rightarrow> bool" where
  "on_page c h \<longleftrightarrow> c_flags c AND CURS_INIT \<noteq> 0 \<and> c_flags c AND CURS_ACQUIRE = 0 \<and> ep_pgno (c_pg c) = pgno h"

definition bt_dleaf :: "BTREE \<Rightarrow> u8 list option \<Rightarrow> u32 \<Rightarrow> nat \<Rightarrow> (int \<times> BTREE) option" where
  "bt_dleaf t key p index = do {
     h \<leftarrow> bt_mp t p;
     (st, t) \<leftarrow> (if on_page (bt_cursor t) h \<and> ep_index (c_pg (bt_cursor t)) = index
                then bt_curdel t key p index else Some (RET_SUCCESS, t));
     if st \<noteq> RET_SUCCESS then Some (RET_ERROR, t)
     else do {
       bl \<leftarrow> GETBLEAF h index;
       (st, t) \<leftarrow> (if bl_flags bl AND P_BIGKEY \<noteq> 0 then ovfl_delete t (bl_key bl) else Some (RET_SUCCESS, t));
       if st = RET_ERROR then Some (RET_ERROR, t)
       else do {
         (st, t) \<leftarrow> (if bl_flags bl AND P_BIGDATA \<noteq> 0 then ovfl_delete t (bl_data bl) else Some (RET_SUCCESS, t));
         if st = RET_ERROR then Some (RET_ERROR, t)
         else do {
           h \<leftarrow> bt_mp t p;
           h \<leftarrow> pg_pack h index (NBLEAFDBT (bl_ksize bl) (bl_dsize bl));
           let t = set_page p h t;
           let c = bt_cursor t;
           Some (RET_SUCCESS,
             if on_page c h \<and> index < ep_index (c_pg c)
             then t\<lparr>bt_cursor := c\<lparr>c_pg := (c_pg c)\<lparr>ep_index := ep_index (c_pg c) - 1\<rparr>\<rparr>\<rparr> else t) } } } }"

section \<open>Items that are too big for a page\<close>

definition put_key :: "BTREE \<Rightarrow> u8 list \<Rightarrow> (u8 list option \<times> BTREE) option" where
  "put_key t d = do {
     (r, t) \<leftarrow> ovfl_put t d;
     Some (map_option (\<lambda>pg. ovfl_ref pg (of_nat (length d))) r, t) }"

text \<open>
  The key and the data as the leaf has them, with the flags. \<open>store\<close> is the jump to the label
  \<^verbatim>\<open>storekey\<close>.
\<close>

partial_function (option) put_big ::
  "BTREE \<Rightarrow> u8 list \<Rightarrow> u8 list \<Rightarrow> u8 \<Rightarrow> bool \<Rightarrow> ((u8 list \<times> u8 list \<times> u8) option \<times> BTREE) option" where
  "put_big t key data fl store =
     (if \<not> store \<and> length key + length data \<le> bt_ovflsize t then Some (Some (key, data, fl), t)
      else Option.bind (if store \<or> bt_ovflsize t < length key then put_key t key else Some (Some key, t))
        (\<lambda>(k, t). case k of
          None \<Rightarrow> Some (None, t)
        | Some key' \<Rightarrow>
            let fl = (if store \<or> bt_ovflsize t < length key then fl OR P_BIGKEY else fl) in
            if length key' + length data \<le> bt_ovflsize t then Some (Some (key', data, fl), t)
            else Option.bind (put_key t data) (\<lambda>(d, t). case d of
              None \<Rightarrow> Some (None, t)
            | Some data' \<Rightarrow>
                if length key' + length data' \<le> bt_ovflsize t then Some (Some (key', data', fl OR P_BIGDATA), t)
                else put_big t key' data' (fl OR P_BIGDATA) True)))"

section \<open>Sorted data\<close>

text \<open>
  The place right after, or right before, the last insertion when the data comes sorted. The result
  has the position with the flag for an exact match, or none when the tree has to be searched.
\<close>

definition fast_place :: "BTREE \<Rightarrow> u8 list \<Rightarrow> u32 \<Rightarrow> PAGE \<Rightarrow> nat \<Rightarrow> nat \<Rightarrow> (nat \<times> bool) option option" where
  "fast_place t key p h index nbytes =
     (if pg_full h nbytes then Some None
      else if bt_order t = FORWARD then
        if nextpg h \<noteq> P_INVALID \<or> Suc index \<noteq> NEXTINDEX h then Some None
        else do {
          c \<leftarrow> bt_cmp t key p index;
          Some (if c < 0 then None else if c = 0 then Some (index, True) else Some ((index + 1) mod 65536, False)) }
      else if prevpg h \<noteq> P_INVALID \<or> index \<noteq> 0 then Some None
      else do {
        c \<leftarrow> bt_cmp t key p index;
        Some (if 0 < c then None else Some (0, c = 0)) })"

definition bt_fast :: "BTREE \<Rightarrow> u8 list \<Rightarrow> u8 list \<Rightarrow> ((EPGNO \<times> bool) option \<times> BTREE) option" where
  "bt_fast t key data =
     (let p = ep_pgno (bt_last t); index = ep_index (bt_last t) in
      case bt_mp t p of
        None \<Rightarrow> Some (None, t\<lparr>bt_order := NOT_ORDERED\<rparr>)
      | Some h \<Rightarrow> do {
          r \<leftarrow> fast_place t key p h index (NBLEAFDBT (length key) (length data));
          Some (case r of
              None \<Rightarrow> (None, t\<lparr>bt_order := NOT_ORDERED, bt_cur := bt_last t\<rparr>)
            | Some (i, exact) \<Rightarrow>
                (Some (\<lparr>ep_pgno = p, ep_index = i\<rparr>, exact),
                 t\<lparr>bt_cur := \<lparr>ep_pgno = p, ep_index = i\<rparr>, bt_last := (bt_last t)\<lparr>ep_index := i\<rparr>\<rparr>)) })"

section \<open>Storing a record\<close>

abbreviation (input) R_CURSOR :: u32 where "R_CURSOR \<equiv> 1"
abbreviation (input) R_NOOVERWRITE :: u32 where "R_NOOVERWRITE \<equiv> 8"
abbreviation (input) R_SETCURSOR :: u32 where "R_SETCURSOR \<equiv> 10"
abbreviation (input) B_MODIFIED :: u32 where "B_MODIFIED \<equiv> 0x4"
abbreviation (input) B_RDONLY :: u32 where "B_RDONLY \<equiv> 0x10"

text \<open>The order of the insertions, as far as the one at \<open>index\<close> tells.\<close>

definition note_order :: "BTREE \<Rightarrow> PAGE \<Rightarrow> nat \<Rightarrow> BTREE" where
  "note_order t h index =
     (if bt_order t \<noteq> NOT_ORDERED then t
      else if nextpg h = P_INVALID then
        (if Suc index = NEXTINDEX h
         then t\<lparr>bt_order := FORWARD, bt_last := \<lparr>ep_pgno = pgno h, ep_index = index\<rparr>\<rparr> else t)
      else if prevpg h = P_INVALID \<and> index = 0
        then t\<lparr>bt_order := BACK, bt_last := \<lparr>ep_pgno = pgno h, ep_index = 0\<rparr>\<rparr>
      else t)"

text \<open>The insertion at a place of the page \<open>p\<close>, with a split if there is no room.\<close>

definition put_at :: "BTREE \<Rightarrow> u8 list \<Rightarrow> u8 list \<Rightarrow> u8 \<Rightarrow> u32 \<Rightarrow> nat \<Rightarrow> (int \<times> BTREE) option" where
  "put_at t key data dflags p index = do {
     h \<leftarrow> bt_mp t p;
     let nbytes = NBLEAFDBT (length key) (length data);
     (st, t) \<leftarrow>
       (if pg_full h nbytes then bt_split t p key data dflags nbytes index
        else do {
          h \<leftarrow> leaf_insert h index key data dflags;
          let c = bt_cursor t;
          let t = (if on_page c h \<and> index \<le> ep_index (c_pg c)
                   then t\<lparr>bt_cursor := c\<lparr>c_pg := (c_pg c)\<lparr>ep_index := ep_index (c_pg c) + 1\<rparr>\<rparr>\<rparr> else t);
          Some (RET_SUCCESS, note_order (set_page p h t) h index) });
     Some (if st = RET_SUCCESS then (RET_SUCCESS, t\<lparr>bt_flags := bt_flags t OR B_MODIFIED\<rparr>) else (st, t)) }"

text \<open>Whether the flags are admitted.\<close>

definition put_flags_ok :: "BTREE \<Rightarrow> u32 \<Rightarrow> bool" where
  "put_flags_ok t fl \<longleftrightarrow> fl = 0 \<or> fl = R_NOOVERWRITE \<or>
     (fl = R_CURSOR \<and> c_flags (bt_cursor t) AND CURS_INIT \<noteq> 0 \<and>
      c_flags (bt_cursor t) AND (CURS_ACQUIRE OR CURS_AFTER OR CURS_BEFORE) = 0)"

text \<open>The place of a key: where sorted data goes, or what the search finds.\<close>

definition put_place :: "BTREE \<Rightarrow> u8 list \<Rightarrow> u8 list \<Rightarrow> ((EPGNO \<times> bool) option \<times> BTREE) option" where
  "put_place t key data = do {
     (r, t) \<leftarrow> (if bt_order t = NOT_ORDERED then Some (None, t) else bt_fast t key data);
     case r of
       Some e \<Rightarrow> Some (Some e, t)
     | None \<Rightarrow> bt_search t key }"

definition replace_at :: "BTREE \<Rightarrow> u8 list \<Rightarrow> u8 list \<Rightarrow> u8 \<Rightarrow> u32 \<Rightarrow> nat \<Rightarrow> (int \<times> BTREE) option" where
  "replace_at t key data dflags p index = do {
     (st, t) \<leftarrow> bt_dleaf t (Some key) p index;
     if st = RET_ERROR then Some (RET_ERROR, t) else put_at t key data dflags p index }"

definition bt_put :: "BTREE \<Rightarrow> u8 list \<Rightarrow> u8 list \<Rightarrow> u32 \<Rightarrow> (int \<times> BTREE) option" where
  "bt_put t key data fl =
     (if bt_flags t AND B_RDONLY \<noteq> 0 \<or> \<not> put_flags_ok t fl then Some (RET_ERROR, t)
      else do {
        (r, t) \<leftarrow> put_big t key data 0 False;
        case r of
          None \<Rightarrow> Some (RET_ERROR, t)
        | Some (key, data, dflags) \<Rightarrow>
            if fl = R_CURSOR then
              case bt_mp t (ep_pgno (c_pg (bt_cursor t))) of
                None \<Rightarrow> Some (RET_ERROR, t)
              | Some _ \<Rightarrow>
                  replace_at t key data dflags (ep_pgno (c_pg (bt_cursor t))) (ep_index (c_pg (bt_cursor t)))
            else do {
              (e, t) \<leftarrow> put_place t key data;
              case e of
                None \<Rightarrow> Some (RET_ERROR, t)
              | Some (e, exact) \<Rightarrow>
                  if fl = R_NOOVERWRITE then
                    if exact then Some (RET_SPECIAL, t)
                    else put_at t key data dflags (ep_pgno e) (ep_index e)
                  else if exact \<and> bt_flags t AND B_NODUPS \<noteq> 0
                    then replace_at t key data dflags (ep_pgno e) (ep_index e)
                    else put_at t key data dflags (ep_pgno e) (ep_index e) } })"

end
