(* ===== verification/Bt_Delete.thy ===== *)
theory Bt_Delete
  imports Bt_Put
begin

text \<open>
  Deleting records and pages, \<^verbatim>\<open>db.1.85/bt_delete.c\<close>: a page that has become empty is taken out of the
  list of its level and put on the free list, and its item is deleted from the page above, which may
  become empty in turn. The deletion at the cursor has to find the path to the page of the cursor.
\<close>

section \<open>Deleting a page\<close>

definition bt_relink :: "BTREE \<Rightarrow> u32 \<Rightarrow> (int \<times> BTREE) option" where
  "bt_relink t p = do {
     h \<leftarrow> bt_mp t p;
     let (ok, t) =
       (if nextpg h = P_INVALID then (True, t)
        else case bt_mp t (nextpg h) of
               None \<Rightarrow> (False, t)
             | Some pg \<Rightarrow> (True, set_page (nextpg h) (pg\<lparr>prevpg := prevpg h\<rparr>) t));
     if \<not> ok then Some (RET_ERROR, t)
     else do {
       h \<leftarrow> bt_mp t p;
       Some (if prevpg h = P_INVALID then (RET_SUCCESS, t)
             else case bt_mp t (prevpg h) of
                    None \<Rightarrow> (RET_ERROR, t)
                  | Some pg \<Rightarrow> (RET_SUCCESS, set_page (prevpg h) (pg\<lparr>nextpg := nextpg h\<rparr>) t)) } }"

text \<open>The walk over the parents, which are taken from the stack.\<close>

fun pdelete_up :: "EPGNO list \<Rightarrow> BTREE \<Rightarrow> (int \<times> BTREE) option" where
  "pdelete_up [] t = Some (RET_SUCCESS, t)"
| "pdelete_up (parent # es) t =
     (let t = t\<lparr>bt_stack := es\<rparr>; p = ep_pgno parent; index = ep_index parent in
      case bt_mp t p of
        None \<Rightarrow> Some (RET_ERROR, t)
      | Some pg \<Rightarrow> do {
          bi \<leftarrow> GETBINTERNAL pg index;
          (st, t) \<leftarrow> (if bi_flags bi AND P_BIGKEY \<noteq> 0 then ovfl_delete t (bi_key bi) else Some (RET_SUCCESS, t));
          if st = RET_ERROR then Some (RET_ERROR, t)
          else do {
            pg \<leftarrow> bt_mp t p;
            if NEXTINDEX pg = 1 then
              if pgno pg = P_ROOT then
                Some (RET_SUCCESS, set_page p
                  (pg\<lparr>lower := of_nat BTDATAOFF, upper := of_nat (bt_psize t), flags := P_BLEAF\<rparr>) t)
              else do {
                (st, t) \<leftarrow> bt_relink t p;
                if st \<noteq> RET_SUCCESS then Some (RET_ERROR, t)
                else do { t \<leftarrow> bt_free_page t p; pdelete_up es t } }
            else do {
              pg \<leftarrow> pg_pack pg index (NBINTERNAL (bi_ksize bi));
              Some (RET_SUCCESS, set_page p pg t) } } })"

text \<open>The result is the value of a disjunction, so that a failure to unlink the leaf is 1.\<close>

definition bt_pdelete :: "BTREE \<Rightarrow> u32 \<Rightarrow> (int \<times> BTREE) option" where
  "bt_pdelete t p = do {
     (st, t) \<leftarrow> pdelete_up (bt_stack t) t;
     if st = RET_ERROR then Some (RET_ERROR, t)
     else do {
       h \<leftarrow> bt_mp t p;
       if pgno h = P_ROOT then Some (RET_SUCCESS, t)
       else do {
         (st, t) \<leftarrow> bt_relink t p;
         if st \<noteq> RET_SUCCESS then Some (1, t)
         else do { t \<leftarrow> bt_free_page t p; Some (RET_SUCCESS, t) } } } }"

section \<open>Deleting by key\<close>

text \<open>The records from \<open>index\<close> on that have the key; whether none of the deletions failed.\<close>

partial_function (option) del_forward :: "BTREE \<Rightarrow> u8 list \<Rightarrow> u32 \<Rightarrow> nat \<Rightarrow> (bool \<times> BTREE) option" where
  "del_forward t key p index =
     Option.bind (bt_dleaf t (Some key) p index) (\<lambda>(st, t).
       if st \<noteq> RET_SUCCESS then Some (False, t)
       else Option.bind (bt_mp t p) (\<lambda>h.
         if index < NEXTINDEX h then
           Option.bind (bt_cmp t key p index) (\<lambda>c. if c = 0 then del_forward t key p index else Some (True, t))
         else Some (True, t)))"

text \<open>The records below \<open>index\<close>, and whether the beginning of the page was reached.\<close>

fun del_back :: "BTREE \<Rightarrow> u8 list \<Rightarrow> u32 \<Rightarrow> nat \<Rightarrow> bool \<Rightarrow> (bool \<times> bool \<times> BTREE) option" where
  "del_back t key p 0 redo = Some (True, redo, t)"
| "del_back t key p (Suc index) redo = do {
     c \<leftarrow> bt_cmp t key p index;
     if c \<noteq> 0 then Some (True, redo, t)
     else do {
       (st, t) \<leftarrow> bt_dleaf t (Some key) p index;
       if st = RET_ERROR then Some (False, redo, t)
       else del_back t key p index (index = 0 \<or> redo) } }"

text \<open>Without duplicates the one record is deleted, and the page if it was the last.\<close>

definition delete_one :: "BTREE \<Rightarrow> u8 list \<Rightarrow> u32 \<Rightarrow> nat \<Rightarrow> (int \<times> BTREE) option" where
  "delete_one t key p index = do {
     (st, t) \<leftarrow> bt_dleaf t (Some key) p index;
     if st \<noteq> RET_SUCCESS then Some (RET_ERROR, t)
     else do {
       h \<leftarrow> bt_mp t p;
       if NEXTINDEX h = 0 then do {
         (st, t) \<leftarrow> bt_pdelete t p;
         Some (if st \<noteq> RET_SUCCESS then (RET_ERROR, t) else (RET_SUCCESS, t)) }
       else Some (RET_SUCCESS, t) } }"

partial_function (option) bdelete_loop :: "BTREE \<Rightarrow> u8 list \<Rightarrow> bool \<Rightarrow> (int \<times> BTREE) option" where
  "bdelete_loop t key deleted =
     Option.bind (bt_search t key) (\<lambda>(r, t). case r of
       None \<Rightarrow> Some (if deleted then RET_SUCCESS else RET_ERROR, t)
     | Some (e, exact) \<Rightarrow>
         if \<not> exact then Some (if deleted then RET_SUCCESS else RET_SPECIAL, t)
         else if bt_flags t AND B_NODUPS \<noteq> 0 then delete_one t key (ep_pgno e) (ep_index e)
         else Option.bind (del_forward t key (ep_pgno e) (ep_index e)) (\<lambda>(ok, t).
           if \<not> ok then Some (RET_ERROR, t)
           else Option.bind (bt_mp t (ep_pgno e)) (\<lambda>h.
           Option.bind (del_back t key (ep_pgno e) (ep_index e) (ep_index e = NEXTINDEX h)) (\<lambda>(ok, redo, t).
             if \<not> ok then Some (RET_ERROR, t)
             else Option.bind (bt_mp t (ep_pgno e)) (\<lambda>h.
               if NEXTINDEX h = 0 then
                 Option.bind (bt_pdelete t (ep_pgno e)) (\<lambda>(st, t).
                   if st \<noteq> RET_SUCCESS then Some (RET_ERROR, t) else bdelete_loop t key True)
               else if redo then bdelete_loop t key True
               else Some (RET_SUCCESS, t))))))"

definition bt_bdelete :: "BTREE \<Rightarrow> u8 list \<Rightarrow> (int \<times> BTREE) option" where
  "bt_bdelete t key = bdelete_loop t key False"

section \<open>The path to the cursor\<close>

text \<open>
  Up the stack to the first page that has an item after the one of the path, which is pushed;
  \<open>level\<close> counts the pages that are left behind.
\<close>

fun climb_next :: "EPGNO list \<Rightarrow> BTREE \<Rightarrow> u32 \<Rightarrow> nat \<Rightarrow> nat \<Rightarrow> ((u32 \<times> nat \<times> nat) option \<times> BTREE) option" where
  "climb_next [] t h index level = Some (Some (h, index, level), t)"
| "climb_next (e # es) t h index level =
     (let t = t\<lparr>bt_stack := es\<rparr> in
      case bt_mp t (ep_pgno e) of
        None \<Rightarrow> Some (None, t)
      | Some pg \<Rightarrow>
          if Suc (ep_index e) \<noteq> NEXTINDEX pg then do {
            t \<leftarrow> BT_PUSH t (pgno pg) ((ep_index e + 1) mod 65536);
            Some (Some (ep_pgno e, (ep_index e + 1) mod 65536, level), t) }
          else climb_next es t (ep_pgno e) index (Suc level))"

fun climb_prev :: "EPGNO list \<Rightarrow> BTREE \<Rightarrow> u32 \<Rightarrow> nat \<Rightarrow> nat \<Rightarrow> ((u32 \<times> nat \<times> nat) option \<times> BTREE) option" where
  "climb_prev [] t h index level = Some (Some (h, index, level), t)"
| "climb_prev (e # es) t h index level =
     (let t = t\<lparr>bt_stack := es\<rparr> in
      case bt_mp t (ep_pgno e) of
        None \<Rightarrow> Some (None, t)
      | Some pg \<Rightarrow>
          if ep_index e \<noteq> 0 then do {
            t \<leftarrow> BT_PUSH t (pgno pg) (ep_index e - 1);
            Some (Some (ep_pgno e, ep_index e - 1, level), t) }
          else climb_prev es t (ep_pgno e) index (Suc level))"

text \<open>Down again by as many levels, along the first, or the last, items.\<close>

fun refill_next :: "nat \<Rightarrow> BTREE \<Rightarrow> u32 \<Rightarrow> nat \<Rightarrow> (nat option \<times> BTREE) option" where
  "refill_next 0 t h index = Some (Some index, t)"
| "refill_next (Suc level) t h index = do {
     hp \<leftarrow> bt_mp t h;
     bi \<leftarrow> GETBINTERNAL hp index;
     t \<leftarrow> BT_PUSH t (bi_pgno bi) 0;
     case bt_mp t (bi_pgno bi) of
       None \<Rightarrow> Some (None, t)
     | Some _ \<Rightarrow> refill_next level t (bi_pgno bi) 0 }"

fun refill_prev :: "nat \<Rightarrow> BTREE \<Rightarrow> u32 \<Rightarrow> nat \<Rightarrow> (nat option \<times> BTREE) option" where
  "refill_prev 0 t h index = Some (Some index, t)"
| "refill_prev (Suc level) t h index = do {
     hp \<leftarrow> bt_mp t h;
     bi \<leftarrow> GETBINTERNAL hp index;
     case bt_mp t (bi_pgno bi) of
       None \<Rightarrow> Some (None, t)
     | Some pg \<Rightarrow> do {
         let i = unat (of_nat (NEXTINDEX pg) - 1 :: u16);
         t \<leftarrow> BT_PUSH t (bi_pgno bi) i;
         refill_prev level t (bi_pgno bi) i } }"

text \<open>
  The walk to the page \<open>c\<close> along the leaves, with the stack kept up; the page it ends on and the
  last index that was used.
\<close>

partial_function (option) move_right :: "BTREE \<Rightarrow> u32 \<Rightarrow> nat \<Rightarrow> u32 \<Rightarrow> ((u32 \<times> nat) option \<times> BTREE) option" where
  "move_right t c index h =
     Option.bind (bt_mp t h) (\<lambda>hp.
       if pgno hp = c \<or> nextpg hp = P_INVALID then Some (Some (h, index), t)
       else Option.bind (climb_next (bt_stack t) t h index 0) (\<lambda>(r, t). case r of
         None \<Rightarrow> Some (None, t)
       | Some (q, index, level) \<Rightarrow>
           Option.bind (refill_next level t q index) (\<lambda>(r, t). case r of
             None \<Rightarrow> Some (None, t)
           | Some index \<Rightarrow>
               (case bt_mp t (nextpg hp) of
                  None \<Rightarrow> Some (None, t)
                | Some _ \<Rightarrow> move_right t c index (nextpg hp)))))"

partial_function (option) move_left :: "BTREE \<Rightarrow> u32 \<Rightarrow> nat \<Rightarrow> u32 \<Rightarrow> ((u32 \<times> nat) option \<times> BTREE) option" where
  "move_left t c index h =
     Option.bind (bt_mp t h) (\<lambda>hp.
       if pgno hp = c \<or> prevpg hp = P_INVALID then Some (Some (h, index), t)
       else Option.bind (climb_prev (bt_stack t) t h index 0) (\<lambda>(r, t). case r of
         None \<Rightarrow> Some (None, t)
       | Some (q, index, level) \<Rightarrow>
           Option.bind (refill_prev level t q index) (\<lambda>(r, t). case r of
             None \<Rightarrow> Some (None, t)
           | Some index \<Rightarrow>
               (case bt_mp t (prevpg hp) of
                  None \<Rightarrow> Some (None, t)
                | Some _ \<Rightarrow> move_left t c index (prevpg hp)))))"

text \<open>Whether the path and the page of the cursor were found.\<close>

definition bt_stkacq :: "BTREE \<Rightarrow> (bool \<times> BTREE) option" where
  "bt_stkacq t = do {
     let c = ep_pgno (c_pg (bt_cursor t));
     let key = (case c_key (bt_cursor t) of None \<Rightarrow> [] | Some k \<Rightarrow> k);
     (e, t) \<leftarrow> bt_search t key;
     case e of
       None \<Rightarrow> Some (False, t)
     | Some (e, _) \<Rightarrow> do {
         (h, t) \<leftarrow> move_right t c 0 (ep_pgno e);
         case h of
           None \<Rightarrow> Some (False, t)
         | Some (h, index) \<Rightarrow> do {
             hp \<leftarrow> bt_mp t h;
             if pgno hp = c then Some (bt_mp t c \<noteq> None, t)
             else do {
               (e, t) \<leftarrow> bt_search t key;
               case e of
                 None \<Rightarrow> Some (False, t)
               | Some (e, _) \<Rightarrow> do {
                   (h, t) \<leftarrow> move_left t c index (ep_pgno e);
                   Some (h \<noteq> None \<and> bt_mp t c \<noteq> None, t) } } } } }"

section \<open>The deletion\<close>

definition delete_cursor :: "BTREE \<Rightarrow> (int \<times> BTREE) option" where
  "delete_cursor t =
     (let p = ep_pgno (c_pg (bt_cursor t)) in
      case bt_mp t p of
        None \<Rightarrow> Some (RET_ERROR, t)
      | Some h \<Rightarrow> do {
          (ok, t) \<leftarrow> (if NEXTINDEX h = 1 then bt_stkacq t else Some (True, t));
          if \<not> ok then Some (RET_ERROR, t)
          else do {
            (st, t) \<leftarrow> bt_dleaf t None p (ep_index (c_pg (bt_cursor t)));
            h \<leftarrow> bt_mp t p;
            if NEXTINDEX h = 0 \<and> st = RET_SUCCESS then do {
              (st, t) \<leftarrow> bt_pdelete t p;
              Some (if st \<noteq> RET_SUCCESS then (RET_ERROR, t) else (RET_SUCCESS, t)) }
            else Some (st, t) } })"

definition bt_delete :: "BTREE \<Rightarrow> u8 list \<Rightarrow> u32 \<Rightarrow> (int \<times> BTREE) option" where
  "bt_delete t key fl =
     (if bt_flags t AND B_RDONLY \<noteq> 0 then Some (RET_ERROR, t)
      else if fl = 0 \<or> fl = R_CURSOR \<and> c_flags (bt_cursor t) AND CURS_INIT \<noteq> 0 then
        if fl = R_CURSOR \<and> c_flags (bt_cursor t) AND (CURS_ACQUIRE OR CURS_AFTER OR CURS_BEFORE) \<noteq> 0
        then Some (RET_SPECIAL, t)
        else do {
          (st, t) \<leftarrow> (if fl = 0 then bt_bdelete t key else delete_cursor t);
          Some (st, if st = RET_SUCCESS then t\<lparr>bt_flags := bt_flags t OR B_MODIFIED\<rparr> else t) }
      else Some (RET_ERROR, t))"

end
