(* ===== verification/Bt_Seq.thy ===== *)
theory Bt_Seq
  imports Bt_Put
begin

text \<open>
  The sequential scan, \<^verbatim>\<open>db.1.85/bt_seq.c\<close>: the cursor and its movement over the leaves.
\<close>

section \<open>The cursor\<close>

abbreviation (input) R_FIRST :: u32 where "R_FIRST \<equiv> 3"
abbreviation (input) R_LAST :: u32 where "R_LAST \<equiv> 6"
abbreviation (input) R_NEXT :: u32 where "R_NEXT \<equiv> 7"
abbreviation (input) R_PREV :: u32 where "R_PREV \<equiv> 9"

definition bt_setcur :: "BTREE \<Rightarrow> u32 \<Rightarrow> nat \<Rightarrow> BTREE" where
  "bt_setcur t no index =
     (let c = bt_cursor t;
          c = (if c_key c \<noteq> None then c\<lparr>c_key := None, c_room := 0\<rparr> else c)
      in t\<lparr>bt_cursor := c\<lparr>c_pg := \<lparr>ep_pgno = no, ep_index = index\<rparr>,
           c_flags := (c_flags c AND NOT (CURS_ACQUIRE OR CURS_AFTER OR CURS_BEFORE)) OR CURS_INIT\<rparr>\<rparr>)"

text \<open>
  Back over equal keys, from an entry that has the key. When the page before cannot be read, the
  error path looks at the page number behind the null pointer.
\<close>

partial_function (option) first_back :: "BTREE \<Rightarrow> u8 list \<Rightarrow> u32 \<Rightarrow> nat \<Rightarrow> EPGNO option" where
  "first_back t key p index =
     Option.bind (bt_mp t p) (\<lambda>h.
       if index = 0 \<and> prevpg h = P_INVALID then Some \<lparr>ep_pgno = p, ep_index = 0\<rparr>
       else let q = (if index = 0 then prevpg h else p)
            in Option.bind (bt_mp t q) (\<lambda>g.
               let i = (if index = 0 then unat (of_nat (NEXTINDEX g) - 1 :: u16) else index - 1)
               in Option.bind (bt_cmp t key q i) (\<lambda>c.
                    if c = 0 then first_back t key q i else Some \<lparr>ep_pgno = p, ep_index = index\<rparr>)))"

text \<open>
  The first entry from a key on. When the search fails the function reports success without an
  entry.
\<close>

definition bt_first :: "BTREE \<Rightarrow> u8 list \<Rightarrow> ((int \<times> EPGNO option) \<times> BTREE) option" where
  "bt_first t key = do {
     (r, t) \<leftarrow> bt_search t key;
     case r of
       None \<Rightarrow> Some ((RET_SUCCESS, None), t)
     | Some (e, exact) \<Rightarrow> do {
         h \<leftarrow> bt_mp t (ep_pgno e);
         if exact then
           if bt_flags t AND B_NODUPS \<noteq> 0 then Some ((RET_SUCCESS, Some e), t)
           else do { e \<leftarrow> first_back t key (ep_pgno e) (ep_index e); Some ((RET_SUCCESS, Some e), t) }
         else if ep_index e = NEXTINDEX h then
           Some (if nextpg h = P_INVALID then (RET_SPECIAL, None)
                 else case bt_mp t (nextpg h) of
                        None \<Rightarrow> (RET_ERROR, None)
                      | Some _ \<Rightarrow> (RET_SUCCESS, Some \<lparr>ep_pgno = nextpg h, ep_index = 0\<rparr>), t)
         else Some ((RET_SUCCESS, Some e), t) } }"

section \<open>Setting and moving the cursor\<close>

text \<open>Down the left-hand, or the right-hand, side of the tree.\<close>

partial_function (option) walk_down :: "BTREE \<Rightarrow> bool \<Rightarrow> u32 \<Rightarrow> (int \<times> EPGNO option) option" where
  "walk_down t left pg =
     (case bt_mp t pg of
        None \<Rightarrow> Some (RET_ERROR, None)
      | Some h \<Rightarrow>
          if NEXTINDEX h = 0 then Some (RET_SPECIAL, None)
          else let index = (if left then 0 else (NEXTINDEX h - 1))
               in if flags h AND (P_BLEAF OR P_RLEAF) \<noteq> 0
                  then Some (RET_SUCCESS, Some \<lparr>ep_pgno = pg, ep_index = index mod 65536\<rparr>)
                  else Option.bind (GETBINTERNAL h index) (\<lambda>bi. walk_down t left (bi_pgno bi)))"

definition bt_seqset :: "BTREE \<Rightarrow> u8 list \<Rightarrow> u32 \<Rightarrow> ((int \<times> EPGNO option) \<times> BTREE) option" where
  "bt_seqset t key fl =
     (if fl = R_CURSOR then
        if key = [] then Some ((RET_ERROR, None), t) else bt_first t key
      else do { r \<leftarrow> walk_down t (fl = R_FIRST \<or> fl = R_NEXT) P_ROOT; Some (r, t) })"

definition seq_next :: "BTREE \<Rightarrow> PAGE \<Rightarrow> EPGNO \<Rightarrow> int \<times> EPGNO option" where
  "seq_next t h e =
     (let index = (ep_index e + 1) mod 65536 in
      if index = NEXTINDEX h then
        if nextpg h = P_INVALID then (RET_SPECIAL, None)
        else case bt_mp t (nextpg h) of
               None \<Rightarrow> (RET_ERROR, None)
             | Some _ \<Rightarrow> (RET_SUCCESS, Some \<lparr>ep_pgno = nextpg h, ep_index = 0\<rparr>)
      else (RET_SUCCESS, Some \<lparr>ep_pgno = ep_pgno e, ep_index = index\<rparr>))"

definition seq_prev :: "BTREE \<Rightarrow> PAGE \<Rightarrow> EPGNO \<Rightarrow> int \<times> EPGNO option" where
  "seq_prev t h e =
     (if ep_index e = 0 then
        if prevpg h = P_INVALID then (RET_SPECIAL, None)
        else case bt_mp t (prevpg h) of
               None \<Rightarrow> (RET_ERROR, None)
             | Some g \<Rightarrow>
                 (RET_SUCCESS, Some \<lparr>ep_pgno = prevpg h, ep_index = unat (of_nat (NEXTINDEX g) - 1 :: u16)\<rparr>)
      else (RET_SUCCESS, Some \<lparr>ep_pgno = ep_pgno e, ep_index = ep_index e - 1\<rparr>))"

definition bt_seqadv :: "BTREE \<Rightarrow> u32 \<Rightarrow> ((int \<times> EPGNO option) \<times> BTREE) option" where
  "bt_seqadv t fl =
     (let c = bt_cursor t in
      if c_flags c AND CURS_ACQUIRE \<noteq> 0 then bt_first t (case c_key c of None \<Rightarrow> [] | Some k \<Rightarrow> k)
      else case bt_mp t (ep_pgno (c_pg c)) of
             None \<Rightarrow> Some ((RET_ERROR, None), t)
           | Some h \<Rightarrow>
               if c_flags c AND (if fl = R_NEXT then CURS_AFTER else CURS_BEFORE) \<noteq> 0 then
                 Some ((RET_SUCCESS, Some (c_pg c)),
                   t\<lparr>bt_cursor := c\<lparr>c_flags := c_flags c AND NOT (CURS_AFTER OR CURS_BEFORE)\<rparr>\<rparr>)
               else Some (if fl = R_NEXT then seq_next t h (c_pg c) else seq_prev t h (c_pg c), t))"

text \<open>The status with the key and the data of the record.\<close>

definition bt_seq ::
  "BTREE \<Rightarrow> u8 list \<Rightarrow> u32 \<Rightarrow> (int \<times> (u8 list option \<times> u8 list option) option \<times> BTREE) option" where
  "bt_seq t key fl =
     (if fl \<notin> {R_NEXT, R_PREV, R_FIRST, R_LAST, R_CURSOR} then Some (RET_ERROR, None, t)
      else do {
        ((st, e), t) \<leftarrow> (if (fl = R_NEXT \<or> fl = R_PREV) \<and> c_flags (bt_cursor t) AND CURS_INIT \<noteq> 0
                       then bt_seqadv t fl else bt_seqset t key fl);
        if st \<noteq> RET_SUCCESS then Some (st, None, t)
        else do {
          e \<leftarrow> e;
          h \<leftarrow> bt_mp t (ep_pgno e);
          let t = bt_setcur t (pgno h) (ep_index e);
          r \<leftarrow> bt_ret t e True True False;
          Some (case r of None \<Rightarrow> (RET_ERROR, None, t) | Some kd \<Rightarrow> (RET_SUCCESS, Some kd, t)) } })"

end
