(* ===== verification/Bt_Tree.thy ===== *)
theory Bt_Tree
  imports Bt_Delete Bt_Seq
begin

text \<open>
  What the pages of the B-tree stand for: a tree of leaves with records and of nodes with keys, every
  one on a page of its own. A tree is represented by a state when the pages hold its leaves and nodes,
  the keys are in the ranges that the nodes give, and the leaves are linked in order. Looking at the
  leaves only, it is a sorted list of records, and the operations of the next theories are
  insertion into that list and deletion from it.
\<close>

section \<open>Trees of pages\<close>

datatype ptree = PLeaf u32 "leaf_rec list" | PNode u32 "u8 list list" "ptree list"

primrec pno :: "ptree \<Rightarrow> u32" where
  "pno (PLeaf p rs) = p"
| "pno (PNode p ks ts) = p"

primrec leaves :: "ptree \<Rightarrow> (u32 \<times> leaf_rec list) list" where
  "leaves (PLeaf p rs) = [(p, rs)]"
| "leaves (PNode p ks ts) = concat (map leaves ts)"

primrec pages :: "ptree \<Rightarrow> u32 list" where
  "pages (PLeaf p rs) = [p]"
| "pages (PNode p ks ts) = p # concat (map pages ts)"

primrec upd_leaf :: "u32 \<Rightarrow> leaf_rec list \<Rightarrow> ptree \<Rightarrow> ptree" where
  "upd_leaf q rs' (PLeaf p rs) = PLeaf p (if p = q then rs' else rs)"
| "upd_leaf q rs' (PNode p ks ts) = PNode p ks (map (upd_leaf q rs') ts)"

definition recs :: "ptree \<Rightarrow> leaf_rec list" where
  "recs T = concat (map snd (leaves T))"

lemma pno_upd [simp]: "pno (upd_leaf q rs' T) = pno T"
  by (cases T) simp_all

lemma pages_upd [simp]: "pages (upd_leaf q rs' T) = pages T"
  by (induction T) (simp_all add: comp_def cong: map_cong)

text \<open>The same pages, with other records on one leaf at most.\<close>

definition same_nodes :: "ptree \<Rightarrow> ptree \<Rightarrow> bool" where
  "same_nodes T T' \<longleftrightarrow> T' = T \<or> (\<exists>q rs. T' = upd_leaf q rs T)"

lemma same_nodes_simps [simp]: "same_nodes T T" "same_nodes T (upd_leaf q rs T)"
  by (auto simp: same_nodes_def)

lemma leaf_pages: "(p, rs) \<in> set (leaves T) \<Longrightarrow> p \<in> set (pages T)"
  by (induction T) auto

lemma upd_other: "q \<notin> set (pages T) \<Longrightarrow> upd_leaf q rs' T = T"
  by (induction T) (auto intro: map_idI)

lemma pno_pages [simp]: "pno T \<in> set (pages T)"
  by (cases T) simp_all

section \<open>Representation\<close>

definition leaf_at :: "BTREE \<Rightarrow> u32 \<Rightarrow> leaf_rec list \<Rightarrow> bool" where
  "leaf_at t p rs \<longleftrightarrow> (\<exists>h. bt_mp t p = Some h \<and> leaf_page h rs \<and> flags h AND P_TYPE = P_BLEAF \<and> pgno h = p \<and>
     BTDATAOFF + length (body h) = bt_psize t \<and> (\<forall>r\<in>set rs. snd (snd r) = 0))"

definition node_at :: "BTREE \<Rightarrow> u32 \<Rightarrow> u8 list list \<Rightarrow> u32 list \<Rightarrow> bool" where
  "node_at t p ks cs \<longleftrightarrow> length cs = length ks \<and> ks \<noteq> [] \<and>
     (\<exists>h. bt_mp t p = Some h \<and> internal_page h (map2 (\<lambda>k c. (k, c, 0)) ks cs) \<and>
        flags h AND P_TYPE = P_BINTERNAL \<and> pgno h = p \<and> BTDATAOFF + length (body h) = bt_psize t)"

abbreviation (input) below :: "BTREE \<Rightarrow> u8 list \<Rightarrow> u8 list \<Rightarrow> bool" where
  "below t a b \<equiv> bt_cmp_fn t a b < 0"

definition keys_in ::
  "(u8 list \<Rightarrow> bool) \<Rightarrow> BTREE \<Rightarrow> u8 list option \<Rightarrow> u8 list option \<Rightarrow> leaf_rec list \<Rightarrow> bool" where
  "keys_in okk t lo hi rs \<longleftrightarrow> sorted_wrt (below t) (map fst rs) \<and> (\<forall>r\<in>set rs. okk (fst r) \<and> between t lo hi (fst r))"

text \<open>
  A tree of height \<open>n\<close> with the keys of a range. The key of the first item of a node is the lower bound of
  the range, or the empty key.
\<close>

definition first_ok :: "u8 list option \<Rightarrow> u8 list list \<Rightarrow> bool" where
  "first_ok lo ks \<longleftrightarrow> hd ks = (case lo of None \<Rightarrow> [] | Some l \<Rightarrow> l)"

primrec tree_at ::
  "nat \<Rightarrow> (u8 list \<Rightarrow> bool) \<Rightarrow> BTREE \<Rightarrow> u8 list option \<Rightarrow> u8 list option \<Rightarrow> ptree \<Rightarrow> bool" where
  "tree_at 0 okk t lo hi T \<longleftrightarrow> (\<exists>p rs. T = PLeaf p rs \<and> leaf_at t p rs \<and> keys_in okk t lo hi rs)"
| "tree_at (Suc n) okk t lo hi T \<longleftrightarrow> (\<exists>p ks ts. T = PNode p ks ts \<and> length ts = length ks \<and>
     node_at t p ks (map pno ts) \<and> first_ok lo ks \<and> sorted_wrt (below t) ks \<and> (\<forall>k\<in>set ks. okk k) \<and>
     (\<forall>k\<in>set (tl ks). between t lo hi k) \<and>
     (\<forall>i < length ks. tree_at n okk t (low_bound ks lo i) (high_bound ks hi i) (ts ! i)))"

text \<open>The range of a leaf.\<close>

primrec leaf_in ::
  "nat \<Rightarrow> u8 list option \<Rightarrow> u8 list option \<Rightarrow> ptree \<Rightarrow> u32 \<Rightarrow> leaf_rec list \<Rightarrow> u8 list option \<Rightarrow> u8 list option \<Rightarrow> bool" where
  "leaf_in 0 lo hi T p rs lo' hi' \<longleftrightarrow> T = PLeaf p rs \<and> lo' = lo \<and> hi' = hi"
| "leaf_in (Suc n) lo hi T p rs lo' hi' \<longleftrightarrow> (\<exists>q ks ts i. T = PNode q ks ts \<and> length ts = length ks \<and> i < length ks \<and>
     leaf_in n (low_bound ks lo i) (high_bound ks hi i) (ts ! i) p rs lo' hi')"

text \<open>The pages a state shares with another, and the parameters.\<close>

definition agrees :: "BTREE \<Rightarrow> BTREE \<Rightarrow> u32 set \<Rightarrow> bool" where
  "agrees t t' P \<longleftrightarrow> (\<forall>q\<in>P. bt_mp t' q = bt_mp t q) \<and> bt_cmp_fn t' = bt_cmp_fn t \<and> bt_psize t' = bt_psize t"

lemma agreesD:
  "agrees t t' P \<Longrightarrow> q \<in> P \<Longrightarrow> bt_mp t' q = bt_mp t q"
  "agrees t t' P \<Longrightarrow> bt_cmp_fn t' = bt_cmp_fn t"
  "agrees t t' P \<Longrightarrow> bt_psize t' = bt_psize t"
  by (simp_all add: agrees_def)

lemma agrees_mono: "agrees t t' P \<Longrightarrow> Q \<subseteq> P \<Longrightarrow> agrees t t' Q"
  by (auto simp: agrees_def)

lemma between_agrees:
  assumes "agrees t t' P"
  shows "between t' = between t"
  unfolding fun_eq_iff between_def agreesD(2) [OF assms] by simp

lemma leaf_at_agrees: "agrees t t' P \<Longrightarrow> p \<in> P \<Longrightarrow> leaf_at t' p rs = leaf_at t p rs"
  by (simp add: agrees_def leaf_at_def)

lemma node_at_agrees: "agrees t t' P \<Longrightarrow> p \<in> P \<Longrightarrow> node_at t' p ks cs = node_at t p ks cs"
  by (simp add: agrees_def node_at_def)

lemma keys_in_agrees: "agrees t t' P \<Longrightarrow> keys_in okk t' lo hi rs = keys_in okk t lo hi rs"
  by (simp add: keys_in_def between_agrees agreesD)

lemma child_pages: "i < length ts \<Longrightarrow> set (pages (ts ! i)) \<subseteq> set (pages (PNode p ks ts))"
  using nth_mem by fastforce

lemma tree_at_agrees:
  "tree_at n okk t lo hi T \<Longrightarrow> agrees t t' (set (pages T)) \<Longrightarrow> tree_at n okk t' lo hi T"
proof (induction n arbitrary: lo hi T)
  case 0
  then show ?case by (auto simp: leaf_at_agrees keys_in_agrees)
next
  case (Suc n)
  then obtain p ks ts where T: "T = PNode p ks ts" "length ts = length ks" "node_at t p ks (map pno ts)"
    "sorted_wrt (below t) ks" "\<forall>k\<in>set ks. okk k" "\<forall>k\<in>set (tl ks). between t lo hi k"
    "\<forall>i < length ks. tree_at n okk t (low_bound ks lo i) (high_bound ks hi i) (ts ! i)" "first_ok lo ks"
    by auto
  have "tree_at n okk t' (low_bound ks lo i) (high_bound ks hi i) (ts ! i)" if "i < length ks" for i
    using Suc.IH T(2,7) that agrees_mono [OF Suc.prems(2)] child_pages [of i ts p ks] unfolding T(1) by simp
  then show ?case
    using T node_at_agrees [OF Suc.prems(2), of p] agreesD(2) [OF Suc.prems(2)] between_agrees [OF Suc.prems(2)] by auto
qed

section \<open>The leaves of a tree\<close>

lemma distinct_children:
  assumes "distinct (concat (map f ts))" "i < length ts" "j < length ts" "i \<noteq> j"
  shows "set (f (ts ! i)) \<inter> set (f (ts ! j)) = {}"
  using assms
proof (induction ts arbitrary: i j)
  case (Cons x xs)
  have "set (f x) \<inter> set (f (xs ! k)) = {}" if "k < length xs" for k using Cons.prems(1) nth_mem [OF that] by auto
  then show ?case using Cons by (cases i; cases j) auto
qed simp

lemma leaf_in_mem: "leaf_in n lo hi T p rs lo' hi' \<Longrightarrow> (p, rs) \<in> set (leaves T)"
  by (induction n arbitrary: lo hi T) (auto, metis nth_mem)

lemma leaf_in_at:
  "leaf_in n lo hi T p rs lo' hi' \<Longrightarrow> tree_at n okk t lo hi T \<Longrightarrow> leaf_at t p rs \<and> keys_in okk t lo' hi' rs"
  by (induction n arbitrary: lo hi T) auto

text \<open>Changing the records of a leaf within its range.\<close>

lemma tree_at_upd:
  "leaf_in n lo hi T p rs lo' hi' \<Longrightarrow> tree_at n okk t lo hi T \<Longrightarrow> distinct (pages T) \<Longrightarrow>
   agrees t t' (set (pages T) - {p}) \<Longrightarrow> leaf_at t' p rs' \<Longrightarrow> keys_in okk t lo' hi' rs' \<Longrightarrow>
   tree_at n okk t' lo hi (upd_leaf p rs' T)"
proof (induction n arbitrary: lo hi T)
  case 0
  then show ?case by (auto simp: keys_in_agrees)
next
  case (Suc n)
  then obtain q ks ts i where T: "T = PNode q ks ts" "length ts = length ks" "i < length ks"
    "leaf_in n (low_bound ks lo i) (high_bound ks hi i) (ts ! i) p rs lo' hi'"
    "node_at t q ks (map pno ts)" "sorted_wrt (below t) ks" "\<forall>k\<in>set ks. okk k" "\<forall>k\<in>set (tl ks). between t lo hi k"
    "\<forall>i < length ks. tree_at n okk t (low_bound ks lo i) (high_bound ks hi i) (ts ! i)" "first_ok lo ks"
    by auto
  have d: "distinct (concat (map pages ts))" "q \<notin> set (concat (map pages ts))" using Suc.prems(3) T(1) by simp_all
  have p: "p \<in> set (pages (ts ! i))" using leaf_pages leaf_in_mem [OF T(4)] by blast
  have sub: "set (pages (ts ! j)) \<subseteq> set (pages T)" if "j < length ks" for j
    using child_pages [of j ts q ks] that T(1,2) by simp
  have "p \<noteq> q" using p d(2) nth_mem [of i ts] T(2,3) by auto
  then have q: "q \<in> set (pages T) - {p}" using T(1) by simp
  have "tree_at n okk t' (low_bound ks lo j) (high_bound ks hi j) (upd_leaf p rs' (ts ! j))" if j: "j < length ks" for j
  proof (cases "j = i")
    case True
    have "distinct (pages (ts ! i))" using d(1) T(2,3) by (simp add: distinct_concat_iff)
    then show ?thesis
      using Suc.IH [OF T(4)] T(3,9) sub [OF j] True agrees_mono [OF Suc.prems(4), of "set (pages (ts ! i)) - {p}"]
        Suc.prems(5,6) by auto
  next
    case False
    then have np: "p \<notin> set (pages (ts ! j))" using distinct_children [OF d(1), of i j] T(2,3) j p by auto
    then have "agrees t t' (set (pages (ts ! j)))" using sub [OF j] by (intro agrees_mono [OF Suc.prems(4)]) auto
    then show ?thesis using tree_at_agrees [OF T(9) [rule_format, OF j]] np by (simp add: upd_other)
  qed
  moreover have "node_at t' q ks (map pno ts)" using T(5) node_at_agrees [OF Suc.prems(4) q] by simp
  ultimately show ?case
    using T(1,2,6-8,10) agreesD(2) [OF Suc.prems(4)] between_agrees [OF Suc.prems(4)] by (auto simp: comp_def)
qed

text \<open>Every leaf has its range; the first one has no lower bound of its own, the last one no upper bound.\<close>

lemma leaf_range:
  "tree_at n okk t lo hi T \<Longrightarrow> (p, rs) \<in> set (leaves T) \<Longrightarrow> \<exists>lo' hi'. leaf_in n lo hi T p rs lo' hi'"
proof (induction n arbitrary: lo hi T)
  case 0
  then show ?case by auto
next
  case (Suc n)
  then obtain q ks ts where T: "T = PNode q ks ts" "length ts = length ks"
    "\<forall>i < length ks. tree_at n okk t (low_bound ks lo i) (high_bound ks hi i) (ts ! i)"
    by auto
  then obtain i where "i < length ts" "(p, rs) \<in> set (leaves (ts ! i))"
    using Suc.prems(2) concat_nth_mem [of "(p, rs)" "map leaves ts"] by auto
  then show ?case using Suc.IH [of _ _ "ts ! i"] T by fastforce
qed

lemma leaves_not_Nil: "tree_at n okk t lo hi T \<Longrightarrow> leaves T \<noteq> []"
proof (induction n arbitrary: lo hi T)
  case (Suc n)
  then obtain q ks ts where T: "T = PNode q ks ts" "length ts = length ks" "ks \<noteq> []"
    "\<forall>i < length ks. tree_at n okk t (low_bound ks lo i) (high_bound ks hi i) (ts ! i)"
    by (auto simp: node_at_def)
  then show ?case using Suc.IH [of _ _ "ts ! 0"] nth_mem [of 0 ts] by fastforce
qed auto

lemma first_leaf:
  "tree_at n okk t lo hi T \<Longrightarrow> \<exists>hi'. leaf_in n lo hi T (fst (hd (leaves T))) (snd (hd (leaves T))) lo hi'"
proof (induction n arbitrary: lo hi T)
  case (Suc n)
  then obtain q ks ts where T: "T = PNode q ks ts" "length ts = length ks" "ks \<noteq> []"
    "\<forall>i < length ks. tree_at n okk t (low_bound ks lo i) (high_bound ks hi i) (ts ! i)"
    by (auto simp: node_at_def)
  then obtain x xs where ts: "ts = x # xs" by (cases ts) auto
  have x: "tree_at n okk t lo (high_bound ks hi 0) x" using T ts by (auto simp: low_bound_def)
  have "hd (leaves T) = hd (leaves x)" using leaves_not_Nil [OF x] T(1) ts by simp
  then show ?case
    using Suc.IH [OF x] T ts by (auto simp: low_bound_def intro!: exI [of _ "0 :: nat"])
qed auto

lemma last_leaf:
  "tree_at n okk t lo hi T \<Longrightarrow> \<exists>lo'. leaf_in n lo hi T (fst (last (leaves T))) (snd (last (leaves T))) lo' hi"
proof (induction n arbitrary: lo hi T)
  case (Suc n)
  then obtain q ks ts where T: "T = PNode q ks ts" "length ts = length ks" "ks \<noteq> []"
    "\<forall>i < length ks. tree_at n okk t (low_bound ks lo i) (high_bound ks hi i) (ts ! i)"
    by (auto simp: node_at_def)
  then obtain x xs where ts: "ts = xs @ [x]" by (cases ts rule: rev_cases) auto
  have l: "length xs < length ks" "Suc (length xs) = length ks" using T(2) ts by simp_all
  have x: "tree_at n okk t (low_bound ks lo (length xs)) hi x"
    using T(4) l ts by (auto simp: high_bound_def nth_append dest: spec [of _ "length xs"])
  have "last (leaves T) = last (leaves x)" using leaves_not_Nil [OF x] T(1) ts by simp
  then show ?case
    using Suc.IH [OF x] T(1,2) ts l
    by (auto simp: high_bound_def nth_append intro!: exI [of _ "length xs"])
qed auto


section \<open>The tree that the search sees\<close>

definition ents :: "ptree \<Rightarrow> (u8 list \<times> EPGNO) list" where
  "ents T = concat (map (\<lambda>(p, rs). map (\<lambda>i. (fst (rs ! i), \<lparr>ep_pgno = p, ep_index = i\<rparr>)) [0..<length rs]) (leaves T))"

lemma ents_node: "ents (PNode p ks ts) = concat (map ents ts)"
  by (induction ts) (simp_all add: ents_def)

lemma leaf_at_keys:
  assumes "leaf_at t p rs" "sorted_wrt (below t) (map fst rs)"
  shows "leaf_keys t p (map fst rs)"
  using assms leaf_page_keys [of _ rs t] by (auto simp: leaf_at_def leaf_keys_def leaf_page_def)

lemma node_page_keys:
  assumes "node_at t p ks cs" "sorted_wrt (below t) ks"
  shows "\<exists>h. bt_mp t p = Some h \<and> flags h AND P_BLEAF = 0 \<and> pgno h = p \<and> page_keys t h ks \<and>
    (\<forall>i < length ks. GETBINTERNAL h i = Some \<lparr>bi_ksize = length (ks ! i), bi_pgno = cs ! i, bi_flags = 0, bi_key = ks ! i\<rparr>)"
proof -
  let ?rs = "map2 (\<lambda>k c. (k, c, 0 :: u8)) ks cs"
  obtain h where h: "bt_mp t p = Some h" "internal_page h ?rs" "pgno h = p" "length cs = length ks"
    using assms(1) by (auto simp: node_at_def)
  have get: "GETBINTERNAL h i = Some \<lparr>bi_ksize = length (ks ! i), bi_pgno = cs ! i, bi_flags = 0, bi_key = ks ! i\<rparr>"
    if "i < length ks" for i
    using internal_get [OF h(2), of i "ks ! i" "cs ! i" 0] h(4) that by simp
  have few: "length ks < 65536"
  proof -
    obtain es where "page_holds h es" "map snd es = map internal_item ?rs"
      using h(2) by (auto simp: internal_page_def page_items_def)
    then have "2 * length es < 65536" "length es = length ks"
      using unat_u16_less [of "lower h"] h(4) by (auto simp: page_holds_def dest: map_eq_imp_length_eq)
    then show ?thesis by simp
  qed
  have "flags h AND P_BLEAF = 0" using h(2) by (simp add: internal_page_def)
  then show ?thesis
    using h get few internal_count [OF h(2)] assms(2)
    by (intro exI [of _ h]) (auto simp: page_keys_def item_key_def rec_key_def)
qed

lemma tree_subtree:
  "tree_at n okk t lo hi T \<Longrightarrow> subtree n okk t (pno T) lo hi (ents T)"
proof (induction n arbitrary: lo hi T)
  case 0
  then obtain p rs where T: "T = PLeaf p rs" "leaf_at t p rs" "keys_in okk t lo hi rs" by auto
  then have "leaf_keys t p (map fst rs)" "\<forall>k\<in>set (map fst rs). okk k \<and> between t lo hi k"
    using leaf_at_keys by (auto simp: keys_in_def)
  moreover have "ents T = map (\<lambda>i. (map fst rs ! i, \<lparr>ep_pgno = p, ep_index = i\<rparr>)) [0..<length (map fst rs)]"
    by (simp add: ents_def T(1))
  ultimately show ?case using T(1) by (auto intro!: exI [of _ "map fst rs"])
next
  case (Suc n)
  then obtain p ks ts where T: "T = PNode p ks ts" "length ts = length ks" "node_at t p ks (map pno ts)"
    "sorted_wrt (below t) ks" "\<forall>k\<in>set ks. okk k" "\<forall>k\<in>set (tl ks). between t lo hi k"
    "\<forall>i < length ks. tree_at n okk t (low_bound ks lo i) (high_bound ks hi i) (ts ! i)"
    by auto
  have "internal_keys t p ks (map pno ts)"
    using node_page_keys [OF T(3,4)] T(2,3) by (auto simp: internal_keys_def node_at_def)
  moreover have "ents T = concat (map ents ts)" by (simp add: T(1) ents_node)
  ultimately show ?case
    using T Suc.IH by (auto intro!: exI [of _ ks] exI [of _ "map pno ts"] exI [of _ "map ents ts"])
qed

lemma ents_keys: "fst ` set (ents T) = fst ` set (recs T)"
proof -
  have "fst ` set (map (\<lambda>i. (fst (rs ! i), \<lparr>ep_pgno = p, ep_index = i\<rparr>)) [0..<length rs]) = fst ` set rs"
    for p :: u32 and rs :: "leaf_rec list"
    by (force simp: in_set_conv_nth image_iff)
  then show ?thesis by (simp add: ents_def recs_def image_UN case_prod_beta)
qed

context key_order
begin

lemma tree_recs_range:
  assumes "bt_cmp_fn t = cmp" "tree_at n okk t lo hi T" "\<forall>l. lo = Some l \<longrightarrow> okk l" "\<forall>u. hi = Some u \<longrightarrow> okk u"
    and "r \<in> set (recs T)"
  shows "okk (fst r) \<and> between t lo hi (fst r)"
proof -
  have "fst r \<in> fst ` set (ents T)" using assms(5) ents_keys [of T] by auto
  then show ?thesis using subtree_range [OF assms(1) tree_subtree [OF assms(2)] assms(3,4)] by force
qed

lemma child_between:
  assumes cmp: "bt_cmp_fn t = cmp" and ks: "\<forall>k\<in>set ks. okk k" "\<forall>k\<in>set (tl ks). between t lo hi k" "i < length ks"
    and ok: "\<forall>l. lo = Some l \<longrightarrow> okk l" "\<forall>u. hi = Some u \<longrightarrow> okk u"
    and k: "okk k" "between t (low_bound ks lo i) (high_bound ks hi i) k"
  shows "between t lo hi k"
proof -
  have inner: "between t lo hi (ks ! j)" "okk (ks ! j)" if "0 < j" "j < length ks" for j
    using ks(1,2) that by (cases ks; auto)+
  have "cmp l k \<le> 0" if "lo = Some l" "0 < i" "cmp (ks ! i) k \<le> 0" for l
    using inner [of i] that ks(3) k(1) ok(1) cmp_trans [of l "ks ! i" k] by (simp add: between_def cmp)
  moreover have "cmp k u < 0" if "hi = Some u" "Suc i < length ks" "cmp k (ks ! Suc i) < 0" for u
    using inner [of "Suc i"] that ok(2) k(1) less_le_trans [of k "ks ! Suc i" u] by (simp add: between_def cmp)
  ultimately show ?thesis
    using k(2) by (auto simp: between_def low_bound_def high_bound_def cmp split: option.splits if_splits)
qed

text \<open>
  The records of the other leaves are on their sides of every key in the range of a leaf.
\<close>

definition apart_at :: "(u32 \<times> leaf_rec list) list \<Rightarrow> u8 list \<Rightarrow> (u32 \<times> leaf_rec list) list \<Rightarrow> bool" where
  "apart_at pre key post \<longleftrightarrow>
     (\<forall>l\<in>set pre. \<forall>r\<in>set (snd l). cmp (fst r) key < 0) \<and> (\<forall>l\<in>set post. \<forall>r\<in>set (snd l). cmp key (fst r) < 0)"

lemma apart_at_append [simp]:
  "apart_at (a @ pre) key (post @ b) \<longleftrightarrow> apart_at a key b \<and> apart_at pre key post"
  by (auto simp: apart_at_def)

lemma leaf_in_order:
  assumes "leaf_in n lo hi T p rs lo' hi'" "distinct (pages T)"
    and cmp: "bt_cmp_fn t = cmp" and tr: "tree_at n okk t lo hi T"
    and ok: "\<forall>l. lo = Some l \<longrightarrow> okk l" "\<forall>u. hi = Some u \<longrightarrow> okk u"
  shows "\<exists>pre post. leaves T = pre @ (p, rs) # post \<and> (\<forall>rs'. leaves (upd_leaf p rs' T) = pre @ (p, rs') # post) \<and>
    (\<forall>key. okk key \<and> between t lo' hi' key \<longrightarrow> apart_at pre key post \<and> between t lo hi key)"
  using assms(1,2) tr ok
proof (induction n arbitrary: lo hi T)
  case 0
  then show ?case by (intro exI [of _ "[]"]) (auto simp: apart_at_def)
next
  case (Suc n)
  then obtain q ks ts i where T: "T = PNode q ks ts" "length ts = length ks" "i < length ks"
    "leaf_in n (low_bound ks lo i) (high_bound ks hi i) (ts ! i) p rs lo' hi'"
    "node_at t q ks (map pno ts)" "sorted_wrt (below t) ks" "\<forall>k\<in>set ks. okk k" "\<forall>k\<in>set (tl ks). between t lo hi k"
    "\<forall>i < length ks. tree_at n okk t (low_bound ks lo i) (high_bound ks hi i) (ts ! i)"
    by auto
  have i: "i < length ts" using T(2,3) by simp
  have bounds: "\<forall>l. low_bound ks lo j = Some l \<longrightarrow> okk l" "\<forall>u. high_bound ks hi j = Some u \<longrightarrow> okk u"
    if "j < length ks" for j
    using T(7) Suc.prems(4,5) that by (auto simp: low_bound_def high_bound_def)
  have d: "distinct (concat (map pages ts))" using Suc.prems(2) T(1) by simp
  then have "distinct (pages (ts ! i))" using i by (simp add: distinct_concat_iff)
  then obtain pre post where IH: "leaves (ts ! i) = pre @ (p, rs) # post"
    "\<forall>rs'. leaves (upd_leaf p rs' (ts ! i)) = pre @ (p, rs') # post"
    "\<forall>key. okk key \<and> between t lo' hi' key \<longrightarrow>
       apart_at pre key post \<and> between t (low_bound ks lo i) (high_bound ks hi i) key"
    using Suc.IH [OF T(4) _ _ bounds [OF T(3)]] T(3,9) by blast
  have p: "p \<in> set (pages (ts ! i))" using leaf_pages leaf_in_mem [OF T(4)] by blast
  have same: "map (\<lambda>x. leaves (upd_leaf p rs' x)) ts = (map leaves ts)[i := pre @ (p, rs') # post]" for rs'
  proof (rule nth_equalityI)
    fix j assume j: "j < length (map (\<lambda>x. leaves (upd_leaf p rs' x)) ts)"
    show "map (\<lambda>x. leaves (upd_leaf p rs' x)) ts ! j = (map leaves ts)[i := pre @ (p, rs') # post] ! j"
    proof (cases "j = i")
      case False
      then have "p \<notin> set (pages (ts ! j))" using distinct_children [OF d, of i j] i j p by auto
      then show ?thesis using False j by (simp add: upd_other)
    qed (use i IH(2) in simp)
  qed simp
  let ?a = "concat (take i (map leaves ts))" and ?b = "concat (drop (Suc i) (map leaves ts))"
  have "concat (map leaves ts) = ?a @ leaves (ts ! i) @ ?b"
    using i by (subst id_take_nth_drop [of i "map leaves ts"]) (simp_all del: map_eq_conv)
  then have 1: "leaves T = (?a @ pre) @ (p, rs) # post @ ?b" unfolding T(1) leaves.simps IH(1) by simp
  have 2: "leaves (upd_leaf p rs' T) = (?a @ pre) @ (p, rs') # post @ ?b" for rs'
  proof -
    have "leaves (upd_leaf p rs' T) = concat ((map leaves ts)[i := pre @ (p, rs') # post])"
      unfolding T(1) upd_leaf.simps leaves.simps map_map comp_def same ..
    also have "\<dots> = (?a @ pre) @ (p, rs') # post @ ?b" using i by (simp add: upd_conv_take_nth_drop)
    finally show ?thesis .
  qed
  obtain h where h: "page_keys t h ks" using node_page_keys [OF T(5,6)] by blast
  have other: "okk (fst r) \<and> between t (low_bound ks lo j) (high_bound ks hi j) (fst r)"
    if "j < length ks" "l \<in> set (leaves (ts ! j))" "r \<in> set (snd l)" for j l r
    using tree_recs_range [OF cmp _ bounds [OF that(1)], of n "ts ! j" r] T(9) that by (auto simp: recs_def)
  have 3: "apart_at ?a key ?b \<and> between t lo hi key" if key: "okk key" "between t lo' hi' key" for key
  proof -
    have k: "between t (low_bound ks lo i) (high_bound ks hi i) key" using IH(3) key by blast
    have "cmp (fst r) key < 0" if "l \<in> set ?a" "r \<in> set (snd l)" for l r
    proof -
      obtain j where j: "j < i" "l \<in> set (leaves (ts ! j))" using \<open>l \<in> set ?a\<close> i by (auto simp: in_set_conv_nth [of _ "take i _"])
      then show ?thesis
        using ranges_apart [OF cmp h T(7) _ T(3), of j lo hi "fst r" key] other [of j l r] that(2) T(3) k key(1) by simp
    qed
    moreover have "cmp key (fst r) < 0" if "l \<in> set ?b" "r \<in> set (snd l)" for l r
    proof -
      obtain m where "m < length (drop (Suc i) (map leaves ts))" "l \<in> set (drop (Suc i) (map leaves ts) ! m)"
        using \<open>l \<in> set ?b\<close> concat_nth_mem [of l "drop (Suc i) (map leaves ts)"] by blast
      then have j: "i < Suc i + m" "Suc i + m < length ks" "l \<in> set (leaves (ts ! (Suc i + m)))" using T(2) by simp_all
      then show ?thesis
        using ranges_apart [OF cmp h T(7) j(1,2), of lo hi key "fst r"] other [OF j(2,3) that(2)] k key(1) by simp
    qed
    ultimately show ?thesis
      using child_between [OF cmp T(7,8,3) Suc.prems(4,5) key(1) k] by (simp add: apart_at_def)
  qed
  show ?case
  proof (rule exI [of _ "?a @ pre"], rule exI [of _ "post @ ?b"], intro conjI allI impI)
    show "leaves T = (?a @ pre) @ (p, rs) # post @ ?b" by (rule 1)
    show "leaves (upd_leaf p rs' T) = (?a @ pre) @ (p, rs') # post @ ?b" for rs' by (rule 2)
    show "apart_at (?a @ pre) key (post @ ?b)" "between t lo hi key" if "okk key \<and> between t lo' hi' key" for key
      using 3 [of key] IH(3) that by simp_all
  qed
qed

text \<open>The place of a key among the records of a leaf.\<close>

definition place_in :: "leaf_rec list \<Rightarrow> u8 list \<Rightarrow> nat \<Rightarrow> bool \<Rightarrow> bool" where
  "place_in rs key i exact \<longleftrightarrow>
     (if exact then i < length rs \<and> cmp key (fst (rs ! i)) = 0
      else i \<le> length rs \<and> (\<forall>j<i. 0 < cmp key (fst (rs ! j))) \<and>
        (\<forall>j. i \<le> j \<and> j < length rs \<longrightarrow> cmp key (fst (rs ! j)) < 0))"

lemma descend_tree:
  assumes "bt_cmp_fn t = cmp" "bt_flags t AND B_NODUPS \<noteq> 0" "okk key"
    and "tree_at n okk t lo hi T" "between t lo hi key" "length (bt_stack t) + n \<le> 50"
  shows "\<exists>p rs i exact path lo' hi'.
    bt_descend t key (pno T) = Some (Some (\<lparr>ep_pgno = p, ep_index = i\<rparr>, exact),
      t\<lparr>bt_stack := path @ bt_stack t, bt_cur := \<lparr>ep_pgno = p, ep_index = i\<rparr>\<rparr>) \<and>
    length path = n \<and> leaf_in n lo hi T p rs lo' hi' \<and> between t lo' hi' key \<and> place_in rs key i exact"
  using assms
proof (induction n arbitrary: t lo hi T)
  case 0
  then obtain p rs h where K: "T = PLeaf p rs" "leaf_at t p rs" "keys_in okk t lo hi rs" "bt_mp t p = Some h"
    "flags h AND P_BLEAF \<noteq> 0" "page_keys t h (map fst rs)"
    using leaf_at_keys [of t _ _] by (fastforce simp: keys_in_def leaf_keys_def)
  have okk: "\<forall>k\<in>set (map fst rs). okk k" using K(3) by (auto simp: keys_in_def)
  obtain found ix where S: "bt_bsearch t key p 0 (NEXTINDEX h mod 65536) = Some (found, ix)"
    "if found then ix < length (map fst rs) \<and> page_cmp t key h (map fst rs) ix = 0
     else ix \<le> length (map fst rs) \<and> (\<forall>i<ix. 0 < page_cmp t key h (map fst rs) i) \<and>
       (\<forall>i. ix \<le> i \<and> i < length (map fst rs) \<longrightarrow> page_cmp t key h (map fst rs) i < 0)"
    using page_search [OF 0(1) K(4,6) okk 0(3)] by blast
  have pc: "page_cmp t key h (map fst rs) i = cmp key (fst (rs ! i))" if "i < length rs" for i
    using K(5) 0(1) that by (simp add: page_cmp_def)
  let ?e = "\<lparr>ep_pgno = p, ep_index = ix\<rparr>"
  have "bt_descend t key p = Some (Some (?e, found), t\<lparr>bt_cur := ?e\<rparr>)"
    using K(4,5) S(1) 0(2) by (subst bt_descend.simps) (simp add: bt_search_leaf_def Let_def)
  moreover have "place_in rs key ix found"
    using S(2) pc by (auto simp: place_in_def split: if_splits)
  ultimately show ?case
    using K(1) 0(5)
    by (intro exI [of _ p] exI [of _ rs] exI [of _ ix] exI [of _ found] exI [of _ "[]"] exI [of _ lo] exI [of _ hi]) simp
next
  case (Suc n)
  then obtain q ks ts where T: "T = PNode q ks ts" "length ts = length ks" "node_at t q ks (map pno ts)"
    "sorted_wrt (below t) ks" "\<forall>k\<in>set ks. okk k" "\<forall>k\<in>set (tl ks). between t lo hi k"
    "\<forall>i < length ks. tree_at n okk t (low_bound ks lo i) (high_bound ks hi i) (ts ! i)" "ks \<noteq> []"
    by (auto simp: node_at_def)
  obtain h where K: "bt_mp t q = Some h" "flags h AND P_BLEAF = 0" "pgno h = q" "page_keys t h ks"
    "\<forall>i < length ks. GETBINTERNAL h i =
       Some \<lparr>bi_ksize = length (ks ! i), bi_pgno = map pno ts ! i, bi_flags = 0, bi_key = ks ! i\<rparr>"
    using node_page_keys [OF T(3,4)] by blast
  obtain found ix where S: "bt_bsearch t key q 0 (NEXTINDEX h mod 65536) = Some (found, ix)"
    "if found then ix < length ks \<and> page_cmp t key h ks ix = 0
     else ix \<le> length ks \<and> (\<forall>i<ix. 0 < page_cmp t key h ks i) \<and>
       (\<forall>i. ix \<le> i \<and> i < length ks \<longrightarrow> page_cmp t key h ks i < 0)"
    using page_search [OF Suc.prems(1) K(1,4) T(5) Suc.prems(3)] by blast
  obtain index where index_def: "index = (if found then ix else if ix = 0 then 0 else ix - 1)" by blast
  have C: "index < length ks" "between t (low_bound ks lo index) (high_bound ks hi index) key"
    using child_range [OF Suc.prems(1) K(4) T(5,8) Suc.prems(3,5) S(2) index_def] by auto
  let ?t = "t\<lparr>bt_stack := \<lparr>ep_pgno = q, ep_index = index\<rparr> # bt_stack t\<rparr>"
  have ag: "agrees t ?t UNIV" by (simp add: agrees_def)
  have tr: "tree_at n okk ?t (low_bound ks lo index) (high_bound ks hi index) (ts ! index)"
    using tree_at_agrees [OF T(7) [rule_format, OF C(1)] agrees_mono [OF ag]] by simp
  obtain p rs i exact path lo' hi' where IH: "bt_descend ?t key (pno (ts ! index)) =
      Some (Some (\<lparr>ep_pgno = p, ep_index = i\<rparr>, exact),
        ?t\<lparr>bt_stack := path @ bt_stack ?t, bt_cur := \<lparr>ep_pgno = p, ep_index = i\<rparr>\<rparr>)"
    "length path = n" "leaf_in n (low_bound ks lo index) (high_bound ks hi index) (ts ! index) p rs lo' hi'"
    "between ?t lo' hi' key" "place_in rs key i exact"
    using Suc.IH [OF _ _ Suc.prems(3) tr] Suc.prems(1,2,6) C by auto
  have push: "BT_PUSH t (pgno h) index = Some ?t" using Suc.prems(6) K(3) by (simp add: BT_PUSH_def)
  have "bt_descend t key q = bt_descend ?t key (pno (ts ! index))"
    using K(1,2,5) S(1) push C(1) T(2) by (subst bt_descend.simps) (simp add: Let_def index_def [symmetric])
  then show ?case
    using IH T(1,2) C(1)
    by (intro exI [of _ p] exI [of _ rs] exI [of _ i] exI [of _ exact]
        exI [of _ "path @ [\<lparr>ep_pgno = q, ep_index = index\<rparr>]"] exI [of _ lo'] exI [of _ hi']) auto
qed

end

section \<open>The database\<close>

text \<open>The leaves are linked to their neighbours.\<close>

definition leaf_links :: "BTREE \<Rightarrow> u32 list \<Rightarrow> bool" where
  "leaf_links t ps \<longleftrightarrow> (\<forall>i < length ps. \<forall>h. bt_mp t (ps ! i) = Some h \<longrightarrow>
     prevpg h = (if i = 0 then P_INVALID else ps ! (i - 1)) \<and>
     nextpg h = (if Suc i < length ps then ps ! Suc i else P_INVALID))"

text \<open>The last insertion of sorted data was on the last, or on the first, leaf.\<close>

definition order_ok :: "BTREE \<Rightarrow> (u32 \<times> leaf_rec list) list \<Rightarrow> bool" where
  "order_ok t ls \<longleftrightarrow>
     (bt_order t = FORWARD \<longrightarrow> ep_pgno (bt_last t) = fst (last ls)) \<and>
     (bt_order t = BACK \<longrightarrow> 1 < length ls \<and> ep_pgno (bt_last t) = fst (hd ls))"

definition db_ok :: "BTREE \<Rightarrow> nat \<Rightarrow> (u8 list \<Rightarrow> bool) \<Rightarrow> ptree \<Rightarrow> bool" where
  "db_ok t n okk T \<longleftrightarrow> key_order okk (bt_cmp_fn t) \<and> bt_flags t AND B_NODUPS \<noteq> 0 \<and> n \<le> 50 \<and> pno T = P_ROOT \<and>
     tree_at n okk t None None T \<and> distinct (pages T) \<and> P_INVALID \<notin> set (pages T) \<and>
     leaf_links t (map fst (leaves T)) \<and> order_ok t (leaves T) \<and> (0 < n \<longrightarrow> (\<forall>l\<in>set (leaves T). snd l \<noteq> []))"

end
