(* ===== verification/Bt_Store.thy ===== *)
theory Bt_Store
  imports Bt_Tree
begin

text \<open>
  Storing, finding and deleting records in a database whose pages represent a tree, as operations on
  the sorted list of its records, for the keys and data that have room on a page.
\<close>

section \<open>Sorted lists of records\<close>

fun put_list :: "(u8 list \<Rightarrow> u8 list \<Rightarrow> int) \<Rightarrow> u8 list \<Rightarrow> u8 list \<Rightarrow> leaf_rec list \<Rightarrow> leaf_rec list" where
  "put_list cmp k d [] = [(k, d, 0)]"
| "put_list cmp k d (r # rs) =
     (if cmp k (fst r) < 0 then (k, d, 0) # r # rs
      else if cmp k (fst r) = 0 then (k, d, 0) # rs
      else r # put_list cmp k d rs)"

fun del_list :: "(u8 list \<Rightarrow> u8 list \<Rightarrow> int) \<Rightarrow> u8 list \<Rightarrow> leaf_rec list \<Rightarrow> leaf_rec list" where
  "del_list cmp k [] = []"
| "del_list cmp k (r # rs) = (if cmp k (fst r) = 0 then rs else r # del_list cmp k rs)"

definition lookup_list :: "(u8 list \<Rightarrow> u8 list \<Rightarrow> int) \<Rightarrow> u8 list \<Rightarrow> leaf_rec list \<Rightarrow> u8 list option" where
  "lookup_list cmp k rs = map_option (fst \<circ> snd) (find (\<lambda>r. cmp k (fst r) = 0) rs)"

lemma put_list_skip: "\<forall>r\<in>set A. 0 < cmp k (fst r) \<Longrightarrow> put_list cmp k d (A @ rs) = A @ put_list cmp k d rs"
  by (induction A) auto

lemma put_list_end: "\<forall>r\<in>set B. cmp k (fst r) < 0 \<Longrightarrow> put_list cmp k d (rs @ B) = put_list cmp k d rs @ B"
  by (induction rs) (cases B; auto)+

lemma del_list_skip: "\<forall>r\<in>set A. 0 < cmp k (fst r) \<Longrightarrow> del_list cmp k (A @ rs) = A @ del_list cmp k rs"
  by (induction A) auto

lemma del_list_end: "\<forall>r\<in>set B. cmp k (fst r) < 0 \<Longrightarrow> del_list cmp k (rs @ B) = del_list cmp k rs @ B"
proof (induction rs)
  case Nil
  then show ?case by (induction B) auto
qed auto

lemma lookup_list_append:
  "lookup_list cmp k (A @ B) = (case lookup_list cmp k A of None \<Rightarrow> lookup_list cmp k B | Some d \<Rightarrow> Some d)"
  by (induction A) (auto simp: lookup_list_def)

lemma lookup_list_None: "lookup_list cmp k rs = None \<longleftrightarrow> (\<forall>r\<in>set rs. cmp k (fst r) \<noteq> 0)"
  by (auto simp: lookup_list_def find_None_iff)

context key_order
begin

abbreviation sorted_recs :: "leaf_rec list \<Rightarrow> bool" where
  "sorted_recs rs \<equiv> sorted_wrt (\<lambda>a b. cmp a b < 0) (map fst rs) \<and> (\<forall>r\<in>set rs. okk (fst r))"

lemma place_before:
  assumes "sorted_recs rs" "okk key" "place_in rs key i exact" "j < i"
  shows "0 < cmp key (fst (rs ! j))"
proof (cases exact)
  case True
  then have i: "i < length rs" "cmp key (fst (rs ! i)) = 0" using assms(3) by (simp_all add: place_in_def)
  have ok: "okk (fst (rs ! i))" "okk (fst (rs ! j))" using assms(1,4) i(1) by simp_all
  have "cmp (fst (rs ! j)) (fst (rs ! i)) < 0"
    using sorted_wrt_nth_less [of "\<lambda>a b. cmp a b < 0" "map fst rs" j i] assms(1,4) i(1) by simp
  moreover have "cmp (fst (rs ! i)) key \<le> 0" using i(2) le_sym [OF ok(1) assms(2)] by simp
  ultimately show ?thesis using less_le_trans [OF ok(2,1) assms(2)] cmp_sym [OF ok(2) assms(2)] by simp
qed (use assms in \<open>simp add: place_in_def\<close>)

lemma place_after:
  assumes "sorted_recs rs" "okk key" "place_in rs key i True" "i < j" "j < length rs"
  shows "cmp key (fst (rs ! j)) < 0"
proof -
  have i: "i < length rs" "cmp key (fst (rs ! i)) = 0" using assms(3) by (simp_all add: place_in_def)
  have ok: "okk (fst (rs ! i))" "okk (fst (rs ! j))" using assms(1,5) i(1) by simp_all
  have "cmp (fst (rs ! i)) (fst (rs ! j)) < 0"
    using sorted_wrt_nth_less [of "\<lambda>a b. cmp a b < 0" "map fst rs" i j] assms(1,4,5) by simp
  then show ?thesis using le_less_trans [OF assms(2) ok] i(2) by simp
qed

lemma eq_sym: "okk a \<Longrightarrow> okk b \<Longrightarrow> cmp a b = 0 \<Longrightarrow> cmp b a = 0"
  using cmp_sym [of a b] cmp_sym [of b a] by linarith

lemma eq_trans: "okk a \<Longrightarrow> okk b \<Longrightarrow> okk c \<Longrightarrow> cmp a b = 0 \<Longrightarrow> cmp b c = 0 \<Longrightarrow> cmp a c = 0"
  using cmp_trans [of a b c] cmp_trans [of c b a] eq_sym [of a b] eq_sym [of b c] le_sym [of c a]
  by fastforce

lemma in_set_takeE: "x \<in> set (take i xs) \<Longrightarrow> (\<And>j. j < i \<Longrightarrow> j < length xs \<Longrightarrow> x = xs ! j \<Longrightarrow> P) \<Longrightarrow> P"
  by (auto simp: in_set_conv_nth)

lemma in_set_dropE: "x \<in> set (drop i xs) \<Longrightarrow> (\<And>j. i \<le> j \<Longrightarrow> j < length xs \<Longrightarrow> x = xs ! j \<Longrightarrow> P) \<Longrightarrow> P"
  by (metis in_set_conv_nth le_add1 length_drop less_diff_conv add.commute nth_drop nat_le_linear drop_all length_pos_if_in_set not_less_zero list.size(3))

lemma put_list_place:
  assumes "sorted_recs rs" "okk key" "place_in rs key i exact"
  shows "put_list cmp key d rs =
    take i rs @ (key, d, 0) # drop (if exact then Suc i else i) rs"
proof -
  have "\<forall>r\<in>set (take i rs). 0 < cmp key (fst r)"
    using place_before [OF assms] by (auto elim: in_set_takeE)
  then have 1: "put_list cmp key d rs = take i rs @ put_list cmp key d (drop i rs)"
    using put_list_skip [of "take i rs" cmp key d "drop i rs"] by simp
  show ?thesis
  proof (cases exact)
    case True
    then have "drop i rs = rs ! i # drop (Suc i) rs" "cmp key (fst (rs ! i)) = 0"
      using assms(3) by (simp_all add: place_in_def Cons_nth_drop_Suc)
    then show ?thesis using 1 True by simp
  next
    case False
    then have "\<forall>r\<in>set (drop i rs). cmp key (fst r) < 0"
      using assms(3) by (auto simp: place_in_def elim: in_set_dropE)
    then have "put_list cmp key d (drop i rs) = (key, d, 0) # drop i rs"
      using put_list_end [of "drop i rs" cmp key d "[]"] by simp
    then show ?thesis using 1 False by simp
  qed
qed

lemma del_list_place:
  assumes "sorted_recs rs" "okk key" "place_in rs key i exact"
  shows "del_list cmp key rs = (if exact then take i rs @ drop (Suc i) rs else rs)"
proof -
  have "\<forall>r\<in>set (take i rs). 0 < cmp key (fst r)"
    using place_before [OF assms] by (auto elim: in_set_takeE)
  then have 1: "del_list cmp key rs = take i rs @ del_list cmp key (drop i rs)"
    using del_list_skip [of "take i rs" cmp key "drop i rs"] by simp
  show ?thesis
  proof (cases exact)
    case True
    then have "drop i rs = rs ! i # drop (Suc i) rs" "cmp key (fst (rs ! i)) = 0"
      using assms(3) by (simp_all add: place_in_def Cons_nth_drop_Suc)
    then show ?thesis using 1 True by simp
  next
    case False
    then have "\<forall>r\<in>set (drop i rs). cmp key (fst r) < 0"
      using assms(3) by (auto simp: place_in_def elim: in_set_dropE)
    then have "del_list cmp key (drop i rs) = drop i rs"
      using del_list_end [of "drop i rs" cmp key "[]"] by simp
    then show ?thesis using 1 False by simp
  qed
qed

lemma lookup_list_place:
  assumes "sorted_recs rs" "okk key" "place_in rs key i exact"
  shows "lookup_list cmp key rs = (if exact then Some (fst (snd (rs ! i))) else None)"
proof (cases exact)
  case True
  then have i: "i < length rs" "cmp key (fst (rs ! i)) = 0" using assms(3) by (simp_all add: place_in_def)
  have "lookup_list cmp key (take i rs) = None"
    using place_before [OF assms] by (force simp: lookup_list_None elim: in_set_takeE)
  moreover have "rs = take i rs @ rs ! i # drop (Suc i) rs" using i(1) by (rule id_take_nth_drop)
  ultimately have "lookup_list cmp key rs = lookup_list cmp key (rs ! i # drop (Suc i) rs)"
    by (metis lookup_list_append option.simps(4))
  then show ?thesis using i True by (simp add: lookup_list_def)
next
  case False
  have "cmp key (fst (rs ! j)) \<noteq> 0" if "j < length rs" for j
    using assms(3) False that by (cases "j < i") (auto simp: place_in_def not_less)
  then have "lookup_list cmp key rs = None" unfolding lookup_list_None by (metis in_set_conv_nth)
  then show ?thesis using False by simp
qed

text \<open>The new list is sorted, in the same range, and has the key with its data.\<close>

lemma sorted_put:
  assumes "sorted_recs rs" "okk key"
  shows "sorted_recs (put_list cmp key d rs)"
  using assms
proof (induction rs)
  case (Cons r rs)
  have set: "set (put_list cmp key d xs) \<subseteq> insert (key, d, 0) (set xs)" for xs by (induction xs) auto
  have ok: "okk (fst r)" "\<forall>x\<in>set rs. okk (fst x)" "\<forall>x\<in>set rs. cmp (fst r) (fst x) < 0" using Cons.prems by auto
  consider "cmp key (fst r) < 0" | "cmp key (fst r) = 0" | "0 < cmp key (fst r)" by linarith
  then show ?case
  proof cases
    case 1
    then have "\<forall>x\<in>set rs. cmp key (fst x) < 0"
      using ok less_le_trans [OF Cons.prems(2)] by (meson less_imp_le)
    then show ?thesis using 1 Cons.prems by auto
  next
    case 2
    then have "\<forall>x\<in>set rs. cmp key (fst x) < 0"
      using ok le_less_trans [OF Cons.prems(2)] by (metis order_refl)
    then show ?thesis using 2 Cons.prems by auto
  next
    case 3
    then have "cmp (fst r) key < 0" using cmp_sym [OF ok(1) Cons.prems(2)] by simp
    then have "\<forall>x\<in>set (put_list cmp key d rs). cmp (fst r) (fst x) < 0" using ok(3) set [of rs] by fastforce
    then show ?thesis using 3 Cons by auto
  qed
qed simp

lemma lookup_put:
  assumes "sorted_recs rs" "okk key" "okk k"
  shows "lookup_list cmp k (put_list cmp key d rs) = (if cmp k key = 0 then Some d else lookup_list cmp k rs)"
  using assms
proof (induction rs)
  case Nil
  then show ?case by (simp add: lookup_list_def)
next
  case (Cons r rs)
  have r: "okk (fst r)" using Cons.prems(1) by simp
  have "cmp k (fst r) = 0 \<longleftrightarrow> cmp k key = 0" if "cmp key (fst r) = 0"
    using that eq_trans [OF assms(3,2) r] eq_trans [OF assms(3) r assms(2)] eq_sym [OF assms(2) r] by blast
  moreover have "\<not> (cmp k (fst r) = 0 \<and> cmp k key = 0)" if "cmp key (fst r) \<noteq> 0"
    using that eq_trans [OF assms(2,3) r] eq_sym [OF assms(3,2)] by blast
  ultimately show ?case
    using Cons.IH Cons.prems by (auto simp: lookup_list_def)
qed

lemma lookup_del:
  assumes "sorted_recs rs" "okk key" "okk k"
  shows "lookup_list cmp k (del_list cmp key rs) = (if cmp k key = 0 then None else lookup_list cmp k rs)"
  using assms
proof (induction rs)
  case Nil
  then show ?case by (simp add: lookup_list_def)
next
  case (Cons r rs)
  have r: "okk (fst r)" "\<forall>x\<in>set rs. okk (fst x) \<and> cmp (fst r) (fst x) < 0" using Cons.prems(1) by auto
  have eq: "cmp k (fst r) = 0 \<longleftrightarrow> cmp k key = 0" if "cmp key (fst r) = 0"
    using that eq_trans [OF assms(3,2) r(1)] eq_trans [OF assms(3) r(1) assms(2)] eq_sym [OF assms(2) r(1)] by blast
  have ne: "\<not> (cmp k (fst r) = 0 \<and> cmp k key = 0)" if "cmp key (fst r) \<noteq> 0"
    using that eq_trans [OF assms(2,3) r(1)] eq_sym [OF assms(3,2)] by blast
  have "lookup_list cmp k rs = None" if "cmp k (fst r) = 0"
    unfolding lookup_list_None using le_less_trans [OF assms(3) r(1)] r(2) that by fastforce
  then show ?case
    using Cons.IH Cons.prems eq ne by (auto simp: lookup_list_def)
qed

end

section \<open>Operations on a leaf\<close>

lemma shift_low_length: "shift_low h i n v nb = Some h' \<Longrightarrow> length (body h') = length (body h)"
  by (induction n arbitrary: h i) (fastforce simp: bind_eq_Some_conv set_linp_def split: if_splits dest: pg_wrn_length)+

lemma shift_down_length: "shift_down h i n v nb = Some h' \<Longrightarrow> length (body h') = length (body h)"
  by (induction n arbitrary: h i) (fastforce simp: bind_eq_Some_conv set_linp_def split: if_splits dest: pg_wrn_length)+

lemma pg_pack_length: "pg_pack h index n = Some h' \<Longrightarrow> length (body h') = length (body h)"
  by (auto simp: pg_pack_def pg_memmove_def Let_def bind_eq_Some_conv split: if_splits
      dest!: shift_low_length shift_down_length pg_wrn_length)

text \<open>What an operation on the page \<open>p\<close> leaves as it was.\<close>

definition keeps :: "BTREE \<Rightarrow> BTREE \<Rightarrow> bool" where
  "keeps t t' \<longleftrightarrow> bt_cmp_fn t' = bt_cmp_fn t \<and> bt_psize t' = bt_psize t \<and> bt_ovflsize t' = bt_ovflsize t \<and>
     bt_grow t' = bt_grow t \<and> bt_panic t' = bt_panic t \<and> bt_spare t' = bt_spare t \<and> bt_malloc t' = bt_malloc t \<and>
     bt_pfx_fn t' = bt_pfx_fn t \<and>
     bt_flags t' AND NOT B_MODIFIED = bt_flags t AND NOT B_MODIFIED"

lemma db_keeps_trans: "keeps a b \<Longrightarrow> keeps b c \<Longrightarrow> keeps a c"
  by (simp add: keeps_def)

lemma db_keeps_refl [simp]: "keeps t t"
  by (simp add: keeps_def)

lemma keeps_flag:
  assumes "keeps t t'" "m AND B_MODIFIED = 0"
  shows "bt_flags t' AND m = bt_flags t AND m"
proof -
  have "m = m AND (B_MODIFIED OR NOT B_MODIFIED)" by simp
  also have "\<dots> = NOT B_MODIFIED AND m" unfolding bit.conj_disj_distrib assms(2) by (simp add: and.commute)
  finally have m: "m = NOT B_MODIFIED AND m" .
  have "x AND m = (x AND NOT B_MODIFIED) AND m" for x :: u32 by (subst m) (simp only: and.assoc)
  then show ?thesis using assms(1) unfolding keeps_def by metis
qed

definition one_page :: "u32 \<Rightarrow> PAGE \<Rightarrow> BTREE \<Rightarrow> PAGE \<Rightarrow> BTREE \<Rightarrow> bool" where
  "one_page p h t h' t' \<longleftrightarrow> bt_mp t' = (bt_mp t)(p \<mapsto> h') \<and> keeps t t' \<and> links h' = links h \<and>
     length (body h') = length (body h) \<and> bt_free t' = bt_free t \<and> bt_npages t' = bt_npages t"

text \<open>The same pages with the same links.\<close>

definition same_shape :: "BTREE \<Rightarrow> BTREE \<Rightarrow> bool" where
  "same_shape t t' \<longleftrightarrow> bt_free t' = bt_free t \<and> bt_npages t' = bt_npages t \<and>
     (\<forall>q. map_option (\<lambda>h. (links h, length (body h))) (bt_mp t' q) =
          map_option (\<lambda>h. (links h, length (body h))) (bt_mp t q))"

lemma same_shape_trans: "same_shape a b \<Longrightarrow> same_shape b c \<Longrightarrow> same_shape a c"
  by (simp add: same_shape_def)

lemma same_shape_refl [simp]: "same_shape t t"
  by (simp add: same_shape_def)

lemma one_page_shape: "one_page p h t h' t' \<Longrightarrow> bt_mp t p = Some h \<Longrightarrow> same_shape t t'"
  by (simp add: one_page_def same_shape_def)

lemma leaf_atE:
  assumes "leaf_at t p rs"
  obtains h where "bt_mp t p = Some h" "leaf_page h rs" "flags h AND P_TYPE = P_BLEAF" "pgno h = p"
    "BTDATAOFF + length (body h) = bt_psize t" "\<forall>r\<in>set rs. snd (snd r) = 0"
  using assms by (auto simp: leaf_at_def)

lemma leaf_at_set:
  assumes "one_page p h t h' t'" "pgno h = p" "flags h AND P_TYPE = P_BLEAF" "leaf_page h' rs'"
    and "BTDATAOFF + length (body h') = bt_psize t" "\<forall>r\<in>set rs'. snd (snd r) = 0"
  shows "leaf_at t' p rs'"
  using assms by (auto simp: one_page_def leaf_at_def links_def keeps_def)

lemma put_at_leaf:
  assumes "leaf_at t p rs" "i \<le> length rs" "bt_mp t p = Some h" "\<not> pg_full h (NBLEAFDBT (length key) (length data))"
  shows "\<exists>h' t1. put_at t key data 0 p i = Some (RET_SUCCESS, (note_order t1 h' i)\<lparr>bt_flags := bt_flags t OR B_MODIFIED\<rparr>) \<and>
    one_page p h t h' t1 \<and> bt_order t1 = bt_order t \<and> bt_last t1 = bt_last t \<and> bt_flags t1 = bt_flags t \<and>
    leaf_at t1 p (take i rs @ (key, data, 0) # drop i rs) \<and> NEXTINDEX h' = Suc (length rs)"
proof -
  let ?rs' = "take i rs @ (key, data, 0) # drop i rs"
  have h: "leaf_page h rs" "flags h AND P_TYPE = P_BLEAF" "pgno h = p" "BTDATAOFF + length (body h) = bt_psize t"
    "\<forall>r\<in>set rs. snd (snd r) = 0"
    using assms(1,3) by (auto simp: leaf_at_def)
  obtain h' where h': "leaf_insert h i key data 0 = Some h'" "leaf_page h' ?rs'" "links h' = links h"
    using leaf_insert_rec [OF h(1) assms(2,4)] by blast
  let ?c = "bt_cursor t"
  let ?t0 = "if on_page ?c h' \<and> i \<le> ep_index (c_pg ?c)
             then t\<lparr>bt_cursor := ?c\<lparr>c_pg := (c_pg ?c)\<lparr>ep_index := ep_index (c_pg ?c) + 1\<rparr>\<rparr>\<rparr> else t"
  let ?t1 = "set_page p h' ?t0"
  have one: "one_page p h t h' ?t1" using h'(3) leaf_insert_length [OF h'(1)] by (auto simp: one_page_def keeps_def set_page_def)
  have "leaf_at ?t1 p ?rs'"
    using h leaf_insert_length [OF h'(1)] h'(2)
    by (intro leaf_at_set [OF one]) (auto dest: in_set_takeD in_set_dropD)
  moreover have "put_at t key data 0 p i =
      Some (RET_SUCCESS, (note_order ?t1 h' i)\<lparr>bt_flags := bt_flags t OR B_MODIFIED\<rparr>)"
    using assms(3,4) h'(1) by (simp add: put_at_def Let_def note_order_def)
  moreover have "NEXTINDEX h' = Suc (length rs)" using leaf_count [OF h'(2)] assms(2) by simp
  ultimately show ?thesis
    using one by (intro exI [of _ h'] exI [of _ ?t1]) simp
qed

lemma curdel_nodups:
  assumes "leaf_at t p rs" "i < length rs" "bt_flags t AND B_NODUPS \<noteq> 0" "\<forall>n. bt_grow t n"
  shows "\<exists>c. bt_curdel t key p i = Some (RET_SUCCESS, t\<lparr>bt_cursor := c\<rparr>)"
proof -
  obtain h where h: "bt_mp t p = Some h" "leaf_page h rs" "\<forall>r\<in>set rs. snd (snd r) = 0"
    using assms(1) by (rule leaf_atE)
  obtain k d fl where r: "rs ! i = (k, d, fl)" by (cases "rs ! i")
  have fl: "fl = 0" using h(3) nth_mem [OF assms(2)] r by fastforce
  show ?thesis
    using h(1) leaf_get [OF h(2) assms(2) r] fl assms(3,4)
    by (auto simp: bt_curdel_def copy_key_def Let_def)
qed

lemma dleaf_leaf:
  assumes "leaf_at t p rs" "i < length rs" "bt_mp t p = Some h" "bt_flags t AND B_NODUPS \<noteq> 0" "\<forall>n. bt_grow t n"
  shows "\<exists>h' t'. bt_dleaf t key p i = Some (RET_SUCCESS, t') \<and> one_page p h t h' t' \<and>
    bt_order t' = bt_order t \<and> bt_last t' = bt_last t \<and> bt_flags t' = bt_flags t \<and> bt_stack t' = bt_stack t \<and>
    leaf_at t' p (take i rs @ drop (Suc i) rs) \<and> NEXTINDEX h' = length rs - 1 \<and>
    (\<forall>n. \<not> pg_full h n \<longrightarrow> \<not> pg_full h' n)"
proof -
  let ?rs' = "take i rs @ drop (Suc i) rs"
  have h: "leaf_page h rs" "flags h AND P_TYPE = P_BLEAF" "pgno h = p" "BTDATAOFF + length (body h) = bt_psize t"
    "\<forall>r\<in>set rs. snd (snd r) = 0"
    using assms(1,3) by (auto simp: leaf_at_def)
  obtain k d fl where r: "rs ! i = (k, d, fl)" by (cases "rs ! i")
  have fl: "fl = 0" using h(5) nth_mem [OF assms(2)] r by fastforce
  note get = leaf_get [OF h(1) assms(2) r]
  obtain h' where h': "pg_pack h i (NBLEAFDBT (length k) (length d)) = Some h'" "leaf_page h' ?rs'" "links h' = links h"
    using leaf_pack_rec [OF h(1) assms(2) r] by blast
  obtain c0 where c0: "(if on_page (bt_cursor t) h \<and> ep_index (c_pg (bt_cursor t)) = i
      then bt_curdel t key p i else Some (RET_SUCCESS, t)) = Some (RET_SUCCESS, t\<lparr>bt_cursor := c0\<rparr>)"
    using curdel_nodups [OF assms(1,2,4,5), of key] by (cases "on_page (bt_cursor t) h \<and> ep_index (c_pg (bt_cursor t)) = i") (auto intro: that [of "bt_cursor t"])
  let ?t0 = "t\<lparr>bt_cursor := c0\<rparr>"
  let ?t1 = "set_page p h' ?t0"
  let ?t' = "if on_page c0 h' \<and> i < ep_index (c_pg c0)
             then ?t1\<lparr>bt_cursor := c0\<lparr>c_pg := (c_pg c0)\<lparr>ep_index := ep_index (c_pg c0) - 1\<rparr>\<rparr>\<rparr> else ?t1"
  have one: "one_page p h t h' ?t'" using h'(3) pg_pack_length [OF h'(1)] by (auto simp: one_page_def keeps_def set_page_def)
  have len: "length (body h') = length (body h)" by (rule pg_pack_length [OF h'(1)])
  have "leaf_at ?t' p ?rs'"
    using h len h'(2) by (intro leaf_at_set [OF one]) (auto dest: in_set_takeD in_set_dropD)
  moreover have "bt_dleaf t key p i = Some (RET_SUCCESS, ?t')"
    using assms(3) c0 get fl h'(1) by (simp add: bt_dleaf_def Let_def)
  moreover have "NEXTINDEX h' = length rs - 1" using leaf_count [OF h'(2)] assms(2) by simp
  moreover have "\<not> pg_full h' n" if "\<not> pg_full h n" for n
  proof -
    have "(\<Sum>it\<leftarrow>map leaf_item rs. isize it) + 2 * length rs + n + 2 \<le> length (body h)"
      using page_items_full(1) [of h "map leaf_item rs" n] h(1) that by (simp add: leaf_page_def)
    moreover have "rs = take i rs @ rs ! i # drop (Suc i) rs" using assms(2) by (rule id_take_nth_drop)
    then have "(\<Sum>it\<leftarrow>map leaf_item rs. isize it) =
        (\<Sum>it\<leftarrow>map leaf_item (take i rs @ rs ! i # drop (Suc i) rs). isize it)" by simp
    ultimately show ?thesis
      using page_items_full(1) [of h' "map leaf_item ?rs'" n] h'(2) len assms(2)
      by (simp add: leaf_page_def)
  qed
  ultimately show ?thesis
    using one by (intro exI [of _ h'] exI [of _ ?t']) (simp add: set_page_def)
qed

section \<open>The place of a key\<close>

lemma leaf_in_bounds:
  "leaf_in n lo hi T p rs lo' hi' \<Longrightarrow> tree_at n okk t lo hi T \<Longrightarrow>
   \<forall>l. lo = Some l \<longrightarrow> okk l \<Longrightarrow> \<forall>u. hi = Some u \<longrightarrow> okk u \<Longrightarrow>
   (\<forall>l. lo' = Some l \<longrightarrow> okk l) \<and> (\<forall>u. hi' = Some u \<longrightarrow> okk u)"
proof (induction n arbitrary: lo hi T)
  case (Suc n)
  obtain q ks ts i where L: "T = PNode q ks ts" "i < length ks"
    "leaf_in n (low_bound ks lo i) (high_bound ks hi i) (ts ! i) p rs lo' hi'"
    using Suc.prems(1) by auto
  then have T: "i < length ks" "\<forall>k\<in>set ks. okk k" "leaf_in n (low_bound ks lo i) (high_bound ks hi i) (ts ! i) p rs lo' hi'"
    "tree_at n okk t (low_bound ks lo i) (high_bound ks hi i) (ts ! i)"
    using Suc.prems(2) by simp_all
  have "\<forall>l. low_bound ks lo i = Some l \<longrightarrow> okk l" "\<forall>u. high_bound ks hi i = Some u \<longrightarrow> okk u"
    using T(1,2) Suc.prems(3,4) by (simp_all add: low_bound_def high_bound_def)
  then show ?case by (rule Suc.IH [OF T(3,4)])
qed simp

lemma db_okD:
  assumes "db_ok t n okk T"
  shows "key_order okk (bt_cmp_fn t)" "bt_flags t AND B_NODUPS \<noteq> 0" "n \<le> 50" "pno T = P_ROOT"
    "tree_at n okk t None None T" "distinct (pages T)" "P_INVALID \<notin> set (pages T)"
    "leaf_links t (map fst (leaves T))" "order_ok t (leaves T)" "0 < n \<Longrightarrow> l \<in> set (leaves T) \<Longrightarrow> snd l \<noteq> []"
  using assms by (auto simp: db_ok_def)

text \<open>A place that has been found for a key, in a state whose pages are the same.\<close>

definition found_place ::
  "BTREE \<Rightarrow> nat \<Rightarrow> ptree \<Rightarrow> u8 list \<Rightarrow> u32 \<Rightarrow> leaf_rec list \<Rightarrow> nat \<Rightarrow> bool \<Rightarrow> u8 list option \<Rightarrow> u8 list option \<Rightarrow> bool" where
  "found_place t n T key p rs i exact lo' hi' \<longleftrightarrow> leaf_in n None None T p rs lo' hi' \<and> between t lo' hi' key \<and>
     key_order.place_in (bt_cmp_fn t) rs key i exact"

definition same_pages :: "BTREE \<Rightarrow> BTREE \<Rightarrow> bool" where
  "same_pages t t' \<longleftrightarrow> bt_mp t' = bt_mp t \<and> keeps t t' \<and> bt_flags t' = bt_flags t \<and>
     bt_free t' = bt_free t \<and> bt_npages t' = bt_npages t"

lemma same_pages_agrees: "same_pages t t' \<Longrightarrow> agrees t t' P"
  by (simp add: same_pages_def agrees_def keeps_def)

context key_order
begin

lemma search_place:
  assumes "db_ok t n okk T" "bt_cmp_fn t = cmp" "okk key"
  shows "\<exists>p rs i exact lo' hi' t'. bt_search t key = Some (Some (\<lparr>ep_pgno = p, ep_index = i\<rparr>, exact), t') \<and>
    found_place t n T key p rs i exact lo' hi' \<and> same_pages t t' \<and> bt_order t' = bt_order t \<and> bt_last t' = bt_last t \<and>
    length (bt_stack t') = n"
proof -
  note D = db_okD [OF assms(1)]
  have "agrees t (BT_CLR t) UNIV" by (simp add: agrees_def BT_CLR_def)
  then have "tree_at n okk (BT_CLR t) None None T" using tree_at_agrees [OF D(5)] agrees_mono by blast
  moreover have "bt_cmp_fn (BT_CLR t) = cmp" "bt_flags (BT_CLR t) AND B_NODUPS \<noteq> 0"
    "between (BT_CLR t) None None key" "length (bt_stack (BT_CLR t)) + n \<le> 50"
    using D(2,3) assms(2) by (simp_all add: BT_CLR_def between_def)
  ultimately obtain p rs i exact path lo' hi' where
    S: "bt_descend (BT_CLR t) key (pno T) = Some (Some (\<lparr>ep_pgno = p, ep_index = i\<rparr>, exact),
      (BT_CLR t)\<lparr>bt_stack := path @ bt_stack (BT_CLR t), bt_cur := \<lparr>ep_pgno = p, ep_index = i\<rparr>\<rparr>)"
    "leaf_in n None None T p rs lo' hi'" "between (BT_CLR t) lo' hi' key" "place_in rs key i exact" "length path = n"
    using descend_tree [of "BT_CLR t" key n None None T] assms(3) by blast
  have "between t lo' hi' key" using S(3) by (simp add: between_def BT_CLR_def)
  then show ?thesis
    using S D(4) assms(2)
    by (intro exI [of _ p] exI [of _ rs] exI [of _ i] exI [of _ exact] exI [of _ lo'] exI [of _ hi']
        exI [of _ "(BT_CLR t)\<lparr>bt_stack := path @ bt_stack (BT_CLR t), bt_cur := \<lparr>ep_pgno = p, ep_index = i\<rparr>\<rparr>"])
      (simp add: found_place_def same_pages_def keeps_def bt_search_def BT_CLR_def)
qed

lemma leaf_cmp:
  assumes "bt_cmp_fn t = cmp" "leaf_at t p rs" "keys_in okk t lo hi rs" "i < length rs"
  shows "bt_cmp t key p i = Some (cmp key (fst (rs ! i)))" "length rs < 65536"
proof -
  obtain h where h: "bt_mp t p = Some h" "flags h AND P_BLEAF \<noteq> 0" "page_keys t h (map fst rs)"
    using leaf_at_keys [OF assms(2)] assms(3) by (auto simp: keys_in_def leaf_keys_def)
  show "bt_cmp t key p i = Some (cmp key (fst (rs ! i)))"
    using bt_cmp_item [OF h(1,3), of i key] h(2) assms(1,4) by simp
  show "length rs < 65536" using h(3) by (simp add: page_keys_def)
qed

lemma between_up:
  assumes "bt_cmp_fn t = cmp" "between t lo hi k" "cmp k key \<le> 0" "okk k" "okk key" "\<forall>l. lo = Some l \<longrightarrow> okk l"
  shows "between t lo None key"
proof (cases lo)
  case (Some l)
  then have "cmp l k \<le> 0" "okk l" using assms(1,2,6) by (simp_all add: between_def)
  then show ?thesis using Some assms(1) cmp_trans [of l k key] assms(3-5) by (simp add: between_def)
qed (simp add: between_def)

lemma between_down:
  assumes "bt_cmp_fn t = cmp" "between t lo hi k" "cmp key k \<le> 0" "okk k" "okk key" "\<forall>u. hi = Some u \<longrightarrow> okk u"
  shows "between t None hi key"
proof (cases hi)
  case (Some u)
  then have "cmp k u < 0" "okk u" using assms(1,2,6) by (simp_all add: between_def)
  then show ?thesis using Some assms(1) le_less_trans [of key k u] assms(3-5) by (simp add: between_def)
qed (simp add: between_def)

lemma between_both: "between t lo None key \<Longrightarrow> between t None hi key \<Longrightarrow> between t lo hi key"
  by (simp add: between_def)

lemma fast_place_ok:
  assumes db: "db_ok t n okk T" and cmp: "bt_cmp_fn t = cmp" and key: "okk key"
    and ord: "bt_order t \<noteq> NOT_ORDERED" and h: "bt_mp t (ep_pgno (bt_last t)) = Some h"
  shows "\<exists>r. fast_place t key (ep_pgno (bt_last t)) h (ep_index (bt_last t)) nb = Some r \<and>
    (\<forall>i exact. r = Some (i, exact) \<longrightarrow> (\<exists>rs lo' hi'. found_place t n T key (ep_pgno (bt_last t)) rs i exact lo' hi'))"
proof -
  note D = db_okD [OF db]
  let ?p = "ep_pgno (bt_last t)" and ?i = "ep_index (bt_last t)"
  have here: "found_place t n T key ?p rs ?i True lo' hi'"
    if "leaf_in n None None T ?p rs lo' hi'" "?i < length rs" "cmp key (fst (rs ! ?i)) = 0" for rs lo' hi'
  proof -
    have B: "\<forall>l. lo' = Some l \<longrightarrow> okk l" "\<forall>u. hi' = Some u \<longrightarrow> okk u"
      using leaf_in_bounds [OF that(1) D(5)] by blast+
    have k: "okk (fst (rs ! ?i))" "between t lo' hi' (fst (rs ! ?i))"
      using leaf_in_at [OF that(1) D(5)] that(2) by (auto simp: keys_in_def)
    have "between t lo' hi' key"
      using between_both [OF between_up [OF cmp k(2) _ k(1) key B(1)] between_down [OF cmp k(2) _ k(1) key B(2)]]
        that(3) le_sym [OF k(1) key] by simp
    then show ?thesis using that by (simp add: found_place_def place_in_def cmp)
  qed
  show ?thesis
  proof (cases "bt_order t = FORWARD")
    case True
    obtain rs where rs_def: "rs = snd (last (leaves T))" by blast
    obtain lo' where L: "leaf_in n None None T ?p rs lo' None"
      using last_leaf [OF D(5)] D(9) True by (auto simp: order_ok_def rs_def)
    note at = leaf_in_at [OF L D(5)]
    have B: "\<forall>l. lo' = Some l \<longrightarrow> okk l" using leaf_in_bounds [OF L D(5)] by blast
    have cnt: "NEXTINDEX h = length rs" using at h by (auto simp: leaf_at_def leaf_count)
    show ?thesis
    proof (cases "pg_full h nb \<or> nextpg h \<noteq> P_INVALID \<or> Suc ?i \<noteq> length rs")
      case False
      then have i: "Suc ?i = length rs" by simp
      then have il: "?i < length rs" by simp
      note c = leaf_cmp [OF cmp conjunct1 [OF at] conjunct2 [OF at] il]
      have k: "okk (fst (rs ! ?i))" "between t lo' None (fst (rs ! ?i))" using at il by (auto simp: keys_in_def)
      have "found_place t n T key ?p rs (Suc ?i) False lo' None" if pos: "0 < cmp key (fst (rs ! ?i))"
      proof -
        have low: "cmp (fst (rs ! ?i)) key < 0" using pos cmp_sym [OF k(1) key] by simp
        have "0 < cmp key (fst (rs ! j))" if "j < Suc ?i" for j
        proof -
          have j: "okk (fst (rs ! j))" "j < length rs" using at that i by (auto simp: keys_in_def)
          have "cmp (fst (rs ! j)) (fst (rs ! ?i)) < 0 \<or> j = ?i"
            using at that i sorted_wrt_nth_less [of "below t" "map fst rs" j ?i] cmp by (auto simp: keys_in_def)
          then have "cmp (fst (rs ! j)) key < 0"
            using low less_le_trans [OF j(1) k(1) key] by auto
          then show ?thesis using cmp_sym [OF j(1) key] by simp
        qed
        moreover have "between t lo' None key"
          using between_up [OF cmp k(2) less_imp_le [OF low] k(1) key] B by blast
        moreover have "place_in rs key (Suc ?i) False" using calculation(1) i by (simp add: place_in_def)
        ultimately show ?thesis using L by (simp add: found_place_def cmp)
      qed
      note above = this
      have wrap: "Suc ?i mod 65536 = Suc ?i" using c(2) i by simp
      have step: "fast_place t key ?p h ?i nb = Some (if cmp key (fst (rs ! ?i)) < 0 then None
          else if cmp key (fst (rs ! ?i)) = 0 then Some (?i, True) else Some (Suc ?i, False))"
        using True False c(1) [of key] cnt wrap by (simp add: fast_place_def)
      consider "cmp key (fst (rs ! ?i)) < 0" | "cmp key (fst (rs ! ?i)) = 0" | "0 < cmp key (fst (rs ! ?i))" by linarith
      then show ?thesis
      proof cases
        case 1
        then show ?thesis unfolding step by simp
      next
        case 2
        then show ?thesis unfolding step using here [OF L il 2] by auto
      next
        case 3
        then show ?thesis unfolding step using above [OF 3] by auto
      qed
    qed (use True cnt in \<open>auto simp: fast_place_def\<close>)
  next
    case False
    then have bk: "bt_order t = BACK" using ord by (cases "bt_order t") simp_all
    obtain rs where rs_def: "rs = snd (hd (leaves T))" by blast
    have p: "?p = fst (hd (leaves T))" "1 < length (leaves T)" using D(9) bk by (simp_all add: order_ok_def)
    obtain hi' where L: "leaf_in n None None T ?p rs None hi'"
      using first_leaf [OF D(5)] p(1) by (auto simp: rs_def)
    have "0 < n" using D(5) p(2) by (cases n) auto
    moreover have "hd (leaves T) \<in> set (leaves T)" using p(2) by (cases "leaves T") simp_all
    ultimately have "rs \<noteq> []" using D(10) by (simp add: rs_def)
    then have il: "0 < length rs" by simp
    note at = leaf_in_at [OF L D(5)]
    have B: "\<forall>u. hi' = Some u \<longrightarrow> okk u" using leaf_in_bounds [OF L D(5)] by blast
    note c = leaf_cmp [OF cmp conjunct1 [OF at] conjunct2 [OF at] il]
    have k: "okk (fst (rs ! 0))" "between t None hi' (fst (rs ! 0))" using at il by (auto simp: keys_in_def)
    have "found_place t n T key ?p rs 0 False None hi'" if neg: "cmp key (fst (rs ! 0)) < 0"
    proof -
      have "cmp key (fst (rs ! j)) < 0" if "j < length rs" for j
      proof -
        have j: "okk (fst (rs ! j))" using at that by (auto simp: keys_in_def)
        have "cmp (fst (rs ! 0)) (fst (rs ! j)) < 0 \<or> j = 0"
          using at that il nth_map [OF il, of fst] sorted_wrt_nth_less [of "below t" "map fst rs" 0 j] cmp by (auto simp: keys_in_def)
        then show ?thesis using neg less_le_trans [OF key k(1) j] by auto
      qed
      moreover have "between t None hi' key"
        using between_down [OF cmp k(2) less_imp_le [OF neg] k(1) key] B by blast
      moreover have "place_in rs key 0 False" using calculation(1) by (simp add: place_in_def)
      ultimately show ?thesis using L by (simp add: found_place_def cmp)
    qed
    note under = this
    show ?thesis
    proof (cases "pg_full h nb \<or> prevpg h \<noteq> P_INVALID \<or> ?i \<noteq> 0")
      case False
      then have step: "fast_place t key ?p h ?i nb = Some (if 0 < cmp key (fst (rs ! 0)) then None
          else Some (0, cmp key (fst (rs ! 0)) = 0))"
        using bk c(1) [of key] by (simp add: fast_place_def)
      have i0: "?i = 0" using False by simp
      consider "cmp key (fst (rs ! 0)) < 0" | "cmp key (fst (rs ! 0)) = 0" | "0 < cmp key (fst (rs ! 0))" by linarith
      then show ?thesis
      proof cases
        case 1
        then show ?thesis unfolding step using under [OF 1] by auto
      next
        case 2
        have "found_place t n T key ?p rs 0 True None hi'" using here [OF L] il 2 by (simp add: i0)
        with 2 show ?thesis unfolding step by auto
      next
        case 3
        then show ?thesis unfolding step by simp
      qed
    qed (use bk in \<open>auto simp: fast_place_def\<close>)
  qed
qed

end

end
