(* ===== verification/Bt_Update.thy ===== *)
theory Bt_Update
  imports Bt_Store
begin

text \<open>
  Storing, deleting and looking up records in a database whose pages represent a tree: the operations
  on the pages are the operations on the sorted list of the records.
\<close>

section \<open>Changing one leaf\<close>

lemma leaf_neighbours:
  assumes "leaf_links t (map fst (pre @ (p, rs) # post))" "bt_mp t p = Some h"
  shows "nextpg h = (if post = [] then P_INVALID else fst (hd post))"
    "prevpg h = (if pre = [] then P_INVALID else fst (last pre))"
proof -
  let ?ps = "map fst (pre @ (p, rs) # post)"
  have n: "length pre < length ?ps" "?ps ! length pre = p" by (simp_all add: nth_append)
  have L: "prevpg h = (if length pre = 0 then P_INVALID else ?ps ! (length pre - 1))"
    "nextpg h = (if Suc (length pre) < length ?ps then ?ps ! Suc (length pre) else P_INVALID)"
    using assms(1) [unfolded leaf_links_def, rule_format, OF n(1)] n(2) assms(2) by simp_all
  show "nextpg h = (if post = [] then P_INVALID else fst (hd post))"
    using L(2) by (cases post) (auto simp: nth_append)
  show "prevpg h = (if pre = [] then P_INVALID else fst (last pre))"
    using L(1) by (cases pre rule: rev_cases) (auto simp: nth_append)
qed

lemma leaf_at_link:
  assumes "leaf_links t (map fst (pre @ (p, rs) # post))" "bt_mp t p = Some h"
    and "P_INVALID \<notin> fst ` set (pre @ post)"
  shows "nextpg h = P_INVALID \<longleftrightarrow> post = []" "prevpg h = P_INVALID \<longleftrightarrow> pre = []"
  using leaf_neighbours [OF assms(1,2)] assms(3) by (cases post; cases pre rule: rev_cases; auto)+

lemma links_sel: "links h' = links h \<Longrightarrow> pgno h' = pgno h \<and> prevpg h' = prevpg h \<and> nextpg h' = nextpg h \<and> flags h' = flags h"
  by (simp add: links_def)

lemma sorted_wrt_del: "sorted_wrt P xs \<Longrightarrow> sorted_wrt P (take i xs @ drop (Suc i) xs)"
proof (induction xs arbitrary: i)
  case (Cons x xs)
  then show ?case by (cases i) (auto dest: in_set_takeD in_set_dropD)
qed simp

lemma modified_flag: "(f OR 4) AND - 5 = f AND - 5" for f :: u32
  by (simp add: bit.conj_disj_distrib2)

lemma order_ok_eq: "bt_order t' = bt_order t \<Longrightarrow> bt_last t' = bt_last t \<Longrightarrow> order_ok t' ls = order_ok t ls"
  by (simp add: order_ok_def)

context key_order
begin

lemma change_leaf:
  assumes db: "db_ok t n okk T" and cmp: "bt_cmp_fn t = cmp" and key: "okk key"
    and F: "found_place t n T key p rs i exact lo' hi'" and h: "bt_mp t p = Some h"
    and new: "bt_mp t' = (bt_mp t)(p \<mapsto> h')" "keeps t t'" "links h' = links h" "leaf_at t' p rs'"
    and rs': "sorted_recs rs'" "\<forall>r\<in>set rs'. fst r = key \<or> r \<in> set rs" "0 < n \<longrightarrow> rs' \<noteq> []"
    and ord: "order_ok t' (leaves T)"
  shows "db_ok t' n okk (upd_leaf p rs' T) \<and> (\<exists>a b. recs T = a @ rs @ b \<and> recs (upd_leaf p rs' T) = a @ rs' @ b \<and>
    (\<forall>r\<in>set a. 0 < cmp key (fst r)) \<and> (\<forall>r\<in>set b. cmp key (fst r) < 0))"
proof -
  note D = db_okD [OF db]
  have L: "leaf_in n None None T p rs lo' hi'" "between t lo' hi' key" using F by (simp_all add: found_place_def)
  obtain pre post where P: "leaves T = pre @ (p, rs) # post"
    "\<forall>rs'. leaves (upd_leaf p rs' T) = pre @ (p, rs') # post"
    "\<forall>key. okk key \<and> between t lo' hi' key \<longrightarrow> apart_at pre key post \<and> between t None None key"
    using leaf_in_order [OF L(1) D(6) cmp D(5)] by auto
  have eq: "bt_cmp_fn t' = bt_cmp_fn t" "bt_psize t' = bt_psize t" using new(2) by (simp_all add: keeps_def)
  have K: "keys_in okk t lo' hi' rs" using leaf_in_at [OF L(1) D(5)] by blast
  have "keys_in okk t lo' hi' rs'"
    using rs'(1,2) K L(2) cmp by (auto simp: keys_in_def)
  moreover have ag: "agrees t t' (set (pages T) - {p})" using new(1) eq by (simp add: agrees_def)
  ultimately have tr: "tree_at n okk t' None None (upd_leaf p rs' T)"
    using tree_at_upd [OF L(1) D(5,6)] new(4) by blast
  have ps: "map fst (leaves (upd_leaf p rs' T)) = map fst (leaves T)" using P(1,2) by simp
  have "leaf_links t' (map fst (leaves T))"
    using D(8) h new(1) links_sel [OF new(3)] unfolding leaf_links_def by auto
  moreover have "bt_flags t' AND B_NODUPS \<noteq> 0" using D(2) keeps_flag [OF new(2), of B_NODUPS] by simp
  moreover have "order_ok t' (leaves (upd_leaf p rs' T))"
  proof -
    have "length (leaves (upd_leaf p rs' T)) = length (leaves T)" using ps by (metis length_map)
    moreover have "fst (last (leaves (upd_leaf p rs' T))) = fst (last (leaves T))"
      using P(1,2) by (cases post rule: rev_cases) auto
    moreover have "fst (hd (leaves (upd_leaf p rs' T))) = fst (hd (leaves T))" using P(1,2) by (cases pre) auto
    ultimately show ?thesis using ord by (simp add: order_ok_def)
  qed
  moreover have "\<forall>l\<in>set (leaves (upd_leaf p rs' T)). snd l \<noteq> []" if "0 < n"
    using that D(10) rs'(3) P(1,2) by auto
  ultimately have "db_ok t' n okk (upd_leaf p rs' T)"
    using D(1,3,4,6,7) tr ps eq by (simp add: db_ok_def)
  moreover have "apart_at pre key post" using P(3) key L(2) by blast
  then have "\<forall>r\<in>set (concat (map snd pre)). cmp (fst r) key < 0" "\<forall>r\<in>set (concat (map snd post)). cmp key (fst r) < 0"
    by (auto simp: apart_at_def)
  moreover have "okk (fst r)" if "r \<in> set (concat (map snd pre))" for r
    using tree_recs_range [OF cmp D(5), of r] that P(1) by (auto simp: recs_def)
  ultimately show ?thesis
    using P(1,2) cmp_sym [of _ key] key
    by (intro conjI exI [of _ "concat (map snd pre)"] exI [of _ "concat (map snd post)"]) (auto simp: recs_def)
qed

lemma note_order_ok:
  assumes db: "db_ok t n okk T" and F: "found_place t n T key p rs i exact lo' hi'" and h: "bt_mp t p = Some h"
    and t1: "bt_order t1 = bt_order t" "bt_last t1 = bt_last t" "links h' = links h" and cmp: "bt_cmp_fn t = cmp"
  shows "order_ok (note_order t1 h' j) (leaves T)"
proof (cases "bt_order t = NOT_ORDERED")
  case True
  note D = db_okD [OF db]
  have L: "leaf_in n None None T p rs lo' hi'" using F by (simp add: found_place_def)
  obtain pre post where P: "leaves T = pre @ (p, rs) # post"
    using leaf_in_order [OF L D(6) cmp D(5)] by auto
  have "fst ` set (leaves T) \<subseteq> set (pages T)" using leaf_pages by force
  then have "P_INVALID \<notin> fst ` set (pre @ post)" using D(7) P by auto
  then have ends: "nextpg h' = P_INVALID \<longleftrightarrow> post = []" "prevpg h' = P_INVALID \<longleftrightarrow> pre = []"
    using leaf_at_link [OF D(8) [unfolded P] h] links_sel [OF t1(3)] by simp_all
  have "pgno h' = p" using leaf_in_at [OF L D(5)] h links_sel [OF t1(3)] by (auto simp: leaf_at_def)
  then show ?thesis
    using True t1(1) ends P by (cases post; cases pre) (simp_all add: note_order_def order_ok_def)
qed (use t1 db_okD(9) [OF db] in \<open>simp add: note_order_def order_ok_def\<close>)

lemma put_at_db:
  assumes db: "db_ok t n okk T" and cmp: "bt_cmp_fn t = cmp" and key: "okk key"
    and F: "found_place t n T key p rs i exact lo' hi'" and h: "bt_mp t p = Some h"
    and td: "bt_mp td = (bt_mp t)(p \<mapsto> h0)" "keeps t td" "links h0 = links h" "bt_order td = bt_order t"
      "bt_last td = bt_last t" "bt_flags td = bt_flags t" "leaf_at td p rs0" "same_shape t td"
    and place: "i \<le> length rs0" "\<not> pg_full h0 (NBLEAFDBT (length key) (length data))"
      "take i rs0 @ (key, data, 0) # drop i rs0 = take i rs @ (key, data, 0) # drop (if exact then Suc i else i) rs"
  shows "\<exists>t' T'. put_at td key data 0 p i = Some (RET_SUCCESS, t') \<and> db_ok t' n okk T' \<and> keeps t t' \<and> same_shape t t' \<and>
    same_nodes T T' \<and> recs T' = put_list cmp key data (recs T)"
proof -
  note D = db_okD [OF db]
  let ?rs' = "take i rs0 @ (key, data, 0) # drop i rs0"
  have "leaf_in n None None T p rs lo' hi'" using F by (simp add: found_place_def)
  then have sorted: "sorted_recs rs" using leaf_in_at [OF _ D(5)] cmp by (auto simp: keys_in_def)
  have pl: "place_in rs key i exact" using F cmp by (simp add: found_place_def)
  have new: "?rs' = put_list cmp key data rs" using put_list_place [OF sorted key pl] place(3) by simp
  have "bt_mp td p = Some h0" using td(1) by simp
  then obtain h' t1 where A: "put_at td key data 0 p i =
      Some (RET_SUCCESS, (note_order t1 h' i)\<lparr>bt_flags := bt_flags td OR B_MODIFIED\<rparr>)"
    "one_page p h0 td h' t1" "bt_order t1 = bt_order td" "bt_last t1 = bt_last td" "leaf_at t1 p ?rs'"
    using put_at_leaf [OF td(7) place(1) _ place(2)] by blast
  let ?t' = "(note_order t1 h' i)\<lparr>bt_flags := bt_flags td OR B_MODIFIED\<rparr>"
  have sel: "bt_mp (note_order t1 h' i) = bt_mp t1" "bt_cmp_fn (note_order t1 h' i) = bt_cmp_fn t1"
    "bt_psize (note_order t1 h' i) = bt_psize t1" "bt_ovflsize (note_order t1 h' i) = bt_ovflsize t1"
    "bt_grow (note_order t1 h' i) = bt_grow t1" "bt_panic (note_order t1 h' i) = bt_panic t1"
    "bt_spare (note_order t1 h' i) = bt_spare t1" "bt_malloc (note_order t1 h' i) = bt_malloc t1"
    "bt_pfx_fn (note_order t1 h' i) = bt_pfx_fn t1" "bt_free (note_order t1 h' i) = bt_free t1"
    "bt_npages (note_order t1 h' i) = bt_npages t1"
    by (simp_all add: note_order_def)
  have k: "keeps td ?t'" using A(2) sel by (simp add: keeps_def one_page_def modified_flag)
  have l: "links h' = links h" using A(2) td(3) by (simp add: one_page_def)
  have m: "bt_mp ?t' = (bt_mp t)(p \<mapsto> h')" using A(2) td(1) sel by (simp add: one_page_def)
  have shape: "same_shape t ?t'"
    using same_shape_trans [OF td(8) one_page_shape [OF A(2)]] td(1) sel by (simp add: same_shape_def)
  have at: "leaf_at ?t' p ?rs'" using A(5) sel by (simp add: leaf_at_def)
  have "order_ok (note_order t1 h' i) (leaves T)"
    using note_order_ok [OF db F h _ _ l cmp] A(3,4) td(4,5) by simp
  then have ord: "order_ok ?t' (leaves T)" by (simp add: order_ok_def)
  have mem: "\<forall>r\<in>set ?rs'. fst r = key \<or> r \<in> set rs"
    unfolding place(3) by (auto dest: in_set_takeD in_set_dropD)
  have "sorted_recs ?rs'" unfolding new by (rule sorted_put [OF sorted key])
  then obtain a b where R: "db_ok ?t' n okk (upd_leaf p ?rs' T)" "recs T = a @ rs @ b"
    "recs (upd_leaf p ?rs' T) = a @ ?rs' @ b" "\<forall>r\<in>set a. 0 < cmp key (fst r)" "\<forall>r\<in>set b. cmp key (fst r) < 0"
    using change_leaf [OF db cmp key F h m db_keeps_trans [OF td(2) k] l at _ mem _ ord] by auto
  have "recs (upd_leaf p ?rs' T) = put_list cmp key data (recs T)"
    using R(3) unfolding R(2) new put_list_skip [of a cmp key, OF R(4)] put_list_end [of b cmp key, OF R(5)] .
  then show ?thesis
    using A(1) R(1) db_keeps_trans [OF td(2) k] shape by (intro exI [of _ ?t'] exI [of _ "upd_leaf p ?rs' T"]) simp
qed

lemma lookup_found:
  assumes db: "db_ok t n okk T" and cmp: "bt_cmp_fn t = cmp" and key: "okk key"
    and F: "found_place t n T key p rs i exact lo' hi'"
  shows "lookup_list cmp key (recs T) = (if exact then Some (fst (snd (rs ! i))) else None)"
proof -
  note D = db_okD [OF db]
  have L: "leaf_in n None None T p rs lo' hi'" "place_in rs key i exact" using F cmp by (simp_all add: found_place_def)
  note at = leaf_in_at [OF L(1) D(5)]
  obtain h where h: "bt_mp t p = Some h" using at by (auto simp: leaf_at_def)
  have same: "bt_mp t = (bt_mp t)(p \<mapsto> h)" using h by (simp add: fun_upd_idem)
  have sorted: "sorted_recs rs" using at cmp by (auto simp: keys_in_def)
  have "0 < n \<longrightarrow> rs \<noteq> []" using D(10) [OF _ leaf_in_mem [OF L(1)]] by simp
  then obtain a b where R: "recs T = a @ rs @ b" "\<forall>r\<in>set a. 0 < cmp key (fst r)" "\<forall>r\<in>set b. cmp key (fst r) < 0"
    using change_leaf [OF db cmp key F h same db_keeps_refl refl conjunct1 [OF at] sorted _ _ D(9)] by blast
  have "lookup_list cmp key a = None" "lookup_list cmp key b = None"
    using R(2,3) by (force simp: lookup_list_None)+
  then show ?thesis
    unfolding R(1) lookup_list_append lookup_list_place [OF sorted key L(2)] by simp
qed

lemma same_pages_db:
  assumes db: "db_ok t n okk T" and s: "same_pages t t'" and ord: "order_ok t' (leaves T)"
  shows "db_ok t' n okk T"
proof -
  have eq: "bt_cmp_fn t' = bt_cmp_fn t" "bt_flags t' = bt_flags t" "bt_mp t' = bt_mp t"
    using s by (simp_all add: same_pages_def keeps_def)
  have "leaf_links t' (map fst (leaves T))" using db_okD(8) [OF db] eq(3) by (simp add: leaf_links_def)
  then show ?thesis
    using db ord tree_at_agrees [OF db_okD(5) [OF db] same_pages_agrees [OF s]] eq by (simp add: db_ok_def)
qed

lemma delete_step:
  assumes db: "db_ok t n okk T" and cmp: "bt_cmp_fn t = cmp" and key: "okk key" and g: "\<forall>n. bt_grow t n"
    and F: "found_place t n T key p rs i True lo' hi'" and st: "n = 0 \<longrightarrow> bt_stack t = []"
    and many: "0 < n \<longrightarrow> 1 < length rs"
  shows "\<exists>t' T'. delete_one t key p i = Some (RET_SUCCESS, t') \<and> keeps t t' \<and> same_shape t t' \<and>
    db_ok t' n okk T' \<and> same_nodes T T' \<and> recs T' = del_list cmp key (recs T)"
proof -
  note D = db_okD [OF db]
  have L: "leaf_in n None None T p rs lo' hi'" "place_in rs key i True" using F cmp by (simp_all add: found_place_def)
  note at = leaf_in_at [OF L(1) D(5)]
  have i: "i < length rs" using L(2) by (simp add: place_in_def)
  have sorted: "sorted_recs rs" using at cmp by (auto simp: keys_in_def)
  obtain h where h: "bt_mp t p = Some h" "pgno h = p" using at by (auto simp: leaf_at_def)
  obtain h0 t' where d: "bt_dleaf t (Some key) p i = Some (RET_SUCCESS, t')" "one_page p h t h0 t'"
    "bt_order t' = bt_order t" "bt_last t' = bt_last t" "bt_stack t' = bt_stack t"
    "leaf_at t' p (take i rs @ drop (Suc i) rs)" "NEXTINDEX h0 = length rs - 1"
    using dleaf_leaf [OF conjunct1 [OF at] i h(1) D(2) g] by blast
  have o: "bt_mp t' = (bt_mp t)(p \<mapsto> h0)" "keeps t t'" "links h0 = links h" using d(2) by (simp_all add: one_page_def)
  have new: "take i rs @ drop (Suc i) rs = del_list cmp key rs" using del_list_place [OF sorted key L(2)] by simp
  have "sorted_recs (take i rs @ drop (Suc i) rs)"
    using sorted sorted_wrt_del [of _ "map fst rs" i] by (auto simp: take_map drop_map dest: in_set_takeD in_set_dropD)
  moreover have "\<forall>r\<in>set (take i rs @ drop (Suc i) rs). fst r = key \<or> r \<in> set rs" by (auto dest: in_set_takeD in_set_dropD)
  moreover have "0 < n \<longrightarrow> take i rs @ drop (Suc i) rs \<noteq> []" using many i by (auto dest: arg_cong [of _ _ length])
  moreover have "order_ok t' (leaves T)" using order_ok_eq [OF d(3,4)] D(9) by simp
  ultimately obtain a b where R: "db_ok t' n okk (upd_leaf p (take i rs @ drop (Suc i) rs) T)" "recs T = a @ rs @ b"
    "recs (upd_leaf p (take i rs @ drop (Suc i) rs) T) = a @ (take i rs @ drop (Suc i) rs) @ b"
    "\<forall>r\<in>set a. 0 < cmp key (fst r)" "\<forall>r\<in>set b. cmp key (fst r) < 0"
    using change_leaf [OF db cmp key F h(1) o d(6)] by blast
  have r: "recs (upd_leaf p (take i rs @ drop (Suc i) rs) T) = del_list cmp key (recs T)"
    using R(3) unfolding R(2) new del_list_skip [of a cmp key, OF R(4)] del_list_end [of b cmp key, OF R(5)] .
  have "delete_one t key p i = Some (RET_SUCCESS, t')"
  proof (cases "n = 0")
    case True
    then have "p = P_ROOT" using L(1) D(4) by simp
    moreover have "bt_stack t' = []" "pgno h0 = p" using st True d(5) links_sel [OF o(3)] h(2) by simp_all
    ultimately have "bt_pdelete t' p = Some (RET_SUCCESS, t')" using o(1) by (simp add: bt_pdelete_def)
    then show ?thesis using d(1) o(1) by (simp add: delete_one_def)
  next
    case False
    then show ?thesis using d(1,7) o(1) many by (simp add: delete_one_def)
  qed
  then show ?thesis using R(1) r o(2) one_page_shape [OF d(2) h(1)] by (intro exI [of _ t'] exI [of _ "upd_leaf p (take i rs @ drop (Suc i) rs) T"]) simp
qed

end

lemma del_list_none: "\<forall>r\<in>set rs. cmp key (fst r) \<noteq> 0 \<Longrightarrow> del_list cmp key rs = rs"
  by (induction rs) auto

lemma db_ok_modified:
  assumes "db_ok t n okk T"
  shows "db_ok (t\<lparr>bt_flags := bt_flags t OR B_MODIFIED\<rparr>) n okk T"
proof -
  let ?t = "t\<lparr>bt_flags := bt_flags t OR B_MODIFIED\<rparr>"
  have "agrees t ?t (set (pages T))" by (simp add: agrees_def)
  then have "tree_at n okk ?t None None T" using tree_at_agrees db_okD(5) [OF assms] by blast
  moreover have "(bt_flags t OR B_MODIFIED) AND B_NODUPS = bt_flags t AND B_NODUPS"
    by (simp add: bit.conj_disj_distrib2)
  ultimately show ?thesis using assms by (simp add: db_ok_def leaf_links_def order_ok_def)
qed

lemma found_place_same:
  assumes "found_place t n T key p rs i exact lo' hi'" "same_pages t t'"
  shows "found_place t' n T key p rs i exact lo' hi'"
proof -
  have "between t' = between t" by (rule between_agrees [OF same_pages_agrees [OF assms(2), of UNIV]])
  moreover have "bt_cmp_fn t' = bt_cmp_fn t" using assms(2) by (simp add: same_pages_def keeps_def)
  ultimately show ?thesis using assms(1) by (simp add: found_place_def)
qed

section \<open>The operations\<close>

definition put_status :: "BTREE \<Rightarrow> ptree \<Rightarrow> u8 list \<Rightarrow> u32 \<Rightarrow> bool" where
  "put_status t T key fl \<longleftrightarrow> fl = R_NOOVERWRITE \<and> lookup_list (bt_cmp_fn t) key (recs T) \<noteq> None"

lemma ret_data:
  assumes "leaf_at t p rs" "i < length rs" "\<forall>n. bt_grow t n"
  shows "bt_ret t \<lparr>ep_pgno = p, ep_index = i\<rparr> False True False = Some (Some (None, Some (fst (snd (rs ! i)))))"
    "bt_ret t \<lparr>ep_pgno = p, ep_index = i\<rparr> True True False = Some (Some (Some (fst (rs ! i)), Some (fst (snd (rs ! i)))))"
proof -
  obtain h where h: "bt_mp t p = Some h" "leaf_page h rs" "\<forall>r\<in>set rs. snd (snd r) = 0"
    using assms(1) by (rule leaf_atE)
  obtain k d fl where r: "rs ! i = (k, d, fl)" by (cases "rs ! i")
  have fl: "fl = 0" using h(3) nth_mem [OF assms(2)] r by fastforce
  note get = h(1) leaf_get [OF h(2) assms(2) r] r assms(3) fl
  show "bt_ret t \<lparr>ep_pgno = p, ep_index = i\<rparr> False True False = Some (Some (None, Some (fst (snd (rs ! i)))))"
    "bt_ret t \<lparr>ep_pgno = p, ep_index = i\<rparr> True True False = Some (Some (Some (fst (rs ! i)), Some (fst (snd (rs ! i)))))"
    using get by (simp_all add: bt_ret_def ret_field_def)
qed

text \<open>The empty database.\<close>

lemma sample_db: "db_ok sample_tree 0 small_key (PLeaf P_ROOT [])"
  using empty_leaf_page [of 512] defkey.key_order_axioms
  by (auto simp: db_ok_def sample_tree_def leaf_at_def keys_in_def leaf_links_def order_ok_def empty_leaf_def)

text \<open>
  On a database whose pages represent a tree, \<^verbatim>\<open>__bt_delete\<close> of a key returns \<^verbatim>\<open>RET_SPECIAL\<close> when the
  key is not there, and otherwise removes the record of the key from the sorted list of the records;
  the pages represent a tree again.
\<close>
lemma delete_db:
  assumes db: "db_ok t n okk T" and key: "okk key" and fl: "bt_flags t AND B_RDONLY = 0" and g: "\<forall>n. bt_grow t n"
    and many: "0 < n \<longrightarrow> (\<forall>l\<in>set (leaves T). 1 < length (snd l))"
  shows "\<exists>t' T'. bt_delete t key 0 =
      Some (if lookup_list (bt_cmp_fn t) key (recs T) = None then RET_SPECIAL else RET_SUCCESS, t') \<and>
    db_ok t' n okk T' \<and> keeps t t' \<and> same_shape t t' \<and> same_nodes T T' \<and> recs T' = del_list (bt_cmp_fn t) key (recs T)"
proof -
  note K = db_okD(1) [OF db]
  obtain p rs i exact lo' hi' t1 where P: "bt_search t key = Some (Some (\<lparr>ep_pgno = p, ep_index = i\<rparr>, exact), t1)"
    "found_place t n T key p rs i exact lo' hi'" "same_pages t t1" "bt_order t1 = bt_order t" "bt_last t1 = bt_last t"
    "length (bt_stack t1) = n"
    using key_order.search_place [OF K db refl key] by blast
  have "order_ok t1 (leaves T)" using order_ok_eq [OF P(4,5)] db_okD(9) [OF db] by simp
  note db1 = key_order.same_pages_db [OF K db P(3) this] and F1 = found_place_same [OF P(2,3)]
  have eq: "bt_cmp_fn t1 = bt_cmp_fn t" "bt_mp t1 = bt_mp t" "bt_grow t1 = bt_grow t" "bt_flags t1 = bt_flags t"
    using P(3) by (simp_all add: same_pages_def keeps_def)
  have kp: "keeps t t1" "same_shape t t1" using P(3) by (simp_all add: same_pages_def same_shape_def)
  have L: "leaf_in n None None T p rs lo' hi'" using P(2) by (simp add: found_place_def)
  have look: "lookup_list (bt_cmp_fn t) key (recs T) = (if exact then Some (fst (snd (rs ! i))) else None)"
    by (rule key_order.lookup_found [OF K db refl key P(2)])
  have loop: "bt_bdelete t key = (if exact then delete_one t1 key p i else Some (RET_SPECIAL, t1))"
    using P(1) db_okD(2) [OF db] eq(4) unfolding bt_bdelete_def by (subst bdelete_loop.simps) simp
  show ?thesis
  proof (cases exact)
    case False
    have "del_list (bt_cmp_fn t) key (recs T) = recs T"
      using look False by (auto simp: lookup_list_None intro: del_list_none)
    then show ?thesis using loop False look db1 fl kp by (intro exI [of _ t1] exI [of _ T]) (simp add: bt_delete_def)
  next
    case True
    have g1: "\<forall>n. bt_grow t1 n" using g eq(3) by simp
    have "0 < n \<longrightarrow> 1 < length rs" using many leaf_in_mem [OF L] by fastforce
    moreover have "n = 0 \<longrightarrow> bt_stack t1 = []" using P(6) by auto
    moreover have "found_place t1 n T key p rs i True lo' hi'" using F1 True by simp
    ultimately obtain t' T' where S: "delete_one t1 key p i = Some (RET_SUCCESS, t')" "keeps t1 t'" "db_ok t' n okk T'" "same_shape t1 t'" "same_nodes T T'"
      "recs T' = del_list (bt_cmp_fn t) key (recs T)"
      using key_order.delete_step [OF K db1 eq(1) key g1] by blast
    have "db_ok (t'\<lparr>bt_flags := bt_flags t' OR B_MODIFIED\<rparr>) n okk T'"
      by (rule db_ok_modified [OF S(3)])
    moreover have "keeps t (t'\<lparr>bt_flags := bt_flags t' OR B_MODIFIED\<rparr>)"
      using db_keeps_trans [OF kp(1) S(2)] by (simp add: keeps_def modified_flag)
    moreover have "same_shape t (t'\<lparr>bt_flags := bt_flags t' OR B_MODIFIED\<rparr>)"
      using same_shape_trans [OF kp(2) S(4)] by (simp add: same_shape_def)
    ultimately show ?thesis using loop True look S fl
      by (intro exI [of _ "t'\<lparr>bt_flags := bt_flags t' OR B_MODIFIED\<rparr>"] exI [of _ T']) (simp add: bt_delete_def)
  qed
qed

lemma get_db:
  assumes db: "db_ok t n okk T" and key: "okk key" and g: "\<forall>n. bt_grow t n"
  shows "\<exists>t'. bt_get t key 0 = Some (case lookup_list (bt_cmp_fn t) key (recs T) of
      None \<Rightarrow> (RET_SPECIAL, None, t') | Some d \<Rightarrow> (RET_SUCCESS, Some d, t')) \<and>
    db_ok t' n okk T \<and> keeps t t' \<and> same_shape t t'"
proof -
  note K = db_okD(1) [OF db]
  obtain p rs i exact lo' hi' t1 where P: "bt_search t key = Some (Some (\<lparr>ep_pgno = p, ep_index = i\<rparr>, exact), t1)"
    "found_place t n T key p rs i exact lo' hi'" "same_pages t t1" "bt_order t1 = bt_order t" "bt_last t1 = bt_last t"
    using key_order.search_place [OF K db refl key] by blast
  have "order_ok t1 (leaves T)" using order_ok_eq [OF P(4,5)] db_okD(9) [OF db] by simp
  note db1 = key_order.same_pages_db [OF K db P(3) this] and F1 = found_place_same [OF P(2,3)]
  have kp: "keeps t t1" "same_shape t t1" using P(3) by (simp_all add: same_pages_def same_shape_def)
  have g1: "\<forall>n. bt_grow t1 n" using g kp(1) by (simp add: keeps_def)
  have look: "lookup_list (bt_cmp_fn t) key (recs T) = (if exact then Some (fst (snd (rs ! i))) else None)"
    by (rule key_order.lookup_found [OF K db refl key P(2)])
  have L: "leaf_in n None None T p rs lo' hi'" using F1 by (simp add: found_place_def)
  have at: "leaf_at t1 p rs" using leaf_in_at [OF L db_okD(5) [OF db1]] by blast
  have "bt_ret t1 \<lparr>ep_pgno = p, ep_index = i\<rparr> False True False = Some (Some (None, Some (fst (snd (rs ! i)))))" if exact
  proof (rule ret_data [OF at _ g1])
    show "i < length rs" using P(2) that key_order.place_in_def [OF K] by (simp add: found_place_def)
  qed
  then show ?thesis
    using P(1) look db1 kp by (intro exI [of _ t1]) (cases exact; simp add: bt_get_def)
qed

end
