(* ===== verification/Bt_Scan.thy ===== *)
theory Bt_Scan
  imports Bt_Update
begin

text \<open>
  The sequential scan of a database whose pages represent a tree gives the records of the sorted list
  in order, forwards and backwards.
\<close>

section \<open>Calls in a row\<close>

text \<open>
  At most \<open>m\<close> calls, with \<open>fl\<close> for the first one and \<open>fl'\<close> for the others, until one does not succeed:
  the records, and the status and the state at the end.
\<close>

fun bt_scan :: "nat \<Rightarrow> BTREE \<Rightarrow> u32 \<Rightarrow> u32 \<Rightarrow> ((u8 list \<times> u8 list) list \<times> int \<times> BTREE) option" where
  "bt_scan 0 t fl fl' = Some ([], RET_SUCCESS, t)"
| "bt_scan (Suc m) t fl fl' = do {
     (st, kd, t) \<leftarrow> bt_seq t [] fl;
     if st \<noteq> RET_SUCCESS then Some ([], st, t)
     else do {
       (k, d) \<leftarrow> kd;
       k \<leftarrow> k;
       d \<leftarrow> d;
       (rs, st, t) \<leftarrow> bt_scan m t fl' fl';
       Some ((k, d) # rs, st, t) } }"

definition kd :: "leaf_rec \<Rightarrow> u8 list \<times> u8 list" where
  "kd r = (fst r, fst (snd r))"

section \<open>The cursor on a record\<close>

definition cursor_at :: "BTREE \<Rightarrow> u32 \<Rightarrow> nat \<Rightarrow> bool" where
  "cursor_at t p i \<longleftrightarrow> c_flags (bt_cursor t) AND CURS_INIT \<noteq> 0 \<and>
     c_flags (bt_cursor t) AND CURS_ACQUIRE = 0 \<and> c_flags (bt_cursor t) AND CURS_AFTER = 0 \<and>
     c_flags (bt_cursor t) AND CURS_BEFORE = 0 \<and> c_pg (bt_cursor t) = \<lparr>ep_pgno = p, ep_index = i\<rparr>"

lemma setcur_flags:
  fixes f :: u8
  shows "((f AND NOT (CURS_ACQUIRE OR CURS_AFTER OR CURS_BEFORE)) OR CURS_INIT) AND CURS_INIT \<noteq> 0"
    "((f AND NOT (CURS_ACQUIRE OR CURS_AFTER OR CURS_BEFORE)) OR CURS_INIT) AND CURS_ACQUIRE = 0"
    "((f AND NOT (CURS_ACQUIRE OR CURS_AFTER OR CURS_BEFORE)) OR CURS_INIT) AND CURS_AFTER = 0"
    "((f AND NOT (CURS_ACQUIRE OR CURS_AFTER OR CURS_BEFORE)) OR CURS_INIT) AND CURS_BEFORE = 0"
  by (simp_all add: bit.conj_disj_distrib2 and.assoc)

lemma setcur_at: "cursor_at (bt_setcur t p i) p i"
  using setcur_flags by (simp add: cursor_at_def bt_setcur_def Let_def)

lemma setcur_same: "\<exists>c. bt_setcur t p i = t\<lparr>bt_cursor := c\<rparr>"
  by (auto simp: bt_setcur_def Let_def)

lemma db_ok_cursor:
  assumes "db_ok t n okk T"
  shows "db_ok (t\<lparr>bt_cursor := c\<rparr>) n okk T"
proof -
  have "same_pages t (t\<lparr>bt_cursor := c\<rparr>)" by (simp add: same_pages_def keeps_def)
  moreover have "order_ok (t\<lparr>bt_cursor := c\<rparr>) (leaves T)" using db_okD(9) [OF assms] by (simp add: order_ok_def)
  ultimately show ?thesis using key_order.same_pages_db [OF db_okD(1) [OF assms] assms] by blast
qed

lemma setcur_ok:
  assumes "db_ok t n okk T" "\<forall>n. bt_grow t n"
  shows "db_ok (bt_setcur t q j) n okk T \<and> (\<forall>n. bt_grow (bt_setcur t q j) n) \<and> cursor_at (bt_setcur t q j) q j"
proof -
  obtain c where c: "bt_setcur t q j = t\<lparr>bt_cursor := c\<rparr>" using setcur_same by blast
  show ?thesis using db_ok_cursor [OF assms(1), of c] assms(2) setcur_at [of t q j] unfolding c by simp
qed

text \<open>A call that has found its place.\<close>

lemma seq_gives:
  assumes "leaf_at t p rs" "i < length rs" "\<forall>n. bt_grow t n" "fl \<in> {R_NEXT, R_PREV, R_FIRST, R_LAST}"
    and "(if (fl = R_NEXT \<or> fl = R_PREV) \<and> c_flags (bt_cursor t) AND CURS_INIT \<noteq> 0 then bt_seqadv t fl else bt_seqset t [] fl) =
      Some ((RET_SUCCESS, Some \<lparr>ep_pgno = p, ep_index = i\<rparr>), t)"
  shows "bt_seq t [] fl = Some (RET_SUCCESS, Some (Some (fst (rs ! i)), Some (fst (snd (rs ! i)))), bt_setcur t p i)"
proof -
  obtain h where h: "bt_mp t p = Some h" "pgno h = p" using assms(1) by (rule leaf_atE)
  obtain c where c: "bt_setcur t p i = t\<lparr>bt_cursor := c\<rparr>" using setcur_same by blast
  have "leaf_at (bt_setcur t p i) p rs" "\<forall>n. bt_grow (bt_setcur t p i) n"
    using assms(1,3) unfolding c by (simp_all add: leaf_at_def)
  note ret = ret_data(2) [OF this(1) assms(2) this(2)]
  have fl: "fl \<in> {R_NEXT, R_PREV, R_FIRST, R_LAST, R_CURSOR}" using assms(4) by blast
  show ?thesis unfolding bt_seq_def assms(5) using fl h ret by simp
qed

lemma leaf_of:
  assumes db: "db_ok t n okk T" and q: "(q, rs) \<in> set (leaves T)"
  shows "leaf_at t q rs \<and> length rs < 65536"
proof -
  obtain lo hi where L: "leaf_in n None None T q rs lo hi" using leaf_range [OF db_okD(5) [OF db] q] by blast
  note at = leaf_in_at [OF L db_okD(5) [OF db]]
  then show ?thesis using leaf_at_keys [OF conjunct1 [OF at]] by (auto simp: keys_in_def leaf_keys_def page_keys_def)
qed

text \<open>Moving the cursor forwards, and backwards.\<close>

lemma advance:
  assumes db: "db_ok t n okk T" and L: "leaves T = pre @ (p, rs) # post" and i: "i < length rs" and c: "cursor_at t p i"
    and g: "\<forall>n. bt_grow t n"
  shows "Suc i < length rs \<Longrightarrow> bt_seq t [] R_NEXT =
      Some (RET_SUCCESS, Some (Some (fst (rs ! Suc i)), Some (fst (snd (rs ! Suc i)))), bt_setcur t p (Suc i))"
    and "Suc i = length rs \<Longrightarrow> post = [] \<Longrightarrow> bt_seq t [] R_NEXT = Some (RET_SPECIAL, None, t)"
    and "Suc i = length rs \<Longrightarrow> post = (q, rs') # post' \<Longrightarrow> rs' \<noteq> [] \<Longrightarrow> bt_seq t [] R_NEXT =
      Some (RET_SUCCESS, Some (Some (fst (rs' ! 0)), Some (fst (snd (rs' ! 0)))), bt_setcur t q 0)"
proof -
  note D = db_okD [OF db]
  note at = leaf_of [OF db]
  have p: "leaf_at t p rs" "length rs < 65536" using at [of p rs] L by simp_all
  obtain h where h: "bt_mp t p = Some h" "leaf_page h rs" "pgno h = p" using p(1) by (rule leaf_atE)
  have "fst ` set (leaves T) \<subseteq> set (pages T)" using leaf_pages by force
  then have "P_INVALID \<notin> fst ` set (pre @ post)" using D(7) L by auto
  note ends = leaf_at_link [OF D(8) [unfolded L] h(1) this]
  have adv: "bt_seqadv t R_NEXT = Some (seq_next t h \<lparr>ep_pgno = p, ep_index = i\<rparr>, t)"
    using c h(1) by (simp add: bt_seqadv_def cursor_at_def Let_def)
  have cnt: "NEXTINDEX h = length rs" by (rule leaf_count [OF h(2)])
  have w: "(i + 1) mod 65536 = Suc i" using i p(2) by simp
  have init: "c_flags (bt_cursor t) AND CURS_INIT \<noteq> 0" using c by (simp add: cursor_at_def)
  show "bt_seq t [] R_NEXT =
      Some (RET_SUCCESS, Some (Some (fst (rs ! Suc i)), Some (fst (snd (rs ! Suc i)))), bt_setcur t p (Suc i))" if "Suc i < length rs"
    using init adv cnt w that by (intro seq_gives [OF p(1) that g]) (simp_all add: seq_next_def)
  show "bt_seq t [] R_NEXT = Some (RET_SPECIAL, None, t)" if "Suc i = length rs" "post = []"
    using init adv cnt w that ends by (simp add: bt_seq_def seq_next_def)
  show "bt_seq t [] R_NEXT =
      Some (RET_SUCCESS, Some (Some (fst (rs' ! 0)), Some (fst (snd (rs' ! 0)))), bt_setcur t q 0)"
    if that: "Suc i = length rs" "post = (q, rs') # post'" "rs' \<noteq> []"
  proof -
    have q: "leaf_at t q rs'" using at [of q rs'] L that(2) by simp
    then obtain g where "bt_mp t q = Some g" by (rule leaf_atE)
    moreover have "nextpg h = q" "nextpg h \<noteq> P_INVALID"
      using leaf_neighbours(1) [OF D(8) [unfolded L] h(1)] ends(1) that(2) by simp_all
    ultimately show ?thesis
      using init adv cnt w that by (intro seq_gives [OF q _ g]) (simp_all add: seq_next_def)
  qed
qed

lemma retreat:
  assumes db: "db_ok t n okk T" and L: "leaves T = pre @ (p, rs) # post" and i: "i < length rs" and c: "cursor_at t p i"
    and g: "\<forall>n. bt_grow t n"
  shows "i = Suc j \<Longrightarrow> bt_seq t [] R_PREV =
      Some (RET_SUCCESS, Some (Some (fst (rs ! j)), Some (fst (snd (rs ! j)))), bt_setcur t p j)"
    and "i = 0 \<Longrightarrow> pre = [] \<Longrightarrow> bt_seq t [] R_PREV = Some (RET_SPECIAL, None, t)"
    and "i = 0 \<Longrightarrow> pre = pre' @ [(q, rs')] \<Longrightarrow> length rs' = Suc j \<Longrightarrow> bt_seq t [] R_PREV =
      Some (RET_SUCCESS, Some (Some (fst (rs' ! j)), Some (fst (snd (rs' ! j)))), bt_setcur t q j)"
proof -
  note D = db_okD [OF db]
  note at = leaf_of [OF db]
  have p: "leaf_at t p rs" using at [of p rs] L by simp
  obtain h where h: "bt_mp t p = Some h" "leaf_page h rs" "pgno h = p" using p by (rule leaf_atE)
  have "fst ` set (leaves T) \<subseteq> set (pages T)" using leaf_pages by force
  then have "P_INVALID \<notin> fst ` set (pre @ post)" using D(7) L by auto
  note ends = leaf_at_link [OF D(8) [unfolded L] h(1) this]
  have adv: "bt_seqadv t R_PREV = Some (seq_prev t h \<lparr>ep_pgno = p, ep_index = i\<rparr>, t)"
    using c h(1) by (simp add: bt_seqadv_def cursor_at_def Let_def)
  have init: "c_flags (bt_cursor t) AND CURS_INIT \<noteq> 0" using c by (simp add: cursor_at_def)
  show "bt_seq t [] R_PREV =
      Some (RET_SUCCESS, Some (Some (fst (rs ! j)), Some (fst (snd (rs ! j)))), bt_setcur t p j)" if "i = Suc j"
    using init adv i that by (intro seq_gives [OF p _ g]) (simp_all add: seq_prev_def)
  show "bt_seq t [] R_PREV = Some (RET_SPECIAL, None, t)" if "i = 0" "pre = []"
    using init adv that ends by (simp add: bt_seq_def seq_prev_def)
  show "bt_seq t [] R_PREV =
      Some (RET_SUCCESS, Some (Some (fst (rs' ! j)), Some (fst (snd (rs' ! j)))), bt_setcur t q j)"
    if that: "i = 0" "pre = pre' @ [(q, rs')]" "length rs' = Suc j"
  proof -
    have q: "leaf_at t q rs'" "length rs' < 65536" using at [of q rs'] L that(2) by simp_all
    then obtain g where k: "bt_mp t q = Some g" "leaf_page g rs'" by (auto elim: leaf_atE)
    have "unat (of_nat (NEXTINDEX g) - 1 :: u16) = j"
      using leaf_count [OF k(2)] that(3) q(2) by (simp add: unat_of_nat take_bit_nat_eq_self)
    moreover have "prevpg h = q" "prevpg h \<noteq> P_INVALID"
      using leaf_neighbours(2) [OF D(8) [unfolded L] h(1)] ends(2) that(2) by simp_all
    ultimately show ?thesis
      using init adv that k(1) by (intro seq_gives [OF q(1) _ g]) (simp_all add: seq_prev_def)
  qed
qed

section \<open>The whole scan\<close>

lemma scan_next:
  assumes "db_ok t n okk T" "leaves T = pre @ (p, rs) # post" "i < length rs" "cursor_at t p i"
    and "\<forall>n. bt_grow t n" "\<forall>l\<in>set post. snd l \<noteq> []" "length (drop (Suc i) rs @ concat (map snd post)) < m"
  shows "\<exists>t'. bt_scan m t R_NEXT R_NEXT = Some (map kd (drop (Suc i) rs @ concat (map snd post)), RET_SPECIAL, t')"
  using assms
proof (induction m arbitrary: t pre p rs post i)
  case (Suc m)
  note adv = advance [OF Suc.prems(1-5)]
  have next_ok: "db_ok (bt_setcur t q j) n okk T \<and> (\<forall>n. bt_grow (bt_setcur t q j) n) \<and> cursor_at (bt_setcur t q j) q j" for q j
    by (rule setcur_ok [OF Suc.prems(1,5)])
  consider "Suc i < length rs" | "Suc i = length rs" "post = []" | q rs' post' where "Suc i = length rs" "post = (q, rs') # post'"
    using Suc.prems(3) by (cases post) (force simp: less_Suc_eq_le le_less)+
  then show ?case
  proof cases
    case 1
    then have d: "drop (Suc i) rs = rs ! Suc i # drop (Suc (Suc i)) rs" by (simp add: Cons_nth_drop_Suc)
    obtain t' where "bt_scan m (bt_setcur t p (Suc i)) R_NEXT R_NEXT =
        Some (map kd (drop (Suc (Suc i)) rs @ concat (map snd post)), RET_SPECIAL, t')"
      using Suc.IH [of "bt_setcur t p (Suc i)" pre p rs post "Suc i"] Suc.prems(2,6,7) next_ok [of p "Suc i"] 1 d by auto
    then show ?thesis using adv(1) [OF 1] d by (simp add: kd_def)
  next
    case 2
    then show ?thesis using adv(2) [OF 2] by simp
  next
    case 3
    then obtain r rs'' where r: "rs' = r # rs''" using Suc.prems(6) by (cases rs') auto
    obtain t' where "bt_scan m (bt_setcur t q 0) R_NEXT R_NEXT =
        Some (map kd (drop (Suc 0) rs' @ concat (map snd post')), RET_SPECIAL, t')"
      using Suc.IH [of "bt_setcur t q 0" "pre @ [(p, rs)]" q rs' post' 0] Suc.prems(2,6,7) next_ok [of q 0] 3 r by auto
    then show ?thesis using adv(3) [OF 3] 3 r by (simp add: kd_def)
  qed
qed simp

lemma scan_prev:
  assumes "db_ok t n okk T" "leaves T = pre @ (p, rs) # post" "i < length rs" "cursor_at t p i"
    and "\<forall>n. bt_grow t n" "\<forall>l\<in>set pre. snd l \<noteq> []" "length (concat (map snd pre) @ take i rs) < m"
  shows "\<exists>t'. bt_scan m t R_PREV R_PREV = Some (rev (map kd (concat (map snd pre) @ take i rs)), RET_SPECIAL, t')"
  using assms
proof (induction m arbitrary: t pre p rs post i)
  case (Suc m)
  note adv = retreat [OF Suc.prems(1-5)]
  have next_ok: "db_ok (bt_setcur t q j) n okk T \<and> (\<forall>n. bt_grow (bt_setcur t q j) n) \<and> cursor_at (bt_setcur t q j) q j" for q j
    by (rule setcur_ok [OF Suc.prems(1,5)])
  consider j where "i = Suc j" | "i = 0" "pre = []" | q rs' pre' where "i = 0" "pre = pre' @ [(q, rs')]"
    by (cases i; cases pre rule: rev_cases) force+
  then show ?case
  proof cases
    case 1
    then have d: "take i rs = take j rs @ [rs ! j]" using Suc.prems(3) by (simp add: take_Suc_conv_app_nth)
    obtain t' where "bt_scan m (bt_setcur t p j) R_PREV R_PREV =
        Some (rev (map kd (concat (map snd pre) @ take j rs)), RET_SPECIAL, t')"
      using Suc.IH [of "bt_setcur t p j" pre p rs post j] Suc.prems(2,3,6,7) next_ok [of p j] 1 d by auto
    then show ?thesis using adv(1) [OF 1] d by (simp add: kd_def)
  next
    case 2
    then show ?thesis using adv(2) [OF 2] by simp
  next
    case 3
    then obtain rs'' r where r: "rs' = rs'' @ [r]" using Suc.prems(6) by (cases rs' rule: rev_cases) auto
    then have l: "length rs' = Suc (length rs'')" by simp
    obtain t' where "bt_scan m (bt_setcur t q (length rs'')) R_PREV R_PREV =
        Some (rev (map kd (concat (map snd pre') @ take (length rs'') rs')), RET_SPECIAL, t')"
      using Suc.IH [of "bt_setcur t q (length rs'')" pre' q rs' "(p, rs) # post" "length rs''"]
        Suc.prems(2,6,7) next_ok [of q "length rs''"] 3 r by auto
    then show ?thesis using adv(3) [OF 3 l] 3 r by (simp add: kd_def)
  qed
qed simp

lemma page_kind:
  fixes f :: u32
  shows "f AND P_TYPE = P_BLEAF \<Longrightarrow> f AND (P_BLEAF OR P_RLEAF) \<noteq> 0"
    and "f AND P_TYPE = P_BINTERNAL \<Longrightarrow> f AND (P_BLEAF OR P_RLEAF) = 0"
proof -
  have "f AND (P_BLEAF OR P_RLEAF) = (f AND P_TYPE) AND (P_BLEAF OR P_RLEAF)" by (simp add: and.assoc)
  then show "f AND P_TYPE = P_BLEAF \<Longrightarrow> f AND (P_BLEAF OR P_RLEAF) \<noteq> 0"
    "f AND P_TYPE = P_BINTERNAL \<Longrightarrow> f AND (P_BLEAF OR P_RLEAF) = 0" by simp_all
qed

lemma walk_tree:
  assumes "tree_at n okk t lo hi T" "0 < n \<longrightarrow> (\<forall>l\<in>set (leaves T). snd l \<noteq> [])"
    and "l = (if left then hd (leaves T) else last (leaves T))" "length (snd l) < 65536"
  shows "walk_down t left (pno T) = Some (if snd l = [] then (RET_SPECIAL, None)
    else (RET_SUCCESS, Some \<lparr>ep_pgno = fst l, ep_index = if left then 0 else length (snd l) - 1\<rparr>))"
  using assms
proof (induction n arbitrary: lo hi T)
  case 0
  then obtain p rs where T: "T = PLeaf p rs" "leaf_at t p rs" "l = (p, rs)" by auto
  obtain h where h: "bt_mp t p = Some h" "leaf_page h rs" "flags h AND P_TYPE = P_BLEAF" using T(2) by (rule leaf_atE)
  have "flags h AND (P_BLEAF OR P_RLEAF) \<noteq> 0" by (rule page_kind(1) [OF h(3)])
  then show ?case using h(1) leaf_count [OF h(2)] T(1,3) 0(4) by (subst walk_down.simps) simp
next
  case (Suc n)
  then obtain p ks ts where T: "T = PNode p ks ts" "length ts = length ks" "node_at t p ks (map pno ts)"
    "sorted_wrt (below t) ks" "\<forall>i < length ks. tree_at n okk t (low_bound ks lo i) (high_bound ks hi i) (ts ! i)" "ks \<noteq> []"
    by (auto simp: node_at_def)
  obtain h where h: "bt_mp t p = Some h" "flags h AND P_BLEAF = 0" "page_keys t h ks"
    "\<forall>i < length ks. GETBINTERNAL h i = Some \<lparr>bi_ksize = length (ks ! i), bi_pgno = map pno ts ! i, bi_flags = 0, bi_key = ks ! i\<rparr>"
    using node_page_keys [OF T(3,4)] by blast
  let ?i = "if left then 0 else length ks - 1"
  have i: "?i < length ks" using T(6) by simp
  have mem: "ts ! ?i \<in> set ts" using i T(2) by simp
  have sub: "\<forall>l\<in>set (leaves (ts ! ?i)). snd l \<noteq> []" using Suc.prems(2) T(1) mem by auto
  have ne: "leaves (ts ! j) \<noteq> []" if "j < length ks" for j using leaves_not_Nil T(5) that by blast
  have "l = (if left then hd (leaves (ts ! ?i)) else last (leaves (ts ! ?i)))"
  proof (cases left)
    case True
    obtain x xs where "ts = x # xs" using T(2,6) by (cases ts) auto
    then show ?thesis using Suc.prems(3) True T(1) ne [of 0] T(6) by simp
  next
    case False
    obtain x xs where x: "ts = xs @ [x]" using T(2,6) by (cases ts rule: rev_cases) auto
    have e: "ts ! (length ks - 1) = x" unfolding T(2) [symmetric] x by simp
    have "leaves x \<noteq> []" using ne [of "length ks - 1"] i False unfolding e by simp
    then have "last (leaves T) = last (leaves x)" unfolding T(1) x by simp
    then show ?thesis using Suc.prems(3) False e by simp
  qed
  then have "walk_down t left (pno (ts ! ?i)) = Some (if snd l = [] then (RET_SPECIAL, None)
    else (RET_SUCCESS, Some \<lparr>ep_pgno = fst l, ep_index = if left then 0 else length (snd l) - 1\<rparr>))"
    using Suc.IH [OF T(5) [rule_format, OF i]] sub Suc.prems(4) by simp
  moreover have "walk_down t left p = walk_down t left (pno (ts ! ?i))"
  proof -
    have "flags h AND (P_BLEAF OR P_RLEAF) = 0" "NEXTINDEX h = length ks" "NEXTINDEX h \<noteq> 0"
      using page_kind(2) [of "flags h"] T(3) h(1,3) T(6) by (auto simp: node_at_def page_keys_def)
    then show ?thesis
      using h(1,4) i T(2) by (subst walk_down.simps) (simp add: Let_def)
  qed
  ultimately show ?case using T(1) by simp
qed

lemma scan_db:
  assumes db: "db_ok t n okk T" and g: "\<forall>n. bt_grow t n"
  shows "\<exists>t'. bt_scan (Suc (length (recs T))) t R_FIRST R_NEXT = Some (map kd (recs T), RET_SPECIAL, t')"
    and "\<exists>t'. bt_scan (Suc (length (recs T))) t R_LAST R_PREV = Some (rev (map kd (recs T)), RET_SPECIAL, t')"
proof -
  note D = db_okD [OF db]
  have ne: "leaves T \<noteq> []" by (rule leaves_not_Nil [OF D(5)])
  have full: "0 < n \<longrightarrow> (\<forall>l\<in>set (leaves T). snd l \<noteq> [])" using D(10) by blast
  have seq: "bt_seqset t [] fl = Some (if snd l = [] then ((RET_SPECIAL, None), t)
      else ((RET_SUCCESS, Some \<lparr>ep_pgno = fst l, ep_index = if left then 0 else length (snd l) - 1\<rparr>), t))"
    if l: "l = (if left then hd (leaves T) else last (leaves T))" and fl: "fl = (if left then R_FIRST else R_LAST)" for l left fl
  proof -
    have "(fst l, snd l) \<in> set (leaves T)" using l ne by (simp split: if_splits)
    then have s: "length (snd l) < 65536" using leaf_of [OF db] by blast
    have "walk_down t left P_ROOT = Some (if snd l = [] then (RET_SPECIAL, None)
      else (RET_SUCCESS, Some \<lparr>ep_pgno = fst l, ep_index = if left then 0 else length (snd l) - 1\<rparr>))"
      using walk_tree [OF D(5) full l s] D(4) by simp
    then show ?thesis using fl by (cases left) (simp_all add: bt_seqset_def)
  qed
  have empty: "recs T = []" if "l \<in> set (leaves T)" "snd l = []" for l
  proof -
    have "n = 0" using full that by blast
    then show ?thesis using D(5) that by (auto simp: recs_def)
  qed
  show "\<exists>t'. bt_scan (Suc (length (recs T))) t R_FIRST R_NEXT = Some (map kd (recs T), RET_SPECIAL, t')"
  proof -
    obtain p rs post where L: "leaves T = [] @ (p, rs) # post" using ne by (cases "leaves T") auto
    show ?thesis
    proof (cases "rs = []")
      case True
      then have e: "recs T = []" using empty [of "(p, rs)"] L by simp
      have "bt_seqset t [] R_FIRST = Some ((RET_SPECIAL, None), t)" using seq [of "(p, rs)" True] L True by simp
      then show ?thesis using e by (simp add: bt_seq_def)
    next
      case False
      then have i: "0 < length rs" by simp
      have s: "bt_seqset t [] R_FIRST = Some ((RET_SUCCESS, Some \<lparr>ep_pgno = p, ep_index = 0\<rparr>), t)"
        using seq [of "(p, rs)" True] L False by simp
      have at: "leaf_at t p rs" using leaf_of [OF db, of p rs] L by simp
      have f: "bt_seq t [] R_FIRST = Some (RET_SUCCESS, Some (Some (fst (rs ! 0)), Some (fst (snd (rs ! 0)))), bt_setcur t p 0)"
        using s by (intro seq_gives [OF at i g]) simp_all
      have sub: "\<forall>l\<in>set post. snd l \<noteq> []" using empty L i by (fastforce simp: recs_def)
      have r: "recs T = rs ! 0 # drop (Suc 0) rs @ concat (map snd post)"
        using L i by (simp add: recs_def Cons_nth_drop_Suc)
      have e: "map kd (recs T) = kd (rs ! 0) # map kd (drop (Suc 0) rs @ concat (map snd post))" unfolding r by simp
      note ok = setcur_ok [OF db g, of p 0]
      have len: "length (drop (Suc 0) rs @ concat (map snd post)) < length (recs T)" using r by simp
      obtain t' where "bt_scan (length (recs T)) (bt_setcur t p 0) R_NEXT R_NEXT =
          Some (map kd (drop (Suc 0) rs @ concat (map snd post)), RET_SPECIAL, t')"
        using scan_next [OF conjunct1 [OF ok] L i conjunct2 [OF conjunct2 [OF ok]] conjunct1 [OF conjunct2 [OF ok]] sub len] by blast
      then show ?thesis unfolding e using f by (simp add: kd_def)
    qed
  qed
  show "\<exists>t'. bt_scan (Suc (length (recs T))) t R_LAST R_PREV = Some (rev (map kd (recs T)), RET_SPECIAL, t')"
  proof -
    obtain p rs pre where L: "leaves T = pre @ (p, rs) # []" using ne by (cases "leaves T" rule: rev_cases) auto
    show ?thesis
    proof (cases rs rule: rev_cases)
      case Nil
      then have e: "recs T = []" using empty [of "(p, rs)"] L by simp
      have "bt_seqset t [] R_LAST = Some ((RET_SPECIAL, None), t)" using seq [of "(p, rs)" False] L Nil by simp
      then show ?thesis using e by (simp add: bt_seq_def)
    next
      case (snoc rs' r)
      let ?i = "length rs'"
      have i: "?i < length rs" using snoc by simp
      have s: "bt_seqset t [] R_LAST = Some ((RET_SUCCESS, Some \<lparr>ep_pgno = p, ep_index = ?i\<rparr>), t)"
        using seq [of "(p, rs)" False] L snoc by simp
      have at: "leaf_at t p rs" using leaf_of [OF db, of p rs] L by simp
      have f: "bt_seq t [] R_LAST = Some (RET_SUCCESS, Some (Some (fst (rs ! ?i)), Some (fst (snd (rs ! ?i)))), bt_setcur t p ?i)"
        using s by (intro seq_gives [OF at i g]) simp_all
      have sub: "\<forall>l\<in>set pre. snd l \<noteq> []" using empty L snoc by (fastforce simp: recs_def)
      have r: "recs T = (concat (map snd pre) @ take ?i rs) @ [rs ! ?i]"
        using L snoc by (simp add: recs_def)
      have e: "rev (map kd (recs T)) = kd (rs ! ?i) # rev (map kd (concat (map snd pre) @ take ?i rs))" unfolding r by simp
      note ok = setcur_ok [OF db g, of p ?i]
      have len: "length (concat (map snd pre) @ take ?i rs) < length (recs T)" using r by simp
      obtain t' where "bt_scan (length (recs T)) (bt_setcur t p ?i) R_PREV R_PREV =
          Some (rev (map kd (concat (map snd pre) @ take ?i rs)), RET_SPECIAL, t')"
        using scan_prev [OF conjunct1 [OF ok] L i conjunct2 [OF conjunct2 [OF ok]] conjunct1 [OF conjunct2 [OF ok]] sub len] by blast
      then show ?thesis unfolding e using f by (simp add: kd_def)
    qed
  qed
qed

end
