(* ===== verification/Bt_Fill.thy ===== *)
theory Bt_Fill
  imports Bt_Grow
begin

text \<open>
  Filling the index that a split, or the shift of the offsets, has left open: the page then holds the
  items with the new one among them.
\<close>

section \<open>Storing at an open index\<close>

lemma stores_overlay:
  assumes "stores h p src h1" "pg_wrn h1 (p + k) v = Some h2" "k + length v \<le> length src"
  shows "stores h p (take k src @ v @ drop (k + length v) src) h2"
proof -
  have r: "pg_rdn h1 p (length src) = Some src" using assms(1) by (simp add: stores_def)
  have "pg_rdn h2 p k = Some (take k src)"
    using pg_rdn_wrn_disjoint [OF assms(2), of p k] pg_rdn_part [OF r, of p k] assms(3) by simp
  moreover have "pg_rdn h2 (p + k) (length v) = Some v" using pg_rdn_wrn_inside [OF assms(2), of "p + k" "length v"] by simp
  ultimately have 1: "pg_rdn h2 p (k + length v) = Some (take k src @ v)" by (rule pg_rdn_append)
  have "pg_rdn h2 (p + (k + length v)) (length src - (k + length v)) = Some (drop (k + length v) src)"
    using pg_rdn_wrn_disjoint [OF assms(2), of "p + (k + length v)" "length src - (k + length v)"]
      pg_rdn_part [OF r, of "p + (k + length v)" "length src - (k + length v)"] assms(3) by simp
  from pg_rdn_append [OF 1 this] have "pg_rdn h2 p (length src) = Some (take k src @ v @ drop (k + length v) src)"
    using assms(3) by simp
  moreover have "same_header h h2" using same_header_trans [OF stores_headerD [OF assms(1)] pg_wrn_header [OF assms(2)]] .
  moreover have "pg_rdn h2 i n = pg_rdn h i n" if "i + n \<le> p \<or> p + length src \<le> i" for i n
    using pg_rdn_wrn_disjoint [OF assms(2), of i n] assms(1,3) that by (auto simp: stores_def)
  ultimately show ?thesis using assms(3) by (simp add: stores_def)
qed

text \<open>Offsets that are laid out for some items, whatever the header says of their number.\<close>

definition open_slots :: "PAGE \<Rightarrow> u8 list option list \<Rightarrow> bool" where
  "open_slots h ys \<longleftrightarrow> (\<exists>xs. slots h xs \<and> map (map_option snd) xs = ys)"

lemma open_page_slots: "open_page h ys \<longleftrightarrow> open_slots h ys \<and> unat (lower h) = BTDATAOFF + 2 * length ys"
  by (auto simp: open_page_def open_slots_def)

text \<open>Room for an item at an open index; whatever bytes of the item are then stored, the page holds it.\<close>

lemma take_room_open:
  assumes op: "open_slots h ys" and i: "i < length ys" "ys ! i = None" and it: "it \<noteq> []"
    and room: "2 * length ys + space 0 ys + isize it \<le> length (body h)"
  shows "\<exists>h2. take_room h i (isize it) = Some h2 \<and> BTDATAOFF \<le> unat (upper h2) \<and>
    unat (upper h2) + isize it \<le> BTDATAOFF + length (body h) \<and> length (body h2) = length (body h) \<and> links h2 = links h \<and>
    (\<forall>src h3. stores h2 (unat (upper h2)) src h3 \<and> length src \<le> isize it \<and> take (length it) src = it \<longrightarrow>
      open_slots h3 (ys[i := Some it]) \<and> lower h3 = lower h \<and> links h3 = links h \<and> length (body h3) = length (body h))"
proof -
  obtain xs where xs: "slots h xs" "map (map_option snd) xs = ys"
    using op by (auto simp: open_slots_def)
  have len: "length xs = length ys" using arg_cong [OF xs(2), of length] by simp
  have "ys ! i = map_option snd (xs ! i)" using nth_map [of i xs "map_option snd"] i(1) len unfolding xs(2) by simp
  then have ix: "i < length xs" "xs ! i = None" using i len by simp_all
  have sp: "unat (upper h) + space 0 ys = BTDATAOFF + length (body h)" by (rule slots_space [OF xs(1,2)])
  then have up: "unat (upper h - of_nat (isize it)) = unat (upper h) - isize it" using room by (simp add: unat_sub16)
  let ?h1 = "h\<lparr>upper := upper h - of_nat (isize it)\<rparr>"
  obtain h2 where h2: "set_linp ?h1 i (upper h - of_nat (isize it)) = Some h2"
    using set_linp_ok [of i ?h1] i room by auto
  note hd = same_headerD [OF set_linp_header [OF h2]]
  have "open_slots h3 (ys[i := Some it]) \<and> lower h3 = lower h \<and> links h3 = links h \<and> length (body h3) = length (body h)"
    if st: "stores h2 (unat (upper h2)) src h3" "length src \<le> isize it" "take (length it) src = it" for src h3
  proof -
    have F: "slots h3 (xs[i := Some (unat (upper h3), it)])" "lower h3 = lower h" "links h3 = links h"
      "length (body h3) = length (body h)"
      using fill_slots [OF xs(1) ix it _ h2 st] room sp len by auto
    moreover have "map (map_option snd) (xs[i := Some (unat (upper h3), it)]) = ys[i := Some it]"
      using xs(2) by (simp add: map_update)
    ultimately show ?thesis by (auto simp: open_slots_def)
  qed
  moreover have "take_room h i (isize it) = Some h2" using h2 by (simp add: take_room_def Let_def)
  moreover have "BTDATAOFF \<le> unat (upper h2)" "unat (upper h2) + isize it \<le> BTDATAOFF + length (body h)"
    using hd up sp room by auto
  ultimately show ?thesis using hd by (intro exI [of _ h2]) (auto simp: links_def)
qed

lemma open_full:
  assumes "open_page h (map Some its)"
  shows "page_items h its"
proof -
  obtain xs where xs: "slots h xs" "map (map_option snd) xs = map Some its" "unat (lower h) = BTDATAOFF + 2 * length its"
    using assms by (auto simp: open_page_def)
  have "\<forall>x\<in>set xs. x \<noteq> None"
  proof
    fix x assume "x \<in> set xs"
    then have "map_option snd x \<in> set (map Some its)" using xs(2) [symmetric] by auto
    then show "x \<noteq> None" by auto
  qed
  then have e: "xs = map Some (map the xs)" by (simp add: comp_def map_idI)
  then have "map (map_option snd) xs = map Some (map snd (map the xs))" by (metis (no_types, lifting) list.map_comp map_option_o_case_sum option.map(2) comp_def map_cong)
  then have s: "map snd (map the xs) = its" using xs(2) by (metis inj_map_eq_map inj_Some)
  then have "length (map the xs) = length its" by (metis length_map)
  then have "page_holds h (map the xs)" using slots_holds [of h "map the xs"] e xs(1,3) by simp
  then show ?thesis using s by (auto simp: page_items_def)
qed

section \<open>The items that a split stores\<close>

lemma WR_BINTERNAL_stores:
  assumes "BTDATAOFF \<le> p" "p + 9 \<le> BTDATAOFF + length (body h)"
  shows "\<exists>h'. WR_BINTERNAL h p (of_nat n) pg fl = Some h' \<and> stores h p (le_bytes32 (of_nat n) @ le_bytes32 pg @ [fl]) h'"
proof -
  let ?k = "le_bytes32 (of_nat n)" and ?d = "le_bytes32 pg"
  have 0: "stores h p [] h" using assms by (simp add: stores_nil)
  from assms obtain h1 where 1: "pg_wrn h p ?k = Some h1" "stores h p ?k h1"
    by (auto intro: stores_next [OF 0, of ?k])
  from assms obtain h2 where 2: "pg_wrn h1 (p + 4) ?d = Some h2" "stores h p (?k @ ?d) h2"
    by (auto intro: stores_next [OF 1(2), of ?d])
  from assms obtain h3 where 3: "pg_wrn h2 (p + 8) [fl] = Some h3" "stores h p (?k @ ?d @ [fl]) h3"
    by (auto intro: stores_next [OF 2(2), of "[fl]"])
  with 1 2 show ?thesis by (simp add: WR_BINTERNAL_def)
qed

lemma put_leaf_item_open:
  assumes op: "open_slots h ys" and i: "i < length ys" "ys ! i = None"
    and room: "2 * length ys + space 0 ys + NBLEAFDBT (length key) (length data) \<le> length (body h)"
  shows "\<exists>h'. Option.bind (take_room h i (NBLEAFDBT (length key) (length data))) (\<lambda>h. WR_BLEAF h (unat (upper h)) key data fl) = Some h' \<and>
    open_slots h' (ys[i := Some (leaf_bytes key data fl)]) \<and> lower h' = lower h \<and> links h' = links h \<and> length (body h') = length (body h)"
proof -
  let ?it = "leaf_bytes key data fl"
  have ne: "?it \<noteq> []" by (simp add: leaf_bytes_def)
  obtain h2 where T: "take_room h i (isize ?it) = Some h2" "BTDATAOFF \<le> unat (upper h2)"
    "unat (upper h2) + isize ?it \<le> BTDATAOFF + length (body h)" "length (body h2) = length (body h)"
    "\<forall>src h3. stores h2 (unat (upper h2)) src h3 \<and> length src \<le> isize ?it \<and> take (length ?it) src = ?it \<longrightarrow>
      open_slots h3 (ys[i := Some ?it]) \<and> lower h3 = lower h \<and> links h3 = links h \<and> length (body h3) = length (body h)"
    using take_room_open [OF op i ne] room by (auto simp: isize_leaf)
  have le: "length ?it \<le> isize ?it" by (rule isize_ge)
  have fit: "unat (upper h2) + length ?it \<le> BTDATAOFF + length (body h2)" using T(3,4) le by linarith
  obtain h3 where h3: "WR_BLEAF h2 (unat (upper h2)) key data fl = Some h3" "stores h2 (unat (upper h2)) ?it h3"
    using WR_BLEAF_stores [OF T(2) fit] by blast
  have "open_slots h3 (ys[i := Some ?it]) \<and> lower h3 = lower h \<and> links h3 = links h \<and> length (body h3) = length (body h)"
    using T(5) [rule_format, of ?it h3] h3(2) le by simp
  then show ?thesis using T(1) h3(1) by (intro exI [of _ h3]) (simp add: isize_leaf)
qed

lemma put_leaf_key_open:
  assumes op: "open_slots h ys" and i: "i < length ys" "ys ! i = None" and k: "ksize \<le> length (bl_key bl)"
    and room: "2 * length ys + space 0 ys + NBINTERNAL ksize \<le> length (body h)"
  shows "\<exists>h'. put_leaf_key h i bl (NBINTERNAL ksize) ksize no fl = Some h' \<and>
    open_slots h' (ys[i := Some (internal_bytes (take ksize (bl_key bl)) no fl)]) \<and> lower h' = lower h \<and> links h' = links h \<and>
    length (body h') = length (body h)"
proof -
  let ?it = "internal_bytes (take ksize (bl_key bl)) no fl"
  have ne: "?it \<noteq> []" by (simp add: internal_bytes_def)
  have sz: "isize ?it = NBINTERNAL ksize" using k by (simp add: isize_internal)
  obtain h2 where T: "take_room h i (isize ?it) = Some h2" "BTDATAOFF \<le> unat (upper h2)"
    "unat (upper h2) + isize ?it \<le> BTDATAOFF + length (body h)" "length (body h2) = length (body h)"
    "\<forall>src h3. stores h2 (unat (upper h2)) src h3 \<and> length src \<le> isize ?it \<and> take (length ?it) src = ?it \<longrightarrow>
      open_slots h3 (ys[i := Some ?it]) \<and> lower h3 = lower h \<and> links h3 = links h \<and> length (body h3) = length (body h)"
    using take_room_open [OF op i ne] room sz by auto
  have le: "length ?it \<le> isize ?it" "length ?it = 9 + ksize" using k by (rule_tac [1] isize_ge, simp)
  let ?w = "le_bytes32 (of_nat ksize) @ le_bytes32 no @ [fl]"
  obtain h3 where 3: "WR_BINTERNAL h2 (unat (upper h2)) (of_nat ksize) no fl = Some h3" "stores h2 (unat (upper h2)) ?w h3"
    using WR_BINTERNAL_stores [OF T(2), of h2 ksize no fl] T(3,4) le by auto
  have u: "upper h3 = upper h2" using same_headerD(6) [OF stores_headerD [OF 3(2)]] .
  obtain h4 where 4: "pg_wrn h3 (unat (upper h2) + length ?w) (take ksize (bl_key bl)) = Some h4"
    "stores h2 (unat (upper h2)) (?w @ take ksize (bl_key bl)) h4"
    using stores_next [OF 3(2), of "take ksize (bl_key bl)"] T(2,3,4) le k by auto
  have w: "?w @ take ksize (bl_key bl) = ?it" using k by (simp add: internal_bytes_def min_absorb2)
  have "open_slots h4 (ys[i := Some ?it]) \<and> lower h4 = lower h \<and> links h4 = links h \<and> length (body h4) = length (body h)"
    using T(5) [rule_format, of ?it h4] 4(2) [unfolded w] le(1) by simp
  moreover have "put_leaf_key h i bl (NBINTERNAL ksize) ksize no fl = Some h4"
    using T(1) 3(1) 4(1) sz u by (simp add: put_leaf_key_def)
  ultimately show ?thesis by blast
qed

lemma put_first_item_open:
  assumes op: "open_slots h ys" and i: "i < length ys" "ys ! i = None"
    and r: "page_items r its" "its \<noteq> []" "its ! 0 = internal_bytes k c fl"
    and room: "2 * length ys + space 0 ys + NBINTERNAL (length k) \<le> length (body h)"
  shows "\<exists>h'. put_first_item h i r (NBINTERNAL (length k)) = Some h' \<and>
    open_slots h' (ys[i := Some (internal_bytes k (pgno r) fl)]) \<and> lower h' = lower h \<and> links h' = links h \<and>
    length (body h') = length (body h)"
proof -
  let ?it = "internal_bytes k (pgno r) fl"
  have ne: "?it \<noteq> []" by (simp add: internal_bytes_def)
  have sz: "isize ?it = NBINTERNAL (length k)" "isize (its ! 0) = NBINTERNAL (length k)" using r(3) by (simp_all add: isize_internal)
  obtain p src where S: "linp r 0 = Some p" "pg_rdn r (unat p) (NBINTERNAL (length k)) = Some src"
    "length src = NBINTERNAL (length k)" "take (9 + length k) src = internal_bytes k c fl"
    using page_items_src [OF r(1), of 0] r(2,3) sz(2) by auto
  obtain h2 where T: "take_room h i (isize ?it) = Some h2" "BTDATAOFF \<le> unat (upper h2)"
    "unat (upper h2) + isize ?it \<le> BTDATAOFF + length (body h)" "length (body h2) = length (body h)"
    "\<forall>src h3. stores h2 (unat (upper h2)) src h3 \<and> length src \<le> isize ?it \<and> take (length ?it) src = ?it \<longrightarrow>
      open_slots h3 (ys[i := Some ?it]) \<and> lower h3 = lower h \<and> links h3 = links h \<and> length (body h3) = length (body h)"
    using take_room_open [OF op i ne] room sz by auto
  have le: "9 + length k \<le> NBINTERNAL (length k)" using isize_ge [of ?it] sz by simp
  obtain h3 where 3: "pg_wrn h2 (unat (upper h2)) src = Some h3"
    using pg_wrn_ok [OF T(2), of src h2] T(3,4) S(3) sz by auto
  note st = stores_wrn [OF 3]
  have u: "upper h3 = upper h2" using same_headerD(6) [OF stores_headerD [OF st]] .
  have l3: "length (body h3) = length (body h)" using pg_wrn_length [OF 3] T(4) by simp
  obtain h4 where 4: "pg_wrn h3 (unat (upper h2) + 4) (le_bytes32 (pgno r)) = Some h4"
    using pg_wrn_ok [of "unat (upper h2) + 4" "le_bytes32 (pgno r)" h3] T(2,3) l3 sz le by auto
  let ?src = "take 4 src @ le_bytes32 (pgno r) @ drop 8 src"
  have st4: "stores h2 (unat (upper h2)) ?src h4"
    using stores_overlay [OF st 4] S(3) le by simp
  have t4: "take 4 src = le_bytes32 (of_nat (length k))"
  proof -
    have "take 4 src = take 4 (take (9 + length k) src)" by simp
    also have "\<dots> = le_bytes32 (of_nat (length k))" unfolding S(4) internal_bytes_def by simp
    finally show ?thesis .
  qed
  have t8: "take (1 + length k) (drop 8 src) = fl # k"
  proof -
    have "take (1 + length k) (drop 8 src) = drop 8 (take (9 + length k) src)" by (simp add: drop_take)
    also have "\<dots> = fl # k" unfolding S(4) internal_bytes_def by simp
    finally show ?thesis .
  qed
  have "take (length ?it) ?src = ?it" using t4 t8 by (simp add: internal_bytes_def)
  moreover have "length ?src \<le> isize ?it" using S(3) sz le by simp
  ultimately have "open_slots h4 (ys[i := Some ?it]) \<and> lower h4 = lower h \<and> links h4 = links h \<and> length (body h4) = length (body h)"
    using T(5) [rule_format, of ?src h4] st4 by simp
  moreover have "put_first_item h i r (NBINTERNAL (length k)) = Some h4"
    using T(1) S(1,2) 3 4 sz u by (simp add: put_first_item_def put_copy_def take_room_def Let_def)
  ultimately show ?thesis by blast
qed

section \<open>Opening an index on a page that has room\<close>

lemma with_open_fill: "skip \<le> length its \<Longrightarrow> (with_open skip its)[skip := Some it] = map Some (take skip its @ it # drop skip its)"
  by (simp add: with_open_def list_update_append take_map drop_map)

lemma with_open_at: "skip \<le> length its \<Longrightarrow> with_open skip its ! skip = None"
  by (simp add: nth_with_open)

lemma space0_Some [simp]: "space n (map Some its) = (\<Sum>it\<leftarrow>its. isize it)"
  by (induction its) simp_all

lemma shift_open:
  assumes its: "page_items h its" and skip: "skip \<le> length its" and room: "\<not> pg_full h n"
  shows "\<exists>h'. shift_indices h skip = Some h' \<and> open_page h' (with_open skip its) \<and> links h' = links h \<and>
    length (body h') = length (body h)"
proof -
  obtain es where es: "page_holds h es" "its = map snd es" using its by (auto simp: page_items_def)
  let ?m = "length es"
  have P: "unat (lower h) = BTDATAOFF + 2 * ?m" "unat (lower h) \<le> unat (upper h)" "BTDATAOFF + length (body h) < 65536"
    "unat (upper h) + (\<Sum>e\<leftarrow>es. isize (snd e)) = BTDATAOFF + length (body h)"
    "\<forall>i < ?m. linp h i = Some (of_nat (fst (es ! i)))" "\<forall>e\<in>set es. entry_ok h e" "sorted_wrt apart es"
    using es(1) by (auto simp: page_holds_def)
  have up: "unat (lower h) + 2 \<le> unat (upper h)" using room P(2) pg_full_eq by simp
  have nx: "NEXTINDEX h = ?m" by (rule NEXTINDEX_eq [OF P(1)])
  let ?xs = "take skip (map Some es) @ None # drop skip (map Some es)"
  have "\<exists>h1. (if skip < NEXTINDEX h
        then pg_memmove h (BTDATAOFF + 2 * (skip + 1)) (BTDATAOFF + 2 * skip) ((NEXTINDEX h - skip) * 2)
        else Some h) = Some h1 \<and> same_header h h1 \<and> (\<forall>j < skip. linp h1 j = linp h j) \<and>
    (\<forall>j. skip < j \<and> j \<le> ?m \<longrightarrow> linp h1 j = linp h (j - 1)) \<and>
    (\<forall>off k. BTDATAOFF + 2 * ?m + 2 \<le> off \<longrightarrow> pg_rdn h1 off k = pg_rdn h off k)"
  proof (cases "skip < ?m")
    case True
    have "2 * ?m + 2 \<le> length (body h)" using up P(1,4) by simp
    from memmove_up [OF True this] show ?thesis using True nx by simp
  qed (use nx in auto)
  then obtain h1 where h1: "(if skip < NEXTINDEX h
        then pg_memmove h (BTDATAOFF + 2 * (skip + 1)) (BTDATAOFF + 2 * skip) ((NEXTINDEX h - skip) * 2)
        else Some h) = Some h1" "same_header h h1" "\<forall>j < skip. linp h1 j = linp h j"
    "\<forall>j. skip < j \<and> j \<le> ?m \<longrightarrow> linp h1 j = linp h (j - 1)"
    "\<forall>off k. BTDATAOFF + 2 * ?m + 2 \<le> off \<longrightarrow> pg_rdn h1 off k = pg_rdn h off k" by blast
  note hd = same_headerD [OF h1(2)]
  let ?h' = "h1\<lparr>lower := lower h1 + 2\<rparr>"
  have ent: "entry_ok h1 e" if "e \<in> set es" for e
  proof -
    have e: "entry_ok h e" using P(6) that by blast
    then have "unat (upper h) \<le> fst e" by (simp add: entry_ok_def)
    then show ?thesis using e h1(5) hd up P(1) by (simp add: entry_ok_def)
  qed
  have sk: "skip \<le> ?m" using skip es(2) by simp
  have sum: "(\<Sum>x\<leftarrow>?xs. case x of None \<Rightarrow> 0 | Some e \<Rightarrow> isize (snd e)) = (\<Sum>e\<leftarrow>es. isize (snd e))"
  proof -
    have m: "(\<Sum>x\<leftarrow>map Some ys. case x of None \<Rightarrow> 0 | Some e \<Rightarrow> isize (snd e)) = (\<Sum>e\<leftarrow>ys. isize (snd e))"
      for ys :: "(nat \<times> u8 list) list" by (induction ys) simp_all
    have "(\<Sum>e\<leftarrow>take skip es. isize (snd e)) + (\<Sum>e\<leftarrow>drop skip es. isize (snd e)) = (\<Sum>e\<leftarrow>es. isize (snd e))"
      by (rule sum_take_drop)
    then show ?thesis using m [of "take skip es"] m [of "drop skip es"] by (simp add: take_map drop_map)
  qed
  have sep: "slots_apart ?xs"
  proof -
    have "sorted_wrt apart (take skip es @ drop skip es)" using P(7) by simp
    note A = this [unfolded sorted_wrt_append]
    then show ?thesis by (auto simp: sorted_wrt_append take_map drop_map sorted_wrt_map simp del: split_paired_All)
  qed
  have "slots h1 ?xs"
    unfolding slots_def
  proof (intro conjI allI impI)
    fix j e assume j: "j < length ?xs \<and> ?xs ! j = Some e"
    then have n: "?xs ! j = (if j < skip then Some (es ! j) else if j = skip then None else Some (es ! (j - 1)))"
      using nth_insert [of skip "map Some es" j None] sk by auto
    show "linp h1 j = Some (of_nat (fst e))"
      using j n h1(3,4) P(5) sk by (auto split: if_splits)
  next
    fix e assume "Some e \<in> set ?xs"
    then have "e \<in> set es" by (auto simp: take_map drop_map dest: in_set_takeD in_set_dropD)
    then show "entry_ok h1 e" by (rule ent)
  next
    show "unat (upper h1) + (\<Sum>x\<leftarrow>?xs. case x of None \<Rightarrow> 0 | Some e \<Rightarrow> isize (snd e)) = BTDATAOFF + length (body h1)"
      using sum P(4) hd by simp
  qed (use hd P up sk sep in simp_all)
  then have "slots ?h' ?xs" by (simp add: lower_slots)
  moreover have "unat (lower ?h') = BTDATAOFF + 2 * length ?xs"
    using P(1,3,4) up hd sk unat_add16 [of "lower h" 2] by simp
  moreover have "map (map_option snd) ?xs = with_open skip its" by (simp add: with_open_def es(2) take_map drop_map)
  ultimately have "open_page ?h' (with_open skip its)"
    using sk es(2) by (auto simp: open_page_def)
  moreover have "shift_indices h skip = Some ?h'" using h1(1) by (simp add: shift_indices_def)
  ultimately show ?thesis using hd by (intro exI [of _ ?h']) (simp add: links_def)
qed

text \<open>The copies that the loops of the split take from an internal page.\<close>

lemma internal_sources:
  assumes "internal_page h rs" "flags h AND P_TYPE = P_BINTERNAL" "\<forall>r\<in>set rs. snd (snd r) AND P_BIGKEY = 0"
  shows "sources h (map internal_item rs)"
  unfolding sources_def
proof (intro conjI allI impI)
  show "NEXTINDEX h = length (map internal_item rs)" using internal_count [OF assms(1)] by simp
  fix i assume i: "i < length (map internal_item rs)"
  obtain k d fl where r: "rs ! i = (k, d, fl)" by (cases "rs ! i")
  have "rs ! i \<in> set rs" using i by simp
  then have fl: "fl AND P_BIGKEY = 0" using assms(3) r by fastforce
  show "9 \<le> length (map internal_item rs ! i)" using i r by (simp add: internal_item_def)
  obtain p src where S: "linp h i = Some p" "pg_rdn h (unat p) (isize (map internal_item rs ! i)) = Some src"
    "length src = isize (map internal_item rs ! i)" "take (length (map internal_item rs ! i)) src = map internal_item rs ! i"
    using page_items_src [of h "map internal_item rs" i] assms(1) i by (auto simp: internal_page_def)
  have "item_src h i = Some (isize (map internal_item rs ! i), False, src)"
    using internal_get [OF assms(1), of i k d fl] i r fl assms(2) S(1,2)
    by (simp add: item_src_def internal_item_def isize_internal)
  then show "\<exists>src. item_src h i = Some (isize (map internal_item rs ! i), False, src) \<and>
      length src = isize (map internal_item rs ! i) \<and> take (length (map internal_item rs ! i)) src = map internal_item rs ! i"
    using S(3,4) by blast
qed

end
