(* ===== verification/Bt_Halves.thy ===== *)
theory Bt_Halves
  imports Bt_Fill
begin

text \<open>
  Splitting a page, or the root, and storing the new item: the two pages have the items of the old one
  with the new item at its place, and no other page changes but for the link of a neighbour.
\<close>

section \<open>What a split leaves as it was\<close>

definition pages_moved :: "BTREE \<Rightarrow> BTREE \<Rightarrow> bool" where
  "pages_moved t t' \<longleftrightarrow>
     t' = t\<lparr>bt_mp := bt_mp t', bt_npages := bt_npages t', bt_free := bt_free t', bt_cursor := bt_cursor t'\<rparr>"

lemma pages_movedD:
  assumes "pages_moved t t'"
  shows "bt_spare t' = bt_spare t" "bt_malloc t' = bt_malloc t" "bt_grow t' = bt_grow t" "bt_cur t' = bt_cur t"
    "bt_stack t' = bt_stack t" "bt_psize t' = bt_psize t"
    "bt_ovflsize t' = bt_ovflsize t" "bt_order t' = bt_order t" "bt_last t' = bt_last t"
    "bt_cmp_fn t' = bt_cmp_fn t" "bt_pfx_fn t' = bt_pfx_fn t" "bt_flags t' = bt_flags t"
    "bt_panic t' = bt_panic t"
  by (subst assms [unfolded pages_moved_def], simp)+

lemma pages_moved_trans: "pages_moved a b \<Longrightarrow> pages_moved b c \<Longrightarrow> pages_moved a c"
  unfolding pages_moved_def by (cases a; cases b; cases c) simp

lemma pages_moved_set [simp]: "pages_moved t (set_page p h t)"
  by (simp add: pages_moved_def set_page_def)

lemma pages_moved_cursor [simp]: "pages_moved t (t\<lparr>bt_cursor := c\<rparr>)"
  by (simp add: pages_moved_def)

lemma pages_moved_only: "pages_only t t' \<Longrightarrow> pages_moved t t'"
  unfolding pages_only_def pages_moved_def by (cases t; cases t') simp

lemma tree_ok_cursor [simp]: "tree_ok (t\<lparr>bt_cursor := c\<rparr>) fs = tree_ok t fs"
  by (simp add: tree_ok_def)

section \<open>Two halves\<close>

text \<open>The items of a page on two pages, with the open index \<open>sk\<close> of the left or of the right one.\<close>

definition halves :: "nat \<Rightarrow> nat \<Rightarrow> u8 list list \<Rightarrow> nat \<Rightarrow> PAGE \<Rightarrow> PAGE \<Rightarrow> bool \<Rightarrow> nat \<Rightarrow> bool" where
  "halves full skip its ilen hl hr left sk \<longleftrightarrow> (\<exists>ls rs. open_page hl ls \<and> open_page hr rs \<and>
     ls @ rs = with_open skip its \<and> ls \<noteq> [] \<and> rs \<noteq> [] \<and>
     (if left then skip < length ls \<and> sk = skip else length ls \<le> skip \<and> sk = skip - length ls) \<and>
     2 * length ls + space ilen ls \<le> full \<and> 2 * length rs + space ilen rs \<le> full \<and>
     length (body hl) = full \<and> length (body hr) = full)"

lemma halves_left:
  assumes "ls @ rs = map Some a @ None # map Some b" "length a < length ls"
  shows "\<exists>b1 b2. b = b1 @ b2 \<and> ls = map Some a @ None # map Some b1 \<and> rs = map Some b2"
proof -
  obtain m where m: "length ls = Suc (length a + m)" using assms(2) less_iff_Suc_add by auto
  have "ls = take (length ls) (ls @ rs)" "rs = drop (length ls) (ls @ rs)" by simp_all
  then have "ls = map Some a @ None # map Some (take m b)" "rs = map Some (drop m b)"
    unfolding assms(1) m by (simp_all add: take_map drop_map)
  then show ?thesis by (intro exI [of _ "take m b"] exI [of _ "drop m b"]) simp
qed

lemma halves_right:
  assumes "ls @ rs = map Some a @ None # map Some b" "length ls \<le> length a"
  shows "\<exists>a1 a2. a = a1 @ a2 \<and> ls = map Some a1 \<and> rs = map Some a2 @ None # map Some b"
proof -
  have "ls = take (length ls) (ls @ rs)" "rs = drop (length ls) (ls @ rs)" by simp_all
  then have "ls = map Some (take (length ls) a)" "rs = map Some (drop (length ls) a) @ None # map Some b"
    unfolding assms(1) using assms(2) by (simp_all add: take_map drop_map)
  then show ?thesis by (intro exI [of _ "take (length ls) a"] exI [of _ "drop (length ls) a"]) simp
qed

text \<open>The page with the open index has room, and when an item is stored there both pages are full of items.\<close>

lemma halves_fill:
  assumes H: "halves full skip its ilen hl hr left sk" and skip: "skip \<le> length its"
  shows "\<exists>ys. open_page (if left then hl else hr) ys \<and> sk < length ys \<and> ys ! sk = None \<and>
    2 * length ys + space 0 ys + ilen \<le> full \<and> length (body hl) = full \<and> length (body hr) = full \<and>
    (\<forall>h it. open_page h (ys[sk := Some it]) \<longrightarrow> (\<exists>A B. page_items (if left then h else hl) A \<and>
       page_items (if left then hr else h) B \<and> A @ B = take skip its @ it # drop skip its \<and> A \<noteq> [] \<and> B \<noteq> []))"
proof -
  obtain ls rs where L: "open_page hl ls" "open_page hr rs" "ls @ rs = with_open skip its" "ls \<noteq> []" "rs \<noteq> []"
    "if left then skip < length ls \<and> sk = skip else length ls \<le> skip \<and> sk = skip - length ls"
    "2 * length ls + space ilen ls \<le> full" "2 * length rs + space ilen rs \<le> full"
    "length (body hl) = full" "length (body hr) = full"
    using H by (auto simp: halves_def)
  have w: "ls @ rs = map Some (take skip its) @ None # map Some (drop skip its)"
    using L(3) by (simp add: with_open_def take_map drop_map)
  have len: "length (take skip its) = skip" using skip by simp
  show ?thesis
  proof (cases left)
    case True
    then obtain b1 b2 where B: "drop skip its = b1 @ b2" "ls = map Some (take skip its) @ None # map Some b1" "rs = map Some b2"
      using halves_left [OF w] L(6) len by auto
    have fill: "ls[skip := Some it] = map Some (take skip its @ it # b1)" for it
      unfolding B(2) using skip by (simp add: list_update_append)
    have "\<exists>A B. page_items h A \<and> page_items hr B \<and> A @ B = take skip its @ it # drop skip its \<and> A \<noteq> [] \<and> B \<noteq> []"
      if "open_page h (ls[sk := Some it])" for h it
    proof -
      have "page_items h (take skip its @ it # b1)" using that L(6) True fill by (intro open_full) simp
      moreover have "page_items hr b2" using L(2) B(3) by (intro open_full) simp
      moreover have "b2 \<noteq> []" using L(5) B(3) by simp
      ultimately show ?thesis using B(1) by (intro exI [of _ "take skip its @ it # b1"] exI [of _ b2]) simp
    qed
    moreover have "ls ! sk = None" unfolding B(2) using L(6) True skip by (simp add: nth_append)
    moreover have "2 * length ls + space 0 ls + ilen \<le> full" using L(7) unfolding B(2) by simp
    ultimately show ?thesis using L True by (intro exI [of _ ls]) simp
  next
    case False
    then have le: "length ls \<le> length (take skip its)" using L(6) skip by simp
    obtain a1 a2 where B: "take skip its = a1 @ a2" "ls = map Some a1" "rs = map Some a2 @ None # map Some (drop skip its)"
      using halves_right [OF w le] by blast
    have sk: "sk = length a2" using L(6) False B(1,2) len by simp
    have fill: "rs[sk := Some it] = map Some (a2 @ it # drop skip its)" for it
      unfolding B(3) sk by (simp add: list_update_append)
    have "\<exists>A B. page_items hl A \<and> page_items h B \<and> A @ B = take skip its @ it # drop skip its \<and> A \<noteq> [] \<and> B \<noteq> []"
      if "open_page h (rs[sk := Some it])" for h it
    proof -
      have "page_items h (a2 @ it # drop skip its)" using that fill by (intro open_full) simp
      moreover have "page_items hl a1" using L(1) B(2) by (intro open_full) simp
      moreover have "a1 \<noteq> []" using L(4) B(2) by simp
      ultimately show ?thesis using B(1) by (intro exI [of _ a1] exI [of _ "a2 @ it # drop skip its"]) simp
    qed
    moreover have "rs ! sk = None" "sk < length rs" unfolding B(3) sk by (simp_all add: nth_append)
    moreover have "2 * length rs + space 0 rs + ilen \<le> full" using L(8) unfolding B(3) by simp
    ultimately show ?thesis using L False by (intro exI [of _ rs]) simp
  qed
qed

section \<open>The functions that split\<close>

text \<open>A full page with small items, and the memory for a split.\<close>

definition full_page :: "BTREE \<Rightarrow> u32 list \<Rightarrow> u32 \<Rightarrow> PAGE \<Rightarrow> u8 list list \<Rightarrow> nat \<Rightarrow> bool" where
  "full_page t fl p h its ilen \<longleftrightarrow> bt_mp t p = Some h \<and> pgno h = p \<and> p \<notin> set fl \<and> page_items h its \<and> sources h its \<and>
     BTDATAOFF + length (body h) = bt_psize t \<and> pg_full h ilen \<and> small_items (bt_psize t - BTDATAOFF) ilen its"

lemma full_pageD:
  assumes "full_page t fl p h its ilen"
  shows "bt_psize t - BTDATAOFF < (\<Sum>it\<leftarrow>its. isize it) + 2 * length its + ilen + 2"
    "2 * length its + (\<Sum>it\<leftarrow>its. isize it) \<le> bt_psize t - BTDATAOFF" "its \<noteq> []" "NEXTINDEX h = length its"
proof -
  have F: "page_items h its" "length (body h) = bt_psize t - BTDATAOFF" "pg_full h ilen"
    "small_items (bt_psize t - BTDATAOFF) ilen its" "sources h its"
    using assms by (auto simp: full_page_def)
  show 1: "bt_psize t - BTDATAOFF < (\<Sum>it\<leftarrow>its. isize it) + 2 * length its + ilen + 2"
    "2 * length its + (\<Sum>it\<leftarrow>its. isize it) \<le> bt_psize t - BTDATAOFF"
    using page_items_full [OF F(1)] F(2,3) by auto
  show "its \<noteq> []" using 1(1) F(4) by (auto simp: small_items_def)
  show "NEXTINDEX h = length its" using F(5) by (simp add: sources_def)
qed

lemma fresh_ok:
  assumes "length (body h) = bt_psize t - BTDATAOFF" "BTDATAOFF \<le> bt_psize t" "bt_psize t < 65536"
  shows "fresh_page (bt_psize t) (fresh t h no prev nxt ty)"
  using assms by (simp add: fresh_page_def fresh_def unat_of_nat16)

lemma fresh_links [simp]:
  "pgno (fresh t h no prev nxt ty) = no" "prevpg (fresh t h no prev nxt ty) = prev"
  "nextpg (fresh t h no prev nxt ty) = nxt" "flags (fresh t h no prev nxt ty) = ty AND P_TYPE"
  "body (fresh t h no prev nxt ty) = body h" "links (fresh t h no prev nxt ty) = (no, prev, nxt, ty AND P_TYPE)"
  by (simp_all add: fresh_def links_def)

lemma psplit_halves:
  assumes F: "full_page t fl p h its ilen" and skip: "skip \<le> length its"
    and l: "fresh_page (bt_psize t) l" and r: "fresh_page (bt_psize t) r"
  shows "\<exists>hl hr left sk c. bt_psplit t h l r skip ilen = Some (hl, hr, left, sk, c) \<and>
    halves (bt_psize t - BTDATAOFF) skip its ilen hl hr left sk \<and> links hl = links l \<and> links hr = links r"
proof -
  have s: "sources h its" "small_items (bt_psize t - BTDATAOFF) ilen its" using F by (simp_all add: full_page_def)
  have b: "length (body l) = bt_psize t - BTDATAOFF" "length (body r) = bt_psize t - BTDATAOFF"
    using l r by (auto simp: fresh_page_def)
  obtain hl hr left sk c ls rs where P: "bt_psplit t h l r skip ilen = Some (hl, hr, left, sk, c)"
    "open_page hl ls" "open_page hr rs" "ls @ rs = with_open skip its" "ls \<noteq> []" "rs \<noteq> []"
    "if left then skip < length ls \<and> sk = skip else length ls \<le> skip \<and> sk = skip - length ls"
    "2 * length ls + space ilen ls \<le> bt_psize t - BTDATAOFF" "2 * length rs + space ilen rs \<le> bt_psize t - BTDATAOFF"
    "links hl = links l" "links hr = links r" "length (body hl) = length (body l)" "length (body hr) = length (body r)"
    using bt_psplit_ok [OF s(1) skip s(2) full_pageD(1,2) [OF F] l r] by blast
  have "halves (bt_psize t - BTDATAOFF) skip its ilen hl hr left sk"
    unfolding halves_def using P(2-9,12,13) b by (intro exI [of _ ls] exI [of _ rs]) simp
  then show ?thesis using P(1,10,11) by blast
qed

lemma nextpg_slots: "slots (h\<lparr>nextpg := x\<rparr>) xs = slots h xs"
  by (simp add: slots_def entry_ok_def linp_def pg_rdn_def)

lemma holds_slots: "page_holds h es \<Longrightarrow> slots h (map Some es)"
  by (auto simp: page_holds_def slots_def comp_def sorted_wrt_map)

text \<open>
  The outcome of a split of the page \<open>p\<close> with the contents \<open>h\<close>: the pages \<open>l\<close> and \<open>r\<close> are the halves.
\<close>

definition split_done ::
  "BTREE \<Rightarrow> u32 list \<Rightarrow> PAGE \<Rightarrow> nat \<Rightarrow> u8 list list \<Rightarrow> nat \<Rightarrow> u32 \<Rightarrow> u32 \<Rightarrow> bool \<Rightarrow> nat \<Rightarrow> BTREE \<Rightarrow> u32 list \<Rightarrow> bool" where
  "split_done t fl h skip its ilen l r left sk t' fl' \<longleftrightarrow>
     tree_ok t' fl' \<and> set fl' \<subseteq> set fl \<and> l \<notin> set fl' \<and> r \<notin> set fl' \<and> l \<noteq> r \<and> r \<noteq> P_INVALID \<and>
     (r \<in> set fl \<or> bt_mp t r = None) \<and> pages_moved t t' \<and>
     (\<exists>hl hr. bt_mp t' l = Some hl \<and> bt_mp t' r = Some hr \<and> halves (bt_psize t - BTDATAOFF) skip its ilen hl hr left sk \<and>
        pgno hl = l \<and> pgno hr = r \<and> nextpg hl = r \<and> prevpg hr = l \<and>
        flags hl AND P_TYPE = flags h AND P_TYPE \<and> flags hr AND P_TYPE = flags h AND P_TYPE)"

lemma new_page:
  assumes ok: "tree_ok t fl" and mem: "memory t (Suc n)"
  shows "\<exists>p t' fl' h. bt_new t = (Some p, t') \<and> tree_ok t' fl' \<and> memory t' n \<and> bt_mp t' p = Some h \<and>
    length (body h) = bt_psize t - BTDATAOFF \<and> p < bt_npages t' \<and>
    p \<noteq> P_INVALID \<and> p \<notin> set fl' \<and> set fl' \<subseteq> set fl \<and> (p \<in> set fl \<or> bt_mp t p = None) \<and>
    pages_moved t t' \<and> (\<forall>q. q \<noteq> p \<longrightarrow> bt_mp t' q = bt_mp t q)"
proof -
  obtain p t' fl' h where N: "bt_new t = (Some p, t')" "tree_ok t' fl'" "memory t' n" "bt_mp t' p = Some h"
    "p \<noteq> P_INVALID" "p \<notin> set fl'" "set fl' \<subseteq> set fl" "p \<in> set fl \<or> bt_mp t p = None" "\<forall>q. q \<noteq> p \<longrightarrow> bt_mp t' q = bt_mp t q"
    using bt_new_ok [OF ok mem] by blast
  have m: "pages_moved t t'" by (rule pages_moved_only [OF pages_only_new [OF N(1)]])
  have "length (body h) = bt_psize t' - BTDATAOFF" "p < bt_npages t'" using N(2,4) by (auto simp: tree_ok_def)
  then show ?thesis using N m pages_movedD(6) [OF m] by auto
qed

lemma small_psize: "small_items (bt_psize t - BTDATAOFF) ilen its \<Longrightarrow> BTDATAOFF \<le> bt_psize t \<and> bt_psize t < 65536"
  by (auto simp: small_items_def)

lemma type_idem [simp]: "(x AND P_TYPE) AND P_TYPE = x AND P_TYPE" for x :: u32
  by (simp add: and.assoc)

lemma bt_root_ok:
  assumes ok: "tree_ok t fl" and mem: "memory t (Suc (Suc n))" and F: "full_page t fl p h its ilen"
    and skip: "skip \<le> length its"
  shows "\<exists>l r left sk t' fl'. bt_root t p skip ilen = Some (Some (l, r, if left then l else r, sk), t') \<and>
    split_done t fl h skip its ilen l r left sk t' fl' \<and> memory t' n \<and> l \<noteq> P_INVALID \<and> (l \<in> set fl \<or> bt_mp t l = None) \<and>
    (\<forall>q. q \<noteq> l \<and> q \<noteq> r \<longrightarrow> bt_mp t' q = bt_mp t q) \<and>
    (\<exists>hl hr. bt_mp t' l = Some hl \<and> bt_mp t' r = Some hr \<and> prevpg hl = P_INVALID \<and> nextpg hr = P_INVALID)"
proof -
  have h: "bt_mp t p = Some h" "p \<notin> set fl" "small_items (bt_psize t - BTDATAOFF) ilen its" using F by (simp_all add: full_page_def)
  note psz = small_psize [OF h(3)]
  obtain l t1 fl1 l0 where L: "bt_new t = (Some l, t1)" "tree_ok t1 fl1" "memory t1 (Suc n)" "bt_mp t1 l = Some l0"
    "length (body l0) = bt_psize t - BTDATAOFF" "l < bt_npages t1" "l \<noteq> P_INVALID" "l \<notin> set fl1" "set fl1 \<subseteq> set fl"
    "l \<in> set fl \<or> bt_mp t l = None" "pages_moved t t1" "\<forall>q. q \<noteq> l \<longrightarrow> bt_mp t1 q = bt_mp t q"
    using new_page [OF ok mem] by blast
  obtain r t2 fl2 r0 where R: "bt_new t1 = (Some r, t2)" "tree_ok t2 fl2" "memory t2 n" "bt_mp t2 r = Some r0"
    "length (body r0) = bt_psize t1 - BTDATAOFF" "r < bt_npages t2" "r \<noteq> P_INVALID" "r \<notin> set fl2" "set fl2 \<subseteq> set fl1"
    "r \<in> set fl1 \<or> bt_mp t1 r = None" "pages_moved t1 t2" "\<forall>q. q \<noteq> r \<longrightarrow> bt_mp t2 q = bt_mp t1 q"
    using new_page [OF L(2,3)] by blast
  have ne: "l \<noteq> r" using R(10) L(4,8) by auto
  have pl: "p \<noteq> l" "p \<noteq> r"
    using L(10) R(10) h(1,2) L(9) L(12) by (metis option.distinct(1) subsetD)+
  have eqs: "bt_psize t1 = bt_psize t" "bt_psize t2 = bt_psize t"
    using pages_movedD(6) [OF L(11)] pages_movedD(6) [OF R(11)] by simp_all
  have m2: "bt_mp t2 p = Some h" "bt_mp t2 l = Some l0" using L(12) R(12) pl ne h(1) L(4) by simp_all
  have lt: "l < bt_npages t2" using R(2) m2(2) by (auto simp: tree_ok_def)
  let ?fl = "fresh t2 l0 l P_INVALID r (flags h)" and ?fr = "fresh t2 r0 r l P_INVALID (flags h)"
  have fresh: "fresh_page (bt_psize t2) ?fl" "fresh_page (bt_psize t2) ?fr"
    using psz L(5) R(5) eqs by (intro fresh_ok; simp)+
  have "full_page t2 fl2 p h its ilen" using F m2(1) eqs(2) R(9) L(9) by (auto simp: full_page_def)
  then obtain hl hr left sk c where P: "bt_psplit t2 h ?fl ?fr skip ilen = Some (hl, hr, left, sk, c)"
    "halves (bt_psize t2 - BTDATAOFF) skip its ilen hl hr left sk" "links hl = links ?fl" "links hr = links ?fr"
    using psplit_halves [OF _ skip fresh] by blast
  let ?t' = "(set_page r hr (set_page l hl t2))\<lparr>bt_cursor := c\<rparr>"
  have len: "length (body hl) = bt_psize t2 - BTDATAOFF" "length (body hr) = bt_psize t2 - BTDATAOFF"
    using P(2) by (auto simp: halves_def)
  have tok1: "tree_ok (set_page l hl t2) fl2" using L(8) R(9) lt len by (intro tree_ok_set_page [OF R(2)]) auto
  have "tree_ok (set_page r hr (set_page l hl t2)) fl2"
    using tree_ok_set_page [OF tok1 R(8)] R(6) len by simp
  then have tok: "tree_ok ?t' fl2" by simp
  have "pages_moved t2 ?t'" using pages_moved_trans [OF pages_moved_set pages_moved_trans [OF pages_moved_set pages_moved_cursor]] .
  then have mv: "pages_moved t ?t'" using pages_moved_trans [OF L(11)] pages_moved_trans [OF R(11)] by blast
  have r_free: "r \<in> set fl \<or> bt_mp t r = None" using R(10) L(9,12) ne by auto
  have lk: "pgno hl = l" "prevpg hl = P_INVALID" "nextpg hl = r" "flags hl = flags h AND P_TYPE"
    "pgno hr = r" "prevpg hr = l" "nextpg hr = P_INVALID" "flags hr = flags h AND P_TYPE"
    using P(3,4) by (simp_all add: links_def)
  have "split_done t fl h skip its ilen l r left sk ?t' fl2"
    unfolding split_done_def
    using tok R(7,8,9) L(8,9) ne r_free mv P(2) eqs lk by (auto simp: set_page_def)
  moreover have "bt_root t p skip ilen = Some (Some (l, r, if left then l else r, sk), ?t')"
    using L(1) R(1) m2 R(4) P(1) by (simp add: bt_root_def split_pages_def Let_def)
  moreover have "memory ?t' n" using R(3) by (simp add: memory_def)
  moreover have "\<forall>q. q \<noteq> l \<and> q \<noteq> r \<longrightarrow> bt_mp ?t' q = bt_mp t q" using L(12) R(12) by simp
  moreover have "bt_mp ?t' l = Some hl" "bt_mp ?t' r = Some hr" using ne by simp_all
  ultimately show ?thesis using L(7,10) lk(2,7)
    by (intro exI [of _ l] exI [of _ r] exI [of _ left] exI [of _ sk] exI [of _ ?t'] exI [of _ fl2]) simp
qed

text \<open>The page after \<open>p\<close> is linked to the new page.\<close>

definition relinked :: "BTREE \<Rightarrow> PAGE \<Rightarrow> u32 \<Rightarrow> u32 \<Rightarrow> PAGE option" where
  "relinked t h r q = (if q = nextpg h \<and> nextpg h \<noteq> P_INVALID then map_option (prevpg_update (\<lambda>_. r)) (bt_mp t q) else bt_mp t q)"

lemma bt_page_ok:
  assumes ok: "tree_ok t fl" and mem: "memory t (Suc n)" and F: "full_page t fl p h its ilen"
    and skip: "skip \<le> length its" and bytes: "bt_malloc t = Some bytes" "length bytes = bt_psize t - BTDATAOFF"
    and nxt: "nextpg h \<noteq> P_INVALID \<longrightarrow> nextpg h \<notin> set fl \<and> nextpg h \<noteq> p \<and> bt_mp t (nextpg h) \<noteq> None"
  shows "\<exists>r left sk t' fl'. bt_page t p skip ilen = Some (Some (p, r, if left then p else r, sk), t') \<and>
    split_done t fl h skip its ilen p r left sk t' fl' \<and> memory t' n \<and>
    (\<forall>q. q \<noteq> p \<and> q \<noteq> r \<longrightarrow> bt_mp t' q = relinked t h r q) \<and>
    (\<exists>hl hr. bt_mp t' p = Some hl \<and> bt_mp t' r = Some hr \<and> prevpg hl = prevpg h \<and> nextpg hr = nextpg h)"
proof -
  have h: "bt_mp t p = Some h" "p \<notin> set fl" "small_items (bt_psize t - BTDATAOFF) ilen its" "pgno h = p" "page_items h its"
    "BTDATAOFF + length (body h) = bt_psize t"
    using F by (simp_all add: full_page_def)
  note psz = small_psize [OF h(3)]
  obtain r t1 fl1 r0 where R: "bt_new t = (Some r, t1)" "tree_ok t1 fl1" "memory t1 n" "bt_mp t1 r = Some r0"
    "length (body r0) = bt_psize t - BTDATAOFF" "r < bt_npages t1" "r \<noteq> P_INVALID" "r \<notin> set fl1" "set fl1 \<subseteq> set fl"
    "r \<in> set fl \<or> bt_mp t r = None" "pages_moved t t1" "\<forall>q. q \<noteq> r \<longrightarrow> bt_mp t1 q = bt_mp t q"
    using new_page [OF ok mem] by blast
  have ne: "p \<noteq> r" using R(10) h(1,2) by auto
  have eqs: "bt_psize t1 = bt_psize t" "bt_malloc t1 = bt_malloc t"
    using pages_movedD(6,2) [OF R(11)] by simp_all
  have p1: "bt_mp t1 p = Some h" "p \<notin> set fl1" "p < bt_npages t1" using R(2,9,12) ne h(1,2) by (auto simp: tree_ok_def)
  let ?fr = "fresh t1 r0 r p (nextpg h) (flags h)"
  let ?t2 = "set_page r ?fr t1"
  have fr: "fresh_page (bt_psize t1) ?fr" using psz R(5) eqs by (intro fresh_ok) simp_all
  have tok2: "tree_ok ?t2 fl1" using tree_ok_set_page [OF R(2,8,6)] R(5) eqs by simp
  have mv2: "pages_moved t ?t2" using pages_moved_trans [OF R(11) pages_moved_set] .
  have m2: "bt_mp ?t2 p = Some h" "bt_mp ?t2 r = Some ?fr" using p1(1) ne by simp_all
  have nx: "NEXTINDEX h = length its" by (rule full_pageD(4) [OF F])
  have start: "bt_page t p skip ilen =
     (if nextpg h = P_INVALID \<and> skip = length its then
        Some (Some (p, r, r, 0), set_page r (?fr\<lparr>lower := of_nat (BTDATAOFF + 2)\<rparr>) (set_page p (h\<lparr>nextpg := r\<rparr>) ?t2))
      else let l = fresh ?t2 (h\<lparr>body := bytes\<rparr>) p (prevpg h) r (flags h) in
        if nextpg h \<noteq> P_INVALID then
          case bt_mp ?t2 (nextpg h) of
            None \<Rightarrow> Some (None, ?t2)
          | Some tp \<Rightarrow>
              Option.bind (bt_psplit (set_page (nextpg h) (tp\<lparr>prevpg := r\<rparr>) ?t2) h l ?fr skip ilen)
                (\<lambda>s. Some (split_pages (set_page (nextpg h) (tp\<lparr>prevpg := r\<rparr>) ?t2) p r s))
        else Option.bind (bt_psplit ?t2 h l ?fr skip ilen) (\<lambda>s. Some (split_pages ?t2 p r s)))"
    using R(1,4) p1(1) h(4) nx bytes(1) eqs(2) ne by (simp add: bt_page_def Let_def cong: option.case_cong)
  show ?thesis
  proof (cases "nextpg h = P_INVALID \<and> skip = length its")
    case True
    let ?hl = "h\<lparr>nextpg := r\<rparr>" and ?hr = "?fr\<lparr>lower := of_nat (BTDATAOFF + 2)\<rparr>"
    let ?t' = "set_page r ?hr (set_page p ?hl ?t2)"
    have "tree_ok (set_page p ?hl ?t2) fl1" using tree_ok_set_page [OF tok2 p1(2)] p1(3) h(6) eqs by simp
    from tree_ok_set_page [OF this R(8)] have tok: "tree_ok ?t' fl1" using R(5,6) eqs by simp
    have small: "48 \<le> bt_psize t - BTDATAOFF" "4 * ilen \<le> bt_psize t - BTDATAOFF" using h(3) by (simp_all add: small_items_def)
    have op_r: "open_page ?hr [None]"
    proof -
      have "slots ?fr []" by (rule fresh_slots [OF fr])
      then have "slots ?fr [None]" using slots_open [of ?fr "[]"] fr small eqs(1) by (simp add: fresh_page_def)
      then have "slots ?hr [None]" by (simp add: lower_slots)
      then show ?thesis by (auto simp: open_page_def unat_of_nat16 intro!: exI [of _ "[None]"])
    qed
    have op_l: "open_page ?hl (map Some its)"
    proof -
      obtain es where es: "page_holds h es" "its = map snd es" using h(5) by (auto simp: page_items_def)
      then have "slots h (map Some es)" by (rule_tac holds_slots)
      then have "slots ?hl (map Some es)" by (simp add: nextpg_slots)
      then show ?thesis using es by (auto simp: open_page_def page_holds_def intro!: exI [of _ "map Some es"])
    qed
    have fit: "2 * length its + (\<Sum>it\<leftarrow>its. isize it) \<le> bt_psize t - BTDATAOFF" by (rule full_pageD(2) [OF F])
    have "halves (bt_psize t - BTDATAOFF) skip its ilen ?hl ?hr False 0"
      unfolding halves_def
      using op_l op_r True full_pageD(3) [OF F] fit small h(6) R(5)
      by (intro exI [of _ "map Some its"] exI [of _ "[None]"]) (simp add: with_open_def)
    moreover have "pages_moved t ?t'" using pages_moved_trans [OF mv2 pages_moved_trans [OF pages_moved_set pages_moved_set]] .
    ultimately have "split_done t fl h skip its ilen p r False 0 ?t' fl1"
      unfolding split_done_def using tok R(7-10) p1(2) ne h(4) by auto
    moreover have "bt_page t p skip ilen = Some (Some (p, r, if False then p else r, 0), ?t')" using start True by simp
    moreover have "memory ?t' n" using R(3) by (simp add: memory_def)
    moreover have "\<forall>q. q \<noteq> p \<and> q \<noteq> r \<longrightarrow> bt_mp ?t' q = relinked t h r q" using True R(12) by (simp add: relinked_def)
    moreover have "bt_mp ?t' p = Some ?hl" "bt_mp ?t' r = Some ?hr" using ne by simp_all
    ultimately show ?thesis
      by (intro exI [of _ r] exI [of _ False] exI [of _ "0 :: nat"] exI [of _ ?t'] exI [of _ fl1]) simp
  next
    case False
    let ?l0 = "fresh ?t2 (h\<lparr>body := bytes\<rparr>) p (prevpg h) r (flags h)"
    have nr: "nextpg h \<noteq> r" if "nextpg h \<noteq> P_INVALID" using nxt that R(10) by auto
    have "\<exists>t3. tree_ok t3 fl1 \<and> pages_moved t t3 \<and> bt_mp t3 p = Some h \<and> bt_mp t3 r = Some ?fr \<and> bt_npages t3 = bt_npages t1 \<and>
      bt_spare t3 = bt_spare t1 \<and> (\<forall>q. q \<noteq> r \<longrightarrow> bt_mp t3 q = relinked t h r q) \<and>
      bt_page t p skip ilen = Option.bind (bt_psplit t3 h ?l0 ?fr skip ilen) (\<lambda>s. Some (split_pages t3 p r s))"
    proof (cases "nextpg h = P_INVALID")
      case True
      then show ?thesis using start False tok2 mv2 m2 R(12)
        by (intro exI [of _ ?t2]) (simp add: relinked_def Let_def)
    next
      case N: False
      then have n: "nextpg h \<notin> set fl" "nextpg h \<noteq> p" "nextpg h \<noteq> r" using nxt nr by simp_all
      obtain tp where tp: "bt_mp t (nextpg h) = Some tp" using nxt N by auto
      have tp2: "bt_mp ?t2 (nextpg h) = Some tp" using tp n R(12) by simp
      have sz: "length (body tp) = bt_psize ?t2 - BTDATAOFF" "nextpg h < bt_npages ?t2" using tok2 tp2 by (auto simp: tree_ok_def)
      let ?t3 = "set_page (nextpg h) (tp\<lparr>prevpg := r\<rparr>) ?t2"
      have "nextpg h \<notin> set fl1" using n(1) R(9) by blast
      from tree_ok_set_page [OF tok2 this] have "tree_ok ?t3 fl1" using sz by simp
      moreover have "pages_moved t ?t3" using pages_moved_trans [OF mv2 pages_moved_set] .
      ultimately show ?thesis using start N tp tp2 n m2 R(12)
        by (intro exI [of _ ?t3]) (simp add: relinked_def Let_def)
    qed
    then obtain t3 where T: "tree_ok t3 fl1" "pages_moved t t3" "bt_mp t3 p = Some h" "bt_mp t3 r = Some ?fr"
      "bt_npages t3 = bt_npages t1" "bt_spare t3 = bt_spare t1" "\<forall>q. q \<noteq> r \<longrightarrow> bt_mp t3 q = relinked t h r q"
      "bt_page t p skip ilen = Option.bind (bt_psplit t3 h ?l0 ?fr skip ilen) (\<lambda>s. Some (split_pages t3 p r s))"
      by blast
    have e3: "bt_psize t3 = bt_psize t" using pages_movedD(6) [OF T(2)] .
    have fl: "fresh_page (bt_psize t3) ?l0" "fresh_page (bt_psize t3) ?fr"
      using fresh_ok [of "h\<lparr>body := bytes\<rparr>" ?t2] psz bytes(2) eqs fr e3 by simp_all
    have "full_page t3 fl1 p h its ilen" using F T(3) e3 p1(2) by (simp add: full_page_def)
    then obtain hl hr left sk c where P: "bt_psplit t3 h ?l0 ?fr skip ilen = Some (hl, hr, left, sk, c)"
      "halves (bt_psize t3 - BTDATAOFF) skip its ilen hl hr left sk" "links hl = links ?l0" "links hr = links ?fr"
      using psplit_halves [OF _ skip fl] by blast
    let ?t' = "(set_page r hr (set_page p hl t3))\<lparr>bt_cursor := c\<rparr>"
    have len: "length (body hl) = bt_psize t3 - BTDATAOFF" "length (body hr) = bt_psize t3 - BTDATAOFF"
      using P(2) by (auto simp: halves_def)
    have "tree_ok (set_page p hl t3) fl1" using tree_ok_set_page [OF T(1) p1(2)] p1(3) T(5) len by simp
    from tree_ok_set_page [OF this R(8)] have "tree_ok (set_page r hr (set_page p hl t3)) fl1" using R(6) T(5) len by simp
    then have tok: "tree_ok ?t' fl1" by simp
    have "pages_moved t3 ?t'" using pages_moved_trans [OF pages_moved_set pages_moved_trans [OF pages_moved_set pages_moved_cursor]] .
    then have mv: "pages_moved t ?t'" using pages_moved_trans [OF T(2)] by blast
    have lk: "pgno hl = p" "prevpg hl = prevpg h" "nextpg hl = r" "flags hl = flags h AND P_TYPE"
      "pgno hr = r" "prevpg hr = p" "nextpg hr = nextpg h" "flags hr = flags h AND P_TYPE"
      using P(3,4) by (simp_all add: links_def)
    have "split_done t fl h skip its ilen p r left sk ?t' fl1"
      unfolding split_done_def using tok R(7-10) p1(2) ne mv P(2) e3 lk by auto
    moreover have "bt_page t p skip ilen = Some (Some (p, r, if left then p else r, sk), ?t')"
      using T(8) P(1) by (simp add: split_pages_def)
    moreover have "memory ?t' n" using R(3) T(5,6) by (simp add: memory_def)
    moreover have "\<forall>q. q \<noteq> p \<and> q \<noteq> r \<longrightarrow> bt_mp ?t' q = relinked t h r q" using T(7) by simp
    moreover have "bt_mp ?t' p = Some hl" "bt_mp ?t' r = Some hr" using ne by simp_all
    ultimately show ?thesis using lk(2,7)
      by (intro exI [of _ r] exI [of _ left] exI [of _ sk] exI [of _ ?t'] exI [of _ fl1]) simp
  qed
qed

end
