(* ===== verification/Bt_Context.thy ===== *)
theory Bt_Context
  imports Bt_Update Bt_Halves
begin

text \<open>
  The path from a page up to the root as a context: for every page above, its keys, its children and the
  index that the path takes. What is plugged into the context may be replaced, and a node of the
  path may take one more child, as the split of a page does.
\<close>

section \<open>Links do not matter for the contents\<close>

definition alike :: "BTREE \<Rightarrow> BTREE \<Rightarrow> u32 set \<Rightarrow> bool" where
  "alike t t' P \<longleftrightarrow> (\<forall>q\<in>P. \<forall>h. bt_mp t q = Some h \<longrightarrow> (\<exists>x. bt_mp t' q = Some (h\<lparr>prevpg := x\<rparr>))) \<and>
     bt_cmp_fn t' = bt_cmp_fn t \<and> bt_psize t' = bt_psize t"

lemma page_items_prev [simp]: "page_items (h\<lparr>prevpg := x\<rparr>) its = page_items h its"
  by (simp add: page_items_def page_holds_def entry_ok_def linp_def pg_rdn_def)

lemma pages_prev [simp]:
  "leaf_page (h\<lparr>prevpg := x\<rparr>) rs = leaf_page h rs" "internal_page (h\<lparr>prevpg := x\<rparr>) rs' = internal_page h rs'"
  by (simp_all add: leaf_page_def internal_page_def)

lemma alike_at:
  assumes "alike t t' P" "p \<in> P"
  shows "leaf_at t p rs \<Longrightarrow> leaf_at t' p rs" "node_at t p ks cs \<Longrightarrow> node_at t' p ks cs"
proof -
  have A: "\<exists>x. bt_mp t' p = Some (h\<lparr>prevpg := x\<rparr>)" if "bt_mp t p = Some h" for h
    using assms that by (simp add: alike_def)
  have z: "bt_psize t' = bt_psize t" using assms(1) by (simp add: alike_def)
  show "leaf_at t' p rs" if L: "leaf_at t p rs"
  proof -
    obtain h where h: "bt_mp t p = Some h" "leaf_page h rs" "flags h AND P_TYPE = P_BLEAF" "pgno h = p"
      "BTDATAOFF + length (body h) = bt_psize t" "\<forall>r\<in>set rs. snd (snd r) = 0"
      using L by (rule leaf_atE)
    obtain x where "bt_mp t' p = Some (h\<lparr>prevpg := x\<rparr>)" using A [OF h(1)] by blast
    then show ?thesis unfolding leaf_at_def using h z by (intro exI [of _ "h\<lparr>prevpg := x\<rparr>"]) simp
  qed
  show "node_at t' p ks cs" if N: "node_at t p ks cs"
  proof -
    obtain h where h: "bt_mp t p = Some h" "internal_page h (map2 (\<lambda>k c. (k, c, 0)) ks cs)"
      "flags h AND P_TYPE = P_BINTERNAL" "pgno h = p" "BTDATAOFF + length (body h) = bt_psize t"
      and l: "length cs = length ks" "ks \<noteq> []"
      using N unfolding node_at_def by blast
    obtain x where "bt_mp t' p = Some (h\<lparr>prevpg := x\<rparr>)" using A [OF h(1)] by blast
    then show ?thesis unfolding node_at_def using h z l by (intro conjI exI [of _ "h\<lparr>prevpg := x\<rparr>"]) simp_all
  qed
qed

lemma between_cong:
  assumes "bt_cmp_fn t' = bt_cmp_fn t"
  shows "between t' = between t"
  unfolding fun_eq_iff between_def assms by simp

lemma alike_mono: "alike t t' P \<Longrightarrow> Q \<subseteq> P \<Longrightarrow> alike t t' Q"
  by (auto simp: alike_def)

lemma alikeD:
  assumes "alike t t' P"
  shows "bt_cmp_fn t' = bt_cmp_fn t" "between t' = between t"
proof -
  show "bt_cmp_fn t' = bt_cmp_fn t" using assms by (simp add: alike_def)
  then show "between t' = between t" by (rule between_cong)
qed

lemma tree_at_alike:
  "tree_at n okk t lo hi T \<Longrightarrow> alike t t' (set (pages T)) \<Longrightarrow> tree_at n okk t' lo hi T"
proof (induction n arbitrary: lo hi T)
  case 0
  then obtain p rs where T: "T = PLeaf p rs" "leaf_at t p rs" "keys_in okk t lo hi rs" by auto
  then show ?case
    using alike_at(1) [OF 0(2), of p rs] alikeD [OF 0(2)] by (simp add: keys_in_def)
next
  case (Suc n)
  then obtain p ks ts where T: "T = PNode p ks ts" "length ts = length ks" "node_at t p ks (map pno ts)"
    "sorted_wrt (below t) ks" "\<forall>k\<in>set ks. okk k" "\<forall>k\<in>set (tl ks). between t lo hi k"
    "\<forall>i < length ks. tree_at n okk t (low_bound ks lo i) (high_bound ks hi i) (ts ! i)" "first_ok lo ks"
    by auto
  have "tree_at n okk t' (low_bound ks lo i) (high_bound ks hi i) (ts ! i)" if "i < length ks" for i
    using Suc.IH T(2,7) that alike_mono [OF Suc.prems(2)] child_pages [of i ts p ks] unfolding T(1) by simp
  then show ?case
    using T alike_at(2) [OF Suc.prems(2), of p] alikeD [OF Suc.prems(2)] by auto
qed

section \<open>Nodes\<close>

definition node_ok ::
  "nat \<Rightarrow> (u8 list \<Rightarrow> bool) \<Rightarrow> BTREE \<Rightarrow> u8 list option \<Rightarrow> u8 list option \<Rightarrow> u8 list list \<Rightarrow> ptree list \<Rightarrow> bool" where
  "node_ok n okk t lo hi ks ts \<longleftrightarrow> length ts = length ks \<and> ks \<noteq> [] \<and> first_ok lo ks \<and> sorted_wrt (below t) ks \<and>
     (\<forall>k\<in>set ks. okk k) \<and> (\<forall>k\<in>set (tl ks). between t lo hi k) \<and>
     (\<forall>i < length ks. tree_at n okk t (low_bound ks lo i) (high_bound ks hi i) (ts ! i))"

lemma tree_at_node:
  "tree_at (Suc n) okk t lo hi T \<longleftrightarrow>
     (\<exists>p ks ts. T = PNode p ks ts \<and> node_at t p ks (map pno ts) \<and> node_ok n okk t lo hi ks ts)"
  by (auto simp: node_ok_def node_at_def)

text \<open>The same without the child at an index.\<close>

definition hole_ok ::
  "nat \<Rightarrow> (u8 list \<Rightarrow> bool) \<Rightarrow> BTREE \<Rightarrow> u8 list option \<Rightarrow> u8 list option \<Rightarrow> u8 list list \<Rightarrow> ptree list \<Rightarrow> nat \<Rightarrow> bool" where
  "hole_ok n okk t lo hi ks ts i \<longleftrightarrow> length ts = length ks \<and> i < length ks \<and> first_ok lo ks \<and> sorted_wrt (below t) ks \<and>
     (\<forall>k\<in>set ks. okk k) \<and> (\<forall>k\<in>set (tl ks). between t lo hi k) \<and>
     (\<forall>j < length ks. j \<noteq> i \<longrightarrow> tree_at n okk t (low_bound ks lo j) (high_bound ks hi j) (ts ! j))"

lemma node_hole: "node_ok n okk t lo hi ks ts \<Longrightarrow> i < length ks \<Longrightarrow> hole_ok n okk t lo hi ks ts i"
  by (simp add: node_ok_def hole_ok_def)

lemma hole_fill:
  "hole_ok n okk t lo hi ks ts i \<Longrightarrow> tree_at n okk t (low_bound ks lo i) (high_bound ks hi i) T \<Longrightarrow>
   node_ok n okk t lo hi ks (ts[i := T])"
  by (auto simp: node_ok_def hole_ok_def nth_list_update)

lemma hole_alike:
  assumes "hole_ok n okk t lo hi ks ts i" "\<forall>j < length ts. j \<noteq> i \<longrightarrow> alike t t' (set (pages (ts ! j)))"
    and "bt_cmp_fn t' = bt_cmp_fn t"
  shows "hole_ok n okk t' lo hi ks ts i"
proof -
  have "between t' = between t" by (rule between_cong [OF assms(3)])
  then show ?thesis using assms tree_at_alike by (auto simp: hole_ok_def)
qed

text \<open>A node split in two.\<close>

lemma node_split:
  assumes N: "node_ok n okk t lo hi (ka @ kb) (ta @ tb)" and len: "length ta = length ka" "ka \<noteq> []" "kb \<noteq> []"
    and K: "key_order okk (bt_cmp_fn t)"
  shows "node_ok n okk t lo (Some (hd kb)) ka ta" "node_ok n okk t (Some (hd kb)) hi kb tb"
    "okk (hd kb)" "between t lo hi (hd kb)"
proof -
  have D: "length tb = length kb" "first_ok lo (ka @ kb)" "sorted_wrt (below t) ka" "sorted_wrt (below t) kb"
    "\<forall>x\<in>set ka. \<forall>y\<in>set kb. bt_cmp_fn t x y < 0" "\<forall>k\<in>set ka. okk k" "\<forall>k\<in>set kb. okk k"
    "\<forall>k\<in>set (tl ka). between t lo hi k" "\<forall>k\<in>set kb. between t lo hi k"
    "\<forall>i < length ka + length kb. tree_at n okk t (low_bound (ka @ kb) lo i) (high_bound (ka @ kb) hi i) ((ta @ tb) ! i)"
    using N len by (auto simp: node_ok_def sorted_wrt_append)
  have hb: "hd kb \<in> set kb" using len(3) by simp
  show ok: "okk (hd kb)" and bt: "between t lo hi (hd kb)" using D(7,9) hb by blast+
  have k0: "hd (ka @ kb) = hd ka" using len(2) by simp
  have "tree_at n okk t (low_bound ka lo i) (high_bound ka (Some (hd kb)) i) (ta ! i)" if i: "i < length ka" for i
  proof -
    have "low_bound (ka @ kb) lo i = low_bound ka lo i" using i by (simp add: low_bound_def nth_append)
    moreover have "high_bound (ka @ kb) hi i = high_bound ka (Some (hd kb)) i"
    proof -
      have "Suc i < length (ka @ kb)" using i len(3) by (cases kb) simp_all
      then show ?thesis using i len(3) by (auto simp: high_bound_def nth_append hd_conv_nth)
    qed
    moreover have "(ta @ tb) ! i = ta ! i" using i len(1) by (simp add: nth_append)
    ultimately show ?thesis using D(10) [rule_format, of i] i by simp
  qed
  moreover have "between t lo (Some (hd kb)) k" if "k \<in> set (tl ka)" for k
    using D(8) D(5) that hb list.set_sel(2) [OF len(2) that] by (auto simp: between_def)
  ultimately show "node_ok n okk t lo (Some (hd kb)) ka ta"
    using D(2,3,6) len k0 by (simp add: node_ok_def first_ok_def)
  have "tree_at n okk t (low_bound kb (Some (hd kb)) i) (high_bound kb hi i) (tb ! i)" if i: "i < length kb" for i
  proof -
    have "low_bound (ka @ kb) lo (length ka + i) = low_bound kb (Some (hd kb)) i"
      using len(2,3) by (simp add: low_bound_def nth_append hd_conv_nth)
    moreover have "high_bound (ka @ kb) hi (length ka + i) = high_bound kb hi i"
      by (simp add: high_bound_def nth_append)
    moreover have "(ta @ tb) ! (length ka + i) = tb ! i" using len(1) by (simp add: nth_append)
    ultimately show ?thesis using D(10) [rule_format, of "length ka + i"] i by simp
  qed
  moreover have "between t (Some (hd kb)) hi k" if "k \<in> set (tl kb)" for k
  proof -
    have "k \<in> set kb" using list.set_sel(2) [OF len(3) that] .
    moreover have "bt_cmp_fn t (hd kb) k < 0" using D(4) that len(3) by (cases kb) auto
    ultimately show ?thesis using D(9) by (auto simp: between_def)
  qed
  ultimately show "node_ok n okk t (Some (hd kb)) hi kb tb"
    using D(1,4,7) len by (simp add: node_ok_def first_ok_def)
qed

text \<open>A child that has been split in two, at a key between.\<close>

definition sep ::
  "nat \<Rightarrow> (u8 list \<Rightarrow> bool) \<Rightarrow> BTREE \<Rightarrow> u8 list option \<Rightarrow> u8 list option \<Rightarrow> ptree \<Rightarrow> ptree \<Rightarrow> u8 list \<Rightarrow> bool" where
  "sep n okk t lo hi A B s \<longleftrightarrow> okk s \<and> between t lo hi s \<and> tree_at n okk t lo (Some s) A \<and> tree_at n okk t (Some s) hi B"

definition least_ok :: "(u8 list \<Rightarrow> bool) \<Rightarrow> (u8 list \<Rightarrow> u8 list \<Rightarrow> int) \<Rightarrow> bool" where
  "least_ok okk cmp \<longleftrightarrow> okk [] \<and> (\<forall>k. okk k \<longrightarrow> cmp [] k \<le> 0)"

lemma nth_ins:
  "i < length ks \<Longrightarrow> j \<le> length ks \<Longrightarrow>
   (take (Suc i) ks @ s # drop (Suc i) ks) ! j = (if j \<le> i then ks ! j else if j = Suc i then s else ks ! (j - 1))"
  using nth_insert [of "Suc i" ks j s] by auto

lemma nth_ins2:
  assumes "i < length ts" "j \<le> length ts"
  shows "(take i ts @ A # B # drop (Suc i) ts) ! j =
    (if j < i then ts ! j else if j = i then A else if j = Suc i then B else ts ! (j - 1))"
proof -
  have e: "take i ts @ A # B # drop (Suc i) ts = take (Suc i) (ts[i := A]) @ B # drop (Suc i) (ts[i := A])"
    using assms(1) by (simp add: upd_conv_take_nth_drop)
  show ?thesis unfolding e using nth_ins [of i "ts[i := A]" j B] assms by (auto simp: nth_list_update)
qed

context key_order
begin

lemma node_insert:
  assumes cmp: "bt_cmp_fn t = cmp" and H: "hole_ok n okk t lo hi ks ts i"
    and S: "sep n okk t (low_bound ks lo i) (high_bound ks hi i) A B s"
    and k: "okk k" "between t (low_bound ks lo i) (Some s) k" and least: "least_ok okk cmp"
    and ok: "\<forall>l. lo = Some l \<longrightarrow> okk l" "\<forall>u. hi = Some u \<longrightarrow> okk u"
  shows "node_ok n okk t lo hi (take (Suc i) ks @ s # drop (Suc i) ks) (take i ts @ A # B # drop (Suc i) ts)"
proof -
  let ?ks = "take (Suc i) ks @ s # drop (Suc i) ks" and ?ts = "take i ts @ A # B # drop (Suc i) ts"
  have D: "length ts = length ks" "i < length ks" "first_ok lo ks" "sorted_wrt (\<lambda>a b. cmp a b < 0) ks" "\<forall>k\<in>set ks. okk k"
    "\<forall>k\<in>set (tl ks). between t lo hi k"
    "\<forall>j < length ks. j \<noteq> i \<longrightarrow> tree_at n okk t (low_bound ks lo j) (high_bound ks hi j) (ts ! j)"
    using H cmp by (auto simp: hole_ok_def)
  have s: "okk s" "between t (low_bound ks lo i) (high_bound ks hi i) s" using S by (simp_all add: sep_def)
  have okn: "okk (ks ! j)" if "j < length ks" for j using D(5) that by simp
  have key: "cmp (ks ! i) k \<le> 0"
  proof (cases "i = 0")
    case True
    have "hd ks = ks ! 0" using D(2) by (cases ks) simp_all
    then show ?thesis
      using True D(3) k least by (auto simp: first_ok_def between_def low_bound_def cmp least_ok_def split: option.splits)
  qed (use k cmp in \<open>simp add: between_def low_bound_def\<close>)
  have "cmp k s < 0" using k(2) cmp by (simp add: between_def)
  then have at: "cmp (ks ! i) s < 0" using le_less_trans [OF okn [OF D(2)] k(1) s(1) key] by simp
  have before: "cmp (ks ! j) s < 0" if "j \<le> i" for j
  proof (cases "j = i")
    case False
    then have "cmp (ks ! j) (ks ! i) < 0" using sorted_wrt_nth_less [OF D(4), of j i] that D(2) by simp
    then show ?thesis using less_le_trans [of "ks ! j" "ks ! i" s] okn D(2) s(1) at that by simp
  qed (use at in simp)
  have nxt: "cmp s (ks ! Suc i) < 0" if "Suc i < length ks"
    using s(2) that cmp by (simp add: between_def high_bound_def)
  have after: "cmp s (ks ! j) < 0" if "i < j" "j < length ks" for j
  proof (cases "j = Suc i")
    case False
    then have "cmp (ks ! Suc i) (ks ! j) < 0" using sorted_wrt_nth_less [OF D(4), of "Suc i" j] that by simp
    then show ?thesis using less_le_trans [of s "ks ! Suc i" "ks ! j"] okn s(1) nxt that by simp
  qed (use nxt that in simp)
  have "sorted_wrt (\<lambda>a b. cmp a b < 0) (take (Suc i) ks @ drop (Suc i) ks)" using D(4) by simp
  note so = this [unfolded sorted_wrt_append]
  have "sorted_wrt (\<lambda>a b. cmp a b < 0) ?ks"
    using so before after by (auto simp: sorted_wrt_append in_set_conv_nth)
  moreover have "first_ok lo ?ks" using D(2,3) by (cases ks) (simp_all add: first_ok_def)
  moreover have "\<forall>k\<in>set ?ks. okk k" using D(5) s(1) by (auto dest: in_set_takeD in_set_dropD)
  moreover have "between t lo hi s" using child_between [OF cmp D(5,6,2) ok s] .
  then have "\<forall>k\<in>set (tl ?ks). between t lo hi k"
    using D(2,6) by (cases ks) (auto dest: in_set_takeD in_set_dropD)
  moreover have "tree_at n okk t (low_bound ?ks lo j) (high_bound ?ks hi j) (?ts ! j)" if j: "j < length ?ks" for j
  proof -
    have jl: "j \<le> length ks" "j \<le> length ts" "i < length ts" using j D(1,2) by simp_all
    note nk = nth_ins [OF D(2)] and nt = nth_ins2 [OF jl(3,2), of A B]
    have len: "length ?ks = Suc (length ks)" using D(2) by simp
    have lb: "low_bound ?ks lo j = (if j \<le> i then low_bound ks lo j else if j = Suc i then Some s else low_bound ks lo (j - 1))"
      using nk [OF jl(1), of s] by (auto simp: low_bound_def)
    have hb: "high_bound ?ks hi j = (if j < i then high_bound ks hi j else if j = i then Some s else
        if j = Suc i then high_bound ks hi i else high_bound ks hi (j - 1))"
      using nk [of "Suc j" s] len D(2) jl(1) by (auto simp: high_bound_def)
    consider "j < i" | "j = i" | "j = Suc i" | "Suc i < j" by linarith
    then show ?thesis
    proof cases
      case 1
      then show ?thesis unfolding lb hb nt using D(2,7) by simp
    next
      case 2
      then show ?thesis unfolding lb hb nt using S by (simp add: sep_def)
    next
      case 3
      then show ?thesis unfolding lb hb nt using S by (simp add: sep_def)
    next
      case 4
      then have "j - 1 < length ks" "j - 1 \<noteq> i" using jl by auto
      then show ?thesis unfolding lb hb nt using D(7) 4 by simp
    qed
  qed
  ultimately show ?thesis using D(1,2) cmp by (simp add: node_ok_def)
qed

end

end
