(* ===== verification/Bt_Path.thy ===== *)
theory Bt_Path
  imports Bt_Context "HOL-Library.Multiset"
begin

text \<open>The path from a page to the root as a list of frames, the deepest first, like the stack of the search.\<close>

section \<open>Contexts\<close>

type_synonym frame = "u32 \<times> u8 list list \<times> ptree list \<times> nat"

fun plug :: "frame list \<Rightarrow> ptree \<Rightarrow> ptree" where
  "plug [] T = T"
| "plug ((q, ks, ts, i) # fs) T = plug fs (PNode q ks (ts[i := T]))"

fun frame_ep :: "frame \<Rightarrow> EPGNO" where
  "frame_ep (q, ks, ts, i) = \<lparr>ep_pgno = q, ep_index = i\<rparr>"

text \<open>The page at the hole.\<close>

definition hole_page :: "frame list \<Rightarrow> u32 \<Rightarrow> bool" where
  "hole_page fs p \<longleftrightarrow> (case fs of [] \<Rightarrow> True | (q, ks, ts, i) # _ \<Rightarrow> i < length ts \<and> pno (ts ! i) = p)"

fun ctx_at ::
  "(u8 list \<Rightarrow> bool) \<Rightarrow> BTREE \<Rightarrow> u8 list option \<Rightarrow> u8 list option \<Rightarrow> nat \<Rightarrow> u8 list option \<Rightarrow> u8 list option \<Rightarrow>
   frame list \<Rightarrow> bool" where
  "ctx_at okk t lo0 hi0 m lo hi [] \<longleftrightarrow> lo = lo0 \<and> hi = hi0"
| "ctx_at okk t lo0 hi0 m lo hi ((q, ks, ts, i) # fs) \<longleftrightarrow> (\<exists>lo' hi'. lo = low_bound ks lo' i \<and> hi = high_bound ks hi' i \<and>
     node_at t q ks (map pno ts) \<and> hole_ok m okk t lo' hi' ks ts i \<and> hole_page fs q \<and>
     ctx_at okk t lo0 hi0 (Suc m) lo' hi' fs)"

lemma map_pno_upd: "i < length ts \<Longrightarrow> pno T = pno (ts ! i) \<Longrightarrow> map pno (ts[i := T]) = map pno ts"
  by (simp add: map_update list_update_same_conv)

lemma plug_tree:
  "ctx_at okk t lo0 hi0 m lo hi fs \<Longrightarrow> tree_at m okk t lo hi T \<Longrightarrow> hole_page fs (pno T) \<Longrightarrow>
   tree_at (m + length fs) okk t lo0 hi0 (plug fs T)"
proof (induction fs arbitrary: m lo hi T)
  case (Cons f fs)
  obtain q ks ts i where f: "f = (q, ks, ts, i)" by (cases f)
  obtain lo' hi' where C: "lo = low_bound ks lo' i" "hi = high_bound ks hi' i" "node_at t q ks (map pno ts)"
    "hole_ok m okk t lo' hi' ks ts i" "hole_page fs q" "ctx_at okk t lo0 hi0 (Suc m) lo' hi' fs"
    using Cons.prems(1) f by auto
  have p: "i < length ts" "pno (ts ! i) = pno T" using Cons.prems(3) f by (simp_all add: hole_page_def)
  have "node_ok m okk t lo' hi' ks (ts[i := T])" using hole_fill [OF C(4)] Cons.prems(2) C(1,2) by simp
  moreover have "node_at t q ks (map pno (ts[i := T]))" using map_pno_upd [OF p(1)] p(2) C(3) by simp
  ultimately have "tree_at (Suc m) okk t lo' hi' (PNode q ks (ts[i := T]))" unfolding tree_at_node by blast
  from Cons.IH [OF C(6) this] show ?case using C(5) f by simp
qed simp

text \<open>The bounds of the hole are admitted keys.\<close>

lemma ctx_bounds:
  "ctx_at okk t lo0 hi0 m lo hi fs \<Longrightarrow> \<forall>l. lo0 = Some l \<longrightarrow> okk l \<Longrightarrow> \<forall>u. hi0 = Some u \<longrightarrow> okk u \<Longrightarrow>
   (\<forall>l. lo = Some l \<longrightarrow> okk l) \<and> (\<forall>u. hi = Some u \<longrightarrow> okk u)"
proof (induction fs arbitrary: m lo hi)
  case (Cons f fs)
  obtain q ks ts i where f: "f = (q, ks, ts, i)" by (cases f)
  obtain lo' hi' where C: "lo = low_bound ks lo' i" "hi = high_bound ks hi' i" "hole_ok m okk t lo' hi' ks ts i"
    "ctx_at okk t lo0 hi0 (Suc m) lo' hi' fs"
    using Cons.prems(1) f by auto
  have "\<forall>k\<in>set ks. okk k" "i < length ks" using C(3) by (simp_all add: hole_ok_def)
  then show ?case using Cons.IH [OF C(4) Cons.prems(2,3)] C(1,2) by (auto simp: low_bound_def high_bound_def)
qed simp

section \<open>The pages of a context\<close>

fun cpages :: "frame list \<Rightarrow> u32 list" where
  "cpages [] = []"
| "cpages ((q, ks, ts, i) # fs) = q # concat (map pages (take i ts)) @ concat (map pages (drop (Suc i) ts)) @ cpages fs"

fun frames_ok :: "frame list \<Rightarrow> bool" where
  "frames_ok [] \<longleftrightarrow> True"
| "frames_ok ((q, ks, ts, i) # fs) \<longleftrightarrow> i < length ts \<and> frames_ok fs"

lemma ctx_frames: "ctx_at okk t lo0 hi0 m lo hi fs \<Longrightarrow> frames_ok fs"
  by (induction fs arbitrary: m lo hi rule: frames_ok.induct) (auto simp: hole_ok_def)

lemma concat_upd:
  "i < length ts \<Longrightarrow> concat (map f (ts[i := T])) = concat (map f (take i ts)) @ f T @ concat (map f (drop (Suc i) ts))"
  by (simp add: upd_conv_take_nth_drop)

lemma plug_pages: "frames_ok fs \<Longrightarrow> mset (pages (plug fs T)) = mset (cpages fs) + mset (pages T)"
proof (induction fs arbitrary: T rule: frames_ok.induct)
  case (2 q ks ts i fs)
  then show ?case by (simp add: concat_upd)
qed simp

lemma plug_pages_set: "frames_ok fs \<Longrightarrow> set (pages (plug fs T)) = set (cpages fs) \<union> set (pages T)"
  using plug_pages [of fs T] by (metis set_mset_mset set_mset_union)

lemma plug_distinct: "frames_ok fs \<Longrightarrow> distinct (pages (plug fs T)) \<longleftrightarrow> distinct (cpages fs @ pages T)"
  using plug_pages [of fs T] mset_eq_imp_distinct_iff [of "pages (plug fs T)" "cpages fs @ pages T"] by simp

section \<open>The leaves and the levels\<close>

fun lleft :: "frame list \<Rightarrow> (u32 \<times> leaf_rec list) list" where
  "lleft [] = []"
| "lleft ((q, ks, ts, i) # fs) = lleft fs @ concat (map leaves (take i ts))"

fun lright :: "frame list \<Rightarrow> (u32 \<times> leaf_rec list) list" where
  "lright [] = []"
| "lright ((q, ks, ts, i) # fs) = concat (map leaves (drop (Suc i) ts)) @ lright fs"

lemma plug_leaves: "frames_ok fs \<Longrightarrow> leaves (plug fs T) = lleft fs @ leaves T @ lright fs"
  by (induction fs arbitrary: T rule: frames_ok.induct) (simp_all add: concat_upd)

text \<open>The pages at a depth below a page.\<close>

fun level :: "nat \<Rightarrow> ptree \<Rightarrow> u32 list" where
  "level 0 T = [pno T]"
| "level (Suc d) (PLeaf p rs) = []"
| "level (Suc d) (PNode p ks ts) = concat (map (level d) ts)"

fun cleft :: "frame list \<Rightarrow> nat \<Rightarrow> u32 list" where
  "cleft [] d = []"
| "cleft ((q, ks, ts, i) # fs) d = cleft fs (Suc d) @ concat (map (level d) (take i ts))"

fun cright :: "frame list \<Rightarrow> nat \<Rightarrow> u32 list" where
  "cright [] d = []"
| "cright ((q, ks, ts, i) # fs) d = concat (map (level d) (drop (Suc i) ts)) @ cright fs (Suc d)"

lemma plug_level: "frames_ok fs \<Longrightarrow> level (length fs + d) (plug fs T) = cleft fs d @ level d T @ cright fs d"
proof (induction fs arbitrary: T d rule: frames_ok.induct)
  case (2 q ks ts i fs)
  then show ?case using "2.IH" [of "Suc d" "PNode q ks (ts[i := T])"] by (simp add: concat_upd)
qed simp

text \<open>The levels above the hole.\<close>

fun ctx_links :: "BTREE \<Rightarrow> frame list \<Rightarrow> bool" where
  "ctx_links t [] \<longleftrightarrow> True"
| "ctx_links t ((q, ks, ts, i) # fs) \<longleftrightarrow> leaf_links t (cleft fs 0 @ q # cright fs 0) \<and> ctx_links t fs"

definition tree_links :: "BTREE \<Rightarrow> ptree \<Rightarrow> bool" where
  "tree_links t T \<longleftrightarrow> (\<forall>d. leaf_links t (level d T))"

lemma plug_links:
  assumes "frames_ok fs"
  shows "tree_links t (plug fs T) \<longleftrightarrow> ctx_links t fs \<and> (\<forall>d. leaf_links t (cleft fs d @ level d T @ cright fs d))"
proof -
  have upper: "(\<forall>d < length fs. leaf_links t (level d (plug fs T))) \<longleftrightarrow> ctx_links t fs" for T
    using assms
  proof (induction fs arbitrary: T rule: frames_ok.induct)
    case (2 q ks ts i fs)
    have "(\<forall>d < Suc (length fs). P d) \<longleftrightarrow> (\<forall>d < length fs. P d) \<and> P (length fs)" for P by (auto simp: less_Suc_eq)
    then show ?case using 2 plug_level [of fs 0 "PNode q ks (ts[i := T])"] by auto
  qed simp
  have split: "(\<forall>d. P d) \<longleftrightarrow> (\<forall>d < m. P d) \<and> (\<forall>d. P (m + d :: nat))" for P m
    by (metis le_iff_add not_less)
  show ?thesis
    unfolding tree_links_def plug_level [OF assms, symmetric]
    using upper [of T] split [of "\<lambda>d. leaf_links t (level d (plug fs T))" "length fs"] by simp
qed

lemma level_leaves: "tree_at n okk t lo hi T \<Longrightarrow> level n T = map fst (leaves T)"
proof (induction n arbitrary: lo hi T)
  case (Suc n)
  then obtain p ks ts where T: "T = PNode p ks ts" "length ts = length ks"
    "\<forall>i < length ks. tree_at n okk t (low_bound ks lo i) (high_bound ks hi i) (ts ! i)"
    by auto
  have "level n (ts ! i) = map fst (leaves (ts ! i))" if "i < length ts" for i
    using Suc.IH [OF T(3) [rule_format, of i]] that T(2) by simp
  then have "map (level n) ts = map (\<lambda>x. map fst (leaves x)) ts" by (intro nth_equalityI) simp_all
  then have "concat (map (level n) ts) = concat (map (\<lambda>x. map fst (leaves x)) ts)" by (rule arg_cong)
  then show ?case unfolding T(1) level.simps leaves.simps map_concat map_map comp_def .
qed auto

lemma level_pages: "p \<in> set (level d T) \<Longrightarrow> p \<in> set (pages T)"
proof (induction T arbitrary: d)
  case (PLeaf p rs)
  then show ?case by (cases d) auto
next
  case (PNode p ks ts)
  then show ?case by (cases d) auto
qed

lemma cleft_pages: "p \<in> set (cleft fs d) \<Longrightarrow> p \<in> set (cpages fs)"
  by (induction fs d rule: cleft.induct) (auto dest: level_pages)

lemma cright_pages: "p \<in> set (cright fs d) \<Longrightarrow> p \<in> set (cpages fs)"
  by (induction fs d rule: cright.induct) (auto dest: level_pages)

section \<open>The path of a search\<close>

lemma sibling_pages:
  assumes "j < length ts" "j \<noteq> i"
  shows "set (pages (ts ! j)) \<subseteq> set (concat (map pages (take i ts)) @ concat (map pages (drop (Suc i) ts)))"
proof -
  have "ts ! j \<in> set (take i ts) \<or> ts ! j \<in> set (drop (Suc i) ts)"
  proof (cases "j < i")
    case True
    then show ?thesis using assms(1) by (auto simp: in_set_conv_nth)
  next
    case False
    then have "drop (Suc i) ts ! (j - Suc i) = ts ! j" "j - Suc i < length (drop (Suc i) ts)" using assms by simp_all
    then show ?thesis by (metis nth_mem)
  qed
  then show ?thesis by auto
qed

lemma ctx_alike:
  "ctx_at okk t lo0 hi0 m lo hi fs \<Longrightarrow> alike t t' (set (cpages fs)) \<Longrightarrow> ctx_at okk t' lo0 hi0 m lo hi fs"
proof (induction fs arbitrary: m lo hi)
  case (Cons f fs)
  obtain q ks ts i where f: "f = (q, ks, ts, i)" by (cases f)
  obtain lo' hi' where C: "lo = low_bound ks lo' i" "hi = high_bound ks hi' i" "node_at t q ks (map pno ts)"
    "hole_ok m okk t lo' hi' ks ts i" "hole_page fs q" "ctx_at okk t lo0 hi0 (Suc m) lo' hi' fs"
    using Cons.prems(1) f by auto
  have sub: "set (cpages fs) \<subseteq> set (cpages (f # fs))" "q \<in> set (cpages (f # fs))" unfolding f by auto
  have "set (pages (ts ! j)) \<subseteq> set (cpages (f # fs))" if "j < length ts" "j \<noteq> i" for j
    using sibling_pages [OF that] unfolding f by auto
  then have "\<forall>j < length ts. j \<noteq> i \<longrightarrow> alike t t' (set (pages (ts ! j)))" using alike_mono [OF Cons.prems(2)] by blast
  then have "hole_ok m okk t' lo' hi' ks ts i" using hole_alike [OF C(4)] alikeD [OF Cons.prems(2)] by blast
  moreover have "node_at t' q ks (map pno ts)" using alike_at(2) [OF Cons.prems(2) sub(2) C(3)] .
  moreover have "ctx_at okk t' lo0 hi0 (Suc m) lo' hi' fs" using Cons.IH [OF C(6) alike_mono [OF Cons.prems(2) sub(1)]] .
  ultimately show ?case using C(1,2,5) f by auto
qed simp

lemma alike_stack: "alike t (t\<lparr>bt_stack := s\<rparr>) P" "alike (t\<lparr>bt_stack := s\<rparr>) t P"
proof -
  have e: "\<exists>x. h = h\<lparr>prevpg := x\<rparr>" for h :: PAGE by (rule exI [of _ "prevpg h"]) simp
  show "alike t (t\<lparr>bt_stack := s\<rparr>) P" "alike (t\<lparr>bt_stack := s\<rparr>) t P" by (auto simp: alike_def intro: e)
qed

definition path_at ::
  "(u8 list \<Rightarrow> bool) \<Rightarrow> BTREE \<Rightarrow> frame list \<Rightarrow> u32 \<Rightarrow> leaf_rec list \<Rightarrow> u8 list option \<Rightarrow> u8 list option \<Rightarrow> bool" where
  "path_at okk t fs p rs lo hi \<longleftrightarrow>
     ctx_at okk t None None 0 lo hi fs \<and> hole_page fs p \<and> leaf_at t p rs \<and> keys_in okk t lo hi rs"

lemma path_tree: "path_at okk t fs p rs lo hi \<Longrightarrow> tree_at (length fs) okk t None None (plug fs (PLeaf p rs))"
  unfolding path_at_def using plug_tree [of okk t None None 0 lo hi fs "PLeaf p rs"] by auto

context key_order
begin

lemma descend_path:
  assumes "bt_cmp_fn t = cmp" "bt_flags t AND B_NODUPS \<noteq> 0" "okk key"
    and "ctx_at okk t None None n lo hi fs" "hole_page fs (pno T)" "tree_at n okk t lo hi T" "between t lo hi key"
    and "length fs + n \<le> 50" "bt_stack t = map frame_ep fs"
  shows "\<exists>p rs i exact fs' lo' hi'.
    bt_descend t key (pno T) = Some (Some (\<lparr>ep_pgno = p, ep_index = i\<rparr>, exact),
      t\<lparr>bt_stack := map frame_ep fs', bt_cur := \<lparr>ep_pgno = p, ep_index = i\<rparr>\<rparr>) \<and>
    path_at okk t fs' p rs lo' hi' \<and> plug fs' (PLeaf p rs) = plug fs T \<and> length fs' = length fs + n \<and>
    between t lo' hi' key \<and> place_in rs key i exact"
  using assms
proof (induction n arbitrary: t lo hi T fs)
  case 0
  then obtain p rs h where K: "T = PLeaf p rs" "leaf_at t p rs" "keys_in okk t lo hi rs" "bt_mp t p = Some h"
    "flags h AND P_BLEAF \<noteq> 0" "page_keys t h (map fst rs)"
    using leaf_at_keys [of t _ _] by (fastforce simp: keys_in_def leaf_keys_def)
  obtain p' rs' i exact path lo' hi' where D: "bt_descend t key (pno T) = Some (Some (\<lparr>ep_pgno = p', ep_index = i\<rparr>, exact),
      t\<lparr>bt_stack := path @ bt_stack t, bt_cur := \<lparr>ep_pgno = p', ep_index = i\<rparr>\<rparr>)"
    "length path = 0" "leaf_in 0 lo hi T p' rs' lo' hi'" "place_in rs' key i exact"
    using descend_tree [OF 0(1,2,3,6,7)] 0(8,9) by auto
  then show ?case using K 0
    by (intro exI [of _ p] exI [of _ rs] exI [of _ i] exI [of _ exact] exI [of _ fs] exI [of _ lo] exI [of _ hi])
      (simp add: path_at_def)
next
  case (Suc n)
  then obtain q ks ts where T: "T = PNode q ks ts" "length ts = length ks" "node_at t q ks (map pno ts)"
    "sorted_wrt (below t) ks" "\<forall>k\<in>set ks. okk k" "\<forall>k\<in>set (tl ks). between t lo hi k"
    "\<forall>i < length ks. tree_at n okk t (low_bound ks lo i) (high_bound ks hi i) (ts ! i)" "ks \<noteq> []"
    by (auto simp: node_at_def)
  have N: "node_ok n okk t lo hi ks ts" using Suc.prems(6) [unfolded tree_at_node] T(1) by auto
  obtain h where K: "bt_mp t q = Some h" "flags h AND P_BLEAF = 0" "pgno h = q" "page_keys t h ks"
    "\<forall>i < length ks. GETBINTERNAL h i =
       Some \<lparr>bi_ksize = length (ks ! i), bi_pgno = map pno ts ! i, bi_flags = 0, bi_key = ks ! i\<rparr>"
    using node_page_keys [OF T(3,4)] by blast
  obtain found ix where S: "bt_bsearch t key q 0 (NEXTINDEX h mod 65536) = Some (found, ix)"
    "if found then ix < length ks \<and> page_cmp t key h ks ix = 0
     else ix \<le> length ks \<and> (\<forall>i<ix. 0 < page_cmp t key h ks i) \<and>
       (\<forall>i. ix \<le> i \<and> i < length ks \<longrightarrow> page_cmp t key h ks i < 0)"
    using page_search [OF Suc.prems(1) K(1,4) T(5) Suc.prems(3)] by blast
  obtain index where index_def: "index = (if found then ix else if ix = 0 then 0 else ix - 1)" by blast
  have C: "index < length ks" "between t (low_bound ks lo index) (high_bound ks hi index) key"
    using child_range [OF Suc.prems(1) K(4) T(5,8) Suc.prems(3,7) S(2) index_def] by auto
  let ?f = "(q, ks, ts, index)"
  let ?t = "t\<lparr>bt_stack := map frame_ep (?f # fs)\<rparr>"
  have "ctx_at okk t None None n (low_bound ks lo index) (high_bound ks hi index) (?f # fs)"
    using T(1,3) Suc.prems(4,5) node_hole [OF N C(1)] by auto
  then have ctx: "ctx_at okk ?t None None n (low_bound ks lo index) (high_bound ks hi index) (?f # fs)"
    by (rule ctx_alike [OF _ alike_stack(1)])
  have hp: "hole_page (?f # fs) (pno (ts ! index))" using C(1) T(2) by (simp add: hole_page_def)
  have tr: "tree_at n okk ?t (low_bound ks lo index) (high_bound ks hi index) (ts ! index)"
    using tree_at_alike [OF T(7) [rule_format, OF C(1)] alike_stack(1)] .
  have "between ?t (low_bound ks lo index) (high_bound ks hi index) key" using C(2) by (simp add: between_def)
  then obtain p rs i exact fs' lo' hi' where IH: "bt_descend ?t key (pno (ts ! index)) =
      Some (Some (\<lparr>ep_pgno = p, ep_index = i\<rparr>, exact),
        ?t\<lparr>bt_stack := map frame_ep fs', bt_cur := \<lparr>ep_pgno = p, ep_index = i\<rparr>\<rparr>)"
    "path_at okk ?t fs' p rs lo' hi'" "plug fs' (PLeaf p rs) = plug (?f # fs) (ts ! index)"
    "length fs' = length (?f # fs) + n" "between ?t lo' hi' key" "place_in rs key i exact"
    using Suc.IH [OF _ _ Suc.prems(3) ctx hp tr] Suc.prems(1,2,8) by auto
  have push: "BT_PUSH t (pgno h) index = Some ?t" using Suc.prems(8,9) K(3) by (simp add: BT_PUSH_def)
  have "bt_descend t key q = bt_descend ?t key (pno (ts ! index))"
    using K(1,2,5) S(1) push C(1) T(2) by (subst bt_descend.simps) (simp add: Let_def index_def [symmetric])
  moreover have "path_at okk t fs' p rs lo' hi'"
    using IH(2) ctx_alike [OF _ alike_stack(2)] by (auto simp: path_at_def leaf_at_def keys_in_def between_def)
  ultimately show ?case
    using IH T(1,2) C(1)
    by (intro exI [of _ p] exI [of _ rs] exI [of _ i] exI [of _ exact] exI [of _ fs'] exI [of _ lo'] exI [of _ hi'])
      (simp add: between_def)
qed

end

end
