(* ===== verification/Bt_Parent.thy ===== *)
theory Bt_Parent
  imports Bt_Path
begin

text \<open>
  The item of a page that has been split off, for the page above: its key separates the two halves,
  and it is stored at an index that has been left open.
\<close>

section \<open>Storing an item\<close>

definition stores_item :: "(PAGE \<Rightarrow> nat \<Rightarrow> PAGE option) \<Rightarrow> u8 list \<Rightarrow> nat \<Rightarrow> bool" where
  "stores_item f it n \<longleftrightarrow> (\<forall>h ys i. open_page h ys \<and> i < length ys \<and> ys ! i = None \<and>
     2 * length ys + space 0 ys + n \<le> length (body h) \<longrightarrow>
     (\<exists>h'. f h i = Some h' \<and> open_page h' (ys[i := Some it]) \<and> links h' = links h \<and> length (body h') = length (body h)))"

definition leaf_store :: "u8 list \<Rightarrow> u8 list \<Rightarrow> u8 \<Rightarrow> nat \<Rightarrow> PAGE \<Rightarrow> nat \<Rightarrow> PAGE option" where
  "leaf_store key data fl n h i = Option.bind (take_room h i n) (\<lambda>h. WR_BLEAF h (unat (upper h)) key data fl)"

lemma stores_leaf:
  "stores_item (leaf_store key data fl (NBLEAFDBT (length key) (length data))) (leaf_bytes key data fl)
     (NBLEAFDBT (length key) (length data))"
  unfolding stores_item_def
proof (intro allI impI)
  fix h ys i
  assume A: "open_page h ys \<and> i < length ys \<and> ys ! i = None \<and>
    2 * length ys + space 0 ys + NBLEAFDBT (length key) (length data) \<le> length (body h)"
  then show "\<exists>h'. leaf_store key data fl (NBLEAFDBT (length key) (length data)) h i = Some h' \<and>
      open_page h' (ys[i := Some (leaf_bytes key data fl)]) \<and> links h' = links h \<and> length (body h') = length (body h)"
    using put_leaf_item_open [of h ys i key data fl] by (auto simp: open_page_slots leaf_store_def)
qed

lemma stores_leaf_key:
  assumes "n \<le> length (bl_key bl)"
  shows "stores_item (\<lambda>h i. put_leaf_key h i bl (NBINTERNAL n) n no fl)
    (internal_bytes (take n (bl_key bl)) no fl) (NBINTERNAL n)"
  unfolding stores_item_def
proof (intro allI impI)
  fix h ys i
  assume A: "open_page h ys \<and> i < length ys \<and> ys ! i = None \<and> 2 * length ys + space 0 ys + NBINTERNAL n \<le> length (body h)"
  then show "\<exists>h'. put_leaf_key h i bl (NBINTERNAL n) n no fl = Some h' \<and>
      open_page h' (ys[i := Some (internal_bytes (take n (bl_key bl)) no fl)]) \<and> links h' = links h \<and>
      length (body h') = length (body h)"
    using put_leaf_key_open [of h ys i n bl no fl] assms by (auto simp: open_page_slots)
qed

lemma stores_first_item:
  assumes "page_items r its" "its \<noteq> []" "its ! 0 = internal_bytes k c fl"
  shows "stores_item (\<lambda>h i. put_first_item h i r (NBINTERNAL (length k))) (internal_bytes k (pgno r) fl) (NBINTERNAL (length k))"
  unfolding stores_item_def
proof (intro allI impI)
  fix h ys i
  assume A: "open_page h ys \<and> i < length ys \<and> ys ! i = None \<and>
    2 * length ys + space 0 ys + NBINTERNAL (length k) \<le> length (body h)"
  then show "\<exists>h'. put_first_item h i r (NBINTERNAL (length k)) = Some h' \<and>
      open_page h' (ys[i := Some (internal_bytes k (pgno r) fl)]) \<and> links h' = links h \<and> length (body h') = length (body h)"
    using put_first_item_open [of h ys i r its k c fl] assms by (auto simp: open_page_slots)
qed

text \<open>Storing in the half that has the open index.\<close>

lemma halves_store:
  assumes "halves full skip its n hl hr left sk" "skip \<le> length its" "stores_item f it n"
  shows "\<exists>h A B. f (if left then hl else hr) sk = Some h \<and> links h = links (if left then hl else hr) \<and>
    length (body h) = full \<and> length (body hl) = full \<and> length (body hr) = full \<and>
    page_items (if left then h else hl) A \<and> page_items (if left then hr else h) B \<and>
    A @ B = take skip its @ it # drop skip its \<and> A \<noteq> [] \<and> B \<noteq> []"
proof -
  obtain ys where Y: "open_page (if left then hl else hr) ys" "sk < length ys" "ys ! sk = None"
    "2 * length ys + space 0 ys + n \<le> full" "length (body hl) = full" "length (body hr) = full"
    "\<forall>h it. open_page h (ys[sk := Some it]) \<longrightarrow> (\<exists>A B. page_items (if left then h else hl) A \<and>
       page_items (if left then hr else h) B \<and> A @ B = take skip its @ it # drop skip its \<and> A \<noteq> [] \<and> B \<noteq> [])"
    using halves_fill [OF assms(1,2)] by blast
  have "length (body (if left then hl else hr)) = full" using Y(5,6) by simp
  then obtain h where h: "f (if left then hl else hr) sk = Some h" "open_page h (ys[sk := Some it])"
    "links h = links (if left then hl else hr)" "length (body h) = full"
    using assms(3) [unfolded stores_item_def, rule_format, of "if left then hl else hr" ys sk] Y(1-4) by auto
  show ?thesis using Y(7) [rule_format, OF h(2)] h Y(5,6) by blast
qed

section \<open>Two halves of a page\<close>

primrec parted ::
  "nat \<Rightarrow> (u8 list \<Rightarrow> bool) \<Rightarrow> BTREE \<Rightarrow> u8 list option \<Rightarrow> u8 list option \<Rightarrow> ptree \<Rightarrow> ptree \<Rightarrow> bool" where
  "parted 0 okk t lo hi L R \<longleftrightarrow> (\<exists>p A r B. L = PLeaf p A \<and> R = PLeaf r B \<and> A \<noteq> [] \<and> B \<noteq> [] \<and>
     leaf_at t p A \<and> leaf_at t r B \<and> keys_in okk t lo hi (A @ B))"
| "parted (Suc n) okk t lo hi L R \<longleftrightarrow> (\<exists>r ks ts. R = PNode r ks ts \<and> sep (Suc n) okk t lo hi L R (hd ks))"

definition bounds_ok :: "(u8 list \<Rightarrow> bool) \<Rightarrow> u8 list option \<Rightarrow> u8 list option \<Rightarrow> bool" where
  "bounds_ok okk lo hi \<longleftrightarrow> (\<forall>l. lo = Some l \<longrightarrow> okk l) \<and> (\<forall>u. hi = Some u \<longrightarrow> okk u)"

context key_sep
begin

lemma least_ok: "least_ok okk cmp"
  using least by (simp add: least_ok_def)

lemma parted_leaves:
  assumes cmp: "bt_cmp_fn t = cmp" and K: "keys_in okk t lo hi (A @ B)" and ne: "A \<noteq> []" "B \<noteq> []"
    and at: "leaf_at t p A" "leaf_at t r B" and bd: "bounds_ok okk lo hi"
    and s: "okk s" "cmp (fst (last A)) s < 0" "cmp s (fst (hd B)) \<le> 0"
  shows "sep 0 okk t lo hi (PLeaf p A) (PLeaf r B) s"
proof -
  have so: "sorted_wrt (\<lambda>a b. cmp a b < 0) (map fst A)" "sorted_wrt (\<lambda>a b. cmp a b < 0) (map fst B)"
    and ok: "\<forall>x\<in>set (A @ B). okk (fst x) \<and> between t lo hi (fst x)"
    using K cmp by (auto simp: keys_in_def sorted_wrt_append)
  obtain a A' where A: "A = A' @ [a]" using ne(1) by (cases A rule: rev_cases) auto
  obtain b B' where B: "B = b # B'" using ne(2) by (cases B) auto
  have a: "okk (fst a)" "okk (fst b)" "cmp (fst a) s < 0" "cmp s (fst b) \<le> 0" using ok s A B by simp_all
  have left: "cmp (fst x) s < 0" if "x \<in> set A" for x
  proof -
    have "x = a \<or> cmp (fst x) (fst a) < 0" using so(1) that A by (auto simp: sorted_wrt_append)
    then show ?thesis using less_le_trans [of "fst x" "fst a" s] a ok s(1) that A by auto
  qed
  have right: "cmp s (fst x) \<le> 0" if "x \<in> set B" for x
  proof -
    have "x = b \<or> cmp (fst b) (fst x) < 0" using so(2) that B by auto
    then show ?thesis using le_less_trans [of s "fst b" "fst x"] a ok s(1) that B by auto
  qed
  have "between t lo None s"
    using between_up [OF cmp, of lo hi "fst a" s] a ok s(1) bd A by (simp add: bounds_ok_def)
  moreover have "between t None hi s"
    using between_down [OF cmp, of lo hi "fst b" s] a ok s(1) bd B by (simp add: bounds_ok_def)
  ultimately have "between t lo hi s" by (rule between_both)
  moreover have "keys_in okk t lo (Some s) A" "keys_in okk t (Some s) hi B"
    using so ok left right cmp by (auto simp: keys_in_def between_def)
  ultimately show ?thesis using at s(1) by (simp add: sep_def)
qed

text \<open>
  The size of the new item, its key, and what the insertion into a page above stores.
\<close>

definition parent_item ::
  "BTREE \<Rightarrow> PAGE \<Rightarrow> PAGE \<Rightarrow> u32 \<Rightarrow> u32 \<Rightarrow> u8 list \<Rightarrow> nat \<Rightarrow> (PAGE \<Rightarrow> nat \<Rightarrow> PAGE option) \<Rightarrow> bool" where
  "parent_item t lc rc p r s k f \<longleftrightarrow> stores_item f (internal_bytes s r 0) (NBINTERNAL (length s)) \<and>
     (\<forall>t' no lno h0 sk. bt_mp t' no = Some h0 \<and> bt_mp t' p = Some lc \<and> bt_mp t' r = Some rc \<longrightarrow>
        insert_parent t' no lno p r sk (NBINTERNAL (length s)) k =
          Option.bind (f h0 sk) (\<lambda>h. Some (RET_SUCCESS, set_page no h t')))"

lemma NBINTERNAL_mono: "n \<le> m \<Longrightarrow> NBINTERNAL n \<le> NBINTERNAL m"
  by (simp add: NBINTERNAL_def LALIGN_def div_le_mono)

lemma parent_leaf:
  assumes cmp: "bt_cmp_fn t = cmp" and pf: "bt_pfx_fn t = None \<or> bt_pfx_fn t = Some pfx"
    and P: "parted 0 okk t lo hi L R" and bd: "bounds_ok okk lo hi"
    and pg: "bt_mp t (pno L) = Some lc" "bt_mp t (pno R) = Some rc"
  shows "\<exists>s k f. parent_size t h lc rc skip = Some (NBINTERNAL (length s), k) \<and> sep 0 okk t lo hi L R s \<and>
    parent_item t lc rc (pno L) (pno R) s k f"
proof -
  obtain p A r B where D: "L = PLeaf p A" "R = PLeaf r B" "A \<noteq> []" "B \<noteq> []" "leaf_at t p A" "leaf_at t r B"
    "keys_in okk t lo hi (A @ B)"
    using P by auto
  have lc: "leaf_page lc A" "NEXTINDEX lc = length A" using D(1,5) pg(1) by (auto simp: leaf_at_def leaf_count)
  have rc: "leaf_page rc B" "flags rc AND P_TYPE = P_BLEAF" "pgno rc = r" "\<forall>x\<in>set B. snd (snd x) = 0"
    using D(2,6) pg(2) by (auto simp: leaf_at_def)
  obtain b db where b: "B ! 0 = (b, db, 0)" "hd B = (b, db, 0)"
  proof -
    have "snd (snd (hd B)) = 0" using rc(4) D(4) by simp
    then show ?thesis using D(4) that by (cases "hd B") (simp add: hd_conv_nth)
  qed
  obtain a da fa where a: "A ! (length A - 1) = (a, da, fa)" "last A = (a, da, fa)"
    using D(3) by (cases "last A") (simp add: last_conv_nth)
  let ?bl = "\<lparr>bl_ksize = length b, bl_dsize = length db, bl_flags = 0, bl_key = b, bl_data = db\<rparr>"
  have gr: "GETBLEAF rc 0 = Some ?bl" using leaf_get [OF rc(1) _ b(1)] D(4) by simp
  have gl: "GETBLEAF lc (length A - 1) = Some \<lparr>bl_ksize = length a, bl_dsize = length da, bl_flags = fa, bl_key = a, bl_data = da\<rparr>"
    using leaf_get [OF lc(1) _ a(1)] D(3) by simp
  have "last A \<in> set A" "hd B \<in> set B" using D(3,4) by simp_all
  then have mem: "(a, da, fa) \<in> set A" "(b, db, 0) \<in> set B" using a(2) b(2) by simp_all
  have "\<forall>x\<in>set A. \<forall>y\<in>set B. cmp (fst x) (fst y) < 0" "\<forall>x\<in>set A. okk (fst x)" "\<forall>x\<in>set B. okk (fst x)"
    using D(7) cmp by (auto simp: keys_in_def sorted_wrt_append)
  from this(2) [THEN bspec, OF mem(1)] this(3) [THEN bspec, OF mem(2)] this(1) [THEN bspec, OF mem(1), THEN bspec, OF mem(2)]
  have ab: "okk a" "okk b" "cmp a b < 0" by simp_all
  note S = parted_leaves [OF cmp D(7,3,4,5,6) bd]
  have ins: "parent_item t lc rc (pno L) (pno R) (take n b) k (\<lambda>h i. put_leaf_key h i ?bl (NBINTERNAL n) n r 0)"
    if "n \<le> length b" "n = (if k \<noteq> 0 then k else length b)" for n k
    using stores_leaf_key [of n ?bl r 0] that rc(2,3) gr D(1,2)
    by (auto simp: parent_item_def insert_parent_def min_absorb2 Let_def)
  let ?short = "parent_size t h lc rc skip = Some (NBINTERNAL (pfx a b), pfx a b) \<and> pfx a b \<le> length b"
  have "?short \<or> parent_size t h lc rc skip = Some (NBINTERNAL (length b), 0)"
  proof -
    have le: "pfx a b \<le> length b" if "NBINTERNAL (pfx a b) < NBINTERNAL (length b)"
      using NBINTERNAL_mono [of "length b" "pfx a b"] that by linarith
    have whole: "parent_size t h lc rc skip = Some (NBINTERNAL (length b), 0)"
      if "bt_pfx_fn t = None \<or> \<not> (prevpg h \<noteq> P_INVALID \<or> 1 < skip)"
      using that rc(2) gr by (auto simp: parent_size_def Let_def split: option.splits)
    have short: "parent_size t h lc rc skip = Some (if NBINTERNAL (pfx a b) < NBINTERNAL (length b)
        then (NBINTERNAL (pfx a b), pfx a b) else (NBINTERNAL (length b), 0))"
      if "bt_pfx_fn t = Some pfx" "prevpg h \<noteq> P_INVALID \<or> 1 < skip"
      using that rc(2) gr gl lc(2) D(3) unfolding parent_size_def by (simp add: Let_def)
    show ?thesis
    proof (cases "bt_pfx_fn t = None \<or> \<not> (prevpg h \<noteq> P_INVALID \<or> 1 < skip)")
      case False
      then have "bt_pfx_fn t = Some pfx" "prevpg h \<noteq> P_INVALID \<or> 1 < skip" using pf by auto
      from short [OF this] le show ?thesis by (cases "NBINTERNAL (pfx a b) < NBINTERNAL (length b)") simp_all
    qed (use whole in simp)
  qed
  then show ?thesis
  proof
    assume sh: ?short
    note sp = separates [OF ab] and pos = separator_pos [OF ab]
    have "sep 0 okk t lo hi L R (take (pfx a b) b)" unfolding D(1,2) using S [of "take (pfx a b) b"] sp a(2) b(2) by simp
    then show ?thesis using sh ins [of "pfx a b" "pfx a b"] pos
      by (intro exI [of _ "take (pfx a b) b"] exI [of _ "pfx a b"]) (auto simp: min_absorb2)
  next
    assume w: "parent_size t h lc rc skip = Some (NBINTERNAL (length b), 0)"
    have "sep 0 okk t lo hi L R b" unfolding D(1,2) using S [of b] ab cmp_refl a(2) b(2) by simp
    then show ?thesis using w ins [of "length b" 0] by (intro exI [of _ b] exI [of _ 0]) auto
  qed
qed

lemma node_items:
  assumes "node_at t p ks cs" "bt_mp t p = Some h"
  shows "internal_page h (map2 (\<lambda>k c. (k, c, 0)) ks cs)" "flags h AND P_TYPE = P_BINTERNAL" "pgno h = p"
    "BTDATAOFF + length (body h) = bt_psize t" "length cs = length ks" "ks \<noteq> []"
    "page_items h (map2 (\<lambda>k c. internal_bytes k c 0) ks cs)"
proof -
  show I: "internal_page h (map2 (\<lambda>k c. (k, c, 0)) ks cs)" "flags h AND P_TYPE = P_BINTERNAL" "pgno h = p"
    "BTDATAOFF + length (body h) = bt_psize t" "length cs = length ks" "ks \<noteq> []"
    using assms by (auto simp: node_at_def)
  have "map internal_item (map2 (\<lambda>k c. (k, c, 0)) ks cs) = map2 (\<lambda>k c. internal_bytes k c 0) ks cs"
    by (simp add: internal_item_def case_prod_beta)
  moreover have "page_items h (map internal_item (map2 (\<lambda>k c. (k, c, 0)) ks cs))" using I(1) by (simp only: internal_page_def)
  ultimately show "page_items h (map2 (\<lambda>k c. internal_bytes k c 0) ks cs)" by (simp only:)
qed

lemma parent_node:
  assumes P: "parted (Suc n) okk t lo hi L R" and pg: "bt_mp t (pno L) = Some lc" "bt_mp t (pno R) = Some rc"
  shows "\<exists>s k f. parent_size t h lc rc skip = Some (NBINTERNAL (length s), k) \<and> sep (Suc n) okk t lo hi L R s \<and>
    parent_item t lc rc (pno L) (pno R) s k f"
proof -
  obtain r ks ts where D: "R = PNode r ks ts" "sep (Suc n) okk t lo hi L R (hd ks)" using P by auto
  have N: "node_at t r ks (map pno ts)" using D by (auto simp: sep_def)
  have "bt_mp t r = Some rc" using pg(2) D(1) by simp
  note I = node_items [OF N this]
  let ?its = "map2 (\<lambda>k c. internal_bytes k c 0) ks (map pno ts)"
  have ne: "0 < length ks" "0 < length ts" using I(5,6) by auto
  have it: "?its \<noteq> []" "?its ! 0 = internal_bytes (hd ks) (pno (ts ! 0)) 0"
    using ne by (simp_all add: hd_conv_nth)
  have "map2 (\<lambda>k c. (k, c, 0 :: u8)) ks (map pno ts) ! 0 = (hd ks, pno (ts ! 0), 0)" using ne by (simp add: hd_conv_nth)
  from internal_get [OF I(1) _ this] have get: "GETBINTERNAL rc 0 =
      Some \<lparr>bi_ksize = length (hd ks), bi_pgno = pno (ts ! 0), bi_flags = 0, bi_key = hd ks\<rparr>"
    using ne by simp
  have "parent_size t h lc rc skip = Some (NBINTERNAL (length (hd ks)), 0)" using I(2) get by (simp add: parent_size_def)
  moreover have "parent_item t lc rc (pno L) (pno R) (hd ks) 0 (\<lambda>h i. put_first_item h i rc (NBINTERNAL (length (hd ks))))"
    using stores_first_item [OF I(7) it] I(2,3) D(1) by (auto simp: parent_item_def insert_parent_def)
  ultimately show ?thesis using D(2) by blast
qed

lemma parent_entry:
  assumes "bt_cmp_fn t = cmp" "bt_pfx_fn t = None \<or> bt_pfx_fn t = Some pfx"
    and "parted m okk t lo hi L R" "bounds_ok okk lo hi" "bt_mp t (pno L) = Some lc" "bt_mp t (pno R) = Some rc"
  shows "\<exists>s k f. parent_size t h lc rc skip = Some (NBINTERNAL (length s), k) \<and> sep m okk t lo hi L R s \<and>
    parent_item t lc rc (pno L) (pno R) s k f"
proof (cases m)
  case 0
  then show ?thesis using parent_leaf [OF assms(1,2) _ assms(4,5,6)] assms(3) by simp
next
  case (Suc n)
  then show ?thesis using parent_node [OF _ assms(5,6)] assms(3) by simp
qed

end

end
