(* ===== verification/Bt_Relink.thy ===== *)
theory Bt_Relink
  imports Bt_Parent
begin

text \<open>
  The links between neighbours when a page is split: the new page is between the page and its right
  neighbour, and the links of the pages at the other depths are as they were.
\<close>

section \<open>Chains of pages\<close>

fun sib_chain :: "BTREE \<Rightarrow> u32 \<Rightarrow> u32 list \<Rightarrow> u32 \<Rightarrow> bool" where
  "sib_chain t x [] y \<longleftrightarrow> True"
| "sib_chain t x (p # ps) y \<longleftrightarrow>
     (\<forall>h. bt_mp t p = Some h \<longrightarrow> prevpg h = x \<and> nextpg h = hd (ps @ [y])) \<and> sib_chain t p ps y"

lemma all_less_Suc: "(\<forall>i < Suc n. P i) \<longleftrightarrow> P 0 \<and> (\<forall>i < n. P (Suc i))"
  using less_Suc_eq_0_disj by auto

lemma sib_chain_nth:
  "sib_chain t x ps y \<longleftrightarrow> (\<forall>i < length ps. \<forall>h. bt_mp t (ps ! i) = Some h \<longrightarrow>
     prevpg h = (x # ps) ! i \<and> nextpg h = (ps @ [y]) ! Suc i)"
proof (induction ps arbitrary: x)
  case (Cons p ps)
  have "hd (ps @ [y]) = (ps @ [y]) ! 0" by (simp add: hd_conv_nth)
  then show ?case using Cons.IH [of p] by (simp add: all_less_Suc)
qed simp

lemma links_sib_chain: "leaf_links t ps \<longleftrightarrow> sib_chain t P_INVALID ps P_INVALID"
proof -
  have 1: "(P_INVALID # ps) ! i = (if i = 0 then P_INVALID else ps ! (i - 1))" for i by (simp add: nth_Cons')
  have 2: "(ps @ [P_INVALID]) ! Suc i = (if Suc i < length ps then ps ! Suc i else P_INVALID)"
    if "i < length ps" for i
    using that less_antisym [of "Suc i" "length ps"] by (auto simp: nth_append)
  show ?thesis unfolding leaf_links_def sib_chain_nth by (simp add: 1 2)
qed

lemma pchain_append: "sib_chain t x (a @ b) y \<longleftrightarrow> sib_chain t x a (hd (b @ [y])) \<and> sib_chain t (last (x # a)) b y"
proof (induction a arbitrary: x)
  case (Cons p a)
  have "hd ((a @ b) @ [y]) = hd (a @ [hd (b @ [y])])" by (cases a) simp_all
  moreover have "last (x # p # a) = last (p # a)" by simp
  ultimately show ?case using Cons.IH [of p] by (simp del: last.simps)
qed simp

lemma pchain_cong: "\<forall>p\<in>set ps. bt_mp t' p = bt_mp t p \<Longrightarrow> sib_chain t' x ps y = sib_chain t x ps y"
  by (induction ps arbitrary: x) simp_all

lemma links_cong: "\<forall>p\<in>set ps. bt_mp t' p = bt_mp t p \<Longrightarrow> leaf_links t' ps = leaf_links t ps"
  by (simp add: links_sib_chain pchain_cong)

text \<open>Pages with other contents and the same links.\<close>

lemma links_same:
  assumes "\<forall>p\<in>set ps. map_option links (bt_mp t' p) = map_option links (bt_mp t p)" "leaf_links t ps"
  shows "leaf_links t' ps"
  unfolding leaf_links_def
proof (intro allI impI)
  fix i h assume i: "i < length ps" "bt_mp t' (ps ! i) = Some h"
  have "map_option links (bt_mp t' (ps ! i)) = map_option links (bt_mp t (ps ! i))"
    using assms(1) nth_mem [OF i(1)] by (rule bspec)
  then obtain h0 where h0: "bt_mp t (ps ! i) = Some h0" "links h = links h0"
    using i(2) by (cases "bt_mp t (ps ! i)") auto
  then show "prevpg h = (if i = 0 then P_INVALID else ps ! (i - 1)) \<and>
      nextpg h = (if Suc i < length ps then ps ! Suc i else P_INVALID)"
    using assms(2) i(1) by (auto simp: leaf_links_def links_def)
qed

lemma links_next:
  assumes "leaf_links t (a @ p # b)" "bt_mp t p = Some h"
  shows "nextpg h = hd (b @ [P_INVALID])" "prevpg h = last (P_INVALID # a)"
  using assms unfolding links_sib_chain pchain_append by auto

text \<open>The split of the page \<open>p\<close> to the page \<open>r\<close>.\<close>

definition relinks :: "BTREE \<Rightarrow> u32 \<Rightarrow> PAGE \<Rightarrow> u32 \<Rightarrow> BTREE \<Rightarrow> bool" where
  "relinks t p h r t' \<longleftrightarrow> (\<forall>q. q \<noteq> p \<and> q \<noteq> r \<longrightarrow> bt_mp t' q = relinked t h r q) \<and>
     (\<exists>hl hr. bt_mp t' p = Some hl \<and> bt_mp t' r = Some hr \<and> prevpg hl = prevpg h \<and> nextpg hl = r \<and>
        prevpg hr = p \<and> nextpg hr = nextpg h)"

lemma relinks_insert:
  assumes L: "leaf_links t (a @ p # b)" and h: "bt_mp t p = Some h" and d: "distinct (a @ p # b)" "P_INVALID \<notin> set (a @ p # b)"
    and r: "r \<notin> set (a @ p # b)" and R: "relinks t p h r t'"
  shows "leaf_links t' (a @ p # r # b)"
proof -
  note nx = links_next [OF L h]
  have C: "sib_chain t P_INVALID a p" "sib_chain t p b P_INVALID" using L unfolding links_sib_chain pchain_append by auto
  obtain hl hr where H: "bt_mp t' p = Some hl" "bt_mp t' r = Some hr" "prevpg hl = prevpg h" "nextpg hl = r"
    "prevpg hr = p" "nextpg hr = nextpg h"
    using R by (auto simp: relinks_def)
  have "\<forall>q. q \<noteq> p \<and> q \<noteq> r \<longrightarrow> bt_mp t' q = relinked t h r q" using R by (simp add: relinks_def)
  moreover have "q \<noteq> p \<and> q \<noteq> r" if "q \<in> set (a @ b)" for q using that d(1) r by auto
  ultimately have old: "bt_mp t' q = relinked t h r q" if "q \<in> set (a @ b)" for q using that by blast
  have left: "\<forall>q\<in>set a. bt_mp t' q = bt_mp t q"
  proof
    fix q assume q: "q \<in> set a"
    have "q \<noteq> nextpg h \<or> nextpg h = P_INVALID" using q d(1) nx(1) by (cases b) auto
    then show "bt_mp t' q = bt_mp t q" using old [of q] q by (auto simp: relinked_def)
  qed
  have right: "sib_chain t' r b P_INVALID"
  proof (cases b)
    case (Cons x b')
    have x: "nextpg h = x" "x \<noteq> P_INVALID" using nx(1) Cons d(2) by auto
    have "\<forall>q\<in>set b'. bt_mp t' q = bt_mp t q" using old x(1) Cons d(1) by (auto simp: relinked_def)
    moreover have "bt_mp t' x = map_option (prevpg_update (\<lambda>_. r)) (bt_mp t x)" using old [of x] x Cons by (simp add: relinked_def)
    ultimately show ?thesis using C(2) Cons pchain_cong [of b' t' t] by (auto simp: map_option_case split: option.splits)
  qed simp
  show ?thesis
    unfolding links_sib_chain pchain_append using C(1) pchain_cong [OF left] H nx right by auto
qed

section \<open>The depths of a tree\<close>

lemma level_disjoint:
  "distinct (pages T) \<Longrightarrow> x \<in> set (level d T) \<Longrightarrow> x \<in> set (level e T) \<Longrightarrow> d = e"
proof (induction T arbitrary: d e)
  case (PLeaf p rs)
  then show ?case by (cases d; cases e) auto
next
  case (PNode p ks ts)
  have top: "x \<noteq> p" if "x \<in> set (level (Suc d) (PNode p ks ts))" for d
    using that PNode.prems(1) level_pages by auto
  show ?case
  proof (cases d; cases e)
    fix d' e' assume s: "d = Suc d'" "e = Suc e'"
    obtain i where i: "i < length ts" "x \<in> set (level d' (ts ! i))"
      using PNode.prems(2) s concat_nth_mem [of x "map (level d') ts"] by auto
    obtain j where j: "j < length ts" "x \<in> set (level e' (ts ! j))"
      using PNode.prems(3) s concat_nth_mem [of x "map (level e') ts"] by auto
    have dc: "distinct (concat (map pages ts))" using PNode.prems(1) by simp
    have "i = j" using distinct_children [OF dc i(1) j(1)] level_pages [OF i(2)] level_pages [OF j(2)] by blast
    moreover have "distinct (pages (ts ! i))" using dc i(1) by (simp add: distinct_concat_iff)
    ultimately show ?thesis using PNode.IH [OF nth_mem [OF i(1)] _ i(2)] j(2) s by simp
  qed (use PNode.prems(2,3) top in auto)
qed

lemma level_distinct: "distinct (pages T) \<Longrightarrow> distinct (level n T)"
proof (induction T arbitrary: n)
  case (PLeaf p rs)
  then show ?case by (cases n) auto
next
  case (PNode p ks ts)
  show ?case
  proof (cases n)
    case (Suc m)
    have "distinct (concat (map pages ts))" using PNode.prems by simp
    then have "distinct (concat (map (level m) ts))"
      using PNode.IH
    proof (induction ts)
      case (Cons x xs)
      have "set (level m x) \<subseteq> set (pages x)" "set (concat (map (level m) xs)) \<subseteq> set (concat (map pages xs))"
        using level_pages by auto
      then have "set (level m x) \<inter> set (concat (map (level m) xs)) = {}" using Cons.prems(1) by auto
      then show ?case using Cons by simp
    qed simp
    then show ?thesis using Suc by simp
  qed simp
qed

lemma ctx_links_levels:
  "frames_ok fs \<Longrightarrow> (\<forall>d < length fs. leaf_links t (level d (plug fs T))) \<longleftrightarrow> ctx_links t fs"
proof (induction fs arbitrary: T rule: frames_ok.induct)
  case (2 q ks ts i fs)
  have "(\<forall>d < Suc (length fs). P d) \<longleftrightarrow> (\<forall>d < length fs. P d) \<and> P (length fs)" for P by (auto simp: less_Suc_eq)
  then show ?case using 2 plug_level [of fs 0 "PNode q ks (ts[i := T])"] by auto
qed simp

definition row :: "frame list \<Rightarrow> u32 set" where
  "row fs = set (cleft fs 0) \<union> set (cright fs 0)"

lemma row_cpages: "row fs \<subseteq> set (cpages fs)"
  by (auto simp: row_def dest: cleft_pages cright_pages)

lemma split_links:
  assumes F: "frames_ok fs" and d: "distinct (pages (plug fs S))" and inv: "P_INVALID \<notin> set (pages (plug fs S))"
    and L: "leaf_links t (cleft fs 0 @ pno S # cright fs 0)" "ctx_links t fs"
    and h: "bt_mp t (pno S) = Some h" and r: "r \<notin> set (pages (plug fs S))" and R: "relinks t (pno S) h r t'"
  shows "leaf_links t' (cleft fs 0 @ pno S # r # cright fs 0)" "ctx_links t' fs"
    "\<And>x. x \<notin> insert (pno S) (insert r (row fs)) \<Longrightarrow> bt_mp t' x = bt_mp t x"
    "\<And>x e. x \<in> set (cleft fs (Suc e) @ level (Suc e) S @ cright fs (Suc e)) \<Longrightarrow> x \<notin> insert (pno S) (insert r (row fs))"
proof -
  have lv: "level (length fs) (plug fs S) = cleft fs 0 @ pno S # cright fs 0" using plug_level [OF F, of 0 S] by simp
  have sub: "set (cleft fs 0 @ pno S # cright fs 0) \<subseteq> set (pages (plug fs S))"
    using level_pages [of _ "length fs" "plug fs S"] lv by auto
  have dl: "distinct (cleft fs 0 @ pno S # cright fs 0)" using level_distinct [OF d, of "length fs"] lv by simp
  have rr: "r \<notin> set (cleft fs 0 @ pno S # cright fs 0)" "P_INVALID \<notin> set (cleft fs 0 @ pno S # cright fs 0)"
    using sub r inv by blast+
  show "leaf_links t' (cleft fs 0 @ pno S # r # cright fs 0)"
    by (rule relinks_insert [OF L(1) h dl rr(2,1) R])
  show other: "bt_mp t' x = bt_mp t x" if "x \<notin> insert (pno S) (insert r (row fs))" for x
  proof -
    have "x \<noteq> nextpg h \<or> nextpg h = P_INVALID" using links_next(1) [OF L(1) h] that by (cases "cright fs 0") (auto simp: row_def)
    then show ?thesis using R that by (auto simp: relinks_def relinked_def)
  qed
  have apart: "x \<notin> insert (pno S) (insert r (row fs))" if "x \<in> set (level e (plug fs S))" "e \<noteq> length fs" for x e
  proof -
    have "x \<notin> set (level (length fs) (plug fs S))" using level_disjoint [OF d that(1)] that(2) by blast
    moreover have "x \<noteq> r" using level_pages [OF that(1)] r by blast
    ultimately show ?thesis unfolding lv row_def by auto
  qed
  show "ctx_links t' fs"
  proof -
    have "leaf_links t' (level e (plug fs S))" if e: "e < length fs" for e
    proof -
      have "leaf_links t (level e (plug fs S))" using ctx_links_levels [OF F, of t S] L(2) e by simp
      moreover have "\<forall>x\<in>set (level e (plug fs S)). bt_mp t' x = bt_mp t x"
        using apart [of _ e] other e by simp
      ultimately show ?thesis using links_cong by blast
    qed
    then show ?thesis using ctx_links_levels [OF F, of t' S] by blast
  qed
  show "x \<notin> insert (pno S) (insert r (row fs))" if "x \<in> set (cleft fs (Suc e) @ level (Suc e) S @ cright fs (Suc e))" for x e
    using apart [of x "length fs + Suc e"] that plug_level [OF F, of "Suc e" S] by simp
qed

end
