(* ===== verification/Bt_Stored.thy ===== *)
theory Bt_Stored
  imports Bt_Relink
begin

text \<open>
  A page, or the root, split and the new item stored: two pages with the items of the old page and the
  new item at its place, for items of leaves and of internal pages.
\<close>

section \<open>Two pages with the items\<close>

definition stored ::
  "BTREE \<Rightarrow> u32 list \<Rightarrow> PAGE \<Rightarrow> u8 list list \<Rightarrow> u32 \<Rightarrow> u32 \<Rightarrow> PAGE \<Rightarrow> PAGE \<Rightarrow> BTREE \<Rightarrow> u32 list \<Rightarrow> bool" where
  "stored t fl h its l r hl hr t' fl' \<longleftrightarrow>
     tree_ok t' fl' \<and> set fl' \<subseteq> set fl \<and> l \<notin> set fl' \<and> r \<notin> set fl' \<and> l \<noteq> r \<and> r \<noteq> P_INVALID \<and>
     (r \<in> set fl \<or> bt_mp t r = None) \<and> pages_moved t t' \<and> bt_mp t' l = Some hl \<and> bt_mp t' r = Some hr \<and>
     pgno hl = l \<and> pgno hr = r \<and> nextpg hl = r \<and> prevpg hr = l \<and>
     flags hl AND P_TYPE = flags h AND P_TYPE \<and> flags hr AND P_TYPE = flags h AND P_TYPE \<and>
     BTDATAOFF + length (body hl) = bt_psize t \<and> BTDATAOFF + length (body hr) = bt_psize t \<and>
     (\<exists>A B. page_items hl A \<and> page_items hr B \<and> A @ B = its \<and> A \<noteq> [] \<and> B \<noteq> [])"

lemma split_stored:
  assumes S: "split_done t fl h skip its n l r left sk t1 fl'" and psz: "BTDATAOFF \<le> bt_psize t"
    and skip: "skip \<le> length its" and f: "stores_item f it n"
  shows "\<exists>h1 h2 hl hr. bt_mp t1 (if left then l else r) = Some h1 \<and> f h1 sk = Some h2 \<and> links h2 = links h1 \<and>
    length (body h2) = length (body h1) \<and>
    stored t fl h (take skip its @ it # drop skip its) l r hl hr (set_page (if left then l else r) h2 t1) fl'"
proof -
  obtain hl hr where H: "bt_mp t1 l = Some hl" "bt_mp t1 r = Some hr" "halves (bt_psize t - BTDATAOFF) skip its n hl hr left sk"
    "pgno hl = l" "pgno hr = r" "nextpg hl = r" "prevpg hr = l"
    "flags hl AND P_TYPE = flags h AND P_TYPE" "flags hr AND P_TYPE = flags h AND P_TYPE"
    and D: "tree_ok t1 fl'" "set fl' \<subseteq> set fl" "l \<notin> set fl'" "r \<notin> set fl'" "l \<noteq> r" "r \<noteq> P_INVALID"
    "r \<in> set fl \<or> bt_mp t r = None" "pages_moved t t1"
    using S unfolding split_done_def by blast
  obtain h2 A B where F: "f (if left then hl else hr) sk = Some h2" "links h2 = links (if left then hl else hr)"
    "length (body h2) = bt_psize t - BTDATAOFF" "length (body hl) = bt_psize t - BTDATAOFF" "length (body hr) = bt_psize t - BTDATAOFF"
    "page_items (if left then h2 else hl) A" "page_items (if left then hr else h2) B"
    "A @ B = take skip its @ it # drop skip its" "A \<noteq> []" "B \<noteq> []"
    using halves_store [OF H(3) skip f] by blast
  let ?no = "if left then l else r"
  let ?t2 = "set_page ?no h2 t1"
  have one: "bt_mp t1 ?no = Some (if left then hl else hr)" using H(1,2) by simp
  have "?no < bt_npages t1" using D(1) one by (auto simp: tree_ok_def)
  moreover have eq: "bt_psize t1 = bt_psize t" by (rule pages_movedD(6) [OF D(8)])
  moreover have "?no \<notin> set fl'" using D(3,4) by simp
  ultimately have tok: "tree_ok ?t2 fl'" using tree_ok_set_page [OF D(1)] F(3) by simp
  note lk = links_sel [OF F(2)]
  have "stored t fl h (take skip its @ it # drop skip its) l r (if left then h2 else hl) (if left then hr else h2) ?t2 fl'"
    unfolding stored_def
    using tok D H F psz lk pages_moved_trans [OF D(8) pages_moved_set] by (cases left) auto
  then show ?thesis using one F(1-5) by (cases left) auto
qed

section \<open>Leaves and nodes\<close>

lemma type_flags:
  "x AND P_TYPE = P_BINTERNAL \<Longrightarrow> x AND P_BLEAF = 0" "x AND P_TYPE = P_BLEAF \<Longrightarrow> x AND P_BLEAF \<noteq> 0" for x :: u32
proof -
  have e: "x AND P_BLEAF = (x AND P_TYPE) AND P_BLEAF" by (simp add: and.assoc)
  show "x AND P_TYPE = P_BINTERNAL \<Longrightarrow> x AND P_BLEAF = 0" by (subst e) simp
  show "x AND P_TYPE = P_BLEAF \<Longrightarrow> x AND P_BLEAF \<noteq> 0" by (subst e) simp
qed

abbreviation node_list :: "u8 list list \<Rightarrow> u32 list \<Rightarrow> u8 list list" where
  "node_list ks cs \<equiv> map2 (\<lambda>k c. internal_bytes k c 0) ks cs"

lemma leaf_at_items:
  assumes "bt_mp t p = Some h" "page_items h (map leaf_item rs)" "flags h AND P_TYPE = P_BLEAF" "pgno h = p"
    and "BTDATAOFF + length (body h) = bt_psize t" "\<forall>r\<in>set rs. snd (snd r) = 0"
  shows "leaf_at t p rs"
  using assms type_flags(2) [of "flags h"] by (simp add: leaf_at_def leaf_page_def)

lemma node_at_items:
  assumes "bt_mp t p = Some h" "page_items h (node_list ks cs)" "flags h AND P_TYPE = P_BINTERNAL" "pgno h = p"
    and "BTDATAOFF + length (body h) = bt_psize t" "length cs = length ks" "ks \<noteq> []"
  shows "node_at t p ks cs"
proof -
  have "map internal_item (map2 (\<lambda>k c. (k, c, 0)) ks cs) = node_list ks cs"
    by (simp add: internal_item_def case_prod_beta)
  then have "page_items h (map internal_item (map2 (\<lambda>k c. (k, c, 0)) ks cs))" using assms(2) by (simp only:)
  then have "internal_page h (map2 (\<lambda>k c. (k, c, 0)) ks cs)"
    using type_flags(1) [OF assms(3)] by (simp only: internal_page_def)
  then show ?thesis using assms by (simp add: node_at_def)
qed

lemma node_list_append:
  assumes "A @ B = node_list ks cs" "length cs = length ks" "A \<noteq> []" "B \<noteq> []"
  shows "\<exists>ka kb ca cb. ks = ka @ kb \<and> cs = ca @ cb \<and> A = node_list ka ca \<and> B = node_list kb cb \<and>
    length ca = length ka \<and> length cb = length kb \<and> ka \<noteq> [] \<and> kb \<noteq> []"
proof -
  let ?n = "length A"
  have len: "length A + length B = length ks" using arg_cong [OF assms(1), of length] assms(2) by simp
  have "A = take ?n (node_list ks cs)" "B = drop ?n (node_list ks cs)" unfolding assms(1) [symmetric] by simp_all
  then have "A = node_list (take ?n ks) (take ?n cs)" "B = node_list (drop ?n ks) (drop ?n cs)"
    by (simp_all add: take_map drop_map take_zip drop_zip)
  then show ?thesis using len assms(2-4)
    by (intro exI [of _ "take ?n ks"] exI [of _ "drop ?n ks"] exI [of _ "take ?n cs"] exI [of _ "drop ?n cs"]) auto
qed

lemma node_list_insert:
  assumes "length cs = length ks" "i < length ks"
  shows "take (Suc i) (node_list ks cs) @ internal_bytes s c 0 # drop (Suc i) (node_list ks cs) =
    node_list (take (Suc i) ks @ s # drop (Suc i) ks) (take (Suc i) cs @ c # drop (Suc i) cs)"
  using assms by (simp add: take_map drop_map take_zip drop_zip zip_append)

lemma leaf_list_append:
  assumes "A @ B = map leaf_item rs" "A \<noteq> []" "B \<noteq> []"
  shows "\<exists>ra rb. rs = ra @ rb \<and> A = map leaf_item ra \<and> B = map leaf_item rb \<and> ra \<noteq> [] \<and> rb \<noteq> []"
proof -
  let ?n = "length A"
  have len: "length A + length B = length rs" using arg_cong [OF assms(1), of length] by simp
  have "A = take ?n (map leaf_item rs)" "B = drop ?n (map leaf_item rs)" unfolding assms(1) [symmetric] by simp_all
  then show ?thesis using len assms(2,3)
    by (intro exI [of _ "take ?n rs"] exI [of _ "drop ?n rs"]) (auto simp: take_map drop_map)
qed

lemma stored_leaves:
  assumes S: "stored t fl h (map leaf_item rs) l r hl hr t' fl'" and ty: "flags h AND P_TYPE = P_BLEAF"
    and z: "\<forall>r\<in>set rs. snd (snd r) = 0"
  shows "\<exists>A B. rs = A @ B \<and> A \<noteq> [] \<and> B \<noteq> [] \<and> leaf_at t' l A \<and> leaf_at t' r B"
proof -
  obtain a b where I: "page_items hl a" "page_items hr b" "a @ b = map leaf_item rs" "a \<noteq> []" "b \<noteq> []"
    using S by (auto simp: stored_def)
  obtain A B where A: "rs = A @ B" "a = map leaf_item A" "b = map leaf_item B" "A \<noteq> []" "B \<noteq> []"
    using leaf_list_append [OF I(3-5)] by blast
  have "bt_psize t' = bt_psize t" using S pages_movedD(6) by (auto simp: stored_def)
  then have "leaf_at t' l A" "leaf_at t' r B"
    using S ty z A I(1,2) leaf_at_items [of t' l hl A] leaf_at_items [of t' r hr B] by (auto simp: stored_def)
  then show ?thesis using A by blast
qed

lemma stored_nodes:
  assumes S: "stored t fl h (node_list ks cs) l r hl hr t' fl'" and ty: "flags h AND P_TYPE = P_BINTERNAL"
    and len: "length cs = length ks"
  shows "\<exists>ka kb ca cb. ks = ka @ kb \<and> cs = ca @ cb \<and> length ca = length ka \<and> length cb = length kb \<and> ka \<noteq> [] \<and> kb \<noteq> [] \<and>
    node_at t' l ka ca \<and> node_at t' r kb cb"
proof -
  obtain a b where I: "page_items hl a" "page_items hr b" "a @ b = node_list ks cs" "a \<noteq> []" "b \<noteq> []"
    using S by (auto simp: stored_def)
  obtain ka kb ca cb where A: "ks = ka @ kb" "cs = ca @ cb" "a = node_list ka ca" "b = node_list kb cb"
    "length ca = length ka" "length cb = length kb" "ka \<noteq> []" "kb \<noteq> []"
    using node_list_append [OF I(3) len I(4,5)] by blast
  have "bt_psize t' = bt_psize t" using S pages_movedD(6) by (auto simp: stored_def)
  then have "node_at t' l ka ca" "node_at t' r kb cb"
    using S ty A I(1,2) node_at_items [of t' l hl ka ca] node_at_items [of t' r hr kb cb] by (auto simp: stored_def)
  then show ?thesis using A by blast
qed

section \<open>The functions that split\<close>

lemma page_stored:
  assumes ok: "tree_ok t fl" and mem: "memory t (Suc n)" and F: "full_page t fl p h its ilen"
    and skip: "skip \<le> length its" and bytes: "bt_malloc t = Some bytes" "length bytes = bt_psize t - BTDATAOFF"
    and nxt: "nextpg h \<noteq> P_INVALID \<longrightarrow> nextpg h \<notin> set fl \<and> nextpg h \<noteq> p \<and> bt_mp t (nextpg h) \<noteq> None"
    and f: "stores_item f it ilen"
  shows "\<exists>r no sk t1 h1 h2 t2 fl' hl hr. bt_page t p skip ilen = Some (Some (p, r, no, sk), t1) \<and>
    bt_mp t1 no = Some h1 \<and> f h1 sk = Some h2 \<and> t2 = set_page no h2 t1 \<and> (no = p \<or> no = r) \<and> memory t2 n \<and>
    stored t fl h (take skip its @ it # drop skip its) p r hl hr t2 fl' \<and> relinks t p h r t2 \<and>
    (\<forall>q. q \<noteq> p \<and> q \<noteq> r \<longrightarrow> bt_mp t1 q = relinked t h r q)"
proof -
  obtain r left sk t1 fl' where P: "bt_page t p skip ilen = Some (Some (p, r, if left then p else r, sk), t1)"
    "split_done t fl h skip its ilen p r left sk t1 fl'" "memory t1 n" "\<forall>q. q \<noteq> p \<and> q \<noteq> r \<longrightarrow> bt_mp t1 q = relinked t h r q"
    "\<exists>hl hr. bt_mp t1 p = Some hl \<and> bt_mp t1 r = Some hr \<and> prevpg hl = prevpg h \<and> nextpg hr = nextpg h"
    using bt_page_ok [OF ok mem F skip bytes nxt] by blast
  have psz: "BTDATAOFF \<le> bt_psize t" using small_psize F by (auto simp: full_page_def)
  obtain h1 h2 hl hr where S: "bt_mp t1 (if left then p else r) = Some h1" "f h1 sk = Some h2" "links h2 = links h1"
    "stored t fl h (take skip its @ it # drop skip its) p r hl hr (set_page (if left then p else r) h2 t1) fl'"
    using split_stored [OF P(2) psz skip f] by blast
  obtain no where no: "no = (if left then p else r)" by blast
  obtain t2 where t2: "t2 = set_page no h2 t1" by blast
  note S = S [folded no, folded t2]
  have st: "bt_mp t2 p = Some hl" "bt_mp t2 r = Some hr" "nextpg hl = r" "prevpg hr = p" "p \<noteq> r"
    using S(4) by (auto simp: stored_def)
  obtain al ar where A: "bt_mp t1 p = Some al" "bt_mp t1 r = Some ar" "prevpg al = prevpg h" "nextpg ar = nextpg h"
    using P(5) by blast
  have pn: "prevpg hl = prevpg h" "nextpg hr = nextpg h"
    using st(1,2,5) A S(1) links_sel [OF S(3)] unfolding t2 no by (cases left; auto)+
  have "\<forall>q. q \<noteq> p \<and> q \<noteq> r \<longrightarrow> bt_mp t2 q = relinked t h r q" using P(4) by (auto simp: t2 no)
  then have "relinks t p h r t2" using st(1-4) pn unfolding relinks_def by blast
  moreover have "memory t2 n" using P(3) by (simp add: memory_def t2)
  moreover have "no = p \<or> no = r" using no by auto
  ultimately show ?thesis using P(1) [folded no] P(4) S(1,2,4) t2 by blast
qed

lemma root_stored:
  assumes ok: "tree_ok t fl" and mem: "memory t (Suc (Suc n))" and F: "full_page t fl p h its ilen"
    and skip: "skip \<le> length its" and f: "stores_item f it ilen"
  shows "\<exists>l r no sk t1 h1 h2 t2 fl' hl hr. bt_root t p skip ilen = Some (Some (l, r, no, sk), t1) \<and>
    bt_mp t1 no = Some h1 \<and> f h1 sk = Some h2 \<and> t2 = set_page no h2 t1 \<and> (no = l \<or> no = r) \<and>
    stored t fl h (take skip its @ it # drop skip its) l r hl hr t2 fl' \<and> l \<noteq> P_INVALID \<and> (l \<in> set fl \<or> bt_mp t l = None) \<and>
    (\<forall>q. q \<noteq> l \<and> q \<noteq> r \<longrightarrow> bt_mp t1 q = bt_mp t q) \<and> prevpg hl = P_INVALID \<and> nextpg hr = P_INVALID"
proof -
  obtain l r left sk t1 fl' where P: "bt_root t p skip ilen = Some (Some (l, r, if left then l else r, sk), t1)"
    "split_done t fl h skip its ilen l r left sk t1 fl'" "l \<noteq> P_INVALID" "l \<in> set fl \<or> bt_mp t l = None"
    "\<forall>q. q \<noteq> l \<and> q \<noteq> r \<longrightarrow> bt_mp t1 q = bt_mp t q"
    "\<exists>hl hr. bt_mp t1 l = Some hl \<and> bt_mp t1 r = Some hr \<and> prevpg hl = P_INVALID \<and> nextpg hr = P_INVALID"
    using bt_root_ok [OF ok mem F skip] by blast
  have psz: "BTDATAOFF \<le> bt_psize t" using small_psize F by (auto simp: full_page_def)
  obtain h1 h2 hl hr where S: "bt_mp t1 (if left then l else r) = Some h1" "f h1 sk = Some h2" "links h2 = links h1"
    "stored t fl h (take skip its @ it # drop skip its) l r hl hr (set_page (if left then l else r) h2 t1) fl'"
    using split_stored [OF P(2) psz skip f] by blast
  obtain no where no: "no = (if left then l else r)" by blast
  obtain t2 where t2: "t2 = set_page no h2 t1" by blast
  note S = S [folded no, folded t2]
  have st: "bt_mp t2 l = Some hl" "bt_mp t2 r = Some hr" "l \<noteq> r" using S(4) by (auto simp: stored_def)
  obtain al ar where A: "bt_mp t1 l = Some al" "bt_mp t1 r = Some ar" "prevpg al = P_INVALID" "nextpg ar = P_INVALID"
    using P(6) by blast
  have "prevpg hl = P_INVALID" "nextpg hr = P_INVALID"
    using st A S(1) links_sel [OF S(3)] unfolding t2 no by (cases left; auto)+
  moreover have "no = l \<or> no = r" using no by auto
  ultimately show ?thesis using P(1) [folded no] P(3-5) S(1,2,4) t2 by blast
qed

end
