(* ===== verification/Bt_Root.thy ===== *)
theory Bt_Root
  imports Bt_Stored
begin

text \<open>
  The new root over the two halves of the old one: the page of the root becomes an internal page with
  the empty key and a key that separates the halves.
\<close>

section \<open>What stays as it was\<close>

definition rest_same :: "BTREE \<Rightarrow> BTREE \<Rightarrow> bool" where
  "rest_same t t' \<longleftrightarrow> keeps t t' \<and> bt_flags t' = bt_flags t \<and> bt_order t' = bt_order t \<and> bt_last t' = bt_last t"

lemma rest_sameD:
  assumes "rest_same t t'"
  shows "bt_cmp_fn t' = bt_cmp_fn t" "bt_psize t' = bt_psize t" "bt_pfx_fn t' = bt_pfx_fn t" "bt_malloc t' = bt_malloc t"
    "bt_flags t' = bt_flags t" "bt_spare t' = bt_spare t"
  using assms by (simp_all add: rest_same_def keeps_def)

lemma rest_same_trans: "rest_same a b \<Longrightarrow> rest_same b c \<Longrightarrow> rest_same a c"
  using db_keeps_trans by (auto simp: rest_same_def)

lemma rest_same_refl [simp]: "rest_same t t"
  by (simp add: rest_same_def)

lemma rest_same_set [simp]: "rest_same t (set_page p h t')  = rest_same t t'" "rest_same t (t'\<lparr>bt_stack := s\<rparr>) = rest_same t t'"
  by (simp_all add: rest_same_def keeps_def set_page_def)

lemma moved_rest: "pages_moved t t' \<Longrightarrow> rest_same t t'"
  using pages_movedD [of t t'] by (simp add: rest_same_def keeps_def)

lemma alike_off:
  assumes "\<forall>p\<in>P. bt_mp t' p = bt_mp t p" "rest_same t t'"
  shows "alike t t' P"
proof -
  have e: "\<exists>x. h = h\<lparr>prevpg := x\<rparr>" for h :: PAGE by (rule exI [of _ "prevpg h"]) simp
  show ?thesis using assms rest_sameD [OF assms(2)] by (auto simp: alike_def intro: e)
qed

section \<open>The page of the root\<close>

lemma two_slots:
  assumes "BTDATAOFF + length (body h) = psize" "BTDATAOFF + 4 \<le> psize" "psize < 65536"
  shows "open_slots (h\<lparr>upper := of_nat psize\<rparr>) [None, None]"
proof -
  have "slots (h\<lparr>upper := of_nat psize\<rparr>) [None, None]"
    using assms by (auto simp: slots_def unat_of_nat16 nth_Cons split: nat.splits)
  then show ?thesis by (auto simp: open_slots_def intro!: exI [of _ "[None, None]"])
qed

lemma root_first:
  assumes "BTDATAOFF + length (body h) = psize" "BTDATAOFF + 4 + NBINTERNAL 0 \<le> psize" "psize < 65536"
  shows "\<exists>h2 h3. take_room (h\<lparr>upper := of_nat psize\<rparr>) 0 (NBINTERNAL 0) = Some h2 \<and>
    WR_BINTERNAL h2 (unat (upper h2)) 0 l 0 = Some h3 \<and> open_slots h3 [Some (internal_bytes [] l 0), None] \<and>
    links h3 = links h \<and> length (body h3) = length (body h)"
proof -
  let ?h = "h\<lparr>upper := of_nat psize\<rparr>" and ?it = "internal_bytes [] l 0"
  have op: "open_slots ?h [None, None]" using two_slots [OF assms(1) _ assms(3)] assms(2) by simp
  have sz: "isize ?it = NBINTERNAL 0" "?it \<noteq> []" using isize_internal [of "[]"] by (simp, simp add: internal_bytes_def)
  have p: "0 < length [None :: u8 list option, None]" "[None :: u8 list option, None] ! 0 = None" by simp_all
  have room: "2 * length [None :: u8 list option, None] + space 0 [None, None] + isize ?it \<le> length (body ?h)"
    using assms sz(1) by simp
  obtain h2 where T: "take_room ?h 0 (isize ?it) = Some h2" "BTDATAOFF \<le> unat (upper h2)"
    "unat (upper h2) + isize ?it \<le> BTDATAOFF + length (body ?h)" "length (body h2) = length (body ?h)"
    "\<forall>src h3. stores h2 (unat (upper h2)) src h3 \<and> length src \<le> isize ?it \<and> take (length ?it) src = ?it \<longrightarrow>
      open_slots h3 ([None, None][0 := Some ?it]) \<and> lower h3 = lower ?h \<and> links h3 = links ?h \<and>
      length (body h3) = length (body ?h)"
    using take_room_open [OF op p sz(2) room] by blast
  have le: "length ?it \<le> isize ?it" by (rule isize_ge)
  have "unat (upper h2) + 9 \<le> BTDATAOFF + length (body h2)" using T(3,4) le by simp
  from WR_BINTERNAL_stores [OF T(2) this, of 0 l 0]
  obtain h3 where h3: "WR_BINTERNAL h2 (unat (upper h2)) 0 l 0 = Some h3" "stores h2 (unat (upper h2)) ?it h3"
    by (auto simp: internal_bytes_def)
  have "open_slots h3 [Some ?it, None] \<and> links h3 = links h \<and> length (body h3) = length (body h)"
    using T(5) [rule_format, of ?it h3] h3(2) le by (simp add: links_def)
  then show ?thesis using T(1) h3(1) sz(1) by auto
qed

lemma root_type: "((x AND NOT P_TYPE) OR P_BINTERNAL) AND P_TYPE = P_BINTERNAL" for x :: u32
  by (simp add: bit.conj_disj_distrib2 and.assoc)

lemma root_done_items:
  assumes "open_slots h [Some a, Some b]"
  shows "page_items (root_done h) [a, b]"
proof -
  obtain xs where xs: "slots h xs" "map (map_option snd) xs = [Some a, Some b]" using assms by (auto simp: open_slots_def)
  have "slots (root_done h) xs = slots h xs"
    by (simp add: root_done_def slots_def entry_ok_def linp_def pg_rdn_def)
  then have "slots (root_done h) xs" using xs(1) by simp
  moreover have "unat (lower (root_done h)) = BTDATAOFF + 2 * length [Some a, Some b]" by (simp add: root_done_def)
  ultimately have "open_page (root_done h) (map Some [a, b])" using xs(2) unfolding open_page_def by auto
  then show ?thesis by (rule open_full)
qed

text \<open>The root page gets the empty key for the left half and the first key of the right half.\<close>

definition root_over :: "PAGE \<Rightarrow> u32 \<Rightarrow> u32 \<Rightarrow> u8 list \<Rightarrow> PAGE \<Rightarrow> bool" where
  "root_over h l r s h' \<longleftrightarrow> page_items h' [internal_bytes [] l 0, internal_bytes s r 0] \<and>
     flags h' AND P_TYPE = P_BINTERNAL \<and> pgno h' = pgno h \<and> prevpg h' = prevpg h \<and> nextpg h' = nextpg h \<and>
     length (body h') = length (body h)"

lemma root_over_done:
  assumes "open_slots h4 [Some (internal_bytes [] l 0), Some (internal_bytes s r 0)]" "links h4 = links h"
    and "length (body h4) = length (body h)"
  shows "root_over h l r s (root_done h4)"
  using root_done_items [OF assms(1)] assms(2,3) root_type links_sel [OF assms(2)]
  by (simp add: root_over_def root_done_def)

lemma broot_leaf:
  assumes h: "bt_mp t p = Some h" "flags h AND P_TYPE = P_BLEAF" "BTDATAOFF + length (body h) = bt_psize t" "bt_psize t < 65536"
    and l: "bt_mp t l = Some hl" "pgno hl = l" and r: "leaf_at t r B" "B \<noteq> []"
    and room: "4 + NBINTERNAL 0 + NBINTERNAL (length (fst (hd B))) \<le> length (body h)"
  shows "\<exists>h'. bt_broot t p l r = Some (RET_SUCCESS, set_page p h' t) \<and> root_over h l r (fst (hd B)) h'"
proof -
  obtain hr where hr: "bt_mp t r = Some hr" "leaf_page hr B" "pgno hr = r" "\<forall>x\<in>set B. snd (snd x) = 0"
    using r(1) by (auto simp: leaf_at_def)
  obtain b db where b: "hd B = (b, db, 0)" "B ! 0 = (b, db, 0)"
  proof -
    have "snd (snd (hd B)) = 0" using hr(4) r(2) by simp
    then show ?thesis using r(2) that by (cases "hd B") (simp add: hd_conv_nth)
  qed
  let ?bl = "\<lparr>bl_ksize = length b, bl_dsize = length db, bl_flags = 0, bl_key = b, bl_data = db\<rparr>"
  have get: "GETBLEAF hr 0 = Some ?bl" using leaf_get [OF hr(2) _ b(2)] r(2) by simp
  obtain h2 h3 where F: "take_room (h\<lparr>upper := of_nat (bt_psize t)\<rparr>) 0 (NBINTERNAL 0) = Some h2"
    "WR_BINTERNAL h2 (unat (upper h2)) 0 l 0 = Some h3" "open_slots h3 [Some (internal_bytes [] l 0), None]"
    "links h3 = links h" "length (body h3) = length (body h)"
    using root_first [OF h(3) _ h(4), of l] room h(3) by auto
  obtain h4 where 4: "put_leaf_key h3 1 ?bl (NBINTERNAL (length b)) (length b) r 0 = Some h4"
    "open_slots h4 [Some (internal_bytes [] l 0), Some (internal_bytes b r 0)]" "links h4 = links h3"
    "length (body h4) = length (body h3)"
    using put_leaf_key_open [OF F(3), of 1 "length b" ?bl r 0] room F(5) b(1) by (auto simp: isize_internal)
  have fl: "flags h3 AND P_TYPE = P_BLEAF" using links_sel [OF F(4)] h(2) by simp
  have "bt_broot t p l r = Some (RET_SUCCESS, set_page p (root_done h4) (set_page p h4 t))"
    using h(1) l hr(1,3) F(1,2) fl get 4(1) by (simp add: bt_broot_def)
  moreover have "set_page p (root_done h4) (set_page p h4 t) = set_page p (root_done h4) t" by (simp add: set_page_def)
  moreover have "root_over h l r b (root_done h4)" using root_over_done [OF 4(2)] 4(3,4) F(4,5) by simp
  ultimately show ?thesis using b(1) by auto
qed

lemma broot_node:
  assumes h: "bt_mp t p = Some h" "flags h AND P_TYPE = P_BINTERNAL" "BTDATAOFF + length (body h) = bt_psize t" "bt_psize t < 65536"
    and l: "bt_mp t l = Some hl" "pgno hl = l" and r: "node_at t r ks cs"
    and room: "4 + NBINTERNAL 0 + NBINTERNAL (length (hd ks)) \<le> length (body h)"
  shows "\<exists>h'. bt_broot t p l r = Some (RET_SUCCESS, set_page p h' t) \<and> root_over h l r (hd ks) h'"
proof -
  obtain hr where hr: "bt_mp t r = Some hr" using r by (auto simp: node_at_def)
  note I = key_sep.node_items [OF defpfx.key_sep_axioms r hr]
  let ?its = "node_list ks cs"
  have ne: "0 < length ks" "0 < length cs" using I(5,6) by auto
  have it: "?its \<noteq> []" "?its ! 0 = internal_bytes (hd ks) (cs ! 0) 0" using ne by (simp_all add: hd_conv_nth)
  have "map2 (\<lambda>k c. (k, c, 0 :: u8)) ks cs ! 0 = (hd ks, cs ! 0, 0)" using ne by (simp add: hd_conv_nth)
  from internal_get [OF I(1) _ this] have get: "GETBINTERNAL hr 0 =
      Some \<lparr>bi_ksize = length (hd ks), bi_pgno = cs ! 0, bi_flags = 0, bi_key = hd ks\<rparr>"
    using ne by simp
  obtain h2 h3 where F: "take_room (h\<lparr>upper := of_nat (bt_psize t)\<rparr>) 0 (NBINTERNAL 0) = Some h2"
    "WR_BINTERNAL h2 (unat (upper h2)) 0 l 0 = Some h3" "open_slots h3 [Some (internal_bytes [] l 0), None]"
    "links h3 = links h" "length (body h3) = length (body h)"
    using root_first [OF h(3) _ h(4), of l] room h(3) by auto
  obtain h4 where 4: "put_first_item h3 1 hr (NBINTERNAL (length (hd ks))) = Some h4"
    "open_slots h4 [Some (internal_bytes [] l 0), Some (internal_bytes (hd ks) r 0)]" "links h4 = links h3"
    "length (body h4) = length (body h3)"
    using put_first_item_open [OF F(3) _ _ I(7) it, of 1] room F(5) I(3) by (auto simp: isize_internal)
  have fl: "flags h3 AND P_TYPE = P_BINTERNAL" using links_sel [OF F(4)] h(2) by simp
  have "bt_broot t p l r = Some (RET_SUCCESS, set_page p (root_done h4) t)"
    using h(1) l hr F(1,2) fl get 4(1) by (simp add: bt_broot_def)
  moreover have "root_over h l r (hd ks) (root_done h4)" using root_over_done [OF 4(2)] 4(3,4) F(4,5) by simp
  ultimately show ?thesis by auto
qed

end
