(* ===== verification/Bt_Climb.thy ===== *)
theory Bt_Climb
  imports Bt_Root
begin

text \<open>
  The walk of \<^verbatim>\<open>__bt_split\<close> up the stack of the parents. In every round two halves of a page stand for one
  child of the page above, which gets an item for the right one; it may have to be split itself.
\<close>

section \<open>The state of the walk\<close>

definition free_of :: "u32 list \<Rightarrow> u32 list \<Rightarrow> bool" where
  "free_of fl ps \<longleftrightarrow> set ps \<inter> insert P_INVALID (set fl) = {}"

text \<open>A whole tree, with links at every depth and the leaves \<open>ls\<close>.\<close>

definition settled ::
  "nat \<Rightarrow> (u8 list \<Rightarrow> bool) \<Rightarrow> BTREE \<Rightarrow> u32 list \<Rightarrow> ptree \<Rightarrow> (u32 \<times> leaf_rec list) list \<Rightarrow> bool" where
  "settled n okk t fl T ls \<longleftrightarrow> tree_at n okk t None None T \<and> pno T = P_ROOT \<and> distinct (pages T) \<and> free_of fl (pages T) \<and>
     tree_ok t fl \<and> tree_links t T \<and> leaves T = ls"

definition climbing ::
  "nat \<Rightarrow> (u8 list \<Rightarrow> bool) \<Rightarrow> BTREE \<Rightarrow> u8 list option \<Rightarrow> u8 list option \<Rightarrow> frame list \<Rightarrow> ptree \<Rightarrow> ptree \<Rightarrow> u32 list \<Rightarrow> bool" where
  "climbing m okk t lo hi fs L R fl \<longleftrightarrow>
     parted m okk t lo hi L R \<and> ctx_at okk t None None m lo hi fs \<and> hole_page fs (pno L) \<and> ctx_links t fs \<and>
     (\<forall>d. leaf_links t (cleft fs d @ level d L @ level d R @ cright fs d)) \<and>
     distinct (cpages fs @ pages L @ pages R) \<and> free_of fl (cpages fs @ pages L @ pages R) \<and> tree_ok t fl \<and>
     (\<forall>l\<in>set (lleft fs @ leaves L @ leaves R @ lright fs). snd l \<noteq> []) \<and> (fs \<noteq> [] \<longrightarrow> fst (last fs) = P_ROOT)"

lemma climbingD:
  assumes "climbing m okk t lo hi fs L R fl"
  shows "parted m okk t lo hi L R" "ctx_at okk t None None m lo hi fs" "hole_page fs (pno L)" "ctx_links t fs"
    "\<forall>d. leaf_links t (cleft fs d @ level d L @ level d R @ cright fs d)"
    "distinct (cpages fs @ pages L @ pages R)" "free_of fl (cpages fs @ pages L @ pages R)" "tree_ok t fl"
    "\<forall>l\<in>set (lleft fs @ leaves L @ leaves R @ lright fs). snd l \<noteq> []" "\<forall>l\<in>set (leaves L). snd l \<noteq> []"
    "fs \<noteq> [] \<Longrightarrow> fst (last fs) = P_ROOT"
  using assms unfolding climbing_def by auto

text \<open>The sizes for which a split is known to work.\<close>

definition sizes_ok :: "(u8 list \<Rightarrow> bool) \<Rightarrow> BTREE \<Rightarrow> bool" where
  "sizes_ok okk t \<longleftrightarrow> 48 \<le> bt_psize t - BTDATAOFF \<and> bt_psize t - BTDATAOFF < 65516 \<and>
     (\<forall>k. okk k \<longrightarrow> 4 * NBINTERNAL (length k) \<le> bt_psize t - BTDATAOFF) \<and>
     (\<exists>bytes. bt_malloc t = Some bytes \<and> length bytes = bt_psize t - BTDATAOFF)"

lemma sizes_rest: "rest_same t t' \<Longrightarrow> sizes_ok okk t' = sizes_ok okk t"
  by (simp add: sizes_ok_def rest_same_def keeps_def)

section \<open>Trees and pages\<close>

lemma tree_page: "tree_at n okk t lo hi T \<Longrightarrow> \<exists>h. bt_mp t (pno T) = Some h \<and> pgno h = pno T"
  by (cases n) (auto simp: leaf_at_def node_at_def)

lemma pno_plug: "pno (plug fs T) = (if fs = [] then pno T else fst (last fs))"
  by (induction fs T rule: plug.induct) simp_all

lemma ctx_links_same:
  assumes "\<forall>p. map_option links (bt_mp t' p) = map_option links (bt_mp t p)" "ctx_links t fs"
  shows "ctx_links t' fs"
  using assms(2)
proof (induction fs rule: frames_ok.induct)
  case (2 q ks ts i fs)
  have "leaf_links t' (cleft fs 0 @ q # cright fs 0)"
    using links_same [of "cleft fs 0 @ q # cright fs 0" t' t] assms(1) "2.prems" by simp
  then show ?case using 2 by simp
qed simp

lemma hole_off:
  assumes "hole_ok m okk t lo hi ks ts i" "rest_same t t'"
    and "\<forall>p\<in>set (concat (map pages (take i ts)) @ concat (map pages (drop (Suc i) ts))). bt_mp t' p = bt_mp t p"
  shows "hole_ok m okk t' lo hi ks ts i"
proof (rule hole_alike [OF assms(1)])
  show "\<forall>j < length ts. j \<noteq> i \<longrightarrow> alike t t' (set (pages (ts ! j)))"
    using sibling_pages [of _ ts i] alike_mono [OF alike_off [OF assms(3,2)]] by blast
qed (rule rest_sameD(1) [OF assms(2)])

lemma parted_tree:
  assumes "parted m okk t lo hi L R"
  shows "\<exists>h. bt_mp t (pno L) = Some h \<and> pgno h = pno L" "\<exists>h. bt_mp t (pno R) = Some h \<and> pgno h = pno R"
proof -
  have "(\<exists>h. bt_mp t (pno L) = Some h \<and> pgno h = pno L) \<and> (\<exists>h. bt_mp t (pno R) = Some h \<and> pgno h = pno R)"
  proof (cases m)
    case 0
    then show ?thesis using assms by (auto simp: leaf_at_def)
  next
    case (Suc n)
    then obtain s where "tree_at m okk t lo (Some s) L" "tree_at m okk t (Some s) hi R"
      using assms unfolding sep_def by (metis parted.simps(2) sep_def)
    then show ?thesis using tree_page by blast
  qed
  then show "\<exists>h. bt_mp t (pno L) = Some h \<and> pgno h = pno L" "\<exists>h. bt_mp t (pno R) = Some h \<and> pgno h = pno R" by simp_all
qed

lemma free_of_set: "free_of fl ps \<Longrightarrow> set qs \<subseteq> set ps \<Longrightarrow> free_of fl qs"
  by (auto simp: free_of_def)

lemma free_new:
  "free_of fl ps \<Longrightarrow> set fl' \<subseteq> set fl \<Longrightarrow> l \<notin> insert P_INVALID (set fl') \<Longrightarrow> r \<notin> insert P_INVALID (set fl') \<Longrightarrow>
   set qs \<subseteq> insert l (insert r (set ps)) \<Longrightarrow> free_of fl' qs"
  unfolding free_of_def by blast

lemma pages_insert:
  "set (pages (PNode q ks (take i ts @ A # B # drop (Suc i) ts))) =
     insert q (set (concat (map pages (take i ts)) @ concat (map pages (drop (Suc i) ts))) \<union> set (pages A) \<union> set (pages B))"
  by auto

lemma frame_distinct:
  "distinct (cpages ((q, ks, ts, i) # fs) @ pages L @ pages R) \<longleftrightarrow>
     distinct (cpages fs @ q # concat (map pages (take i ts @ L # R # drop (Suc i) ts)))"
  by (rule mset_eq_imp_distinct_iff) simp

context key_sep
begin

lemma sep_off:
  assumes "sep m okk t lo hi L R s" "rest_same t t'" "\<forall>p\<in>set (pages L @ pages R). bt_mp t' p = bt_mp t p"
  shows "sep m okk t' lo hi L R s"
proof -
  have "alike t t' (set (pages L))" "alike t t' (set (pages R))" using assms(3) by (auto intro!: alike_off [OF _ assms(2)])
  moreover have "between t' = between t" by (rule between_cong [OF rest_sameD(1) [OF assms(2)]])
  ultimately show ?thesis using assms(1) tree_at_alike by (auto simp: sep_def)
qed

lemma left_key:
  assumes cmp: "bt_cmp_fn t = cmp" and S: "sep m okk t lo hi L R s" and bd: "bounds_ok okk lo hi"
    and ne: "\<forall>l\<in>set (leaves L). snd l \<noteq> []"
  shows "\<exists>k. okk k \<and> between t lo (Some s) k"
proof -
  have L: "tree_at m okk t lo (Some s) L" "okk s" using S by (simp_all add: sep_def)
  obtain l where "l \<in> set (leaves L)" using leaves_not_Nil [OF L(1)] by (cases "leaves L") auto
  moreover have "snd l \<noteq> []" using ne calculation by blast
  ultimately have "recs L \<noteq> []" by (auto simp: recs_def)
  then obtain r where "r \<in> set (recs L)" by (cases "recs L") auto
  then show ?thesis using tree_recs_range [OF cmp L(1), of r] L(2) bd by (auto simp: bounds_ok_def)
qed

text \<open>A node whose child has been replaced by two halves.\<close>

lemma node_halves:
  assumes cmp: "bt_cmp_fn t = cmp" and H: "hole_ok m okk t lo hi ks ts i"
    and S: "sep m okk t (low_bound ks lo i) (high_bound ks hi i) L R s" and bd: "bounds_ok okk lo hi"
    and ne: "\<forall>l\<in>set (leaves L). snd l \<noteq> []" and same: "rest_same t t'"
    and off: "\<forall>p\<in>set (concat (map pages (take i ts)) @ concat (map pages (drop (Suc i) ts)) @ pages L @ pages R). bt_mp t' p = bt_mp t p"
  shows "node_ok m okk t' lo hi (take (Suc i) ks @ s # drop (Suc i) ks) (take i ts @ L # R # drop (Suc i) ts)"
proof -
  have "\<forall>k\<in>set ks. okk k" "i < length ks" using H by (simp_all add: hole_ok_def)
  then have bd': "bounds_ok okk (low_bound ks lo i) (high_bound ks hi i)"
    using bd by (simp add: bounds_ok_def low_bound_def high_bound_def)
  obtain k where k: "okk k" "between t (low_bound ks lo i) (Some s) k" using left_key [OF cmp S bd' ne] by blast
  have k': "between t' (low_bound ks lo i) (Some s) k"
    using k(2) unfolding between_cong [OF rest_sameD(1) [OF same]] .
  have cmp': "bt_cmp_fn t' = cmp" using rest_sameD(1) [OF same] cmp by simp
  have "\<forall>p\<in>set (concat (map pages (take i ts)) @ concat (map pages (drop (Suc i) ts))). bt_mp t' p = bt_mp t p"
    "\<forall>p\<in>set (pages L @ pages R). bt_mp t' p = bt_mp t p" using off by auto
  from hole_off [OF H same this(1)] sep_off [OF S same this(2)] show ?thesis
    using node_insert [OF cmp' _ _ k(1) k' least_ok] bd by (simp add: bounds_ok_def)
qed

lemma new_root:
  assumes cmp: "bt_cmp_fn t = cmp" and S: "sep m okk t None None L R s" and ne: "\<forall>l\<in>set (leaves L). snd l \<noteq> []"
  shows "node_ok m okk t None None [[], s] [L, R]"
proof -
  have D: "okk s" "tree_at m okk t None (Some s) L" "tree_at m okk t (Some s) None R" using S by (simp_all add: sep_def)
  obtain k where k: "okk k" "between t None (Some s) k" using left_key [OF cmp S _ ne] by (auto simp: bounds_ok_def)
  have "cmp [] s < 0" using le_less_trans [OF least(1) k(1) D(1) least(2) [OF k(1)]] k(2) cmp by (simp add: between_def)
  then show ?thesis
    using D least(1) cmp by (auto simp: node_ok_def first_ok_def between_def all_less_Suc low_bound_def high_bound_def)
qed

lemma parted_off:
  assumes P: "parted m okk t lo hi L R" and same: "rest_same t t'" and off: "\<forall>p\<in>set (pages L @ pages R). bt_mp t' p = bt_mp t p"
  shows "parted m okk t' lo hi L R"
proof (cases m)
  case 0
  then obtain p A r B where D: "L = PLeaf p A" "R = PLeaf r B" "A \<noteq> []" "B \<noteq> []" "leaf_at t p A" "leaf_at t r B"
    "keys_in okk t lo hi (A @ B)"
    using P by auto
  have "agrees t t' {p, r}" using off D(1,2) rest_sameD [OF same] by (simp add: agrees_def)
  then have "leaf_at t' p A" "leaf_at t' r B" "keys_in okk t' lo hi (A @ B)"
    using D(5-7) leaf_at_agrees [of t t' "{p, r}"] keys_in_agrees [of t t' "{p, r}"] by simp_all
  then show ?thesis using 0 D(1-4) by simp
next
  case (Suc n)
  then show ?thesis using P sep_off [OF _ same off] by auto
qed

lemma climbing_same:
  assumes C: "climbing m okk t lo hi fs L R fl" and same: "rest_same t t'"
    and mp: "bt_mp t' = bt_mp t" "bt_free t' = bt_free t" "bt_npages t' = bt_npages t"
  shows "climbing m okk t' lo hi fs L R fl"
proof -
  have "alike t t' P" for P using alike_off [OF _ same, of P] mp(1) by simp
  then have "ctx_at okk t' None None m lo hi fs" using C ctx_alike unfolding climbing_def by blast
  moreover have "parted m okk t' lo hi L R" using C parted_off [OF _ same] mp(1) unfolding climbing_def by simp
  moreover have "tree_ok t' fl" using C mp rest_sameD [OF same] by (simp add: climbing_def tree_ok_def)
  moreover have "leaf_links t' = leaf_links t" by (simp add: fun_eq_iff leaf_links_def mp(1))
  moreover have "ctx_links t' fs" using ctx_links_same [of t' t fs] C mp(1) by (simp add: climbing_def)
  ultimately show ?thesis using C unfolding climbing_def by simp
qed

text \<open>The page above and its bounds.\<close>

lemma climbing_node:
  assumes cmp: "bt_cmp_fn t = cmp" and C: "climbing m okk t lo hi ((q, ks, ts, i) # fs) L R fl"
  obtains lo' hi' h lc rc where
    "lo = low_bound ks lo' i" "hi = high_bound ks hi' i" "node_at t q ks (map pno ts)" "hole_ok m okk t lo' hi' ks ts i"
    "hole_page fs q" "ctx_at okk t None None (Suc m) lo' hi' fs" "bt_mp t q = Some h"
    "bt_mp t (pno L) = Some lc" "bt_mp t (pno R) = Some rc" "pgno rc = pno R" "bounds_ok okk lo hi" "bounds_ok okk lo' hi'"
    "i < length ts" "length ts = length ks" "pno (ts ! i) = pno L" "length ks < 65536"
    "q \<noteq> pno L" "q \<noteq> pno R" "q \<notin> set fl" "frames_ok fs"
proof -
  have ctx: "ctx_at okk t None None m lo hi ((q, ks, ts, i) # fs)" using C by (simp add: climbing_def)
  then obtain lo' hi' where D: "lo = low_bound ks lo' i" "hi = high_bound ks hi' i" "node_at t q ks (map pno ts)"
    "hole_ok m okk t lo' hi' ks ts i" "hole_page fs q" "ctx_at okk t None None (Suc m) lo' hi' fs"
    unfolding ctx_at.simps by blast
  have none: "\<forall>l. (None :: u8 list option) = Some l \<longrightarrow> okk l" by simp
  have bd: "bounds_ok okk lo hi" "bounds_ok okk lo' hi'"
    unfolding bounds_ok_def by (rule ctx_bounds [OF ctx none none], rule ctx_bounds [OF D(6) none none])
  obtain h where h: "bt_mp t q = Some h" using D(3) by (auto simp: node_at_def)
  have P: "parted m okk t lo hi L R" using C by (simp add: climbing_def)
  obtain lc rc where lr: "bt_mp t (pno L) = Some lc" "bt_mp t (pno R) = Some rc" "pgno rc = pno R"
    using parted_tree [OF P] by blast
  have i: "i < length ts" "length ts = length ks" "pno (ts ! i) = pno L"
    using D(4) C by (auto simp: hole_ok_def climbing_def hole_page_def)
  have "sorted_wrt (below t) ks" using D(4) by (simp add: hole_ok_def)
  then have few: "length ks < 65536" using node_page_keys [OF D(3)] by (auto simp: page_keys_def)
  have "q \<noteq> pno L" "q \<noteq> pno R" "q \<notin> set fl"
    using C pno_pages [of L] pno_pages [of R] by (auto simp: climbing_def free_of_def)
  then show ?thesis using that [OF D h lr bd i few] ctx_frames [OF D(6)] by blast
qed

lemma climb_room:
  assumes cmp: "bt_cmp_fn t = cmp" and C: "climbing m okk t lo hi ((q, ks, ts, i) # fs) L R fl"
    and h: "bt_mp t q = Some h" "bt_mp t (pno L) = Some lc" "bt_mp t (pno R) = Some rc"
    and S: "sep m okk t lo hi L R s" and item: "parent_item t lc rc (pno L) (pno R) s k f"
    and room: "\<not> pg_full h (NBINTERNAL (length s))"
  shows "\<exists>h1 t' T'. shift_indices h (Suc i) = Some h1 \<and>
    insert_parent (set_page q h1 t) q (pno L) (pno L) (pno R) (Suc i) (NBINTERNAL (length s)) k = Some (RET_SUCCESS, t') \<and>
    settled (Suc m + length fs) okk t' fl T'
      (lleft ((q, ks, ts, i) # fs) @ leaves L @ leaves R @ lright ((q, ks, ts, i) # fs)) \<and> rest_same t t'"
proof -
  obtain lo' hi' where D: "lo = low_bound ks lo' i" "hi = high_bound ks hi' i" "node_at t q ks (map pno ts)"
    "hole_ok m okk t lo' hi' ks ts i" "hole_page fs q" "ctx_at okk t None None (Suc m) lo' hi' fs"
    "bounds_ok okk lo hi" "bounds_ok okk lo' hi'" "i < length ts" "length ts = length ks" "pno (ts ! i) = pno L"
    "q \<noteq> pno L" "q \<noteq> pno R" "q \<notin> set fl" "frames_ok fs"
    by (rule climbing_node [OF cmp C])
  note I = node_items [OF D(3) h(1)]
  let ?its = "node_list ks (map pno ts)" and ?it = "internal_bytes s (pno R) 0" and ?n = "NBINTERNAL (length s)"
  have skip: "Suc i \<le> length ?its" using D(9,10) by simp
  obtain h1 where h1: "shift_indices h (Suc i) = Some h1" "open_page h1 (with_open (Suc i) ?its)" "links h1 = links h"
    "length (body h1) = length (body h)"
    using shift_open [OF I(7) skip room] by blast
  have st: "stores_item f ?it ?n" using item by (simp add: parent_item_def)
  have "2 * length (with_open (Suc i) ?its) + space 0 (with_open (Suc i) ?its) + ?n \<le> length (body h1)"
    using page_items_full(1) [OF I(7), of ?n] room h1(4) skip by (simp add: space_with_open)
  then obtain h2 where h2: "f h1 (Suc i) = Some h2" "open_page h2 ((with_open (Suc i) ?its)[Suc i := Some ?it])"
    "links h2 = links h1" "length (body h2) = length (body h1)"
    using st [unfolded stores_item_def, rule_format, of h1 "with_open (Suc i) ?its" "Suc i"] h1(2) skip with_open_at [OF skip]
    by auto
  let ?t' = "set_page q h2 t"
  let ?ks = "take (Suc i) ks @ s # drop (Suc i) ks" and ?ts = "take i ts @ L # R # drop (Suc i) ts"
  have ins: "insert_parent (set_page q h1 t) q (pno L) (pno L) (pno R) (Suc i) ?n k = Some (RET_SUCCESS, ?t')"
    using item h(2,3) D(12,13) h2(1) by (simp add: parent_item_def set_page_def)
  have same: "rest_same t ?t'" by simp
  have cs: "map pno ?ts = take (Suc i) (map pno ts) @ pno R # drop (Suc i) (map pno ts)"
    using D(9,11) by (simp add: take_Suc_conv_app_nth take_map drop_map)
  have "page_items h2 (take (Suc i) ?its @ ?it # drop (Suc i) ?its)"
    using h2(2) with_open_fill [OF skip] open_full by metis
  then have items: "page_items h2 (node_list ?ks (map pno ?ts))"
    unfolding cs using node_list_insert [of "map pno ts" ks i s "pno R"] D(9,10) by simp
  note lk = links_sel [OF h2(3)] links_sel [OF h1(3)]
  have at: "node_at ?t' q ?ks (map pno ?ts)"
    using items lk I h1(4) h2(4) D(9,10) by (intro node_at_items [of _ _ h2]) (simp_all add: set_page_def)
  have dist: "distinct (cpages ((q, ks, ts, i) # fs) @ pages L @ pages R)" using C by (simp add: climbing_def)
  let ?sib = "concat (map pages (take i ts)) @ concat (map pages (drop (Suc i) ts))"
  have ne: "\<forall>l\<in>set (leaves L). snd l \<noteq> []" using C by (simp add: climbing_def)
  have "\<forall>p\<in>set (concat (map pages (take i ts)) @ concat (map pages (drop (Suc i) ts)) @ pages L @ pages R). bt_mp ?t' p = bt_mp t p"
    using dist by auto
  from node_halves [OF cmp D(4) S [unfolded D(1,2)] D(8) ne same this]
  have N: "node_ok m okk ?t' lo' hi' ?ks ?ts" .
  let ?N = "PNode q ?ks ?ts"
  have tr: "tree_at (Suc m) okk ?t' lo' hi' ?N" unfolding tree_at_node using N at by blast
  have "\<forall>p\<in>set (cpages fs). bt_mp ?t' p = bt_mp t p" using dist by auto
  then have ctx: "ctx_at okk ?t' None None (Suc m) lo' hi' fs" using ctx_alike [OF D(6) alike_off [OF _ same]] by blast
  have tree: "tree_at (Suc m + length fs) okk ?t' None None (plug fs ?N)" by (rule plug_tree [OF ctx tr]) (simp add: D(5))
  have map_links: "\<forall>p. map_option links (bt_mp ?t' p) = map_option links (bt_mp t p)" using h(1) h1(3) h2(3) by simp
  have L: "ctx_links t ((q, ks, ts, i) # fs)" "\<forall>d. leaf_links t (cleft ((q, ks, ts, i) # fs) d @ level d L @ level d R @ cright ((q, ks, ts, i) # fs) d)"
    using C by (simp_all add: climbing_def)
  have low: "leaf_links t (cleft fs d @ level d ?N @ cright fs d)" for d
    using L(1) L(2) [rule_format, of "d - 1"] by (cases d) simp_all
  have "tree_links ?t' (plug fs ?N)"
    unfolding plug_links [OF D(15)] using ctx_links_same [OF map_links] links_same [OF _ low] map_links L(1) by simp
  moreover have "leaves (plug fs ?N) = lleft ((q, ks, ts, i) # fs) @ leaves L @ leaves R @ lright ((q, ks, ts, i) # fs)"
    by (simp add: plug_leaves [OF D(15)])
  moreover have "distinct (pages (plug fs ?N))"
    using dist unfolding plug_distinct [OF D(15)] frame_distinct pages.simps .
  moreover have "free_of fl (pages (plug fs ?N))"
  proof (rule free_of_set)
    show "free_of fl (cpages ((q, ks, ts, i) # fs) @ pages L @ pages R)" using C by (simp add: climbing_def)
  qed (auto simp: plug_pages_set [OF D(15)])
  moreover have "tree_ok ?t' fl"
  proof -
    have "tree_ok t fl" using C by (simp add: climbing_def)
    then show ?thesis using h(1) h1(4) h2(4) D(14) by (intro tree_ok_set_page) (auto simp: tree_ok_def)
  qed
  moreover have "pno (plug fs ?N) = P_ROOT" using C by (simp add: pno_plug climbing_def split: if_splits)
  ultimately have "settled (Suc m + length fs) okk ?t' fl (plug fs ?N)
      (lleft ((q, ks, ts, i) # fs) @ leaves L @ leaves R @ lright ((q, ks, ts, i) # fs))"
    using tree by (simp add: settled_def)
  then show ?thesis using h1(1) ins same by blast
qed

end

end
