(* ===== verification/Bt_Ascent.thy ===== *)
theory Bt_Ascent
  imports Bt_Climb
begin

text \<open>
  The split of a page above, and the whole walk: however many pages are split, the pages represent a
  tree again, with the leaves of the old one and the new leaf among them.
\<close>

section \<open>Pages that exist\<close>

lemma tree_pages_exist: "tree_at n okk t lo hi T \<Longrightarrow> p \<in> set (pages T) \<Longrightarrow> bt_mp t p \<noteq> None"
proof (induction n arbitrary: lo hi T)
  case 0
  then show ?case by (auto simp: leaf_at_def)
next
  case (Suc n)
  then obtain q ks ts where T: "T = PNode q ks ts" "node_at t q ks (map pno ts)" "length ts = length ks"
    "\<forall>i < length ks. tree_at n okk t (low_bound ks lo i) (high_bound ks hi i) (ts ! i)"
    by auto
  consider "p = q" | i where "i < length ts" "p \<in> set (pages (ts ! i))"
    using Suc.prems(2) T(1) concat_nth_mem [of p "map pages ts"] by auto
  then show ?case
  proof cases
    case 1
    then show ?thesis using T(2) by (auto simp: node_at_def)
  next
    case 2
    then show ?thesis using Suc.IH [OF T(4) [rule_format, of i]] T(3) by simp
  qed
qed

lemma ctx_pages_exist: "ctx_at okk t lo0 hi0 m lo hi fs \<Longrightarrow> p \<in> set (cpages fs) \<Longrightarrow> bt_mp t p \<noteq> None"
proof (induction fs arbitrary: m lo hi)
  case (Cons f fs)
  obtain q ks ts i where f: "f = (q, ks, ts, i)" by (cases f)
  obtain lo' hi' where C: "node_at t q ks (map pno ts)" "hole_ok m okk t lo' hi' ks ts i" "ctx_at okk t lo0 hi0 (Suc m) lo' hi' fs"
    using Cons.prems(1) f by auto
  have H: "length ts = length ks" "i < length ks"
    "\<forall>j < length ks. j \<noteq> i \<longrightarrow> tree_at m okk t (low_bound ks lo' j) (high_bound ks hi' j) (ts ! j)"
    using C(2) by (auto simp: hole_ok_def)
  have sib: "bt_mp t p \<noteq> None" if x: "p \<in> set (pages x)" "x \<in> set (take i ts) \<or> x \<in> set (drop (Suc i) ts)" for x
  proof -
    have "\<exists>j < length ts. j \<noteq> i \<and> x = ts ! j"
    proof (cases "x \<in> set (take i ts)")
      case True
      then show ?thesis by (auto simp: in_set_conv_nth)
    next
      case False
      then have "x \<in> set (drop (Suc i) ts)" using x(2) by blast
      then obtain j where "j < length ts - Suc i" "x = ts ! (Suc i + j)" by (auto simp: in_set_conv_nth)
      then show ?thesis by (intro exI [of _ "Suc i + j"]) simp
    qed
    then obtain j where "j < length ts" "j \<noteq> i" "x = ts ! j" by blast
    then show ?thesis using tree_pages_exist [OF H(3) [rule_format, of j]] H(1) x(1) by simp
  qed
  consider "p = q" | "p \<in> set (cpages fs)" | x where "p \<in> set (pages x)" "x \<in> set (take i ts) \<or> x \<in> set (drop (Suc i) ts)"
    using Cons.prems(2) f by auto
  then show ?case
  proof cases
    case 1
    then show ?thesis using C(1) by (auto simp: node_at_def)
  next
    case 2
    then show ?thesis using Cons.IH [OF C(3)] by simp
  next
    case 3
    then show ?thesis by (rule sib)
  qed
qed simp

lemma parted_pages_exist:
  assumes "parted m okk t lo hi L R" "p \<in> set (pages L @ pages R)"
  shows "bt_mp t p \<noteq> None"
proof (cases m)
  case 0
  then show ?thesis using assms by (auto simp: leaf_at_def)
next
  case (Suc n)
  then obtain s where "tree_at m okk t lo (Some s) L" "tree_at m okk t (Some s) hi R"
    using assms(1) by (metis parted.simps(2) sep_def)
  then show ?thesis using assms(2) tree_pages_exist by auto
qed

lemma climbing_new:
  assumes "climbing m okk t lo hi fs L R fl" "r \<in> set fl \<or> bt_mp t r = None"
  shows "r \<notin> set (cpages fs @ pages L @ pages R)"
proof
  assume r: "r \<in> set (cpages fs @ pages L @ pages R)"
  have "bt_mp t r \<noteq> None"
    using r assms(1) ctx_pages_exist [of okk t None None m lo hi fs r] parted_pages_exist [of m okk t lo hi L R r]
    by (auto simp: climbing_def)
  moreover have "r \<notin> set fl" using r assms(1) unfolding climbing_def free_of_def by blast
  ultimately show False using assms(2) by auto
qed

lemma root_frame: "fs \<noteq> [] \<Longrightarrow> fst (last fs) \<in> set (cpages fs)"
proof (induction fs rule: frames_ok.induct)
  case (2 q ks ts i fs)
  then show ?case by (cases fs) auto
qed simp

lemma alike_relinked:
  assumes "\<forall>x\<in>P. bt_mp t' x = relinked t h r x" "rest_same t t'"
  shows "alike t t' P"
proof -
  have e: "\<exists>x. h = h\<lparr>prevpg := x\<rparr>" for h :: PAGE by (rule exI [of _ "prevpg h"]) simp
  show ?thesis using assms rest_sameD [OF assms(2)] by (auto simp: alike_def relinked_def intro: e)
qed

section \<open>A page above that is full\<close>

context key_sep
begin

lemma full_node:
  assumes at: "node_at t q ks cs" "bt_mp t q = Some h" and q: "q \<notin> set fl" and ks: "\<forall>k\<in>set ks. okk k" "okk s"
    and sz: "sizes_ok okk t" and full: "pg_full h (NBINTERNAL (length s))"
  shows "full_page t fl q h (node_list ks cs) (NBINTERNAL (length s))"
proof -
  note I = node_items [OF at]
  have e: "map internal_item (map2 (\<lambda>k c. (k, c, 0)) ks cs) = node_list ks cs" by (simp add: internal_item_def case_prod_beta)
  have "\<forall>r\<in>set (map2 (\<lambda>k c. (k, c, 0 :: u8)) ks cs). snd (snd r) AND P_BIGKEY = 0" by auto
  from internal_sources [OF I(1,2) this] have "sources h (node_list ks cs)" unfolding e .
  moreover have "\<forall>it\<in>set (node_list ks cs). 4 * isize it \<le> bt_psize t - BTDATAOFF"
    using ks(1) sz by (auto simp: isize_internal sizes_ok_def dest!: set_zip_leftD)
  then have "small_items (bt_psize t - BTDATAOFF) (NBINTERNAL (length s)) (node_list ks cs)"
    using sz ks(2) by (simp add: small_items_def sizes_ok_def)
  ultimately show ?thesis using at(2) I(3,4,7) q full by (simp add: full_page_def)
qed

lemma climb_page:
  assumes cmp: "bt_cmp_fn t = cmp" and C: "climbing m okk t lo hi ((q, ks, ts, i) # fs) L R fl" and up: "fs \<noteq> []"
    and h: "bt_mp t q = Some h" "bt_mp t (pno L) = Some lc" "bt_mp t (pno R) = Some rc"
    and S: "sep m okk t lo hi L R s" and item: "parent_item t lc rc (pno L) (pno R) s k f"
    and full: "pg_full h (NBINTERNAL (length s))" and sz: "sizes_ok okk t" and mem: "memory t (Suc n)"
  shows "\<exists>r no sk t1 t2 lo' hi' L' R' fl'. bt_page t q (Suc i) (NBINTERNAL (length s)) = Some (Some (q, r, no, sk), t1) \<and>
    insert_parent t1 no q (pno L) (pno R) sk (NBINTERNAL (length s)) k = Some (RET_SUCCESS, t2) \<and>
    fix_root t2 q q r = Some (RET_SUCCESS, t2) \<and> climbing (Suc m) okk t2 lo' hi' fs L' R' fl' \<and> pno L' = q \<and> pno R' = r \<and>
    leaves L' @ leaves R' = concat (map leaves (take i ts)) @ leaves L @ leaves R @ concat (map leaves (drop (Suc i) ts)) \<and>
    rest_same t t2 \<and> memory t2 n \<and> set fl' \<subseteq> set fl"
proof -
  obtain lo' hi' where D: "lo = low_bound ks lo' i" "hi = high_bound ks hi' i" "node_at t q ks (map pno ts)"
    "hole_ok m okk t lo' hi' ks ts i" "hole_page fs q" "ctx_at okk t None None (Suc m) lo' hi' fs"
    "bounds_ok okk lo hi" "bounds_ok okk lo' hi'" "i < length ts" "length ts = length ks" "pno (ts ! i) = pno L"
    "q \<noteq> pno L" "q \<noteq> pno R" "q \<notin> set fl" "frames_ok fs"
    by (rule climbing_node [OF cmp C])
  let ?its = "node_list ks (map pno ts)" and ?it = "internal_bytes s (pno R) 0" and ?n = "NBINTERNAL (length s)"
  let ?S = "PNode q ks (ts[i := L])"
  have P: "ctx_links t ((q, ks, ts, i) # fs)" "\<forall>d. leaf_links t (cleft ((q, ks, ts, i) # fs) d @ level d L @ level d R @ cright ((q, ks, ts, i) # fs) d)"
    "distinct (cpages ((q, ks, ts, i) # fs) @ pages L @ pages R)" "free_of fl (cpages ((q, ks, ts, i) # fs) @ pages L @ pages R)"
    "tree_ok t fl" "\<forall>l\<in>set (leaves L). snd l \<noteq> []" "fst (last fs) = P_ROOT"
    "\<forall>l\<in>set (lleft ((q, ks, ts, i) # fs) @ leaves L @ leaves R @ lright ((q, ks, ts, i) # fs)). snd l \<noteq> []"
    using climbingD [OF C] up by (simp_all del: cleft.simps cright.simps cpages.simps lleft.simps lright.simps ctx_links.simps)
  have lk: "leaf_links t (cleft fs 0 @ q # cright fs 0)" using P(1) by simp
  have nx: "nextpg h = hd (cright fs 0 @ [P_INVALID])" by (rule links_next(1) [OF lk h(1)])
  have sub: "set (cright fs 0) \<subseteq> set (cpages fs)" using row_cpages by (auto simp: row_def)
  have nxt: "nextpg h \<noteq> P_INVALID \<longrightarrow> nextpg h \<notin> set fl \<and> nextpg h \<noteq> q \<and> bt_mp t (nextpg h) \<noteq> None"
  proof
    assume "nextpg h \<noteq> P_INVALID"
    then have x: "nextpg h \<in> set (cpages fs)" using nx sub by (cases "cright fs 0") auto
    then show "nextpg h \<notin> set fl \<and> nextpg h \<noteq> q \<and> bt_mp t (nextpg h) \<noteq> None"
      using ctx_pages_exist [OF D(6) x] P(3,4) by (auto simp: free_of_def)
  qed
  have okks: "\<forall>k\<in>set ks. okk k" "okk s" using D(4) S by (simp_all add: hole_ok_def sep_def)
  have F: "full_page t fl q h ?its ?n" by (rule full_node [OF D(3) h(1) D(14) okks sz full])
  have skip: "Suc i \<le> length ?its" using D(9,10) by simp
  obtain bytes where b: "bt_malloc t = Some bytes" "length bytes = bt_psize t - BTDATAOFF" using sz by (auto simp: sizes_ok_def)
  have st: "stores_item f ?it ?n" using item by (simp add: parent_item_def)
  obtain r no sk t1 h1 h2 t2 fl' hl hr where T: "bt_page t q (Suc i) ?n = Some (Some (q, r, no, sk), t1)"
    "bt_mp t1 no = Some h1" "f h1 sk = Some h2" "t2 = set_page no h2 t1" "no = q \<or> no = r" "memory t2 n"
    "stored t fl h (take (Suc i) ?its @ ?it # drop (Suc i) ?its) q r hl hr t2 fl'" "relinks t q h r t2"
    "\<forall>x. x \<noteq> q \<and> x \<noteq> r \<longrightarrow> bt_mp t1 x = relinked t h r x"
    using page_stored [OF P(5) mem F skip b nxt st] by blast
  let ?ks = "take (Suc i) ks @ s # drop (Suc i) ks" and ?ts = "take i ts @ L # R # drop (Suc i) ts"
  have cs: "map pno ?ts = take (Suc i) (map pno ts) @ pno R # drop (Suc i) (map pno ts)"
    using D(9,11) by (simp add: take_Suc_conv_app_nth take_map drop_map)
  have stl: "stored t fl h (node_list ?ks (map pno ?ts)) q r hl hr t2 fl'"
    using T(7) node_list_insert [of "map pno ts" ks i s "pno R"] D(9,10) unfolding cs by simp
  have len: "length (map pno ?ts) = length ?ks" using D(9,10) by simp
  have ty: "flags h AND P_TYPE = P_BINTERNAL" using node_items(2) [OF D(3) h(1)] .
  obtain ka kb ca cb where N: "?ks = ka @ kb" "map pno ?ts = ca @ cb" "length ca = length ka" "length cb = length kb"
    "ka \<noteq> []" "kb \<noteq> []" "node_at t2 q ka ca" "node_at t2 r kb cb"
    using stored_nodes [OF stl ty len] by blast
  obtain ta tb where ts: "?ts = ta @ tb" "map pno ta = ca" "map pno tb = cb"
    using N(2) unfolding map_eq_append_conv by blast
  have la: "length ta = length ka" using N(3) ts(2) by (metis length_map)
  have same: "rest_same t t2" "set fl' \<subseteq> set fl" "tree_ok t2 fl'" "q \<notin> set fl'" "r \<notin> set fl'" "q \<noteq> r" "r \<noteq> P_INVALID"
    "r \<in> set fl \<or> bt_mp t r = None" "bt_mp t2 q = Some hl" "pgno hl = q"
    using stl moved_rest by (auto simp: stored_def)
  have rn: "r \<notin> set (cpages ((q, ks, ts, i) # fs) @ pages L @ pages R)" by (rule climbing_new [OF C same(8)])
  have ps: "set (pages (plug fs ?S)) \<subseteq> set (cpages ((q, ks, ts, i) # fs) @ pages L)"
    using D(9) by (auto simp: plug_pages_set [OF D(15)] concat_upd)
  have dx: "distinct (cpages fs @ q # concat (map pages ?ts))" using P(3) unfolding frame_distinct .
  have "distinct (pages (plug fs ?S))"
    using dx D(9) unfolding plug_distinct [OF D(15)] by (simp add: concat_upd) blast
  moreover have "P_INVALID \<notin> set (pages (plug fs ?S))" using ps P(4) unfolding free_of_def by auto
  moreover have "r \<notin> set (pages (plug fs ?S))" using ps rn by auto
  ultimately have LK: "leaf_links t2 (cleft fs 0 @ q # r # cright fs 0)" "ctx_links t2 fs"
    "\<And>x. x \<notin> insert q (insert r (row fs)) \<Longrightarrow> bt_mp t2 x = bt_mp t x"
    "\<And>x e. x \<in> set (cleft fs (Suc e) @ level (Suc e) ?S @ cright fs (Suc e)) \<Longrightarrow> x \<notin> insert q (insert r (row fs))"
    using split_links [OF D(15), of ?S t h r t2] lk P(1) h(1) T(8) by auto
  have row: "row fs \<subseteq> set (cpages fs)" by (rule row_cpages)
  have rx: "r \<notin> set (cpages fs @ q # concat (map pages ?ts))" using rn by simp
  have off: "bt_mp t2 p = bt_mp t p" if "p \<in> set (concat (map pages (take i ts)) @ concat (map pages (drop (Suc i) ts)) @ pages L @ pages R)" for p
  proof (rule LK(3))
    have p: "p \<in> set (concat (map pages ?ts))" using that by auto
    have d: "q \<notin> set (concat (map pages ?ts))" "set (cpages fs) \<inter> set (concat (map pages ?ts)) = {}"
      using dx unfolding distinct_append distinct.simps set_simps by blast+
    have "p \<noteq> r" using p rx by (metis Un_iff list.set_intros(2) set_append)
    moreover have "p \<noteq> q" using p d(1) by metis
    moreover have "p \<notin> row fs" using p d(2) row by (meson disjoint_iff subsetD)
    ultimately show "p \<notin> insert q (insert r (row fs))" by simp
  qed
  have ND: "node_ok m okk t2 lo' hi' (ka @ kb) (ta @ tb)"
    unfolding N(1) [symmetric] ts(1) [symmetric]
    by (rule node_halves [OF cmp D(4) S [unfolded D(1,2)] D(8) P(6) same(1)]) (use off in blast)
  have ko: "key_order okk (bt_cmp_fn t2)" using key_order_axioms rest_sameD(1) [OF same(1)] cmp by simp
  note SP = node_split [OF ND la N(5,6) ko]
  let ?L = "PNode q ka ta" and ?R = "PNode r kb tb"
  have "sep (Suc m) okk t2 lo' hi' ?L ?R (hd kb)"
    unfolding sep_def tree_at_node using SP N(7,8) ts(2,3) by blast
  then have part: "parted (Suc m) okk t2 lo' hi' ?L ?R" by simp
  have "\<forall>x. x \<noteq> q \<and> x \<noteq> r \<longrightarrow> bt_mp t2 x = relinked t h r x" using T(8) by (simp add: relinks_def)
  moreover have "q \<notin> set (cpages fs)" "r \<notin> set (cpages fs)" using P(3) rn by auto
  ultimately have "\<forall>x\<in>set (cpages fs). bt_mp t2 x = relinked t h r x" by metis
  then have ctx: "ctx_at okk t2 None None (Suc m) lo' hi' fs" using ctx_alike [OF D(6) alike_relinked [OF _ same(1)]] by blast
  have lev: "leaf_links t2 (cleft fs d @ level d ?L @ level d ?R @ cright fs d)" for d
  proof (cases d)
    case 0
    then show ?thesis using LK(1) by simp
  next
    case (Suc e)
    let ?X = "concat (map (level e) ?ts)"
    have "concat (map (level e) (ta @ tb)) = ?X" unfolding ts(1) ..
    then have e: "level (Suc e) ?L @ level (Suc e) ?R = ?X" by simp
    have l: "leaf_links t (cleft fs (Suc e) @ ?X @ cright fs (Suc e))" using P(2) [rule_format, of e] by simp
    have "\<forall>x\<in>set (cleft fs (Suc e) @ ?X @ cright fs (Suc e)). bt_mp t2 x = bt_mp t x"
    proof
      fix x assume "x \<in> set (cleft fs (Suc e) @ ?X @ cright fs (Suc e))"
      then have "x \<in> set (cleft fs (Suc e) @ level (Suc e) ?S @ cright fs (Suc e)) \<or> x \<in> set (level e R)"
        using D(9) by (auto simp: concat_upd)
      then show "bt_mp t2 x = bt_mp t x"
      proof
        assume "x \<in> set (level e R)"
        then show ?thesis using level_pages [of x e R] by (intro off) simp
      qed (rule LK(3) [OF LK(4)])
    qed
    from links_cong [OF this] l have "leaf_links t2 (cleft fs (Suc e) @ (level (Suc e) ?L @ level (Suc e) ?R) @ cright fs (Suc e))"
      unfolding e by simp
    then show ?thesis unfolding Suc append_assoc .
  qed
  have pg: "set (pages ?L @ pages ?R) = insert q (insert r (set (concat (map pages ?ts))))" using ts(1) by auto
  have dist: "distinct (cpages fs @ pages ?L @ pages ?R)"
    using dx rx same(6) unfolding ts(1) by auto
  have fr: "free_of fl' (cpages fs @ pages ?L @ pages ?R)"
  proof -
    have "set (cpages fs @ pages ?L @ pages ?R) \<subseteq> insert r (set (cpages ((q, ks, ts, i) # fs) @ pages L @ pages R))"
      using pg by auto
    then show ?thesis using P(4) same(2,5,7) unfolding free_of_def by blast
  qed
  have lv: "leaves ?L @ leaves ?R = concat (map leaves (take i ts)) @ leaves L @ leaves R @ concat (map leaves (drop (Suc i) ts))"
    using arg_cong [OF ts(1), of "\<lambda>x. concat (map leaves x)"] by simp
  have "lleft fs @ (leaves ?L @ leaves ?R) @ lright fs =
      lleft ((q, ks, ts, i) # fs) @ leaves L @ leaves R @ lright ((q, ks, ts, i) # fs)" unfolding lv by simp
  then have ne: "\<forall>l\<in>set (lleft fs @ leaves ?L @ leaves ?R @ lright fs). snd l \<noteq> []" using P(8) unfolding append_assoc by (simp only:)
  have "fix_root t2 q q r = Some (RET_SUCCESS, t2)"
  proof -
    have "fst (last fs) \<in> set (cpages fs)" by (rule root_frame [OF up])
    then have "q \<noteq> P_ROOT" using P(3,7) by auto
    then show ?thesis using same(9,10) by (simp add: fix_root_def)
  qed
  moreover have "insert_parent t1 no q (pno L) (pno R) sk ?n k = Some (RET_SUCCESS, t2)"
  proof -
    have "bt_mp t2 (pno L) = Some lc" "bt_mp t2 (pno R) = Some rc" using off [of "pno L"] off [of "pno R"] h(2,3) by simp_all
    moreover have "pno L \<noteq> no" "pno R \<noteq> no" using T(5) D(12,13) rn by auto
    ultimately have "bt_mp t1 (pno L) = Some lc" "bt_mp t1 (pno R) = Some rc" using T(4) by simp_all
    then show ?thesis using item T(2,3,4) by (simp add: parent_item_def)
  qed
  moreover have "climbing (Suc m) okk t2 lo' hi' fs ?L ?R fl'"
    using part ctx D(5) LK(2) lev dist fr same(3) ne P(7) by (simp add: climbing_def)
  ultimately show ?thesis using T(1,6) same(1,2) lv
    by (intro exI [of _ r] exI [of _ no] exI [of _ sk] exI [of _ t1] exI [of _ t2] exI [of _ lo'] exI [of _ hi'] exI [of _ ?L]
        exI [of _ ?R] exI [of _ fl']) simp
qed

text \<open>The new root over two halves.\<close>

lemma root_settled:
  assumes cmp: "bt_cmp_fn t = cmp" and S: "sep m okk t None None L R s" and h: "bt_mp t q = Some h" "q = P_ROOT" "pgno h = q"
    and size: "BTDATAOFF + length (body h) = bt_psize t" and over: "root_over h (pno L) (pno R) s h'"
    and lk: "leaf_links t [q]" "\<forall>d. leaf_links t (level d L @ level d R)"
    and ps: "distinct (q # pages L @ pages R)" "free_of fl (q # pages L @ pages R)" "tree_ok t fl"
    and ne: "\<forall>l\<in>set (leaves L). snd l \<noteq> []"
  shows "settled (Suc m) okk (set_page q h' t) fl (PNode q [[], s] [L, R]) (leaves L @ leaves R)"
proof -
  let ?t = "set_page q h' t" and ?T = "PNode q [[], s] [L, R]"
  have same: "rest_same t ?t" by simp
  have off: "\<forall>p\<in>set (pages L @ pages R). bt_mp ?t p = bt_mp t p" using ps(1) by auto
  have O: "page_items h' (node_list [[], s] [pno L, pno R])" "flags h' AND P_TYPE = P_BINTERNAL" "pgno h' = q"
    "prevpg h' = prevpg h" "nextpg h' = nextpg h" "length (body h') = length (body h)"
    using over h(3) by (simp_all add: root_over_def)
  have "node_at ?t q [[], s] [pno L, pno R]" using O size by (intro node_at_items [of _ _ h']) simp_all
  moreover have "node_ok m okk ?t None None [[], s] [L, R]"
    using new_root [OF _ sep_off [OF S same off] ne] cmp by simp
  ultimately have "tree_at (Suc m) okk ?t None None ?T" unfolding tree_at_node by auto
  moreover have "tree_links ?t ?T"
    unfolding tree_links_def
  proof
    fix d
    show "leaf_links ?t (level d ?T)"
    proof (cases d)
      case 0
      then show ?thesis using lk(1) h(1) O(4,5) by (simp add: leaf_links_def)
    next
      case (Suc e)
      have "\<forall>x\<in>set (level e L @ level e R). bt_mp ?t x = bt_mp t x" using off level_pages [of _ e L] level_pages [of _ e R] by (metis Un_iff set_append)
      from links_cong [OF this] show ?thesis using lk(2) Suc by simp
    qed
  qed
  moreover have "tree_ok ?t fl"
    using ps(2,3) h(1) O(6) by (intro tree_ok_set_page) (auto simp: tree_ok_def free_of_def)
  ultimately show ?thesis using ps h(2) by (simp add: settled_def)
qed

lemma climb_root:
  assumes cmp: "bt_cmp_fn t = cmp" and C: "climbing m okk t lo hi [(q, ks, ts, i)] L R fl"
    and h: "bt_mp t q = Some h" "bt_mp t (pno L) = Some lc" "bt_mp t (pno R) = Some rc"
    and S: "sep m okk t lo hi L R s" and item: "parent_item t lc rc (pno L) (pno R) s k f"
    and full: "pg_full h (NBINTERNAL (length s))" and sz: "sizes_ok okk t" and mem: "memory t (Suc (Suc n))"
    and rec: "bt_flags t AND R_RECNO = 0"
  shows "\<exists>l r no sk t1 t2 t3 T' fl'. bt_root t q (Suc i) (NBINTERNAL (length s)) = Some (Some (l, r, no, sk), t1) \<and>
    insert_parent t1 no l (pno L) (pno R) sk (NBINTERNAL (length s)) k = Some (RET_SUCCESS, t2) \<and>
    fix_root t2 q l r = Some (RET_SUCCESS, t3) \<and>
    settled (Suc (Suc m)) okk t3 fl' T' (lleft [(q, ks, ts, i)] @ leaves L @ leaves R @ lright [(q, ks, ts, i)]) \<and> rest_same t t3"
proof -
  obtain lo' hi' where D: "lo = low_bound ks lo' i" "hi = high_bound ks hi' i" "node_at t q ks (map pno ts)"
    "hole_ok m okk t lo' hi' ks ts i" "ctx_at okk t None None (Suc m) lo' hi' []"
    "bounds_ok okk lo' hi'" "i < length ts" "length ts = length ks" "pno (ts ! i) = pno L"
    "q \<noteq> pno L" "q \<noteq> pno R" "q \<notin> set fl"
    by (rule climbing_node [OF cmp C])
  have none: "lo' = None" "hi' = None" using D(5) by simp_all
  let ?its = "node_list ks (map pno ts)" and ?it = "internal_bytes s (pno R) 0" and ?n = "NBINTERNAL (length s)"
  note P = climbingD [OF C]
  have q: "q = P_ROOT" using P(11) by simp
  note I = node_items [OF D(3) h(1)]
  have okks: "\<forall>k\<in>set ks. okk k" "okk s" using D(4) S by (simp_all add: hole_ok_def sep_def)
  have F: "full_page t fl q h ?its ?n" by (rule full_node [OF D(3) h(1) D(12) okks sz full])
  have skip: "Suc i \<le> length ?its" using D(7,8) by simp
  have st: "stores_item f ?it ?n" using item by (simp add: parent_item_def)
  obtain l r no sk t1 h1 h2 t2 fl' hl hr where T: "bt_root t q (Suc i) ?n = Some (Some (l, r, no, sk), t1)"
    "bt_mp t1 no = Some h1" "f h1 sk = Some h2" "t2 = set_page no h2 t1" "no = l \<or> no = r"
    "stored t fl h (take (Suc i) ?its @ ?it # drop (Suc i) ?its) l r hl hr t2 fl'" "l \<noteq> P_INVALID" "l \<in> set fl \<or> bt_mp t l = None"
    "\<forall>q. q \<noteq> l \<and> q \<noteq> r \<longrightarrow> bt_mp t1 q = bt_mp t q" "prevpg hl = P_INVALID" "nextpg hr = P_INVALID"
    using root_stored [OF P(8) mem F skip st] by blast
  let ?ks = "take (Suc i) ks @ s # drop (Suc i) ks" and ?ts = "take i ts @ L # R # drop (Suc i) ts"
  have cs: "map pno ?ts = take (Suc i) (map pno ts) @ pno R # drop (Suc i) (map pno ts)"
    using D(7,9) by (simp add: take_Suc_conv_app_nth take_map drop_map)
  have stl: "stored t fl h (node_list ?ks (map pno ?ts)) l r hl hr t2 fl'"
    using T(6) node_list_insert [of "map pno ts" ks i s "pno R"] D(7,8) unfolding cs by simp
  have len: "length (map pno ?ts) = length ?ks" using D(7,8) by simp
  obtain ka kb ca cb where N: "?ks = ka @ kb" "map pno ?ts = ca @ cb" "length ca = length ka" "length cb = length kb"
    "ka \<noteq> []" "kb \<noteq> []" "node_at t2 l ka ca" "node_at t2 r kb cb"
    using stored_nodes [OF stl I(2) len] by blast
  obtain ta tb where ts: "?ts = ta @ tb" "map pno ta = ca" "map pno tb = cb"
    using N(2) unfolding map_eq_append_conv by blast
  have la: "length ta = length ka" using N(3) ts(2) by (metis length_map)
  have same: "rest_same t t2" "set fl' \<subseteq> set fl" "tree_ok t2 fl'" "l \<notin> set fl'" "r \<notin> set fl'" "l \<noteq> r" "r \<noteq> P_INVALID"
    "r \<in> set fl \<or> bt_mp t r = None" "bt_mp t2 l = Some hl" "pgno hl = l" "bt_mp t2 r = Some hr" "nextpg hl = r" "prevpg hr = l"
    using stl moved_rest by (auto simp: stored_def)
  have dx: "distinct (q # concat (map pages ?ts))" using P(6) unfolding frame_distinct by simp
  have px: "set (cpages [(q, ks, ts, i)] @ pages L @ pages R) = set (q # concat (map pages ?ts))" by auto
  have rx: "l \<notin> set (q # concat (map pages ?ts))" "r \<notin> set (q # concat (map pages ?ts))"
    using climbing_new [OF C T(8)] climbing_new [OF C same(8)] unfolding px .
  have off: "bt_mp t2 p = bt_mp t p" if "p \<in> set (q # concat (map pages ?ts))" for p
    using that rx T(4,5,9) by auto
  have ND: "node_ok m okk t2 None None (ka @ kb) (ta @ tb)"
    unfolding N(1) [symmetric] ts(1) [symmetric]
    using node_halves [OF cmp D(4) S [unfolded D(1,2)] D(6) P(10) same(1)] off none by auto
  have cmp2: "bt_cmp_fn t2 = cmp" using rest_sameD(1) [OF same(1)] cmp by simp
  then have ko: "key_order okk (bt_cmp_fn t2)" using key_order_axioms by simp
  note SP = node_split [OF ND la N(5,6) ko]
  let ?L = "PNode l ka ta" and ?R = "PNode r kb tb"
  have sp: "sep (Suc m) okk t2 None None ?L ?R (hd kb)"
    unfolding sep_def tree_at_node using SP N(7,8) ts(2,3) by blast
  have lv: "leaves ?L @ leaves ?R = lleft [(q, ks, ts, i)] @ leaves L @ leaves R @ lright [(q, ks, ts, i)]"
    using arg_cong [OF ts(1), of "\<lambda>x. concat (map leaves x)"] by simp
  have psz: "bt_psize t2 = bt_psize t" using rest_sameD(2) [OF same(1)] .
  have h2: "bt_mp t2 q = Some h" using off [of q] h(1) by simp
  have "4 + NBINTERNAL 0 + NBINTERNAL (length (hd kb)) \<le> length (body h)"
  proof -
    have "NBINTERNAL 0 = 12" by (simp add: NBINTERNAL_def LALIGN_def)
    moreover have "4 * NBINTERNAL (length (hd kb)) \<le> bt_psize t - BTDATAOFF" "48 \<le> bt_psize t - BTDATAOFF"
      using sz SP(3) by (simp_all add: sizes_ok_def)
    ultimately show ?thesis using I(4) by simp
  qed
  moreover have "bt_psize t2 < 65536" using sz psz unfolding sizes_ok_def by linarith
  ultimately obtain h' where B: "bt_broot t2 q l r = Some (RET_SUCCESS, set_page q h' t2)" "root_over h l r (hd kb) h'"
    using broot_node [OF h2 I(2) _ _ same(9,10) N(8)] I(4) psz by auto
  have fx: "fix_root t2 q l r = Some (RET_SUCCESS, set_page q h' t2)"
    using h2 I(3) q rec rest_sameD(5) [OF same(1)] B(1) by (simp add: fix_root_def)
  have ins: "insert_parent t1 no l (pno L) (pno R) sk ?n k = Some (RET_SUCCESS, t2)"
  proof -
    have "pno L \<in> set (concat (map pages ?ts))" "pno R \<in> set (concat (map pages ?ts))" by auto
    then have "pno L \<noteq> l" "pno L \<noteq> r" "pno R \<noteq> l" "pno R \<noteq> r" using rx by auto
    then have "bt_mp t1 (pno L) = Some lc" "bt_mp t1 (pno R) = Some rc" using T(9) h(2,3) by simp_all
    then show ?thesis using item T(2,3,4) by (simp add: parent_item_def)
  qed
  have lev: "leaf_links t2 (level d ?L @ level d ?R)" for d
  proof (cases d)
    case 0
    then show ?thesis using same(6,9,11,12,13) T(10,11) by (simp add: links_sib_chain)
  next
    case (Suc e)
    let ?X = "concat (map (level e) ?ts)"
    have "concat (map (level e) (ta @ tb)) = ?X" unfolding ts(1) ..
    then have e: "level (Suc e) ?L @ level (Suc e) ?R = ?X" by simp
    have l: "leaf_links t ?X" using P(5) [rule_format, of e] by simp
    have "set ?X \<subseteq> set (concat (map pages ?ts))" using level_pages by auto
    then have "\<forall>x\<in>set ?X. bt_mp t2 x = bt_mp t x" using off by (meson list.set_intros(2) subsetD)
    from links_cong [OF this] l show ?thesis unfolding Suc e by simp
  qed
  have dist: "distinct (q # pages ?L @ pages ?R)" using dx rx same(6) unfolding ts(1) by auto
  have "set (q # pages ?L @ pages ?R) = insert l (insert r (set (q # concat (map pages ?ts))))"
    unfolding ts(1) by auto
  then have sub: "set (q # pages ?L @ pages ?R) \<subseteq> insert l (insert r (set (cpages [(q, ks, ts, i)] @ pages L @ pages R)))"
    unfolding px by (simp only: subset_refl)
  have fr: "free_of fl' (q # pages ?L @ pages ?R)"
    by (rule free_new [OF P(7) same(2) _ _ sub]) (use same(4,5,7) T(7) in simp_all)
  have ne: "\<forall>l\<in>set (leaves ?L). snd l \<noteq> []"
  proof -
    have "set (leaves ?L) \<subseteq> set (leaves ?L @ leaves ?R)" by auto
    then show ?thesis using P(9) unfolding lv by auto
  qed
  have "leaf_links t2 [q]" using P(4) links_cong [of "[q]" t2 t] off [of q] by simp
  then have "settled (Suc (Suc m)) okk (set_page q h' t2) fl' (PNode q [[], hd kb] [?L, ?R]) (leaves ?L @ leaves ?R)"
    using root_settled [OF cmp2 sp h2 q I(3) _ _ _ _ dist fr same(3) ne] I(4) psz B(2) lev by simp
  moreover have "rest_same t (set_page q h' t2)" using same(1) by simp
  ultimately show ?thesis using T(1) ins fx unfolding lv by blast
qed

end

end
