(* ===== verification/Bt_Divide.thy ===== *)
theory Bt_Divide
  imports Bt_Ascent
begin

text \<open>
  \<^verbatim>\<open>__bt_split\<close> as a whole: a record that has no room on its leaf is stored, and the pages represent a
  tree again that has two leaves for the old one.
\<close>

section \<open>The place of a leaf\<close>

definition small_recs_in :: "BTREE \<Rightarrow> leaf_rec list \<Rightarrow> bool" where
  "small_recs_in t rs \<longleftrightarrow>
     (\<forall>r\<in>set rs. 4 * NBLEAFDBT (length (fst r)) (length (fst (snd r))) \<le> bt_psize t - BTDATAOFF)"

definition leaf_place ::
  "(u8 list \<Rightarrow> bool) \<Rightarrow> BTREE \<Rightarrow> u32 list \<Rightarrow> frame list \<Rightarrow> u32 \<Rightarrow> leaf_rec list \<Rightarrow> u8 list option \<Rightarrow> u8 list option \<Rightarrow> bool" where
  "leaf_place okk t fl fs p rs lo hi \<longleftrightarrow>
     path_at okk t fs p rs lo hi \<and> distinct (pages (plug fs (PLeaf p rs))) \<and> free_of fl (pages (plug fs (PLeaf p rs))) \<and>
     tree_ok t fl \<and> tree_links t (plug fs (PLeaf p rs)) \<and> pno (plug fs (PLeaf p rs)) = P_ROOT \<and>
     (\<forall>l\<in>set (lleft fs @ lright fs). snd l \<noteq> [])"

context key_sep
begin

section \<open>The walk\<close>

lemma climb_ok:
  "climbing m okk t lo hi fs L R fl \<Longrightarrow> fs \<noteq> [] \<Longrightarrow> bt_cmp_fn t = cmp \<Longrightarrow>
   bt_pfx_fn t = None \<or> bt_pfx_fn t = Some pfx \<Longrightarrow> sizes_ok okk t \<Longrightarrow> memory t (Suc (length fs)) \<Longrightarrow>
   bt_flags t AND R_RECNO = 0 \<Longrightarrow>
   \<exists>t' T' n' fl'. split_up (map frame_ep fs) t (pno L) (pno R) = Some (RET_SUCCESS, t') \<and>
     settled n' okk t' fl' T' (lleft fs @ leaves L @ leaves R @ lright fs) \<and> rest_same t t' \<and>
     (n' = m + length fs \<or> n' = Suc (m + length fs))"
proof (induction fs arbitrary: m t lo hi L R fl)
  case (Cons fr fs)
  obtain q ks ts i where fr: "fr = (q, ks, ts, i)" by (cases fr)
  let ?t = "t\<lparr>bt_stack := map frame_ep fs\<rparr>"
  have same: "rest_same t ?t" by simp
  note C = climbing_same [OF Cons.prems(1) same, unfolded fr, simplified]
  have cmp: "bt_cmp_fn ?t = cmp" "bt_pfx_fn ?t = None \<or> bt_pfx_fn ?t = Some pfx" "sizes_ok okk ?t"
    "memory ?t (Suc (Suc (length fs)))" "bt_flags ?t AND R_RECNO = 0"
    using Cons.prems(3,4,6,7) sizes_rest [OF same] Cons.prems(5) by (simp_all add: memory_def)
  obtain h lc rc where D: "bt_mp ?t q = Some h" "bt_mp ?t (pno L) = Some lc" "bt_mp ?t (pno R) = Some rc"
    "bounds_ok okk lo hi" "i < length ts" "length ts = length ks" "length ks < 65536" "node_at ?t q ks (map pno ts)"
    by (rule climbing_node [OF cmp(1) C])
  have q: "pgno h = q" using node_items(3) [OF D(8,1)] .
  have skip: "(i + 1) mod 65536 = Suc i" using D(5-7) by simp
  obtain s k f where E: "parent_size ?t h lc rc (Suc i) = Some (NBINTERNAL (length s), k)" "sep m okk ?t lo hi L R s"
    "parent_item ?t lc rc (pno L) (pno R) s k f"
    using parent_entry [OF cmp(1,2) climbingD(1) [OF C] D(4,2,3)] by blast
  let ?n = "NBINTERNAL (length s)"
  have start: "split_up (map frame_ep (fr # fs)) t (pno L) (pno R) =
     (if pg_full h ?n then Option.bind (if q = P_ROOT then bt_root ?t q (Suc i) ?n else bt_page ?t q (Suc i) ?n)
        (\<lambda>(s, t). case s of None \<Rightarrow> Some (RET_ERROR, dbpanic t)
          | Some (l, r, no, skip) \<Rightarrow> Option.bind (insert_parent t no l (pno L) (pno R) skip ?n k)
              (\<lambda>(st, t). if st = RET_ERROR then Some (RET_ERROR, dbpanic t)
                else Option.bind (fix_root t q l r)
                  (\<lambda>(st, t). if st = RET_ERROR then Some (RET_ERROR, dbpanic t) else split_up (map frame_ep fs) t l r)))
      else Option.bind (shift_indices h (Suc i)) (\<lambda>h.
        Option.bind (insert_parent (set_page q h ?t) q (pno L) (pno L) (pno R) (Suc i) ?n k)
          (\<lambda>(st, t). Some (if st = RET_ERROR then (RET_ERROR, dbpanic t) else (RET_SUCCESS, t)))))"
    unfolding fr list.map frame_ep.simps split_up.simps
    using D(1-3) E(1) q skip by (simp add: Let_def)
  show ?case
  proof (cases "pg_full h ?n")
    case False
    obtain h1 t' T' where R: "shift_indices h (Suc i) = Some h1"
      "insert_parent (set_page q h1 ?t) q (pno L) (pno L) (pno R) (Suc i) ?n k = Some (RET_SUCCESS, t')"
      "settled (Suc m + length fs) okk t' fl T' (lleft ((q, ks, ts, i) # fs) @ leaves L @ leaves R @ lright ((q, ks, ts, i) # fs))"
      "rest_same ?t t'"
      using climb_room [OF cmp(1) C D(1-3) E(2,3) False] by blast
    have "split_up (map frame_ep (fr # fs)) t (pno L) (pno R) = Some (RET_SUCCESS, t')"
      using False R(1,2) unfolding start by simp
    then show ?thesis using R(3) rest_same_trans [OF same R(4)] unfolding fr by auto
  next
    case full: True
    show ?thesis
    proof (cases "fs = []")
      case True
      have root: "q = P_ROOT" using climbingD(11) [OF C] True by simp
      have C1: "climbing m okk ?t lo hi [(q, ks, ts, i)] L R fl" using C unfolding True .
      have mem: "memory ?t (Suc (Suc 0))" using cmp(4) True by simp
      obtain l r no sk t1 t2 t3 T' fl' where R: "bt_root ?t q (Suc i) ?n = Some (Some (l, r, no, sk), t1)"
        "insert_parent t1 no l (pno L) (pno R) sk ?n k = Some (RET_SUCCESS, t2)" "fix_root t2 q l r = Some (RET_SUCCESS, t3)"
        "settled (Suc (Suc m)) okk t3 fl' T' (lleft [(q, ks, ts, i)] @ leaves L @ leaves R @ lright [(q, ks, ts, i)])"
        "rest_same ?t t3"
        using climb_root [OF cmp(1) C1 D(1-3) E(2,3) full cmp(3) mem cmp(5)] by blast
      have "split_up (map frame_ep (fr # fs)) t (pno L) (pno R) = Some (RET_SUCCESS, t3)"
        using full R(1-3) root True unfolding start by simp
      then show ?thesis using R(4) rest_same_trans [OF same R(5)] unfolding fr True by auto
    next
      case False
      obtain r no sk t1 t2 lo' hi' L' R' fl' where R: "bt_page ?t q (Suc i) ?n = Some (Some (q, r, no, sk), t1)"
        "insert_parent t1 no q (pno L) (pno R) sk ?n k = Some (RET_SUCCESS, t2)" "fix_root t2 q q r = Some (RET_SUCCESS, t2)"
        "climbing (Suc m) okk t2 lo' hi' fs L' R' fl'" "pno L' = q" "pno R' = r"
        "leaves L' @ leaves R' = concat (map leaves (take i ts)) @ leaves L @ leaves R @ concat (map leaves (drop (Suc i) ts))"
        "rest_same ?t t2" "memory t2 (Suc (length fs))"
        using climb_page [OF cmp(1) C False D(1-3) E(2,3) full cmp(3,4)] by blast
      have root: "q \<noteq> P_ROOT"
      proof -
        have "fst (last fs) \<in> set (cpages fs)" by (rule root_frame [OF False])
        then show ?thesis using climbingD(6,11) [OF C] False by auto
      qed
      note S = rest_sameD [OF R(8)]
      obtain t' T' n' fl'' where I: "split_up (map frame_ep fs) t2 (pno L') (pno R') = Some (RET_SUCCESS, t')"
        "settled n' okk t' fl'' T' (lleft fs @ leaves L' @ leaves R' @ lright fs)" "rest_same t2 t'"
        "n' = Suc m + length fs \<or> n' = Suc (Suc m + length fs)"
        using Cons.IH [OF R(4) False _ _ _ R(9)] S cmp sizes_rest [OF R(8)] by auto
      have "split_up (map frame_ep (fr # fs)) t (pno L) (pno R) = Some (RET_SUCCESS, t')"
        using full R(1-3,5,6) root I(1) unfolding start by simp
      moreover have "lleft fs @ leaves L' @ leaves R' @ lright fs = lleft (fr # fs) @ leaves L @ leaves R @ lright (fr # fs)"
        using arg_cong [OF R(7), of "\<lambda>x. lleft fs @ x @ lright fs"] unfolding fr by simp
      ultimately show ?thesis using I(2,4) rest_same_trans [OF same rest_same_trans [OF R(8) I(3)]] by auto
    qed
  qed
qed simp

section \<open>Splitting a leaf\<close>

lemma full_leaf:
  assumes at: "leaf_at t p rs" "bt_mp t p = Some h" and p: "p \<notin> set fl" and sz: "sizes_ok okk t"
    and small: "small_recs_in t rs" "4 * n \<le> bt_psize t - BTDATAOFF" and full: "pg_full h n"
  shows "full_page t fl p h (map leaf_item rs) n"
proof -
  have L: "leaf_page h rs" "flags h AND P_TYPE = P_BLEAF" "pgno h = p" "BTDATAOFF + length (body h) = bt_psize t"
    "\<forall>r\<in>set rs. snd (snd r) = 0"
    using at by (auto simp: leaf_at_def)
  have "sources h (map leaf_item rs)" using leaf_sources [OF L(1,2)] L(5) by simp
  moreover have "small_items (bt_psize t - BTDATAOFF) n (map leaf_item rs)"
    using small sz by (auto simp: small_items_def sizes_ok_def small_recs_in_def leaf_item_def isize_leaf)
  ultimately show ?thesis using L at(2) p full by (simp add: full_page_def leaf_page_def)
qed

lemma leaf_list_insert:
  "take i (map leaf_item rs) @ leaf_bytes key data 0 # drop i (map leaf_item rs) =
     map leaf_item (take i rs @ (key, data, 0) # drop i rs)"
  by (simp add: leaf_item_def take_map drop_map)

lemma split_inner_leaf:
  assumes cmp: "bt_cmp_fn t = cmp" and pf: "bt_pfx_fn t = None \<or> bt_pfx_fn t = Some pfx"
    and P: "leaf_place okk t fl fs p rs lo hi" and up: "fs \<noteq> []" and h: "bt_mp t p = Some h"
    and F: "full_page t fl p h (map leaf_item rs) (NBLEAFDBT (length key) (length data))"
    and i: "i \<le> length rs" and K: "keys_in okk t lo hi (take i rs @ (key, data, 0) # drop i rs)"
    and sz: "sizes_ok okk t" and mem: "memory t (Suc (Suc (length fs)))" and rec: "bt_flags t AND R_RECNO = 0"
    and stack: "bt_stack t = map frame_ep fs"
  shows "\<exists>t' T' n' fl' r A B. bt_split t p key data 0 (NBLEAFDBT (length key) (length data)) i = Some (RET_SUCCESS, t') \<and>
    settled n' okk t' fl' T' (lleft fs @ [(p, A), (r, B)] @ lright fs) \<and> A @ B = take i rs @ (key, data, 0) # drop i rs \<and>
    A \<noteq> [] \<and> B \<noteq> [] \<and> rest_same t t' \<and> (n' = length fs \<or> n' = Suc (length fs))"
proof -
  let ?n = "NBLEAFDBT (length key) (length data)" and ?its = "map leaf_item rs" and ?S = "PLeaf p rs"
  let ?new = "take i rs @ (key, data, 0) # drop i rs"
  have D: "ctx_at okk t None None 0 lo hi fs" "hole_page fs p" "leaf_at t p rs" "keys_in okk t lo hi rs"
    "distinct (pages (plug fs ?S))" "free_of fl (pages (plug fs ?S))" "tree_ok t fl" "tree_links t (plug fs ?S)"
    "fst (last fs) = P_ROOT" "\<forall>l\<in>set (lleft fs @ lright fs). snd l \<noteq> []"
    using P up pno_plug [of fs ?S] by (auto simp: leaf_place_def path_at_def)
  have fo: "frames_ok fs" by (rule ctx_frames [OF D(1)])
  have pg: "set (pages (plug fs ?S)) = insert p (set (cpages fs))" using plug_pages_set [OF fo, of ?S] by simp
  have dc: "distinct (cpages fs)" "p \<notin> set (cpages fs)" using D(5) unfolding plug_distinct [OF fo] by auto
  have pr: "p \<noteq> P_ROOT" using root_frame [OF up] dc(2) D(9) by metis
  have lk: "ctx_links t fs" "\<forall>d. leaf_links t (cleft fs d @ level d ?S @ cright fs d)"
    using D(8) unfolding plug_links [OF fo] by blast+
  have lk0: "leaf_links t (cleft fs 0 @ p # cright fs 0)" using lk(2) [rule_format, of 0] by simp
  have hp: "pgno h = p" "flags h AND P_TYPE = P_BLEAF" "\<forall>r\<in>set rs. snd (snd r) = 0"
    using D(3) h by (auto simp: leaf_at_def)
  have row: "row fs \<subseteq> set (cpages fs)" by (rule row_cpages)
  have nxt: "nextpg h \<noteq> P_INVALID \<longrightarrow> nextpg h \<notin> set fl \<and> nextpg h \<noteq> p \<and> bt_mp t (nextpg h) \<noteq> None"
  proof
    assume "nextpg h \<noteq> P_INVALID"
    then have "nextpg h \<in> set (cright fs 0)" using links_next(1) [OF lk0 h] by (cases "cright fs 0") auto
    then have x: "nextpg h \<in> set (cpages fs)" using row by (auto simp: row_def)
    show "nextpg h \<notin> set fl \<and> nextpg h \<noteq> p \<and> bt_mp t (nextpg h) \<noteq> None"
      using ctx_pages_exist [OF D(1) x] x dc(2) D(6) unfolding free_of_def pg by auto
  qed
  obtain bytes where b: "bt_malloc t = Some bytes" "length bytes = bt_psize t - BTDATAOFF" using sz by (auto simp: sizes_ok_def)
  have skip: "i \<le> length ?its" using i by simp
  obtain r no sk t1 h1 h2 t2 fl' hl hr where T: "bt_page t p i ?n = Some (Some (p, r, no, sk), t1)"
    "bt_mp t1 no = Some h1" "leaf_store key data 0 ?n h1 sk = Some h2" "t2 = set_page no h2 t1" "memory t2 (Suc (length fs))"
    "stored t fl h (map leaf_item ?new) p r hl hr t2 fl'" "relinks t p h r t2"
    using page_stored [OF D(7) mem F skip b nxt stores_leaf [where fl = 0]] unfolding leaf_list_insert by blast
  have same: "rest_same t t2" "bt_stack t2 = bt_stack t" "set fl' \<subseteq> set fl" "tree_ok t2 fl'" "p \<notin> set fl'" "r \<notin> set fl'" "p \<noteq> r" "r \<noteq> P_INVALID"
    "r \<in> set fl \<or> bt_mp t r = None" "bt_mp t2 p = Some hl" "pgno hl = p"
    using T(6) moved_rest pages_movedD(5) by (auto simp: stored_def)
  obtain A B where AB: "?new = A @ B" "A \<noteq> []" "B \<noteq> []" "leaf_at t2 p A" "leaf_at t2 r B"
    using stored_leaves [OF T(6) hp(2)] hp(3) by (auto dest: in_set_takeD in_set_dropD)
  have rn: "r \<notin> insert p (set (cpages fs))"
    using same(9) ctx_pages_exist [OF D(1), of r] h D(6) unfolding free_of_def pg by auto
  have LK: "leaf_links t2 (cleft fs 0 @ p # r # cright fs 0)" "ctx_links t2 fs"
    "\<And>x. x \<notin> insert p (insert r (row fs)) \<Longrightarrow> bt_mp t2 x = bt_mp t x"
    "\<And>x e. x \<in> set (cleft fs (Suc e) @ cright fs (Suc e)) \<Longrightarrow> x \<notin> insert p (insert r (row fs))"
    using split_links [OF fo D(5), of t h r t2] D(6) pg rn lk lk0 h T(7) by (auto simp: free_of_def)
  have "\<forall>x\<in>set (cpages fs). bt_mp t2 x = relinked t h r x"
    using T(7) dc(2) rn unfolding relinks_def by (metis insertCI)
  then have ctx: "ctx_at okk t2 None None 0 lo hi fs" using ctx_alike [OF D(1) alike_relinked [OF _ same(1)]] by blast
  have cmp2: "bt_cmp_fn t2 = bt_cmp_fn t" using rest_sameD(1) [OF same(1)] .
  have K2: "keys_in okk t2 lo hi (A @ B)" using K unfolding AB(1) keys_in_def between_def cmp2 .
  have lev: "leaf_links t2 (cleft fs d @ level d (PLeaf p A) @ level d (PLeaf r B) @ cright fs d)" for d
  proof (cases d)
    case 0
    then show ?thesis using LK(1) by simp
  next
    case (Suc e)
    have "\<forall>x\<in>set (cleft fs (Suc e) @ cright fs (Suc e)). bt_mp t2 x = bt_mp t x" using LK(3,4) by blast
    from links_cong [OF this] show ?thesis using lk(2) [rule_format, of "Suc e"] Suc by simp
  qed
  have fr: "free_of fl' (cpages fs @ pages (PLeaf p A) @ pages (PLeaf r B))"
    using D(6) same(3,6,8) unfolding free_of_def pg by auto
  have C: "climbing 0 okk t2 lo hi fs (PLeaf p A) (PLeaf r B) fl'"
    unfolding climbing_def using AB K2 ctx D(2,9,10) LK(2) lev fr same(4,7) dc rn by auto
  have sz2: "sizes_ok okk t2" using sizes_rest [OF same(1)] sz by simp
  have fx: "bt_cmp_fn t2 = cmp" "bt_pfx_fn t2 = None \<or> bt_pfx_fn t2 = Some pfx" "bt_flags t2 AND R_RECNO = 0"
    using rest_sameD [OF same(1)] cmp pf rec by simp_all
  obtain t' T' n' fl'' where U: "split_up (map frame_ep fs) t2 p r = Some (RET_SUCCESS, t')"
    "settled n' okk t' fl'' T' (lleft fs @ [(p, A)] @ [(r, B)] @ lright fs)" "rest_same t2 t'"
    "n' = length fs \<or> n' = Suc (length fs)"
    using climb_ok [OF C up fx(1,2) sz2 T(5) fx(3)] by auto
  have i16: "i mod 65536 = i"
    using i full_pageD(2) [OF F] sz by (simp add: sizes_ok_def)
  have st: "Option.bind (take_room h1 sk ?n) (\<lambda>h. WR_BLEAF h (unat (upper h)) key data 0) = Some h2"
    using T(3) by (simp add: leaf_store_def)
  have rec1: "bt_flags t1 AND R_RECNO = 0" using fx(3) T(4) by simp
  have fr2: "fix_root t2 p p r = Some (RET_SUCCESS, t2)" using same(10,11) pr by (simp add: fix_root_def)
  have "bt_split t p key data 0 ?n i = split_up (bt_stack t2) t2 p r"
    using h hp(1) pr i16 T(1,2) rec1 st fr2 unfolding bt_split_def
    by (auto simp: T(4) [symmetric] split: bind_splits)
  then show ?thesis using U same(2) stack rest_same_trans [OF same(1) U(3)] AB(1-3)
    by (intro exI [of _ t'] exI [of _ T'] exI [of _ n'] exI [of _ fl''] exI [of _ r] exI [of _ A] exI [of _ B]) simp
qed

lemma split_root_leaf:
  assumes cmp: "bt_cmp_fn t = cmp" and P: "leaf_place okk t fl [] p rs lo hi" and h: "bt_mp t p = Some h"
    and F: "full_page t fl p h (map leaf_item rs) (NBLEAFDBT (length key) (length data))"
    and i: "i \<le> length rs" and K: "keys_in okk t lo hi (take i rs @ (key, data, 0) # drop i rs)"
    and sz: "sizes_ok okk t" and mem: "memory t (Suc (Suc n))" and rec: "bt_flags t AND R_RECNO = 0"
    and stack: "bt_stack t = []"
  shows "\<exists>t' T' fl' l r A B. bt_split t p key data 0 (NBLEAFDBT (length key) (length data)) i = Some (RET_SUCCESS, t') \<and>
    settled 1 okk t' fl' T' [(l, A), (r, B)] \<and> A @ B = take i rs @ (key, data, 0) # drop i rs \<and>
    A \<noteq> [] \<and> B \<noteq> [] \<and> rest_same t t'"
proof -
  let ?n = "NBLEAFDBT (length key) (length data)" and ?its = "map leaf_item rs"
  let ?new = "take i rs @ (key, data, 0) # drop i rs"
  have D: "lo = None" "hi = None" "leaf_at t p rs" "free_of fl [p]" "tree_ok t fl" "leaf_links t [p]" "p = P_ROOT"
    using P by (auto simp: leaf_place_def path_at_def tree_links_def dest: spec [of _ 0])
  have hp: "pgno h = p" "flags h AND P_TYPE = P_BLEAF" "\<forall>r\<in>set rs. snd (snd r) = 0" "BTDATAOFF + length (body h) = bt_psize t"
    using D(3) h by (auto simp: leaf_at_def)
  have skip: "i \<le> length ?its" using i by simp
  obtain l r no sk t1 h1 h2 t2 fl' hl hr where T: "bt_root t p i ?n = Some (Some (l, r, no, sk), t1)"
    "bt_mp t1 no = Some h1" "leaf_store key data 0 ?n h1 sk = Some h2" "t2 = set_page no h2 t1" "no = l \<or> no = r"
    "stored t fl h (map leaf_item ?new) l r hl hr t2 fl'" "l \<noteq> P_INVALID" "l \<in> set fl \<or> bt_mp t l = None"
    "\<forall>q. q \<noteq> l \<and> q \<noteq> r \<longrightarrow> bt_mp t1 q = bt_mp t q" "prevpg hl = P_INVALID" "nextpg hr = P_INVALID"
    using root_stored [OF D(5) mem F skip stores_leaf [where fl = 0]] unfolding leaf_list_insert by blast
  have same: "rest_same t t2" "bt_stack t2 = bt_stack t" "set fl' \<subseteq> set fl" "tree_ok t2 fl'" "l \<notin> set fl'" "r \<notin> set fl'" "l \<noteq> r" "r \<noteq> P_INVALID"
    "r \<in> set fl \<or> bt_mp t r = None" "bt_mp t2 l = Some hl" "pgno hl = l" "bt_mp t2 r = Some hr" "nextpg hl = r" "prevpg hr = l"
    using T(6) moved_rest pages_movedD(5) by (auto simp: stored_def)
  obtain A B where AB: "?new = A @ B" "A \<noteq> []" "B \<noteq> []" "leaf_at t2 l A" "leaf_at t2 r B"
    using stored_leaves [OF T(6) hp(2)] hp(3) by (auto dest: in_set_takeD in_set_dropD)
  have pn: "p \<noteq> l" "p \<noteq> r" using T(8) same(9) h D(4) by (auto simp: free_of_def)
  have h2: "bt_mp t2 p = Some h" using T(4,5,9) pn h by auto
  have cmp2: "bt_cmp_fn t2 = bt_cmp_fn t" using rest_sameD(1) [OF same(1)] .
  have K2: "keys_in okk t2 None None (A @ B)" using K unfolding D(1,2) AB(1) keys_in_def between_def cmp2 .
  let ?s = "fst (hd B)"
  have ks: "okk ?s" "cmp (fst (last A)) ?s < 0" "cmp ?s (fst (hd B)) \<le> 0"
  proof -
    have B: "hd B \<in> set B" "last A \<in> set A" using AB(2,3) by simp_all
    then show "okk ?s" using K2 by (simp add: keys_in_def)
    then show "cmp ?s (fst (hd B)) \<le> 0" by (simp add: cmp_refl)
    show "cmp (fst (last A)) ?s < 0" using K2 B cmp cmp2 by (auto simp: keys_in_def sorted_wrt_append)
  qed
  have S: "sep 0 okk t2 None None (PLeaf l A) (PLeaf r B) ?s"
    using parted_leaves [OF _ K2 AB(2-5) _ ks] cmp cmp2 by (simp add: bounds_ok_def)
  have psz: "bt_psize t2 = bt_psize t" using rest_sameD(2) [OF same(1)] .
  have "4 + NBINTERNAL 0 + NBINTERNAL (length ?s) \<le> length (body h)"
  proof -
    have "NBINTERNAL 0 = 12" by (simp add: NBINTERNAL_def LALIGN_def)
    moreover have "4 * NBINTERNAL (length ?s) \<le> bt_psize t - BTDATAOFF" "48 \<le> bt_psize t - BTDATAOFF"
      using sz ks(1) by (simp_all add: sizes_ok_def)
    ultimately show ?thesis using hp(4) by simp
  qed
  moreover have "bt_psize t2 < 65536" using sz psz unfolding sizes_ok_def by linarith
  ultimately obtain h' where B: "bt_broot t2 p l r = Some (RET_SUCCESS, set_page p h' t2)" "root_over h l r ?s h'"
    using broot_leaf [OF h2 hp(2) _ _ same(10,11) AB(5,3)] hp(4) psz by auto
  have fx: "fix_root t2 p l r = Some (RET_SUCCESS, set_page p h' t2)"
    using h2 hp(1) D(7) rec rest_sameD(5) [OF same(1)] B(1) by (simp add: fix_root_def)
  have lev: "\<forall>d. leaf_links t2 (level d (PLeaf l A) @ level d (PLeaf r B))"
  proof
    fix d
    show "leaf_links t2 (level d (PLeaf l A) @ level d (PLeaf r B))"
      using same(7,10,12,13,14) T(10,11) by (cases d) (simp_all add: links_sib_chain)
  qed
  have lp: "leaf_links t2 [p]" using D(6) links_cong [of "[p]" t2 t] h2 h by simp
  have fr: "distinct (p # pages (PLeaf l A) @ pages (PLeaf r B))" "free_of fl' (p # pages (PLeaf l A) @ pages (PLeaf r B))"
    using pn same(3,5-8) T(7) D(4) by (auto simp: free_of_def)
  have se: "settled 1 okk (set_page p h' t2) fl' (PNode p [[], ?s] [PLeaf l A, PLeaf r B]) [(l, A), (r, B)]"
    using root_settled [OF _ S h2 D(7) hp(1) _ _ lp lev fr same(4)] hp(4) psz B(2) AB(2) cmp cmp2 by simp
  have i16: "i mod 65536 = i" using i full_pageD(2) [OF F] sz by (simp add: sizes_ok_def)
  have st: "Option.bind (take_room h1 sk ?n) (\<lambda>h. WR_BLEAF h (unat (upper h)) key data 0) = Some h2"
    using T(3) by (simp add: leaf_store_def)
  have rec1: "bt_flags t1 AND R_RECNO = 0" using rec rest_sameD(5) [OF same(1)] T(4) by simp
  have "bt_split t p key data 0 ?n i = split_up (bt_stack t2) (set_page p h' t2) l r"
    using h hp(1) D(7) i16 T(1,2) rec1 st fx unfolding bt_split_def
    by (auto simp: T(4) [symmetric] split: bind_splits)
  then have "bt_split t p key data 0 ?n i = Some (RET_SUCCESS, set_page p h' t2)"
    using same(2) stack by simp
  moreover have "rest_same t (set_page p h' t2)" using same(1) by simp
  ultimately show ?thesis using se AB(1-3) by (metis (no_types))
qed

end

end
