(* ===== verification/Bt_Growth.thy ===== *)
theory Bt_Growth
  imports Bt_Divide "HOL-Library.Sublist"
begin

text \<open>
  Storing a record in a database of any number of pages: the record is put on its leaf, or the leaf is
  split, and the pages represent the tree of the longer list of records.
\<close>

section \<open>The leaves in order\<close>

lemma subseq_concat:
  "\<forall>x\<in>set xs. subseq (f x) (g x) \<Longrightarrow> subseq (concat (map f xs)) (concat (map g xs))"
  by (induction xs) (auto intro: list_emb_append_mono)

lemma leaves_subseq: "subseq (map fst (leaves T)) (pages T)"
proof (induction T)
  case (PNode p ks ts)
  have "subseq (concat (map (map fst \<circ> leaves) ts)) (concat (map pages ts))"
    using PNode by (intro subseq_concat) simp
  then show ?case by (auto simp: map_concat comp_def intro: list_emb_Cons)
qed simp

lemma leaves_distinct: "distinct (pages T) \<Longrightarrow> distinct (map fst (leaves T))"
  using leaves_subseq [of T] by (auto simp: subseq_conv_nths)

lemma split_unique:
  assumes "distinct (map fst (xs @ (p, x) # ys))" "xs @ (p, x) # ys = xs' @ (p, x') # ys'"
  shows "xs' = xs \<and> ys' = ys"
proof -
  have "map fst xs @ p # map fst ys = map fst xs' @ p # map fst ys'"
    using arg_cong [OF assms(2), of "map fst"] by simp
  then have "map fst xs = map fst xs'" using assms(1) by (subst (asm) append_Cons_eq_iff) auto
  then have "length xs = length xs'" by (rule map_eq_imp_length_eq)
  then show ?thesis using assms(2) by simp
qed

section \<open>The database and its free pages\<close>

definition file_ok :: "BTREE \<Rightarrow> nat \<Rightarrow> (u8 list \<Rightarrow> bool) \<Rightarrow> ptree \<Rightarrow> u32 list \<Rightarrow> bool" where
  "file_ok t n okk T fl \<longleftrightarrow> db_ok t n okk T \<and> tree_links t T \<and> tree_ok t fl \<and> free_of fl (pages T) \<and>
     sizes_ok okk t \<and> small_recs_in t (recs T) \<and> bt_flags t AND R_RECNO = 0 \<and>
     (\<exists>pfx. key_sep okk (bt_cmp_fn t) pfx \<and> (bt_pfx_fn t = None \<or> bt_pfx_fn t = Some pfx))"

lemma file_okD:
  assumes "file_ok t n okk T fl"
  shows "db_ok t n okk T" "tree_links t T" "tree_ok t fl" "free_of fl (pages T)" "sizes_ok okk t"
    "small_recs_in t (recs T)" "bt_flags t AND R_RECNO = 0"
  using assms by (simp_all add: file_ok_def)

lemma linked_shape:
  assumes "\<forall>q. map_option (\<lambda>h. (links h, length (body h))) (m' q) = map_option (\<lambda>h. (links h, length (body h))) (m q)"
  shows "linked m' p ps = linked m p ps"
proof (induction ps arbitrary: p)
  case (Cons q ps)
  have "map_option (\<lambda>h. (links h, length (body h))) (m' q) = map_option (\<lambda>h. (links h, length (body h))) (m q)"
    using assms by blast
  then show ?case using Cons by (cases "m q"; cases "m' q") (auto simp: links_def)
qed simp

lemma tree_ok_shape:
  assumes "same_shape t t'" "keeps t t'"
  shows "tree_ok t' fl = tree_ok t fl"
proof -
  have q: "map_option (\<lambda>h. (links h, length (body h))) (bt_mp t' q) = map_option (\<lambda>h. (links h, length (body h))) (bt_mp t q)" for q
    using assms(1) by (simp add: same_shape_def)
  have "(\<forall>h. bt_mp t' p = Some h \<longrightarrow> p < bt_npages t \<and> length (body h) = bt_psize t - BTDATAOFF) \<longleftrightarrow>
     (\<forall>h. bt_mp t p = Some h \<longrightarrow> p < bt_npages t \<and> length (body h) = bt_psize t - BTDATAOFF)" for p
    using q [of p] by (cases "bt_mp t p"; cases "bt_mp t' p") auto
  then show ?thesis
    using assms linked_shape [of "bt_mp t'" "bt_mp t"] q by (simp add: tree_ok_def same_shape_def keeps_def)
qed

lemma links_shape: "same_shape t t' \<Longrightarrow> leaf_links t ps \<Longrightarrow> leaf_links t' ps"
proof (rule links_same)
  assume s: "same_shape t t'"
  show "\<forall>p\<in>set ps. map_option links (bt_mp t' p) = map_option links (bt_mp t p)"
  proof
    fix p
    have "map_option (\<lambda>h. (links h, length (body h))) (bt_mp t' p) = map_option (\<lambda>h. (links h, length (body h))) (bt_mp t p)"
      using s by (simp add: same_shape_def)
    then show "map_option links (bt_mp t' p) = map_option links (bt_mp t p)"
      by (cases "bt_mp t p"; cases "bt_mp t' p") simp_all
  qed
qed

lemma tree_links_shape: "same_shape t t' \<Longrightarrow> tree_links t T \<Longrightarrow> tree_links t' T"
  using links_shape by (auto simp: tree_links_def)

section \<open>The leaf of a path\<close>

lemma leaf_in_plug:
  "leaf_in m lo hi T p rs lo' hi' \<Longrightarrow> ctx_at okk t lo0 hi0 m lo hi fs \<Longrightarrow>
   leaf_in (m + length fs) lo0 hi0 (plug fs T) p rs lo' hi'"
proof (induction fs arbitrary: m lo hi T)
  case (Cons fr fs)
  obtain q ks ts i where fr: "fr = (q, ks, ts, i)" by (cases fr)
  obtain l h where D: "lo = low_bound ks l i" "hi = high_bound ks h i" "hole_ok m okk t l h ks ts i"
    "ctx_at okk t lo0 hi0 (Suc m) l h fs" using Cons.prems(2) unfolding fr by auto
  have "length ts = length ks" "i < length ks" using D(3) by (simp_all add: hole_ok_def)
  then have "leaf_in (Suc m) l h (PNode q ks (ts[i := T])) p rs lo' hi'"
    using Cons.prems(1) D(1,2) unfolding leaf_in.simps
    by (intro exI [of _ q] exI [of _ ks] exI [of _ "ts[i := T]"] exI [of _ i]) simp
  from Cons.IH [OF this D(4)] show ?case unfolding fr by simp
qed simp

lemma path_leaf_in:
  "path_at okk t fs p rs lo hi \<Longrightarrow> leaf_in (length fs) None None (plug fs (PLeaf p rs)) p rs lo hi"
  using leaf_in_plug [of 0 lo hi "PLeaf p rs" p rs lo hi okk t None None fs] by (simp add: path_at_def)

lemma small_recs_append: "small_recs_in t (xs @ ys) \<longleftrightarrow> small_recs_in t xs \<and> small_recs_in t ys"
  by (auto simp: small_recs_in_def)

lemma leaf_place_new:
  assumes ok: "tree_ok t fl" "tree_links t (plug fs (PLeaf p rs))" "free_of fl (pages (plug fs (PLeaf p rs)))"
    "distinct (pages (plug fs (PLeaf p rs)))" "pno (plug fs (PLeaf p rs)) = P_ROOT"
    "fs \<noteq> [] \<longrightarrow> (\<forall>l\<in>set (leaves (plug fs (PLeaf p rs))). snd l \<noteq> [])"
    and P: "path_at okk t fs p rs lo hi" and td: "bt_mp td = (bt_mp t)(p \<mapsto> h0)" "keeps t td" "same_shape t td"
    and at: "leaf_at td p rs0" "keys_in okk t lo hi rs0"
  shows "leaf_place okk td fl fs p rs0 lo hi"
proof -
  have D: "ctx_at okk t None None 0 lo hi fs" "hole_page fs p" using P by (simp_all add: path_at_def)
  have fo: "frames_ok fs" by (rule ctx_frames [OF D(1)])
  have eq: "bt_cmp_fn td = bt_cmp_fn t" "bt_psize td = bt_psize t" using td(2) by (simp_all add: keeps_def)
  have dc: "p \<notin> set (cpages fs)" using ok(4) unfolding plug_distinct [OF fo] by auto
  have "alike t td (set (cpages fs))"
    unfolding alike_def
  proof (intro conjI ballI allI impI)
    fix q h assume "q \<in> set (cpages fs)" "bt_mp t q = Some h"
    then have "bt_mp td q = Some (h\<lparr>prevpg := prevpg h\<rparr>)" using td(1) dc by auto
    then show "\<exists>x. bt_mp td q = Some (h\<lparr>prevpg := x\<rparr>)" ..
  qed (use eq in simp_all)
  then have "ctx_at okk td None None 0 lo hi fs" by (rule ctx_alike [OF D(1)])
  moreover have "keys_in okk td lo hi rs0" using at(2) unfolding keys_in_def between_def eq(1) .
  ultimately have path: "path_at okk td fs p rs0 lo hi" using D(2) at(1) by (simp add: path_at_def)
  have pg: "set (pages (plug fs (PLeaf p rs0))) = set (pages (plug fs (PLeaf p rs)))"
    unfolding plug_pages_set [OF fo] by simp
  have di: "distinct (pages (plug fs (PLeaf p rs0)))" using ok(4) unfolding plug_distinct [OF fo] by simp
  have pn: "pno (plug fs (PLeaf p rs0)) = P_ROOT" using ok(5) unfolding pno_plug by (cases fs) simp_all
  have lv: "level d (PLeaf p rs0) = level d (PLeaf p rs)" for d by (cases d) simp_all
  have "tree_links t (plug fs (PLeaf p rs0))"
    using ok(2) unfolding plug_links [OF fo] lv .
  then have ln: "tree_links td (plug fs (PLeaf p rs0))" by (rule tree_links_shape [OF td(3)])
  have "\<forall>l\<in>set (lleft fs @ lright fs). snd l \<noteq> []"
    using ok(6) plug_leaves [OF fo, of "PLeaf p rs"] by (cases fs) auto
  then show ?thesis
    using path di pn ln ok(1,3) tree_ok_shape [OF td(3,2)] by (simp add: leaf_place_def free_of_def pg)
qed

section \<open>The search\<close>

definition on_path ::
  "(u8 list \<Rightarrow> bool) \<Rightarrow> BTREE \<Rightarrow> nat \<Rightarrow> ptree \<Rightarrow> frame list \<Rightarrow> u32 \<Rightarrow> leaf_rec list \<Rightarrow> u8 list option \<Rightarrow> u8 list option \<Rightarrow> bool" where
  "on_path okk t n T fs p rs lo hi \<longleftrightarrow>
     path_at okk t fs p rs lo hi \<and> plug fs (PLeaf p rs) = T \<and> length fs = n"

lemma path_at_same:
  assumes "same_pages t t'" "path_at okk t fs p rs lo hi"
  shows "path_at okk t' fs p rs lo hi"
proof -
  have eq: "bt_mp t' = bt_mp t" "bt_cmp_fn t' = bt_cmp_fn t" "bt_psize t' = bt_psize t" using assms(1) by (simp_all add: same_pages_def keeps_def)
  have "alike t t' (set (cpages fs))"
    unfolding alike_def
  proof (intro conjI ballI allI impI)
    fix q h assume "bt_mp t q = Some h"
    then have "bt_mp t' q = Some (h\<lparr>prevpg := prevpg h\<rparr>)" using eq(1) by simp
    then show "\<exists>x. bt_mp t' q = Some (h\<lparr>prevpg := x\<rparr>)" ..
  qed (use eq in simp_all)
  moreover have "leaf_at t' p rs = leaf_at t p rs" using eq by (simp add: leaf_at_def)
  moreover have "keys_in okk t' lo hi rs = keys_in okk t lo hi rs" unfolding keys_in_def between_def eq(2) ..
  ultimately show ?thesis using assms(2) ctx_alike unfolding path_at_def by blast
qed

context key_order
begin

lemma search_path:
  assumes "db_ok t n okk T" "bt_cmp_fn t = cmp" "okk key"
  shows "\<exists>p rs i exact lo hi t' fs. bt_search t key = Some (Some (\<lparr>ep_pgno = p, ep_index = i\<rparr>, exact), t') \<and>
    found_place t n T key p rs i exact lo hi \<and> same_pages t t' \<and> bt_order t' = bt_order t \<and> bt_last t' = bt_last t \<and>
    bt_stack t' = map frame_ep fs \<and> on_path okk t n T fs p rs lo hi"
proof -
  note D = db_okD [OF assms(1)]
  let ?t = "BT_CLR t"
  have sp: "same_pages t ?t" "same_pages ?t t" by (simp_all add: same_pages_def keeps_def BT_CLR_def)
  have "tree_at n okk ?t None None T" using tree_at_agrees [OF D(5) same_pages_agrees [OF sp(1)]] .
  moreover have "bt_cmp_fn ?t = cmp" "bt_flags ?t AND B_NODUPS \<noteq> 0" "between ?t None None key" "bt_stack ?t = map frame_ep []"
    "length [] + n \<le> 50"
    using D(2,3) assms(2) by (simp_all add: BT_CLR_def between_def)
  moreover have "ctx_at okk ?t None None n None None []" "hole_page [] (pno T)" by (simp_all add: hole_page_def)
  ultimately obtain p rs i exact fs lo hi where
    S: "bt_descend ?t key (pno T) = Some (Some (\<lparr>ep_pgno = p, ep_index = i\<rparr>, exact),
      ?t\<lparr>bt_stack := map frame_ep fs, bt_cur := \<lparr>ep_pgno = p, ep_index = i\<rparr>\<rparr>)"
    "path_at okk ?t fs p rs lo hi" "plug fs (PLeaf p rs) = T" "length fs = n" "between ?t lo hi key" "place_in rs key i exact"
    using descend_path [of ?t key n None None "[]" T] assms(3) by auto
  have path: "path_at okk t fs p rs lo hi" by (rule path_at_same [OF sp(2) S(2)])
  have "found_place t n T key p rs i exact lo hi"
    using path_leaf_in [OF path] S(3-6) assms(2) by (simp add: found_place_def between_def BT_CLR_def)
  then show ?thesis
    using S(1,3,4) path D(4)
    by (intro exI [of _ p] exI [of _ rs] exI [of _ i] exI [of _ exact] exI [of _ lo] exI [of _ hi]
        exI [of _ "?t\<lparr>bt_stack := map frame_ep fs, bt_cur := \<lparr>ep_pgno = p, ep_index = i\<rparr>\<rparr>"] exI [of _ fs])
      (simp add: on_path_def same_pages_def keeps_def bt_search_def BT_CLR_def)
qed

text \<open>On a full page the place comes from the search, with the stack that leads to it.\<close>

lemma put_place_path:
  assumes db: "db_ok t n okk T" and cmp: "bt_cmp_fn t = cmp" and key: "okk key"
  shows "\<exists>p rs i exact lo hi t'. put_place t key data = Some (Some (\<lparr>ep_pgno = p, ep_index = i\<rparr>, exact), t') \<and>
    found_place t n T key p rs i exact lo hi \<and> same_pages t t' \<and> order_ok t' (leaves T) \<and>
    (\<forall>h. bt_mp t p = Some h \<and> pg_full h (NBLEAFDBT (length key) (length data)) \<longrightarrow> bt_order t' = NOT_ORDERED \<and>
      (\<exists>fs. bt_stack t' = map frame_ep fs \<and> on_path okk t n T fs p rs lo hi))"
proof -
  note D = db_okD [OF db]
  have search: "\<exists>p rs i exact lo hi t'. bt_search t1 key = Some (Some (\<lparr>ep_pgno = p, ep_index = i\<rparr>, exact), t') \<and>
    found_place t n T key p rs i exact lo hi \<and> same_pages t t' \<and> order_ok t' (leaves T) \<and> bt_order t' = NOT_ORDERED \<and>
    (\<exists>fs. bt_stack t' = map frame_ep fs \<and> on_path okk t n T fs p rs lo hi)"
    if t1: "same_pages t t1" "bt_order t1 = NOT_ORDERED" for t1
  proof -
    have eq: "bt_cmp_fn t1 = bt_cmp_fn t" "bt_flags t1 = bt_flags t" using t1(1) by (simp_all add: same_pages_def keeps_def)
    have "order_ok t1 (leaves T)" using t1(2) by (simp add: order_ok_def)
    note db1 = same_pages_db [OF db t1(1) this]
    obtain p rs i exact lo hi t' fs where S:
      "bt_search t1 key = Some (Some (\<lparr>ep_pgno = p, ep_index = i\<rparr>, exact), t')"
      "found_place t1 n T key p rs i exact lo hi" "same_pages t1 t'" "bt_order t' = bt_order t1"
      "bt_stack t' = map frame_ep fs" "on_path okk t1 n T fs p rs lo hi"
      using search_path [OF db1 _ key] eq(1) cmp by auto
    have sp: "same_pages t1 t" using t1(1) by (auto simp: same_pages_def keeps_def)
    have "found_place t n T key p rs i exact lo hi" by (rule found_place_same [OF S(2) sp])
    moreover have "on_path okk t n T fs p rs lo hi" using S(6) path_at_same [OF sp] by (simp add: on_path_def)
    moreover have "same_pages t t'" using t1(1) S(3) db_keeps_trans by (auto simp: same_pages_def)
    ultimately show ?thesis using S(1,4,5) t1(2) by (auto simp: order_ok_def)
  qed
  show ?thesis
  proof (cases "bt_order t = NOT_ORDERED")
    case True
    then show ?thesis using search [of t] by (fastforce simp: put_place_def same_pages_def)
  next
    case ord: False
    let ?p = "ep_pgno (bt_last t)"
    have "\<exists>h. bt_mp t ?p = Some h"
    proof -
      have "\<exists>rs. (?p, rs) \<in> set (leaves T)"
        using ord D(9) leaves_not_Nil [OF D(5)] last_in_set [of "leaves T"] hd_in_set [of "leaves T"]
        by (cases "bt_order t") (auto simp: order_ok_def intro: exI [of _ "snd (last (leaves T))"] exI [of _ "snd (hd (leaves T))"])
      then obtain rs lo' hi' where "leaf_in n None None T ?p rs lo' hi'" using leaf_range [OF D(5)] by blast
      from leaf_in_at [OF this D(5)] show ?thesis by (auto simp: leaf_at_def)
    qed
    then obtain h where h: "bt_mp t ?p = Some h" by blast
    obtain r where r: "fast_place t key ?p h (ep_index (bt_last t)) (NBLEAFDBT (length key) (length data)) = Some r"
      "\<forall>i exact. r = Some (i, exact) \<longrightarrow> (\<exists>rs lo' hi'. found_place t n T key ?p rs i exact lo' hi')"
      using fast_place_ok [OF db cmp key ord h] by blast
    show ?thesis
    proof (cases r)
      case None
      let ?t1 = "t\<lparr>bt_order := NOT_ORDERED, bt_cur := bt_last t\<rparr>"
      have "same_pages t ?t1" by (simp add: same_pages_def keeps_def)
      moreover have "put_place t key data = bt_search ?t1 key"
        using ord h r(1) None by (simp add: put_place_def bt_fast_def Let_def)
      ultimately show ?thesis using search [of ?t1] by fastforce
    next
      case (Some x)
      obtain i exact where x: "x = (i, exact)" by (cases x)
      let ?t1 = "t\<lparr>bt_cur := \<lparr>ep_pgno = ?p, ep_index = i\<rparr>, bt_last := (bt_last t)\<lparr>ep_index := i\<rparr>\<rparr>"
      obtain rs lo' hi' where "found_place t n T key ?p rs i exact lo' hi'" using r(2) Some x by blast
      moreover have "put_place t key data = Some (Some (\<lparr>ep_pgno = ?p, ep_index = i\<rparr>, exact), ?t1)"
        using ord h r(1) Some x by (simp add: put_place_def bt_fast_def Let_def)
      moreover have "same_pages t ?t1" by (simp add: same_pages_def keeps_def)
      moreover have "order_ok ?t1 (leaves T)" using D(9) by (simp add: order_ok_def)
      moreover have "\<not> pg_full h (NBLEAFDBT (length key) (length data))"
        using r(1) Some by (auto simp: fast_place_def)
      ultimately show ?thesis using h by (intro exI [of _ ?p] exI [of _ rs] exI [of _ i] exI [of _ exact] exI [of _ lo'] exI [of _ hi'] exI [of _ ?t1]) simp
    qed
  qed
qed

end

section \<open>A record on a full leaf\<close>

lemma file_ok_modified:
  assumes "file_ok t n okk T fl"
  shows "file_ok (t\<lparr>bt_flags := bt_flags t OR B_MODIFIED\<rparr>) n okk T fl"
proof -
  let ?t = "t\<lparr>bt_flags := bt_flags t OR B_MODIFIED\<rparr>"
  have "same_shape t ?t" "keeps t ?t" by (simp_all add: same_shape_def keeps_def modified_flag)
  moreover have "bt_flags ?t AND R_RECNO = 0"
    using file_okD(7) [OF assms] keeps_flag [OF \<open>keeps t ?t\<close>, of R_RECNO] by simp
  ultimately show ?thesis
    using assms db_ok_modified tree_links_shape tree_ok_shape unfolding file_ok_def
    by (auto simp: sizes_ok_def small_recs_in_def)
qed

lemma settled_file:
  assumes S: "settled n okk t fl T ls" and n: "n \<le> 50" and ord: "bt_order t = NOT_ORDERED"
    and ne: "\<forall>l\<in>set ls. snd l \<noteq> []" and flags: "bt_flags t AND B_NODUPS \<noteq> 0" "bt_flags t AND R_RECNO = 0"
    and sz: "sizes_ok okk t" "small_recs_in t (concat (map snd ls))"
    and pf: "key_sep okk (bt_cmp_fn t) pfx" "bt_pfx_fn t = None \<or> bt_pfx_fn t = Some pfx"
  shows "file_ok t n okk T fl"
proof -
  have D: "tree_at n okk t None None T" "pno T = P_ROOT" "distinct (pages T)" "free_of fl (pages T)" "tree_ok t fl"
    "tree_links t T" "leaves T = ls" using S by (simp_all add: settled_def)
  have "leaf_links t (map fst (leaves T))" using D(6) level_leaves [OF D(1)] by (metis tree_links_def)
  moreover have "key_order okk (bt_cmp_fn t)" using pf(1) by (simp add: key_sep_def)
  moreover have "P_INVALID \<notin> set (pages T)" using D(4) by (simp add: free_of_def)
  ultimately have "db_ok t n okk T" using D n ord ne flags(1) by (simp add: db_ok_def order_ok_def)
  then show ?thesis using D flags(2) sz pf by (auto simp: file_ok_def recs_def)
qed

context key_order
begin

lemma leaf_context:
  assumes db: "db_ok t n okk T" and cmp: "bt_cmp_fn t = cmp" and key: "okk key"
    and F: "found_place t n T key p rs i exact lo hi" and O: "on_path okk t n T fs p rs lo hi"
  shows "leaves T = lleft fs @ (p, rs) # lright fs" "apart_at (lleft fs) key (lright fs)"
    "\<forall>r\<in>set (concat (map snd (lleft fs))). 0 < cmp key (fst r)"
    "\<forall>r\<in>set (concat (map snd (lright fs))). cmp key (fst r) < 0"
proof -
  note D = db_okD [OF db]
  have P: "path_at okk t fs p rs lo hi" "plug fs (PLeaf p rs) = T" using O by (simp_all add: on_path_def)
  have fo: "frames_ok fs" using P(1) ctx_frames by (auto simp: path_at_def)
  show L: "leaves T = lleft fs @ (p, rs) # lright fs" using plug_leaves [OF fo, of "PLeaf p rs"] P(2) by simp
  have I: "leaf_in n None None T p rs lo hi" "between t lo hi key" using F by (simp_all add: found_place_def)
  obtain pre post where Q: "leaves T = pre @ (p, rs) # post"
    "\<forall>key. okk key \<and> between t lo hi key \<longrightarrow> apart_at pre key post \<and> between t None None key"
    using leaf_in_order [OF I(1) D(6) cmp D(5)] by auto
  have "lleft fs = pre \<and> lright fs = post"
    using split_unique [OF leaves_distinct [OF D(6), unfolded Q(1)]] Q(1) L by metis
  then show A: "apart_at (lleft fs) key (lright fs)" using Q(2) key I(2) by blast
  have ok: "okk (fst r)" if "r \<in> set (concat (map snd (lleft fs)))" for r
    using tree_recs_range [OF cmp D(5), of r] that L by (auto simp: recs_def)
  show "\<forall>r\<in>set (concat (map snd (lleft fs))). 0 < cmp key (fst r)"
  proof
    fix r assume r: "r \<in> set (concat (map snd (lleft fs)))"
    then have "cmp (fst r) key < 0" using A unfolding apart_at_def by fastforce
    then show "0 < cmp key (fst r)" using cmp_sym [OF ok [OF r] key] by blast
  qed
  show "\<forall>r\<in>set (concat (map snd (lright fs))). cmp key (fst r) < 0" using A by (auto simp: apart_at_def)
qed

lemma keys_in_put:
  assumes "bt_cmp_fn t = cmp" "keys_in okk t lo hi rs" "okk key" "between t lo hi key" "place_in rs key i exact"
  shows "keys_in okk t lo hi (take i rs @ (key, data, 0) # drop (if exact then Suc i else i) rs)"
proof -
  have s: "sorted_recs rs" using assms(1,2) by (simp add: keys_in_def)
  have new: "take i rs @ (key, data, 0) # drop (if exact then Suc i else i) rs = put_list cmp key data rs"
    using put_list_place [OF s assms(3,5)] by simp
  have "\<forall>r\<in>set (take i rs @ (key, data, 0) # drop (if exact then Suc i else i) rs). fst r = key \<or> r \<in> set rs"
    by (auto dest: in_set_takeD in_set_dropD)
  then show ?thesis
    using sorted_put [OF s assms(3), of data] assms unfolding new by (auto simp: keys_in_def)
qed

lemma put_list_leaf:
  assumes "sorted_recs rs" "okk key" "place_in rs key i exact"
    and "\<forall>r\<in>set a. 0 < cmp key (fst r)" "\<forall>r\<in>set b. cmp key (fst r) < 0"
  shows "put_list cmp key data (a @ rs @ b) =
    a @ (take i rs @ (key, data, 0) # drop (if exact then Suc i else i) rs) @ b"
  unfolding put_list_place [OF assms(1-3), symmetric]
    put_list_skip [of a cmp key, OF assms(4)] put_list_end [of b cmp key, OF assms(5)] ..

end

context key_sep
begin

lemma split_leaf:
  assumes cmp: "bt_cmp_fn t = cmp" and pf: "bt_pfx_fn t = None \<or> bt_pfx_fn t = Some pfx"
    and P: "leaf_place okk t fl fs p rs lo hi" and h: "bt_mp t p = Some h"
    and F: "full_page t fl p h (map leaf_item rs) (NBLEAFDBT (length key) (length data))"
    and i: "i \<le> length rs" and K: "keys_in okk t lo hi (take i rs @ (key, data, 0) # drop i rs)"
    and sz: "sizes_ok okk t" and mem: "memory t (Suc (Suc (length fs)))" and rec: "bt_flags t AND R_RECNO = 0"
    and stack: "bt_stack t = map frame_ep fs"
  shows "\<exists>t' T' n' fl' l r A B. bt_split t p key data 0 (NBLEAFDBT (length key) (length data)) i = Some (RET_SUCCESS, t') \<and>
    settled n' okk t' fl' T' (lleft fs @ [(l, A), (r, B)] @ lright fs) \<and> A @ B = take i rs @ (key, data, 0) # drop i rs \<and>
    A \<noteq> [] \<and> B \<noteq> [] \<and> rest_same t t' \<and> (n' = length fs \<or> n' = Suc (length fs))"
proof (cases "fs = []")
  case True
  then show ?thesis
    using split_root_leaf [OF cmp, of fl p rs lo hi h key data i 0] P h F i K sz mem rec stack by fastforce
next
  case False
  then show ?thesis
    using split_inner_leaf [OF cmp pf P False h F i K sz mem rec stack] by blast
qed

lemma put_full:
  assumes ok: "file_ok t n okk T fl" and cmp: "bt_cmp_fn t = cmp" and pf: "bt_pfx_fn t = None \<or> bt_pfx_fn t = Some pfx"
    and key: "okk key" and n: "n < 50" and F: "found_place t n T key p rs i exact lo hi" and O: "on_path okk t n T fs p rs lo hi"
    and stack: "bt_stack td = map frame_ep fs" and ord: "bt_order td = NOT_ORDERED"
    and mem: "memory t (Suc (Suc n))" and small: "4 * NBLEAFDBT (length key) (length data) \<le> bt_psize t - BTDATAOFF"
    and td: "bt_mp td = (bt_mp t)(p \<mapsto> h0)" "keeps t td" "same_shape t td" "bt_flags td = bt_flags t"
      "leaf_at td p rs0" "keys_in okk t lo hi rs0" "set rs0 \<subseteq> set rs"
    and place: "i \<le> length rs0" "pg_full h0 (NBLEAFDBT (length key) (length data))"
      "take i rs0 @ (key, data, 0) # drop i rs0 = take i rs @ (key, data, 0) # drop (if exact then Suc i else i) rs"
  shows "\<exists>t' T' n' fl'. put_at td key data 0 p i = Some (RET_SUCCESS, t') \<and> file_ok t' n' okk T' fl' \<and> keeps t t' \<and>
    (n' = n \<or> n' = Suc n) \<and> recs T' = put_list cmp key data (recs T)"
proof -
  let ?nb = "NBLEAFDBT (length key) (length data)" and ?new = "take i rs0 @ (key, data, 0) # drop i rs0"
  note D = file_okD [OF ok] and B = db_okD [OF file_okD(1) [OF ok]]
  note L = leaf_context [OF D(1) cmp key F O]
  have P: "path_at okk t fs p rs lo hi" "plug fs (PLeaf p rs) = T" "length fs = n" using O by (simp_all add: on_path_def)
  have I: "between t lo hi key" "place_in rs key i exact" using F cmp by (simp_all add: found_place_def)
  have rs: "keys_in okk t lo hi rs" "sorted_recs rs" using P(1) cmp by (simp_all add: path_at_def keys_in_def)
  have K: "keys_in okk t lo hi ?new" unfolding place(3) by (rule keys_in_put [OF cmp rs(1) key I])
  have eq: "bt_cmp_fn td = bt_cmp_fn t" "bt_psize td = bt_psize t" "bt_pfx_fn td = bt_pfx_fn t" "bt_malloc td = bt_malloc t"
    "bt_spare td = bt_spare t" "bt_npages td = bt_npages t"
    using td(2,3) by (simp_all add: keeps_def same_shape_def)
  have Kd: "keys_in okk td lo hi ?new" using K unfolding keys_in_def between_def eq(1) .
  have ne: "fs \<noteq> [] \<longrightarrow> (\<forall>l\<in>set (leaves (plug fs (PLeaf p rs))). snd l \<noteq> [])" using B(10) P(2,3) by auto
  have LP: "leaf_place okk td fl fs p rs0 lo hi"
    using leaf_place_new [OF D(3) _ _ _ _ ne P(1) td(1-3,5,6)] D(2,4) B(4,6) P(2) by simp
  have hd: "bt_mp td p = Some h0" using td(1) by simp
  have pf': "p \<notin> set fl" using D(4) leaf_pages [of p rs T] L(1) by (auto simp: free_of_def)
  have sz: "sizes_ok okk td" using D(5) eq by (simp add: sizes_ok_def)
  have rsT: "set rs \<subseteq> set (recs T)" "set (concat (map snd (lleft fs @ lright fs))) \<subseteq> set (recs T)"
    unfolding recs_def L(1) by auto
  have sm: "small_recs_in td rs0" using D(6) td(7) rsT(1) eq(2) by (auto simp: small_recs_in_def)
  have fp: "full_page td fl p h0 (map leaf_item rs0) ?nb"
    using full_leaf [OF td(5) hd pf' sz sm _ place(2)] small eq(2) by simp
  have fx: "bt_cmp_fn td = cmp" "bt_pfx_fn td = None \<or> bt_pfx_fn td = Some pfx" "memory td (Suc (Suc (length fs)))"
    "bt_flags td AND R_RECNO = 0"
    using eq cmp pf mem P(3) D(7) td(4) by (simp_all add: memory_def)
  obtain t1 T' n' fl' l r A C where S: "bt_split td p key data 0 ?nb i = Some (RET_SUCCESS, t1)"
    "settled n' okk t1 fl' T' (lleft fs @ [(l, A), (r, C)] @ lright fs)" "A @ C = ?new" "A \<noteq> []" "C \<noteq> []"
    "rest_same td t1" "n' = length fs \<or> n' = Suc (length fs)"
    using split_leaf [OF fx(1,2) LP hd fp place(1) Kd sz fx(3,4) stack] by blast
  have s1: "bt_order t1 = NOT_ORDERED" "bt_flags t1 = bt_flags t" "bt_cmp_fn t1 = bt_cmp_fn t" "bt_pfx_fn t1 = bt_pfx_fn t"
    "bt_psize t1 = bt_psize t" "keeps td t1"
    using S(6) ord td(4) eq by (simp_all add: rest_same_def keeps_def)
  have re: "recs T' = concat (map snd (lleft fs)) @ ?new @ concat (map snd (lright fs))"
    using S(2,3) by (simp add: settled_def recs_def)
  have "\<forall>r\<in>set (recs T'). r = (key, data, 0) \<or> r \<in> set (recs T)"
    using rsT td(7) unfolding re by (auto dest: in_set_takeD in_set_dropD)
  then have sm1: "small_recs_in t1 (recs T')" using D(6) small s1(5) by (auto simp: small_recs_in_def)
  have ne1: "\<forall>l\<in>set (lleft fs @ [(l, A), (r, C)] @ lright fs). snd l \<noteq> []"
  proof -
    have "\<forall>l\<in>set (lleft fs @ lright fs). snd l \<noteq> []" using LP by (simp add: leaf_place_def)
    then show ?thesis using S(4,5) by auto
  qed
  have "file_ok t1 n' okk T' fl'"
  proof (rule settled_file [OF S(2) _ s1(1) ne1])
    show "n' \<le> 50" using S(7) P(3) n by auto
    show "small_recs_in t1 (concat (map snd (lleft fs @ [(l, A), (r, C)] @ lright fs)))"
      using sm1 S(2) by (simp add: recs_def settled_def)
    show "key_sep okk (bt_cmp_fn t1) pfx" using key_sep_axioms s1(3) cmp by simp
    show "sizes_ok okk t1" using sizes_rest [OF S(6)] sz by simp
  qed (use s1 B(2) D(7) pf in simp_all)
  from file_ok_modified [OF this] have f: "file_ok (t1\<lparr>bt_flags := bt_flags t1 OR B_MODIFIED\<rparr>) n' okk T' fl'" .
  have "keeps t (t1\<lparr>bt_flags := bt_flags t1 OR B_MODIFIED\<rparr>)"
    using db_keeps_trans [OF td(2) s1(6)] by (simp add: keeps_def modified_flag)
  moreover have "put_at td key data 0 p i = Some (RET_SUCCESS, t1\<lparr>bt_flags := bt_flags t1 OR B_MODIFIED\<rparr>)"
    using hd place(2) S(1) by (simp add: put_at_def)
  moreover have "recs T' = put_list cmp key data (recs T)"
    using put_list_leaf [OF rs(2) key I(2) L(3,4), of data] re place(3) L(1) by (simp add: recs_def)
  ultimately show ?thesis using f S(7) P(3) by blast
qed

end

section \<open>A record on its leaf\<close>

lemma level_upd [simp]: "level d (upd_leaf q rs T) = level d T"
proof (induction d T rule: level.induct)
  case (3 d p ks ts)
  then show ?case by (auto intro!: arg_cong [where f = concat])
qed auto

lemma set_put_list: "set (put_list cmp key d rs) \<subseteq> insert (key, d, 0) (set rs)"
  by (induction rs) auto

lemma file_ok_same:
  assumes ok: "file_ok t n okk T fl" and db: "db_ok t' n okk T'" and k: "keeps t t'" and s: "same_shape t t'" and T: "same_nodes T T'"
    and r: "small_recs_in t (recs T')"
  shows "file_ok t' n okk T' fl"
proof -
  note D = file_okD [OF ok]
  have lv: "level d T' = level d T" for d using T by (auto simp: same_nodes_def)
  have pg: "pages T' = pages T" using T by (auto simp: same_nodes_def)
  have eq: "bt_cmp_fn t' = bt_cmp_fn t" "bt_psize t' = bt_psize t" "bt_pfx_fn t' = bt_pfx_fn t" "bt_malloc t' = bt_malloc t"
    using k by (simp_all add: keeps_def)
  have "tree_links t' T'" using tree_links_shape [OF s D(2)] by (simp add: tree_links_def lv)
  moreover have "bt_flags t' AND R_RECNO = 0" using D(7) keeps_flag [OF k, of R_RECNO] by simp
  moreover have "sizes_ok okk t'" "small_recs_in t' (recs T')" using D(5) r eq by (simp_all add: sizes_ok_def small_recs_in_def)
  moreover have "\<exists>pfx. key_sep okk (bt_cmp_fn t') pfx \<and> (bt_pfx_fn t' = None \<or> bt_pfx_fn t' = Some pfx)"
    using ok eq by (simp add: file_ok_def)
  ultimately show ?thesis using db D(3,4) tree_ok_shape [OF s k] pg by (simp add: file_ok_def)
qed

lemma small_put:
  assumes "small_recs_in t rs" "4 * NBLEAFDBT (length key) (length data) \<le> bt_psize t - BTDATAOFF"
  shows "small_recs_in t (put_list cmp key data rs)"
  using assms set_put_list [of cmp key data rs] by (auto simp: small_recs_in_def)

definition split_ready ::
  "BTREE \<Rightarrow> nat \<Rightarrow> (u8 list \<Rightarrow> bool) \<Rightarrow> ptree \<Rightarrow> u32 \<Rightarrow> leaf_rec list \<Rightarrow> u8 list option \<Rightarrow> u8 list option \<Rightarrow> bool" where
  "split_ready t n okk T p rs lo hi \<longleftrightarrow> bt_order t = NOT_ORDERED \<and>
     (\<exists>fs. bt_stack t = map frame_ep fs \<and> on_path okk t n T fs p rs lo hi)"

context key_order
begin

text \<open>The page before the record is put on it: the record it replaces has been deleted.\<close>

lemma put_cleared:
  assumes db: "db_ok t n okk T" and cmp: "bt_cmp_fn t = cmp" and g: "\<forall>n. bt_grow t n"
    and F: "found_place t n T key p rs i exact lo hi" and h: "bt_mp t p = Some h"
  shows "\<exists>h0 td rs0. (if exact then replace_at t key data 0 p i else put_at t key data 0 p i) = put_at td key data 0 p i \<and>
    bt_mp td = (bt_mp t)(p \<mapsto> h0) \<and> keeps t td \<and> links h0 = links h \<and> bt_order td = bt_order t \<and> bt_last td = bt_last t \<and>
    bt_flags td = bt_flags t \<and> bt_stack td = bt_stack t \<and> leaf_at td p rs0 \<and> same_shape t td \<and> keys_in okk t lo hi rs0 \<and>
    set rs0 \<subseteq> set rs \<and> i \<le> length rs0 \<and> (pg_full h0 m \<longrightarrow> pg_full h m) \<and>
    take i rs0 @ (key, data, 0) # drop i rs0 = take i rs @ (key, data, 0) # drop (if exact then Suc i else i) rs"
proof -
  note D = db_okD [OF db]
  have L: "leaf_in n None None T p rs lo hi" "place_in rs key i exact" using F cmp by (simp_all add: found_place_def)
  have at: "leaf_at t p rs" "keys_in okk t lo hi rs" using leaf_in_at [OF L(1) D(5)] by blast+
  show ?thesis
  proof (cases exact)
    case False
    then have "i \<le> length rs" using L(2) by (simp add: place_in_def)
    moreover have "bt_mp t = (bt_mp t)(p \<mapsto> h)" using h by (simp add: fun_upd_idem)
    ultimately show ?thesis using at False by (intro exI [of _ h] exI [of _ t] exI [of _ rs]) simp
  next
    case True
    then have i: "i < length rs" using L(2) by (simp add: place_in_def)
    obtain h0 td where d: "bt_dleaf t (Some key) p i = Some (RET_SUCCESS, td)" "one_page p h t h0 td"
      "bt_order td = bt_order t" "bt_last td = bt_last t" "bt_flags td = bt_flags t" "bt_stack td = bt_stack t"
      "leaf_at td p (take i rs @ drop (Suc i) rs)" "\<forall>n. \<not> pg_full h n \<longrightarrow> \<not> pg_full h0 n"
      using dleaf_leaf [OF at(1) i h D(2) g] by blast
    have o: "bt_mp td = (bt_mp t)(p \<mapsto> h0)" "keeps t td" "links h0 = links h" using d(2) by (simp_all add: one_page_def)
    have sh: "same_shape t td" by (rule one_page_shape [OF d(2) h])
    have ki: "keys_in okk t lo hi (take i rs @ drop (Suc i) rs)"
    proof -
      have "sorted_wrt (below t) (take i (map fst rs) @ drop (Suc i) (map fst rs))"
        using at(2) by (intro sorted_wrt_del) (simp add: keys_in_def)
      then show ?thesis using at(2) by (auto simp: keys_in_def take_map drop_map dest: in_set_takeD in_set_dropD)
    qed
    have "replace_at t key data 0 p i = put_at td key data 0 p i" using d(1) by (simp add: replace_at_def)
    moreover have "set (take i rs @ drop (Suc i) rs) \<subseteq> set rs" by (auto dest: in_set_takeD in_set_dropD)
    moreover have "pg_full h0 m \<longrightarrow> pg_full h m" using d(8) by blast
    ultimately show ?thesis
      using d(3-7) o sh ki i True by (intro exI [of _ h0] exI [of _ td] exI [of _ "take i rs @ drop (Suc i) rs"]) simp
  qed
qed

end

context key_sep
begin

lemma put_grow_step:
  assumes ok: "file_ok t n okk T fl" and cmp: "bt_cmp_fn t = cmp" and pf: "bt_pfx_fn t = None \<or> bt_pfx_fn t = Some pfx"
    and key: "okk key" and n: "n < 50" and g: "\<forall>n. bt_grow t n" and F: "found_place t n T key p rs i exact lo hi"
    and h: "bt_mp t p = Some h" and mem: "memory t (Suc (Suc n))"
    and small: "4 * NBLEAFDBT (length key) (length data) \<le> bt_psize t - BTDATAOFF"
    and R: "pg_full h (NBLEAFDBT (length key) (length data)) \<longrightarrow> split_ready t n okk T p rs lo hi"
  shows "\<exists>t' T' n' fl'. (if exact then replace_at t key data 0 p i else put_at t key data 0 p i) = Some (RET_SUCCESS, t') \<and>
    file_ok t' n' okk T' fl' \<and> keeps t t' \<and> (n' = n \<or> n' = Suc n) \<and> recs T' = put_list cmp key data (recs T)"
proof -
  note D = file_okD [OF ok]
  obtain h0 td rs0 where C: "(if exact then replace_at t key data 0 p i else put_at t key data 0 p i) = put_at td key data 0 p i"
    "bt_mp td = (bt_mp t)(p \<mapsto> h0)" "keeps t td" "links h0 = links h" "bt_order td = bt_order t" "bt_last td = bt_last t"
    "bt_flags td = bt_flags t" "bt_stack td = bt_stack t" "leaf_at td p rs0" "same_shape t td" "keys_in okk t lo hi rs0"
    "set rs0 \<subseteq> set rs" "i \<le> length rs0"
    "pg_full h0 (NBLEAFDBT (length key) (length data)) \<longrightarrow> pg_full h (NBLEAFDBT (length key) (length data))"
    "take i rs0 @ (key, data, 0) # drop i rs0 = take i rs @ (key, data, 0) # drop (if exact then Suc i else i) rs"
    using put_cleared [OF D(1) cmp g F h] by metis
  show ?thesis
  proof (cases "pg_full h0 (NBLEAFDBT (length key) (length data))")
    case True
    then obtain fs where fs: "bt_order t = NOT_ORDERED" "bt_stack t = map frame_ep fs" "on_path okk t n T fs p rs lo hi"
      using C(14) R by (auto simp: split_ready_def)
    show ?thesis
      unfolding C(1) using put_full [OF ok cmp pf key n F fs(3) _ _ mem small C(2,3,10,7,9,11,12,13) True C(15)] fs(1,2) C(5,8)
      by simp
  next
    case False
    obtain t' T' where P: "put_at td key data 0 p i = Some (RET_SUCCESS, t')" "db_ok t' n okk T'" "keeps t t'" "same_shape t t'"
      "same_nodes T T'" "recs T' = put_list cmp key data (recs T)"
      using put_at_db [OF D(1) cmp key F h C(2-7,9,10,13) False C(15)] by blast
    have "file_ok t' n okk T' fl"
      using file_ok_same [OF ok P(2-5)] small_put [OF D(6) small] P(6) by simp
    then show ?thesis unfolding C(1) using P(1,3,6) by blast
  qed
qed

end

section \<open>The whole operation\<close>

lemma file_ok_pages:
  assumes "file_ok t n okk T fl" "same_pages t t'" "order_ok t' (leaves T)"
  shows "file_ok t' n okk T fl"
proof (rule file_ok_same [OF assms(1)])
  note D = file_okD [OF assms(1)]
  show "db_ok t' n okk T" by (rule key_order.same_pages_db [OF db_okD(1) [OF D(1)] D(1) assms(2,3)])
  show "small_recs_in t (recs T)" by (rule D(6))
qed (use assms(2) in \<open>simp_all add: same_pages_def same_shape_def\<close>)

lemma put_file:
  assumes ok: "file_ok t n okk T fl" and key: "okk key" and size: "length key + length data \<le> bt_ovflsize t"
    and small: "4 * NBLEAFDBT (length key) (length data) \<le> bt_psize t - BTDATAOFF"
    and flags: "bt_flags t AND B_RDONLY = 0" "f = 0 \<or> f = R_NOOVERWRITE" and g: "\<forall>n. bt_grow t n"
    and n: "n < 50" and mem: "memory t (Suc (Suc n))"
  shows "\<exists>t' T' n' fl'. bt_put t key data f = Some (if put_status t T key f then RET_SPECIAL else RET_SUCCESS, t') \<and>
    file_ok t' n' okk T' fl' \<and> keeps t t' \<and> (n' = n \<or> n' = Suc n) \<and>
    recs T' = (if put_status t T key f then recs T else put_list (bt_cmp_fn t) key data (recs T))"
proof -
  note D = file_okD [OF ok] and K = db_okD(1) [OF file_okD(1) [OF ok]]
  let ?nb = "NBLEAFDBT (length key) (length data)"
  obtain p rs i exact lo hi t1 where P:
    "put_place t key data = Some (Some (\<lparr>ep_pgno = p, ep_index = i\<rparr>, exact), t1)"
    "found_place t n T key p rs i exact lo hi" "same_pages t t1" "order_ok t1 (leaves T)"
    "\<forall>h. bt_mp t p = Some h \<and> pg_full h ?nb \<longrightarrow> bt_order t1 = NOT_ORDERED \<and>
      (\<exists>fs. bt_stack t1 = map frame_ep fs \<and> on_path okk t n T fs p rs lo hi)"
    using key_order.put_place_path [OF K D(1) refl key, of data] by blast
  note ok1 = file_ok_pages [OF ok P(3,4)] and F1 = found_place_same [OF P(2,3)]
  have eq: "bt_cmp_fn t1 = bt_cmp_fn t" "bt_mp t1 = bt_mp t" "bt_grow t1 = bt_grow t" "bt_flags t1 = bt_flags t"
    "bt_pfx_fn t1 = bt_pfx_fn t" "bt_spare t1 = bt_spare t" "bt_npages t1 = bt_npages t" "bt_psize t1 = bt_psize t"
    using P(3) by (simp_all add: same_pages_def keeps_def)
  have kp: "keeps t t1" using P(3) by (simp add: same_pages_def)
  have L: "leaf_in n None None T p rs lo hi" using P(2) by (simp add: found_place_def)
  obtain h where h: "bt_mp t1 p = Some h" using leaf_in_at [OF L db_okD(5) [OF D(1)]] eq(2) by (auto simp: leaf_at_def)
  have R: "pg_full h ?nb \<longrightarrow> split_ready t1 n okk T p rs lo hi"
  proof
    assume "pg_full h ?nb"
    then obtain fs where "bt_order t1 = NOT_ORDERED" "bt_stack t1 = map frame_ep fs" "on_path okk t n T fs p rs lo hi"
      using P(5) h eq(2) by auto
    then show "split_ready t1 n okk T p rs lo hi"
      using path_at_same [OF P(3)] by (auto simp: split_ready_def on_path_def)
  qed
  have look: "lookup_list (bt_cmp_fn t) key (recs T) = (if exact then Some (fst (snd (rs ! i))) else None)"
    by (rule key_order.lookup_found [OF K D(1) refl key P(2)])
  have big: "put_big t key data 0 False = Some (Some (key, data, 0), t)"
    using size by (subst put_big.simps) simp
  have put: "bt_put t key data f = (if put_status t T key f then Some (RET_SPECIAL, t1)
      else if exact then replace_at t1 key data 0 p i else put_at t1 key data 0 p i)"
    using big P(1) flags look eq(4) db_okD(2) [OF D(1)] by (auto simp: bt_put_def put_flags_ok_def put_status_def)
  show ?thesis
  proof (cases "put_status t T key f")
    case True
    then show ?thesis using put ok1 kp by (intro exI [of _ t1] exI [of _ T] exI [of _ n] exI [of _ fl]) simp
  next
    case False
    obtain pfx where x: "key_sep okk (bt_cmp_fn t) pfx" "bt_pfx_fn t = None \<or> bt_pfx_fn t = Some pfx"
      using ok by (auto simp: file_ok_def)
    have y: "bt_pfx_fn t1 = None \<or> bt_pfx_fn t1 = Some pfx" "\<forall>n. bt_grow t1 n" "memory t1 (Suc (Suc n))"
      "4 * ?nb \<le> bt_psize t1 - BTDATAOFF"
      using x(2) g mem small eq by (simp_all add: memory_def)
    obtain t' T' n' fl' where "(if exact then replace_at t1 key data 0 p i else put_at t1 key data 0 p i) = Some (RET_SUCCESS, t')"
      "file_ok t' n' okk T' fl'" "keeps t1 t'" "n' = n \<or> n' = Suc n" "recs T' = put_list (bt_cmp_fn t) key data (recs T)"
      using key_sep.put_grow_step [OF x(1) ok1 eq(1) y(1) key n y(2) F1 h y(3,4) R] by blast
    then show ?thesis
      using put False db_keeps_trans [OF kp] by (intro exI [of _ t'] exI [of _ T'] exI [of _ n'] exI [of _ fl']) simp
  qed
qed

end
