(* ===== verification/Bt_Map.thy ===== *)
theory Bt_Map
  imports Bt_Scan Bt_Growth
begin

text \<open>
  What the operations of the database promise together: a database whose pages represent a tree is a
  map from keys to data, with the keys in order.
\<close>

section \<open>The map of a database\<close>

definition db_map :: "BTREE \<Rightarrow> ptree \<Rightarrow> u8 list \<Rightarrow> u8 list option" where
  "db_map t T key = lookup_list (bt_cmp_fn t) key (recs T)"

text \<open>The answer of \<^const>\<open>bt_get\<close>, for every key.\<close>

definition answers :: "BTREE \<Rightarrow> (u8 list \<Rightarrow> bool) \<Rightarrow> (u8 list \<Rightarrow> u8 list option) \<Rightarrow> bool" where
  "answers t okk f \<longleftrightarrow> (\<forall>k. okk k \<longrightarrow> (\<exists>t'. bt_get t k 0 =
     Some (case f k of None \<Rightarrow> (RET_SPECIAL, None, t') | Some d \<Rightarrow> (RET_SUCCESS, Some d, t'))))"

lemma db_answers:
  assumes "db_ok t n okk T" "\<forall>n. bt_grow t n" "\<forall>k. okk k \<longrightarrow> f k = db_map t T k"
  shows "answers t okk f"
  unfolding answers_def
proof (intro allI impI)
  fix k assume k: "okk k"
  obtain t' where "bt_get t k 0 = Some (case db_map t T k of
      None \<Rightarrow> (RET_SPECIAL, None, t') | Some d \<Rightarrow> (RET_SUCCESS, Some d, t'))"
    using get_db [OF assms(1) k assms(2)] unfolding db_map_def by blast
  then show "\<exists>t'. bt_get t k 0 =
     Some (case f k of None \<Rightarrow> (RET_SPECIAL, None, t') | Some d \<Rightarrow> (RET_SUCCESS, Some d, t'))"
    using assms(3) k by auto
qed

text \<open>The records are in order.\<close>

lemma recs_sorted:
  assumes db: "db_ok t n okk T"
  shows "sorted_wrt (below t) (map fst (recs T)) \<and> (\<forall>r\<in>set (recs T). okk (fst r))"
proof -
  note D = db_okD [OF db]
  have "leaves T = pre @ ls \<Longrightarrow> sorted_wrt (below t) (map fst (concat (map snd ls))) \<and> (\<forall>r\<in>set (concat (map snd ls)). okk (fst r))"
    for pre ls
  proof (induction ls arbitrary: pre)
    case (Cons l ls)
    obtain p rs where l: "l = (p, rs)" by (cases l)
    obtain lo hi where L: "leaf_in n None None T p rs lo hi" using leaf_range [OF D(5), of p rs] Cons.prems l by auto
    then have K: "keys_in okk t lo hi rs" using leaf_in_at [OF L D(5)] by blast
    obtain pre' post where P: "leaves T = pre' @ (p, rs) # post"
      "\<forall>key. okk key \<and> between t lo hi key \<longrightarrow> key_order.apart_at (bt_cmp_fn t) pre' key post \<and> between t None None key"
      using key_order.leaf_in_order [OF D(1) L D(6) refl D(5)] by auto
    have "distinct (map fst (pre @ (p, rs) # ls))" using leaves_distinct [OF D(6)] Cons.prems l by simp
    moreover have "pre @ (p, rs) # ls = pre' @ (p, rs) # post" using P(1) Cons.prems l by simp
    ultimately have "post = ls" using split_unique [of pre p rs ls pre' rs post] by blast
    then have "\<forall>r\<in>set rs. \<forall>l\<in>set ls. \<forall>r'\<in>set (snd l). bt_cmp_fn t (fst r) (fst r') < 0"
      using P(2) K by (auto simp: keys_in_def key_order.apart_at_def [OF D(1)])
    then show ?case using Cons.IH [of "pre @ [l]"] Cons.prems K l by (auto simp: sorted_wrt_append keys_in_def)
  qed simp
  from this [of "[]"] show ?thesis by (simp add: recs_def)
qed

lemma keeps_grow: "keeps t t' \<Longrightarrow> \<forall>n. bt_grow t n \<Longrightarrow> \<forall>n. bt_grow t' n"
  by (simp add: keeps_def)

lemma keeps_cmp: "keeps t t' \<Longrightarrow> bt_cmp_fn t' = bt_cmp_fn t"
  by (simp add: keeps_def)

section \<open>Properties of the operations\<close>

text \<open>
  C3. On a database whose pages represent a tree, with the free pages apart, \<^verbatim>\<open>__bt_put\<close> of a small record
  returns and the pages represent a tree again, also when the leaf is full and is split, when the pages
  above it are split in turn up to the root, and when the tree gets one more level. With
  \<^verbatim>\<open>R_NOOVERWRITE\<close> and a key that is there, the answer is \<^verbatim>\<open>RET_SPECIAL\<close> and no record changes. Otherwise
  the answer is \<^verbatim>\<open>RET_SUCCESS\<close>, the sorted list of records is changed by one insertion or replacement, and
  \<^verbatim>\<open>__bt_get\<close> finds the new data under the key and under every other key what it found before. The
  records are at most a quarter of a page, so that none is on overflow pages; the keys have no
  duplicates; the tree has fewer than 50 levels, and there is memory for the new pages.
\<close>

theorem bt_put_correct:
  assumes "file_ok t n okk T fl" "okk key" "length key + length data \<le> bt_ovflsize t"
    and "4 * NBLEAFDBT (length key) (length data) \<le> bt_psize t - BTDATAOFF"
    and "bt_flags t AND B_RDONLY = 0" "f = 0 \<or> f = R_NOOVERWRITE" "\<forall>n. bt_grow t n"
    and "n < 50" "memory t (n + 2)"
  shows "\<exists>st t' T' n' fl'. bt_put t key data f = Some (st, t') \<and> file_ok t' n' okk T' fl' \<and> keeps t t' \<and>
    (n' = n \<or> n' = n + 1) \<and>
    (if f = R_NOOVERWRITE \<and> db_map t T key \<noteq> None
     then st = RET_SPECIAL \<and> recs T' = recs T \<and> answers t' okk (db_map t T)
     else st = RET_SUCCESS \<and> recs T' = put_list (bt_cmp_fn t) key data (recs T) \<and>
       answers t' okk (\<lambda>k. if bt_cmp_fn t k key = 0 then Some data else db_map t T k))"
proof -
  note db = file_okD(1) [OF assms(1)]
  obtain t' T' n' fl' where P: "bt_put t key data f = Some (if put_status t T key f then RET_SPECIAL else RET_SUCCESS, t')"
    "file_ok t' n' okk T' fl'" "keeps t t'" "n' = n \<or> n' = n + 1"
    "recs T' = (if put_status t T key f then recs T else put_list (bt_cmp_fn t) key data (recs T))"
    using put_file [OF assms(1-8)] assms(9) by auto
  have st: "put_status t T key f \<longleftrightarrow> f = R_NOOVERWRITE \<and> db_map t T key \<noteq> None"
    by (simp add: put_status_def db_map_def)
  note ans = db_answers [OF file_okD(1) [OF P(2)] keeps_grow [OF P(3) assms(7)]]
  show ?thesis
  proof (cases "put_status t T key f")
    case True
    then have "answers t' okk (db_map t T)" using P(5) keeps_cmp [OF P(3)] by (intro ans) (simp add: db_map_def)
    then show ?thesis using P st True
      by (intro exI [of _ RET_SPECIAL] exI [of _ t'] exI [of _ T'] exI [of _ n'] exI [of _ fl']) simp
  next
    case False
    then have r: "recs T' = put_list (bt_cmp_fn t) key data (recs T)" using P(5) by simp
    have "db_map t' T' k = (if bt_cmp_fn t k key = 0 then Some data else db_map t T k)" if "okk k" for k
      unfolding db_map_def keeps_cmp [OF P(3)] r
      using key_order.lookup_put [OF db_okD(1) [OF db] recs_sorted [OF db] assms(2) that] .
    then have "answers t' okk (\<lambda>k. if bt_cmp_fn t k key = 0 then Some data else db_map t T k)"
      by (intro ans) simp
    then show ?thesis using P st False r
      by (intro exI [of _ RET_SUCCESS] exI [of _ t'] exI [of _ T'] exI [of _ n'] exI [of _ fl']) simp
  qed
qed

text \<open>A database of one full leaf, the page of 68 bytes with three records.\<close>

definition tiny_key :: "u8 list \<Rightarrow> bool" where
  "tiny_key k \<longleftrightarrow> length k \<le> 3"

lemma tiny_sep: "key_sep tiny_key bt_defcmp bt_defpfx"
proof
  have small: "small_key k" if "tiny_key k" for k using that by (simp add: tiny_key_def)
  fix a b c :: "u8 list"
  assume a: "tiny_key a"
  show "bt_defcmp a a = 0" "bt_defcmp [] a \<le> 0" using defkey.cmp_refl defpfx.least(2) small a by blast+
  assume b: "tiny_key b"
  show "bt_defcmp a b < 0 \<longleftrightarrow> 0 < bt_defcmp b a" using defkey.cmp_sym small a b by blast
  show "tiny_key (take (bt_defpfx a b) b) \<and> bt_defcmp a (take (bt_defpfx a b) b) < 0 \<and>
      bt_defcmp (take (bt_defpfx a b) b) b \<le> 0" if "bt_defcmp a b < 0"
    using defpfx.separates [OF small small that] a b by (simp add: tiny_key_def)
  assume c: "tiny_key c"
  show "bt_defcmp a c \<le> 0" if "bt_defcmp a b \<le> 0" "bt_defcmp b c \<le> 0"
    using defkey.cmp_trans [OF small small small that] a b c by blast
qed (simp add: tiny_key_def)

definition full_tree :: "PAGE \<Rightarrow> BTREE" where
  "full_tree h = sample_tree\<lparr>bt_mp := [1 \<mapsto> h], bt_psize := 68, bt_malloc := Some (replicate 48 0),
     bt_spare := (\<lambda>p. Some (empty_leaf 68))\<rparr>"

lemma full_tree_file:
  "\<exists>h. pg_full h 12 \<and> file_ok (full_tree h) 0 tiny_key (PLeaf P_ROOT (small_recs 3)) []"
proof -
  obtain h where h: "leaf_page h (small_recs 3)" "links h = links (empty_leaf 68)" "length (body h) = 48"
    using small_leaf [of 3] by blast
  have l: "flags h = P_BLEAF" "pgno h = 1" "nextpg h = 0" "prevpg h = 0" using h(2) by (simp_all add: links_def empty_leaf_def)
  let ?t = "full_tree h" and ?T = "PLeaf P_ROOT (small_recs 3)"
  have recs: "small_recs 3 = [([0], [0], 0), ([1], [1], 0), ([2], [2], 0)]" by (simp add: small_recs_def upt_eval)
  have c: "bt_defcmp [0] [1] < 0" "bt_defcmp [0] [2] < 0" "bt_defcmp [1] [2] < 0"
    by (simp_all add: bt_defcmp_less)
  have "pg_full h 12"
    using page_items_full(1) [of h "map leaf_item (small_recs 3)" 12] h(1,3) small_recs_isize [of 3]
    by (simp add: leaf_page_def small_recs_def)
  moreover have at: "leaf_at ?t 1 (small_recs 3)" using h l by (simp add: leaf_at_def full_tree_def recs)
  have "db_ok ?t 0 tiny_key ?T"
    using at tiny_sep l c
    by (auto simp: db_ok_def key_sep_def keys_in_def between_def leaf_links_def order_ok_def full_tree_def sample_tree_def
        recs tiny_key_def)
  moreover have "tree_links ?t ?T"
    unfolding tree_links_def
  proof
    fix d show "leaf_links ?t (level d ?T)"
      using l by (cases d) (simp_all add: leaf_links_def full_tree_def)
  qed
  moreover have "tree_ok ?t []" "free_of [] (pages ?T)"
    using h(3) by (auto simp: full_tree_def sample_tree_def tree_ok_def free_of_def empty_leaf_def)
  moreover have "sizes_ok tiny_key ?t" "small_recs_in ?t (recs ?T)"
    by (auto simp: sizes_ok_def small_recs_in_def full_tree_def tiny_key_def NBINTERNAL_def NBLEAFDBT_def LALIGN_def recs_def recs)
  ultimately show ?thesis
    using tiny_sep by (intro exI [of _ h]) (auto simp: file_ok_def full_tree_def sample_tree_def)
qed

theorem bt_put_correct_witness:
  "\<exists>h t' T' n' fl'. pg_full h (NBLEAFDBT 1 1) \<and> bt_put (full_tree h) [3] [3] 0 = Some (RET_SUCCESS, t') \<and>
    file_ok t' n' tiny_key T' fl' \<and> recs T' = small_recs 3 @ [([3], [3], 0)] \<and>
    (\<exists>t''. bt_get t' [3] 0 = Some (RET_SUCCESS, Some [3], t''))"
proof -
  have nb: "NBLEAFDBT 1 1 = 12" by (simp add: NBLEAFDBT_def LALIGN_def)
  obtain h where h: "pg_full h 12" "file_ok (full_tree h) 0 tiny_key (PLeaf P_ROOT (small_recs 3)) []"
    using full_tree_file by blast
  have c: "bt_cmp_fn (full_tree h) = bt_defcmp" "bt_defcmp [3] [3] = 0" by (simp_all add: full_tree_def sample_tree_def bt_defcmp_less)
  obtain t' T' n' fl' where P: "bt_put (full_tree h) [3] [3] 0 = Some (RET_SUCCESS, t')" "file_ok t' n' tiny_key T' fl'"
    "recs T' = put_list bt_defcmp [3] [3] (recs (PLeaf P_ROOT (small_recs 3)))"
    "answers t' tiny_key (\<lambda>k. if bt_defcmp k [3] = 0 then Some [3] else db_map (full_tree h) (PLeaf P_ROOT (small_recs 3)) k)"
    using bt_put_correct [OF h(2), of "[3]" "[3]" 0] c(1) nb
    by (auto simp: full_tree_def sample_tree_def tiny_key_def memory_def)
  have g: "0 < bt_defcmp [3] [0]" "0 < bt_defcmp [3] [1]" "0 < bt_defcmp [3] [2]"
    by (simp_all add: bt_defcmp_pos)
  have "recs T' = small_recs 3 @ [([3], [3], 0)]"
    using P(3) g by (simp add: recs_def small_recs_def upt_eval)
  moreover have "\<exists>t''. bt_get t' [3] 0 = Some (RET_SUCCESS, Some [3], t'')"
    using P(4) [unfolded answers_def, rule_format, of "[3]"] c(2) by (simp add: tiny_key_def)
  ultimately show ?thesis using h(1) P(1,2) nb by metis
qed

text \<open>
  C10. On a database whose pages represent a tree, \<^verbatim>\<open>__bt_delete\<close> of a key that is not there answers
  \<^verbatim>\<open>RET_SPECIAL\<close> and changes no record. Otherwise it answers \<^verbatim>\<open>RET_SUCCESS\<close> and removes the record of the
  key and no other: \<^verbatim>\<open>__bt_get\<close> does not find the key afterwards, and it finds what it found before
  under every other key. The pages represent a tree again. There are no duplicates and no overflow
  items, and no leaf but the root becomes empty, so that no page is deleted.
\<close>

theorem bt_delete_correct:
  assumes "db_ok t n okk T" "okk key" "bt_flags t AND B_RDONLY = 0" "\<forall>n. bt_grow t n"
    and "0 < n \<longrightarrow> (\<forall>l\<in>set (leaves T). 1 < length (snd l))"
  shows "\<exists>t' T'. bt_delete t key 0 = Some (if db_map t T key = None then RET_SPECIAL else RET_SUCCESS, t') \<and>
    db_ok t' n okk T' \<and> keeps t t' \<and> recs T' = del_list (bt_cmp_fn t) key (recs T) \<and>
    answers t' okk (\<lambda>k. if bt_cmp_fn t k key = 0 then None else db_map t T k)"
proof -
  obtain t' T' where P: "bt_delete t key 0 = Some (if db_map t T key = None then RET_SPECIAL else RET_SUCCESS, t')"
    "db_ok t' n okk T'" "keeps t t'" "recs T' = del_list (bt_cmp_fn t) key (recs T)"
    using delete_db [OF assms] unfolding db_map_def by blast
  have "db_map t' T' k = (if bt_cmp_fn t k key = 0 then None else db_map t T k)" if "okk k" for k
    unfolding db_map_def keeps_cmp [OF P(3)] P(4)
    using key_order.lookup_del [OF db_okD(1) [OF assms(1)] recs_sorted [OF assms(1)] assms(2) that] .
  then have "answers t' okk (\<lambda>k. if bt_cmp_fn t k key = 0 then None else db_map t T k)"
    by (intro db_answers [OF P(2) keeps_grow [OF P(3) assms(4)]]) simp
  then show ?thesis using P by (intro exI [of _ t'] exI [of _ T']) simp
qed

text \<open>A database of one record.\<close>

lemma sample_record:
  "\<exists>h. leaf_insert (empty_leaf 512) 0 [1, 2] [3] 0 = Some h \<and>
    db_ok (set_page P_ROOT h sample_tree) 0 small_key (PLeaf P_ROOT [([1, 2], [3], 0)])"
proof -
  obtain h where h: "leaf_insert (empty_leaf 512) 0 [1, 2] [3] 0 = Some h" "leaf_page h [([1, 2], [3], 0)]"
    "links h = links (empty_leaf 512)"
    using leaf_insert_rec [OF empty_leaf_page [of 512], of 0 "[1, 2]" "[3]" 0] empty_leaf_room
    by (auto simp: numeral_2_eq_2)
  have "length (body h) = 492" using leaf_insert_length [OF h(1)] by (simp add: empty_leaf_def)
  then have "db_ok (set_page P_ROOT h sample_tree) 0 small_key (PLeaf P_ROOT [([1, 2], [3], 0)])"
    using h(2) links_sel [OF h(3)] defkey.key_order_axioms
    by (auto simp: db_ok_def sample_tree_def leaf_at_def keys_in_def leaf_links_def order_ok_def empty_leaf_def
        between_def)
  then show ?thesis using h(1) by blast
qed

theorem bt_delete_correct_witness:
  "\<exists>h t' T'. leaf_insert (empty_leaf 512) 0 [1, 2] [3] 0 = Some h \<and>
    bt_delete (set_page P_ROOT h sample_tree) [1, 2] 0 = Some (RET_SUCCESS, t') \<and>
    db_ok t' 0 small_key T' \<and> recs T' = [] \<and> (\<exists>t''. bt_get t' [1, 2] 0 = Some (RET_SPECIAL, None, t''))"
proof -
  obtain h where h: "leaf_insert (empty_leaf 512) 0 [1, 2] [3] 0 = Some h"
    "db_ok (set_page P_ROOT h sample_tree) 0 small_key (PLeaf P_ROOT [([1, 2], [3], 0)])"
    using sample_record by blast
  let ?t = "set_page P_ROOT h sample_tree" and ?T = "PLeaf P_ROOT [([1, 2], [3], 0)]"
  have c: "bt_cmp_fn ?t = bt_defcmp" "bt_defcmp [1, 2] [1, 2] = 0" by (simp_all add: sample_tree_def bt_defcmp_less)
  have m: "db_map ?t ?T [1, 2] = Some [3]" using c by (simp add: db_map_def lookup_list_def recs_def)
  obtain t' T' where P: "bt_delete ?t [1, 2] 0 = Some (RET_SUCCESS, t')" "db_ok t' 0 small_key T'"
    "recs T' = del_list bt_defcmp [1, 2] (recs ?T)"
    "answers t' small_key (\<lambda>k. if bt_defcmp k [1, 2] = 0 then None else db_map ?t ?T k)"
    using bt_delete_correct [OF h(2), of "[1, 2]"] c(1) m by (auto simp: sample_tree_def)
  have "\<exists>t''. bt_get t' [1, 2] 0 = Some (RET_SPECIAL, None, t'')"
    using P(4) [unfolded answers_def, rule_format, of "[1, 2]"] c(2) by simp
  then show ?thesis using h(1) P(1-3) c(2) by (intro exI [of _ h] exI [of _ t'] exI [of _ T']) (simp add: recs_def)
qed

text \<open>
  C9. A scan with \<^verbatim>\<open>R_FIRST\<close> and \<^verbatim>\<open>R_NEXT\<close> of a database whose pages represent a tree gives every record once,
  in ascending order of the keys, across the pages, and then \<^verbatim>\<open>RET_SPECIAL\<close>; a scan with \<^verbatim>\<open>R_LAST\<close> and
  \<^verbatim>\<open>R_PREV\<close> gives them in the opposite order.
\<close>

theorem bt_scan_correct:
  assumes "db_ok t n okk T" "\<forall>n. bt_grow t n"
  shows "sorted_wrt (\<lambda>a b. bt_cmp_fn t a b < 0) (map fst (recs T)) \<and>
    (\<exists>t'. bt_scan (Suc (length (recs T))) t R_FIRST R_NEXT = Some (map kd (recs T), RET_SPECIAL, t')) \<and>
    (\<exists>t'. bt_scan (Suc (length (recs T))) t R_LAST R_PREV = Some (rev (map kd (recs T)), RET_SPECIAL, t'))"
  using recs_sorted [OF assms(1)] scan_db [OF assms] by simp

theorem bt_scan_correct_witness:
  "\<exists>h t'. leaf_insert (empty_leaf 512) 0 [1, 2] [3] 0 = Some h \<and>
    bt_scan 2 (set_page P_ROOT h sample_tree) R_FIRST R_NEXT = Some ([([1, 2], [3])], RET_SPECIAL, t')"
proof -
  obtain h where h: "leaf_insert (empty_leaf 512) 0 [1, 2] [3] 0 = Some h"
    "db_ok (set_page P_ROOT h sample_tree) 0 small_key (PLeaf P_ROOT [([1, 2], [3], 0)])"
    using sample_record by blast
  have g: "\<forall>n. bt_grow (set_page P_ROOT h sample_tree) n" by (simp add: sample_tree_def)
  show ?thesis
    using bt_scan_correct [OF h(2) g] h(1) unfolding recs_def numeral_2_eq_2 by (auto simp: kd_def)
qed

end
