(* ===== verification/Spec2Isabelle.thy ===== *)
theory Spec2Isabelle
  imports Tea Base64 Md5 Sha256 Aes_Cbc Aes128 Mutex Samthread Strfmt Strcopy Chksum Times Arg_Helpers Rng Mpool Linux_List
    Bt_Map
begin

text \<open>
  \<^bold>\<open>A verification of samlib\<close>

  samlib is a C library of small, mostly independent parts: ciphers and digests, a base64
  codec, formatted output and string copies, helpers for times, sizes and numbers, random
  number generators, threads with their locks, doubly linked lists, and an embedded Berkeley
  DB 1.85. This development models the parts that compute on their own data, function by
  function, and states what makes each of them correct. The documentation of the public
  functions is in \<^verbatim>\<open>samlib.h\<close>.

  \<^bold>\<open>How the code is modelled.\<close> Machine integers are words of their width, or integers where the
  source computes in \<^verbatim>\<open>int\<close> or \<^verbatim>\<open>long\<close> and overflow is undefined; then the model checks the
  range and the undefined case is the value \<open>None\<close>. A buffer is a list, a pointer into it an
  offset, and an access outside is again \<open>None\<close>, so that a theorem that gives \<open>Some\<close> also says
  that the code stays in its buffers. Where buffers may overlap (CBC mode, times) or nodes are
  linked (lists, queues) there is one memory with addresses. Error returns are values of the
  results. What the code gets from outside (system calls, instructions of the processor,
  \<^verbatim>\<open>malloc\<close>) is an argument, and may fail at any call. Concurrency is a step
  relation with one step for each atomic access.

  \<^bold>\<open>The theories.\<close>

  \<^item> \<open>Prelude\<close>: bytes and words, buffers with checked writes, C strings; the simplification rules the components share.
  \<^item> \<open>Tea\<close> (\<^verbatim>\<open>tea.c\<close>): the block cipher and the in-place functions; decryption returns the zero padded message.
  \<^item> \<open>Base64\<close> (\<^verbatim>\<open>base64.c\<close>): the encoder is RFC 4648, the decoder inverts it and never leaves its buffers.
  \<^item> \<open>Block_Hash\<close>: the interface of hashes on 64 byte blocks, a locale in which cutting the message
    into updates and padding are settled once; \<open>Md5\<close> (\<^verbatim>\<open>md5.c\<close>) and \<open>Sha256\<close> (\<^verbatim>\<open>sha256.c\<close>)
    interpret it, and show that their compression functions are those of RFC 1321 and FIPS 180-2,
    in the rolled and in the unrolled form. The constants of the standards are not taken from the code:
    those of SHA-256 are computed from the roots of the primes, the functions of MD5 are given bit by bit.
  \<^item> \<open>Aes_Spec\<close>: FIPS 197. \<open>Aes_X86\<close> (\<^verbatim>\<open>aes-x86.c\<close>), \<open>Aes128\<close> (\<^verbatim>\<open>aes128.c\<close>) and \<open>Aes_Conte\<close> (the cipher of
    \<^verbatim>\<open>aes-cbc.c\<close>) are three implementations of it; \<open>Cbc_Mode\<close> is the mode for any block cipher, a
    locale that \<open>Aes_Cbc\<close> (the functions of \<^verbatim>\<open>aes-cbc.c\<close>) interprets for every key.
  \<^item> \<open>Mutex\<close> (\<^verbatim>\<open>mutex.c\<close>, \<^verbatim>\<open>samthread.h\<close>): the interleavings of the spinlock and of the futex mutex.
    \<open>Samthread\<close> (\<^verbatim>\<open>samthread.c\<close>): creation and join of threads.
  \<^item> \<open>Numstr\<close> and \<open>Strfmt\<close> (\<^verbatim>\<open>strfmt.c\<close>): numbers to text and the formatter, which
    refines a text that is computed from the format and the arguments alone.
  \<^item> \<open>Strcopy\<close> (\<^verbatim>\<open>strlcpy.c\<close>, \<^verbatim>\<open>safecpy.c\<close>): the bounded copies, two interpretations of one
    locale. \<open>Arg_Helpers\<close> (\<^verbatim>\<open>arg-helpers.c\<close>), on top of both: durations, sizes and numbers as text.
  \<^item> \<open>Chksum\<close> (\<^verbatim>\<open>crc16.c\<close>), \<open>Times\<close> (\<^verbatim>\<open>time.c\<close>, \<^verbatim>\<open>globals.c\<close>), \<open>Rng\<close> (\<^verbatim>\<open>xorshift.c\<close>, \<^verbatim>\<open>random.c\<close>).
  \<^item> \<open>Ring\<close>: chains and rings of links and the interface of queues, a locale. \<open>Circleq\<close>
    (\<^verbatim>\<open>db.1.85/include/queue.h\<close>) and \<open>Linux_List\<close> (\<^verbatim>\<open>linux-list.h\<close>) interpret it; for the latter, every
    program of calls refines the operations on sequences.
  \<^item> \<open>Mpool\<close> (\<^verbatim>\<open>db.1.85/mpool.c\<close>): the page cache, on the queues as lists. Its histories of
    calls, with system calls that fail anywhere, refine a map from pages to contents.
  \<^item> The B-tree of \<^verbatim>\<open>db.1.85\<close>, in layers. \<open>Bt_Key\<close> (\<^verbatim>\<open>bt_utils.c\<close>): the comparison of keys, a locale
    \<open>key_order\<close> that the default comparison interprets, and its extension \<open>key_sep\<close> by a prefix function
    that separates keys. \<open>Bt_Page\<close> (\<^verbatim>\<open>btree.h\<close>, \<^verbatim>\<open>bt_page.c\<close>): pages
    as bytes, read and written through the macros for their items; insertion and deletion on a page are
    those on the list of its items. \<open>Bt_Overflow\<close> (\<^verbatim>\<open>bt_overflow.c\<close>, allocation of \<^verbatim>\<open>bt_page.c\<close>): items on chains
    of pages and the free list. \<open>Bt_Search\<close> (\<^verbatim>\<open>bt_search.c\<close>, \<^verbatim>\<open>bt_get.c\<close>), \<open>Bt_Split\<close> and \<open>Bt_Grow\<close>
    (\<^verbatim>\<open>bt_split.c\<close>), \<open>Bt_Put\<close> (\<^verbatim>\<open>bt_put.c\<close>), \<open>Bt_Delete\<close> (\<^verbatim>\<open>bt_delete.c\<close>), \<open>Bt_Seq\<close>
    (\<^verbatim>\<open>bt_seq.c\<close>): the operations, each on every branch.
  \<^item> \<open>Bt_Tree\<close>: the abstract tree of a database and when the pages of a state represent it.
    \<open>Bt_Store\<close>, \<open>Bt_Update\<close>, \<open>Bt_Scan\<close>: storing on a leaf with room, deleting, reading and scanning are insertion,
    deletion, lookup and enumeration on the sorted list of its records.
  \<^item> The split of pages, from the bottom to the top. \<open>Bt_Fill\<close> and \<open>Bt_Halves\<close>: \<^verbatim>\<open>bt_psplit\<close>,
    \<^verbatim>\<open>bt_page\<close> and \<^verbatim>\<open>bt_root\<close> on the items of a page, with the page that is allocated and the links of its
    neighbours. \<open>Bt_Context\<close> and \<open>Bt_Path\<close>: a tree as a path of frames, which is what the stack of the search
    holds, and the page at its end. \<open>Bt_Parent\<close>: the item that a parent gets for a new page. \<open>Bt_Relink\<close>:
    the chains of pages on each level. \<open>Bt_Stored\<close>, \<open>Bt_Root\<close>, \<open>Bt_Climb\<close>, \<open>Bt_Ascent\<close>, \<open>Bt_Divide\<close>: one
    split with its new item, a new root, one step of the walk to the root and the whole walk. \<open>Bt_Growth\<close>:
    \<^verbatim>\<open>__bt_put\<close> on a database of any number of pages.
  \<^item> \<open>Bt_Map\<close> puts this together: a database is a map.

  \<^bold>\<open>State and operations.\<close> The contexts of the ciphers and digests, the output buffer of the
  formatter, the seeds, the buckets and the pool are records with the fields of the structs;
  every function takes the record and returns it changed. The global state of the source (the
  table \<^verbatim>\<open>alphabet\<close> of the codec, the static buffer of \<^verbatim>\<open>nice_number\<close>, the flags
  that disable the hardware, \<^verbatim>\<open>seeded\<close>) is passed and returned too. Loops are
  recursive functions over what they consume. Fuel occurs in two places only: the loops over a
  queue or a list, where the theorems hold for every fuel above the number of elements, and
  nowhere can a theorem hold because the fuel ran out, since that is the value \<open>None\<close>.

  \<^bold>\<open>Composition.\<close> \<open>strfmt\<close> is used by \<open>nice_duration\<close>; the hardware functions by the two AES
  interfaces, which agree with their software paths; the queue macros by the page cache.
  The B-tree sees the page cache through what \<open>Mpool\<close> proves of it: a map from page numbers to the
  contents last stored, \<open>bt_mp\<close>, in which a page is known by its number; a page that cannot be
  read is \<open>None\<close> there. A pointer to a page is its number, a pointer into a page an offset. The
  outer \<open>None\<close> of an operation is an access outside of a page or a loop that does not end, so the theorems
  that give \<open>Some\<close> exclude both.

  \<^bold>\<open>Where the code does not do what it means to.\<close> Several theorems describe defects: the
  carry lost in \<^verbatim>\<open>chksum16\<close>, the length field of MD5, the overread of the key expansion,
  decryption in place, the store in \<^verbatim>\<open>mutex_unlock\<close>, the stack that
  \<^verbatim>\<open>samthread_join\<close> unmaps, the reseeding of \<^verbatim>\<open>xorshift128plus\<close>, the output filter of the page cache, the
  split of a page that leaves too little room for the new record, the result of \<^verbatim>\<open>strfmt\<close> with no room.

  \<^bold>\<open>Not modelled.\<close> Opening and closing of databases with their byte order (\<^verbatim>\<open>bt_open.c\<close>, \<^verbatim>\<open>bt_close.c\<close>,
  \<^verbatim>\<open>bt_conv.c\<close>, \<^verbatim>\<open>db.c\<close>) and \<^verbatim>\<open>samdb.c\<close> on top; the pins that the B-tree takes on pages and the
  values of \<^verbatim>\<open>errno\<close>. \<^verbatim>\<open>walkfiles.c\<close>, \<^verbatim>\<open>ip.c\<close>, \<^verbatim>\<open>socket.c\<close>, \<^verbatim>\<open>readproc.c\<close>, \<^verbatim>\<open>file.c\<close>,
  \<^verbatim>\<open>copy.c\<close>, \<^verbatim>\<open>mkdir-p.c\<close>, \<^verbatim>\<open>must.c\<close>, \<^verbatim>\<open>readfile.c\<close>, \<^verbatim>\<open>readcmd.c\<close>, \<^verbatim>\<open>do-system.c\<close>, \<^verbatim>\<open>dumpstack.c\<close>,
  \<^verbatim>\<open>slackware.c\<close>, \<^verbatim>\<open>is-elf.c\<close>, \<^verbatim>\<open>binary.c\<close>: layers over system calls and stdio. \<^verbatim>\<open>cpuid.c\<close> and
  \<^verbatim>\<open>tsc.c\<close>: inline assembly. Functions in floating point (\<^verbatim>\<open>get_duration\<close>, \<^verbatim>\<open>nicer_mem_len\<close>,
  \<^verbatim>\<open>timeval_delta_d\<close>, \<^verbatim>\<open>mbs\<close>). The pthread and Windows branches, the Windows port with its third-party
  regular expressions, and the tests.
\<close>

end
